(* ===== verification/Prelude.thy ===== *)
theory Prelude
  imports Main "HOL-Library.Multiset" "HOL-Library.Sublist"
begin

text \<open>
  Shared vocabulary of the development: Python exceptions as values, dictionaries as
  association lists in insertion order (as Python dictionaries are), the list slices the
  sources use, and the generic lemmas the component theories share.
\<close>

section \<open>Collections of rules\<close>

named_theorems dict_simps \<open>lookup laws of dictionaries\<close>

section \<open>Exceptions as values\<close>

datatype py_exc =
    AttributeError | IndexError | KeyError | TypeError | ValueError | RuntimeError
  | AssertionError | OSError | OverflowError | NotImplementedError

type_synonym 'a res = "py_exc + 'a"

definition bindE :: "'a res \<Rightarrow> ('a \<Rightarrow> 'b res) \<Rightarrow> 'b res" where
  "bindE m f = (case m of Inl e \<Rightarrow> Inl e | Inr x \<Rightarrow> f x)"

lemma bindE_simps [simp]:
  "bindE (Inl e) f = Inl e"
  "bindE (Inr x) f = f x"
  by (simp_all add: bindE_def)

lemma bindE_Inr_iff: "bindE m f = Inr y \<longleftrightarrow> (\<exists>x. m = Inr x \<and> f x = Inr y)"
  by (cases m) auto

section \<open>Dictionaries\<close>

text \<open>
  A Python dictionary keeps the order in which its keys were first inserted; storing under a
  present key keeps its place. \<open>dict_get\<close> is \<^verbatim>\<open>d.get(k)\<close>, \<open>dict_set\<close> is
  \<^verbatim>\<open>d[k] = v\<close> and \<open>dict_pop\<close> is the dictionary after \<^verbatim>\<open>d.pop(k, None)\<close>.
\<close>

type_synonym ('k, 'v) dict = "('k \<times> 'v) list"

definition dict_get :: "('k, 'v) dict \<Rightarrow> 'k \<Rightarrow> 'v option" where
  "dict_get d k = map_of d k"

fun dict_set :: "'k \<Rightarrow> 'v \<Rightarrow> ('k, 'v) dict \<Rightarrow> ('k, 'v) dict" where
  "dict_set k v [] = [(k, v)]"
| "dict_set k v ((a, b) # d) = (if a = k then (k, v) # d else (a, b) # dict_set k v d)"

definition dict_pop :: "'k \<Rightarrow> ('k, 'v) dict \<Rightarrow> ('k, 'v) dict" where
  "dict_pop k d = filter (\<lambda>p. fst p \<noteq> k) d"

abbreviation dict_keys :: "('k, 'v) dict \<Rightarrow> 'k list" where
  "dict_keys d \<equiv> map fst d"

abbreviation dict_values :: "('k, 'v) dict \<Rightarrow> 'v list" where
  "dict_values d \<equiv> map snd d"

definition dict_has :: "('k, 'v) dict \<Rightarrow> 'k \<Rightarrow> bool" where
  "dict_has d k \<longleftrightarrow> k \<in> set (dict_keys d)"

abbreviation dict_ok :: "('k, 'v) dict \<Rightarrow> bool" where
  "dict_ok d \<equiv> distinct (dict_keys d)"

lemma dict_get_Nil [simp]: "dict_get [] k = None"
  by (simp add: dict_get_def)

lemma dict_get_Cons [simp]:
  "dict_get ((a, b) # d) k = (if a = k then Some b else dict_get d k)"
  by (simp add: dict_get_def)

lemma dict_get_set [simp, dict_simps]:
  "dict_get (dict_set k v d) k' = (if k' = k then Some v else dict_get d k')"
  by (induction d) auto

lemma dict_get_pop [simp, dict_simps]:
  "dict_get (dict_pop k d) k' = (if k' = k then None else dict_get d k')"
  by (induction d) (auto simp: dict_pop_def)

lemma dict_keys_set:
  "dict_keys (dict_set k v d) = (if k \<in> set (dict_keys d) then dict_keys d else dict_keys d @ [k])"
  by (induction d) force+

lemma dict_has_iff: "dict_has d k \<longleftrightarrow> dict_get d k \<noteq> None"
  by (simp add: dict_has_def dict_get_def map_of_eq_None_iff)

lemma dict_ok_set [simp]: "dict_ok d \<Longrightarrow> dict_ok (dict_set k v d)"
  by (simp add: dict_keys_set)

lemma dict_keys_pop: "dict_keys (dict_pop k d) = filter (\<lambda>a. a \<noteq> k) (dict_keys d)"
  by (induction d) (auto simp: dict_pop_def)

lemma dict_ok_pop [simp]: "dict_ok d \<Longrightarrow> dict_ok (dict_pop k d)"
  by (simp add: dict_keys_pop)

lemma dict_get_Some_in: "dict_get d k = Some v \<Longrightarrow> (k, v) \<in> set d"
  by (simp add: dict_get_def map_of_SomeD)

lemma dict_get_iff_in: "dict_ok d \<Longrightarrow> dict_get d k = Some v \<longleftrightarrow> (k, v) \<in> set d"
  by (simp add: dict_get_def)

lemma dict_set_fresh: "k \<notin> set (dict_keys d) \<Longrightarrow> dict_set k v d = d @ [(k, v)]"
  by (induction d) auto

lemma dict_pop_fresh: "k \<notin> set (dict_keys d) \<Longrightarrow> dict_pop k d = d"
  by (auto simp: dict_pop_def filter_id_conv)

lemma dict_get_filter_keys:
  "dict_get (filter (\<lambda>p. fst p \<notin> A) d) k = (if k \<in> A then None else dict_get d k)"
  by (induction d) auto

section \<open>Lists\<close>

lemma prefix_take:
  assumes "prefix us (xs @ ys)" and "n \<le> length us" and "n \<le> length xs"
  shows "take n us = take n xs"
proof -
  from assms(1) obtain zs where "xs @ ys = us @ zs" by (auto simp: prefix_def)
  then have "take n (xs @ ys) = take n (us @ zs)" by simp
  then show ?thesis using assms(2,3) by simp
qed

lemma append_take_eq: "xs @ ys = us @ vs \<Longrightarrow> n \<le> length us \<Longrightarrow> n \<le> length xs \<Longrightarrow> take n us = take n xs"
  by (rule prefix_take [of us xs ys]) (auto simp: prefix_def)

end
