(* ===== verification/Py_Strings.thy ===== *)
theory Py_Strings
  imports Prelude
begin

text \<open>
  The string operations of Python's standard library that the modelled sources call, on
  \<^typ>\<open>string\<close> (a list of characters): prefix and suffix tests, splitting, stripping, joining,
  decimal printing and the integer parser \<^verbatim>\<open>int(s)\<close>.
\<close>

section \<open>Tests, splitting and joining\<close>

definition startswith :: "'a list \<Rightarrow> 'a list \<Rightarrow> bool" where
  "startswith s p \<longleftrightarrow> take (length p) s = p"

definition endswith :: "string \<Rightarrow> string \<Rightarrow> bool" where
  "endswith s p \<longleftrightarrow> length p \<le> length s \<and> drop (length s - length p) s = p"

text \<open>\<^verbatim>\<open>s.split(c)\<close>: always at least one part, empty parts kept.\<close>

fun split_on :: "'a \<Rightarrow> 'a list \<Rightarrow> 'a list list" where
  "split_on c [] = [[]]"
| "split_on c (x # xs) =
     (if x = c then [] # split_on c xs
      else (case split_on c xs of [] \<Rightarrow> [[x]] | p # ps \<Rightarrow> (x # p) # ps))"

text \<open>\<^verbatim>\<open>s.split(c, 1)\<close> on a string that contains \<open>c\<close>: the parts around the first \<open>c\<close>.\<close>

definition split_once :: "'a \<Rightarrow> 'a list \<Rightarrow> 'a list \<times> 'a list" where
  "split_once c s = (takeWhile (\<lambda>x. x \<noteq> c) s, drop 1 (dropWhile (\<lambda>x. x \<noteq> c) s))"

text \<open>\<^verbatim>\<open>sep.join(parts)\<close>\<close>

fun join :: "'a list \<Rightarrow> 'a list list \<Rightarrow> 'a list" where
  "join sep [] = []"
| "join sep [x] = x"
| "join sep (x # y # ys) = x @ sep @ join sep (y # ys)"

definition is_space :: "char \<Rightarrow> bool" where
  "is_space c \<longleftrightarrow> c \<in> {CHR '' '', CHR 0x09, CHR 0x0A, CHR 0x0B, CHR 0x0C, CHR 0x0D,
     CHR 0x1C, CHR 0x1D, CHR 0x1E, CHR 0x1F, CHR 0x85, CHR 0xA0}"

definition strip :: "string \<Rightarrow> string" where
  "strip s = rev (dropWhile is_space (rev (dropWhile is_space s)))"

text \<open>\<^verbatim>\<open>str.lower\<close> on ASCII letters.\<close>

definition py_lower :: "string \<Rightarrow> string" where
  "py_lower s = map (\<lambda>c. let n = of_char c :: nat in if 65 \<le> n \<and> n \<le> 90 then char_of (n + 32) else c) s"

lemma split_on_not_Nil [simp]: "split_on c s \<noteq> []"
  by (induction s) (auto split: list.splits)

lemma split_on_no_sep: "p \<in> set (split_on c s) \<Longrightarrow> c \<notin> set p"
  by (induction s arbitrary: p) (auto split: list.splits if_splits)

lemma join_Cons: "join sep (x # ys) = (if ys = [] then x else x @ sep @ join sep ys)"
  by (cases ys) auto

lemma join_split_on: "join [c] (split_on c s) = s"
proof (induction s)
  case (Cons x xs)
  obtain p ps where "split_on c xs = p # ps" by (cases "split_on c xs") auto
  with Cons show ?case by (auto simp: join_Cons)
qed simp

lemma split_on_no_sep_id: "c \<notin> set x \<Longrightarrow> split_on c x = [x]"
  by (induction x) auto

lemma split_on_append: "c \<notin> set x \<Longrightarrow> split_on c (x @ c # y) = x # split_on c y"
  by (induction x) auto

lemma split_on_join: "xs \<noteq> [] \<Longrightarrow> \<forall>x \<in> set xs. c \<notin> set x \<Longrightarrow> split_on c (join [c] xs) = xs"
  by (induction xs) (auto simp: join_Cons split_on_append split_on_no_sep_id)

lemma split_once_append: "c \<notin> set a \<Longrightarrow> split_once c (a @ c # b) = (a, b)"
proof -
  assume "c \<notin> set a"
  then have "\<forall>x\<in>set a. x \<noteq> c" by auto
  then show ?thesis by (simp add: split_once_def takeWhile_append2 dropWhile_append2)
qed

lemma strip_idem [simp]: "strip (strip s) = strip s"
proof -
  define t where "t = dropWhile is_space s"
  define u where "u = dropWhile is_space (rev t)"
  have head: "t = [] \<or> \<not> is_space (hd t)"
    unfolding t_def using hd_dropWhile [of is_space s] by blast
  have "rev t = takeWhile is_space (rev t) @ u"
    unfolding u_def by (rule takeWhile_dropWhile_id [symmetric])
  then obtain w where "rev t = rev w @ u" by (metis rev_rev_ident)
  then have t: "t = rev u @ w" by (metis rev_append rev_rev_ident)
  have "rev u = [] \<or> \<not> is_space (hd (rev u))"
  proof (cases "rev u")
    case (Cons a list)
    then have "hd t = a" "t \<noteq> []" by (simp_all add: t)
    with head Cons show ?thesis by simp
  qed simp
  then have "dropWhile is_space (rev u) = rev u"
    by (cases "rev u") auto
  moreover have "dropWhile is_space u = u"
    unfolding u_def by (simp add: dropWhile_idem)
  ultimately show ?thesis by (simp add: strip_def t_def [symmetric] u_def [symmetric])
qed

section \<open>Decimal numbers\<close>

definition digit_char :: "nat \<Rightarrow> char" where
  "digit_char d = char_of (48 + d)"

fun show_nat :: "nat \<Rightarrow> string" where
  "show_nat n = (if n < 10 then [digit_char n] else show_nat (n div 10) @ [digit_char (n mod 10)])"

declare show_nat.simps [simp del]

definition digit_val :: "char \<Rightarrow> nat option" where
  "digit_val c = (let n = of_char c in if 48 \<le> n \<and> n < (58::nat) then Some (n - 48) else None)"

text \<open>
  \<^verbatim>\<open>int(s)\<close>: surrounding white space, an optional sign, then digits with single underscores
  allowed between digits; anything else raises \<^verbatim>\<open>ValueError\<close>. The flag says whether the
  previous character was a digit.
\<close>

fun parse_digits :: "nat \<Rightarrow> bool \<Rightarrow> string \<Rightarrow> nat option" where
  "parse_digits acc prev [] = (if prev then Some acc else None)"
| "parse_digits acc prev (c # cs) =
     (case digit_val c of
        Some d \<Rightarrow> parse_digits (10 * acc + d) True cs
      | None \<Rightarrow> if c = CHR ''_'' \<and> prev then parse_digits acc False cs else None)"

definition py_int :: "string \<Rightarrow> int res" where
  "py_int s =
     (case strip s of
        [] \<Rightarrow> Inl ValueError
      | c # cs \<Rightarrow>
          (let (neg, body) = (if c = CHR ''-'' then (True, cs)
                              else if c = CHR ''+'' then (False, cs) else (False, c # cs))
           in case parse_digits 0 False body of
                None \<Rightarrow> Inl ValueError
              | Some n \<Rightarrow> Inr (if neg then - int n else int n)))"

lemma digit_val_digit_char [simp]: "d < 10 \<Longrightarrow> digit_val (digit_char d) = Some d"
  by (simp add: digit_val_def digit_char_def)

lemma parse_digits_append:
  "parse_digits acc prev (xs @ [digit_char d]) =
     (if d < 10 then map_option (\<lambda>n. 10 * n + d) (parse_digits acc prev xs) else None)"
  if "d < 10" and "xs \<noteq> []" and "\<forall>c\<in>set xs. digit_val c \<noteq> None"
  using that(2,3)
proof (induction xs arbitrary: acc prev)
  case (Cons c cs)
  then obtain e where "digit_val c = Some e" by auto
  with Cons \<open>d < 10\<close> show ?case by (cases cs) auto
qed simp

lemma show_nat_digits: "c \<in> set (show_nat n) \<Longrightarrow> digit_val c \<noteq> None"
proof (induction n rule: show_nat.induct)
  case (1 n)
  show ?case
  proof (cases "n < 10")
    case True
    with "1.prems" show ?thesis by (simp add: show_nat.simps [of n])
  next
    case False
    with 1 show ?thesis by (auto simp: show_nat.simps [of n])
  qed
qed

lemma show_nat_not_Nil [simp]: "show_nat n \<noteq> []"
  by (subst show_nat.simps) simp

lemma parse_show_nat: "parse_digits 0 False (show_nat n) = Some n"
proof (induction n rule: show_nat.induct)
  case (1 n)
  show ?case
  proof (cases "n < 10")
    case True
    then show ?thesis by (simp add: show_nat.simps [of n])
  next
    case False
    with 1 have "parse_digits 0 False (show_nat (n div 10)) = Some (n div 10)" by simp
    moreover have "parse_digits 0 False (show_nat (n div 10) @ [digit_char (n mod 10)]) =
      map_option (\<lambda>m. 10 * m + n mod 10) (parse_digits 0 False (show_nat (n div 10)))"
      using parse_digits_append [of "n mod 10" "show_nat (n div 10)" 0 False] show_nat_digits by auto
    ultimately show ?thesis using False by (simp add: show_nat.simps [of n])
  qed
qed

lemma inj_show_nat: "inj show_nat"
  by (metis injI option.inject parse_show_nat)

end
