(* ===== verification/Radix_Key.thy ===== *)
theory Radix_Key
  imports Py_Strings
begin

text \<open>
  Keys of the prefix cache, from \<^verbatim>\<open>RadixKey\<close> of \<^verbatim>\<open>sglang/srt/mem_cache/radix_cache.py\<close>:
  a token sequence, seen either token by token or as overlapping pairs (the bigram view of
  speculative decoding), together with a namespace. The lemmas show that every operation is the
  list operation on the sequence of logical units a key stands for, so that the tree above is
  independent of the view.
\<close>

section \<open>The operations\<close>

record radix_key =
  token_ids :: "int list"
  extra_key :: "string option"
  is_bigram :: bool

datatype key_unit = Tok int | Bigram int int

text \<open>\<^verbatim>\<open>__len__\<close>, and \<^verbatim>\<open>__iter__\<close> as the list it yields.\<close>

definition rk_len :: "radix_key \<Rightarrow> nat" where
  "rk_len k = (if is_bigram k then length (token_ids k) - 1 else length (token_ids k))"

definition rk_units :: "radix_key \<Rightarrow> key_unit list" where
  "rk_units k = (if is_bigram k then map2 Bigram (token_ids k) (tl (token_ids k))
                 else map Tok (token_ids k))"

text \<open>\<^verbatim>\<open>slice.indices\<close> for a step of one, and \<^verbatim>\<open>__getitem__\<close>.\<close>

definition slice_bound :: "nat \<Rightarrow> nat \<Rightarrow> int option \<Rightarrow> nat" where
  "slice_bound n dflt i = (case i of None \<Rightarrow> dflt
     | Some j \<Rightarrow> if j < 0 then nat (max 0 (j + int n)) else min (nat j) n)"

definition rk_slice :: "radix_key \<Rightarrow> int option \<Rightarrow> int option \<Rightarrow> radix_key" where
  "rk_slice k i j =
     (let start = slice_bound (rk_len k) 0 i; stop = slice_bound (rk_len k) (rk_len k) j
      in if is_bigram k
         then k\<lparr>token_ids := (if start < stop then take (stop + 1 - start) (drop start (token_ids k)) else [])\<rparr>
         else k\<lparr>token_ids := take (stop - start) (drop start (token_ids k))\<rparr>)"

definition rk_item :: "radix_key \<Rightarrow> int \<Rightarrow> radix_key res" where
  "rk_item k idx =
     (let i = (if idx < 0 then idx + int (rk_len k) else idx)
      in if i < 0 \<or> int (rk_len k) \<le> i then Inl IndexError
         else Inr (rk_slice k (Some i) (Some (i + 1))))"

abbreviation rk_take :: "radix_key \<Rightarrow> nat \<Rightarrow> radix_key" where
  "rk_take k n \<equiv> rk_slice k None (Some (int n))"

abbreviation rk_drop :: "radix_key \<Rightarrow> nat \<Rightarrow> radix_key" where
  "rk_drop k n \<equiv> rk_slice k (Some (int n)) None"

definition page_aligned :: "nat \<Rightarrow> radix_key \<Rightarrow> radix_key" where
  "page_aligned ps k = (if ps = 1 then k else rk_take k (rk_len k div ps * ps))"

definition maybe_to_bigram_view ::
  "bool \<Rightarrow> radix_key \<Rightarrow> int list option \<Rightarrow> radix_key \<times> int list option" where
  "maybe_to_bigram_view is_eagle k value =
     (if is_eagle \<and> \<not> is_bigram k
      then (let k1 = k\<lparr>is_bigram := True\<rparr> in (k1, map_option (take (rk_len k1)) value))
      else (k, value))"

text \<open>The loop over \<^verbatim>\<open>zip(t0, t1)\<close> that counts the common prefix.\<close>

fun common_len :: "'a list \<Rightarrow> 'a list \<Rightarrow> nat" where
  "common_len (a # as) (b # bs) = (if a \<noteq> b then 0 else Suc (common_len as bs))"
| "common_len _ _ = 0"

text \<open>The loop that compares page by page.\<close>

function common_pages :: "nat \<Rightarrow> nat \<Rightarrow> nat \<Rightarrow> int list \<Rightarrow> int list \<Rightarrow> nat" where
  "common_pages ps min_len i t0 t1 =
     (if ps = 0 \<or> \<not> i < min_len then i
      else if take ps (drop i t0) \<noteq> take ps (drop i t1) then i
      else common_pages ps min_len (i + ps) t0 t1)"
  by pat_completeness auto
termination by (relation "measure (\<lambda>(ps, m, i, t0, t1). m - i)") auto

declare common_pages.simps [simp del]

definition rk_match :: "nat \<Rightarrow> radix_key \<Rightarrow> radix_key \<Rightarrow> nat res" where
  "rk_match ps k other =
     (if extra_key k \<noteq> extra_key other then Inl ValueError
      else let t0 = token_ids k; t1 = token_ids other
      in if is_bigram k
         then let matched = min (common_len t0 t1 - 1) (min (rk_len k) (rk_len other))
              in Inr (if 1 < ps then matched div ps * ps else matched)
         else if ps = 1 then Inr (common_len t0 t1)
         else Inr (common_pages ps (min (rk_len k) (rk_len other)) 0 t0 t1))"

text \<open>
  \<^verbatim>\<open>child_key\<close>: the first page of units, in the namespace of the key. The tuples of the source
  are lists here, and a single unit (page size one) is a list of length one.
\<close>

type_synonym child_key = "string option \<times> key_unit list"

definition child_key :: "nat \<Rightarrow> radix_key \<Rightarrow> child_key res" where
  "child_key ps k =
     (let t = token_ids k
      in if is_bigram k
         then if length t < ps + 1 then Inl IndexError
              else Inr (extra_key k, map (\<lambda>j. Bigram (t ! j) (t ! (j + 1))) [0..<ps])
         else if ps = 1 \<and> t = [] then Inl IndexError
              else Inr (extra_key k, map Tok (take ps t)))"

section \<open>Keys as sequences of units\<close>

lemma length_rk_units [simp]: "length (rk_units k) = rk_len k"
  by (simp add: rk_units_def rk_len_def)

lemma rk_units_nth:
  "j < rk_len k \<Longrightarrow> rk_units k ! j =
    (if is_bigram k then Bigram (token_ids k ! j) (token_ids k ! (j + 1)) else Tok (token_ids k ! j))"
  by (auto simp: rk_units_def rk_len_def nth_tl)

lemma rk_slice_fields [simp]:
  "extra_key (rk_slice k i j) = extra_key k" "is_bigram (rk_slice k i j) = is_bigram k"
  by (simp_all add: rk_slice_def Let_def)

lemma slice_bound_le: "dflt \<le> n \<Longrightarrow> slice_bound n dflt i \<le> n"
  by (auto simp: slice_bound_def split: option.split)

lemma bigram_slice:
  assumes "start < stop" and "stop \<le> length t - 1"
  shows "map2 Bigram (take (stop + 1 - start) (drop start t)) (tl (take (stop + 1 - start) (drop start t))) =
    take (stop - start) (drop start (map2 Bigram t (tl t)))"
  using assms by (intro nth_equalityI) (auto simp: nth_tl algebra_simps)

lemma rk_units_slice:
  "rk_units (rk_slice k i j) =
    (let start = slice_bound (rk_len k) 0 i; stop = slice_bound (rk_len k) (rk_len k) j
     in take (stop - start) (drop start (rk_units k)))"
proof -
  let ?a = "slice_bound (rk_len k) 0 i" and ?b = "slice_bound (rk_len k) (rk_len k) j"
  have b: "?b \<le> rk_len k" by (simp add: slice_bound_le)
  show ?thesis
  proof (cases "is_bigram k")
    case True
    with b show ?thesis
      using bigram_slice [of ?a ?b "token_ids k"]
      by (cases "?a < ?b") (auto simp: rk_units_def rk_slice_def Let_def rk_len_def)
  next
    case False
    then show ?thesis by (simp add: rk_units_def rk_slice_def Let_def take_map drop_map)
  qed
qed

lemma rk_units_take [simp]: "rk_units (rk_take k n) = take n (rk_units k)"
  by (simp add: rk_units_slice slice_bound_def Let_def min_def)

lemma rk_units_drop [simp]: "rk_units (rk_drop k n) = drop n (rk_units k)"
  by (simp add: rk_units_slice slice_bound_def Let_def min_def)

lemma rk_units_between: "rk_units (rk_slice k (Some (int a)) (Some (int b))) = take (b - a) (drop a (rk_units k))"
  by (auto simp: rk_units_slice slice_bound_def Let_def min_def)

lemma rk_len_take [simp]: "rk_len (rk_take k n) = min n (rk_len k)"
  by (metis length_rk_units length_take min.commute rk_units_take)

lemma rk_len_drop [simp]: "rk_len (rk_drop k n) = rk_len k - n"
  by (metis length_drop length_rk_units rk_units_drop)

lemma page_aligned_units [simp]: "rk_units (page_aligned ps k) = take (rk_len k div ps * ps) (rk_units k)"
  using rk_units_take [of k "rk_len k div ps * ps"] by (simp add: page_aligned_def del: rk_units_take)

lemma page_aligned_fields [simp]:
  "extra_key (page_aligned ps k) = extra_key k" "is_bigram (page_aligned ps k) = is_bigram k"
  by (simp_all add: page_aligned_def)

lemma rk_len_page_aligned [simp]: "rk_len (page_aligned ps k) = rk_len k div ps * ps"
  by (metis div_times_less_eq_dividend length_rk_units length_take min.absorb2 page_aligned_units)

lemma common_len_le: "common_len xs ys \<le> length xs" "common_len xs ys \<le> length ys"
  by (induction xs ys rule: common_len.induct) auto

lemma common_len_take: "take (common_len xs ys) xs = take (common_len xs ys) ys"
  by (induction xs ys rule: common_len.induct) auto

lemma common_len_maximal: "take n xs = take n ys \<Longrightarrow> n \<le> length xs \<Longrightarrow> n \<le> length ys \<Longrightarrow> n \<le> common_len xs ys"
proof (induction xs ys arbitrary: n rule: common_len.induct)
  case (1 a as b bs)
  then show ?case by (cases n) auto
qed auto

lemma common_len_eqI:
  assumes "take n xs = take n ys" "n \<le> length xs" "n \<le> length ys"
    and "n < length xs \<Longrightarrow> n < length ys \<Longrightarrow> xs ! n \<noteq> ys ! n"
  shows "common_len xs ys = n"
proof (rule antisym)
  show "n \<le> common_len xs ys" by (rule common_len_maximal [OF assms(1-3)])
  show "common_len xs ys \<le> n"
  proof (rule ccontr)
    assume "\<not> common_len xs ys \<le> n"
    then have "n < common_len xs ys" by simp
    moreover from this have "xs ! n = ys ! n" using common_len_take [of xs ys] by (metis nth_take)
    ultimately show False using assms(4) common_len_le [of xs ys] by simp
  qed
qed

lemma common_len_drop:
  "take n xs = take n ys \<Longrightarrow> n \<le> length xs \<Longrightarrow> n \<le> length ys \<Longrightarrow>
    common_len xs ys = n + common_len (drop n xs) (drop n ys)"
  by (induction n arbitrary: xs ys) (auto simp: take_Suc drop_Suc Suc_le_length_iff)

lemma common_len_map: "inj f \<Longrightarrow> common_len (map f xs) (map f ys) = common_len xs ys"
  by (induction xs ys rule: common_len.induct) (auto dest: injD)

lemma common_len_bigram:
  "common_len (map2 Bigram xs (tl xs)) (map2 Bigram ys (tl ys)) =
    min (common_len xs ys - 1) (min (length xs - 1) (length ys - 1))"
proof (induction xs ys rule: common_len.induct)
  case (1 a as b bs)
  show ?case
  proof (cases as)
    case Nil
    then show ?thesis by simp
  next
    case (Cons a' as')
    show ?thesis
    proof (cases bs)
      case (Cons b' bs')
      with 1 \<open>as = a' # as'\<close> show ?thesis by (auto simp: min_def)
    qed simp
  qed
qed auto

lemma common_pages_correct:
  assumes "0 < ps" and "i \<le> m" and "ps dvd m - i" and "m = min (length t0) (length t1)"
    and "take i t0 = take i t1"
  shows "common_pages ps m i t0 t1 = i + common_len (drop i t0) (drop i t1) div ps * ps"
  using assms
proof (induction ps m i t0 t1 rule: common_pages.induct)
  case (1 ps m i t0 t1)
  show ?case
  proof (cases "i < m \<and> take ps (drop i t0) = take ps (drop i t1)")
    case True
    have "ps \<le> m - i" using True 1(4) by (simp add: dvd_imp_le)
    then have le: "i + ps \<le> m" using True by linarith
    have dvd: "ps dvd m - (i + ps)" using 1(4) le by (metis diff_diff_left dvd_diff_nat dvd_refl)
    have same: "take (i + ps) t0 = take (i + ps) t1" using True 1(6) by (simp add: take_add)
    have IH: "common_pages ps m (i + ps) t0 t1 = i + ps + common_len (drop (i + ps) t0) (drop (i + ps) t1) div ps * ps"
      using 1(1) [OF _ _ 1(2) le dvd 1(5) same] True 1(2) by simp
    have "common_len (drop i t0) (drop i t1) = ps + common_len (drop (i + ps) t0) (drop (i + ps) t1)"
    proof -
      have "ps \<le> length (drop i t0)" "ps \<le> length (drop i t1)" using le 1(5) by auto
      from common_len_drop [OF _ this] True show ?thesis by (simp add: add.commute)
    qed
    moreover have "common_pages ps m i t0 t1 = common_pages ps m (i + ps) t0 t1"
      using True 1(2) by (subst common_pages.simps) simp
    ultimately show ?thesis using IH 1(2) div_add_self1 [of ps] by (simp add: add_mult_distrib)
  next
    case False
    then have "common_pages ps m i t0 t1 = i" by (subst common_pages.simps) auto
    moreover have "common_len (drop i t0) (drop i t1) < ps"
    proof (rule ccontr)
      assume "\<not> ?thesis"
      then have c: "ps \<le> common_len (drop i t0) (drop i t1)" by simp
      then have "take ps (drop i t0) = take ps (drop i t1)"
        by (metis common_len_take min.absorb1 take_take)
      moreover have "i < m"
        using c common_len_le [of "drop i t0" "drop i t1"] 1(2,5) by auto
      ultimately show False using False by simp
    qed
    ultimately show ?thesis by simp
  qed
qed

text \<open>The match of two keys of one namespace and one view, both of them whole pages.\<close>

lemma rk_match_units:
  assumes "0 < ps" and "extra_key k = extra_key other" and "is_bigram k = is_bigram other"
    and "ps dvd rk_len k" and "ps dvd rk_len other"
  shows "rk_match ps k other = Inr (common_len (rk_units k) (rk_units other) div ps * ps)"
proof (cases "is_bigram k")
  case True
  then have "common_len (rk_units k) (rk_units other) =
      min (common_len (token_ids k) (token_ids other) - 1) (min (rk_len k) (rk_len other))"
    using assms(3) by (simp add: rk_units_def rk_len_def common_len_bigram)
  then show ?thesis using True assms(1,2) by (auto simp: rk_match_def Let_def not_less le_Suc_eq)
next
  case False
  then have u: "rk_units k = map Tok (token_ids k)" "rk_units other = map Tok (token_ids other)"
    "rk_len k = length (token_ids k)" "rk_len other = length (token_ids other)"
    using assms(3) by (simp_all add: rk_units_def rk_len_def)
  have c: "common_len (rk_units k) (rk_units other) = common_len (token_ids k) (token_ids other)"
    unfolding u by (rule common_len_map) (simp add: inj_def)
  have "ps dvd min (rk_len k) (rk_len other)" using assms(4,5) by (simp add: min_def)
  then have "common_pages ps (min (rk_len k) (rk_len other)) 0 (token_ids k) (token_ids other) =
      common_len (token_ids k) (token_ids other) div ps * ps"
    using common_pages_correct [OF assms(1), of 0] by (simp add: u)
  with False c assms(2) show ?thesis by (simp add: rk_match_def Let_def)
qed

lemma child_key_units:
  assumes "0 < ps" and "ps \<le> rk_len k"
  shows "child_key ps k = Inr (extra_key k, take ps (rk_units k))"
proof (cases "is_bigram k")
  case True
  then have "map (\<lambda>j. Bigram (token_ids k ! j) (token_ids k ! (j + 1))) [0..<ps] = take ps (rk_units k)"
    using assms(2) by (intro nth_equalityI) (auto simp: rk_units_nth)
  with True assms show ?thesis by (auto simp: child_key_def Let_def rk_len_def)
next
  case False
  with assms show ?thesis by (auto simp: child_key_def Let_def rk_len_def rk_units_def take_map)
qed

text \<open>
  C24: a radix key behaves as the sequence of its units, in both views. The slice from \<open>a\<close> to \<open>b\<close> is
  the key of the units at the positions \<open>a\<close> to \<open>b - 1\<close>, an open end standing for the start or the
  end of the key. The page-aligned key has the longest prefix of the units that is made of whole
  pages. Matching two keys of one namespace and one view, both of them whole pages, returns the
  length of the longest common prefix of their units that is made of whole pages.
\<close>

theorem radix_key_is_unit_sequence:
  assumes "0 < ps" and "extra_key k = extra_key other" and "is_bigram k = is_bigram other"
    and "ps dvd rk_len k" and "ps dvd rk_len other"
  shows "rk_units (rk_slice key (Some (int a)) (Some (int b))) = take (b - a) (drop a (rk_units key)) \<and>
    rk_units (rk_slice key None (Some (int b))) = take b (rk_units key) \<and>
    rk_units (rk_slice key (Some (int a)) None) = drop a (rk_units key) \<and>
    (\<exists>l. rk_units (page_aligned ps key) = take l (rk_units key) \<and> ps dvd l \<and> l \<le> rk_len key \<and> rk_len key < l + ps) \<and>
    extra_key (page_aligned ps key) = extra_key key \<and>
    (\<exists>m. rk_match ps k other = Inr m \<and> ps dvd m \<and> m \<le> rk_len k \<and> m \<le> rk_len other \<and>
      take m (rk_units k) = take m (rk_units other) \<and>
      (\<forall>l. ps dvd l \<and> l \<le> rk_len k \<and> l \<le> rk_len other \<and> take l (rk_units k) = take l (rk_units other) \<longrightarrow> l \<le> m))"
proof (intro conjI)
  show "rk_units (rk_slice key (Some (int a)) (Some (int b))) = take (b - a) (drop a (rk_units key))"
    by (simp add: rk_units_between)
  have "rk_len key < rk_len key div ps * ps + ps"
    using div_mult_mod_eq [of "rk_len key" ps] mod_less_divisor [OF assms(1), of "rk_len key"] by linarith
  then show "\<exists>l. rk_units (page_aligned ps key) = take l (rk_units key) \<and> ps dvd l \<and> l \<le> rk_len key \<and> rk_len key < l + ps"
    by (intro exI [of _ "rk_len key div ps * ps"]) simp
  let ?c = "common_len (rk_units k) (rk_units other)"
  let ?m = "?c div ps * ps"
  have m: "?m \<le> ?c" by simp
  have "?m \<le> rk_len k" "?m \<le> rk_len other"
    using m common_len_le [of "rk_units k" "rk_units other"] unfolding length_rk_units by linarith+
  moreover have "take ?m (rk_units k) = take ?m (rk_units other)"
    using m common_len_take [of "rk_units k" "rk_units other"] by (metis min.absorb1 take_take)
  moreover have "l \<le> ?m" if l: "ps dvd l \<and> l \<le> rk_len k \<and> l \<le> rk_len other \<and> take l (rk_units k) = take l (rk_units other)" for l
  proof -
    from l have "l \<le> ?c" by (intro common_len_maximal) auto
    with l show ?thesis by (metis div_le_mono dvd_div_mult_self mult_le_mono1)
  qed
  ultimately show "\<exists>m. rk_match ps k other = Inr m \<and> ps dvd m \<and> m \<le> rk_len k \<and> m \<le> rk_len other \<and>
      take m (rk_units k) = take m (rk_units other) \<and>
      (\<forall>l. ps dvd l \<and> l \<le> rk_len k \<and> l \<le> rk_len other \<and> take l (rk_units k) = take l (rk_units other) \<longrightarrow> l \<le> m)"
    using rk_match_units [OF assms] by (intro exI [of _ ?m]) simp
qed simp_all

theorem radix_key_is_unit_sequence_witness:
  "let k = \<lparr>token_ids = [1, 2, 3, 4, 5], extra_key = None, is_bigram = True\<rparr>;
       other = \<lparr>token_ids = [1, 2, 3, 4, 9], extra_key = None, is_bigram = True\<rparr>
   in rk_match 2 k other = Inr 2 \<and> rk_units (rk_slice k (Some 1) (Some 3)) = [Bigram 2 3, Bigram 3 4] \<and>
      (\<exists>l. rk_units (page_aligned 2 (rk_take k 3)) = take l (rk_units (rk_take k 3)) \<and> 2 dvd l)"
proof -
  let ?k = "\<lparr>token_ids = [1, 2, 3, 4, 5], extra_key = None, is_bigram = True\<rparr>"
  let ?o = "\<lparr>token_ids = [1, 2, 3, 4, 9], extra_key = None, is_bigram = True\<rparr>"
  have h: "(0 :: nat) < 2" "extra_key ?k = extra_key ?o" "is_bigram ?k = is_bigram ?o" "2 dvd rk_len ?k" "2 dvd rk_len ?o"
    by (simp_all add: rk_len_def)
  have "rk_units (rk_slice ?k (Some (int 1)) (Some (int 3))) = take (3 - 1) (drop 1 (rk_units ?k))"
    using radix_key_is_unit_sequence [OF h, of ?k 1 3] by blast
  then have s: "rk_units (rk_slice ?k (Some 1) (Some 3)) = [Bigram 2 3, Bigram 3 4]" by (simp add: rk_units_def)
  have a: "\<exists>l. rk_units (page_aligned 2 (rk_take ?k 3)) = take l (rk_units (rk_take ?k 3)) \<and> 2 dvd l"
    using radix_key_is_unit_sequence [OF h, of "rk_take ?k 3"] by blast
  have "\<exists>m. rk_match 2 ?k ?o = Inr m \<and> 2 dvd m" using radix_key_is_unit_sequence [OF h] by blast
  then have "rk_match 2 ?k ?o = Inr 2" by (simp add: rk_match_def rk_len_def)
  then show ?thesis using s a unfolding Let_def by blast
qed

end
