(* ===== verification/Block_Hash.thy ===== *)
theory Block_Hash
  imports Radix_Key
begin

text \<open>
  Hashes of cache pages: \<^verbatim>\<open>RadixKey.hash_page\<close> of \<^verbatim>\<open>radix_cache.py\<close> and
  \<^verbatim>\<open>get_hash_str\<close>, \<^verbatim>\<open>hash_str_to_int64\<close>, \<^verbatim>\<open>compute_node_hash_values\<close>,
  \<^verbatim>\<open>split_node_hash_value\<close> of \<^verbatim>\<open>sglang/srt/mem_cache/utils.py\<close>. SHA-256 itself is the
  parameter \<open>sha\<close>, a function from the bytes fed to the hasher to the bytes of the digest.
\<close>

section \<open>Bytes and hexadecimal strings\<close>

type_synonym byte = nat

definition hex_char :: "nat \<Rightarrow> char" where
  "hex_char n = char_of (if n < 10 then 48 + n else 87 + n)"

definition hex_val :: "char \<Rightarrow> nat option" where
  "hex_val c = (let n = of_char c :: nat in
     if 48 \<le> n \<and> n \<le> 57 then Some (n - 48)
     else if 97 \<le> n \<and> n \<le> 102 then Some (n - 87)
     else if 65 \<le> n \<and> n \<le> 70 then Some (n - 55) else None)"

definition hexdigest :: "byte list \<Rightarrow> string" where
  "hexdigest bs = concat (map (\<lambda>b. [hex_char (b div 16), hex_char (b mod 16)]) bs)"

text \<open>\<^verbatim>\<open>bytes.fromhex\<close> on a string without blanks.\<close>

fun fromhex :: "string \<Rightarrow> byte list res" where
  "fromhex [] = Inr []"
| "fromhex [c] = Inl ValueError"
| "fromhex (c # d # s) =
     (case (hex_val c, hex_val d) of
        (Some a, Some b) \<Rightarrow> bindE (fromhex s) (\<lambda>bs. Inr ((16 * a + b) # bs))
      | _ \<Rightarrow> Inl ValueError)"

text \<open>\<^verbatim>\<open>int(s, 16)\<close> on hexadecimal digits.\<close>

fun hex_int :: "nat \<Rightarrow> string \<Rightarrow> nat res" where
  "hex_int acc [] = Inr acc"
| "hex_int acc (c # s) = (case hex_val c of None \<Rightarrow> Inl ValueError | Some d \<Rightarrow> hex_int (16 * acc + d) s)"

text \<open>\<^verbatim>\<open>t.to_bytes(4, byteorder="little", signed=False)\<close>\<close>

definition to_bytes4 :: "int \<Rightarrow> byte list res" where
  "to_bytes4 t = (if t < 0 \<or> 2 ^ 32 \<le> t then Inl OverflowError
     else Inr (map (\<lambda>i. nat (t div 256 ^ i mod 256)) [0..<4]))"

text \<open>Feeding a hasher with tokens, some of which may fail to be read.\<close>

fun feed :: "int res list \<Rightarrow> byte list res" where
  "feed [] = Inr []"
| "feed (t # ts) = bindE t (\<lambda>v. bindE (to_bytes4 v) (\<lambda>b. bindE (feed ts) (\<lambda>bs. Inr (b @ bs))))"

section \<open>Page hashes\<close>

type_synonym sha256 = "byte list \<Rightarrow> byte list"

definition prior_bytes :: "string option \<Rightarrow> byte list res" where
  "prior_bytes prior = (case prior of None \<Rightarrow> Inr [] | Some h \<Rightarrow> if h = [] then Inr [] else fromhex h)"

definition unit_tokens :: "key_unit \<Rightarrow> int list" where
  "unit_tokens u = (case u of Tok t \<Rightarrow> [t] | Bigram a b \<Rightarrow> [a, b])"

definition get_hash_str :: "sha256 \<Rightarrow> key_unit list \<Rightarrow> string option \<Rightarrow> string res" where
  "get_hash_str sha us prior =
     bindE (prior_bytes prior) (\<lambda>p. bindE (feed (map Inr (concat (map unit_tokens us)))) (\<lambda>b. Inr (hexdigest (sha (p @ b)))))"

text \<open>The tokens \<^verbatim>\<open>hash_page\<close> feeds, in its order; an index past the end raises.\<close>

definition token_at :: "int list \<Rightarrow> nat \<Rightarrow> int res" where
  "token_at t j = (if j < length t then Inr (t ! j) else Inl IndexError)"

definition page_feed :: "radix_key \<Rightarrow> nat \<Rightarrow> nat \<Rightarrow> int res list" where
  "page_feed k start stop =
     (let t = token_ids k in
      if is_bigram k then concat (map (\<lambda>j. [token_at t j, token_at t (j + 1)]) [start..<stop])
      else map (token_at t) [start..<stop])"

definition hash_page :: "sha256 \<Rightarrow> radix_key \<Rightarrow> nat \<Rightarrow> nat \<Rightarrow> string option \<Rightarrow> string res" where
  "hash_page sha k start stop prior =
     bindE (prior_bytes prior) (\<lambda>p. bindE (feed (page_feed k start stop)) (\<lambda>b. Inr (hexdigest (sha (p @ b)))))"

definition hash_str_to_int64 :: "string \<Rightarrow> int res" where
  "hash_str_to_int64 h =
     (if h = [] then Inl ValueError
      else bindE (hex_int 0 (take 16 h)) (\<lambda>v. Inr (if 2 ^ 63 \<le> int v then int v - 2 ^ 64 else int v)))"

text \<open>The loop of \<^verbatim>\<open>compute_node_hash_values\<close> from page start \<open>start\<close> on.\<close>

function page_hashes :: "sha256 \<Rightarrow> nat \<Rightarrow> radix_key \<Rightarrow> nat \<Rightarrow> string option \<Rightarrow> string list res" where
  "page_hashes sha ps k start parent_hash =
     (if ps = 0 then Inl ValueError
      else if rk_len k \<le> start then Inr []
      else bindE (hash_page sha k start (min (start + ps) (rk_len k)) parent_hash) (\<lambda>h.
             bindE (page_hashes sha ps k (start + ps) (Some h)) (\<lambda>hs. Inr (h # hs))))"
  by pat_completeness auto
termination by (relation "measure (\<lambda>(sha, ps, k, start, p). rk_len k - start)") auto

declare page_hashes.simps [simp del]

definition split_node_hash_value ::
  "string list option \<Rightarrow> nat \<Rightarrow> nat \<Rightarrow> string list option \<times> string list option" where
  "split_node_hash_value child_hash_value split_len ps =
     (case child_hash_value of None \<Rightarrow> (None, None)
      | Some hs \<Rightarrow> let split_pages = (if ps = 1 then split_len else split_len div ps)
                  in (Some (take split_pages hs), Some (drop split_pages hs)))"

section \<open>Hexadecimal round trips\<close>

lemma hex_val_char [simp]: "n < 16 \<Longrightarrow> hex_val (hex_char n) = Some n"
  by (auto simp: hex_val_def hex_char_def Let_def)

lemma fromhex_hexdigest: "\<forall>b \<in> set bs. b < 256 \<Longrightarrow> fromhex (hexdigest bs) = Inr bs"
  by (induction bs) (simp_all add: hexdigest_def less_mult_imp_div_less)

lemma hexdigest_Nil_iff [simp]: "hexdigest bs = [] \<longleftrightarrow> bs = []"
  by (cases bs) (simp_all add: hexdigest_def)

lemma prior_bytes_digest: "\<forall>b \<in> set bs. b < 256 \<Longrightarrow> prior_bytes (Some (hexdigest bs)) = Inr bs"
  by (simp add: prior_bytes_def fromhex_hexdigest)

lemma hash_page_units:
  assumes "start \<le> stop" and "stop \<le> rk_len k"
  shows "hash_page sha k start stop prior =
    get_hash_str sha (take (stop - start) (drop start (rk_units k))) prior"
proof -
  have e: "take (stop - start) (drop start (rk_units k)) = map (\<lambda>j. rk_units k ! j) [start..<stop]"
    using assms by (intro nth_equalityI) auto
  have "page_feed k start stop = map Inr (concat (map unit_tokens (take (stop - start) (drop start (rk_units k)))))"
  proof (cases "is_bigram k")
    case True
    then have "[token_at (token_ids k) j, token_at (token_ids k) (j + 1)] = map Inr (unit_tokens (rk_units k ! j))"
      if "j < stop" for j
      using that assms(2) rk_units_nth [of j k] by (simp add: unit_tokens_def token_at_def rk_len_def)
    then have "concat (map (\<lambda>j. [token_at (token_ids k) j, token_at (token_ids k) (j + 1)]) [start..<stop]) =
        concat (map (\<lambda>j. map Inr (unit_tokens (rk_units k ! j))) [start..<stop])"
      by (intro arg_cong [of _ _ concat] map_cong refl) simp
    with True show ?thesis unfolding e page_feed_def Let_def by (simp add: map_concat comp_def)
  next
    case False
    then have "[token_at (token_ids k) j] = map Inr (unit_tokens (rk_units k ! j))" if "j < stop" for j
      using that assms(2) rk_units_nth [of j k] by (simp add: unit_tokens_def token_at_def rk_len_def)
    then have "map (\<lambda>j. [token_at (token_ids k) j]) [start..<stop] =
        map (\<lambda>j. map Inr (unit_tokens (rk_units k ! j))) [start..<stop]"
      by (intro map_cong refl) simp
    then have "map (token_at (token_ids k)) [start..<stop] =
        concat (map (\<lambda>j. map Inr (unit_tokens (rk_units k ! j))) [start..<stop])"
      by (metis concat_map_singleton)
    with False show ?thesis unfolding e page_feed_def Let_def by (simp add: map_concat comp_def)
  qed
  then show ?thesis by (simp add: hash_page_def get_hash_str_def)
qed

text \<open>
  The two hashing routines agree. Hashing the positions of a page of a key gives the string
  that hashing the units of the page gives, for the same prior hash.
\<close>

theorem hash_page_is_get_hash_str:
  assumes "start \<le> stop" and "stop \<le> rk_len k"
  shows "hash_page sha k start stop prior =
    get_hash_str sha (take (stop - start) (drop start (rk_units k))) prior"
  by (rule hash_page_units [OF assms])

theorem hash_page_is_get_hash_str_witness:
  "hash_page (\<lambda>_. [1]) \<lparr>token_ids = [7, 8, 9], extra_key = None, is_bigram = True\<rparr> 0 2 None =
     get_hash_str (\<lambda>_. [1]) [Bigram 7 8, Bigram 8 9] None"
  using hash_page_is_get_hash_str [of 0 2 "\<lparr>token_ids = [7, 8, 9], extra_key = None, is_bigram = True\<rparr>" "\<lambda>_. [1]" None]
  by (simp add: rk_len_def rk_units_def)

section \<open>The chain of page hashes\<close>

text \<open>The pages of a sequence, and their hashes, each page chained to the hash before it.\<close>

function chunks :: "nat \<Rightarrow> 'a list \<Rightarrow> 'a list list" where
  "chunks ps us = (if ps = 0 \<or> us = [] then [] else take ps us # chunks ps (drop ps us))"
  by pat_completeness auto
termination by (relation "measure (\<lambda>(ps, us). length us)") auto

declare chunks.simps [simp del]

fun chain_hashes :: "sha256 \<Rightarrow> key_unit list list \<Rightarrow> string option \<Rightarrow> string list res" where
  "chain_hashes sha [] prior = Inr []"
| "chain_hashes sha (pg # pgs) prior =
     bindE (get_hash_str sha pg prior) (\<lambda>h. bindE (chain_hashes sha pgs (Some h)) (\<lambda>hs. Inr (h # hs)))"

definition last_hash :: "string list \<Rightarrow> string option \<Rightarrow> string option" where
  "last_hash hs prior = (if hs = [] then prior else Some (last hs))"

lemma last_hash_simps [simp]: "last_hash [] prior = prior" "last_hash (h # hs) prior = last_hash hs (Some h)"
  by (simp_all add: last_hash_def)

lemma chunks_append:
  assumes "0 < ps" and "ps dvd length us"
  shows "chunks ps (us @ vs) = chunks ps us @ chunks ps vs"
  using assms
proof (induction ps us rule: chunks.induct)
  case (1 ps us)
  show ?case
  proof (cases "us = []")
    case False
    then have "ps \<le> length us" using 1(3) by (simp add: dvd_imp_le)
    moreover from this have "ps dvd length (drop ps us)" using 1(3) by simp
    ultimately show ?thesis
      using False 1(1) [OF _ 1(2)] 1(2) chunks.simps [of ps us] chunks.simps [of ps "us @ vs"] by simp
  qed (simp add: chunks.simps [of ps "[]"])
qed

lemma length_chunks: "0 < ps \<Longrightarrow> ps dvd length us \<Longrightarrow> length (chunks ps us) = length us div ps"
proof (induction ps us rule: chunks.induct)
  case (1 ps us)
  show ?case
  proof (cases "us = []")
    case False
    then have le: "ps \<le> length us" using 1(3) by (simp add: dvd_imp_le)
    then have "length us div ps = Suc ((length us - ps) div ps)" using 1(2) by (simp add: le_div_geq)
    moreover have "length (chunks ps (drop ps us)) = length (drop ps us) div ps"
      using False 1 le by simp
    ultimately show ?thesis using False 1(2) by (simp add: chunks.simps [of ps us])
  qed (simp add: chunks.simps)
qed

lemma page_hashes_chain:
  "0 < ps \<Longrightarrow> page_hashes sha ps k start prior = chain_hashes sha (chunks ps (drop start (rk_units k))) prior"
proof (induction sha ps k start prior rule: page_hashes.induct)
  case (1 sha ps k start prior)
  show ?case
  proof (cases "rk_len k \<le> start")
    case True
    then show ?thesis using 1(2) by (simp add: page_hashes.simps chunks.simps)
  next
    case False
    let ?e = "min (start + ps) (rk_len k)"
    have "hash_page sha k start ?e prior = get_hash_str sha (take ps (drop start (rk_units k))) prior"
      using False by (subst hash_page_units) (auto simp: min_def)
    moreover have "chunks ps (drop start (rk_units k)) =
        take ps (drop start (rk_units k)) # chunks ps (drop (start + ps) (rk_units k))"
      using False 1(2) by (subst chunks.simps) (simp add: add.commute)
    moreover have "page_hashes sha ps k (start + ps) (Some h) =
        chain_hashes sha (chunks ps (drop (start + ps) (rk_units k))) (Some h)" for h
      using False 1 by simp
    ultimately show ?thesis using False 1(2) by (simp add: page_hashes.simps [of sha ps k start])
  qed
qed

lemma chain_hashes_length: "chain_hashes sha pgs prior = Inr hs \<Longrightarrow> length hs = length pgs"
  by (induction pgs arbitrary: prior hs) (auto simp: bindE_Inr_iff)

lemma chain_hashes_append:
  "chain_hashes sha (ps @ qs) prior = Inr hs \<longleftrightarrow>
    (\<exists>hs1 hs2. hs = hs1 @ hs2 \<and> chain_hashes sha ps prior = Inr hs1 \<and> chain_hashes sha qs (last_hash hs1 prior) = Inr hs2)"
proof (induction ps arbitrary: prior hs)
  case (Cons pg ps)
  show ?case by (fastforce simp: bindE_Inr_iff Cons.IH)
qed simp

text \<open>
  Splitting a node keeps its page hashes: cutting the list of hashes of a key at a page
  boundary gives the hashes of the two halves of the key, the second chained to the first.
\<close>

theorem split_node_hash_value_correct:
  assumes "0 < ps" and "ps dvd m" and "m \<le> rk_len k" and "page_hashes sha ps k 0 prior = Inr hs"
    and "split_node_hash_value (Some hs) m ps = (Some upper, Some lower)"
  shows "page_hashes sha ps (rk_take k m) 0 prior = Inr upper \<and>
    page_hashes sha ps (rk_drop k m) 0 (last_hash upper prior) = Inr lower"
proof -
  have len: "length (take m (rk_units k)) = m" using assms(3) by simp
  have "chunks ps (rk_units k) = chunks ps (take m (rk_units k)) @ chunks ps (drop m (rk_units k))"
    using chunks_append [OF assms(1), of "take m (rk_units k)" "drop m (rk_units k)"] assms(2) len by simp
  with assms(1,4) obtain hs1 hs2 where hs: "hs = hs1 @ hs2"
    "chain_hashes sha (chunks ps (take m (rk_units k))) prior = Inr hs1"
    "chain_hashes sha (chunks ps (drop m (rk_units k))) (last_hash hs1 prior) = Inr hs2"
    by (auto simp: page_hashes_chain chain_hashes_append)
  have "length hs1 = m div ps"
    using chain_hashes_length [OF hs(2)] length_chunks [OF assms(1), of "take m (rk_units k)"] assms(2) len by simp
  then have "upper = hs1" "lower = hs2"
    using assms(1,5) hs(1) by (auto simp: split_node_hash_value_def Let_def split: if_splits)
  then show ?thesis using hs assms(1) by (simp add: page_hashes_chain)
qed

theorem split_node_hash_value_correct_witness:
  "page_hashes (\<lambda>_. [9]) 1 (rk_drop \<lparr>token_ids = [5, 6], extra_key = None, is_bigram = False\<rparr> 1) 0
     (Some (hexdigest [9])) = Inr [hexdigest [9]]"
proof -
  let ?k = "\<lparr>token_ids = [5, 6], extra_key = None, is_bigram = False\<rparr>" and ?h = "hexdigest [9]"
  have p: "prior_bytes None = Inr []" "prior_bytes (Some ?h) = Inr [9]"
    by (simp_all add: prior_bytes_def prior_bytes_digest fromhex_hexdigest)
  have hs: "page_hashes (\<lambda>_. [9]) 1 ?k 0 None = Inr [?h, ?h]"
    by (simp add: page_hashes.simps rk_len_def hash_page_def p page_feed_def token_at_def to_bytes4_def upt_rec)
  have d: "split_node_hash_value (Some [?h, ?h]) 1 1 = (Some [?h], Some [?h])"
    by (simp add: split_node_hash_value_def)
  show ?thesis using split_node_hash_value_correct [OF _ _ _ hs d] by (simp add: rk_len_def)
qed

end
