(* ===== verification/Kv_Host_Pool.thy ===== *)
theory Kv_Host_Pool
  imports Prelude
begin

text \<open>
  The pages of the host pools of \<^verbatim>\<open>sglang/srt/mem_cache/memory_pool_host.py\<close>, for the pools of
  plain attention (\<^verbatim>\<open>MHATokenToKVPoolHost\<close>) and of latent attention
  (\<^verbatim>\<open>MLATokenToKVPoolHost\<close>) in all their memory layouts. The lemmas show when a page that is
  written can be read back, and which pages a write leaves alone.
\<close>

section \<open>The buffer\<close>

type_synonym bytes = "nat list"

text \<open>
  The buffer as the bytes of its rows: \<open>kp_planes\<close> are the leading axes in front of the one a page
  is cut from (key and value, and the layers when they come first), each of them a list of rows.
  \<open>kp_entry\<close> is the number of bytes of one token in one layer, of its keys or of its values.
\<close>

record kv_pool =
  kp_mla :: bool
  kp_layout :: string
  kp_page_size :: nat
  kp_size :: nat
  kp_layers :: nat
  kp_entry :: nat
  kp_planes :: "bytes list list"

definition kv_parts :: "kv_pool \<Rightarrow> nat" where
  "kv_parts p = (if kp_mla p then 1 else 2)"

definition by_page :: "kv_pool \<Rightarrow> bool" where
  "by_page p \<longleftrightarrow> kp_layout p = ''page_first_direct'' \<or> kp_layout p = ''page_head''"

text \<open>Planes, rows of a page and bytes of a row, for the layouts the class supports.\<close>

definition page_shape :: "kv_pool \<Rightarrow> (nat \<times> nat \<times> nat) res" where
  "page_shape p =
     (if kp_layout p = ''layer_first'' then Inr (kv_parts p * kp_layers p, kp_page_size p, kp_entry p)
      else if kp_layout p = ''page_first'' then Inr (kv_parts p, kp_page_size p, kp_layers p * kp_entry p)
      else if kp_layout p = ''page_first_direct'' \<or> \<not> kp_mla p \<and> kp_layout p = ''page_head''
      then Inr (kv_parts p, 1, kp_layers p * kp_page_size p * kp_entry p)
      else Inl ValueError)"

definition page_row :: "kv_pool \<Rightarrow> nat \<Rightarrow> nat" where
  "page_row p index = (if by_page p then index div kp_page_size p else index)"

text \<open>\<^verbatim>\<open>init_kv_buffer\<close>; the contents of the new memory are an argument.\<close>

definition init_planes :: "nat \<Rightarrow> kv_pool \<Rightarrow> kv_pool res" where
  "init_planes byte p = bindE (page_shape p) (\<lambda>(planes, n, w).
     Inr (p\<lparr>kp_planes := replicate planes (replicate
       (if by_page p then kp_size p div kp_page_size p else kp_size p) (replicate w byte))\<rparr>))"

section \<open>Pages\<close>

definition dummy_page_bytes :: "kv_pool \<Rightarrow> nat" where
  "dummy_page_bytes p = kv_parts p * kp_layers p * kp_page_size p * kp_entry p"

definition kv_get_data_page :: "nat \<Rightarrow> kv_pool \<Rightarrow> bytes res" where
  "kv_get_data_page index p = bindE (page_shape p) (\<lambda>(planes, n, w).
     Inr (concat (map (\<lambda>plane. concat (take n (drop (page_row p index) plane))) (kp_planes p))))"

definition cut_rows :: "nat \<Rightarrow> nat \<Rightarrow> bytes \<Rightarrow> bytes list" where
  "cut_rows n w xs = map (\<lambda>r. take w (drop (r * w) xs)) [0..<n]"

definition write_rows :: "nat \<Rightarrow> 'a list \<Rightarrow> 'a list \<Rightarrow> 'a list" where
  "write_rows a rows plane = take a plane @ rows @ drop (a + length rows) plane"

text \<open>
  \<^verbatim>\<open>reshape\<close> raises when the number of bytes is not that of a page. The assignment raises when
  the slice is cut short by the end of the buffer, except that a page of one row is silently
  dropped behind the end: a dimension of length one is broadcast to length zero.
\<close>

definition kv_set_from_flat_data_page :: "nat \<Rightarrow> bytes \<Rightarrow> kv_pool \<Rightarrow> kv_pool res" where
  "kv_set_from_flat_data_page index data p = bindE (page_shape p) (\<lambda>(planes, n, w).
     let a = page_row p index
     in if length data \<noteq> planes * (n * w) then Inl RuntimeError
        else if list_all (\<lambda>plane. a + n \<le> length plane) (kp_planes p)
        then Inr (p\<lparr>kp_planes := map2 (write_rows a) (map (cut_rows n w) (cut_rows planes (n * w) data)) (kp_planes p)\<rparr>)
        else if n = 1 then Inr p else Inl RuntimeError)"

section \<open>Reading back what was written\<close>

text \<open>A buffer of the shape \<^verbatim>\<open>init_kv_buffer\<close> gives it, and a page that lies in it.\<close>

definition kv_shaped :: "kv_pool \<Rightarrow> bool" where
  "kv_shaped p \<longleftrightarrow> (case page_shape p of Inl e \<Rightarrow> False | Inr (planes, n, w) \<Rightarrow>
     0 < kp_page_size p \<and> length (kp_planes p) = planes \<and>
     (\<forall>plane \<in> set (kp_planes p). length plane = (if by_page p then kp_size p div kp_page_size p else kp_size p) \<and>
        (\<forall>row \<in> set plane. length row = w)))"

definition page_rows :: "kv_pool \<Rightarrow> nat \<Rightarrow> nat set" where
  "page_rows p index = {page_row p index..<page_row p index + (if by_page p then 1 else kp_page_size p)}"

definition page_inside :: "kv_pool \<Rightarrow> nat \<Rightarrow> bool" where
  "page_inside p index \<longleftrightarrow> page_rows p index \<subseteq> {..<(if by_page p then kp_size p div kp_page_size p else kp_size p)}"

lemma page_shape_rows: "page_shape p = Inr (planes, n, w) \<Longrightarrow> n = (if by_page p then 1 else kp_page_size p)"
  by (auto simp: page_shape_def by_page_def split: if_splits)

lemma page_shape_bytes: "page_shape p = Inr (planes, n, w) \<Longrightarrow> planes * (n * w) = dummy_page_bytes p"
  by (auto simp: page_shape_def dummy_page_bytes_def split: if_splits)

lemma init_planes_shaped:
  assumes "0 < kp_page_size p" and "init_planes byte p = Inr q"
  shows "kv_shaped q"
proof -
  obtain planes n w where sh: "page_shape p = Inr (planes, n, w)"
    using assms(2) by (cases "page_shape p") (auto simp: init_planes_def)
  let ?planes = "replicate planes (replicate
    (if by_page p then kp_size p div kp_page_size p else kp_size p) (replicate w byte))"
  have q: "q = p\<lparr>kp_planes := ?planes\<rparr>" using assms(2) by (simp add: init_planes_def sh)
  have "page_shape q = page_shape p" "by_page q = by_page p"
    by (simp_all add: q page_shape_def by_page_def kv_parts_def)
  then show ?thesis using assms(1) unfolding kv_shaped_def sh by (simp add: q)
qed

lemma kv_shapedE:
  assumes "kv_shaped p"
  obtains planes n w rows where "page_shape p = Inr (planes, n, w)" "n = (if by_page p then 1 else kp_page_size p)" "0 < n"
    "rows = (if by_page p then kp_size p div kp_page_size p else kp_size p)" "length (kp_planes p) = planes"
    "\<forall>plane \<in> set (kp_planes p). length plane = rows \<and> (\<forall>row \<in> set plane. length row = w)"
    "planes * (n * w) = dummy_page_bytes p"
proof -
  obtain planes n w where sh: "page_shape p = Inr (planes, n, w)"
    using assms unfolding kv_shaped_def by (cases "page_shape p") auto
  have n: "n = (if by_page p then 1 else kp_page_size p)" using page_shape_rows [OF sh] .
  have k: "0 < kp_page_size p" "length (kp_planes p) = planes"
    "\<forall>plane \<in> set (kp_planes p). length plane = (if by_page p then kp_size p div kp_page_size p else kp_size p) \<and>
       (\<forall>row \<in> set plane. length row = w)"
    using assms unfolding kv_shaped_def sh by simp_all
  have pos: "0 < n" using n k(1) by simp
  show thesis by (rule that [OF sh n pos refl k(2,3) page_shape_bytes [OF sh]])
qed

lemma page_inside_fit:
  assumes "page_inside p index" and "n = (if by_page p then 1 else kp_page_size p)" and "0 < n"
    and "rows = (if by_page p then kp_size p div kp_page_size p else kp_size p)"
  shows "page_row p index + n \<le> rows"
proof -
  have sub: "{page_row p index..<page_row p index + n} \<subseteq> {..<rows}"
    using assms(1) unfolding page_inside_def page_rows_def assms(2) [symmetric] assms(4) [symmetric] .
  have "page_row p index + (n - 1) \<in> {page_row p index..<page_row p index + n}" using assms(3) by simp
  then have "page_row p index + (n - 1) < rows" using subsetD [OF sub] lessThan_iff by blast
  then show ?thesis using assms(3) by linarith
qed

lemma concat_cut_rows: "length xs = n * w \<Longrightarrow> concat (cut_rows n w xs) = xs"
proof (induction n arbitrary: xs)
  case (Suc n)
  have "cut_rows (Suc n) w xs = take w xs # cut_rows n w (drop w xs)"
    unfolding cut_rows_def by (subst upt_conv_Cons) (simp_all add: map_Suc_upt [symmetric] comp_def add.commute del: upt_Suc)
  then show ?case using Suc by simp
qed (simp add: cut_rows_def)

lemma concat_width: "\<forall>row \<in> set rows. length row = w \<Longrightarrow> length (concat rows) = length rows * w"
  by (induction rows) auto

lemma length_cut_rows [simp]: "length (cut_rows n w xs) = n"
  by (simp add: cut_rows_def)

lemma cut_rows_width:
  assumes "length xs = n * w" and "row \<in> set (cut_rows n w xs)"
  shows "length row = w"
proof -
  obtain r where r: "r < n" "row = take w (drop (r * w) xs)" using assms(2) by (auto simp: cut_rows_def)
  have "r * w + w \<le> n * w" using r(1) mult_le_mono1 [of "Suc r" n w] by simp
  then show ?thesis using r(2) assms(1) by simp
qed

lemma write_rows_simps:
  assumes "a + length rows \<le> length plane"
  shows "length (write_rows a rows plane) = length plane" "take (length rows) (drop a (write_rows a rows plane)) = rows"
    "set (write_rows a rows plane) \<subseteq> set plane \<union> set rows"
    "b + n \<le> a \<or> a + length rows \<le> b \<Longrightarrow> take n (drop b (write_rows a rows plane)) = take n (drop b plane)"
proof -
  show "length (write_rows a rows plane) = length plane" "take (length rows) (drop a (write_rows a rows plane)) = rows"
    using assms by (simp_all add: write_rows_def)
  show "set (write_rows a rows plane) \<subseteq> set plane \<union> set rows"
    by (auto simp: write_rows_def dest: in_set_takeD in_set_dropD)
  assume "b + n \<le> a \<or> a + length rows \<le> b"
  then show "take n (drop b (write_rows a rows plane)) = take n (drop b plane)"
  proof
    assume "b + n \<le> a"
    then have "take n (drop b (take a plane)) = take n (drop b plane)" by (simp add: drop_take min_def)
    then show ?thesis using \<open>b + n \<le> a\<close> assms by (simp add: write_rows_def)
  next
    assume "a + length rows \<le> b"
    then show ?thesis using assms by (simp add: write_rows_def)
  qed
qed

text \<open>A page of the right size, written inside the buffer, is read back, and pages on other rows stay.\<close>

lemma kv_page_roundtrip:
  assumes sh: "kv_shaped p" and inside: "page_inside p index" and len: "length data = dummy_page_bytes p"
  obtains q where "kv_set_from_flat_data_page index data p = Inr q" "kv_get_data_page index q = Inr data" "kv_shaped q"
    "q = p\<lparr>kp_planes := kp_planes q\<rparr>"
    "\<And>i. page_rows p i \<inter> page_rows p index = {} \<Longrightarrow> kv_get_data_page i q = kv_get_data_page i p"
proof -
  obtain planes n w rows where s: "page_shape p = Inr (planes, n, w)" "n = (if by_page p then 1 else kp_page_size p)" "0 < n"
    "rows = (if by_page p then kp_size p div kp_page_size p else kp_size p)" "length (kp_planes p) = planes"
    "\<forall>plane \<in> set (kp_planes p). length plane = rows \<and> (\<forall>row \<in> set plane. length row = w)"
    "planes * (n * w) = dummy_page_bytes p"
    by (rule kv_shapedE [OF sh]) (rule that)
  let ?a = "page_row p index" and ?blocks = "cut_rows planes (n * w) data"
  define new where "new = map2 (write_rows ?a) (map (cut_rows n w) ?blocks) (kp_planes p)"
  let ?q = "p\<lparr>kp_planes := new\<rparr>"
  have fit: "?a + n \<le> rows"
    by (rule page_inside_fit [OF inside s(2,3,4)])
  have set: "kv_set_from_flat_data_page index data p = Inr ?q"
    using s(1,6,7) fit len by (simp add: kv_set_from_flat_data_page_def list_all_iff new_def)
  have same: "page_shape ?q = page_shape p" "page_row ?q = page_row p" "by_page ?q = by_page p"
    by (simp_all add: page_shape_def page_row_def by_page_def kv_parts_def fun_eq_iff)
  have blk: "length (?blocks ! j) = n * w" if "j < planes" for j
    using that cut_rows_width [of data planes "n * w" "?blocks ! j"] len s(7) by simp
  have plane: "new ! j = write_rows ?a (cut_rows n w (?blocks ! j)) (kp_planes p ! j)"
    "?a + length (cut_rows n w (?blocks ! j)) \<le> length (kp_planes p ! j)" if "j < planes" for j
    using that s(5,6) fit by (simp_all add: new_def)
  have ln: "length new = planes" using s(5) by (simp add: new_def)
  have get: "kv_get_data_page index ?q = Inr data"
  proof -
    have "map (\<lambda>plane. concat (take n (drop ?a plane))) new = ?blocks"
    proof (rule nth_equalityI)
      fix j assume "j < length (map (\<lambda>plane. concat (take n (drop ?a plane))) new)"
      then have j: "j < planes" using ln by simp
      have "take n (drop ?a (new ! j)) = cut_rows n w (?blocks ! j)"
        unfolding plane(1) [OF j] using write_rows_simps(2) [OF plane(2) [OF j]] by simp
      then show "map (\<lambda>plane. concat (take n (drop ?a plane))) new ! j = ?blocks ! j"
        using j ln concat_cut_rows [OF blk [OF j]] by simp
    qed (simp add: ln s(5))
    then show ?thesis using s(1,7) len concat_cut_rows [of data planes "n * w"] by (simp add: kv_get_data_page_def same)
  qed
  have "length plane' = rows \<and> (\<forall>row \<in> set plane'. length row = w)" if new_plane: "plane' \<in> set new" for plane'
  proof -
    obtain j where j: "j < planes" "plane' = new ! j" using new_plane ln by (auto simp: in_set_conv_nth)
    have mem: "kp_planes p ! j \<in> set (kp_planes p)" using j(1) s(5) by simp
    have "length row = w" if row: "row \<in> set plane'" for row
    proof -
      have "row \<in> set (kp_planes p ! j) \<union> set (cut_rows n w (?blocks ! j))"
        using row write_rows_simps(3) [OF plane(2) [OF j(1)]] unfolding j(2) plane(1) [OF j(1)] by (rule rev_subsetD)
      then show ?thesis
      proof
        assume "row \<in> set (kp_planes p ! j)"
        then show ?thesis using bspec [OF s(6) mem] by simp
      next
        assume "row \<in> set (cut_rows n w (?blocks ! j))"
        then show ?thesis by (rule cut_rows_width [OF blk [OF j(1)]])
      qed
    qed
    moreover have "length plane' = rows"
      unfolding j(2) plane(1) [OF j(1)] using write_rows_simps(1) [OF plane(2) [OF j(1)]] bspec [OF s(6) mem] by simp
    ultimately show ?thesis by blast
  qed
  then have "\<forall>plane \<in> set new. length plane = rows \<and> (\<forall>row \<in> set plane. length row = w)" by blast
  moreover have "0 < kp_page_size p" using sh unfolding kv_shaped_def s(1) by simp
  ultimately have shaped: "kv_shaped ?q"
    unfolding kv_shaped_def same s(1) using ln s(4) by simp
  have other: "kv_get_data_page i ?q = kv_get_data_page i p" if "page_rows p i \<inter> page_rows p index = {}" for i
  proof -
    let ?b = "page_row p i"
    have apart: "?b + n \<le> ?a \<or> ?a + n \<le> ?b"
    proof (rule ccontr)
      assume "\<not> ?thesis"
      then have "max ?a ?b \<in> page_rows p i \<inter> page_rows p index" using s(2) by (auto simp: page_rows_def)
      then show False using that by simp
    qed
    have "map (\<lambda>plane. concat (take n (drop ?b plane))) new = map (\<lambda>plane. concat (take n (drop ?b plane))) (kp_planes p)"
    proof (rule nth_equalityI)
      fix j assume "j < length (map (\<lambda>plane. concat (take n (drop ?b plane))) new)"
      then have j: "j < planes" using ln by simp
      have keep: "take n (drop ?b (new ! j)) = take n (drop ?b (kp_planes p ! j))"
        unfolding plane(1) [OF j] by (rule write_rows_simps(4) [OF plane(2) [OF j]]) (use apart in simp)
      show "map (\<lambda>plane. concat (take n (drop ?b plane))) new ! j = map (\<lambda>plane. concat (take n (drop ?b plane))) (kp_planes p) ! j"
        using j ln s(5) keep by simp
    qed (simp add: ln s(5))
    then show ?thesis using s(1) by (simp add: kv_get_data_page_def same)
  qed
  show thesis
  proof (rule that [OF set get shaped])
    show "?q = p\<lparr>kp_planes := kp_planes ?q\<rparr>" by simp
  qed (rule other)
qed

lemma kv_page_bytes:
  assumes sh: "kv_shaped p" and inside: "page_inside p index"
  shows "\<exists>data. kv_get_data_page index p = Inr data \<and> length data = dummy_page_bytes p"
proof -
  obtain planes n w rows where s: "page_shape p = Inr (planes, n, w)" "n = (if by_page p then 1 else kp_page_size p)" "0 < n"
    "rows = (if by_page p then kp_size p div kp_page_size p else kp_size p)" "length (kp_planes p) = planes"
    "\<forall>plane \<in> set (kp_planes p). length plane = rows \<and> (\<forall>row \<in> set plane. length row = w)"
    "planes * (n * w) = dummy_page_bytes p"
    by (rule kv_shapedE [OF sh]) (rule that)
  let ?a = "page_row p index"
  have fit: "?a + n \<le> rows"
    by (rule page_inside_fit [OF inside s(2,3,4)])
  have rows: "length (concat (take n (drop ?a plane))) = n * w" if "plane \<in> set (kp_planes p)" for plane
  proof -
    have "\<forall>row \<in> set (take n (drop ?a plane)). length row = w" using s(6) that by (meson in_set_dropD in_set_takeD)
    from concat_width [OF this] show ?thesis using s(6) that fit by simp
  qed
  have "length (concat (map (\<lambda>plane. concat (take n (drop ?a plane))) (kp_planes p))) = planes * (n * w)"
    using rows s(5) by (subst concat_width [where w = "n * w"]) auto
  then show ?thesis using s(1,7) by (simp add: kv_get_data_page_def)
qed

end
