(* ===== verification/HiCache_Storage.thy ===== *)
theory HiCache_Storage
  imports Py_Strings Kv_Host_Pool
begin

text \<open>
  The storage tier of the hierarchical cache, from
  \<^verbatim>\<open>sglang/srt/mem_cache/hicache_storage.py\<close>: the transfer descriptors, the prefix queries
  shared by the storage backends, the plain-file backend \<^verbatim>\<open>HiCacheFile\<close>, and the contract
  every backend keeps towards the cache controller (the locale \<open>page_store\<close>).
\<close>

section \<open>Transfer descriptors\<close>

text \<open>\<^verbatim>\<open>PoolName\<close> is a string enumeration; its members are compared with plain strings.\<close>

abbreviation PoolName_KV :: string where "PoolName_KV \<equiv> ''kv''"

datatype pool_hit_policy = ALL_PAGES | TRAILING_PAGES

record pool_transfer =
  pt_name :: string
  pt_host_indices :: "nat list option"
  pt_device_indices :: "nat list option"
  pt_keys :: "string list option"
  pt_hit_policy :: pool_hit_policy
  pt_nodes_to_load :: "nat list option"

record pool_transfer_result =
  kv_hit_pages :: nat
  extra_pool_hit_pages :: "(string, nat) dict"

definition ptr_empty :: pool_transfer_result where
  "ptr_empty = \<lparr>kv_hit_pages = 0, extra_pool_hit_pages = []\<rparr>"

definition update_kv_hit_pages :: "nat \<Rightarrow> pool_transfer_result \<Rightarrow> pool_transfer_result" where
  "update_kv_hit_pages n r = r\<lparr>kv_hit_pages := max (kv_hit_pages r) n\<rparr>"

definition count_true :: "bool list \<Rightarrow> nat" where
  "count_true rs = length (filter id rs)"

definition update_extra_pool_hit_pages ::
  "(string, bool list) dict \<Rightarrow> pool_transfer_result \<Rightarrow> pool_transfer_result" where
  "update_extra_pool_hit_pages results r =
     r\<lparr>extra_pool_hit_pages :=
         fold (\<lambda>(name, rs) d. dict_set name (count_true rs) d) results (extra_pool_hit_pages r)\<rparr>"

section \<open>Prefix queries\<close>

text \<open>
  \<^verbatim>\<open>next((i for i in range(n) if not p(i)), n)\<close>, written as the loop it is; started at 0.
\<close>

function first_missing :: "(nat \<Rightarrow> bool) \<Rightarrow> nat \<Rightarrow> nat \<Rightarrow> nat" where
  "first_missing p i n = (if i < n then (if \<not> p i then i else first_missing p (Suc i) n) else n)"
  by pat_completeness auto
termination
  by (relation "measure (\<lambda>(p, i, n). n - i)") auto

declare first_missing.simps [simp del]

text \<open>\<^verbatim>\<open>HiCacheStorage.batch_exists\<close>, over the backend's \<^verbatim>\<open>exists\<close>.\<close>

definition batch_exists :: "(string \<Rightarrow> bool) \<Rightarrow> string list \<Rightarrow> nat" where
  "batch_exists exists_fn keys = first_missing (\<lambda>i. exists_fn (keys ! i)) 0 (length keys)"

definition trailing_pages :: "pool_transfer \<Rightarrow> nat" where
  "trailing_pages t =
     max 1 (case pt_keys t of None \<Rightarrow> 1 | Some [] \<Rightarrow> 1 | Some (k # ks) \<Rightarrow> length (k # ks))"

text \<open>
  The loop \<^verbatim>\<open>for prefix_len in range(kv_pages, 0, -1)\<close>: the longest prefix whose last
  \<open>trailing\<close> pages are all present, 0 when there is none.
\<close>

fun trailing_boundary :: "(nat \<Rightarrow> bool) \<Rightarrow> nat \<Rightarrow> nat \<Rightarrow> nat" where
  "trailing_boundary has trailing 0 = 0"
| "trailing_boundary has trailing (Suc m) =
     (if list_all has [Suc m - trailing ..< Suc m] then Suc m
      else trailing_boundary has trailing m)"

definition pool_boundary :: "(nat \<Rightarrow> string \<Rightarrow> bool) \<Rightarrow> nat \<Rightarrow> pool_transfer \<Rightarrow> nat" where
  "pool_boundary has_component kv_pages t =
     (case pt_hit_policy t of
        ALL_PAGES \<Rightarrow> first_missing (\<lambda>i. has_component i (pt_name t)) 0 kv_pages
      | TRAILING_PAGES \<Rightarrow>
          trailing_boundary (\<lambda>i. has_component i (pt_name t)) (trailing_pages t) kv_pages)"

fun exists_v2_loop ::
  "(nat \<Rightarrow> string \<Rightarrow> bool) \<Rightarrow> nat \<Rightarrow> pool_transfer list \<Rightarrow> nat \<Rightarrow> (string, nat) dict
     \<Rightarrow> pool_transfer_result" where
  "exists_v2_loop has kv_pages [] final hits =
     \<lparr>kv_hit_pages = final, extra_pool_hit_pages = hits\<rparr>"
| "exists_v2_loop has kv_pages (t # ts) final hits =
     (if final = 0 then \<lparr>kv_hit_pages = final, extra_pool_hit_pages = hits\<rparr>
      else let boundary = pool_boundary has kv_pages t in
        exists_v2_loop has kv_pages ts (min final boundary)
          (if boundary \<noteq> 0 then dict_set (pt_name t) boundary hits else hits))"

text \<open>
  The body of \<^verbatim>\<open>batch_exists_v2\<close> of both backends; \<open>has i name\<close> is their
  \<^verbatim>\<open>has_component\<close> and \<open>has_kv i\<close> the test of the KV page itself.
\<close>

definition batch_exists_v2_with ::
  "(nat \<Rightarrow> bool) \<Rightarrow> (nat \<Rightarrow> string \<Rightarrow> bool) \<Rightarrow> nat \<Rightarrow> pool_transfer list option
     \<Rightarrow> pool_transfer_result" where
  "batch_exists_v2_with has_kv has n transfers =
     (let kv_pages = first_missing has_kv 0 n;
          hits = (if kv_pages \<noteq> 0 then [(PoolName_KV, kv_pages)] else [])
      in exists_v2_loop has kv_pages (case transfers of None \<Rightarrow> [] | Some ts \<Rightarrow> ts) kv_pages hits)"

subsection \<open>The prefix queries return longest prefixes\<close>

lemma first_missing_spec:
  "i \<le> n \<Longrightarrow> i \<le> first_missing p i n \<and> first_missing p i n \<le> n \<and>
     (\<forall>j. i \<le> j \<and> j < first_missing p i n \<longrightarrow> p j) \<and>
     (first_missing p i n < n \<longrightarrow> \<not> p (first_missing p i n))"
proof (induction p i n rule: first_missing.induct)
  case (1 p i n)
  show ?case
  proof (cases "i < n \<and> p i")
    case True
    with "1.IH" have "Suc i \<le> first_missing p (Suc i) n \<and> first_missing p (Suc i) n \<le> n \<and>
        (\<forall>j. Suc i \<le> j \<and> j < first_missing p (Suc i) n \<longrightarrow> p j) \<and>
        (first_missing p (Suc i) n < n \<longrightarrow> \<not> p (first_missing p (Suc i) n))" by simp
    moreover have "first_missing p i n = first_missing p (Suc i) n"
      using True by (simp add: first_missing.simps [of p i n])
    moreover have "p j" if "i \<le> j" "j < first_missing p i n" for j
      using that True calculation by (cases "j = i") auto
    ultimately show ?thesis by auto
  next
    case False
    with "1.prems" show ?thesis by (auto simp: first_missing.simps [of p i n])
  qed
qed

lemma first_missing_le: "first_missing p 0 n \<le> n"
  using first_missing_spec [of 0 n p] by simp

lemma first_missing_present: "j < first_missing p 0 n \<Longrightarrow> p j"
  using first_missing_spec [of 0 n p] by simp

lemma first_missing_stop: "first_missing p 0 n < n \<Longrightarrow> \<not> p (first_missing p 0 n)"
  using first_missing_spec [of 0 n p] by simp

lemma first_missing_greatest: "m \<le> n \<Longrightarrow> (\<And>j. j < m \<Longrightarrow> p j) \<Longrightarrow> m \<le> first_missing p 0 n"
  using first_missing_stop [of p n] by (metis leI le_trans order_less_le_trans)

lemma trailing_boundary_le: "trailing_boundary has t m \<le> m"
  by (induction m) auto

lemma trailing_boundary_window:
  "trailing_boundary has t m = Suc b \<Longrightarrow> Suc b - t \<le> i \<Longrightarrow> i < Suc b \<Longrightarrow> has i"
proof (induction m)
  case (Suc m)
  show ?case
  proof (cases "list_all has [Suc m - t ..< Suc m]")
    case True
    with Suc.prems have "i \<in> set [Suc m - t ..< Suc m]" by (simp del: upt_Suc)
    with True show ?thesis by (simp only: list_all_iff)
  qed (use Suc in simp)
qed simp

lemma trailing_boundary_greatest:
  "b \<le> m \<Longrightarrow> (\<And>i. b - t \<le> i \<Longrightarrow> i < b \<Longrightarrow> has i) \<Longrightarrow> b \<le> trailing_boundary has t m"
proof (induction m)
  case (Suc m)
  show ?case
  proof (cases "b = Suc m")
    case True
    with Suc.prems have "list_all has [Suc m - t ..< Suc m]" by (auto simp: list_all_iff)
    with True show ?thesis by simp
  next
    case False
    with Suc have "b \<le> trailing_boundary has t m" by simp
    also have "\<dots> \<le> m" by (rule trailing_boundary_le)
    finally show ?thesis using Suc False by simp
  qed
qed simp

lemma pool_boundary_le: "pool_boundary has n t \<le> n"
  by (simp add: pool_boundary_def first_missing_le trailing_boundary_le split: pool_hit_policy.split)

lemma exists_v2_loop_kv:
  "kv_hit_pages (exists_v2_loop has n ts final hits) =
     fold (\<lambda>t f. min f (pool_boundary has n t)) ts final"
proof (induction ts arbitrary: final hits)
  case (Cons t ts)
  have zero: "fold (\<lambda>t f. min f (pool_boundary has n t)) us 0 = 0" for us
    by (induction us) auto
  show ?case using Cons by (simp add: Let_def zero)
qed simp

lemma fold_min_le:
  "fold (\<lambda>t f. min f (g t)) ts final \<le> (final :: nat)"
  "t \<in> set ts \<Longrightarrow> fold (\<lambda>t f. min f (g t)) ts final \<le> g t"
  by (induction ts arbitrary: final) (auto intro: order_trans, (meson min.bounded_iff)+)

lemma fold_min_greatest:
  "m \<le> (final :: nat) \<Longrightarrow> (\<And>t. t \<in> set ts \<Longrightarrow> m \<le> g t) \<Longrightarrow> m \<le> fold (\<lambda>t f. min f (g t)) ts final"
  by (induction ts arbitrary: final) auto

section \<open>The plain-file backend\<close>

text \<open>
  \<^verbatim>\<open>HiCacheFile\<close>: one file per page below a directory. The files are a dictionary from
  names to their bytes. A write can fail for reasons outside the program (a full disk), either
  before the file is created or leaving a truncated file; this is the argument
  \<open>io\<close>, indexed by the file's name.
\<close>

datatype write_outcome = WriteOk | WriteFail "nat option"

text \<open>
  A host pool as the backends use it: the object with its page size (if it has the attribute), the
  size in bytes of a flat page (the length of \<^verbatim>\<open>get_dummy_flat_data_page()\<close>) and its methods
  \<^verbatim>\<open>get_data_page\<close> and \<^verbatim>\<open>set_from_flat_data_page\<close>, which may raise.
\<close>

record ('p, 'v) host_pool =
  hp_obj :: 'p
  hp_page_size :: "nat option"
  hp_flat_bytes :: nat
  hp_get_data_page :: "nat \<Rightarrow> 'p \<Rightarrow> 'v res"
  hp_set_from_flat_data_page :: "nat \<Rightarrow> 'v \<Rightarrow> 'p \<Rightarrow> 'p res"

definition pool_page_size :: "('p, 'v) host_pool \<Rightarrow> nat" where
  "pool_page_size hp = (case hp_page_size hp of None \<Rightarrow> 1 | Some p \<Rightarrow> if p = 0 then 1 else p)"

definition pool_get :: "nat \<Rightarrow> ('p, 'v) host_pool \<Rightarrow> 'v res" where
  "pool_get off hp = hp_get_data_page hp off (hp_obj hp)"

definition pool_set :: "nat \<Rightarrow> 'v \<Rightarrow> ('p, 'v) host_pool \<Rightarrow> ('p, 'v) host_pool res" where
  "pool_set off v hp = bindE (hp_set_from_flat_data_page hp off v (hp_obj hp)) (\<lambda>obj. Inr (hp\<lparr>hp_obj := obj\<rparr>))"

text \<open>The pools of plain and of latent attention.\<close>

definition kv_host_pool :: "kv_pool \<Rightarrow> (kv_pool, bytes) host_pool" where
  "kv_host_pool p = \<lparr>hp_obj = p, hp_page_size = Some (kp_page_size p), hp_flat_bytes = dummy_page_bytes p,
     hp_get_data_page = kv_get_data_page, hp_set_from_flat_data_page = kv_set_from_flat_data_page\<rparr>"

record 'p file_backend =
  fb_suffix :: string
  fb_files :: "(string, bytes) dict"
  fb_pools :: "(string, ('p, bytes) host_pool) dict"

text \<open>\<^verbatim>\<open>HiCacheStorageConfig\<close>; \<open>'x\<close> stands for the values of \<^verbatim>\<open>extra_config\<close>.\<close>

record 'x storage_config =
  tp_rank :: nat
  tp_size :: nat
  pp_rank :: nat
  pp_size :: nat
  attn_cp_rank :: nat
  attn_cp_size :: nat
  is_mla_model :: bool
  enable_storage_metrics :: bool
  is_page_first_layout :: bool
  model_name :: "string option"
  tp_lcm_size :: "nat option"
  should_split_heads :: bool
  extra_config :: "(string, 'x) dict option"

definition config_suffix :: "'x storage_config \<Rightarrow> string" where
  "config_suffix c =
     (let m = (case model_name c of None \<Rightarrow> [] | Some m \<Rightarrow> join ''-'' (split_on (CHR ''/'') m));
          s0 = ''_'' @ m;
          s1 = (if \<not> is_mla_model c
                then s0 @ ''_'' @ show_nat (tp_rank c) @ ''_'' @ show_nat (tp_size c) else s0)
      in if 1 < pp_size c
         then s1 @ ''_'' @ show_nat (pp_size c) @ ''_'' @ show_nat (pp_rank c) else s1)"

definition file_backend_init :: "'x storage_config \<Rightarrow> (string, bytes) dict \<Rightarrow> 'p file_backend" where
  "file_backend_init c files = \<lparr>fb_suffix = config_suffix c, fb_files = files, fb_pools = []\<rparr>"

definition register_mem_host_pool_v2 ::
  "('p, bytes) host_pool \<Rightarrow> string \<Rightarrow> 'p file_backend \<Rightarrow> 'p file_backend" where
  "register_mem_host_pool_v2 hp name b = b\<lparr>fb_pools := dict_set name hp (fb_pools b)\<rparr>"

definition get_suffixed_key :: "'p file_backend \<Rightarrow> string \<Rightarrow> string" where
  "get_suffixed_key b key = key @ fb_suffix b"

definition get_component_key :: "'p file_backend \<Rightarrow> string \<Rightarrow> string option \<Rightarrow> string" where
  "get_component_key b key component =
     (case component of
        None \<Rightarrow> get_suffixed_key b key
      | Some c \<Rightarrow> if c = ''__default__'' \<or> c = PoolName_KV then get_suffixed_key b key
                  else get_suffixed_key b (key @ ''.'' @ c))"

definition bin_name :: "'p file_backend \<Rightarrow> string \<Rightarrow> string" where
  "bin_name b key = get_suffixed_key b key @ ''.bin''"

text \<open>
  \<^verbatim>\<open>get\<close> fills a buffer of \<open>expected\<close> bytes: a missing file gives \<^verbatim>\<open>None\<close>, a file that is
  shorter than the buffer raises \<^verbatim>\<open>IOError\<close>, a longer one is cut.
\<close>

definition file_get :: "nat \<Rightarrow> string \<Rightarrow> 'p file_backend \<Rightarrow> bytes option res" where
  "file_get expected key b =
     (case dict_get (fb_files b) (bin_name b key) of
        None \<Rightarrow> Inr None
      | Some data \<Rightarrow>
          (let buf = take expected data
           in if length buf \<noteq> expected then Inl OSError else Inr (Some buf)))"

fun file_batch_get :: "'p file_backend \<Rightarrow> (string \<times> nat) list \<Rightarrow> bytes option list res" where
  "file_batch_get b [] = Inr []"
| "file_batch_get b ((key, expected) # rest) =
     bindE (file_get expected key b) (\<lambda>v. bindE (file_batch_get b rest) (\<lambda>vs. Inr (v # vs)))"

definition file_exists :: "'p file_backend \<Rightarrow> string \<Rightarrow> bool" where
  "file_exists b key = dict_has (fb_files b) (bin_name b key)"

definition file_set ::
  "(string \<Rightarrow> write_outcome) \<Rightarrow> string \<Rightarrow> bytes \<Rightarrow> 'p file_backend \<Rightarrow> bool \<times> 'p file_backend" where
  "file_set io key value b =
     (if file_exists b key then (True, b)
      else let name = bin_name b key in
        (case io name of
           WriteOk \<Rightarrow> (True, b\<lparr>fb_files := dict_set name value (fb_files b)\<rparr>)
         | WriteFail None \<Rightarrow> (False, b)
         | WriteFail (Some n) \<Rightarrow> (False, b\<lparr>fb_files := dict_set name (take n value) (fb_files b)\<rparr>)))"

fun file_batch_set ::
  "(string \<Rightarrow> write_outcome) \<Rightarrow> (string \<times> bytes) list \<Rightarrow> 'p file_backend \<Rightarrow> bool \<times> 'p file_backend" where
  "file_batch_set io [] b = (True, b)"
| "file_batch_set io ((key, value) # rest) b =
     (let (ok, b1) = file_set io key value b
      in if \<not> ok then (False, b1) else file_batch_set io rest b1)"

definition collect_existing_component_keys ::
  "'p file_backend \<Rightarrow> string list \<Rightarrow> pool_transfer list option \<Rightarrow> string list" where
  "collect_existing_component_keys b keys transfers =
     (let target_files =
            map (\<lambda>k. get_component_key b k None @ ''.bin'') keys @
            concat (map (\<lambda>t. map (\<lambda>k. get_component_key b k (Some (pt_name t)) @ ''.bin'') keys)
              (case transfers of None \<Rightarrow> [] | Some ts \<Rightarrow> ts))
      in filter (\<lambda>name. name \<in> set target_files) (dict_keys (fb_files b)))"

definition file_batch_exists_v2 ::
  "'p file_backend \<Rightarrow> string list \<Rightarrow> pool_transfer list option \<Rightarrow> pool_transfer_result" where
  "file_batch_exists_v2 b keys transfers =
     (let existing = collect_existing_component_keys b keys transfers in
      batch_exists_v2_with
        (\<lambda>i. get_component_key b (keys ! i) None @ ''.bin'' \<in> set existing)
        (\<lambda>i name. get_component_key b (keys ! i) (Some name) @ ''.bin'' \<in> set existing)
        (length keys) transfers)"

definition log_key :: "string \<Rightarrow> string \<Rightarrow> string" where
  "log_key pool_name key = (if pool_name = PoolName_KV then key else key @ ''.'' @ pool_name)"

definition read_page :: "string \<Rightarrow> string \<Rightarrow> nat \<Rightarrow> 'p file_backend \<Rightarrow> bool res \<times> 'p file_backend" where
  "read_page pool_name key off b =
     (case dict_get (fb_pools b) pool_name of
        None \<Rightarrow> (Inl KeyError, b)
      | Some hp \<Rightarrow>
          (case file_get (hp_flat_bytes hp) (log_key pool_name key) b of
             Inl x \<Rightarrow> (Inl x, b)
           | Inr None \<Rightarrow> (Inr False, b)
           | Inr (Some page) \<Rightarrow>
               (case pool_set off page hp of
                  Inl x \<Rightarrow> (Inl x, b)
                | Inr hp1 \<Rightarrow> (Inr True, b\<lparr>fb_pools := dict_set pool_name hp1 (fb_pools b)\<rparr>))))"

definition write_page ::
  "(string \<Rightarrow> write_outcome) \<Rightarrow> string \<Rightarrow> string \<Rightarrow> nat \<Rightarrow> 'p file_backend
     \<Rightarrow> bool res \<times> 'p file_backend" where
  "write_page io pool_name key off b =
     (case dict_get (fb_pools b) pool_name of
        None \<Rightarrow> (Inl KeyError, b)
      | Some hp \<Rightarrow>
          (case pool_get off hp of
             Inl x \<Rightarrow> (Inl x, b)
           | Inr page \<Rightarrow> (let (ok, b1) = file_set io (log_key pool_name key) page b in (Inr ok, b1))))"

text \<open>
  The list comprehension of \<^verbatim>\<open>_batch_io_v2\<close>: one call of \<open>op_fn\<close> per key, in order, the
  state threaded through (also past an exception); entry \<open>i\<close> uses the host index at position
  \<open>i * page_size\<close>.
\<close>

fun batch_io_keys ::
  "(string \<Rightarrow> nat \<Rightarrow> 's \<Rightarrow> bool res \<times> 's) \<Rightarrow> nat \<Rightarrow> nat list \<Rightarrow> nat \<Rightarrow> string list \<Rightarrow> 's
     \<Rightarrow> bool list res \<times> 's" where
  "batch_io_keys op_fn page_size idx i [] s = (Inr [], s)"
| "batch_io_keys op_fn page_size idx i (key # keys) s =
     (case op_fn key (idx ! (i * page_size)) s of
        (Inl x, s1) \<Rightarrow> (Inl x, s1)
      | (Inr r, s1) \<Rightarrow>
          (case batch_io_keys op_fn page_size idx (Suc i) keys s1 of
             (Inl x, s2) \<Rightarrow> (Inl x, s2)
           | (Inr rs, s2) \<Rightarrow> (Inr (r # rs), s2)))"

fun batch_io_v2 ::
  "('s \<Rightarrow> string \<Rightarrow> nat res) \<Rightarrow> (string \<Rightarrow> string \<Rightarrow> nat \<Rightarrow> 's \<Rightarrow> bool res \<times> 's)
     \<Rightarrow> pool_transfer list \<Rightarrow> (string, bool list) dict \<Rightarrow> 's \<Rightarrow> (string, bool list) dict res \<times> 's" where
  "batch_io_v2 page_size_of op_fn [] results s = (Inr results, s)"
| "batch_io_v2 page_size_of op_fn (t # ts) results s =
     (case page_size_of s (pt_name t) of
        Inl x \<Rightarrow> (Inl x, s)
      | Inr page_size \<Rightarrow>
          (let keys = (case pt_keys t of None \<Rightarrow> [] | Some ks \<Rightarrow> ks);
               mismatch = dict_set (pt_name t) (replicate (length keys) False) results
           in case pt_host_indices t of
                None \<Rightarrow> batch_io_v2 page_size_of op_fn ts mismatch s
              | Some idx \<Rightarrow>
                  if length idx \<noteq> length keys * page_size
                  then batch_io_v2 page_size_of op_fn ts mismatch s
                  else (case batch_io_keys (op_fn (pt_name t)) page_size idx 0 keys s of
                          (Inl x, s1) \<Rightarrow> (Inl x, s1)
                        | (Inr rs, s1) \<Rightarrow>
                            batch_io_v2 page_size_of op_fn ts (dict_set (pt_name t) rs results) s1)))"

definition file_pool_page_size :: "'p file_backend \<Rightarrow> string \<Rightarrow> nat res" where
  "file_pool_page_size b name =
     (case dict_get (fb_pools b) name of None \<Rightarrow> Inl KeyError | Some hp \<Rightarrow> Inr (pool_page_size hp))"

definition file_batch_get_v2 ::
  "pool_transfer list \<Rightarrow> 'p file_backend \<Rightarrow> (string, bool list) dict res \<times> 'p file_backend" where
  "file_batch_get_v2 ts b = batch_io_v2 file_pool_page_size read_page ts [] b"

definition file_batch_set_v2 ::
  "(string \<Rightarrow> write_outcome) \<Rightarrow> pool_transfer list \<Rightarrow> 'p file_backend
     \<Rightarrow> (string, bool list) dict res \<times> 'p file_backend" where
  "file_batch_set_v2 io ts b = batch_io_v2 file_pool_page_size (write_page io) ts [] b"

text \<open>An invariant the page operation keeps is kept by the whole batch.\<close>

lemma batch_io_keys_inv:
  assumes "\<And>key off s. I s \<Longrightarrow> I (snd (op_fn key off s))"
  shows "I s \<Longrightarrow> I (snd (batch_io_keys op_fn page_size idx i keys s))"
proof (induction keys arbitrary: i s)
  case (Cons k ks)
  obtain r s1 where o: "op_fn k (idx ! (i * page_size)) s = (r, s1)"
    by (cases "op_fn k (idx ! (i * page_size)) s")
  with assms [OF Cons.prems, of k "idx ! (i * page_size)"] have "I s1" by simp
  with Cons.IH [of s1 "Suc i"] o show ?case
    by (auto split: sum.split prod.split)
qed simp

lemma batch_io_v2_inv:
  assumes "\<And>name key off s. I s \<Longrightarrow> I (snd (op_fn name key off s))"
  shows "I s \<Longrightarrow> I (snd (batch_io_v2 page_size_of op_fn ts results s))"
proof (induction ts arbitrary: results s)
  case (Cons t ts)
  have keys: "I (snd (batch_io_keys (op_fn (pt_name t)) p idx 0 ks s))" for p idx ks
    using Cons.prems assms by (rule batch_io_keys_inv [rotated])
  show ?case
  proof (cases "page_size_of s (pt_name t)")
    case (Inr p)
    let ?ks = "case pt_keys t of None \<Rightarrow> [] | Some ks \<Rightarrow> ks"
    show ?thesis
    proof (cases "pt_host_indices t")
      case None
      with Inr Cons show ?thesis by (simp add: Let_def)
    next
      case (Some idx)
      with Inr Cons keys [of p idx ?ks] show ?thesis
        by (cases "batch_io_keys (op_fn (pt_name t)) p idx 0 ?ks s")
          (auto simp: Let_def split: sum.split)
    qed
  qed (use Cons.prems in simp)
qed simp

text \<open>
  \<^verbatim>\<open>clear\<close> removes the files one by one; the first removal that raises ends the loop with
  \<^verbatim>\<open>False\<close>. Which removals raise is the argument \<open>removable\<close>.
\<close>

fun file_clear_loop ::
  "(string \<Rightarrow> bool) \<Rightarrow> string list \<Rightarrow> 'p file_backend \<Rightarrow> bool \<times> 'p file_backend" where
  "file_clear_loop removable [] b = (True, b)"
| "file_clear_loop removable (name # names) b =
     (if removable name
      then file_clear_loop removable names (b\<lparr>fb_files := dict_pop name (fb_files b)\<rparr>)
      else (False, b))"

definition file_clear :: "(string \<Rightarrow> bool) \<Rightarrow> 'p file_backend \<Rightarrow> bool \<times> 'p file_backend" where
  "file_clear removable b = file_clear_loop removable (dict_keys (fb_files b)) b"

section \<open>The contract of a page store\<close>

text \<open>
  What the cache controller relies on when it backs up pages and prefetches them: a page that was
  stored is found again, and a page the backend reports as present can be fetched. \<open>valid\<close>
  says which values the backend accepts (for the file backend, pages of the configured size).
\<close>

locale page_store =
  fixes put :: "'e \<Rightarrow> string \<Rightarrow> 'v \<Rightarrow> 's \<Rightarrow> bool \<times> 's"
    and fetch :: "'s \<Rightarrow> string \<Rightarrow> 'v option"
    and has :: "'s \<Rightarrow> string \<Rightarrow> bool"
    and valid :: "'v \<Rightarrow> bool"
    and invar :: "'s \<Rightarrow> bool"
  assumes put_invar: "invar s \<Longrightarrow> valid v \<Longrightarrow> put e k v s = (True, s') \<Longrightarrow> invar s'"
    and put_has: "invar s \<Longrightarrow> valid v \<Longrightarrow> put e k v s = (True, s') \<Longrightarrow> has s' k"
    and put_fetch: "invar s \<Longrightarrow> valid v \<Longrightarrow> put e k v s = (True, s') \<Longrightarrow>
      fetch s' k = (if has s k then fetch s k else Some v)"
    and has_fetch: "invar s \<Longrightarrow> has s k \<Longrightarrow> \<exists>v. fetch s k = Some v"
begin

text \<open>Every page of the prefix a backend reports can be fetched.\<close>

lemma reported_prefix_fetchable:
  assumes "invar s" and "i < batch_exists (has s) keys"
  shows "\<exists>v. fetch s (keys ! i) = Some v"
proof -
  from assms(2) have "has s (keys ! i)"
    unfolding batch_exists_def by (rule first_missing_present)
  with assms(1) show ?thesis by (rule has_fetch)
qed

end

text \<open>A store that keeps every other page while it stores one.\<close>

locale retaining_page_store = page_store +
  assumes put_other: "invar s \<Longrightarrow> valid v \<Longrightarrow> put e k v s = (True, s') \<Longrightarrow> k' \<noteq> k \<Longrightarrow>
      has s' k' = has s k' \<and> fetch s' k' = fetch s k'"
begin

lemma put_keeps_has: "invar s \<Longrightarrow> valid v \<Longrightarrow> put e k v s = (True, s') \<Longrightarrow> has s k' \<Longrightarrow> has s' k'"
  using put_has put_other by metis

lemma put_keeps_fetch:
  assumes "invar s" and "valid v" and "put e k v s = (True, s')" and "has s k'"
  shows "fetch s' k' = fetch s k'"
  using assms put_fetch put_other by (cases "k' = k") auto

end

subsection \<open>The file backend keeps the contract\<close>

definition file_fetch :: "nat \<Rightarrow> 'p file_backend \<Rightarrow> string \<Rightarrow> bytes option" where
  "file_fetch n b key = (case file_get n key b of Inl e \<Rightarrow> None | Inr v \<Rightarrow> v)"

definition page_valid :: "nat \<Rightarrow> bytes \<Rightarrow> bool" where
  "page_valid n v \<longleftrightarrow> length v = n"

text \<open>Every file of the directory is a whole page of \<open>n\<close> bytes.\<close>

definition whole_pages :: "nat \<Rightarrow> 'p file_backend \<Rightarrow> bool" where
  "whole_pages n b \<longleftrightarrow> (\<forall>name data. dict_get (fb_files b) name = Some data \<longrightarrow> length data = n)"

lemma bin_name_inj [simp]: "bin_name b k = bin_name b k' \<longleftrightarrow> k = k'"
  by (simp add: bin_name_def get_suffixed_key_def)

lemma bin_name_files [simp]: "bin_name (b\<lparr>fb_files := fs\<rparr>) k = bin_name b k"
  by (simp add: bin_name_def get_suffixed_key_def)

lemma file_set_TrueE:
  assumes "file_set io k v b = (True, b')"
  obtains "file_exists b k" "b' = b"
  | "\<not> file_exists b k" "b' = b\<lparr>fb_files := dict_set (bin_name b k) v (fb_files b)\<rparr>"
  using assms by (auto simp: file_set_def Let_def split: if_splits write_outcome.splits option.splits)

interpretation file_store: retaining_page_store
  file_set "file_fetch n" file_exists "page_valid n" "whole_pages n" for n
proof (unfold_locales, goal_cases)
  case (1 s v e k s')
  then show ?case
    by (auto elim!: file_set_TrueE simp: whole_pages_def page_valid_def split: if_splits)
next
  case (2 s v e k s')
  then show ?case
    by (auto elim!: file_set_TrueE simp: file_exists_def dict_has_iff)
next
  case (3 s v e k s')
  then show ?case
    by (auto elim!: file_set_TrueE
        simp: file_fetch_def file_get_def page_valid_def Let_def split: option.split)
next
  case (4 s k)
  then show ?case
    by (fastforce simp: file_exists_def dict_has_iff file_fetch_def file_get_def whole_pages_def)
next
  case (5 s v e k s' k')
  then show ?case
    by (auto elim!: file_set_TrueE simp: file_exists_def dict_has_iff file_fetch_def file_get_def)
qed

section \<open>Properties of the file backend\<close>

lemma file_get_other:
  "k' \<noteq> k \<Longrightarrow> file_get n k' (b\<lparr>fb_files := dict_set (bin_name b k) v (fb_files b)\<rparr>) = file_get n k' b"
  by (simp add: file_get_def)

lemma file_set_fresh:
  "\<not> file_exists b k \<Longrightarrow> io (bin_name b k) = WriteOk \<Longrightarrow>
     file_set io k v b = (True, b\<lparr>fb_files := dict_set (bin_name b k) v (fb_files b)\<rparr>)"
  by (simp add: file_set_def Let_def)

text \<open>Backing up the pages of a transfer: every key gets the page at its host index.\<close>

lemma write_keys_stores:
  assumes "\<forall>name. io name = WriteOk" and "distinct keys"
    and "\<forall>k \<in> set keys. \<not> file_exists b (log_key pool k)"
    and "dict_get (fb_pools b) pool = Some hp"
    and "\<forall>j < length keys. pool_get (idx ! ((i + j) * ps)) hp = Inr (data j)"
  shows "\<exists>b'. batch_io_keys (write_page io pool) ps idx i keys b = (Inr (replicate (length keys) True), b') \<and>
     fb_pools b' = fb_pools b \<and> fb_suffix b' = fb_suffix b \<and>
     (\<forall>j < length keys. dict_get (fb_files b') (bin_name b' (log_key pool (keys ! j))) = Some (data j)) \<and>
     (\<forall>name. name \<notin> (\<lambda>k. bin_name b (log_key pool k)) ` set keys \<longrightarrow>
        dict_get (fb_files b') name = dict_get (fb_files b) name)"
  using assms(2-)
proof (induction keys arbitrary: i b data)
  case (Cons k ks)
  let ?n = "bin_name b (log_key pool k)"
  let ?b1 = "b\<lparr>fb_files := dict_set ?n (data 0) (fb_files b)\<rparr>"
  have page: "pool_get (idx ! (i * ps)) hp = Inr (data 0)" using Cons.prems(4) [rule_format, of 0] by simp
  have step: "write_page io pool k (idx ! (i * ps)) b = (Inr True, ?b1)"
    using Cons.prems(2,3) assms(1) page by (simp add: write_page_def file_set_fresh)
  have inj: "log_key pool a = log_key pool c \<longleftrightarrow> a = c" for a c by (simp add: log_key_def)
  have fresh: "\<forall>a \<in> set ks. \<not> file_exists ?b1 (log_key pool a)"
    using Cons.prems(1,2) by (auto simp: file_exists_def dict_has_iff inj)
  have tail: "\<forall>j < length ks. pool_get (idx ! ((Suc i + j) * ps)) hp = Inr (data (Suc j))"
    using Cons.prems(4) by (metis Suc_less_eq add_Suc_shift length_Cons)
  obtain b' where b': "batch_io_keys (write_page io pool) ps idx (Suc i) ks ?b1 =
        (Inr (replicate (length ks) True), b')"
    "fb_pools b' = fb_pools b" "fb_suffix b' = fb_suffix b"
    "\<forall>j < length ks. dict_get (fb_files b') (bin_name b' (log_key pool (ks ! j))) = Some (data (Suc j))"
    "\<forall>name. name \<notin> (\<lambda>k. bin_name ?b1 (log_key pool k)) ` set ks \<longrightarrow>
        dict_get (fb_files b') name = dict_get (fb_files ?b1) name"
    using Cons.IH [of ?b1 "Suc i" "\<lambda>j. data (Suc j)"] Cons.prems(1,3) fresh tail by auto
  have same: "bin_name b' = bin_name b" using b'(3) by (auto simp: bin_name_def get_suffixed_key_def)
  have "?n \<notin> (\<lambda>k. bin_name ?b1 (log_key pool k)) ` set ks"
    using Cons.prems(1) by (auto simp: inj)
  with b'(5) have k: "dict_get (fb_files b') ?n = Some (data 0)" by simp
  have all: "dict_get (fb_files b') (bin_name b' (log_key pool ((k # ks) ! j))) = Some (data j)"
    if "j < length (k # ks)" for j
    using that b'(4) k by (cases j) (simp_all add: same)
  have rest: "dict_get (fb_files b') name = dict_get (fb_files b) name"
    if "name \<notin> (\<lambda>k. bin_name b (log_key pool k)) ` set (k # ks)" for name
    using that b'(5) by simp
  show ?case using step b'(1-3) all rest by (intro exI [of _ b']) simp
qed simp

text \<open>Fetching pages: every target receives the stored page of its key, pages on other rows stay.\<close>

lemma kv_pool_set: "pool_set off v (kv_host_pool p) = map_sum id kv_host_pool (kv_set_from_flat_data_page off v p)"
  if "\<And>q. kv_set_from_flat_data_page off v p = Inr q \<Longrightarrow> q = p\<lparr>kp_planes := kp_planes q\<rparr>"
proof (cases "kv_set_from_flat_data_page off v p")
  case (Inr q)
  have "kp_page_size q = kp_page_size p" "dummy_page_bytes q = dummy_page_bytes p"
    by (subst that [OF Inr], simp add: dummy_page_bytes_def kv_parts_def)+
  then show ?thesis by (simp add: pool_set_def kv_host_pool_def Inr)
qed (simp add: pool_set_def kv_host_pool_def)

lemma same_buffer_shape:
  assumes "q = p\<lparr>kp_planes := planes\<rparr>"
  shows "page_rows q = page_rows p" "page_inside q = page_inside p" "dummy_page_bytes q = dummy_page_bytes p"
    "kp_page_size q = kp_page_size p"
  by (simp_all add: assms page_rows_def page_inside_def page_row_def by_page_def dummy_page_bytes_def kv_parts_def fun_eq_iff)

lemma read_keys_loads:
  assumes "\<forall>j < length keys. file_get (dummy_page_bytes p) (log_key pool (keys ! j)) b = Inr (Some (data j))"
    and "\<forall>j < length keys. length (data j) = dummy_page_bytes p"
    and "dict_get (fb_pools b) pool = Some (kv_host_pool p)" and "kv_shaped p"
    and "\<forall>j < length keys. page_inside p (idx ! ((i + j) * ps))"
    and "\<forall>j k. j < k \<longrightarrow> k < length keys \<longrightarrow> page_rows p (idx ! ((i + j) * ps)) \<inter> page_rows p (idx ! ((i + k) * ps)) = {}"
  shows "\<exists>b' p'. batch_io_keys (read_page pool) ps idx i keys b = (Inr (replicate (length keys) True), b') \<and>
     dict_get (fb_pools b') pool = Some (kv_host_pool p') \<and>
     (\<forall>j < length keys. kv_get_data_page (idx ! ((i + j) * ps)) p' = Inr (data j)) \<and>
     (\<forall>off. (\<forall>j < length keys. page_rows p off \<inter> page_rows p (idx ! ((i + j) * ps)) = {}) \<longrightarrow>
        kv_get_data_page off p' = kv_get_data_page off p)"
  using assms
proof (induction keys arbitrary: i b p data)
  case (Cons k ks)
  have shift: "(Suc i + j) * ps = (i + Suc j) * ps" for j by simp
  obtain q where q: "kv_set_from_flat_data_page (idx ! (i * ps)) (data 0) p = Inr q"
    "kv_get_data_page (idx ! (i * ps)) q = Inr (data 0)" "kv_shaped q" "q = p\<lparr>kp_planes := kp_planes q\<rparr>"
    "\<And>off. page_rows p off \<inter> page_rows p (idx ! (i * ps)) = {} \<Longrightarrow> kv_get_data_page off q = kv_get_data_page off p"
    using kv_page_roundtrip [OF Cons.prems(4), of "idx ! (i * ps)" "data 0"]
      Cons.prems(2) [rule_format, of 0] Cons.prems(5) [rule_format, of 0] by auto
  note sh = same_buffer_shape [OF q(4)]
  let ?b1 = "b\<lparr>fb_pools := dict_set pool (kv_host_pool q) (fb_pools b)\<rparr>"
  have same: "file_get n a ?b1 = file_get n a b" for n a
    by (simp add: file_get_def bin_name_def get_suffixed_key_def)
  have set: "pool_set (idx ! (i * ps)) (data 0) (kv_host_pool p) = Inr (kv_host_pool q)"
    using kv_pool_set [of "idx ! (i * ps)" "data 0" p] q(1,4) by simp
  have flat: "hp_flat_bytes (kv_host_pool p) = dummy_page_bytes p" by (simp add: kv_host_pool_def)
  have step: "read_page pool k (idx ! (i * ps)) b = (Inr True, ?b1)"
    using Cons.prems(1) [rule_format, of 0] Cons.prems(3) set by (simp add: read_page_def flat)
  have h1: "\<forall>j < length ks. file_get (dummy_page_bytes q) (log_key pool (ks ! j)) ?b1 = Inr (Some (data (Suc j)))"
    using Cons.prems(1) unfolding same sh by auto
  have h2: "\<forall>j < length ks. length (data (Suc j)) = dummy_page_bytes q" using Cons.prems(2) unfolding sh by auto
  have h3: "\<forall>j < length ks. page_inside q (idx ! ((Suc i + j) * ps))"
    using Cons.prems(5) unfolding sh shift by auto
  have h4: "\<forall>j m. j < m \<longrightarrow> m < length ks \<longrightarrow>
      page_rows q (idx ! ((Suc i + j) * ps)) \<inter> page_rows q (idx ! ((Suc i + m) * ps)) = {}"
    unfolding sh shift using Cons.prems(6) [rule_format, of "Suc _" "Suc _"] by (simp only: length_Cons Suc_less_eq) simp
  have h0: "dict_get (fb_pools ?b1) pool = Some (kv_host_pool q)" by simp
  obtain b' p' where b': "batch_io_keys (read_page pool) ps idx (Suc i) ks ?b1 = (Inr (replicate (length ks) True), b')"
    "dict_get (fb_pools b') pool = Some (kv_host_pool p')"
    "\<forall>j < length ks. kv_get_data_page (idx ! ((Suc i + j) * ps)) p' = Inr (data (Suc j))"
    "\<forall>off. (\<forall>j < length ks. page_rows q off \<inter> page_rows q (idx ! ((Suc i + j) * ps)) = {}) \<longrightarrow>
        kv_get_data_page off p' = kv_get_data_page off q"
    using Cons.IH [OF h1 h2 h0 q(3) h3 h4] by blast
  have apart: "page_rows p (idx ! (i * ps)) \<inter> page_rows p (idx ! ((i + Suc j) * ps)) = {}" if "j < length ks" for j
    using Cons.prems(6) [rule_format, of 0 "Suc j"] that by simp
  have first: "kv_get_data_page (idx ! (i * ps)) p' = Inr (data 0)"
    using b'(4) [rule_format, of "idx ! (i * ps)"] apart q(2) unfolding sh shift by simp
  have all: "kv_get_data_page (idx ! ((i + j) * ps)) p' = Inr (data j)" if "j < length (k # ks)" for j
    using that b'(3) first unfolding shift by (cases j) simp_all
  have rest: "kv_get_data_page off p' = kv_get_data_page off p"
    if away: "\<forall>j < length (k # ks). page_rows p off \<inter> page_rows p (idx ! ((i + j) * ps)) = {}" for off
  proof -
    have "page_rows p off \<inter> page_rows p (idx ! (i * ps)) = {}" using away [rule_format, of 0] by simp
    moreover have "\<forall>j < length ks. page_rows q off \<inter> page_rows q (idx ! ((Suc i + j) * ps)) = {}"
      unfolding sh shift using away [rule_format, of "Suc _"] by (simp only: length_Cons Suc_less_eq) simp
    ultimately show ?thesis using b'(4) q(5) by metis
  qed
  have "batch_io_keys (read_page pool) ps idx i (k # ks) b = (Inr (replicate (length (k # ks)) True), b')"
    using step b'(1) by simp
  with b'(2) all rest show ?case by blast
qed auto

abbreviation page_transfer :: "string \<Rightarrow> string list \<Rightarrow> nat list \<Rightarrow> pool_transfer" where
  "page_transfer pool keys idx \<equiv> \<lparr>pt_name = pool, pt_host_indices = Some idx, pt_device_indices = None,
     pt_keys = Some keys, pt_hit_policy = ALL_PAGES, pt_nodes_to_load = None\<rparr>"

text \<open>
  C27: backing up pages of a key/value host pool, in any of its layouts, under new keys and then
  prefetching the same keys into pages of the pool that do not overlap copies every page: both
  batches report success for every key, each target page ends with the bytes its key was saved
  from, and a page that shares no row with a target keeps its bytes.
\<close>

theorem backup_then_prefetch:
  assumes "\<forall>name. io name = WriteOk" and "distinct keys"
    and "\<forall>k \<in> set keys. \<not> file_exists b (log_key pool k)"
    and "dict_get (fb_pools b) pool = Some (kv_host_pool p)" and "kv_shaped p"
    and "length src = length keys * kp_page_size p" and "length dst = length keys * kp_page_size p"
    and "\<forall>j < length keys. page_inside p (src ! (j * kp_page_size p)) \<and> page_inside p (dst ! (j * kp_page_size p))"
    and "\<forall>j k. j < k \<longrightarrow> k < length keys \<longrightarrow>
      page_rows p (dst ! (j * kp_page_size p)) \<inter> page_rows p (dst ! (k * kp_page_size p)) = {}"
  shows "\<exists>b1 b2 p'.
    file_batch_set_v2 io [page_transfer pool keys src] b =
      (Inr [(pool, replicate (length keys) True)], b1) \<and>
    file_batch_get_v2 [page_transfer pool keys dst] b1 =
      (Inr [(pool, replicate (length keys) True)], b2) \<and>
    dict_get (fb_pools b2) pool = Some (kv_host_pool p') \<and>
    (\<forall>j < length keys. \<exists>page. kv_get_data_page (src ! (j * kp_page_size p)) p = Inr page \<and>
       kv_get_data_page (dst ! (j * kp_page_size p)) p' = Inr page) \<and>
    (\<forall>off. (\<forall>j < length keys. page_rows p off \<inter> page_rows p (dst ! (j * kp_page_size p)) = {}) \<longrightarrow>
       kv_get_data_page off p' = kv_get_data_page off p)"
proof -
  let ?ps = "kp_page_size p"
  have "0 < ?ps" using assms(5) unfolding kv_shaped_def by (auto split: sum.splits)
  then have ps: "pool_page_size (kv_host_pool p) = ?ps" by (simp add: pool_page_size_def kv_host_pool_def)
  have "\<forall>j. \<exists>page. j < length keys \<longrightarrow>
      kv_get_data_page (src ! (j * ?ps)) p = Inr page \<and> length page = dummy_page_bytes p"
    using kv_page_bytes [OF assms(5)] assms(8) by blast
  then obtain data where data: "\<And>j. j < length keys \<Longrightarrow>
      kv_get_data_page (src ! (j * ?ps)) p = Inr (data j) \<and> length (data j) = dummy_page_bytes p"
    by metis
  have get: "\<forall>j < length keys. pool_get (src ! ((0 + j) * ?ps)) (kv_host_pool p) = Inr (data j)"
    using data by (simp add: pool_get_def kv_host_pool_def)
  obtain b1 where w: "batch_io_keys (write_page io pool) ?ps src 0 keys b = (Inr (replicate (length keys) True), b1)"
    and pools: "fb_pools b1 = fb_pools b"
    and files: "\<forall>j < length keys. dict_get (fb_files b1) (bin_name b1 (log_key pool (keys ! j))) = Some (data j)"
    using write_keys_stores [OF assms(1-4) get] by blast
  have stored: "\<forall>j < length keys. file_get (dummy_page_bytes p) (log_key pool (keys ! j)) b1 = Inr (Some (data j))"
    using files data by (simp add: file_get_def Let_def)
  have len: "\<forall>j < length keys. length (data j) = dummy_page_bytes p" using data by simp
  have p1: "dict_get (fb_pools b1) pool = Some (kv_host_pool p)" using pools assms(4) by simp
  have inside: "\<forall>j < length keys. page_inside p (dst ! ((0 + j) * ?ps))" using assms(8) by simp
  have apart: "\<forall>j k. j < k \<longrightarrow> k < length keys \<longrightarrow>
      page_rows p (dst ! ((0 + j) * ?ps)) \<inter> page_rows p (dst ! ((0 + k) * ?ps)) = {}" using assms(9) by simp
  obtain b2 p' where r: "batch_io_keys (read_page pool) ?ps dst 0 keys b1 = (Inr (replicate (length keys) True), b2)"
    "dict_get (fb_pools b2) pool = Some (kv_host_pool p')"
    "\<forall>j < length keys. kv_get_data_page (dst ! ((0 + j) * ?ps)) p' = Inr (data j)"
    "\<forall>off. (\<forall>j < length keys. page_rows p off \<inter> page_rows p (dst ! ((0 + j) * ?ps)) = {}) \<longrightarrow>
        kv_get_data_page off p' = kv_get_data_page off p"
    using read_keys_loads [OF stored len p1 assms(5) inside apart] by blast
  have "file_batch_set_v2 io [page_transfer pool keys src] b = (Inr [(pool, replicate (length keys) True)], b1)"
    using w assms(4,6) by (simp add: file_batch_set_v2_def file_pool_page_size_def Let_def ps)
  moreover have "file_batch_get_v2 [page_transfer pool keys dst] b1 = (Inr [(pool, replicate (length keys) True)], b2)"
    using r(1) p1 assms(7) by (simp add: file_batch_get_v2_def file_pool_page_size_def Let_def ps)
  moreover have "\<forall>j < length keys. \<exists>page. kv_get_data_page (src ! (j * ?ps)) p = Inr page \<and>
      kv_get_data_page (dst ! (j * ?ps)) p' = Inr page"
    using data r(3) by simp
  ultimately show ?thesis using r(2,4) by (intro exI [of _ b1] exI [of _ b2] exI [of _ p']) simp
qed

definition sample_pool :: kv_pool where
  "sample_pool = \<lparr>kp_mla = True, kp_layout = ''page_first'', kp_page_size = 2, kp_size = 6, kp_layers = 1, kp_entry = 1,
     kp_planes = [[[10], [11], [12], [13], [14], [15]]]\<rparr>"

definition sample_files :: "kv_pool file_backend" where
  "sample_files = \<lparr>fb_suffix = ''_m'', fb_files = [], fb_pools = [(''swa'', kv_host_pool sample_pool)]\<rparr>"

theorem backup_then_prefetch_witness:
  "\<exists>b1 b2 p'.
    file_batch_set_v2 (\<lambda>_. WriteOk) [page_transfer ''swa'' [''a'', ''b''] [2, 3, 4, 5]] sample_files =
      (Inr [(''swa'', [True, True])], b1) \<and>
    file_batch_get_v2 [page_transfer ''swa'' [''a'', ''b''] [4, 5, 0, 1]] b1 =
      (Inr [(''swa'', [True, True])], b2) \<and>
    dict_get (fb_pools b2) ''swa'' = Some (kv_host_pool p') \<and>
    kv_get_data_page 4 p' = Inr [12, 13] \<and> kv_get_data_page 0 p' = Inr [14, 15] \<and> kv_get_data_page 2 p' = Inr [12, 13]"
proof -
  have two: "j < length [''a'', ''b''] \<longleftrightarrow> j = 0 \<or> j = 1" for j :: nat by auto
  have ps: "kp_page_size sample_pool = 2" by (simp add: sample_pool_def)
  have rows: "page_rows sample_pool i = {i..<i + 2}" for i
    by (simp add: page_rows_def page_row_def by_page_def sample_pool_def)
  have inside: "page_inside sample_pool i \<longleftrightarrow> i \<le> 4" for i
    unfolding page_inside_def rows
    by (auto simp: by_page_def sample_pool_def dest: subsetD [of _ _ "Suc i"])
  have page: "kv_get_data_page i sample_pool = Inr (concat (take 2 (drop i [[10], [11], [12], [13], [14], [15]])))" for i
    by (simp add: kv_get_data_page_def page_shape_def page_row_def by_page_def sample_pool_def)
  have sh: "kv_shaped sample_pool"
    by (simp add: kv_shaped_def page_shape_def by_page_def kv_parts_def sample_pool_def)
  have w: "\<forall>name. (\<lambda>_ :: string. WriteOk) name = WriteOk" and k: "distinct [''a'', ''b'']"
    and f: "\<forall>k \<in> set [''a'', ''b'']. \<not> file_exists sample_files (log_key ''swa'' k)"
    and p: "dict_get (fb_pools sample_files) ''swa'' = Some (kv_host_pool sample_pool)"
    and n: "length [2, 3, 4, 5 :: nat] = length [''a'', ''b''] * kp_page_size sample_pool"
      "length [4, 5, 0, 1 :: nat] = length [''a'', ''b''] * kp_page_size sample_pool"
    by (simp_all add: ps sample_files_def file_exists_def dict_has_def)
  have i: "\<forall>j < length [''a'', ''b'']. page_inside sample_pool ([2, 3, 4, 5] ! (j * kp_page_size sample_pool)) \<and>
      page_inside sample_pool ([4, 5, 0, 1] ! (j * kp_page_size sample_pool))"
    unfolding two ps inside by auto
  have d: "\<forall>j k. j < k \<longrightarrow> k < length [''a'', ''b''] \<longrightarrow>
      page_rows sample_pool ([4, 5, 0, 1] ! (j * kp_page_size sample_pool)) \<inter>
      page_rows sample_pool ([4, 5, 0, 1] ! (k * kp_page_size sample_pool)) = {}"
    unfolding two ps rows by auto
  from backup_then_prefetch [OF w k f p sh n i d] obtain b1 b2 p' where r:
    "file_batch_set_v2 (\<lambda>_. WriteOk) [page_transfer ''swa'' [''a'', ''b''] [2, 3, 4, 5]] sample_files =
      (Inr [(''swa'', replicate (length [''a'', ''b'']) True)], b1)"
    "file_batch_get_v2 [page_transfer ''swa'' [''a'', ''b''] [4, 5, 0, 1]] b1 =
      (Inr [(''swa'', replicate (length [''a'', ''b'']) True)], b2)"
    "dict_get (fb_pools b2) ''swa'' = Some (kv_host_pool p')"
    "\<forall>j < length [''a'', ''b'']. \<exists>page. kv_get_data_page ([2, 3, 4, 5] ! (j * kp_page_size sample_pool)) sample_pool = Inr page \<and>
       kv_get_data_page ([4, 5, 0, 1] ! (j * kp_page_size sample_pool)) p' = Inr page"
    "\<forall>off. (\<forall>j < length [''a'', ''b'']. page_rows sample_pool off \<inter>
        page_rows sample_pool ([4, 5, 0, 1] ! (j * kp_page_size sample_pool)) = {}) \<longrightarrow>
       kv_get_data_page off p' = kv_get_data_page off sample_pool"
    by blast
  have "kv_get_data_page 4 p' = Inr [12, 13]" using r(4) [rule_format, of 0] by (simp add: ps page)
  moreover have "kv_get_data_page 0 p' = Inr [14, 15]" using r(4) [rule_format, of 1] by (simp add: ps page)
  moreover have "kv_get_data_page 2 p' = Inr [12, 13]"
  proof -
    have "\<forall>j < length [''a'', ''b'']. page_rows sample_pool 2 \<inter>
        page_rows sample_pool ([4, 5, 0, 1] ! (j * kp_page_size sample_pool)) = {}"
      unfolding two ps rows by auto
    with r(5) have "kv_get_data_page 2 p' = kv_get_data_page 2 sample_pool" by blast
    then show ?thesis by (simp add: page)
  qed
  ultimately show ?thesis using r(1-3) by (intro exI [of _ b1] exI [of _ b2] exI [of _ p']) simp
qed

lemma show_nat_no_underscore: "CHR ''_'' \<notin> set (show_nat n)"
  using show_nat_digits [of "CHR ''_''" n] by (auto simp: digit_val_def)

lemma until_underscore:
  "CHR ''_'' \<notin> set a \<Longrightarrow> CHR ''_'' \<notin> set b \<Longrightarrow> a @ CHR ''_'' # x = b @ CHR ''_'' # y \<longleftrightarrow> a = b \<and> x = y"
proof (induction a arbitrary: b)
  case Nil
  then show ?case by (cases b) auto
next
  case (Cons c a)
  then show ?case by (cases b) auto
qed

lemma show_nat_eq [simp]: "show_nat m = show_nat n \<longleftrightarrow> m = n"
  using inj_show_nat by (auto dest: injD)



text \<open>
  A write that fails halfway leaves a file that later hides the loss: the key is reported as
  present, storing it again reports success without writing, and reading it raises.
\<close>

theorem truncated_page_is_kept:
  assumes "\<not> file_exists b key" and "io (bin_name b key) = WriteFail (Some n)" and "n < length v"
  shows "fst (file_set io key v b) = False \<and>
    (let b1 = snd (file_set io key v b) in
       file_exists b1 key \<and> file_set io' key v b1 = (True, b1) \<and> file_get (length v) key b1 = Inl OSError)"
  using assms by (simp add: file_set_def Let_def file_exists_def dict_has_iff file_get_def)

theorem truncated_page_is_kept_witness:
  "let b1 = snd (file_set (\<lambda>_. WriteFail (Some 1)) ''k'' [1, 2] sample_files) in
     file_exists b1 ''k'' \<and> file_set (\<lambda>_. WriteOk) ''k'' [1, 2] b1 = (True, b1) \<and> file_get 2 ''k'' b1 = Inl OSError"
proof -
  have "\<not> file_exists sample_files ''k''" by (simp add: sample_files_def file_exists_def dict_has_def)
  from truncated_page_is_kept [OF this, of "\<lambda>_. WriteFail (Some 1)" 1 "[1, 2]" "\<lambda>_. WriteOk"]
  show ?thesis by (simp add: Let_def numeral_2_eq_2)
qed

end
