(* ===== verification/Cache_Controller.thy ===== *)
theory Cache_Controller
  imports Block_Hash HiCache_Storage
begin

text \<open>
  The storage side of \<^verbatim>\<open>HiCacheController\<close> in \<^verbatim>\<open>sglang/srt/managers/cache_controller.py\<close>:
  backing up host pages to a storage backend, asking the backend which pages of a key it has, and
  prefetching them into host memory. The methods of the storage backend and of the host pool that
  the controller calls are arguments of the definitions. Each of the two background threads is
  given by what it does with one operation; that the scheduler may terminate a prefetch while it
  runs is the argument \<open>flag\<close>, which tells for every count of completed tokens whether the
  operation has been terminated by then. Draft pools are not represented.
\<close>

section \<open>Operations\<close>

record storage_op =
  so_id :: nat
  so_host_indices :: "int list"
  so_key :: radix_key
  so_last_hash :: "string option"
  so_completed :: nat
  so_hash_value :: "string list"
  so_prefix_keys :: "string list option"

record prefetch_op = storage_op +
  po_request_id :: string
  po_terminated :: bool

definition new_storage_op ::
  "nat \<Rightarrow> int list \<Rightarrow> radix_key \<Rightarrow> string list option \<Rightarrow> string list option \<Rightarrow> storage_op" where
  "new_storage_op i host key hash_value prefix_keys =
     \<lparr>so_id = i, so_host_indices = host, so_key = key, so_last_hash = None, so_completed = 0,
      so_hash_value = (case hash_value of None \<Rightarrow> [] | Some hs \<Rightarrow> hs), so_prefix_keys = prefix_keys\<rparr>"

definition new_prefetch_op ::
  "nat \<Rightarrow> string \<Rightarrow> int list \<Rightarrow> radix_key \<Rightarrow> string option \<Rightarrow> string list option \<Rightarrow> prefetch_op" where
  "new_prefetch_op i request_id host key prior_hash prefix_keys =
     \<lparr>so_id = i, so_host_indices = host, so_key = key, so_last_hash = prior_hash, so_completed = 0,
      so_hash_value = [], so_prefix_keys = prefix_keys, po_request_id = request_id, po_terminated = False\<rparr>"

definition mark_terminate :: "prefetch_op \<Rightarrow> prefetch_op" where
  "mark_terminate op = op\<lparr>po_terminated := True\<rparr>"

definition increment :: "nat \<Rightarrow> prefetch_op \<Rightarrow> bool \<times> prefetch_op" where
  "increment num_tokens op = (if po_terminated op then (False, op) else (True, op\<lparr>so_completed := so_completed op + num_tokens\<rparr>))"

text \<open>\<^verbatim>\<open>if prefix_keys and len(prefix_keys) > 0: prefix_keys += batch_hashes\<close>\<close>

definition add_prefix :: "string list \<Rightarrow> string list option \<Rightarrow> string list option" where
  "add_prefix batch_hashes prefix_keys = (case prefix_keys of
      None \<Rightarrow> None
    | Some ks \<Rightarrow> if ks \<noteq> [] then Some (ks @ batch_hashes) else prefix_keys)"

section \<open>Reading pages from storage\<close>

fun page_get_loop ::
  "(int \<Rightarrow> 'v \<Rightarrow> 'h \<Rightarrow> 'h res) \<Rightarrow> nat \<Rightarrow> (nat \<Rightarrow> bool) \<Rightarrow> string list \<Rightarrow> 'v option list \<Rightarrow> int list
     \<Rightarrow> prefetch_op \<Rightarrow> 'h \<Rightarrow> unit res \<times> prefetch_op \<times> 'h" where
  "page_get_loop set_page ps flag [] data host op h = (Inr (), op, h)"
| "page_get_loop set_page ps flag (k # ks) data host op h =
     (case data of
        [] \<Rightarrow> (Inl IndexError, op, h)
      | None # _ \<Rightarrow> (Inr (), op, h)
      | Some page # data' \<Rightarrow>
          if host = [] then (Inl IndexError, op, h)
          else (case set_page (hd host) page h of
              Inl e \<Rightarrow> (Inl e, op, h)
            | Inr h1 \<Rightarrow>
                let (ok, op1) = increment ps (if flag (so_completed op) then mark_terminate op else op)
                in if ok then page_get_loop set_page ps flag ks data' (drop ps host) op1 h1 else (Inr (), op1, h1)))"

definition generic_page_get ::
  "(string list \<Rightarrow> 'd \<Rightarrow> 'v option list option \<times> 'd) \<Rightarrow> (int \<Rightarrow> 'v \<Rightarrow> 'h \<Rightarrow> 'h res) \<Rightarrow> nat \<Rightarrow> (nat \<Rightarrow> bool)
     \<Rightarrow> string list \<Rightarrow> int list \<Rightarrow> prefetch_op \<Rightarrow> 'd \<Rightarrow> 'h \<Rightarrow> unit res \<times> prefetch_op \<times> 'd \<times> 'h" where
  "generic_page_get batch_get set_page ps flag hash_values host op d h =
     (case batch_get hash_values d of
        (None, d1) \<Rightarrow> (Inr (), op, d1, h)
      | (Some page_data, d1) \<Rightarrow>
          let (r, op1, h1) = page_get_loop set_page ps flag hash_values page_data host op h in (r, op1, d1, h1))"

text \<open>The loop over the batches, with the host indices that are left.\<close>

fun page_transfer_loop ::
  "(string list \<Rightarrow> 'd \<Rightarrow> 'v option list option \<times> 'd) \<Rightarrow> (int \<Rightarrow> 'v \<Rightarrow> 'h \<Rightarrow> 'h res) \<Rightarrow> nat \<Rightarrow> (nat \<Rightarrow> bool)
     \<Rightarrow> string list list \<Rightarrow> int list \<Rightarrow> prefetch_op \<Rightarrow> 'd \<Rightarrow> 'h \<Rightarrow> unit res \<times> prefetch_op \<times> 'd \<times> 'h" where
  "page_transfer_loop batch_get set_page ps flag [] host op d h = (Inr (), op, d, h)"
| "page_transfer_loop batch_get set_page ps flag (batch # batches) host op d h =
     (case generic_page_get batch_get set_page ps flag batch (take (length batch * ps) host) op d h of
        (Inl e, op1, d1, h1) \<Rightarrow> (Inl e, op1, d1, h1)
      | (Inr _, op1, d1, h1) \<Rightarrow>
          if so_completed op1 \<noteq> so_completed op + length batch * ps then (Inr (), mark_terminate op1, d1, h1)
          else page_transfer_loop batch_get set_page ps flag batches (drop (length batch * ps) host)
                 (op1\<lparr>so_prefix_keys := add_prefix batch (so_prefix_keys op1)\<rparr>) d1 h1)"

definition page_transfer ::
  "(string list \<Rightarrow> 'd \<Rightarrow> 'v option list option \<times> 'd) \<Rightarrow> (int \<Rightarrow> 'v \<Rightarrow> 'h \<Rightarrow> 'h res) \<Rightarrow> nat \<Rightarrow> nat \<Rightarrow> (nat \<Rightarrow> bool)
     \<Rightarrow> prefetch_op \<Rightarrow> 'd \<Rightarrow> 'h \<Rightarrow> unit res \<times> prefetch_op \<times> 'd \<times> 'h" where
  "page_transfer batch_get set_page ps batch_size flag op d h =
     page_transfer_loop batch_get set_page ps flag (chunks batch_size (so_hash_value op)) (so_host_indices op) op d h"

section \<open>Writing pages to storage\<close>

fun data_pages :: "(int \<Rightarrow> 'h \<Rightarrow> 'v res) \<Rightarrow> nat \<Rightarrow> string list \<Rightarrow> int list \<Rightarrow> 'h \<Rightarrow> 'v list res" where
  "data_pages get_page ps [] host h = Inr []"
| "data_pages get_page ps (k # ks) host h =
     (if host = [] then Inl IndexError
      else bindE (get_page (hd host) h) (\<lambda>page. bindE (data_pages get_page ps ks (drop ps host) h) (\<lambda>pages. Inr (page # pages))))"

definition generic_page_set ::
  "(int \<Rightarrow> 'h \<Rightarrow> 'v res) \<Rightarrow> (string list \<Rightarrow> 'v list \<Rightarrow> 'd \<Rightarrow> bool res \<times> 'd) \<Rightarrow> nat \<Rightarrow> string list \<Rightarrow> int list \<Rightarrow> 'h \<Rightarrow> 'd
     \<Rightarrow> bool res \<times> 'd" where
  "generic_page_set get_page batch_set ps hash_values host h d =
     (case data_pages get_page ps hash_values host h of Inl e \<Rightarrow> (Inl e, d) | Inr data \<Rightarrow> batch_set hash_values data d)"

fun page_backup_loop ::
  "(int \<Rightarrow> 'h \<Rightarrow> 'v res) \<Rightarrow> (string list \<Rightarrow> 'v list \<Rightarrow> 'd \<Rightarrow> bool res \<times> 'd) \<Rightarrow> nat \<Rightarrow> string list list \<Rightarrow> int list \<Rightarrow> 'h
     \<Rightarrow> storage_op \<Rightarrow> 'd \<Rightarrow> unit res \<times> storage_op \<times> 'd" where
  "page_backup_loop get_page batch_set ps [] host h op d = (Inr (), op, d)"
| "page_backup_loop get_page batch_set ps (batch # batches) host h op d =
     (case generic_page_set get_page batch_set ps batch (take (length batch * ps) host) h d of
        (Inl e, d1) \<Rightarrow> (Inl e, op, d1)
      | (Inr success, d1) \<Rightarrow>
          if \<not> success then (Inr (), op, d1)
          else page_backup_loop get_page batch_set ps batches (drop (length batch * ps) host) h
                 (op\<lparr>so_prefix_keys := add_prefix batch (so_prefix_keys op), so_completed := so_completed op + ps * length batch\<rparr>) d1)"

definition page_backup ::
  "(int \<Rightarrow> 'h \<Rightarrow> 'v res) \<Rightarrow> (string list \<Rightarrow> 'v list \<Rightarrow> 'd \<Rightarrow> bool res \<times> 'd) \<Rightarrow> nat \<Rightarrow> nat \<Rightarrow> 'h \<Rightarrow> storage_op \<Rightarrow> 'd
     \<Rightarrow> unit res \<times> storage_op \<times> 'd" where
  "page_backup get_page batch_set ps batch_size h op d =
     page_backup_loop get_page batch_set ps (chunks batch_size (so_hash_value op)) (so_host_indices op) h op d"

section \<open>Asking for the stored prefix\<close>

text \<open>
  The batches of a key, each a list of pages: slicing a key slices the sequence of its units, and
  hashing a slice reads its units.
\<close>

definition key_batches :: "nat \<Rightarrow> nat \<Rightarrow> radix_key \<Rightarrow> key_unit list list list" where
  "key_batches ps batch_size key = map (chunks ps) (chunks (ps * batch_size) (rk_units key))"

fun hit_query_loop ::
  "(string list option \<Rightarrow> string list \<Rightarrow> nat) \<Rightarrow> sha256 \<Rightarrow> nat \<Rightarrow> key_unit list list list \<Rightarrow> string option \<Rightarrow> string list option
     \<Rightarrow> (string list \<times> nat) res" where
  "hit_query_loop batch_exists_fn sha ps [] prior prefix_keys = Inr ([], 0)"
| "hit_query_loop batch_exists_fn sha ps (batch # batches) prior prefix_keys =
     bindE (chain_hashes sha batch prior) (\<lambda>batch_hashes.
       let hit_page_num = batch_exists_fn prefix_keys batch_hashes
       in if hit_page_num < length batch_hashes then Inr (take hit_page_num batch_hashes, hit_page_num * ps)
          else bindE (hit_query_loop batch_exists_fn sha ps batches (last_hash batch_hashes prior) (add_prefix batch_hashes prefix_keys))
            (\<lambda>(hash_value, hits). Inr (take hit_page_num batch_hashes @ hash_value, hit_page_num * ps + hits)))"

definition storage_hit_query ::
  "(string list option \<Rightarrow> string list \<Rightarrow> nat) \<Rightarrow> sha256 \<Rightarrow> nat \<Rightarrow> nat \<Rightarrow> prefetch_op \<Rightarrow> (string list \<times> nat) res" where
  "storage_hit_query batch_exists_fn sha ps batch_size op =
     hit_query_loop batch_exists_fn sha ps (key_batches ps batch_size (so_key op)) (so_last_hash op)
       (case so_prefix_keys op of Some [] \<Rightarrow> None | pk \<Rightarrow> pk)"

section \<open>The controller and its threads\<close>

record controller =
  cc_page_size :: nat
  cc_batch_size :: nat
  cc_threshold :: nat
  cc_capacity_limit :: int
  cc_occupied :: int
  cc_backup_skip :: bool
  cc_next_id :: nat
  cc_prefetch_queue :: "prefetch_op list"
  cc_prefetch_buffer :: "prefetch_op list"
  cc_backup_queue :: "storage_op list"
  cc_revoke_queue :: "string list"
  cc_ack_backup :: "storage_op list"
  cc_release_queue :: "int list list"

definition append_host_mem_release :: "int list \<Rightarrow> controller \<Rightarrow> controller" where
  "append_host_mem_release host c =
     (if host = [] then c else c\<lparr>cc_release_queue := cc_release_queue c @ chunks (cc_page_size c) host\<rparr>)"

definition prefetch_rate_limited :: "controller \<Rightarrow> bool" where
  "prefetch_rate_limited c \<longleftrightarrow> cc_capacity_limit c \<le> cc_occupied c"

definition cc_prefetch ::
  "string \<Rightarrow> int list \<Rightarrow> radix_key \<Rightarrow> string option \<Rightarrow> string list option \<Rightarrow> controller \<Rightarrow> prefetch_op \<times> controller" where
  "cc_prefetch request_id host key prior_hash prefix_keys c =
     (let op = new_prefetch_op (cc_next_id c) request_id host key prior_hash prefix_keys
      in (op, c\<lparr>cc_next_id := Suc (cc_next_id c), cc_prefetch_queue := cc_prefetch_queue c @ [op]\<rparr>))"

definition terminate_prefetch :: "prefetch_op \<Rightarrow> (nat \<times> string list) \<times> prefetch_op" where
  "terminate_prefetch op = ((so_completed op, so_hash_value op), mark_terminate op)"

definition write_storage ::
  "int list \<Rightarrow> radix_key \<Rightarrow> string list option \<Rightarrow> string list option \<Rightarrow> controller \<Rightarrow> nat \<times> controller" where
  "write_storage host key hash_value prefix_keys c =
     (let op = new_storage_op (cc_next_id c) host key hash_value prefix_keys
      in (so_id op, c\<lparr>cc_next_id := Suc (cc_next_id c), cc_backup_queue := cc_backup_queue c @ [op]\<rparr>))"

text \<open>
  What the prefetch thread does with the first operation of its queue. The all-reduce takes the
  minimum of the hit counts of all ranks; \<open>others\<close> are the counts of the other ranks.
\<close>

definition prefetch_thread_step ::
  "(string list option \<Rightarrow> string list \<Rightarrow> nat) \<Rightarrow> sha256 \<Rightarrow> nat list \<Rightarrow> controller \<Rightarrow> unit res \<times> controller" where
  "prefetch_thread_step batch_exists_fn sha others c =
     (case cc_prefetch_queue c of
        [] \<Rightarrow> (Inr (), c)
      | op # queue \<Rightarrow>
          let c1 = c\<lparr>cc_prefetch_queue := queue\<rparr>
          in (case storage_hit_query batch_exists_fn sha (cc_page_size c) (cc_batch_size c) op of
               Inl e \<Rightarrow> (Inl e, c1)
             | Inr (hash_value, hits) \<Rightarrow>
                 let storage_hit_count = fold min others hits
                 in if storage_hit_count < cc_threshold c
                    then (Inr (), append_host_mem_release (so_host_indices op)
                           (c1\<lparr>cc_revoke_queue := cc_revoke_queue c1 @ [po_request_id op]\<rparr>))
                    else let op1 = op\<lparr>so_hash_value := take (storage_hit_count div cc_page_size c) hash_value,
                               so_host_indices := take storage_hit_count (so_host_indices op)\<rparr>;
                             c2 = append_host_mem_release (drop storage_hit_count (so_host_indices op)) c1
                         in (Inr (), c2\<lparr>cc_prefetch_buffer := cc_prefetch_buffer c2 @ [op1]\<rparr>)))"

text \<open>What the transfer thread does with the first operation of its buffer; it returns the operation.\<close>

definition prefetch_io_step ::
  "(string list \<Rightarrow> 'd \<Rightarrow> 'v option list option \<times> 'd) \<Rightarrow> (int \<Rightarrow> 'v \<Rightarrow> 'h \<Rightarrow> 'h res) \<Rightarrow> (nat \<Rightarrow> bool)
     \<Rightarrow> controller \<Rightarrow> 'd \<Rightarrow> 'h \<Rightarrow> prefetch_op option res \<times> controller \<times> 'd \<times> 'h" where
  "prefetch_io_step batch_get set_page flag c d h =
     (case cc_prefetch_buffer c of
        [] \<Rightarrow> (Inr None, c, d, h)
      | op # buf \<Rightarrow>
          let c1 = c\<lparr>cc_prefetch_buffer := buf\<rparr>
          in (case page_transfer batch_get set_page (cc_page_size c) (cc_batch_size c) flag op d h of
               (Inl e, op1, d1, h1) \<Rightarrow> (Inl e, c1, d1, h1)
             | (Inr _, op1, d1, h1) \<Rightarrow>
                 (Inr (Some op1), append_host_mem_release (drop (so_completed op1) (so_host_indices op1)) c1, d1, h1)))"

definition backup_thread_step ::
  "(int \<Rightarrow> 'h \<Rightarrow> 'v res) \<Rightarrow> (string list \<Rightarrow> 'v list \<Rightarrow> 'd \<Rightarrow> bool res \<times> 'd) \<Rightarrow> 'h \<Rightarrow> controller \<Rightarrow> 'd
     \<Rightarrow> unit res \<times> controller \<times> 'd" where
  "backup_thread_step get_page batch_set h c d =
     (case cc_backup_queue c of
        [] \<Rightarrow> (Inr (), c, d)
      | op # queue \<Rightarrow>
          let c1 = c\<lparr>cc_backup_queue := queue\<rparr>
          in (case (if cc_backup_skip c then (Inr (), op, d)
                   else page_backup get_page batch_set (cc_page_size c) (cc_batch_size c) h op d) of
               (Inl e, op1, d1) \<Rightarrow> (Inl e, c1, d1)
             | (Inr _, op1, d1) \<Rightarrow> (Inr (), c1\<lparr>cc_ack_backup := cc_ack_backup c1 @ [op1]\<rparr>, d1)))"

section \<open>Batches and starts of pages\<close>

lemma chunks_Nil [simp]: "chunks n [] = []"
  by (simp add: chunks.simps)

lemma chunks_step: "0 < n \<Longrightarrow> xs \<noteq> [] \<Longrightarrow> chunks n xs = take n xs # chunks n (drop n xs)"
  by (simp add: chunks.simps)

lemma concat_chunks: "0 < n \<Longrightarrow> concat (chunks n xs) = xs"
proof (induction n xs rule: chunks.induct)
  case (1 n xs)
  then show ?case by (cases "xs = []") (simp_all add: chunks_step)
qed

lemma chunks_nonempty: "0 < n \<Longrightarrow> [] \<notin> set (chunks n xs)"
proof (induction n xs rule: chunks.induct)
  case (1 n xs)
  then show ?case by (cases "xs = []") (auto simp: chunks_step)
qed

lemma key_batches_pages:
  assumes "0 < ps" and "0 < b"
  shows "concat (map (chunks ps) (chunks (ps * b) us)) = chunks ps us"
  using assms
proof (induction "ps * b" us rule: chunks.induct)
  case (1 us)
  show ?case
  proof (cases "length us \<le> ps * b")
    case True
    then show ?thesis using 1(2,3) by (cases "us = []") (simp_all add: chunks_step)
  next
    case False
    then have "us \<noteq> []" by auto
    then have "concat (map (chunks ps) (chunks (ps * b) us)) = chunks ps (take (ps * b) us) @ chunks ps (drop (ps * b) us)"
      using 1 by (simp add: chunks_step)
    also have "\<dots> = chunks ps (take (ps * b) us @ drop (ps * b) us)"
      using False 1(2) by (intro chunks_append [symmetric]) (auto simp: min_def)
    finally show ?thesis by simp
  qed
qed

text \<open>The host index at which each page starts.\<close>

definition starts :: "nat \<Rightarrow> int list \<Rightarrow> int list" where
  "starts ps host = map hd (chunks ps host)"

lemma starts_Nil [simp]: "starts ps [] = []"
  by (simp add: starts_def)

lemma starts_step: "0 < ps \<Longrightarrow> host \<noteq> [] \<Longrightarrow> starts ps host = hd host # starts ps (drop ps host)"
  by (simp add: starts_def chunks_step)

lemma starts_take: "0 < ps \<Longrightarrow> starts ps (take (n * ps) host) = take n (starts ps host)"
proof (induction n arbitrary: host)
  case (Suc n)
  show ?case
  proof (cases "host = []")
    case False
    then have "take (Suc n * ps) host \<noteq> []" using Suc(2) by simp
    moreover have "drop ps (take (Suc n * ps) host) = take (n * ps) (drop ps host)" by (simp add: drop_take)
    moreover have "hd (take (Suc n * ps) host) = hd host" using Suc(2) False by (simp add: hd_take)
    ultimately show ?thesis using Suc False by (simp add: starts_step)
  qed simp
qed simp

lemma starts_drop: "0 < ps \<Longrightarrow> starts ps (drop (n * ps) host) = drop n (starts ps host)"
proof (induction n arbitrary: host)
  case (Suc n)
  have d: "drop (Suc n * ps) host = drop (n * ps) (drop ps host)" by (simp add: add.commute)
  have "starts ps (drop (n * ps) (drop ps host)) = drop n (starts ps (drop ps host))" by (rule Suc.IH [OF Suc.prems])
  then show ?case unfolding d using Suc.prems by (cases "host = []") (simp_all only: starts_step drop_Suc_Cons drop_Nil starts_Nil not_False_eq_True)
qed simp

lemma length_starts: "0 < ps \<Longrightarrow> ps dvd length host \<Longrightarrow> length (starts ps host) = length host div ps"
  by (simp add: starts_def length_chunks)

lemma batch_exists_takeWhile: "batch_exists f ks = length (takeWhile f ks)"
proof -
  let ?n = "batch_exists f ks"
  have n: "?n \<le> length ks" by (simp add: batch_exists_def first_missing_le)
  have before: "f (ks ! j)" if "j < ?n" for j using that unfolding batch_exists_def by (rule first_missing_present)
  have "?n < length ks \<Longrightarrow> \<not> f (ks ! ?n)" unfolding batch_exists_def by (rule first_missing_stop)
  then have "takeWhile f ks = take ?n ks"
    using n before by (intro takeWhile_eq_take_P_nth) auto
  then show ?thesis using n by simp
qed

lemma min_of_ranks_le: "fold min ns (n :: nat) \<le> n"
proof (induction ns arbitrary: n)
  case (Cons a ns)
  then have "fold min ns (min a n) \<le> min a n" .
  then show ?case by simp
qed simp

section \<open>What the controller relies on\<close>

text \<open>
  The storage backend: \<open>fetch\<close> is the page a key has, \<open>has\<close> whether the backend reports it. Reading
  keeps all pages. A successful batch of writes stores its pages, and pages it leaves alone keep
  their contents; if there is room it removes none.
\<close>

locale page_backend =
  fixes bexists :: "string list option \<Rightarrow> string list \<Rightarrow> 'd \<Rightarrow> nat"
    and bget :: "string list \<Rightarrow> 'd \<Rightarrow> 'v option list option \<times> 'd"
    and bset :: "string list \<Rightarrow> 'v list \<Rightarrow> 'd \<Rightarrow> bool res \<times> 'd"
    and fetch :: "'d \<Rightarrow> string \<Rightarrow> 'v option"
    and has :: "'d \<Rightarrow> string \<Rightarrow> bool"
    and room :: "'d \<Rightarrow> (string \<times> 'v) list \<Rightarrow> bool"
    and invar :: "'d \<Rightarrow> bool"
  assumes exists_prefix: "invar d \<Longrightarrow> bexists pk ks d = batch_exists (has d) ks"
    and has_fetch: "invar d \<Longrightarrow> has d k \<Longrightarrow> fetch d k \<noteq> None"
    and get_fetch: "invar d \<Longrightarrow> \<exists>d'. bget ks d = (Some (map (fetch d) ks), d') \<and> invar d' \<and> fetch d' = fetch d"
    and set_invar: "invar d \<Longrightarrow> bset ks vs d = (Inr True, d') \<Longrightarrow> invar d'"
    and set_fetch: "invar d \<Longrightarrow> bset ks vs d = (Inr True, d') \<Longrightarrow> has d' k \<Longrightarrow>
      (\<exists>v. (k, v) \<in> set (zip ks vs) \<and> fetch d' k = Some v) \<or> has d k \<and> fetch d' k = fetch d k"
    and set_keeps: "invar d \<Longrightarrow> bset ks vs d = (Inr True, d') \<Longrightarrow> room d (zip ks vs) \<Longrightarrow> length ks = length vs \<Longrightarrow>
      has d k \<or> k \<in> set ks \<Longrightarrow> has d' k"
    and set_room: "invar d \<Longrightarrow> bset ks vs d = (Inr True, d') \<Longrightarrow> room d (zip ks vs @ rest) \<Longrightarrow> room d' rest"
    and room_part: "room d (xs @ ys) \<Longrightarrow> room d xs"

text \<open>The host pool: writing a page at a page start can be read back and leaves the other pages alone.\<close>

locale host_pages =
  fixes getp :: "int \<Rightarrow> 'h \<Rightarrow> 'v res"
    and setp :: "int \<Rightarrow> 'v \<Rightarrow> 'h \<Rightarrow> 'h res"
    and slot :: "'h \<Rightarrow> int \<Rightarrow> bool"
    and fits :: "'h \<Rightarrow> 'v \<Rightarrow> bool"
  assumes set_get: "slot h i \<Longrightarrow> fits h v \<Longrightarrow> \<exists>h'. setp i v h = Inr h' \<and> getp i h' = Inr v \<and>
      slot h' = slot h \<and> fits h' = fits h \<and> (\<forall>j. slot h j \<longrightarrow> j \<noteq> i \<longrightarrow> getp j h' = getp j h)"

locale tiers = page_backend bexists bget bset fetch has room invar + host_pages getp setp slot fits
  for bexists :: "string list option \<Rightarrow> string list \<Rightarrow> 'd \<Rightarrow> nat"
    and bget :: "string list \<Rightarrow> 'd \<Rightarrow> 'v option list option \<times> 'd"
    and bset :: "string list \<Rightarrow> 'v list \<Rightarrow> 'd \<Rightarrow> bool res \<times> 'd"
    and fetch has room invar
    and getp :: "int \<Rightarrow> 'h \<Rightarrow> 'v res" and setp slot fits

section \<open>The stored prefix of a key\<close>

context page_backend
begin

lemma hit_query_batches:
  assumes "invar d"
  shows "chain_hashes sha (concat batches) prior = Inr hs \<Longrightarrow>
    hit_query_loop (\<lambda>pk ks. bexists pk ks d) sha ps batches prior pk =
      Inr (takeWhile (has d) hs, length (takeWhile (has d) hs) * ps)"
proof (induction batches arbitrary: prior hs pk)
  case (Cons b bs)
  then obtain hs1 hs2 where hs: "hs = hs1 @ hs2" "chain_hashes sha b prior = Inr hs1"
    "chain_hashes sha (concat bs) (last_hash hs1 prior) = Inr hs2" by (auto simp: chain_hashes_append)
  have n: "bexists pk hs1 d = length (takeWhile (has d) hs1)"
    by (simp add: exists_prefix [OF assms] batch_exists_takeWhile)
  have tk: "take (length (takeWhile (has d) hs1)) hs1 = takeWhile (has d) hs1" by (metis takeWhile_eq_take)
  show ?case
  proof (cases "\<forall>k \<in> set hs1. has d k")
    case True
    then have tw: "takeWhile (has d) hs = hs1 @ takeWhile (has d) hs2" "takeWhile (has d) hs1 = hs1" by (simp_all add: hs(1))
    show ?thesis using hs(2) Cons.IH [OF hs(3)] by (simp add: n tw add_mult_distrib)
  next
    case False
    then have less: "length (takeWhile (has d) hs1) < length hs1"
      by (metis length_takeWhile_le le_neq_implies_less takeWhile_eq_all_conv takeWhile_eq_take take_all)
    have "takeWhile (has d) hs = takeWhile (has d) hs1" using False by (auto simp: hs(1) takeWhile_append1)
    then show ?thesis using hs(2) less tk by (simp add: n)
  qed
qed simp

text \<open>The query finds the longest stored prefix of the hashes of the key.\<close>

lemma storage_hit_query_longest:
  assumes "invar d" and "0 < ps" and "0 < b"
    and "chain_hashes sha (chunks ps (rk_units (so_key op))) (so_last_hash op) = Inr hs"
  shows "storage_hit_query (\<lambda>pk ks. bexists pk ks d) sha ps b op =
    Inr (takeWhile (has d) hs, length (takeWhile (has d) hs) * ps)"
  unfolding storage_hit_query_def key_batches_def
  by (rule hit_query_batches [OF assms(1)]) (simp add: key_batches_pages [OF assms(2,3)] assms(4))

end

section \<open>Transfers\<close>

context tiers
begin

definition stored :: "'d \<Rightarrow> string list \<Rightarrow> string list" where
  "stored d ks = takeWhile (\<lambda>k. fetch d k \<noteq> None) ks"

lemma stored_simps [simp]:
  "stored d [] = []" "stored d (k # ks) = (if fetch d k = None then [] else k # stored d ks)"
  by (simp_all add: stored_def)

lemma stored_le: "length (stored d ks) \<le> length ks"
  by (simp add: stored_def length_takeWhile_le)

lemma stored_full: "length ks \<le> length (stored d ks) \<Longrightarrow> stored d ks = ks"
  by (metis stored_def takeWhile_eq_take take_all)

lemma stored_append: "stored d (xs @ ys) = (if stored d xs = xs then xs @ stored d ys else stored d xs)"
  by (induction xs) auto

lemma stored_cong: "fetch d1 = fetch d \<Longrightarrow> stored d1 = stored d"
  by (simp add: stored_def fun_eq_iff)

text \<open>
  What has been loaded into the pages \<open>st\<close>: the first \<open>m\<close> hold the stored pages of their keys, and
  pages outside \<open>st\<close> are as before.
\<close>

definition loaded :: "'d \<Rightarrow> string list \<Rightarrow> int list \<Rightarrow> nat \<Rightarrow> 'h \<Rightarrow> 'h \<Rightarrow> bool" where
  "loaded d ks st m h h' \<longleftrightarrow> slot h' = slot h \<and> fits h' = fits h \<and>
     (\<forall>i < m. getp (st ! i) h' = Inr (the (fetch d (ks ! i)))) \<and>
     (\<forall>j. slot h j \<longrightarrow> j \<notin> set st \<longrightarrow> getp j h' = getp j h)"

definition ready :: "'d \<Rightarrow> string list \<Rightarrow> int list \<Rightarrow> 'h \<Rightarrow> bool" where
  "ready d ks st h \<longleftrightarrow> distinct st \<and> length ks \<le> length st \<and> (\<forall>i \<in> set st. slot h i) \<and>
     (\<forall>k \<in> set ks. \<forall>v. fetch d k = Some v \<longrightarrow> fits h v)"

lemma page_get_loop_loads:
  assumes "0 < ps" and "ready d ks (starts ps host) h" and "\<not> po_terminated op"
  shows "\<exists>m b h'. page_get_loop setp ps flag ks (map (fetch d) ks) host op h =
      (Inr (), op\<lparr>so_completed := so_completed op + m * ps, po_terminated := b\<rparr>, h') \<and>
    m \<le> length (stored d ks) \<and> (m = length ks \<longrightarrow> \<not> b) \<and> ((\<forall>n. \<not> flag n) \<longrightarrow> m = length (stored d ks)) \<and>
    loaded d ks (starts ps host) m h h'"
  using assms
proof (induction ks arbitrary: host op h)
  case Nil
  then show ?case by (intro exI [of _ 0] exI [of _ False] exI [of _ h]) (simp add: loaded_def)
next
  case (Cons k ks)
  have host: "host \<noteq> []" using Cons.prems(2) by (auto simp: ready_def)
  have st: "starts ps host = hd host # starts ps (drop ps host)" using Cons.prems(1) host by (rule starts_step)
  show ?case
  proof (cases "fetch d k")
    case None
    then show ?thesis
      by (intro exI [of _ 0] exI [of _ False] exI [of _ h]) (use Cons.prems(3) in \<open>simp add: loaded_def\<close>)
  next
    case (Some v)
    have "slot h (hd host)" "fits h v" using Cons.prems(2) Some st by (auto simp: ready_def)
    from set_get [OF this] obtain h1 where h1: "setp (hd host) v h = Inr h1" "getp (hd host) h1 = Inr v"
      "slot h1 = slot h" "fits h1 = fits h" "\<forall>j. slot h j \<longrightarrow> j \<noteq> hd host \<longrightarrow> getp j h1 = getp j h" by blast
    show ?thesis
    proof (cases "flag (so_completed op)")
      case True
      then show ?thesis
        using Some h1 host by (intro exI [of _ 0] exI [of _ True] exI [of _ h1])
          (auto simp: increment_def mark_terminate_def loaded_def st)
    next
      case False
      let ?op = "op\<lparr>so_completed := so_completed op + ps\<rparr>"
      have "ready d ks (starts ps (drop ps host)) h1" using Cons.prems(2) h1(3,4) by (simp add: ready_def st)
      from Cons.IH [OF Cons.prems(1) this, of ?op] Cons.prems(3) obtain m b h' where
        IH: "page_get_loop setp ps flag ks (map (fetch d) ks) (drop ps host) ?op h1 =
          (Inr (), ?op\<lparr>so_completed := so_completed ?op + m * ps, po_terminated := b\<rparr>, h')"
        "m \<le> length (stored d ks)" "m = length ks \<longrightarrow> \<not> b" "(\<forall>n. \<not> flag n) \<longrightarrow> m = length (stored d ks)"
        "loaded d ks (starts ps (drop ps host)) m h1 h'" by auto
      have run: "page_get_loop setp ps flag (k # ks) (map (fetch d) (k # ks)) host op h =
          (Inr (), op\<lparr>so_completed := so_completed op + Suc m * ps, po_terminated := b\<rparr>, h')"
        using IH(1) Some h1(1) host False Cons.prems(3) by (simp add: increment_def add.assoc)
      have new: "hd host \<notin> set (starts ps (drop ps host))" and sl: "slot h (hd host)"
        using Cons.prems(2) by (auto simp: ready_def st)
      have "loaded d (k # ks) (starts ps host) (Suc m) h h'"
        using IH(5) h1 new sl Some by (auto simp: loaded_def st less_Suc_eq_0_disj)
      then show ?thesis
        using run IH(2-4) Some by (intro exI [of _ "Suc m"] exI [of _ b] exI [of _ h']) simp
    qed
  qed
qed

lemma loaded_append:
  assumes "loaded d ks (take n st) n h h1" and "loaded d ks' (drop n st) m h1 h2" and "n = length ks" and "n \<le> length st"
    and "distinct st" and "\<forall>i \<in> set st. slot h i"
  shows "loaded d (ks @ ks') st (n + m) h h2"
proof -
  have s: "slot h1 = slot h" "fits h1 = fits h" using assms(1) by (auto simp: loaded_def)
  have split: "set st = set (take n st) \<union> set (drop n st)" "set (take n st) \<inter> set (drop n st) = {}"
    using assms(5) by (metis append_take_drop_id set_append, metis append_take_drop_id distinct_append)
  have "getp (st ! i) h2 = Inr (the (fetch d ((ks @ ks') ! i)))" if i: "i < n + m" for i
  proof (cases "i < n")
    case True
    have at: "take n st ! i = st ! i" using True by simp
    have "st ! i \<in> set (take n st)" using True assms(4) by (metis at length_take min.absorb2 nth_mem)
    then have "st ! i \<notin> set (drop n st)" "slot h1 (st ! i)" using split assms(6) s by auto
    then have "getp (st ! i) h2 = getp (st ! i) h1" using assms(2) by (simp add: loaded_def)
    also have "\<dots> = Inr (the (fetch d (ks ! i)))" using assms(1) True at by (metis loaded_def)
    finally show ?thesis using True assms(3) by (simp add: nth_append)
  next
    case False
    then have "drop n st ! (i - n) = st ! i" "i - n < m" using i assms(4) by auto
    then have "getp (st ! i) h2 = Inr (the (fetch d (ks' ! (i - n))))" using assms(2) by (metis loaded_def)
    then show ?thesis using False assms(3) by (simp add: nth_append)
  qed
  moreover have "getp j h2 = getp j h" if "slot h j" "j \<notin> set st" for j
    using that assms(1,2) split(1) s by (auto simp: loaded_def)
  ultimately show ?thesis using assms(1,2) by (simp add: loaded_def)
qed

lemma loaded_more: "loaded d ks (take n st) m h h1 \<Longrightarrow> m \<le> length ks \<Longrightarrow> length ks \<le> n \<Longrightarrow> loaded d (ks @ ks') st m h h1"
  using in_set_takeD [of _ n st] by (auto simp: loaded_def nth_append)

lemma page_transfer_loop_loads:
  assumes "0 < ps" and "invar d" and "ready d (concat bs) (starts ps host) h" and "\<not> po_terminated op"
  shows "\<exists>m op' d' h'. page_transfer_loop bget setp ps flag bs host op d h = (Inr (), op', d', h') \<and>
    so_completed op' = so_completed op + m * ps \<and> so_host_indices op' = so_host_indices op \<and> po_request_id op' = po_request_id op \<and>
    m \<le> length (stored d (concat bs)) \<and> ((\<forall>n. \<not> flag n) \<longrightarrow> m = length (stored d (concat bs))) \<and>
    loaded d (concat bs) (starts ps host) m h h' \<and> invar d' \<and> fetch d' = fetch d"
  using assms
proof (induction bs arbitrary: host op d h)
  case Nil
  then show ?case by (intro exI [of _ 0]) (simp add: loaded_def)
next
  case (Cons b bs)
  let ?n = "length b" and ?st = "starts ps host"
  have len: "?n \<le> length ?st" using Cons.prems(3) by (simp add: ready_def)
  have rd: "ready d b (starts ps (take (?n * ps) host)) h"
    using Cons.prems(3) len by (auto simp: ready_def starts_take [OF Cons.prems(1)] distinct_take dest: in_set_takeD)
  obtain d1 where d1: "bget b d = (Some (map (fetch d) b), d1)" "invar d1" "fetch d1 = fetch d"
    using get_fetch [OF Cons.prems(2)] by blast
  from page_get_loop_loads [OF Cons.prems(1) rd Cons.prems(4), of flag] obtain m bb h1 where
    get: "page_get_loop setp ps flag b (map (fetch d) b) (take (?n * ps) host) op h =
      (Inr (), op\<lparr>so_completed := so_completed op + m * ps, po_terminated := bb\<rparr>, h1)"
    "m \<le> length (stored d b)" "m = ?n \<longrightarrow> \<not> bb" "(\<forall>n. \<not> flag n) \<longrightarrow> m = length (stored d b)"
    "loaded d b (take ?n ?st) m h h1" by (auto simp: starts_take [OF Cons.prems(1)])
  let ?op1 = "op\<lparr>so_completed := so_completed op + m * ps, po_terminated := bb\<rparr>"
  have run: "generic_page_get bget setp ps flag b (take (?n * ps) host) op d h = (Inr (), ?op1, d1, h1)"
    by (simp add: generic_page_get_def d1(1) get(1))
  show ?case
  proof (cases "m = ?n")
    case False
    have less: "m < ?n" using get(2) False stored_le [of d b] by simp
    have "length (stored d b) \<le> length (stored d (b @ concat bs))" by (simp add: stored_append)
    moreover have "length (stored d b) = length (stored d (b @ concat bs))" if "\<forall>n. \<not> flag n"
    proof -
      have "stored d b \<noteq> b" using that get(4) less by auto
      then show ?thesis by (simp add: stored_append)
    qed
    ultimately show ?thesis
      using run False get(2,4) Cons.prems(1) d1(2,3) loaded_more [OF get(5)] less
      by (intro exI [of _ m] exI [of _ "mark_terminate ?op1"] exI [of _ d1] exI [of _ h1])
        (auto simp: mark_terminate_def)
  next
    case True
    have all: "stored d b = b" using get(2) True by (simp add: stored_full)
    let ?op2 = "?op1\<lparr>so_prefix_keys := add_prefix b (so_prefix_keys ?op1)\<rparr>"
    have sl: "slot h1 = slot h" "fits h1 = fits h" using get(5) by (auto simp: loaded_def)
    have "ready d1 (concat bs) (starts ps (drop (?n * ps) host)) h1"
      using Cons.prems(3) by (auto simp: ready_def starts_drop [OF Cons.prems(1)] sl d1(3) dest: in_set_dropD)
    moreover have "\<not> po_terminated ?op2" using get(3) True by simp
    ultimately obtain m2 op' d' h' where
      IH: "page_transfer_loop bget setp ps flag bs (drop (?n * ps) host) ?op2 d1 h1 = (Inr (), op', d', h')"
      "so_completed op' = so_completed ?op2 + m2 * ps" "so_host_indices op' = so_host_indices ?op2" "po_request_id op' = po_request_id ?op2"
      "m2 \<le> length (stored d1 (concat bs))" "(\<forall>n. \<not> flag n) \<longrightarrow> m2 = length (stored d1 (concat bs))"
      "loaded d1 (concat bs) (starts ps (drop (?n * ps) host)) m2 h1 h'" "invar d'" "fetch d' = fetch d1"
      using Cons.IH [OF Cons.prems(1) d1(2)] by blast
    have ld: "loaded d (concat bs) (drop ?n ?st) m2 h1 h'"
      using IH(7) by (simp add: loaded_def d1(3) starts_drop [OF Cons.prems(1)])
    have "loaded d (concat (b # bs)) ?st (?n + m2) h h'"
      using loaded_append [OF get(5) [unfolded True] ld] len Cons.prems(3) by (simp add: ready_def)
    moreover have "page_transfer_loop bget setp ps flag (b # bs) host op d h = (Inr (), op', d', h')"
      using run IH(1) True by simp
    moreover have "stored d (concat (b # bs)) = b @ stored d (concat bs)" using all by (simp add: stored_append)
    ultimately show ?thesis
      using IH(2-6,8,9) True stored_cong [OF d1(3)] d1(3)
      by (intro exI [of _ "?n + m2"] exI [of _ op'] exI [of _ d'] exI [of _ h']) (simp add: add_mult_distrib)
  qed
qed

lemma page_transfer_loads:
  assumes "0 < ps" and "0 < bsz" and "invar d" and "ready d (so_hash_value op) (starts ps (so_host_indices op)) h" and "\<not> po_terminated op"
  shows "\<exists>m op' d' h'. page_transfer bget setp ps bsz flag op d h = (Inr (), op', d', h') \<and>
    so_completed op' = so_completed op + m * ps \<and> so_host_indices op' = so_host_indices op \<and> po_request_id op' = po_request_id op \<and>
    m \<le> length (stored d (so_hash_value op)) \<and> ((\<forall>n. \<not> flag n) \<longrightarrow> m = length (stored d (so_hash_value op))) \<and>
    loaded d (so_hash_value op) (starts ps (so_host_indices op)) m h h' \<and> invar d' \<and> fetch d' = fetch d"
  using page_transfer_loop_loads [OF assms(1,3), of "chunks bsz (so_hash_value op)"] assms
  by (simp add: page_transfer_def concat_chunks)

text \<open>What one prefetch does, from the query to the end of the transfer.\<close>

lemma prefetch_query:
  assumes "cc_prefetch_queue c = op # queue" and "invar d" and "0 < cc_page_size c" and "0 < cc_batch_size c"
    and "chain_hashes sha (chunks (cc_page_size c) (rk_units (so_key op))) (so_last_hash op) = Inr hs"
    and n: "n = fold min others (length (takeWhile (has d) hs) * cc_page_size c)"
  shows "prefetch_thread_step (\<lambda>pk ks. bexists pk ks d) sha others c =
    (let c1 = c\<lparr>cc_prefetch_queue := queue\<rparr> in
     if n < cc_threshold c
     then (Inr (), append_host_mem_release (so_host_indices op) (c1\<lparr>cc_revoke_queue := cc_revoke_queue c @ [po_request_id op]\<rparr>))
     else (Inr (), append_host_mem_release (drop n (so_host_indices op))
       (c1\<lparr>cc_prefetch_buffer := cc_prefetch_buffer c @ [op\<lparr>so_hash_value := take (n div cc_page_size c) (takeWhile (has d) hs),
          so_host_indices := take n (so_host_indices op)\<rparr>]\<rparr>)))"
  using assms(1) by (simp add: prefetch_thread_step_def storage_hit_query_longest [OF assms(2-5)] n append_host_mem_release_def Let_def)

lemma prefetch_transfer:
  assumes "cc_prefetch_buffer c = op # buf" and "invar d" and "0 < cc_page_size c" and "0 < cc_batch_size c"
    and "ready d (so_hash_value op) (starts (cc_page_size c) (so_host_indices op)) h" and "\<not> po_terminated op" and "so_completed op = 0"
    and "stored d (so_hash_value op) = so_hash_value op"
  shows "\<exists>m op' d' h'. prefetch_io_step bget setp flag c d h = (Inr (Some op'),
      append_host_mem_release (drop (m * cc_page_size c) (so_host_indices op)) (c\<lparr>cc_prefetch_buffer := buf\<rparr>), d', h') \<and>
    so_completed op' = m * cc_page_size c \<and> m \<le> length (so_hash_value op) \<and>
    ((\<forall>n. \<not> flag n) \<longrightarrow> m = length (so_hash_value op)) \<and>
    loaded d (so_hash_value op) (starts (cc_page_size c) (so_host_indices op)) m h h' \<and> invar d' \<and> fetch d' = fetch d"
proof -
  from page_transfer_loads [OF assms(3,4,2,5,6), of flag] obtain m op' d' h' where
    t: "page_transfer bget setp (cc_page_size c) (cc_batch_size c) flag op d h = (Inr (), op', d', h')"
    "so_completed op' = so_completed op + m * cc_page_size c" "so_host_indices op' = so_host_indices op"
    "m \<le> length (stored d (so_hash_value op))" "(\<forall>n. \<not> flag n) \<longrightarrow> m = length (stored d (so_hash_value op))"
    "loaded d (so_hash_value op) (starts (cc_page_size c) (so_host_indices op)) m h h'" "invar d'" "fetch d' = fetch d" by blast
  have "prefetch_io_step bget setp flag c d h = (Inr (Some op'),
      append_host_mem_release (drop (m * cc_page_size c) (so_host_indices op)) (c\<lparr>cc_prefetch_buffer := buf\<rparr>), d', h')"
    using t(1-3) assms(1,7) by (simp add: prefetch_io_step_def)
  then show ?thesis using t(2,4-) assms(7,8) by auto
qed

section \<open>Backups\<close>

lemma data_pages_append:
  "0 < ps \<Longrightarrow> data_pages getp ps b (take (length b * ps) host) h = Inr v1 \<Longrightarrow> data_pages getp ps c (drop (length b * ps) host) h = Inr v2 \<Longrightarrow>
    data_pages getp ps (b @ c) host h = Inr (v1 @ v2)"
proof (induction b arbitrary: host v1)
  case (Cons k b)
  let ?t = "take (length (k # b) * ps) host"
  have ne: "host \<noteq> []" using Cons.prems(2) by auto
  have hd: "hd ?t = hd host" "?t \<noteq> []" using ne Cons.prems(1) by (simp_all add: hd_take)
  have dr: "drop ps ?t = take (length b * ps) (drop ps host)" "drop (length (k # b) * ps) host = drop (length b * ps) (drop ps host)"
    by (simp_all add: drop_take add.commute)
  from Cons.prems(2) hd obtain p ps' where v: "getp (hd host) h = Inr p" "data_pages getp ps b (drop ps ?t) h = Inr ps'" "v1 = p # ps'"
    unfolding data_pages.simps by (auto simp: bindE_Inr_iff)
  from Cons.IH [OF Cons.prems(1) v(2) [unfolded dr(1)]] Cons.prems(3) [unfolded dr(2)] v ne show ?case by simp
qed simp

lemma page_backup_loop_stores:
  assumes "0 < ps" and "[] \<notin> set bs" and "invar d" and "page_backup_loop getp bset ps bs host h op d = (Inr (), op', d')"
    and "so_completed op' = so_completed op + ps * length (concat bs)"
  shows "\<exists>vs. data_pages getp ps (concat bs) host h = Inr vs \<and> invar d' \<and>
    (\<forall>k. has d' k \<longrightarrow> (\<exists>v. (k, v) \<in> set (zip (concat bs) vs) \<and> fetch d' k = Some v) \<or> has d k \<and> fetch d' k = fetch d k) \<and>
    (room d (zip (concat bs) vs) \<longrightarrow> (\<forall>k. has d k \<or> k \<in> set (concat bs) \<longrightarrow> has d' k))"
  using assms(2-)
proof (induction bs arbitrary: host op d)
  case (Cons b bs)
  from Cons.prems(3) obtain success d1 where
    st: "generic_page_set getp bset ps b (take (length b * ps) host) h d = (Inr success, d1)"
    by (auto split: prod.splits sum.splits)
  have success
  proof (rule ccontr)
    assume "\<not> success"
    then have "op' = op" using Cons.prems(3) st by simp
    then show False using Cons.prems(1,4) assms(1) by auto
  qed
  let ?op = "op\<lparr>so_prefix_keys := add_prefix b (so_prefix_keys op), so_completed := so_completed op + ps * length b\<rparr>"
  from st obtain v1 where v1: "data_pages getp ps b (take (length b * ps) host) h = Inr v1" "bset b v1 d = (Inr True, d1)"
    using \<open>success\<close> by (auto simp: generic_page_set_def split: sum.splits)
  have run: "page_backup_loop getp bset ps bs (drop (length b * ps) host) h ?op d1 = (Inr (), op', d')"
    using Cons.prems(3) st \<open>success\<close> by simp
  have inv1: "invar d1" using set_invar [OF Cons.prems(2) v1(2)] .
  have "so_completed op' = so_completed ?op + ps * length (concat bs)" using Cons.prems(4) by (simp add: algebra_simps)
  with Cons.IH [OF _ inv1 run] Cons.prems(1) obtain v2 where
    v2: "data_pages getp ps (concat bs) (drop (length b * ps) host) h = Inr v2" "invar d'"
    "\<forall>k. has d' k \<longrightarrow> (\<exists>v. (k, v) \<in> set (zip (concat bs) v2) \<and> fetch d' k = Some v) \<or> has d1 k \<and> fetch d' k = fetch d1 k"
    "room d1 (zip (concat bs) v2) \<longrightarrow> (\<forall>k. has d1 k \<or> k \<in> set (concat bs) \<longrightarrow> has d' k)" by auto
  have len: "length v1 = length b" using v1(1)
  proof -
    have "data_pages getp ps ks hst h = Inr vs \<Longrightarrow> length vs = length ks" for ks hst vs
      by (induction ks arbitrary: hst vs) (auto simp: bindE_Inr_iff split: if_splits)
    with v1(1) show ?thesis by blast
  qed
  have zip: "zip (concat (b # bs)) (v1 @ v2) = zip b v1 @ zip (concat bs) v2" using len by simp
  show ?case
  proof (intro exI [of _ "v1 @ v2"] conjI allI impI)
    show "data_pages getp ps (concat (b # bs)) host h = Inr (v1 @ v2)"
      using data_pages_append [OF assms(1) v1(1) v2(1)] by simp
    show "invar d'" by (rule v2(2))
    show "(\<exists>v. (k, v) \<in> set (zip (concat (b # bs)) (v1 @ v2)) \<and> fetch d' k = Some v) \<or> has d k \<and> fetch d' k = fetch d k"
      if "has d' k" for k
      using v2(3) [rule_format, OF that] set_fetch [OF Cons.prems(2) v1(2), of k] unfolding zip by auto
    show "has d' k" if "room d (zip (concat (b # bs)) (v1 @ v2))" "has d k \<or> k \<in> set (concat (b # bs))" for k
    proof -
      have "room d1 (zip (concat bs) v2)" "room d (zip b v1)"
        using that(1) set_room [OF Cons.prems(2) v1(2)] room_part unfolding zip by blast+
      then show ?thesis using v2(4) that(2) set_keeps [OF Cons.prems(2) v1(2) _ len [symmetric], of k] by auto
    qed
  qed
qed simp

lemma backup_stores:
  assumes "0 < ps" and "0 < bsz" and "invar d" and "page_backup getp bset ps bsz h op d = (Inr (), op', d')"
    and "so_completed op = 0" and "so_completed op' = ps * length (so_hash_value op)"
    and "data_pages getp ps (so_hash_value op) (so_host_indices op) h = Inr vs" and "distinct (so_hash_value op)"
    and "room d (zip (so_hash_value op) vs)"
    and "\<forall>(k, v) \<in> set (zip (so_hash_value op) vs). has d k \<longrightarrow> fetch d k = Some v"
  shows "invar d'" and "\<forall>(k, v) \<in> set (zip (so_hash_value op) vs). has d' k \<and> fetch d' k = Some v"
proof -
  have "[] \<notin> set (chunks bsz (so_hash_value op))" by (rule chunks_nonempty [OF assms(2)])
  with page_backup_loop_stores [OF assms(1) _ assms(3) assms(4) [unfolded page_backup_def]] assms(5-7)
  have main: "invar d'" "\<forall>k. has d' k \<longrightarrow> (\<exists>v. (k, v) \<in> set (zip (so_hash_value op) vs) \<and> fetch d' k = Some v) \<or> has d k \<and> fetch d' k = fetch d k"
    "\<forall>k. has d k \<or> k \<in> set (so_hash_value op) \<longrightarrow> has d' k"
    using assms(9) by (auto simp: concat_chunks [OF assms(2)])
  show "invar d'" by (rule main(1))
  show "\<forall>(k, v) \<in> set (zip (so_hash_value op) vs). has d' k \<and> fetch d' k = Some v"
  proof (intro ballI, clarify)
    fix k v assume kv: "(k, v) \<in> set (zip (so_hash_value op) vs)"
    then have has: "has d' k" using main(3) set_zip_leftD by metis
    have uniq: "v' = v" if "(k, v') \<in> set (zip (so_hash_value op) vs)" for v'
      using that kv assms(8) by (auto simp: set_zip nth_eq_iff_index_eq)
    consider v' where "(k, v') \<in> set (zip (so_hash_value op) vs)" "fetch d' k = Some v'" | "has d k" "fetch d' k = fetch d k"
      using main(2) has by blast
    then show "has d' k \<and> fetch d' k = Some v"
    proof cases
      case 1
      then show ?thesis using has uniq by simp
    next
      case 2
      then show ?thesis using has bspec [OF assms(10) kv] by simp
    qed
  qed
qed

end

section \<open>Too few host slots\<close>

text \<open>
  The transfer reads as many pages as the query found. If fewer host slots were reserved than the key
  has pages, the index into the slots raises, and the transfer thread, which only expects an empty
  queue, ends.
\<close>

lemma short_allocation_raises:
  "fst (page_get_loop set_page ps flag (k # ks) (Some page # data) [] op h) = Inl IndexError"
  by simp

end
