(* ===== verification/Json.thy ===== *)
theory Json
  imports Py_Strings
begin

text \<open>
  JSON as Python sees it. Strings are lists of code points. \<open>loads\<close> is \<^verbatim>\<open>json.loads\<close> on
  a string, with \<^term>\<open>None\<close> for \<^verbatim>\<open>JSONDecodeError\<close>; \<open>dumps_str\<close> is
  \<^verbatim>\<open>json.dumps\<close> on a string, which escapes everything outside printable ASCII, and
  \<open>dumps_int\<close>, \<open>dumps_decimal\<close> and \<open>dumps_obj\<close> write numbers and dictionaries. The
  accessors raise what Python raises on values of the wrong type. A float is kept as its decimal
  literal, mantissa and exponent; limits on the nesting depth and on the number of digits are not
  represented.
\<close>

section \<open>Strings of code points\<close>

type_synonym ustr = "nat list"

definition lit :: "string \<Rightarrow> ustr" where
  "lit s = map of_char s"

lemma lit_simps [simp]: "lit [] = []" "lit (c # s) = of_char c # lit s"
  by (simp_all add: lit_def)

lemma lit_append: "lit (a @ b) = lit a @ lit b"
  by (simp add: lit_def)

text \<open>White space as \<^verbatim>\<open>str.strip\<close> sees it.\<close>

definition uspace :: "nat \<Rightarrow> bool" where
  "uspace c \<longleftrightarrow> c = 32 \<or> (9 \<le> c \<and> c \<le> 13) \<or> (28 \<le> c \<and> c \<le> 31) \<or> c \<in> {133, 160, 5760, 8232, 8233, 8239, 8287, 12288}
     \<or> (8192 \<le> c \<and> c \<le> 8202)"

definition ustrip :: "ustr \<Rightarrow> ustr" where
  "ustrip s = rev (dropWhile uspace (rev (dropWhile uspace s)))"

text \<open>\<^verbatim>\<open>bytes.decode("utf-8")\<close>, which rejects overlong forms and surrogates.\<close>

definition cont :: "nat \<Rightarrow> bool" where
  "cont b \<longleftrightarrow> 128 \<le> b \<and> b < 192"

fun utf8_decode :: "nat list \<Rightarrow> ustr option" where
  "utf8_decode [] = Some []"
| "utf8_decode (a # r) =
     (if a < 128 then map_option ((#) a) (utf8_decode r)
      else if a < 194 then None
      else if a < 224 then
        (case r of b # r2 \<Rightarrow> if cont b then map_option ((#) ((a - 192) * 64 + (b - 128))) (utf8_decode r2) else None
         | _ \<Rightarrow> None)
      else if a < 240 then
        (case r of b # c # r3 \<Rightarrow>
           if cont b \<and> cont c \<and> (a = 224 \<longrightarrow> 160 \<le> b) \<and> (a = 237 \<longrightarrow> b < 160)
           then map_option ((#) ((a - 224) * 4096 + (b - 128) * 64 + (c - 128))) (utf8_decode r3) else None
         | _ \<Rightarrow> None)
      else if a < 245 then
        (case r of b # c # d # r4 \<Rightarrow>
           if cont b \<and> cont c \<and> cont d \<and> (a = 240 \<longrightarrow> 144 \<le> b) \<and> (a = 244 \<longrightarrow> b < 144)
           then map_option ((#) ((a - 240) * 262144 + (b - 128) * 4096 + (c - 128) * 64 + (d - 128))) (utf8_decode r4) else None
         | _ \<Rightarrow> None)
      else None)"

section \<open>Values and accessors\<close>

datatype json =
    JNull | JBool bool | JInt int | JFloat int int | JConst ustr | JStr ustr
  | JArr "json list" | JObj "(ustr \<times> json) list"

text \<open>The truth value of a value in an \<^verbatim>\<open>if\<close>.\<close>

definition truthy :: "json \<Rightarrow> bool" where
  "truthy j = (case j of JNull \<Rightarrow> False | JBool b \<Rightarrow> b | JInt i \<Rightarrow> i \<noteq> 0 | JFloat m e \<Rightarrow> m \<noteq> 0
     | JConst c \<Rightarrow> True | JStr s \<Rightarrow> s \<noteq> [] | JArr xs \<Rightarrow> xs \<noteq> [] | JObj d \<Rightarrow> d \<noteq> [])"

text \<open>\<^verbatim>\<open>x.get(k, d)\<close>, \<^verbatim>\<open>list(x)\<close>, \<^verbatim>\<open>x[0]\<close>, \<^verbatim>\<open>len(x)\<close> and \<^verbatim>\<open>sep.join(xs)\<close>.\<close>

definition py_get :: "json \<Rightarrow> ustr \<Rightarrow> json \<Rightarrow> json res" where
  "py_get j k d = (case j of JObj m \<Rightarrow> Inr (case dict_get m k of None \<Rightarrow> d | Some v \<Rightarrow> v) | _ \<Rightarrow> Inl AttributeError)"

definition py_list :: "json \<Rightarrow> json list res" where
  "py_list j = (case j of JArr xs \<Rightarrow> Inr xs | JStr s \<Rightarrow> Inr (map (\<lambda>c. JStr [c]) s)
     | JObj m \<Rightarrow> Inr (map (JStr \<circ> fst) m) | _ \<Rightarrow> Inl TypeError)"

definition py_first :: "json \<Rightarrow> json res" where
  "py_first j = (case j of JArr (x # _) \<Rightarrow> Inr x | JStr (c # _) \<Rightarrow> Inr (JStr [c]) | JArr [] \<Rightarrow> Inl IndexError
     | JStr [] \<Rightarrow> Inl IndexError | JObj _ \<Rightarrow> Inl KeyError | _ \<Rightarrow> Inl TypeError)"

definition py_size :: "json \<Rightarrow> nat res" where
  "py_size j = (case j of JArr xs \<Rightarrow> Inr (length xs) | JStr s \<Rightarrow> Inr (length s) | JObj m \<Rightarrow> Inr (length m) | _ \<Rightarrow> Inl TypeError)"

fun mapE :: "('a \<Rightarrow> 'b res) \<Rightarrow> 'a list \<Rightarrow> 'b list res" where
  "mapE f [] = Inr []"
| "mapE f (x # xs) = bindE (f x) (\<lambda>y. bindE (mapE f xs) (\<lambda>ys. Inr (y # ys)))"

definition as_str :: "json \<Rightarrow> ustr res" where
  "as_str j = (case j of JStr s \<Rightarrow> Inr s | _ \<Rightarrow> Inl TypeError)"

definition py_join :: "ustr \<Rightarrow> json list \<Rightarrow> ustr res" where
  "py_join sep xs = bindE (mapE as_str xs) (\<lambda>ss. Inr (join sep ss))"

lemma py_get_obj [simp]: "py_get (JObj m) k d = Inr (case dict_get m k of None \<Rightarrow> d | Some v \<Rightarrow> v)"
  by (simp add: py_get_def)

lemma py_list_arr [simp]: "py_list (JArr xs) = Inr xs"
  by (simp add: py_list_def)

lemma py_first_arr [simp]: "py_first (JArr (x # xs)) = Inr x" "py_first (JArr []) = Inl IndexError"
  by (simp_all add: py_first_def)

lemma as_str_str [simp]: "as_str (JStr s) = Inr s"
  by (simp add: as_str_def)

lemma mapE_Inr: "(\<And>x. x \<in> set xs \<Longrightarrow> f x = Inr (g x)) \<Longrightarrow> mapE f xs = Inr (map g xs)"
  by (induction xs) auto

lemma truthy_simps [simp]:
  "truthy (JStr s) \<longleftrightarrow> s \<noteq> []" "truthy (JBool b) \<longleftrightarrow> b" "\<not> truthy JNull" "truthy (JArr xs) \<longleftrightarrow> xs \<noteq> []"
  "truthy (JObj m) \<longleftrightarrow> m \<noteq> []"
  by (simp_all add: truthy_def)

section \<open>Reading\<close>

definition json_space :: "nat \<Rightarrow> bool" where
  "json_space c \<longleftrightarrow> c = 32 \<or> c = 9 \<or> c = 10 \<or> c = 13"

fun skip_ws :: "ustr \<Rightarrow> ustr" where
  "skip_ws [] = []"
| "skip_ws (c # s) = (if json_space c then skip_ws s else c # s)"

definition hex_of :: "nat \<Rightarrow> nat option" where
  "hex_of c = (if 48 \<le> c \<and> c \<le> 57 then Some (c - 48) else if 97 \<le> c \<and> c \<le> 102 then Some (c - 87)
     else if 65 \<le> c \<and> c \<le> 70 then Some (c - 55) else None)"

definition hex4 :: "ustr \<Rightarrow> (nat \<times> ustr) option" where
  "hex4 s = (case s of a # b # c # d # r \<Rightarrow>
     (case (hex_of a, hex_of b, hex_of c, hex_of d) of
        (Some w, Some x, Some y, Some z) \<Rightarrow> Some (w * 4096 + x * 256 + y * 16 + z, r)
      | _ \<Rightarrow> None) | _ \<Rightarrow> None)"

definition high_surrogate :: "nat \<Rightarrow> bool" where
  "high_surrogate c \<longleftrightarrow> 55296 \<le> c \<and> c < 56320"

definition low_surrogate :: "nat \<Rightarrow> bool" where
  "low_surrogate c \<longleftrightarrow> 56320 \<le> c \<and> c < 57344"

definition unescape :: "nat \<Rightarrow> nat option" where
  "unescape e = (if e = 34 \<or> e = 92 \<or> e = 47 then Some e else if e = 98 then Some 8 else if e = 102 then Some 12
     else if e = 110 then Some 10 else if e = 114 then Some 13 else if e = 116 then Some 9 else None)"

text \<open>What follows a backslash: a short escape, or four hex digits, of which two may form a pair.\<close>

definition scan_escape :: "ustr \<Rightarrow> (nat \<times> ustr) option" where
  "scan_escape s = (case s of [] \<Rightarrow> None | e # r \<Rightarrow>
     if e \<noteq> 117 then map_option (\<lambda>x. (x, r)) (unescape e)
     else (case hex4 r of None \<Rightarrow> None | Some (hi, r2) \<Rightarrow>
       if high_surrogate hi then
         (case r2 of b # v # r3 \<Rightarrow>
            if b = 92 \<and> v = 117 then
              (case hex4 r3 of Some (lo, r4) \<Rightarrow>
                 if low_surrogate lo then Some (65536 + (hi - 55296) * 1024 + (lo - 56320), r4) else Some (hi, r2)
               | None \<Rightarrow> Some (hi, r2))
            else Some (hi, r2)
          | _ \<Rightarrow> Some (hi, r2))
       else Some (hi, r2)))"

lemma hex4_length: "hex4 s = Some (n, r) \<Longrightarrow> length s = length r + 4"
  by (auto simp: hex4_def split: list.splits option.splits prod.splits)

lemma scan_escape_length: "scan_escape s = Some (x, r) \<Longrightarrow> length r < length s"
  by (auto simp: scan_escape_def dest!: hex4_length split: list.splits if_splits option.splits prod.splits)

text \<open>The rest of a string literal after its opening quote.\<close>

function (sequential) scanstring :: "ustr \<Rightarrow> (ustr \<times> ustr) option" where
  "scanstring [] = None"
| "scanstring (c # r) =
     (if c = 34 then Some ([], r)
      else if c = 92 then
        (case scan_escape r of None \<Rightarrow> None | Some (x, r2) \<Rightarrow> map_option (\<lambda>(s, t). (x # s, t)) (scanstring r2))
      else if c < 32 then None
      else map_option (\<lambda>(s, t). (c # s, t)) (scanstring r))"
  by pat_completeness auto
termination by (relation "measure length") (auto dest: scan_escape_length)

definition is_digit :: "nat \<Rightarrow> bool" where
  "is_digit c \<longleftrightarrow> 48 \<le> c \<and> c \<le> 57"

definition digits_val :: "ustr \<Rightarrow> int" where
  "digits_val ds = foldl (\<lambda>a d. 10 * a + int (d - 48)) 0 ds"

definition scan_fraction :: "ustr \<Rightarrow> ustr \<times> ustr" where
  "scan_fraction s = (case s of c # r \<Rightarrow>
     if c = 46 \<and> takeWhile is_digit r \<noteq> [] then (takeWhile is_digit r, dropWhile is_digit r) else ([], s) | [] \<Rightarrow> ([], s))"

definition scan_exponent :: "ustr \<Rightarrow> int option \<times> ustr" where
  "scan_exponent s = (case s of [] \<Rightarrow> (None, s) | c # r \<Rightarrow>
     (let (sign, ds) = (case r of d # r2 \<Rightarrow> if d = 45 then (- 1, r2) else if d = 43 then (1, r2) else (1, r) | [] \<Rightarrow> (1, r))
      in if (c = 69 \<or> c = 101) \<and> takeWhile is_digit ds \<noteq> []
         then (Some (sign * digits_val (takeWhile is_digit ds)), dropWhile is_digit ds) else (None, s)))"

definition scan_number :: "ustr \<Rightarrow> (json \<times> ustr) option" where
  "scan_number s =
     (let (sign, s1) = (case s of c # r \<Rightarrow> if c = 45 then (- 1, r) else (1, s) | [] \<Rightarrow> (1, s))
      in case s1 of [] \<Rightarrow> None | d # r \<Rightarrow>
           if \<not> is_digit d then None
           else let (ip, s2) = (if d = 48 then ([48], r) else (takeWhile is_digit s1, dropWhile is_digit s1));
                    (fp, s3) = scan_fraction s2; (ex, s4) = scan_exponent s3
                in if fp = [] \<and> ex = None then Some (JInt (sign * digits_val ip), s4)
                   else Some (JFloat (sign * digits_val (ip @ fp)) ((case ex of None \<Rightarrow> 0 | Some e \<Rightarrow> e) - int (length fp)), s4))"

definition literals :: "(ustr \<times> json) list" where
  "literals = [(lit ''null'', JNull), (lit ''true'', JBool True), (lit ''false'', JBool False),
     (lit ''NaN'', JConst (lit ''NaN'')), (lit ''Infinity'', JConst (lit ''Infinity'')),
     (lit ''-Infinity'', JConst (lit ''-Infinity''))]"

fun scan_literal :: "(ustr \<times> json) list \<Rightarrow> ustr \<Rightarrow> (json \<times> ustr) option" where
  "scan_literal [] s = scan_number s"
| "scan_literal ((w, v) # ws) s = (if startswith s w then Some (v, drop (length w) s) else scan_literal ws s)"

text \<open>
  Values, the members of an object and the items of an array. The number bounds the depth of the
  calls; the length of the text is always enough.
\<close>

fun scan_once :: "nat \<Rightarrow> ustr \<Rightarrow> (json \<times> ustr) option"
  and scan_members :: "nat \<Rightarrow> (ustr \<times> json) list \<Rightarrow> ustr \<Rightarrow> (json \<times> ustr) option"
  and scan_items :: "nat \<Rightarrow> json list \<Rightarrow> ustr \<Rightarrow> (json \<times> ustr) option" where
  "scan_once 0 s = None"
| "scan_once (Suc n) s = (case s of [] \<Rightarrow> None | c # r \<Rightarrow>
     if c = 34 then map_option (\<lambda>(x, t). (JStr x, t)) (scanstring r)
     else if c = 123 then
       (case skip_ws r of [] \<Rightarrow> None | d # t \<Rightarrow> if d = 125 then Some (JObj [], t) else scan_members n [] (d # t))
     else if c = 91 then
       (case skip_ws r of [] \<Rightarrow> None | d # t \<Rightarrow> if d = 93 then Some (JArr [], t) else scan_items n [] (d # t))
     else scan_literal literals (c # r))"
| "scan_members 0 acc s = None"
| "scan_members (Suc n) acc s = (case s of [] \<Rightarrow> None | c # r \<Rightarrow>
     if c \<noteq> 34 then None
     else (case scanstring r of None \<Rightarrow> None | Some (k, r2) \<Rightarrow>
       (case skip_ws r2 of [] \<Rightarrow> None | d # r3 \<Rightarrow>
          if d \<noteq> 58 then None
          else (case scan_once n (skip_ws r3) of None \<Rightarrow> None | Some (v, r4) \<Rightarrow>
            (case skip_ws r4 of [] \<Rightarrow> None | e # r5 \<Rightarrow>
               if e = 44 then scan_members n (dict_set k v acc) (skip_ws r5)
               else if e = 125 then Some (JObj (dict_set k v acc), r5) else None)))))"
| "scan_items 0 acc s = None"
| "scan_items (Suc n) acc s = (case scan_once n s of None \<Rightarrow> None | Some (v, r) \<Rightarrow>
     (case skip_ws r of [] \<Rightarrow> None | e # t \<Rightarrow>
        if e = 44 then scan_items n (acc @ [v]) (skip_ws t)
        else if e = 93 then Some (JArr (acc @ [v]), t) else None))"

definition loads :: "ustr \<Rightarrow> json option" where
  "loads s = (if startswith s [65279] then None
     else (case scan_once (2 * length s + 2) (skip_ws s) of None \<Rightarrow> None
           | Some (v, r) \<Rightarrow> if skip_ws r = [] then Some v else None))"

section \<open>Writing strings\<close>

definition hex_lower :: "nat \<Rightarrow> nat" where
  "hex_lower d = (if d < 10 then 48 + d else 87 + d)"

definition u_escape :: "nat \<Rightarrow> ustr" where
  "u_escape n = [92, 117, hex_lower (n div 4096 mod 16), hex_lower (n div 256 mod 16), hex_lower (n div 16 mod 16), hex_lower (n mod 16)]"

definition esc :: "nat \<Rightarrow> ustr" where
  "esc c = (if c = 34 \<or> c = 92 then [92, c] else if 32 \<le> c \<and> c \<le> 126 then [c]
     else if c = 8 then [92, 98] else if c = 12 then [92, 102] else if c = 10 then [92, 110]
     else if c = 13 then [92, 114] else if c = 9 then [92, 116]
     else if c < 65536 then u_escape c
     else u_escape (55296 + (c - 65536) div 1024) @ u_escape (56320 + (c - 65536) mod 1024))"

definition dumps_str :: "ustr \<Rightarrow> ustr" where
  "dumps_str s = [34] @ concat (map esc s) @ [34]"

section \<open>The bound on the calls is enough\<close>

lemma scanstring_length: "scanstring s = Some (x, r) \<Longrightarrow> length r < length s"
proof (induction s arbitrary: x r rule: scanstring.induct)
  case (2 c t)
  show ?case
  proof (cases "c = 92")
    case True
    with 2 show ?thesis by (fastforce split: option.splits prod.splits dest: scan_escape_length)
  next
    case False
    with 2 show ?thesis by (fastforce split: if_splits)
  qed
qed simp

lemma skip_ws_length [simp]: "length (skip_ws s) \<le> length s"
  by (induction s) auto

lemma skip_ws_Cons: "skip_ws s = c # r \<Longrightarrow> length r < length s"
  using skip_ws_length [of s] by simp

lemma length_dropWhile_Suc: "length (dropWhile P s) \<le> Suc (length s)"
  using length_dropWhile_le [of P s] by simp

lemma length_dropWhile_Suc2: "length (dropWhile P s) \<le> Suc (Suc (length s))"
  using length_dropWhile_le [of P s] by simp

lemmas dropWhile_lengths = length_dropWhile_le length_dropWhile_Suc length_dropWhile_Suc2

lemma scan_fraction_length: "scan_fraction s = (f, r) \<Longrightarrow> length r \<le> length s"
  by (auto simp: scan_fraction_def dropWhile_lengths split: list.splits if_splits)

lemma scan_exponent_length: "scan_exponent s = (f, r) \<Longrightarrow> length r \<le> length s"
  by (auto simp: scan_exponent_def Let_def dropWhile_lengths split: list.splits if_splits)

lemma scan_number_length: "scan_number s = Some (v, r) \<Longrightarrow> length r < length s"
proof -
  assume h: "scan_number s = Some (v, r)"
  obtain sign s1 where s1: "(case s of c # r \<Rightarrow> if c = 45 then (- 1, r) else (1, s) | [] \<Rightarrow> (1 :: int, s)) = (sign, s1)"
    by (metis surj_pair)
  then have l1: "length s1 \<le> length s" by (auto split: list.splits if_splits)
  from h s1 obtain d t where s1': "s1 = d # t" and d: "is_digit d"
    by (auto simp: scan_number_def Let_def split: list.splits if_splits prod.splits)
  obtain ip s2 where s2: "(if d = 48 then ([48], t) else (takeWhile is_digit s1, dropWhile is_digit s1)) = (ip, s2)"
    by (metis surj_pair)
  then have l2: "length s2 < length s1"
    using d by (auto simp: s1' split: if_splits intro: le_imp_less_Suc length_dropWhile_le)
  obtain fp s3 where s3: "scan_fraction s2 = (fp, s3)" by (metis surj_pair)
  obtain ex s4 where s4: "scan_exponent s3 = (ex, s4)" by (metis surj_pair)
  have "r = s4"
    using h s1 s2 s3 s4 d unfolding scan_number_def Let_def s1' by (auto split: if_splits)
  then show ?thesis using scan_fraction_length [OF s3] scan_exponent_length [OF s4] l1 l2 by simp
qed

lemma scan_literal_length:
  "\<forall>(w, v) \<in> set ws. w \<noteq> [] \<Longrightarrow> scan_literal ws s = Some (v, r) \<Longrightarrow> length r < length s"
proof (induction ws s rule: scan_literal.induct)
  case (2 w u ws s)
  have "length (drop (length w) s) < length s" if "startswith s w"
  proof -
    have "w = take (length w) s" using that by (simp add: startswith_def)
    then have "length w \<le> length s" by (metis length_take min.absorb_iff2 min.commute)
    then show ?thesis using 2(2) by (cases w) auto
  qed
  with 2 show ?case by (auto split: if_splits)
qed (simp add: scan_number_length)

lemma scan_literals_length: "scan_literal literals s = Some (v, r) \<Longrightarrow> length r < length s"
  by (erule scan_literal_length [rotated]) (simp add: literals_def)

lemma scan_length:
  "scan_once n s = Some (v, r) \<Longrightarrow> length r < length s"
  "scan_members n m s = Some (v, r) \<Longrightarrow> length r < length s"
  "scan_items n xs s = Some (v, r) \<Longrightarrow> length r < length s"
proof (induction n s and n m s and n xs s arbitrary: v r and v r and v r rule: scan_once_scan_members_scan_items.induct)
  case (2 n s)
  show ?case
  proof (cases s)
    case (Cons c t)
    have in_rest: "length r < length s" if "skip_ws t = d # t'" "length r \<le> length (d # t')" for d t'
      using skip_ws_length [of t] that Cons by simp
    consider "c = 34" | "c = 123" | "c = 91" | "c \<noteq> 34" "c \<noteq> 123" "c \<noteq> 91" by blast
    then show ?thesis
    proof cases
      case 1
      with 2(3) Cons show ?thesis by (auto dest: scanstring_length)
    next
      case b: 2
      with 2(3) Cons obtain d t' where d: "skip_ws t = d # t'" by (cases "skip_ws t") auto
      show ?thesis
      proof (cases "d = 125")
        case True
        with 2(3) Cons b d show ?thesis by (intro in_rest [OF d]) simp
      next
        case False
        with 2(3) Cons b d have "scan_members n [] (d # t') = Some (v, r)" by simp
        from 2(1) [OF Cons _ b d False this] b show ?thesis by (intro in_rest [OF d]) simp
      qed
    next
      case b: 3
      with 2(3) Cons obtain d t' where d: "skip_ws t = d # t'" by (cases "skip_ws t") auto
      show ?thesis
      proof (cases "d = 93")
        case True
        with 2(3) Cons b d show ?thesis by (intro in_rest [OF d]) simp
      next
        case False
        with 2(3) Cons b d have "scan_items n [] (d # t') = Some (v, r)" by simp
        from 2(2) [OF Cons _ _ b d False this] b show ?thesis by (intro in_rest [OF d]) simp
      qed
    next
      case 4
      with 2(3) Cons show ?thesis by (auto dest: scan_literals_length)
    qed
  qed (use 2 in simp)
next
  case (4 n m s)
  from 4(3) obtain c t where s: "s = c # t" by (cases s) auto
  from 4(3) obtain k r2 d r3 u r4 e r5 where st: "scanstring t = Some (k, r2)" "skip_ws r2 = d # r3"
    "d = 58" "c = 34" "scan_once n (skip_ws r3) = Some (u, r4)" "skip_ws r4 = e # r5"
    by (auto simp: s split: option.splits list.splits if_splits prod.splits)
  have "length r4 < length (skip_ws r3)" using 4(1) [OF s _ st(1) _ st(2) _ st(5)] st(3,4) by simp
  moreover have "length (skip_ws r3) \<le> length r3" by (rule skip_ws_length)
  ultimately have "length r5 < length s"
    using scanstring_length [OF st(1)] skip_ws_Cons [OF st(2)] skip_ws_Cons [OF st(6)] unfolding s length_Cons by linarith
  moreover have "length r < length (skip_ws r5)" if "e = 44"
    using 4(2) [OF s _ st(1) _ st(2) _ st(5) _ st(6) that] 4(3) st that by (auto simp: s)
  moreover have "r = r5" if "e \<noteq> 44" using 4(3) st that by (auto simp: s split: if_splits)
  ultimately show ?case using skip_ws_length [of r5] by fastforce
next
  case (6 n xs s)
  from 6(3) obtain u r1 e t where st: "scan_once n s = Some (u, r1)" "skip_ws r1 = e # t"
    by (auto split: option.splits list.splits if_splits prod.splits)
  have "length t < length s" using 6(1) [OF st(1)] skip_ws_Cons [OF st(2)] by simp
  moreover have "length r < length (skip_ws t)" if "e = 44"
    using 6(2) [OF st(1) _ st(2) that] 6(3) st that by auto
  moreover have "r = t" if "e \<noteq> 44" using 6(3) st that by (auto split: if_splits)
  ultimately show ?case using skip_ws_length [of t] by fastforce
qed simp_all

lemma scan_fuel:
  "2 * length s + 1 \<le> n \<Longrightarrow> 2 * length s + 1 \<le> k \<Longrightarrow> scan_once n s = scan_once k s"
  "2 * length s + 2 \<le> n \<Longrightarrow> 2 * length s + 2 \<le> k \<Longrightarrow> scan_members n m s = scan_members k m s"
  "2 * length s + 2 \<le> n \<Longrightarrow> 2 * length s + 2 \<le> k \<Longrightarrow> scan_items n xs s = scan_items k xs s"
proof (induction n s and n m s and n xs s arbitrary: k and k and k rule: scan_once_scan_members_scan_items.induct)
  case (2 n s)
  obtain j where k: "k = Suc j" using 2(4) by (cases k) auto
  show ?case
  proof (cases s)
    case (Cons c t)
    have b: "2 * length (d # t') + 2 \<le> n" "2 * length (d # t') + 2 \<le> j" if "skip_ws t = d # t'" for d t'
      using skip_ws_length [of t] that 2(3,4) Cons k by simp_all
    have m: "scan_members n [] (d # t') = scan_members j [] (d # t')"
      if "c = 123" "skip_ws t = d # t'" "d \<noteq> 125" for d t'
      using 2(1) [OF Cons _ that(1,2,3) b [OF that(2)]] that(1) by simp
    have i: "scan_items n [] (d # t') = scan_items j [] (d # t')"
      if "c = 91" "skip_ws t = d # t'" "d \<noteq> 93" for d t'
      using 2(2) [OF Cons _ _ that(1,2,3) b [OF that(2)]] that(1) by simp
    show ?thesis by (cases "skip_ws t") (simp_all add: k Cons m i)
  qed (simp add: k)
next
  case (4 n m s)
  obtain j where k: "k = Suc j" using 4(4) by (cases k) auto
  show ?case
  proof (cases s)
    case (Cons c t)
    have o: "scan_once n (skip_ws r3) = scan_once j (skip_ws r3)"
      if "c = 34" "scanstring t = Some (x, r2)" "skip_ws r2 = d # r3" "d = 58" for x r2 d r3
    proof -
      have "length (skip_ws r3) < length t"
        using scanstring_length [OF that(2)] skip_ws_Cons [OF that(3)] skip_ws_length [of r3] by linarith
      then show ?thesis using 4(1) [OF Cons _ that(2) _ that(3), where k = j] that 4(3,4) Cons k by simp
    qed
    have m: "scan_members n (dict_set x v m) (skip_ws r5) = scan_members j (dict_set x v m) (skip_ws r5)"
      if "c = 34" "scanstring t = Some (x, r2)" "skip_ws r2 = d # r3" "d = 58"
        "scan_once n (skip_ws r3) = Some (v, r4)" "skip_ws r4 = e # r5" "e = 44" for x r2 d r3 v r4 e r5
    proof -
      have "length (skip_ws r5) < length t"
        using scanstring_length [OF that(2)] skip_ws_Cons [OF that(3)] skip_ws_Cons [OF that(6)]
          skip_ws_length [of r3] skip_ws_length [of r5] scan_length(1) [OF that(5)] by linarith
      then show ?thesis
        using 4(2) [OF Cons _ that(2) _ that(3) _ that(5) _ that(6,7), where k = j] that 4(3,4) Cons k by simp
    qed
    show ?thesis by (auto simp: k Cons o m split: option.split list.split)
  qed (simp add: k)
next
  case (6 n xs s)
  obtain j where k: "k = Suc j" using 6(4) by (cases k) auto
  have o: "scan_once n s = scan_once j s" using 6(1) [of j] 6(3,4) k by simp
  have i: "scan_items n (xs @ [v]) (skip_ws t) = scan_items j (xs @ [v]) (skip_ws t)"
    if "scan_once n s = Some (v, r)" "skip_ws r = e # t" "e = 44" for v r e t
  proof -
    have "length (skip_ws t) < length s"
      using scan_length(1) [OF that(1)] skip_ws_Cons [OF that(2)] skip_ws_length [of t] by linarith
    then show ?thesis using 6(2) [OF that(1) _ that(2,3), where k = j] 6(3,4) k by simp
  qed
  show ?case
  proof (cases "scan_once j s")
    case (Some p)
    obtain v r where p: "p = (v, r)" by fastforce
    then show ?thesis using i [of v r] o by (cases "skip_ws r") (simp_all add: k Some)
  qed (simp add: k o)
qed simp_all

section \<open>Strings survive a round trip\<close>

text \<open>The code points of proper text: no surrogates.\<close>

definition scalars :: "ustr \<Rightarrow> bool" where
  "scalars s \<longleftrightarrow> (\<forall>c \<in> set s. c < 1114112 \<and> \<not> high_surrogate c \<and> \<not> low_surrogate c)"

lemma hex_of_lower [simp]: "d < 16 \<Longrightarrow> hex_of (hex_lower d) = Some d"
  by (auto simp: hex_of_def hex_lower_def)

lemma nibbles: "n < 65536 \<Longrightarrow> n div 4096 mod 16 * 4096 + n div 256 mod 16 * 256 + n div 16 mod 16 * 16 + n mod 16 = (n :: nat)"
proof -
  assume "n < 65536"
  then have a: "n div 4096 mod 16 = n div 4096" by simp
  have "n = n div 16 * 16 + n mod 16" by simp
  moreover have "n div 16 = n div 256 * 16 + n div 16 mod 16"
    using div_mult_mod_eq [of "n div 16" 16] by (simp add: div_mult2_eq [symmetric])
  moreover have "n div 256 = n div 4096 * 16 + n div 256 mod 16"
    using div_mult_mod_eq [of "n div 256" 16] by (simp add: div_mult2_eq [symmetric])
  ultimately show ?thesis unfolding a by linarith
qed

lemma hex4_u_escape: "n < 65536 \<Longrightarrow> u_escape n = 92 # 117 # drop 2 (u_escape n) \<and> hex4 (drop 2 (u_escape n) @ r) = Some (n, r)"
  using nibbles [of n] by (simp add: u_escape_def hex4_def)

lemma scan_escape_u:
  assumes "n < 65536" and "\<not> high_surrogate n"
  shows "scan_escape (117 # drop 2 (u_escape n) @ r) = Some (n, r)"
  using hex4_u_escape [OF assms(1), of r] assms(2) by (simp add: scan_escape_def)

lemma scan_escape_pair:
  assumes "high_surrogate hi" and "low_surrogate lo"
  shows "scan_escape (117 # drop 2 (u_escape hi) @ u_escape lo @ r) = Some (65536 + (hi - 55296) * 1024 + (lo - 56320), r)"
proof -
  have lt: "hi < 65536" "lo < 65536" using assms by (simp_all add: high_surrogate_def low_surrogate_def)
  have "u_escape lo @ r = 92 # 117 # (drop 2 (u_escape lo) @ r)" using hex4_u_escape [OF lt(2), of r] by (metis append_Cons)
  then have "scan_escape (117 # drop 2 (u_escape hi) @ u_escape lo @ r) = scan_escape (117 # drop 2 (u_escape hi) @ 92 # 117 # (drop 2 (u_escape lo) @ r))"
    by (simp only:)
  then show ?thesis
    using hex4_u_escape [OF lt(1), of "92 # 117 # (drop 2 (u_escape lo) @ r)"] hex4_u_escape [OF lt(2), of r] assms
    by (simp add: scan_escape_def)
qed

lemma scanstring_esc:
  assumes "c < 1114112" and "\<not> high_surrogate c" and "\<not> low_surrogate c"
  shows "scanstring (esc c @ r) = map_option (\<lambda>(s, t). (c # s, t)) (scanstring r)"
proof -
  consider "c < 128" "c \<noteq> 127" "32 \<le> c \<or> c \<in> {8, 9, 10, 12, 13}"
    | "c < 65536" "esc c = u_escape c" | "65536 \<le> c"
  proof (cases "c < 65536")
    case True
    then show ?thesis using that(1,2) by (cases "c < 128 \<and> c \<noteq> 127 \<and> (32 \<le> c \<or> c \<in> {8, 9, 10, 12, 13})") (auto simp: esc_def)
  qed (use that(3) in simp)
  then show ?thesis
  proof cases
    case 1
    then show ?thesis by (auto simp: esc_def scan_escape_def unescape_def)
  next
    case 2
    then have "esc c @ r = 92 # (117 # drop 2 (u_escape c) @ r)"
      using hex4_u_escape [OF 2(1), of r] by (metis append_Cons)
    then show ?thesis using scan_escape_u [OF 2(1) assms(2), of r] by simp
  next
    case 3
    define hi lo where "hi = 55296 + (c - 65536) div 1024" and "lo = 56320 + (c - 65536) mod 1024"
    have hl: "high_surrogate hi" "low_surrogate lo" and lt: "hi < 65536"
      using assms(1) 3 by (auto simp: high_surrogate_def low_surrogate_def hi_def lo_def)
    have e: "esc c = u_escape hi @ u_escape lo" using 3 by (simp add: esc_def hi_def lo_def)
    have "esc c @ r = 92 # (117 # drop 2 (u_escape hi) @ u_escape lo @ r)"
      using hex4_u_escape [OF lt, of r] unfolding e by (metis append_Cons append_assoc)
    moreover have "65536 + (hi - 55296) * 1024 + (lo - 56320) = c" using 3 by (simp add: hi_def lo_def)
    ultimately show ?thesis using scan_escape_pair [OF hl, of r] by simp
  qed
qed

lemma scanstring_dumps: "scalars s \<Longrightarrow> scanstring (concat (map esc s) @ 34 # r) = Some (s, r)"
  by (induction s) (auto simp: scalars_def scanstring_esc)

lemma loads_dumps_str: "scalars s \<Longrightarrow> loads (dumps_str s) = Some (JStr s)"
proof -
  assume "scalars s"
  from scanstring_dumps [OF this, of "[]"] show ?thesis
    by (simp add: loads_def dumps_str_def startswith_def json_space_def)
qed

section \<open>Writing numbers and objects\<close>

text \<open>\<^verbatim>\<open>json.dumps\<close> on an integer, and on a dictionary whose values are already written.\<close>

definition dumps_int :: "int \<Rightarrow> ustr" where
  "dumps_int i = (if i < 0 then [45] else []) @ lit (show_nat (nat \<bar>i\<bar>))"

fun dumps_members :: "(ustr \<times> ustr) list \<Rightarrow> ustr" where
  "dumps_members [] = []"
| "dumps_members [(k, t)] = dumps_str k @ [58, 32] @ t"
| "dumps_members ((k, t) # p # ps) = dumps_str k @ [58, 32] @ t @ [44, 32] @ dumps_members (p # ps)"

definition dumps_obj :: "(ustr \<times> ustr) list \<Rightarrow> ustr" where
  "dumps_obj ms = [123] @ dumps_members ms @ [125]"

text \<open>
  A number with a fraction, in units of \<open>10\<^sup>-\<^sup>p\<close>: Python prints no trailing zeros but at least one
  digit behind the point.
\<close>

fun pad_digits :: "nat \<Rightarrow> nat \<Rightarrow> ustr" where
  "pad_digits 0 f = []"
| "pad_digits (Suc k) f = pad_digits k (f div 10) @ [48 + f mod 10]"

fun trim_zeros :: "nat \<Rightarrow> nat \<Rightarrow> nat \<times> nat" where
  "trim_zeros 0 f = (0, f)"
| "trim_zeros (Suc k) f = (if k = 0 \<or> f mod 10 \<noteq> 0 then (Suc k, f) else trim_zeros k (f div 10))"

definition dumps_decimal :: "nat \<Rightarrow> int \<Rightarrow> ustr" where
  "dumps_decimal p x =
     (let a = nat \<bar>x\<bar>; (k, f) = trim_zeros p (a mod 10 ^ p)
      in (if x < 0 then [45] else []) @ lit (show_nat (a div 10 ^ p)) @ [46] @ pad_digits k f)"

text \<open>The number a literal stands for, in the same units; \<^term>\<open>None\<close> when it is finer.\<close>

definition decimal_of :: "nat \<Rightarrow> json \<Rightarrow> int option" where
  "decimal_of p j = (case j of JInt i \<Rightarrow> Some (i * 10 ^ p)
     | JFloat m e \<Rightarrow> if - int p \<le> e then Some (m * 10 ^ nat (int p + e)) else None | _ \<Rightarrow> None)"

section \<open>Written values are read back\<close>

definition ends_value :: "ustr \<Rightarrow> bool" where
  "ends_value r \<longleftrightarrow> (case r of [] \<Rightarrow> True | c # _ \<Rightarrow> c = 44 \<or> c = 125 \<or> c = 93)"

text \<open>The text \<open>t\<close> is read as the value \<open>j\<close>, in front of anything that may follow a value.\<close>

definition reads_as :: "ustr \<Rightarrow> json \<Rightarrow> bool" where
  "reads_as t j \<longleftrightarrow> t \<noteq> [] \<and> \<not> json_space (hd t) \<and> hd t \<noteq> 65279 \<and>
     (\<forall>n r. ends_value r \<longrightarrow> 2 * length (t @ r) + 1 \<le> n \<longrightarrow> scan_once n (t @ r) = Some (j, r))"

lemma reads_as_skip: "reads_as t j \<Longrightarrow> skip_ws (t @ r) = t @ r"
  by (cases t) (auto simp: reads_as_def)

lemma loads_reads_as: "reads_as t j \<Longrightarrow> loads t = Some j"
proof -
  assume t: "reads_as t j"
  have "scan_once (2 * length t + 2) t = Some (j, [])"
  proof -
    have "ends_value r \<Longrightarrow> 2 * length (t @ r) + 1 \<le> n \<Longrightarrow> scan_once n (t @ r) = Some (j, r)" for n r
      using t unfolding reads_as_def by blast
    from this [of "[]" "2 * length t + 2"] show ?thesis by (simp add: ends_value_def del: scan_once.simps)
  qed
  moreover have "skip_ws t = t" using reads_as_skip [OF t, of "[]"] by simp
  moreover have "\<not> startswith t [65279]" using t by (cases t) (auto simp: reads_as_def startswith_def)
  ultimately show ?thesis by (simp add: loads_def)
qed

subsection \<open>Numbers\<close>

lemma of_char_digit: "d < 10 \<Longrightarrow> of_char (digit_char d) = 48 + d"
  by (simp add: digit_char_def)

lemma show_nat_is_digit: "c \<in> set (lit (show_nat n)) \<Longrightarrow> is_digit c"
proof -
  assume "c \<in> set (lit (show_nat n))"
  then obtain d where d: "d \<in> set (show_nat n)" "c = of_char d" by (auto simp: lit_def)
  show "is_digit c" using show_nat_digits [OF d(1)] by (auto simp: d(2) is_digit_def digit_val_def Let_def split: if_splits)
qed

lemma digits_val_append: "digits_val (ds @ [48 + d]) = 10 * digits_val ds + int d"
  by (simp add: digits_val_def)

lemma digits_val_show: "digits_val (lit (show_nat n)) = int n"
proof (induction n rule: show_nat.induct)
  case (1 n)
  show ?case
  proof (cases "n < 10")
    case True
    then show ?thesis by (simp add: show_nat.simps [of n] of_char_digit digits_val_def)
  next
    case False
    have "digits_val (lit (show_nat n)) = 10 * int (n div 10) + int (n mod 10)"
      using 1 False by (simp add: show_nat.simps [of n] lit_append of_char_digit digits_val_append)
    then show ?thesis by presburger
  qed
qed

lemma show_nat_leading: "hd (lit (show_nat n)) = 48 \<Longrightarrow> n = 0"
proof (induction n rule: show_nat.induct)
  case (1 n)
  show ?case
  proof (cases "n < 10")
    case True
    with 1 show ?thesis by (simp add: show_nat.simps [of n] of_char_digit)
  next
    case False
    have "lit (show_nat (n div 10)) \<noteq> []" by (simp add: lit_def)
    then have "hd (lit (show_nat (n div 10))) = 48"
      using "1.prems" False by (simp add: show_nat.simps [of n] lit_append)
    then show ?thesis using 1 False by simp
  qed
qed

lemma digits_val_pad: "f < 10 ^ k \<Longrightarrow> digits_val (ds @ pad_digits k f) = digits_val ds * 10 ^ k + int f"
proof (induction k arbitrary: f)
  case (Suc k)
  have "f div 10 < 10 ^ k" using Suc.prems by (simp add: less_mult_imp_div_less mult.commute)
  then have "digits_val (ds @ pad_digits (Suc k) f) = 10 * (digits_val ds * 10 ^ k + int (f div 10)) + int (f mod 10)"
    using Suc.IH digits_val_append [of "ds @ pad_digits k (f div 10)" "f mod 10"] by simp
  also have "\<dots> = digits_val ds * 10 ^ Suc k + (10 * int (f div 10) + int (f mod 10))" by (simp add: algebra_simps)
  also have "10 * int (f div 10) + int (f mod 10) = int f" by presburger
  finally show ?case .
qed simp

lemma pad_digits_simps: "length (pad_digits k f) = k" "c \<in> set (pad_digits k f) \<Longrightarrow> is_digit c"
  by (induction k arbitrary: f) (auto simp: is_digit_def)

lemma trim_zeros_spec:
  "0 < k \<Longrightarrow> f < 10 ^ k \<Longrightarrow> trim_zeros k f = (k', f') \<Longrightarrow> 0 < k' \<and> k' \<le> k \<and> f' < 10 ^ k' \<and> f = f' * 10 ^ (k - k')"
proof (induction k arbitrary: f)
  case (Suc k)
  show ?case
  proof (cases "k = 0 \<or> f mod 10 \<noteq> 0")
    case True
    with Suc.prems show ?thesis by (auto split: if_splits)
  next
    case False
    have "f div 10 < 10 ^ k" using Suc.prems(2) by (simp add: less_mult_imp_div_less mult.commute)
    with Suc False have ih: "0 < k' \<and> k' \<le> k \<and> f' < 10 ^ k' \<and> f div 10 = f' * 10 ^ (k - k')" by simp
    have "f = 10 * (f div 10)" using False by presburger
    also have "\<dots> = f' * 10 ^ (Suc k - k')" using ih by (simp add: Suc_diff_le)
    finally show ?thesis using ih by simp
  qed
qed simp

lemma takeWhile_digits:
  assumes "\<forall>c \<in> set ds. is_digit c" and "r = [] \<or> \<not> is_digit (hd r)"
  shows "takeWhile is_digit (ds @ r) = ds" "dropWhile is_digit (ds @ r) = r"
proof -
  have "takeWhile is_digit r = []" "dropWhile is_digit r = r" using assms(2) by (cases r; simp)+
  then show "takeWhile is_digit (ds @ r) = ds" "dropWhile is_digit (ds @ r) = r" using assms(1) by simp_all
qed

lemma not_literal:
  assumes "is_digit c \<or> c = 45 \<and> d # t = r \<and> is_digit d"
  shows "scan_literal literals (c # r) = scan_number (c # r)"
  using assms by (auto simp: literals_def startswith_def is_digit_def)

lemma ends_value_digit: "ends_value r \<Longrightarrow> r = [] \<or> \<not> is_digit (hd r)"
  by (cases r) (auto simp: ends_value_def is_digit_def)

lemma ends_value_scan: "ends_value r \<Longrightarrow> scan_fraction r = ([], r)" "ends_value r \<Longrightarrow> scan_exponent r = (None, r)"
  by (cases r; auto simp: ends_value_def scan_fraction_def scan_exponent_def Let_def split: list.splits)+

text \<open>An optional sign, the digits of a number and what follows them.\<close>

lemma scan_signed:
  assumes "s = (if neg then [45] else []) @ lit (show_nat a) @ q" and "q = [] \<or> \<not> is_digit (hd q)"
    and "scan_fraction q = (fp, r)" and "scan_exponent r = (None, r)"
  shows "scan_literal literals s = Some (if fp = [] then JInt ((if neg then - 1 else 1) * int a)
    else JFloat ((if neg then - 1 else 1) * digits_val (lit (show_nat a) @ fp)) (- int (length fp)), r)"
proof -
  obtain d ds where d: "lit (show_nat a) = d # ds" by (cases "lit (show_nat a)") (auto simp: lit_def)
  have dig: "is_digit d" using show_nat_is_digit [of d a] d by simp
  have not45: "d \<noteq> 45" using dig by (simp add: is_digit_def)
  have lit: "scan_literal literals s = scan_number s"
    using dig by (cases neg) (auto simp: assms(1) d intro: not_literal)
  have tw: "takeWhile is_digit (d # ds @ q) = d # ds" "dropWhile is_digit (d # ds @ q) = q"
    using takeWhile_digits [OF _ assms(2), of "d # ds"] show_nat_is_digit [of _ a] d by auto
  have zero: "ds = []" if "d = 48"
    using show_nat_leading [of a] that d by (simp add: show_nat.simps [of 0])
  have ip: "(if d = 48 then ([48], ds @ q) else (takeWhile is_digit (d # ds @ q), dropWhile is_digit (d # ds @ q))) = (d # ds, q)"
    using zero unfolding tw by auto
  have val: "digits_val (d # ds) = int a" using digits_val_show [of a] d by simp
  show ?thesis unfolding lit
    using dig not45 ip assms(3,4) val
    by (cases neg) (simp_all add: assms(1) d scan_number_def Let_def)
qed

lemma reads_as_literal:
  assumes "t \<noteq> []" and "is_digit (hd t) \<or> hd t = 45" and "\<And>r. ends_value r \<Longrightarrow> scan_literal literals (t @ r) = Some (j, r)"
  shows "reads_as t j"
  unfolding reads_as_def
proof (intro conjI allI impI)
  obtain c s where t: "t = c # s" using assms(1) by (cases t) auto
  then show "t \<noteq> []" "\<not> json_space (hd t)" "hd t \<noteq> 65279" using assms(2) by (auto simp: json_space_def is_digit_def)
  fix n r assume r: "ends_value r" "2 * length (t @ r) + 1 \<le> n"
  obtain m where n: "n = Suc m" using r(2) by (cases n) auto
  have "c \<noteq> 34" "c \<noteq> 123" "c \<noteq> 91" using assms(2) t by (auto simp: is_digit_def)
  then show "scan_once n (t @ r) = Some (j, r)" using assms(3) [OF r(1)] by (simp add: n t)
qed

lemma sign_head: "(if neg then [45] else []) @ lit (show_nat a) @ q \<noteq> []"
  "is_digit (hd ((if neg then [45] else []) @ lit (show_nat a) @ q)) \<or> hd ((if neg then [45] else []) @ lit (show_nat a) @ q) = 45"
proof -
  obtain d ds where d: "lit (show_nat a) = d # ds" by (cases "lit (show_nat a)") (auto simp: lit_def)
  then show "(if neg then [45] else []) @ lit (show_nat a) @ q \<noteq> []" by simp
  show "is_digit (hd ((if neg then [45] else []) @ lit (show_nat a) @ q)) \<or> hd ((if neg then [45] else []) @ lit (show_nat a) @ q) = 45"
    using show_nat_is_digit [of d a] d by simp
qed

lemma reads_as_int: "reads_as (dumps_int i) (JInt i)"
proof (rule reads_as_literal)
  show "dumps_int i \<noteq> []" "is_digit (hd (dumps_int i)) \<or> hd (dumps_int i) = 45"
    using sign_head [of "i < 0" "nat \<bar>i\<bar>" "[]"] by (simp_all add: dumps_int_def)
  fix r assume r: "ends_value r"
  show "scan_literal literals (dumps_int i @ r) = Some (JInt i, r)"
    using scan_signed [of "dumps_int i @ r" "i < 0" "nat \<bar>i\<bar>" r "[]" r] ends_value_digit [OF r] ends_value_scan [OF r]
    by (simp add: dumps_int_def)
qed

lemma reads_as_decimal:
  assumes "0 < p"
  shows "\<exists>j. reads_as (dumps_decimal p x) j \<and> decimal_of p j = Some x"
proof -
  define a where "a = nat \<bar>x\<bar>"
  obtain k f where kf: "trim_zeros p (a mod 10 ^ p) = (k, f)" by fastforce
  have sp: "0 < k" "k \<le> p" "f < 10 ^ k" "a mod 10 ^ p = f * 10 ^ (p - k)"
    using trim_zeros_spec [OF assms _ kf] by simp_all
  let ?ip = "lit (show_nat (a div 10 ^ p))"
  define m where "m = digits_val (?ip @ pad_digits k f)"
  have d: "dumps_decimal p x = (if x < 0 then [45] else []) @ ?ip @ (46 # pad_digits k f)"
    by (simp add: dumps_decimal_def Let_def a_def [symmetric] kf)
  have m: "m * 10 ^ (p - k) = int a"
  proof -
    have "m = int (a div 10 ^ p) * 10 ^ k + int f" unfolding m_def by (simp add: digits_val_pad [OF sp(3)] digits_val_show)
    then have "m * 10 ^ (p - k) = int (a div 10 ^ p) * (10 ^ k * 10 ^ (p - k)) + int (f * 10 ^ (p - k))" by (simp add: algebra_simps)
    also have "(10 :: int) ^ k * 10 ^ (p - k) = 10 ^ p" using sp(2) by (simp add: power_add [symmetric])
    also have "int (a div 10 ^ p) * 10 ^ p + int (f * 10 ^ (p - k)) = int (a div 10 ^ p * 10 ^ p + a mod 10 ^ p)"
      unfolding sp(4) by simp
    also have "a div 10 ^ p * 10 ^ p + a mod 10 ^ p = a" by (rule div_mult_mod_eq)
    finally show ?thesis .
  qed
  let ?j = "JFloat ((if x < 0 then - 1 else 1) * m) (- int k)"
  have "reads_as (dumps_decimal p x) ?j"
  proof (rule reads_as_literal)
    show "dumps_decimal p x \<noteq> []" "is_digit (hd (dumps_decimal p x)) \<or> hd (dumps_decimal p x) = 45"
      unfolding d by (rule sign_head)+
    fix r assume r: "ends_value r"
    have tw: "takeWhile is_digit (pad_digits k f @ r) = pad_digits k f" "dropWhile is_digit (pad_digits k f @ r) = r"
      using takeWhile_digits [OF _ ends_value_digit [OF r], of "pad_digits k f"] pad_digits_simps(2) by blast+
    have ne: "pad_digits k f \<noteq> []" using sp(1) pad_digits_simps(1) [of k f] by auto
    have fr: "scan_fraction (46 # pad_digits k f @ r) = (pad_digits k f, r)" using tw ne by (simp add: scan_fraction_def)
    have q: "46 # pad_digits k f @ r = [] \<or> \<not> is_digit (hd (46 # pad_digits k f @ r))" by (simp add: is_digit_def)
    have s: "dumps_decimal p x @ r = (if x < 0 then [45] else []) @ ?ip @ (46 # pad_digits k f @ r)" by (simp add: d)
    show "scan_literal literals (dumps_decimal p x @ r) = Some (?j, r)"
      using scan_signed [OF s q fr ends_value_scan(2) [OF r]] ne by (simp add: m_def pad_digits_simps(1))
  qed
  moreover have "decimal_of p ?j = Some x"
  proof -
    have "nat (int p + - int k) = p - k" using sp(2) by simp
    then have "decimal_of p ?j = Some ((if x < 0 then - 1 else 1) * m * 10 ^ (p - k))" using sp(2) by (simp add: decimal_of_def)
    also have "(if x < 0 then - 1 else 1) * m * 10 ^ (p - k) = (if x < 0 then - 1 else 1) * int a" using m by simp
    also have "\<dots> = x" by (simp add: a_def)
    finally show ?thesis .
  qed
  ultimately show ?thesis by blast
qed

subsection \<open>Objects\<close>

lemma scan_member:
  assumes "scalars k" and "reads_as t j" and "ends_value q" and "2 * length (dumps_str k @ [58, 32] @ t @ q) + 2 \<le> n"
  shows "\<exists>m. n = Suc m \<and> 2 * length (t @ q) + 1 \<le> m \<and>
    scan_members n acc (dumps_str k @ [58, 32] @ t @ q) =
      (case skip_ws q of [] \<Rightarrow> None | e # r \<Rightarrow> if e = 44 then scan_members m (dict_set k j acc) (skip_ws r)
         else if e = 125 then Some (JObj (dict_set k j acc), r) else None)"
proof -
  obtain m where m: "n = Suc m" using assms(4) by (cases n) auto
  have fuel: "2 * length (t @ q) + 1 \<le> m" using assms(4) m by (simp add: dumps_str_def)
  have val: "scan_once m (t @ q) = Some (j, q)" using assms(2,3) fuel unfolding reads_as_def by blast
  have ws: "skip_ws (32 # t @ q) = t @ q" using reads_as_skip [OF assms(2), of q] by (simp add: json_space_def)
  have str: "scanstring (concat (map esc k) @ 34 # 58 # 32 # t @ q) = Some (k, 58 # 32 # t @ q)"
    by (rule scanstring_dumps [OF assms(1)])
  have "scan_members n acc (dumps_str k @ [58, 32] @ t @ q) =
      (case skip_ws q of [] \<Rightarrow> None | e # r \<Rightarrow> if e = 44 then scan_members m (dict_set k j acc) (skip_ws r)
         else if e = 125 then Some (JObj (dict_set k j acc), r) else None)"
    using str ws val by (simp add: m dumps_str_def json_space_def)
  with m fuel show ?thesis by blast
qed

lemma dumps_str_head: "skip_ws (dumps_str k @ r) = dumps_str k @ r"
  by (simp add: dumps_str_def json_space_def)

lemma scan_members_dumps:
  assumes "ms \<noteq> []" and "\<forall>(k, t, j) \<in> set ms. scalars k \<and> reads_as t j"
    and "2 * length (dumps_members (map (\<lambda>(k, t, j). (k, t)) ms) @ 125 # r) + 2 \<le> n"
  shows "scan_members n acc (dumps_members (map (\<lambda>(k, t, j). (k, t)) ms) @ 125 # r) =
    Some (JObj (fold (\<lambda>(k, t, j). dict_set k j) ms acc), r)"
  using assms
proof (induction ms arbitrary: acc n)
  case (Cons x xs)
  obtain k t j where x: "x = (k, t, j)" by (cases x)
  have kt: "scalars k" "reads_as t j" using Cons.prems(2) x by auto
  show ?case
  proof (cases xs)
    case Nil
    have q: "ends_value (125 # r)" by (simp add: ends_value_def)
    have l: "2 * length (dumps_str k @ [58, 32] @ t @ (125 # r)) + 2 \<le> n" using Cons.prems(3) by (simp add: x Nil)
    obtain m where "scan_members n acc (dumps_str k @ [58, 32] @ t @ (125 # r)) = Some (JObj (dict_set k j acc), r)"
      using scan_member [OF kt q l, of acc] by (auto simp: json_space_def simp del: scan_members.simps)
    then show ?thesis by (simp add: x Nil)
  next
    case c: (Cons y ys)
    define rest where "rest = dumps_members (map (\<lambda>(k, t, j). (k, t)) xs) @ 125 # r"
    have eqn: "dumps_members (map (\<lambda>(k, t, j). (k, t)) (x # xs)) @ 125 # r = dumps_str k @ [58, 32] @ t @ (44 # 32 # rest)"
      using c by (cases y) (simp add: x rest_def)
    have q: "ends_value (44 # 32 # rest)" by (simp add: ends_value_def)
    have l: "2 * length (dumps_str k @ [58, 32] @ t @ (44 # 32 # rest)) + 2 \<le> n" using Cons.prems(3) unfolding eqn .
    have first: "skip_ws rest = rest"
    proof -
      obtain k' t' j' where y: "y = (k', t', j')" by (cases y)
      have "\<exists>u. rest = dumps_str k' @ u" unfolding rest_def c y by (cases ys) auto
      then show ?thesis using dumps_str_head by blast
    qed
    obtain m where m: "n = Suc m" "2 * length (t @ 44 # 32 # rest) + 1 \<le> m"
      "scan_members n acc (dumps_str k @ [58, 32] @ t @ (44 # 32 # rest)) = scan_members m (dict_set k j acc) rest"
      using scan_member [OF kt q l, of acc] first by (auto simp: json_space_def simp del: scan_members.simps)
    have "scan_members m (dict_set k j acc) rest = Some (JObj (fold (\<lambda>(k, t, j). dict_set k j) xs (dict_set k j acc)), r)"
      unfolding rest_def by (rule Cons.IH) (use c Cons.prems(2) m(2) in \<open>auto simp: rest_def\<close>)
    then show ?thesis unfolding eqn m(3) by (simp add: x)
  qed
qed simp

lemma fold_dict_set_fresh:
  "distinct (map fst ms) \<Longrightarrow> set (map fst ms) \<inter> set (dict_keys acc) = {} \<Longrightarrow>
     fold (\<lambda>(k, t, j). dict_set k j) ms acc = acc @ map (\<lambda>(k, t, j). (k, j)) ms"
  by (induction ms arbitrary: acc) (auto simp: dict_set_fresh)

text \<open>A dictionary whose values are read back is read back, its members in their order.\<close>

lemma reads_as_obj:
  assumes "\<forall>(k, t, j) \<in> set ms. scalars k \<and> reads_as t j" and "distinct (map fst ms)"
  shows "reads_as (dumps_obj (map (\<lambda>(k, t, j). (k, t)) ms)) (JObj (map (\<lambda>(k, t, j). (k, j)) ms))"
  unfolding reads_as_def
proof (intro conjI allI impI)
  let ?t = "dumps_obj (map (\<lambda>(k, t, j). (k, t)) ms)"
  show "?t \<noteq> []" "\<not> json_space (hd ?t)" "hd ?t \<noteq> 65279" by (simp_all add: dumps_obj_def json_space_def)
  fix n r assume r: "ends_value r" "2 * length (?t @ r) + 1 \<le> n"
  obtain m where n: "n = Suc m" using r(2) by (cases n) auto
  show "scan_once n (?t @ r) = Some (JObj (map (\<lambda>(k, t, j). (k, j)) ms), r)"
  proof (cases ms)
    case Nil
    then show ?thesis by (simp add: n dumps_obj_def json_space_def)
  next
    case (Cons x xs)
    let ?b = "dumps_members (map (\<lambda>(k, t, j). (k, t)) ms) @ 125 # r"
    obtain k t j where x: "x = (k, t, j)" by (cases x)
    have "\<exists>u. ?b = dumps_str k @ u" unfolding Cons x by (cases xs) auto
    then have ws: "skip_ws ?b = ?b" and hd: "\<exists>u. ?b = 34 # u" using dumps_str_head by (auto simp: dumps_str_def)
    have "2 * length ?b + 2 \<le> m" using r(2) by (simp add: n dumps_obj_def)
    then have "scan_members m [] ?b = Some (JObj (fold (\<lambda>(k, t, j). dict_set k j) ms []), r)"
      using assms(1) Cons by (intro scan_members_dumps) auto
    also have "fold (\<lambda>(k, t, j). dict_set k j) ms [] = map (\<lambda>(k, t, j). (k, j)) ms"
      using fold_dict_set_fresh [OF assms(2), of "[]"] by simp
    finally have "scan_members m [] ?b = Some (JObj (map (\<lambda>(k, t, j). (k, j)) ms), r)" .
    then show ?thesis using ws hd by (auto simp: n dumps_obj_def)
  qed
qed

lemma of_char_small: "of_char c < (256 :: nat)"
  using nat_of_char_less_256 [of c] .

lemma scalars_lit: "scalars (lit s)"
proof -
  have "c < 256" if "c \<in> set (lit s)" for c using that of_char_small by (auto simp: lit_def)
  then have "\<forall>c \<in> set (lit s). c < 256" by blast
  then show ?thesis unfolding scalars_def high_surrogate_def low_surrogate_def by fastforce
qed

end
