(* ===== verification/Disk_Offload.thy ===== *)
theory Disk_Offload
  imports HiCache_Storage Json
begin

text \<open>
  The SSD tier, from
  \<^verbatim>\<open>sglang/srt/mem_cache/storage/disk_offload/disk_offload_backend.py\<close>: the class
  \<^verbatim>\<open>DiskOffloadBackend\<close> with its page index, its least-recently-used budget, its persistent
  index file and the batch operations. A value \<open>'v\<close> is a tensor; \<^verbatim>\<open>torch.save\<close> followed by
  \<^verbatim>\<open>torch.load\<close> gives the tensor back, so a page file holds the tensor itself (or nothing
  readable, when a write was cut short). Clock readings are integers in units of \<open>10\<^sup>-\<^sup>7\<close> seconds, the
  last digit that \<^verbatim>\<open>repr\<close> prints of a float of their magnitude; the code compares them and writes
  them to the index file.
\<close>

section \<open>State\<close>

record page_info =
  pi_size :: nat
  pi_last_access :: int

record 'v page_file =
  pf_payload :: "'v option"
  pf_size :: nat
  pf_mtime :: int

record ('p, 'v) disk =
  max_disk_bytes :: int
  index :: "(string, page_info) dict"
  total_bytes :: int
  dirty :: bool
  index_file_on_disk :: "ustr option"
  pages :: "(string, 'v page_file) dict"
  registered_pools :: "(string, ('p, 'v) host_pool) dict"

text \<open>
  What the environment decides during a call: the clock, the size of the file
  \<^verbatim>\<open>torch.save\<close> writes for a value, whether that write succeeds (a failed one leaves no file or
  a truncated one), whether writing \<^verbatim>\<open>index.json\<close> succeeds, which page files \<^verbatim>\<open>os.remove\<close> can
  remove, and whether \<^verbatim>\<open>torch.load\<close> succeeds on a file that is intact.
\<close>

record 'v disk_env =
  de_now :: int
  de_saved_size :: "'v \<Rightarrow> nat"
  de_save :: write_outcome
  de_flush_ok :: bool
  de_remove_ok :: "string \<Rightarrow> bool"
  de_load_ok :: bool

section \<open>Index persistence\<close>

definition page_path :: "string \<Rightarrow> string" where
  "page_path key = key @ ''.pt''"

definition rebuild_entry ::
  "string \<times> 'v page_file \<Rightarrow> (string, page_info) dict \<times> int \<Rightarrow> (string, page_info) dict \<times> int" where
  "rebuild_entry = (\<lambda>(name, f) (idx, tot).
     if \<not> endswith name ''.pt'' then (idx, tot)
     else (dict_set (take (length name - 3) name)
             \<lparr>pi_size = pf_size f, pi_last_access = pf_mtime f\<rparr> idx,
           tot + int (pf_size f)))"

text \<open>
  \<^verbatim>\<open>os.listdir\<close> names the entries of the page directory itself: a page whose key contains a
  slash lies in a sub-directory and is not among them.
\<close>

definition listdir :: "(string, 'v page_file) dict \<Rightarrow> (string, 'v page_file) dict" where
  "listdir d = filter (\<lambda>p. CHR ''/'' \<notin> set (fst p)) d"

definition rebuild_index :: "('p, 'v) disk \<Rightarrow> ('p, 'v) disk" where
  "rebuild_index s =
     (let (idx, tot) = fold rebuild_entry (listdir (pages s)) ([], 0)
      in s\<lparr>index := idx, total_bytes := tot\<rparr>)"

text \<open>
  The text \<^verbatim>\<open>json.dump\<close> writes, and what \<^verbatim>\<open>json.load\<close> makes of it. The class takes any object
  from the file into its fields; objects of another shape than the one it writes are outside the
  model, and \<open>load_index\<close> is \<^term>\<open>None\<close> on them.
\<close>

definition page_text :: "page_info \<Rightarrow> ustr" where
  "page_text i = dumps_obj [(lit ''size'', dumps_int (int (pi_size i))), (lit ''last_access'', dumps_decimal 7 (pi_last_access i))]"

definition index_text :: "(string, page_info) dict \<Rightarrow> int \<Rightarrow> ustr" where
  "index_text d tot = dumps_obj [(lit ''pages'', dumps_obj (map (\<lambda>(k, i). (lit k, page_text i)) d)), (lit ''total_bytes'', dumps_int tot)]"

definition page_of_json :: "ustr \<times> json \<Rightarrow> (string \<times> page_info) option" where
  "page_of_json = (\<lambda>(k, j). case j of
     JObj [(a, JInt n), (b, x)] \<Rightarrow>
       if a = lit ''size'' \<and> b = lit ''last_access'' \<and> 0 \<le> n \<and> list_all (\<lambda>c. c < 256) k
       then map_option (\<lambda>t. (map char_of k, \<lparr>pi_size = nat n, pi_last_access = t\<rparr>)) (decimal_of 7 x) else None
   | _ \<Rightarrow> None)"

definition index_of_json :: "(ustr \<times> json) list \<Rightarrow> ((string, page_info) dict \<times> int) option" where
  "index_of_json m =
     (case (case dict_get m (lit ''pages'') of None \<Rightarrow> Some [] | Some (JObj ps) \<Rightarrow> those (map page_of_json ps) | Some _ \<Rightarrow> None) of
        None \<Rightarrow> None
      | Some d \<Rightarrow> (case dict_get m (lit ''total_bytes'') of None \<Rightarrow> Some (d, 0) | Some (JInt t) \<Rightarrow> Some (d, t) | Some _ \<Rightarrow> None))"

definition load_index :: "('p, 'v) disk \<Rightarrow> ('p, 'v) disk res option" where
  "load_index s =
     (case index_file_on_disk s of
        None \<Rightarrow> Some (Inr (s\<lparr>index := [], total_bytes := 0\<rparr>))
      | Some content \<Rightarrow>
          (case loads content of
             None \<Rightarrow> Some (Inr (rebuild_index s))
           | Some (JObj m) \<Rightarrow> map_option (\<lambda>(d, t). Inr (s\<lparr>index := d, total_bytes := t\<rparr>)) (index_of_json m)
           | Some _ \<Rightarrow> Some (Inl AttributeError)))"

definition save_index :: "('p, 'v) disk \<Rightarrow> ('p, 'v) disk" where
  "save_index s = s\<lparr>index_file_on_disk := Some (index_text (index s) (total_bytes s))\<rparr>"

definition mark_dirty :: "('p, 'v) disk \<Rightarrow> ('p, 'v) disk" where
  "mark_dirty s = s\<lparr>dirty := True\<rparr>"

definition flush_index :: "bool \<Rightarrow> ('p, 'v) disk \<Rightarrow> unit res \<times> ('p, 'v) disk" where
  "flush_index ok s =
     (if dirty s
      then if ok then (Inr (), (save_index s)\<lparr>dirty := False\<rparr>) else (Inl OSError, s)
      else (Inr (), s))"

text \<open>
  The constructor: the limit comes from the extra configuration, then the environment variable,
  then the default. The configured value is any JSON value; a false one counts as absent, and
  \<^verbatim>\<open>int\<close> converts the others or raises. \<open>contents\<close> is what the directory holds from an earlier run.
\<close>

definition json_int :: "json \<Rightarrow> int res" where
  "json_int j = (case j of JInt i \<Rightarrow> Inr i | JBool b \<Rightarrow> Inr (if b then 1 else 0)
     | JFloat m e \<Rightarrow> Inr (if 0 \<le> e then m * 10 ^ nat e else sgn m * (\<bar>m\<bar> div 10 ^ nat (- e)))
     | JConst c \<Rightarrow> Inl (if c = lit ''NaN'' then ValueError else OverflowError)
     | JStr t \<Rightarrow> if list_all (\<lambda>c. c < 256) t then py_int (map char_of t) else Inl ValueError
     | _ \<Rightarrow> Inl TypeError)"

definition config_space_mb :: "json option \<Rightarrow> string option \<Rightarrow> int res" where
  "config_space_mb extra env =
     (let fallback = (case env of Some (c # cs) \<Rightarrow> py_int (c # cs) | _ \<Rightarrow> Inr 65536)
      in case extra of Some j \<Rightarrow> if truthy j then json_int j else fallback | None \<Rightarrow> fallback)"

definition disk_init ::
  "json option \<Rightarrow> string option \<Rightarrow> ustr option \<Rightarrow> (string, 'v page_file) dict \<Rightarrow> ('p, 'v) disk res option" where
  "disk_init extra env idx_file contents =
     (case config_space_mb extra env of
        Inl x \<Rightarrow> Some (Inl x)
      | Inr mb \<Rightarrow>
          load_index \<lparr>max_disk_bytes = mb * 1024 * 1024, index = [], total_bytes = 0, dirty = False,
            index_file_on_disk = idx_file, pages = contents, registered_pools = []\<rparr>)"

section \<open>Budget enforcement\<close>

text \<open>An error of \<^verbatim>\<open>os.remove\<close> is swallowed: the page leaves the index and its file stays.\<close>

definition evict_one :: "(string \<Rightarrow> bool) \<Rightarrow> string \<Rightarrow> ('p, 'v) disk \<Rightarrow> ('p, 'v) disk" where
  "evict_one removable key s =
     (case dict_get (index s) key of
        None \<Rightarrow> s
      | Some info \<Rightarrow>
          mark_dirty (s\<lparr>index := dict_pop key (index s),
                        total_bytes := total_bytes s - int (pi_size info),
                        pages := (if removable key then dict_pop (page_path key) (pages s) else pages s)\<rparr>))"

definition evictable :: "('p, 'v) disk \<Rightarrow> (int \<times> string) list" where
  "evictable s = sort_key fst (map (\<lambda>(k, v). (pi_last_access v, k)) (index s))"

fun evict_loop :: "(string \<Rightarrow> bool) \<Rightarrow> int \<Rightarrow> (int \<times> string) list \<Rightarrow> ('p, 'v) disk \<Rightarrow> ('p, 'v) disk" where
  "evict_loop removable target [] s = s"
| "evict_loop removable target ((ts, key) # rest) s =
     (if total_bytes s \<le> target then s else evict_loop removable target rest (evict_one removable key s))"

definition enforce_budget :: "(string \<Rightarrow> bool) \<Rightarrow> int \<Rightarrow> ('p, 'v) disk \<Rightarrow> ('p, 'v) disk" where
  "enforce_budget removable needed s =
     (if max_disk_bytes s \<le> 0 then s
      else let target = max_disk_bytes s - needed in
        if total_bytes s \<le> target then s else evict_loop removable target (evictable s) s)"

section \<open>Single-page operations\<close>

definition component_key :: "string \<Rightarrow> string \<Rightarrow> string" where
  "component_key key pool = (if pool = ''kv'' then key else key @ ''.'' @ pool)"

definition touch_access :: "int \<Rightarrow> string \<Rightarrow> ('p, 'v) disk \<Rightarrow> ('p, 'v) disk" where
  "touch_access now key s =
     (case dict_get (index s) key of
        None \<Rightarrow> s
      | Some info \<Rightarrow> mark_dirty (s\<lparr>index := dict_set key (info\<lparr>pi_last_access := now\<rparr>) (index s)\<rparr>))"

text \<open>\<^verbatim>\<open>get\<close> swallows every error of \<^verbatim>\<open>torch.load\<close>; \<open>ok\<close> says whether reading an intact file succeeds.\<close>

definition disk_get :: "bool \<Rightarrow> int \<Rightarrow> string \<Rightarrow> ('p, 'v) disk \<Rightarrow> 'v option \<times> ('p, 'v) disk" where
  "disk_get ok now key s =
     (case dict_get (pages s) (page_path key) of
        None \<Rightarrow> (None, s)
      | Some f \<Rightarrow>
          (case pf_payload f of
             None \<Rightarrow> (None, s)
           | Some data \<Rightarrow> if ok then (Some data, touch_access now key s) else (None, s)))"

definition disk_set :: "'v disk_env \<Rightarrow> string \<Rightarrow> 'v option \<Rightarrow> ('p, 'v) disk \<Rightarrow> bool res \<times> ('p, 'v) disk" where
  "disk_set e key value s =
     (case value of
        None \<Rightarrow> (Inr False, s)
      | Some v \<Rightarrow>
          if dict_has (index s) key
          then (case flush_index (de_flush_ok e) (touch_access (de_now e) key s) of
                  (Inl x, s1) \<Rightarrow> (Inl x, s1)
                | (Inr _, s1) \<Rightarrow> (Inr True, s1))
          else (case de_save e of
                  WriteFail None \<Rightarrow> (Inr False, s)
                | WriteFail (Some n) \<Rightarrow>
                    (Inr False, s\<lparr>pages := dict_set (page_path key)
                       \<lparr>pf_payload = None, pf_size = n, pf_mtime = de_now e\<rparr> (pages s)\<rparr>)
                | WriteOk \<Rightarrow>
                    (let sz = de_saved_size e v;
                         s1 = s\<lparr>pages := dict_set (page_path key)
                                \<lparr>pf_payload = Some v, pf_size = sz, pf_mtime = de_now e\<rparr> (pages s)\<rparr>;
                         s2 = enforce_budget (de_remove_ok e) (int sz) s1;
                         s3 = mark_dirty (s2\<lparr>
                                index := dict_set key
                                  \<lparr>pi_size = sz, pi_last_access = de_now e\<rparr> (index s2),
                                total_bytes := total_bytes s2 + int sz\<rparr>)
                     in case flush_index (de_flush_ok e) s3 of
                          (Inl x, s4) \<Rightarrow> (Inr False, s4)
                        | (Inr _, s4) \<Rightarrow> (Inr True, s4))))"

definition disk_exists :: "('p, 'v) disk \<Rightarrow> string \<Rightarrow> bool" where
  "disk_exists s key \<longleftrightarrow> dict_has (index s) key \<and> dict_has (pages s) (page_path key)"

section \<open>Batch operations\<close>

definition disk_batch_exists :: "('p, 'v) disk \<Rightarrow> string list \<Rightarrow> nat" where
  "disk_batch_exists s keys = batch_exists (disk_exists s) keys"

fun disk_batch_get :: "(string \<Rightarrow> bool) \<Rightarrow> (string \<Rightarrow> int) \<Rightarrow> string list \<Rightarrow> ('p, 'v) disk \<Rightarrow> 'v option list \<times> ('p, 'v) disk" where
  "disk_batch_get ok now [] s = ([], s)"
| "disk_batch_get ok now (k # ks) s =
     (let (v, s1) = disk_get (ok k) (now k) k s; (vs, s2) = disk_batch_get ok now ks s1 in (v # vs, s2))"

text \<open>
  The environment of each \<^verbatim>\<open>set\<close> call of a batch is looked up by the key that is stored;
  \<open>flush_ok\<close> belongs to the flush at the end of the batch.
\<close>

fun batch_set_loop ::
  "(string \<Rightarrow> 'v disk_env) \<Rightarrow> (string \<times> 'v option) list \<Rightarrow> bool \<Rightarrow> ('p, 'v) disk \<Rightarrow> bool res \<times> ('p, 'v) disk" where
  "batch_set_loop e [] ok s = (Inr ok, s)"
| "batch_set_loop e ((key, value) # rest) ok s =
     (case disk_set (e key) key value s of
        (Inl x, s1) \<Rightarrow> (Inl x, s1)
      | (Inr r, s1) \<Rightarrow> batch_set_loop e rest (r \<and> ok) s1)"

definition disk_batch_set ::
  "(string \<Rightarrow> 'v disk_env) \<Rightarrow> bool \<Rightarrow> string list \<Rightarrow> 'v option list option \<Rightarrow> ('p, 'v) disk
     \<Rightarrow> bool res \<times> ('p, 'v) disk" where
  "disk_batch_set e flush_ok keys values s =
     (case values of
        None \<Rightarrow> (Inr False, s)
      | Some vs \<Rightarrow>
          (case batch_set_loop e (zip keys vs) True s of
             (Inl x, s1) \<Rightarrow> (Inl x, s1)
           | (Inr ok, s1) \<Rightarrow>
               (case flush_index flush_ok s1 of
                  (Inl x, s2) \<Rightarrow> (Inl x, s2)
                | (Inr _, s2) \<Rightarrow> (Inr ok, s2))))"

definition disk_batch_exists_v2 ::
  "('p, 'v) disk \<Rightarrow> string list \<Rightarrow> pool_transfer list option \<Rightarrow> pool_transfer_result" where
  "disk_batch_exists_v2 s keys transfers =
     batch_exists_v2_with (\<lambda>i. disk_exists s (keys ! i))
       (\<lambda>i name. disk_exists s (component_key (keys ! i) name)) (length keys) transfers"

definition disk_pool_page_size :: "('p, 'v) disk \<Rightarrow> string \<Rightarrow> nat res" where
  "disk_pool_page_size s name =
     (case dict_get (registered_pools s) name of
        None \<Rightarrow> Inl KeyError | Some hp \<Rightarrow> Inr (pool_page_size hp))"

definition disk_write_page ::
  "(string \<Rightarrow> 'v disk_env) \<Rightarrow> string \<Rightarrow> string \<Rightarrow> nat \<Rightarrow> ('p, 'v) disk \<Rightarrow> bool res \<times> ('p, 'v) disk" where
  "disk_write_page e name key off s =
     (case dict_get (registered_pools s) name of
        None \<Rightarrow> (Inl KeyError, s)
      | Some hp \<Rightarrow>
          (case pool_get off hp of
             Inl x \<Rightarrow> (Inl x, s)
           | Inr page \<Rightarrow>
               (let storage_key = component_key key name in
                disk_set (e storage_key) storage_key (Some page) s)))"

definition disk_read_page ::
  "(string \<Rightarrow> 'v disk_env) \<Rightarrow> string \<Rightarrow> string \<Rightarrow> nat \<Rightarrow> ('p, 'v) disk \<Rightarrow> bool res \<times> ('p, 'v) disk" where
  "disk_read_page e name key off s =
     (case dict_get (registered_pools s) name of
        None \<Rightarrow> (Inl KeyError, s)
      | Some hp \<Rightarrow>
          (let storage_key = component_key key name in
           case disk_get (de_load_ok (e storage_key)) (de_now (e storage_key)) storage_key s of
             (None, s1) \<Rightarrow> (Inr False, s1)
           | (Some data, s1) \<Rightarrow>
               (case pool_set off data hp of
                  Inl x \<Rightarrow> (Inl x, s1)
                | Inr hp1 \<Rightarrow> (Inr True, s1\<lparr>registered_pools := dict_set name hp1 (registered_pools s1)\<rparr>))))"

definition disk_batch_io_v2 ::
  "(string \<Rightarrow> 'v disk_env) \<Rightarrow> bool \<Rightarrow> pool_transfer list \<Rightarrow> bool \<Rightarrow> ('p, 'v) disk
     \<Rightarrow> (string, bool list) dict res \<times> ('p, 'v) disk" where
  "disk_batch_io_v2 e flush_ok transfers write s =
     (case batch_io_v2 disk_pool_page_size
             (if write then disk_write_page e else disk_read_page e) transfers [] s of
        (Inl x, s1) \<Rightarrow> (Inl x, s1)
      | (Inr results, s1) \<Rightarrow>
          (case flush_index flush_ok s1 of
             (Inl x, s2) \<Rightarrow> (Inl x, s2)
           | (Inr _, s2) \<Rightarrow> (Inr results, s2)))"

definition disk_batch_get_v2 ::
  "(string \<Rightarrow> 'v disk_env) \<Rightarrow> bool \<Rightarrow> pool_transfer list \<Rightarrow> ('p, 'v) disk
     \<Rightarrow> (string, bool list) dict res \<times> ('p, 'v) disk" where
  "disk_batch_get_v2 e flush_ok transfers s = disk_batch_io_v2 e flush_ok transfers False s"

definition disk_batch_set_v2 ::
  "(string \<Rightarrow> 'v disk_env) \<Rightarrow> bool \<Rightarrow> pool_transfer list \<Rightarrow> ('p, 'v) disk
     \<Rightarrow> (string, bool list) dict res \<times> ('p, 'v) disk" where
  "disk_batch_set_v2 e flush_ok transfers s = disk_batch_io_v2 e flush_ok transfers True s"

definition disk_clear :: "(string \<Rightarrow> bool) \<Rightarrow> bool \<Rightarrow> ('p, 'v) disk \<Rightarrow> unit res \<times> ('p, 'v) disk" where
  "disk_clear removable flush_ok s = flush_index flush_ok (fold (evict_one removable) (dict_keys (index s)) s)"

section \<open>The accounting invariant\<close>

definition index_size :: "(string, page_info) dict \<Rightarrow> int" where
  "index_size d = (\<Sum>p\<leftarrow>d. int (pi_size (snd p)))"

text \<open>
  The index has one entry per page, \<^verbatim>\<open>_total_bytes\<close> is the sum of their sizes, and every
  indexed page has a readable file of the recorded size.
\<close>

definition page_backed :: "(string, 'v page_file) dict \<Rightarrow> string \<Rightarrow> page_info \<Rightarrow> bool" where
  "page_backed ps key info \<longleftrightarrow>
     (case dict_get ps (page_path key) of
        None \<Rightarrow> False
      | Some f \<Rightarrow> pf_payload f \<noteq> None \<and> pf_size f = pi_size info)"

definition disk_inv :: "('p, 'v) disk \<Rightarrow> bool" where
  "disk_inv s \<longleftrightarrow>
     dict_ok (index s) \<and> total_bytes s = index_size (index s) \<and>
     (\<forall>k info. dict_get (index s) k = Some info \<longrightarrow> page_backed (pages s) k info)"

lemma page_path_inj [simp]: "page_path k = page_path k' \<longleftrightarrow> k = k'"
  by (simp add: page_path_def)

lemma index_size_nonneg [simp]: "0 \<le> index_size d"
  by (auto simp: index_size_def intro!: sum_list_nonneg)

lemma index_size_simps [simp]:
  "index_size [] = 0"
  "index_size ((k, i) # d) = int (pi_size i) + index_size d"
  "index_size (d @ d') = index_size d + index_size d'"
  by (simp_all add: index_size_def)

lemma index_size_pop:
  "dict_ok d \<Longrightarrow> dict_get d k = Some info \<Longrightarrow> index_size (dict_pop k d) = index_size d - int (pi_size info)"
proof (induction d)
  case (Cons p d)
  obtain a b where p: "p = (a, b)" by (cases p)
  show ?case
  proof (cases "a = k")
    case True
    with Cons.prems p have "dict_pop k d = d" by (auto intro!: dict_pop_fresh)
    with True Cons.prems p show ?thesis by (simp add: dict_pop_def)
  next
    case False
    with Cons p show ?thesis by (simp add: dict_pop_def)
  qed
qed simp

lemma index_size_set_same:
  "dict_get d k = Some info \<Longrightarrow> pi_size info' = pi_size info \<Longrightarrow> index_size (dict_set k info' d) = index_size d"
  by (induction d) (auto split: if_splits)

lemma index_size_set_fresh:
  "\<not> dict_has d k \<Longrightarrow> index_size (dict_set k info d) = index_size d + int (pi_size info)"
  by (simp add: dict_has_def dict_set_fresh)

lemma evict_one_fields [simp]:
  "max_disk_bytes (evict_one rm k s) = max_disk_bytes s"
  "index (evict_one rm k s) = dict_pop k (index s)"
  "registered_pools (evict_one rm k s) = registered_pools s"
  "index_file_on_disk (evict_one rm k s) = index_file_on_disk s"
  by (auto simp: evict_one_def mark_dirty_def dict_pop_fresh dict_get_def map_of_eq_None_iff split: option.split)

lemma evict_one_inv: "disk_inv s \<Longrightarrow> disk_inv (evict_one rm k s)"
  by (cases "dict_get (index s) k")
    (auto simp: disk_inv_def evict_one_def mark_dirty_def index_size_pop page_backed_def)

lemma evict_one_keeps_page:
  "k' \<noteq> k \<Longrightarrow> dict_get (pages (evict_one rm k s)) (page_path k') = dict_get (pages s) (page_path k')"
  by (auto simp: evict_one_def mark_dirty_def split: option.split)

lemma touch_access_fields [simp]:
  "max_disk_bytes (touch_access t k s) = max_disk_bytes s"
  "total_bytes (touch_access t k s) = total_bytes s"
  "pages (touch_access t k s) = pages s"
  "registered_pools (touch_access t k s) = registered_pools s"
  "dict_keys (index (touch_access t k s)) = dict_keys (index s)"
  by (auto simp: touch_access_def mark_dirty_def dict_keys_set dict_get_def map_of_eq_None_iff
      split: option.split dest: map_of_SomeD)

lemma page_backed_size: "pi_size i = pi_size i' \<Longrightarrow> page_backed ps k i \<longleftrightarrow> page_backed ps k i'"
  by (simp add: page_backed_def split: option.split)

lemma touch_access_inv: "disk_inv s \<Longrightarrow> disk_inv (touch_access t k s)"
proof (cases "dict_get (index s) k")
  case (Some info)
  assume "disk_inv s"
  with Some page_backed_size [of "info\<lparr>pi_last_access := t\<rparr>" info "pages s" k] show ?thesis
    by (auto simp: disk_inv_def touch_access_def mark_dirty_def index_size_set_same split: if_splits)
qed (simp add: touch_access_def)

lemma flush_index_fields [simp]:
  "index (snd (flush_index ok s)) = index s"
  "pages (snd (flush_index ok s)) = pages s"
  "total_bytes (snd (flush_index ok s)) = total_bytes s"
  "max_disk_bytes (snd (flush_index ok s)) = max_disk_bytes s"
  "registered_pools (snd (flush_index ok s)) = registered_pools s"
  by (auto simp: flush_index_def save_index_def)

lemma flush_index_inv: "disk_inv s \<Longrightarrow> disk_inv (snd (flush_index ok s))"
  by (simp add: disk_inv_def)

lemma disk_inv_pages_fresh:
  "disk_inv s \<Longrightarrow> \<not> dict_has (index s) k \<Longrightarrow> disk_inv (s\<lparr>pages := dict_set (page_path k) f (pages s)\<rparr>)"
  by (auto simp: disk_inv_def page_backed_def dict_has_iff)

subsection \<open>Eviction is a least-recently-used prefix\<close>

lemma fold_evict_one_index:
  "index (fold (evict_one rm) ks s) = filter (\<lambda>p. fst p \<notin> set ks) (index s)"
  by (induction ks arbitrary: s) (auto simp: dict_pop_def intro!: filter_cong)

lemma fold_evict_one_inv: "disk_inv s \<Longrightarrow> disk_inv (fold (evict_one rm) ks s)"
  by (induction ks arbitrary: s) (auto intro: evict_one_inv)

lemma fold_evict_one_max [simp]: "max_disk_bytes (fold (evict_one rm) ks s) = max_disk_bytes s"
  by (induction ks arbitrary: s) auto

lemma fold_evict_one_keeps_page:
  "k \<notin> set ks \<Longrightarrow> dict_get (pages (fold (evict_one rm) ks s)) (page_path k) = dict_get (pages s) (page_path k)"
  by (induction ks arbitrary: s) (auto simp: evict_one_keeps_page)

text \<open>
  The loop evicts a prefix of the sorted list, stops at the first prefix that fits, and runs to
  the end only if no prefix fits.
\<close>

lemma evict_loop_prefix:
  "\<exists>n \<le> length xs. evict_loop rm target xs s = fold (evict_one rm) (map snd (take n xs)) s \<and>
     (n < length xs \<longrightarrow> total_bytes (evict_loop rm target xs s) \<le> target) \<and>
     (\<forall>m < n. target < total_bytes (fold (evict_one rm) (map snd (take m xs)) s))"
proof (induction xs arbitrary: s)
  case (Cons x xs)
  obtain ts key where x: "x = (ts, key)" by (cases x)
  show ?case
  proof (cases "total_bytes s \<le> target")
    case True
    with x show ?thesis by (intro exI [of _ 0]) simp
  next
    case False
    from Cons.IH [of "evict_one rm key s"] obtain n where n: "n \<le> length xs"
      "evict_loop rm target xs (evict_one rm key s) = fold (evict_one rm) (map snd (take n xs)) (evict_one rm key s)"
      "n < length xs \<longrightarrow> total_bytes (evict_loop rm target xs (evict_one rm key s)) \<le> target"
      "\<forall>m < n. target < total_bytes (fold (evict_one rm) (map snd (take m xs)) (evict_one rm key s))"
      by blast
    have "target < total_bytes (fold (evict_one rm) (map snd (take m (x # xs))) s)" if "m < Suc n" for m
      using that n(4) False x by (cases m) auto
    with n x False show ?thesis by (intro exI [of _ "Suc n"]) auto
  qed
qed simp

lemma evictable_sorted: "sorted (map fst (evictable s))"
  by (simp add: evictable_def)

lemma evictable_keys: "set (map snd (evictable s)) = set (dict_keys (index s))"
  by (force simp: evictable_def)

lemma evictable_iff:
  "dict_ok (index s) \<Longrightarrow> (t, k) \<in> set (evictable s) \<longleftrightarrow> (\<exists>i. dict_get (index s) k = Some i \<and> t = pi_last_access i)"
  by (force simp: evictable_def dict_get_iff_in)

text \<open>A key in a prefix of the sorted list was used no later than a key outside it.\<close>

lemma evicted_before_kept:
  assumes "disk_inv s" and "k \<in> set (map snd (take m (evictable s)))"
    and "k' \<notin> set (map snd (take m (evictable s)))"
    and "dict_get (index s) k = Some i" and "dict_get (index s) k' = Some i'"
  shows "pi_last_access i \<le> pi_last_access i'"
proof -
  let ?xs = "evictable s"
  have ok: "dict_ok (index s)" using assms(1) by (simp add: disk_inv_def)
  from assms(2) obtain t where t: "(t, k) \<in> set (take m ?xs)" by auto
  then have "(t, k) \<in> set ?xs" by (rule in_set_takeD)
  with assms(4) have ti: "t = pi_last_access i" using evictable_iff [OF ok, of t k] by simp
  have "(pi_last_access i', k') \<in> set ?xs" using evictable_iff [OF ok] assms(5) by blast
  then have "(pi_last_access i', k') \<in> set (take m ?xs) \<union> set (drop m ?xs)"
    by (simp flip: set_append)
  with assms(3) have "(pi_last_access i', k') \<in> set (drop m ?xs)" by force
  then have "pi_last_access i' \<in> set (map fst (drop m ?xs))" by force
  moreover have "pi_last_access i \<in> set (map fst (take m ?xs))" using t ti by force
  moreover have "sorted (map fst (take m ?xs) @ map fst (drop m ?xs))"
    using evictable_sorted [of s] by (simp flip: map_append)
  ultimately show ?thesis unfolding sorted_append by blast
qed

lemma evict_loop_inv: "disk_inv s \<Longrightarrow> disk_inv (evict_loop rm target xs s)"
  by (metis evict_loop_prefix fold_evict_one_inv)

lemma enforce_budget_inv: "disk_inv s \<Longrightarrow> disk_inv (enforce_budget rm n s)"
  by (simp add: enforce_budget_def Let_def evict_loop_inv)

lemma enforce_budget_max [simp]: "max_disk_bytes (enforce_budget rm n s) = max_disk_bytes s"
  by (simp add: enforce_budget_def Let_def) (metis evict_loop_prefix fold_evict_one_max)

lemma enforce_budget_as_fold:
  "\<exists>ks. set ks \<subseteq> set (dict_keys (index s)) \<and> enforce_budget rm n s = fold (evict_one rm) ks s"
proof (cases "max_disk_bytes s \<le> 0 \<or> total_bytes s \<le> max_disk_bytes s - n")
  case True
  then have "enforce_budget rm n s = fold (evict_one rm) [] s" by (auto simp: enforce_budget_def)
  then show ?thesis by (intro exI [of _ "[]"]) simp
next
  case False
  then have e: "enforce_budget rm n s = evict_loop rm (max_disk_bytes s - n) (evictable s) s"
    by (simp add: enforce_budget_def)
  obtain m where "evict_loop rm (max_disk_bytes s - n) (evictable s) s =
      fold (evict_one rm) (map snd (take m (evictable s))) s"
    using evict_loop_prefix by blast
  moreover have "set (map snd (take m (evictable s))) \<subseteq> set (dict_keys (index s))"
    using set_take_subset [of m "map snd (evictable s)"] unfolding take_map evictable_keys .
  ultimately show ?thesis using e by metis
qed

lemma enforce_budget_fits:
  assumes "disk_inv s" and "0 < max_disk_bytes s"
  shows "total_bytes (enforce_budget rm n s) \<le> max_disk_bytes s - n \<or> index (enforce_budget rm n s) = []"
proof (cases "total_bytes s \<le> max_disk_bytes s - n")
  case True
  with assms show ?thesis by (simp add: enforce_budget_def)
next
  case False
  let ?t = "max_disk_bytes s - n" and ?xs = "evictable s"
  have e: "enforce_budget rm n s = evict_loop rm ?t ?xs s"
    using False assms by (simp add: enforce_budget_def)
  obtain m where m: "m \<le> length ?xs" "evict_loop rm ?t ?xs s = fold (evict_one rm) (map snd (take m ?xs)) s"
    "m < length ?xs \<longrightarrow> total_bytes (evict_loop rm ?t ?xs s) \<le> ?t"
    using evict_loop_prefix [of ?xs rm ?t s] by blast
  show ?thesis
  proof (cases "m < length ?xs")
    case True
    with m e show ?thesis by simp
  next
    case False
    with m have "index (enforce_budget rm n s) = filter (\<lambda>p. fst p \<notin> set (map snd ?xs)) (index s)"
      by (simp add: e fold_evict_one_index)
    also have "\<dots> = []"
      unfolding evictable_keys by (simp add: filter_empty_conv)
    finally show ?thesis by simp
  qed
qed

subsection \<open>The operations keep the invariant\<close>

lemma disk_inv_store:
  assumes "disk_inv s" and "\<not> dict_has (index s) k" and "page_backed (pages s) k info"
  shows "disk_inv (s\<lparr>index := dict_set k info (index s),
      total_bytes := total_bytes s + int (pi_size info)\<rparr>)"
  using assms by (auto simp: disk_inv_def index_size_set_fresh split: if_splits)

lemma disk_inv_mark_dirty [simp]: "disk_inv (mark_dirty s) = disk_inv s"
  by (simp add: disk_inv_def mark_dirty_def)

lemma enforce_budget_keeps_page:
  "\<not> dict_has (index s) k \<Longrightarrow>
     dict_get (pages (enforce_budget rm n s)) (page_path k) = dict_get (pages s) (page_path k)"
  using enforce_budget_as_fold [of s rm n] fold_evict_one_keeps_page
  by (metis dict_has_def subset_code(1))

lemma enforce_budget_index:
  "\<not> dict_has (index s) k \<Longrightarrow> \<not> dict_has (index (enforce_budget rm n s)) k"
  using enforce_budget_as_fold [of s rm n] by (auto simp: dict_has_def fold_evict_one_index)

text \<open>The state of \<^verbatim>\<open>set\<close> on a new key, just before the index is flushed.\<close>

definition stored_state :: "'v disk_env \<Rightarrow> string \<Rightarrow> 'v \<Rightarrow> ('p, 'v) disk \<Rightarrow> ('p, 'v) disk" where
  "stored_state e key v s =
     (let sz = de_saved_size e v;
          s1 = s\<lparr>pages := dict_set (page_path key)
                 \<lparr>pf_payload = Some v, pf_size = sz, pf_mtime = de_now e\<rparr> (pages s)\<rparr>;
          s2 = enforce_budget (de_remove_ok e) (int sz) s1
      in mark_dirty (s2\<lparr>index := dict_set key \<lparr>pi_size = sz, pi_last_access = de_now e\<rparr> (index s2),
                        total_bytes := total_bytes s2 + int sz\<rparr>))"

lemma stored_state_inv:
  assumes "disk_inv s" and "\<not> dict_has (index s) k"
  shows "disk_inv (stored_state e k v s)"
proof -
  let ?sz = "de_saved_size e v"
  let ?f = "\<lparr>pf_payload = Some v, pf_size = ?sz, pf_mtime = de_now e\<rparr>"
  let ?s1 = "s\<lparr>pages := dict_set (page_path k) ?f (pages s)\<rparr>"
  let ?s2 = "enforce_budget (de_remove_ok e) (int ?sz) ?s1"
  have "disk_inv ?s2" using assms by (intro enforce_budget_inv disk_inv_pages_fresh)
  moreover have "\<not> dict_has (index ?s2) k" using assms(2) by (intro enforce_budget_index) simp
  moreover have "page_backed (pages ?s2) k \<lparr>pi_size = ?sz, pi_last_access = de_now e\<rparr>"
    using assms(2) by (simp add: page_backed_def enforce_budget_keeps_page)
  ultimately have "disk_inv (?s2\<lparr>index := dict_set k \<lparr>pi_size = ?sz, pi_last_access = de_now e\<rparr> (index ?s2),
      total_bytes := total_bytes ?s2 + int (pi_size \<lparr>pi_size = ?sz, pi_last_access = de_now e\<rparr>)\<rparr>)"
    by (rule disk_inv_store)
  then show ?thesis by (simp add: stored_state_def Let_def)
qed

lemma disk_set_new:
  assumes "\<not> dict_has (index s) k"
  shows "disk_set e k (Some v) s =
     (case de_save e of
        WriteFail None \<Rightarrow> (Inr False, s)
      | WriteFail (Some n) \<Rightarrow>
          (Inr False, s\<lparr>pages := dict_set (page_path k)
             \<lparr>pf_payload = None, pf_size = n, pf_mtime = de_now e\<rparr> (pages s)\<rparr>)
      | WriteOk \<Rightarrow> (Inr (de_flush_ok e), snd (flush_index (de_flush_ok e) (stored_state e k v s))))"
  using assms
  by (simp add: disk_set_def stored_state_def Let_def flush_index_def mark_dirty_def
      split: write_outcome.split option.split)

lemma disk_set_known:
  assumes "dict_has (index s) k"
  shows "disk_set e k (Some v) s =
     (let s1 = touch_access (de_now e) k s in
      (if dirty s1 \<and> \<not> de_flush_ok e then Inl OSError else Inr True, snd (flush_index (de_flush_ok e) s1)))"
  using assms by (simp add: disk_set_def Let_def flush_index_def)

lemma disk_set_inv: "disk_inv s \<Longrightarrow> disk_inv (snd (disk_set e k v s))"
proof (cases v)
  case (Some w)
  assume inv: "disk_inv s"
  show ?thesis
  proof (cases "dict_has (index s) k")
    case True
    with inv Some show ?thesis by (simp add: disk_set_known Let_def flush_index_inv touch_access_inv)
  next
    case False
    with inv Some show ?thesis
      by (auto simp: disk_set_new flush_index_inv stored_state_inv disk_inv_pages_fresh
          split: write_outcome.split option.split)
  qed
qed (simp add: disk_set_def)

lemma disk_get_inv: "disk_inv s \<Longrightarrow> disk_inv (snd (disk_get ok now k s))"
  by (simp add: disk_get_def touch_access_inv split: option.split)

text \<open>What the single-page operations keep, the batch operations keep.\<close>

locale disk_invariant =
  fixes I :: "('p, 'v) disk \<Rightarrow> bool"
  assumes evict_keeps: "I s \<Longrightarrow> I (evict_one rm k s)"
    and flush_keeps: "I s \<Longrightarrow> I (snd (flush_index ok s))"
    and get_keeps: "I s \<Longrightarrow> I (snd (disk_get ok now k s))"
    and set_keeps: "I s \<Longrightarrow> I (snd (disk_set e k v s))"
    and pools_keep: "I s \<Longrightarrow> I (s\<lparr>registered_pools := ps\<rparr>)"
begin

lemma clear_keeps: "I s \<Longrightarrow> I (snd (disk_clear rm ok s))"
proof -
  have "I (fold (evict_one rm) ks s)" if "I s" for ks s
    using that by (induction ks arbitrary: s) (auto intro: evict_keeps)
  then show "I s \<Longrightarrow> I (snd (disk_clear rm ok s))" by (simp add: disk_clear_def flush_keeps)
qed

lemma batch_set_loop_keeps: "I s \<Longrightarrow> I (snd (batch_set_loop e kvs ok s))"
proof (induction kvs arbitrary: ok s)
  case (Cons kv kvs)
  obtain k v where kv: "kv = (k, v)" by (cases kv)
  obtain r s1 where rs: "disk_set (e k) k v s = (r, s1)" by (cases "disk_set (e k) k v s")
  have "I s1" using set_keeps [OF Cons.prems, of "e k" k v] rs by simp
  with Cons.IH rs kv show ?case by (cases r) auto
qed simp

lemma batch_set_keeps: "I s \<Longrightarrow> I (snd (disk_batch_set e ok ks vs s))"
proof (cases vs)
  case (Some ws)
  assume inv: "I s"
  obtain r s1 where rs: "batch_set_loop e (zip ks ws) True s = (r, s1)"
    by (cases "batch_set_loop e (zip ks ws) True s")
  obtain q s2 where fl: "flush_index ok s1 = (q, s2)" by (cases "flush_index ok s1")
  have "I s1" using batch_set_loop_keeps [OF inv, of e "zip ks ws" True] rs by simp
  moreover from this have "I s2" using flush_keeps [of s1 ok] fl by simp
  ultimately show ?thesis using rs fl Some
    by (cases r; cases q) (simp_all add: disk_batch_set_def)
qed (simp add: disk_batch_set_def)

lemma batch_get_keeps: "I s \<Longrightarrow> I (snd (disk_batch_get ok now ks s))"
proof (induction ks arbitrary: s)
  case (Cons k ks)
  obtain v s1 where g: "disk_get (ok k) (now k) k s = (v, s1)" by (cases "disk_get (ok k) (now k) k s")
  have "I s1" using get_keeps [OF Cons.prems, of "ok k" "now k" k] g by simp
  with Cons.IH [of s1] g show ?case by (auto split: prod.split)
qed simp

lemma write_page_keeps: "I s \<Longrightarrow> I (snd (disk_write_page e name key off s))"
  by (simp add: disk_write_page_def Let_def set_keeps split: option.split sum.split)

lemma read_page_keeps: "I s \<Longrightarrow> I (snd (disk_read_page e name key off s))"
  using get_keeps [of s "de_load_ok (e (component_key key name))" "de_now (e (component_key key name))" "component_key key name"]
  by (auto simp: disk_read_page_def Let_def pools_keep split: option.split prod.split sum.split)

lemma batch_io_keeps: "I s \<Longrightarrow> I (snd (disk_batch_io_v2 e ok ts w s))"
proof -
  assume inv: "I s"
  let ?op = "if w then disk_write_page e else disk_read_page e"
  obtain r s1 where rs: "batch_io_v2 disk_pool_page_size ?op ts [] s = (r, s1)"
    by (cases "batch_io_v2 disk_pool_page_size ?op ts [] s")
  obtain q s2 where fl: "flush_index ok s1 = (q, s2)" by (cases "flush_index ok s1")
  have "I (snd (batch_io_v2 disk_pool_page_size ?op ts [] s))"
    by (rule batch_io_v2_inv [where I = I]) (auto simp: inv write_page_keeps read_page_keeps)
  with rs have "I s1" by simp
  moreover from this have "I s2" using flush_keeps [of s1 ok] fl by simp
  ultimately show ?thesis using rs fl
    by (cases r; cases q) (simp_all add: disk_batch_io_v2_def)
qed

end

lemma disk_inv_pools [simp]: "disk_inv (s\<lparr>registered_pools := ps\<rparr>) = disk_inv s"
  by (simp add: disk_inv_def)

interpretation accounting: disk_invariant disk_inv
  by unfold_locales (simp_all add: evict_one_inv flush_index_inv disk_get_inv disk_set_inv)

lemmas batch_set_loop_inv = accounting.batch_set_loop_keeps
  and disk_batch_set_inv = accounting.batch_set_keeps

subsection \<open>The index file follows the index\<close>

text \<open>
  Files have one entry per name, and unless \<^verbatim>\<open>_dirty\<close> is set, the index file says what the index
  says (or there is none and the index is empty).
\<close>

definition disk_synced :: "('p, 'v) disk \<Rightarrow> bool" where
  "disk_synced s \<longleftrightarrow> dict_ok (pages s) \<and>
     (\<not> dirty s \<longrightarrow> index_file_on_disk s = Some (index_text (index s) (total_bytes s)) \<or>
        index_file_on_disk s = None \<and> index s = [] \<and> total_bytes s = 0)"

lemma evict_one_synced: "disk_synced s \<Longrightarrow> disk_synced (evict_one rm k s)"
  by (simp add: disk_synced_def evict_one_def mark_dirty_def split: option.split)

lemma touch_access_synced: "disk_synced s \<Longrightarrow> disk_synced (touch_access t k s)"
  by (simp add: disk_synced_def touch_access_def mark_dirty_def split: option.split)

lemma flush_index_synced: "disk_synced s \<Longrightarrow> disk_synced (snd (flush_index ok s))"
  by (simp add: disk_synced_def flush_index_def save_index_def)

lemma enforce_budget_synced: "disk_synced s \<Longrightarrow> disk_synced (enforce_budget rm n s)"
proof -
  have "disk_synced (fold (evict_one rm) ks s)" if "disk_synced s" for ks and s :: "('p, 'v) disk"
    using that by (induction ks arbitrary: s) (auto intro: evict_one_synced)
  then show "disk_synced s \<Longrightarrow> disk_synced (enforce_budget rm n s)" for s :: "('p, 'v) disk"
    using enforce_budget_as_fold [of s rm n] by metis
qed

lemma disk_synced_pages: "disk_synced s \<Longrightarrow> disk_synced (s\<lparr>pages := dict_set name f (pages s)\<rparr>)"
  by (simp add: disk_synced_def)

lemma stored_state_synced: "disk_synced s \<Longrightarrow> disk_synced (stored_state e k v s)"
proof -
  assume "disk_synced s"
  then have "disk_synced (enforce_budget (de_remove_ok e) (int (de_saved_size e v)) (s\<lparr>pages := dict_set (page_path k)
      \<lparr>pf_payload = Some v, pf_size = de_saved_size e v, pf_mtime = de_now e\<rparr> (pages s)\<rparr>))"
    by (intro enforce_budget_synced disk_synced_pages)
  then show ?thesis by (simp add: stored_state_def Let_def mark_dirty_def disk_synced_def)
qed

lemma disk_set_synced: "disk_synced s \<Longrightarrow> disk_synced (snd (disk_set e k v s))"
proof (cases v)
  case (Some w)
  assume s: "disk_synced s"
  show ?thesis
  proof (cases "dict_has (index s) k")
    case True
    with s Some show ?thesis by (simp add: disk_set_known Let_def flush_index_synced touch_access_synced)
  next
    case False
    with s Some show ?thesis
      by (auto simp: disk_set_new flush_index_synced stored_state_synced disk_synced_pages
          split: write_outcome.split option.split)
  qed
qed (simp add: disk_set_def)

interpretation sync: disk_invariant disk_synced
proof (unfold_locales, goal_cases)
  case (3 s ok now k)
  then show ?case by (simp add: disk_get_def touch_access_synced split: option.split)
qed (simp_all add: evict_one_synced flush_index_synced disk_set_synced, simp add: disk_synced_def)

text \<open>The index is read back from the text that was written.\<close>

lemma lit_inj [simp]: "lit a = lit b \<longleftrightarrow> a = b"
  by (auto simp: lit_def inj_map_eq_map [OF inj_of_char])

lemma char_of_lit: "map char_of (lit k) = k"
  by (simp add: lit_def comp_def)

lemma those_map: "(\<And>x. x \<in> set xs \<Longrightarrow> f x = Some (g x)) \<Longrightarrow> those (map f xs) = Some (map g xs)"
  by (induction xs) auto

lemma index_text_roundtrip:
  assumes "dict_ok d"
  shows "\<exists>m. loads (index_text d tot) = Some (JObj m) \<and> index_of_json m = Some (d, tot)"
proof -
  obtain cj where cj: "\<And>x. reads_as (dumps_decimal 7 x) (cj x)" "\<And>x. decimal_of 7 (cj x) = Some x"
    using reads_as_decimal [of 7] by (metis zero_less_numeral)
  define pj where "pj i = JObj [(lit ''size'', JInt (int (pi_size i))), (lit ''last_access'', cj (pi_last_access i))]" for i :: page_info
  have page: "reads_as (page_text i) (pj i)" for i
    using reads_as_obj [of "[(lit ''size'', dumps_int (int (pi_size i)), JInt (int (pi_size i))),
        (lit ''last_access'', dumps_decimal 7 (pi_last_access i), cj (pi_last_access i))]"]
    by (simp add: page_text_def pj_def scalars_lit reads_as_int cj(1) del: lit_simps)
  define ps where "ps = map (\<lambda>(k, i). (lit k, pj i)) d"
  have pages: "reads_as (dumps_obj (map (\<lambda>(k, i). (lit k, page_text i)) d)) (JObj ps)"
  proof -
    have "distinct (map (lit \<circ> fst) d)" using assms distinct_map [of lit "dict_keys d"] by (simp add: inj_on_def)
    then show ?thesis
      using reads_as_obj [of "map (\<lambda>(k, i). (lit k, page_text i, pj i)) d"]
      by (auto simp: ps_def scalars_lit page comp_def case_prod_unfold)
  qed
  have "reads_as (index_text d tot) (JObj [(lit ''pages'', JObj ps), (lit ''total_bytes'', JInt tot)])"
    using reads_as_obj [of "[(lit ''pages'', dumps_obj (map (\<lambda>(k, i). (lit k, page_text i)) d), JObj ps),
        (lit ''total_bytes'', dumps_int tot, JInt tot)]"]
    by (simp add: index_text_def scalars_lit reads_as_int pages del: lit_simps)
  then have l: "loads (index_text d tot) = Some (JObj [(lit ''pages'', JObj ps), (lit ''total_bytes'', JInt tot)])"
    by (rule loads_reads_as)
  have small: "list_all (\<lambda>c. c < 256) (lit k)" for k
    by (simp add: list_all_iff lit_def)
  have one: "page_of_json (lit k, pj i) = Some (k, i)" for k i
    by (simp add: page_of_json_def pj_def small cj(2) char_of_lit del: lit_simps)
  have "those (map page_of_json ps) = Some d"
    using those_map [of d "\<lambda>(k, i). page_of_json (lit k, pj i)" id] by (auto simp: ps_def one comp_def case_prod_unfold)
  then show ?thesis using l by (auto simp: index_of_json_def simp del: lit_simps)
qed

subsection \<open>The disk backend is a page store\<close>

definition disk_put :: "'v disk_env \<Rightarrow> string \<Rightarrow> 'v \<Rightarrow> ('p, 'v) disk \<Rightarrow> bool \<times> ('p, 'v) disk" where
  "disk_put e k v s = (case disk_set e k (Some v) s of (Inl x, s') \<Rightarrow> (False, s') | (Inr r, s') \<Rightarrow> (r, s'))"

definition disk_fetch :: "('p, 'v) disk \<Rightarrow> string \<Rightarrow> 'v option" where
  "disk_fetch s k = fst (disk_get True 0 k s)"

lemma disk_fetch_eq:
  "disk_fetch s k = (case dict_get (pages s) (page_path k) of None \<Rightarrow> None | Some f \<Rightarrow> pf_payload f)"
  by (simp add: disk_fetch_def disk_get_def split: option.split)

lemma disk_get_fetch: "fst (disk_get ok now k s) = (if ok then disk_fetch s k else None)"
  by (simp add: disk_fetch_eq disk_get_def split: option.split)

lemma stored_state_page:
  "\<not> dict_has (index s) k \<Longrightarrow>
     dict_get (pages (stored_state e k v s)) (page_path k) =
       Some \<lparr>pf_payload = Some v, pf_size = de_saved_size e v, pf_mtime = de_now e\<rparr>"
  by (simp add: stored_state_def Let_def mark_dirty_def enforce_budget_keeps_page)

lemma stored_state_has: "dict_has (index (stored_state e k v s)) k"
  by (simp add: stored_state_def Let_def mark_dirty_def dict_has_iff)

lemma disk_inv_has: "disk_inv s \<Longrightarrow> disk_exists s k \<longleftrightarrow> dict_has (index s) k"
  by (auto simp: disk_exists_def disk_inv_def page_backed_def dict_has_iff split: option.splits)

lemma disk_put_TrueE:
  assumes "disk_put e k v s = (True, s')"
  obtains "dict_has (index s) k" "pages s' = pages s" "dict_keys (index s') = dict_keys (index s)"
  | "\<not> dict_has (index s) k" "pages s' = pages (stored_state e k v s)"
    "index s' = index (stored_state e k v s)"
proof (cases "dict_has (index s) k")
  case True
  with assms have "pages s' = pages s" "dict_keys (index s') = dict_keys (index s)"
    by (auto simp: disk_put_def disk_set_known Let_def split: if_splits)
  with True that(1) show ?thesis by blast
next
  case False
  with assms have "pages s' = pages (stored_state e k v s)" "index s' = index (stored_state e k v s)"
    by (auto simp: disk_put_def disk_set_new split: write_outcome.splits option.splits)
  with False that(2) show ?thesis by blast
qed

interpretation disk_store: page_store disk_put disk_fetch disk_exists "\<lambda>_. True" disk_inv
proof (unfold_locales, goal_cases)
  case (1 s v e k s')
  then show ?case
    using disk_set_inv [of s e k "Some v"]
    by (auto simp: disk_put_def split: prod.splits sum.splits)
next
  case (2 s v e k s')
  have "disk_inv s'"
    using 2 disk_set_inv [of s e k "Some v"] by (auto simp: disk_put_def split: prod.splits sum.splits)
  with 2(3) show ?case
    by (auto elim!: disk_put_TrueE simp: disk_inv_has stored_state_has) (simp_all add: dict_has_def)
next
  case (3 s v e k s')
  from 3(3) show ?case
    by (auto elim!: disk_put_TrueE simp: disk_inv_has [OF 3(1)] disk_fetch_eq stored_state_page)
next
  case (4 s k)
  then show ?case
    by (auto simp: disk_exists_def disk_inv_def page_backed_def dict_has_iff disk_fetch_eq
        split: option.splits)
qed

section \<open>Reachable states and properties\<close>

text \<open>
  The states of a backend: opened on an empty directory, then any sequence of calls with any
  outcome of the environment, and reopened any number of times by a process that starts when the
  last one had no unwritten index.
\<close>

inductive disk_reachable :: "('p, 'v) disk \<Rightarrow> bool" where
  start: "disk_init extra env None [] = Some (Inr s) \<Longrightarrow> disk_reachable s"
| reopen: "disk_reachable s \<Longrightarrow> \<not> dirty s \<Longrightarrow>
    disk_init extra env (index_file_on_disk s) (pages s) = Some (Inr t) \<Longrightarrow> disk_reachable t"
| register: "disk_reachable s \<Longrightarrow> disk_reachable (s\<lparr>registered_pools := dict_set name hp (registered_pools s)\<rparr>)"
| get: "disk_reachable s \<Longrightarrow> disk_reachable (snd (disk_get ok now key s))"
| set: "disk_reachable s \<Longrightarrow> disk_reachable (snd (disk_set e key value s))"
| batch_get: "disk_reachable s \<Longrightarrow> disk_reachable (snd (disk_batch_get oks nows keys s))"
| batch_set: "disk_reachable s \<Longrightarrow> disk_reachable (snd (disk_batch_set es ok keys values s))"
| batch_get_v2: "disk_reachable s \<Longrightarrow> disk_reachable (snd (disk_batch_get_v2 es ok ts s))"
| batch_set_v2: "disk_reachable s \<Longrightarrow> disk_reachable (snd (disk_batch_set_v2 es ok ts s))"
| clear: "disk_reachable s \<Longrightarrow> disk_reachable (snd (disk_clear rm ok s))"

lemma disk_init_synced:
  assumes "disk_synced s" and "disk_inv s" and "\<not> dirty s" and "config_space_mb extra env = Inr mb"
  shows "disk_init extra env (index_file_on_disk s) (pages s) = Some (Inr
    \<lparr>max_disk_bytes = mb * 1024 * 1024, index = index s, total_bytes = total_bytes s, dirty = False,
     index_file_on_disk = index_file_on_disk s, pages = pages s, registered_pools = []\<rparr>)"
proof -
  have ok: "dict_ok (index s)" using assms(2) by (simp add: disk_inv_def)
  consider "index_file_on_disk s = Some (index_text (index s) (total_bytes s))"
    | "index_file_on_disk s = None" "index s = []" "total_bytes s = 0"
    using assms(1,3) by (auto simp: disk_synced_def)
  then show ?thesis
  proof cases
    case 1
    obtain m where "loads (index_text (index s) (total_bytes s)) = Some (JObj m)" "index_of_json m = Some (index s, total_bytes s)"
      using index_text_roundtrip [OF ok] by blast
    then show ?thesis using assms(4) by (simp add: disk_init_def load_index_def 1)
  qed (simp add: disk_init_def load_index_def assms(4))
qed

lemma disk_init_config: "disk_init extra env f c = Some (Inr t) \<Longrightarrow> \<exists>mb. config_space_mb extra env = Inr mb"
  by (auto simp: disk_init_def split: sum.splits)

lemma disk_reachable_ok: "disk_reachable s \<Longrightarrow> disk_inv s \<and> disk_synced s"
proof (induction rule: disk_reachable.induct)
  case (start extra env s)
  then show ?case
    by (auto simp: disk_init_def load_index_def disk_inv_def disk_synced_def split: sum.splits)
next
  case (reopen s extra env t)
  obtain mb where mb: "config_space_mb extra env = Inr mb" using disk_init_config [OF reopen(3)] by blast
  have ok: "disk_synced s" "disk_inv s" using reopen(4) by simp_all
  note same = trans [OF reopen(3) [symmetric] disk_init_synced [OF ok reopen(2) mb]]
  have "t = \<lparr>max_disk_bytes = mb * 1024 * 1024, index = index s, total_bytes = total_bytes s, dirty = False,
     index_file_on_disk = index_file_on_disk s, pages = pages s, registered_pools = []\<rparr>" using same by simp
  with reopen show ?case by (auto simp: disk_inv_def disk_synced_def)
qed (simp_all add: disk_batch_get_v2_def disk_batch_set_v2_def accounting.get_keeps accounting.set_keeps
       accounting.batch_get_keeps accounting.batch_set_keeps accounting.batch_io_keeps accounting.clear_keeps
       sync.get_keeps sync.set_keeps sync.batch_get_keeps sync.batch_set_keeps sync.batch_io_keeps sync.clear_keeps sync.pools_keep)

lemma disk_reachable_inv: "disk_reachable s \<Longrightarrow> disk_inv s"
  by (simp add: disk_reachable_ok)


subsection \<open>The bytes in the page directory\<close>

text \<open>All page files, and those that no index entry accounts for.\<close>

definition dir_bytes :: "('p, 'v) disk \<Rightarrow> int" where
  "dir_bytes s = (\<Sum>p\<leftarrow>pages s. int (pf_size (snd p)))"

definition orphans :: "('p, 'v) disk \<Rightarrow> (string, 'v page_file) dict" where
  "orphans s = filter (\<lambda>p. fst p \<notin> page_path ` set (dict_keys (index s))) (pages s)"

definition orphan_bytes :: "('p, 'v) disk \<Rightarrow> int" where
  "orphan_bytes s = (\<Sum>p\<leftarrow>orphans s. int (pf_size (snd p)))"

lemma sum_list_partition: "(\<Sum>x\<leftarrow>xs. f x) = (\<Sum>x\<leftarrow>filter P xs. f x) + (\<Sum>x\<leftarrow>filter (\<lambda>x. \<not> P x) xs. (f x :: int))"
  by (induction xs) auto

lemma distinct_entries: "dict_ok d \<Longrightarrow> distinct d"
  by (simp add: distinct_map)

lemma dir_bytes_split:
  assumes inv: "disk_inv s" and ok: "dict_ok (pages s)"
  shows "dir_bytes s = total_bytes s + orphan_bytes s"
proof -
  let ?g = "\<lambda>p. int (pf_size (snd p))" and ?P = "\<lambda>p. fst p \<in> page_path ` set (dict_keys (index s))"
  let ?file = "\<lambda>p. (page_path (fst p), the (dict_get (pages s) (page_path (fst p))))"
  have oki: "dict_ok (index s)" using inv by (simp add: disk_inv_def)
  have backed: "\<exists>f. dict_get (pages s) (page_path (fst p)) = Some f \<and> pf_size f = pi_size (snd p)" if "p \<in> set (index s)" for p
  proof -
    have "dict_get (index s) (fst p) = Some (snd p)" using that dict_get_iff_in [OF oki, of "fst p" "snd p"] by simp
    then have "page_backed (pages s) (fst p) (snd p)" using inv by (simp add: disk_inv_def)
    then show ?thesis by (auto simp: page_backed_def split: option.splits)
  qed
  have files: "set (filter ?P (pages s)) = ?file ` set (index s)"
  proof (intro set_eqI iffI)
    fix x assume x: "x \<in> set (filter ?P (pages s))"
    then obtain p where p: "p \<in> set (index s)" "fst x = page_path (fst p)" by auto
    have "dict_get (pages s) (fst x) = Some (snd x)" using x dict_get_iff_in [OF ok, of "fst x" "snd x"] by simp
    then have "x = ?file p" using p(2) by (simp add: prod_eq_iff)
    then show "x \<in> ?file ` set (index s)" using p(1) by blast
  next
    fix x assume "x \<in> ?file ` set (index s)"
    then obtain p where p: "p \<in> set (index s)" "x = ?file p" by blast
    obtain f where "dict_get (pages s) (page_path (fst p)) = Some f" using backed [OF p(1)] by blast
    then show "x \<in> set (filter ?P (pages s))" using p dict_get_Some_in by fastforce
  qed
  have inj: "inj_on ?file (set (index s))"
    using oki by (auto simp: inj_on_def dest: eq_key_imp_eq_value)
  have "(\<Sum>p\<leftarrow>filter ?P (pages s). ?g p) = (\<Sum>p \<in> set (filter ?P (pages s)). ?g p)"
    using distinct_entries [OF ok] by (intro sum_list_distinct_conv_sum_set) simp
  also have "\<dots> = (\<Sum>p \<in> set (index s). ?g (?file p))" unfolding files by (simp add: sum.reindex [OF inj])
  also have "\<dots> = (\<Sum>p \<in> set (index s). int (pi_size (snd p)))" using backed by (intro sum.cong) fastforce+
  also have "\<dots> = index_size (index s)"
    unfolding index_size_def by (rule sum_list_distinct_conv_sum_set [OF distinct_entries [OF oki], symmetric])
  finally show ?thesis
    using inv sum_list_partition [of ?g "pages s" ?P] by (simp add: dir_bytes_def orphan_bytes_def orphans_def disk_inv_def)
qed

lemma set_dict_set: "set (dict_set k v d) \<subseteq> insert (k, v) (set d)"
  by (induction d) (auto split: if_splits)

lemma fold_evict_one_pages:
  "p \<in> set (pages (fold (evict_one rm) ks s)) \<Longrightarrow> p \<in> set (pages s) \<and>
     (\<forall>k \<in> set ks. rm k \<longrightarrow> dict_has (index s) k \<longrightarrow> fst p \<noteq> page_path k)"
proof (induction ks arbitrary: s)
  case (Cons k ks)
  have ih: "p \<in> set (pages (evict_one rm k s))"
    "\<forall>a \<in> set ks. rm a \<longrightarrow> dict_has (index (evict_one rm k s)) a \<longrightarrow> fst p \<noteq> page_path a"
    using Cons.IH [of "evict_one rm k s"] Cons.prems by auto
  have first: "p \<in> set (pages s)" "rm k \<longrightarrow> dict_has (index s) k \<longrightarrow> fst p \<noteq> page_path k"
    using ih(1) by (auto simp: evict_one_def mark_dirty_def dict_pop_def dict_has_iff split: option.splits if_splits)
  have "fst p \<noteq> page_path a" if "a \<in> set ks" "rm a" "dict_has (index s) a" for a
    using ih(2) that first(2) by (cases "a = k") (auto simp: dict_has_iff)
  with first show ?case by auto
qed simp

text \<open>Storing a page adds no unaccounted file, when the evicted files can be removed.\<close>

lemma stored_state_orphans:
  assumes rm: "\<forall>k. de_remove_ok e k"
  shows "set (orphans (stored_state e key v s)) \<subseteq> set (orphans s)"
proof
  fix p assume p: "p \<in> set (orphans (stored_state e key v s))"
  let ?f = "\<lparr>pf_payload = Some v, pf_size = de_saved_size e v, pf_mtime = de_now e\<rparr>"
  let ?s1 = "s\<lparr>pages := dict_set (page_path key) ?f (pages s)\<rparr>"
  obtain ks where ks: "enforce_budget (de_remove_ok e) (int (de_saved_size e v)) ?s1 = fold (evict_one (de_remove_ok e)) ks ?s1"
    using enforce_budget_as_fold by blast
  have pg: "pages (stored_state e key v s) = pages (fold (evict_one (de_remove_ok e)) ks ?s1)"
    and ix: "dict_has (index (stored_state e key v s)) a \<longleftrightarrow> a = key \<or> dict_has (index s) a \<and> a \<notin> set ks" for a
    using fold_evict_one_index [of "de_remove_ok e" ks ?s1]
    by (auto simp: stored_state_def Let_def mark_dirty_def ks dict_has_iff dict_get_filter_keys)
  have name: "fst p \<noteq> page_path a" if "dict_has (index (stored_state e key v s)) a" for a
    using p that by (auto simp: orphans_def dict_has_def)
  have "p \<in> set (pages (fold (evict_one (de_remove_ok e)) ks ?s1))" using p by (simp add: orphans_def pg)
  from fold_evict_one_pages [OF this] have mem: "p \<in> set (dict_set (page_path key) ?f (pages s))"
    and gone: "\<forall>k \<in> set ks. dict_has (index s) k \<longrightarrow> fst p \<noteq> page_path k" using rm by auto
  have "fst p \<noteq> page_path key" using name [of key] ix by simp
  then have "p \<in> set (pages s)" using mem set_dict_set [of "page_path key" ?f "pages s"] by auto
  moreover have "fst p \<noteq> page_path a" if "dict_has (index s) a" for a
    using that name [of a] gone ix by blast
  ultimately show "p \<in> set (orphans s)" by (auto simp: orphans_def dict_has_def)
qed

lemma orphan_bytes_mono:
  assumes "dict_ok (pages s)" and "dict_ok (pages t)" and "set (orphans t) \<subseteq> set (orphans s)"
  shows "orphan_bytes t \<le> orphan_bytes s"
proof -
  have "distinct (orphans s)" "distinct (orphans t)"
    using distinct_entries [OF assms(1)] distinct_entries [OF assms(2)] by (simp_all add: orphans_def)
  then show ?thesis
    unfolding orphan_bytes_def using assms(3) by (simp add: sum_list_distinct_conv_sum_set sum_mono2)
qed


subsection \<open>Which pages are evicted\<close>

definition size_of :: "('p, 'v) disk \<Rightarrow> string \<Rightarrow> int" where
  "size_of s k = (case dict_get (index s) k of None \<Rightarrow> 0 | Some i \<Rightarrow> int (pi_size i))"

definition access_of :: "('p, 'v) disk \<Rightarrow> string \<Rightarrow> int" where
  "access_of s k = (case dict_get (index s) k of None \<Rightarrow> 0 | Some i \<Rightarrow> pi_last_access i)"

lemma fold_evict_one_total:
  "distinct ks \<Longrightarrow> total_bytes (fold (evict_one rm) ks s) = total_bytes s - (\<Sum>k\<leftarrow>ks. size_of s k)"
proof (induction ks arbitrary: s)
  case (Cons k ks)
  have "size_of (evict_one rm k s) a = size_of s a" if "a \<in> set ks" for a
    using that Cons.prems by (auto simp: size_of_def)
  then have same: "(\<Sum>a\<leftarrow>ks. size_of (evict_one rm k s) a) = (\<Sum>a\<leftarrow>ks. size_of s a)" by (metis (mono_tags, lifting) map_eq_conv)
  have "total_bytes (evict_one rm k s) = total_bytes s - size_of s k"
    by (simp add: evict_one_def mark_dirty_def size_of_def split: option.split)
  then show ?case using Cons same by simp
qed simp

lemma evictable_distinct: "dict_ok (index s) \<Longrightarrow> distinct (map snd (evictable s))"
proof -
  assume ok: "dict_ok (index s)"
  have "mset (map snd (evictable s)) = image_mset snd (mset (map (\<lambda>(k, v). (pi_last_access v, k)) (index s)))"
    unfolding evictable_def by (simp only: mset_map mset_sort)
  also have "\<dots> = mset (dict_keys (index s))"
    by (simp add: image_mset.compositionality comp_def case_prod_unfold)
  finally show ?thesis using ok mset_eq_imp_distinct_iff by blast
qed

lemma evictable_access: "dict_ok (index s) \<Longrightarrow> map (access_of s) (map snd (evictable s)) = map fst (evictable s)"
proof -
  assume ok: "dict_ok (index s)"
  have "access_of s (snd x) = fst x" if "x \<in> set (evictable s)" for x
    using that evictable_iff [OF ok, of "fst x" "snd x"] by (auto simp: access_of_def)
  then show ?thesis by simp
qed

text \<open>
  C12: budget enforcement evicts exactly as much as it must, least recently used pages first. The
  evicted pages, in the order of their eviction, have ascending access times, none later than that
  of a page that is kept; before each eviction the rest still did not fit, and at the end it fits
  unless the index is empty.
\<close>

theorem enforce_budget_lru:
  assumes "disk_inv s" and "0 < max_disk_bytes s"
  shows "\<exists>ks. distinct ks \<and> set ks \<subseteq> set (dict_keys (index s)) \<and>
    index (enforce_budget rm n s) = filter (\<lambda>p. fst p \<notin> set ks) (index s) \<and>
    total_bytes (enforce_budget rm n s) = total_bytes s - (\<Sum>k\<leftarrow>ks. size_of s k) \<and>
    sorted (map (access_of s) ks) \<and>
    (\<forall>k \<in> set ks. \<forall>k' \<in> set (dict_keys (index s)) - set ks. access_of s k \<le> access_of s k') \<and>
    (\<forall>j < length ks. max_disk_bytes s - n < total_bytes s - (\<Sum>k\<leftarrow>take j ks. size_of s k)) \<and>
    (total_bytes (enforce_budget rm n s) \<le> max_disk_bytes s - n \<or> index (enforce_budget rm n s) = [])"
proof -
  let ?t = "max_disk_bytes s - n" and ?xs = "evictable s"
  have ok: "dict_ok (index s)" using assms(1) by (simp add: disk_inv_def)
  have fits: "total_bytes (enforce_budget rm n s) \<le> ?t \<or> index (enforce_budget rm n s) = []"
    using assms by (rule enforce_budget_fits)
  obtain m where m: "enforce_budget rm n s = fold (evict_one rm) (map snd (take m ?xs)) s"
    "\<forall>j < length (take m ?xs). ?t < total_bytes (fold (evict_one rm) (map snd (take j ?xs)) s)"
  proof (cases "total_bytes s \<le> ?t")
    case True
    with assms(2) show ?thesis by (intro that [of 0]) (simp_all add: enforce_budget_def)
  next
    case False
    then have e: "enforce_budget rm n s = evict_loop rm ?t ?xs s" using assms(2) by (simp add: enforce_budget_def)
    obtain m where "m \<le> length ?xs" "evict_loop rm ?t ?xs s = fold (evict_one rm) (map snd (take m ?xs)) s"
      "\<forall>j < m. ?t < total_bytes (fold (evict_one rm) (map snd (take j ?xs)) s)"
      using evict_loop_prefix [of ?xs rm ?t s] by blast
    then show ?thesis by (intro that [of m]) (simp_all add: e)
  qed
  let ?ks = "map snd (take m ?xs)"
  have ks: "?ks = take m (map snd ?xs)" by (simp add: take_map)
  have dist: "distinct ?ks" "distinct (take j ?ks)" for j
    using evictable_distinct [OF ok] unfolding ks by simp_all
  have sub: "set ?ks \<subseteq> set (dict_keys (index s))" unfolding ks evictable_keys [symmetric] by (rule set_take_subset)
  have srt: "sorted (map (access_of s) ?ks)"
    unfolding ks take_map [symmetric] evictable_access [OF ok] by (intro sorted_wrt_take evictable_sorted)
  have lru: "access_of s k \<le> access_of s k'" if "k \<in> set ?ks" "k' \<in> set (dict_keys (index s)) - set ?ks" for k k'
  proof -
    have "dict_has (index s) k" "dict_has (index s) k'" using that sub by (auto simp: dict_has_def)
    then obtain i i' where "dict_get (index s) k = Some i" "dict_get (index s) k' = Some i'" by (auto simp: dict_has_iff)
    then show ?thesis using evicted_before_kept [OF assms(1), of k m k' i i'] that by (simp add: access_of_def)
  qed
  have least: "?t < total_bytes s - (\<Sum>k\<leftarrow>take j ?ks. size_of s k)" if "j < length ?ks" for j
  proof -
    have j: "j < length (take m ?xs)" using that by simp
    have "map snd (take j ?xs) = take j ?ks" using j by (simp add: take_map)
    then show ?thesis using m(2) [rule_format, OF j] fold_evict_one_total [OF dist(2) [of j], of rm s] by (simp only:)
  qed
  show ?thesis
    using dist(1) sub srt lru least fits fold_evict_one_total [OF dist(1), of rm s] fold_evict_one_index [of rm ?ks s]
    unfolding m(1) by blast
qed

text \<open>
  C13: a page stored successfully under a new key is the page the next read of that key returns,
  unless the read itself fails; storing under a key that is already indexed keeps the page that is
  there.
\<close>

theorem disk_set_then_get:
  assumes "disk_reachable s" and "disk_set e key (Some v) s = (Inr True, s')"
  shows "fst (disk_get ok now key s') =
    (if ok then if disk_exists s key then fst (disk_get ok now key s) else Some v else None)"
proof -
  have "disk_put e key v s = (True, s')" using assms(2) by (simp add: disk_put_def)
  then show ?thesis
    using disk_store.put_fetch [OF disk_reachable_inv [OF assms(1)]] by (simp add: disk_get_fetch)
qed

text \<open>
  C14: a restart loses nothing. In a reachable state with no unwritten index, a new process that
  opens the directory parses \<^verbatim>\<open>index.json\<close> and has the index, the byte counter and the pages of the
  old one; and every successful \<^verbatim>\<open>set\<close> ends in such a state, so its page is still there.
\<close>

theorem disk_reopen:
  fixes s :: "('p, 'v) disk"
  assumes "disk_reachable s" and "config_space_mb extra env = Inr mb"
  shows "(\<not> dirty s \<longrightarrow> (\<exists>t :: ('p, 'v) disk. disk_init extra env (index_file_on_disk s) (pages s) = Some (Inr t) \<and>
      index t = index s \<and> total_bytes t = total_bytes s \<and> pages t = pages s \<and>
      max_disk_bytes t = mb * 1048576 \<and> \<not> dirty t)) \<and>
    (\<forall>e key v s'. disk_set e key (Some v) s = (Inr True, s') \<longrightarrow> \<not> dirty s' \<and>
      (\<exists>t :: ('p, 'v) disk. disk_init extra env (index_file_on_disk s') (pages s') = Some (Inr t) \<and> index t = index s' \<and>
         total_bytes t = total_bytes s' \<and> disk_exists t key))"
proof -
  have again: "disk_init extra env (index_file_on_disk u) (pages u) = Some (Inr (
      \<lparr>max_disk_bytes = mb * 1024 * 1024, index = index u, total_bytes = total_bytes u, dirty = False,
       index_file_on_disk = index_file_on_disk u, pages = pages u, registered_pools = []\<rparr> :: ('p, 'v) disk))"
    if "disk_reachable u" "\<not> dirty u" for u :: "('p, 'v) disk"
    using disk_init_synced [OF _ _ that(2) assms(2)] disk_reachable_ok [OF that(1)] by blast
  have clean: "\<not> dirty s'" if "disk_set e key (Some v) s = (Inr True, s')" for e key v s'
    using that by (auto simp: disk_set_def Let_def flush_index_def mark_dirty_def save_index_def
        split: if_splits write_outcome.splits option.splits)
  have new: "disk_reachable s'" "disk_exists s' key" if "disk_set e key (Some v) s = (Inr True, s')" for e key v s'
  proof -
    show "disk_reachable s'" using disk_reachable.set [OF assms(1), of e key "Some v"] that by simp
    show "disk_exists s' key"
      using disk_store.put_has [OF disk_reachable_inv [OF assms(1)], of e key v s'] that by (simp add: disk_put_def)
  qed
  show ?thesis using again [OF assms(1)] again [OF new(1)] clean new(2) by (auto simp: disk_exists_def)
qed

lemma rebuild_entry_simp:
  "rebuild_entry (name, f) (idx, tot) =
     (if endswith name ''.pt''
      then (dict_set (take (length name - 3) name) \<lparr>pi_size = pf_size f, pi_last_access = pf_mtime f\<rparr> idx,
            tot + int (pf_size f))
      else (idx, tot))"
  by (simp add: rebuild_entry_def)

lemma endswith_pt_iff: "endswith name ''.pt'' \<longleftrightarrow> (\<exists>key. name = page_path key)"
  by (auto simp: endswith_def page_path_def) (metis append_take_drop_id)

lemma take_page_path [simp]: "take (length (page_path key) - 3) (page_path key) = key"
  by (simp add: page_path_def)

text \<open>The loop of the rebuild, from any intermediate index whose keys are not listed again.\<close>

lemma rebuild_fold:
  assumes "dict_ok d" and "dict_ok idx" and "tot = index_size idx"
    and "\<forall>key. page_path key \<in> set (dict_keys d) \<longrightarrow> dict_get idx key = None"
  shows "let (idx', tot') = fold rebuild_entry d (idx, tot) in
    dict_ok idx' \<and> tot' = index_size idx' \<and>
    (\<forall>key. dict_get idx' key =
       (case dict_get d (page_path key) of
          None \<Rightarrow> dict_get idx key
        | Some f \<Rightarrow> Some \<lparr>pi_size = pf_size f, pi_last_access = pf_mtime f\<rparr>))"
  using assms
proof (induction d arbitrary: idx tot)
  case (Cons p d)
  obtain name f where p: "p = (name, f)" by (cases p)
  show ?case
  proof (cases "endswith name ''.pt''")
    case True
    then obtain key where name: "name = page_path key" by (auto simp: endswith_pt_iff)
    let ?info = "\<lparr>pi_size = pf_size f, pi_last_access = pf_mtime f\<rparr>"
    have fresh: "dict_get idx key = None" using Cons.prems(4) p name by simp
    then have "\<not> dict_has idx key" by (simp add: dict_has_iff)
    then have size: "index_size (dict_set key ?info idx) = tot + int (pf_size f)"
      using Cons.prems(3) by (simp add: index_size_set_fresh)
    have none: "dict_get d (page_path key) = None"
      using Cons.prems(1) p name by (auto simp: dict_get_def map_of_eq_None_iff)
    have step: "rebuild_entry (name, f) (idx, tot) = (dict_set key ?info idx, tot + int (pf_size f))"
      using True name by (simp add: rebuild_entry_simp)
    have "let (idx', tot') = fold rebuild_entry d (dict_set key ?info idx, tot + int (pf_size f)) in
        dict_ok idx' \<and> tot' = index_size idx' \<and>
        (\<forall>k. dict_get idx' k = (case dict_get d (page_path k) of None \<Rightarrow> dict_get (dict_set key ?info idx) k
           | Some f \<Rightarrow> Some \<lparr>pi_size = pf_size f, pi_last_access = pf_mtime f\<rparr>))"
      using Cons.prems p name size by (intro Cons.IH) (auto simp: dict_has_def)
    with p name step none show ?thesis
      by (auto simp: Let_def split: prod.splits option.splits)
  next
    case False
    then have "\<And>k. name \<noteq> page_path k" by (auto simp: endswith_pt_iff)
    with False Cons p show ?thesis by (auto simp: rebuild_entry_simp)
  qed
qed simp

text \<open>
  When the index file is corrupt, the rebuilt index has exactly the pages that lie directly
  in the page directory, each with its file's size, and a byte counter that is their sum. A page
  whose key contains a slash is stored in a sub-directory and is left out.
\<close>

theorem rebuild_index_complete:
  assumes "distinct (map fst (pages s))"
  shows "total_bytes (rebuild_index s) = (\<Sum>p\<leftarrow>index (rebuild_index s). int (pi_size (snd p))) \<and>
    (\<forall>key. dict_get (index (rebuild_index s)) key =
       (if CHR ''/'' \<in> set key then None
        else map_option (\<lambda>f. \<lparr>pi_size = pf_size f, pi_last_access = pf_mtime f\<rparr>)
               (dict_get (pages s) (page_path key))))"
proof -
  have "dict_ok (listdir (pages s))"
    using assms by (auto simp: listdir_def distinct_map_filter)
  obtain idx tot where f: "fold rebuild_entry (listdir (pages s)) ([], 0) = (idx, tot)"
    by (cases "fold rebuild_entry (listdir (pages s)) ([], 0)")
  with rebuild_fold [OF \<open>dict_ok (listdir (pages s))\<close>, of "[]" 0]
  have tot: "tot = index_size idx"
    and get: "\<And>key. dict_get idx key = (case dict_get (listdir (pages s)) (page_path key) of
          None \<Rightarrow> None | Some f \<Rightarrow> Some \<lparr>pi_size = pf_size f, pi_last_access = pf_mtime f\<rparr>)"
    by (simp_all split: option.split)
  have "dict_get (listdir (pages s)) (page_path key) =
      (if CHR ''/'' \<in> set key then None else dict_get (pages s) (page_path key))" for key
    using dict_get_filter_keys [of "{n. CHR ''/'' \<in> set n}" "pages s" "page_path key"]
    by (simp add: listdir_def page_path_def)
  with f tot get show ?thesis
    by (simp add: rebuild_index_def index_size_def map_option_case)
qed

text \<open>A prefix of \<open>m\<close> pages that a pool can use: all its pages, or the window at its end.\<close>

definition usable_prefix :: "(nat \<Rightarrow> string \<Rightarrow> bool) \<Rightarrow> pool_transfer \<Rightarrow> nat \<Rightarrow> bool" where
  "usable_prefix has t m \<longleftrightarrow>
     (case pt_hit_policy t of
        ALL_PAGES \<Rightarrow> \<forall>i < m. has i (pt_name t)
      | TRAILING_PAGES \<Rightarrow> \<forall>i < m. m - trailing_pages t \<le> i \<longrightarrow> has i (pt_name t))"

lemma pool_boundary_usable: "usable_prefix has t (pool_boundary has n t)"
proof (cases "pt_hit_policy t")
  case ALL_PAGES
  then show ?thesis by (auto simp: usable_prefix_def pool_boundary_def dest: first_missing_present)
next
  case TRAILING_PAGES
  then show ?thesis
    by (cases "trailing_boundary (\<lambda>i. has i (pt_name t)) (trailing_pages t) n")
      (auto simp: usable_prefix_def pool_boundary_def dest: trailing_boundary_window)
qed

lemma pool_boundary_greatest: "m \<le> n \<Longrightarrow> usable_prefix has t m \<Longrightarrow> m \<le> pool_boundary has n t"
  by (auto simp: usable_prefix_def pool_boundary_def split: pool_hit_policy.splits
      intro!: first_missing_greatest trailing_boundary_greatest)

lemma fold_min_Min: "fold (\<lambda>t f. min f (g t)) ts (a :: nat) = Min (insert a (g ` set ts))"
proof (induction ts arbitrary: a)
  case (Cons t ts)
  have "Min (insert (min a (g t)) (g ` set ts)) = Min (insert a (insert (g t) (g ` set ts)))"
    by (cases "g ` set ts = {}") (simp_all add: min.assoc)
  then show ?case using Cons by simp
qed simp


subsection \<open>Concrete states\<close>

text \<open>A budget of one mebibyte and pages of 600,000 bytes: the second page evicts the first.\<close>

definition sample_env :: "int \<Rightarrow> nat disk_env" where
  "sample_env now = \<lparr>de_now = now, de_saved_size = (\<lambda>_. 600000), de_save = WriteOk, de_flush_ok = True,
     de_remove_ok = (\<lambda>_. True), de_load_ok = True\<rparr>"

definition sample_empty :: "(unit, nat) disk" where
  "sample_empty = \<lparr>max_disk_bytes = 1048576, index = [], total_bytes = 0, dirty = False,
     index_file_on_disk = None, pages = [], registered_pools = []\<rparr>"

definition sample_one :: "(unit, nat) disk" where
  "sample_one = snd (disk_set (sample_env 1) ''a'' (Some 7) sample_empty)"

definition sample_two :: "(unit, nat) disk" where
  "sample_two = snd (disk_set (sample_env 2) ''b'' (Some 8) sample_one)"

lemmas disk_eval =
  sample_env_def sample_empty_def disk_set_def flush_index_def save_index_def mark_dirty_def
  touch_access_def enforce_budget_def evictable_def evict_one_def page_path_def disk_get_def
  dict_has_def dict_pop_def disk_exists_def

lemma sample_one_eq:
  "sample_one = \<lparr>max_disk_bytes = 1048576,
     index = [(''a'', \<lparr>pi_size = 600000, pi_last_access = 1\<rparr>)], total_bytes = 600000, dirty = False,
     index_file_on_disk = Some (index_text [(''a'', \<lparr>pi_size = 600000, pi_last_access = 1\<rparr>)] 600000),
     pages = [(''a.pt'', \<lparr>pf_payload = Some 7, pf_size = 600000, pf_mtime = 1\<rparr>)], registered_pools = []\<rparr>"
  by (simp add: sample_one_def disk_eval)

lemma sample_two_eq:
  "sample_two = \<lparr>max_disk_bytes = 1048576,
     index = [(''b'', \<lparr>pi_size = 600000, pi_last_access = 2\<rparr>)], total_bytes = 600000, dirty = False,
     index_file_on_disk = Some (index_text [(''b'', \<lparr>pi_size = 600000, pi_last_access = 2\<rparr>)] 600000),
     pages = [(''b.pt'', \<lparr>pf_payload = Some 8, pf_size = 600000, pf_mtime = 2\<rparr>)], registered_pools = []\<rparr>"
  by (simp add: sample_two_def sample_one_eq disk_eval)

lemma config_one: "config_space_mb (Some (JInt 1)) None = Inr 1"
  by (simp add: config_space_mb_def json_int_def truthy_def)

lemma sample_empty_reachable: "disk_reachable sample_empty"
proof (rule disk_reachable.start)
  show "disk_init (Some (JInt 1)) None None [] = Some (Inr sample_empty)"
    by (simp add: disk_init_def config_one load_index_def sample_empty_def)
qed

lemma sample_one_reachable: "disk_reachable sample_one"
  unfolding sample_one_def by (rule disk_reachable.set [OF sample_empty_reachable])

lemma sample_two_reachable: "disk_reachable sample_two"
  unfolding sample_two_def by (rule disk_reachable.set [OF sample_one_reachable])



theorem enforce_budget_lru_witness:
  "let s = sample_one\<lparr>index := (''c'', \<lparr>pi_size = 1, pi_last_access = 9\<rparr>) # index sample_one,
       total_bytes := 600001, pages := (''c.pt'', \<lparr>pf_payload = Some 1, pf_size = 1, pf_mtime = 9\<rparr>) # pages sample_one\<rparr>
   in 0 < max_disk_bytes s \<and> map fst (index (enforce_budget (\<lambda>_. True) 500000 s)) = [''c''] \<and>
      total_bytes (enforce_budget (\<lambda>_. True) 500000 s) \<le> max_disk_bytes s - 500000"
proof -
  define s where "s = sample_one\<lparr>index := (''c'', \<lparr>pi_size = 1, pi_last_access = 9\<rparr>) # index sample_one,
       total_bytes := 600001, pages := (''c.pt'', \<lparr>pf_payload = Some 1, pf_size = 1, pf_mtime = 9\<rparr>) # pages sample_one\<rparr>"
  have inv: "disk_inv s"
    by (simp add: s_def sample_one_eq disk_inv_def page_backed_def page_path_def)
  have e: "map fst (index (enforce_budget (\<lambda>_. True) 500000 s)) = [''c'']"
    by (simp add: s_def sample_one_eq disk_eval)
  have m: "0 < max_disk_bytes s" by (simp add: s_def sample_one_eq)
  have "total_bytes (enforce_budget (\<lambda>_. True) 500000 s) \<le> max_disk_bytes s - 500000 \<or> index (enforce_budget (\<lambda>_. True) 500000 s) = []"
    using enforce_budget_lru [OF inv m, of "\<lambda>_. True" 500000] by blast
  then have "total_bytes (enforce_budget (\<lambda>_. True) 500000 s) \<le> max_disk_bytes s - 500000" using e by auto
  with e m show ?thesis unfolding Let_def s_def [symmetric] by simp
qed

theorem disk_set_then_get_witness:
  "disk_set (sample_env 2) ''b'' (Some 8) sample_one = (Inr True, sample_two) \<and>
   fst (disk_get True 5 ''b'' sample_two) = Some 8"
proof -
  have set: "disk_set (sample_env 2) ''b'' (Some 8) sample_one = (Inr True, sample_two)"
    by (simp add: sample_two_eq sample_one_eq disk_eval)
  have "\<not> disk_exists sample_one ''b''" by (simp add: sample_one_eq disk_eval)
  with disk_set_then_get [OF sample_one_reachable set, of True 5] set show ?thesis by simp
qed

theorem disk_reopen_witness:
  "\<exists>t :: (unit, nat) disk. disk_init (Some (JInt 1)) None (index_file_on_disk sample_two) (pages sample_two) = Some (Inr t) \<and>
     map fst (index t) = [''b''] \<and> total_bytes t = 600000 \<and> disk_exists t ''b''"
proof -
  have set: "disk_set (sample_env 2) ''b'' (Some 8) sample_one = (Inr True, sample_two)"
    by (simp add: sample_two_eq sample_one_eq disk_eval)
  note again = conjunct2 [OF disk_reopen [OF sample_one_reachable config_one], rule_format, OF set, THEN conjunct2]
  obtain t :: "(unit, nat) disk" where
    t: "disk_init (Some (JInt 1)) None (index_file_on_disk sample_two) (pages sample_two) = Some (Inr t)" "index t = index sample_two"
      "total_bytes t = total_bytes sample_two" "disk_exists t ''b''" using again by (elim exE conjE)
  have "map fst (index t) = [''b'']" "total_bytes t = 600000" using t(2,3) by (simp_all add: sample_two_eq)
  with t(1,4) show ?thesis by (intro exI [of _ t] conjI)
qed

theorem rebuild_index_complete_witness:
  "distinct (map fst (pages sample_two)) \<and>
   dict_get (index (rebuild_index sample_two)) ''b'' = Some \<lparr>pi_size = 600000, pi_last_access = 2\<rparr>"
proof -
  have d: "distinct (map fst (pages sample_two))" by (simp add: sample_two_eq)
  with rebuild_index_complete [OF d] show ?thesis
    by (simp add: sample_two_eq page_path_def)
qed


subsection \<open>Two limits of the backend\<close>

definition small_env :: "nat disk_env" where
  "small_env = \<lparr>de_now = 0, de_saved_size = (\<lambda>_. 1), de_save = WriteOk, de_flush_ok = True,
     de_remove_ok = (\<lambda>_. True), de_load_ok = True\<rparr>"

definition store_all :: "string list \<Rightarrow> (unit, nat) disk \<Rightarrow> (unit, nat) disk" where
  "store_all = fold (\<lambda>k s. snd (disk_set small_env k (Some 0) s))"

lemma store_all_reachable: "disk_reachable s \<Longrightarrow> disk_reachable (store_all ks s)"
  unfolding store_all_def by (induction ks arbitrary: s) (auto intro: disk_reachable.set)

abbreviation trailing_swa :: pool_transfer where
  "trailing_swa \<equiv> \<lparr>pt_name = ''swa'', pt_host_indices = None, pt_device_indices = None, pt_keys = None,
     pt_hit_policy = TRAILING_PAGES, pt_nodes_to_load = None\<rparr>"

abbreviation all_indexer :: pool_transfer where
  "all_indexer \<equiv> \<lparr>pt_name = ''indexer'', pt_host_indices = None, pt_device_indices = None, pt_keys = None,
     pt_hit_policy = ALL_PAGES, pt_nodes_to_load = None\<rparr>"

definition mixed_store :: "(unit, nat) disk" where
  "mixed_store = store_all [''0'', ''1'', ''2'', ''2.swa'', ''0.indexer'', ''1.indexer''] sample_empty"

lemma mixed_store_exists:
  "disk_exists mixed_store k \<longleftrightarrow> k \<in> {''0'', ''1'', ''2'', ''2.swa'', ''0.indexer'', ''1.indexer''}"
  by (auto simp: mixed_store_def store_all_def small_env_def disk_eval)


text \<open>
  An index that lists a page whose file is gone (the process died between removing the file
  and flushing the index) makes \<^verbatim>\<open>set\<close> report success without writing: the page stays
  unreadable.
\<close>

theorem stale_index_swallows_writes:
  "\<exists>t. disk_init (Some (JInt 1)) None (index_file_on_disk sample_one) [] = Some (Inr t) \<and>
     fst (disk_set e ''a'' (Some v) t) = (if de_flush_ok e then Inr True else Inl OSError) \<and>
     fst (disk_get True now ''a'' (snd (disk_set e ''a'' (Some v) t))) = None"
proof -
  have "dict_ok [(''a'', \<lparr>pi_size = 600000, pi_last_access = 1\<rparr>)]" by simp
  from index_text_roundtrip [OF this, of 600000] show ?thesis
    by (auto simp: disk_init_def config_one load_index_def sample_one_eq disk_eval)
qed

end
