(* ===== verification/Kv_Allocator.thy ===== *)
theory Kv_Allocator
  imports Prelude
begin

text \<open>
  The allocators of KV-cache slots, from \<^verbatim>\<open>sglang/srt/mem_cache/allocator.py\<close>: the token
  allocator (page size 1), the paged allocator, its extend and decode kernels with the reference
  implementation of the extend kernel, and \<^verbatim>\<open>get_num_new_pages\<close> of
  \<^verbatim>\<open>sglang/srt/utils/common.py\<close>. Tensors are lists of integers; device memory is a function
  from addresses to values.
\<close>

section \<open>State shared by the allocators\<close>

type_synonym kv_index = int

record allocator =
  pool_size :: int
  page_size :: int
  need_sort :: bool
  free_pages :: "int list"
  release_pages :: "int list"
  is_not_in_free_group :: bool
  free_group :: "kv_index list list"

definition base_available_size :: "allocator \<Rightarrow> int" where
  "base_available_size a =
     (int (length (free_pages a)) + int (length (release_pages a))) * page_size a"

definition backup_state :: "allocator \<Rightarrow> int list \<times> int list" where
  "backup_state a = (free_pages a, release_pages a)"

definition restore_state :: "int list \<times> int list \<Rightarrow> allocator \<Rightarrow> allocator" where
  "restore_state st a = a\<lparr>free_pages := fst st, release_pages := snd st\<rparr>"

definition free_group_begin :: "allocator \<Rightarrow> allocator" where
  "free_group_begin a = a\<lparr>is_not_in_free_group := False, free_group := []\<rparr>"

text \<open>\<^verbatim>\<open>free_group_end\<close>, over the allocator's own \<^verbatim>\<open>free\<close>.\<close>

definition free_group_end_with ::
  "(kv_index list \<Rightarrow> allocator \<Rightarrow> allocator) \<Rightarrow> allocator \<Rightarrow> allocator" where
  "free_group_end_with free_fn a =
     (let a1 = a\<lparr>is_not_in_free_group := True\<rparr>
      in if free_group a1 \<noteq> [] then free_fn (concat (free_group a1)) a1 else a1)"

definition merge_and_sort_free :: "allocator \<Rightarrow> allocator" where
  "merge_and_sort_free a =
     (if release_pages a \<noteq> []
      then a\<lparr>free_pages := sort (free_pages a @ release_pages a), release_pages := []\<rparr>
      else a)"

section \<open>The token allocator\<close>

definition token_clear :: "allocator \<Rightarrow> allocator" where
  "token_clear a = a\<lparr>free_pages := [1..pool_size a], is_not_in_free_group := True, free_group := [],
     release_pages := []\<rparr>"

definition token_init :: "int \<Rightarrow> bool \<Rightarrow> allocator" where
  "token_init sz srt = token_clear \<lparr>pool_size = sz, page_size = 1, need_sort = srt, free_pages = [],
     release_pages = [], is_not_in_free_group = True, free_group = []\<rparr>"

definition token_available_size :: "allocator \<Rightarrow> int" where
  "token_available_size a = int (length (free_pages a)) + int (length (release_pages a))"

definition token_alloc :: "nat \<Rightarrow> allocator \<Rightarrow> kv_index list option \<times> allocator" where
  "token_alloc need_size a =
     (let a1 = (if need_sort a \<and> length (free_pages a) < need_size then merge_and_sort_free a else a)
      in if length (free_pages a1) < need_size then (None, a1)
         else (Some (take need_size (free_pages a1)),
               a1\<lparr>free_pages := drop need_size (free_pages a1)\<rparr>))"

definition token_free :: "kv_index list \<Rightarrow> allocator \<Rightarrow> allocator" where
  "token_free free_index a =
     (if free_index = [] then a
      else if is_not_in_free_group a
      then if need_sort a then a\<lparr>release_pages := release_pages a @ free_index\<rparr>
           else a\<lparr>free_pages := free_pages a @ free_index\<rparr>
      else a\<lparr>free_group := free_group a @ [free_index]\<rparr>)"

definition token_free_group_end :: "allocator \<Rightarrow> allocator" where
  "token_free_group_end = free_group_end_with token_free"

section \<open>The paged allocator\<close>

definition num_pages :: "allocator \<Rightarrow> int" where
  "num_pages a = pool_size a div page_size a"

definition paged_clear :: "allocator \<Rightarrow> allocator" where
  "paged_clear a = a\<lparr>free_pages := [1..num_pages a], is_not_in_free_group := True, free_group := [],
     release_pages := []\<rparr>"

definition paged_init :: "int \<Rightarrow> int \<Rightarrow> bool \<Rightarrow> allocator" where
  "paged_init sz ps srt = paged_clear \<lparr>pool_size = sz, page_size = ps, need_sort = srt, free_pages = [],
     release_pages = [], is_not_in_free_group = True, free_group = []\<rparr>"

text \<open>\<^verbatim>\<open>(pages[:, None] * page_size + arange(page_size)).reshape(-1)\<close>\<close>

definition page_slots :: "int \<Rightarrow> int list \<Rightarrow> kv_index list" where
  "page_slots ps pages = concat (map (\<lambda>p. map (\<lambda>off. p * ps + off) [0..ps - 1]) pages)"

definition paged_alloc :: "int \<Rightarrow> allocator \<Rightarrow> kv_index list option \<times> allocator" where
  "paged_alloc need_size a =
     (let n = nat (need_size div page_size a);
          a1 = (if need_sort a \<and> length (free_pages a) < n then merge_and_sort_free a else a)
      in if length (free_pages a1) < n then (None, a1)
         else (Some (page_slots (page_size a1) (take n (free_pages a1))),
               a1\<lparr>free_pages := drop n (free_pages a1)\<rparr>))"

definition torch_unique :: "int list \<Rightarrow> int list" where
  "torch_unique xs = sort (remdups xs)"

definition paged_free :: "kv_index list \<Rightarrow> allocator \<Rightarrow> allocator" where
  "paged_free free_index a =
     (if free_index = [] then a
      else if is_not_in_free_group a
      then (let free_page_indices = torch_unique (map (\<lambda>i. i div page_size a) free_index)
            in if need_sort a then a\<lparr>release_pages := free_page_indices @ release_pages a\<rparr>
               else a\<lparr>free_pages := free_page_indices @ free_pages a\<rparr>)
      else a\<lparr>free_group := free_group a @ [free_index]\<rparr>)"

definition paged_free_group_end :: "allocator \<Rightarrow> allocator" where
  "paged_free_group_end = free_group_end_with paged_free"

subsection \<open>Counting new pages\<close>

definition pages_upto :: "int \<Rightarrow> int \<Rightarrow> int" where
  "pages_upto ps n = (n + ps - 1) div ps"

definition get_num_new_pages :: "int \<Rightarrow> int list \<Rightarrow> int list option \<Rightarrow> bool \<Rightarrow> int res" where
  "get_num_new_pages ps seq_lens prefix_lens decode =
     (if prefix_lens = None \<or> decode
      then if \<not> decode then Inl AssertionError
           else Inr (int (length (filter (\<lambda>n. n mod ps = 1) seq_lens)))
      else Inr (\<Sum>(s, p)\<leftarrow>zip seq_lens (the prefix_lens). pages_upto ps s - pages_upto ps p))"

subsection \<open>Device memory\<close>

type_synonym mem = "int \<Rightarrow> int"

text \<open>A masked vector store of \<open>n\<close> lanes at \<open>base\<close>.\<close>

definition vstore :: "mem \<Rightarrow> int \<Rightarrow> int \<Rightarrow> (int \<Rightarrow> bool) \<Rightarrow> (int \<Rightarrow> int) \<Rightarrow> mem" where
  "vstore out base n act f =
     (\<lambda>a. if base \<le> a \<and> a < base + n \<and> act (a - base) then f (a - base) else out a)"

text \<open>
  A load from the list of free pages; an address past its end reads whatever the device holds
  there (\<open>oob\<close>).
\<close>

definition load_page :: "int list \<Rightarrow> (int \<Rightarrow> int) \<Rightarrow> int \<Rightarrow> int" where
  "load_page pages oob i = (if 0 \<le> i \<and> i < int (length pages) then pages ! nat i else oob i)"

subsection \<open>The extend kernel and its reference implementation\<close>

definition BLOCK_EXTEND :: int where "BLOCK_EXTEND = 4096"

text \<open>
  One program instance of \<^verbatim>\<open>alloc_extend_kernel\<close>. The sums run over the instances up to it: the
  lanes that the mask of the two loads switches off count as zero, which is what the code relies on.
\<close>

definition alloc_extend_kernel ::
  "int list \<Rightarrow> int list \<Rightarrow> int list \<Rightarrow> int list \<Rightarrow> (int \<Rightarrow> int) \<Rightarrow> int \<Rightarrow> nat \<Rightarrow> mem \<Rightarrow> mem" where
  "alloc_extend_kernel pre_lens seq_lens last_loc pages oob ps pid out =
     (let seq_len = seq_lens ! pid;
          pre_len = pre_lens ! pid;
          extend_len = seq_len - pre_len;
          sum_extend_lens = (\<Sum>(s, p)\<leftarrow>zip (take (Suc pid) seq_lens) (take (Suc pid) pre_lens). s - p);
          output_start_loc = sum_extend_lens - extend_len;
          num_page_start_loc_self = pages_upto ps seq_len - pages_upto ps pre_len;
          sum_num_new_pages = (\<Sum>(s, p)\<leftarrow>zip (take (Suc pid) seq_lens) (take (Suc pid) pre_lens).
                                 pages_upto ps s - pages_upto ps p);
          new_page_start_loc = sum_num_new_pages - num_page_start_loc_self;
          num_part1 = min seq_len (pages_upto ps pre_len * ps) - pre_len;
          out1 = vstore out output_start_loc ps (\<lambda>off. off < num_part1) (\<lambda>off. last_loc ! pid + 1 + off)
      in if pre_len + num_part1 = seq_len then out1
         else
           let num_part2 = seq_len div ps * ps - pages_upto ps pre_len * ps;
               num_blocks = (num_part2 + BLOCK_EXTEND - 1) div BLOCK_EXTEND;
               out2 = fold (\<lambda>block_id m.
                        vstore m (output_start_loc + num_part1 + block_id * BLOCK_EXTEND) BLOCK_EXTEND
                          (\<lambda>off. block_id * BLOCK_EXTEND + off < num_part2)
                          (\<lambda>off. load_page pages oob
                                  (new_page_start_loc + (block_id * BLOCK_EXTEND + off) div ps) * ps
                                + (block_id * BLOCK_EXTEND + off) mod ps))
                      [0..num_blocks - 1] out1
           in if pre_len + num_part1 + num_part2 = seq_len then out2
              else
                let num_part3 = seq_len - seq_len div ps * ps;
                    start_loc = load_page pages oob (new_page_start_loc + num_page_start_loc_self - 1)
                in vstore out2 (output_start_loc + num_part1 + num_part2) ps (\<lambda>off. off < num_part3)
                     (\<lambda>off. start_loc * ps + off))"

text \<open>
  Tensor reads and writes of the reference loop: \<^verbatim>\<open>xs[a:b]\<close> for non-negative bounds is
  shortened at the end of the tensor; \<^verbatim>\<open>xs[i]\<close> counts a negative \<open>i\<close> from the end and
  raises outside; a slice assignment needs as many values as the slice has, or one that is
  repeated.
\<close>

definition tensor_slice :: "'a list \<Rightarrow> int \<Rightarrow> int \<Rightarrow> 'a list" where
  "tensor_slice xs a b = take (nat b - nat a) (drop (nat a) xs)"

definition tensor_item :: "'a list \<Rightarrow> int \<Rightarrow> 'a res" where
  "tensor_item xs i =
     (let j = (if i < 0 then i + int (length xs) else i)
      in if 0 \<le> j \<and> j < int (length xs) then Inr (xs ! nat j) else Inl IndexError)"

definition slice_assign :: "mem \<Rightarrow> int \<Rightarrow> int \<Rightarrow> int list \<Rightarrow> mem res" where
  "slice_assign out base n vals =
     (if int (length vals) = n then Inr (vstore out base n (\<lambda>_. True) (\<lambda>off. vals ! nat off))
      else if length vals = 1 then Inr (vstore out base n (\<lambda>_. True) (\<lambda>_. vals ! 0))
      else Inl RuntimeError)"

text \<open>
  One iteration of the loop of \<^verbatim>\<open>alloc_extend_naive\<close>. \<open>start_pos\<close>, \<open>end_pos\<close>,
  \<open>start_new\<close>, \<open>end_new\<close> are the entries \<open>i\<close> of the cumulative sums.
\<close>

definition cumsum_at :: "int list \<Rightarrow> nat \<Rightarrow> int" where
  "cumsum_at xs i = sum_list (take (Suc i) xs)"

definition alloc_extend_naive_step ::
  "int list \<Rightarrow> int list \<Rightarrow> int list \<Rightarrow> int list \<Rightarrow> int \<Rightarrow> nat \<Rightarrow> mem \<Rightarrow> mem res" where
  "alloc_extend_naive_step prefix_lens seq_lens last_loc pages ps i out =
     (let extend_lens = map2 (-) seq_lens prefix_lens;
          end_pos = cumsum_at extend_lens i;
          start_pos = end_pos - extend_lens ! i;
          num_new_pages = map2 (\<lambda>s p. pages_upto ps s - pages_upto ps p) seq_lens prefix_lens;
          num_full_new_pages = map2 (\<lambda>s p. s div ps - pages_upto ps p) seq_lens prefix_lens;
          need_page = num_new_pages ! i - num_full_new_pages ! i;
          end_new = cumsum_at num_new_pages i;
          start_new = end_new - num_new_pages ! i;
          s = seq_lens ! i; p = prefix_lens ! i;
          num1 = min s (pages_upto ps p * ps) - p;
          out1 = (if num1 \<noteq> 0 then vstore out start_pos num1 (\<lambda>_. True) (\<lambda>off. last_loc ! i + 1 + off) else out)
      in if p + num1 = s then Inr out1
         else
           let num2 = (s div ps - pages_upto ps p) * ps
           in bindE (if num2 \<noteq> 0
                     then slice_assign out1 (start_pos + num1) num2
                            (page_slots ps (tensor_slice pages start_new (end_new - need_page)))
                     else Inr out1)
                (\<lambda>out2. if p + num1 + num2 = s then Inr out2
                 else
                   let num3 = s - s div ps * ps
                   in if num3 \<noteq> 0
                      then bindE (tensor_item pages (end_new - 1))
                             (\<lambda>q. Inr (vstore out2 (end_pos - num3) num3 (\<lambda>_. True) (\<lambda>off. q * ps + off)))
                      else Inr out2))"

definition alloc_extend_naive ::
  "int list \<Rightarrow> int list \<Rightarrow> int list \<Rightarrow> int list \<Rightarrow> int \<Rightarrow> mem \<Rightarrow> mem res" where
  "alloc_extend_naive prefix_lens seq_lens last_loc pages ps out =
     fold (\<lambda>i r. bindE r (alloc_extend_naive_step prefix_lens seq_lens last_loc pages ps i))
       [0..<length prefix_lens] (Inr out)"

subsection \<open>The decode kernel\<close>

definition alloc_decode_kernel ::
  "int list \<Rightarrow> int list \<Rightarrow> int list \<Rightarrow> (int \<Rightarrow> int) \<Rightarrow> int \<Rightarrow> nat \<Rightarrow> mem \<Rightarrow> mem" where
  "alloc_decode_kernel seq_lens last_loc pages oob ps pid out =
     (let seq_len = seq_lens ! pid;
          pre_len = seq_len - 1;
          num_page_start_loc_self = pages_upto ps seq_len - pages_upto ps pre_len;
          sum_num_new_pages = (\<Sum>s\<leftarrow>take (Suc pid) seq_lens. pages_upto ps s - pages_upto ps (s - 1));
          new_page_start_loc = sum_num_new_pages - num_page_start_loc_self
      in if num_page_start_loc_self = 0 then out(int pid := last_loc ! pid + 1)
         else out(int pid := load_page pages oob new_page_start_loc * ps))"

subsection \<open>Allocation for a batch\<close>

text \<open>
  A kernel launch runs the program instances in an order the device chooses: the argument
  \<open>order\<close>. \<open>uninit\<close> is the content of the freshly allocated output tensor.
\<close>

text \<open>\<^verbatim>\<open>xs[k:]\<close>; a negative \<open>k\<close> counts from the end.\<close>

definition slice_from :: "int \<Rightarrow> 'a list \<Rightarrow> 'a list" where
  "slice_from k xs = (if k < 0 then drop (length xs - nat (- k)) xs else drop (nat k) xs)"

definition paged_alloc_extend ::
  "nat list \<Rightarrow> mem \<Rightarrow> (int \<Rightarrow> int) \<Rightarrow> int list \<Rightarrow> int list \<Rightarrow> int list \<Rightarrow> nat \<Rightarrow> int option \<Rightarrow> allocator
     \<Rightarrow> kv_index list option res \<times> allocator" where
  "paged_alloc_extend order uninit oob prefix_lens seq_lens last_loc extend_num_tokens num_new a =
     (let bs = length prefix_lens;
          a1 = (if need_sort a \<and>
                   int (length (free_pages a)) < int extend_num_tokens div page_size a + int bs + 1
                then merge_and_sort_free a else a);
          out = fold (alloc_extend_kernel prefix_lens seq_lens last_loc (free_pages a1) oob (page_size a1))
                  order uninit;
          n = (case num_new of Some n \<Rightarrow> Inr n
               | None \<Rightarrow> get_num_new_pages (page_size a1) seq_lens (Some prefix_lens) False)
      in case n of
           Inl e \<Rightarrow> (Inl e, a1)
         | Inr k \<Rightarrow>
             if int (length (free_pages a1)) < k then (Inr None, a1)
             else (Inr (Some (map (\<lambda>i. out (int i)) [0..<extend_num_tokens])),
                   a1\<lparr>free_pages := slice_from k (free_pages a1)\<rparr>))"

definition paged_alloc_decode ::
  "nat list \<Rightarrow> mem \<Rightarrow> (int \<Rightarrow> int) \<Rightarrow> int list \<Rightarrow> int list \<Rightarrow> allocator
     \<Rightarrow> kv_index list option res \<times> allocator" where
  "paged_alloc_decode order uninit oob seq_lens last_loc a =
     (let bs = length seq_lens;
          a1 = (if need_sort a \<and> length (free_pages a) < bs then merge_and_sort_free a else a);
          out = fold (alloc_decode_kernel seq_lens last_loc (free_pages a1) oob (page_size a1)) order uninit
      in case get_num_new_pages (page_size a1) seq_lens None True of
           Inl e \<Rightarrow> (Inl e, a1)
         | Inr k \<Rightarrow>
             if int (length (free_pages a1)) < k then (Inr None, a1)
             else (Inr (Some (map (\<lambda>i. out (int i)) [0..<bs])),
                   a1\<lparr>free_pages := drop (nat k) (free_pages a1)\<rparr>))"

section \<open>Writes to disjoint regions commute\<close>

text \<open>
  A family of writers, each of which writes its own region: the result holds every writer's
  values in its region and the old content elsewhere, whatever the order.
\<close>

lemma fold_writes_outside:
  assumes "\<And>i out a. i \<in> set xs \<Longrightarrow> \<not> R i a \<Longrightarrow> W i out a = out a"
    and "\<forall>i \<in> set xs. \<not> R i a"
  shows "fold W xs out a = out a"
  using assms by (induction xs arbitrary: out) auto

lemma fold_writes_inside:
  assumes "\<And>i out a. i \<in> set xs \<Longrightarrow> W i out a = (if R i a then v i a else out a)"
    and "\<And>i j. i \<in> set xs \<Longrightarrow> j \<in> set xs \<Longrightarrow> R i a \<Longrightarrow> R j a \<Longrightarrow> i = j"
    and "i \<in> set xs" and "R i a"
  shows "fold W xs out a = v i a"
  using assms
proof (induction xs arbitrary: out)
  case (Cons x xs)
  show ?case
  proof (cases "i \<in> set xs")
    case True
    with Cons show ?thesis by simp
  next
    case False
    then have "i = x" using Cons.prems(3) by simp
    moreover from this False Cons.prems(2,4) have "\<forall>j \<in> set xs. \<not> R j a" by auto
    then have "fold W xs (W x out) a = W x out a"
      using Cons.prems(1) by (intro fold_writes_outside [where R = R]) auto
    ultimately show ?thesis using Cons.prems(1,4) by simp
  qed
qed simp

lemma fold_blocks:
  fixes B n base :: int
  assumes "0 < B" and "0 \<le> n"
  shows "fold (\<lambda>b m. vstore m (base + b * B) B (\<lambda>off. b * B + off < n) (\<lambda>off. f (b * B + off)))
           [0..(n + B - 1) div B - 1] out =
         (\<lambda>a. if base \<le> a \<and> a < base + n then f (a - base) else out a)"
    (is "fold ?W ?bs out = ?r")
proof
  fix a
  let ?R = "\<lambda>b a. base + b * B \<le> a \<and> a < base + b * B + B \<and> a - base < n"
  have W: "?W b m x = (if ?R b x then f (x - base) else m x)" for b m x
    by (auto simp: vstore_def algebra_simps)
  show "fold ?W ?bs out a = ?r a"
  proof (cases "base \<le> a \<and> a < base + n")
    case True
    let ?b = "(a - base) div B"
    have "?b * B \<le> a - base"
      using assms(1) pos_mod_sign [of B "a - base"] div_mult_mod_eq [of "a - base" B] by linarith
    moreover have "a - base < ?b * B + B"
      using assms(1) pos_mod_bound [of B "a - base"] div_mult_mod_eq [of "a - base" B] by linarith
    ultimately have R: "?R ?b a" using True by linarith
    have "?b \<le> (n - 1) div B" using True assms(1) by (intro zdiv_mono1) auto
    also have "\<dots> = (n + B - 1) div B - 1"
      using assms(1) div_add_self2 [of B "n - 1"] by (simp add: algebra_simps)
    finally have mem: "?b \<in> set ?bs" using True assms(1) by (simp add: pos_imp_zdiv_nonneg_iff)
    have uniq: "i = j" if "?R i a" "?R j a" for i j
    proof -
      have "(a - base) div B = i" if "?R i a" for i
        using that assms(1) by (intro int_div_pos_eq [where r = "a - base - i * B"]) (auto simp: algebra_simps)
      with that show ?thesis by metis
    qed
    have "fold ?W ?bs out a = f (a - base)"
      by (rule fold_writes_inside [where R = ?R and v = "\<lambda>i x. f (x - base)" and i = ?b])
        (use W uniq mem R in auto)
    with True show ?thesis by simp
  next
    case False
    have "\<forall>b \<in> set ?bs. \<not> ?R b a"
    proof
      fix b assume "b \<in> set ?bs"
      then have "0 \<le> b * B" using assms(1) by simp
      then show "\<not> ?R b a" using False by linarith
    qed
    then have "fold ?W ?bs out a = out a"
      by (intro fold_writes_outside [where R = ?R]) (auto simp: W)
    with False show ?thesis by auto
  qed
qed

section \<open>The slots an extended request receives\<close>

text \<open>
  The reference meaning of one request: its first tokens fill the page of the last cached slot,
  the others run through its new pages.
\<close>

definition fill_len :: "int \<Rightarrow> int \<Rightarrow> int \<Rightarrow> int" where
  "fill_len ps pre seq = min seq (pages_upto ps pre * ps) - pre"

definition extend_loc ::
  "int \<Rightarrow> int \<Rightarrow> int \<Rightarrow> int \<Rightarrow> (int \<Rightarrow> int) \<Rightarrow> int \<Rightarrow> int" where
  "extend_loc ps pre seq last_loc page_at off =
     (if off < fill_len ps pre seq then last_loc + 1 + off
      else page_at ((off - fill_len ps pre seq) div ps) * ps + (off - fill_len ps pre seq) mod ps)"

lemma pages_upto_bounds:
  fixes ps :: int
  assumes "0 < ps"
  shows "n \<le> pages_upto ps n * ps" and "pages_upto ps n * ps < n + ps"
  using div_mult_mod_eq [of "n + ps - 1" ps] pos_mod_bound [OF assms, of "n + ps - 1"]
    pos_mod_sign [OF assms, of "n + ps - 1"]
  unfolding pages_upto_def by linarith+

lemma pages_upto_le_div: "0 < ps \<Longrightarrow> pages_upto ps p * ps \<le> s \<Longrightarrow> pages_upto ps p \<le> s div (ps :: int)"
  by (metis nonzero_mult_div_cancel_right less_irrefl zdiv_mono1)

lemma pages_upto_div:
  fixes ps :: int
  assumes "0 < ps"
  shows "pages_upto ps s = s div ps + (if s mod ps = 0 then 0 else 1)"
proof -
  have "(s + ps - 1) div ps = (s div ps * ps + (s mod ps + ps - 1)) div ps"
    by (metis add.assoc add_diff_eq div_mult_mod_eq)
  also have "\<dots> = s div ps + (s mod ps + ps - 1) div ps" using assms by simp
  also have "(s mod ps + ps - 1) div ps = (if s mod ps = 0 then 0 else 1)"
  proof (cases "s mod ps = 0")
    case False
    have "0 < s mod ps" "s mod ps < ps" using False assms pos_mod_sign [of ps s] pos_mod_bound [of ps s] by linarith+
    then show ?thesis using False
      by (simp add: int_div_pos_eq [where q = 1 and r = "s mod ps - 1" for q r])
  qed (use assms in simp)
  finally show ?thesis by (simp add: pages_upto_def)
qed

lemma pages_upto_mono: "0 < ps \<Longrightarrow> p \<le> s \<Longrightarrow> pages_upto ps p \<le> pages_upto (ps :: int) s"
  by (simp add: pages_upto_def zdiv_mono1)

lemma vstore_prefix:
  "k \<le> n \<Longrightarrow> vstore out st n (\<lambda>off. off < k) f = (\<lambda>a. if st \<le> a \<and> a < st + k then f (a - st) else out a)"
  by (auto simp: vstore_def fun_eq_iff)

text \<open>The three parts of a request, joined.\<close>

lemma join_parts:
  fixes st n1 n2 n3 :: int
  assumes "0 \<le> n1" "0 \<le> n2" "0 \<le> n3"
    and "out1 = (\<lambda>a. if st \<le> a \<and> a < st + n1 then f (a - st) else out a)"
    and "out2 = (\<lambda>a. if st + n1 \<le> a \<and> a < st + n1 + n2 then g (a - (st + n1)) else out1 a)"
    and "out3 = (\<lambda>a. if st + n1 + n2 \<le> a \<and> a < st + n1 + n2 + n3 then h (a - (st + n1 + n2)) else out2 a)"
  shows "out3 = (\<lambda>a. if st \<le> a \<and> a < st + (n1 + n2 + n3)
     then (let x = a - st in if x < n1 then f x else if x < n1 + n2 then g (x - n1) else h (x - n1 - n2))
     else out a)"
  unfolding assms(4-6) using assms(1-3) by (auto simp: fun_eq_iff Let_def algebra_simps)

lemma extend_loc_parts:
  assumes "0 < ps" and "pages_upto ps pre * ps < seq"
  defines "n1 \<equiv> pages_upto ps pre * ps - pre" and "n2 \<equiv> (seq div ps - pages_upto ps pre) * ps"
    and "n3 \<equiv> seq - seq div ps * ps"
  assumes "0 \<le> x" and "x < seq - pre"
  shows "extend_loc ps pre seq ll pg x =
    (if x < n1 then ll + 1 + x
     else if x < n1 + n2 then pg ((x - n1) div ps) * ps + (x - n1) mod ps
     else pg (pages_upto ps seq - pages_upto ps pre - 1) * ps + (x - n1 - n2))"
proof -
  have fill: "fill_len ps pre seq = n1" using assms(2) by (simp add: fill_len_def n1_def)
  have "(x - n1) div ps = pages_upto ps seq - pages_upto ps pre - 1 \<and> (x - n1) mod ps = x - n1 - n2"
    if "n1 + n2 \<le> x"
  proof -
    let ?r = "x - n1 - n2"
    have r: "0 \<le> ?r" "?r < seq - seq div ps * ps"
      using that assms(7) by (auto simp: n1_def n2_def algebra_simps)
    have m: "seq - seq div ps * ps = seq mod ps" by (simp add: minus_div_mult_eq_mod)
    with r have "seq mod ps \<noteq> 0" "?r < ps" using pos_mod_bound [OF assms(1), of seq] by auto
    then have "pages_upto ps seq = seq div ps + 1" by (simp add: pages_upto_div [OF assms(1)])
    moreover have "(x - n1) div ps = seq div ps - pages_upto ps pre"
      using r \<open>?r < ps\<close> by (intro int_div_pos_eq [where r = ?r]) (simp_all add: n2_def algebra_simps)
    moreover have "(x - n1) mod ps = ?r"
      using r \<open>?r < ps\<close> by (intro int_mod_pos_eq [where q = "seq div ps - pages_upto ps pre"]) (simp_all add: n2_def algebra_simps)
    ultimately show ?thesis by simp
  qed
  then show ?thesis by (auto simp: extend_loc_def fill)
qed

text \<open>What one program instance of the kernel, and one iteration of the reference loop, write.\<close>

definition request_write ::
  "int \<Rightarrow> int \<Rightarrow> int \<Rightarrow> int \<Rightarrow> (int \<Rightarrow> int) \<Rightarrow> int \<Rightarrow> mem \<Rightarrow> mem" where
  "request_write ps pre seq ll pg st out =
     (\<lambda>a. if st \<le> a \<and> a < st + (seq - pre) then extend_loc ps pre seq ll pg (a - st) else out a)"

definition ext_start :: "int list \<Rightarrow> int list \<Rightarrow> nat \<Rightarrow> int" where
  "ext_start seq_lens pre_lens i = sum_list (take i (map2 (-) seq_lens pre_lens))"

definition page_start :: "int \<Rightarrow> int list \<Rightarrow> int list \<Rightarrow> nat \<Rightarrow> int" where
  "page_start ps seq_lens pre_lens i =
     sum_list (take i (map2 (\<lambda>s p. pages_upto ps s - pages_upto ps p) seq_lens pre_lens))"

lemma zip_take_sum:
  "(\<Sum>(s, p)\<leftarrow>zip (take n xs) (take n ys). f s p) = sum_list (take n (map2 f xs ys))"
  by (simp add: take_map take_zip)

lemma sum_take_Suc:
  "i < length xs \<Longrightarrow> sum_list (take (Suc i) xs) = sum_list (take i xs) + (xs ! i :: int)"
  by (simp add: take_Suc_conv_app_nth)

lemma ext_start_Suc:
  assumes "i < length seq_lens" and "length pre_lens = length seq_lens"
  shows "ext_start seq_lens pre_lens (Suc i) = ext_start seq_lens pre_lens i + (seq_lens ! i - pre_lens ! i)"
  using assms by (simp add: ext_start_def sum_take_Suc)

lemma page_start_Suc:
  assumes "i < length seq_lens" and "length pre_lens = length seq_lens"
  shows "page_start ps seq_lens pre_lens (Suc i) =
    page_start ps seq_lens pre_lens i + (pages_upto ps (seq_lens ! i) - pages_upto ps (pre_lens ! i))"
  using assms by (simp add: page_start_def sum_take_Suc)

lemma vstore_all:
  "(if n \<noteq> 0 then vstore out st n (\<lambda>_. True) f else out) =
     (\<lambda>a. if st \<le> a \<and> a < st + n then f (a - st) else out a)"
  by (auto simp: vstore_def fun_eq_iff)

lemma vstore_all_res:
  "(if n \<noteq> 0 then Inr (vstore out st n (\<lambda>_. True) f) else Inr out) =
     Inr (\<lambda>a. if st \<le> a \<and> a < st + n then f (a - st) else out a)"
  using vstore_all [of n out st f] by (cases "n = 0") simp_all

text \<open>A request that outgrows its last cached page is written in the three parts of the kernel.\<close>

lemma request_write_parts:
  assumes ps: "0 < ps" and c: "c = pages_upto ps pre" and more: "c * ps < seq"
  defines "n1 \<equiv> c * ps - pre" and "n2 \<equiv> (seq div ps - c) * ps" and "n3 \<equiv> seq - seq div ps * ps"
  shows "(\<lambda>a. if st + n1 + n2 \<le> a \<and> a < st + n1 + n2 + n3
            then pg (pages_upto ps seq - c - 1) * ps + (a - (st + n1 + n2))
            else if st + n1 \<le> a \<and> a < st + n1 + n2
            then pg ((a - (st + n1)) div ps) * ps + (a - (st + n1)) mod ps
            else if st \<le> a \<and> a < st + n1 then ll + 1 + (a - st) else out a) =
         request_write ps pre seq ll pg st out" (is "?out3 = _")
    and "0 \<le> n1" and "n1 < ps" and "0 \<le> n2" and "0 \<le> n3" and "n3 < ps" and "n1 + n2 + n3 = seq - pre"
proof -
  have b: "pre \<le> c * ps" "c * ps < pre + ps" using pages_upto_bounds [OF ps] by (auto simp: c)
  have cs: "c \<le> seq div ps" unfolding c using more ps by (intro pages_upto_le_div) (simp_all add: c)
  show n1: "0 \<le> n1" "n1 < ps" using b by (simp_all add: n1_def)
  show n2: "0 \<le> n2" using cs ps by (simp add: n2_def)
  show n3: "0 \<le> n3" "n3 < ps"
    using pos_mod_sign [OF ps, of seq] pos_mod_bound [OF ps, of seq] by (simp_all add: minus_div_mult_eq_mod n3_def)
  show sum: "n1 + n2 + n3 = seq - pre" by (simp add: n1_def n2_def n3_def algebra_simps)
  have "?out3 = (\<lambda>a. if st \<le> a \<and> a < st + (n1 + n2 + n3)
      then (let x = a - st in if x < n1 then ll + 1 + x
            else if x < n1 + n2 then pg ((x - n1) div ps) * ps + (x - n1) mod ps
            else pg (pages_upto ps seq - c - 1) * ps + (x - n1 - n2))
      else out a)"
    using n1 n2 n3 by (intro join_parts) simp_all
  also have "\<dots> = request_write ps pre seq ll pg st out"
    unfolding sum using extend_loc_parts [OF ps more [unfolded c]]
    by (auto simp: fun_eq_iff request_write_def Let_def c n1_def n2_def)
  finally show "?out3 = request_write ps pre seq ll pg st out" .
qed

lemma request_write_fill:
  assumes "\<not> pages_upto ps pre * ps < seq"
  shows "(\<lambda>a. if st \<le> a \<and> a < st + (seq - pre) then ll + 1 + (a - st) else out a) =
    request_write ps pre seq ll pg st out"
  using assms by (auto simp: fun_eq_iff request_write_def extend_loc_def fill_len_def)

lemma kernel_writes_request:
  assumes ps: "0 < ps" and len: "pid < length seq_lens" "length pre_lens = length seq_lens"
    and lens: "pre_lens ! pid \<le> seq_lens ! pid"
  shows "alloc_extend_kernel pre_lens seq_lens last_loc pages oob ps pid out =
    request_write ps (pre_lens ! pid) (seq_lens ! pid) (last_loc ! pid)
      (\<lambda>k. load_page pages oob (page_start ps seq_lens pre_lens pid + k))
      (ext_start seq_lens pre_lens pid) out"
proof -
  define pre seq ll where "pre = pre_lens ! pid" and "seq = seq_lens ! pid" and "ll = last_loc ! pid"
  define st ns where "st = ext_start seq_lens pre_lens pid" and "ns = page_start ps seq_lens pre_lens pid"
  define c where "c = pages_upto ps pre"
  have st: "(\<Sum>(s, p)\<leftarrow>zip (take (Suc pid) seq_lens) (take (Suc pid) pre_lens). s - p) - (seq - pre) = st"
    using ext_start_Suc [OF len] unfolding zip_take_sum
    by (simp add: ext_start_def st_def pre_def seq_def)
  have ns: "(\<Sum>(s, p)\<leftarrow>zip (take (Suc pid) seq_lens) (take (Suc pid) pre_lens).
      pages_upto ps s - pages_upto ps p) - (pages_upto ps seq - c) = ns"
    using page_start_Suc [OF len, of ps] unfolding zip_take_sum
    by (simp add: page_start_def ns_def pre_def seq_def c_def)
  let ?pg = "\<lambda>k. load_page pages oob (ns + k)"
  have "alloc_extend_kernel pre_lens seq_lens last_loc pages oob ps pid out =
      request_write ps pre seq ll ?pg st out"
  proof (cases "c * ps < seq")
    case False
    then have n1: "min seq (c * ps) - pre = seq - pre" and e: "pre + (seq - pre) = seq" by simp_all
    have "seq - pre \<le> ps" using False pages_upto_bounds(2) [OF ps, of pre] by (simp add: c_def)
    then have o1: "vstore out st ps (\<lambda>off. off < seq - pre) (\<lambda>off. ll + 1 + off) =
        (\<lambda>a. if st \<le> a \<and> a < st + (seq - pre) then ll + 1 + (a - st) else out a)"
      by (rule vstore_prefix)
    show ?thesis
      unfolding alloc_extend_kernel_def Let_def pre_def [symmetric] seq_def [symmetric] ll_def [symmetric]
        st c_def [symmetric] ns n1 o1 if_P [OF e]
      using False by (intro request_write_fill) (simp add: c_def)
  next
    case True
    let ?n1 = "c * ps - pre" and ?n2 = "(seq div ps - c) * ps" and ?n3 = "seq - seq div ps * ps"
    note parts = request_write_parts [OF ps c_def True]
    let ?out1 = "\<lambda>a. if st \<le> a \<and> a < st + ?n1 then ll + 1 + (a - st) else out a"
    let ?g = "\<lambda>x. ?pg (x div ps) * ps + x mod ps"
    let ?out2 = "\<lambda>a. if st + ?n1 \<le> a \<and> a < st + ?n1 + ?n2 then ?g (a - (st + ?n1)) else ?out1 a"
    let ?h = "\<lambda>x. ?pg (pages_upto ps seq - c - 1) * ps + x"
    have n1: "min seq (c * ps) - pre = ?n1" using True by simp
    have o1: "vstore out st ps (\<lambda>off. off < ?n1) (\<lambda>off. ll + 1 + off) = ?out1"
      using parts(3) by (intro vstore_prefix) simp
    have o2: "fold (\<lambda>b m. vstore m (st + ?n1 + b * BLOCK_EXTEND) BLOCK_EXTEND
          (\<lambda>off. b * BLOCK_EXTEND + off < ?n2) (\<lambda>off. ?g (b * BLOCK_EXTEND + off)))
          [0..(?n2 + BLOCK_EXTEND - 1) div BLOCK_EXTEND - 1] ?out1 = ?out2"
      using parts(4) by (intro fold_blocks) (simp_all add: BLOCK_EXTEND_def)
    have o3: "vstore ?out2 (st + ?n1 + ?n2) ps (\<lambda>off. off < ?n3) ?h =
        (\<lambda>a. if st + ?n1 + ?n2 \<le> a \<and> a < st + ?n1 + ?n2 + ?n3 then ?h (a - (st + ?n1 + ?n2)) else ?out2 a)"
      (is "_ = ?out3") using parts(6) by (intro vstore_prefix) simp
    have n2: "seq div ps * ps - c * ps = ?n2" and more: "pre + ?n1 \<noteq> seq"
      and idx: "ns + (pages_upto ps seq - c) - 1 = ns + (pages_upto ps seq - c - 1)"
      using True by (simp_all add: algebra_simps)
    have "alloc_extend_kernel pre_lens seq_lens last_loc pages oob ps pid out =
        (if pre + ?n1 + ?n2 = seq then ?out2 else ?out3)"
      unfolding alloc_extend_kernel_def Let_def pre_def [symmetric] seq_def [symmetric] ll_def [symmetric]
        st c_def [symmetric] ns n1 n2 o1 o2 idx o3 if_not_P [OF more] ..
    also have "\<dots> = ?out3" using parts(7) by (auto simp: fun_eq_iff)
    also have "\<dots> = request_write ps pre seq ll ?pg st out" by (rule parts(1))
    finally show ?thesis .
  qed
  then show ?thesis by (simp add: pre_def seq_def ll_def st_def ns_def)
qed

text \<open>The slots of a list of pages, in order.\<close>

lemma length_page_slots: "0 < ps \<Longrightarrow> int (length (page_slots ps pages)) = int (length pages) * ps"
  by (induction pages) (auto simp: page_slots_def algebra_simps)

lemma page_slots_nth:
  assumes "0 < ps" and "0 \<le> k" and "k < int (length pages) * ps"
  shows "page_slots ps pages ! nat k = pages ! nat (k div ps) * ps + k mod ps"
  using assms(2,3)
proof (induction pages arbitrary: k)
  case (Cons p pages)
  have slots: "page_slots ps (p # pages) = map (\<lambda>off. p * ps + off) [0..ps - 1] @ page_slots ps pages"
    by (simp add: page_slots_def)
  show ?case
  proof (cases "k < ps")
    case True
    with Cons.prems assms(1) show ?thesis by (simp add: slots nth_append)
  next
    case False
    define q where "q = (k - ps) div ps"
    have k: "k div ps = q + 1" "k mod ps = (k - ps) mod ps" "0 \<le> q"
      using False assms(1) div_pos_geq [of ps k] mod_pos_geq [of ps k]
      by (auto simp: pos_imp_zdiv_nonneg_iff q_def)
    have "page_slots ps (p # pages) ! nat k = page_slots ps pages ! nat (k - ps)"
      using False assms(1) by (simp add: slots nth_append nat_diff_distrib)
    also have "\<dots> = pages ! nat q * ps + (k - ps) mod ps"
      unfolding q_def using Cons.prems False by (intro Cons.IH) (simp_all add: algebra_simps)
    finally show ?thesis unfolding k(1,2) using k(3) by (simp add: nat_add_distrib)
  qed
qed simp

lemma slice_assign_pages:
  assumes "0 < ps" and "0 \<le> ns" and "0 \<le> k" and "ns + k \<le> int (length pages)"
  shows "slice_assign out base (k * ps) (page_slots ps (tensor_slice pages ns (ns + k))) =
    Inr (vstore out base (k * ps) (\<lambda>_. True)
      (\<lambda>off. load_page pages oob (ns + off div ps) * ps + off mod ps))"
proof -
  let ?sl = "tensor_slice pages ns (ns + k)"
  have len: "int (length ?sl) = k" using assms by (simp add: tensor_slice_def nat_add_distrib)
  have "page_slots ps ?sl ! nat off = load_page pages oob (ns + off div ps) * ps + off mod ps"
    if "0 \<le> off" "off < k * ps" for off
  proof -
    have "off div ps * ps < k * ps"
      using that div_mult_mod_eq [of off ps] pos_mod_sign [OF assms(1), of off] by linarith
    then have d: "0 \<le> off div ps" "off div ps < k"
      using that assms(1) by (simp_all add: pos_imp_zdiv_nonneg_iff)
    then have "?sl ! nat (off div ps) = pages ! nat (ns + off div ps)"
      using assms by (simp add: tensor_slice_def nat_add_distrib)
    with d that assms len show ?thesis by (simp add: page_slots_nth load_page_def)
  qed
  then have "vstore out base (k * ps) (\<lambda>_. True) (\<lambda>off. page_slots ps ?sl ! nat off) =
      vstore out base (k * ps) (\<lambda>_. True) (\<lambda>off. load_page pages oob (ns + off div ps) * ps + off mod ps)"
    by (auto simp: vstore_def fun_eq_iff)
  then show ?thesis by (simp add: slice_assign_def length_page_slots [OF assms(1)] len)
qed

lemma slice_assign_pages_all:
  assumes "0 < ps" and "0 \<le> ns" and "0 \<le> k" and "ns + k \<le> int (length pages)"
  shows "(if k * ps \<noteq> 0 then slice_assign out base (k * ps) (page_slots ps (tensor_slice pages ns (ns + k)))
      else Inr out) =
    Inr (\<lambda>a. if base \<le> a \<and> a < base + k * ps
         then load_page pages oob (ns + (a - base) div ps) * ps + (a - base) mod ps else out a)"
  unfolding slice_assign_pages [OF assms, of _ _ oob]
  using vstore_all [of "k * ps" out base "\<lambda>off. load_page pages oob (ns + off div ps) * ps + off mod ps"]
  by auto

lemma tensor_item_load: "0 \<le> i \<Longrightarrow> i < int (length pages) \<Longrightarrow> tensor_item pages i = Inr (load_page pages oob i)"
  by (simp add: tensor_item_def load_page_def)

lemma naive_step_writes_request:
  assumes ps: "0 < ps" and len: "i < length seq_lens" "length pre_lens = length seq_lens"
    and lens: "pre_lens ! i \<le> seq_lens ! i"
    and pages: "0 \<le> page_start ps seq_lens pre_lens i"
      "page_start ps seq_lens pre_lens (Suc i) \<le> int (length pages)"
  shows "alloc_extend_naive_step pre_lens seq_lens last_loc pages ps i out =
    Inr (request_write ps (pre_lens ! i) (seq_lens ! i) (last_loc ! i)
      (\<lambda>k. load_page pages oob (page_start ps seq_lens pre_lens i + k))
      (ext_start seq_lens pre_lens i) out)"
proof -
  define pre seq ll where "pre = pre_lens ! i" and "seq = seq_lens ! i" and "ll = last_loc ! i"
  define st ns where "st = ext_start seq_lens pre_lens i" and "ns = page_start ps seq_lens pre_lens i"
  define c where "c = pages_upto ps pre"
  have ent: "map2 (-) seq_lens pre_lens ! i = seq - pre"
    "map2 (\<lambda>s p. pages_upto ps s - pages_upto ps p) seq_lens pre_lens ! i = pages_upto ps seq - c"
    "map2 (\<lambda>s p. s div ps - pages_upto ps p) seq_lens pre_lens ! i = seq div ps - c"
    using len by (simp_all add: pre_def seq_def c_def)
  have cum: "cumsum_at (map2 (-) seq_lens pre_lens) i = st + (seq - pre)"
    "cumsum_at (map2 (\<lambda>s p. pages_upto ps s - pages_upto ps p) seq_lens pre_lens) i =
       ns + (pages_upto ps seq - c)"
    using ext_start_Suc [OF len] page_start_Suc [OF len, of ps]
    by (simp_all add: cumsum_at_def ext_start_def page_start_def st_def ns_def pre_def seq_def c_def)
  have st: "st + (seq - pre) - (seq - pre) = st"
    and ns: "ns + (pages_upto ps seq - c) - (pages_upto ps seq - c) = ns" by simp_all
  have room: "0 \<le> ns" "ns + (pages_upto ps seq - c) \<le> int (length pages)"
    using pages page_start_Suc [OF len, of ps] by (simp_all add: ns_def seq_def pre_def c_def)
  let ?pg = "\<lambda>k. load_page pages oob (ns + k)"
  have "alloc_extend_naive_step pre_lens seq_lens last_loc pages ps i out =
      Inr (request_write ps pre seq ll ?pg st out)"
  proof (cases "c * ps < seq")
    case False
    then have n1: "min seq (c * ps) - pre = seq - pre" and e: "pre + (seq - pre) = seq" by simp_all
    have "alloc_extend_naive_step pre_lens seq_lens last_loc pages ps i out =
        Inr (\<lambda>a. if st \<le> a \<and> a < st + (seq - pre) then ll + 1 + (a - st) else out a)"
      unfolding alloc_extend_naive_step_def Let_def pre_def [symmetric] seq_def [symmetric] ll_def [symmetric]
        c_def [symmetric] ent cum st ns n1 vstore_all if_P [OF e] ..
    then show ?thesis using False request_write_fill [of ps pre seq st ll out] by (simp add: c_def)
  next
    case True
    let ?n1 = "c * ps - pre" and ?n2 = "(seq div ps - c) * ps" and ?n3 = "seq - seq div ps * ps"
    note parts = request_write_parts [OF ps c_def True]
    let ?out2 = "\<lambda>a. if st + ?n1 \<le> a \<and> a < st + ?n1 + ?n2
        then ?pg ((a - (st + ?n1)) div ps) * ps + (a - (st + ?n1)) mod ps
        else if st \<le> a \<and> a < st + ?n1 then ll + 1 + (a - st) else out a"
    let ?out3 = "\<lambda>a. if st + ?n1 + ?n2 \<le> a \<and> a < st + ?n1 + ?n2 + ?n3
        then ?pg (pages_upto ps seq - c - 1) * ps + (a - (st + ?n1 + ?n2)) else ?out2 a"
    have n1: "min seq (c * ps) - pre = ?n1" and more: "pre + ?n1 \<noteq> seq"
      and idx: "ns + (pages_upto ps seq - c) - 1 = ns + (pages_upto ps seq - c - 1)"
      and full: "ns + (pages_upto ps seq - c) - (pages_upto ps seq - c - (seq div ps - c)) = ns + (seq div ps - c)"
      and e3: "st + (seq - pre) - ?n3 = st + ?n1 + ?n2"
      using True by (simp_all add: algebra_simps)
    have cs: "c \<le> seq div ps" using True ps unfolding c_def by (intro pages_upto_le_div) simp_all
    have up: "seq div ps \<le> pages_upto ps seq" by (simp add: pages_upto_div [OF ps])
    have slots: "(if ?n2 \<noteq> 0 then slice_assign m (st + ?n1) ?n2
          (page_slots ps (tensor_slice pages ns (ns + (seq div ps - c)))) else Inr m) =
        Inr (\<lambda>a. if st + ?n1 \<le> a \<and> a < st + ?n1 + ?n2
          then ?pg ((a - (st + ?n1)) div ps) * ps + (a - (st + ?n1)) mod ps else m a)" for m
      using room cs up by (intro slice_assign_pages_all ps) simp_all
    have page: "c < pages_upto ps seq" if "pre + ?n1 + ?n2 \<noteq> seq"
    proof -
      have "?n3 \<noteq> 0" using that parts(7) by linarith
      then have "seq mod ps \<noteq> 0" unfolding minus_div_mult_eq_mod .
      with cs show ?thesis by (simp add: pages_upto_div [OF ps])
    qed
    then have item: "tensor_item pages (ns + (pages_upto ps seq - c - 1)) = Inr (?pg (pages_upto ps seq - c - 1))"
      if "pre + ?n1 + ?n2 \<noteq> seq"
      using that room by (intro tensor_item_load) auto
    have tail: "(if ?n3 \<noteq> 0 then bindE (tensor_item pages (ns + (pages_upto ps seq - c - 1)))
            (\<lambda>q. Inr (vstore ?out2 (st + ?n1 + ?n2) ?n3 (\<lambda>_. True) (\<lambda>off. q * ps + off))) else Inr ?out2) = Inr ?out3"
      if "pre + ?n1 + ?n2 \<noteq> seq"
      unfolding item [OF that] bindE_simps vstore_all_res ..
    have "alloc_extend_naive_step pre_lens seq_lens last_loc pages ps i out =
        (if pre + ?n1 + ?n2 = seq then Inr ?out2 else Inr ?out3)"
      unfolding alloc_extend_naive_step_def Let_def pre_def [symmetric] seq_def [symmetric] ll_def [symmetric]
        c_def [symmetric] ent cum st ns n1 full idx e3 if_not_P [OF more] vstore_all slots bindE_simps
      by (rule if_cong [OF refl refl tail])
    also have "\<dots> = Inr ?out3"
    proof (cases "pre + ?n1 + ?n2 = seq")
      case True
      then have "?n3 = 0" using parts(7) by linarith
      with True show ?thesis by (simp add: fun_eq_iff)
    qed (rule if_not_P)
    also have "\<dots> = Inr (request_write ps pre seq ll ?pg st out)" using parts(1) by simp
    finally show ?thesis .
  qed
  then show ?thesis by (simp add: pre_def seq_def ll_def st_def ns_def)
qed

section \<open>The batch: positions and pages of the requests\<close>

definition lens_ok :: "int list \<Rightarrow> int list \<Rightarrow> bool" where
  "lens_ok pre_lens seq_lens \<longleftrightarrow>
     length pre_lens = length seq_lens \<and> (\<forall>i < length seq_lens. pre_lens ! i \<le> seq_lens ! i)"

lemma ext_start_mono:
  assumes "lens_ok pre_lens seq_lens" and "i \<le> j" and "j \<le> length seq_lens"
  shows "ext_start seq_lens pre_lens i \<le> ext_start seq_lens pre_lens j"
  using assms(2,3)
proof (induction j rule: dec_induct)
  case (step n)
  then have "pre_lens ! n \<le> seq_lens ! n" using assms(1) by (simp add: lens_ok_def)
  moreover from step assms(1) have "ext_start seq_lens pre_lens (Suc n) =
      ext_start seq_lens pre_lens n + (seq_lens ! n - pre_lens ! n)"
    by (intro ext_start_Suc) (auto simp: lens_ok_def)
  ultimately show ?case using step by linarith
qed simp

lemma page_start_mono:
  assumes "lens_ok pre_lens seq_lens" and "0 < ps" and "i \<le> j" and "j \<le> length seq_lens"
  shows "page_start ps seq_lens pre_lens i \<le> page_start ps seq_lens pre_lens j"
  using assms(3,4)
proof (induction j rule: dec_induct)
  case (step n)
  then have "pages_upto ps (pre_lens ! n) \<le> pages_upto ps (seq_lens ! n)"
    using assms(1,2) by (intro pages_upto_mono) (auto simp: lens_ok_def)
  with step page_start_Suc [of n seq_lens pre_lens ps] assms(1) show ?case by (simp add: lens_ok_def)
qed simp

lemma ext_start_0 [simp]: "ext_start ss ps 0 = 0" and page_start_0 [simp]: "page_start q ss ps 0 = 0"
  by (simp_all add: ext_start_def page_start_def)

abbreviation in_request :: "int list \<Rightarrow> int list \<Rightarrow> nat \<Rightarrow> int \<Rightarrow> bool" where
  "in_request pre_lens seq_lens i a \<equiv>
     ext_start seq_lens pre_lens i \<le> a \<and> a < ext_start seq_lens pre_lens i + (seq_lens ! i - pre_lens ! i)"

lemma in_request_unique:
  assumes "lens_ok pre_lens seq_lens" and "i < length seq_lens" and "j < length seq_lens"
    and "in_request pre_lens seq_lens i a" and "in_request pre_lens seq_lens j a"
  shows "i = j"
proof (rule ccontr)
  have "False" if "i < j" "j < length seq_lens" "in_request pre_lens seq_lens i a"
    "in_request pre_lens seq_lens j a" for i j
    using that ext_start_mono [OF assms(1), of "Suc i" j] ext_start_Suc [of i seq_lens pre_lens] assms(1)
    by (auto simp: lens_ok_def)
  moreover assume "i \<noteq> j"
  ultimately show False using assms by (metis nat_neq_iff)
qed

lemma in_request_exists:
  assumes "lens_ok pre_lens seq_lens" and "0 \<le> a" and "a < ext_start seq_lens pre_lens n"
    and "n \<le> length seq_lens"
  shows "\<exists>i < n. in_request pre_lens seq_lens i a"
  using assms(3,4)
proof (induction n)
  case (Suc n)
  show ?case
  proof (cases "a < ext_start seq_lens pre_lens n")
    case True
    with Suc obtain i where "i < n" "in_request pre_lens seq_lens i a" by auto
    then show ?thesis by (intro exI [of _ i]) simp
  next
    case False
    with Suc ext_start_Suc [of n seq_lens pre_lens] assms(1) show ?thesis
      by (intro exI [of _ n]) (auto simp: lens_ok_def)
  qed
qed (use assms(2) in simp)

text \<open>The output of a launch, at the position of a token.\<close>

lemma launch_at:
  assumes ps: "0 < ps" and lens: "lens_ok pre_lens seq_lens"
    and order: "set order = {..<length seq_lens}"
    and i: "i < length seq_lens" "in_request pre_lens seq_lens i a"
  shows "fold (alloc_extend_kernel pre_lens seq_lens last_loc pages oob ps) order out a =
    extend_loc ps (pre_lens ! i) (seq_lens ! i) (last_loc ! i)
      (\<lambda>k. load_page pages oob (page_start ps seq_lens pre_lens i + k)) (a - ext_start seq_lens pre_lens i)"
proof (rule fold_writes_inside [where i = i and R = "in_request pre_lens seq_lens"])
  fix i out x assume "i \<in> set order"
  then show "alloc_extend_kernel pre_lens seq_lens last_loc pages oob ps i out x =
    (if in_request pre_lens seq_lens i x
     then extend_loc ps (pre_lens ! i) (seq_lens ! i) (last_loc ! i)
      (\<lambda>k. load_page pages oob (page_start ps seq_lens pre_lens i + k)) (x - ext_start seq_lens pre_lens i)
     else out x)"
    using order ps lens by (subst kernel_writes_request) (auto simp: lens_ok_def request_write_def)
next
  fix i j assume "i \<in> set order" "j \<in> set order" "in_request pre_lens seq_lens i a" "in_request pre_lens seq_lens j a"
  with order lens show "i = j" by (intro in_request_unique) auto
qed (use order i in auto)

section \<open>Properties of the kernels\<close>

text \<open>The reference loop, when the free pages suffice, does not fail and runs its iterations.\<close>

lemma naive_runs:
  assumes "0 < ps" and lens: "lens_ok pre_lens seq_lens"
    and "page_start ps seq_lens pre_lens (length seq_lens) \<le> int (length pages)"
  shows "alloc_extend_naive pre_lens seq_lens last_loc pages ps out =
    Inr (fold (alloc_extend_kernel pre_lens seq_lens last_loc pages oob ps) [0..<length seq_lens] out)"
proof -
  let ?K = "alloc_extend_kernel pre_lens seq_lens last_loc pages oob ps"
  let ?N = "\<lambda>i r. bindE r (alloc_extend_naive_step pre_lens seq_lens last_loc pages ps i)"
  have step: "alloc_extend_naive_step pre_lens seq_lens last_loc pages ps i m = Inr (?K i m)"
    if "i < length seq_lens" for i m
  proof -
    have "pre_lens ! i \<le> seq_lens ! i" "length pre_lens = length seq_lens" using lens that by (auto simp: lens_ok_def)
    moreover have "0 \<le> page_start ps seq_lens pre_lens i"
      using page_start_mono [OF lens assms(1), of 0 i] that by simp
    moreover have "page_start ps seq_lens pre_lens (Suc i) \<le> int (length pages)"
      using page_start_mono [OF lens assms(1), of "Suc i" "length seq_lens"] that assms(3) by simp
    ultimately show ?thesis
      using that assms(1) by (simp add: kernel_writes_request naive_step_writes_request [where oob = oob])
  qed
  have "fold ?N xs (Inr m) = Inr (fold ?K xs m)" if "set xs \<subseteq> {..<length seq_lens}" for xs m
    using that by (induction xs arbitrary: m) (simp_all add: bindE_def step)
  from this [of "[0..<length seq_lens]"] lens show ?thesis
    by (simp add: alloc_extend_naive_def lens_ok_def atLeast0LessThan)
qed

lemma launch_order_irrelevant:
  assumes "0 < ps" and lens: "lens_ok pre_lens seq_lens"
    and "set order = {..<length seq_lens}" and "set order' = {..<length seq_lens}"
  shows "fold (alloc_extend_kernel pre_lens seq_lens last_loc pages oob ps) order out =
    fold (alloc_extend_kernel pre_lens seq_lens last_loc pages oob ps) order' out" (is "fold ?K _ _ = _")
proof
  fix a
  let ?R = "in_request pre_lens seq_lens"
  show "fold ?K order out a = fold ?K order' out a"
  proof (cases "\<exists>i < length seq_lens. ?R i a")
    case True
    then obtain i where i: "i < length seq_lens" "?R i a" by blast
    show ?thesis using launch_at [OF assms(1,2,3) i] launch_at [OF assms(1,2,4) i] by simp
  next
    case False
    have K: "?K i m x = m x" if "i < length seq_lens" "\<not> ?R i x" for i m x
      using that assms(1) lens by (auto simp: kernel_writes_request request_write_def lens_ok_def)
    have "fold ?K xs out a = out a" if "set xs = {..<length seq_lens}" for xs
      by (rule fold_writes_outside [where R = ?R]) (use that False in \<open>auto simp: K simp del: not_less\<close>)
    then show ?thesis using assms(3,4) by simp
  qed
qed

text \<open>
  C16: the extend kernel computes what the reference loop computes, in whatever order the device
  runs its program instances, as soon as the free pages cover the batch.
\<close>

theorem extend_kernel_is_reference:
  assumes "0 < ps" and "length pre_lens = length seq_lens"
    and "\<forall>i < length seq_lens. pre_lens ! i \<le> seq_lens ! i"
    and "get_num_new_pages ps seq_lens (Some pre_lens) False = Inr k" and "k \<le> int (length pages)"
    and "set order = {..<length seq_lens}"
  shows "alloc_extend_naive pre_lens seq_lens last_loc pages ps out =
    Inr (fold (alloc_extend_kernel pre_lens seq_lens last_loc pages oob ps) order out)"
proof -
  have lens: "lens_ok pre_lens seq_lens" using assms(2,3) by (simp add: lens_ok_def)
  have "page_start ps seq_lens pre_lens (length seq_lens) \<le> int (length pages)"
    using assms(2,4,5) by (simp add: get_num_new_pages_def page_start_def)
  from naive_runs [OF assms(1) lens this] launch_order_irrelevant [OF assms(1) lens _ assms(6), of "[0..<length seq_lens]"]
  show ?thesis by (simp add: atLeast0LessThan)
qed

theorem extend_kernel_is_reference_witness:
  "alloc_extend_naive [3, 0] [9, 2] [10, -1] [5, 6, 7] 4 (\<lambda>_. 0) =
     Inr (fold (alloc_extend_kernel [3, 0] [9, 2] [10, -1] [5, 6, 7] (\<lambda>_. 0) 4) [1, 0] (\<lambda>_. 0))"
  by (rule extend_kernel_is_reference) (auto simp: less_Suc_eq numeral_2_eq_2 get_num_new_pages_def pages_upto_def)

section \<open>Which slots a batch receives\<close>

text \<open>
  The contract of a call, as the debug assertions of the source state it: the slot after the last
  cached one continues the position of the prefix within its page.
\<close>

definition batch_ok :: "int \<Rightarrow> int list \<Rightarrow> int list \<Rightarrow> int list \<Rightarrow> bool" where
  "batch_ok ps pre_lens seq_lens last_loc \<longleftrightarrow>
     lens_ok pre_lens seq_lens \<and>
     (\<forall>i < length seq_lens. (last_loc ! i + 1) mod ps = pre_lens ! i mod ps)"

lemma fill_len_zero: "0 < ps \<Longrightarrow> pre mod ps = 0 \<Longrightarrow> pre \<le> seq \<Longrightarrow> fill_len ps pre seq = 0"
  using div_mult_mod_eq [of pre ps] by (simp add: fill_len_def pages_upto_div)

lemma fill_len_bounds:
  assumes "0 < ps" and "pre \<le> seq"
  shows "0 \<le> fill_len ps pre seq" and "pre mod ps + fill_len ps pre seq \<le> ps"
    and "fill_len ps pre seq < seq - pre \<Longrightarrow> (pre + fill_len ps pre seq) = pages_upto ps pre * ps"
proof -
  show "0 \<le> fill_len ps pre seq" using pages_upto_bounds(1) [OF assms(1)] assms(2) by (simp add: fill_len_def)
  show "pre mod ps + fill_len ps pre seq \<le> ps"
  proof (cases "pre mod ps = 0")
    case True
    then show ?thesis using assms by (simp add: fill_len_zero)
  next
    case False
    then have "pages_upto ps pre * ps = pre div ps * ps + ps"
      by (simp add: pages_upto_div [OF assms(1)] algebra_simps)
    then show ?thesis using div_mult_mod_eq [of pre ps] unfolding fill_len_def by linarith
  qed
qed (auto simp: fill_len_def)

lemma extend_loc_slot:
  assumes "0 < ps" and "pre \<le> seq" and "(ll + 1) mod ps = pre mod ps" and "0 \<le> off" and "off < seq - pre"
  shows "extend_loc ps pre seq ll pg off mod ps = (pre + off) mod ps"
    and "extend_loc ps pre seq ll pg off div ps =
      (if off < fill_len ps pre seq then ll div ps else pg ((off - fill_len ps pre seq) div ps))"
proof -
  let ?f = "fill_len ps pre seq"
  show "extend_loc ps pre seq ll pg off mod ps = (pre + off) mod ps"
  proof (cases "off < ?f")
    case True
    then show ?thesis using assms(3) by (simp add: extend_loc_def) (metis mod_add_left_eq)
  next
    case False
    then have pf: "pre + ?f = pages_upto ps pre * ps"
      using fill_len_bounds(3) [OF assms(1,2)] assms(5) by simp
    have "(pre + off) mod ps = ((pre + ?f) + (off - ?f)) mod ps" by simp
    also have "\<dots> = (off - ?f) mod ps" unfolding pf by (simp only: mod_mult_self3)
    finally show ?thesis using False by (simp add: extend_loc_def)
  qed
  show "extend_loc ps pre seq ll pg off div ps = (if off < ?f then ll div ps else pg ((off - ?f) div ps))"
  proof (cases "off < ?f")
    case True
    then have "pre mod ps \<noteq> 0" using fill_len_zero [OF assms(1) _ assms(2)] assms(4) by force
    have "0 < pre mod ps" using \<open>pre mod ps \<noteq> 0\<close> pos_mod_sign [OF assms(1), of pre] by linarith
    moreover have "pre mod ps + off < ps" using True fill_len_bounds(2) [OF assms(1,2)] by linarith
    moreover have "ll + 1 = (ll + 1) div ps * ps + pre mod ps" using assms(3) div_mult_mod_eq [of "ll + 1" ps] by simp
    ultimately have "(ll + 1 + off) div ps = (ll + 1) div ps" and "ll div ps = (ll + 1) div ps"
      using assms(4) pos_mod_bound [OF assms(1), of pre]
      by (intro int_div_pos_eq [where r = "pre mod ps + off"] int_div_pos_eq [where r = "pre mod ps - 1"];
          simp add: mult.commute)+
    with True show ?thesis by (simp add: extend_loc_def)
  next
    case False
    then show ?thesis using assms(1) by (simp add: extend_loc_def)
  qed
qed

lemma new_page_index:
  assumes "0 < ps" and "pre \<le> seq" and "fill_len ps pre seq \<le> off" and "off < seq - pre"
  shows "0 \<le> (off - fill_len ps pre seq) div ps"
    and "(off - fill_len ps pre seq) div ps < pages_upto ps seq - pages_upto ps pre"
proof -
  let ?f = "fill_len ps pre seq"
  show "0 \<le> (off - ?f) div ps" using assms(1,3) by (simp add: pos_imp_zdiv_nonneg_iff)
  have "pre + ?f = pages_upto ps pre * ps" using fill_len_bounds(3) [OF assms(1,2)] assms(3,4) by simp
  then have "off - ?f < (pages_upto ps seq - pages_upto ps pre) * ps"
    using assms(4) pages_upto_bounds(1) [OF assms(1), of seq] by (simp add: algebra_simps)
  moreover have "(off - ?f) div ps * ps \<le> off - ?f"
    using div_mult_mod_eq [of "off - ?f" ps] pos_mod_sign [OF assms(1), of "off - ?f"] by linarith
  ultimately have "(off - ?f) div ps * ps < (pages_upto ps seq - pages_upto ps pre) * ps" by linarith
  then show "(off - ?f) div ps < pages_upto ps seq - pages_upto ps pre" using assms(1) by simp
qed

lemma new_page_used:
  assumes "0 < ps" and "pre \<le> seq" and "0 \<le> k" and "k < pages_upto ps seq - pages_upto ps pre"
  shows "\<exists>off. fill_len ps pre seq \<le> off \<and> off < seq - pre \<and> (off - fill_len ps pre seq) div ps = k"
proof (intro exI conjI)
  let ?f = "fill_len ps pre seq"
  have "pages_upto ps pre < pages_upto ps seq" using assms by linarith
  then have more: "pages_upto ps pre * ps < seq"
    using pages_upto_bounds(2) [OF assms(1), of seq] mult_right_mono [of "pages_upto ps pre + 1" "pages_upto ps seq" ps]
      assms(1) by (simp add: algebra_simps)
  then have f: "?f = pages_upto ps pre * ps - pre" by (simp add: fill_len_def)
  have "(k + pages_upto ps pre + 1) * ps \<le> pages_upto ps seq * ps"
    using assms by (intro mult_right_mono) simp_all
  then show "?f + k * ps < seq - pre"
    using pages_upto_bounds(2) [OF assms(1), of seq] by (simp add: f algebra_simps)
  show "?f \<le> ?f + k * ps" using assms by simp
  show "(?f + k * ps - ?f) div ps = k" using assms(1) by simp
qed

text \<open>The slot at a position of the output, through the request that owns the position.\<close>

abbreviation launch ::
  "nat list \<Rightarrow> mem \<Rightarrow> (int \<Rightarrow> int) \<Rightarrow> int \<Rightarrow> int list \<Rightarrow> int list \<Rightarrow> int list \<Rightarrow> int list \<Rightarrow> mem" where
  "launch order uninit oob ps pages pre_lens seq_lens last_loc \<equiv>
     fold (alloc_extend_kernel pre_lens seq_lens last_loc pages oob ps) order uninit"

abbreviation fill_at :: "int \<Rightarrow> int list \<Rightarrow> int list \<Rightarrow> nat \<Rightarrow> int" where
  "fill_at ps pre_lens seq_lens i \<equiv> fill_len ps (pre_lens ! i) (seq_lens ! i)"

lemma launch_slot:
  assumes "0 < ps" and "batch_ok ps pre_lens seq_lens last_loc" and "set order = {..<length seq_lens}"
    and "i < length seq_lens" and "0 \<le> off" and "off < seq_lens ! i - pre_lens ! i"
    and x_def: "x = launch order uninit oob ps pages pre_lens seq_lens last_loc (ext_start seq_lens pre_lens i + off)"
  shows "x mod ps = (pre_lens ! i + off) mod ps"
    and "off < fill_at ps pre_lens seq_lens i \<Longrightarrow> x = last_loc ! i + 1 + off \<and> x div ps = last_loc ! i div ps"
    and "fill_at ps pre_lens seq_lens i \<le> off \<Longrightarrow> x div ps =
      load_page pages oob (page_start ps seq_lens pre_lens i + (off - fill_at ps pre_lens seq_lens i) div ps)"
proof -
  have lens: "lens_ok pre_lens seq_lens" "pre_lens ! i \<le> seq_lens ! i"
    and ll: "(last_loc ! i + 1) mod ps = pre_lens ! i mod ps"
    using assms(2,4) by (auto simp: batch_ok_def lens_ok_def)
  have x: "x = extend_loc ps (pre_lens ! i) (seq_lens ! i) (last_loc ! i)
      (\<lambda>k. load_page pages oob (page_start ps seq_lens pre_lens i + k)) off"
    unfolding x_def using launch_at [OF assms(1) lens(1) assms(3,4)] assms(5,6) by simp
  note slot = extend_loc_slot [OF assms(1) lens(2) ll assms(5,6)]
  show "x mod ps = (pre_lens ! i + off) mod ps" unfolding x by (rule slot(1))
  show "off < fill_at ps pre_lens seq_lens i \<Longrightarrow> x = last_loc ! i + 1 + off \<and> x div ps = last_loc ! i div ps"
    unfolding x using slot(2) by (simp add: extend_loc_def)
  show "fill_at ps pre_lens seq_lens i \<le> off \<Longrightarrow> x div ps =
      load_page pages oob (page_start ps seq_lens pre_lens i + (off - fill_at ps pre_lens seq_lens i) div ps)"
    unfolding x using slot(2) by simp
qed

text \<open>A position of a new page within the list of new pages names the request and the page.\<close>

lemma page_position_unique:
  assumes "0 < ps" and lens: "lens_ok pre_lens seq_lens" and "i < length seq_lens" and "j < length seq_lens"
    and "page_start ps seq_lens pre_lens i + k = page_start ps seq_lens pre_lens j + l"
    and "0 \<le> k" and "k < pages_upto ps (seq_lens ! i) - pages_upto ps (pre_lens ! i)"
    and "0 \<le> l" and "l < pages_upto ps (seq_lens ! j) - pages_upto ps (pre_lens ! j)"
  shows "i = j \<and> k = l"
proof -
  have "\<not> i < j" if "i < length seq_lens" "j < length seq_lens" "0 \<le> l"
      "page_start ps seq_lens pre_lens i + k = page_start ps seq_lens pre_lens j + l"
      "k < pages_upto ps (seq_lens ! i) - pages_upto ps (pre_lens ! i)" for i j k l
  proof
    assume "i < j"
    then have "page_start ps seq_lens pre_lens (Suc i) \<le> page_start ps seq_lens pre_lens j"
      using that by (intro page_start_mono [OF lens assms(1)]) simp_all
    then show False using that lens page_start_Suc [of i seq_lens pre_lens ps] by (simp add: lens_ok_def)
  qed
  from this [OF assms(3,4,8,5,7)] this [OF assms(4,3,6) assms(5) [symmetric] assms(9)]
  show ?thesis using assms(5) by (auto simp: not_less_iff_gr_or_eq)
qed

lemma page_position_exists:
  assumes "0 < ps" and lens: "lens_ok pre_lens seq_lens" and "0 \<le> q" and "q < page_start ps seq_lens pre_lens n"
    and "n \<le> length seq_lens"
  shows "\<exists>i < n. \<exists>k. 0 \<le> k \<and> k < pages_upto ps (seq_lens ! i) - pages_upto ps (pre_lens ! i) \<and>
    q = page_start ps seq_lens pre_lens i + k"
  using assms(4,5)
proof (induction n)
  case (Suc n)
  show ?case
  proof (cases "q < page_start ps seq_lens pre_lens n")
    case True
    with Suc obtain i k where "i < n" "0 \<le> k" "k < pages_upto ps (seq_lens ! i) - pages_upto ps (pre_lens ! i)"
      "q = page_start ps seq_lens pre_lens i + k" by auto
    then show ?thesis using less_SucI by blast
  next
    case False
    with Suc.prems page_start_Suc [of n seq_lens pre_lens ps] lens show ?thesis
      by (intro exI [of _ n] conjI exI [of _ "q - page_start ps seq_lens pre_lens n"]) (auto simp: lens_ok_def)
  qed
qed (use assms(3) in simp)

lemma new_page_loaded:
  assumes "0 < ps" and lens: "lens_ok pre_lens seq_lens" and "i < length seq_lens" and "0 \<le> k"
    and "k < pages_upto ps (seq_lens ! i) - pages_upto ps (pre_lens ! i)"
    and "page_start ps seq_lens pre_lens (length seq_lens) \<le> int (length pages)"
  defines "q \<equiv> page_start ps seq_lens pre_lens i + k"
  shows "load_page pages oob q = pages ! nat q" and "0 \<le> q"
    and "q < page_start ps seq_lens pre_lens (length seq_lens)"
proof -
  show "0 \<le> q" using page_start_mono [OF lens assms(1), of 0 i] assms(3,4) by (simp add: q_def)
  moreover show "q < page_start ps seq_lens pre_lens (length seq_lens)"
    using page_start_mono [OF lens assms(1), of "Suc i" "length seq_lens"] page_start_Suc [of i seq_lens pre_lens ps]
      lens assms(3,5) by (simp add: q_def lens_ok_def)
  ultimately show "load_page pages oob q = pages ! nat q" using assms(6) by (simp add: load_page_def)
qed

text \<open>
  The partly filled last pages belong to their requests alone: they are not free, and no two
  requests of the batch share one.
\<close>

definition own_last_pages :: "int \<Rightarrow> int list \<Rightarrow> int list \<Rightarrow> int list \<Rightarrow> bool" where
  "own_last_pages ps pre_lens last_loc pages \<longleftrightarrow>
     (\<forall>i < length pre_lens. pre_lens ! i mod ps \<noteq> 0 \<longrightarrow> last_loc ! i div ps \<notin> set pages) \<and>
     (\<forall>i < length pre_lens. \<forall>j < length pre_lens. i \<noteq> j \<longrightarrow> pre_lens ! i mod ps \<noteq> 0 \<longrightarrow>
        pre_lens ! j mod ps \<noteq> 0 \<longrightarrow> last_loc ! i div ps \<noteq> last_loc ! j div ps)"

lemma launch_inj:
  assumes ps: "0 < ps" and batch: "batch_ok ps pre_lens seq_lens last_loc"
    and order: "set order = {..<length seq_lens}"
    and own: "own_last_pages ps pre_lens last_loc pages" and dist: "distinct pages"
    and room: "page_start ps seq_lens pre_lens (length seq_lens) \<le> int (length pages)"
    and i: "i < length seq_lens" "0 \<le> off" "off < seq_lens ! i - pre_lens ! i"
    and j: "j < length seq_lens" "0 \<le> off'" "off' < seq_lens ! j - pre_lens ! j"
    and same: "launch order uninit oob ps pages pre_lens seq_lens last_loc (ext_start seq_lens pre_lens i + off) =
      launch order uninit oob ps pages pre_lens seq_lens last_loc (ext_start seq_lens pre_lens j + off')"
  shows "i = j \<and> off = off'"
proof -
  let ?L = "launch order uninit oob ps pages pre_lens seq_lens last_loc"
  let ?fi = "fill_at ps pre_lens seq_lens i" and ?fj = "fill_at ps pre_lens seq_lens j"
  let ?qi = "page_start ps seq_lens pre_lens i + (off - ?fi) div ps"
  let ?qj = "page_start ps seq_lens pre_lens j + (off' - ?fj) div ps"
  have lens: "lens_ok pre_lens seq_lens" "pre_lens ! i \<le> seq_lens ! i" "pre_lens ! j \<le> seq_lens ! j"
    and len: "length pre_lens = length seq_lens"
    using batch i(1) j(1) by (auto simp: batch_ok_def lens_ok_def)
  note si = launch_slot [where uninit = uninit and oob = oob and pages = pages, OF ps batch order i refl]
  note sj = launch_slot [where uninit = uninit and oob = oob and pages = pages, OF ps batch order j refl]
  have part: "pre_lens ! l mod ps \<noteq> 0" if "0 \<le> x" "x < fill_at ps pre_lens seq_lens l" "l < length seq_lens" for x l
    using that lens(1) fill_len_zero [OF ps] by (force simp: lens_ok_def)
  have new_i: "load_page pages oob ?qi = pages ! nat ?qi" "0 \<le> ?qi" "?qi < int (length pages)" if "?fi \<le> off"
    using new_page_loaded [OF ps lens(1) i(1) new_page_index [OF ps lens(2) that i(3)] room] room by auto
  have new_j: "load_page pages oob ?qj = pages ! nat ?qj" "0 \<le> ?qj" "?qj < int (length pages)" if "?fj \<le> off'"
    using new_page_loaded [OF ps lens(1) j(1) new_page_index [OF ps lens(3) that j(3)] room] room by auto
  consider "off < ?fi" "off' < ?fj" | "off < ?fi" "?fj \<le> off'" | "?fi \<le> off" "off' < ?fj" | "?fi \<le> off" "?fj \<le> off'"
    by linarith
  then show ?thesis
  proof cases
    case 1
    then have "last_loc ! i div ps = last_loc ! j div ps" using si(2) sj(2) same by metis
    then have "i = j" using own part [of off i] part [of off' j] 1 i j len by (auto simp: own_last_pages_def)
    then show ?thesis using 1 si(2) sj(2) same by simp
  next
    case 2
    then have "last_loc ! i div ps \<in> set pages" using si(2) sj(3) same new_j by (metis nth_mem nat_less_iff)
    then show ?thesis using own part [of off i] 2 i len by (auto simp: own_last_pages_def)
  next
    case 3
    then have "last_loc ! j div ps \<in> set pages" using sj(2) si(3) same new_i by (metis nth_mem nat_less_iff)
    then show ?thesis using own part [of off' j] 3 j len by (auto simp: own_last_pages_def)
  next
    case 4
    then have "pages ! nat ?qi = pages ! nat ?qj" using si(3) sj(3) same new_i new_j by simp
    then have "?qi = ?qj" using 4 new_i new_j dist by (simp add: nth_eq_iff_index_eq nat_less_iff)
    then have ij: "i = j \<and> (off - ?fi) div ps = (off' - ?fj) div ps"
      using page_position_unique [OF ps lens(1) i(1) j(1)] new_page_index [OF ps lens(2) 4(1) i(3)]
        new_page_index [OF ps lens(3) 4(2) j(3)] by blast
    have "?L (ext_start seq_lens pre_lens i + off) mod ps = ?L (ext_start seq_lens pre_lens j + off') mod ps"
      using same by simp
    then have "(pre_lens ! i + off) mod ps = (pre_lens ! i + off') mod ps" using si(1) sj(1) ij by simp
    then have "(off - ?fi) mod ps = (off' - ?fi) mod ps"
      using mod_diff_cong [of "pre_lens ! i + off" ps "pre_lens ! i + off'" "pre_lens ! i + ?fi" "pre_lens ! i + ?fi"]
      by simp
    moreover have "(off - ?fi) div ps = (off' - ?fi) div ps" using ij by auto
    ultimately have "off - ?fi = off' - ?fi" by (metis div_mult_mod_eq)
    then show ?thesis using ij by simp
  qed
qed

lemma launch_inj_on:
  assumes ps: "0 < ps" and batch: "batch_ok ps pre_lens seq_lens last_loc"
    and order: "set order = {..<length seq_lens}"
    and own: "own_last_pages ps pre_lens last_loc pages" and dist: "distinct pages"
    and room: "page_start ps seq_lens pre_lens (length seq_lens) \<le> int (length pages)"
    and n: "int n = ext_start seq_lens pre_lens (length seq_lens)"
  shows "inj_on (\<lambda>i. launch order uninit oob ps pages pre_lens seq_lens last_loc (int i)) {0..<n}"
proof (rule inj_onI)
  fix x y assume x: "x \<in> {0..<n}" and y: "y \<in> {0..<n}"
    and e: "launch order uninit oob ps pages pre_lens seq_lens last_loc (int x) =
      launch order uninit oob ps pages pre_lens seq_lens last_loc (int y)"
  have lens: "lens_ok pre_lens seq_lens" using batch by (simp add: batch_ok_def)
  from x y n have b: "int x < ext_start seq_lens pre_lens (length seq_lens)"
    "int y < ext_start seq_lens pre_lens (length seq_lens)" by auto
  obtain i j where i: "i < length seq_lens" "in_request pre_lens seq_lens i (int x)"
    and j: "j < length seq_lens" "in_request pre_lens seq_lens j (int y)"
    using in_request_exists [OF lens _ b(1)] in_request_exists [OF lens _ b(2)] by auto
  have "i = j \<and> int x - ext_start seq_lens pre_lens i = int y - ext_start seq_lens pre_lens j"
    using e i j by (intro launch_inj [OF ps batch order own dist room]) auto
  then show "x = y" by auto
qed

text \<open>The pages of the slots of a batch: the partly filled last pages and every new page.\<close>

lemma launch_pages:
  assumes ps: "0 < ps" and batch: "batch_ok ps pre_lens seq_lens last_loc"
    and order: "set order = {..<length seq_lens}"
    and room: "page_start ps seq_lens pre_lens (length seq_lens) \<le> int (length pages)"
  defines "n \<equiv> length seq_lens"
  shows "(\<lambda>a. launch order uninit oob ps pages pre_lens seq_lens last_loc a div ps) `
      {0..<ext_start seq_lens pre_lens n} =
    (\<lambda>i. last_loc ! i div ps) ` {i. i < n \<and> pre_lens ! i < seq_lens ! i \<and> pre_lens ! i mod ps \<noteq> 0} \<union>
    set (take (nat (page_start ps seq_lens pre_lens n)) pages)" (is "?f ` _ = ?A \<union> ?B")
proof (intro set_eqI iffI)
  have lens: "lens_ok pre_lens seq_lens" using batch by (simp add: batch_ok_def)
  have le: "pre_lens ! i \<le> seq_lens ! i" if "i < n" for i using that lens by (simp add: lens_ok_def n_def)
  have B: "?B = (\<lambda>q. pages ! nat q) ` {0..<page_start ps seq_lens pre_lens n}"
  proof -
    let ?N = "page_start ps seq_lens pre_lens n"
    have "{0..<nat ?N} = nat ` {0..<?N}"
    proof (intro set_eqI iffI)
      fix m assume "m \<in> {0..<nat ?N}"
      then show "m \<in> nat ` {0..<?N}" by (intro image_eqI [of _ _ "int m"]) auto
    qed auto
    moreover have "?B = (!) pages ` {0..<nat ?N}" using room by (intro nth_image [symmetric]) (simp add: n_def)
    ultimately show ?thesis by (simp add: image_image)
  qed
  {
    fix x assume "x \<in> ?f ` {0..<ext_start seq_lens pre_lens n}"
    then obtain a where a: "0 \<le> a" "a < ext_start seq_lens pre_lens n" "x = ?f a" by auto
    obtain i where i: "i < n" "in_request pre_lens seq_lens i a"
      using in_request_exists [OF lens a(1,2)] by (auto simp: n_def)
    define off where "off = a - ext_start seq_lens pre_lens i"
    have off: "0 \<le> off" "off < seq_lens ! i - pre_lens ! i" and e: "ext_start seq_lens pre_lens i + off = a"
      using i(2) by (auto simp: off_def)
    note sl = launch_slot [where uninit = uninit and oob = oob and pages = pages, OF ps batch order i(1) [unfolded n_def] off refl, unfolded e]
    show "x \<in> ?A \<union> ?B"
    proof (cases "off < fill_at ps pre_lens seq_lens i")
      case True
      then have "pre_lens ! i mod ps \<noteq> 0" using off(1) le [OF i(1)] fill_len_zero [OF ps] by force
      then show ?thesis using True i(1) sl(2) a(3) off by auto
    next
      case False
      then have f: "fill_at ps pre_lens seq_lens i \<le> off" by simp
      note q = new_page_loaded [OF ps lens i(1) [unfolded n_def] new_page_index [OF ps le [OF i(1)] f off(2)] room]
      have "x = pages ! nat (page_start ps seq_lens pre_lens i + (off - fill_at ps pre_lens seq_lens i) div ps)"
        using sl(3) [OF f] q(1) a(3) by simp
      then show ?thesis unfolding B using q(2,3) by (auto simp: n_def)
    qed
  next
    fix x assume "x \<in> ?A \<union> ?B"
    then obtain i off where i: "i < n" "0 \<le> off" "off < seq_lens ! i - pre_lens ! i"
      and x: "x = ?f (ext_start seq_lens pre_lens i + off)"
    proof
      assume "x \<in> ?A"
      then obtain i where i: "i < n" "pre_lens ! i < seq_lens ! i" "pre_lens ! i mod ps \<noteq> 0" "x = last_loc ! i div ps"
        by auto
      have "pre_lens ! i \<noteq> pages_upto ps (pre_lens ! i) * ps" using i(3) by (metis mod_mult_self2_is_0)
      then have fill: "0 < fill_at ps pre_lens seq_lens i"
        using pages_upto_bounds(1) [OF ps, of "pre_lens ! i"] i(2) by (simp add: fill_len_def)
      have "?f (ext_start seq_lens pre_lens i + 0) = x"
        using launch_slot(2) [where uninit = uninit and oob = oob and pages = pages, OF ps batch order
            i(1) [unfolded n_def] order_refl _ refl fill] i(2,4) by fastforce
      with i that [of i 0] show thesis by simp
    next
      assume "x \<in> ?B"
      then obtain q where q: "0 \<le> q" "q < page_start ps seq_lens pre_lens n" "x = pages ! nat q" by (auto simp: B)
      then obtain i k where i: "i < n" "0 \<le> k" "k < pages_upto ps (seq_lens ! i) - pages_upto ps (pre_lens ! i)"
        "q = page_start ps seq_lens pre_lens i + k"
        using page_position_exists [OF ps lens, of q n] by (auto simp: n_def)
      from new_page_used [OF ps le [OF i(1)] i(2,3)] obtain off where off: "fill_at ps pre_lens seq_lens i \<le> off"
        "off < seq_lens ! i - pre_lens ! i" "(off - fill_at ps pre_lens seq_lens i) div ps = k" by blast
      have "0 \<le> off" using off(1) fill_len_bounds(1) [OF ps le [OF i(1)]] by linarith
      moreover have "load_page pages oob q = pages ! nat q"
        using new_page_loaded(1) [OF ps lens i(1) [unfolded n_def] i(2,3) room] i(4) by simp
      ultimately show thesis
        using that [of i off] launch_slot(3) [where uninit = uninit and oob = oob and pages = pages, 
          OF ps batch order i(1) [unfolded n_def] _ off(2) refl off(1)] i off q
        by simp
    qed
    have "ext_start seq_lens pre_lens i + off < ext_start seq_lens pre_lens (Suc i)"
      using ext_start_Suc [of i seq_lens pre_lens] lens i by (simp add: lens_ok_def n_def)
    then show "x \<in> ?f ` {0..<ext_start seq_lens pre_lens n}"
      using x i ext_start_mono [OF lens, of "Suc i" n] ext_start_mono [OF lens, of 0 i] by (auto simp: n_def)
  }
qed

section \<open>The pages of the pool\<close>

abbreviation pool_pages :: "allocator \<Rightarrow> int list" where
  "pool_pages a \<equiv> free_pages a @ release_pages a"

lemma merge_and_sort_free_fields [simp]:
  "page_size (merge_and_sort_free a) = page_size a" "pool_size (merge_and_sort_free a) = pool_size a"
  "need_sort (merge_and_sort_free a) = need_sort a" "free_group (merge_and_sort_free a) = free_group a"
  "is_not_in_free_group (merge_and_sort_free a) = is_not_in_free_group a"
  "release_pages (merge_and_sort_free a) = []"
  "mset (free_pages (merge_and_sort_free a)) = mset (pool_pages a)"
  by (auto simp: merge_and_sort_free_def)

lemma length_merge_free [simp]: "length (free_pages (merge_and_sort_free a)) = length (pool_pages a)"
  by (metis merge_and_sort_free_fields(7) size_mset)

text \<open>The pool after the merge an allocation may start with.\<close>

definition premerge :: "bool \<Rightarrow> allocator \<Rightarrow> allocator" where
  "premerge b a = (if need_sort a \<and> b then merge_and_sort_free a else a)"

lemma premerge_fields [simp]:
  "page_size (premerge b a) = page_size a" "pool_size (premerge b a) = pool_size a"
  "need_sort (premerge b a) = need_sort a" "free_group (premerge b a) = free_group a"
  "is_not_in_free_group (premerge b a) = is_not_in_free_group a"
  "mset (pool_pages (premerge b a)) = mset (pool_pages a)"
  by (simp_all add: premerge_def)

lemma alloc_extend_outcome:
  assumes "0 < page_size a" and lens: "lens_ok pre_lens seq_lens"
  defines "b \<equiv> \<lambda>a n. int (length (free_pages a)) < int n div page_size a + int (length seq_lens) + 1"
    and "k \<equiv> \<lambda>a. page_start (page_size a) seq_lens pre_lens (length seq_lens)"
  shows "paged_alloc_extend order uninit oob pre_lens seq_lens last_loc n None a =
    (let a1 = premerge (b a n) a in
     if int (length (free_pages a1)) < k a then (Inr None, a1)
     else (Inr (Some (map (\<lambda>i. launch order uninit oob (page_size a) (free_pages a1) pre_lens seq_lens last_loc (int i))
             [0..<n])), a1\<lparr>free_pages := drop (nat (k a)) (free_pages a1)\<rparr>))"
proof -
  have len: "length pre_lens = length seq_lens" using lens by (simp add: lens_ok_def)
  have "get_num_new_pages (page_size a) seq_lens (Some pre_lens) False = Inr (k a)"
    using len by (simp add: get_num_new_pages_def k_def page_start_def)
  moreover have "0 \<le> k a" using page_start_mono [OF lens assms(1), of 0 "length seq_lens"] by (simp add: k_def page_start_def)
  ultimately show ?thesis
    unfolding paged_alloc_extend_def Let_def b_def len premerge_def [symmetric] premerge_fields by (simp add: slice_from_def)
qed

lemma alloc_extend_some:
  assumes "0 < page_size a" and "lens_ok pre_lens seq_lens"
    and "paged_alloc_extend order uninit oob pre_lens seq_lens last_loc n None a = (Inr (Some out), a')"
  shows "\<exists>b. let a1 = premerge b a; k = page_start (page_size a) seq_lens pre_lens (length seq_lens) in
    k \<le> int (length (free_pages a1)) \<and>
    out = map (\<lambda>i. launch order uninit oob (page_size a) (free_pages a1) pre_lens seq_lens last_loc (int i)) [0..<n] \<and>
    a' = a1\<lparr>free_pages := drop (nat k) (free_pages a1)\<rparr>"
  using assms(3) unfolding alloc_extend_outcome [OF assms(1,2)] Let_def
  by (intro exI [of _ "int (length (free_pages a)) < int n div page_size a + int (length seq_lens) + 1"])
    (simp split: if_splits)

text \<open>
  C17: the slots of a batch are pairwise different and stand at the right place of their pages, so
  neither of the debug assertions of \<^verbatim>\<open>alloc_extend\<close> on its output can fail.
\<close>

theorem extend_slots_distinct:
  assumes "0 < page_size a" and "batch_ok (page_size a) pre_lens seq_lens last_loc"
    and "set order = {..<length seq_lens}" and "distinct (free_pages a @ release_pages a)"
    and "own_last_pages (page_size a) pre_lens last_loc (free_pages a @ release_pages a)"
    and "int n = ext_start seq_lens pre_lens (length seq_lens)"
    and "paged_alloc_extend order uninit oob pre_lens seq_lens last_loc n None a = (Inr (Some out), a')"
  shows "distinct out \<and> length out = n \<and>
    (\<forall>i < length seq_lens. \<forall>off. 0 \<le> off \<and> off < seq_lens ! i - pre_lens ! i \<longrightarrow>
      out ! nat (ext_start seq_lens pre_lens i + off) mod page_size a = (pre_lens ! i + off) mod page_size a)"
proof -
  have lens: "lens_ok pre_lens seq_lens" and len: "length pre_lens = length seq_lens"
    using assms(2) by (auto simp: batch_ok_def lens_ok_def)
  from alloc_extend_some [OF assms(1) lens assms(7)] obtain a1 where a1: "mset (pool_pages a1) = mset (pool_pages a)"
    "page_start (page_size a) seq_lens pre_lens (length seq_lens) \<le> int (length (free_pages a1))"
    and out: "out = map (\<lambda>i. launch order uninit oob (page_size a) (free_pages a1) pre_lens seq_lens last_loc (int i)) [0..<n]"
    unfolding Let_def using premerge_fields(6) [of _ a] by blast
  have dist: "distinct (free_pages a1)" and sub: "set (free_pages a1) \<subseteq> set (pool_pages a)"
    using assms(4) a1(1) by (metis distinct_append mset_eq_imp_distinct_iff, metis Un_upper1 mset_eq_setD set_append)
  have own: "own_last_pages (page_size a) pre_lens last_loc (free_pages a1)"
    using assms(5) sub unfolding own_last_pages_def by blast
  have "inj_on (\<lambda>i. launch order uninit oob (page_size a) (free_pages a1) pre_lens seq_lens last_loc (int i)) {0..<n}"
    by (rule launch_inj_on [OF assms(1,2,3) own dist a1(2) assms(6)])
  then have "distinct out" by (simp add: out distinct_map)
  moreover have "out ! nat (ext_start seq_lens pre_lens i + off) mod page_size a = (pre_lens ! i + off) mod page_size a"
    if "i < length seq_lens" "0 \<le> off" "off < seq_lens ! i - pre_lens ! i" for i off
  proof -
    have "ext_start seq_lens pre_lens i + off < int n" "0 \<le> ext_start seq_lens pre_lens i"
      using that assms(6) len ext_start_Suc [of i seq_lens pre_lens] ext_start_mono [OF lens, of "Suc i" "length seq_lens"]
        ext_start_mono [OF lens, of 0 i] by auto
    then show ?thesis
      using that launch_slot(1) [OF assms(1,2,3) that refl] by (simp add: out nat_less_iff)
  qed
  ultimately show ?thesis by (auto simp: out)
qed

theorem extend_slots_distinct_witness:
  "let a = (paged_init 32 4 False)\<lparr>free_pages := [5, 6, 7]\<rparr> in
   \<exists>out a'. paged_alloc_extend [1, 0] (\<lambda>_. 0) (\<lambda>_. 0) [3, 0] [9, 2] [10, -1] 8 None a = (Inr (Some out), a') \<and>
     batch_ok 4 [3, 0] [9, 2] [10, -1] \<and> own_last_pages 4 [3, 0] [10, -1] (free_pages a @ release_pages a) \<and>
     distinct out \<and> length out = 8 \<and> out ! 2 mod 4 = (3 + 2) mod 4"
proof -
  let ?a = "(paged_init 32 4 False)\<lparr>free_pages := [5, 6, 7]\<rparr>"
  have r: "paged_alloc_extend [1, 0] (\<lambda>_. 0) (\<lambda>_. 0) [3, 0] [9, 2] [10, -1] 8 None ?a =
      (Inr (Some [11, 20, 21, 22, 23, 24, 28, 29]), ?a\<lparr>free_pages := []\<rparr>)"
    by (simp add: paged_init_def paged_clear_def num_pages_def alloc_extend_outcome lens_ok_def less_Suc_eq Let_def premerge_def
        alloc_extend_kernel_def page_start_def pages_upto_def vstore_def BLOCK_EXTEND_def load_page_def
        upto.simps upt_rec numeral_eq_Suc)
  have size: "page_size ?a = 4" by (simp add: paged_init_def paged_clear_def)
  have ok: "batch_ok (page_size ?a) [3, 0] [9, 2] [10, -1]"
    "own_last_pages (page_size ?a) [3, 0] [10, -1] (free_pages ?a @ release_pages ?a)"
    by (auto simp: paged_init_def paged_clear_def batch_ok_def lens_ok_def own_last_pages_def less_Suc_eq numeral_2_eq_2)
  have fresh: "distinct (free_pages ?a @ release_pages ?a)" "0 < page_size ?a" "set [1, 0 :: nat] = {..<length [9, 2 :: int]}"
    "int 8 = ext_start [9, 2] [3, 0] (length [9, 2 :: int])"
    by (auto simp: paged_init_def paged_clear_def ext_start_def)
  note slots = extend_slots_distinct [OF fresh(2) ok(1) fresh(3,1) ok(2) fresh(4) r]
  have "distinct [11, 20, 21, 22, 23, 24, 28, 29 :: int]" "length [11, 20, 21, 22, 23, 24, 28, 29 :: int] = 8"
    using slots by blast+
  moreover have "[11, 20, 21, 22, 23, 24, 28, 29] ! nat (ext_start [9, 2] [3, 0] 0 + 2) mod page_size ?a = ([3, 0] ! 0 + 2) mod page_size ?a"
    using slots [THEN conjunct2, THEN conjunct2, rule_format, of 0 2] by simp
  ultimately show ?thesis using r ok size unfolding Let_def by (intro exI conjI) (auto simp: ext_start_def)
qed

text \<open>The estimate that decides whether to merge the released pages bounds the need of the batch.\<close>

lemma mult_le_div: "0 < ps \<Longrightarrow> m * ps \<le> y \<Longrightarrow> m \<le> y div (ps :: int)"
  by (metis nonzero_mult_div_cancel_right less_irrefl zdiv_mono1)

lemma new_pages_estimate:
  assumes "0 < ps" and "p \<le> s"
  shows "pages_upto ps s - pages_upto ps p \<le> (s - p) div ps + 1"
proof -
  have "(pages_upto ps s - pages_upto ps p - 1) * ps \<le> s - p"
    using pages_upto_bounds(2) [OF assms(1), of s] pages_upto_bounds(1) [OF assms(1), of p]
    by (simp add: algebra_simps)
  from mult_le_div [OF assms(1) this] show ?thesis by linarith
qed

lemma div_superadd: "0 < ps \<Longrightarrow> x div ps + y div ps \<le> (x + y) div (ps :: int)"
  by (simp add: div_add1_eq [of x y ps] pos_imp_zdiv_nonneg_iff)

lemma page_start_estimate:
  assumes "0 < ps" and lens: "lens_ok pre_lens seq_lens" and "n \<le> length seq_lens"
  shows "page_start ps seq_lens pre_lens n \<le> ext_start seq_lens pre_lens n div ps + int n"
  using assms(3)
proof (induction n)
  case (Suc n)
  then have n: "n < length seq_lens" "length pre_lens = length seq_lens" "pre_lens ! n \<le> seq_lens ! n"
    using lens by (auto simp: lens_ok_def)
  show ?case
    using Suc.IH n new_pages_estimate [OF assms(1) n(3)]
      div_superadd [OF assms(1), of "ext_start seq_lens pre_lens n" "seq_lens ! n - pre_lens ! n"]
    unfolding ext_start_Suc [OF n(1,2)] page_start_Suc [OF n(1,2)] by linarith
qed simp

lemma alloc_extend_given_count:
  assumes "length pre_lens = length seq_lens" and "k = page_start (page_size a) seq_lens pre_lens (length seq_lens)"
  shows "paged_alloc_extend order uninit oob pre_lens seq_lens last_loc n (Some k) a =
    paged_alloc_extend order uninit oob pre_lens seq_lens last_loc n None a"
proof -
  have "get_num_new_pages (page_size a) seq_lens (Some pre_lens) False = Inr k"
    using assms by (simp add: get_num_new_pages_def page_start_def)
  then show ?thesis by (simp add: paged_alloc_extend_def Let_def merge_and_sort_free_def)
qed

lemma alloc_extend_room:
  assumes "0 < page_size a" and lens: "lens_ok pre_lens seq_lens"
    and "int n = ext_start seq_lens pre_lens (length seq_lens)"
  shows "\<exists>b. paged_alloc_extend order uninit oob pre_lens seq_lens last_loc n None a =
    (let a1 = premerge b a; k = page_start (page_size a) seq_lens pre_lens (length seq_lens) in
     if int (length (free_pages a)) + (if need_sort a then int (length (release_pages a)) else 0) < k then (Inr None, a1)
     else (Inr (Some (map (\<lambda>i. launch order uninit oob (page_size a) (free_pages a1) pre_lens seq_lens last_loc (int i))
             [0..<n])), a1\<lparr>free_pages := drop (nat k) (free_pages a1)\<rparr>)) \<and>
    (page_start (page_size a) seq_lens pre_lens (length seq_lens) \<le> int (length (free_pages (premerge b a))) \<longleftrightarrow>
     page_start (page_size a) seq_lens pre_lens (length seq_lens) \<le>
       int (length (free_pages a)) + (if need_sort a then int (length (release_pages a)) else 0))"
proof -
  let ?k = "page_start (page_size a) seq_lens pre_lens (length seq_lens)"
  let ?b = "int (length (free_pages a)) < int n div page_size a + int (length seq_lens) + 1"
  have "?k \<le> int n div page_size a + int (length seq_lens)"
    using page_start_estimate [OF assms(1) lens order_refl] by (simp add: assms(3))
  then have "?k \<le> int (length (free_pages (premerge ?b a))) \<longleftrightarrow>
      ?k \<le> int (length (free_pages a)) + (if need_sort a then int (length (release_pages a)) else 0)"
    by (auto simp: premerge_def)
  then show ?thesis
    unfolding alloc_extend_outcome [OF assms(1) lens] Let_def by (intro exI [of _ ?b]) (simp add: not_le [symmetric])
qed

text \<open>
  C18: an extend allocation fails exactly when the pool, with the released pages where the
  allocator recycles them lazily, holds fewer pages than the batch needs: the estimate in front
  of the merge never causes a spurious failure.
\<close>

theorem extend_fails_only_when_full:
  assumes "0 < page_size a" and "length pre_lens = length seq_lens"
    and "\<forall>i < length seq_lens. pre_lens ! i \<le> seq_lens ! i"
    and "int n = ext_start seq_lens pre_lens (length seq_lens)"
    and "get_num_new_pages (page_size a) seq_lens (Some pre_lens) False = Inr k"
  shows "fst (paged_alloc_extend order uninit oob pre_lens seq_lens last_loc n None a) = Inr None \<longleftrightarrow>
    int (length (free_pages a)) + (if need_sort a then int (length (release_pages a)) else 0) < k"
proof -
  have lens: "lens_ok pre_lens seq_lens" using assms(2,3) by (simp add: lens_ok_def)
  have k: "k = page_start (page_size a) seq_lens pre_lens (length seq_lens)"
    using assms(2,5) by (simp add: get_num_new_pages_def page_start_def)
  show ?thesis
    using alloc_extend_room [OF assms(1) lens assms(4), of order uninit oob last_loc]
    unfolding Let_def k [symmetric] by auto
qed

theorem extend_fails_only_when_full_witness:
  "fst (paged_alloc_extend [0] (\<lambda>_. 0) (\<lambda>_. 0) [3] [17] [10] 14 None
     ((paged_init 16 4 True)\<lparr>free_pages := [1, 2], release_pages := [4]\<rparr>)) = Inr None"
proof -
  let ?a = "(paged_init 16 4 True)\<lparr>free_pages := [1, 2], release_pages := [4]\<rparr>"
  have "fst (paged_alloc_extend [0] (\<lambda>_. 0) (\<lambda>_. 0) [3] [17] [10] 14 None ?a) = Inr None \<longleftrightarrow>
      int (length (free_pages ?a)) + (if need_sort ?a then int (length (release_pages ?a)) else 0) < 4"
    by (rule extend_fails_only_when_full)
      (simp_all add: paged_init_def paged_clear_def ext_start_def get_num_new_pages_def pages_upto_def)
  then show ?thesis by (simp add: paged_init_def paged_clear_def)
qed

section \<open>Decoding is extending by one token\<close>

lemma decode_starts:
  assumes "i \<le> length seq_lens"
  shows "ext_start seq_lens (map (\<lambda>s. s - 1) seq_lens) i = int i"
    and "page_start ps seq_lens (map (\<lambda>s. s - 1) seq_lens) i =
      (\<Sum>s\<leftarrow>take i seq_lens. pages_upto ps s - pages_upto ps (s - 1))"
proof -
  have m: "map2 f xs (map (\<lambda>s. s - 1) xs) = map (\<lambda>s. f s (s - 1)) xs" for f :: "int \<Rightarrow> int \<Rightarrow> int" and xs
    by (induction xs) simp_all
  show "ext_start seq_lens (map (\<lambda>s. s - 1) seq_lens) i = int i"
    using assms by (simp add: ext_start_def m take_map sum_list_triv)
  show "page_start ps seq_lens (map (\<lambda>s. s - 1) seq_lens) i =
      (\<Sum>s\<leftarrow>take i seq_lens. pages_upto ps s - pages_upto ps (s - 1))"
    by (simp add: page_start_def m take_map)
qed

lemma pages_step:
  assumes "0 < ps"
  shows "pages_upto ps s - pages_upto ps (s - 1) = (if s mod ps = 1 mod ps then 1 else (0 :: int))"
proof -
  have "pages_upto ps s = (s - 1) div ps + 1"
    using assms div_add_self2 [of ps "s - 1"] by (simp add: pages_upto_def algebra_simps)
  moreover have "(s - 1) mod ps = 0 \<longleftrightarrow> s mod ps = 1 mod ps" by (metis mod_eq_dvd_iff dvd_eq_mod_eq_0)
  ultimately show ?thesis by (simp add: pages_upto_div [OF assms, of "s - 1"])
qed

lemma decode_kernel_is_extend:
  assumes "0 < ps" and "i < length seq_lens"
  shows "alloc_decode_kernel seq_lens last_loc pages oob ps i out =
    alloc_extend_kernel (map (\<lambda>s. s - 1) seq_lens) seq_lens last_loc pages oob ps i out"
proof -
  let ?pre = "map (\<lambda>s. s - 1) seq_lens" and ?s = "seq_lens ! i"
  let ?q = "(\<Sum>s\<leftarrow>take (Suc i) seq_lens. pages_upto ps s - pages_upto ps (s - 1)) -
    (pages_upto ps ?s - pages_upto ps (?s - 1))"
  have q: "?q = page_start ps seq_lens ?pre i"
    using decode_starts(2) [of i seq_lens ps] assms(2) by (simp add: take_Suc_conv_app_nth)
  have fill: "fill_len ps (?s - 1) ?s = (if pages_upto ps ?s - pages_upto ps (?s - 1) = 0 then 1 else 0)"
    using pages_upto_bounds [OF assms(1), of "?s - 1"] pages_upto_bounds [OF assms(1), of ?s]
      pages_step [OF assms(1), of ?s] pages_upto_div [OF assms(1), of "?s - 1"] div_mult_mod_eq [of "?s - 1" ps]
    by (auto simp: fill_len_def min_def algebra_simps split: if_splits)
  have "alloc_extend_kernel ?pre seq_lens last_loc pages oob ps i out =
      (\<lambda>a. if a = int i then extend_loc ps (?s - 1) ?s (last_loc ! i)
          (\<lambda>k. load_page pages oob (page_start ps seq_lens ?pre i + k)) 0 else out a)"
    using assms decode_starts(1) [of i seq_lens]
    by (subst kernel_writes_request) (auto simp: request_write_def fun_eq_iff)
  also have "\<dots> = alloc_decode_kernel seq_lens last_loc pages oob ps i out"
    unfolding alloc_decode_kernel_def Let_def q by (auto simp: extend_loc_def fill fun_eq_iff)
  finally show ?thesis by simp
qed

lemma decode_launch:
  assumes "0 < ps" and "set order \<subseteq> {..<length seq_lens}"
  shows "fold (alloc_decode_kernel seq_lens last_loc pages oob ps) order out =
    launch order out oob ps pages (map (\<lambda>s. s - 1) seq_lens) seq_lens last_loc"
  using assms by (intro fold_cong refl) (auto simp: decode_kernel_is_extend fun_eq_iff)

lemma decode_count:
  assumes "1 < ps"
  shows "get_num_new_pages ps seq_lens None True =
    get_num_new_pages ps seq_lens (Some (map (\<lambda>s. s - 1) seq_lens)) False"
proof -
  have "int (length (filter (\<lambda>n. n mod ps = 1) xs)) =
      (\<Sum>(s, p)\<leftarrow>zip xs (map (\<lambda>s. s - 1) xs). pages_upto ps s - pages_upto ps p)" for xs
    using assms by (induction xs) (simp_all add: pages_step)
  then show ?thesis by (simp add: get_num_new_pages_def)
qed

text \<open>
  C19: a decode step is an extension of every request by one token. The decode kernel writes what
  the extend kernel writes, and with pages of at least two slots the count of new pages that
  \<^verbatim>\<open>alloc_decode\<close> takes off the pool is the count of the pages the kernel hands out.
\<close>

theorem decode_is_extend_by_one:
  assumes "1 < ps" and "set order \<subseteq> {..<length seq_lens}"
  shows "fold (alloc_decode_kernel seq_lens last_loc pages oob ps) order out =
      fold (alloc_extend_kernel (map (\<lambda>s. s - 1) seq_lens) seq_lens last_loc pages oob ps) order out \<and>
    get_num_new_pages ps seq_lens None True =
      get_num_new_pages ps seq_lens (Some (map (\<lambda>s. s - 1) seq_lens)) False"
  using decode_launch decode_count assms by simp

theorem decode_is_extend_by_one_witness:
  "get_num_new_pages 4 [5, 7] None True = get_num_new_pages 4 [5, 7] (Some [4, 6]) False"
  using decode_is_extend_by_one [of 4 "[0, 1]" "[5, 7]" "[7, 13]" "[3]" "\<lambda>_. 0" "\<lambda>_. 0"]
  by (simp add: numeral_2_eq_2 lessThan_Suc)

text \<open>
  With pages of one slot the two counts differ: every token of a decode step takes a page, but the
  count is 0, so the pages stay in the pool and the next step hands them out again. (A page size
  of one is served by the token allocator, which does not count pages.)
\<close>

lemma decode_with_single_slot_pages:
  "paged_alloc_decode [0] (\<lambda>_. 0) (\<lambda>_. 0) [5] [7] (paged_init 8 1 False) =
     (Inr (Some [1]), paged_init 8 1 False)"
  by (simp add: paged_init_def paged_clear_def num_pages_def paged_alloc_decode_def get_num_new_pages_def
      alloc_decode_kernel_def pages_upto_def load_page_def upto.simps)

section \<open>No page is lost and none is handed out twice\<close>

definition pages_in :: "int \<Rightarrow> kv_index list \<Rightarrow> int set" where
  "pages_in ps slots = (\<lambda>i. i div ps) ` set slots"

definition slots_of :: "kv_index list option \<Rightarrow> kv_index list" where
  "slots_of r = (case r of None \<Rightarrow> [] | Some xs \<Rightarrow> xs)"

text \<open>
  The states of a paged allocator together with the pages its clients hold. Clients respect the
  contract: they extend requests they hold the last page of, free only what they hold, and open
  a free group only when none is open. Within a group a page may be freed by several calls.
\<close>

definition grouped_pages :: "allocator \<Rightarrow> int set" where
  "grouped_pages a = (if is_not_in_free_group a then {} else pages_in (page_size a) (concat (free_group a)))"

inductive paged_run :: "allocator \<Rightarrow> int set \<Rightarrow> bool" where
  start: "0 < ps \<Longrightarrow> paged_run (paged_init sz ps srt) {}"
| alloc: "paged_run a H \<Longrightarrow> paged_alloc n a = (r, a') \<Longrightarrow>
    paged_run a' (H \<union> pages_in (page_size a) (slots_of r))"
| extend: "paged_run a H \<Longrightarrow> batch_ok (page_size a) pre_lens seq_lens last_loc \<Longrightarrow>
    set order = {..<length seq_lens} \<Longrightarrow> int n = ext_start seq_lens pre_lens (length seq_lens) \<Longrightarrow>
    \<forall>i < length seq_lens. pre_lens ! i mod page_size a \<noteq> 0 \<longrightarrow> last_loc ! i div page_size a \<in> H \<Longrightarrow>
    paged_alloc_extend order uninit oob pre_lens seq_lens last_loc n None a = (Inr r, a') \<Longrightarrow>
    paged_run a' (H \<union> pages_in (page_size a) (slots_of r))"
| decode: "paged_run a H \<Longrightarrow> 1 < page_size a \<Longrightarrow>
    batch_ok (page_size a) (map (\<lambda>s. s - 1) seq_lens) seq_lens last_loc \<Longrightarrow>
    set order = {..<length seq_lens} \<Longrightarrow>
    \<forall>i < length seq_lens. (seq_lens ! i - 1) mod page_size a \<noteq> 0 \<longrightarrow> last_loc ! i div page_size a \<in> H \<Longrightarrow>
    paged_alloc_decode order uninit oob seq_lens last_loc a = (Inr r, a') \<Longrightarrow>
    paged_run a' (H \<union> pages_in (page_size a) (slots_of r))"
| free: "paged_run a H \<Longrightarrow> pages_in (page_size a) slots \<subseteq> H \<union> grouped_pages a \<Longrightarrow>
    paged_run (paged_free slots a) (H - pages_in (page_size a) slots)"
| group_begin: "paged_run a H \<Longrightarrow> is_not_in_free_group a \<Longrightarrow> paged_run (free_group_begin a) H"
| group_end: "paged_run a H \<Longrightarrow> \<not> is_not_in_free_group a \<Longrightarrow> paged_run (paged_free_group_end a) H"
| clear: "paged_run a H \<Longrightarrow> paged_run (paged_clear a) {}"

definition paged_partition :: "allocator \<Rightarrow> int set \<Rightarrow> bool" where
  "paged_partition a H \<longleftrightarrow> 0 < page_size a \<and> distinct (pool_pages a) \<and>
     set (pool_pages a) \<inter> H = {} \<and> set (pool_pages a) \<inter> grouped_pages a = {} \<and> H \<inter> grouped_pages a = {} \<and>
     set (pool_pages a) \<union> H \<union> grouped_pages a = {1..num_pages a}"

lemma partition_fields_cong:
  assumes "mset (pool_pages b) = mset (pool_pages a)" "page_size b = page_size a" "pool_size b = pool_size a"
    "free_group b = free_group a" "is_not_in_free_group b = is_not_in_free_group a"
  shows "paged_partition b H \<longleftrightarrow> paged_partition a H"
proof -
  have "set (pool_pages b) = set (pool_pages a)" "distinct (pool_pages b) \<longleftrightarrow> distinct (pool_pages a)"
    using assms(1) mset_eq_setD mset_eq_imp_distinct_iff by blast+
  then show ?thesis using assms(2-5) by (simp only: paged_partition_def grouped_pages_def num_pages_def)
qed

lemma partition_premerge [simp]: "paged_partition (premerge b a) H \<longleftrightarrow> paged_partition a H"
  by (rule partition_fields_cong [OF premerge_fields(6)]) simp_all

text \<open>Taking pages off the front of the free list hands them to the client.\<close>

lemma partition_take:
  assumes "paged_partition a H" and "G = H \<union> set (take k (free_pages a))"
  shows "paged_partition (a\<lparr>free_pages := drop k (free_pages a)\<rparr>) G"
proof -
  have s: "set (free_pages a) = set (take k (free_pages a)) \<union> set (drop k (free_pages a))"
    by (metis append_take_drop_id set_append)
  have d: "distinct (take k (free_pages a) @ drop k (free_pages a))"
    using assms(1) by (simp add: paged_partition_def)
  then have "set (take k (free_pages a)) \<inter> set (drop k (free_pages a)) = {}" unfolding distinct_append by blast
  moreover have "set (take k (free_pages a)) \<inter> set (release_pages a) = {}"
    using assms(1) set_take_subset [of k "free_pages a"] by (auto simp: paged_partition_def)
  moreover have "grouped_pages (a\<lparr>free_pages := drop k (free_pages a)\<rparr>) = grouped_pages a"
    "num_pages (a\<lparr>free_pages := drop k (free_pages a)\<rparr>) = num_pages a"
    by (simp_all add: grouped_pages_def num_pages_def)
  ultimately show ?thesis
    using assms unfolding paged_partition_def by (auto simp: s)
qed

lemma pages_in_Nil [simp]: "pages_in ps [] = {}"
  by (simp add: pages_in_def)

lemma page_slots_pages:
  assumes "0 < ps"
  shows "pages_in ps (page_slots ps pages) = set pages"
proof -
  have "(\<lambda>i. i div ps) ` (\<lambda>off. p * ps + off) ` {0..ps - 1} = {p}" for p
  proof -
    have "(\<lambda>off. (p * ps + off) div ps) ` {0..ps - 1} = (\<lambda>_. p) ` {0..ps - 1}" by (rule image_cong) auto
    then show ?thesis unfolding image_image using assms by (simp add: image_constant_conv)
  qed
  then show ?thesis unfolding pages_in_def page_slots_def set_concat set_map set_upto image_UN by simp
qed

lemma partition_alloc:
  assumes "paged_partition a H" and "paged_alloc n a = (r, a')"
  shows "paged_partition a' (H \<union> pages_in (page_size a) (slots_of r))"
proof -
  let ?n = "nat (n div page_size a)"
  let ?a1 = "premerge (length (free_pages a) < ?n) a"
  have ps: "0 < page_size a" using assms(1) by (simp add: paged_partition_def)
  have e: "paged_alloc n a = (if length (free_pages ?a1) < ?n then (None, ?a1)
      else (Some (page_slots (page_size a) (take ?n (free_pages ?a1))),
            ?a1\<lparr>free_pages := drop ?n (free_pages ?a1)\<rparr>))"
    unfolding paged_alloc_def Let_def premerge_def [symmetric] premerge_fields ..
  have "paged_partition ?a1 H" using assms(1) by simp
  then show ?thesis
    using assms(2) partition_take [of ?a1 H _ ?n] unfolding e
    by (auto simp: slots_of_def page_slots_pages [OF ps] split: if_splits)
qed

lemma partition_launch:
  assumes part: "paged_partition a H" and batch: "batch_ok (page_size a) pre_lens seq_lens last_loc"
    and order: "set order = {..<length seq_lens}"
    and n: "int n = ext_start seq_lens pre_lens (length seq_lens)"
    and held: "\<forall>i < length seq_lens. pre_lens ! i mod page_size a \<noteq> 0 \<longrightarrow> last_loc ! i div page_size a \<in> H"
    and room: "page_start (page_size a) seq_lens pre_lens (length seq_lens) \<le> int (length (free_pages a))"
  shows "paged_partition (a\<lparr>free_pages := drop (nat (page_start (page_size a) seq_lens pre_lens (length seq_lens)))
        (free_pages a)\<rparr>)
      (H \<union> pages_in (page_size a)
        (map (\<lambda>i. launch order uninit oob (page_size a) (free_pages a) pre_lens seq_lens last_loc (int i)) [0..<n]))"
proof (rule partition_take [OF part])
  let ?k = "nat (page_start (page_size a) seq_lens pre_lens (length seq_lens))"
  let ?L = "launch order uninit oob (page_size a) (free_pages a) pre_lens seq_lens last_loc"
  have ps: "0 < page_size a" using part by (simp add: paged_partition_def)
  have "pages_in (page_size a) (map (\<lambda>i. ?L (int i)) [0..<n]) = (\<lambda>a'. ?L a' div page_size a) ` int ` {0..<n}"
    by (simp only: pages_in_def set_map set_upt image_image)
  also have "\<dots> = (\<lambda>a'. ?L a' div page_size a) ` {0..<ext_start seq_lens pre_lens (length seq_lens)}"
    unfolding n [symmetric] by (simp add: image_int_atLeastLessThan)
  also have "\<dots> = (\<lambda>i. last_loc ! i div page_size a) `
      {i. i < length seq_lens \<and> pre_lens ! i < seq_lens ! i \<and> pre_lens ! i mod page_size a \<noteq> 0} \<union>
      set (take ?k (free_pages a))"
    by (rule launch_pages [OF ps batch order room])
  finally show "H \<union> pages_in (page_size a) (map (\<lambda>i. ?L (int i)) [0..<n]) = H \<union> set (take ?k (free_pages a))"
    using held by auto
qed

lemma set_torch_unique [simp]: "set (torch_unique xs) = set xs" and distinct_torch_unique [simp]: "distinct (torch_unique xs)"
  by (simp_all add: torch_unique_def)

lemma partition_give:
  assumes "paged_partition a H" and "distinct f" and "set f \<subseteq> H"
    and "mset (pool_pages b) = mset (f @ pool_pages a)"
    and "page_size b = page_size a" and "num_pages b = num_pages a" and "grouped_pages b = grouped_pages a"
  shows "paged_partition b (H - set f)"
proof -
  define P Q where "P = pool_pages a" and "Q = pool_pages b"
  have "set Q = set f \<union> set P" "distinct Q \<longleftrightarrow> distinct (f @ P)"
    using assms(4) mset_eq_setD [of Q "f @ P"] mset_eq_imp_distinct_iff [of Q "f @ P"] by (simp_all add: P_def Q_def)
  with assms(1-3,5-7) show ?thesis
    unfolding paged_partition_def P_def [symmetric] Q_def [symmetric] by auto
qed

lemma partition_free_now:
  assumes "paged_partition a H" and "is_not_in_free_group a"
    and "pages_in (page_size a) slots \<subseteq> H"
  shows "paged_partition (paged_free slots a) (H - pages_in (page_size a) slots)"
proof (cases "slots = []")
  case False
  let ?f = "torch_unique (map (\<lambda>i. i div page_size a) slots)"
  have f: "set ?f = pages_in (page_size a) slots" by (simp add: pages_in_def)
  have "paged_partition (paged_free slots a) (H - set ?f)"
    using False assms(2,3) f
    by (intro partition_give [OF assms(1)]) (simp_all add: paged_free_def Let_def grouped_pages_def num_pages_def)
  then show ?thesis unfolding f .
qed (use assms(1) in \<open>simp add: paged_free_def\<close>)

lemma partition_free_group:
  assumes "paged_partition a H" and "\<not> is_not_in_free_group a"
    and "pages_in (page_size a) slots \<subseteq> H \<union> grouped_pages a"
  shows "paged_partition (paged_free slots a) (H - pages_in (page_size a) slots)"
proof (cases "slots = []")
  case False
  then have "paged_free slots a = a\<lparr>free_group := free_group a @ [slots]\<rparr>"
    using assms(2) by (simp add: paged_free_def)
  moreover have "grouped_pages (a\<lparr>free_group := free_group a @ [slots]\<rparr>) =
      grouped_pages a \<union> pages_in (page_size a) slots"
    "num_pages (a\<lparr>free_group := free_group a @ [slots]\<rparr>) = num_pages a"
    using assms(2) by (auto simp: grouped_pages_def pages_in_def num_pages_def)
  ultimately show ?thesis
    using assms(1,3) unfolding paged_partition_def by auto
qed (use assms(1) in \<open>simp add: paged_free_def\<close>)

lemma partition_group_begin:
  assumes "paged_partition a H" and "is_not_in_free_group a"
  shows "paged_partition (free_group_begin a) H"
  using assms by (simp add: paged_partition_def free_group_begin_def grouped_pages_def num_pages_def)

lemma partition_group_end:
  assumes "paged_partition a H" and "\<not> is_not_in_free_group a"
  shows "paged_partition (paged_free_group_end a) H"
proof -
  let ?a = "a\<lparr>is_not_in_free_group := True\<rparr>" and ?G = "grouped_pages a"
  have G: "?G = pages_in (page_size a) (concat (free_group a))" using assms(2) by (simp add: grouped_pages_def)
  have p: "paged_partition ?a (H \<union> ?G)"
    using assms(1) by (auto simp: paged_partition_def grouped_pages_def num_pages_def)
  show ?thesis
  proof (cases "free_group a = []")
    case True
    then show ?thesis using p G by (simp add: paged_free_group_end_def free_group_end_with_def Let_def)
  next
    case False
    then have "paged_free_group_end a = paged_free (concat (free_group a)) ?a"
      by (simp add: paged_free_group_end_def free_group_end_with_def Let_def)
    moreover have "paged_partition (paged_free (concat (free_group a)) ?a) (H \<union> ?G - ?G)"
      using partition_free_now [OF p, of "concat (free_group a)"] G by simp
    moreover have "H \<union> ?G - ?G = H" using assms(1) by (auto simp: paged_partition_def)
    ultimately show ?thesis by simp
  qed
qed

lemma partition_clear: "paged_partition a H \<Longrightarrow> paged_partition (paged_clear a) {}"
  by (simp add: paged_partition_def paged_clear_def grouped_pages_def num_pages_def)

lemma partition_extend:
  assumes "paged_partition a H" and "batch_ok (page_size a) pre_lens seq_lens last_loc"
    and "set order = {..<length seq_lens}" and "int n = ext_start seq_lens pre_lens (length seq_lens)"
    and "\<forall>i < length seq_lens. pre_lens ! i mod page_size a \<noteq> 0 \<longrightarrow> last_loc ! i div page_size a \<in> H"
    and "paged_alloc_extend order uninit oob pre_lens seq_lens last_loc n None a = (Inr r, a')"
  shows "paged_partition a' (H \<union> pages_in (page_size a) (slots_of r))"
proof -
  have lens: "lens_ok pre_lens seq_lens" and ps: "0 < page_size a"
    using assms(1,2) by (simp_all add: batch_ok_def paged_partition_def)
  show ?thesis
  proof (cases r)
    case None
    then show ?thesis using assms(1,6) unfolding alloc_extend_outcome [OF ps lens] Let_def
      by (auto simp: slots_of_def split: if_splits)
  next
    case (Some out)
    from alloc_extend_some [OF ps lens assms(6) [unfolded Some]] obtain b where
      b: "page_start (page_size a) seq_lens pre_lens (length seq_lens) \<le> int (length (free_pages (premerge b a)))"
      and out: "out = map (\<lambda>i. launch order uninit oob (page_size a) (free_pages (premerge b a))
        pre_lens seq_lens last_loc (int i)) [0..<n]"
      and a': "a' = (premerge b a)\<lparr>free_pages := drop (nat (page_start (page_size a) seq_lens pre_lens
        (length seq_lens))) (free_pages (premerge b a))\<rparr>"
      unfolding Let_def by blast
    have "paged_partition (premerge b a) H" using assms(1) by simp
    from partition_launch [OF this, of pre_lens seq_lens last_loc order n oob uninit] assms(2-5) b
    show ?thesis by (simp add: Some slots_of_def a' out)
  qed
qed

lemma partition_decode:
  assumes "paged_partition a H" and "1 < page_size a"
    and "batch_ok (page_size a) (map (\<lambda>s. s - 1) seq_lens) seq_lens last_loc"
    and "set order = {..<length seq_lens}"
    and "\<forall>i < length seq_lens. (seq_lens ! i - 1) mod page_size a \<noteq> 0 \<longrightarrow> last_loc ! i div page_size a \<in> H"
    and "paged_alloc_decode order uninit oob seq_lens last_loc a = (Inr r, a')"
  shows "paged_partition a' (H \<union> pages_in (page_size a) (slots_of r))"
proof -
  let ?pre = "map (\<lambda>s. s - 1) seq_lens"
  let ?a1 = "premerge (length (free_pages a) < length seq_lens) a"
  let ?k = "page_start (page_size a) seq_lens ?pre (length seq_lens)"
  have count: "get_num_new_pages (page_size a) seq_lens None True = Inr ?k"
    using decode_count [OF assms(2)] by (simp add: get_num_new_pages_def page_start_def)
  have outcome: "paged_alloc_decode order uninit oob seq_lens last_loc a =
      (if int (length (free_pages ?a1)) < ?k then (Inr None, ?a1)
       else (Inr (Some (map (\<lambda>i. launch order uninit oob (page_size a) (free_pages ?a1) ?pre seq_lens last_loc (int i))
               [0..<length seq_lens])), ?a1\<lparr>free_pages := drop (nat ?k) (free_pages ?a1)\<rparr>))"
    unfolding paged_alloc_decode_def Let_def premerge_def [symmetric] premerge_fields count
    using assms(2,4) by (simp add: decode_launch)
  have p: "paged_partition ?a1 H" using assms(1) by simp
  have len: "int (length seq_lens) = ext_start seq_lens ?pre (length seq_lens)" by (simp add: decode_starts)
  show ?thesis
  proof (cases "int (length (free_pages ?a1)) < ?k")
    case True
    then show ?thesis using assms(6) p by (auto simp: outcome slots_of_def)
  next
    case False
    then show ?thesis
      using assms(6) partition_launch [OF p, of ?pre seq_lens last_loc order "length seq_lens" oob uninit]
        assms(3-5) len by (auto simp: outcome slots_of_def)
  qed
qed

text \<open>
  C20: pages are neither lost nor handed out twice. In every state a paged allocator reaches under
  its contract, the pages of the pool, the pages the clients hold and the pages waiting in an open
  free group partition the pages \<open>1, \<dots>, num_pages\<close>, and the pool lists no page twice.
\<close>

theorem paged_pool_partition:
  assumes "paged_run a H"
  shows "distinct (free_pages a @ release_pages a) \<and>
    set (free_pages a @ release_pages a) \<inter> H = {} \<and>
    set (free_pages a @ release_pages a) \<inter> grouped_pages a = {} \<and> H \<inter> grouped_pages a = {} \<and>
    set (free_pages a @ release_pages a) \<union> H \<union> grouped_pages a = {1..num_pages a}"
proof -
  from assms have "paged_partition a H"
  proof (induction rule: paged_run.induct)
    case (start ps sz srt)
    then show ?case
      by (simp add: paged_init_def paged_clear_def paged_partition_def grouped_pages_def num_pages_def)
  next
    case (free a H slots)
    then show ?case
      using partition_free_now [of a H slots] partition_free_group [of a H slots]
      by (cases "is_not_in_free_group a") (simp_all add: grouped_pages_def)
  qed (auto intro: partition_alloc partition_extend partition_decode partition_group_begin
      partition_group_end partition_clear)
  then show ?thesis by (simp only: paged_partition_def)
qed

theorem paged_pool_partition_witness:
  "\<exists>a. paged_run a {2} \<and> free_pages a = [1, 3] \<and> set (free_pages a @ release_pages a) \<union> {2} \<union> grouped_pages a = {1..num_pages a}"
proof -
  let ?a = "paged_init 12 4 False"
  have init: "?a = \<lparr>pool_size = 12, page_size = 4, need_sort = False, free_pages = [1, 2, 3], release_pages = [],
      is_not_in_free_group = True, free_group = []\<rparr>"
    by (simp add: paged_init_def paged_clear_def num_pages_def upto.simps)
  have "paged_alloc 8 ?a = (Some [4, 5, 6, 7, 8, 9, 10, 11], ?a\<lparr>free_pages := [3]\<rparr>)"
    by (simp add: init paged_alloc_def page_slots_def upto.simps)
  from paged_run.alloc [OF paged_run.start this]
  have "paged_run (?a\<lparr>free_pages := [3]\<rparr>) {1, 2}"
    by (simp add: init pages_in_def slots_of_def insert_commute)
  from paged_run.free [OF this, of "[4, 5, 6, 7]"]
  have run: "paged_run (?a\<lparr>free_pages := [1, 3]\<rparr>) {2}"
    by (simp add: init pages_in_def paged_free_def torch_unique_def)
  from paged_pool_partition [OF this] run show ?thesis by (intro exI [of _ "?a\<lparr>free_pages := [1, 3]\<rparr>"]) simp
qed

end
