(* ===== verification/Tensors.thy ===== *)
theory Tensors
  imports Prelude
begin

text \<open>
  Indexing of tensors as the sources use it. A tensor is the list of its entries along the first
  dimension; indexing outside the tensor raises.
\<close>

section \<open>Operations\<close>

definition py_nth :: "'a list \<Rightarrow> nat \<Rightarrow> 'a res" where
  "py_nth xs i = (if i < length xs then Inr (xs ! i) else Inl IndexError)"

text \<open>\<^verbatim>\<open>index_select\<close> and \<^verbatim>\<open>index_copy_\<close> along the first dimension; negative indices are rejected.\<close>

definition in_range :: "'a list \<Rightarrow> int list \<Rightarrow> bool" where
  "in_range buf idx \<longleftrightarrow> (\<forall>i \<in> set idx. 0 \<le> i \<and> i < int (length buf))"

definition index_select :: "'a list \<Rightarrow> int list \<Rightarrow> 'a list res" where
  "index_select buf idx = (if in_range buf idx then Inr (map (\<lambda>i. buf ! nat i) idx) else Inl IndexError)"

definition index_copy :: "'a list \<Rightarrow> int list \<Rightarrow> 'a list \<Rightarrow> 'a list res" where
  "index_copy buf idx src =
     (if in_range buf idx \<and> length src = length idx then Inr (fold (\<lambda>(i, v) b. b[nat i := v]) (zip idx src) buf) else Inl IndexError)"

text \<open>Indexing with a tensor, \<^verbatim>\<open>buf[idx]\<close> and \<^verbatim>\<open>buf[idx] = src\<close>: negative indices count from the end.\<close>

definition wrap_index :: "nat \<Rightarrow> int \<Rightarrow> int" where
  "wrap_index n i = (if i < 0 then i + int n else i)"

definition gather :: "'a list \<Rightarrow> int list \<Rightarrow> 'a list res" where
  "gather buf idx = index_select buf (map (wrap_index (length buf)) idx)"

definition scatter :: "'a list \<Rightarrow> int list \<Rightarrow> 'a list \<Rightarrow> 'a list res" where
  "scatter buf idx src = index_copy buf (map (wrap_index (length buf)) idx) src"

text \<open>A tensor of a list of tensors, changed in place.\<close>

definition upd_nth :: "'a list \<Rightarrow> nat \<Rightarrow> ('a \<Rightarrow> 'a res) \<Rightarrow> 'a list res" where
  "upd_nth bufs i f = bindE (py_nth bufs i) (\<lambda>b. bindE (f b) (\<lambda>b'. Inr (bufs[i := b'])))"

section \<open>Copying rows\<close>

definition put :: "int list \<Rightarrow> 'a list \<Rightarrow> 'a list \<Rightarrow> 'a list" where
  "put idx src buf = fold (\<lambda>(i, v) b. b[nat i := v]) (zip idx src) buf"

lemma length_put [simp]: "length (put idx src buf) = length buf"
proof -
  have "length (fold (\<lambda>(i, v) b. b[nat i := v]) ps buf) = length buf" for ps
    by (induction ps arbitrary: buf) auto
  then show ?thesis by (simp add: put_def)
qed

lemma put_other: "\<forall>i \<in> set idx. 0 \<le> i \<Longrightarrow> int j \<notin> set idx \<Longrightarrow> put idx src buf ! j = buf ! j"
proof (induction idx arbitrary: src buf)
  case (Cons i idx)
  then have "j \<noteq> nat i" by auto
  with Cons show ?case by (cases src) (auto simp: put_def)
qed (simp add: put_def)

lemma put_at:
  assumes "in_range buf idx" and "length src = length idx" and "distinct idx" and "k < length idx"
  shows "put idx src buf ! nat (idx ! k) = src ! k"
  using assms
proof (induction idx arbitrary: src buf k)
  case (Cons i idx)
  then obtain v src' where s: "src = v # src'" by (cases src) auto
  have p: "put (i # idx) (v # src') buf = put idx src' (buf[nat i := v])" by (simp add: put_def)
  have r: "in_range (buf[nat i := v]) idx" using Cons.prems(1) by (simp add: in_range_def)
  show ?case
  proof (cases k)
    case 0
    have "put idx src' (buf[nat i := v]) ! nat i = buf[nat i := v] ! nat i"
      by (rule put_other) (use Cons.prems in \<open>auto simp: in_range_def\<close>)
    then show ?thesis using Cons.prems(1) by (auto simp: 0 p s in_range_def nat_less_iff)
  next
    case (Suc m)
    then show ?thesis using Cons.IH [OF r, of src' m] Cons.prems by (simp add: p s)
  qed
qed simp

lemma wrap_in_range: "in_range buf idx \<Longrightarrow> map (wrap_index (length buf)) idx = idx"
  by (rule map_idI) (auto simp: in_range_def wrap_index_def)

lemma copy_ok:
  "in_range buf idx \<Longrightarrow> length src = length idx \<Longrightarrow> index_copy buf idx src = Inr (put idx src buf)"
  "in_range buf idx \<Longrightarrow> length src = length idx \<Longrightarrow> scatter buf idx src = Inr (put idx src buf)"
  "in_range buf idx \<Longrightarrow> index_select buf idx = Inr (map (\<lambda>i. buf ! nat i) idx)"
  "in_range buf idx \<Longrightarrow> gather buf idx = Inr (map (\<lambda>i. buf ! nat i) idx)"
  by (simp_all add: index_copy_def scatter_def index_select_def gather_def put_def wrap_in_range)

lemma upd_nth_ok: "i < length bufs \<Longrightarrow> f (bufs ! i) = Inr b' \<Longrightarrow> upd_nth bufs i f = Inr (bufs[i := b'])"
  by (simp add: upd_nth_def py_nth_def)

end
