(* ===== verification/Dsv4_Host.thy ===== *)
theory Dsv4_Host
  imports Kv_Allocator Tensors
begin

text \<open>
  The host tier of the DeepSeek-V4 cache (\<^verbatim>\<open>deepseek_v4_memory_pool_host.py\<close>, the base class
  \<^verbatim>\<open>HostKVCache\<close> of \<^verbatim>\<open>memory_pool_host.py\<close>, and the parts of
  \<^verbatim>\<open>deepseek_v4_memory_pool.py\<close> and \<^verbatim>\<open>deepseek_v4_compress_state.py\<close> that fix the layout
  of the device pool). A tensor of pages or rows is the list of its rows; what a row holds does not
  matter here, so rows are lists of integers. A transfer returns the updated pool or the exception.
\<close>

type_synonym row = "int list"

section \<open>The device pool\<close>

record layer_item =
  li_ratio :: int
  li_layer :: nat

record state_pool =
  cs_ring :: int
  cs_width :: int
  cs_itemsize :: int
  cs_rows :: "row list"

record dsv4_pool =
  dv_page_size :: int
  dv_swa_page_size :: int
  dv_index_head_dim :: int
  dv_swa :: "row list list"
  dv_c4 :: "row list list"
  dv_c128 :: "row list list"
  dv_indexer :: "row list list"
  dv_mapping :: "layer_item list"
  dv_states :: "state_pool option list"
  dv_idx_states :: "state_pool option list"
  dv_full_to_swa :: "int list"

definition get_compress_state_ring_size :: "bool \<Rightarrow> int \<Rightarrow> bool \<Rightarrow> int res" where
  "get_compress_state_ring_size online_c128 ratio speculative =
     (if ratio \<noteq> 4 \<and> ratio \<noteq> 128 then Inl AssertionError
      else if ratio = 128 \<and> online_c128 then (if speculative then Inl AssertionError else Inr 1)
      else if speculative then Inr (if ratio = 4 then 16 else 256)
      else Inr (if ratio = 4 then 8 else 128))"

text \<open>The bytes of a token and of a padded page of \<^verbatim>\<open>DeepSeekV4SingleKVPool\<close>.\<close>

definition bytes_per_token :: "int \<Rightarrow> int \<Rightarrow> int" where
  "bytes_per_token nope rope = nope + rope * 2 + nope div 64 + 1"

definition bytes_per_page_padded :: "int \<Rightarrow> int \<Rightarrow> int \<Rightarrow> int res" where
  "bytes_per_page_padded nope rope ps =
     (if bytes_per_token nope rope = 448 + 64 * 2 + 8
      then Inr ((ps * bytes_per_token nope rope + 576 - 1) div 576 * 576) else Inl AssertionError)"

text \<open>The rows and the row width of \<^verbatim>\<open>CompressStatePool\<close>.\<close>

definition compress_state_shape :: "int \<Rightarrow> int \<Rightarrow> bool \<Rightarrow> int \<Rightarrow> int \<Rightarrow> bool \<Rightarrow> (int \<times> int) res" where
  "compress_state_shape n ring overlap head_dim ratio online =
     (if online then (if ring \<noteq> 1 then Inl AssertionError else Inr (n + ring + 1, 3 * head_dim))
      else Inr ((n + ring + 1 + ratio - 1) div ratio * ratio, 2 * (1 + (if overlap then 1 else 0)) * head_dim))"

text \<open>
  The rows of the state pool that belong to a page: the compressor addresses slot \<open>l\<close> of the sliding
  window pool at row \<^verbatim>\<open>l // swa_page_size * ring_size + l % ring_size\<close>.
\<close>

definition state_loc :: "int \<Rightarrow> int \<Rightarrow> int \<Rightarrow> int" where
  "state_loc swa_page_size ring swa_loc = swa_loc div swa_page_size * ring + swa_loc mod ring"

fun layer_mapping_from :: "nat \<Rightarrow> nat \<Rightarrow> nat \<Rightarrow> int list \<Rightarrow> layer_item list res" where
  "layer_mapping_from c1 c4 c128 [] = Inr []"
| "layer_mapping_from c1 c4 c128 (r # rs) =
     (if r = 0 then bindE (layer_mapping_from (Suc c1) c4 c128 rs) (\<lambda>m. Inr (\<lparr>li_ratio = 0, li_layer = c1\<rparr> # m))
      else if r = 4 then bindE (layer_mapping_from c1 (Suc c4) c128 rs) (\<lambda>m. Inr (\<lparr>li_ratio = 4, li_layer = c4\<rparr> # m))
      else if r = 128 then bindE (layer_mapping_from c1 c4 (Suc c128) rs) (\<lambda>m. Inr (\<lparr>li_ratio = 128, li_layer = c128\<rparr> # m))
      else Inl ValueError)"

definition init_compressed_layer_mapping :: "int list \<Rightarrow> layer_item list res" where
  "init_compressed_layer_mapping ratios = layer_mapping_from 0 0 0 ratios"

definition translate_loc_from_full_to_swa :: "dsv4_pool \<Rightarrow> int list \<Rightarrow> int list res" where
  "translate_loc_from_full_to_swa dv locs = gather (dv_full_to_swa dv) locs"

section \<open>The host pool\<close>

record dsv4_host =
  ho_page_size :: int
  ho_page_num :: nat
  ho_free :: "int list"
  ho_swa :: "row list list"
  ho_c4 :: "row list list"
  ho_c128 :: "row list list"
  ho_indexer :: "row list list"
  ho_attn :: "row list list option list"
  ho_idx :: "row list list option list"

definition ho_size :: "dsv4_host \<Rightarrow> int" where
  "ho_size h = int (ho_page_num h) * ho_page_size h"

subsection \<open>Slots\<close>

definition host_clear :: "dsv4_host \<Rightarrow> dsv4_host" where
  "host_clear h = h\<lparr>ho_free := [0..ho_size h - 1]\<rparr>"

definition host_available_size :: "dsv4_host \<Rightarrow> int" where
  "host_available_size h = int (length (ho_free h))"

definition host_alloc :: "nat \<Rightarrow> dsv4_host \<Rightarrow> int list option res \<times> dsv4_host" where
  "host_alloc need h =
     (if int need mod ho_page_size h \<noteq> 0 then (Inl AssertionError, h)
      else if host_available_size h < int need then (Inr None, h)
      else (Inr (Some (take need (ho_free h))), h\<lparr>ho_free := drop need (ho_free h)\<rparr>))"

definition host_free :: "int list \<Rightarrow> dsv4_host \<Rightarrow> nat \<times> dsv4_host" where
  "host_free indices h = (length indices, h\<lparr>ho_free := ho_free h @ indices\<rparr>)"

subsection \<open>Sizes\<close>

definition indexer_page_bytes :: "int \<Rightarrow> int \<Rightarrow> int" where
  "indexer_page_bytes ps head_dim = ps * (head_dim + head_dim div 128 * 4)"

definition state_rows_per_page :: "state_pool \<Rightarrow> int \<Rightarrow> nat" where
  "state_rows_per_page sp ratio = nat (max 1 (cs_ring sp div ratio))"

definition state_page_bytes :: "state_pool \<Rightarrow> int \<Rightarrow> int" where
  "state_page_bytes sp ratio = int (state_rows_per_page sp ratio) * cs_width sp * cs_itemsize sp"

definition py_some :: "'a option \<Rightarrow> 'a res" where
  "py_some x = (case x of None \<Rightarrow> Inl AttributeError | Some y \<Rightarrow> Inr y)"

definition layer_state_bytes :: "dsv4_pool \<Rightarrow> nat \<Rightarrow> int res" where
  "layer_state_bytes dv layer_id =
     (let ratio = li_ratio (dv_mapping dv ! layer_id) in
      if ratio = 0 then Inr 0
      else bindE (bindE (py_nth (dv_states dv) layer_id) py_some) (\<lambda>sp.
           if ratio = 4
           then bindE (bindE (py_nth (dv_idx_states dv) layer_id) py_some) (\<lambda>ip. Inr (state_page_bytes sp ratio + state_page_bytes ip ratio))
           else Inr (state_page_bytes sp ratio)))"

fun sumE :: "(nat \<Rightarrow> int res) \<Rightarrow> nat list \<Rightarrow> int res" where
  "sumE f [] = Inr 0"
| "sumE f (i # is) = bindE (f i) (\<lambda>x. bindE (sumE f is) (\<lambda>y. Inr (x + y)))"

definition dsv4_page_bytes :: "int \<Rightarrow> int \<Rightarrow> dsv4_pool \<Rightarrow> int res" where
  "dsv4_page_bytes nope rope dv =
     bindE (bytes_per_page_padded nope rope (dv_swa_page_size dv)) (\<lambda>swa.
     bindE (bytes_per_page_padded nope rope (dv_page_size dv div 4)) (\<lambda>c4.
     bindE (bytes_per_page_padded nope rope (dv_page_size dv div 128)) (\<lambda>c128.
     bindE (sumE (layer_state_bytes dv) [0..<length (dv_mapping dv)]) (\<lambda>states.
       Inr (int (length (dv_swa dv)) * swa + int (length (dv_c4 dv)) * c4 + int (length (dv_c128 dv)) * c128
            + int (length (dv_indexer dv)) * indexer_page_bytes (dv_page_size dv div 4) (dv_index_head_dim dv) + states)))))"

definition get_size_per_token :: "int \<Rightarrow> int \<Rightarrow> dsv4_pool \<Rightarrow> int \<Rightarrow> int res" where
  "get_size_per_token nope rope dv ps = bindE (dsv4_page_bytes nope rope dv) (\<lambda>b. Inr ((b + ps - 1) div ps))"

subsection \<open>Buffers\<close>

text \<open>Fresh buffers hold whatever the memory holds: \<open>junk\<close>.\<close>

definition alloc_pages :: "row \<Rightarrow> nat \<Rightarrow> nat \<Rightarrow> row list list" where
  "alloc_pages junk layers pages = replicate layers (replicate pages junk)"

definition alloc_states :: "row \<Rightarrow> nat \<Rightarrow> dsv4_pool \<Rightarrow> state_pool option list \<Rightarrow> (int \<Rightarrow> bool) \<Rightarrow> row list list option list res" where
  "alloc_states junk pages dv pools used =
     (let one = (\<lambda>i. let ratio = li_ratio (dv_mapping dv ! i) in
                  if used ratio
                  then bindE (bindE (py_nth pools i) py_some)
                         (\<lambda>sp. Inr (Some (replicate pages (replicate (state_rows_per_page sp ratio) junk))))
                  else Inr None)
      in fold (\<lambda>i acc. bindE acc (\<lambda>bs. bindE (one i) (\<lambda>b. Inr (bs @ [b])))) [0..<length (dv_mapping dv)] (Inr []))"

definition init_kv_buffer :: "row \<Rightarrow> dsv4_pool \<Rightarrow> dsv4_host \<Rightarrow> dsv4_host res" where
  "init_kv_buffer junk dv h =
     bindE (alloc_states junk (ho_page_num h) dv (dv_states dv) (\<lambda>r. r \<noteq> 0)) (\<lambda>attn.
     bindE (alloc_states junk (ho_page_num h) dv (dv_idx_states dv) (\<lambda>r. r = 4)) (\<lambda>idx.
       Inr (h\<lparr>ho_swa := alloc_pages junk (length (dv_swa dv)) (ho_page_num h),
              ho_c4 := alloc_pages junk (length (dv_c4 dv)) (ho_page_num h),
              ho_c128 := alloc_pages junk (length (dv_c128 dv)) (ho_page_num h),
              ho_indexer := alloc_pages junk (length (dv_indexer dv)) (ho_page_num h),
              ho_attn := attn, ho_idx := idx\<rparr>)))"

text \<open>
  The constructor. \<open>size0\<close> is the number of slots the configuration asks for, from an absolute size
  or from a ratio to the device pool; the pool always has at least one page more than that.
\<close>

definition host_init ::
  "row \<Rightarrow> int \<Rightarrow> int \<Rightarrow> string \<Rightarrow> int \<Rightarrow> int \<Rightarrow> int \<Rightarrow> int \<Rightarrow> dsv4_pool \<Rightarrow> dsv4_host res" where
  "host_init junk nope rope layout ps size0 device_size available_bytes dv =
     (if layout \<noteq> ''page_first'' \<and> layout \<noteq> ''page_first_direct'' then Inl ValueError
      else if ps \<noteq> dv_page_size dv then Inl ValueError
      else bindE (get_size_per_token nope rope dv ps) (\<lambda>size_per_token.
        let page_num = size0 div ps + 1; size = page_num * ps in
        if \<not> device_size < size then Inl AssertionError
        else if available_bytes < size * size_per_token then Inl ValueError
        else bindE (init_kv_buffer junk dv \<lparr>ho_page_size = ps, ho_page_num = nat page_num, ho_free = [], ho_swa = [], ho_c4 = [],
               ho_c128 = [], ho_indexer = [], ho_attn = [], ho_idx = []\<rparr>) (\<lambda>h. Inr (host_clear h))))"

section \<open>Transfers\<close>

definition page_starts :: "int \<Rightarrow> int list \<Rightarrow> int list \<Rightarrow> (int list \<times> int list) res" where
  "page_starts ps host_indices device_indices =
     (if length host_indices \<noteq> length device_indices then Inl ValueError
      else if int (length host_indices) mod ps \<noteq> 0 then Inl ValueError
      else let first = (\<lambda>xs. map (\<lambda>k. xs ! (k * nat ps)) [0..<length host_indices div nat ps])
           in Inr (first host_indices, first device_indices))"

definition logical_pages :: "dsv4_host \<Rightarrow> dsv4_pool \<Rightarrow> int list \<Rightarrow> int list \<Rightarrow> (int list \<times> int list \<times> int list) res" where
  "logical_pages h dv host_indices device_indices =
     bindE (page_starts (ho_page_size h) host_indices device_indices) (\<lambda>(host_starts, device_starts).
     bindE (translate_loc_from_full_to_swa dv device_starts) (\<lambda>swa_starts.
       Inr (map (\<lambda>i. i div ho_page_size h) host_starts, map (\<lambda>i. i div ho_page_size h) device_starts,
            map (\<lambda>i. i div dv_swa_page_size dv) swa_starts)))"

definition state_rows :: "int list \<Rightarrow> state_pool \<Rightarrow> int \<Rightarrow> int list" where
  "state_rows swa_pages sp ratio =
     concat (map (\<lambda>p. map (\<lambda>k. p * int (state_rows_per_page sp ratio) + int k) [0..<state_rows_per_page sp ratio]) swa_pages)"

definition backup_pages :: "int list \<Rightarrow> int list \<Rightarrow> row list \<Rightarrow> row list \<Rightarrow> row list res" where
  "backup_pages host_pages device_pages device_buf host_buf =
     bindE (index_select device_buf device_pages) (\<lambda>src. scatter host_buf host_pages src)"

definition load_pages :: "int list \<Rightarrow> int list \<Rightarrow> row list \<Rightarrow> row list \<Rightarrow> row list res" where
  "load_pages host_pages device_pages host_buf device_buf =
     bindE (gather host_buf host_pages) (\<lambda>src. index_copy device_buf device_pages src)"

definition reshape :: "nat \<Rightarrow> nat \<Rightarrow> 'a list \<Rightarrow> 'a list list" where
  "reshape n m xs = map (\<lambda>k. take m (drop (k * m) xs)) [0..<n]"

definition backup_state_rows :: "int list \<Rightarrow> int list \<Rightarrow> int \<Rightarrow> state_pool \<Rightarrow> row list list option \<Rightarrow> row list list option res" where
  "backup_state_rows host_pages swa_pages ratio sp host_buf =
     bindE (py_some host_buf) (\<lambda>buf.
     bindE (index_select (cs_rows sp) (state_rows swa_pages sp ratio)) (\<lambda>src.
     bindE (scatter buf host_pages (reshape (length swa_pages) (state_rows_per_page sp ratio) src)) (\<lambda>b. Inr (Some b))))"

definition load_state_rows :: "int list \<Rightarrow> int list \<Rightarrow> int \<Rightarrow> row list list option \<Rightarrow> state_pool option \<Rightarrow> state_pool option res" where
  "load_state_rows host_pages swa_pages ratio host_buf pool =
     bindE (py_some pool) (\<lambda>sp. bindE (py_some host_buf) (\<lambda>buf.
     bindE (gather buf host_pages) (\<lambda>src.
     bindE (index_copy (cs_rows sp) (state_rows swa_pages sp ratio) (concat src)) (\<lambda>rows.
       Inr (Some (sp\<lparr>cs_rows := rows\<rparr>))))))"

definition backup_layer ::
  "dsv4_pool \<Rightarrow> int list \<times> int list \<times> int list \<Rightarrow> nat \<Rightarrow> dsv4_host \<Rightarrow> dsv4_host res" where
  "backup_layer dv pages layer_id h = (case pages of (host_pages, full_pages, swa_pages) \<Rightarrow>
     bindE (py_nth (dv_swa dv) layer_id) (\<lambda>d.
     bindE (upd_nth (ho_swa h) layer_id (backup_pages host_pages swa_pages d)) (\<lambda>swa.
     let h = h\<lparr>ho_swa := swa\<rparr> in
     bindE (py_nth (dv_mapping dv) layer_id) (\<lambda>item.
     let ratio = li_ratio item; l = li_layer item in
     if ratio = 4 then
       bindE (py_nth (dv_c4 dv) l) (\<lambda>d.
       bindE (upd_nth (ho_c4 h) l (backup_pages host_pages full_pages d)) (\<lambda>c4.
       bindE (py_nth (dv_indexer dv) l) (\<lambda>d.
       bindE (upd_nth (ho_indexer h) l (backup_pages host_pages full_pages d)) (\<lambda>ix.
       bindE (bindE (py_nth (dv_states dv) layer_id) py_some) (\<lambda>sp.
       bindE (upd_nth (ho_attn h) layer_id (backup_state_rows host_pages swa_pages ratio sp)) (\<lambda>attn.
       bindE (bindE (py_nth (dv_idx_states dv) layer_id) py_some) (\<lambda>ip.
       bindE (upd_nth (ho_idx h) layer_id (backup_state_rows host_pages swa_pages ratio ip)) (\<lambda>idx.
         Inr (h\<lparr>ho_c4 := c4, ho_indexer := ix, ho_attn := attn, ho_idx := idx\<rparr>)))))))))
     else if ratio = 128 then
       bindE (py_nth (dv_c128 dv) l) (\<lambda>d.
       bindE (upd_nth (ho_c128 h) l (backup_pages host_pages full_pages d)) (\<lambda>c128.
       bindE (bindE (py_nth (dv_states dv) layer_id) py_some) (\<lambda>sp.
       bindE (upd_nth (ho_attn h) layer_id (backup_state_rows host_pages swa_pages ratio sp)) (\<lambda>attn.
         Inr (h\<lparr>ho_c128 := c128, ho_attn := attn\<rparr>)))))
     else Inr h))))"

definition backup_from_device_all_layer ::
  "string \<Rightarrow> dsv4_pool \<Rightarrow> int list \<Rightarrow> int list \<Rightarrow> dsv4_host \<Rightarrow> dsv4_host res" where
  "backup_from_device_all_layer io_backend dv host_indices device_indices h =
     (if io_backend \<noteq> ''direct'' then Inl ValueError
      else bindE (logical_pages h dv host_indices device_indices) (\<lambda>pages.
           fold (\<lambda>i acc. bindE acc (backup_layer dv pages i)) [0..<length (dv_swa dv)] (Inr h)))"

definition load_to_device_per_layer ::
  "string \<Rightarrow> dsv4_host \<Rightarrow> int list \<Rightarrow> int list \<Rightarrow> nat \<Rightarrow> dsv4_pool \<Rightarrow> dsv4_pool res" where
  "load_to_device_per_layer io_backend h host_indices device_indices layer_id dv =
     (if io_backend \<noteq> ''direct'' then Inl ValueError
      else bindE (logical_pages h dv host_indices device_indices) (\<lambda>(host_pages, full_pages, swa_pages).
       bindE (py_nth (ho_swa h) layer_id) (\<lambda>b.
       bindE (upd_nth (dv_swa dv) layer_id (load_pages host_pages swa_pages b)) (\<lambda>swa.
       let dv = dv\<lparr>dv_swa := swa\<rparr> in
       bindE (py_nth (dv_mapping dv) layer_id) (\<lambda>item.
       let ratio = li_ratio item; l = li_layer item in
       if ratio = 4 then
         bindE (py_nth (ho_c4 h) l) (\<lambda>b.
         bindE (upd_nth (dv_c4 dv) l (load_pages host_pages full_pages b)) (\<lambda>c4.
         bindE (py_nth (ho_indexer h) l) (\<lambda>b.
         bindE (upd_nth (dv_indexer dv) l (load_pages host_pages full_pages b)) (\<lambda>ix.
         bindE (py_nth (ho_attn h) layer_id) (\<lambda>b.
         bindE (upd_nth (dv_states dv) layer_id (load_state_rows host_pages swa_pages ratio b)) (\<lambda>states.
         bindE (py_nth (ho_idx h) layer_id) (\<lambda>b.
         bindE (upd_nth (dv_idx_states dv) layer_id (load_state_rows host_pages swa_pages ratio b)) (\<lambda>idx_states.
           Inr (dv\<lparr>dv_c4 := c4, dv_indexer := ix, dv_states := states, dv_idx_states := idx_states\<rparr>)))))))))
       else if ratio = 128 then
         bindE (py_nth (ho_c128 h) l) (\<lambda>b.
         bindE (upd_nth (dv_c128 dv) l (load_pages host_pages full_pages b)) (\<lambda>c128.
         bindE (py_nth (ho_attn h) layer_id) (\<lambda>b.
         bindE (upd_nth (dv_states dv) layer_id (load_state_rows host_pages swa_pages ratio b)) (\<lambda>states.
           Inr (dv\<lparr>dv_c128 := c128, dv_states := states\<rparr>)))))
       else Inr dv)))))"

section \<open>Pages for storage\<close>

record dsv4_page =
  pg_swa :: "row list"
  pg_c4 :: "row list"
  pg_c128 :: "row list"
  pg_indexer :: "row list"
  pg_attn :: "row list option list"
  pg_idx :: "row list option list"

text \<open>An integer index into the first dimension; Python counts negative ones from the end.\<close>

definition tensor_at :: "'a list \<Rightarrow> int \<Rightarrow> 'a res" where
  "tensor_at buf i = (let j = wrap_index (length buf) i in if 0 \<le> j \<and> j < int (length buf) then Inr (buf ! nat j) else Inl IndexError)"

definition set_at :: "'a list \<Rightarrow> int \<Rightarrow> 'a \<Rightarrow> 'a list res" where
  "set_at buf i v = (let j = wrap_index (length buf) i in if 0 \<le> j \<and> j < int (length buf) then Inr (buf[nat j := v]) else Inl IndexError)"

fun pages_at :: "int \<Rightarrow> 'a list list \<Rightarrow> 'a list res" where
  "pages_at i [] = Inr []"
| "pages_at i (b # bs) = bindE (tensor_at b i) (\<lambda>p. bindE (pages_at i bs) (\<lambda>ps. Inr (p # ps)))"

fun opt_pages_at :: "int \<Rightarrow> 'a list option list \<Rightarrow> 'a option list res" where
  "opt_pages_at i [] = Inr []"
| "opt_pages_at i (None # bs) = bindE (opt_pages_at i bs) (\<lambda>ps. Inr (None # ps))"
| "opt_pages_at i (Some b # bs) = bindE (tensor_at b i) (\<lambda>p. bindE (opt_pages_at i bs) (\<lambda>ps. Inr (Some p # ps)))"

definition component_payload :: "int \<Rightarrow> dsv4_host \<Rightarrow> dsv4_page res" where
  "component_payload p h =
     bindE (pages_at p (ho_swa h)) (\<lambda>swa. bindE (pages_at p (ho_c4 h)) (\<lambda>c4.
     bindE (pages_at p (ho_c128 h)) (\<lambda>c128. bindE (pages_at p (ho_indexer h)) (\<lambda>ix.
     bindE (opt_pages_at p (ho_attn h)) (\<lambda>attn. bindE (opt_pages_at p (ho_idx h)) (\<lambda>idx.
       Inr \<lparr>pg_swa = swa, pg_c4 = c4, pg_c128 = c128, pg_indexer = ix, pg_attn = attn, pg_idx = idx\<rparr>))))))"

definition get_data_page :: "int \<Rightarrow> dsv4_host \<Rightarrow> dsv4_page res" where
  "get_data_page index h = component_payload (index div ho_page_size h) h"

text \<open>
  \<^verbatim>\<open>dst.copy_(src)\<close> for one and for two dimensions: a dimension of length one is broadcast, any
  other difference of the shapes raises.
\<close>

definition copy_row :: "row \<Rightarrow> row \<Rightarrow> row res" where
  "copy_row dst src = (if length src = length dst then Inr src
     else if length src = 1 then Inr (replicate (length dst) (src ! 0)) else Inl RuntimeError)"

fun copy_each :: "row list \<Rightarrow> row list \<Rightarrow> row list res" where
  "copy_each (d # ds) (r # rs) = bindE (copy_row d r) (\<lambda>x. bindE (copy_each ds rs) (\<lambda>xs. Inr (x # xs)))"
| "copy_each ds rs = Inr []"

definition copy_rows :: "row list \<Rightarrow> row list \<Rightarrow> row list res" where
  "copy_rows dst src = (if length src = length dst then copy_each dst src
     else if length src = 1 then copy_each dst (replicate (length dst) (src ! 0)) else Inl RuntimeError)"

definition copy_at :: "('a \<Rightarrow> 'a \<Rightarrow> 'a res) \<Rightarrow> 'a list \<Rightarrow> int \<Rightarrow> 'a \<Rightarrow> 'a list res" where
  "copy_at cp buf i v = bindE (tensor_at buf i) (\<lambda>d. bindE (cp d v) (\<lambda>x. set_at buf i x))"

text \<open>The loops over two lists at once stop at the shorter one.\<close>

fun set_pages :: "int \<Rightarrow> row list list \<Rightarrow> row list \<Rightarrow> row list list res" where
  "set_pages i (b # bs) (p # ps) = bindE (copy_at copy_row b i p) (\<lambda>b'. bindE (set_pages i bs ps) (\<lambda>bs'. Inr (b' # bs')))"
| "set_pages i bs ps = Inr bs"

fun set_opt_pages :: "int \<Rightarrow> row list list option list \<Rightarrow> row list option list \<Rightarrow> row list list option list res" where
  "set_opt_pages i (Some b # bs) (Some p # ps) =
     bindE (copy_at copy_rows b i p) (\<lambda>b'. bindE (set_opt_pages i bs ps) (\<lambda>bs'. Inr (Some b' # bs')))"
| "set_opt_pages i (b # bs) (p # ps) = bindE (set_opt_pages i bs ps) (\<lambda>bs'. Inr (b # bs'))"
| "set_opt_pages i bs ps = Inr bs"

definition set_from_flat_data_page :: "int \<Rightarrow> dsv4_page option \<Rightarrow> dsv4_host \<Rightarrow> dsv4_host res" where
  "set_from_flat_data_page index data_page h = (case data_page of None \<Rightarrow> Inr h
     | Some pg \<Rightarrow> (let p = index div ho_page_size h in
         bindE (set_pages p (ho_swa h) (pg_swa pg)) (\<lambda>swa. bindE (set_pages p (ho_c4 h) (pg_c4 pg)) (\<lambda>c4.
         bindE (set_pages p (ho_c128 h) (pg_c128 pg)) (\<lambda>c128. bindE (set_pages p (ho_indexer h) (pg_indexer pg)) (\<lambda>ix.
         bindE (set_opt_pages p (ho_attn h) (pg_attn pg)) (\<lambda>attn. bindE (set_opt_pages p (ho_idx h) (pg_idx pg)) (\<lambda>idx.
           Inr (h\<lparr>ho_swa := swa, ho_c4 := c4, ho_c128 := c128, ho_indexer := ix, ho_attn := attn, ho_idx := idx\<rparr>)))))))))"

lemma copy_row_same: "length src = length dst \<Longrightarrow> copy_row dst src = Inr src"
  by (simp add: copy_row_def)

lemma copy_rows_same: "map length src = map length dst \<Longrightarrow> copy_rows dst src = Inr src"
proof -
  assume eq: "map length src = map length dst"
  then have "copy_each dst src = Inr src"
    by (induction dst src rule: copy_each.induct) (auto simp: copy_row_same)
  moreover have "length src = length dst" using eq by (rule map_eq_imp_length_eq)
  ultimately show ?thesis by (simp add: copy_rows_def)
qed

section \<open>Slots come and go in whole pages\<close>

lemma page_slots_take:
  assumes "0 < ps"
  shows "take (k * nat ps) (page_slots ps pages) = page_slots ps (take k pages)"
    "drop (k * nat ps) (page_slots ps pages) = page_slots ps (drop k pages)"
proof -
  have "take (k * nat ps) (page_slots ps pages) = page_slots ps (take k pages) \<and>
      drop (k * nat ps) (page_slots ps pages) = page_slots ps (drop k pages)"
  proof (induction pages arbitrary: k)
    case (Cons p pages)
    have c: "page_slots ps (p # pages) = map (\<lambda>off. p * ps + off) [0..ps - 1] @ page_slots ps pages" by (simp add: page_slots_def)
    show ?case
    proof (cases k)
      case (Suc j)
      have "Suc j * nat ps - nat ps = j * nat ps" by simp
      with Cons.IH [of j] show ?thesis by (simp add: Suc c page_slots_def)
    qed (simp add: page_slots_def)
  qed (simp add: page_slots_def)
  then show "take (k * nat ps) (page_slots ps pages) = page_slots ps (take k pages)"
    "drop (k * nat ps) (page_slots ps pages) = page_slots ps (drop k pages)" by auto
qed

lemma page_slots_upto: "0 < ps \<Longrightarrow> page_slots ps [0..int n - 1] = [0..int n * ps - 1]"
proof (induction n)
  case (Suc n)
  have "[0..int (Suc n) - 1] = [0..int n - 1] @ [int n]" using upto_rec2 [of 0 "int n"] by simp
  moreover have "map (\<lambda>off. int n * ps + off) [0..ps - 1] = [int n * ps..int (Suc n) * ps - 1]"
    by (rule nth_equalityI) (use Suc.prems in \<open>auto simp: algebra_simps\<close>)
  moreover have "[0..int n * ps - 1] @ [int n * ps..int (Suc n) * ps - 1] = [0..int (Suc n) * ps - 1]"
    using upto_split1 [of 0 "int n * ps" "int (Suc n) * ps - 1"] Suc.prems by (simp add: algebra_simps)
  ultimately show ?case using Suc by (simp add: page_slots_def)
qed (simp add: page_slots_def)

text \<open>The pages that a transfer reads off two index tensors made of whole pages.\<close>

lemma page_starts_slots:
  assumes "0 < ps" and "length xs = length ys"
  shows "page_starts ps (page_slots ps xs) (page_slots ps ys) = Inr (map (\<lambda>p. p * ps) xs, map (\<lambda>p. p * ps) ys)"
proof -
  have len: "length (page_slots ps zs) = length zs * nat ps" for zs
    using length_page_slots [OF assms(1), of zs] assms(1) by (metis int_nat_eq less_imp_le nat_int of_nat_mult)
  have "page_slots ps zs ! (k * nat ps) = zs ! k * ps" if "k < length zs" for k zs
  proof -
    have "page_slots ps zs ! nat (int k * ps) = zs ! nat (int k * ps div ps) * ps + int k * ps mod ps"
      by (rule page_slots_nth [OF assms(1)]) (use that assms(1) in auto)
    then show ?thesis using assms(1) by (simp add: nat_mult_distrib)
  qed
  then show ?thesis using assms len by (auto simp: page_starts_def Let_def intro: nth_equalityI)
qed

text \<open>
  The states of the slot pool with the pages that are held. A client gives back whole pages it
  holds, as one index tensor.
\<close>

inductive host_run :: "dsv4_host \<Rightarrow> int set \<Rightarrow> bool" where
  start: "0 < ho_page_size h \<Longrightarrow> host_run (host_clear h) {}"
| alloc: "host_run h H \<Longrightarrow> host_alloc need h = (Inr r, h') \<Longrightarrow> host_run h' (H \<union> pages_in (ho_page_size h) (slots_of r))"
| free: "host_run h H \<Longrightarrow> distinct pages \<Longrightarrow> set pages \<subseteq> H \<Longrightarrow>
    host_free (page_slots (ho_page_size h) pages) h = (n, h') \<Longrightarrow> host_run h' (H - set pages)"
| clear: "host_run h H \<Longrightarrow> host_run (host_clear h) {}"

definition host_pages_ok :: "dsv4_host \<Rightarrow> int set \<Rightarrow> int list \<Rightarrow> bool" where
  "host_pages_ok h H free \<longleftrightarrow> 0 < ho_page_size h \<and> ho_free h = page_slots (ho_page_size h) free \<and> distinct free \<and>
     set free \<inter> H = {} \<and> set free \<union> H = {0..<int (ho_page_num h)}"

lemma host_clear_ok: "0 < ho_page_size h \<Longrightarrow> host_pages_ok (host_clear h) {} [0..int (ho_page_num h) - 1]"
  by (auto simp: host_pages_ok_def host_clear_def ho_size_def page_slots_upto)

lemma host_alloc_ok:
  assumes ok: "host_pages_ok h H free" and al: "host_alloc need h = (Inr (Some xs), h')"
  shows "\<exists>k. int need = int k * ho_page_size h \<and> k \<le> length free \<and> xs = page_slots (ho_page_size h) (take k free) \<and>
    host_pages_ok h' (H \<union> set (take k free)) (drop k free)"
proof -
  let ?ps = "ho_page_size h"
  have o: "0 < ?ps" "ho_free h = page_slots ?ps free" "distinct free" "set free \<inter> H = {}"
    "set free \<union> H = {0..<int (ho_page_num h)}" using ok by (auto simp: host_pages_ok_def)
  have al': "int need mod ?ps = 0" "int need \<le> int (length (ho_free h))" "xs = take need (ho_free h)"
    "h' = h\<lparr>ho_free := drop need (ho_free h)\<rparr>"
    using al by (auto simp: host_alloc_def host_available_size_def split: if_splits)
  define k where "k = nat (int need div ?ps)"
  have k: "int need = int k * ?ps"
    using al'(1) o(1) div_mult_mod_eq [of "int need" ?ps] by (simp add: k_def pos_imp_zdiv_nonneg_iff)
  then have need: "need = k * nat ?ps" using o(1) by (metis int_nat_eq less_imp_le nat_int of_nat_mult)
  have "int k * ?ps \<le> int (length free) * ?ps" using al'(2) k by (simp add: o(2) length_page_slots [OF o(1)])
  then have "k \<le> length free" using o(1) by simp
  moreover have "set (take k free) \<inter> set (drop k free) = {}" "set (take k free) \<union> set (drop k free) = set free"
    using o(3) by (simp_all add: set_take_disj_set_drop_if_distinct flip: set_append)
  ultimately show ?thesis using k o al'(3,4)
    by (intro exI [of _ k]) (auto simp: host_pages_ok_def need page_slots_take)
qed

lemma host_run_ok: "host_run h H \<Longrightarrow> \<exists>free. host_pages_ok h H free"
proof (induction rule: host_run.induct)
  case (start h)
  then show ?case using host_clear_ok by blast
next
  case (alloc h H need r h')
  then obtain free where ok: "host_pages_ok h H free" by blast
  then have ps: "0 < ho_page_size h" by (simp add: host_pages_ok_def)
  show ?case
  proof (cases r)
    case None
    then have "h' = h" using alloc(2) by (auto simp: host_alloc_def split: if_splits)
    then show ?thesis using ok None by (auto simp: slots_of_def)
  next
    case (Some xs)
    then obtain k where "xs = page_slots (ho_page_size h) (take k free)"
      "host_pages_ok h' (H \<union> set (take k free)) (drop k free)" using host_alloc_ok [OF ok] alloc(2) by blast
    then show ?thesis using ps by (auto simp: Some slots_of_def page_slots_pages)
  qed
next
  case (free h H pages n h')
  then obtain fr where ok: "host_pages_ok h H fr" by blast
  have "h' = h\<lparr>ho_free := ho_free h @ page_slots (ho_page_size h) pages\<rparr>" using free(4) by (simp add: host_free_def)
  then have "host_pages_ok h' (H - set pages) (fr @ pages)"
    using ok free(2,3) by (auto simp: host_pages_ok_def page_slots_def)
  then show ?case by blast
next
  case (clear h H)
  then have "0 < ho_page_size h" by (auto simp: host_pages_ok_def)
  then show ?case using host_clear_ok by blast
qed

text \<open>
  C34: the host pool hands out whole, aligned pages. In every state that allocations, releases of
  whole pages and resets lead to, the free slots are the slots of distinct pages in order, and the
  free and the held pages partition the pages of the pool. Whatever an allocation returns is the
  sequence of all slots of pages that nobody holds, so that the transfers, which look only at the
  first slot of each run, address the right pages; and an allocation of whole pages fails only when
  fewer slots are free.
\<close>

theorem host_alloc_whole_pages:
  assumes "host_run h H" and "int need mod ho_page_size h = 0"
  shows "(int need \<le> host_available_size h \<longrightarrow> (\<exists>pages h'. host_alloc need h = (Inr (Some (page_slots (ho_page_size h) pages)), h') \<and>
      length (page_slots (ho_page_size h) pages) = need \<and> distinct pages \<and> set pages \<inter> H = {} \<and> set pages \<subseteq> {0..<int (ho_page_num h)} \<and>
      page_starts (ho_page_size h) (page_slots (ho_page_size h) pages) (page_slots (ho_page_size h) pages) =
        Inr (map (\<lambda>p. p * ho_page_size h) pages, map (\<lambda>p. p * ho_page_size h) pages))) \<and>
    (host_available_size h < int need \<longrightarrow> host_alloc need h = (Inr None, h)) \<and>
    (\<exists>free. host_pages_ok h H free)"
proof -
  obtain free where ok: "host_pages_ok h H free" using host_run_ok [OF assms(1)] by blast
  then have ps: "0 < ho_page_size h" by (simp add: host_pages_ok_def)
  note st = page_starts_slots [OF ps refl]
  have "\<exists>pages h'. host_alloc need h = (Inr (Some (page_slots (ho_page_size h) pages)), h') \<and>
      length (page_slots (ho_page_size h) pages) = need \<and> distinct pages \<and> set pages \<inter> H = {} \<and> set pages \<subseteq> {0..<int (ho_page_num h)}"
    if "int need \<le> host_available_size h"
  proof -
    define xs where "xs = take need (ho_free h)"
    define h' where "h' = h\<lparr>ho_free := drop need (ho_free h)\<rparr>"
    have al: "host_alloc need h = (Inr (Some xs), h')" and len: "length xs = need"
      using that assms(2) by (simp_all add: host_alloc_def host_available_size_def xs_def h'_def)
    obtain k where k: "xs = page_slots (ho_page_size h) (take k free)" using host_alloc_ok [OF ok al] by blast
    have "distinct (take k free)" "set (take k free) \<subseteq> set free" using ok by (auto simp: host_pages_ok_def dest: in_set_takeD)
    then show ?thesis using al len ok by (intro exI [of _ "take k free"] exI [of _ h']) (auto simp: k host_pages_ok_def)
  qed
  with st ok show ?thesis using assms(2) by (auto simp: host_alloc_def)
qed

theorem host_alloc_whole_pages_witness:
  "\<exists>pages h'. host_alloc 4 (host_clear \<lparr>ho_page_size = 2, ho_page_num = 3, ho_free = [], ho_swa = [], ho_c4 = [],
      ho_c128 = [], ho_indexer = [], ho_attn = [], ho_idx = []\<rparr>) = (Inr (Some (page_slots 2 pages)), h') \<and> distinct pages"
proof -
  let ?h = "\<lparr>ho_page_size = 2, ho_page_num = 3, ho_free = [], ho_swa = [], ho_c4 = [],
      ho_c128 = [], ho_indexer = [], ho_attn = [], ho_idx = []\<rparr> :: dsv4_host"
  have r: "host_run (host_clear ?h) {}" by (rule host_run.start) simp
  have "int 4 mod ho_page_size (host_clear ?h) = 0" "int 4 \<le> host_available_size (host_clear ?h)" "ho_page_size (host_clear ?h) = 2"
    by (simp_all add: host_clear_def host_available_size_def ho_size_def)
  with host_alloc_whole_pages [OF r, of 4] show ?thesis by auto
qed

section \<open>Compressor states\<close>

text \<open>
  C36: the transfers do not move the compressor state of a page. The compressor keeps the state of
  the slots of a page in \<^verbatim>\<open>ring_size\<close> rows of the state pool; the transfers copy
  \<^verbatim>\<open>ring_size // ratio\<close> rows, counted from the page number times that smaller number. For every
  page but page zero, which is never allocated, and every ring size outside the online mode, none of
  the rows copied belongs to the page: all of them belong to pages with smaller numbers, whose
  states a load therefore overwrites.
\<close>

theorem state_rows_miss_page:
  assumes "get_compress_state_ring_size False ratio speculative = Inr ring" and "cs_ring sp = ring"
    and "0 < swa_page_size" and "1 \<le> swa_loc div swa_page_size"
  shows "state_loc swa_page_size ring swa_loc \<notin> set (state_rows [swa_loc div swa_page_size] sp ratio) \<and>
    (\<forall>row \<in> set (state_rows [swa_loc div swa_page_size] sp ratio). row div ring < swa_loc div swa_page_size)"
proof -
  let ?p = "swa_loc div swa_page_size"
  have ring: "(ratio, ring) \<in> {(4, 8), (4, 16), (128, 128), (128, 256)}"
    using assms(1) by (auto simp: get_compress_state_ring_size_def split: if_splits)
  have lt: "row < ?p * ring" if "row \<in> set (state_rows [?p] sp ratio)" for row
    using that ring assms(2,4) by (auto simp: state_rows_def state_rows_per_page_def)
  have pos: "0 < ring" using ring by auto
  then have "?p * ring \<le> state_loc swa_page_size ring swa_loc" by (simp add: state_loc_def)
  then have "state_loc swa_page_size ring swa_loc \<notin> set (state_rows [?p] sp ratio)" using lt by fastforce
  moreover have "row div ring < ?p" if "row \<in> set (state_rows [?p] sp ratio)" for row
  proof -
    have "row div ring * ring < ?p * ring"
      using lt [OF that] div_mult_mod_eq [of row ring] pos_mod_sign [OF pos, of row] by linarith
    then show ?thesis using pos by simp
  qed
  ultimately show ?thesis by blast
qed

theorem state_rows_miss_page_witness:
  "state_loc 256 8 600 \<notin> set (state_rows [2] \<lparr>cs_ring = 8, cs_width = 1, cs_itemsize = 4, cs_rows = []\<rparr> 4)"
  using state_rows_miss_page [of 4 False 8 "\<lparr>cs_ring = 8, cs_width = 1, cs_itemsize = 4, cs_rows = []\<rparr>" 256 600]
  by (simp add: get_compress_state_ring_size_def)

end
