(* ===== verification/Dsv4_Transfer.thy ===== *)
theory Dsv4_Transfer
  imports Dsv4_Host
begin

text \<open>
  Transfers between the device and the host pool: what a backup writes to host pages, a later load
  brings back to device pages, layer by layer.
\<close>

section \<open>Copying rows\<close>

lemma backup_pages_ok:
  assumes "in_range d dp" and "in_range b hp" and "length dp = length hp" and "distinct hp"
  shows "\<exists>b'. backup_pages hp dp d b = Inr b' \<and> length b' = length b \<and> (\<forall>k < length hp. b' ! nat (hp ! k) = d ! nat (dp ! k))"
  using assms by (simp add: backup_pages_def copy_ok put_at)

lemma load_pages_ok:
  assumes "in_range d dp" and "in_range b hp" and "length dp = length hp" and "distinct dp"
  shows "\<exists>d'. load_pages hp dp b d = Inr d' \<and> length d' = length d \<and> (\<forall>k < length hp. d' ! nat (dp ! k) = b ! nat (hp ! k)) \<and>
    (\<forall>j. int j \<notin> set dp \<longrightarrow> d' ! j = d ! j)"
  using assms by (auto simp: load_pages_def copy_ok put_at in_range_def intro!: put_other)

section \<open>Shapes\<close>

definition device_ok :: "dsv4_pool \<Rightarrow> bool" where
  "device_ok dv \<longleftrightarrow> length (dv_mapping dv) = length (dv_swa dv) \<and> length (dv_states dv) = length (dv_swa dv) \<and>
     length (dv_idx_states dv) = length (dv_swa dv) \<and>
     (\<forall>i < length (dv_swa dv).
        (li_ratio (dv_mapping dv ! i) = 4 \<longrightarrow> li_layer (dv_mapping dv ! i) < length (dv_c4 dv) \<and>
           li_layer (dv_mapping dv ! i) < length (dv_indexer dv) \<and> dv_states dv ! i \<noteq> None \<and> dv_idx_states dv ! i \<noteq> None) \<and>
        (li_ratio (dv_mapping dv ! i) = 128 \<longrightarrow> li_layer (dv_mapping dv ! i) < length (dv_c128 dv) \<and> dv_states dv ! i \<noteq> None) \<and>
        (\<forall>j < i. li_ratio (dv_mapping dv ! j) = li_ratio (dv_mapping dv ! i) \<longrightarrow> li_layer (dv_mapping dv ! j) \<noteq> li_layer (dv_mapping dv ! i)))"

definition state_fits :: "int list \<Rightarrow> int \<Rightarrow> state_pool option \<Rightarrow> bool" where
  "state_fits sp ratio pool = (case pool of None \<Rightarrow> True | Some p \<Rightarrow> in_range (cs_rows p) (state_rows sp p ratio))"

text \<open>The pages of a transfer lie inside the device buffers.\<close>

definition pages_fit :: "dsv4_pool \<Rightarrow> int list \<Rightarrow> int list \<Rightarrow> bool" where
  "pages_fit dv fp sp \<longleftrightarrow> (\<forall>b \<in> set (dv_swa dv). in_range b sp) \<and>
     (\<forall>b \<in> set (dv_c4 dv) \<union> set (dv_indexer dv) \<union> set (dv_c128 dv). in_range b fp) \<and>
     (\<forall>i < length (dv_swa dv). state_fits sp (li_ratio (dv_mapping dv ! i)) (dv_states dv ! i) \<and>
        state_fits sp (li_ratio (dv_mapping dv ! i)) (dv_idx_states dv ! i))"

definition state_buffer_ok :: "nat \<Rightarrow> int \<Rightarrow> state_pool option \<Rightarrow> row list list option \<Rightarrow> bool" where
  "state_buffer_ok n ratio pool buf \<longleftrightarrow> (case (pool, buf) of
     (Some p, Some b) \<Rightarrow> length b = n \<and> (\<forall>pg \<in> set b. length pg = state_rows_per_page p ratio) | (None, _) \<Rightarrow> True | _ \<Rightarrow> False)"

definition all_len :: "nat \<Rightarrow> 'a list list \<Rightarrow> bool" where
  "all_len n bs \<longleftrightarrow> (\<forall>j < length bs. length (bs ! j) = n)"

lemma all_len_upd: "all_len n bs \<Longrightarrow> length b = n \<Longrightarrow> all_len n (bs[i := b])"
  unfolding all_len_def length_list_update by (metis nth_list_update_eq nth_list_update_neq)

definition host_ok :: "dsv4_pool \<Rightarrow> dsv4_host \<Rightarrow> bool" where
  "host_ok dv h \<longleftrightarrow> length (ho_swa h) = length (dv_swa dv) \<and> length (ho_c4 h) = length (dv_c4 dv) \<and>
     length (ho_c128 h) = length (dv_c128 dv) \<and> length (ho_indexer h) = length (dv_indexer dv) \<and>
     length (ho_attn h) = length (dv_swa dv) \<and> length (ho_idx h) = length (dv_swa dv) \<and>
     all_len (ho_page_num h) (ho_swa h) \<and> all_len (ho_page_num h) (ho_c4 h) \<and> all_len (ho_page_num h) (ho_c128 h) \<and>
     all_len (ho_page_num h) (ho_indexer h) \<and>
     (\<forall>i < length (dv_swa dv). li_ratio (dv_mapping dv ! i) \<noteq> 0 \<longrightarrow>
        state_buffer_ok (ho_page_num h) (li_ratio (dv_mapping dv ! i)) (dv_states dv ! i) (ho_attn h ! i)) \<and>
     (\<forall>i < length (dv_swa dv). li_ratio (dv_mapping dv ! i) = 4 \<longrightarrow>
        state_buffer_ok (ho_page_num h) 4 (dv_idx_states dv ! i) (ho_idx h ! i))"

lemma length_state_rows: "length (state_rows sp p ratio) = length sp * state_rows_per_page p ratio"
  by (induction sp) (simp_all add: state_rows_def)

text \<open>The rows that a transfer reads or writes for one sliding-window page of a state pool.\<close>

definition state_page :: "state_pool \<Rightarrow> int \<Rightarrow> int \<Rightarrow> row list" where
  "state_page p ratio q =
     map (\<lambda>k. cs_rows p ! nat (q * int (state_rows_per_page p ratio) + int k)) [0..<state_rows_per_page p ratio]"

lemma length_state_page [simp]: "length (state_page p ratio q) = state_rows_per_page p ratio"
  by (simp add: state_page_def)

lemma state_rows_contents: "map (\<lambda>i. cs_rows p ! nat i) (state_rows sp p ratio) = concat (map (state_page p ratio) sp)"
  by (induction sp) (simp_all add: state_rows_def state_page_def)

lemma reshape_concat: "\<forall>x \<in> set xs. length x = m \<Longrightarrow> reshape (length xs) m (concat xs) = xs"
proof (induction xs)
  case (Cons x xs)
  have "reshape (length (x # xs)) m (concat (x # xs)) = x # reshape (length xs) m (concat xs)"
    unfolding reshape_def length_Cons by (subst upt_conv_Cons) (use Cons.prems in \<open>auto simp: map_Suc_upt [symmetric] comp_def simp del: upt_Suc\<close>)
  then show ?case using Cons by simp
qed (simp add: reshape_def)

lemma concat_nth_block:
  "\<forall>x \<in> set xs. length x = m \<Longrightarrow> k < length xs \<Longrightarrow> r < m \<Longrightarrow> concat xs ! (k * m + r) = xs ! k ! r"
proof (induction xs arbitrary: k)
  case (Cons x xs)
  then show ?case by (cases k) (auto simp: nth_append add.assoc)
qed simp

lemma state_rows_nth:
  assumes "k < length sp" and "r < state_rows_per_page p ratio"
  shows "state_rows sp p ratio ! (k * state_rows_per_page p ratio + r) = sp ! k * int (state_rows_per_page p ratio) + int r"
  unfolding state_rows_def using assms by (subst concat_nth_block) auto

lemma state_rows_distinct: "distinct sp \<Longrightarrow> distinct (state_rows sp p ratio)"
proof (induction sp)
  case (Cons q sp)
  let ?R = "int (state_rows_per_page p ratio)"
  have apart: "q * ?R + int a \<noteq> q' * ?R + int b" if "q' \<in> set sp" "int a < ?R" "int b < ?R" for q' a b
  proof
    assume eq: "q * ?R + int a = q' * ?R + int b"
    have "(q * ?R + int a) div ?R = q" "(q' * ?R + int b) div ?R = q'" using that by simp_all
    then have "q = q'" using eq by simp
    then show False using that(1) Cons.prems by simp
  qed
  have "state_rows (q # sp) p ratio = map (\<lambda>k. q * ?R + int k) [0..<state_rows_per_page p ratio] @ state_rows sp p ratio"
    by (simp add: state_rows_def)
  moreover have "set (map (\<lambda>k. q * ?R + int k) [0..<state_rows_per_page p ratio]) \<inter> set (state_rows sp p ratio) = {}"
    using apart by (fastforce simp: state_rows_def)
  ultimately show ?case using Cons by (simp add: distinct_map inj_on_def)
qed (simp add: state_rows_def)

definition state_saved :: "int list \<Rightarrow> int list \<Rightarrow> int \<Rightarrow> state_pool option \<Rightarrow> row list list option \<Rightarrow> bool" where
  "state_saved hp sp ratio pool buf \<longleftrightarrow> (case (pool, buf) of
     (Some p, Some b) \<Rightarrow> \<forall>k < length hp. b ! nat (hp ! k) = state_page p ratio (sp ! k) | _ \<Rightarrow> False)"

lemma backup_state_ok:
  assumes "state_fits sp ratio (Some p)" and "state_buffer_ok n ratio (Some p) buf" and "length sp = length hp"
    and "\<forall>i \<in> set hp. 0 \<le> i \<and> i < int n" and "distinct hp"
  shows "\<exists>b. backup_state_rows hp sp ratio p buf = Inr b \<and> state_buffer_ok n ratio (Some p) b \<and> state_saved hp sp ratio (Some p) b"
proof -
  from assms(2) obtain b where b: "buf = Some b" "length b = n" "\<forall>pg \<in> set b. length pg = state_rows_per_page p ratio"
    by (auto simp: state_buffer_ok_def split: option.splits)
  define pgs where "pgs = map (state_page p ratio) sp"
  have src: "index_select (cs_rows p) (state_rows sp p ratio) = Inr (concat pgs)"
    using assms(1) by (simp add: state_fits_def copy_ok state_rows_contents pgs_def)
  have pgs: "length pgs = length hp" "\<forall>pg \<in> set pgs. length pg = state_rows_per_page p ratio"
    by (auto simp: pgs_def assms(3))
  have shape: "reshape (length sp) (state_rows_per_page p ratio) (concat pgs) = pgs"
    using reshape_concat [OF pgs(2)] by (simp add: pgs_def)
  have "set (put hp pgs b) \<subseteq> set b \<union> set pgs"
  proof -
    have "set (fold (\<lambda>(i, v) b. b[nat i := v]) zs b) \<subseteq> set b \<union> snd ` set zs" for zs :: "(int \<times> row list) list" and b
    proof (induction zs arbitrary: b)
      case (Cons z zs)
      obtain i v where z: "z = (i, v)" by fastforce
      have "set (b[nat i := v]) \<subseteq> insert v (set b)" by (rule set_update_subset_insert)
      then show ?case using Cons.IH [of "b[nat i := v]"] by (auto simp: z)
    qed simp
    moreover have "snd ` set (zip hp pgs) \<subseteq> set pgs" by (auto dest: set_zip_rightD)
    ultimately show ?thesis unfolding put_def by blast
  qed
  moreover have rng: "in_range b hp" using assms(4) b(2) by (simp add: in_range_def)
  then have "scatter b hp pgs = Inr (put hp pgs b)" using pgs(1) by (intro copy_ok)
  moreover have "state_saved hp sp ratio (Some p) (Some (put hp pgs b))"
    using put_at [OF rng pgs(1) assms(5)] assms(3) by (simp add: state_saved_def pgs_def)
  ultimately show ?thesis
    using b pgs(2) src shape by (auto simp: backup_state_rows_def py_some_def state_buffer_ok_def)
qed

text \<open>A state pool after a load: the rows of the pages come from the host, all other rows stay.\<close>

definition state_loaded :: "int list \<Rightarrow> int list \<Rightarrow> int \<Rightarrow> row list list option \<Rightarrow> state_pool option \<Rightarrow> state_pool option \<Rightarrow> bool" where
  "state_loaded hp sp ratio buf pool pool' \<longleftrightarrow> (case (buf, pool, pool') of
     (Some b, Some p, Some p') \<Rightarrow> p' = p\<lparr>cs_rows := cs_rows p'\<rparr> \<and>
       (\<forall>k < length hp. state_page p' ratio (sp ! k) = b ! nat (hp ! k)) \<and>
       (\<forall>j. int j \<notin> set (state_rows sp p ratio) \<longrightarrow> cs_rows p' ! j = cs_rows p ! j)
   | _ \<Rightarrow> False)"

lemma load_state_ok:
  assumes "state_fits sp ratio (Some p)" and "state_buffer_ok n ratio (Some p) buf" and "length sp = length hp"
    and "\<forall>i \<in> set hp. 0 \<le> i \<and> i < int n" and "distinct sp"
  shows "\<exists>p'. load_state_rows hp sp ratio buf (Some p) = Inr (Some p') \<and> state_loaded hp sp ratio buf (Some p) (Some p')"
proof -
  let ?R = "state_rows_per_page p ratio" and ?rows = "state_rows sp p ratio"
  from assms(2) obtain b where b: "buf = Some b" "length b = n" "\<forall>pg \<in> set b. length pg = ?R"
    by (auto simp: state_buffer_ok_def split: option.splits)
  have r: "in_range b hp" using assms(4) b(2) by (simp add: in_range_def)
  define pgs where "pgs = map (\<lambda>i. b ! nat i) hp"
  have w: "\<forall>pg \<in> set pgs. length pg = ?R" using b(2,3) assms(4) by (auto simp: pgs_def nat_less_iff)
  have "length (concat pgs) = length pgs * ?R" using w by (induction pgs) auto
  then have len: "length (concat pgs) = length ?rows" by (simp add: length_state_rows assms(3) pgs_def)
  have fits: "in_range (cs_rows p) ?rows" using assms(1) by (simp add: state_fits_def)
  define p' where "p' = p\<lparr>cs_rows := put ?rows (concat pgs) (cs_rows p)\<rparr>"
  have R: "state_rows_per_page p' ratio = ?R" by (simp add: p'_def state_rows_per_page_def)
  have page: "state_page p' ratio (sp ! k) = b ! nat (hp ! k)" if k: "k < length hp" for k
  proof (rule nth_equalityI)
    show "length (state_page p' ratio (sp ! k)) = length (b ! nat (hp ! k))" using w k R by (simp add: pgs_def)
    fix m assume "m < length (state_page p' ratio (sp ! k))"
    then have m: "m < ?R" by (simp add: R)
    have km: "k * ?R + m < length ?rows"
    proof -
      have "k * ?R + m < Suc k * ?R" using m by simp
      also have "\<dots> \<le> length sp * ?R" using k assms(3) by (intro mult_le_mono1) simp
      finally show ?thesis by (simp add: length_state_rows)
    qed
    have "put ?rows (concat pgs) (cs_rows p) ! nat (?rows ! (k * ?R + m)) = concat pgs ! (k * ?R + m)"
      by (rule put_at [OF fits len state_rows_distinct [OF assms(5)] km])
    moreover have "?rows ! (k * ?R + m) = sp ! k * int ?R + int m" using state_rows_nth [of k sp m p ratio] k m assms(3) by simp
    moreover have "concat pgs ! (k * ?R + m) = b ! nat (hp ! k) ! m"
      using concat_nth_block [OF w, of k m] k m by (simp add: pgs_def)
    ultimately show "state_page p' ratio (sp ! k) ! m = b ! nat (hp ! k) ! m"
      using m R by (simp add: state_page_def p'_def)
  qed
  have other: "\<forall>j. int j \<notin> set ?rows \<longrightarrow> cs_rows p' ! j = cs_rows p ! j"
    using fits by (auto simp: p'_def in_range_def intro!: put_other)
  have "load_state_rows hp sp ratio buf (Some p) = Inr (Some p')"
    using r fits len by (simp add: load_state_rows_def py_some_def b(1) copy_ok p'_def pgs_def)
  moreover have "state_loaded hp sp ratio buf (Some p) (Some p')"
    using page other by (simp add: state_loaded_def b(1) p'_def)
  ultimately show ?thesis by blast
qed

section \<open>Backing up\<close>

text \<open>What the host holds of a layer after a backup.\<close>

definition saved :: "dsv4_pool \<Rightarrow> int list \<times> int list \<times> int list \<Rightarrow> nat \<Rightarrow> dsv4_host \<Rightarrow> bool" where
  "saved dv pages i h = (case pages of (hp, fp, sp) \<Rightarrow>
     (\<forall>k < length hp. ho_swa h ! i ! nat (hp ! k) = dv_swa dv ! i ! nat (sp ! k)) \<and>
     (li_ratio (dv_mapping dv ! i) = 4 \<longrightarrow> (\<forall>k < length hp.
        ho_c4 h ! li_layer (dv_mapping dv ! i) ! nat (hp ! k) = dv_c4 dv ! li_layer (dv_mapping dv ! i) ! nat (fp ! k) \<and>
        ho_indexer h ! li_layer (dv_mapping dv ! i) ! nat (hp ! k) = dv_indexer dv ! li_layer (dv_mapping dv ! i) ! nat (fp ! k))) \<and>
     (li_ratio (dv_mapping dv ! i) = 128 \<longrightarrow> (\<forall>k < length hp.
        ho_c128 h ! li_layer (dv_mapping dv ! i) ! nat (hp ! k) = dv_c128 dv ! li_layer (dv_mapping dv ! i) ! nat (fp ! k))) \<and>
     (li_ratio (dv_mapping dv ! i) \<in> {4, 128} \<longrightarrow> state_saved hp sp (li_ratio (dv_mapping dv ! i)) (dv_states dv ! i) (ho_attn h ! i)) \<and>
     (li_ratio (dv_mapping dv ! i) = 4 \<longrightarrow> state_saved hp sp 4 (dv_idx_states dv ! i) (ho_idx h ! i)))"

definition transfer_ok :: "dsv4_pool \<Rightarrow> dsv4_host \<Rightarrow> int list \<times> int list \<times> int list \<Rightarrow> bool" where
  "transfer_ok dv h pages = (case pages of (hp, fp, sp) \<Rightarrow> device_ok dv \<and> host_ok dv h \<and> pages_fit dv fp sp \<and>
     distinct hp \<and> (\<forall>i \<in> set hp. 0 \<le> i \<and> i < int (ho_page_num h)) \<and> length fp = length hp \<and> length sp = length hp)"

lemma buffers_in_range:
  assumes "transfer_ok dv h (hp, fp, sp)"
  shows "j < length (dv_swa dv) \<Longrightarrow> in_range (dv_swa dv ! j) sp \<and> in_range (ho_swa h ! j) hp"
    and "j < length (dv_c4 dv) \<Longrightarrow> in_range (dv_c4 dv ! j) fp \<and> in_range (ho_c4 h ! j) hp"
    and "j < length (dv_c128 dv) \<Longrightarrow> in_range (dv_c128 dv ! j) fp \<and> in_range (ho_c128 h ! j) hp"
    and "j < length (dv_indexer dv) \<Longrightarrow> in_range (dv_indexer dv ! j) fp \<and> in_range (ho_indexer h ! j) hp"
  using assms unfolding transfer_ok_def host_ok_def pages_fit_def
  by (force simp: all_len_def in_range_def [of "ho_swa h ! j"] in_range_def [of "ho_c4 h ! j"] in_range_def [of "ho_c128 h ! j"]
      in_range_def [of "ho_indexer h ! j"])+

lemma backup_layer_step:
  assumes ok: "transfer_ok dv h (hp, fp, sp)" and i: "i < length (dv_swa dv)" and before: "\<forall>j < i. saved dv (hp, fp, sp) j h"
  shows "\<exists>h'. backup_layer dv (hp, fp, sp) i h = Inr h' \<and> transfer_ok dv h' (hp, fp, sp) \<and>
    ho_page_size h' = ho_page_size h \<and> (\<forall>j < Suc i. saved dv (hp, fp, sp) j h')"
proof -
  let ?item = "dv_mapping dv ! i"
  let ?l = "li_layer ?item"
  have dev: "device_ok dv" and hok: "host_ok dv h" and fit: "pages_fit dv fp sp" and hp: "distinct hp"
    "\<forall>i \<in> set hp. 0 \<le> i \<and> i < int (ho_page_num h)" "length fp = length hp" "length sp = length hp"
    using ok by (auto simp: transfer_ok_def)
  note rng = buffers_in_range [OF ok]
  have len: "length (ho_swa h) = length (dv_swa dv)" "length (dv_mapping dv) = length (dv_swa dv)"
    "length (dv_states dv) = length (dv_swa dv)" "length (dv_idx_states dv) = length (dv_swa dv)"
    "length (ho_attn h) = length (dv_swa dv)" "length (ho_idx h) = length (dv_swa dv)"
    "length (ho_c4 h) = length (dv_c4 dv)" "length (ho_c128 h) = length (dv_c128 dv)" "length (ho_indexer h) = length (dv_indexer dv)"
    using dev hok by (auto simp: device_ok_def host_ok_def)
  have other: "li_layer (dv_mapping dv ! j) \<noteq> ?l" if "j < i" "li_ratio (dv_mapping dv ! j) = li_ratio ?item" for j
    using dev i that unfolding device_ok_def by blast
  have alen: "all_len (ho_page_num h) (ho_swa h)" "all_len (ho_page_num h) (ho_c4 h)" "all_len (ho_page_num h) (ho_c128 h)"
    "all_len (ho_page_num h) (ho_indexer h)" using hok by (auto simp: host_ok_def)
  obtain swa where swa: "backup_pages hp sp (dv_swa dv ! i) (ho_swa h ! i) = Inr swa" "length swa = ho_page_num h"
    "\<forall>k < length hp. swa ! nat (hp ! k) = dv_swa dv ! i ! nat (sp ! k)"
    using backup_pages_ok [of "dv_swa dv ! i" sp "ho_swa h ! i" hp] rng(1) [OF i] hp i len alen(1) by (auto simp: all_len_def)
  consider "li_ratio ?item = 4" | "li_ratio ?item = 128" | "li_ratio ?item \<noteq> 4" "li_ratio ?item \<noteq> 128" by blast
  then show ?thesis
  proof cases
    case 1
    then obtain p ip where l: "?l < length (dv_c4 dv)" "?l < length (dv_indexer dv)" "dv_states dv ! i = Some p" "dv_idx_states dv ! i = Some ip"
      using dev i unfolding device_ok_def by blast
    obtain c4 where c4: "backup_pages hp fp (dv_c4 dv ! ?l) (ho_c4 h ! ?l) = Inr c4" "length c4 = ho_page_num h"
      "\<forall>k < length hp. c4 ! nat (hp ! k) = dv_c4 dv ! ?l ! nat (fp ! k)"
      using backup_pages_ok [of "dv_c4 dv ! ?l" fp "ho_c4 h ! ?l" hp] rng(2) [OF l(1)] hp l len alen(2) by (auto simp: all_len_def)
    obtain ix where ix: "backup_pages hp fp (dv_indexer dv ! ?l) (ho_indexer h ! ?l) = Inr ix" "length ix = ho_page_num h"
      "\<forall>k < length hp. ix ! nat (hp ! k) = dv_indexer dv ! ?l ! nat (fp ! k)"
      using backup_pages_ok [of "dv_indexer dv ! ?l" fp "ho_indexer h ! ?l" hp] rng(4) [OF l(2)] hp l len alen(4) by (auto simp: all_len_def)
    have sf: "state_fits sp 4 (Some p)" "state_fits sp 4 (Some ip)" using fit i 1 l by (auto simp: pages_fit_def)
    have sb: "state_buffer_ok (ho_page_num h) 4 (Some p) (ho_attn h ! i)" "state_buffer_ok (ho_page_num h) 4 (Some ip) (ho_idx h ! i)"
      using hok i 1 l unfolding host_ok_def by auto
    obtain attn where attn: "backup_state_rows hp sp 4 p (ho_attn h ! i) = Inr attn" "state_buffer_ok (ho_page_num h) 4 (Some p) attn"
      "state_saved hp sp 4 (Some p) attn"
      using backup_state_ok [OF sf(1) sb(1) hp(4,2,1)] by blast
    obtain idx where idx: "backup_state_rows hp sp 4 ip (ho_idx h ! i) = Inr idx" "state_buffer_ok (ho_page_num h) 4 (Some ip) idx"
      "state_saved hp sp 4 (Some ip) idx"
      using backup_state_ok [OF sf(2) sb(2) hp(4,2,1)] by blast
    define h' where "h' = h\<lparr>ho_swa := (ho_swa h)[i := swa], ho_c4 := (ho_c4 h)[?l := c4], ho_indexer := (ho_indexer h)[?l := ix],
        ho_attn := (ho_attn h)[i := attn], ho_idx := (ho_idx h)[i := idx]\<rparr>"
    have "backup_layer dv (hp, fp, sp) i h = Inr h'"
      using i l 1 len c4(1) ix(1) attn(1) idx(1)
      by (simp add: backup_layer_def py_nth_def upd_nth_def py_some_def h'_def swa(1) Let_def)
    moreover have "host_ok dv h'"
      using hok i 1 l swa(2) c4(2) ix(2) attn(2) idx(2) unfolding host_ok_def h'_def
      by (auto simp: all_len_upd nth_list_update)
    moreover have "saved dv (hp, fp, sp) j h'" if "j < Suc i" for j
    proof (cases "j = i")
      case True
      then show ?thesis using swa(3) c4(3) ix(3) attn(3) idx(3) i l len 1 by (simp add: saved_def h'_def)
    next
      case False
      then have "saved dv (hp, fp, sp) j h" "j < i" using before that by auto
      then show ?thesis using other [of j] False 1 by (auto simp: saved_def h'_def nth_list_update)
    qed
    ultimately show ?thesis using ok by (intro exI [of _ h']) (auto simp: transfer_ok_def h'_def)
  next
    case 2
    then obtain p where l: "?l < length (dv_c128 dv)" "dv_states dv ! i = Some p" using dev i unfolding device_ok_def by blast
    obtain c128 where c128: "backup_pages hp fp (dv_c128 dv ! ?l) (ho_c128 h ! ?l) = Inr c128" "length c128 = ho_page_num h"
      "\<forall>k < length hp. c128 ! nat (hp ! k) = dv_c128 dv ! ?l ! nat (fp ! k)"
      using backup_pages_ok [of "dv_c128 dv ! ?l" fp "ho_c128 h ! ?l" hp] rng(3) [OF l(1)] hp l len alen(3) by (auto simp: all_len_def)
    have sf: "state_fits sp 128 (Some p)" using fit i 2 l by (auto simp: pages_fit_def)
    have sb: "state_buffer_ok (ho_page_num h) 128 (Some p) (ho_attn h ! i)" using hok i 2 l unfolding host_ok_def by auto
    obtain attn where attn: "backup_state_rows hp sp 128 p (ho_attn h ! i) = Inr attn" "state_buffer_ok (ho_page_num h) 128 (Some p) attn"
      "state_saved hp sp 128 (Some p) attn"
      using backup_state_ok [OF sf sb hp(4,2,1)] by blast
    define h' where "h' = h\<lparr>ho_swa := (ho_swa h)[i := swa], ho_c128 := (ho_c128 h)[?l := c128], ho_attn := (ho_attn h)[i := attn]\<rparr>"
    have "backup_layer dv (hp, fp, sp) i h = Inr h'"
      using i l 2 len c128(1) attn(1) by (simp add: backup_layer_def py_nth_def upd_nth_def py_some_def h'_def swa(1) Let_def)
    moreover have "host_ok dv h'"
      using hok i 2 l swa(2) c128(2) attn(2) unfolding host_ok_def h'_def by (auto simp: all_len_upd nth_list_update)
    moreover have "saved dv (hp, fp, sp) j h'" if "j < Suc i" for j
    proof (cases "j = i")
      case True
      then show ?thesis using swa(3) c128(3) attn(3) i l len 2 by (simp add: saved_def h'_def)
    next
      case False
      then have "saved dv (hp, fp, sp) j h" "j < i" using before that by auto
      then show ?thesis using other [of j] False 2 by (auto simp: saved_def h'_def nth_list_update)
    qed
    ultimately show ?thesis using ok by (intro exI [of _ h']) (auto simp: transfer_ok_def h'_def)
  next
    case 3
    define h' where "h' = h\<lparr>ho_swa := (ho_swa h)[i := swa]\<rparr>"
    have "backup_layer dv (hp, fp, sp) i h = Inr h'"
      using i 3 len by (simp add: backup_layer_def py_nth_def upd_nth_def h'_def swa(1) Let_def)
    moreover have "host_ok dv h'"
      using hok swa(2) unfolding host_ok_def h'_def by (auto simp: all_len_upd)
    moreover have "saved dv (hp, fp, sp) j h'" if "j < Suc i" for j
      using before that swa(3) i len 3 by (cases "j = i") (auto simp: saved_def h'_def)
    ultimately show ?thesis using ok by (intro exI [of _ h']) (auto simp: transfer_ok_def h'_def)
  qed
qed

lemma backup_layers:
  assumes "transfer_ok dv h pages" and "n \<le> length (dv_swa dv)"
  shows "\<exists>h'. fold (\<lambda>i acc. bindE acc (backup_layer dv pages i)) [0..<n] (Inr h) = Inr h' \<and> transfer_ok dv h' pages \<and>
    ho_page_size h' = ho_page_size h \<and> (\<forall>j < n. saved dv pages j h')"
  using assms(2)
proof (induction n)
  case (Suc n)
  obtain hp fp sp where pages: "pages = (hp, fp, sp)" by (metis surj_pair)
  from Suc obtain h1 where h1: "fold (\<lambda>i acc. bindE acc (backup_layer dv pages i)) [0..<n] (Inr h) = Inr h1" "transfer_ok dv h1 pages"
    "ho_page_size h1 = ho_page_size h" "\<forall>j < n. saved dv pages j h1" by auto
  have "n < length (dv_swa dv)" using Suc.prems by simp
  from backup_layer_step [OF h1(2) [unfolded pages] this h1(4) [unfolded pages]] h1(1,3) show ?case by (auto simp: pages)
qed (use assms(1) in simp)

text \<open>Index tensors that name whole pages, and the sliding-window pages behind them.\<close>

definition names_pages :: "dsv4_pool \<Rightarrow> int \<Rightarrow> int list \<Rightarrow> int list \<Rightarrow> bool" where
  "names_pages dv ps fp sp \<longleftrightarrow> in_range (dv_full_to_swa dv) (map (\<lambda>p. p * ps) fp) \<and>
     sp = map (\<lambda>p. dv_full_to_swa dv ! nat (p * ps) div dv_swa_page_size dv) fp"

lemma logical_pages_slots:
  assumes "0 < ho_page_size h" and "length fp = length hp" and "names_pages dv (ho_page_size h) fp sp"
  shows "logical_pages h dv (page_slots (ho_page_size h) hp) (page_slots (ho_page_size h) fp) = Inr (hp, fp, sp)"
  using assms by (simp add: logical_pages_def page_starts_slots names_pages_def translate_loc_from_full_to_swa_def copy_ok o_def)

section \<open>Loading\<close>

text \<open>What a layer of the device holds after a load.\<close>

definition loaded :: "dsv4_host \<Rightarrow> int list \<times> int list \<times> int list \<Rightarrow> nat \<Rightarrow> dsv4_pool \<Rightarrow> bool" where
  "loaded h pages i dv = (case pages of (hp, fp, sp) \<Rightarrow>
     (\<forall>k < length hp. dv_swa dv ! i ! nat (sp ! k) = ho_swa h ! i ! nat (hp ! k)) \<and>
     (li_ratio (dv_mapping dv ! i) = 4 \<longrightarrow> (\<forall>k < length hp.
        dv_c4 dv ! li_layer (dv_mapping dv ! i) ! nat (fp ! k) = ho_c4 h ! li_layer (dv_mapping dv ! i) ! nat (hp ! k) \<and>
        dv_indexer dv ! li_layer (dv_mapping dv ! i) ! nat (fp ! k) = ho_indexer h ! li_layer (dv_mapping dv ! i) ! nat (hp ! k))) \<and>
     (li_ratio (dv_mapping dv ! i) = 128 \<longrightarrow> (\<forall>k < length hp.
        dv_c128 dv ! li_layer (dv_mapping dv ! i) ! nat (fp ! k) = ho_c128 h ! li_layer (dv_mapping dv ! i) ! nat (hp ! k))))"

text \<open>The pages of the device outside a transfer.\<close>

definition untouched :: "int list \<Rightarrow> int list \<Rightarrow> dsv4_pool \<Rightarrow> dsv4_pool \<Rightarrow> bool" where
  "untouched fp sp dv dv' \<longleftrightarrow>
     (\<forall>l j. int j \<notin> set sp \<longrightarrow> l < length (dv_swa dv) \<longrightarrow> dv_swa dv' ! l ! j = dv_swa dv ! l ! j) \<and>
     (\<forall>l j. int j \<notin> set fp \<longrightarrow> l < length (dv_c4 dv) \<longrightarrow> dv_c4 dv' ! l ! j = dv_c4 dv ! l ! j) \<and>
     (\<forall>l j. int j \<notin> set fp \<longrightarrow> l < length (dv_indexer dv) \<longrightarrow> dv_indexer dv' ! l ! j = dv_indexer dv ! l ! j) \<and>
     (\<forall>l j. int j \<notin> set fp \<longrightarrow> l < length (dv_c128 dv) \<longrightarrow> dv_c128 dv' ! l ! j = dv_c128 dv ! l ! j)"

text \<open>The compressor states after the load of layer \<open>i\<close>; only that layer's pools change.\<close>

definition states_loaded :: "dsv4_host \<Rightarrow> int list \<Rightarrow> int list \<Rightarrow> nat \<Rightarrow> dsv4_pool \<Rightarrow> dsv4_pool \<Rightarrow> bool" where
  "states_loaded h hp sp i dv dv' \<longleftrightarrow> (let ratio = li_ratio (dv_mapping dv ! i) in
     (if ratio = 4 \<or> ratio = 128 then state_loaded hp sp ratio (ho_attn h ! i) (dv_states dv ! i) (dv_states dv' ! i)
      else dv_states dv' ! i = dv_states dv ! i) \<and>
     (if ratio = 4 then state_loaded hp sp 4 (ho_idx h ! i) (dv_idx_states dv ! i) (dv_idx_states dv' ! i)
      else dv_idx_states dv' ! i = dv_idx_states dv ! i) \<and>
     (\<forall>j. j \<noteq> i \<longrightarrow> dv_states dv' ! j = dv_states dv ! j \<and> dv_idx_states dv' ! j = dv_idx_states dv ! j))"

lemma load_layer:
  assumes ok: "transfer_ok dv h (hp, fp, sp)" and dist: "distinct fp" "distinct sp" and i: "i < length (dv_swa dv)"
    and lp: "logical_pages h dv host_indices device_indices = Inr (hp, fp, sp)"
  shows "\<exists>dv'. load_to_device_per_layer ''direct'' h host_indices device_indices i dv = Inr dv' \<and>
    loaded h (hp, fp, sp) i dv' \<and> untouched fp sp dv dv' \<and> states_loaded h hp sp i dv dv' \<and> dv_mapping dv' = dv_mapping dv"
proof -
  let ?item = "dv_mapping dv ! i"
  let ?l = "li_layer ?item"
  have dev: "device_ok dv" and hok: "host_ok dv h" and fit: "pages_fit dv fp sp" and
    hp: "\<forall>i \<in> set hp. 0 \<le> i \<and> i < int (ho_page_num h)" "length fp = length hp" "length sp = length hp"
    using ok by (auto simp: transfer_ok_def)
  note rng = buffers_in_range [OF ok]
  have len: "length (ho_swa h) = length (dv_swa dv)" "length (dv_mapping dv) = length (dv_swa dv)"
    "length (dv_states dv) = length (dv_swa dv)" "length (dv_idx_states dv) = length (dv_swa dv)"
    "length (ho_attn h) = length (dv_swa dv)" "length (ho_idx h) = length (dv_swa dv)"
    "length (ho_c4 h) = length (dv_c4 dv)" "length (ho_c128 h) = length (dv_c128 dv)" "length (ho_indexer h) = length (dv_indexer dv)"
    using dev hok by (auto simp: device_ok_def host_ok_def)
  obtain swa where swa: "load_pages hp sp (ho_swa h ! i) (dv_swa dv ! i) = Inr swa"
    "\<forall>k < length hp. swa ! nat (sp ! k) = ho_swa h ! i ! nat (hp ! k)" "\<forall>j. int j \<notin> set sp \<longrightarrow> swa ! j = dv_swa dv ! i ! j"
    using load_pages_ok [of "dv_swa dv ! i" sp "ho_swa h ! i" hp] rng(1) [OF i] hp dist by auto
  note run = load_to_device_per_layer_def lp py_nth_def upd_nth_def py_some_def swa(1) Let_def
  note post = loaded_def untouched_def states_loaded_def nth_list_update
  consider "li_ratio ?item = 4" | "li_ratio ?item = 128" | "li_ratio ?item \<noteq> 4" "li_ratio ?item \<noteq> 128" by blast
  then show ?thesis
  proof cases
    case 1
    then obtain p ip where l: "?l < length (dv_c4 dv)" "?l < length (dv_indexer dv)" "dv_states dv ! i = Some p" "dv_idx_states dv ! i = Some ip"
      using dev i unfolding device_ok_def by blast
    obtain c4 where c4: "load_pages hp fp (ho_c4 h ! ?l) (dv_c4 dv ! ?l) = Inr c4"
      "\<forall>k < length hp. c4 ! nat (fp ! k) = ho_c4 h ! ?l ! nat (hp ! k)" "\<forall>j. int j \<notin> set fp \<longrightarrow> c4 ! j = dv_c4 dv ! ?l ! j"
      using load_pages_ok [of "dv_c4 dv ! ?l" fp "ho_c4 h ! ?l" hp] rng(2) [OF l(1)] hp dist by auto
    obtain ix where ix: "load_pages hp fp (ho_indexer h ! ?l) (dv_indexer dv ! ?l) = Inr ix"
      "\<forall>k < length hp. ix ! nat (fp ! k) = ho_indexer h ! ?l ! nat (hp ! k)" "\<forall>j. int j \<notin> set fp \<longrightarrow> ix ! j = dv_indexer dv ! ?l ! j"
      using load_pages_ok [of "dv_indexer dv ! ?l" fp "ho_indexer h ! ?l" hp] rng(4) [OF l(2)] hp dist by auto
    have sf: "state_fits sp 4 (Some p)" "state_fits sp 4 (Some ip)" using fit i 1 l by (auto simp: pages_fit_def)
    have sb: "state_buffer_ok (ho_page_num h) 4 (Some p) (ho_attn h ! i)" "state_buffer_ok (ho_page_num h) 4 (Some ip) (ho_idx h ! i)"
      using hok i 1 l unfolding host_ok_def by auto
    obtain p' ip' where st: "load_state_rows hp sp 4 (ho_attn h ! i) (Some p) = Inr (Some p')"
      "load_state_rows hp sp 4 (ho_idx h ! i) (Some ip) = Inr (Some ip')"
      "state_loaded hp sp 4 (ho_attn h ! i) (Some p) (Some p')" "state_loaded hp sp 4 (ho_idx h ! i) (Some ip) (Some ip')"
      using load_state_ok [OF sf(1) sb(1) hp(3,1) dist(2)] load_state_ok [OF sf(2) sb(2) hp(3,1) dist(2)] by blast
    define dv' where "dv' = dv\<lparr>dv_swa := (dv_swa dv)[i := swa], dv_c4 := (dv_c4 dv)[?l := c4], dv_indexer := (dv_indexer dv)[?l := ix],
        dv_states := (dv_states dv)[i := Some p'], dv_idx_states := (dv_idx_states dv)[i := Some ip']\<rparr>"
    have "load_to_device_per_layer ''direct'' h host_indices device_indices i dv = Inr dv'"
      using i l 1 len c4(1) ix(1) st(1,2) by (simp add: run dv'_def)
    moreover have "loaded h (hp, fp, sp) i dv'" "untouched fp sp dv dv'" "states_loaded h hp sp i dv dv'" "dv_mapping dv' = dv_mapping dv"
      using i l 1 len swa(2,3) c4(2,3) ix(2,3) st(3,4) by (simp_all add: post dv'_def Let_def)
    ultimately show ?thesis by blast
  next
    case 2
    then obtain p where l: "?l < length (dv_c128 dv)" "dv_states dv ! i = Some p" using dev i unfolding device_ok_def by blast
    obtain c128 where c128: "load_pages hp fp (ho_c128 h ! ?l) (dv_c128 dv ! ?l) = Inr c128"
      "\<forall>k < length hp. c128 ! nat (fp ! k) = ho_c128 h ! ?l ! nat (hp ! k)" "\<forall>j. int j \<notin> set fp \<longrightarrow> c128 ! j = dv_c128 dv ! ?l ! j"
      using load_pages_ok [of "dv_c128 dv ! ?l" fp "ho_c128 h ! ?l" hp] rng(3) [OF l(1)] hp dist by auto
    have sf: "state_fits sp 128 (Some p)" using fit i 2 l by (auto simp: pages_fit_def)
    have sb: "state_buffer_ok (ho_page_num h) 128 (Some p) (ho_attn h ! i)" using hok i 2 l unfolding host_ok_def by auto
    obtain p' where st: "load_state_rows hp sp 128 (ho_attn h ! i) (Some p) = Inr (Some p')"
      "state_loaded hp sp 128 (ho_attn h ! i) (Some p) (Some p')"
      using load_state_ok [OF sf sb hp(3,1) dist(2)] by blast
    define dv' where "dv' = dv\<lparr>dv_swa := (dv_swa dv)[i := swa], dv_c128 := (dv_c128 dv)[?l := c128], dv_states := (dv_states dv)[i := Some p']\<rparr>"
    have "load_to_device_per_layer ''direct'' h host_indices device_indices i dv = Inr dv'"
      using i l 2 len c128(1) st(1) by (simp add: run dv'_def)
    moreover have "loaded h (hp, fp, sp) i dv'" "untouched fp sp dv dv'" "states_loaded h hp sp i dv dv'" "dv_mapping dv' = dv_mapping dv"
      using i l 2 len swa(2,3) c128(2,3) st(2) by (simp_all add: post dv'_def Let_def)
    ultimately show ?thesis by blast
  next
    case 3
    define dv' where "dv' = dv\<lparr>dv_swa := (dv_swa dv)[i := swa]\<rparr>"
    have "load_to_device_per_layer ''direct'' h host_indices device_indices i dv = Inr dv'"
      using i 3 len by (simp add: run dv'_def)
    moreover have "loaded h (hp, fp, sp) i dv'" "untouched fp sp dv dv'" "states_loaded h hp sp i dv dv'" "dv_mapping dv' = dv_mapping dv"
      using i 3 swa(2,3) by (simp_all add: post dv'_def Let_def)
    ultimately show ?thesis by blast
  qed
qed

section \<open>The round trip\<close>

definition same_layout :: "dsv4_pool \<Rightarrow> dsv4_pool \<Rightarrow> bool" where
  "same_layout dv dv' \<longleftrightarrow> dv_mapping dv' = dv_mapping dv \<and> length (dv_swa dv') = length (dv_swa dv) \<and> length (dv_c4 dv') = length (dv_c4 dv) \<and>
     length (dv_c128 dv') = length (dv_c128 dv) \<and> length (dv_indexer dv') = length (dv_indexer dv) \<and>
     map (map_option cs_ring) (dv_states dv') = map (map_option cs_ring) (dv_states dv) \<and>
     map (map_option cs_ring) (dv_idx_states dv') = map (map_option cs_ring) (dv_idx_states dv)"

lemma state_buffer_layout:
  assumes "map_option cs_ring pool' = map_option cs_ring pool" and "state_buffer_ok n ratio pool buf"
  shows "state_buffer_ok n ratio pool' buf"
  using assms by (cases pool; cases pool') (auto simp: state_buffer_ok_def state_rows_per_page_def split: option.splits)

lemma host_ok_layout:
  assumes "same_layout dv dv'" and "device_ok dv" and "device_ok dv'" and "host_ok dv h"
  shows "host_ok dv' h"
proof -
  have len: "length (dv_states dv) = length (dv_swa dv)" "length (dv_idx_states dv) = length (dv_swa dv)"
    "length (dv_states dv') = length (dv_swa dv)" "length (dv_idx_states dv') = length (dv_swa dv)"
    using assms(1-3) by (auto simp: device_ok_def same_layout_def)
  have "map_option cs_ring (dv_states dv' ! i) = map_option cs_ring (dv_states dv ! i)"
    "map_option cs_ring (dv_idx_states dv' ! i) = map_option cs_ring (dv_idx_states dv ! i)" if "i < length (dv_swa dv)" for i
    using assms(1) len that unfolding same_layout_def by (metis nth_map)+
  then show ?thesis using assms(1,4) unfolding host_ok_def same_layout_def by (auto intro: state_buffer_layout)
qed

text \<open>Layer \<open>i\<close> of \<open>dv'\<close> holds on the pages \<open>fp'\<close>, \<open>sp'\<close> what that of \<open>dv\<close> holds on \<open>fp\<close>, \<open>sp\<close>.\<close>

definition same_pages :: "nat \<Rightarrow> dsv4_pool \<Rightarrow> int list \<Rightarrow> int list \<Rightarrow> dsv4_pool \<Rightarrow> int list \<Rightarrow> int list \<Rightarrow> bool" where
  "same_pages i dv fp sp dv' fp' sp' \<longleftrightarrow> (let l = li_layer (dv_mapping dv ! i); ratio = li_ratio (dv_mapping dv ! i) in
     \<forall>k < length fp. dv_swa dv' ! i ! nat (sp' ! k) = dv_swa dv ! i ! nat (sp ! k) \<and>
       (ratio = 4 \<longrightarrow> dv_c4 dv' ! l ! nat (fp' ! k) = dv_c4 dv ! l ! nat (fp ! k) \<and>
          dv_indexer dv' ! l ! nat (fp' ! k) = dv_indexer dv ! l ! nat (fp ! k)) \<and>
       (ratio = 128 \<longrightarrow> dv_c128 dv' ! l ! nat (fp' ! k) = dv_c128 dv ! l ! nat (fp ! k)))"

text \<open>
  The same for the compressor states: the rows of the pages hold what they held, no other row of the
  layer's state pools and no other layer's state pool changes.
\<close>

definition same_state :: "int \<Rightarrow> int list \<Rightarrow> state_pool option \<Rightarrow> int list \<Rightarrow> state_pool option \<Rightarrow> state_pool option \<Rightarrow> bool" where
  "same_state ratio sp old sp' before after \<longleftrightarrow> (case (old, before, after) of
     (Some p, Some q, Some r) \<Rightarrow> (\<forall>k < length sp. state_page r ratio (sp' ! k) = state_page p ratio (sp ! k)) \<and>
       (\<forall>j. int j \<notin> set (state_rows sp' q ratio) \<longrightarrow> cs_rows r ! j = cs_rows q ! j)
   | _ \<Rightarrow> False)"

definition same_states :: "nat \<Rightarrow> dsv4_pool \<Rightarrow> int list \<Rightarrow> dsv4_pool \<Rightarrow> dsv4_pool \<Rightarrow> int list \<Rightarrow> bool" where
  "same_states i dv sp dv' dv2 sp' \<longleftrightarrow> (let ratio = li_ratio (dv_mapping dv ! i) in
     (if ratio = 4 \<or> ratio = 128 then same_state ratio sp (dv_states dv ! i) sp' (dv_states dv' ! i) (dv_states dv2 ! i)
      else dv_states dv2 ! i = dv_states dv' ! i) \<and>
     (if ratio = 4 then same_state 4 sp (dv_idx_states dv ! i) sp' (dv_idx_states dv' ! i) (dv_idx_states dv2 ! i)
      else dv_idx_states dv2 ! i = dv_idx_states dv' ! i) \<and>
     (\<forall>j. j \<noteq> i \<longrightarrow> dv_states dv2 ! j = dv_states dv' ! j \<and> dv_idx_states dv2 ! j = dv_idx_states dv' ! j))"

lemma saved_loaded_state:
  assumes "state_saved hp sp ratio old buf" and "state_loaded hp sp' ratio buf before after" and "length sp = length hp"
  shows "same_state ratio sp old sp' before after"
  using assms by (auto simp: state_saved_def state_loaded_def same_state_def split: option.splits)


definition sample_device :: dsv4_pool where
  "sample_device = \<lparr>dv_page_size = 4, dv_swa_page_size = 4, dv_index_head_dim = 128, dv_swa = [[[1], [2]], [[3], [4]]],
     dv_c4 = [[[5], [6]]], dv_c128 = [], dv_indexer = [[[7], [8]]],
     dv_mapping = [\<lparr>li_ratio = 0, li_layer = 0\<rparr>, \<lparr>li_ratio = 4, li_layer = 0\<rparr>],
     dv_states = [None, Some \<lparr>cs_ring = 8, cs_width = 1, cs_itemsize = 4, cs_rows = map (\<lambda>k. [int k]) [0..<20]\<rparr>],
     dv_idx_states = [None, Some \<lparr>cs_ring = 8, cs_width = 1, cs_itemsize = 4, cs_rows = replicate 20 [0]\<rparr>],
     dv_full_to_swa = [0, 1, 2, 3, 4, 5, 6, 7]\<rparr>"

definition sample_host :: dsv4_host where
  "sample_host = \<lparr>ho_page_size = 4, ho_page_num = 3, ho_free = [], ho_swa = [[[0], [0], [0]], [[0], [0], [0]]], ho_c4 = [[[0], [0], [0]]],
     ho_c128 = [], ho_indexer = [[[0], [0], [0]]], ho_attn = [None, Some (replicate 3 [[0], [0]])], ho_idx = [None, Some (replicate 3 [[0], [0]])]\<rparr>"


section \<open>Pages in storage\<close>

lemma copy_at_same:
  assumes "0 \<le> i" and "i < int (length b)" and "cp (b ! nat i) p = Inr p"
  shows "copy_at cp b i p = Inr (b[nat i := p])" "tensor_at (b[nat i := p]) i = Inr p"
    "0 \<le> j \<Longrightarrow> j \<noteq> i \<Longrightarrow> tensor_at (b[nat i := p]) j = tensor_at b j"
  using assms by (auto simp: copy_at_def set_at_def tensor_at_def wrap_index_def nat_less_iff)

end
