(* ===== verification/Disk_Tier.thy ===== *)
theory Disk_Tier
  imports Cache_Controller Disk_Offload Dsv4_Transfer
begin

text \<open>
  The disk tier end to end: the controller of \<^verbatim>\<open>cache_controller.py\<close> between the host pool of
  \<^verbatim>\<open>deepseek_v4_memory_pool_host.py\<close> and the backend of \<^verbatim>\<open>disk_offload_backend.py\<close>.
\<close>

section \<open>The disk backend\<close>

text \<open>Whether the budget has room for more pages; a budget of zero or less is no budget.\<close>

definition disk_room :: "(string \<Rightarrow> 'v disk_env) \<Rightarrow> ('p, 'v) disk \<Rightarrow> (string \<times> 'v) list \<Rightarrow> bool" where
  "disk_room e d kvs \<longleftrightarrow> max_disk_bytes d \<le> 0 \<or>
     total_bytes d + (\<Sum>(k, v) \<leftarrow> kvs. int (de_saved_size (e k) v)) \<le> max_disk_bytes d"

lemma disk_room_part: "disk_room e d (xs @ ys) \<Longrightarrow> disk_room e d xs"
proof -
  have "0 \<le> (\<Sum>(k, v) \<leftarrow> ys. int (de_saved_size (e k) v))" by (rule sum_list_nonneg) auto
  then show "disk_room e d (xs @ ys) \<Longrightarrow> disk_room e d xs" by (auto simp: disk_room_def)
qed

lemma enforce_budget_room:
  "max_disk_bytes s \<le> 0 \<or> total_bytes s + n \<le> max_disk_bytes s \<Longrightarrow> enforce_budget rm n s = s"
  by (auto simp: enforce_budget_def Let_def)

lemma disk_put_room:
  assumes "disk_put (e k) k v s = (True, s')" and "disk_room e s ((k, v) # rest)"
  shows "disk_room e s' rest" and "dict_has (index s) x \<or> x = k \<Longrightarrow> dict_has (index s') x"
proof -
  have "disk_room e s' rest \<and> (dict_has (index s) x \<or> x = k \<longrightarrow> dict_has (index s') x)"
  proof (cases "dict_has (index s) k")
    case True
    then have s': "s' = snd (flush_index (de_flush_ok (e k)) (touch_access (de_now (e k)) k s))"
      using assms(1) by (auto simp: disk_put_def disk_set_known Let_def split: if_splits)
    have "dict_keys (index s') = dict_keys (index s)" "total_bytes s' = total_bytes s" "max_disk_bytes s' = max_disk_bytes s"
      unfolding s' by simp_all
    then show ?thesis using assms(2) True by (auto simp: disk_room_def dict_has_def)
  next
    case False
    then have s': "s' = snd (flush_index (de_flush_ok (e k)) (stored_state (e k) k v s))"
      using assms(1) by (auto simp: disk_put_def disk_set_new split: write_outcome.splits option.splits)
    have "max_disk_bytes s \<le> 0 \<or> total_bytes s + int (de_saved_size (e k) v) \<le> max_disk_bytes s"
      using disk_room_part [of e s "[(k, v)]" rest] assms(2) by (simp add: disk_room_def)
    then have "index s' = dict_set k \<lparr>pi_size = de_saved_size (e k) v, pi_last_access = de_now (e k)\<rparr> (index s)"
      "total_bytes s' = total_bytes s + int (de_saved_size (e k) v)" "max_disk_bytes s' = max_disk_bytes s"
      unfolding s' by (simp_all add: stored_state_def Let_def mark_dirty_def enforce_budget_room)
    then show ?thesis using assms(2) by (auto simp: disk_room_def dict_has_iff)
  qed
  then show "disk_room e s' rest" "dict_has (index s) x \<or> x = k \<Longrightarrow> dict_has (index s') x" by auto
qed

lemma enforce_budget_present:
  assumes "dict_has (index (enforce_budget rm n s)) x"
  shows "dict_has (index s) x" "dict_get (pages (enforce_budget rm n s)) (page_path x) = dict_get (pages s) (page_path x)"
proof -
  obtain ks where e: "enforce_budget rm n s = fold (evict_one rm) ks s" using enforce_budget_as_fold [of s rm n] by blast
  have "x \<notin> set ks" "dict_has (index s) x" using assms unfolding e by (auto simp: dict_has_def fold_evict_one_index)
  then show "dict_has (index s) x" "dict_get (pages (enforce_budget rm n s)) (page_path x) = dict_get (pages s) (page_path x)"
    unfolding e by (auto simp: fold_evict_one_keeps_page)
qed

lemma disk_put_fetch:
  assumes "disk_inv s" and "disk_put e k v s = (True, s')" and "disk_exists s' x"
  shows "x = k \<and> disk_fetch s' x = Some v \<or> disk_exists s x \<and> disk_fetch s' x = disk_fetch s x"
  using assms(2)
proof (cases rule: disk_put_TrueE)
  case 1
  then have "dict_has (index s) x" using assms(3) by (auto simp: disk_exists_def dict_has_def)
  then show ?thesis using 1 disk_inv_has [OF assms(1)] by (simp add: disk_fetch_eq)
next
  case 2
  show ?thesis
  proof (cases "x = k")
    case True
    then show ?thesis using 2 by (simp add: disk_fetch_eq stored_state_page)
  next
    case False
    let ?s1 = "s\<lparr>pages := dict_set (page_path k) \<lparr>pf_payload = Some v, pf_size = de_saved_size e v, pf_mtime = de_now e\<rparr> (pages s)\<rparr>"
    let ?s2 = "enforce_budget (de_remove_ok e) (int (de_saved_size e v)) ?s1"
    have "dict_has (index s') x" using assms(3) by (simp add: disk_exists_def)
    then have "dict_has (index ?s2) x" using 2 False by (simp add: stored_state_def Let_def mark_dirty_def dict_has_iff)
    from enforce_budget_present [OF this] have "dict_has (index s) x"
      "dict_get (pages ?s2) (page_path x) = dict_get (pages s) (page_path x)" using False by auto
    then show ?thesis using 2 disk_inv_has [OF assms(1)] by (simp add: disk_fetch_eq stored_state_def Let_def mark_dirty_def)
  qed
qed

lemma batch_set_loop_puts:
  assumes "disk_inv s" and "batch_set_loop e (map (\<lambda>(k, v). (k, Some v)) kvs) ok s = (Inr True, s')"
  shows "ok \<and> (\<forall>k. disk_exists s' k \<longrightarrow> (\<exists>v. (k, v) \<in> set kvs \<and> disk_fetch s' k = Some v) \<or> disk_exists s k \<and> disk_fetch s' k = disk_fetch s k) \<and>
    (\<forall>rest. disk_room e s (kvs @ rest) \<longrightarrow> disk_room e s' rest \<and>
      (\<forall>k. dict_has (index s) k \<or> k \<in> fst ` set kvs \<longrightarrow> dict_has (index s') k))"
  using assms
proof (induction kvs arbitrary: s ok)
  case (Cons kv kvs)
  obtain k v where kv: "kv = (k, v)" by (cases kv)
  from Cons.prems(2) obtain r s1 where s1: "disk_set (e k) k (Some v) s = (Inr r, s1)"
    "batch_set_loop e (map (\<lambda>(k, v). (k, Some v)) kvs) (r \<and> ok) s1 = (Inr True, s')"
    by (auto simp: kv split: prod.splits sum.splits)
  have inv: "disk_inv s1" using disk_set_inv [OF Cons.prems(1), of "e k" k "Some v"] s1(1) by simp
  note IH = Cons.IH [OF inv s1(2)]
  then have put: "disk_put (e k) k v s = (True, s1)" using s1(1) by (simp add: disk_put_def)
  show ?case
  proof (intro conjI allI impI)
    show ok using IH by simp
    show "(\<exists>v'. (x, v') \<in> set (kv # kvs) \<and> disk_fetch s' x = Some v') \<or> disk_exists s x \<and> disk_fetch s' x = disk_fetch s x"
      if ex: "disk_exists s' x" for x
    proof -
      consider v' where "(x, v') \<in> set kvs" "disk_fetch s' x = Some v'" | "disk_exists s1 x" "disk_fetch s' x = disk_fetch s1 x"
        using IH ex by blast
      then show ?thesis
      proof cases
        case 2
        then show ?thesis using disk_put_fetch [OF Cons.prems(1) put 2(1)] by (auto simp: kv)
      qed (auto simp: kv)
    qed
  next
    fix rest assume "disk_room e s ((kv # kvs) @ rest)"
    then have room: "disk_room e s ((k, v) # kvs @ rest)" by (simp add: kv)
    note keep = disk_put_room [OF put room]
    then show "disk_room e s' rest" using IH by blast
    show "dict_has (index s') x" if "dict_has (index s) x \<or> x \<in> fst ` set (kv # kvs)" for x
    proof -
      have "dict_has (index s1) x \<or> x \<in> fst ` set kvs" using that keep(2) by (auto simp: kv)
      then show ?thesis using IH keep(1) by blast
    qed
  qed
qed auto

lemma disk_batch_get_fetch:
  "\<exists>d'. disk_batch_get (\<lambda>_. True) now ks d = (map (disk_fetch d) ks, d') \<and> (disk_inv d \<longrightarrow> disk_inv d') \<and> disk_fetch d' = disk_fetch d"
proof (induction ks arbitrary: d)
  case (Cons k ks)
  obtain d1 where d1: "disk_get True (now k) k d = (disk_fetch d k, d1)" by (metis disk_get_fetch prod.collapse)
  have "pages d1 = pages d" using d1 by (auto simp: disk_get_def split: option.splits)
  then have same: "disk_fetch d1 = disk_fetch d" by (simp add: disk_fetch_eq fun_eq_iff)
  have "disk_inv d \<longrightarrow> disk_inv d1" using disk_get_inv [of d True "now k" k] d1 by simp
  then show ?case using Cons.IH [of d1] d1 same by auto
qed simp

text \<open>The reads of a prefetch, on files that can be read: no read fails for a passing reason.\<close>

definition disk_bget :: "(string \<Rightarrow> int) \<Rightarrow> string list \<Rightarrow> ('p, 'v) disk \<Rightarrow> 'v option list option \<times> ('p, 'v) disk" where
  "disk_bget now ks d = (let (vs, d') = disk_batch_get (\<lambda>_. True) now ks d in (Some vs, d'))"

definition disk_bset :: "(string \<Rightarrow> 'v disk_env) \<Rightarrow> bool \<Rightarrow> string list \<Rightarrow> 'v list \<Rightarrow> ('p, 'v) disk \<Rightarrow> bool res \<times> ('p, 'v) disk" where
  "disk_bset e flush_ok ks vs d = disk_batch_set e flush_ok ks (Some (map Some vs)) d"

lemma disk_bset_True:
  assumes "disk_bset e fl ks vs d = (Inr True, d')"
  obtains s1 where "batch_set_loop e (map (\<lambda>(k, v). (k, Some v)) (zip ks vs)) True d = (Inr True, s1)" "d' = snd (flush_index fl s1)"
proof -
  have "zip ks (map Some vs) = map (\<lambda>(k, v). (k, Some v)) (zip ks vs)" by (simp add: zip_map2)
  then show thesis
    using assms that by (auto simp: disk_bset_def disk_batch_set_def split: prod.splits sum.splits)
qed

lemma flush_index_exists [simp]:
  "disk_exists (snd (flush_index fl s)) k = disk_exists s k" "disk_fetch (snd (flush_index fl s)) k = disk_fetch s k"
  "disk_room e (snd (flush_index fl s)) kvs = disk_room e s kvs"
  by (simp_all add: disk_exists_def disk_fetch_eq disk_room_def)

interpretation disk_backend: page_backend "\<lambda>pk ks d. disk_batch_exists d ks" "disk_bget now" "disk_bset e fl" disk_fetch disk_exists
  "disk_room e" disk_inv for now e fl
proof (unfold_locales, goal_cases)
  case (1 d pk ks)
  show ?case by (simp add: disk_batch_exists_def)
next
  case (2 d k)
  then show ?case using disk_store.has_fetch [of d k] by auto
next
  case (3 d ks)
  then show ?case using disk_batch_get_fetch [of now ks d] by (auto simp: disk_bget_def)
next
  case (4 d ks vs d')
  then show ?case using disk_batch_set_inv [of d e fl ks "Some (map Some vs)"] by (simp add: disk_bset_def)
next
  case (5 d ks vs d' k)
  from 5(2) obtain s1 where s1: "batch_set_loop e (map (\<lambda>(k, v). (k, Some v)) (zip ks vs)) True d = (Inr True, s1)"
    "d' = snd (flush_index fl s1)" by (rule disk_bset_True)
  then show ?case using batch_set_loop_puts [OF 5(1) s1(1)] 5(3) by simp
next
  case (6 d ks vs d' k)
  from 6(2) obtain s1 where s1: "batch_set_loop e (map (\<lambda>(k, v). (k, Some v)) (zip ks vs)) True d = (Inr True, s1)"
    "d' = snd (flush_index fl s1)" by (rule disk_bset_True)
  have inv: "disk_inv s1" using batch_set_loop_inv [OF 6(1), of e "map (\<lambda>(k, v). (k, Some v)) (zip ks vs)" True] s1(1) by simp
  have "dict_has (index d) k \<or> k \<in> fst ` set (zip ks vs)"
    using 6(4,5) by (auto simp: disk_exists_def) (metis in_set_zip image_eqI fst_conv set_zip map_fst_zip list.set_map)
  then have "dict_has (index s1) k" using batch_set_loop_puts [OF 6(1) s1(1)] 6(3) by (metis append_Nil2)
  then show ?case using s1(2) disk_inv_has [OF inv] by simp
next
  case (7 d ks vs d' rest)
  from 7(2) obtain s1 where s1: "batch_set_loop e (map (\<lambda>(k, v). (k, Some v)) (zip ks vs)) True d = (Inr True, s1)"
    "d' = snd (flush_index fl s1)" by (rule disk_bset_True)
  then show ?case using batch_set_loop_puts [OF 7(1) s1(1)] 7(3) by simp
next
  case (8 d xs ys)
  then show ?case by (rule disk_room_part)
qed

section \<open>The host pool\<close>

lemma set_pages_at:
  assumes "list_all2 (\<lambda>ls p. \<forall>l \<in> set ls. l = length p) (map (map length) bs) ps" and "\<forall>b \<in> set bs. 0 \<le> i \<and> i < int (length b)"
  shows "\<exists>bs'. set_pages i bs ps = Inr bs' \<and> pages_at i bs' = Inr ps \<and> map (map length) bs' = map (map length) bs \<and>
    (\<forall>j. 0 \<le> j \<longrightarrow> j \<noteq> i \<longrightarrow> pages_at j bs' = pages_at j bs)"
  using assms
proof (induction bs arbitrary: ps)
  case (Cons b bs)
  then obtain p ps' where ps: "ps = p # ps'" "\<forall>l \<in> set (map length b). l = length p"
    "list_all2 (\<lambda>ls p. \<forall>l \<in> set ls. l = length p) (map (map length) bs) ps'" by (auto simp: list_all2_Cons1)
  from Cons.IH [OF ps(3)] Cons.prems(2) obtain bs' where bs': "set_pages i bs ps' = Inr bs'" "pages_at i bs' = Inr ps'"
    "map (map length) bs' = map (map length) bs" "\<forall>j. 0 \<le> j \<longrightarrow> j \<noteq> i \<longrightarrow> pages_at j bs' = pages_at j bs" by auto
  have i: "0 \<le> i" "i < int (length b)" using Cons.prems by auto
  have w: "length (b ! nat i) = length p" using ps(2) i by (simp add: nat_less_iff)
  then have "copy_row (b ! nat i) p = Inr p" by (simp add: copy_row_same)
  note c = copy_at_same [OF i, where cp = copy_row, OF this]
  have "map length (b[nat i := p]) = map length b"
    using w i by (simp add: map_update list_update_same_conv nat_less_iff)
  then show ?case using bs' c ps(1) by simp
qed simp

lemma set_opt_pages_at:
  assumes "list_all2 (\<lambda>s p. case (s, p) of (None, None) \<Rightarrow> True | (Some ls, Some q) \<Rightarrow> \<forall>l \<in> set ls. l = map length q | _ \<Rightarrow> False)
      (map (map_option (map (map length))) bs) ps" and "\<forall>b. Some b \<in> set bs \<longrightarrow> 0 \<le> i \<and> i < int (length b)"
  shows "\<exists>bs'. set_opt_pages i bs ps = Inr bs' \<and> opt_pages_at i bs' = Inr ps \<and>
    map (map_option (map (map length))) bs' = map (map_option (map (map length))) bs \<and>
    (\<forall>j. 0 \<le> j \<longrightarrow> j \<noteq> i \<longrightarrow> opt_pages_at j bs' = opt_pages_at j bs)"
  using assms
proof (induction bs arbitrary: ps)
  case (Cons b bs)
  then obtain p ps' where ps: "ps = p # ps'" by (auto simp: list_all2_Cons1)
  note rest = Cons.prems(1) [unfolded ps list.map list_all2_Cons, THEN conjunct2]
    and head = Cons.prems(1) [unfolded ps list.map list_all2_Cons, THEN conjunct1]
  from Cons.IH [OF rest] Cons.prems(2) obtain bs' where bs': "set_opt_pages i bs ps' = Inr bs'" "opt_pages_at i bs' = Inr ps'"
    "map (map_option (map (map length))) bs' = map (map_option (map (map length))) bs"
    "\<forall>j. 0 \<le> j \<longrightarrow> j \<noteq> i \<longrightarrow> opt_pages_at j bs' = opt_pages_at j bs" by auto
  show ?case
  proof (cases b)
    case None
    then have "p = None" using head by (cases p) simp_all
    then show ?thesis using None ps bs' by simp
  next
    case (Some x)
    then obtain q where q: "p = Some q" "\<forall>r \<in> set x. map length r = map length q" using head by (cases p) auto
    have i: "0 \<le> i" "i < int (length x)" using Cons.prems(2) Some by auto
    have w: "map length (x ! nat i) = map length q" using q(2) i by (simp add: nat_less_iff)
    then have "copy_rows (x ! nat i) q = Inr q" by (simp add: copy_rows_same)
    note c = copy_at_same [OF i, where cp = copy_rows, OF this]
    have "map (map length) (x[nat i := q]) = map (map length) x"
      using w i by (simp add: map_update list_update_same_conv nat_less_iff)
    then show ?thesis using Some q(1) ps bs' c by simp
  qed
qed simp

text \<open>
  The shapes of the pool's buffers. A page start lies in all of them, and a page fits the pool when
  it has the pool's components and each of them the shape of the pool's pages.
\<close>

definition page_shapes :: "row list list \<Rightarrow> nat list list" where
  "page_shapes bs = map (map length) bs"

definition state_shapes :: "row list list option list \<Rightarrow> nat list list option list" where
  "state_shapes bs = map (map_option (map (map length))) bs"

definition host_page_start :: "dsv4_host \<Rightarrow> int \<Rightarrow> bool" where
  "host_page_start h i \<longleftrightarrow> 0 < ho_page_size h \<and> 0 \<le> i \<and> ho_page_size h dvd i \<and>
     (\<forall>ls \<in> set (page_shapes (ho_swa h) @ page_shapes (ho_c4 h) @ page_shapes (ho_c128 h) @ page_shapes (ho_indexer h)).
        i div ho_page_size h < int (length ls)) \<and>
     (\<forall>ls. Some ls \<in> set (state_shapes (ho_attn h) @ state_shapes (ho_idx h)) \<longrightarrow> i div ho_page_size h < int (length ls))"

definition rows_fit :: "nat list list \<Rightarrow> row list \<Rightarrow> bool" where
  "rows_fit shapes ps \<longleftrightarrow> list_all2 (\<lambda>ls p. \<forall>l \<in> set ls. l = length p) shapes ps"

definition states_fit :: "nat list list option list \<Rightarrow> row list option list \<Rightarrow> bool" where
  "states_fit shapes ps \<longleftrightarrow> list_all2 (\<lambda>s p. case (s, p) of (None, None) \<Rightarrow> True
     | (Some ls, Some q) \<Rightarrow> \<forall>l \<in> set ls. l = map length q | _ \<Rightarrow> False) shapes ps"

definition host_page_fits :: "dsv4_host \<Rightarrow> dsv4_page \<Rightarrow> bool" where
  "host_page_fits h pg \<longleftrightarrow> rows_fit (page_shapes (ho_swa h)) (pg_swa pg) \<and> rows_fit (page_shapes (ho_c4 h)) (pg_c4 pg) \<and>
     rows_fit (page_shapes (ho_c128 h)) (pg_c128 pg) \<and> rows_fit (page_shapes (ho_indexer h)) (pg_indexer pg) \<and>
     states_fit (state_shapes (ho_attn h)) (pg_attn pg) \<and> states_fit (state_shapes (ho_idx h)) (pg_idx pg)"

definition set_host_page :: "int \<Rightarrow> dsv4_page \<Rightarrow> dsv4_host \<Rightarrow> dsv4_host res" where
  "set_host_page i pg h = Dsv4_Host.set_from_flat_data_page i (Some pg) h"

interpretation dsv4_pages: host_pages get_data_page set_host_page host_page_start host_page_fits
proof (unfold_locales, goal_cases)
  case (1 h i v)
  let ?p = "i div ho_page_size h"
  have ps: "0 < ho_page_size h" "0 \<le> i" "ho_page_size h dvd i" using 1(1) by (simp_all add: host_page_start_def)
  then have p: "0 \<le> ?p" by (simp add: pos_imp_zdiv_nonneg_iff)
  have r: "\<forall>b \<in> set (ho_swa h). 0 \<le> ?p \<and> ?p < int (length b)" "\<forall>b \<in> set (ho_c4 h). 0 \<le> ?p \<and> ?p < int (length b)"
    "\<forall>b \<in> set (ho_c128 h). 0 \<le> ?p \<and> ?p < int (length b)" "\<forall>b \<in> set (ho_indexer h). 0 \<le> ?p \<and> ?p < int (length b)"
    using 1(1) p unfolding host_page_start_def page_shapes_def by (simp_all add: ball_Un)
  have ro: "\<forall>b. Some b \<in> set (ho_attn h) \<longrightarrow> 0 \<le> ?p \<and> ?p < int (length b)" "\<forall>b. Some b \<in> set (ho_idx h) \<longrightarrow> 0 \<le> ?p \<and> ?p < int (length b)"
    using 1(1) p unfolding host_page_start_def state_shapes_def by (force simp: image_iff)+
  note f = 1(2) [unfolded host_page_fits_def rows_fit_def states_fit_def page_shapes_def state_shapes_def]
  obtain swa where swa: "set_pages ?p (ho_swa h) (pg_swa v) = Inr swa" "pages_at ?p swa = Inr (pg_swa v)"
    "map (map length) swa = map (map length) (ho_swa h)" "\<forall>j. 0 \<le> j \<longrightarrow> j \<noteq> ?p \<longrightarrow> pages_at j swa = pages_at j (ho_swa h)"
    using set_pages_at [OF f [THEN conjunct1] r(1)] by blast
  obtain c4 where c4: "set_pages ?p (ho_c4 h) (pg_c4 v) = Inr c4" "pages_at ?p c4 = Inr (pg_c4 v)"
    "map (map length) c4 = map (map length) (ho_c4 h)" "\<forall>j. 0 \<le> j \<longrightarrow> j \<noteq> ?p \<longrightarrow> pages_at j c4 = pages_at j (ho_c4 h)"
    using set_pages_at [OF f [THEN conjunct2, THEN conjunct1] r(2)] by blast
  obtain c128 where c128: "set_pages ?p (ho_c128 h) (pg_c128 v) = Inr c128" "pages_at ?p c128 = Inr (pg_c128 v)"
    "map (map length) c128 = map (map length) (ho_c128 h)" "\<forall>j. 0 \<le> j \<longrightarrow> j \<noteq> ?p \<longrightarrow> pages_at j c128 = pages_at j (ho_c128 h)"
    using set_pages_at [OF f [THEN conjunct2, THEN conjunct2, THEN conjunct1] r(3)] by blast
  obtain ix where ix: "set_pages ?p (ho_indexer h) (pg_indexer v) = Inr ix" "pages_at ?p ix = Inr (pg_indexer v)"
    "map (map length) ix = map (map length) (ho_indexer h)" "\<forall>j. 0 \<le> j \<longrightarrow> j \<noteq> ?p \<longrightarrow> pages_at j ix = pages_at j (ho_indexer h)"
    using set_pages_at [OF f [THEN conjunct2, THEN conjunct2, THEN conjunct2, THEN conjunct1] r(4)] by blast
  obtain at where at: "set_opt_pages ?p (ho_attn h) (pg_attn v) = Inr at" "opt_pages_at ?p at = Inr (pg_attn v)"
    "map (map_option (map (map length))) at = map (map_option (map (map length))) (ho_attn h)" "\<forall>j. 0 \<le> j \<longrightarrow> j \<noteq> ?p \<longrightarrow> opt_pages_at j at = opt_pages_at j (ho_attn h)"
    using set_opt_pages_at [OF f [THEN conjunct2, THEN conjunct2, THEN conjunct2, THEN conjunct2, THEN conjunct1] ro(1)] by blast
  obtain id where id: "set_opt_pages ?p (ho_idx h) (pg_idx v) = Inr id" "opt_pages_at ?p id = Inr (pg_idx v)"
    "map (map_option (map (map length))) id = map (map_option (map (map length))) (ho_idx h)" "\<forall>j. 0 \<le> j \<longrightarrow> j \<noteq> ?p \<longrightarrow> opt_pages_at j id = opt_pages_at j (ho_idx h)"
    using set_opt_pages_at [OF f [THEN conjunct2, THEN conjunct2, THEN conjunct2, THEN conjunct2, THEN conjunct2] ro(2)] by blast
  let ?h = "h\<lparr>ho_swa := swa, ho_c4 := c4, ho_c128 := c128, ho_indexer := ix, ho_attn := at, ho_idx := id\<rparr>"
  have set: "set_host_page i v h = Inr ?h"
    by (simp add: set_host_page_def Dsv4_Host.set_from_flat_data_page_def Let_def swa(1) c4(1) c128(1) ix(1) at(1) id(1))
  have get: "get_data_page i ?h = Inr v"
    by (simp add: get_data_page_def component_payload_def swa(2) c4(2) c128(2) ix(2) at(2) id(2))
  have shape: "host_page_start ?h = host_page_start h" "host_page_fits ?h = host_page_fits h"
    using swa(3) c4(3) c128(3) ix(3) at(3) id(3)
    by (simp_all add: host_page_start_def host_page_fits_def page_shapes_def state_shapes_def fun_eq_iff del: set_append set_map map_map)
  have other: "get_data_page j ?h = get_data_page j h" if "host_page_start h j" "j \<noteq> i" for j
  proof -
    have j: "0 \<le> j div ho_page_size h" "j div ho_page_size h \<noteq> ?p"
      using that ps by (auto simp: host_page_start_def pos_imp_zdiv_nonneg_iff dvd_div_eq_iff)
    show ?thesis
      using j by (simp add: get_data_page_def component_payload_def swa(4) c4(4) c128(4) ix(4) at(4) id(4))
  qed
  show ?case using set get shape other by (intro exI [of _ ?h]) simp
qed

interpretation disk_tier: tiers "\<lambda>pk ks d. disk_batch_exists d ks" "disk_bget now" "disk_bset e fl" disk_fetch disk_exists
  "disk_room e" disk_inv get_data_page set_host_page host_page_start host_page_fits for now e fl
  by unfold_locales

section \<open>Prefetching and backing up\<close>

lemma release_concat:
  "0 < cc_page_size c \<Longrightarrow> concat (cc_release_queue (append_host_mem_release xs c)) = concat (cc_release_queue c) @ xs"
  by (simp add: append_host_mem_release_def concat_chunks)

lemma release_fields [simp]:
  "cc_page_size (append_host_mem_release xs c) = cc_page_size c" "cc_batch_size (append_host_mem_release xs c) = cc_batch_size c"
  "cc_prefetch_buffer (append_host_mem_release xs c) = cc_prefetch_buffer c"
  by (simp_all add: append_host_mem_release_def)

lemma starts_take_any: "0 < ps \<Longrightarrow> \<exists>k \<ge> n div ps. starts ps (take n H) = take k (starts ps H)"
proof (induction ps H arbitrary: n rule: chunks.induct)
  case (1 ps H)
  consider "H = [] \<or> n = 0" | "H \<noteq> []" "0 < n" "n < ps" | "H \<noteq> []" "ps \<le> n" by fastforce
  then show ?case
  proof cases
    case 2
    then show ?thesis using 1(2) by (intro exI [of _ 1]) (simp add: starts_step hd_take)
  next
    case 3
    then have "0 < n" using 1(2) by simp
    obtain k where k: "(n - ps) div ps \<le> k" "starts ps (take (n - ps) (drop ps H)) = take k (starts ps (drop ps H))"
      using 1(1) [OF _ 1(2)] 1(2) 3(1) by blast
    have "starts ps (take n H) = take (Suc k) (starts ps H)"
      using k(2) 1(2) 3(1) \<open>0 < n\<close> by (simp add: starts_step hd_take drop_take)
    moreover have "n div ps \<le> Suc k" using k(1) 3(2) 1(2) by (simp add: le_div_geq)
    ultimately show ?thesis by blast
  qed auto
qed

lemma stored_present: "disk_inv d \<Longrightarrow> disk_tier.stored d (take m (takeWhile (disk_exists d) ks)) = take m (takeWhile (disk_exists d) ks)"
proof -
  assume inv: "disk_inv d"
  have "k \<in> set (take m (takeWhile (disk_exists d) ks)) \<Longrightarrow> disk_fetch d k \<noteq> None" for k
    using disk_backend.has_fetch [OF inv] by (meson in_set_takeD set_takeWhileD)
  then show ?thesis unfolding disk_tier.stored_def by (simp add: takeWhile_eq_all_conv)
qed

lemma transfer_of_prefix:
  fixes n ps :: nat
  assumes d: "disk_inv d" and size: "0 < ps" "cc_page_size c = ps" "0 < cc_batch_size c" and fresh: "so_completed op = 0" "\<not> po_terminated op"
    and slots: "length H = length hs * ps" "distinct (starts ps H)" "\<forall>i \<in> set (starts ps H). host_page_start h i"
    and fit: "\<forall>k \<in> set hs. \<forall>pg. disk_fetch d k = Some pg \<longrightarrow> host_page_fits h pg"
    and le: "n div ps \<le> length (takeWhile (disk_exists d) hs)"
    and buffer: "cc_prefetch_buffer c = [op\<lparr>so_hash_value := take (n div ps) (takeWhile (disk_exists d) hs), so_host_indices := take n H\<rparr>]"
  shows "\<exists>m op' d' h'. prefetch_io_step (disk_bget now) set_host_page flag c d h = (Inr (Some op'),
      append_host_mem_release (drop (m * ps) (take n H)) (c\<lparr>cc_prefetch_buffer := []\<rparr>), d', h') \<and>
    so_completed op' = m * ps \<and> m \<le> n div ps \<and> ((\<forall>t. \<not> flag t) \<longrightarrow> m = n div ps) \<and>
    (\<forall>i < m. get_data_page (starts ps H ! i) h' = Inr (the (disk_fetch d (hs ! i)))) \<and>
    (\<forall>j. host_page_start h j \<longrightarrow> j \<notin> set (starts ps H) \<longrightarrow> get_data_page j h' = get_data_page j h)"
proof -
  let ?hits = "takeWhile (disk_exists d) hs" and ?m = "n div ps"
  let ?op = "op\<lparr>so_hash_value := take ?m ?hits, so_host_indices := take n H\<rparr>"
  obtain k where k: "?m \<le> k" "starts ps (take n H) = take k (starts ps H)" using starts_take_any [OF size(1)] by blast
  have m: "?m \<le> length (starts ps H)"
    using le length_takeWhile_le [of "disk_exists d" hs] slots(1) size(1) by (simp add: length_starts)
  have "set (take ?m ?hits) \<subseteq> set hs" by (meson in_set_takeD set_takeWhileD subsetI)
  then have "disk_tier.ready d (so_hash_value ?op) (starts (cc_page_size c) (so_host_indices ?op)) h"
    unfolding disk_tier.ready_def using k m slots(2,3) fit by (auto simp: size(2) dest: in_set_takeD)
  moreover have "0 < cc_page_size c" "\<not> po_terminated ?op" "so_completed ?op = 0"
    "disk_tier.stored d (so_hash_value ?op) = so_hash_value ?op"
    using size fresh stored_present [OF d, of ?m hs] by simp_all
  ultimately obtain m op' d' h' where t: "prefetch_io_step (disk_bget now) set_host_page flag c d h = (Inr (Some op'),
      append_host_mem_release (drop (m * cc_page_size c) (so_host_indices ?op)) (c\<lparr>cc_prefetch_buffer := []\<rparr>), d', h')"
    "so_completed op' = m * cc_page_size c" "m \<le> length (so_hash_value ?op)" "(\<forall>t. \<not> flag t) \<longrightarrow> m = length (so_hash_value ?op)"
    "disk_tier.loaded d (so_hash_value ?op) (starts (cc_page_size c) (so_host_indices ?op)) m h h'"
    using disk_tier.prefetch_transfer [where c = c and op = ?op and buf = "[]" and h = h and flag = flag and now = now, OF buffer d] size(3)
    by blast
  have len: "length (take ?m ?hits) = ?m" using le by simp
  have at: "starts ps (take n H) ! i = starts ps H ! i" "take ?m ?hits ! i = hs ! i" if "i < m" for i
    using that t(3) len k by (simp_all add: takeWhile_nth)
  have "\<forall>i < m. get_data_page (starts ps H ! i) h' = Inr (the (disk_fetch d (hs ! i)))"
    "\<forall>j. host_page_start h j \<longrightarrow> j \<notin> set (starts ps H) \<longrightarrow> get_data_page j h' = get_data_page j h"
    using t(5) at k(2) in_set_takeD [of _ k "starts ps H"] by (auto simp: disk_tier.loaded_def size(2))
  then show ?thesis using t(1-4) len by (auto simp: size(2))
qed

text \<open>
  C9: a prefetch loads the stored prefix. The prefetch thread asks the disk for the longest prefix of
  the page hashes of the key that it has, and takes the minimum over the ranks. Below the threshold
  it revokes the prefetch and releases all its host slots. Otherwise the transfer loads the pages of
  the prefix in order, all of them unless the scheduler terminates it. Loaded pages hold exactly what
  the disk has under their hashes, host pages of others are untouched, and every reserved slot that
  holds no loaded page is released exactly once.
\<close>

theorem prefetch_loads_stored_prefix:
  fixes c op
  defines "ps \<equiv> cc_page_size c" and "H \<equiv> so_host_indices op"
  assumes d: "disk_inv d" and queue: "cc_prefetch_queue c = op # queue" and buffer: "cc_prefetch_buffer c = []"
    and size: "0 < ps" "0 < cc_batch_size c" and fresh: "so_completed op = 0" "\<not> po_terminated op"
    and hashes: "page_hashes sha ps (so_key op) 0 (so_last_hash op) = Inr hs"
    and slots: "length H = length hs * ps" "distinct (starts ps H)" "\<forall>i \<in> set (starts ps H). host_page_start h i"
    and fit: "\<forall>k \<in> set hs. \<forall>pg. disk_fetch d k = Some pg \<longrightarrow> host_page_fits h pg"
    and n: "n = fold min others (length (takeWhile (disk_exists d) hs) * ps)"
  shows "if n < cc_threshold c
    then \<exists>c1. prefetch_thread_step (\<lambda>pk ks. disk_batch_exists d ks) sha others c = (Inr (), c1) \<and>
      cc_revoke_queue c1 = cc_revoke_queue c @ [po_request_id op] \<and> cc_prefetch_buffer c1 = [] \<and>
      concat (cc_release_queue c1) = concat (cc_release_queue c) @ H
    else \<exists>c1 c2 op' d' h' m. prefetch_thread_step (\<lambda>pk ks. disk_batch_exists d ks) sha others c = (Inr (), c1) \<and>
      prefetch_io_step (disk_bget now) set_host_page flag c1 d h = (Inr (Some op'), c2, d', h') \<and>
      so_completed op' = m * ps \<and> m \<le> n div ps \<and> ((\<forall>t. \<not> flag t) \<longrightarrow> m = n div ps) \<and>
      (\<forall>i < m. get_data_page (starts ps H ! i) h' = Inr (the (disk_fetch d (hs ! i)))) \<and>
      (\<forall>j. host_page_start h j \<longrightarrow> j \<notin> set (starts ps H) \<longrightarrow> get_data_page j h' = get_data_page j h) \<and>
      concat (cc_release_queue c2) = concat (cc_release_queue c) @ drop n H @ drop (m * ps) (take n H)"
proof -
  have chain: "chain_hashes sha (chunks ps (rk_units (so_key op))) (so_last_hash op) = Inr hs"
    using hashes page_hashes_chain [OF size(1), of sha "so_key op" 0] by simp
  note step = disk_tier.prefetch_query [OF queue d _ size(2) chain [unfolded ps_def] n [unfolded ps_def], folded ps_def, OF size(1)]
  let ?hits = "takeWhile (disk_exists d) hs" and ?m = "n div ps"
  have le: "?m \<le> length ?hits" using min_of_ranks_le [of others "length ?hits * ps"] size(1) n
    by (metis div_le_mono div_mult_self_is_m)
  show ?thesis
  proof (cases "n < cc_threshold c")
    case True
    then show ?thesis using step size(1) buffer by (simp add: Let_def release_concat ps_def H_def append_host_mem_release_def concat_chunks)
  next
    case False
    let ?op = "op\<lparr>so_hash_value := take ?m ?hits, so_host_indices := take n H\<rparr>"
    let ?c1 = "append_host_mem_release (drop n H) (c\<lparr>cc_prefetch_queue := queue, cc_prefetch_buffer := [?op]\<rparr>)"
    have s1: "prefetch_thread_step (\<lambda>pk ks. disk_batch_exists d ks) sha others c = (Inr (), ?c1)"
      using step False buffer by (simp add: Let_def H_def ps_def)
    have "cc_page_size ?c1 = ps" "0 < cc_batch_size ?c1" "cc_prefetch_buffer ?c1 = [?op]" using size(2) by (simp_all add: ps_def)
    from transfer_of_prefix [OF d size(1) this(1,2) fresh slots fit le this(3), of now flag] obtain m op' d' h' where
      t: "prefetch_io_step (disk_bget now) set_host_page flag ?c1 d h = (Inr (Some op'),
        append_host_mem_release (drop (m * ps) (take n H)) (?c1\<lparr>cc_prefetch_buffer := []\<rparr>), d', h')"
      "so_completed op' = m * ps" "m \<le> ?m" "(\<forall>t. \<not> flag t) \<longrightarrow> m = ?m"
      "\<forall>i < m. get_data_page (starts ps H ! i) h' = Inr (the (disk_fetch d (hs ! i)))"
      "\<forall>j. host_page_start h j \<longrightarrow> j \<notin> set (starts ps H) \<longrightarrow> get_data_page j h' = get_data_page j h" by blast
    have "concat (cc_release_queue (append_host_mem_release (drop (m * ps) (take n H)) (?c1\<lparr>cc_prefetch_buffer := []\<rparr>))) =
        concat (cc_release_queue c) @ drop n H @ drop (m * ps) (take n H)"
      using size(1) by (simp add: release_concat append_host_mem_release_def ps_def concat_chunks)
    then show ?thesis using False s1 t by auto
  qed
qed

lemma fold_min_all: "\<forall>x \<in> set ns. n \<le> x \<Longrightarrow> fold min ns (n :: nat) = n"
  by (induction ns) (simp_all add: min_absorb2)

lemma data_pages_starts:
  "0 < ps \<Longrightarrow> data_pages get_page ps ks H h = Inr vs \<Longrightarrow> length vs = length ks \<and> (\<forall>i < length ks. get_page (starts ps H ! i) h = Inr (vs ! i))"
proof (induction ks arbitrary: H vs)
  case (Cons k ks)
  have ne: "H \<noteq> []" using Cons.prems(2) by auto
  with Cons.prems obtain v ws where v: "get_page (hd H) h = Inr v" "data_pages get_page ps ks (drop ps H) h = Inr ws" "vs = v # ws"
    by (auto simp: bindE_Inr_iff)
  then show ?case using Cons.IH [OF Cons.prems(1) v(2)] ne Cons.prems(1) by (auto simp: starts_step less_Suc_eq_0_disj)
qed simp

text \<open>
  C8: what is backed up is prefetched. When the backup of the pages of a key succeeds, with room for
  them on the disk, a later prefetch for the same key finds all of them and loads them into its own
  host slots: each page has the contents it had in the host pool when it was backed up. The pages
  must have pairwise different hashes, and pages that the disk already has under these hashes must
  have the same contents.
\<close>

theorem backed_up_pages_are_prefetched:
  fixes c op bop
  defines "ps \<equiv> cc_page_size c" and "hs \<equiv> so_hash_value bop"
  assumes size: "0 < ps" "0 < cc_batch_size c"
    and hashes: "page_hashes sha ps (so_key op) 0 (so_last_hash op) = Inr hs" "distinct hs"
    and backup: "disk_inv d" "so_completed bop = 0"
      "page_backup get_data_page (disk_bset e fl) ps (cc_batch_size c) h1 bop d = (Inr (), bop', d1)" "so_completed bop' = ps * length hs"
    and pages: "data_pages get_data_page ps hs (so_host_indices bop) h1 = Inr pgs" "disk_room e d (zip hs pgs)"
      "\<forall>(k, pg) \<in> set (zip hs pgs). disk_exists d k \<longrightarrow> disk_fetch d k = Some pg"
    and queue: "cc_prefetch_queue c = op # queue" "cc_prefetch_buffer c = []" "so_completed op = 0" "\<not> po_terminated op"
    and slots: "length (so_host_indices op) = length hs * ps" "distinct (starts ps (so_host_indices op))"
      "\<forall>i \<in> set (starts ps (so_host_indices op)). host_page_start h2 i" "\<forall>pg \<in> set pgs. host_page_fits h2 pg"
    and enough: "cc_threshold c \<le> length hs * ps" "\<forall>x \<in> set others. length hs * ps \<le> x"
  shows "\<exists>c1 c2 op' d2 h2'. prefetch_thread_step (\<lambda>pk ks. disk_batch_exists d1 ks) sha others c = (Inr (), c1) \<and>
    prefetch_io_step (disk_bget now) set_host_page (\<lambda>_. False) c1 d1 h2 = (Inr (Some op'), c2, d2, h2') \<and>
    so_completed op' = length hs * ps \<and> cc_release_queue c2 = cc_release_queue c \<and>
    (\<forall>i < length hs. get_data_page (starts ps (so_host_indices op) ! i) h2' = get_data_page (starts ps (so_host_indices bop) ! i) h1)"
proof -
  let ?H = "so_host_indices op"
  note st = disk_tier.backup_stores [OF size(1,2) backup(1,3,2) backup(4) [unfolded hs_def] pages(1) [unfolded hs_def] hashes(2) [unfolded hs_def]
    pages(2) [unfolded hs_def] pages(3) [unfolded hs_def], folded hs_def]
  note dp = data_pages_starts [OF size(1) pages(1)]
  have at: "disk_exists d1 (hs ! i)" "disk_fetch d1 (hs ! i) = Some (pgs ! i)" if "i < length hs" for i
    using bspec [OF st(2), of "(hs ! i, pgs ! i)"] that dp by (auto simp: set_zip)
  then have all: "takeWhile (disk_exists d1) hs = hs" by (auto simp: takeWhile_eq_all_conv in_set_conv_nth)
  have fit: "\<forall>k \<in> set hs. \<forall>pg. disk_fetch d1 k = Some pg \<longrightarrow> host_page_fits h2 pg"
    using at(2) slots(4) dp by (metis in_set_conv_nth nth_mem option.inject)
  have n: "fold min others (length hs * ps) = length hs * ps" using enough(2) by (rule fold_min_all)
  have chain: "chain_hashes sha (chunks ps (rk_units (so_key op))) (so_last_hash op) = Inr hs"
    using hashes(1) page_hashes_chain [OF size(1), of sha "so_key op" 0] by simp
  let ?op = "op\<lparr>so_hash_value := take (length hs * ps div ps) (takeWhile (disk_exists d1) hs), so_host_indices := take (length hs * ps) ?H\<rparr>"
  let ?c1 = "append_host_mem_release (drop (length hs * ps) ?H) (c\<lparr>cc_prefetch_queue := queue, cc_prefetch_buffer := [?op]\<rparr>)"
  have s1: "prefetch_thread_step (\<lambda>pk ks. disk_batch_exists d1 ks) sha others c = (Inr (), ?c1)"
    using disk_tier.prefetch_query [OF queue(1) st(1) _ size(2) chain [unfolded ps_def] refl, of others] size(1) n enough(1) queue(2)
    by (simp add: all Let_def ps_def)
  have "cc_page_size ?c1 = ps" "0 < cc_batch_size ?c1" "cc_prefetch_buffer ?c1 = [?op]" "length hs * ps div ps \<le> length (takeWhile (disk_exists d1) hs)"
    using size by (simp_all add: ps_def all)
  from transfer_of_prefix [OF st(1) size(1) this(1,2) queue(3,4) slots(1-3) fit this(4,3), of now "\<lambda>_. False"] obtain m op' d' h' where
    t: "prefetch_io_step (disk_bget now) set_host_page (\<lambda>_. False) ?c1 d1 h2 = (Inr (Some op'),
      append_host_mem_release (drop (m * ps) (take (length hs * ps) ?H)) (?c1\<lparr>cc_prefetch_buffer := []\<rparr>), d', h')"
    "so_completed op' = m * ps" "m = length hs"
    "\<forall>i < m. get_data_page (starts ps ?H ! i) h' = Inr (the (disk_fetch d1 (hs ! i)))" using size(1) by auto
  have "get_data_page (starts ps ?H ! i) h' = get_data_page (starts ps (so_host_indices bop) ! i) h1" if "i < length hs" for i
    using t(3,4) that at dp by simp
  moreover have "cc_release_queue (append_host_mem_release (drop (m * ps) (take (length hs * ps) ?H)) (?c1\<lparr>cc_prefetch_buffer := []\<rparr>)) = cc_release_queue c"
    using slots(1) t(3) by (simp add: append_host_mem_release_def)
  ultimately show ?thesis using s1 t(1-3) by blast
qed

section \<open>Examples\<close>

text \<open>One page of one token: a host pool with one layer and two pages, and the page on disk.\<close>

definition tier_key :: radix_key where
  "tier_key = \<lparr>token_ids = [5], extra_key = None, is_bigram = False\<rparr>"

definition tier_sha :: sha256 where
  "tier_sha bs = [171]"

definition tier_host :: "row \<Rightarrow> row \<Rightarrow> dsv4_host" where
  "tier_host a b = \<lparr>ho_page_size = 1, ho_page_num = 2, ho_free = [], ho_swa = [[a, b]], ho_c4 = [], ho_c128 = [], ho_indexer = [],
     ho_attn = [], ho_idx = []\<rparr>"

definition tier_page :: "row \<Rightarrow> dsv4_page" where
  "tier_page a = \<lparr>pg_swa = [a], pg_c4 = [], pg_c128 = [], pg_indexer = [], pg_attn = [], pg_idx = []\<rparr>"

definition tier_disk :: "(string, page_info) dict \<Rightarrow> (string, dsv4_page page_file) dict \<Rightarrow> int \<Rightarrow> (unit, dsv4_page) disk" where
  "tier_disk ix pgs tot = \<lparr>max_disk_bytes = 0, index = ix, total_bytes = tot, dirty = False, index_file_on_disk = None,
     pages = pgs, registered_pools = []\<rparr>"

definition tier_env :: "string \<Rightarrow> dsv4_page disk_env" where
  "tier_env k = \<lparr>de_now = 7, de_saved_size = (\<lambda>_. 3), de_save = WriteOk, de_flush_ok = True,
     de_remove_ok = (\<lambda>_. True), de_load_ok = True\<rparr>"

definition tier_op :: prefetch_op where
  "tier_op = new_prefetch_op 0 ''r'' [1] tier_key None None"

definition tier_controller :: controller where
  "tier_controller = \<lparr>cc_page_size = 1, cc_batch_size = 128, cc_threshold = 1, cc_capacity_limit = 9, cc_occupied = 0, cc_backup_skip = False,
     cc_next_id = 1, cc_prefetch_queue = [tier_op], cc_prefetch_buffer = [], cc_backup_queue = [], cc_revoke_queue = [], cc_ack_backup = [],
     cc_release_queue = []\<rparr>"

lemma tier_hash: "page_hashes tier_sha 1 tier_key 0 None = Inr [''ab'']"
  by (simp add: page_hashes_chain rk_units_def tier_key_def) code_simp

lemma tier_starts: "starts 1 [x] = [x]"
  by (simp add: starts_def chunks.simps)

lemma tier_start: "host_page_start (tier_host a b) 0" "host_page_start (tier_host a b) 1" "length a = length x \<Longrightarrow> length b = length x \<Longrightarrow> host_page_fits (tier_host a b) (tier_page x)"
  by (simp_all add: host_page_start_def host_page_fits_def page_shapes_def state_shapes_def rows_fit_def states_fit_def tier_host_def tier_page_def)

definition tier_stored :: "row \<Rightarrow> (unit, dsv4_page) disk" where
  "tier_stored a = tier_disk [(''ab'', \<lparr>pi_size = 3, pi_last_access = 7\<rparr>)]
     [(''ab.pt'', \<lparr>pf_payload = Some (tier_page a), pf_size = 3, pf_mtime = 7\<rparr>)] 3"

lemma tier_stored_facts:
  "disk_inv (tier_stored a)" "disk_exists (tier_stored a) ''ab''" "disk_fetch (tier_stored a) ''ab'' = Some (tier_page a)"
  by (simp_all add: tier_stored_def tier_disk_def disk_inv_def index_size_def page_backed_def page_path_def disk_exists_def dict_has_def disk_fetch_eq)

lemma tier_fields:
  "cc_page_size tier_controller = 1" "cc_batch_size tier_controller = 128" "cc_threshold tier_controller = 1" "cc_release_queue tier_controller = []"
  "cc_prefetch_queue tier_controller = [tier_op]" "cc_prefetch_buffer tier_controller = []" "so_host_indices tier_op = [1]" "so_key tier_op = tier_key"
  "so_last_hash tier_op = None" "so_completed tier_op = 0" "\<not> po_terminated tier_op"
  by (simp_all add: tier_controller_def tier_op_def new_prefetch_op_def)

theorem prefetch_loads_stored_prefix_witness:
  "\<exists>c1 c2 op' d' h'. prefetch_thread_step (\<lambda>pk ks. disk_batch_exists (tier_stored [9]) ks) tier_sha [] tier_controller = (Inr (), c1) \<and>
    prefetch_io_step (disk_bget (\<lambda>_. 8)) set_host_page (\<lambda>_. False) c1 (tier_stored [9]) (tier_host [1] [2]) = (Inr (Some op'), c2, d', h') \<and>
    so_completed op' = 1 \<and> get_data_page 1 h' = Inr (tier_page [9]) \<and> get_data_page 0 h' = get_data_page 0 (tier_host [1] [2]) \<and>
    concat (cc_release_queue c2) = []"
  using prefetch_loads_stored_prefix [OF tier_stored_facts(1) [of "[9]"] tier_fields(5,6) _ _ tier_fields(10,11), of tier_sha "[''ab'']" "tier_host [1] [2]" 1
      "[]" "\<lambda>_. 8" "\<lambda>_. False"]
  by (simp add: tier_fields tier_hash [simplified] tier_starts [simplified] tier_start tier_stored_facts)
    (elim exE conjE, intro exI conjI, assumption, assumption, simp_all add: tier_start tier_stored_facts)

definition tier_backup :: storage_op where
  "tier_backup = new_storage_op 0 [0] tier_key (Some [''ab'']) None"

lemma tier_backup_run:
  "page_backup get_data_page (disk_bset tier_env True) 1 128 (tier_host [4] [5]) tier_backup (tier_disk [] [] 0) =
     (Inr (), tier_backup\<lparr>so_completed := 1\<rparr>, (tier_stored [4])\<lparr>index_file_on_disk := Some (index_text [(''ab'', \<lparr>pi_size = 3, pi_last_access = 7\<rparr>)] 3)\<rparr>)"
  by (simp add: page_backup_def chunks_step tier_backup_def new_storage_op_def generic_page_set_def add_prefix_def get_data_page_def
      component_payload_def tensor_at_def wrap_index_def tier_host_def disk_bset_def disk_batch_set_def disk_eval tier_env_def tier_disk_def
      tier_stored_def tier_page_def)

theorem backed_up_pages_are_prefetched_witness:
  "\<exists>d1 c1 c2 op' d2 h2'. snd (snd (page_backup get_data_page (disk_bset tier_env True) 1 128 (tier_host [4] [5]) tier_backup (tier_disk [] [] 0))) = d1 \<and>
    prefetch_thread_step (\<lambda>pk ks. disk_batch_exists d1 ks) tier_sha [] tier_controller = (Inr (), c1) \<and>
    prefetch_io_step (disk_bget (\<lambda>_. 8)) set_host_page (\<lambda>_. False) c1 d1 (tier_host [1] [2]) = (Inr (Some op'), c2, d2, h2') \<and>
    so_completed op' = 1 \<and> get_data_page 1 h2' = Inr (tier_page [4])"
proof -
  have page: "get_data_page 0 (tier_host [4] [5]) = Inr (tier_page [4])"
    by (simp add: get_data_page_def component_payload_def tensor_at_def wrap_index_def tier_host_def tier_page_def)
  have bop: "so_hash_value tier_backup = [''ab'']" "so_host_indices tier_backup = [0]" "so_completed tier_backup = 0"
    by (simp_all add: tier_backup_def new_storage_op_def)
  have empty: "disk_inv (tier_disk [] [] 0)" "\<not> disk_exists (tier_disk [] [] 0) k" "max_disk_bytes (tier_disk [] [] 0) = 0" for k
    by (simp_all add: tier_disk_def disk_inv_def index_size_def disk_exists_def dict_has_def)
  show ?thesis
    using backed_up_pages_are_prefetched [where c = tier_controller and op = tier_op and bop = tier_backup and sha = tier_sha and d = "tier_disk [] [] 0"
        and e = tier_env and fl = True and ?h1.0 = "tier_host [4] [5]" and pgs = "[tier_page [4]]" and queue = "[]" and ?h2.0 = "tier_host [1] [2]"
        and others = "[]" and now = "\<lambda>_. 8"] tier_backup_run
    by (simp add: tier_fields tier_hash [simplified] tier_starts [simplified] tier_start page bop empty disk_room_def) blast
qed

end
