(* ===== verification/Radix_Tree.thy ===== *)
theory Radix_Tree
  imports Block_Hash Kv_Allocator
begin

text \<open>
  The radix cache of \<^verbatim>\<open>sglang/srt/mem_cache/radix_cache.py\<close>, the eviction strategies of
  \<^verbatim>\<open>evict_policy.py\<close> and the event mixin of \<^verbatim>\<open>events.py\<close>. Tree nodes are objects that
  requests keep references to, so they live in an explicit store: a node is an address, parents
  and children are addresses, and a node that is unlinked from the tree stays in the store. The
  clock (\<^verbatim>\<open>time.monotonic\<close>) is a sequence of readings that the operations consume; times only
  matter through their order. Loops that follow pointers are \<^theory_text>\<open>partial_function\<close>s: the value
  \<open>None\<close> is a loop that does not end.
\<close>

section \<open>Nodes, strategies and events\<close>

record tree_node =
  nd_children :: "(child_key, nat) dict"
  nd_parent :: "nat option"
  nd_key :: radix_key
  nd_value :: "kv_index list option"
  nd_lock_ref :: int
  nd_last_access :: int
  nd_creation :: int
  nd_hit_count :: int
  nd_host_ref :: nat
  nd_host_value :: "kv_index list option"
  nd_hash :: "string list option"
  nd_priority :: int

definition evicted :: "tree_node \<Rightarrow> bool" where
  "evicted nd \<longleftrightarrow> nd_value nd = None"

definition backuped :: "tree_node \<Rightarrow> bool" where
  "backuped nd \<longleftrightarrow> nd_host_value nd \<noteq> None"

definition protect_host :: "tree_node \<Rightarrow> tree_node" where
  "protect_host nd = nd\<lparr>nd_host_ref := nd_host_ref nd + 1\<rparr>"

definition release_host :: "tree_node \<Rightarrow> tree_node res" where
  "release_host nd = (if 0 < nd_host_ref nd then Inr (nd\<lparr>nd_host_ref := nd_host_ref nd - 1\<rparr>)
                      else Inl RuntimeError)"

definition get_last_hash_value :: "tree_node \<Rightarrow> string option" where
  "get_last_hash_value nd = (case nd_hash nd of None \<Rightarrow> None | Some hs \<Rightarrow> if hs = [] then None else Some (last hs))"

text \<open>Priorities: a float, or a pair compared lexicographically. A float is a pair with a zero.\<close>

datatype eviction_strategy = LRU | LFU | FIFO | MRU | FILO | Priority | SLRU int

type_synonym evict_priority = "int \<times> int"

definition get_priority :: "eviction_strategy \<Rightarrow> tree_node \<Rightarrow> evict_priority" where
  "get_priority st nd = (case st of
       LRU \<Rightarrow> (nd_last_access nd, 0)
     | LFU \<Rightarrow> (nd_hit_count nd, nd_last_access nd)
     | FIFO \<Rightarrow> (nd_creation nd, 0)
     | MRU \<Rightarrow> (- nd_last_access nd, 0)
     | FILO \<Rightarrow> (- nd_creation nd, 0)
     | Priority \<Rightarrow> (nd_priority nd, nd_last_access nd)
     | SLRU threshold \<Rightarrow> (if threshold \<le> nd_hit_count nd then 1 else 0, nd_last_access nd))"

definition strategy_of_name :: "string \<Rightarrow> eviction_strategy res" where
  "strategy_of_name p =
     (if p = ''lru'' then Inr LRU else if p = ''lfu'' then Inr LFU else if p = ''fifo'' then Inr FIFO
      else if p = ''mru'' then Inr MRU else if p = ''filo'' then Inr FILO
      else if p = ''priority'' then Inr Priority else if p = ''slru'' then Inr (SLRU 2)
      else Inl ValueError)"

datatype kv_event =
    BlockStored (block_hash: int) (parent_block_hash: "int option") (block_tokens: "key_unit list")
      (block_size: nat) (block_medium: string)
  | BlockRemoved (block_hash: int) (block_medium: string)
  | AllBlocksCleared

abbreviation medium_GPU :: string where "medium_GPU \<equiv> ''GPU''"

section \<open>The cache\<close>

text \<open>The allocator is one of two classes, which differ in what \<^verbatim>\<open>free\<close> does.\<close>

datatype kv_class = TokenPool | PagedPool

definition kv_free :: "kv_class \<Rightarrow> kv_index list \<Rightarrow> allocator \<Rightarrow> allocator" where
  "kv_free c = (case c of TokenPool \<Rightarrow> token_free | PagedPool \<Rightarrow> paged_free)"

definition kv_available_size :: "kv_class \<Rightarrow> allocator \<Rightarrow> int" where
  "kv_available_size c = (case c of TokenPool \<Rightarrow> token_available_size | PagedPool \<Rightarrow> base_available_size)"

record radix =
  rc_disable :: bool
  rc_page_size :: nat
  rc_events :: bool
  rc_is_eagle :: bool
  rc_disable_finished_insert :: bool
  rc_strategy :: eviction_strategy
  rc_event_queue :: "kv_event list"
  rc_evictable_leaves :: "nat list"
  rc_root :: nat
  rc_evictable_size :: int
  rc_protected_size :: int
  rc_store :: "nat \<Rightarrow> tree_node"
  rc_counter :: nat
  rc_clock :: "nat \<Rightarrow> int"
  rc_ticks :: nat
  rc_sha :: sha256
  rc_class :: kv_class
  rc_alloc :: allocator

definition upd_node :: "nat \<Rightarrow> (tree_node \<Rightarrow> tree_node) \<Rightarrow> radix \<Rightarrow> radix" where
  "upd_node n f s = s\<lparr>rc_store := (rc_store s)(n := f (rc_store s n))\<rparr>"

definition read_clock :: "radix \<Rightarrow> int \<times> radix" where
  "read_clock s = (rc_clock s (rc_ticks s), s\<lparr>rc_ticks := Suc (rc_ticks s)\<rparr>)"

definition empty_key :: radix_key where
  "empty_key = \<lparr>token_ids = [], extra_key = None, is_bigram = False\<rparr>"

text \<open>\<^verbatim>\<open>TreeNode(priority=...)\<close>: its key is set by every caller right after.\<close>

definition new_tree_node :: "int \<Rightarrow> radix \<Rightarrow> nat \<times> radix" where
  "new_tree_node prio s =
     (let (t1, s1) = read_clock s; (t2, s2) = read_clock s1; i = rc_counter s2
      in (i, s2\<lparr>rc_store := (rc_store s2)(i :=
              \<lparr>nd_children = [], nd_parent = None, nd_key = empty_key, nd_value = None, nd_lock_ref = 0,
               nd_last_access = t1, nd_creation = t2, nd_hit_count = 0, nd_host_ref = 0,
               nd_host_value = None, nd_hash = None, nd_priority = prio\<rparr>),
            rc_counter := i + 1\<rparr>))"

definition free_kv :: "kv_index list \<Rightarrow> radix \<Rightarrow> radix" where
  "free_kv v s = s\<lparr>rc_alloc := kv_free (rc_class s) v (rc_alloc s)\<rparr>"

subsection \<open>Events\<close>

definition compute_node_hash_values :: "nat \<Rightarrow> radix \<Rightarrow> string list res" where
  "compute_node_hash_values n s =
     (let nd = rc_store s n;
          parent_hash = (case nd_parent nd of None \<Rightarrow> None
            | Some p \<Rightarrow> (case nd_hash (rc_store s p) of None \<Rightarrow> None
               | Some hs \<Rightarrow> if 0 < rk_len (nd_key (rc_store s p)) \<and> hs \<noteq> [] then Some (last hs) else None))
      in page_hashes (rc_sha s) (rc_page_size s) (nd_key nd) 0 parent_hash)"

text \<open>The node's hashes, computed and kept when they are not set.\<close>

definition ensure_hash :: "nat \<Rightarrow> radix \<Rightarrow> string list res \<times> radix" where
  "ensure_hash n s =
     (case nd_hash (rc_store s n) of Some hs \<Rightarrow> (Inr hs, s)
      | None \<Rightarrow> (case compute_node_hash_values n s of Inl e \<Rightarrow> (Inl e, s)
         | Inr hs \<Rightarrow> (Inr hs, upd_node n (\<lambda>nd. nd\<lparr>nd_hash := Some hs\<rparr>) s)))"

text \<open>The two loops over the pages of a node: the events appended, and how the loop ended.\<close>

fun store_loop ::
  "string \<Rightarrow> key_unit list list \<Rightarrow> string list \<Rightarrow> int option \<Rightarrow> kv_event list \<times> unit res" where
  "store_loop medium [] hs parent = ([], Inr ())"
| "store_loop medium (pg # pgs) [] parent = ([], Inl IndexError)"
| "store_loop medium (pg # pgs) (h # hs) parent =
     (case hash_str_to_int64 h of Inl e \<Rightarrow> ([], Inl e)
      | Inr b \<Rightarrow> let (evs, r) = store_loop medium pgs hs (Some b)
                in (BlockStored b parent pg (length pg) medium # evs, r))"

fun remove_loop :: "string \<Rightarrow> key_unit list list \<Rightarrow> string list \<Rightarrow> kv_event list \<times> unit res" where
  "remove_loop medium [] hs = ([], Inr ())"
| "remove_loop medium (pg # pgs) [] = ([], Inl IndexError)"
| "remove_loop medium (pg # pgs) (h # hs) =
     (case hash_str_to_int64 h of Inl e \<Rightarrow> ([], Inl e)
      | Inr b \<Rightarrow> let (evs, r) = remove_loop medium pgs hs in (BlockRemoved b medium # evs, r))"

definition append_events :: "kv_event list \<times> unit res \<Rightarrow> radix \<Rightarrow> unit res \<times> radix" where
  "append_events er s = (snd er, s\<lparr>rc_event_queue := rc_event_queue s @ fst er\<rparr>)"

definition record_store_event :: "nat \<Rightarrow> string option \<Rightarrow> radix \<Rightarrow> unit res \<times> radix" where
  "record_store_event n medium s =
     (if \<not> rc_events s then (Inr (), s)
      else let m = (case medium of None \<Rightarrow> medium_GPU | Some m \<Rightarrow> m)
      in case ensure_hash n s of
           (Inl e, s1) \<Rightarrow> (Inl e, s1)
         | (Inr hs, s1) \<Rightarrow>
             (let nd = rc_store s1 n;
                  parent = (case nd_parent nd of None \<Rightarrow> Inr None
                    | Some p \<Rightarrow> if p = rc_root s1 then Inr None
                       else (case nd_hash (rc_store s1 p) of None \<Rightarrow> Inr None
                         | Some phs \<Rightarrow> if phs = [] then Inr None
                             else bindE (hash_str_to_int64 (last phs)) (\<lambda>b. Inr (Some b))))
              in case parent of
                   Inl e \<Rightarrow> (Inl e, s1)
                 | Inr pb \<Rightarrow> append_events (store_loop m (chunks (rc_page_size s1) (rk_units (nd_key nd))) hs pb) s1))"

definition record_remove_event :: "nat \<Rightarrow> string option \<Rightarrow> radix \<Rightarrow> unit res \<times> radix" where
  "record_remove_event n medium s =
     (if \<not> rc_events s then (Inr (), s)
      else let m = (case medium of None \<Rightarrow> medium_GPU | Some m \<Rightarrow> m)
      in case ensure_hash n s of
           (Inl e, s1) \<Rightarrow> (Inl e, s1)
         | (Inr hs, s1) \<Rightarrow>
             append_events (remove_loop m (chunks (rc_page_size s1) (rk_units (nd_key (rc_store s1 n)))) hs) s1)"

definition record_all_cleared_event :: "radix \<Rightarrow> radix" where
  "record_all_cleared_event s =
     (if rc_events s then s\<lparr>rc_event_queue := rc_event_queue s @ [AllBlocksCleared]\<rparr> else s)"

definition take_events :: "radix \<Rightarrow> kv_event list \<times> radix" where
  "take_events s = (if \<not> rc_events s then ([], s) else (rc_event_queue s, s\<lparr>rc_event_queue := []\<rparr>))"

subsection \<open>Reset\<close>

definition sys_maxsize :: int where "sys_maxsize = 2 ^ 63 - 1"

definition radix_reset :: "radix \<Rightarrow> radix" where
  "radix_reset s =
     (let (r, s1) = new_tree_node (- sys_maxsize) s;
          s2 = upd_node r (\<lambda>nd. nd\<lparr>nd_key := empty_key, nd_value := Some [], nd_host_value := Some [],
                 nd_lock_ref := 1, nd_hash := Some []\<rparr>) s1
      in record_all_cleared_event
           (s2\<lparr>rc_root := r, rc_evictable_size := 0, rc_protected_size := 0, rc_evictable_leaves := []\<rparr>))"

text \<open>
  \<^verbatim>\<open>RadixCache.__init__\<close>: the fields from the parameters, the strategy from its name, then a
  reset. The node counter of the process and the clock are arguments.
\<close>

definition radix_init ::
  "bool \<Rightarrow> nat \<Rightarrow> bool \<Rightarrow> bool \<Rightarrow> bool \<Rightarrow> string \<Rightarrow> kv_class \<Rightarrow> allocator \<Rightarrow> sha256 \<Rightarrow> (nat \<Rightarrow> int) \<Rightarrow> radix res" where
  "radix_init disable ps events eagle no_finished_insert policy cls a sha clock =
     bindE (strategy_of_name (py_lower policy)) (\<lambda>strategy.
       Inr (radix_reset
         \<lparr>rc_disable = disable, rc_page_size = ps, rc_events = events, rc_is_eagle = eagle,
          rc_disable_finished_insert = no_finished_insert, rc_strategy = strategy, rc_event_queue = [],
          rc_evictable_leaves = [], rc_root = 0, rc_evictable_size = 0, rc_protected_size = 0,
          rc_store = (\<lambda>_. \<lparr>nd_children = [], nd_parent = None, nd_key = empty_key, nd_value = None, nd_lock_ref = 0,
             nd_last_access = 0, nd_creation = 0, nd_hit_count = 0, nd_host_ref = 0, nd_host_value = None,
             nd_hash = None, nd_priority = 0\<rparr>),
          rc_counter = 0, rc_clock = clock, rc_ticks = 0, rc_sha = sha, rc_class = cls, rc_alloc = a\<rparr>))"

subsection \<open>Leaves\<close>

definition discard_leaf :: "nat \<Rightarrow> radix \<Rightarrow> radix" where
  "discard_leaf n s = s\<lparr>rc_evictable_leaves := removeAll n (rc_evictable_leaves s)\<rparr>"

definition update_leaf_status :: "nat \<Rightarrow> radix \<Rightarrow> radix" where
  "update_leaf_status n s =
     (let nd = rc_store s n
      in if evicted nd \<or> 0 < nd_lock_ref nd then discard_leaf n s
         else if list_ex (\<lambda>c. \<not> evicted (rc_store s c)) (dict_values (nd_children nd)) then discard_leaf n s
         else if n \<in> set (rc_evictable_leaves s) then s
         else s\<lparr>rc_evictable_leaves := n # rc_evictable_leaves s\<rparr>)"

definition delete_leaf :: "nat \<Rightarrow> radix \<Rightarrow> unit res \<times> radix" where
  "delete_leaf n s =
     (let nd = rc_store s n
      in case child_key (rc_page_size s) (nd_key nd) of
           Inl e \<Rightarrow> (Inl e, s)
         | Inr ck \<Rightarrow>
             (case nd_parent nd of
                None \<Rightarrow> (Inl AttributeError, s)
              | Some p \<Rightarrow>
                  (let v = dict_get (nd_children (rc_store s p)) ck;
                       s1 = upd_node p (\<lambda>pn. pn\<lparr>nd_children := dict_pop ck (nd_children pn)\<rparr>) s
                   in if v \<noteq> Some n then (Inl AssertionError, s1)
                      else let s2 = s1\<lparr>rc_evictable_size := rc_evictable_size s1 - int (rk_len (nd_key nd))\<rparr>;
                               s3 = discard_leaf n s2
                           in (Inr (), update_leaf_status p s3))))"

subsection \<open>Splitting a node\<close>

definition split_node :: "radix_key \<Rightarrow> nat \<Rightarrow> nat \<Rightarrow> radix \<Rightarrow> nat res \<times> radix" where
  "split_node key child split_len s =
     (let ps = rc_page_size s;
          cd = rc_store s child;
          (m, s1) = new_tree_node (nd_priority cd) s;
          s2 = upd_node m (\<lambda>nd. nd\<lparr>nd_hit_count := nd_hit_count cd\<rparr>) s1
      in case child_key ps (rk_drop key split_len) of
           Inl e \<Rightarrow> (Inl e, s2)
         | Inr ck_rest \<Rightarrow>
             (case nd_value cd of
                None \<Rightarrow> (Inl TypeError, upd_node m (\<lambda>nd. nd\<lparr>nd_children := [(ck_rest, child)], nd_parent := nd_parent cd,
                           nd_lock_ref := nd_lock_ref cd, nd_key := rk_take (nd_key cd) split_len\<rparr>) s2)
              | Some v \<Rightarrow>
                  (let s3 = upd_node m (\<lambda>nd. nd\<lparr>nd_children := [(ck_rest, child)], nd_parent := nd_parent cd,
                              nd_lock_ref := nd_lock_ref cd, nd_key := rk_take (nd_key cd) split_len,
                              nd_value := Some (take split_len v)\<rparr>) s2;
                       s4 = upd_node child (\<lambda>nd. nd\<lparr>nd_parent := Some m, nd_key := rk_drop (nd_key nd) split_len,
                              nd_value := Some (drop split_len v)\<rparr>) s3
                   in case child_key ps key of
                        Inl e \<Rightarrow> (Inl e, s4)
                      | Inr ck \<Rightarrow>
                          (case nd_parent cd of
                             None \<Rightarrow> (Inl AttributeError, s4)
                           | Some p \<Rightarrow>
                               (let s5 = upd_node p (\<lambda>nd. nd\<lparr>nd_children := dict_set ck m (nd_children nd)\<rparr>) s4;
                                    (h1, h2) = split_node_hash_value (nd_hash (rc_store s5 child)) split_len ps;
                                    s6 = upd_node m (\<lambda>nd. nd\<lparr>nd_hash := h1\<rparr>) s5
                                in (Inr m, upd_node child (\<lambda>nd. nd\<lparr>nd_hash := h2\<rparr>) s6))))))"

subsection \<open>Matching a prefix\<close>

partial_function (option) match_loop ::
  "nat \<Rightarrow> radix_key \<Rightarrow> child_key \<Rightarrow> int \<Rightarrow> kv_index list option list \<Rightarrow> radix
     \<Rightarrow> ((kv_index list option list \<times> nat) res \<times> radix) option" where
  "match_loop n key ck t acc s =
     (if 0 < rk_len key \<and> dict_has (nd_children (rc_store s n)) ck
      then case dict_get (nd_children (rc_store s n)) ck of
             None \<Rightarrow> Some (Inl KeyError, s)
           | Some c \<Rightarrow>
               let s1 = upd_node c (\<lambda>nd. nd\<lparr>nd_last_access := t\<rparr>) s
               in case rk_match (rc_page_size s1) (nd_key (rc_store s1 c)) key of
                    Inl e \<Rightarrow> Some (Inl e, s1)
                  | Inr prefix_len \<Rightarrow>
                      if prefix_len < rk_len (nd_key (rc_store s1 c))
                      then case split_node (nd_key (rc_store s1 c)) c prefix_len s1 of
                             (Inl e, s2) \<Rightarrow> Some (Inl e, s2)
                           | (Inr m, s2) \<Rightarrow> Some (Inr (acc @ [nd_value (rc_store s2 m)], m), s2)
                      else let key' = rk_drop key prefix_len; acc' = acc @ [nd_value (rc_store s1 c)]
                           in if rk_len key' \<noteq> 0
                              then case child_key (rc_page_size s1) key' of
                                     Inl e \<Rightarrow> Some (Inl e, s1)
                                   | Inr ck' \<Rightarrow> match_loop c key' ck' t acc' s1
                              else match_loop c key' ck t acc' s1
      else Some (Inr (acc, n), s))"

definition match_prefix_helper ::
  "nat \<Rightarrow> radix_key \<Rightarrow> radix \<Rightarrow> ((kv_index list option list \<times> nat) res \<times> radix) option" where
  "match_prefix_helper n key s =
     (let (t, s1) = read_clock s; s2 = upd_node n (\<lambda>nd. nd\<lparr>nd_last_access := t\<rparr>) s1
      in case child_key (rc_page_size s2) key of
           Inl e \<Rightarrow> Some (Inl e, s2)
         | Inr ck \<Rightarrow> match_loop n key ck t [] s2)"

text \<open>\<^verbatim>\<open>torch.cat\<close> over the collected values; it raises on an empty list and on \<^verbatim>\<open>None\<close>.\<close>

definition torch_cat :: "kv_index list option list \<Rightarrow> kv_index list res" where
  "torch_cat vs = (if vs = [] then Inl RuntimeError else if None \<in> set vs then Inl TypeError else Inr (concat (map the vs)))"

text \<open>The result: the indices and the last node (the three nodes of a \<^verbatim>\<open>MatchResult\<close> coincide here).\<close>

definition match_prefix :: "radix_key \<Rightarrow> radix \<Rightarrow> ((kv_index list \<times> nat) res \<times> radix) option" where
  "match_prefix k s =
     (let key = fst (maybe_to_bigram_view (rc_is_eagle s) k None)
      in if rc_disable s \<or> rk_len key = 0 then Some (Inr ([], rc_root s), s)
         else let key1 = page_aligned (rc_page_size s) key
         in if rk_len key1 = 0 then Some (Inr ([], rc_root s), s)
            else case match_prefix_helper (rc_root s) key1 s of
                   None \<Rightarrow> None
                 | Some (Inl e, s1) \<Rightarrow> Some (Inl e, s1)
                 | Some (Inr (vs, n), s1) \<Rightarrow>
                     (case (if vs \<noteq> [] then torch_cat vs else Inr []) of
                        Inl e \<Rightarrow> Some (Inl e, s1)
                      | Inr v \<Rightarrow> Some (Inr (v, n), s1)))"

subsection \<open>Inserting\<close>

definition inc_hit_count :: "bool \<Rightarrow> nat \<Rightarrow> radix \<Rightarrow> radix" where
  "inc_hit_count chunked n s =
     (if chunked then s else upd_node n (\<lambda>nd. nd\<lparr>nd_hit_count := nd_hit_count nd + 1\<rparr>) s)"

definition raise_priority :: "int \<Rightarrow> nat \<Rightarrow> radix \<Rightarrow> radix" where
  "raise_priority prio n s = upd_node n (\<lambda>nd. nd\<lparr>nd_priority := max (nd_priority nd) prio\<rparr>) s"

text \<open>The loop; it returns the node, key, value and child key it stops at, and the length matched.\<close>

partial_function (option) insert_loop ::
  "nat \<Rightarrow> radix_key \<Rightarrow> kv_index list \<Rightarrow> child_key \<Rightarrow> int \<Rightarrow> int \<Rightarrow> bool \<Rightarrow> nat \<Rightarrow> radix
     \<Rightarrow> ((nat \<times> radix_key \<times> kv_index list \<times> child_key \<times> nat) res \<times> radix) option" where
  "insert_loop n key v ck t prio chunked tot s =
     (if 0 < rk_len key \<and> dict_has (nd_children (rc_store s n)) ck
      then case dict_get (nd_children (rc_store s n)) ck of
             None \<Rightarrow> Some (Inl KeyError, s)
           | Some c \<Rightarrow>
               let s1 = upd_node c (\<lambda>nd. nd\<lparr>nd_last_access := t\<rparr>) s
               in case rk_match (rc_page_size s1) (nd_key (rc_store s1 c)) key of
                    Inl e \<Rightarrow> Some (Inl e, s1)
                  | Inr prefix_len \<Rightarrow>
                      let tot' = tot + prefix_len; key' = rk_drop key prefix_len; v' = drop prefix_len v
                      in case (if prefix_len < rk_len (nd_key (rc_store s1 c))
                               then split_node (nd_key (rc_store s1 c)) c prefix_len s1
                               else (Inr c, s1)) of
                           (Inl e, s2) \<Rightarrow> Some (Inl e, s2)
                         | (Inr m, s2) \<Rightarrow>
                             let s3 = inc_hit_count chunked m (raise_priority prio m s2)
                             in if rk_len key' \<noteq> 0
                                then case child_key (rc_page_size s3) key' of
                                       Inl e \<Rightarrow> Some (Inl e, s3)
                                     | Inr ck' \<Rightarrow> insert_loop m key' v' ck' t prio chunked tot' s3
                                else insert_loop m key' v' ck t prio chunked tot' s3
      else Some (Inr (n, key, v, ck, tot), s))"

text \<open>The new leaf that holds the part of the key the tree did not have.\<close>

definition add_leaf ::
  "nat \<Rightarrow> radix_key \<Rightarrow> kv_index list \<Rightarrow> child_key \<Rightarrow> int \<Rightarrow> bool \<Rightarrow> radix \<Rightarrow> unit res \<times> radix" where
  "add_leaf n key v ck prio chunked s =
     (let (m, s1) = new_tree_node prio s;
          s2 = upd_node m (\<lambda>nd. nd\<lparr>nd_parent := Some n, nd_key := key, nd_value := Some v\<rparr>) s1;
          s3 = inc_hit_count chunked m s2;
          s4 = upd_node n (\<lambda>nd. nd\<lparr>nd_children := dict_set ck m (nd_children nd)\<rparr>) s3;
          s5 = s4\<lparr>rc_evictable_size := rc_evictable_size s4 + int (rk_len key)\<rparr>;
          s6 = update_leaf_status m (update_leaf_status n s5)
      in record_store_event m None s6)"

definition insert_helper ::
  "nat \<Rightarrow> radix_key \<Rightarrow> kv_index list \<Rightarrow> int option \<Rightarrow> bool \<Rightarrow> radix \<Rightarrow> (nat res \<times> radix) option" where
  "insert_helper n key v priority chunked s =
     (let prio = (case priority of None \<Rightarrow> 0 | Some p \<Rightarrow> p);
          (t, s1) = read_clock s;
          s2 = raise_priority prio n (upd_node n (\<lambda>nd. nd\<lparr>nd_last_access := t\<rparr>) s1)
      in if rk_len key = 0 then Some (Inr 0, s2)
         else case child_key (rc_page_size s2) key of
                Inl e \<Rightarrow> Some (Inl e, s2)
              | Inr ck \<Rightarrow>
                  (case insert_loop n key v ck t prio chunked 0 s2 of
                     None \<Rightarrow> None
                   | Some (Inl e, s3) \<Rightarrow> Some (Inl e, s3)
                   | Some (Inr (m, key', v', ck', tot), s3) \<Rightarrow>
                       if rk_len key' \<noteq> 0
                       then (case add_leaf m key' v' ck' prio chunked s3 of
                               (Inl e, s4) \<Rightarrow> Some (Inl e, s4)
                             | (Inr _, s4) \<Rightarrow> Some (Inr tot, s4))
                       else Some (Inr tot, s3)))"

definition radix_insert ::
  "radix_key \<Rightarrow> kv_index list option \<Rightarrow> int option \<Rightarrow> bool \<Rightarrow> radix \<Rightarrow> (nat res \<times> radix) option" where
  "radix_insert k v0 priority chunked s =
     (if rc_disable s then Some (Inr 0, s)
      else let (key, v) = maybe_to_bigram_view (rc_is_eagle s) k v0;
               key1 = page_aligned (rc_page_size s) key;
               v1 = (case v of Some xs \<Rightarrow> take (rk_len key1) xs | None \<Rightarrow> take (rk_len key1) (token_ids key1))
           in insert_helper (rc_root s) key1 v1 priority chunked s)"

subsection \<open>Locks\<close>

partial_function (option) inc_lock_loop :: "nat option \<Rightarrow> int \<Rightarrow> radix \<Rightarrow> (int res \<times> radix) option" where
  "inc_lock_loop node delta s =
     (if node = Some (rc_root s) then Some (Inr delta, s)
      else case node of
             None \<Rightarrow> Some (Inl AttributeError, s)
           | Some n \<Rightarrow>
               let nd = rc_store s n; l = int (rk_len (nd_key nd));
                   (delta1, s1) = (if nd_lock_ref nd = 0
                     then (delta - l, s\<lparr>rc_evictable_size := rc_evictable_size s - l,
                                       rc_protected_size := rc_protected_size s + l\<rparr>)
                     else (delta, s));
                   s2 = update_leaf_status n (upd_node n (\<lambda>nd. nd\<lparr>nd_lock_ref := nd_lock_ref nd + 1\<rparr>) s1)
               in inc_lock_loop (nd_parent nd) delta1 s2)"

definition inc_lock_ref :: "nat \<Rightarrow> radix \<Rightarrow> (int res \<times> radix) option" where
  "inc_lock_ref n s = (if rc_disable s then Some (Inr 0, s) else inc_lock_loop (Some n) 0 s)"

partial_function (option) dec_lock_loop :: "nat \<Rightarrow> int \<Rightarrow> radix \<Rightarrow> (int res \<times> radix) option" where
  "dec_lock_loop n delta s =
     (if n = rc_root s then Some (Inr delta, s)
      else let nd = rc_store s n; l = int (rk_len (nd_key nd));
               (delta1, s1) = (if nd_lock_ref nd = 1
                 then (delta + l, s\<lparr>rc_evictable_size := rc_evictable_size s + l,
                                   rc_protected_size := rc_protected_size s - l\<rparr>)
                 else (delta, s));
               s2 = update_leaf_status n (upd_node n (\<lambda>nd. nd\<lparr>nd_lock_ref := nd_lock_ref nd - 1\<rparr>) s1)
           in case nd_parent nd of
                None \<Rightarrow> Some (Inl AssertionError, s2)
              | Some p \<Rightarrow> dec_lock_loop p delta1 s2)"

definition dec_lock_ref :: "nat \<Rightarrow> radix \<Rightarrow> (int res \<times> radix) option" where
  "dec_lock_ref n s = (if rc_disable s then Some (Inr 0, s) else dec_lock_loop n 0 s)"

subsection \<open>Eviction\<close>

text \<open>
  The heap holds pairs of a priority and a node; pairs compare lexicographically, nodes by their
  last access. \<^verbatim>\<open>heappop\<close> removes the pair at the position \<open>pick\<close> chooses: which of several
  smallest pairs comes first depends on the order of a Python set.
\<close>

type_synonym eviction_heap = "(evict_priority \<times> nat) list"

definition prio_less :: "evict_priority \<Rightarrow> evict_priority \<Rightarrow> bool" where
  "prio_less p q \<longleftrightarrow> fst p < fst q \<or> (fst p = fst q \<and> snd p < snd q)"

definition heap_less :: "(nat \<Rightarrow> tree_node) \<Rightarrow> evict_priority \<times> nat \<Rightarrow> evict_priority \<times> nat \<Rightarrow> bool" where
  "heap_less store x y \<longleftrightarrow> prio_less (fst x) (fst y) \<or>
     (fst x = fst y \<and> snd x \<noteq> snd y \<and> nd_last_access (store (snd x)) < nd_last_access (store (snd y)))"

definition heap_pop :: "(eviction_heap \<Rightarrow> nat) \<Rightarrow> eviction_heap \<Rightarrow> nat \<times> eviction_heap" where
  "heap_pop pick hp = (snd (hp ! pick hp), take (pick hp) hp @ drop (Suc (pick hp)) hp)"

partial_function (option) radix_evict_loop ::
  "(eviction_heap \<Rightarrow> nat) \<Rightarrow> int \<Rightarrow> eviction_heap \<Rightarrow> int \<Rightarrow> radix \<Rightarrow> (int res \<times> radix) option" where
  "radix_evict_loop pick num_tokens hp num_evicted s =
     (if num_evicted < num_tokens \<and> hp \<noteq> []
      then let (x, hp1) = heap_pop pick hp; nd = rc_store s x
           in case nd_value nd of
                None \<Rightarrow> Some (Inl AttributeError, s)
              | Some v \<Rightarrow>
                  (case delete_leaf x (free_kv v s) of
                     (Inl e, s1) \<Rightarrow> Some (Inl e, s1)
                   | (Inr _, s1) \<Rightarrow>
                       (case nd_parent (rc_store s1 x) of
                          None \<Rightarrow> Some (Inl AttributeError, s1)
                        | Some p \<Rightarrow>
                            let pn = rc_store s1 p;
                                hp2 = (if nd_children pn = [] \<and> nd_lock_ref pn = 0
                                       then hp1 @ [(get_priority (rc_strategy s1) pn, p)] else hp1)
                            in (case record_remove_event x None s1 of
                                  (Inl e, s2) \<Rightarrow> Some (Inl e, s2)
                                | (Inr _, s2) \<Rightarrow> radix_evict_loop pick num_tokens hp2 (num_evicted + int (length v)) s2)))
      else Some (Inr num_evicted, s))"

text \<open>\<open>leaves\<close> is the set of evictable leaves in the order in which the set is listed.\<close>

definition radix_evict ::
  "(eviction_heap \<Rightarrow> nat) \<Rightarrow> nat list \<Rightarrow> int \<Rightarrow> radix \<Rightarrow> (int res \<times> radix) option" where
  "radix_evict pick leaves num_tokens s =
     (if rc_disable s then Some (Inr 0, s)
      else radix_evict_loop pick num_tokens (map (\<lambda>n. (get_priority (rc_strategy s) (rc_store s n), n)) leaves) 0 s)"

subsection \<open>Walks over the tree\<close>

partial_function (option) total_size_loop :: "nat list \<Rightarrow> nat \<Rightarrow> radix \<Rightarrow> nat res option" where
  "total_size_loop stack tot s =
     (if stack = [] then Some (Inr tot)
      else let nd = rc_store s (last stack)
           in case nd_value nd of
                None \<Rightarrow> Some (Inl TypeError)
              | Some v \<Rightarrow> total_size_loop
                  (butlast stack @ filter (\<lambda>c. \<not> evicted (rc_store s c)) (dict_values (nd_children nd)))
                  (tot + length v) s)"

definition total_size :: "radix \<Rightarrow> nat res option" where
  "total_size s = total_size_loop [rc_root s] 0 s"

partial_function (option) dfs_values :: "nat list \<Rightarrow> kv_index list option list \<Rightarrow> radix \<Rightarrow> kv_index list option list option" where
  "dfs_values cs acc s =
     (case cs of [] \<Rightarrow> Some acc
      | c # cs' \<Rightarrow>
          Option.bind (dfs_values (dict_values (nd_children (rc_store s c))) (acc @ [nd_value (rc_store s c)]) s)
            (\<lambda>acc'. dfs_values cs' acc' s))"

definition all_values_flatten :: "radix \<Rightarrow> kv_index list res option" where
  "all_values_flatten s =
     map_option torch_cat (dfs_values (dict_values (nd_children (rc_store s (rc_root s)))) [] s)"

end
