(* ===== verification/Radix_Inv.thy ===== *)
theory Radix_Inv
  imports Radix_Tree
begin

text \<open>
  The invariant of the radix cache and its preservation by the steps of the operations. The live
  nodes are a set \<open>N\<close> that contains the root; \<open>L n\<close> is the number of locks that callers hold on
  the node \<open>n\<close>. Structure, lock counts, size counters and the set of evictable leaves have an
  invariant each.
\<close>

section \<open>The invariant\<close>

abbreviation kids_of :: "radix \<Rightarrow> nat \<Rightarrow> (child_key, nat) dict" where
  "kids_of s n \<equiv> nd_children (rc_store s n)"

abbreviation par :: "radix \<Rightarrow> nat \<Rightarrow> nat option" where
  "par s n \<equiv> nd_parent (rc_store s n)"

abbreviation keyof :: "radix \<Rightarrow> nat \<Rightarrow> radix_key" where
  "keyof s n \<equiv> nd_key (rc_store s n)"

abbreviation valof :: "radix \<Rightarrow> nat \<Rightarrow> kv_index list option" where
  "valof s n \<equiv> nd_value (rc_store s n)"

abbreviation lockof :: "radix \<Rightarrow> nat \<Rightarrow> int" where
  "lockof s n \<equiv> nd_lock_ref (rc_store s n)"

definition ckey :: "nat \<Rightarrow> radix_key \<Rightarrow> child_key" where
  "ckey ps k = (extra_key k, take ps (rk_units k))"

definition node_ok :: "radix \<Rightarrow> nat \<Rightarrow> bool" where
  "node_ok s n \<longleftrightarrow> 0 < rk_len (keyof s n) \<and> rc_page_size s dvd rk_len (keyof s n) \<and>
     is_bigram (keyof s n) = rc_is_eagle s \<and> (\<exists>v. valof s n = Some v \<and> length v = rk_len (keyof s n))"

definition struct_ok :: "nat set \<Rightarrow> radix \<Rightarrow> bool" where
  "struct_ok N s \<longleftrightarrow>
     finite N \<and> rc_root s \<in> N \<and> (\<forall>n \<in> N. n < rc_counter s) \<and> 0 < rc_page_size s \<and>
     par s (rc_root s) = None \<and> valof s (rc_root s) = Some [] \<and>
     (\<forall>n \<in> N - {rc_root s}. node_ok s n \<and>
        (\<exists>p \<in> N. par s n = Some p \<and> (p \<noteq> rc_root s \<longrightarrow> extra_key (keyof s n) = extra_key (keyof s p)))) \<and>
     (\<forall>n \<in> N. dict_ok (kids_of s n) \<and>
        (\<forall>ck c. dict_get (kids_of s n) ck = Some c \<longleftrightarrow>
           c \<in> N - {rc_root s} \<and> par s c = Some n \<and> ck = ckey (rc_page_size s) (keyof s c))) \<and>
     (\<exists>rk :: nat \<Rightarrow> nat. \<forall>n \<in> N - {rc_root s}. \<forall>p. par s n = Some p \<longrightarrow> rk p < rk n)"

definition locks_ok :: "nat set \<Rightarrow> (nat \<Rightarrow> nat) \<Rightarrow> radix \<Rightarrow> bool" where
  "locks_ok N L s \<longleftrightarrow> 0 < lockof s (rc_root s) \<and> (\<forall>n. n \<notin> N \<longrightarrow> L n = 0) \<and>
     (\<forall>n \<in> N - {rc_root s}. 0 \<le> lockof s n \<and>
        lockof s n = int (L n) + (\<Sum>c | c \<in> N - {rc_root s} \<and> par s c = Some n. lockof s c))"

definition sizes_ok :: "nat set \<Rightarrow> radix \<Rightarrow> bool" where
  "sizes_ok N s \<longleftrightarrow>
     rc_evictable_size s = (\<Sum>n \<in> N - {rc_root s}. if lockof s n = 0 then int (rk_len (keyof s n)) else 0) \<and>
     rc_protected_size s = (\<Sum>n \<in> N - {rc_root s}. if lockof s n = 0 then 0 else int (rk_len (keyof s n)))"

definition leaves_ok :: "nat set \<Rightarrow> radix \<Rightarrow> bool" where
  "leaves_ok N s \<longleftrightarrow> distinct (rc_evictable_leaves s) \<and>
     set (rc_evictable_leaves s) = {n \<in> N - {rc_root s}. lockof s n = 0 \<and> kids_of s n = []}"

definition tree_inv :: "nat set \<Rightarrow> (nat \<Rightarrow> nat) \<Rightarrow> radix \<Rightarrow> bool" where
  "tree_inv N L s \<longleftrightarrow> struct_ok N s \<and> locks_ok N L s \<and> sizes_ok N s \<and> leaves_ok N s"

section \<open>Steps that only touch bookkeeping fields\<close>

text \<open>
  Two states of the same shape agree on everything the invariant reads. Times, hit counts,
  priorities and hashes may differ, and so may the event queue.
\<close>

definition same_shape :: "radix \<Rightarrow> radix \<Rightarrow> bool" where
  "same_shape s t \<longleftrightarrow>
     (\<forall>n. kids_of t n = kids_of s n \<and> par t n = par s n \<and> keyof t n = keyof s n \<and>
        valof t n = valof s n \<and> lockof t n = lockof s n) \<and>
     rc_root t = rc_root s \<and> rc_page_size t = rc_page_size s \<and> rc_is_eagle t = rc_is_eagle s \<and>
     rc_disable t = rc_disable s \<and> rc_disable_finished_insert t = rc_disable_finished_insert s \<and>
     rc_strategy t = rc_strategy s \<and> rc_evictable_leaves t = rc_evictable_leaves s \<and>
     rc_evictable_size t = rc_evictable_size s \<and> rc_protected_size t = rc_protected_size s \<and>
     rc_counter t = rc_counter s \<and> rc_class t = rc_class s \<and> rc_alloc t = rc_alloc s \<and>
     rc_events t = rc_events s \<and> rc_sha t = rc_sha s"

lemma same_shape_refl [simp]: "same_shape s s"
  by (simp add: same_shape_def)

lemma same_shape_trans: "same_shape s t \<Longrightarrow> same_shape t u \<Longrightarrow> same_shape s u"
  by (simp add: same_shape_def)

lemma same_shape_fields:
  assumes "same_shape s t"
  shows "kids_of t n = kids_of s n" "par t n = par s n" "keyof t n = keyof s n" "valof t n = valof s n"
    "lockof t n = lockof s n" "rc_root t = rc_root s" "rc_page_size t = rc_page_size s"
    "rc_is_eagle t = rc_is_eagle s" "rc_counter t = rc_counter s" "rc_alloc t = rc_alloc s"
    "rc_class t = rc_class s" "rc_disable t = rc_disable s" "rc_evictable_leaves t = rc_evictable_leaves s"
    "rc_evictable_size t = rc_evictable_size s" "rc_protected_size t = rc_protected_size s"
    "rc_events t = rc_events s" "rc_sha t = rc_sha s" "rc_strategy t = rc_strategy s"
    "rc_disable_finished_insert t = rc_disable_finished_insert s"
  using assms by (auto simp: same_shape_def)

lemma same_shape_upd:
  assumes "\<And>nd. nd_children (f nd) = nd_children nd" "\<And>nd. nd_parent (f nd) = nd_parent nd"
    "\<And>nd. nd_key (f nd) = nd_key nd" "\<And>nd. nd_value (f nd) = nd_value nd" "\<And>nd. nd_lock_ref (f nd) = nd_lock_ref nd"
  shows "same_shape s (upd_node n f s)"
  using assms by (simp add: same_shape_def upd_node_def)

lemma same_shape_clock: "read_clock s = (t, s1) \<Longrightarrow> same_shape s s1"
  by (auto simp: read_clock_def same_shape_def)

lemma same_shape_touch [simp]: "same_shape s (upd_node n (\<lambda>nd. nd\<lparr>nd_last_access := t\<rparr>) s)"
  by (rule same_shape_upd) simp_all

lemma same_shape_priority [simp]: "same_shape s (raise_priority p n s)"
  unfolding raise_priority_def by (rule same_shape_upd) simp_all

lemma same_shape_hit [simp]: "same_shape s (inc_hit_count b n s)"
  unfolding inc_hit_count_def using same_shape_upd [of "\<lambda>nd. nd\<lparr>nd_hit_count := nd_hit_count nd + 1\<rparr>" s n] by simp

lemma same_shape_ensure_hash: "ensure_hash n s = (r, t) \<Longrightarrow> same_shape s t"
  by (auto simp: ensure_hash_def same_shape_upd split: option.splits sum.splits)

lemma same_shape_append_events: "append_events er s = (r, t) \<Longrightarrow> same_shape s t"
  by (auto simp: append_events_def same_shape_def)

lemma same_shape_record_store: "record_store_event n m s = (r, t) \<Longrightarrow> same_shape s t"
  by (auto simp: record_store_event_def Let_def split: if_splits sum.splits prod.splits
      dest: same_shape_ensure_hash same_shape_append_events same_shape_trans)

lemma same_shape_record_remove: "record_remove_event n m s = (r, t) \<Longrightarrow> same_shape s t"
  by (auto simp: record_remove_event_def Let_def split: if_splits sum.splits prod.splits
      dest: same_shape_ensure_hash same_shape_append_events same_shape_trans)

lemma struct_ok_shape: "struct_ok N s \<Longrightarrow> same_shape s t \<Longrightarrow> struct_ok N t"
  unfolding struct_ok_def node_ok_def by (simp add: same_shape_fields)

lemma tree_inv_shape:
  assumes "tree_inv N L s" and "same_shape s t"
  shows "tree_inv N L t"
proof -
  note f = same_shape_fields [OF assms(2)]
  have "locks_ok N L t \<longleftrightarrow> locks_ok N L s" "sizes_ok N t \<longleftrightarrow> sizes_ok N s" "leaves_ok N t \<longleftrightarrow> leaves_ok N s"
    by (simp_all only: locks_ok_def sizes_ok_def leaves_ok_def f)
  then show ?thesis using assms struct_ok_shape unfolding tree_inv_def by blast
qed

section \<open>Consequences of the structure\<close>

lemma struct_okD:
  assumes "struct_ok N s"
  shows "finite N" "rc_root s \<in> N" "0 < rc_page_size s" "par s (rc_root s) = None" "valof s (rc_root s) = Some []"
    and "n \<in> N \<Longrightarrow> n < rc_counter s" and "n \<in> N \<Longrightarrow> dict_ok (kids_of s n)"
    and "n \<in> N \<Longrightarrow> n \<noteq> rc_root s \<Longrightarrow> node_ok s n"
    and "n \<in> N \<Longrightarrow> dict_get (kids_of s n) ck = Some c \<longleftrightarrow>
      c \<in> N - {rc_root s} \<and> par s c = Some n \<and> ck = ckey (rc_page_size s) (keyof s c)"
  using assms unfolding struct_ok_def by blast+

lemma parent_exists:
  assumes "struct_ok N s" and "n \<in> N" and "n \<noteq> rc_root s"
  obtains p where "p \<in> N" "par s n = Some p" "p \<noteq> n"
    "p \<noteq> rc_root s \<Longrightarrow> extra_key (keyof s n) = extra_key (keyof s p)"
    "dict_get (kids_of s p) (ckey (rc_page_size s) (keyof s n)) = Some n"
proof -
  from assms obtain p where p: "p \<in> N" "par s n = Some p"
    "p \<noteq> rc_root s \<longrightarrow> extra_key (keyof s n) = extra_key (keyof s p)" unfolding struct_ok_def by blast
  have "p \<noteq> n" using assms p(2) unfolding struct_ok_def by (metis DiffI less_irrefl singletonD)
  moreover have "dict_get (kids_of s p) (ckey (rc_page_size s) (keyof s n)) = Some n"
    using struct_okD(9) [OF assms(1) p(1)] assms p by simp
  ultimately show ?thesis using that p by blast
qed

lemma node_okD:
  assumes "struct_ok N s" and "n \<in> N" and "n \<noteq> rc_root s"
  shows "0 < rk_len (keyof s n)" "rc_page_size s dvd rk_len (keyof s n)" "is_bigram (keyof s n) = rc_is_eagle s"
    "rc_page_size s \<le> rk_len (keyof s n)" "\<exists>v. valof s n = Some v \<and> length v = rk_len (keyof s n)"
  using struct_okD(8) [OF assms] by (auto simp: node_ok_def dvd_imp_le)

lemma child_key_node:
  assumes "struct_ok N s" and "n \<in> N" and "n \<noteq> rc_root s"
  shows "child_key (rc_page_size s) (keyof s n) = Inr (ckey (rc_page_size s) (keyof s n))"
  using node_okD(4) [OF assms] struct_okD(3) [OF assms(1)] by (simp add: child_key_units ckey_def)

lemma kids_live:
  assumes "struct_ok N s" and "n \<in> N" and "c \<in> set (dict_values (kids_of s n))"
  shows "c \<in> N" "c \<noteq> rc_root s" "par s c = Some n"
proof -
  from assms(3) obtain ck where "(ck, c) \<in> set (kids_of s n)" by auto
  then have "dict_get (kids_of s n) ck = Some c"
    using struct_okD(7) [OF assms(1,2)] by (simp add: dict_get_iff_in)
  then show "c \<in> N" "c \<noteq> rc_root s" "par s c = Some n" using struct_okD(9) [OF assms(1,2)] by auto
qed

lemma kids_empty_iff:
  assumes "struct_ok N s" and "n \<in> N"
  shows "kids_of s n = [] \<longleftrightarrow> (\<forall>c \<in> N - {rc_root s}. par s c \<noteq> Some n)"
proof
  assume "kids_of s n = []"
  then show "\<forall>c \<in> N - {rc_root s}. par s c \<noteq> Some n"
    using struct_okD(9) [OF assms, of "ckey (rc_page_size s) (keyof s _)"] by force
next
  assume "\<forall>c \<in> N - {rc_root s}. par s c \<noteq> Some n"
  then have "\<not> (\<exists>x. x \<in> set (kids_of s n))" using kids_live [OF assms] by force
  then show "kids_of s n = []" by (cases "kids_of s n") auto
qed

lemma live_not_evicted:
  assumes "struct_ok N s" and "n \<in> N"
  shows "\<not> evicted (rc_store s n)"
  using node_okD(5) [OF assms] struct_okD(5) [OF assms(1)] by (cases "n = rc_root s") (auto simp: evicted_def)

text \<open>What updating the status of a live node does to the set of evictable leaves.\<close>

lemma update_leaf_status_live:
  assumes "struct_ok N s" and "n \<in> N"
  shows "update_leaf_status n s = s\<lparr>rc_evictable_leaves :=
     (if 0 < lockof s n \<or> kids_of s n \<noteq> [] then removeAll n (rc_evictable_leaves s)
      else if n \<in> set (rc_evictable_leaves s) then rc_evictable_leaves s
      else n # rc_evictable_leaves s)\<rparr>"
proof -
  have "list_ex (\<lambda>c. \<not> evicted (rc_store s c)) (dict_values (kids_of s n)) \<longleftrightarrow> kids_of s n \<noteq> []"
  proof
    assume "kids_of s n \<noteq> []"
    then obtain c where c: "c \<in> set (dict_values (kids_of s n))" by (cases "kids_of s n") auto
    then have "\<not> evicted (rc_store s c)" using kids_live(1) [OF assms c] live_not_evicted [OF assms(1)] by blast
    with c show "list_ex (\<lambda>c. \<not> evicted (rc_store s c)) (dict_values (kids_of s n))"
      unfolding list_ex_iff by blast
  qed auto
  then show ?thesis
    using live_not_evicted [OF assms]
    by (simp add: update_leaf_status_def Let_def discard_leaf_def)
qed

section \<open>Splitting\<close>

definition same_globals :: "radix \<Rightarrow> radix \<Rightarrow> bool" where
  "same_globals s t \<longleftrightarrow>
     rc_root t = rc_root s \<and> rc_page_size t = rc_page_size s \<and> rc_is_eagle t = rc_is_eagle s \<and>
     rc_disable t = rc_disable s \<and> rc_disable_finished_insert t = rc_disable_finished_insert s \<and>
     rc_strategy t = rc_strategy s \<and> rc_class t = rc_class s \<and>
     rc_events t = rc_events s \<and> rc_sha t = rc_sha s"

lemma same_globals_refl [simp]: "same_globals s s"
  by (simp add: same_globals_def)

lemma same_globals_trans: "same_globals s t \<Longrightarrow> same_globals t u \<Longrightarrow> same_globals s u"
  by (simp add: same_globals_def)

lemma same_shape_globals: "same_shape s t \<Longrightarrow> same_globals s t"
  by (simp add: same_shape_def same_globals_def)

definition split_effect :: "radix \<Rightarrow> nat \<Rightarrow> nat \<Rightarrow> nat \<Rightarrow> nat \<Rightarrow> radix \<Rightarrow> bool" where
  "split_effect s c j p m t \<longleftrightarrow>
     (\<forall>n. kids_of t n = (if n = m then [(ckey (rc_page_size s) (rk_drop (keyof s c) j), c)]
        else if n = p then dict_set (ckey (rc_page_size s) (keyof s c)) m (kids_of s p) else kids_of s n)) \<and>
     (\<forall>n. par t n = (if n = m then Some p else if n = c then Some m else par s n)) \<and>
     (\<forall>n. keyof t n = (if n = m then rk_take (keyof s c) j else if n = c then rk_drop (keyof s c) j else keyof s n)) \<and>
     (\<forall>n. valof t n = (if n = m then map_option (take j) (valof s c)
        else if n = c then map_option (drop j) (valof s c) else valof s n)) \<and>
     (\<forall>n. lockof t n = (if n = m then lockof s c else lockof s n)) \<and>
     same_globals s t \<and> rc_counter t = Suc (rc_counter s) \<and> rc_alloc t = rc_alloc s \<and>
     rc_evictable_leaves t = rc_evictable_leaves s \<and>
     rc_evictable_size t = rc_evictable_size s \<and> rc_protected_size t = rc_protected_size s"

lemma new_tree_node_eq:
  "new_tree_node prio s = (rc_counter s,
     s\<lparr>rc_ticks := Suc (Suc (rc_ticks s)), rc_counter := Suc (rc_counter s),
       rc_store := (rc_store s)(rc_counter s :=
         \<lparr>nd_children = [], nd_parent = None, nd_key = empty_key, nd_value = None, nd_lock_ref = 0,
          nd_last_access = rc_clock s (rc_ticks s), nd_creation = rc_clock s (Suc (rc_ticks s)),
          nd_hit_count = 0, nd_host_ref = 0, nd_host_value = None, nd_hash = None, nd_priority = prio\<rparr>)\<rparr>)"
  by (simp add: new_tree_node_def read_clock_def Let_def)

lemma split_node_effect:
  assumes st: "struct_ok N s" and c: "c \<in> N" "c \<noteq> rc_root s" and p: "par s c = Some p"
    and j: "0 < j" "j < rk_len (keyof s c)" "rc_page_size s dvd j"
  shows "\<exists>t. split_node (keyof s c) c j s = (Inr (rc_counter s), t) \<and> split_effect s c j p (rc_counter s) t"
proof -
  let ?ps = "rc_page_size s" and ?m = "rc_counter s"
  obtain v where v: "valof s c = Some v" using node_okD(5) [OF st c] by blast
  have fresh: "c \<noteq> ?m" "p \<noteq> ?m" "p \<noteq> c"
    using struct_okD(6) [OF st c(1)] parent_exists [OF st c] p struct_okD(6) [OF st] by auto
  have "?ps dvd rk_len (keyof s c) - j" using node_okD(2) [OF st c] j(3) by simp
  then have "?ps \<le> rk_len (rk_drop (keyof s c) j)" using j by (simp add: dvd_imp_le)
  then have ck1: "child_key ?ps (rk_drop (keyof s c) j) = Inr (ckey ?ps (rk_drop (keyof s c) j))"
    using struct_okD(3) [OF st] by (simp add: child_key_units ckey_def)
  obtain h1 h2 where h: "split_node_hash_value (nd_hash (rc_store s c)) j ?ps = (h1, h2)" by fastforce
  show ?thesis
    unfolding split_node_def Let_def new_tree_node_eq prod.case ck1 sum.case v option.case child_key_node [OF st c] p
    using fresh h by (simp add: split_effect_def upd_node_def same_globals_def v split: prod.split)
qed

lemma parent_live: "struct_ok N s \<Longrightarrow> n \<in> N \<Longrightarrow> n \<noteq> rc_root s \<Longrightarrow> par s n = Some q \<Longrightarrow> q \<in> N \<and> q \<noteq> n"
  by (metis option.inject parent_exists)

lemma parent_extra:
  "struct_ok N s \<Longrightarrow> n \<in> N \<Longrightarrow> n \<noteq> rc_root s \<Longrightarrow> par s n = Some q \<Longrightarrow> q \<noteq> rc_root s \<Longrightarrow>
    extra_key (keyof s n) = extra_key (keyof s q)"
  by (metis option.inject parent_exists)

lemma sibling_keys:
  assumes "struct_ok N s" and "x \<in> N" "x \<noteq> rc_root s" "y \<in> N" "y \<noteq> rc_root s"
    and "par s x = Some p" "par s y = Some p"
    and "ckey (rc_page_size s) (keyof s x) = ckey (rc_page_size s) (keyof s y)"
  shows "x = y"
proof -
  have "p \<in> N" using parent_live [OF assms(1-3,6)] by simp
  then have "dict_get (kids_of s p) (ckey (rc_page_size s) (keyof s x)) = Some x"
    "dict_get (kids_of s p) (ckey (rc_page_size s) (keyof s x)) = Some y"
    using struct_okD(9) [OF assms(1)] assms by simp_all
  then show ?thesis by simp
qed

lemma ckey_take: "ps \<le> j \<Longrightarrow> ckey ps (rk_take k j) = ckey ps k"
  by (simp add: ckey_def min_def)

lemma split_struct:
  assumes st: "struct_ok N s" and c: "c \<in> N" "c \<noteq> rc_root s" and p: "par s c = Some p"
    and j: "0 < j" "j < rk_len (keyof s c)" "rc_page_size s dvd j"
    and m: "m = rc_counter s" and eff: "split_effect s c j p m t"
  shows "struct_ok (insert m N) t"
proof -
  let ?ps = "rc_page_size s" and ?r = "rc_root s"
  have kids: "kids_of t n = (if n = m then [(ckey ?ps (rk_drop (keyof s c) j), c)]
        else if n = p then dict_set (ckey ?ps (keyof s c)) m (kids_of s p) else kids_of s n)"
    and par: "par t n = (if n = m then Some p else if n = c then Some m else par s n)"
    and key: "keyof t n = (if n = m then rk_take (keyof s c) j else if n = c then rk_drop (keyof s c) j else keyof s n)"
    and val: "valof t n = (if n = m then map_option (take j) (valof s c)
        else if n = c then map_option (drop j) (valof s c) else valof s n)" for n
    using eff unfolding split_effect_def by blast+
  have glob: "rc_root t = ?r" "rc_page_size t = ?ps" "rc_is_eagle t = rc_is_eagle s" "rc_counter t = Suc m"
    using eff m by (simp_all add: split_effect_def same_globals_def)
  have mN: "m \<notin> N" using struct_okD(6) [OF st] m by blast
  have pN: "p \<in> N" "p \<noteq> c" using parent_live [OF st c p] by simp_all
  have neq: "m \<noteq> ?r" "m \<noteq> c" "m \<noteq> p" using mN struct_okD(2) [OF st] c(1) pN(1) by auto
  have psj: "?ps \<le> j" using j by (simp add: dvd_imp_le)
  note cm = ckey_take [OF psj, of "keyof s c"]
  have no_m: "par s x \<noteq> Some m" if "x \<in> N" "x \<noteq> ?r" for x using parent_live [OF st that] mN by blast
  have node: "node_ok t n" if "n \<in> insert m N - {?r}" for n
  proof (cases "n = m \<or> n = c")
    case True
    obtain v where v: "valof s c = Some v" "length v = rk_len (keyof s c)" using node_okD(5) [OF st c] by blast
    show ?thesis
      using True neq j node_okD(2,3) [OF st c] v by (auto simp: node_ok_def key val glob)
  next
    case False
    then show ?thesis using that struct_okD(8) [OF st, of n] by (simp add: node_ok_def key val glob)
  qed
  have parent: "\<exists>q \<in> insert m N. par t n = Some q \<and> (q \<noteq> ?r \<longrightarrow> extra_key (keyof t n) = extra_key (keyof t q))"
    if "n \<in> insert m N - {?r}" for n
  proof -
    consider "n = m" | "n = c" | "n \<in> N" "n \<noteq> ?r" "n \<noteq> m" "n \<noteq> c" using \<open>n \<in> insert m N - {?r}\<close> by blast
    then show ?thesis
    proof cases
      case 1
      then show ?thesis using pN neq parent_extra [OF st c p] by (auto simp: par key)
    next
      case 2
      then show ?thesis using neq by (auto simp: par key)
    next
      case 3
      then obtain q where "q \<in> N" "par s n = Some q" "q \<noteq> ?r \<Longrightarrow> extra_key (keyof s n) = extra_key (keyof s q)"
        using parent_exists [OF st 3(1,2)] by metis
      then show ?thesis using 3 mN by (intro bexI [of _ q]) (auto simp: par key)
    qed
  qed
  have dict: "dict_get (kids_of t n) ck = Some x \<longleftrightarrow>
      x \<in> insert m N - {?r} \<and> par t x = Some n \<and> ck = ckey ?ps (keyof t x)" if nN: "n \<in> insert m N" for n ck x
  proof -
    consider "n = m" | "n = p" | "n \<in> N" "n \<noteq> m" "n \<noteq> p" using nN by blast
    then show ?thesis
    proof cases
      case 1
      then show ?thesis using neq c no_m by (auto simp: kids par key)
    next
      case 2
      have "dict_get (kids_of s p) ck = Some x \<longleftrightarrow> x \<in> N - {?r} \<and> par s x = Some p \<and> ck = ckey ?ps (keyof s x)"
        by (rule struct_okD(9) [OF st pN(1)])
      moreover have "x = c" if "x \<in> N - {?r}" "par s x = Some p" "ckey ?ps (keyof s x) = ckey ?ps (keyof s c)"
        using sibling_keys [OF st _ _ c(1,2) that(2) p that(3)] that(1) by simp
      ultimately show ?thesis using 2 neq pN mN cm p by (auto simp: kids par key)
    next
      case 3
      have "dict_get (kids_of s n) ck = Some x \<longleftrightarrow> x \<in> N - {?r} \<and> par s x = Some n \<and> ck = ckey ?ps (keyof s x)"
        by (rule struct_okD(9) [OF st 3(1)])
      then show ?thesis using 3 neq mN p by (auto simp: kids par key)
    qed
  qed
  from st obtain rk :: "nat \<Rightarrow> nat" where rk: "\<forall>n \<in> N - {?r}. \<forall>p. par s n = Some p \<longrightarrow> rk p < rk n"
    unfolding struct_ok_def by blast
  define rk' where "rk' n = (if n = m then 2 * rk c - 1 else 2 * rk n)" for n
  have "rk p < rk c" using rk c p by blast
  have rank: "rk' q < rk' n" if nN: "n \<in> insert m N - {?r}" and q: "par t n = Some q" for n q
  proof -
    consider "n = m" "q = p" | "n = c" "q = m" | "n \<in> N - {?r}" "n \<noteq> m" "n \<noteq> c" "par s n = Some q"
      using nN q by (auto simp: par split: if_splits)
    then show ?thesis
    proof cases
      case 3
      then have "rk q < rk n" "q \<noteq> m" using rk no_m by auto
      with 3 show ?thesis by (simp add: rk'_def)
    qed (use neq \<open>rk p < rk c\<close> in \<open>simp_all add: rk'_def\<close>)
  qed
  show ?thesis
    unfolding struct_ok_def glob
  proof (intro conjI ballI allI)
    show "\<exists>rk :: nat \<Rightarrow> nat. \<forall>n \<in> insert m N - {?r}. \<forall>p. par t n = Some p \<longrightarrow> rk p < rk n" using rank by blast
    show "n < Suc m" if "n \<in> insert m N" for n using that struct_okD(6) [OF st] m by fastforce
    show "dict_ok (kids_of t n)" if "n \<in> insert m N" for n
      using that struct_okD(7) [OF st] pN by (auto simp: kids)
    show "dict_get (kids_of t n) ck = Some x \<longleftrightarrow>
        x \<in> insert m N - {?r} \<and> par t x = Some n \<and> ck = ckey ?ps (keyof t x)" if "n \<in> insert m N" for n ck x
      by (rule dict [OF that])
  qed (use struct_okD(1-5) [OF st] neq c node parent in \<open>auto simp: par val\<close>)
qed

lemma locks_okD:
  assumes "locks_ok N L s"
  shows "0 < lockof s (rc_root s)" and "n \<notin> N \<Longrightarrow> L n = 0"
    and "n \<in> N \<Longrightarrow> n \<noteq> rc_root s \<Longrightarrow> 0 \<le> lockof s n"
    and "n \<in> N \<Longrightarrow> n \<noteq> rc_root s \<Longrightarrow>
      lockof s n = int (L n) + (\<Sum>c | c \<in> N - {rc_root s} \<and> par s c = Some n. lockof s c)"
  using assms unfolding locks_ok_def by blast+

lemma sum_split:
  fixes f g :: "nat \<Rightarrow> int"
  assumes "finite A" "c \<notin> A" "m \<notin> insert c A" "\<And>n. n \<in> A \<Longrightarrow> f n = g n" "f m + f c = g c"
  shows "sum f (insert m (insert c A)) = sum g (insert c A)"
proof -
  have "sum f A = sum g A" using assms(4) by (rule sum.cong [OF refl])
  with assms show ?thesis by simp
qed

lemma split_inv:
  assumes inv: "tree_inv N L s" and c: "c \<in> N" "c \<noteq> rc_root s" and p: "par s c = Some p"
    and j: "0 < j" "j < rk_len (keyof s c)" "rc_page_size s dvd j"
    and m: "m = rc_counter s" and eff: "split_effect s c j p m t"
  shows "tree_inv (insert m N) L t"
proof -
  let ?r = "rc_root s"
  have st: "struct_ok N s" and lk: "locks_ok N L s" and sz: "sizes_ok N s" and lv: "leaves_ok N s"
    using inv by (auto simp: tree_inv_def)
  have par: "par t n = (if n = m then Some p else if n = c then Some m else par s n)"
    and key: "keyof t n = (if n = m then rk_take (keyof s c) j else if n = c then rk_drop (keyof s c) j else keyof s n)"
    and lock: "lockof t n = (if n = m then lockof s c else lockof s n)" for n
    using eff unfolding split_effect_def by blast+
  have glob: "rc_root t = ?r" "rc_evictable_leaves t = rc_evictable_leaves s"
    "rc_evictable_size t = rc_evictable_size s" "rc_protected_size t = rc_protected_size s"
    using eff by (simp_all add: split_effect_def same_globals_def)
  have mN: "m \<notin> N" using struct_okD(6) [OF st] m by blast
  have pN: "p \<in> N" "p \<noteq> c" using parent_live [OF st c p] by simp_all
  have neq: "m \<noteq> ?r" "m \<noteq> c" "m \<noteq> p" using mN struct_okD(2) [OF st] c(1) pN(1) by auto
  have no_m: "par s x \<noteq> Some m" if "x \<in> N" "x \<noteq> ?r" for x using parent_live [OF st that] mN by blast
  let ?K = "\<lambda>n. {x. x \<in> N - {?r} \<and> par s x = Some n}" and ?K' = "\<lambda>n. {x. x \<in> insert m N - {?r} \<and> par t x = Some n}"
  have fin: "finite (?K n)" for n using struct_okD(1) [OF st] by simp
  have K'm: "?K' m = {c}" using neq c no_m by (auto simp: par)
  have K'p: "?K' p = insert m (?K p - {c})" using neq by (auto simp: par)
  have K'n: "?K' n = ?K n" if "n \<noteq> m" "n \<noteq> p" for n using that p mN by (auto simp: par)
  have cK: "c \<in> ?K p" using c p by simp
  have sum: "(\<Sum>x \<in> ?K' n. lockof t x) = (\<Sum>x \<in> ?K n. lockof s x)" if "n \<noteq> m" for n
  proof (cases "n = p")
    case True
    have "(\<Sum>x \<in> ?K' p. lockof t x) = lockof s c + (\<Sum>x \<in> ?K p - {c}. lockof t x)"
      unfolding K'p using fin mN by (subst sum.insert) (auto simp: lock)
    also have "(\<Sum>x \<in> ?K p - {c}. lockof t x) = (\<Sum>x \<in> ?K p - {c}. lockof s x)"
      using mN by (intro sum.cong) (auto simp: lock)
    also have "lockof s c + \<dots> = (\<Sum>x \<in> ?K p. lockof s x)" using sum.remove [OF fin cK, of "lockof s"] by simp
    finally show ?thesis using True by simp
  next
    case False
    with that K'n show ?thesis using mN by (intro sum.cong) (auto simp: lock)
  qed
  have "locks_ok (insert m N) L t"
    unfolding locks_ok_def glob
  proof (intro conjI ballI allI impI)
    fix n assume n: "n \<in> insert m N - {?r}"
    show "0 \<le> lockof t n" using n c locks_okD(3) [OF lk] by (auto simp: lock)
    show "lockof t n = int (L n) + (\<Sum>x | x \<in> insert m N - {?r} \<and> par t x = Some n. lockof t x)"
    proof (cases "n = m")
      case True
      then show ?thesis using locks_okD(2) [OF lk mN] neq by (simp only: K'm) (simp add: lock)
    next
      case False
      then show ?thesis using n locks_okD(4) [OF lk] by (simp only: sum [OF False]) (simp add: lock)
    qed
  qed (use locks_okD(1,2) [OF lk] neq in \<open>auto simp: lock\<close>)
  moreover have "sizes_ok (insert m N) t"
  proof -
    define A where "A = N - {?r} - {c}"
    have A: "insert m N - {?r} = insert m (insert c A)" "N - {?r} = insert c A"
      using neq c by (auto simp: A_def)
    have fA: "finite A" "c \<notin> A" "m \<notin> insert c A" and mA: "m \<notin> A"
      using struct_okD(1) [OF st] mN neq by (auto simp: A_def)
    have len: "rk_len (keyof t c) = rk_len (keyof s c) - j" "rk_len (keyof t m) = j"
      using j(2) neq by (simp_all add: key)
    have "(\<Sum>n \<in> insert m N - {?r}. if lockof t n = 0 then int (rk_len (keyof t n)) else 0) =
        (\<Sum>n \<in> N - {?r}. if lockof s n = 0 then int (rk_len (keyof s n)) else 0)"
      unfolding A using j(2) neq mA fA(2) by (intro sum_split [OF fA]) (auto simp: len lock key)
    moreover have "(\<Sum>n \<in> insert m N - {?r}. if lockof t n = 0 then 0 else int (rk_len (keyof t n))) =
        (\<Sum>n \<in> N - {?r}. if lockof s n = 0 then 0 else int (rk_len (keyof s n)))"
      unfolding A using j(2) neq mA fA(2) by (intro sum_split [OF fA]) (auto simp: len lock key)
    ultimately show ?thesis using sz by (simp add: sizes_ok_def glob)
  qed
  moreover have "leaves_ok (insert m N) t"
  proof -
    have "kids_of s p \<noteq> []" using kids_empty_iff [OF st pN(1)] cK by auto
    then have "kids_of t n = [] \<longleftrightarrow> n \<noteq> m \<and> kids_of s n = []" for n
      using eff unfolding split_effect_def by (metis dict_set.simps list.distinct(1) neq_Nil_conv old.prod.exhaust)
    then show ?thesis using lv mN unfolding leaves_ok_def glob by (auto simp: lock)
  qed
  ultimately show ?thesis
    using split_struct [OF st c p j m eff] by (simp add: tree_inv_def)
qed

section \<open>Adding a leaf\<close>

definition attach_effect :: "radix \<Rightarrow> nat \<Rightarrow> radix_key \<Rightarrow> kv_index list \<Rightarrow> nat \<Rightarrow> radix \<Rightarrow> bool" where
  "attach_effect s p k v m t \<longleftrightarrow>
     (\<forall>n. kids_of t n = (if n = m then [] else if n = p then dict_set (ckey (rc_page_size s) k) m (kids_of s p)
        else kids_of s n)) \<and>
     (\<forall>n. par t n = (if n = m then Some p else par s n)) \<and>
     (\<forall>n. keyof t n = (if n = m then k else keyof s n)) \<and>
     (\<forall>n. valof t n = (if n = m then Some v else valof s n)) \<and>
     (\<forall>n. lockof t n = (if n = m then 0 else lockof s n)) \<and>
     same_globals s t \<and> rc_counter s \<le> rc_counter t \<and> m < rc_counter t \<and> rc_alloc t = rc_alloc s \<and>
     rc_evictable_size t = rc_evictable_size s + int (rk_len k) \<and> rc_protected_size t = rc_protected_size s"

lemma attach_struct:
  assumes st: "struct_ok N s" and p: "p \<in> N"
    and k: "0 < rk_len k" "rc_page_size s dvd rk_len k" "is_bigram k = rc_is_eagle s" "length v = rk_len k"
    and ex: "p \<noteq> rc_root s \<Longrightarrow> extra_key k = extra_key (keyof s p)"
    and new: "dict_get (kids_of s p) (ckey (rc_page_size s) k) = None"
    and mN: "m \<notin> N" and eff: "attach_effect s p k v m t"
  shows "struct_ok (insert m N) t"
proof -
  let ?ps = "rc_page_size s" and ?r = "rc_root s"
  have kids: "kids_of t n = (if n = m then [] else if n = p then dict_set (ckey ?ps k) m (kids_of s p) else kids_of s n)"
    and par: "par t n = (if n = m then Some p else par s n)"
    and key: "keyof t n = (if n = m then k else keyof s n)"
    and val: "valof t n = (if n = m then Some v else valof s n)" for n
    using eff unfolding attach_effect_def by blast+
  have glob: "rc_root t = ?r" "rc_page_size t = ?ps" "rc_is_eagle t = rc_is_eagle s"
    and cnt: "rc_counter s \<le> rc_counter t" "m < rc_counter t"
    using eff by (simp_all add: attach_effect_def same_globals_def)
  have neq: "m \<noteq> ?r" "m \<noteq> p" using mN struct_okD(2) [OF st] p by auto
  have no_m: "par s x \<noteq> Some m" if "x \<in> N" "x \<noteq> ?r" for x using parent_live [OF st that] mN by blast
  have node: "node_ok t n" if "n \<in> insert m N - {?r}" for n
    using that k struct_okD(8) [OF st, of n] by (cases "n = m") (auto simp: node_ok_def key val glob)
  have parent: "\<exists>q \<in> insert m N. par t n = Some q \<and> (q \<noteq> ?r \<longrightarrow> extra_key (keyof t n) = extra_key (keyof t q))"
    if nN: "n \<in> insert m N - {?r}" for n
  proof (cases "n = m")
    case True
    then show ?thesis using p neq ex by (auto simp: par key)
  next
    case False
    then obtain q where "q \<in> N" "par s n = Some q" "q \<noteq> ?r \<Longrightarrow> extra_key (keyof s n) = extra_key (keyof s q)"
      using parent_exists [OF st, of n] nN by (metis DiffD1 DiffD2 insert_iff)
    then show ?thesis using False mN by (intro bexI [of _ q]) (auto simp: par key)
  qed
  have dict: "dict_get (kids_of t n) ck = Some x \<longleftrightarrow>
      x \<in> insert m N - {?r} \<and> par t x = Some n \<and> ck = ckey ?ps (keyof t x)" if nN: "n \<in> insert m N" for n ck x
  proof -
    consider "n = m" | "n = p" | "n \<in> N" "n \<noteq> m" "n \<noteq> p" using nN by blast
    then show ?thesis
    proof cases
      case 1
      then show ?thesis using neq no_m by (auto simp: kids par key)
    next
      case 2
      have "dict_get (kids_of s p) ck = Some x \<longleftrightarrow> x \<in> N - {?r} \<and> par s x = Some p \<and> ck = ckey ?ps (keyof s x)"
        by (rule struct_okD(9) [OF st p])
      then show ?thesis using 2 neq mN new by (auto simp: kids par key)
    next
      case 3
      have "dict_get (kids_of s n) ck = Some x \<longleftrightarrow> x \<in> N - {?r} \<and> par s x = Some n \<and> ck = ckey ?ps (keyof s x)"
        by (rule struct_okD(9) [OF st 3(1)])
      then show ?thesis using 3 neq mN by (auto simp: kids par key)
    qed
  qed
  from st obtain rk :: "nat \<Rightarrow> nat" where rk: "\<forall>n \<in> N - {?r}. \<forall>p. par s n = Some p \<longrightarrow> rk p < rk n"
    unfolding struct_ok_def by blast
  have rank: "(rk(m := Suc (rk p))) q < (rk(m := Suc (rk p))) n"
    if "n \<in> insert m N - {?r}" "par t n = Some q" for n q
    using that rk neq no_m by (auto simp: par split: if_splits)
  show ?thesis
    unfolding struct_ok_def glob
  proof (intro conjI ballI allI)
    show "\<exists>rk :: nat \<Rightarrow> nat. \<forall>n \<in> insert m N - {?r}. \<forall>p. par t n = Some p \<longrightarrow> rk p < rk n" using rank by blast
    show "n < rc_counter t" if "n \<in> insert m N" for n using that struct_okD(6) [OF st] cnt by fastforce
    show "dict_ok (kids_of t n)" if "n \<in> insert m N" for n
      using that struct_okD(7) [OF st] p by (auto simp: kids)
    show "dict_get (kids_of t n) ck = Some x \<longleftrightarrow>
        x \<in> insert m N - {?r} \<and> par t x = Some n \<and> ck = ckey ?ps (keyof t x)" if "n \<in> insert m N" for n ck x
      by (rule dict [OF that])
  qed (use struct_okD(1-5) [OF st] neq node parent in \<open>auto simp: par val\<close>)
qed

lemma struct_ok_leaves [simp]: "struct_ok N (s\<lparr>rc_evictable_leaves := xs\<rparr>) = struct_ok N s"
  by (simp add: struct_ok_def node_ok_def)

lemma dict_set_neq_Nil [simp]: "dict_set k v d \<noteq> []"
  by (cases d) (auto split: if_splits)

lemma add_leaf_effect:
  assumes st: "struct_ok N s" and p: "p \<in> N"
    and k: "0 < rk_len k" "rc_page_size s dvd rk_len k" "is_bigram k = rc_is_eagle s" "length v = rk_len k"
    and ex: "p \<noteq> rc_root s \<Longrightarrow> extra_key k = extra_key (keyof s p)"
    and new: "dict_get (kids_of s p) (ckey (rc_page_size s) k) = None"
    and leaves: "set (rc_evictable_leaves s) \<subseteq> N"
    and run: "add_leaf p k v (ckey (rc_page_size s) k) prio chunked s = (res, t)"
  shows "attach_effect s p k v (rc_counter s) t \<and>
    rc_evictable_leaves t = rc_counter s # removeAll p (rc_evictable_leaves s)"
proof -
  let ?m = "rc_counter s" and ?ck = "ckey (rc_page_size s) k"
  obtain s1 where n: "new_tree_node prio s = (?m, s1)" by (simp add: new_tree_node_eq)
  define s2 where "s2 = upd_node ?m (\<lambda>nd. nd\<lparr>nd_parent := Some p, nd_key := k, nd_value := Some v\<rparr>) s1"
  define s3 where "s3 = inc_hit_count chunked ?m s2"
  define s4 where "s4 = upd_node p (\<lambda>nd. nd\<lparr>nd_children := dict_set ?ck ?m (nd_children nd)\<rparr>) s3"
  define s5 where "s5 = s4\<lparr>rc_evictable_size := rc_evictable_size s4 + int (rk_len k)\<rparr>"
  have pm: "p \<noteq> ?m" and mN: "?m \<notin> N" using struct_okD(6) [OF st] p by blast+
  have eff2: "kids_of s2 x = (if x = ?m then [] else kids_of s x)" "par s2 x = (if x = ?m then Some p else par s x)"
    "keyof s2 x = (if x = ?m then k else keyof s x)" "valof s2 x = (if x = ?m then Some v else valof s x)"
    "lockof s2 x = (if x = ?m then 0 else lockof s x)" for x
    using n by (auto simp: s2_def upd_node_def new_tree_node_eq)
  have g2: "same_globals s s2" "rc_counter s2 = Suc ?m" "rc_alloc s2 = rc_alloc s"
    "rc_evictable_size s2 = rc_evictable_size s" "rc_protected_size s2 = rc_protected_size s"
    "rc_evictable_leaves s2 = rc_evictable_leaves s"
    using n by (auto simp: s2_def upd_node_def new_tree_node_eq same_globals_def)
  note f3 = same_shape_fields [OF same_shape_hit, of chunked ?m s2, folded s3_def]
  have g3: "same_globals s s3" using g2(1) same_shape_globals [OF same_shape_hit] same_globals_trans s3_def by metis
  have eff5: "attach_effect s p k v ?m s5"
    using pm g3 by (auto simp: attach_effect_def s5_def s4_def upd_node_def eff2 f3 g2 same_globals_def)
  have l5: "rc_evictable_leaves s5 = rc_evictable_leaves s" by (simp add: s5_def s4_def upd_node_def f3 g2)
  have st5: "struct_ok (insert ?m N) s5" by (rule attach_struct [OF st p k ex new mN eff5]) simp_all
  let ?l1 = "removeAll p (rc_evictable_leaves s)"
  have kp: "kids_of s5 p \<noteq> []" and km: "kids_of s5 ?m = []" "lockof s5 ?m = 0"
    using eff5 pm by (auto simp: attach_effect_def)
  have u1: "update_leaf_status p s5 = s5\<lparr>rc_evictable_leaves := ?l1\<rparr>"
    using update_leaf_status_live [OF st5, of p] p kp by (simp add: l5)
  have "?m \<notin> set ?l1" using leaves struct_okD(6) [OF st] by fastforce
  then have u2: "update_leaf_status ?m (update_leaf_status p s5) = s5\<lparr>rc_evictable_leaves := ?m # ?l1\<rparr>"
    unfolding u1 using update_leaf_status_live [of "insert ?m N" "s5\<lparr>rc_evictable_leaves := ?l1\<rparr>" ?m] st5 km by simp
  have "record_store_event ?m None (s5\<lparr>rc_evictable_leaves := ?m # ?l1\<rparr>) = (res, t)"
    using run unfolding add_leaf_def Let_def n prod.case
    by (simp add: s2_def [symmetric] s3_def [symmetric] s4_def [symmetric] s5_def [symmetric] u2)
  note ft = same_shape_fields [OF same_shape_record_store [OF this]] same_shape_globals [OF same_shape_record_store [OF this]]
  have "attach_effect s p k v ?m t"
    using eff5 ft unfolding attach_effect_def by (simp add: same_globals_def)
  then show ?thesis by (simp add: ft(13))
qed

lemma attach_inv:
  assumes inv: "tree_inv N L s" and p: "p \<in> N"
    and k: "0 < rk_len k" "rc_page_size s dvd rk_len k" "is_bigram k = rc_is_eagle s" "length v = rk_len k"
    and ex: "p \<noteq> rc_root s \<Longrightarrow> extra_key k = extra_key (keyof s p)"
    and new: "dict_get (kids_of s p) (ckey (rc_page_size s) k) = None"
    and mN: "m \<notin> N" and eff: "attach_effect s p k v m t"
    and leaves: "rc_evictable_leaves t = m # removeAll p (rc_evictable_leaves s)"
  shows "tree_inv (insert m N) L t"
proof -
  let ?r = "rc_root s"
  have st: "struct_ok N s" and lk: "locks_ok N L s" and sz: "sizes_ok N s" and lv: "leaves_ok N s"
    using inv by (auto simp: tree_inv_def)
  have kids: "kids_of t n = (if n = m then [] else if n = p then dict_set (ckey (rc_page_size s) k) m (kids_of s p) else kids_of s n)"
    and par: "par t n = (if n = m then Some p else par s n)"
    and key: "keyof t n = (if n = m then k else keyof s n)"
    and lock: "lockof t n = (if n = m then 0 else lockof s n)" for n
    using eff unfolding attach_effect_def by blast+
  have glob: "rc_root t = ?r" "rc_evictable_size t = rc_evictable_size s + int (rk_len k)"
    "rc_protected_size t = rc_protected_size s"
    using eff by (simp_all add: attach_effect_def same_globals_def)
  have neq: "m \<noteq> ?r" "m \<noteq> p" using mN struct_okD(2) [OF st] p by auto
  have no_m: "par s x \<noteq> Some m" if "x \<in> N" "x \<noteq> ?r" for x using parent_live [OF st that] mN by blast
  have fin: "finite (N - {?r})" using struct_okD(1) [OF st] by simp
  let ?K = "\<lambda>n. {x. x \<in> N - {?r} \<and> par s x = Some n}" and ?K' = "\<lambda>n. {x. x \<in> insert m N - {?r} \<and> par t x = Some n}"
  have K': "?K' n = (if n = m then {} else if n = p then insert m (?K p) else ?K n)" for n
    using neq no_m mN by (auto simp: par)
  have sum: "(\<Sum>x \<in> ?K' n. lockof t x) = (if n = m then 0 else \<Sum>x \<in> ?K n. lockof s x)" for n
  proof -
    have "(\<Sum>x \<in> ?K n. lockof t x) = (\<Sum>x \<in> ?K n. lockof s x)" for n using mN by (intro sum.cong) (auto simp: lock)
    moreover have "(\<Sum>x \<in> insert m (?K p). lockof t x) = (\<Sum>x \<in> ?K p. lockof t x)"
      using struct_okD(1) [OF st] mN by (subst sum.insert) (auto simp: lock)
    ultimately show ?thesis unfolding K' using neq by simp
  qed
  have "locks_ok (insert m N) L t"
    unfolding locks_ok_def glob sum
  proof (intro conjI allI impI ballI)
    show "0 < lockof t ?r" using locks_okD(1) [OF lk] neq(1) by (simp add: lock)
    show "L n = 0" if "n \<notin> insert m N" for n using locks_okD(2) [OF lk] that by blast
    fix n assume "n \<in> insert m N - {?r}"
    then consider "n = m" | "n \<in> N" "n \<noteq> ?r" "n \<noteq> m" using mN by blast
    then have "0 \<le> lockof t n \<and> lockof t n = int (L n) + (if n = m then 0 else \<Sum>x \<in> ?K n. lockof s x)"
    proof cases
      case 1
      then show ?thesis using locks_okD(2) [OF lk mN] by (simp add: lock)
    next
      case 2
      then show ?thesis using locks_okD(3,4) [OF lk 2(1,2)] by (simp add: lock)
    qed
    then show "0 \<le> lockof t n" "lockof t n = int (L n) + (if n = m then 0 else \<Sum>x \<in> ?K n. lockof s x)" by blast+
  qed
  moreover have "sizes_ok (insert m N) t"
  proof -
    have "insert m N - {?r} = insert m (N - {?r})" using neq by auto
    moreover have "(\<Sum>n \<in> N - {?r}. if lockof t n = 0 then int (rk_len (keyof t n)) else 0) =
        (\<Sum>n \<in> N - {?r}. if lockof s n = 0 then int (rk_len (keyof s n)) else 0)"
      using mN by (intro sum.cong) (auto simp: lock key)
    moreover have "(\<Sum>n \<in> N - {?r}. if lockof t n = 0 then 0 else int (rk_len (keyof t n))) =
        (\<Sum>n \<in> N - {?r}. if lockof s n = 0 then 0 else int (rk_len (keyof s n)))"
      using mN by (intro sum.cong) (auto simp: lock key)
    ultimately show ?thesis
      using sz fin mN lock [of m] key [of m] by (simp add: sizes_ok_def glob)
  qed
  moreover have "leaves_ok (insert m N) t"
  proof -
    have "kids_of t n = [] \<longleftrightarrow> n = m \<or> n \<noteq> p \<and> kids_of s n = []" for n using neq by (simp add: kids)
    then show ?thesis using lv mN neq unfolding leaves_ok_def glob leaves by (auto simp: lock distinct_removeAll)
  qed
  ultimately show ?thesis
    using attach_struct [OF st p k ex new mN eff] by (simp add: tree_inv_def)
qed

section \<open>Deleting a leaf\<close>

definition detach_effect :: "radix \<Rightarrow> nat \<Rightarrow> nat \<Rightarrow> radix \<Rightarrow> bool" where
  "detach_effect s x p t \<longleftrightarrow>
     (\<forall>n. kids_of t n = (if n = p then dict_pop (ckey (rc_page_size s) (keyof s x)) (kids_of s p) else kids_of s n)) \<and>
     (\<forall>n. par t n = par s n) \<and> (\<forall>n. keyof t n = keyof s n) \<and> (\<forall>n. valof t n = valof s n) \<and>
     (\<forall>n. lockof t n = lockof s n) \<and>
     same_globals s t \<and> rc_counter t = rc_counter s \<and>
     rc_evictable_size t = rc_evictable_size s - int (rk_len (keyof s x)) \<and> rc_protected_size t = rc_protected_size s"

lemma detach_struct:
  assumes st: "struct_ok N s" and x: "x \<in> N" "x \<noteq> rc_root s" "kids_of s x = []" and p: "par s x = Some p"
    and eff: "detach_effect s x p t"
  shows "struct_ok (N - {x}) t"
proof -
  let ?ps = "rc_page_size s" and ?r = "rc_root s"
  have kids: "kids_of t n = (if n = p then dict_pop (ckey ?ps (keyof s x)) (kids_of s p) else kids_of s n)"
    and par: "par t n = par s n" and key: "keyof t n = keyof s n" and val: "valof t n = valof s n" for n
    using eff unfolding detach_effect_def by blast+
  have glob: "rc_root t = ?r" "rc_page_size t = ?ps" "rc_is_eagle t = rc_is_eagle s" "rc_counter t = rc_counter s"
    using eff by (simp_all add: detach_effect_def same_globals_def)
  have pN: "p \<in> N" "p \<noteq> x" using parent_live [OF st x(1,2) p] by simp_all
  have no_x: "par s n \<noteq> Some x" if "n \<in> N" "n \<noteq> ?r" for n
    using kids_empty_iff [OF st x(1)] x(3) that by blast
  have dict: "dict_get (kids_of t n) ck = Some c \<longleftrightarrow>
      c \<in> N - {x} - {?r} \<and> par t c = Some n \<and> ck = ckey ?ps (keyof t c)" if nN: "n \<in> N - {x}" for n ck c
  proof -
    have d: "dict_get (kids_of s n) ck = Some c \<longleftrightarrow> c \<in> N - {?r} \<and> par s c = Some n \<and> ck = ckey ?ps (keyof s c)"
      using nN by (intro struct_okD(9) [OF st]) simp
    show ?thesis
    proof (cases "n = p")
      case True
      have "c = x" if "c \<in> N - {?r}" "par s c = Some p" "ckey ?ps (keyof s c) = ckey ?ps (keyof s x)"
        using sibling_keys [OF st _ _ x(1,2) that(2) p that(3)] that(1) by simp
      then show ?thesis using True d p by (auto simp: kids par key)
    next
      case False
      then show ?thesis using d p by (auto simp: kids par key)
    qed
  qed
  show ?thesis
    unfolding struct_ok_def glob
  proof (intro conjI ballI allI)
    from st obtain rk :: "nat \<Rightarrow> nat" where "\<forall>n \<in> N - {?r}. \<forall>p. par s n = Some p \<longrightarrow> rk p < rk n"
      unfolding struct_ok_def by blast
    then show "\<exists>rk :: nat \<Rightarrow> nat. \<forall>n \<in> N - {x} - {?r}. \<forall>p. par t n = Some p \<longrightarrow> rk p < rk n" by (auto simp: par)
    show "dict_ok (kids_of t n)" if "n \<in> N - {x}" for n using that struct_okD(7) [OF st] pN by (auto simp: kids)
    show "dict_get (kids_of t n) ck = Some c \<longleftrightarrow>
        c \<in> N - {x} - {?r} \<and> par t c = Some n \<and> ck = ckey ?ps (keyof t c)" if "n \<in> N - {x}" for n ck c
      by (rule dict [OF that])
    fix n assume n: "n \<in> N - {x} - {?r}"
    then show "node_ok t n" using struct_okD(8) [OF st, of n] by (simp add: node_ok_def key val glob)
    obtain q where "q \<in> N" "par s n = Some q" "q \<noteq> ?r \<Longrightarrow> extra_key (keyof s n) = extra_key (keyof s q)"
      using parent_exists [OF st, of n] n by (metis DiffD1 DiffD2 insert_iff)
    then show "\<exists>q \<in> N - {x}. par t n = Some q \<and> (q \<noteq> ?r \<longrightarrow> extra_key (keyof t n) = extra_key (keyof t q))"
      using n no_x by (intro bexI [of _ q]) (auto simp: par key)
  qed (use struct_okD [OF st] x in \<open>auto simp: par val\<close>)
qed

lemma delete_leaf_effect:
  assumes inv: "tree_inv N L s" and x: "x \<in> N" "x \<noteq> rc_root s" "kids_of s x = []" and p: "par s x = Some p"
  shows "\<exists>t. delete_leaf x s = (Inr (), t) \<and> detach_effect s x p t \<and> rc_alloc t = rc_alloc s \<and>
    rc_evictable_leaves t =
      (let l = removeAll x (rc_evictable_leaves s)
       in if 0 < lockof s p \<or> kids_of t p \<noteq> [] then removeAll p l else if p \<in> set l then l else p # l)"
proof -
  let ?ck = "ckey (rc_page_size s) (keyof s x)"
  have st: "struct_ok N s" using inv by (simp add: tree_inv_def)
  have pN: "p \<in> N" "p \<noteq> x" using parent_live [OF st x(1,2) p] by simp_all
  have get: "dict_get (kids_of s p) ?ck = Some x" using struct_okD(9) [OF st pN(1)] x p by simp
  define s1 where "s1 = upd_node p (\<lambda>pn. pn\<lparr>nd_children := dict_pop ?ck (nd_children pn)\<rparr>) s"
  define s3 where "s3 = discard_leaf x (s1\<lparr>rc_evictable_size := rc_evictable_size s1 - int (rk_len (keyof s x))\<rparr>)"
  have eff: "detach_effect s x p s3"
    by (auto simp: detach_effect_def s3_def s1_def upd_node_def discard_leaf_def same_globals_def)
  have st3: "struct_ok (N - {x}) s3" by (rule detach_struct [OF st x p eff])
  have "delete_leaf x s = (Inr (), update_leaf_status p s3)"
    unfolding delete_leaf_def Let_def child_key_node [OF st x(1,2)] p
    using get by (simp add: s3_def s1_def)
  moreover have "update_leaf_status p s3 = s3\<lparr>rc_evictable_leaves :=
      (if 0 < lockof s3 p \<or> kids_of s3 p \<noteq> [] then removeAll p (rc_evictable_leaves s3)
       else if p \<in> set (rc_evictable_leaves s3) then rc_evictable_leaves s3 else p # rc_evictable_leaves s3)\<rparr>"
    using update_leaf_status_live [OF st3] pN by simp
  moreover have "rc_evictable_leaves s3 = removeAll x (rc_evictable_leaves s)" "rc_alloc s3 = rc_alloc s" "lockof s3 p = lockof s p"
    by (simp_all add: s3_def s1_def upd_node_def discard_leaf_def)
  moreover have "detach_effect s x p (s3\<lparr>rc_evictable_leaves := l\<rparr>)" for l
    using eff by (simp add: detach_effect_def same_globals_def)
  ultimately show ?thesis by (simp add: Let_def)
qed

lemma detach_inv:
  assumes inv: "tree_inv N L s" and x: "x \<in> N" "x \<noteq> rc_root s" "kids_of s x = []" and p: "par s x = Some p"
    and lock0: "lockof s x = 0"
    and eff: "detach_effect s x p t"
    and leaves: "rc_evictable_leaves t =
      (let l = removeAll x (rc_evictable_leaves s)
       in if 0 < lockof s p \<or> kids_of t p \<noteq> [] then removeAll p l else if p \<in> set l then l else p # l)"
  shows "tree_inv (N - {x}) L t"
proof -
  let ?r = "rc_root s"
  have st: "struct_ok N s" and lk: "locks_ok N L s" and sz: "sizes_ok N s" and lv: "leaves_ok N s"
    using inv by (auto simp: tree_inv_def)
  have kids: "kids_of t n = (if n = p then dict_pop (ckey (rc_page_size s) (keyof s x)) (kids_of s p) else kids_of s n)"
    and par: "par t n = par s n" and key: "keyof t n = keyof s n" and lock: "lockof t n = lockof s n" for n
    using eff unfolding detach_effect_def by blast+
  have glob: "rc_root t = ?r" "rc_evictable_size t = rc_evictable_size s - int (rk_len (keyof s x))"
    "rc_protected_size t = rc_protected_size s"
    using eff by (simp_all add: detach_effect_def same_globals_def)
  have pN: "p \<in> N" "p \<noteq> x" using parent_live [OF st x(1,2) p] by simp_all
  have fin: "finite (N - {?r})" using struct_okD(1) [OF st] by simp
  have no_x: "par s n \<noteq> Some x" if "n \<in> N" "n \<noteq> ?r" for n
    using kids_empty_iff [OF st x(1)] x(3) that by blast
  have "{c. c \<in> N - {?r} \<and> par s c = Some x} = {}" using no_x by auto
  then have "int (L x) = 0" using locks_okD(4) [OF lk x(1,2)] lock0 by (simp only: sum.empty)
  have sum: "(\<Sum>c | c \<in> N - {x} - {?r} \<and> par t c = Some n. lockof t c) =
      (\<Sum>c | c \<in> N - {?r} \<and> par s c = Some n. lockof s c)" for n
    using fin lock0 by (intro sum.mono_neutral_cong_left) (auto simp: par lock)
  have "locks_ok (N - {x}) L t"
    unfolding locks_ok_def glob sum using locks_okD [OF lk] \<open>int (L x) = 0\<close> by (auto simp: lock)
  moreover have "sizes_ok (N - {x}) t"
  proof -
    define A where "A = N - {x} - {?r}"
    have A: "N - {?r} = insert x A" "x \<notin> A" "finite A" using x fin by (auto simp: A_def)
    show ?thesis using sz lock0 A unfolding sizes_ok_def glob A_def [symmetric] lock key by simp
  qed
  moreover have "leaves_ok (N - {x}) t"
  proof -
    have lp: "lockof s p = 0 \<or> 0 < lockof s p" using locks_okD(1,3) [OF lk] pN by (metis less_le)
    have pr: "p \<noteq> ?r" if "lockof s p = 0" using that locks_okD(1) [OF lk] by auto
    have dist: "distinct (rc_evictable_leaves t)"
      using lv by (simp add: leaves_ok_def leaves Let_def distinct_removeAll)
    have set: "set (rc_evictable_leaves t) = (if 0 < lockof s p \<or> kids_of t p \<noteq> []
        then set (rc_evictable_leaves s) - {x} - {p} else insert p (set (rc_evictable_leaves s) - {x}))"
      unfolding leaves Let_def by auto
    have old: "set (rc_evictable_leaves s) = {n \<in> N - {?r}. lockof s n = 0 \<and> kids_of s n = []}"
      using lv by (simp add: leaves_ok_def)
    have "y \<in> set (rc_evictable_leaves t) \<longleftrightarrow> y \<in> N - {x} - {?r} \<and> lockof s y = 0 \<and> kids_of t y = []" for y
    proof (cases "y = p")
      case True
      then show ?thesis using set lp pr pN by auto
    next
      case False
      then have "kids_of t y = kids_of s y" by (simp add: kids)
      then show ?thesis using False unfolding set old by auto
    qed
    then show ?thesis using dist unfolding leaves_ok_def glob lock by blast
  qed
  ultimately show ?thesis
    using detach_struct [OF st x p eff] by (simp add: tree_inv_def)
qed

end
