(* ===== verification/Radix_Locks.thy ===== *)
theory Radix_Locks
  imports Radix_Inv
begin

text \<open>
  Locking and unlocking a path of the radix tree (\<^verbatim>\<open>inc_lock_ref\<close>, \<^verbatim>\<open>dec_lock_ref\<close>): the loops
  end, keep the invariant, and change the lock count of exactly the nodes on the path.
\<close>

section \<open>One step of a lock loop\<close>

text \<open>The lock counts while a loop that adds \<open>d\<close> has reached the node \<open>cur\<close>.\<close>

definition locks_pend :: "nat set \<Rightarrow> (nat \<Rightarrow> nat) \<Rightarrow> radix \<Rightarrow> nat \<Rightarrow> int \<Rightarrow> bool" where
  "locks_pend N L s cur d \<longleftrightarrow> 0 < lockof s (rc_root s) \<and> (\<forall>n. n \<notin> N \<longrightarrow> L n = 0) \<and>
     (\<forall>n \<in> N - {rc_root s}. 0 \<le> lockof s n \<and>
        lockof s n + (if n = cur then d else 0) =
          int (L n) + (\<Sum>c | c \<in> N - {rc_root s} \<and> par s c = Some n. lockof s c))"

definition pend_inv :: "nat set \<Rightarrow> (nat \<Rightarrow> nat) \<Rightarrow> radix \<Rightarrow> nat \<Rightarrow> int \<Rightarrow> bool" where
  "pend_inv N L s cur d \<longleftrightarrow> struct_ok N s \<and> locks_pend N L s cur d \<and> sizes_ok N s \<and> leaves_ok N s"

lemma pend_inv_root: "pend_inv N L s (rc_root s) d \<longleftrightarrow> tree_inv N L s"
  by (auto simp: pend_inv_def tree_inv_def locks_pend_def locks_ok_def)

lemma pend_invI:
  assumes "tree_inv N L s" and "\<And>x. x \<notin> N \<Longrightarrow> L' x = L x"
    and "\<And>x. int (L' x) = int (L x) + (if x = n then d else 0)"
  shows "pend_inv N L' s n d"
proof -
  have lk: "locks_ok N L s" using assms(1) by (simp add: tree_inv_def)
  have "locks_pend N L' s n d"
    unfolding locks_pend_def
  proof (intro conjI ballI allI impI)
    fix x assume x: "x \<in> N - {rc_root s}"
    then show "0 \<le> lockof s x" using locks_okD(3) [OF lk] by blast
    have "lockof s x = int (L x) + (\<Sum>c | c \<in> N - {rc_root s} \<and> par s c = Some x. lockof s c)"
      using x locks_okD(4) [OF lk] by blast
    then show "lockof s x + (if x = n then d else 0) =
        int (L' x) + (\<Sum>c | c \<in> N - {rc_root s} \<and> par s c = Some x. lockof s c)"
      using assms(3) [of x] by linarith
  qed (use locks_okD(1,2) [OF lk] assms(2) in auto)
  then show ?thesis using assms(1) by (simp add: pend_inv_def tree_inv_def)
qed

lemma pend_inv_inc:
  assumes "tree_inv N L s" and "n \<in> N" and "n \<noteq> rc_root s"
  shows "pend_inv N (L(n := Suc (L n))) s n 1"
  using assms by (intro pend_invI [OF assms(1)]) auto

lemma pend_inv_dec:
  assumes "tree_inv N L s" and "n \<in> N" and "n \<noteq> rc_root s" and "0 < L n"
  shows "pend_inv N (L(n := L n - 1)) s n (- 1)"
  using assms by (intro pend_invI [OF assms(1)]) auto

text \<open>The effect of the body of a loop at the node \<open>n\<close>.\<close>

definition bump_effect :: "radix \<Rightarrow> nat \<Rightarrow> int \<Rightarrow> radix \<Rightarrow> bool" where
  "bump_effect s n d t \<longleftrightarrow>
     (\<forall>x. kids_of t x = kids_of s x \<and> par t x = par s x \<and> keyof t x = keyof s x \<and> valof t x = valof s x) \<and>
     (\<forall>x. lockof t x = lockof s x + (if x = n then d else 0)) \<and>
     same_globals s t \<and> rc_counter t = rc_counter s \<and> rc_alloc t = rc_alloc s \<and>
     rc_evictable_size t = rc_evictable_size s - (if lockof s n = 0 then int (rk_len (keyof s n)) else 0)
       + (if lockof s n + d = 0 then int (rk_len (keyof s n)) else 0) \<and>
     rc_protected_size t = rc_protected_size s - (if lockof s n = 0 then 0 else int (rk_len (keyof s n)))
       + (if lockof s n + d = 0 then 0 else int (rk_len (keyof s n))) \<and>
     rc_evictable_leaves t =
       (if 0 < lockof t n \<or> kids_of s n \<noteq> [] then removeAll n (rc_evictable_leaves s)
        else if n \<in> set (rc_evictable_leaves s) then rc_evictable_leaves s
        else n # rc_evictable_leaves s)"

lemma bump_struct:
  assumes "struct_ok N s" and "bump_effect s n d t"
  shows "struct_ok N t"
proof -
  have f: "kids_of t x = kids_of s x" "par t x = par s x" "keyof t x = keyof s x" "valof t x = valof s x"
    "rc_root t = rc_root s" "rc_page_size t = rc_page_size s" "rc_is_eagle t = rc_is_eagle s"
    "rc_counter t = rc_counter s" for x
    using assms(2) by (auto simp: bump_effect_def same_globals_def)
  show ?thesis using assms(1) unfolding struct_ok_def node_ok_def f .
qed

lemma bump_inv:
  assumes inv: "pend_inv N L s n d" and n: "n \<in> N" "n \<noteq> rc_root s" and p: "par s n = Some p"
    and nonneg: "0 \<le> lockof s n + d" and eff: "bump_effect s n d t"
  shows "pend_inv N L t p d"
proof -
  let ?r = "rc_root s"
  have st: "struct_ok N s" and lk: "locks_pend N L s n d" and sz: "sizes_ok N s" and lv: "leaves_ok N s"
    using inv by (auto simp: pend_inv_def)
  have f: "kids_of t x = kids_of s x" "par t x = par s x" "keyof t x = keyof s x" for x
    using eff by (auto simp: bump_effect_def)
  have lock: "lockof t x = lockof s x + (if x = n then d else 0)" for x
    using eff by (auto simp: bump_effect_def)
  have root: "rc_root t = ?r" using eff by (simp add: bump_effect_def same_globals_def)
  have pn: "p \<noteq> n" using parent_live [OF st n p] by simp
  have fin: "finite (N - {?r})" using struct_okD(1) [OF st] by simp
  have sum: "(\<Sum>c | c \<in> N - {?r} \<and> par s c = Some x. lockof t c) =
      (\<Sum>c | c \<in> N - {?r} \<and> par s c = Some x. lockof s c) + (if x = p then d else 0)" for x
  proof -
    have "(\<Sum>c | c \<in> N - {?r} \<and> par s c = Some x. lockof t c) =
        (\<Sum>c | c \<in> N - {?r} \<and> par s c = Some x. lockof s c) + (\<Sum>c | c \<in> N - {?r} \<and> par s c = Some x. if c = n then d else 0)"
      by (simp only: lock sum.distrib)
    also have "(\<Sum>c | c \<in> N - {?r} \<and> par s c = Some x. if c = n then d else 0) = (if x = p then d else 0)"
      using fin n p by (subst sum.delta) auto
    finally show ?thesis .
  qed
  have "locks_pend N L t p d"
    unfolding locks_pend_def root f sum
  proof (intro conjI ballI allI impI)
    fix x assume x: "x \<in> N - {?r}"
    then have old: "0 \<le> lockof s x" "lockof s x + (if x = n then d else 0) =
        int (L x) + (\<Sum>c | c \<in> N - {?r} \<and> par s c = Some x. lockof s c)"
      using lk unfolding locks_pend_def by blast+
    show "0 \<le> lockof t x" using old(1) nonneg by (simp add: lock)
    show "lockof t x + (if x = p then d else 0) =
        int (L x) + ((\<Sum>c | c \<in> N - {?r} \<and> par s c = Some x. lockof s c) + (if x = p then d else 0))"
      using old(2) by (simp add: lock)
  qed (use lk n in \<open>auto simp: locks_pend_def lock\<close>)
  moreover have "sizes_ok N t"
  proof -
    define A where "A = N - {?r} - {n}"
    have A: "N - {?r} = insert n A" "n \<notin> A" "finite A" using n fin by (auto simp: A_def)
    have same: "(\<Sum>x \<in> A. if lockof t x = 0 then int (rk_len (keyof s x)) else 0) =
        (\<Sum>x \<in> A. if lockof s x = 0 then int (rk_len (keyof s x)) else 0)"
      "(\<Sum>x \<in> A. if lockof t x = 0 then 0 else int (rk_len (keyof s x))) =
        (\<Sum>x \<in> A. if lockof s x = 0 then 0 else int (rk_len (keyof s x)))"
      using A(2) by (intro sum.cong; auto simp: lock)+
    have sizes: "rc_evictable_size t = rc_evictable_size s - (if lockof s n = 0 then int (rk_len (keyof s n)) else 0)
         + (if lockof s n + d = 0 then int (rk_len (keyof s n)) else 0)"
      "rc_protected_size t = rc_protected_size s - (if lockof s n = 0 then 0 else int (rk_len (keyof s n)))
         + (if lockof s n + d = 0 then 0 else int (rk_len (keyof s n)))"
      using eff by (simp_all add: bump_effect_def)
    show ?thesis
      using sz A lock [of n] unfolding sizes_ok_def root f A(1) sum.insert [OF A(3,2)] same sizes by simp
  qed
  moreover have "leaves_ok N t"
  proof -
    have old: "set (rc_evictable_leaves s) = {x \<in> N - {?r}. lockof s x = 0 \<and> kids_of s x = []}"
      and dist: "distinct (rc_evictable_leaves s)" using lv by (simp_all add: leaves_ok_def)
    have new: "rc_evictable_leaves t = (if 0 < lockof t n \<or> kids_of s n \<noteq> [] then removeAll n (rc_evictable_leaves s)
        else if n \<in> set (rc_evictable_leaves s) then rc_evictable_leaves s else n # rc_evictable_leaves s)"
      using eff unfolding bump_effect_def by blast
    have "x \<in> set (rc_evictable_leaves t) \<longleftrightarrow> x \<in> N - {?r} \<and> lockof t x = 0 \<and> kids_of s x = []" for x
    proof (cases "x = n")
      case True
      then show ?thesis using new n nonneg lock [of n] by auto
    next
      case False
      then have "lockof t x = lockof s x" by (simp add: lock)
      then show ?thesis using False unfolding new old by (auto simp: old)
    qed
    moreover have "distinct (rc_evictable_leaves t)" using dist unfolding new by (simp add: distinct_removeAll)
    ultimately show ?thesis unfolding leaves_ok_def root f by blast
  qed
  ultimately show ?thesis using bump_struct [OF st eff] by (simp add: pend_inv_def)
qed

section \<open>The loops\<close>

text \<open>The nodes from \<open>n\<close> up to the root.\<close>

definition anc :: "radix \<Rightarrow> nat \<Rightarrow> nat \<Rightarrow> bool" where
  "anc s = (\<lambda>a b. par s a = Some b)\<^sup>*\<^sup>*"

lemma anc_refl [simp]: "anc s n n"
  by (simp add: anc_def)

lemma anc_step: "par s n = Some p \<Longrightarrow> anc s n x \<longleftrightarrow> x = n \<or> anc s p x"
  unfolding anc_def by (auto elim: converse_rtranclpE intro: converse_rtranclp_into_rtranclp)

lemma anc_root: "par s n = None \<Longrightarrow> anc s n x \<longleftrightarrow> x = n"
  unfolding anc_def by (auto elim: converse_rtranclpE intro: converse_rtranclp_into_rtranclp)

lemma anc_cong: "(\<And>x. par t x = par s x) \<Longrightarrow> anc t = anc s"
  by (simp add: anc_def)

text \<open>What a whole loop that adds \<open>d\<close> along the path from \<open>n\<close> changes.\<close>

definition lock_path_effect :: "radix \<Rightarrow> nat \<Rightarrow> int \<Rightarrow> radix \<Rightarrow> bool" where
  "lock_path_effect s n d t \<longleftrightarrow>
     (\<forall>x. kids_of t x = kids_of s x \<and> par t x = par s x \<and> keyof t x = keyof s x \<and> valof t x = valof s x) \<and>
     (\<forall>x. lockof t x = lockof s x + (if x \<noteq> rc_root s \<and> anc s n x then d else 0)) \<and>
     same_globals s t \<and> rc_counter t = rc_counter s \<and> rc_alloc t = rc_alloc s"

lemma lock_path_effect_root:
  "par s (rc_root s) = None \<Longrightarrow> lock_path_effect s (rc_root s) d s"
  by (auto simp: lock_path_effect_def anc_root)

lemma lock_path_effect_step:
  assumes "bump_effect s n d t" and "lock_path_effect t p d u" and "par s n = Some p"
    and "n \<noteq> rc_root s" and "\<not> anc s p n"
  shows "lock_path_effect s n d u"
proof -
  have "anc t = anc s" using assms(1) by (intro anc_cong) (auto simp: bump_effect_def)
  moreover have "rc_root t = rc_root s" using assms(1) by (simp add: bump_effect_def same_globals_def)
  ultimately show ?thesis
    using assms by (auto simp: lock_path_effect_def bump_effect_def anc_step same_globals_def)
qed

lemma rank_not_anc:
  assumes "struct_ok N s" and "n \<in> N" "n \<noteq> rc_root s" and "par s n = Some p"
  shows "\<not> anc s p n"
proof
  from assms(1) obtain rk :: "nat \<Rightarrow> nat" where rk: "\<forall>n \<in> N - {rc_root s}. \<forall>p. par s n = Some p \<longrightarrow> rk p < rk n"
    unfolding struct_ok_def by blast
  assume "anc s p n"
  then have "p \<in> N \<Longrightarrow> rk n \<le> rk p \<and> n \<in> N"
    unfolding anc_def
  proof (induction rule: converse_rtranclp_induct)
    case (step y z)
    have "y \<noteq> rc_root s" using step(1) struct_okD(4) [OF assms(1)] by auto
    then have "z \<in> N" "rk z < rk y" using parent_live [OF assms(1) step.prems _ step(1)] rk step.prems step(1) by auto
    then show ?case using step.IH by simp
  qed simp
  then show False using rk assms parent_live [OF assms(1-4)] by force
qed

lemma inc_body:
  assumes "struct_ok N s" and "n \<in> N" and "n \<noteq> rc_root s" and "0 \<le> lockof s n"
  defines "l \<equiv> int (rk_len (keyof s n))"
  shows "\<exists>t. inc_lock_loop (Some n) delta s =
      inc_lock_loop (par s n) (delta + rc_evictable_size t - rc_evictable_size s) t \<and> bump_effect s n 1 t"
proof -
  let ?s1 = "if lockof s n = 0 then s\<lparr>rc_evictable_size := rc_evictable_size s - l,
      rc_protected_size := rc_protected_size s + l\<rparr> else s"
  let ?s1' = "upd_node n (\<lambda>nd. nd\<lparr>nd_lock_ref := nd_lock_ref nd + 1\<rparr>) ?s1"
  let ?t = "update_leaf_status n ?s1'"
  have st: "struct_ok N ?s1'"
  proof -
    have f: "kids_of ?s1' x = kids_of s x" "par ?s1' x = par s x" "keyof ?s1' x = keyof s x" "valof ?s1' x = valof s x"
      "rc_root ?s1' = rc_root s" "rc_page_size ?s1' = rc_page_size s" "rc_is_eagle ?s1' = rc_is_eagle s"
      "rc_counter ?s1' = rc_counter s" for x
      by (simp_all add: upd_node_def)
    show ?thesis using assms(1) unfolding struct_ok_def node_ok_def f .
  qed
  have eff: "bump_effect s n 1 ?t"
    unfolding update_leaf_status_live [OF st assms(2)] using assms(4)
    by (auto simp: bump_effect_def upd_node_def same_globals_def l_def)
  moreover have "inc_lock_loop (Some n) delta s =
      inc_lock_loop (par s n) (delta + rc_evictable_size ?t - rc_evictable_size s) ?t"
  proof -
    have "rc_evictable_size ?t = rc_evictable_size s - (if lockof s n = 0 then l else 0)"
      using eff assms(4) by (simp add: bump_effect_def l_def)
    then show ?thesis
      using assms(3) by (subst inc_lock_loop.simps) (simp add: Let_def l_def)
  qed
  ultimately show ?thesis by blast
qed

lemma inc_loop:
  assumes "pend_inv N L s n 1" and "n \<in> N"
  shows "\<exists>t. inc_lock_loop (Some n) delta s = Some (Inr (delta + rc_evictable_size t - rc_evictable_size s), t) \<and>
    tree_inv N L t \<and> lock_path_effect s n 1 t"
proof -
  have st0: "struct_ok N s" using assms(1) by (simp add: pend_inv_def)
  from st0 obtain rk :: "nat \<Rightarrow> nat" where rk0: "\<forall>n \<in> N - {rc_root s}. \<forall>p. par s n = Some p \<longrightarrow> rk p < rk n"
    unfolding struct_ok_def by blast
  show ?thesis
    using assms rk0
  proof (induction "rk n" arbitrary: n s delta rule: less_induct)
    case less
    have st: "struct_ok N s" using less.prems(1) by (simp add: pend_inv_def)
    show ?case
    proof (cases "n = rc_root s")
      case True
      then have "inc_lock_loop (Some n) delta s = Some (Inr delta, s)" by (subst inc_lock_loop.simps) simp
      then show ?thesis
        using True less.prems(1) pend_inv_root lock_path_effect_root struct_okD(4) [OF st] by auto
    next
      case False
      have nonneg: "0 \<le> lockof s n"
        using less.prems(1,2) False by (simp add: pend_inv_def locks_pend_def)
      from inc_body [OF st less.prems(2) False nonneg] obtain t where
        t: "inc_lock_loop (Some n) delta s =
          inc_lock_loop (par s n) (delta + rc_evictable_size t - rc_evictable_size s) t" "bump_effect s n 1 t" by blast
      obtain p where p: "par s n = Some p" "p \<in> N" using parent_exists [OF st less.prems(2) False] by blast
      have inv: "pend_inv N L t p 1"
        using bump_inv [OF less.prems(1,2) False p(1) _ t(2)] nonneg by simp
      have same: "rc_root t = rc_root s" "\<And>x. par t x = par s x"
        using t(2) by (auto simp: bump_effect_def same_globals_def)
      have "rk p < rk n" using less.prems(2,3) False p(1) by blast
      from less.hyps [OF this inv p(2)] less.prems(3) same obtain u where
        u: "inc_lock_loop (Some p) (delta + rc_evictable_size t - rc_evictable_size s) t =
          Some (Inr (delta + rc_evictable_size t - rc_evictable_size s + rc_evictable_size u - rc_evictable_size t), u)"
          "tree_inv N L u" "lock_path_effect t p 1 u" by metis
      have "lock_path_effect s n 1 u"
        by (rule lock_path_effect_step [OF t(2) u(3) p(1) False rank_not_anc [OF st less.prems(2) False p(1)]])
      then show ?thesis using t(1) u p(1) by auto
    qed
  qed
qed

lemma dec_body:
  assumes "struct_ok N s" and "n \<in> N" and "n \<noteq> rc_root s" and "1 \<le> lockof s n" and "par s n = Some p"
  defines "l \<equiv> int (rk_len (keyof s n))"
  shows "\<exists>t. dec_lock_loop n delta s = dec_lock_loop p (delta + rc_evictable_size t - rc_evictable_size s) t \<and>
    bump_effect s n (- 1) t"
proof -
  let ?s1 = "if lockof s n = 1 then s\<lparr>rc_evictable_size := rc_evictable_size s + l,
      rc_protected_size := rc_protected_size s - l\<rparr> else s"
  let ?s1' = "upd_node n (\<lambda>nd. nd\<lparr>nd_lock_ref := nd_lock_ref nd - 1\<rparr>) ?s1"
  let ?t = "update_leaf_status n ?s1'"
  have st: "struct_ok N ?s1'"
  proof -
    have f: "kids_of ?s1' x = kids_of s x" "par ?s1' x = par s x" "keyof ?s1' x = keyof s x" "valof ?s1' x = valof s x"
      "rc_root ?s1' = rc_root s" "rc_page_size ?s1' = rc_page_size s" "rc_is_eagle ?s1' = rc_is_eagle s"
      "rc_counter ?s1' = rc_counter s" for x
      by (simp_all add: upd_node_def)
    show ?thesis using assms(1) unfolding struct_ok_def node_ok_def f .
  qed
  have eff: "bump_effect s n (- 1) ?t"
    unfolding update_leaf_status_live [OF st assms(2)] using assms(4)
    by (auto simp: bump_effect_def upd_node_def same_globals_def l_def)
  moreover have "dec_lock_loop n delta s = dec_lock_loop p (delta + rc_evictable_size ?t - rc_evictable_size s) ?t"
  proof -
    have "rc_evictable_size ?t = rc_evictable_size s + (if lockof s n = 1 then l else 0)"
      using eff assms(4) by (simp add: bump_effect_def l_def)
    then show ?thesis
      using assms(3,5) by (subst dec_lock_loop.simps) (simp add: Let_def l_def)
  qed
  ultimately show ?thesis by blast
qed

lemma dec_loop:
  assumes "pend_inv N L s n (- 1)" and "n \<in> N"
  shows "\<exists>t. dec_lock_loop n delta s = Some (Inr (delta + rc_evictable_size t - rc_evictable_size s), t) \<and>
    tree_inv N L t \<and> lock_path_effect s n (- 1) t"
proof -
  have st0: "struct_ok N s" using assms(1) by (simp add: pend_inv_def)
  from st0 obtain rk :: "nat \<Rightarrow> nat" where rk0: "\<forall>n \<in> N - {rc_root s}. \<forall>p. par s n = Some p \<longrightarrow> rk p < rk n"
    unfolding struct_ok_def by blast
  show ?thesis
    using assms rk0
  proof (induction "rk n" arbitrary: n s delta rule: less_induct)
    case less
    have st: "struct_ok N s" using less.prems(1) by (simp add: pend_inv_def)
    show ?case
    proof (cases "n = rc_root s")
      case True
      then have "dec_lock_loop n delta s = Some (Inr delta, s)" by (subst dec_lock_loop.simps) simp
      then show ?thesis
        using True less.prems(1) pend_inv_root lock_path_effect_root struct_okD(4) [OF st] by auto
    next
      case False
      have "lockof s n + (if n = n then - 1 else 0) =
          int (L n) + (\<Sum>c | c \<in> N - {rc_root s} \<and> par s c = Some n. lockof s c)"
        using less.prems(1,2) False unfolding pend_inv_def locks_pend_def by blast
      moreover have "0 \<le> (\<Sum>c | c \<in> N - {rc_root s} \<and> par s c = Some n. lockof s c)"
        using less.prems(1) by (intro sum_nonneg) (auto simp: pend_inv_def locks_pend_def)
      ultimately have pos: "1 \<le> lockof s n" by simp
      obtain p where p: "par s n = Some p" "p \<in> N" using parent_exists [OF st less.prems(2) False] by blast
      from dec_body [OF st less.prems(2) False pos p(1)] obtain t where
        t: "dec_lock_loop n delta s = dec_lock_loop p (delta + rc_evictable_size t - rc_evictable_size s) t"
          "bump_effect s n (- 1) t" by blast
      have inv: "pend_inv N L t p (- 1)"
        using bump_inv [OF less.prems(1,2) False p(1) _ t(2)] pos by simp
      have same: "rc_root t = rc_root s" "\<And>x. par t x = par s x"
        using t(2) by (auto simp: bump_effect_def same_globals_def)
      have "rk p < rk n" using less.prems(2,3) False p(1) by blast
      from less.hyps [OF this inv p(2)] less.prems(3) same obtain u where
        u: "dec_lock_loop p (delta + rc_evictable_size t - rc_evictable_size s) t =
          Some (Inr (delta + rc_evictable_size t - rc_evictable_size s + rc_evictable_size u - rc_evictable_size t), u)"
          "tree_inv N L u" "lock_path_effect t p (- 1) u" by metis
      have "lock_path_effect s n (- 1) u"
        by (rule lock_path_effect_step [OF t(2) u(3) p(1) False rank_not_anc [OF st less.prems(2) False p(1)]])
      then show ?thesis using t(1) u p(1) by auto
    qed
  qed
qed

text \<open>Locking a live node, and unlocking a node on which a lock is held.\<close>

lemma inc_lock_ref_live:
  assumes "tree_inv N L s" and "n \<in> N" and "\<not> rc_disable s"
  defines "L' \<equiv> if n = rc_root s then L else L(n := Suc (L n))"
  shows "\<exists>t. inc_lock_ref n s = Some (Inr (rc_evictable_size t - rc_evictable_size s), t) \<and>
    tree_inv N L' t \<and> lock_path_effect s n 1 t"
proof -
  have "pend_inv N L' s n 1"
    using assms(1,2) pend_inv_inc [of N L s n] pend_inv_root [of N L s 1] by (auto simp: L'_def)
  from inc_loop [OF this assms(2), of 0] assms(3) show ?thesis by (auto simp: inc_lock_ref_def)
qed

lemma dec_lock_ref_live:
  assumes "tree_inv N L s" and "n \<in> N" and "\<not> rc_disable s" and "n = rc_root s \<or> 0 < L n"
  defines "L' \<equiv> if n = rc_root s then L else L(n := L n - 1)"
  shows "\<exists>t. dec_lock_ref n s = Some (Inr (rc_evictable_size t - rc_evictable_size s), t) \<and>
    tree_inv N L' t \<and> lock_path_effect s n (- 1) t"
proof -
  have "pend_inv N L' s n (- 1)"
    using assms(1,2,4) pend_inv_dec [of N L s n] pend_inv_root [of N L s "- 1"] by (auto simp: L'_def)
  from dec_loop [OF this assms(2), of 0] assms(3) show ?thesis by (auto simp: dec_lock_ref_def)
qed

end
