(* ===== verification/Radix_Paths.thy ===== *)
theory Radix_Paths
  imports Radix_Locks
begin

text \<open>
  What the radix tree stores: a path from a node spells a sequence of units and carries a slot
  for each of them. The contents of the cache are the prefixes of the sequences spelled from the
  root. Splitting a node does not change them; adding a leaf adds one sequence; deleting a leaf
  removes what only the leaf held.
\<close>

section \<open>Paths\<close>

inductive rpath :: "radix \<Rightarrow> string option \<Rightarrow> nat \<Rightarrow> nat \<Rightarrow> key_unit list \<Rightarrow> kv_index list \<Rightarrow> bool"
  for s :: radix and ek :: "string option" where
  nil: "rpath s ek n n [] []"
| cons: "dict_get (kids_of s a) ck = Some c \<Longrightarrow> extra_key (keyof s c) = ek \<Longrightarrow> valof s c = Some v \<Longrightarrow>
    rpath s ek c n us vs \<Longrightarrow> rpath s ek a n (rk_units (keyof s c) @ us) (v @ vs)"

text \<open>The slots cached for a sequence of units in a namespace.\<close>

definition cached :: "radix \<Rightarrow> string option \<Rightarrow> key_unit list \<Rightarrow> kv_index list \<Rightarrow> bool" where
  "cached s ek us vs \<longleftrightarrow>
     (\<exists>n W V. rpath s ek (rc_root s) n W V \<and> prefix us W \<and> vs = take (length us) V)"

lemma rpath_shape:
  assumes "same_shape s t"
  shows "rpath t ek a n us vs \<longleftrightarrow> rpath s ek a n us vs"
proof
  note f = same_shape_fields [OF assms]
  show "rpath s ek a n us vs" if "rpath t ek a n us vs"
    using that by (induction rule: rpath.induct) (auto simp: f intro: rpath.nil rpath.cons)
  show "rpath t ek a n us vs" if "rpath s ek a n us vs"
    using that
  proof (induction rule: rpath.induct)
    case (cons a ck c v n us vs)
    then show ?case using rpath.cons [of t a ck c ek v n us vs] by (simp add: f)
  qed (rule rpath.nil)
qed

lemma cached_shape: "same_shape s t \<Longrightarrow> cached t ek us vs \<longleftrightarrow> cached s ek us vs"
  by (simp add: cached_def rpath_shape same_shape_fields)

lemma rpath_trans: "rpath s ek a b us vs \<Longrightarrow> rpath s ek b c us' vs' \<Longrightarrow> rpath s ek a c (us @ us') (vs @ vs')"
  by (induction rule: rpath.induct) (auto intro: rpath.cons)

lemma rpath_edge:
  assumes "dict_get (kids_of s a) ck = Some c" and "extra_key (keyof s c) = ek" and "valof s c = Some v"
  shows "rpath s ek a c (rk_units (keyof s c)) v"
  using rpath.cons [OF assms rpath.nil] by simp

lemma rpath_snoc:
  assumes "rpath s ek a b us vs" and "dict_get (kids_of s b) ck = Some c"
    and "extra_key (keyof s c) = ek" and "valof s c = Some v"
  shows "rpath s ek a c (us @ rk_units (keyof s c)) (vs @ v)"
  by (rule rpath_trans [OF assms(1) rpath_edge [OF assms(2-4)]])

lemma rpath_live_all:
  assumes "rpath s ek a n us vs" and "struct_ok N s" and "a \<in> N"
  shows "n \<in> N \<and> length vs = length us \<and> rc_page_size s dvd length us"
  using assms
proof (induction rule: rpath.induct)
  case (cons a ck c v n us vs)
  have c: "c \<in> N" "c \<noteq> rc_root s" using struct_okD(9) [OF cons.prems] cons.hyps(1) by auto
  then show ?case
    using cons.IH [OF cons.prems(1) c(1)] node_okD(2,5) [OF cons.prems(1) c] cons.hyps(3) by auto
qed auto

lemmas rpath_live = rpath_live_all [THEN conjunct1] rpath_live_all [THEN conjunct2, THEN conjunct1]
  rpath_live_all [THEN conjunct2, THEN conjunct2]

lemma rpath_extra: "rpath s ek a n us vs \<Longrightarrow> n = a \<or> extra_key (keyof s n) = ek"
  by (induction rule: rpath.induct) auto

text \<open>Two paths of which one extends the other: the second continues where the first ends.\<close>

lemma rpath_deterministic:
  assumes "rpath s ek a n us vs" and "struct_ok N s" and "a \<in> N" and "rpath s ek a n' (us @ us') vs'"
  shows "\<exists>ws. vs' = vs @ ws \<and> rpath s ek n n' us' ws"
  using assms
proof (induction arbitrary: vs' rule: rpath.induct)
  case (cons a ck c v n us vs)
  let ?ps = "rc_page_size s"
  have c: "c \<in> N" "c \<noteq> rc_root s" "par s c = Some a" "ck = ckey ?ps (keyof s c)"
    using struct_okD(9) [OF cons.prems(1,2)] cons(1) by auto
  have uc: "?ps \<le> rk_len (keyof s c)" "0 < ?ps"
    using node_okD(4) [OF cons.prems(1) c(1,2)] struct_okD(3) [OF cons.prems(1)] by auto
  from cons.prems(3) show ?case
  proof (cases rule: rpath.cases)
    case nil
    then have "rk_units (keyof s c) = []" by simp
    then show ?thesis using uc length_rk_units [of "keyof s c"] by simp
  next
    case (cons ck' d v' us'' vs'')
    have d: "d \<in> N" "d \<noteq> rc_root s" "par s d = Some a" "ck' = ckey ?ps (keyof s d)"
      using struct_okD(9) [OF cons.prems(1,2)] local.cons(3) by auto
    have ud: "?ps \<le> rk_len (keyof s d)" using node_okD(4) [OF cons.prems(1) d(1,2)] .
    have "take ?ps (rk_units (keyof s c)) = take ?ps (rk_units (keyof s d))"
      using local.cons(1) uc(1) ud
      by (intro append_take_eq [of "rk_units (keyof s d)" "us''" "rk_units (keyof s c)" "us @ us'"]) simp_all
    then have "ckey ?ps (keyof s c) = ckey ?ps (keyof s d)"
      using local.cons(4) \<open>extra_key (keyof s c) = ek\<close> by (simp add: ckey_def)
    then have "d = c" using sibling_keys [OF cons.prems(1) d(1,2) c(1,2) d(3) c(3)] by simp
    then have "us'' = us @ us'" "v' = v" using local.cons(1,5) \<open>valof s c = Some v\<close> by auto
    with cons.IH [OF cons.prems(1) c(1)] local.cons \<open>d = c\<close> show ?thesis by auto
  qed
qed auto

text \<open>A node is reached by one path only.\<close>

lemma rpath_rank:
  assumes "rpath s ek a n us vs" and "struct_ok N s" and "a \<in> N"
    and "\<forall>n \<in> N - {rc_root s}. \<forall>p. par s n = Some p \<longrightarrow> rk p < (rk n :: nat)"
  shows "rk a \<le> rk n \<and> (us = [] \<or> rk a < rk n)"
  using assms
proof (induction rule: rpath.induct)
  case (cons a ck c v n us vs)
  have c: "c \<in> N" "c \<noteq> rc_root s" "par s c = Some a" using struct_okD(9) [OF cons.prems(1,2)] cons.hyps(1) by auto
  have "rk a < rk c" using cons.prems(3) c by blast
  moreover have "rk c \<le> rk n" using cons.IH [OF cons.prems(1) c(1) cons.prems(3)] by simp
  ultimately show ?case by simp
qed simp

lemma rpath_last:
  "rpath s ek a n us vs \<Longrightarrow> us = [] \<and> vs = [] \<and> n = a \<or>
    (\<exists>b ck us' vs' v. rpath s ek a b us' vs' \<and> dict_get (kids_of s b) ck = Some n \<and> extra_key (keyof s n) = ek \<and>
       valof s n = Some v \<and> us = us' @ rk_units (keyof s n) \<and> vs = vs' @ v)"
proof (induction rule: rpath.induct)
  case (cons a ck c v n us vs)
  from cons.IH show ?case
  proof (elim disjE exE conjE)
    assume "us = []" "vs = []" "n = c"
    then show ?thesis
      using cons.hyps rpath.nil [of s ek a]
      by (intro disjI2 exI [of _ a] exI [of _ ck] exI [of _ "[]"] exI [of _ v]) simp
  next
    fix b ck' us' vs' v'
    assume b: "rpath s ek c b us' vs'" "dict_get (kids_of s b) ck' = Some n" "extra_key (keyof s n) = ek"
      "valof s n = Some v'" "us = us' @ rk_units (keyof s n)" "vs = vs' @ v'"
    have "rpath s ek a b (rk_units (keyof s c) @ us') (v @ vs')" using rpath.cons [OF cons.hyps(1-3) b(1)] .
    with b show ?thesis
      by (intro disjI2 exI [of _ b] exI [of _ ck'] exI [of _ "rk_units (keyof s c) @ us'"] exI [of _ "v @ vs'"] exI [of _ v']) simp
  qed
qed simp

lemma path_unique:
  assumes st: "struct_ok N s" and root: "rc_root s \<in> N"
    and "rpath s ek (rc_root s) n us vs" and "rpath s ek (rc_root s) n us' vs'"
  shows "us' = us \<and> vs' = vs"
proof -
  from st obtain rk :: "nat \<Rightarrow> nat" where rk: "\<forall>n \<in> N - {rc_root s}. \<forall>p. par s n = Some p \<longrightarrow> rk p < rk n"
    unfolding struct_ok_def by blast
  show ?thesis
    using assms(3,4)
  proof (induction "rk n" arbitrary: n us vs us' vs' rule: less_induct)
    case less
    have nN: "n \<in> N" by (rule rpath_live(1) [OF less.prems(1) st root])
    show ?case
    proof (cases "n = rc_root s")
      case True
      then have "us = []" "us' = []"
        using rpath_rank [OF less.prems(1) st root rk] rpath_rank [OF less.prems(2) st root rk] by auto
      then show ?thesis
        using rpath_live(2) [OF less.prems(1) st root] rpath_live(2) [OF less.prems(2) st root] by simp
    next
      case False
      obtain b ck v w x where b: "rpath s ek (rc_root s) b w x" "dict_get (kids_of s b) ck = Some n" "valof s n = Some v"
        "us = w @ rk_units (keyof s n)" "vs = x @ v"
        using rpath_last [OF less.prems(1)] False by blast
      obtain b' ck' v' w' x' where b': "rpath s ek (rc_root s) b' w' x'" "dict_get (kids_of s b') ck' = Some n"
        "valof s n = Some v'" "us' = w' @ rk_units (keyof s n)" "vs' = x' @ v'"
        using rpath_last [OF less.prems(2)] False by blast
      have "b \<in> N" "b' \<in> N" using rpath_live(1) [OF b(1) st root] rpath_live(1) [OF b'(1) st root] by auto
      then have par: "par s n = Some b" "par s n = Some b'"
        using struct_okD(9) [OF st \<open>b \<in> N\<close>] struct_okD(9) [OF st \<open>b' \<in> N\<close>] b(2) b'(2) by auto
      then have "rk b < rk n" "b' = b" using rk nN False by auto
      with less.hyps [of b w x w' x'] b b' show ?thesis by simp
    qed
  qed
qed

text \<open>Where the tree has no child for the next page, nothing longer is cached.\<close>

lemma cached_maximal:
  assumes st: "struct_ok N s" and p: "rpath s ek (rc_root s) n us vs"
    and none: "dict_get (kids_of s n) (ek, pg) = None" and pg: "length pg = rc_page_size s"
    and c: "cached s ek (us @ pg @ rest) ws"
  shows False
proof -
  have root: "rc_root s \<in> N" by (rule struct_okD(2) [OF st])
  from c obtain n' W V R where n': "rpath s ek (rc_root s) n' W V" "W = us @ pg @ rest @ R"
    unfolding cached_def prefix_def by auto
  from rpath_deterministic [OF p st root n'(1) [unfolded n'(2)]] obtain V' where q: "rpath s ek n n' (pg @ rest @ R) V'"
    by blast
  have nN: "n \<in> N" by (rule rpath_live(1) [OF p st root])
  from q show False
  proof (cases rule: rpath.cases)
    case nil
    then show ?thesis using pg struct_okD(3) [OF st] by simp
  next
    case (cons ck d v us' vs')
    have d: "d \<in> N" "d \<noteq> rc_root s" "ck = ckey (rc_page_size s) (keyof s d)"
      using struct_okD(9) [OF st nN] cons(3) by auto
    have "take (rc_page_size s) (rk_units (keyof s d)) = pg"
      using cons(1) pg node_okD(4) [OF st d(1,2)]
      by (metis append_eq_conv_conj length_rk_units take_append take_all_iff diff_is_0_eq' take0 append_Nil2)
    then have "ck = (ek, pg)" using d(3) cons(4) by (simp add: ckey_def)
    then show ?thesis using none cons(3) by simp
  qed
qed

section \<open>Splitting keeps the contents\<close>

lemma split_rpath_new:
  assumes st: "struct_ok N s" and c: "c \<in> N" "c \<noteq> rc_root s" and p: "par s c = Some p"
    and j: "0 < j" "j < rk_len (keyof s c)" "rc_page_size s dvd j"
    and m: "m = rc_counter s" and eff: "split_effect s c j p m t" and v: "valof s c = Some v"
  shows "rpath t (extra_key (keyof s c)) p m (take j (rk_units (keyof s c))) (take j v)"
    and "rpath t (extra_key (keyof s c)) m c (drop j (rk_units (keyof s c))) (drop j v)"
proof -
  have "m \<notin> N" using struct_okD(6) [OF st] m by blast
  then have neq: "m \<noteq> c" "m \<noteq> p" using c(1) parent_live [OF st c p] by auto
  have kids: "dict_get (kids_of t p) (ckey (rc_page_size s) (keyof s c)) = Some m"
    "dict_get (kids_of t m) (ckey (rc_page_size s) (rk_drop (keyof s c) j)) = Some c"
    and key: "keyof t m = rk_take (keyof s c) j" "keyof t c = rk_drop (keyof s c) j"
    and val: "valof t m = Some (take j v)" "valof t c = Some (drop j v)"
    using eff neq v unfolding split_effect_def by auto
  show "rpath t (extra_key (keyof s c)) p m (take j (rk_units (keyof s c))) (take j v)"
    using rpath_edge [OF kids(1) _ val(1)] by (simp add: key)
  show "rpath t (extra_key (keyof s c)) m c (drop j (rk_units (keyof s c))) (drop j v)"
    using rpath_edge [OF kids(2) _ val(2)] by (simp add: key)
qed

lemma split_rpath:
  assumes st: "struct_ok N s" and c: "c \<in> N" "c \<noteq> rc_root s" and p: "par s c = Some p"
    and j: "0 < j" "j < rk_len (keyof s c)" "rc_page_size s dvd j"
    and m: "m = rc_counter s" and eff: "split_effect s c j p m t"
    and a: "a \<in> N" and n: "n \<in> N"
  shows "rpath t ek a n us vs \<longleftrightarrow> rpath s ek a n us vs"
proof -
  let ?ps = "rc_page_size s" and ?uc = "rk_units (keyof s c)"
  obtain v where v: "valof s c = Some v" "length v = rk_len (keyof s c)" using node_okD(5) [OF st c] by blast
  have mN: "m \<notin> N" using struct_okD(6) [OF st] m by blast
  have pN: "p \<in> N" "p \<noteq> c" using parent_live [OF st c p] by auto
  have neq: "m \<noteq> c" "m \<noteq> p" using mN c pN by auto
  have kids: "kids_of t x = (if x = m then [(ckey ?ps (rk_drop (keyof s c) j), c)]
        else if x = p then dict_set (ckey ?ps (keyof s c)) m (kids_of s p) else kids_of s x)"
    and key: "keyof t x = (if x = m then rk_take (keyof s c) j else if x = c then rk_drop (keyof s c) j else keyof s x)"
    and val: "valof t x = (if x = m then Some (take j v) else if x = c then Some (drop j v) else valof s x)" for x
    using eff v(1) unfolding split_effect_def by simp_all
  have psj: "?ps \<le> j" using j by (simp add: dvd_imp_le)
  have get: "dict_get (kids_of s x) ck = Some d \<longleftrightarrow> d \<in> N - {rc_root s} \<and> par s d = Some x \<and> ck = ckey ?ps (keyof s d)"
    if "x \<in> N" for x ck d by (rule struct_okD(9) [OF st that])
  note new = split_rpath_new [OF st c p j m eff v(1)]
  have "rpath t ek a n us vs" if "rpath s ek a n us vs"
    using that a
  proof (induction rule: rpath.induct)
    case (cons a ck d w n us vs)
    have d: "d \<in> N" "d \<noteq> rc_root s" "par s d = Some a" "ck = ckey ?ps (keyof s d)"
      using get [OF cons.prems] cons.hyps(1) by auto
    show ?case
    proof (cases "d = c")
      case True
      then have "a = p" "w = v" using d(3) p cons.hyps(3) v(1) by auto
      have "rpath t ek p c (take j ?uc @ drop j ?uc) (take j v @ drop j v)"
        using rpath_trans [OF new] cons.hyps(2) True by simp
      from rpath_trans [OF this] cons.IH [OF d(1)] True show ?thesis by (simp add: \<open>a = p\<close> \<open>w = v\<close>)
    next
      case False
      have "ck \<noteq> ckey ?ps (keyof s c)" if "a = p"
        using False sibling_keys [OF st d(1,2) c d(3)] p that d(4) by auto
      then have "dict_get (kids_of t a) ck = Some d" using cons.hyps(1) cons.prems mN by (auto simp: kids)
      moreover have "keyof t d = keyof s d" "valof t d = valof s d" using False d(1) mN by (auto simp: key val)
      ultimately show ?thesis
        using rpath.cons [of t a ck d ek w n us vs] cons.hyps cons.IH [OF d(1)] by simp
    qed
  qed (rule rpath.nil)
  moreover have "(a \<in> N \<longrightarrow> rpath s ek a n us vs) \<and>
      (a = m \<longrightarrow> (\<exists>us' vs'. us = drop j ?uc @ us' \<and> vs = drop j v @ vs' \<and> rpath s ek c n us' vs'))"
    if "rpath t ek a n us vs" "n \<in> N" for a us vs
    using that
  proof (induction rule: rpath.induct)
    case (nil n)
    then show ?case using mN by (auto intro: rpath.nil)
  next
    case (cons a ck d w n us vs)
    show ?case
    proof (intro conjI impI)
      assume "a = m"
      then have "d = c" using cons.hyps(1) by (auto simp: kids split: if_splits)
      then show "\<exists>us' vs'. rk_units (keyof t d) @ us = drop j ?uc @ us' \<and> w @ vs = drop j v @ vs' \<and> rpath s ek c n us' vs'"
        using cons c neq by (auto simp: key val)
    next
      assume aN: "a \<in> N"
      show "rpath s ek a n (rk_units (keyof t d) @ us) (w @ vs)"
      proof (cases "d = m")
        case True
        then have "a = p" using cons.hyps(1) aN mN get [OF aN] by (auto simp: kids split: if_splits)
        from True cons.IH cons.prems obtain us' vs' where
          u: "us = drop j ?uc @ us'" "vs = drop j v @ vs'" "rpath s ek c n us' vs'" by blast
        have "dict_get (kids_of s p) (ckey ?ps (keyof s c)) = Some c" using get [OF pN(1)] c p by simp
        moreover have "rk_units (keyof t d) = take j ?uc" "w = take j v" "extra_key (keyof s c) = ek"
          using True cons.hyps(2,3) by (simp_all add: key val)
        moreover from this have "rk_units (keyof t d) @ us = ?uc @ us'" "w @ vs = v @ vs'"
          unfolding u by (metis append.assoc append_take_drop_id)+
        ultimately show ?thesis using rpath.cons [OF _ _ v(1) u(3)] \<open>a = p\<close> by simp
      next
        case False
        then have g: "dict_get (kids_of s a) ck = Some d" and ck: "a = p \<longrightarrow> ck \<noteq> ckey ?ps (keyof s c)"
          using cons.hyps(1) aN mN by (auto simp: kids split: if_splits)
        then have d: "d \<in> N" "d \<noteq> rc_root s" "par s d = Some a" "ck = ckey ?ps (keyof s d)" using get [OF aN] by auto
        have "d \<noteq> c" using ck d(3,4) p by auto
        with False cons d(1) rpath.cons [OF g] show ?thesis by (simp add: key val)
      qed
    qed
  qed
  ultimately show ?thesis using a n by blast
qed

lemma split_cached:
  assumes st: "struct_ok N s" and c: "c \<in> N" "c \<noteq> rc_root s" and p: "par s c = Some p"
    and j: "0 < j" "j < rk_len (keyof s c)" "rc_page_size s dvd j"
    and m: "m = rc_counter s" and eff: "split_effect s c j p m t"
  shows "cached t ek us vs \<longleftrightarrow> cached s ek us vs"
proof
  have root: "rc_root s \<in> N" "rc_root t = rc_root s"
    using struct_okD(2) [OF st] eff by (simp_all add: split_effect_def same_globals_def)
  note same = split_rpath [OF st c p j m eff root(1)]
  have st': "struct_ok (insert m N) t" by (rule split_struct [OF st c p j m eff])
  show "cached t ek us vs" if "cached s ek us vs"
  proof -
    from that obtain n W V where n: "rpath s ek (rc_root s) n W V" "prefix us W" "vs = take (length us) V"
      unfolding cached_def by blast
    moreover have "n \<in> N" by (rule rpath_live(1) [OF n(1) st root(1)])
    ultimately show ?thesis using same [of n ek W V] unfolding cached_def root(2) by blast
  qed
  show "cached s ek us vs" if "cached t ek us vs"
  proof -
    from that obtain n W V where n: "rpath t ek (rc_root s) n W V" "prefix us W" "vs = take (length us) V"
      unfolding cached_def root(2) by blast
    have live: "n \<in> insert m N" "length V = length W"
      using rpath_live(1,2) [OF n(1) st'] root(1) by auto
    show ?thesis
    proof (cases "n = m")
      case False
      then show ?thesis using n live same [of n ek W V] unfolding cached_def by blast
    next
      case True
      obtain v where v: "valof s c = Some v" using node_okD(5) [OF st c] by blast
      have "m \<noteq> rc_root s" using struct_okD(6) [OF st root(1)] m by simp
      then have "extra_key (keyof t m) = ek" using rpath_extra [OF n(1)] True by auto
      then have "extra_key (keyof s c) = ek" using eff unfolding split_effect_def by simp
      with rpath_trans [OF n(1) [unfolded True] split_rpath_new(2) [OF st c p j m eff v, THEN back_subst [of "\<lambda>e. rpath t e m c _ _"]]]
      have "rpath t ek (rc_root s) c (W @ drop j (rk_units (keyof s c))) (V @ drop j v)" by simp
      then have "rpath s ek (rc_root s) c (W @ drop j (rk_units (keyof s c))) (V @ drop j v)" using same [OF c(1)] by blast
      moreover have "prefix us (W @ drop j (rk_units (keyof s c)))" using n(2) by (simp add: prefix_def) (metis append.assoc)
      moreover have "vs = take (length us) (V @ drop j v)"
        using n(2,3) live(2) prefix_length_le [OF n(2)] by simp
      ultimately show ?thesis unfolding cached_def by blast
    qed
  qed
qed

section \<open>Adding and deleting a leaf\<close>

lemma attach_rpath:
  assumes st: "struct_ok N s" and p: "p \<in> N" and st': "struct_ok (insert m N) t"
    and new: "dict_get (kids_of s p) (ckey (rc_page_size s) k) = None"
    and mN: "m \<notin> N" and eff: "attach_effect s p k v m t" and a: "a \<in> N"
  shows "n \<in> N \<Longrightarrow> rpath t ek a n us vs \<longleftrightarrow> rpath s ek a n us vs"
    and "rpath t ek a m us vs \<longleftrightarrow>
      (\<exists>us' vs'. rpath s ek a p us' vs' \<and> ek = extra_key k \<and> us = us' @ rk_units k \<and> vs = vs' @ v)"
proof -
  have kids: "kids_of t x = (if x = m then [] else if x = p then dict_set (ckey (rc_page_size s) k) m (kids_of s p)
        else kids_of s x)"
    and key: "keyof t x = (if x = m then k else keyof s x)"
    and val: "valof t x = (if x = m then Some v else valof s x)" for x
    using eff unfolding attach_effect_def by blast+
  have live: "d \<in> N" if "dict_get (kids_of s x) ck = Some d" "x \<in> N" for x ck d
    using struct_okD(9) [OF st that(2)] that(1) by auto
  have up: "rpath t ek a n us vs" if "rpath s ek a n us vs" "a \<in> N" for a n us vs
    using that
  proof (induction rule: rpath.induct)
    case (cons a ck d w n us vs)
    have d: "d \<in> N" using live cons by blast
    have "dict_get (kids_of t a) ck = Some d" using cons.hyps(1) cons.prems mN new by (auto simp: kids)
    moreover have "keyof t d = keyof s d" "valof t d = valof s d" using d mN by (auto simp: key val)
    ultimately show ?case using rpath.cons [of t a ck d ek w n us vs] cons d by simp
  qed (rule rpath.nil)
  have down: "(n \<in> N \<longrightarrow> rpath s ek a n us vs) \<and>
      (n = m \<longrightarrow> (\<exists>us' vs'. rpath s ek a p us' vs' \<and> ek = extra_key k \<and> us = us' @ rk_units k \<and> vs = vs' @ v))"
    if "rpath t ek a n us vs" "a \<in> N" for a n us vs
    using that
  proof (induction rule: rpath.induct)
    case (nil n)
    then show ?case using mN by (auto intro: rpath.nil)
  next
    case (cons a ck d w n us vs)
    show ?case
    proof (cases "d = m")
      case True
      then have "a = p" using cons.hyps(1) cons.prems mN live by (auto simp: kids split: if_splits)
      have "n = m \<and> us = [] \<and> vs = []" using cons.hyps(4) True by (cases rule: rpath.cases) (auto simp: kids)
      then show ?thesis
        using cons.hyps(2,3) True mN \<open>a = p\<close> rpath.nil [of s ek p] by (auto simp: key val)
    next
      case False
      then have g: "dict_get (kids_of s a) ck = Some d"
        using cons.hyps(1) cons.prems mN by (auto simp: kids split: if_splits)
      then have d: "d \<in> N" using live cons.prems by blast
      have kv: "keyof t d = keyof s d" "valof t d = valof s d" using False by (auto simp: key val)
      show ?thesis
        using cons.IH [OF d] rpath.cons [OF g] cons.hyps(2,3) by (auto simp: kv)
    qed
  qed
  show "n \<in> N \<Longrightarrow> rpath t ek a n us vs \<longleftrightarrow> rpath s ek a n us vs" using up down a by blast
  show "rpath t ek a m us vs \<longleftrightarrow>
      (\<exists>us' vs'. rpath s ek a p us' vs' \<and> ek = extra_key k \<and> us = us' @ rk_units k \<and> vs = vs' @ v)"
  proof
    assume "\<exists>us' vs'. rpath s ek a p us' vs' \<and> ek = extra_key k \<and> us = us' @ rk_units k \<and> vs = vs' @ v"
    then obtain us' vs' where u: "rpath s ek a p us' vs'" "ek = extra_key k" "us = us' @ rk_units k" "vs = vs' @ v" by blast
    have "p \<noteq> m" using p mN by auto
    then have "dict_get (kids_of t p) (ckey (rc_page_size s) k) = Some m" by (simp add: kids)
    from rpath_snoc [OF up [OF u(1) a] this] u show "rpath t ek a m us vs" by (simp add: key val)
  qed (use down a in blast)
qed

lemma attach_cached:
  assumes st: "struct_ok N s" and p: "p \<in> N" and st': "struct_ok (insert m N) t"
    and new: "dict_get (kids_of s p) (ckey (rc_page_size s) k) = None"
    and mN: "m \<notin> N" and eff: "attach_effect s p k v m t"
    and path: "rpath s (extra_key k) (rc_root s) p U V"
  shows "cached t ek us vs \<longleftrightarrow> cached s ek us vs \<or>
    (ek = extra_key k \<and> prefix us (U @ rk_units k) \<and> vs = take (length us) (V @ v))"
proof -
  have root: "rc_root s \<in> N" "rc_root t = rc_root s"
    using struct_okD(2) [OF st] eff by (simp_all add: attach_effect_def same_globals_def)
  note old = attach_rpath(1) [OF st p st' new mN eff root(1)] and leaf = attach_rpath(2) [OF st p st' new mN eff root(1)]
  have uniq: "us' = U \<and> vs' = V" if "rpath s (extra_key k) (rc_root s) p us' vs'" for us' vs'
    using path_unique [OF st root(1) path that] by simp
  show ?thesis
  proof
    assume "cached t ek us vs"
    then obtain n W X where n: "rpath t ek (rc_root s) n W X" "prefix us W" "vs = take (length us) X"
      unfolding cached_def root(2) by blast
    have "n \<in> insert m N" using rpath_live(1) [OF n(1) st'] root(1) by simp
    then consider "n \<in> N" | "n = m" by blast
    then show "cached s ek us vs \<or> (ek = extra_key k \<and> prefix us (U @ rk_units k) \<and> vs = take (length us) (V @ v))"
    proof cases
      case 1
      then have "rpath s ek (rc_root s) n W X" using n(1) old by simp
      then show ?thesis using n unfolding cached_def by blast
    next
      case 2
      with n(1) leaf obtain us' vs' where u: "rpath s ek (rc_root s) p us' vs'" "ek = extra_key k"
        "W = us' @ rk_units k" "X = vs' @ v" by auto
      then show ?thesis using uniq [of us' vs'] n by simp
    qed
  next
    assume "cached s ek us vs \<or> (ek = extra_key k \<and> prefix us (U @ rk_units k) \<and> vs = take (length us) (V @ v))"
    then show "cached t ek us vs"
    proof (elim disjE conjE)
      assume "cached s ek us vs"
      then obtain n W X where n: "rpath s ek (rc_root s) n W X" "prefix us W" "vs = take (length us) X"
        unfolding cached_def by blast
      have "n \<in> N" by (rule rpath_live(1) [OF n(1) st root(1)])
      then have "rpath t ek (rc_root s) n W X" using n(1) old by simp
      then show ?thesis using n unfolding cached_def root(2) by blast
    next
      assume a: "ek = extra_key k" "prefix us (U @ rk_units k)" "vs = take (length us) (V @ v)"
      have "rpath t ek (rc_root s) m (U @ rk_units k) (V @ v)" using leaf path a(1) by blast
      then show ?thesis using a unfolding cached_def root(2) by blast
    qed
  qed
qed

end
