(* ===== verification/Radix_Match.thy ===== *)
theory Radix_Match
  imports Radix_Paths
begin

text \<open>
  The two walks down the radix tree. Splitting nodes on the way changes neither the contents nor
  the slots the tree owns; the walk ends at the deepest node whose path is a prefix of the key.
\<close>

section \<open>The slots a tree owns\<close>

definition slots :: "nat set \<Rightarrow> radix \<Rightarrow> kv_index multiset" where
  "slots N s = (\<Sum>n \<in> N - {rc_root s}. mset (the (valof s n)))"

lemma slots_shape: "same_shape s t \<Longrightarrow> slots N t = slots N s"
  by (simp add: slots_def same_shape_fields)

lemma split_slots:
  assumes st: "struct_ok N s" and c: "c \<in> N" "c \<noteq> rc_root s" and p: "par s c = Some p"
    and m: "m = rc_counter s" and eff: "split_effect s c j p m t"
  shows "slots (insert m N) t = slots N s"
proof -
  obtain v where v: "valof s c = Some v" using node_okD(5) [OF st c] by blast
  have root: "rc_root t = rc_root s" using eff by (simp add: split_effect_def same_globals_def)
  have mN: "m \<notin> N" using struct_okD(6) [OF st] m by blast
  have val: "valof t x = (if x = m then Some (take j v) else if x = c then Some (drop j v) else valof s x)" for x
    using eff v unfolding split_effect_def by simp
  define A where "A = N - {rc_root s} - {c}"
  have fin: "finite A" "c \<notin> A" "m \<notin> A" "m \<noteq> c" using struct_okD(1) [OF st] mN c by (auto simp: A_def)
  have N: "N - {rc_root s} = insert c A" "insert m N - {rc_root s} = insert m (insert c A)"
    using c mN struct_okD(2) [OF st] by (auto simp: A_def)
  have "(\<Sum>n \<in> A. mset (the (valof t n))) = (\<Sum>n \<in> A. mset (the (valof s n)))"
    using fin by (intro sum.cong) (auto simp: val)
  moreover have "mset (take j v) + mset (drop j v) = mset v" by (metis append_take_drop_id mset_append)
  ultimately show ?thesis using fin v unfolding slots_def root N by (simp add: val add.assoc [symmetric])
qed

lemma attach_slots:
  assumes st: "struct_ok N s" and mN: "m \<notin> N" and eff: "attach_effect s p k v m t"
  shows "slots (insert m N) t = slots N s + mset v"
proof -
  have root: "rc_root t = rc_root s" using eff by (simp add: attach_effect_def same_globals_def)
  have val: "valof t x = (if x = m then Some v else valof s x)" for x
    using eff unfolding attach_effect_def by simp
  have N: "insert m N - {rc_root s} = insert m (N - {rc_root s})" using mN struct_okD(2) [OF st] by auto
  have "(\<Sum>n \<in> N - {rc_root s}. mset (the (valof t n))) = (\<Sum>n \<in> N - {rc_root s}. mset (the (valof s n)))"
    using mN by (intro sum.cong) (auto simp: val)
  then show ?thesis using mN struct_okD(1) [OF st] unfolding slots_def root N by (simp add: val add.commute)
qed

lemma detach_slots:
  assumes st: "struct_ok N s" and x: "x \<in> N" "x \<noteq> rc_root s" and eff: "detach_effect s x p t"
    and v: "valof s x = Some v"
  shows "slots N s = slots (N - {x}) t + mset v"
proof -
  have root: "rc_root t = rc_root s" and val: "valof t y = valof s y" for y
    using eff by (auto simp: detach_effect_def same_globals_def)
  have "N - {x} - {rc_root s} = N - {rc_root s} - {x}" by auto
  moreover have "slots N s = mset v + (\<Sum>n \<in> N - {rc_root s} - {x}. mset (the (valof s n)))"
    unfolding slots_def using x v struct_okD(1) [OF st] by (subst sum.remove [of _ x]) auto
  ultimately show ?thesis unfolding slots_def root by (simp add: val add.commute)
qed

section \<open>Deleting a leaf\<close>

lemma detach_rpath:
  assumes st: "struct_ok N s" and x: "x \<in> N" "x \<noteq> rc_root s" "kids_of s x = []" and p: "par s x = Some p"
    and eff: "detach_effect s x p t" and a: "a \<in> N" "a \<noteq> x" and n: "n \<in> N" "n \<noteq> x"
  shows "rpath t ek a n us vs \<longleftrightarrow> rpath s ek a n us vs"
proof
  have kids: "kids_of t y = (if y = p then dict_pop (ckey (rc_page_size s) (keyof s x)) (kids_of s p) else kids_of s y)"
    and same: "keyof t y = keyof s y" "valof t y = valof s y" for y
    using eff unfolding detach_effect_def by blast+
  have get: "dict_get (kids_of s y) ck = Some d \<longleftrightarrow>
      d \<in> N - {rc_root s} \<and> par s d = Some y \<and> ck = ckey (rc_page_size s) (keyof s d)" if "y \<in> N" for y ck d
    by (rule struct_okD(9) [OF st that])
  show "rpath t ek a n us vs" if "rpath s ek a n us vs"
    using that a n
  proof (induction rule: rpath.induct)
    case (cons a ck d w n us vs)
    have d: "d \<in> N" "d \<noteq> rc_root s" "par s d = Some a" "ck = ckey (rc_page_size s) (keyof s d)"
      using get [OF cons.prems(1)] cons.hyps(1) by auto
    have dx: "d \<noteq> x"
    proof
      assume "d = x"
      with cons.hyps(4) have "n = x" using x(3) by (cases rule: rpath.cases) auto
      then show False using cons.prems by simp
    qed
    have "ck \<noteq> ckey (rc_page_size s) (keyof s x)" if "a = p"
      using dx sibling_keys [OF st d(1,2) x(1,2) d(3)] p that d(4) by auto
    then have "dict_get (kids_of t a) ck = Some d" using cons.hyps(1) by (auto simp: kids)
    then show ?case using rpath.cons [of t a ck d ek w n us vs] cons d(1) dx by (simp add: same)
  qed (rule rpath.nil)
  show "rpath s ek a n us vs" if "rpath t ek a n us vs"
    using that a n
  proof (induction rule: rpath.induct)
    case (cons a ck d w n us vs)
    have g: "dict_get (kids_of s a) ck = Some d" and ck: "a = p \<longrightarrow> ck \<noteq> ckey (rc_page_size s) (keyof s x)"
      using cons.hyps(1) by (auto simp: kids split: if_splits)
    have d: "d \<in> N" "par s d = Some a" "ck = ckey (rc_page_size s) (keyof s d)"
      using get [OF cons.prems(1)] g by auto
    have "d \<noteq> x" using ck d p by auto
    with cons d(1) show ?case using rpath.cons [OF g, of ek w n us vs] by (simp add: same)
  qed (rule rpath.nil)
qed

lemma detach_cached:
  assumes st: "struct_ok N s" and x: "x \<in> N" "x \<noteq> rc_root s" "kids_of s x = []" and p: "par s x = Some p"
    and eff: "detach_effect s x p t" and c: "cached t ek us vs"
  shows "cached s ek us vs"
proof -
  have root: "rc_root s \<in> N" "rc_root t = rc_root s"
    using struct_okD(2) [OF st] eff by (simp_all add: detach_effect_def same_globals_def)
  have st': "struct_ok (N - {x}) t" by (rule detach_struct [OF st x p eff])
  from c obtain n W V where n: "rpath t ek (rc_root s) n W V" "prefix us W" "vs = take (length us) V"
    unfolding cached_def root(2) by blast
  have "n \<in> N" "n \<noteq> x" using rpath_live(1) [OF n(1) st'] root(1) x(2) by auto
  then have "rpath s ek (rc_root s) n W V"
    using detach_rpath [OF st x p eff root(1)] n(1) x(2) by auto
  then show ?thesis using n unfolding cached_def by blast
qed

section \<open>Steps that only refine the tree\<close>

definition refines :: "nat set \<Rightarrow> radix \<Rightarrow> nat set \<Rightarrow> radix \<Rightarrow> bool" where
  "refines N s N' t \<longleftrightarrow> N \<subseteq> N' \<and> same_globals s t \<and> rc_alloc t = rc_alloc s \<and>
     rc_evictable_size t = rc_evictable_size s \<and> rc_protected_size t = rc_protected_size s \<and>
     (\<forall>n \<in> N. lockof t n = lockof s n) \<and>
     (\<forall>ek us vs. cached t ek us vs \<longleftrightarrow> cached s ek us vs) \<and>
     (\<forall>ek a n us vs. a \<in> N \<longrightarrow> n \<in> N \<longrightarrow> rpath t ek a n us vs = rpath s ek a n us vs) \<and>
     slots N' t = slots N s"

lemma refinesD:
  assumes "refines N s N' t"
  shows "N \<subseteq> N'" "same_globals s t" "rc_alloc t = rc_alloc s" "rc_evictable_size t = rc_evictable_size s"
    "rc_protected_size t = rc_protected_size s" "n \<in> N \<Longrightarrow> lockof t n = lockof s n"
    "cached t ek us vs \<longleftrightarrow> cached s ek us vs"
    "a \<in> N \<Longrightarrow> n \<in> N \<Longrightarrow> rpath t ek a n us vs = rpath s ek a n us vs" "slots N' t = slots N s"
  using assms unfolding refines_def by blast+

lemma refines_shape: "same_shape s t \<Longrightarrow> refines N s N t"
  by (simp add: refines_def same_shape_globals same_shape_fields cached_shape rpath_shape slots_shape)

lemma refines_trans:
  assumes "refines N s N1 s1" and "refines N1 s1 N2 s2"
  shows "refines N s N2 s2"
proof -
  note a = refinesD [OF assms(1)] and b = refinesD [OF assms(2)]
  have "N \<subseteq> N2" using a(1) b(1) by blast
  moreover have "lockof s2 n = lockof s n" if "n \<in> N" for n using a(1,6) b(6) that by (metis subsetD)
  moreover have "rpath s2 ek x n us vs = rpath s ek x n us vs" if "x \<in> N" "n \<in> N" for ek x n us vs
    using a(1,8) b(8) that by (metis subsetD)
  ultimately show ?thesis
    using same_globals_trans [OF a(2) b(2)] a(3-5,7,9) b(3-5,7,9) unfolding refines_def by simp
qed

lemma refines_split:
  assumes st: "struct_ok N s" and c: "c \<in> N" "c \<noteq> rc_root s" and p: "par s c = Some p"
    and j: "0 < j" "j < rk_len (keyof s c)" "rc_page_size s dvd j"
    and m: "m = rc_counter s" and eff: "split_effect s c j p m t"
  shows "refines N s (insert m N) t"
proof -
  have mN: "m \<notin> N" using struct_okD(6) [OF st] m by blast
  have "same_globals s t" "rc_alloc t = rc_alloc s" "rc_evictable_size t = rc_evictable_size s"
    "rc_protected_size t = rc_protected_size s" "\<forall>n \<in> N. lockof t n = lockof s n"
    using eff mN by (auto simp: split_effect_def)
  then show ?thesis
    using split_cached [OF st c p j m eff] split_rpath [OF st c p j m eff] split_slots [OF st c p m eff]
    unfolding refines_def by blast
qed

section \<open>One step down the tree\<close>

text \<open>The keys a walk is called with: of the tree's view, in whole pages.\<close>

definition key_ok :: "radix \<Rightarrow> radix_key \<Rightarrow> bool" where
  "key_ok s k \<longleftrightarrow> is_bigram k = rc_is_eagle s \<and> rc_page_size s dvd rk_len k"

lemma key_ok_globals: "same_globals s t \<Longrightarrow> key_ok t k = key_ok s k"
  by (simp add: key_ok_def same_globals_def)

lemma key_ok_drop: "key_ok s k \<Longrightarrow> rc_page_size s dvd j \<Longrightarrow> j \<le> rk_len k \<Longrightarrow> key_ok s (rk_drop k j)"
  by (simp add: key_ok_def)

lemma child_key_ckey:
  "key_ok s k \<Longrightarrow> 0 < rc_page_size s \<Longrightarrow> 0 < rk_len k \<Longrightarrow>
    child_key (rc_page_size s) k = Inr (ckey (rc_page_size s) k)"
  by (simp add: key_ok_def child_key_units ckey_def dvd_imp_le)

lemma ckey_drop: "ckey ps (rk_drop k j) = (extra_key k, take ps (drop j (rk_units k)))"
  by (simp only: ckey_def rk_units_drop rk_slice_fields)

lemma descend_match:
  assumes st: "struct_ok N s" and n: "n \<in> N" and k: "key_ok s k" "0 < rk_len k"
    and c: "dict_get (kids_of s n) (ckey (rc_page_size s) k) = Some c"
  defines "j \<equiv> common_len (rk_units (keyof s c)) (rk_units k) div rc_page_size s * rc_page_size s"
  shows "c \<in> N" "c \<noteq> rc_root s" "par s c = Some n" "extra_key (keyof s c) = extra_key k"
    "rk_match (rc_page_size s) (keyof s c) k = Inr j" "rc_page_size s \<le> j" "rc_page_size s dvd j"
    "j \<le> rk_len (keyof s c)" "j \<le> rk_len k" "take j (rk_units (keyof s c)) = take j (rk_units k)"
    "j < rk_len (keyof s c) \<Longrightarrow> j < rk_len k \<Longrightarrow>
       ckey (rc_page_size s) (rk_drop (keyof s c) j) \<noteq> ckey (rc_page_size s) (rk_drop k j)"
proof -
  let ?ps = "rc_page_size s" and ?uc = "rk_units (keyof s c)" and ?u = "rk_units k"
  have ps: "0 < ?ps" by (rule struct_okD(3) [OF st])
  show cN: "c \<in> N" "c \<noteq> rc_root s" and "par s c = Some n" using struct_okD(9) [OF st n] c by auto
  have ck: "ckey ?ps k = ckey ?ps (keyof s c)" using struct_okD(9) [OF st n] c by blast
  then show ek: "extra_key (keyof s c) = extra_key k" by (simp add: ckey_def)
  note nd = node_okD [OF st cN]
  show "rk_match ?ps (keyof s c) k = Inr j"
    unfolding j_def using rk_match_units [OF ps ek] nd k by (simp add: key_ok_def)
  have "?ps \<le> rk_len k" using k by (simp add: key_ok_def dvd_imp_le)
  moreover have "take ?ps ?uc = take ?ps ?u" using ck by (simp add: ckey_def)
  ultimately have "?ps \<le> common_len ?uc ?u" using nd(4) by (intro common_len_maximal) auto
  then show "?ps \<le> j" unfolding j_def using ps by (metis div_greater_zero_iff mult_le_mono1 mult_1 Suc_leI One_nat_def)
  show dvd: "?ps dvd j" by (simp add: j_def)
  have jc: "j \<le> common_len ?uc ?u" by (simp add: j_def)
  then show le: "j \<le> rk_len (keyof s c)" "j \<le> rk_len k"
    using common_len_le [of ?uc ?u] by simp_all
  show same: "take j ?uc = take j ?u"
    using jc common_len_take [of ?uc ?u] by (metis min.absorb1 take_take)
  show "ckey ?ps (rk_drop (keyof s c) j) \<noteq> ckey ?ps (rk_drop k j)"
    if less: "j < rk_len (keyof s c)" "j < rk_len k"
  proof
    assume "ckey ?ps (rk_drop (keyof s c) j) = ckey ?ps (rk_drop k j)"
    then have "take ?ps (drop j ?uc) = take ?ps (drop j ?u)" by (simp add: ckey_def)
    with same have "take (j + ?ps) ?uc = take (j + ?ps) ?u" by (simp add: take_add)
    moreover have "?ps dvd rk_len (keyof s c) - j" "?ps dvd rk_len k - j" using nd(2) k dvd by (simp_all add: key_ok_def)
    then have "?ps \<le> rk_len (keyof s c) - j" "?ps \<le> rk_len k - j" using less by (auto intro: dvd_imp_le)
    ultimately have "j + ?ps \<le> common_len ?uc ?u" using le by (intro common_len_maximal) auto
    then have "(j + ?ps) div ?ps \<le> common_len ?uc ?u div ?ps" by (rule div_le_mono)
    moreover have "j div ?ps = common_len ?uc ?u div ?ps" using ps by (simp add: j_def)
    moreover have "(j + ?ps) div ?ps = j div ?ps + 1" using ps by (intro div_add_self2) simp
    ultimately show False by linarith
  qed
qed

lemma descend_split:
  assumes inv: "tree_inv N L s" and path: "rpath s (extra_key k) (rc_root s) n U V"
    and k: "key_ok s k" "0 < rk_len k"
    and c: "dict_get (kids_of s n) (ckey (rc_page_size s) k) = Some c"
    and match: "rk_match (rc_page_size s) (keyof s c) k = Inr j" and less: "j < rk_len (keyof s c)"
  shows "\<exists>m t v. split_node (keyof s c) c j s = (Inr m, t) \<and> tree_inv (insert m N) L t \<and>
    refines N s (insert m N) t \<and> valof t m = Some v \<and>
    rpath t (extra_key k) (rc_root t) m (U @ take j (rk_units k)) (V @ v) \<and>
    (j < rk_len k \<longrightarrow> dict_get (kids_of t m) (ckey (rc_page_size s) (rk_drop k j)) = None)"
proof -
  let ?m = "rc_counter s"
  have st: "struct_ok N s" using inv by (simp add: tree_inv_def)
  have n: "n \<in> N" by (rule rpath_live(1) [OF path st struct_okD(2) [OF st]])
  note d = descend_match [OF st n k c]
  have j: "j = common_len (rk_units (keyof s c)) (rk_units k) div rc_page_size s * rc_page_size s"
    using d(5) match by simp
  note d = d [folded j]
  have j0: "0 < j" using d(6) struct_okD(3) [OF st] by simp
  from split_node_effect [OF st d(1-3) j0 less d(7)] obtain t where
    t: "split_node (keyof s c) c j s = (Inr ?m, t)" "split_effect s c j n ?m t" by blast
  obtain v where v: "valof s c = Some v" using node_okD(5) [OF st d(1,2)] by blast
  have ref: "refines N s (insert ?m N) t" by (rule refines_split [OF st d(1-3) j0 less d(7) refl t(2)])
  have root: "rc_root t = rc_root s" using t(2) by (simp add: split_effect_def same_globals_def)
  have "rpath t (extra_key k) (rc_root t) n U V"
    using refinesD(8) [OF ref struct_okD(2) [OF st] n] path root by simp
  from rpath_trans [OF this] split_rpath_new(1) [OF st d(1-3) j0 less d(7) refl t(2) v] d(4,10)
  have "rpath t (extra_key k) (rc_root t) ?m (U @ take j (rk_units k)) (V @ take j v)" by simp
  moreover have "valof t ?m = Some (take j v)"
    and "kids_of t ?m = [(ckey (rc_page_size s) (rk_drop (keyof s c) j), c)]"
    using t(2) v by (auto simp: split_effect_def)
  ultimately show ?thesis
    using t(1) ref split_inv [OF inv d(1-3) j0 less d(7) refl t(2)] d(11) less
    by (intro exI [of _ ?m] exI [of _ t] exI [of _ "take j v"]) auto
qed

lemma descend_full:
  assumes st: "struct_ok N s" and path: "rpath s (extra_key k) (rc_root s) n U V"
    and k: "key_ok s k" "0 < rk_len k"
    and c: "dict_get (kids_of s n) (ckey (rc_page_size s) k) = Some c"
    and match: "rk_match (rc_page_size s) (keyof s c) k = Inr j" and full: "\<not> j < rk_len (keyof s c)"
  shows "\<exists>v. valof s c = Some v \<and> rpath s (extra_key k) (rc_root s) c (U @ take j (rk_units k)) (V @ v)"
proof -
  have n: "n \<in> N" by (rule rpath_live(1) [OF path st struct_okD(2) [OF st]])
  note d = descend_match [OF st n k c]
  have j: "j = common_len (rk_units (keyof s c)) (rk_units k) div rc_page_size s * rc_page_size s"
    using d(5) match by simp
  note d = d [folded j]
  obtain v where v: "valof s c = Some v" using node_okD(5) [OF st d(1,2)] by blast
  have "rk_units (keyof s c) = take j (rk_units k)" using d(8,10) full by simp
  then show ?thesis using rpath_snoc [OF path c d(4) v] v by auto
qed

section \<open>Matching a prefix\<close>

text \<open>Where a walk that spelled \<open>U\<close> ends: it read the first units of the key, and no more are cached.\<close>

definition walk_end :: "radix \<Rightarrow> radix_key \<Rightarrow> key_unit list \<Rightarrow> nat \<Rightarrow> nat \<Rightarrow> kv_index list \<Rightarrow> bool" where
  "walk_end t k U j m V \<longleftrightarrow> j \<le> rk_len k \<and> rc_page_size t dvd j \<and>
     rpath t (extra_key k) (rc_root t) m (U @ take j (rk_units k)) V \<and>
     (j < rk_len k \<longrightarrow> dict_get (kids_of t m) (ckey (rc_page_size t) (rk_drop k j)) = None)"

lemma walk_end_stop:
  assumes "rpath s (extra_key k) (rc_root s) n U V"
    and "\<not> (0 < rk_len k \<and> dict_has (kids_of s n) ck)" and "0 < rk_len k \<Longrightarrow> ck = ckey (rc_page_size s) k"
  shows "walk_end s k U 0 n V"
proof -
  have "ckey (rc_page_size s) (rk_drop k 0) = ckey (rc_page_size s) k" unfolding ckey_drop by (simp add: ckey_def)
  with assms show ?thesis by (auto simp: walk_end_def dict_has_iff)
qed

lemma walk_end_later:
  assumes "walk_end t (rk_drop k j) (U @ take j (rk_units k)) i m V" and "j \<le> rk_len k" and "rc_page_size t dvd j"
  shows "walk_end t k U (j + i) m V"
proof -
  have "ckey (rc_page_size t) (rk_drop (rk_drop k j) i) = ckey (rc_page_size t) (rk_drop k (j + i))"
    unfolding ckey_drop rk_units_drop rk_slice_fields by (simp add: add.commute)
  moreover have "take j (rk_units k) @ take i (drop j (rk_units k)) = take (j + i) (rk_units k)"
    by (simp add: take_add)
  ultimately show ?thesis using assms by (auto simp: walk_end_def)
qed

lemma match_loop_walk:
  assumes "tree_inv N L s" and "rpath s (extra_key k) (rc_root s) n U V" and "key_ok s k"
    and "0 < rk_len k \<Longrightarrow> ck = ckey (rc_page_size s) k"
    and "None \<notin> set acc" and "concat (map the acc) = V"
  shows "\<exists>vs m t N' j. match_loop n k ck tm acc s = Some (Inr (vs, m), t) \<and> tree_inv N' L t \<and> refines N s N' t \<and>
    None \<notin> set vs \<and> walk_end t k U j m (concat (map the vs))"
  using assms
proof (induction "rk_len k" arbitrary: k s n U V ck acc N rule: less_induct)
  case less
  let ?ps = "rc_page_size s"
  have st: "struct_ok N s" using less.prems(1) by (simp add: tree_inv_def)
  show ?case
  proof (cases "0 < rk_len k \<and> dict_has (kids_of s n) ck")
    case False
    then have "match_loop n k ck tm acc s = Some (Inr (acc, n), s)" by (subst match_loop.simps) (simp only: False if_False)
    then show ?thesis
      using less.prems refines_shape [OF same_shape_refl] walk_end_stop [OF less.prems(2) False less.prems(4)] by blast
  next
    case True
    then have ck: "ck = ckey ?ps k" using less.prems(4) by simp
    from True obtain c where c: "dict_get (kids_of s n) (ckey ?ps k) = Some c" unfolding ck dict_has_iff by blast
    define s1 where "s1 = upd_node c (\<lambda>nd. nd\<lparr>nd_last_access := tm\<rparr>) s"
    have sh: "same_shape s s1" by (simp add: s1_def)
    note f = same_shape_fields [OF sh]
    have inv1: "tree_inv N L s1" by (rule tree_inv_shape [OF less.prems(1) sh])
    then have st1: "struct_ok N s1" by (simp add: tree_inv_def)
    have path1: "rpath s1 (extra_key k) (rc_root s1) n U V" using less.prems(2) by (simp add: rpath_shape [OF sh] f)
    have k1: "key_ok s1 k" "0 < rk_len k" using less.prems(3) True by (simp_all add: key_ok_def f)
    have c1: "dict_get (kids_of s1 n) (ckey (rc_page_size s1) k) = Some c" using c by (simp add: f)
    have nN: "n \<in> N" by (rule rpath_live(1) [OF path1 st1 struct_okD(2) [OF st1]])
    note d = descend_match [OF st1 nN k1 c1]
    define j where "j = common_len (rk_units (keyof s1 c)) (rk_units k) div rc_page_size s1 * rc_page_size s1"
    note d = d [folded j_def]
    have ref1: "refines N s N s1" by (rule refines_shape [OF sh])
    show ?thesis
    proof (cases "j < rk_len (keyof s1 c)")
      case split: True
      from descend_split [OF inv1 path1 k1 c1 d(5) split] obtain m t v where
        t: "split_node (keyof s1 c) c j s1 = (Inr m, t)" "tree_inv (insert m N) L t" "refines N s1 (insert m N) t"
          "valof t m = Some v" "rpath t (extra_key k) (rc_root t) m (U @ take j (rk_units k)) (V @ v)"
          "j < rk_len k \<longrightarrow> dict_get (kids_of t m) (ckey (rc_page_size s1) (rk_drop k j)) = None" by blast
      have "match_loop n k ck tm acc s = Some (Inr (acc @ [valof t m], m), t)"
        using True c d(5) split t(1) ck by (subst match_loop.simps) (simp add: s1_def [symmetric] f)
      moreover have "rc_page_size t = rc_page_size s1" using refinesD(2) [OF t(3)] by (simp add: same_globals_def)
      then have "walk_end t k U j m (concat (map the (acc @ [valof t m])))"
        using t(4-6) d(7,9) less.prems(6) by (simp add: walk_end_def)
      ultimately show ?thesis
        using t(2,4) refines_trans [OF ref1 t(3)] less.prems(5)
        by (intro exI [of _ "acc @ [valof t m]"] exI [of _ m] exI [of _ t] exI [of _ "insert m N"] exI [of _ j]) simp
    next
      case full: False
      from descend_full [OF st1 path1 k1 c1 d(5) full] obtain v where
        v: "valof s1 c = Some v" "rpath s1 (extra_key k) (rc_root s1) c (U @ take j (rk_units k)) (V @ v)" by blast
      let ?k = "rk_drop k j"
      have small: "rk_len ?k < rk_len k" using d(6) struct_okD(3) [OF st1] k1(2) by simp
      have k': "key_ok s1 ?k" using key_ok_drop [OF k1(1) d(7,9)] .
      define ck' where "ck' = (if rk_len ?k \<noteq> 0 then ckey (rc_page_size s1) ?k else ck)"
      have "match_loop n k ck tm acc s = match_loop c ?k ck' tm (acc @ [valof s1 c]) s1"
        using True c d(5) full ck child_key_ckey [OF k' struct_okD(3) [OF st1]] f
        by (subst match_loop.simps) (simp add: s1_def [symmetric] ck'_def Let_def)
      moreover have "\<exists>vs m t N' i. match_loop c ?k ck' tm (acc @ [valof s1 c]) s1 = Some (Inr (vs, m), t) \<and>
          tree_inv N' L t \<and> refines N s1 N' t \<and> None \<notin> set vs \<and>
          walk_end t ?k (U @ take j (rk_units k)) i m (concat (map the vs))"
        by (rule less.hyps [OF small inv1 _ k', where V = "V @ v"]) (use v less.prems(5,6) in \<open>simp_all add: ck'_def\<close>)
      then obtain vs m t N' i where
        t: "match_loop c ?k ck' tm (acc @ [valof s1 c]) s1 = Some (Inr (vs, m), t)" "tree_inv N' L t" "refines N s1 N' t"
          "None \<notin> set vs" "walk_end t ?k (U @ take j (rk_units k)) i m (concat (map the vs))" by blast
      moreover have "rc_page_size t = rc_page_size s1" using refinesD(2) [OF t(3)] by (simp add: same_globals_def)
      then have "walk_end t k U (j + i) m (concat (map the vs))"
        using walk_end_later [OF t(5) d(9)] d(7) by simp
      ultimately show ?thesis using refines_trans [OF ref1 t(3)] by auto
    qed
  qed
qed

text \<open>A walk from the root ends with the longest cached prefix in whole pages.\<close>

lemma walk_end_cached:
  assumes st: "struct_ok N t" and w: "walk_end t k [] j m V"
  shows "m \<in> N" "length V = j" "cached t (extra_key k) (take j (rk_units k)) V"
    "rc_page_size t dvd l \<Longrightarrow> l \<le> rk_len k \<Longrightarrow> cached t (extra_key k) (take l (rk_units k)) ws \<Longrightarrow> l \<le> j"
proof -
  let ?ps = "rc_page_size t"
  have j: "j \<le> rk_len k" "?ps dvd j" and p: "rpath t (extra_key k) (rc_root t) m (take j (rk_units k)) V"
    and none: "j < rk_len k \<Longrightarrow> dict_get (kids_of t m) (ckey ?ps (rk_drop k j)) = None"
    using w by (auto simp: walk_end_def)
  show "m \<in> N" and len: "length V = j"
    using rpath_live(1,2) [OF p st struct_okD(2) [OF st]] j(1) by auto
  show "cached t (extra_key k) (take j (rk_units k)) V"
    unfolding cached_def using p len j(1) by (intro exI [of _ m] exI [of _ "take j (rk_units k)"] exI [of _ V]) simp
  show "l \<le> j" if l: "?ps dvd l" "l \<le> rk_len k" "cached t (extra_key k) (take l (rk_units k)) ws"
  proof (rule ccontr)
    assume "\<not> l \<le> j"
    then have less: "j < l" by simp
    then have "?ps \<le> l - j" using l(1) j(2) by (intro dvd_imp_le) auto
    define pg where "pg = take ?ps (drop j (rk_units k))"
    have "length pg = ?ps" using \<open>?ps \<le> l - j\<close> l(2) by (simp add: pg_def)
    moreover have "take l (rk_units k) = take j (rk_units k) @ pg @ drop (j + ?ps) (take l (rk_units k))"
    proof -
      have "take j (rk_units k) @ pg = take (j + ?ps) (rk_units k)" by (simp add: pg_def take_add)
      also have "\<dots> = take (j + ?ps) (take l (rk_units k))" using \<open>?ps \<le> l - j\<close> less by (simp add: min_def)
      finally show ?thesis by (metis append.assoc append_take_drop_id)
    qed
    moreover have "dict_get (kids_of t m) (extra_key k, pg) = None"
      using none less l(2) by (simp add: ckey_drop pg_def)
    ultimately show False using cached_maximal [OF st p] l(3) by metis
  qed
qed

text \<open>The key as the tree sees it.\<close>

definition view_key :: "radix \<Rightarrow> radix_key \<Rightarrow> radix_key" where
  "view_key s k = page_aligned (rc_page_size s) (fst (maybe_to_bigram_view (rc_is_eagle s) k None))"

definition key_for :: "radix \<Rightarrow> radix_key \<Rightarrow> bool" where
  "key_for s k \<longleftrightarrow> (is_bigram k \<longrightarrow> rc_is_eagle s)"

lemma view_key_ok: "key_for s k \<Longrightarrow> key_ok s (view_key s k)"
  by (auto simp: key_for_def key_ok_def view_key_def maybe_to_bigram_view_def Let_def)

lemma view_key_extra [simp]: "extra_key (view_key s k) = extra_key k"
  by (simp add: view_key_def maybe_to_bigram_view_def Let_def)

lemma view_key_globals: "same_globals s t \<Longrightarrow> view_key t k = view_key s k"
  by (simp add: view_key_def same_globals_def)

lemma walk_start:
  assumes "same_shape s t"
  shows "rpath t ek (rc_root s) (rc_root s) [] []" "rc_root t = rc_root s"
  using same_shape_fields(6) [OF assms] rpath.nil by auto

lemma match_prefix_walk:
  assumes inv: "tree_inv N L s" and on: "\<not> rc_disable s" and k: "key_for s k"
  shows "\<exists>vs m t N' j. match_prefix k s = Some (Inr (vs, m), t) \<and> tree_inv N' L t \<and> refines N s N' t \<and>
    walk_end t (view_key s k) [] j m vs"
proof -
  let ?k = "view_key s k"
  have st: "struct_ok N s" using inv by (simp add: tree_inv_def)
  note ko = view_key_ok [OF k]
  show ?thesis
  proof (cases "rk_len ?k = 0")
    case True
    then have "match_prefix k s = Some (Inr ([], rc_root s), s)"
      by (auto simp: match_prefix_def Let_def view_key_def)
    moreover have "walk_end s ?k [] 0 (rc_root s) []"
      using True rpath.nil by (simp add: walk_end_def)
    ultimately show ?thesis using inv refines_shape [OF same_shape_refl] by blast
  next
    case False
    obtain tm s1 where clk: "read_clock s = (tm, s1)" by fastforce
    define s2 where "s2 = upd_node (rc_root s) (\<lambda>nd. nd\<lparr>nd_last_access := tm\<rparr>) s1"
    have sh: "same_shape s s2"
      unfolding s2_def by (rule same_shape_trans [OF same_shape_clock [OF clk] same_shape_touch])
    note f = same_shape_fields [OF sh]
    have ck: "child_key (rc_page_size s2) ?k = Inr (ckey (rc_page_size s2) ?k)"
      using child_key_ckey [OF ko struct_okD(3) [OF st]] False by (simp add: f)
    have ko2: "key_ok s2 ?k" using ko by (simp add: key_ok_def f)
    have start: "rpath s2 (extra_key ?k) (rc_root s2) (rc_root s) [] []" using walk_start [OF sh] by metis
    have "\<exists>vs m t N' j. match_loop (rc_root s) ?k (ckey (rc_page_size s2) ?k) tm [] s2 = Some (Inr (vs, m), t) \<and>
        tree_inv N' L t \<and> refines N s2 N' t \<and> None \<notin> set vs \<and> walk_end t ?k [] j m (concat (map the vs))"
      by (rule match_loop_walk [OF tree_inv_shape [OF inv sh] start ko2]) simp_all
    then obtain vs m t N' j where
      t: "match_loop (rc_root s) ?k (ckey (rc_page_size s2) ?k) tm [] s2 = Some (Inr (vs, m), t)" "tree_inv N' L t"
        "refines N s2 N' t" "None \<notin> set vs" "walk_end t ?k [] j m (concat (map the vs))" by blast
    have helper: "match_prefix_helper (rc_root s) ?k s = Some (Inr (vs, m), t)"
      using clk ck t(1) by (simp add: match_prefix_helper_def s2_def [symmetric])
    have "match_prefix k s = Some (Inr (concat (map the vs), m), t)"
      using False on helper t(4) unfolding match_prefix_def Let_def view_key_def [symmetric]
      by (auto simp: torch_cat_def view_key_def)
    then show ?thesis using t(2,5) refines_trans [OF refines_shape [OF sh] t(3)] by blast
  qed
qed

section \<open>Inserting\<close>

lemma insert_loop_walk:
  assumes "tree_inv N L s" and "rpath s (extra_key k) (rc_root s) n U V" and "key_ok s k"
    and "0 < rk_len k \<Longrightarrow> ck = ckey (rc_page_size s) k"
  shows "\<exists>m k' ck' t N' j W. insert_loop n k v ck tm prio chunked tot s =
      Some (Inr (m, k', drop j v, ck', tot + j), t) \<and> tree_inv N' L t \<and> refines N s N' t \<and>
    walk_end t k U j m W \<and> rk_units k' = drop j (rk_units k) \<and> extra_key k' = extra_key k \<and> is_bigram k' = is_bigram k \<and>
    (j < rk_len k \<longrightarrow> ck' = ckey (rc_page_size s) k')"
  using assms
proof (induction "rk_len k" arbitrary: k s n U V ck v tot N rule: less_induct)
  case less
  let ?ps = "rc_page_size s"
  have st: "struct_ok N s" using less.prems(1) by (simp add: tree_inv_def)
  show ?case
  proof (cases "0 < rk_len k \<and> dict_has (kids_of s n) ck")
    case False
    then have "insert_loop n k v ck tm prio chunked tot s = Some (Inr (n, k, v, ck, tot), s)"
      by (subst insert_loop.simps) (simp only: False if_False)
    then show ?thesis
      using less.prems(1,4) refines_shape [OF same_shape_refl] walk_end_stop [OF less.prems(2) False less.prems(4)]
      by (intro exI [of _ n] exI [of _ k] exI [of _ ck] exI [of _ s] exI [of _ N] exI [of _ 0] exI [of _ V]) simp
  next
    case True
    then have ck: "ck = ckey ?ps k" using less.prems(4) by simp
    from True obtain c where c: "dict_get (kids_of s n) (ckey ?ps k) = Some c" unfolding ck dict_has_iff by blast
    define s1 where "s1 = upd_node c (\<lambda>nd. nd\<lparr>nd_last_access := tm\<rparr>) s"
    have sh: "same_shape s s1" by (simp add: s1_def)
    note f = same_shape_fields [OF sh]
    have inv1: "tree_inv N L s1" by (rule tree_inv_shape [OF less.prems(1) sh])
    then have st1: "struct_ok N s1" by (simp add: tree_inv_def)
    have path1: "rpath s1 (extra_key k) (rc_root s1) n U V" using less.prems(2) by (simp add: rpath_shape [OF sh] f)
    have k1: "key_ok s1 k" "0 < rk_len k" using less.prems(3) True by (simp_all add: key_ok_def f)
    have c1: "dict_get (kids_of s1 n) (ckey (rc_page_size s1) k) = Some c" using c by (simp add: f)
    have nN: "n \<in> N" by (rule rpath_live(1) [OF path1 st1 struct_okD(2) [OF st1]])
    note d = descend_match [OF st1 nN k1 c1]
    define j where "j = common_len (rk_units (keyof s1 c)) (rk_units k) div rc_page_size s1 * rc_page_size s1"
    note d = d [folded j_def]
    let ?go = "if j < rk_len (keyof s1 c) then split_node (keyof s1 c) c j s1 else (Inr c, s1)"
    have "\<exists>m s2 N2 W. ?go = (Inr m, s2) \<and> tree_inv N2 L s2 \<and> refines N s1 N2 s2 \<and>
        rpath s2 (extra_key k) (rc_root s2) m (U @ take j (rk_units k)) W"
    proof (cases "j < rk_len (keyof s1 c)")
      case split: True
      from descend_split [OF inv1 path1 k1 c1 d(5) split] split show ?thesis by auto
    next
      case full: False
      from descend_full [OF st1 path1 k1 c1 d(5) full] full inv1 refines_shape [OF same_shape_refl]
      show ?thesis by auto
    qed
    then obtain m s2 N2 W where s2: "?go = (Inr m, s2)" "tree_inv N2 L s2" "refines N s1 N2 s2"
      "rpath s2 (extra_key k) (rc_root s2) m (U @ take j (rk_units k)) W" by blast
    define s3 where "s3 = inc_hit_count chunked m (raise_priority prio m s2)"
    have sh3: "same_shape s2 s3"
      unfolding s3_def by (rule same_shape_trans [OF same_shape_priority same_shape_hit])
    note f3 = same_shape_fields [OF sh3]
    have ref: "refines N s N2 s3"
      using refines_trans [OF refines_shape [OF sh] refines_trans [OF s2(3) refines_shape [OF sh3]]] .
    have inv3: "tree_inv N2 L s3" by (rule tree_inv_shape [OF s2(2) sh3])
    have g: "rc_page_size s3 = ?ps" using refinesD(2) [OF ref] by (simp add: same_globals_def)
    have path3: "rpath s3 (extra_key k) (rc_root s3) m (U @ take j (rk_units k)) W"
      using s2(4) by (simp add: rpath_shape [OF sh3] f3)
    let ?k = "rk_drop k j"
    have small: "rk_len ?k < rk_len k" using d(6) struct_okD(3) [OF st1] k1(2) by simp
    have k': "key_ok s3 ?k"
      using key_ok_drop [OF k1(1) d(7,9)]
        key_ok_globals [OF refinesD(2) [OF refines_trans [OF s2(3) refines_shape [OF sh3]]]] by blast
    define ck' where "ck' = (if rk_len ?k \<noteq> 0 then ckey (rc_page_size s3) ?k else ck)"
    have "insert_loop n k v ck tm prio chunked tot s = insert_loop m ?k (drop j v) ck' tm prio chunked (tot + j) s3"
    proof -
      have "child_key (rc_page_size s3) ?k = Inr (ckey (rc_page_size s3) ?k)" if "rk_len ?k \<noteq> 0"
        using child_key_ckey [OF k'] struct_okD(3) [OF st] g that by simp
      then show ?thesis
        using True c d(5) s2(1) ck
        by (subst insert_loop.simps) (simp add: s1_def [symmetric] s3_def [symmetric] ck'_def Let_def)
    qed
    moreover have "\<exists>m' k' ck'' t N' i W'. insert_loop m ?k (drop j v) ck' tm prio chunked (tot + j) s3 =
        Some (Inr (m', k', drop i (drop j v), ck'', tot + j + i), t) \<and> tree_inv N' L t \<and> refines N2 s3 N' t \<and>
        walk_end t ?k (U @ take j (rk_units k)) i m' W' \<and> rk_units k' = drop i (rk_units ?k) \<and>
        extra_key k' = extra_key ?k \<and> is_bigram k' = is_bigram ?k \<and>
        (i < rk_len ?k \<longrightarrow> ck'' = ckey (rc_page_size s3) k')"
      by (rule less.hyps [OF small inv3 _ k', where V = W]) (use path3 in \<open>simp_all add: ck'_def\<close>)
    then obtain m' k' ck'' t N' i W' where
      t: "insert_loop m ?k (drop j v) ck' tm prio chunked (tot + j) s3 =
          Some (Inr (m', k', drop i (drop j v), ck'', tot + j + i), t)"
        "tree_inv N' L t" "refines N2 s3 N' t" "walk_end t ?k (U @ take j (rk_units k)) i m' W'"
        "rk_units k' = drop i (rk_units ?k)" "extra_key k' = extra_key ?k" "is_bigram k' = is_bigram ?k"
        "i < rk_len ?k \<longrightarrow> ck'' = ckey (rc_page_size s3) k'" by blast
    have "rc_page_size t = rc_page_size s3" using refinesD(2) [OF t(3)] by (simp add: same_globals_def)
    then have "walk_end t k U (j + i) m' W'" using walk_end_later [OF t(4) d(9)] d(7) g f by simp
    moreover have "drop i (drop j v) = drop (j + i) v" "rk_units k' = drop (j + i) (rk_units k)" "tot + j + i = tot + (j + i)"
      using t(5) by (simp_all add: add.commute)
    moreover have "j + i < rk_len k \<longrightarrow> ck'' = ckey ?ps k'" using t(8) g by auto
    ultimately show ?thesis using t(1,2,6,7) refines_trans [OF ref t(3)] by auto
  qed
qed

text \<open>
  What an insertion does: the part of the key beyond the longest cached prefix becomes cached, with
  the slots given for it; the tree takes over these slots and nothing else changes.
\<close>

definition inserted ::
  "nat set \<Rightarrow> radix \<Rightarrow> radix_key \<Rightarrow> kv_index list \<Rightarrow> nat \<Rightarrow> nat set \<Rightarrow> radix \<Rightarrow> bool" where
  "inserted N s k v j N' t \<longleftrightarrow>
     N \<subseteq> N' \<and> same_globals s t \<and> rc_alloc t = rc_alloc s \<and> (\<forall>n \<in> N. lockof t n = lockof s n) \<and>
     rc_evictable_size t = rc_evictable_size s + int (rk_len k - j) \<and> rc_protected_size t = rc_protected_size s \<and>
     slots N' t = slots N s + mset (drop j v) \<and>
     (\<forall>ek a n us vs. a \<in> N \<longrightarrow> n \<in> N \<longrightarrow> rpath t ek a n us vs = rpath s ek a n us vs) \<and>
     j \<le> rk_len k \<and> rc_page_size s dvd j \<and>
     (\<exists>V. length V = j \<and> cached s (extra_key k) (take j (rk_units k)) V \<and>
        (\<forall>ek us vs. cached t ek us vs \<longleftrightarrow> cached s ek us vs \<or>
           (ek = extra_key k \<and> prefix us (rk_units k) \<and> vs = take (length us) (V @ drop j v)))) \<and>
     (\<forall>l ws. rc_page_size s dvd l \<and> l \<le> rk_len k \<and> cached s (extra_key k) (take l (rk_units k)) ws \<longrightarrow> l \<le> j)"

lemma insertedI:
  assumes "N \<subseteq> N'" "same_globals s t" "rc_alloc t = rc_alloc s" "\<And>n. n \<in> N \<Longrightarrow> lockof t n = lockof s n"
    "rc_evictable_size t = rc_evictable_size s + int (rk_len k - j)" "rc_protected_size t = rc_protected_size s"
    "slots N' t = slots N s + mset (drop j v)"
    "\<And>ek a n us vs. a \<in> N \<Longrightarrow> n \<in> N \<Longrightarrow> rpath t ek a n us vs = rpath s ek a n us vs"
    "j \<le> rk_len k" "rc_page_size s dvd j" "length V = j" "cached s (extra_key k) (take j (rk_units k)) V"
    "\<And>ek us vs. cached t ek us vs \<longleftrightarrow> cached s ek us vs \<or>
       (ek = extra_key k \<and> prefix us (rk_units k) \<and> vs = take (length us) (V @ drop j v))"
    "\<And>l ws. rc_page_size s dvd l \<Longrightarrow> l \<le> rk_len k \<Longrightarrow> cached s (extra_key k) (take l (rk_units k)) ws \<Longrightarrow> l \<le> j"
  shows "inserted N s k v j N' t"
  unfolding inserted_def using assms(1-10,14) by (intro conjI exI [of _ V] allI impI assms) blast+

lemma insertedE:
  assumes "inserted N s k v j N' t"
  obtains V where "N \<subseteq> N'" "same_globals s t" "rc_alloc t = rc_alloc s" "\<forall>n \<in> N. lockof t n = lockof s n"
    "rc_evictable_size t = rc_evictable_size s + int (rk_len k - j)" "rc_protected_size t = rc_protected_size s"
    "slots N' t = slots N s + mset (drop j v)"
    "\<forall>ek a n us vs. a \<in> N \<longrightarrow> n \<in> N \<longrightarrow> rpath t ek a n us vs = rpath s ek a n us vs"
    "j \<le> rk_len k" "rc_page_size s dvd j" "length V = j" "cached s (extra_key k) (take j (rk_units k)) V"
    "\<forall>ek us vs. cached t ek us vs \<longleftrightarrow> cached s ek us vs \<or>
       (ek = extra_key k \<and> prefix us (rk_units k) \<and> vs = take (length us) (V @ drop j v))"
    "\<forall>l ws. rc_page_size s dvd l \<and> l \<le> rk_len k \<and> cached s (extra_key k) (take l (rk_units k)) ws \<longrightarrow> l \<le> j"
  using assms unfolding inserted_def by (elim conjE exE) (rule that; assumption)

lemma cached_prefix:
  assumes "cached s ek us vs" and "prefix us' us"
  shows "cached s ek us' (take (length us') vs)"
proof -
  from assms(1) obtain n W V where "rpath s ek (rc_root s) n W V" "prefix us W" "vs = take (length us) V"
    unfolding cached_def by blast
  moreover from assms(2) have "length us' \<le> length us" by (rule prefix_length_le)
  ultimately show ?thesis
    unfolding cached_def using assms(2) prefix_order.trans by (intro exI [of _ n] exI [of _ W] exI [of _ V]) auto
qed

lemma inserted_whole:
  assumes st: "struct_ok N' t" and ref: "refines N s N' t" and w: "walk_end t k [] (rk_len k) m V"
    and v: "length v = rk_len k"
  shows "inserted N s k v (rk_len k) N' t"
proof -
  note r = refinesD [OF ref] and c = walk_end_cached [OF st w]
  have ps: "rc_page_size t = rc_page_size s" using r(2) by (simp add: same_globals_def)
  have whole: "cached s (extra_key k) (rk_units k) V" using c(3) r(7) by simp
  show ?thesis
  proof (rule insertedI [where V = V])
    show "cached t ek us vs \<longleftrightarrow> cached s ek us vs \<or>
        (ek = extra_key k \<and> prefix us (rk_units k) \<and> vs = take (length us) (V @ drop (rk_len k) v))" for ek us vs
      using cached_prefix [OF whole, of us] r(7) v by auto
  qed (use r v c(2) whole w ps in \<open>simp_all add: walk_end_def\<close>)
qed

lemma insert_leaf:
  assumes inv: "tree_inv N' L t" and ref: "refines N s N' t" and w: "walk_end t k [] j m V"
    and less: "j < rk_len k" and ko: "key_ok s k" and v: "length v = rk_len k"
    and k': "rk_units k' = drop j (rk_units k)" "extra_key k' = extra_key k" "is_bigram k' = is_bigram k"
    and ck': "ck' = ckey (rc_page_size s) k'"
    and run: "add_leaf m k' (drop j v) ck' prio chunked t = (res, u)"
  shows "\<exists>N2. tree_inv N2 L u \<and> inserted N s k v j N2 u"
proof -
  have st: "struct_ok N' t" and lv: "leaves_ok N' t" using inv by (auto simp: tree_inv_def)
  note r = refinesD [OF ref] and c = walk_end_cached [OF st w]
  have g: "rc_page_size t = rc_page_size s" "rc_is_eagle t = rc_is_eagle s" using r(2) by (simp_all add: same_globals_def)
  have j: "rc_page_size t dvd j" "j \<le> rk_len k" and p: "rpath t (extra_key k) (rc_root t) m (take j (rk_units k)) V"
    and none: "dict_get (kids_of t m) (ckey (rc_page_size t) (rk_drop k j)) = None"
    using w less by (auto simp: walk_end_def)
  have len: "rk_len k' = rk_len k - j" using k'(1) by (metis length_drop length_rk_units)
  have new: "dict_get (kids_of t m) (ckey (rc_page_size t) k') = None"
    using none k' by (simp add: ckey_drop ckey_def)
  have kk: "0 < rk_len k'" "rc_page_size t dvd rk_len k'" "is_bigram k' = rc_is_eagle t" "length (drop j v) = rk_len k'"
    using less ko j v len g k'(3) by (simp_all add: key_ok_def)
  have ex: "extra_key k' = extra_key (keyof t m)" if "m \<noteq> rc_root t"
    using rpath_extra [OF p] that k'(2) by auto
  have sub: "set (rc_evictable_leaves t) \<subseteq> N'" using lv by (auto simp: leaves_ok_def)
  define x where "x = rc_counter t"
  have xN: "x \<notin> N'" using struct_okD(6) [OF st] x_def by blast
  have eff: "attach_effect t m k' (drop j v) x u \<and> rc_evictable_leaves u = x # removeAll m (rc_evictable_leaves t)"
    unfolding x_def by (rule add_leaf_effect [OF st c(1) kk ex new sub]) (use run ck' g in \<open>simp_all\<close>)
  have inv': "tree_inv (insert x N') L u"
    by (rule attach_inv [OF inv c(1) kk ex new xN]) (use eff in simp_all)
  then have st': "struct_ok (insert x N') u" by (simp add: tree_inv_def)
  note eff1 = eff [THEN conjunct1]
  note con = attach_cached [OF st c(1) st' new xN eff1, unfolded k'(2), OF p]
  have glob: "same_globals s u" using same_globals_trans [OF r(2)] eff1 by (simp add: attach_effect_def)
  have locks: "lockof u n = lockof s n" if "n \<in> N" for n
    using eff1 r(1,6) xN that by (auto simp: attach_effect_def)
  have paths: "rpath u ek a n us vs = rpath s ek a n us vs" if "a \<in> N" "n \<in> N" for ek a n us vs
    using attach_rpath(1) [OF st c(1) st' new xN eff1] r(1,8) that by blast
  have sizes: "rc_alloc u = rc_alloc s" "rc_evictable_size u = rc_evictable_size s + int (rk_len k - j)"
    "rc_protected_size u = rc_protected_size s"
    using eff1 r(3-5) len by (simp_all add: attach_effect_def)
  have sl: "slots (insert x N') u = slots N s + mset (drop j v)" using attach_slots [OF st xN eff1] r(9) by simp
  have whole: "take j (rk_units k) @ rk_units k' = rk_units k" by (simp add: k'(1))
  have cont: "cached u ek us vs \<longleftrightarrow> cached s ek us vs \<or>
      (ek = extra_key k \<and> prefix us (rk_units k) \<and> vs = take (length us) (V @ drop j v))" for ek us vs
    using con [of ek us vs] unfolding whole r(7) .
  have "inserted N s k v j (insert x N') u"
  proof (rule insertedI [where V = V])
    show "l \<le> j" if "rc_page_size s dvd l" "l \<le> rk_len k" "cached s (extra_key k) (take l (rk_units k)) ws" for l ws
      using c(4) that r(7) g by auto
  qed (use r(1,7) glob locks paths sizes sl cont j c(2,3) g in auto)
  then show ?thesis using inv' by blast
qed

end
