(* ===== verification/Radix_Evict.thy ===== *)
theory Radix_Evict
  imports Radix_Match
begin

text \<open>
  Eviction: the loop deletes unlocked leaves, smallest priority first, and returns their slots to
  the allocator, until it has freed enough or no node can be evicted.
\<close>

section \<open>What eviction may change\<close>

definition shrinks :: "nat set \<Rightarrow> radix \<Rightarrow> kv_index list list \<Rightarrow> nat set \<Rightarrow> radix \<Rightarrow> bool" where
  "shrinks N s freed N' t \<longleftrightarrow>
     N' \<subseteq> N \<and> same_globals s t \<and> rc_alloc t = fold (kv_free (rc_class s)) freed (rc_alloc s) \<and>
     rc_evictable_size t = rc_evictable_size s - int (length (concat freed)) \<and>
     rc_protected_size t = rc_protected_size s \<and>
     (\<forall>n. lockof t n = lockof s n \<and> valof t n = valof s n \<and> nd_last_access (rc_store t n) = nd_last_access (rc_store s n) \<and>
        (\<forall>st. get_priority st (rc_store t n) = get_priority st (rc_store s n))) \<and>
     (\<forall>n \<in> N - N'. lockof s n = 0) \<and>
     slots N s = slots N' t + mset (concat freed) \<and>
     (\<forall>ek a n us vs. a \<in> N' \<longrightarrow> n \<in> N' \<longrightarrow> rpath t ek a n us vs = rpath s ek a n us vs) \<and>
     (\<forall>ek us vs. cached t ek us vs \<longrightarrow> cached s ek us vs)"

lemma shrinksD:
  assumes "shrinks N s freed N' t"
  shows "N' \<subseteq> N" "same_globals s t" "rc_alloc t = fold (kv_free (rc_class s)) freed (rc_alloc s)"
    "rc_evictable_size t = rc_evictable_size s - int (length (concat freed))" "rc_protected_size t = rc_protected_size s"
    "lockof t n = lockof s n" "valof t n = valof s n" "nd_last_access (rc_store t n) = nd_last_access (rc_store s n)"
    "get_priority st (rc_store t n) = get_priority st (rc_store s n)"
    "n \<in> N \<Longrightarrow> n \<notin> N' \<Longrightarrow> lockof s n = 0" "slots N s = slots N' t + mset (concat freed)"
    "a \<in> N' \<Longrightarrow> n \<in> N' \<Longrightarrow> rpath t ek a n us vs = rpath s ek a n us vs" "cached t ek us vs \<Longrightarrow> cached s ek us vs"
  using assms unfolding shrinks_def by blast+

lemma shrinksI:
  assumes "N' \<subseteq> N" "same_globals s t" "rc_alloc t = fold (kv_free (rc_class s)) freed (rc_alloc s)"
    "rc_evictable_size t = rc_evictable_size s - int (length (concat freed))" "rc_protected_size t = rc_protected_size s"
    "\<And>n. lockof t n = lockof s n" "\<And>n. valof t n = valof s n"
    "\<And>n. nd_last_access (rc_store t n) = nd_last_access (rc_store s n)"
    "\<And>n st. get_priority st (rc_store t n) = get_priority st (rc_store s n)"
    "\<And>n. n \<in> N \<Longrightarrow> n \<notin> N' \<Longrightarrow> lockof s n = 0" "slots N s = slots N' t + mset (concat freed)"
    "\<And>ek a n us vs. a \<in> N' \<Longrightarrow> n \<in> N' \<Longrightarrow> rpath t ek a n us vs = rpath s ek a n us vs"
    "\<And>ek us vs. cached t ek us vs \<Longrightarrow> cached s ek us vs"
  shows "shrinks N s freed N' t"
  unfolding shrinks_def using assms by blast

lemma shrinks_refl: "shrinks N s [] N s"
  by (rule shrinksI) auto

lemma shrinks_trans:
  assumes "shrinks N s f1 N1 s1" and "shrinks N1 s1 f2 N2 s2"
  shows "shrinks N s (f1 @ f2) N2 s2"
proof (rule shrinksI)
  note a = shrinksD [OF assms(1)] and b = shrinksD [OF assms(2)]
  show "same_globals s s2" by (rule same_globals_trans [OF a(2) b(2)])
  show "rc_alloc s2 = fold (kv_free (rc_class s)) (f1 @ f2) (rc_alloc s)"
    using a(2,3) b(3) by (simp add: same_globals_def)
  show "lockof s n = 0" if "n \<in> N" "n \<notin> N2" for n using a(6,10) b(10) that by metis
  show "rpath s2 ek x n us vs = rpath s ek x n us vs" if "x \<in> N2" "n \<in> N2" for ek x n us vs
    using a(12) b(1,12) that by (metis subsetD)
qed (use shrinksD [OF assms(1)] shrinksD [OF assms(2)] in \<open>auto simp: add.assoc add.commute\<close>)

text \<open>An event records hashes and appends to the queue; priorities do not depend on them.\<close>

lemma ensure_hash_priority:
  "ensure_hash n s = (r, t) \<Longrightarrow> get_priority st (rc_store t m) = get_priority st (rc_store s m) \<and>
    nd_last_access (rc_store t m) = nd_last_access (rc_store s m)"
  by (cases "m = n")
    (auto simp: ensure_hash_def upd_node_def get_priority_def split: option.splits sum.splits eviction_strategy.splits)

lemma remove_event_priority:
  "record_remove_event n md s = (r, t) \<Longrightarrow> get_priority st (rc_store t m) = get_priority st (rc_store s m) \<and>
    nd_last_access (rc_store t m) = nd_last_access (rc_store s m)"
  by (auto simp: record_remove_event_def append_events_def Let_def split: if_splits sum.splits prod.splits
      dest: ensure_hash_priority)

lemma remove_event_silent: "\<not> rc_events s \<Longrightarrow> record_remove_event n md s = (Inr (), s)"
  by (simp add: record_remove_event_def)

lemma free_kv_fields [simp]:
  "rc_store (free_kv v s) = rc_store s" "rc_root (free_kv v s) = rc_root s" "rc_page_size (free_kv v s) = rc_page_size s"
  "rc_counter (free_kv v s) = rc_counter s" "rc_is_eagle (free_kv v s) = rc_is_eagle s"
  "rc_evictable_leaves (free_kv v s) = rc_evictable_leaves s" "rc_evictable_size (free_kv v s) = rc_evictable_size s"
  "rc_protected_size (free_kv v s) = rc_protected_size s" "rc_alloc (free_kv v s) = kv_free (rc_class s) v (rc_alloc s)"
  "rc_strategy (free_kv v s) = rc_strategy s" "rc_events (free_kv v s) = rc_events s"
  by (simp_all add: free_kv_def)

lemma free_kv_globals: "same_globals s (free_kv v s)"
  by (simp add: same_globals_def free_kv_def)

lemma free_kv_tree [simp]:
  "tree_inv N L (free_kv v s) = tree_inv N L s" "slots N (free_kv v s) = slots N s"
  unfolding tree_inv_def struct_ok_def node_ok_def locks_ok_def sizes_ok_def leaves_ok_def slots_def free_kv_fields
  by (rule refl)+

lemma free_kv_rpath [simp]: "rpath (free_kv v s) ek a n us vs = rpath s ek a n us vs"
proof
  show "rpath (free_kv v s) ek a n us vs" if "rpath s ek a n us vs"
    using that
  proof (induction rule: rpath.induct)
    case (cons a ck c v' n us vs)
    then show ?case using rpath.cons [of "free_kv v s" a ck c ek v' n us vs] by simp
  qed (rule rpath.nil)
  show "rpath s ek a n us vs" if "rpath (free_kv v s) ek a n us vs"
    using that by (induction rule: rpath.induct) (auto intro: rpath.nil rpath.cons)
qed

lemma free_kv_cached [simp]: "cached (free_kv v s) ek us vs = cached s ek us vs"
  by (simp add: cached_def)

lemma delete_leaf_priority:
  "delete_leaf x s = (r, t) \<Longrightarrow> get_priority st (rc_store t m) = get_priority st (rc_store s m) \<and>
    nd_last_access (rc_store t m) = nd_last_access (rc_store s m)"
  by (auto simp: delete_leaf_def upd_node_def discard_leaf_def update_leaf_status_def get_priority_def Let_def
      split: option.splits sum.splits if_splits eviction_strategy.splits)

section \<open>One eviction\<close>

lemma evict_step:
  assumes inv: "tree_inv N L s" and x: "x \<in> set (rc_evictable_leaves s)"
  shows "\<exists>v p t. valof s x = Some v \<and> delete_leaf x (free_kv v s) = (Inr (), t) \<and> par t x = Some p \<and> p \<in> N - {x} \<and>
    tree_inv (N - {x}) L t \<and> shrinks N s [v] (N - {x}) t \<and> x \<in> N \<and> x \<noteq> rc_root s \<and>
    set (rc_evictable_leaves t) = set (rc_evictable_leaves s) - {x} \<union>
      (if kids_of t p = [] \<and> lockof t p = 0 then {p} else {}) \<and> p \<notin> set (rc_evictable_leaves s)"
proof -
  have st: "struct_ok N s" and lv: "leaves_ok N s" using inv by (auto simp: tree_inv_def)
  have leaves: "set (rc_evictable_leaves s) = {n \<in> N - {rc_root s}. lockof s n = 0 \<and> kids_of s n = []}"
    using lv by (simp add: leaves_ok_def)
  then have xN: "x \<in> N" "x \<noteq> rc_root s" "kids_of s x = []" and lock: "lockof s x = 0" using x by auto
  obtain v where v: "valof s x = Some v" "length v = rk_len (keyof s x)" using node_okD(5) [OF st xN(1,2)] by blast
  obtain p where p: "par s x = Some p" "p \<in> N" "p \<noteq> x" using parent_exists [OF st xN(1,2)] by blast
  let ?s = "free_kv v s"
  have inv': "tree_inv N L ?s" using inv by simp
  have st': "struct_ok N ?s" using inv' by (simp add: tree_inv_def)
  from delete_leaf_effect [OF inv', of x p] xN p obtain t where
    t: "delete_leaf x ?s = (Inr (), t)" "detach_effect ?s x p t" "rc_alloc t = rc_alloc ?s"
      "rc_evictable_leaves t = (let l = removeAll x (rc_evictable_leaves ?s)
       in if 0 < lockof ?s p \<or> kids_of t p \<noteq> [] then removeAll p l else if p \<in> set l then l else p # l)" by auto
  have eff: "kids_of t n = (if n = p then dict_pop (ckey (rc_page_size s) (keyof s x)) (kids_of s p) else kids_of s n)"
    "par t n = par s n" "lockof t n = lockof s n" "valof t n = valof s n" for n
    using t(2) by (auto simp: detach_effect_def)
  have inv2: "tree_inv (N - {x}) L t"
    by (rule detach_inv [OF inv', of x p]) (use xN p lock t in auto)
  have pk: "kids_of s p \<noteq> []" using kids_empty_iff [OF st p(2)] xN p(1) by blast
  have pl: "p \<notin> set (rc_evictable_leaves s)" using leaves pk by simp
  have pnn: "0 \<le> lockof s p" 
  proof (cases "p = rc_root s")
    case False
    then show ?thesis using inv p(2) unfolding tree_inv_def locks_ok_def by blast
  next
    case True
    then have "0 < lockof s p" using inv unfolding tree_inv_def locks_ok_def by blast
    then show ?thesis by simp
  qed
  have "set (rc_evictable_leaves t) = set (rc_evictable_leaves s) - {x} \<union>
      (if kids_of t p = [] \<and> lockof t p = 0 then {p} else {})"
    using t(4) pl pnn eff(3) by (auto simp: Let_def)
  moreover have "shrinks N s [v] (N - {x}) t"
  proof (rule shrinksI)
    have "same_globals ?s t" using t(2) by (simp add: detach_effect_def)
    then show "same_globals s t" using same_globals_trans free_kv_globals by blast
    show "slots N s = slots (N - {x}) t + mset (concat [v])"
      using detach_slots [OF st', of x p t v] xN t(2) v(1) by simp
    show "rpath t ek a n us vs = rpath s ek a n us vs" if "a \<in> N - {x}" "n \<in> N - {x}" for ek a n us vs
      using detach_rpath [OF st', of x p t a n ek us vs] xN p(1) t(2) that by simp
    show "cached s ek us vs" if "cached t ek us vs" for ek us vs
      using detach_cached [OF st', of x p t ek us vs] xN p(1) t(2) that by simp
    show "get_priority st (rc_store t n) = get_priority st (rc_store s n)" for n st
      using delete_leaf_priority [OF t(1)] by simp
    show "nd_last_access (rc_store t n) = nd_last_access (rc_store s n)" for n
      using delete_leaf_priority [OF t(1)] by simp
  qed (use t(2,3) eff lock v in \<open>auto simp: detach_effect_def\<close>)
  ultimately show ?thesis using v t(1) eff p inv2 xN pl by auto
qed

section \<open>The loop\<close>

text \<open>Where nothing can be evicted, no unlocked node is left.\<close>

lemma no_leaves_no_evictable:
  assumes inv: "tree_inv N L s" and none: "rc_evictable_leaves s = []"
  shows "rc_evictable_size s = 0"
proof -
  have st: "struct_ok N s" and lk: "locks_ok N L s" and sz: "sizes_ok N s" and lv: "leaves_ok N s"
    using inv by (auto simp: tree_inv_def)
  let ?U = "{n \<in> N - {rc_root s}. lockof s n = 0}"
  have "?U = {}"
  proof (rule ccontr)
    assume ne: "?U \<noteq> {}"
    from st obtain rk :: "nat \<Rightarrow> nat" where rk: "\<forall>n \<in> N - {rc_root s}. \<forall>p. par s n = Some p \<longrightarrow> rk p < rk n"
      unfolding struct_ok_def by blast
    have fin: "finite ?U" using struct_okD(1) [OF st] by simp
    then obtain n where n: "n \<in> ?U" "\<And>x. x \<in> ?U \<Longrightarrow> rk x \<le> rk n"
      using Max_in [of "rk ` ?U"] Max_ge [of "rk ` ?U"] ne by (smt (verit) finite_imageI image_iff image_is_empty)
    have leafless: "kids_of s n \<noteq> []" using lv none n(1) by (auto simp: leaves_ok_def)
    then obtain c where c: "c \<in> N" "c \<noteq> rc_root s" "par s c = Some n"
      using kids_empty_iff [OF st, of n] n(1) by blast
    have "0 = int (L n) + (\<Sum>c | c \<in> N - {rc_root s} \<and> par s c = Some n. lockof s c)"
      using locks_okD(4) [OF lk, of n] n(1) by simp
    moreover have nonneg: "0 \<le> lockof s x" if "x \<in> {c. c \<in> N - {rc_root s} \<and> par s c = Some n}" for x
      using locks_okD(3) [OF lk] that by auto
    moreover have "finite {c. c \<in> N - {rc_root s} \<and> par s c = Some n}" using struct_okD(1) [OF st] by simp
    ultimately have "lockof s c = 0"
      using sum_nonneg_eq_0_iff [of "{c. c \<in> N - {rc_root s} \<and> par s c = Some n}" "lockof s"] c
        sum_nonneg [of "{c. c \<in> N - {rc_root s} \<and> par s c = Some n}" "lockof s"] by auto
    then have "rk c \<le> rk n" using n(2) c by simp
    moreover have "rk n < rk c" using rk c by blast
    ultimately show False by simp
  qed
  then have "(\<Sum>n \<in> N - {rc_root s}. if lockof s n = 0 then int (rk_len (keyof s n)) else 0) = 0"
    by (intro sum.neutral) auto
  then show ?thesis using sz by (simp add: sizes_ok_def)
qed

text \<open>A heap holds the evictable leaves, each with its priority.\<close>

definition heap_ok :: "radix \<Rightarrow> eviction_heap \<Rightarrow> bool" where
  "heap_ok s hp \<longleftrightarrow> distinct (map snd hp) \<and> set (map snd hp) = set (rc_evictable_leaves s) \<and>
     (\<forall>(pr, n) \<in> set hp. pr = get_priority (rc_strategy s) (rc_store s n))"

lemma set_drop_nth: "i < length xs \<Longrightarrow> set xs = insert (xs ! i) (set (take i xs @ drop (Suc i) xs))"
  by (metis Un_insert_right id_take_nth_drop list.simps(15) set_append)

lemma heap_pop_split:
  assumes "i < length hp" "distinct (map snd hp)"
  shows "distinct (map snd (take i hp @ drop (Suc i) hp))"
    "snd ` set (take i hp @ drop (Suc i) hp) = snd ` set hp - {snd (hp ! i)}"
proof -
  have "hp = take i hp @ hp ! i # drop (Suc i) hp" using assms(1) by (rule id_take_nth_drop)
  then have d: "distinct (map snd (take i hp @ hp ! i # drop (Suc i) hp))" using assms(2) by simp
  then show "distinct (map snd (take i hp @ drop (Suc i) hp))" by auto
  have "snd ` set hp = insert (snd (hp ! i)) (snd ` set (take i hp @ drop (Suc i) hp))"
    using set_drop_nth [OF assms(1)] by (metis image_insert)
  moreover have "snd (hp ! i) \<notin> snd ` set (take i hp @ drop (Suc i) hp)" using d by (auto simp: image_iff)
  ultimately show "snd ` set (take i hp @ drop (Suc i) hp) = snd ` set hp - {snd (hp ! i)}" by auto
qed

definition picks_element :: "(eviction_heap \<Rightarrow> nat) \<Rightarrow> bool" where
  "picks_element pick \<longleftrightarrow> (\<forall>hp. hp \<noteq> [] \<longrightarrow> pick hp < length hp)"

definition picks_minimum :: "(nat \<Rightarrow> tree_node) \<Rightarrow> (eviction_heap \<Rightarrow> nat) \<Rightarrow> bool" where
  "picks_minimum store pick \<longleftrightarrow> picks_element pick \<and>
     (\<forall>hp. \<forall>y \<in> set hp. \<not> heap_less store y (hp ! pick hp))"

lemma picks_minimum_cong:
  "(\<And>n. nd_last_access (store' n) = nd_last_access (store n)) \<Longrightarrow> picks_minimum store' pick = picks_minimum store pick"
  by (simp add: picks_minimum_def heap_less_def)

text \<open>
  The outcome: slots come from unlocked nodes only, enough of them unless none is left, and a
  leaf that was evictable from the start and stays has no smaller priority than any evicted node.
\<close>

definition evict_outcome ::
  "bool \<Rightarrow> int \<Rightarrow> int \<Rightarrow> nat set \<Rightarrow> (nat \<Rightarrow> nat) \<Rightarrow> radix \<Rightarrow> (int res \<times> radix) option \<Rightarrow> bool" where
  "evict_outcome minimal num_tokens num_evicted N L s out \<longleftrightarrow>
     (\<exists>r t N' freed. out = Some (r, t) \<and> tree_inv N' L t \<and> shrinks N s freed N' t \<and>
        (rc_events s \<or> r = Inr (num_evicted + int (length (concat freed))) \<and>
           (num_tokens \<le> num_evicted + int (length (concat freed)) \<or> rc_evictable_size t = 0)) \<and>
        (minimal \<longrightarrow> (\<forall>x \<in> N - N'. \<forall>y \<in> set (rc_evictable_leaves s) \<inter> N'.
           \<not> prio_less (get_priority (rc_strategy s) (rc_store s y)) (get_priority (rc_strategy s) (rc_store s x)))))"

lemma radix_evict_loop_outcome:
  assumes "tree_inv N L s" and "heap_ok s hp" and "picks_element pick"
    and "minimal \<Longrightarrow> picks_minimum (rc_store s) pick"
  shows "evict_outcome minimal num_tokens num_evicted N L s (radix_evict_loop pick num_tokens hp num_evicted s)"
  using assms
proof (induction "card N" arbitrary: N s hp num_evicted rule: less_induct)
  case less
  have st: "struct_ok N s" using less.prems(1) by (simp add: tree_inv_def)
  show ?case
  proof (cases "num_evicted < num_tokens \<and> hp \<noteq> []")
    case False
    then have "radix_evict_loop pick num_tokens hp num_evicted s = Some (Inr num_evicted, s)"
      by (subst radix_evict_loop.simps) (simp only: False if_False)
    moreover have "rc_evictable_size s = 0" if "hp = []"
      using no_leaves_no_evictable [OF less.prems(1)] less.prems(2) that by (auto simp: heap_ok_def)
    ultimately show ?thesis
      unfolding evict_outcome_def using less.prems(1) shrinks_refl False
      by (intro exI [of _ "Inr num_evicted"] exI [of _ s] exI [of _ N] exI [of _ "[]"]) auto
  next
    case True
    define i where "i = pick hp"
    define x where "x = snd (hp ! i)"
    define hp1 where "hp1 = take i hp @ drop (Suc i) hp"
    have i: "i < length hp" using less.prems(3) True by (simp add: picks_element_def i_def)
    have hpok: "distinct (map snd hp)" "snd ` set hp = set (rc_evictable_leaves s)"
      "\<And>pr n. (pr, n) \<in> set hp \<Longrightarrow> pr = get_priority (rc_strategy s) (rc_store s n)"
      using less.prems(2) by (auto simp: heap_ok_def)
    have xl: "x \<in> set (rc_evictable_leaves s)" unfolding x_def hpok(2) [symmetric] using i by simp
    have hp1: "distinct (map snd hp1)" "snd ` set hp1 = set (rc_evictable_leaves s) - {x}"
      unfolding hp1_def x_def hpok(2) [symmetric] by (rule heap_pop_split [OF i hpok(1)])+
    have hp1_sub: "set hp1 \<subseteq> set hp" using set_drop_nth [OF i] unfolding hp1_def by blast
    have minx: "\<not> prio_less (get_priority (rc_strategy s) (rc_store s y)) (get_priority (rc_strategy s) (rc_store s x))"
      if m: "minimal" and y: "y \<in> set (rc_evictable_leaves s)" for y
    proof -
      from y obtain pr where q: "(pr, y) \<in> set hp" unfolding hpok(2) [symmetric] by force
      have "hp ! i = (fst (hp ! i), x)" by (simp add: x_def)
      then have "(fst (hp ! i), x) \<in> set hp" using i nth_mem by metis
      then have "fst (hp ! i) = get_priority (rc_strategy s) (rc_store s x)" by (rule hpok(3))
      moreover have "\<not> heap_less (rc_store s) (pr, y) (hp ! i)"
        using less.prems(4) [OF m] q unfolding picks_minimum_def i_def by blast
      ultimately show ?thesis using hpok(3) [OF q] by (simp add: heap_less_def)
    qed
    from evict_step [OF less.prems(1) xl] obtain v p t where
      t: "valof s x = Some v" "delete_leaf x (free_kv v s) = (Inr (), t)" "par t x = Some p" "p \<in> N - {x}"
        "tree_inv (N - {x}) L t" "shrinks N s [v] (N - {x}) t" "x \<in> N" "x \<noteq> rc_root s"
        "set (rc_evictable_leaves t) = set (rc_evictable_leaves s) - {x} \<union>
          (if kids_of t p = [] \<and> lockof t p = 0 then {p} else {})" "p \<notin> set (rc_evictable_leaves s)" by blast
    define hp2 where "hp2 = (if kids_of t p = [] \<and> lockof t p = 0 then hp1 @ [(get_priority (rc_strategy t) (rc_store t p), p)] else hp1)"
    obtain r u where u: "record_remove_event x None t = (r, u)" by fastforce
    have sh: "same_shape t u" by (rule same_shape_record_remove [OF u])
    note f = same_shape_fields [OF sh] and pr = remove_event_priority [OF u]
    note b = shrinksD [OF t(6)]
    have strat: "rc_strategy t = rc_strategy s" "rc_events t = rc_events s" using b(2) by (simp_all add: same_globals_def)
    have inv2: "tree_inv (N - {x}) L u" by (rule tree_inv_shape [OF t(5) sh])
    have shr: "shrinks N s [v] (N - {x}) u"
    proof (rule shrinksI)
      show "same_globals s u" by (rule same_globals_trans [OF b(2) same_shape_globals [OF sh]])
    qed (use b f pr in \<open>auto simp: slots_shape [OF sh] rpath_shape [OF sh] cached_shape [OF sh]\<close>)
    show ?thesis
    proof (cases r)
      case (Inl e)
      then have ev: "rc_events s" using remove_event_silent [of t x None] u strat by (metis Inl_Inr_False prod.inject)
      have run: "radix_evict_loop pick num_tokens hp num_evicted s = Some (Inl e, u)"
        using True t(1-3) u Inl by (subst radix_evict_loop.simps) (simp add: heap_pop_def x_def i_def Let_def)
      show ?thesis
        unfolding evict_outcome_def run
        by (intro exI [of _ "Inl e"] exI [of _ u] exI [of _ "N - {x}"] exI [of _ "[v]"] conjI impI ballI)
          (use inv2 shr ev minx in auto)
    next
      case (Inr w)
      have run: "radix_evict_loop pick num_tokens hp num_evicted s = radix_evict_loop pick num_tokens hp2 (num_evicted + int (length v)) u"
        using True t(1-3) u Inr
        by (subst radix_evict_loop.simps) (simp add: heap_pop_def x_def i_def hp1_def hp2_def Let_def)
      have same: "get_priority (rc_strategy u) (rc_store u n) = get_priority (rc_strategy s) (rc_store s n)" for n
        using b(9) pr f(18) strat by simp
      have heap: "heap_ok u hp2"
        unfolding heap_ok_def
      proof (intro conjI)
        show "distinct (map snd hp2)" using hp1 t(10) by (auto simp: hp2_def)
        show "set (map snd hp2) = set (rc_evictable_leaves u)" using hp1(2) t(9) f(13) by (auto simp: hp2_def)
        have "pr' = get_priority (rc_strategy u) (rc_store u n)" if "(pr', n) \<in> set hp1" for pr' n
          using hpok(3) [of pr' n] hp1_sub that unfolding same by blast
        then show "\<forall>(pr', n) \<in> set hp2. pr' = get_priority (rc_strategy u) (rc_store u n)"
          using pr f(18) by (auto simp: hp2_def split: if_splits)
      qed
      have "card (N - {x}) < card N" using t(7) struct_okD(1) [OF st] by (intro psubset_card_mono) auto
      from less.hyps [OF this inv2 heap less.prems(3)] less.prems(4)
      have "evict_outcome minimal num_tokens (num_evicted + int (length v)) (N - {x}) L u
          (radix_evict_loop pick num_tokens hp2 (num_evicted + int (length v)) u)"
        using picks_minimum_cong [of "rc_store u" "rc_store s" pick] b(8) pr by simp
      then obtain r' t' N' freed where o: "radix_evict_loop pick num_tokens hp2 (num_evicted + int (length v)) u = Some (r', t')"
        "tree_inv N' L t'" "shrinks (N - {x}) u freed N' t'"
        "rc_events u \<or> r' = Inr (num_evicted + int (length v) + int (length (concat freed))) \<and>
          (num_tokens \<le> num_evicted + int (length v) + int (length (concat freed)) \<or> rc_evictable_size t' = 0)"
        and om: "minimal \<Longrightarrow> z \<in> N - {x} - N' \<Longrightarrow> y \<in> set (rc_evictable_leaves u) \<inter> N' \<Longrightarrow>
           \<not> prio_less (get_priority (rc_strategy u) (rc_store u y)) (get_priority (rc_strategy u) (rc_store u z))" for z y
        unfolding evict_outcome_def by blast
      have keep: "y \<in> set (rc_evictable_leaves u)" if "y \<in> set (rc_evictable_leaves s)" "y \<in> N'" for y
        using that t(9) f(13) shrinksD(1) [OF o(3)] by auto
      have "\<not> prio_less (get_priority (rc_strategy s) (rc_store s y)) (get_priority (rc_strategy s) (rc_store s z))"
        if "minimal" "z \<in> N - N'" "y \<in> set (rc_evictable_leaves s) \<inter> N'" for z y
      proof (cases "z = x")
        case False
        then show ?thesis using om [of z y] that keep unfolding same by blast
      qed (use minx that in blast)
      then show ?thesis
        unfolding evict_outcome_def run o(1)
        by (intro exI [of _ r'] exI [of _ t'] exI [of _ N'] exI [of _ "[v] @ freed"] conjI impI ballI)
          (use o(2,4) shrinks_trans [OF shr o(3)] f(16) strat in auto)
    qed
  qed
qed

end
