(* ===== verification/Radix_Cache.thy ===== *)
theory Radix_Cache
  imports Radix_Evict
begin

text \<open>
  The radix cache as a whole: every state its operations reach satisfies the tree invariant, and
  what each operation promises its callers.
\<close>

section \<open>Reachable states\<close>

text \<open>The nodes that hang in the tree.\<close>

inductive linked :: "radix \<Rightarrow> nat \<Rightarrow> bool" for s :: radix where
  root: "linked s (rc_root s)"
| child: "linked s n \<Longrightarrow> dict_get (kids_of s n) ck = Some c \<Longrightarrow> linked s c"

lemma linked_iff:
  assumes inv: "tree_inv N L s"
  shows "linked s n \<longleftrightarrow> n \<in> N"
proof
  have st: "struct_ok N s" using inv by (simp add: tree_inv_def)
  show "n \<in> N" if "linked s n"
    using that
  proof (induction rule: linked.induct)
    case (child n ck c)
    then show ?case using struct_okD(9) [OF st] by blast
  qed (rule struct_okD(2) [OF st])
  from st obtain rk :: "nat \<Rightarrow> nat" where rk: "\<forall>n \<in> N - {rc_root s}. \<forall>p. par s n = Some p \<longrightarrow> rk p < rk n"
    unfolding struct_ok_def by blast
  show "linked s n" if "n \<in> N"
    using that
  proof (induction "rk n" arbitrary: n rule: less_induct)
    case less
    show ?case
    proof (cases "n = rc_root s")
      case False
      obtain p where p: "p \<in> N" "par s n = Some p" "dict_get (kids_of s p) (ckey (rc_page_size s) (keyof s n)) = Some n"
        using parent_exists [OF st less.prems False] by blast
      then have "linked s p" using less.hyps rk less.prems False by blast
      then show ?thesis using p(3) by (rule linked.child)
    qed (simp add: linked.root)
  qed
qed

text \<open>The slots stored by an insertion that is given no values: the token ids.\<close>

definition insert_values :: "radix \<Rightarrow> radix_key \<Rightarrow> kv_index list option \<Rightarrow> kv_index list" where
  "insert_values s k v = (case v of Some xs \<Rightarrow> take (rk_len (view_key s k)) xs
     | None \<Rightarrow> take (rk_len (view_key s k)) (token_ids (view_key s k)))"

definition values_for :: "radix \<Rightarrow> radix_key \<Rightarrow> kv_index list option \<Rightarrow> bool" where
  "values_for s k v \<longleftrightarrow> key_for s k \<and> length (insert_values s k v) = rk_len (view_key s k)"

text \<open>
  Runs of the cache. \<open>L\<close> counts the locks that are held on each node; a caller only releases a
  lock it holds. Other users of the allocator may change it at any time.
\<close>

inductive radix_run :: "(nat \<Rightarrow> nat) \<Rightarrow> radix \<Rightarrow> bool" where
  init: "0 < ps \<Longrightarrow> radix_init off ps ev eagle nofin policy cls a sha clock = Inr s \<Longrightarrow> radix_run (\<lambda>_. 0) s"
| reset: "radix_run L s \<Longrightarrow> radix_run (\<lambda>_. 0) (radix_reset s)"
| match: "radix_run L s \<Longrightarrow> key_for s k \<Longrightarrow> match_prefix k s = Some (r, t) \<Longrightarrow> radix_run L t"
| insert: "radix_run L s \<Longrightarrow> values_for s k v \<Longrightarrow> radix_insert k v prio chunked s = Some (r, t) \<Longrightarrow> radix_run L t"
| lock: "radix_run L s \<Longrightarrow> linked s n \<Longrightarrow> \<not> rc_disable s \<Longrightarrow> inc_lock_ref n s = Some (r, t) \<Longrightarrow>
    radix_run (if n = rc_root s then L else L(n := Suc (L n))) t"
| unlock: "radix_run L s \<Longrightarrow> n = rc_root s \<or> 0 < L n \<Longrightarrow> \<not> rc_disable s \<Longrightarrow> dec_lock_ref n s = Some (r, t) \<Longrightarrow>
    radix_run (if n = rc_root s then L else L(n := L n - 1)) t"
| evict: "radix_run L s \<Longrightarrow> picks_element pick \<Longrightarrow> distinct leaves \<Longrightarrow> set leaves = set (rc_evictable_leaves s) \<Longrightarrow>
    radix_evict pick leaves num s = Some (r, t) \<Longrightarrow> radix_run L t"
| events: "radix_run L s \<Longrightarrow> radix_run L (snd (take_events s))"
| alloc: "radix_run L s \<Longrightarrow> radix_run L (s\<lparr>rc_alloc := a\<rparr>)"

section \<open>Each operation keeps the invariant\<close>

lemma reset_inv:
  assumes "0 < rc_page_size s"
  shows "tree_inv {rc_counter s} (\<lambda>_. 0) (radix_reset s)"
    "rc_page_size (radix_reset s) = rc_page_size s" "rc_root (radix_reset s) = rc_counter s"
    "kids_of (radix_reset s) (rc_counter s) = []" "rc_disable (radix_reset s) = rc_disable s"
    "rc_is_eagle (radix_reset s) = rc_is_eagle s" "rc_events (radix_reset s) = rc_events s"
    "rc_alloc (radix_reset s) = rc_alloc s" "rc_class (radix_reset s) = rc_class s"
proof -
  define t where "t = radix_reset s"
  have f: "rc_root t = rc_counter s" "rc_page_size t = rc_page_size s" "kids_of t (rc_counter s) = []"
    "par t (rc_counter s) = None" "valof t (rc_counter s) = Some []" "lockof t (rc_counter s) = 1"
    "rc_counter t = Suc (rc_counter s)" "rc_evictable_size t = 0" "rc_protected_size t = 0" "rc_evictable_leaves t = []"
    by (simp_all add: t_def radix_reset_def new_tree_node_eq upd_node_def record_all_cleared_event_def Let_def)
  have "struct_ok {rc_counter s} t" using assms by (auto simp: struct_ok_def f)
  moreover have "locks_ok {rc_counter s} (\<lambda>_. 0) t" by (simp add: locks_ok_def f)
  moreover have "sizes_ok {rc_counter s} t" "leaves_ok {rc_counter s} t" by (simp_all add: sizes_ok_def leaves_ok_def f)
  ultimately show "tree_inv {rc_counter s} (\<lambda>_. 0) (radix_reset s)" by (simp add: tree_inv_def t_def)
  show "rc_page_size (radix_reset s) = rc_page_size s" "rc_root (radix_reset s) = rc_counter s"
    "kids_of (radix_reset s) (rc_counter s) = []" using f by (simp_all add: t_def)
  show "rc_disable (radix_reset s) = rc_disable s" "rc_is_eagle (radix_reset s) = rc_is_eagle s"
    "rc_events (radix_reset s) = rc_events s" "rc_alloc (radix_reset s) = rc_alloc s" "rc_class (radix_reset s) = rc_class s"
    by (simp_all add: radix_reset_def new_tree_node_eq upd_node_def record_all_cleared_event_def Let_def)
qed

lemma add_leaf_silent:
  assumes "add_leaf n k v ck prio chunked s = (r, t)" and "\<not> rc_events s"
  shows "r = Inr ()"
proof -
  have "rc_events (update_leaf_status x u) = rc_events u" "rc_events (upd_node x g u) = rc_events u"
    "rc_events (inc_hit_count b x u) = rc_events u" for x g b u
    by (simp_all add: update_leaf_status_def discard_leaf_def upd_node_def inc_hit_count_def Let_def)
  then show ?thesis
    using assms by (simp add: add_leaf_def new_tree_node_eq Let_def record_store_event_def)
qed

lemma radix_insert_effect:
  assumes inv: "tree_inv N L s" and on: "\<not> rc_disable s" and v: "values_for s k v"
  shows "\<exists>r t N' j. radix_insert k v prio chunked s = Some (r, t) \<and> tree_inv N' L t \<and>
    inserted N s (view_key s k) (insert_values s k v) j N' t \<and> (r = Inr j \<or> rc_events s)"
proof -
  let ?k = "view_key s k" and ?v = "insert_values s k v"
  have st: "struct_ok N s" using inv by (simp add: tree_inv_def)
  have kf: "key_for s k" and len: "length ?v = rk_len ?k" using v by (auto simp: values_for_def)
  note ko = view_key_ok [OF kf]
  have run: "radix_insert k v prio chunked s = insert_helper (rc_root s) ?k ?v prio chunked s"
  proof -
    have "rk_len (page_aligned (rc_page_size s) x) \<le> rk_len x" for x by simp
    then show ?thesis
      using on by (auto simp: radix_insert_def view_key_def insert_values_def maybe_to_bigram_view_def Let_def min_def
          split: option.splits)
  qed
  define pr where "pr = (case prio of None \<Rightarrow> 0 | Some p \<Rightarrow> p)"
  obtain tm s1 where clk: "read_clock s = (tm, s1)" by fastforce
  define s2 where "s2 = raise_priority pr (rc_root s) (upd_node (rc_root s) (\<lambda>nd. nd\<lparr>nd_last_access := tm\<rparr>) s1)"
  have sh: "same_shape s s2"
    unfolding s2_def
    by (rule same_shape_trans [OF same_shape_clock [OF clk] same_shape_trans [OF same_shape_touch same_shape_priority]])
  note f = same_shape_fields [OF sh]
  have inv2: "tree_inv N L s2" by (rule tree_inv_shape [OF inv sh])
  have ref2: "refines N s N s2" by (rule refines_shape [OF sh])
  have ko2: "key_ok s2 ?k" using ko by (simp add: key_ok_def f)
  have start: "rpath s2 (extra_key ?k) (rc_root s2) (rc_root s) [] []" using walk_start [OF sh] by metis
  show ?thesis
  proof (cases "rk_len ?k = 0")
    case True
    then have "insert_helper (rc_root s) ?k ?v prio chunked s = Some (Inr 0, s2)"
      using clk by (simp add: insert_helper_def s2_def pr_def Let_def)
    moreover have "walk_end s2 ?k [] (rk_len ?k) (rc_root s2) []" using True start by (simp add: walk_end_def f)
    then have "inserted N s ?k ?v (rk_len ?k) N s2"
      using inserted_whole [OF _ ref2 _ len] inv2 unfolding tree_inv_def by blast
    ultimately show ?thesis using run inv2 True by auto
  next
    case False
    have ck: "child_key (rc_page_size s2) ?k = Inr (ckey (rc_page_size s2) ?k)"
      using child_key_ckey [OF ko struct_okD(3) [OF st]] False by (simp add: f)
    have "\<exists>m k' ck' t N' j W. insert_loop (rc_root s) ?k ?v (ckey (rc_page_size s2) ?k) tm pr chunked 0 s2 =
        Some (Inr (m, k', drop j ?v, ck', 0 + j), t) \<and> tree_inv N' L t \<and> refines N s2 N' t \<and>
      walk_end t ?k [] j m W \<and> rk_units k' = drop j (rk_units ?k) \<and> extra_key k' = extra_key ?k \<and>
      is_bigram k' = is_bigram ?k \<and> (j < rk_len ?k \<longrightarrow> ck' = ckey (rc_page_size s2) k')"
      by (rule insert_loop_walk [OF inv2 start ko2]) simp
    then obtain m k' ck' t N' j W where
      t: "insert_loop (rc_root s) ?k ?v (ckey (rc_page_size s2) ?k) tm pr chunked 0 s2 =
          Some (Inr (m, k', drop j ?v, ck', j), t)" "tree_inv N' L t" "refines N s2 N' t" "walk_end t ?k [] j m W"
        "rk_units k' = drop j (rk_units ?k)" "extra_key k' = extra_key ?k" "is_bigram k' = is_bigram ?k"
        "j < rk_len ?k \<longrightarrow> ck' = ckey (rc_page_size s2) k'" unfolding add_0 by blast
    have ref: "refines N s N' t" by (rule refines_trans [OF ref2 t(3)])
    have len': "rk_len k' = rk_len ?k - j" using t(5) by (metis length_drop length_rk_units)
    have j: "j \<le> rk_len ?k" using t(4) by (simp add: walk_end_def)
    show ?thesis
    proof (cases "rk_len k' = 0")
      case True
      then have "j = rk_len ?k" using len' j by simp
      then have "inserted N s ?k ?v j N' t"
        using inserted_whole [OF _ ref _ len] t(2,4) unfolding tree_inv_def by blast
      moreover have "insert_helper (rc_root s) ?k ?v prio chunked s = Some (Inr j, t)"
        using clk ck t(1) False True by (simp add: insert_helper_def s2_def [symmetric] pr_def [symmetric] Let_def)
      ultimately show ?thesis using run t(2) by auto
    next
      case more: False
      obtain res u where u: "add_leaf m k' (drop j ?v) ck' pr chunked t = (res, u)" by fastforce
      have less: "j < rk_len ?k" using more len' by simp
      have ck': "ck' = ckey (rc_page_size s) k'" using t(8) less f by simp
      from insert_leaf [OF t(2) ref t(4) less ko len t(5-7) ck' u] obtain N2 where
        n2: "tree_inv N2 L u" "inserted N s ?k ?v j N2 u" by blast
      have "rc_events t = rc_events s" using refinesD(2) [OF ref] by (simp add: same_globals_def)
      then have "res = Inr () \<or> rc_events s"
        using add_leaf_silent [OF u] by blast
      moreover have "insert_helper (rc_root s) ?k ?v prio chunked s =
          (case res of Inl e \<Rightarrow> Some (Inl e, u) | Inr _ \<Rightarrow> Some (Inr j, u))"
        using clk ck t(1) False more u
        by (simp add: insert_helper_def s2_def [symmetric] pr_def [symmetric] Let_def split: sum.split)
      ultimately show ?thesis using run n2 by (cases res) auto
    qed
  qed
qed

lemma radix_evict_outcome:
  assumes "tree_inv N L s" and "\<not> rc_disable s" and "picks_element pick"
    and "distinct leaves" and "set leaves = set (rc_evictable_leaves s)"
    and "minimal \<Longrightarrow> picks_minimum (rc_store s) pick"
  shows "evict_outcome minimal num 0 N L s (radix_evict pick leaves num s)"
proof -
  have "heap_ok s (map (\<lambda>n. (get_priority (rc_strategy s) (rc_store s n), n)) leaves)"
    using assms(4,5) by (auto simp: heap_ok_def comp_def)
  from radix_evict_loop_outcome [OF assms(1) this assms(3,6)] assms(2) show ?thesis by (simp add: radix_evict_def)
qed

lemma evict_outcomeE:
  assumes "evict_outcome minimal num n0 N L s out" and "\<not> rc_events s"
  obtains t N' freed where "out = Some (Inr (n0 + int (length (concat freed))), t)" "tree_inv N' L t"
    "shrinks N s freed N' t" "num \<le> n0 + int (length (concat freed)) \<or> rc_evictable_size t = 0"
    "\<And>x y. minimal \<Longrightarrow> x \<in> N \<Longrightarrow> x \<notin> N' \<Longrightarrow> y \<in> set (rc_evictable_leaves s) \<Longrightarrow> y \<in> N' \<Longrightarrow>
       \<not> prio_less (get_priority (rc_strategy s) (rc_store s y)) (get_priority (rc_strategy s) (rc_store s x))"
proof -
  from assms obtain r t N' freed where o: "out = Some (r, t)" "tree_inv N' L t" "shrinks N s freed N' t"
    "r = Inr (n0 + int (length (concat freed)))" "num \<le> n0 + int (length (concat freed)) \<or> rc_evictable_size t = 0"
    "minimal \<longrightarrow> (\<forall>x \<in> N - N'. \<forall>y \<in> set (rc_evictable_leaves s) \<inter> N'.
       \<not> prio_less (get_priority (rc_strategy s) (rc_store s y)) (get_priority (rc_strategy s) (rc_store s x)))"
    unfolding evict_outcome_def by blast
  show ?thesis by (rule that [of freed t N']) (use o in blast)+
qed

lemma tree_inv_cong:
  assumes "rc_store t = rc_store s" "rc_root t = rc_root s" "rc_counter t = rc_counter s" "rc_page_size t = rc_page_size s"
    "rc_is_eagle t = rc_is_eagle s" "rc_evictable_leaves t = rc_evictable_leaves s"
    "rc_evictable_size t = rc_evictable_size s" "rc_protected_size t = rc_protected_size s"
  shows "tree_inv N L t = tree_inv N L s"
  unfolding tree_inv_def struct_ok_def node_ok_def locks_ok_def sizes_ok_def leaves_ok_def assms by (rule refl)

lemma alloc_inv: "tree_inv N L (s\<lparr>rc_alloc := a\<rparr>) = tree_inv N L s"
  by (rule tree_inv_cong) simp_all

lemma events_inv: "tree_inv N L (snd (take_events s)) = tree_inv N L s"
  by (rule tree_inv_cong) (simp_all add: take_events_def)

lemma run_inv: "radix_run L s \<Longrightarrow> \<exists>N. tree_inv N L s"
proof (induction rule: radix_run.induct)
  case init
  then show ?case using reset_inv(1) by (force simp: radix_init_def bindE_Inr_iff)
next
  case (reset L s)
  then have "0 < rc_page_size s" unfolding tree_inv_def struct_ok_def by blast
  then show ?case using reset_inv(1) by blast
next
  case (match L s k r t)
  then obtain N where inv: "tree_inv N L s" by blast
  show ?case
  proof (cases "rc_disable s")
    case True
    then show ?thesis using match.hyps inv by (auto simp: match_prefix_def Let_def)
  next
    case False
    from match_prefix_walk [OF inv False match.hyps(2)] match.hyps(3) show ?thesis by auto
  qed
next
  case (insert L s k v prio chunked r t)
  then obtain N where inv: "tree_inv N L s" by blast
  show ?case
  proof (cases "rc_disable s")
    case True
    then show ?thesis using insert.hyps inv by (auto simp: radix_insert_def)
  next
    case False
    from radix_insert_effect [OF inv False insert.hyps(2), of prio chunked] insert.hyps(3) show ?thesis by auto
  qed
next
  case (lock L s n r t)
  then obtain N where inv: "tree_inv N L s" by blast
  then have "n \<in> N" using lock.hyps(2) linked_iff by blast
  from inc_lock_ref_live [OF inv this lock.hyps(3)] lock.hyps(4) show ?case by auto
next
  case (unlock L s n r t)
  then obtain N where inv: "tree_inv N L s" by blast
  then have "n \<in> N"
    using unlock.hyps(2) struct_okD(2) unfolding tree_inv_def locks_ok_def by (metis less_irrefl)
  from dec_lock_ref_live [OF inv this unlock.hyps(3,2)] unlock.hyps(4) show ?case by auto
next
  case (evict L s pick leaves num r t)
  then obtain N where inv: "tree_inv N L s" by blast
  show ?case
  proof (cases "rc_disable s")
    case True
    then show ?thesis using evict.hyps inv by (auto simp: radix_evict_def)
  next
    case False
    from radix_evict_outcome [OF inv False evict.hyps(2-4), of False num] evict.hyps(5) show ?thesis
      by (auto simp: evict_outcome_def)
  qed
next
  case (events L s)
  then show ?case by (simp only: events_inv)
next
  case (alloc L s a)
  then show ?case by (simp only: alloc_inv)
qed

lemma run_linked:
  assumes "radix_run L s"
  shows "tree_inv {n. linked s n} L s"
proof -
  from run_inv [OF assms] obtain N where inv: "tree_inv N L s" by blast
  moreover have "{n. linked s n} = N" using linked_iff [OF inv] by blast
  ultimately show ?thesis by simp
qed

lemma linked_set: "tree_inv N L s \<Longrightarrow> {n. linked s n} = N"
  using linked_iff by blast

text \<open>A cached sequence of whole pages has one sequence of slots.\<close>

lemma rpath_agree:
  assumes "rpath s ek a n W V" and "rpath s ek a n' W' V'" and "struct_ok N s" and "a \<in> N"
    and "prefix us W" and "prefix us W'" and "rc_page_size s dvd length us"
  shows "take (length us) V = take (length us) V'"
  using assms
proof (induction arbitrary: us W' V' rule: rpath.induct)
  case (cons a ck c v n us0 vs0)
  let ?ps = "rc_page_size s" and ?uc = "rk_units (keyof s c)"
  note st = cons.prems(2) and aN = cons.prems(3)
  show ?case
  proof (cases "us = []")
    case False
    then have page: "?ps \<le> length us" using cons.prems(6) by (auto intro: dvd_imp_le)
    have c: "c \<in> N" "c \<noteq> rc_root s" "par s c = Some a" using struct_okD(9) [OF st aN] cons.hyps(1) by auto
    note nc = node_okD(4,5) [OF st c(1,2)]
    from cons.prems(1) show ?thesis
    proof (cases rule: rpath.cases)
      case nil
      then show ?thesis using False cons.prems(5) by simp
    next
      case (cons ck' d v' us1 vs1)
      have d: "d \<in> N" "d \<noteq> rc_root s" "par s d = Some a" using struct_okD(9) [OF st aN] local.cons(3) by auto
      note nd = node_okD(4) [OF st d(1,2)]
      have "take ?ps us = take ?ps ?uc"
        using prefix_take [OF cons.prems(4) page] nc(1) by simp
      moreover have "take ?ps us = take ?ps (rk_units (keyof s d))"
        using prefix_take [OF cons.prems(5) [unfolded local.cons(1)] page] nd by simp
      ultimately have "ckey ?ps (keyof s c) = ckey ?ps (keyof s d)"
        using cons.hyps(2) local.cons(4) by (simp add: ckey_def)
      then have dc: "d = c" using sibling_keys [OF st d(1,2) c(1,2) d(3) c(3)] by simp
      then have v: "v' = v" using local.cons(5) cons.hyps(3) by simp
      have lv: "length v = rk_len (keyof s c)" using nc(2) cons.hyps(3) by auto
      show ?thesis
      proof (cases "length us \<le> rk_len (keyof s c)")
        case True
        then show ?thesis using lv v local.cons(2) by simp
      next
        case long: False
        define us' where "us' = drop (rk_len (keyof s c)) us"
        have "us = ?uc @ us'" using cons.prems(4) long unfolding us'_def
          by (metis append_eq_append_conv_if append_take_drop_id length_rk_units linorder_not_le nle_le prefix_def take_append)
        then have "prefix us' us0" "prefix us' us1" "length us = rk_len (keyof s c) + length us'"
          using cons.prems(4,5) local.cons(1) dc by auto
        moreover have "?ps dvd length us'" using cons.prems(6) node_okD(2) [OF st c(1,2)] by (simp add: us'_def)
        ultimately have "take (length us') vs0 = take (length us') vs1"
          using cons.IH [of us1 vs1 us'] local.cons(6) dc st c(1) by simp
        then show ?thesis using \<open>length us = rk_len (keyof s c) + length us'\<close> lv v local.cons(2) by simp
      qed
    qed
  qed simp
qed simp

lemma cached_unique:
  assumes "struct_ok N s" and "cached s ek us vs" and "cached s ek us ws" and "rc_page_size s dvd length us"
  shows "vs = ws"
  using assms rpath_agree [OF _ _ assms(1) struct_okD(2) [OF assms(1)] _ _ assms(4)] unfolding cached_def by blast

section \<open>What the operations promise\<close>

text \<open>A cache with pages of two tokens, used in the examples below.\<close>

definition sample_cache :: radix where
  "sample_cache = projr (radix_init False 2 False False False ''LRU'' TokenPool (token_init 16 False) (\<lambda>_. []) int)"

definition sample_key :: radix_key where
  "sample_key = \<lparr>token_ids = [11, 12, 13, 14, 15], extra_key = None, is_bigram = False\<rparr>"

lemma sample_policy: "strategy_of_name (py_lower ''LRU'') = Inr LRU"
  by code_simp

lemma sample_init:
  "radix_init False 2 False False False ''LRU'' TokenPool (token_init 16 False) (\<lambda>_. []) int = Inr sample_cache"
  by (simp add: sample_cache_def radix_init_def sample_policy)

lemma sample_run: "radix_run (\<lambda>_. 0) sample_cache"
  by (rule radix_run.init [OF _ sample_init]) simp

lemma sample_fields:
  "\<not> rc_disable sample_cache" "\<not> rc_events sample_cache" "rc_page_size sample_cache = 2" "\<not> rc_is_eagle sample_cache"
  "rc_evictable_leaves sample_cache = []"
  by (simp_all add: sample_cache_def radix_init_def sample_policy Let_def radix_reset_def
      new_tree_node_eq upd_node_def record_all_cleared_event_def)

lemma sample_len: "rk_len sample_key = 5" "rk_len (view_key sample_cache sample_key) = 4"
proof -
  show "rk_len sample_key = 5" by (simp add: sample_key_def rk_len_def)
  then show "rk_len (view_key sample_cache sample_key) = 4"
    by (simp add: view_key_def maybe_to_bigram_view_def sample_fields)
qed

lemma sample_key_fits: "key_for sample_cache sample_key" "values_for sample_cache sample_key (Some [5, 6, 7, 8, 9])"
proof -
  show "key_for sample_cache sample_key" by (simp add: key_for_def sample_key_def)
  then show "values_for sample_cache sample_key (Some [5, 6, 7, 8, 9])"
    by (simp add: values_for_def insert_values_def sample_len)
qed

text \<open>The cache after the first insertion: one node below the root, with the four tokens of two pages.\<close>

lemmas sample_eval = sample_cache_def radix_init_def sample_policy radix_reset_def new_tree_node_eq upd_node_def
  record_all_cleared_event_def Let_def

definition sample_pages :: radix_key where
  "sample_pages = \<lparr>token_ids = [11, 12, 13, 14], extra_key = None, is_bigram = False\<rparr>"

lemma sample_tree:
  "rc_root sample_cache = 0" "rc_counter sample_cache = 1" "kids_of sample_cache 0 = []" "lockof sample_cache 0 = 1"
  "rc_evictable_size sample_cache = 0" "rc_protected_size sample_cache = 0" "valof sample_cache 0 = Some []"
  "rc_strategy sample_cache = LRU" "par sample_cache 0 = None" "rc_clock sample_cache = int"
  by (simp_all add: sample_eval)

lemma sample_page: "page_aligned 2 sample_key = sample_pages" "child_key 2 sample_pages = Inr (None, [Tok 11, Tok 12])" "rk_len sample_pages = 4"
  by (simp_all add: page_aligned_def rk_slice_def slice_bound_def rk_len_def sample_key_def sample_pages_def Let_def child_key_def)

lemma insert_loop_leaf:
  "kids_of s n = [] \<Longrightarrow> insert_loop n key v ck t prio chunked tot s = Some (Inr (n, key, v, ck, tot), s)"
  by (subst insert_loop.simps) (simp add: dict_has_def)

definition sample_start :: radix where
  "sample_start = raise_priority 0 0 (upd_node 0 (\<lambda>nd. nd\<lparr>nd_last_access := fst (read_clock sample_cache)\<rparr>) (snd (read_clock sample_cache)))"

definition sample_full :: radix where
  "sample_full = snd (add_leaf 0 sample_pages [5, 6, 7, 8] (None, [Tok 11, Tok 12]) 0 False sample_start)"

lemma sample_start_fields:
  "par sample_start 0 = None" "\<not> rc_is_eagle sample_start"
  "rc_root sample_start = 0" "rc_counter sample_start = 1" "kids_of sample_start 0 = []" "lockof sample_start 0 = 1"
  "rc_evictable_size sample_start = 0" "rc_protected_size sample_start = 0" "valof sample_start 0 = Some []"
  "rc_evictable_leaves sample_start = []" "rc_page_size sample_start = 2" "\<not> rc_disable sample_start" "\<not> rc_events sample_start"
  by (simp_all add: sample_start_def raise_priority_def upd_node_def read_clock_def sample_tree sample_fields)

lemma sample_ckey: "ckey 2 sample_pages = (None, [Tok 11, Tok 12])"
  by (simp add: ckey_def sample_pages_def rk_units_def)

lemma sample_start_struct: "struct_ok {0} sample_start" "set (rc_evictable_leaves sample_start) \<subseteq> {0}"
  using reset_inv(1) by (auto simp: struct_ok_def sample_start_fields)

lemma sample_leaf:
  "add_leaf 0 sample_pages [5, 6, 7, 8] (None, [Tok 11, Tok 12]) 0 False sample_start = (Inr (), sample_full)"
  "attach_effect sample_start 0 sample_pages [5, 6, 7, 8] 1 sample_full" "rc_evictable_leaves sample_full = [1]"
proof -
  obtain r t where rt: "add_leaf 0 sample_pages [5, 6, 7, 8] (None, [Tok 11, Tok 12]) 0 False sample_start = (r, t)" by fastforce
  have "r = Inr ()" using add_leaf_silent [OF rt sample_start_fields(13)] by blast
  moreover have t: "t = sample_full" using rt by (simp add: sample_full_def)
  ultimately show run: "add_leaf 0 sample_pages [5, 6, 7, 8] (None, [Tok 11, Tok 12]) 0 False sample_start = (Inr (), sample_full)"
    using rt by simp
  with sample_ckey add_leaf_effect [OF sample_start_struct(1), of 0 sample_pages "[5, 6, 7, 8]" 0 False] run sample_start_struct(2)
  show "attach_effect sample_start 0 sample_pages [5, 6, 7, 8] 1 sample_full" "rc_evictable_leaves sample_full = [1]"
    by (simp_all add: sample_start_fields sample_page, simp_all add: sample_pages_def)
qed

lemma sample_full_fields:
  "rc_root sample_full = 0" "\<not> rc_disable sample_full" "\<not> rc_events sample_full"
  "dict_get (kids_of sample_full 0) (None, [Tok 11, Tok 12]) = Some 1" "par sample_full 0 = None" "par sample_full 1 = Some 0" "lockof sample_full 1 = 0"
  "keyof sample_full 1 = sample_pages" "rc_evictable_size sample_full = 4" "rc_protected_size sample_full = 0"
  using sample_leaf(2) by (simp_all add: attach_effect_def same_globals_def sample_start_fields sample_page sample_ckey)

lemma sample_insert:
  "radix_insert sample_key (Some [5, 6, 7, 8, 9]) None False sample_cache = Some (Inr 0, sample_full)"
proof -
  have "insert_helper 0 sample_pages [5, 6, 7, 8] None False sample_cache = Some (Inr 0, sample_full)"
    using sample_leaf(1) unfolding insert_helper_def
    by (simp add: sample_start_def [symmetric] case_prod_unfold Let_def sample_page sample_start_fields insert_loop_leaf)
  then show ?thesis
    by (simp add: radix_insert_def sample_fields maybe_to_bigram_view_def sample_page sample_tree)
qed
lemma sample_full_run: "radix_run (\<lambda>_. 0) sample_full" "linked sample_full 1"
proof -
  show "radix_run (\<lambda>_. 0) sample_full" by (rule radix_run.insert [OF sample_run sample_key_fits(2) sample_insert])
  have "linked sample_full 0" using linked.root [of sample_full] sample_full_fields(1) by simp
  then show "linked sample_full 1" by (rule linked.child [OF _ sample_full_fields(4)])
qed

lemma sample_path: "{x. x \<noteq> rc_root sample_full \<and> anc sample_full 1 x \<and> lockof sample_full x = 0} = {1}"
proof -
  have "anc sample_full 1 x \<longleftrightarrow> x = 1 \<or> x = 0" for x
    using anc_step [OF sample_full_fields(6)] anc_root [OF sample_full_fields(5)] by simp
  then show ?thesis using sample_full_fields by auto
qed

text \<open>
  C1: in every state the cache can reach, the nodes that hang in the tree satisfy the tree
  invariant: parents and children agree, every node holds whole pages with one slot per unit, the
  lock count of a node is the number of locks held on it and below it, the two size counters are
  the total lengths of the unlocked and of the locked nodes, and the set of evictable leaves is
  exact.
\<close>

theorem radix_tree_invariant:
  assumes "radix_run L s"
  shows "tree_inv {n. linked s n} L s"
  by (rule run_linked [OF assms])

theorem radix_tree_invariant_witness: "tree_inv {n. linked sample_cache n} (\<lambda>_. 0) sample_cache"
  by (rule radix_tree_invariant [OF sample_run])

text \<open>
  C2: matching a key returns the slots of the longest cached prefix in whole pages, with a node
  whose path spells that prefix. It may split nodes but changes neither the contents nor the slots
  the tree owns nor its sizes.
\<close>

theorem match_prefix_longest:
  assumes run: "radix_run L s" and on: "\<not> rc_disable s" and k: "key_for s k"
  shows "\<exists>vs n t. match_prefix k s = Some (Inr (vs, n), t) \<and> linked t n \<and>
    rpath t (extra_key k) (rc_root t) n (take (length vs) (rk_units (view_key s k))) vs \<and>
    cached s (extra_key k) (take (length vs) (rk_units (view_key s k))) vs \<and>
    length vs \<le> rk_len (view_key s k) \<and> rc_page_size s dvd length vs \<and>
    (\<forall>l ws. rc_page_size s dvd l \<and> l \<le> rk_len (view_key s k) \<and>
       cached s (extra_key k) (take l (rk_units (view_key s k))) ws \<longrightarrow> l \<le> length vs) \<and>
    refines {n. linked s n} s {n. linked t n} t"
proof -
  let ?k = "view_key s k"
  from match_prefix_walk [OF run_linked [OF run] on k] obtain vs m t N' j where
    t: "match_prefix k s = Some (Inr (vs, m), t)" "tree_inv N' L t" "refines {n. linked s n} s N' t"
      "walk_end t ?k [] j m vs" by blast
  have st: "struct_ok N' t" using t(2) by (simp add: tree_inv_def)
  note c = walk_end_cached [OF st t(4)] and r = refinesD [OF t(3)]
  have ps: "rc_page_size t = rc_page_size s" using r(2) by (simp add: same_globals_def)
  have N': "{n. linked t n} = N'" by (rule linked_set [OF t(2)])
  have mx: "\<forall>l ws. rc_page_size s dvd l \<and> l \<le> rk_len ?k \<and> cached s (extra_key k) (take l (rk_units ?k)) ws \<longrightarrow> l \<le> length vs"
    using c(2,4) r(7) ps by auto
  have "linked t m" using c(1) N' by blast
  moreover have "rpath t (extra_key k) (rc_root t) m (take (length vs) (rk_units ?k)) vs"
    and "length vs \<le> rk_len ?k" "rc_page_size s dvd length vs"
    using t(4) c(2) ps by (simp_all add: walk_end_def)
  moreover have "cached s (extra_key k) (take (length vs) (rk_units ?k)) vs" using c(2,3) r(7) by simp
  moreover note t(1) t(3) [folded N'] mx
  ultimately show ?thesis
    by (intro exI [of _ vs] exI [of _ m] exI [of _ t] conjI)
qed

theorem match_prefix_longest_witness:
  "\<exists>vs n t. match_prefix sample_key sample_cache = Some (Inr (vs, n), t) \<and> linked t n \<and> 2 dvd length vs"
  using match_prefix_longest [OF sample_run sample_fields(1) sample_key_fits(1)] unfolding sample_fields(3) by blast

text \<open>
  C3: inserting a key returns the length of its longest cached prefix in whole pages. Afterwards
  exactly the prefixes of the key are cached in addition to what was cached before; the tree takes
  over the slots beyond the returned length and no others.
\<close>

theorem insert_adds_suffix:
  assumes run: "radix_run L s" and on: "\<not> rc_disable s" and quiet: "\<not> rc_events s" and v: "values_for s k v"
  shows "\<exists>j t. radix_insert k v prio chunked s = Some (Inr j, t) \<and>
    inserted {n. linked s n} s (view_key s k) (insert_values s k v) j {n. linked t n} t"
proof -
  from radix_insert_effect [OF run_linked [OF run] on v, of prio chunked] quiet obtain t N' j where
    "radix_insert k v prio chunked s = Some (Inr j, t)" "tree_inv N' L t"
    "inserted {n. linked s n} s (view_key s k) (insert_values s k v) j N' t" by blast
  then show ?thesis using linked_set [of N' L t] by auto
qed

theorem insert_adds_suffix_witness:
  "\<exists>j t. radix_insert sample_key (Some [5, 6, 7, 8, 9]) None False sample_cache = Some (Inr j, t)"
  using insert_adds_suffix [OF sample_run sample_fields(1,2) sample_key_fits(2)] by blast

text \<open>
  C21: a key that was just inserted is matched in full. The slots returned for the part that was
  already cached are the old ones, for the rest they are the inserted ones.
\<close>

theorem insert_then_match:
  assumes run: "radix_run L s" and on: "\<not> rc_disable s" and quiet: "\<not> rc_events s" and v: "values_for s k v"
  shows "\<exists>j t vs n u. radix_insert k v prio chunked s = Some (Inr j, t) \<and> match_prefix k t = Some (Inr (vs, n), u) \<and>
    length vs = rk_len (view_key s k) \<and> drop j vs = drop j (insert_values s k v) \<and>
    cached s (extra_key k) (take j (rk_units (view_key s k))) (take j vs)"
proof -
  let ?k = "view_key s k" and ?v = "insert_values s k v"
  from radix_insert_effect [OF run_linked [OF run] on v, of prio chunked] quiet obtain t N' j where
    t: "radix_insert k v prio chunked s = Some (Inr j, t)" "tree_inv N' L t" "inserted {n. linked s n} s ?k ?v j N' t" by blast
  have glob: "same_globals s t" and j: "j \<le> rk_len ?k" and dvd: "rc_page_size s dvd j"
    using t(3) unfolding inserted_def by blast+
  from t(3) obtain V where V: "length V = j" "cached s (extra_key ?k) (take j (rk_units ?k)) V"
    "\<And>ek us vs. cached t ek us vs \<longleftrightarrow> cached s ek us vs \<or>
       (ek = extra_key ?k \<and> prefix us (rk_units ?k) \<and> vs = take (length us) (V @ drop j ?v))"
    unfolding inserted_def by blast
  have lv: "length ?v = rk_len ?k" using v by (simp add: values_for_def)
  have g: "rc_disable t = rc_disable s" "key_for t k = key_for s k" "view_key t k = ?k" "rc_page_size t = rc_page_size s"
    using glob view_key_globals [OF glob] by (simp_all add: same_globals_def key_for_def)
  have "key_for t k" using v g(2) by (simp add: values_for_def)
  from match_prefix_walk [OF t(2) _ this] g(1) on obtain vs m u N2 i where
    u: "match_prefix k t = Some (Inr (vs, m), u)" "tree_inv N2 L u" "refines N' t N2 u" "walk_end u ?k [] i m vs"
    unfolding g(3) by blast
  have st: "struct_ok N2 u" and st': "struct_ok N' t" using u(2) t(2) by (simp_all add: tree_inv_def)
  note c = walk_end_cached [OF st u(4)] and r = refinesD [OF u(3)]
  have ps: "rc_page_size u = rc_page_size s" using r(2) g(4) by (simp add: same_globals_def)
  have whole: "cached t (extra_key k) (rk_units ?k) (V @ drop j ?v)"
    using V(3) [of "extra_key k" "rk_units ?k" "V @ drop j ?v"] V(1) lv j by simp
  have kd: "rc_page_size s dvd rk_len ?k" using view_key_ok [of s k] v by (simp add: values_for_def key_ok_def)
  have "rk_len ?k \<le> i" using c(4) [of "rk_len ?k" "V @ drop j ?v"] whole r(7) kd ps by simp
  moreover have "i \<le> rk_len ?k" using u(4) by (simp add: walk_end_def)
  ultimately have i: "i = rk_len ?k" by simp
  then have "cached t (extra_key k) (rk_units ?k) vs" using c(3) r(7) by simp
  then have "vs = V @ drop j ?v" using cached_unique [OF st' _ whole] kd g(4) by simp
  then show ?thesis using t(1) u(1) V(1,2) lv j by (intro exI [of _ j] exI [of _ t] exI [of _ vs] exI [of _ m] exI [of _ u]) simp
qed

theorem insert_then_match_witness:
  "\<exists>j t vs n u. radix_insert sample_key (Some [5, 6, 7, 8, 9]) None False sample_cache = Some (Inr j, t) \<and>
     match_prefix sample_key t = Some (Inr (vs, n), u) \<and> length vs = 4"
  using insert_then_match [OF sample_run sample_fields(1,2) sample_key_fits(2), of None False] sample_len(2) by auto

text \<open>The counters are determined by the keys and the locks.\<close>

lemma sizes_total:
  assumes "tree_inv N L s"
  shows "rc_evictable_size s + rc_protected_size s = (\<Sum>n \<in> N - {rc_root s}. int (rk_len (keyof s n)))"
proof -
  have "rc_evictable_size s + rc_protected_size s =
      (\<Sum>n \<in> N - {rc_root s}. (if lockof s n = 0 then int (rk_len (keyof s n)) else 0) +
        (if lockof s n = 0 then 0 else int (rk_len (keyof s n))))"
    using assms by (simp add: tree_inv_def sizes_ok_def sum.distrib)
  also have "\<dots> = (\<Sum>n \<in> N - {rc_root s}. int (rk_len (keyof s n)))" by (intro sum.cong) auto
  finally show ?thesis .
qed

lemma sizes_determined:
  assumes "tree_inv N L s" and "tree_inv N L' t" and "rc_root t = rc_root s"
    and "\<And>x. keyof t x = keyof s x" "\<And>x. kids_of t x = kids_of s x" "\<And>x. lockof t x = lockof s x"
  shows "rc_evictable_size t = rc_evictable_size s" "rc_protected_size t = rc_protected_size s"
    "set (rc_evictable_leaves t) = set (rc_evictable_leaves s)"
  using assms(1,2) unfolding tree_inv_def sizes_ok_def leaves_ok_def assms(3-6) by simp_all

lemma anc_linked:
  assumes inv: "tree_inv N L s" and "anc s n x" and "linked s n"
  shows "linked s x"
  using assms(2,3) unfolding anc_def
proof (induction rule: converse_rtranclp_induct)
  case (step n p)
  have st: "struct_ok N s" using inv by (simp add: tree_inv_def)
  have "n \<noteq> rc_root s" using step(1) struct_okD(4) [OF st] by auto
  then have "p \<in> N" using parent_live [OF st _ _ step(1)] step.prems linked_iff [OF inv] by simp
  then show ?case using step.IH linked_iff [OF inv] by simp
qed

lemma lock_moves:
  assumes inv: "tree_inv N L s" "tree_inv N L' t" and "rc_root t = rc_root s" and "\<And>x. keyof t x = keyof s x"
    and lock: "\<And>x. lockof t x = lockof s x + (if x \<noteq> rc_root s \<and> P x then 1 else 0)" and P: "\<And>x. P x \<Longrightarrow> x \<in> N"
  shows "rc_evictable_size t = rc_evictable_size s - (\<Sum>x | x \<noteq> rc_root s \<and> P x \<and> lockof s x = 0. int (rk_len (keyof s x)))"
proof -
  let ?A = "{x. x \<noteq> rc_root s \<and> P x \<and> lockof s x = 0}"
  have fin: "finite (N - {rc_root s})" using inv(1) struct_okD(1) by (auto simp: tree_inv_def)
  have sub: "?A \<subseteq> N - {rc_root s}" using P by blast
  have nn: "0 \<le> lockof s n" if "n \<in> N - {rc_root s}" for n using inv(1) that unfolding tree_inv_def locks_ok_def by blast
  have "rc_evictable_size s = (\<Sum>n \<in> N - {rc_root s}. if lockof s n = 0 then int (rk_len (keyof s n)) else 0)"
    using inv(1) by (simp add: tree_inv_def sizes_ok_def)
  also have "\<dots> = (\<Sum>n \<in> N - {rc_root s}. (if lockof t n = 0 then int (rk_len (keyof s n)) else 0) + (if n \<in> ?A then int (rk_len (keyof s n)) else 0))"
  proof (rule sum.cong)
    show "(if lockof s n = 0 then int (rk_len (keyof s n)) else 0) =
        (if lockof t n = 0 then int (rk_len (keyof s n)) else 0) + (if n \<in> ?A then int (rk_len (keyof s n)) else 0)" if "n \<in> N - {rc_root s}" for n
      using nn [OF that] that unfolding lock by auto
  qed simp
  also have "\<dots> = (\<Sum>n \<in> N - {rc_root s}. if lockof t n = 0 then int (rk_len (keyof s n)) else 0) + (\<Sum>x \<in> ?A. int (rk_len (keyof s x)))"
    using sum.inter_restrict [OF fin, of "\<lambda>x. int (rk_len (keyof s x))" ?A] sub
    by (simp add: sum.distrib Int_absorb1)
  also have "(\<Sum>n \<in> N - {rc_root s}. if lockof t n = 0 then int (rk_len (keyof s n)) else 0) = rc_evictable_size t"
    using inv(2) unfolding tree_inv_def sizes_ok_def assms(3,4) by simp
  finally show ?thesis by simp
qed

text \<open>
  C22: locking a node adds one to the lock count of exactly the nodes on its path to the root, the
  root excepted. The lengths of those that were unlocked, and nothing else, move from the evictable to
  the protected size, and the result is the change of the evictable size. Releasing the lock moves
  them back, returns the opposite change, and restores locks, sizes and evictable leaves.
\<close>

theorem lock_unlock:
  assumes run: "radix_run L s" and on: "\<not> rc_disable s" and n: "linked s n"
  defines "moved \<equiv> (\<Sum>x | x \<noteq> rc_root s \<and> anc s n x \<and> lockof s x = 0. int (rk_len (keyof s x)))"
  shows "\<exists>t u. inc_lock_ref n s = Some (Inr (- moved), t) \<and>
    (\<forall>x. lockof t x = lockof s x + (if x \<noteq> rc_root s \<and> anc s n x then 1 else 0)) \<and>
    rc_evictable_size t = rc_evictable_size s - moved \<and> rc_protected_size t = rc_protected_size s + moved \<and>
    dec_lock_ref n t = Some (Inr moved, u) \<and>
    (\<forall>x. lockof u x = lockof s x) \<and> rc_evictable_size u = rc_evictable_size s \<and>
    rc_protected_size u = rc_protected_size s \<and> set (rc_evictable_leaves u) = set (rc_evictable_leaves s)"
proof -
  let ?N = "{n. linked s n}"
  have inv: "tree_inv ?N L s" by (rule run_linked [OF run])
  have nN: "n \<in> ?N" using n by simp
  define L1 where "L1 = (if n = rc_root s then L else L(n := Suc (L n)))"
  from inc_lock_ref_live [OF inv nN on] obtain t where
    t: "inc_lock_ref n s = Some (Inr (rc_evictable_size t - rc_evictable_size s), t)" "tree_inv ?N L1 t"
      "lock_path_effect s n 1 t" unfolding L1_def by blast
  have f: "rc_root t = rc_root s" "rc_disable t = rc_disable s" "keyof t x = keyof s x" "kids_of t x = kids_of s x"
    "lockof t x = lockof s x + (if x \<noteq> rc_root s \<and> anc s n x then 1 else 0)" "par t x = par s x" for x
    using t(3) by (auto simp: lock_path_effect_def same_globals_def)
  have "n = rc_root t \<or> 0 < L1 n" by (simp add: L1_def f)
  from dec_lock_ref_live [OF t(2) nN _ this] on f(2) obtain L2 u where
    u: "dec_lock_ref n t = Some (Inr (rc_evictable_size u - rc_evictable_size t), u)" "tree_inv ?N L2 u"
      "lock_path_effect t n (- 1) u" by auto
  have anc: "anc t = anc s" using f(6) by (intro anc_cong)
  have g: "rc_root u = rc_root s" "keyof u x = keyof s x" "kids_of u x = kids_of s x" "lockof u x = lockof s x" for x
    using u(3) f(3-5) by (simp_all add: lock_path_effect_def same_globals_def f(1) anc)
  note same = sizes_determined [OF inv u(2) g]
  have ev: "rc_evictable_size t = rc_evictable_size s - moved"
    unfolding moved_def by (rule lock_moves [OF inv t(2) f(1,3,5)]) (use anc_linked [OF inv] n in blast)
  moreover have "rc_evictable_size t + rc_protected_size t = rc_evictable_size s + rc_protected_size s"
    using sizes_total [OF inv] sizes_total [OF t(2)] by (simp add: f)
  ultimately show ?thesis
    using t(1) u(1) f(5) g(4) same by (intro exI [of _ t] exI [of _ u]) simp
qed

theorem lock_unlock_witness:
  "\<exists>t u. inc_lock_ref 1 sample_full = Some (Inr (- 4), t) \<and> rc_evictable_size t = 0 \<and> rc_protected_size t = 4 \<and> lockof t 1 = 1 \<and>
     dec_lock_ref 1 t = Some (Inr 4, u) \<and> rc_evictable_size u = 4"
proof -
  have four: "(\<Sum>x | x \<noteq> rc_root sample_full \<and> anc sample_full 1 x \<and> lockof sample_full x = 0. int (rk_len (keyof sample_full x))) = 4"
    unfolding sample_path using sample_full_fields(8) by (simp add: sample_page del: One_nat_def)
  have one: "lockof sample_full 1 + (if 1 \<noteq> rc_root sample_full \<and> anc sample_full 1 1 then 1 else 0) = 1"
    using sample_full_fields(1,7) by simp
  from lock_unlock [OF sample_full_run(1) sample_full_fields(2) sample_full_run(2)] one show ?thesis
    unfolding four sample_full_fields(9,10) by (metis add.left_neutral diff_self)
qed

text \<open>
  C4: an eviction ends. It frees at least the number of slots asked for unless no unlocked node is
  left, deletes unlocked nodes only, returns the number of slots it freed, and hands exactly the
  slots of the deleted nodes to the allocator. What stays cached was cached before, and every node
  that stays keeps its path.
\<close>

theorem evict_frees_unlocked:
  assumes run: "radix_run L s" and on: "\<not> rc_disable s" and quiet: "\<not> rc_events s"
    and pick: "picks_element pick" and leaves: "distinct leaves" "set leaves = set (rc_evictable_leaves s)"
  shows "\<exists>freed t. radix_evict pick leaves num s = Some (Inr (int (length (concat freed))), t) \<and>
    (num \<le> int (length (concat freed)) \<or> rc_evictable_size t = 0) \<and>
    shrinks {n. linked s n} s freed {n. linked t n} t"
proof -
  have out: "evict_outcome False num 0 {n. linked s n} L s (radix_evict pick leaves num s)"
    by (rule radix_evict_outcome [OF run_linked [OF run] on pick leaves]) simp
  show ?thesis
  proof (rule evict_outcomeE [OF out quiet])
    fix t N' freed
    assume o: "radix_evict pick leaves num s = Some (Inr (0 + int (length (concat freed))), t)" "tree_inv N' L t"
      "shrinks {n. linked s n} s freed N' t" "num \<le> 0 + int (length (concat freed)) \<or> rc_evictable_size t = 0"
    have "{n. linked t n} = N'" by (rule linked_set [OF o(2)])
    then show ?thesis using o by (intro exI [of _ freed] exI [of _ t]) simp
  qed
qed

theorem evict_frees_unlocked_witness:
  "\<exists>(freed :: kv_index list list) t. radix_evict (\<lambda>_. 0) [1] 3 sample_full = Some (Inr (int (length (concat freed))), t) \<and>
     (3 \<le> int (length (concat freed)) \<or> rc_evictable_size t = 0)"
proof -
  have "picks_element (\<lambda>_. 0)" by (simp add: picks_element_def)
  from evict_frees_unlocked [OF sample_full_run(1) sample_full_fields(2,3) this, of "[1]" 3] show ?thesis
    by (simp add: sample_leaf(3)) blast
qed

text \<open>
  C23: eviction respects the strategy. If the heap yields its smallest pairs first, no evicted node
  had a larger priority than a leaf that could have been evicted from the start and was kept.
\<close>

theorem evict_smallest_priority_first:
  assumes run: "radix_run L s" and on: "\<not> rc_disable s" and quiet: "\<not> rc_events s"
    and pick: "picks_minimum (rc_store s) pick" and leaves: "distinct leaves" "set leaves = set (rc_evictable_leaves s)"
  shows "\<exists>r t. radix_evict pick leaves num s = Some (Inr r, t) \<and>
    (\<forall>x y. linked s x \<and> \<not> linked t x \<and> y \<in> set (rc_evictable_leaves s) \<and> linked t y \<longrightarrow>
       \<not> prio_less (get_priority (rc_strategy s) (rc_store s y)) (get_priority (rc_strategy s) (rc_store s x)))"
proof -
  have "picks_element pick" using pick by (simp add: picks_minimum_def)
  note out = radix_evict_outcome [OF run_linked [OF run] on this leaves pick, of True num]
  show ?thesis
  proof (rule evict_outcomeE [OF out quiet])
    fix t N' freed
    assume o: "radix_evict pick leaves num s = Some (Inr (0 + int (length (concat freed))), t)" "tree_inv N' L t"
      and m: "\<And>x y. True \<Longrightarrow> x \<in> {n. linked s n} \<Longrightarrow> x \<notin> N' \<Longrightarrow> y \<in> set (rc_evictable_leaves s) \<Longrightarrow> y \<in> N' \<Longrightarrow>
       \<not> prio_less (get_priority (rc_strategy s) (rc_store s y)) (get_priority (rc_strategy s) (rc_store s x))"
    have "linked t z \<longleftrightarrow> z \<in> N'" for z using linked_iff [OF o(2)] .
    then show ?thesis using o(1) m by (intro exI [of _ "0 + int (length (concat freed))"] exI [of _ t]) simp
  qed
qed

text \<open>A choice that yields a smallest pair: the first one.\<close>

fun first_min :: "(nat \<Rightarrow> tree_node) \<Rightarrow> eviction_heap \<Rightarrow> nat" where
  "first_min store [] = 0"
| "first_min store [x] = 0"
| "first_min store (x # y # ys) =
     (let i = first_min store (y # ys) in if heap_less store ((y # ys) ! i) x then Suc i else 0)"

lemma heap_less_alt:
  "heap_less store x y \<longleftrightarrow> prio_less (fst x) (fst y) \<or>
     (fst x = fst y \<and> nd_last_access (store (snd x)) < nd_last_access (store (snd y)))"
  by (auto simp: heap_less_def)

lemma heap_less_order:
  "\<not> heap_less store x x" "heap_less store x y \<Longrightarrow> \<not> heap_less store y x"
  "\<not> heap_less store z m \<Longrightarrow> \<not> heap_less store m x \<Longrightarrow> \<not> heap_less store z x"
  by (auto simp: heap_less_alt prio_less_def prod_eq_iff)

lemma first_min_picks: "hp \<noteq> [] \<Longrightarrow> first_min store hp < length hp \<and> (\<forall>y \<in> set hp. \<not> heap_less store y (hp ! first_min store hp))"
proof (induction store hp rule: first_min.induct)
  case (2 store x)
  then show ?case by (simp add: heap_less_order)
next
  case (3 store x y ys)
  define i where "i = first_min store (y # ys)"
  have IH: "i < length (y # ys)" "\<forall>z \<in> set (y # ys). \<not> heap_less store z ((y # ys) ! i)"
    using 3(1) by (simp_all add: i_def)
  show ?case
  proof (cases "heap_less store ((y # ys) ! i) x")
    case True
    then have "first_min store (x # y # ys) = Suc i" by (simp add: i_def Let_def)
    then show ?thesis using True IH heap_less_order(2) [OF True] by auto
  next
    case False
    then have "first_min store (x # y # ys) = 0" by (simp add: i_def Let_def)
    moreover have "\<not> heap_less store z x" if "z \<in> set (y # ys)" for z
      using heap_less_order(3) [OF _ False] IH(2) that by blast
    ultimately show ?thesis using heap_less_order(1) [of store x] by auto
  qed
qed simp

lemma first_min_minimum: "picks_minimum store (first_min store)"
  unfolding picks_minimum_def picks_element_def
proof (intro conjI allI impI ballI)
  show "first_min store hp < length hp" if "hp \<noteq> []" for hp using first_min_picks [OF that] by blast
  show "\<not> heap_less store y (hp ! first_min store hp)" if "y \<in> set hp" for hp y
  proof -
    have "hp \<noteq> []" using that by auto
    from first_min_picks [OF this] that show ?thesis by blast
  qed
qed

theorem evict_smallest_priority_first_witness:
  "\<exists>r t. radix_evict (first_min (rc_store sample_full)) [1] 3 sample_full = Some (Inr r, t)"
proof -
  have "distinct [1 :: nat]" "set [1] = set (rc_evictable_leaves sample_full)" unfolding sample_leaf(3) by simp_all
  from evict_smallest_priority_first [OF sample_full_run(1) sample_full_fields(2,3) first_min_minimum this, of 3] show ?thesis by blast
qed

end
