(* ===== verification/Req_Pool.thy ===== *)
theory Req_Pool
  imports Kv_Allocator
begin

text \<open>
  The table from requests to cache slots: \<^verbatim>\<open>ReqToTokenPool\<close> of
  \<^verbatim>\<open>mem_cache/memory_pool.py\<close>, and the kernels of \<^verbatim>\<open>mem_cache/common.py\<close> that write its
  rows and read the last slot of a request, each with the loop it replaces. The table is a block
  of device memory of \<open>rp_width\<close> cells per row; slots fit the 32 bits of a cell.
\<close>

section \<open>Rows\<close>

record req_pool =
  rp_size :: nat
  rp_width :: int
  rp_mem :: mem
  rp_free :: "nat list"

definition req_pool_init :: "nat \<Rightarrow> int \<Rightarrow> req_pool" where
  "req_pool_init sz width = \<lparr>rp_size = sz, rp_width = width, rp_mem = (\<lambda>_. 0), rp_free = [1..<sz + 1]\<rparr>"

definition req_pool_clear :: "req_pool \<Rightarrow> req_pool" where
  "req_pool_clear p = p\<lparr>rp_free := [1..<rp_size p + 1]\<rparr>"

definition req_pool_available :: "req_pool \<Rightarrow> nat" where
  "req_pool_available p = length (rp_free p)"

text \<open>\<^verbatim>\<open>req_to_token[i, a:b]\<close> and \<^verbatim>\<open>write((i, slice(a, b)), values)\<close>.\<close>

definition row_slice :: "req_pool \<Rightarrow> nat \<Rightarrow> int \<Rightarrow> int \<Rightarrow> kv_index list" where
  "row_slice p i a b = map (\<lambda>j. rp_mem p (int i * rp_width p + j)) [min a (rp_width p)..min b (rp_width p) - 1]"

definition write_row :: "nat \<Rightarrow> int \<Rightarrow> int \<Rightarrow> kv_index list \<Rightarrow> req_pool \<Rightarrow> req_pool res" where
  "write_row i a b vals p =
     bindE (slice_assign (rp_mem p) (int i * rp_width p + min a (rp_width p))
              (max 0 (min b (rp_width p) - min a (rp_width p))) vals)
       (\<lambda>m. Inr (p\<lparr>rp_mem := m\<rparr>))"

text \<open>
  \<^verbatim>\<open>alloc\<close> for a list of requests, each given by the index it holds (if any) and whether it
  is a chunked request or has committed slots.
\<close>

fun assign_rows :: "nat option list \<Rightarrow> nat list \<Rightarrow> nat option list" where
  "assign_rows [] sel = []"
| "assign_rows (Some i # rs) sel = Some i # assign_rows rs sel"
| "assign_rows (None # rs) [] = None # assign_rows rs []"
| "assign_rows (None # rs) (x # sel) = Some x # assign_rows rs sel"

definition req_pool_alloc :: "(nat option \<times> bool) list \<Rightarrow> req_pool \<Rightarrow> nat option list option res \<times> req_pool" where
  "req_pool_alloc reqs p =
     (if list_ex (\<lambda>(i, reuse). i \<noteq> None \<and> \<not> reuse) reqs then (Inl AssertionError, p)
      else let need = length (filter (\<lambda>r. fst r = None) reqs)
      in if length (rp_free p) < need then (Inr None, p)
         else (Inr (Some (assign_rows (map fst reqs) (take need (rp_free p)))),
               p\<lparr>rp_free := drop need (rp_free p)\<rparr>))"

definition req_pool_free :: "nat option \<Rightarrow> req_pool \<Rightarrow> nat option res \<times> req_pool" where
  "req_pool_free idx p = (case idx of None \<Rightarrow> (Inl AssertionError, p)
     | Some i \<Rightarrow> (Inr None, p\<lparr>rp_free := rp_free p @ [i]\<rparr>))"

section \<open>Writing the slots of a batch\<close>

definition BLOCK_WRITE :: int where "BLOCK_WRITE = 512"

text \<open>One instance of \<^verbatim>\<open>write_req_to_token_pool_triton\<close>.\<close>

definition write_req_to_token_pool_kernel ::
  "int list \<Rightarrow> (int \<Rightarrow> int) list \<Rightarrow> int list \<Rightarrow> int list \<Rightarrow> int list \<Rightarrow> (int \<Rightarrow> int) \<Rightarrow> int \<Rightarrow> nat \<Rightarrow> mem \<Rightarrow> mem" where
  "write_req_to_token_pool_kernel req_idx prefix_tensors pre_lens seq_lens extend_lens out_cache_loc stride pid m =
     (let row = req_idx ! pid * stride; pre_len = pre_lens ! pid; seq_len = seq_lens ! pid;
          num_loop = (pre_len + BLOCK_WRITE - 1) div BLOCK_WRITE;
          m1 = fold (\<lambda>i m. vstore m (row + i * BLOCK_WRITE) BLOCK_WRITE (\<lambda>off. i * BLOCK_WRITE + off < pre_len)
                 (\<lambda>off. (prefix_tensors ! pid) (i * BLOCK_WRITE + off))) [0..num_loop - 1] m;
          cumsum_start = sum_list (take pid extend_lens);
          num_loop2 = (seq_len - pre_len + BLOCK_WRITE - 1) div BLOCK_WRITE
      in fold (\<lambda>i m. vstore m (row + pre_len + i * BLOCK_WRITE) BLOCK_WRITE (\<lambda>off. i * BLOCK_WRITE + off < seq_len - pre_len)
            (\<lambda>off. out_cache_loc (cumsum_start + (i * BLOCK_WRITE + off)))) [0..num_loop2 - 1] m1)"

text \<open>A tensor read through a pointer: past its end the kernel reads what the device holds there.\<close>

definition pointer :: "int list \<Rightarrow> (int \<Rightarrow> int) \<Rightarrow> int \<Rightarrow> int" where
  "pointer xs oob i = (if 0 \<le> i \<and> i < int (length xs) then xs ! nat i else oob i)"

text \<open>One iteration of the loop for devices without Triton, with its running position.\<close>

definition write_cache_step ::
  "nat list \<Rightarrow> int list list \<Rightarrow> int list \<Rightarrow> int list \<Rightarrow> int list \<Rightarrow> int list \<Rightarrow> nat \<Rightarrow> (req_pool \<times> int) res \<Rightarrow> (req_pool \<times> int) res" where
  "write_cache_step req_idx prefix_tensors pre_lens seq_lens extend_lens out_cache_loc i r =
     bindE r (\<lambda>(p, pt).
     bindE (write_row (req_idx ! i) 0 (pre_lens ! i) (prefix_tensors ! i) p) (\<lambda>p1.
     bindE (write_row (req_idx ! i) (pre_lens ! i) (seq_lens ! i)
              (tensor_slice out_cache_loc pt (pt + extend_lens ! i)) p1) (\<lambda>p2.
       Inr (p2, pt + extend_lens ! i))))"

definition write_cache_indices ::
  "bool \<Rightarrow> nat list \<Rightarrow> (int \<Rightarrow> int) \<Rightarrow> int list \<Rightarrow> nat list \<Rightarrow> int list \<Rightarrow> int list \<Rightarrow> int list \<Rightarrow> int list list
     \<Rightarrow> req_pool \<Rightarrow> req_pool res" where
  "write_cache_indices triton order oob out_cache_loc req_idx pre_lens seq_lens extend_lens prefix_tensors p =
     (if triton
      then Inr (p\<lparr>rp_mem := fold (write_req_to_token_pool_kernel (map int req_idx) (map (\<lambda>t. pointer t oob) prefix_tensors)
              pre_lens seq_lens extend_lens (pointer out_cache_loc oob) (rp_width p)) order (rp_mem p)\<rparr>)
      else bindE (fold (write_cache_step req_idx prefix_tensors pre_lens seq_lens extend_lens out_cache_loc)
                    [0..<length req_idx] (Inr (p, 0))) (\<lambda>(p', _). Inr p'))"

subsection \<open>The last slot of each request\<close>

definition BLOCK_LAST :: int where "BLOCK_LAST = 256"

definition get_last_loc_torch :: "req_pool \<Rightarrow> int list \<Rightarrow> int list \<Rightarrow> int list" where
  "get_last_loc_torch p req_idx pre_lens =
     map2 (\<lambda>i l. if 0 < l then rp_mem p (i * rp_width p + (l - 1)) else - 1) req_idx pre_lens"

text \<open>
  One block of the two kernels: lanes past the batch load zeros. The second one computes in the
  width of the table and widens afterwards, which changes nothing for slots of 32 bits.
\<close>

definition get_last_loc_kernel :: "mem \<Rightarrow> int \<Rightarrow> int list \<Rightarrow> int list \<Rightarrow> int \<Rightarrow> mem \<Rightarrow> mem" where
  "get_last_loc_kernel table stride req_idx pre_lens pid res =
     (let n = int (length pre_lens);
          lens = (\<lambda>off. if pid * BLOCK_LAST + off < n then pre_lens ! nat (pid * BLOCK_LAST + off) else 0);
          idx = (\<lambda>off. if pid * BLOCK_LAST + off < n then req_idx ! nat (pid * BLOCK_LAST + off) else 0)
      in vstore res (pid * BLOCK_LAST) BLOCK_LAST (\<lambda>off. pid * BLOCK_LAST + off < n)
           (\<lambda>off. if 0 < lens off then table (idx off * stride + (lens off - 1)) else - 1))"

definition get_last_loc_safe_kernel :: "mem \<Rightarrow> int \<Rightarrow> int list \<Rightarrow> int list \<Rightarrow> int \<Rightarrow> mem \<Rightarrow> mem" where
  "get_last_loc_safe_kernel table stride req_idx pre_lens pid res =
     (let n = int (length pre_lens);
          act = (\<lambda>off. pid * BLOCK_LAST + off < n);
          lens = (\<lambda>off. if act off then pre_lens ! nat (pid * BLOCK_LAST + off) else 0);
          idx = (\<lambda>off. if act off then req_idx ! nat (pid * BLOCK_LAST + off) else 0)
      in vstore res (pid * BLOCK_LAST) BLOCK_LAST act
           (\<lambda>off. if act off \<and> 0 < lens off then table (idx off * stride + (lens off - 1)) else - 1))"

definition get_last_loc_grid :: "int list \<Rightarrow> int list" where
  "get_last_loc_grid pre_lens = [0..(int (length pre_lens) + BLOCK_LAST - 1) div BLOCK_LAST - 1]"

datatype last_loc_impl = Torch | Triton | TritonSafe

definition get_last_loc_dispatch :: "bool \<Rightarrow> string \<Rightarrow> last_loc_impl" where
  "get_last_loc_dispatch is_hip backend =
     (let uses_triton = backend \<noteq> ''ascend'' \<and> backend \<noteq> ''torch_native''
      in if is_hip \<and> uses_triton then TritonSafe else if uses_triton then Triton else Torch)"

definition get_last_loc ::
  "bool \<Rightarrow> string \<Rightarrow> int list \<Rightarrow> mem \<Rightarrow> req_pool \<Rightarrow> int list \<Rightarrow> int list \<Rightarrow> int list" where
  "get_last_loc is_hip backend order uninit p req_idx pre_lens =
     (case get_last_loc_dispatch is_hip backend of
        Torch \<Rightarrow> get_last_loc_torch p req_idx pre_lens
      | Triton \<Rightarrow> map (fold (get_last_loc_kernel (rp_mem p) (rp_width p) req_idx pre_lens) order uninit)
                    [0..int (length pre_lens) - 1]
      | TritonSafe \<Rightarrow> map (fold (get_last_loc_safe_kernel (rp_mem p) (rp_width p) req_idx pre_lens) order uninit)
                    [0..int (length pre_lens) - 1])"

section \<open>The kernels do what the loops do\<close>

lemma get_last_kernels_agree: "get_last_loc_safe_kernel = get_last_loc_kernel"
  by (intro ext) (simp add: get_last_loc_safe_kernel_def get_last_loc_kernel_def Let_def vstore_def)

lemma get_last_loc_kernel_at:
  assumes "length req_idx = length pre_lens" and "set order = set (get_last_loc_grid pre_lens)"
    and "i < length pre_lens"
  shows "fold (get_last_loc_kernel table stride req_idx pre_lens) order res (int i) =
    (if 0 < pre_lens ! i then table (req_idx ! i * stride + (pre_lens ! i - 1)) else - 1)"
proof -
  let ?n = "int (length pre_lens)" and ?B = BLOCK_LAST
  let ?R = "\<lambda>b a. b * ?B \<le> a \<and> a < b * ?B + ?B \<and> a < ?n"
  let ?v = "\<lambda>a. if 0 < pre_lens ! nat a then table (req_idx ! nat a * stride + (pre_lens ! nat a - 1)) else - 1"
  have W: "get_last_loc_kernel table stride req_idx pre_lens b m a = (if ?R b a then ?v a else m a)" for b m a
    by (auto simp: get_last_loc_kernel_def vstore_def Let_def)
  let ?b = "int i div ?B"
  have B: "?b * ?B \<le> int i" "int i < ?b * ?B + ?B"
    using pos_mod_sign [of ?B "int i"] pos_mod_bound [of ?B "int i"] div_mult_mod_eq [of "int i" ?B]
    by (simp_all add: BLOCK_LAST_def)
  then have R: "?R ?b (int i)" using assms(3) by simp
  have "?b \<le> (?n + ?B - 1) div ?B - 1"
  proof -
    have "?b \<le> (?n - 1) div ?B" using assms(3) by (intro zdiv_mono1) (auto simp: BLOCK_LAST_def)
    also have "\<dots> = (?n + ?B - 1) div ?B - 1"
      using div_add_self2 [of ?B "?n - 1"] by (simp add: algebra_simps BLOCK_LAST_def)
    finally show ?thesis .
  qed
  then have mem: "?b \<in> set order" using assms(2) by (simp add: get_last_loc_grid_def BLOCK_LAST_def)
  have block: "int i div ?B = b" if "?R b (int i)" for b
    using that by (intro int_div_pos_eq [where r = "int i - b * ?B"]) (auto simp: BLOCK_LAST_def)
  then have uniq: "b = c" if "?R b (int i)" "?R c (int i)" for b c using that by metis
  have "fold (get_last_loc_kernel table stride req_idx pre_lens) order res (int i) = ?v (int i)"
    by (rule fold_writes_inside [where R = ?R and v = "\<lambda>_. ?v" and i = ?b]) (use W uniq mem R in auto)
  then show ?thesis by simp
qed

text \<open>
  Whichever kernel the platform selects, launched in any order of its blocks, the last slots
  of a batch are those of the tensor expression.
\<close>

theorem get_last_loc_is_reference:
  assumes "length req_idx = length pre_lens" and "set order = set (get_last_loc_grid pre_lens)"
  shows "get_last_loc is_hip backend order uninit p req_idx pre_lens = get_last_loc_torch p req_idx pre_lens"
proof -
  have "map (fold (get_last_loc_kernel (rp_mem p) (rp_width p) req_idx pre_lens) order uninit) [0..int (length pre_lens) - 1] =
      get_last_loc_torch p req_idx pre_lens"
    using get_last_loc_kernel_at [OF assms] assms(1)
    by (intro nth_equalityI) (auto simp: get_last_loc_torch_def)
  then show ?thesis by (simp add: get_last_loc_def get_last_kernels_agree split: last_loc_impl.split)
qed

theorem get_last_loc_is_reference_witness:
  "get_last_loc True ''triton'' [0] (\<lambda>_. 7) \<lparr>rp_size = 2, rp_width = 4, rp_mem = (\<lambda>a. 100 + a), rp_free = []\<rparr> [2, 1] [3, 0] =
     [110, - 1]"
proof -
  let ?p = "\<lparr>rp_size = 2, rp_width = 4, rp_mem = (\<lambda>a. 100 + a), rp_free = []\<rparr>"
  have "get_last_loc True ''triton'' [0] (\<lambda>_. 7) ?p [2, 1] [3, 0] = get_last_loc_torch ?p [2, 1] [3, 0]"
    by (rule get_last_loc_is_reference) (simp_all add: get_last_loc_grid_def BLOCK_LAST_def)
  then show ?thesis by (simp add: get_last_loc_torch_def)
qed

text \<open>The order of writers to disjoint regions does not matter.\<close>

lemma fold_writes_order:
  assumes W: "\<And>i out a. i \<in> set xs \<Longrightarrow> W i out a = (if R i a then v i a else out a)"
    and R: "\<And>i j a. i \<in> set xs \<Longrightarrow> j \<in> set xs \<Longrightarrow> R i a \<Longrightarrow> R j a \<Longrightarrow> i = j"
    and same: "set ys = set xs"
  shows "fold W ys out = fold W xs out"
proof
  fix a
  show "fold W ys out a = fold W xs out a"
  proof (cases "\<exists>i \<in> set xs. R i a")
    case True
    then obtain i where i: "i \<in> set xs" "R i a" by blast
    have "fold W ys out a = v i a" "fold W xs out a = v i a"
      by (rule fold_writes_inside [where R = R]; use W R i same in blast)+
    then show ?thesis by simp
  next
    case False
    have "fold W ys out a = out a" "fold W xs out a = out a"
      by (rule fold_writes_outside [where R = R]; use W False same in auto)+
    then show ?thesis by simp
  qed
qed

text \<open>What is written for a request, and where.\<close>

definition row_region :: "nat list \<Rightarrow> int list \<Rightarrow> int \<Rightarrow> nat \<Rightarrow> int \<Rightarrow> bool" where
  "row_region req_idx seq_lens stride i a \<longleftrightarrow>
     int (req_idx ! i) * stride \<le> a \<and> a < int (req_idx ! i) * stride + seq_lens ! i"

definition row_value :: "nat list \<Rightarrow> int list list \<Rightarrow> int list \<Rightarrow> int list \<Rightarrow> int list \<Rightarrow> int \<Rightarrow> nat \<Rightarrow> int \<Rightarrow> int" where
  "row_value req_idx prefix_tensors pre_lens extend_lens out_cache_loc stride i a =
     (let off = a - int (req_idx ! i) * stride
      in if off < pre_lens ! i then prefix_tensors ! i ! nat off
         else out_cache_loc ! nat (sum_list (take i extend_lens) + (off - pre_lens ! i)))"

text \<open>A batch as the scheduler prepares it.\<close>

definition write_batch_ok ::
  "nat list \<Rightarrow> int list list \<Rightarrow> int list \<Rightarrow> int list \<Rightarrow> int list \<Rightarrow> int list \<Rightarrow> int \<Rightarrow> bool" where
  "write_batch_ok req_idx prefix_tensors pre_lens seq_lens extend_lens out_cache_loc width \<longleftrightarrow>
     distinct req_idx \<and> length pre_lens = length req_idx \<and> length seq_lens = length req_idx \<and>
     length extend_lens = length req_idx \<and> length prefix_tensors = length req_idx \<and>
     int (length out_cache_loc) = sum_list extend_lens \<and>
     (\<forall>i < length req_idx. int (length (prefix_tensors ! i)) = pre_lens ! i \<and>
        extend_lens ! i = seq_lens ! i - pre_lens ! i \<and> pre_lens ! i \<le> seq_lens ! i \<and> seq_lens ! i \<le> width)"

lemma region_unique:
  assumes ok: "write_batch_ok req_idx pts pre_lens seq_lens extend_lens out width"
    and "i < length req_idx" "j < length req_idx"
    and "row_region req_idx seq_lens width i a" "row_region req_idx seq_lens width j a"
  shows "i = j"
proof -
  have w: "seq_lens ! i \<le> width" "seq_lens ! j \<le> width" using ok assms(2,3) by (auto simp: write_batch_ok_def)
  have "int (req_idx ! i) * width \<le> a" "a < int (req_idx ! i) * width + width"
    "int (req_idx ! j) * width \<le> a" "a < int (req_idx ! j) * width + width"
    using assms(4,5) w by (auto simp: row_region_def)
  then have "a div width = int (req_idx ! i)" "a div width = int (req_idx ! j)"
    using int_div_pos_eq [of a width "int (req_idx ! i)" "a - int (req_idx ! i) * width"]
      int_div_pos_eq [of a width "int (req_idx ! j)" "a - int (req_idx ! j) * width"] by (simp_all add: mult.commute)
  then have "req_idx ! i = req_idx ! j" by simp
  then show ?thesis using ok assms(2,3) by (simp add: write_batch_ok_def nth_eq_iff_index_eq)
qed

lemma extend_start:
  assumes ok: "write_batch_ok req_idx pts pre_lens seq_lens extend_lens out width" and "i < length req_idx"
  shows "0 \<le> sum_list (take i extend_lens)" "sum_list (take i extend_lens) + extend_lens ! i \<le> int (length out)"
proof -
  have len: "length extend_lens = length req_idx" using ok by (simp add: write_batch_ok_def)
  have nn: "0 \<le> x" if "x \<in> set extend_lens" for x
    using that ok by (auto simp: write_batch_ok_def in_set_conv_nth)
  then show "0 \<le> sum_list (take i extend_lens)" by (intro sum_list_nonneg) (auto dest: in_set_takeD)
  have "sum_list extend_lens = sum_list (take i extend_lens) + (extend_lens ! i + sum_list (drop (Suc i) extend_lens))"
    using assms(2) len by (metis id_take_nth_drop sum_list.Cons sum_list_append)
  moreover have "0 \<le> sum_list (drop (Suc i) extend_lens)" using nn by (intro sum_list_nonneg) (auto dest: in_set_dropD)
  ultimately show "sum_list (take i extend_lens) + extend_lens ! i \<le> int (length out)"
    using ok by (simp add: write_batch_ok_def)
qed

lemma kernel_writes_row:
  assumes ok: "write_batch_ok req_idx pts pre_lens seq_lens extend_lens out width" and i: "i < length req_idx"
  shows "write_req_to_token_pool_kernel (map int req_idx) (map (\<lambda>t. pointer t oob) pts) pre_lens seq_lens extend_lens
      (pointer out oob) width i m a =
    (if row_region req_idx seq_lens width i a then row_value req_idx pts pre_lens extend_lens out width i a else m a)"
proof -
  let ?row = "int (req_idx ! i) * width" and ?pre = "pre_lens ! i" and ?seq = "seq_lens ! i"
  let ?start = "sum_list (take i extend_lens)"
  have len: "length pts = length req_idx" "int (length (pts ! i)) = ?pre" "?pre \<le> ?seq" "extend_lens ! i = ?seq - ?pre"
    using ok i by (auto simp: write_batch_ok_def)
  have pre0: "0 \<le> ?pre" using len(2) by linarith
  note st = extend_start [OF ok i]
  have run: "write_req_to_token_pool_kernel (map int req_idx) (map (\<lambda>t. pointer t oob) pts) pre_lens seq_lens extend_lens
      (pointer out oob) width i m =
    (\<lambda>a. if ?row + ?pre \<le> a \<and> a < ?row + ?pre + (?seq - ?pre) then pointer out oob (?start + (a - (?row + ?pre)))
         else if ?row \<le> a \<and> a < ?row + ?pre then pointer (pts ! i) oob (a - ?row) else m a)"
    using fold_blocks [of BLOCK_WRITE ?pre ?row "pointer (pts ! i) oob" m]
      fold_blocks [of BLOCK_WRITE "?seq - ?pre" "?row + ?pre" "\<lambda>x. pointer out oob (?start + x)"]
      pre0 len i
    by (simp add: write_req_to_token_pool_kernel_def Let_def BLOCK_WRITE_def)
  show ?thesis
  proof (cases "?row \<le> a \<and> a < ?row + ?seq")
    case True
    then show ?thesis
      using len pre0 st unfolding run
      by (auto simp: row_region_def row_value_def Let_def pointer_def diff_diff_eq)
  next
    case False
    then show ?thesis using len pre0 unfolding run by (auto simp: row_region_def)
  qed
qed

lemma loop_writes_row:
  assumes ok: "write_batch_ok req_idx pts pre_lens seq_lens extend_lens out (rp_width p)" and i: "i < length req_idx"
  shows "write_cache_step req_idx pts pre_lens seq_lens extend_lens out i (Inr (p, sum_list (take i extend_lens))) =
    Inr (p\<lparr>rp_mem := (\<lambda>a. if row_region req_idx seq_lens (rp_width p) i a
        then row_value req_idx pts pre_lens extend_lens out (rp_width p) i a else rp_mem p a)\<rparr>,
      sum_list (take (Suc i) extend_lens))"
proof -
  let ?w = "rp_width p" and ?pre = "pre_lens ! i" and ?seq = "seq_lens ! i"
  let ?row = "int (req_idx ! i) * ?w" and ?start = "sum_list (take i extend_lens)"
  have len: "int (length (pts ! i)) = ?pre" "?pre \<le> ?seq" "?seq \<le> ?w" "extend_lens ! i = ?seq - ?pre"
    "length extend_lens = length req_idx"
    using ok i by (auto simp: write_batch_ok_def)
  have pre0: "0 \<le> ?pre" using len(1) by linarith
  note st = extend_start [OF ok i]
  define p1 where "p1 = p\<lparr>rp_mem := vstore (rp_mem p) ?row ?pre (\<lambda>_. True) (\<lambda>off. pts ! i ! nat off)\<rparr>"
  have w1: "write_row (req_idx ! i) 0 ?pre (pts ! i) p = Inr p1"
    using len pre0 by (simp add: write_row_def slice_assign_def p1_def)
  define vals where "vals = tensor_slice out ?start (?start + extend_lens ! i)"
  have vl: "int (length vals) = ?seq - ?pre"
    using st len by (auto simp: vals_def tensor_slice_def)
  have vn: "vals ! nat off = out ! nat (?start + off)" if "0 \<le> off" "off < ?seq - ?pre" for off
    using that st len by (auto simp: vals_def tensor_slice_def nat_add_distrib)
  have w2: "write_row (req_idx ! i) ?pre ?seq vals p1 =
      Inr (p1\<lparr>rp_mem := vstore (rp_mem p1) (?row + ?pre) (?seq - ?pre) (\<lambda>_. True) (\<lambda>off. vals ! nat off)\<rparr>)"
    using len vl by (simp add: write_row_def slice_assign_def p1_def)
  have "vstore (rp_mem p1) (?row + ?pre) (?seq - ?pre) (\<lambda>_. True) (\<lambda>off. vals ! nat off) =
      (\<lambda>a. if row_region req_idx seq_lens ?w i a then row_value req_idx pts pre_lens extend_lens out ?w i a else rp_mem p a)"
  proof
    fix a
    show "vstore (rp_mem p1) (?row + ?pre) (?seq - ?pre) (\<lambda>_. True) (\<lambda>off. vals ! nat off) a =
        (if row_region req_idx seq_lens ?w i a then row_value req_idx pts pre_lens extend_lens out ?w i a else rp_mem p a)"
      using vn [of "a - (?row + ?pre)"] len(1,2) pre0
      by (auto simp: vstore_def p1_def row_region_def row_value_def Let_def algebra_simps)
  qed
  moreover have "?start + extend_lens ! i = sum_list (take (Suc i) extend_lens)"
    using i len(5) by (simp add: take_Suc_conv_app_nth)
  ultimately show ?thesis
    using w1 w2 by (simp add: write_cache_step_def vals_def p1_def)
qed

text \<open>
  C26: writing the slots of a batch into the table gives the same table whether the kernel runs, in
  any order of its instances, or the loop. Each request's row then begins with its prefix slots
  followed by its new slots, and no other row changes.
\<close>

theorem write_cache_indices_is_loop:
  assumes ok: "write_batch_ok req_idx pts pre_lens seq_lens extend_lens out (rp_width p)"
    and order: "set order = {0..<length req_idx}"
  shows "write_cache_indices True order oob out req_idx pre_lens seq_lens extend_lens pts p =
      write_cache_indices False [] oob out req_idx pre_lens seq_lens extend_lens pts p \<and>
    (\<exists>p'. write_cache_indices True order oob out req_idx pre_lens seq_lens extend_lens pts p = Inr p' \<and>
      (\<forall>i < length req_idx. row_slice p' (req_idx ! i) 0 (seq_lens ! i) =
         pts ! i @ tensor_slice out (sum_list (take i extend_lens)) (sum_list (take i extend_lens) + extend_lens ! i)) \<and>
      (\<forall>r. r \<notin> set req_idx \<longrightarrow> row_slice p' r 0 (rp_width p) = row_slice p r 0 (rp_width p)))"
proof -
  let ?w = "rp_width p" and ?n = "length req_idx"
  let ?R = "row_region req_idx seq_lens ?w" and ?v = "row_value req_idx pts pre_lens extend_lens out ?w"
  define W where "W = (\<lambda>i m a. if ?R i a then ?v i a else m a)"
  have uniq: "i = j" if "i < ?n" "j < ?n" "?R i a" "?R j a" for i j a by (rule region_unique [OF ok that])
  have kernel: "fold (write_req_to_token_pool_kernel (map int req_idx) (map (\<lambda>t. pointer t oob) pts) pre_lens seq_lens
      extend_lens (pointer out oob) ?w) order m = fold W order m" for m
    by (rule fold_cong) (use order kernel_writes_row [OF ok] in \<open>auto simp: W_def fun_eq_iff\<close>)
  have perm: "fold W order m = fold W [0..<?n] m" for m
    by (rule fold_writes_order [where R = ?R and v = ?v]) (use order uniq in \<open>auto simp: W_def\<close>)
  have loop: "k \<le> ?n \<Longrightarrow> fold (write_cache_step req_idx pts pre_lens seq_lens extend_lens out) [0..<k] (Inr (p, 0)) =
      Inr (p\<lparr>rp_mem := fold W [0..<k] (rp_mem p)\<rparr>, sum_list (take k extend_lens))" for k
  proof (induction k)
    case (Suc k)
    let ?p = "p\<lparr>rp_mem := fold W [0..<k] (rp_mem p)\<rparr>"
    have "write_batch_ok req_idx pts pre_lens seq_lens extend_lens out (rp_width ?p)" using ok by simp
    from loop_writes_row [OF this, of k] Suc show ?case by (simp add: W_def cong: if_cong)
  qed simp
  define p' where "p' = p\<lparr>rp_mem := fold W [0..<?n] (rp_mem p)\<rparr>"
  have k: "write_cache_indices True order oob out req_idx pre_lens seq_lens extend_lens pts p = Inr p'"
    by (simp add: write_cache_indices_def kernel perm p'_def)
  have l: "write_cache_indices False [] oob out req_idx pre_lens seq_lens extend_lens pts p = Inr p'"
    using loop [of ?n] by (simp add: write_cache_indices_def p'_def)
  have at: "rp_mem p' a = ?v i a" if "i < ?n" "?R i a" for i a
    unfolding p'_def using that uniq
    by (simp, intro fold_writes_inside [where R = ?R and v = ?v]) (auto simp: W_def)
  have off: "rp_mem p' a = rp_mem p a" if "\<And>i. i < ?n \<Longrightarrow> \<not> ?R i a" for a
    unfolding p'_def using that by (simp, intro fold_writes_outside [where R = ?R]) (auto simp: W_def)
  have "row_slice p' (req_idx ! i) 0 (seq_lens ! i) =
      pts ! i @ tensor_slice out (sum_list (take i extend_lens)) (sum_list (take i extend_lens) + extend_lens ! i)"
    if i: "i < ?n" for i
  proof -
    let ?start = "sum_list (take i extend_lens)"
    have len: "pre_lens ! i = int (length (pts ! i))" "pre_lens ! i \<le> seq_lens ! i" "seq_lens ! i \<le> ?w"
      "extend_lens ! i = seq_lens ! i - pre_lens ! i"
      using ok i by (auto simp: write_batch_ok_def)
    note st = extend_start [OF ok i]
    have "rp_mem p' (int (req_idx ! i) * ?w + j) = ?v i (int (req_idx ! i) * ?w + j)" if "0 \<le> j" "j < seq_lens ! i" for j
      using at [OF i] that by (simp add: row_region_def)
    then show ?thesis
      using len st
      by (intro nth_equalityI)
        (auto simp: row_slice_def p'_def row_value_def Let_def tensor_slice_def nth_append nat_add_distrib nat_diff_distrib)
  qed
  moreover have "row_slice p' r 0 ?w = row_slice p r 0 ?w" if r: "r \<notin> set req_idx" for r
  proof -
    have "rp_mem p' (int r * ?w + j) = rp_mem p (int r * ?w + j)" if j: "0 \<le> j" "j < ?w" for j
    proof (rule off)
      fix i assume i: "i < ?n"
      have w: "seq_lens ! i \<le> ?w" using ok i by (simp add: write_batch_ok_def)
      show "\<not> ?R i (int r * ?w + j)"
      proof
        assume "?R i (int r * ?w + j)"
        then have "(int r * ?w + j) div ?w = int (req_idx ! i)"
          using w int_div_pos_eq [of "int r * ?w + j" ?w "int (req_idx ! i)" "int r * ?w + j - int (req_idx ! i) * ?w"]
          by (simp add: row_region_def mult.commute)
        moreover have "(int r * ?w + j) div ?w = int r"
          using j int_div_pos_eq [of "int r * ?w + j" ?w "int r" j] by (simp add: mult.commute)
        ultimately show False using r i by auto
      qed
    qed
    then show ?thesis by (auto simp: row_slice_def p'_def min_def)
  qed
  ultimately show ?thesis using k l by auto
qed

theorem write_cache_indices_is_loop_witness:
  "write_cache_indices True [1, 0] (\<lambda>_. 0) [50, 51, 52] [2, 1] [1, 0] [2, 2] [1, 2] [[40], []]
     \<lparr>rp_size = 2, rp_width = 4, rp_mem = (\<lambda>_. 0), rp_free = []\<rparr> =
   write_cache_indices False [] (\<lambda>_. 0) [50, 51, 52] [2, 1] [1, 0] [2, 2] [1, 2] [[40], []]
     \<lparr>rp_size = 2, rp_width = 4, rp_mem = (\<lambda>_. 0), rp_free = []\<rparr>"
proof -
  let ?p = "\<lparr>rp_size = 2, rp_width = 4, rp_mem = (\<lambda>_. 0), rp_free = []\<rparr>"
  have "write_batch_ok [2, 1] [[40], []] [1, 0] [2, 2] [1, 2] [50, 51, 52] (rp_width ?p)"
    by (simp add: write_batch_ok_def All_less_Suc2)
  moreover have "set [1, 0] = {0..<length [2, 1 :: nat]}" by auto
  ultimately show ?thesis by (rule write_cache_indices_is_loop [THEN conjunct1])
qed

section \<open>Rows are owned by one request at a time\<close>

text \<open>Runs of the pool; \<open>H\<close> is the set of rows held by requests.\<close>

inductive req_pool_run :: "req_pool \<Rightarrow> nat set \<Rightarrow> bool" where
  init: "req_pool_run (req_pool_init sz width) {}"
| clear: "req_pool_run p H \<Longrightarrow> req_pool_run (req_pool_clear p) {}"
| alloc: "req_pool_run p H \<Longrightarrow> set (map fst reqs) \<subseteq> insert None (Some ` H) \<Longrightarrow>
    req_pool_alloc reqs p = (Inr (Some idx), q) \<Longrightarrow> req_pool_run q (H \<union> set (List.map_filter id idx))"
| refused: "req_pool_run p H \<Longrightarrow> req_pool_alloc reqs p = (Inr None, q) \<Longrightarrow> req_pool_run q H"
| free: "req_pool_run p H \<Longrightarrow> i \<in> H \<Longrightarrow> req_pool_free (Some i) p = (r, q) \<Longrightarrow> req_pool_run q (H - {i})"
| store: "req_pool_run p H \<Longrightarrow> write_row i a b vals p = Inr q \<Longrightarrow> req_pool_run q H"

lemma assign_rows_complete:
  assumes "length sel = length (filter (\<lambda>r. r = None) rs)"
  shows "None \<notin> set (assign_rows rs sel)" "length (assign_rows rs sel) = length rs"
    "set (List.map_filter id (assign_rows rs sel)) = set (List.map_filter id rs) \<union> set sel"
  using assms by (induction rs sel rule: assign_rows.induct) (auto simp: map_filter_simps)

text \<open>
  C25: in every state of the pool the free rows and the held rows are disjoint, no free row is
  listed twice, and together they are the rows from one to the size of the pool: row zero, which
  padded batches write to, is never handed out. An allocation gives every request a row.
\<close>

theorem req_rows_partition:
  assumes "req_pool_run p H"
  shows "distinct (rp_free p) \<and> set (rp_free p) \<inter> H = {} \<and> set (rp_free p) \<union> H = {1..rp_size p} \<and>
    (\<forall>reqs idx q. req_pool_alloc reqs p = (Inr (Some idx), q) \<longrightarrow> length idx = length reqs \<and> None \<notin> set idx)"
proof -
  have "distinct (rp_free p) \<and> set (rp_free p) \<inter> H = {} \<and> set (rp_free p) \<union> H = {1..rp_size p}"
    using assms
  proof (induction rule: req_pool_run.induct)
    case (alloc p H reqs idx q)
    let ?need = "length (filter (\<lambda>r. fst r = None) reqs)"
    have q: "idx = assign_rows (map fst reqs) (take ?need (rp_free p))" "q = p\<lparr>rp_free := drop ?need (rp_free p)\<rparr>"
      "?need \<le> length (rp_free p)"
      using alloc.hyps(3) by (auto simp: req_pool_alloc_def Let_def split: if_splits)
    have "length (take ?need (rp_free p)) = length (filter (\<lambda>r. r = None) (map fst reqs))"
      using q(3) by (simp add: filter_map comp_def)
    from assign_rows_complete(3) [OF this] have idx: "set (List.map_filter id idx) =
        set (List.map_filter id (map fst reqs)) \<union> set (take ?need (rp_free p))" by (simp add: q(1))
    have "set (List.map_filter id (map fst reqs)) \<subseteq> H"
      using alloc.hyps(2) by (auto simp: List.map_filter_def)
    then have H': "H \<union> set (List.map_filter id idx) = H \<union> set (take ?need (rp_free p))" unfolding idx by blast
    have "set (rp_free p) = set (take ?need (rp_free p)) \<union> set (drop ?need (rp_free p))"
      by (metis append_take_drop_id set_append)
    moreover have "set (take ?need (rp_free p)) \<inter> set (drop ?need (rp_free p)) = {}"
      using alloc.IH by (metis append_take_drop_id distinct_append)
    ultimately show ?case using alloc.IH unfolding H' q(2) by auto
  qed (auto simp: req_pool_init_def req_pool_clear_def req_pool_alloc_def req_pool_free_def write_row_def Let_def
      bindE_Inr_iff split: if_splits)
  moreover have "length idx = length reqs \<and> None \<notin> set idx" if a: "req_pool_alloc reqs p = (Inr (Some idx), q)" for reqs idx q
  proof -
    let ?need = "length (filter (\<lambda>r. fst r = None) reqs)"
    have q: "idx = assign_rows (map fst reqs) (take ?need (rp_free p))" "?need \<le> length (rp_free p)"
      using a by (auto simp: req_pool_alloc_def Let_def split: if_splits)
    have "length (take ?need (rp_free p)) = length (filter (\<lambda>r. r = None) (map fst reqs))"
      using q(2) by (simp add: filter_map comp_def)
    from assign_rows_complete(1,2) [OF this] show ?thesis by (simp add: q(1))
  qed
  ultimately show ?thesis by blast
qed

theorem req_rows_partition_witness:
  "distinct (rp_free (req_pool_init 3 8)) \<and> set (rp_free (req_pool_init 3 8)) = {1..3}"
  using req_rows_partition [OF req_pool_run.init [of 3 8]] by (simp add: req_pool_init_def)

end
