(* ===== verification/Radix_Requests.thy ===== *)
theory Radix_Requests
  imports Radix_Cache Req_Pool
begin

text \<open>
  How requests hand their slots to the radix cache: \<^verbatim>\<open>cache_finished_req\<close> and
  \<^verbatim>\<open>cache_unfinished_req\<close> of \<^verbatim>\<open>radix_cache.py\<close>, the length bookkeeping of
  \<^verbatim>\<open>Req\<close> in \<^verbatim>\<open>schedule_batch.py\<close>, and the allocation and release helpers of
  \<^verbatim>\<open>mem_cache/common.py\<close>. The theorems account for every slot: what a request holds ends in
  the tree or in the allocator, once.
\<close>

section \<open>Requests and the state they act on\<close>

record req =
  rq_pool_idx :: "nat option"
  rq_origin_input_ids :: "int list"
  rq_output_ids :: "int list"
  rq_fill_ids :: "int list"
  rq_extra_key :: "string option"
  rq_priority :: "int option"
  rq_kv_committed_len :: nat
  rq_kv_allocated_len :: nat
  rq_kv_committed_freed :: bool
  rq_kv_overallocated_freed :: bool
  rq_cache_protected_len :: nat
  rq_last_node :: "nat option"
  rq_prefix_indices :: "kv_index list"
  rq_reasoning_tokens :: nat
  rq_skip_radix_cache_insert :: bool

record rstate =
  rs_tree :: radix
  rs_pool :: req_pool
  rs_req :: req

text \<open>
  A step may raise, in which case the state it has reached is kept, and \<open>None\<close> is a loop that does
  not end.
\<close>

type_synonym 'a step = "rstate \<Rightarrow> ('a res \<times> rstate) option"

definition retS :: "'a \<Rightarrow> 'a step" where "retS x s = Some (Inr x, s)"

definition raiseS :: "py_exc \<Rightarrow> 'a step" where "raiseS e s = Some (Inl e, s)"

definition bindS :: "'a step \<Rightarrow> ('a \<Rightarrow> 'b step) \<Rightarrow> 'b step" where
  "bindS m f s = (case m s of None \<Rightarrow> None | Some (Inl e, t) \<Rightarrow> Some (Inl e, t) | Some (Inr x, t) \<Rightarrow> f x t)"

definition treeS :: "(radix \<Rightarrow> ('a res \<times> radix) option) \<Rightarrow> 'a step" where
  "treeS f s = (case f (rs_tree s) of None \<Rightarrow> None | Some (r, T) \<Rightarrow> Some (r, s\<lparr>rs_tree := T\<rparr>))"

definition freeS :: "kv_index list \<Rightarrow> unit step" where
  "freeS v = treeS (\<lambda>T. Some (Inr (), free_kv v T))"

definition poolS :: "(req_pool \<Rightarrow> req_pool res) \<Rightarrow> unit step" where
  "poolS f s = (case f (rs_pool s) of Inl e \<Rightarrow> Some (Inl e, s) | Inr p \<Rightarrow> Some (Inr (), s\<lparr>rs_pool := p\<rparr>))"

definition reqS :: "(req \<Rightarrow> req) \<Rightarrow> unit step" where
  "reqS f s = Some (Inr (), s\<lparr>rs_req := f (rs_req s)\<rparr>)"

text \<open>\<^verbatim>\<open>req_to_token[req.req_pool_idx, :n]\<close>; a request without a row does not get here.\<close>

definition req_row :: "nat \<Rightarrow> kv_index list step" where
  "req_row n s = (case rq_pool_idx (rs_req s) of None \<Rightarrow> raiseS IndexError s
     | Some i \<Rightarrow> retS (row_slice (rs_pool s) i 0 (int n)) s)"

section \<open>Lengths that a request reports\<close>

definition cache_commit_len :: "bool \<Rightarrow> req \<Rightarrow> nat" where
  "cache_commit_len strip_thinking r =
     (if strip_thinking \<and> 0 < rq_reasoning_tokens r
      then min (rq_kv_committed_len r) (length (rq_origin_input_ids r)) else rq_kv_committed_len r)"

definition pop_committed_kv_cache :: "bool \<Rightarrow> nat step" where
  "pop_committed_kv_cache strip_thinking s =
     (if rq_kv_committed_freed (rs_req s) then raiseS AssertionError s
      else bindS (reqS (\<lambda>r. r\<lparr>rq_kv_committed_freed := True\<rparr>))
             (\<lambda>_. retS (cache_commit_len strip_thinking (rs_req s))) s)"

definition pop_overallocated_kv_cache :: "bool \<Rightarrow> (nat \<times> nat) step" where
  "pop_overallocated_kv_cache strip_thinking s =
     (if rq_kv_overallocated_freed (rs_req s) then raiseS AssertionError s
      else bindS (reqS (\<lambda>r. r\<lparr>rq_kv_overallocated_freed := True\<rparr>))
             (\<lambda>_. retS (cache_commit_len strip_thinking (rs_req s), rq_kv_allocated_len (rs_req s))) s)"

section \<open>Caching a request\<close>

definition request_key :: "rstate \<Rightarrow> int list \<Rightarrow> radix_key" where
  "request_key s ids = page_aligned (rc_page_size (rs_tree s))
     \<lparr>token_ids = ids, extra_key = rq_extra_key (rs_req s), is_bigram = rc_is_eagle (rs_tree s)\<rparr>"

definition request_priority :: "req \<Rightarrow> int option" where
  "request_priority r = Some (case rq_priority r of None \<Rightarrow> 0 | Some p \<Rightarrow> p)"

definition cache_finished_req :: "bool \<Rightarrow> bool \<Rightarrow> unit step" where
  "cache_finished_req strip_thinking is_insert0 =
     bindS (pop_committed_kv_cache strip_thinking) (\<lambda>kv_committed_len s.
       let is_insert = (is_insert0 \<and> \<not> rc_disable_finished_insert (rs_tree s)); r = rs_req s
       in if rc_disable (rs_tree s) then bindS (req_row kv_committed_len) freeS s
          else let ids = take kv_committed_len (rq_origin_input_ids r @ rq_output_ids r);
                   key = request_key s ids; key_len = rk_len key
          in bindS (req_row (length ids)) (\<lambda>kv.
               bindS (if is_insert
                      then bindS (treeS (radix_insert key (Some (take key_len kv)) (request_priority r) False))
                             (\<lambda>prefix_len. freeS (drop (rq_cache_protected_len r) (take prefix_len kv)))
                      else freeS (drop (rq_cache_protected_len r) (take key_len kv))) (\<lambda>_.
               bindS (freeS (drop key_len kv)) (\<lambda>_.
                 case rq_last_node r of None \<Rightarrow> retS ()
                 | Some n \<Rightarrow> bindS (treeS (dec_lock_ref n)) (\<lambda>_. retS ())))) s)"

definition cache_unfinished_req :: "bool \<Rightarrow> unit step" where
  "cache_unfinished_req chunked s =
     (if rc_disable (rs_tree s) then retS () s
      else let r = rs_req s; ids = rq_fill_ids r; key = request_key s ids; key_len = rk_len key
      in bindS (req_row (length ids)) (\<lambda>kv.
         bindS (treeS (radix_insert key (Some (take key_len kv)) (request_priority r) chunked)) (\<lambda>new_prefix_len.
         bindS (freeS (drop (rq_cache_protected_len r) (take new_prefix_len kv))) (\<lambda>_.
         bindS (treeS (match_prefix key)) (\<lambda>(new_indices, new_last_node).
           if length new_indices \<noteq> key_len then raiseS AssertionError
           else bindS (case rq_pool_idx r of None \<Rightarrow> raiseS IndexError
                  | Some i \<Rightarrow> poolS (write_row i (int (rq_cache_protected_len r)) (int (length new_indices))
                                 (drop (rq_cache_protected_len r) new_indices))) (\<lambda>_.
           bindS (reqS (\<lambda>r. r\<lparr>rq_cache_protected_len := length new_indices\<rparr>)) (\<lambda>_.
           bindS (case rq_last_node r of None \<Rightarrow> raiseS AttributeError
                  | Some n \<Rightarrow> bindS (treeS (dec_lock_ref n)) (\<lambda>_. retS ())) (\<lambda>_.
           bindS (treeS (inc_lock_ref new_last_node)) (\<lambda>_.
             reqS (\<lambda>r. r\<lparr>rq_prefix_indices := (if length new_indices < length kv
                             then new_indices @ drop (length new_indices) kv else new_indices),
                          rq_last_node := Some new_last_node\<rparr>)))))))))  s)"

section \<open>Chunk cache\<close>

text \<open>The cache without prefix sharing: finishing frees every slot, the other calls do nothing.\<close>

definition chunk_cache_finished_req :: "bool \<Rightarrow> unit step" where
  "chunk_cache_finished_req strip_thinking =
     bindS (pop_committed_kv_cache strip_thinking) (\<lambda>n. bindS (req_row n) freeS)"

definition chunk_cache_unfinished_req :: "unit step" where
  "chunk_cache_unfinished_req s =
     bindS (req_row (length (rq_fill_ids (rs_req s)))) (\<lambda>kv. reqS (\<lambda>r. r\<lparr>rq_prefix_indices := kv\<rparr>)) s"

section \<open>Allocation helpers\<close>

text \<open>
  The heap choice and the order in which the set of leaves is listed are arguments, as for
  eviction itself.
\<close>

definition evict_from_tree_cache :: "(eviction_heap \<Rightarrow> nat) \<Rightarrow> nat list \<Rightarrow> int \<Rightarrow> radix \<Rightarrow> (unit res \<times> radix) option" where
  "evict_from_tree_cache pick leaves num_tokens T =
     (if kv_available_size (rc_class T) (rc_alloc T) < num_tokens
      then (case radix_evict pick leaves num_tokens T of None \<Rightarrow> None
            | Some (Inl e, U) \<Rightarrow> Some (Inl e, U) | Some (Inr _, U) \<Rightarrow> Some (Inr (), U))
      else Some (Inr (), T))"

text \<open>\<^verbatim>\<open>alloc_token_slots\<close>, with the backup of the allocator when one is asked for.\<close>

definition alloc_token_slots ::
  "(eviction_heap \<Rightarrow> nat) \<Rightarrow> nat list \<Rightarrow> nat \<Rightarrow> bool \<Rightarrow> radix
     \<Rightarrow> ((kv_index list \<times> (int list \<times> int list) option) res \<times> radix) option" where
  "alloc_token_slots pick leaves num_tokens backup T =
     (case evict_from_tree_cache pick leaves (int num_tokens) T of
        None \<Rightarrow> None
      | Some (Inl e, U) \<Rightarrow> Some (Inl e, U)
      | Some (Inr _, U) \<Rightarrow>
          (let state = (if backup then Some (backup_state (rc_alloc U)) else None);
               (out, a) = (case rc_class U of TokenPool \<Rightarrow> token_alloc num_tokens (rc_alloc U)
                           | PagedPool \<Rightarrow> paged_alloc (int num_tokens) (rc_alloc U))
           in case out of
                None \<Rightarrow> Some (Inl RuntimeError, U\<lparr>rc_alloc := a\<rparr>)
              | Some loc \<Rightarrow> Some (Inr (loc, state), U\<lparr>rc_alloc := a\<rparr>)))"

definition alloc_paged_token_slots_extend ::
  "(eviction_heap \<Rightarrow> nat) \<Rightarrow> nat list \<Rightarrow> nat list \<Rightarrow> mem \<Rightarrow> (int \<Rightarrow> int) \<Rightarrow> int list \<Rightarrow> int list \<Rightarrow> int list \<Rightarrow> nat \<Rightarrow> bool
     \<Rightarrow> radix \<Rightarrow> ((kv_index list \<times> (int list \<times> int list) option) res \<times> radix) option" where
  "alloc_paged_token_slots_extend pick leaves order uninit oob prefix_lens seq_lens last_loc extend_num_tokens backup T =
     (let num_tokens = int extend_num_tokens + int (length seq_lens) * page_size (rc_alloc T)
      in case evict_from_tree_cache pick leaves num_tokens T of
        None \<Rightarrow> None
      | Some (Inl e, U) \<Rightarrow> Some (Inl e, U)
      | Some (Inr _, U) \<Rightarrow>
          (let state = (if backup then Some (backup_state (rc_alloc U)) else None)
           in case paged_alloc_extend order uninit oob prefix_lens seq_lens last_loc extend_num_tokens None (rc_alloc U) of
                (Inl e, a) \<Rightarrow> Some (Inl e, U\<lparr>rc_alloc := a\<rparr>)
              | (Inr None, a) \<Rightarrow> Some (Inl RuntimeError, U\<lparr>rc_alloc := a\<rparr>)
              | (Inr (Some loc), a) \<Rightarrow> Some (Inr (loc, state), U\<lparr>rc_alloc := a\<rparr>)))"

definition alloc_paged_token_slots_decode ::
  "(eviction_heap \<Rightarrow> nat) \<Rightarrow> nat list \<Rightarrow> nat list \<Rightarrow> mem \<Rightarrow> (int \<Rightarrow> int) \<Rightarrow> int list \<Rightarrow> int list
     \<Rightarrow> radix \<Rightarrow> (kv_index list res \<times> radix) option" where
  "alloc_paged_token_slots_decode pick leaves order uninit oob seq_lens last_loc T =
     (let num_tokens = int (length seq_lens) * page_size (rc_alloc T)
      in case evict_from_tree_cache pick leaves num_tokens T of
        None \<Rightarrow> None
      | Some (Inl e, U) \<Rightarrow> Some (Inl e, U)
      | Some (Inr _, U) \<Rightarrow>
          (case paged_alloc_decode order uninit oob seq_lens last_loc (rc_alloc U) of
             (Inl e, a) \<Rightarrow> Some (Inl e, U\<lparr>rc_alloc := a\<rparr>)
           | (Inr None, a) \<Rightarrow> Some (Inl RuntimeError, U\<lparr>rc_alloc := a\<rparr>)
           | (Inr (Some loc), a) \<Rightarrow> Some (Inr loc, U\<lparr>rc_alloc := a\<rparr>)))"

text \<open>\<^verbatim>\<open>release_kv_cache\<close> for pools without Mamba states.\<close>

definition ceil_align :: "nat \<Rightarrow> nat \<Rightarrow> nat" where
  "ceil_align x a = (x + a - 1) div a * a"

definition release_kv_cache :: "bool \<Rightarrow> bool \<Rightarrow> nat \<Rightarrow> bool \<Rightarrow> unit step" where
  "release_kv_cache strip_thinking spec ps is_insert s =
     (if rq_pool_idx (rs_req s) = None then raiseS AssertionError s
      else bindS (cache_finished_req strip_thinking (is_insert \<and> \<not> rq_skip_radix_cache_insert (rs_req s))) (\<lambda>_.
           bindS (pop_overallocated_kv_cache strip_thinking) (\<lambda>(start0, end_p).
             if \<not> spec \<and> \<not> strip_thinking \<and> start0 \<noteq> end_p then raiseS AssertionError
             else let start_p = (if 1 < ps then ceil_align start0 ps else start0)
             in bindS (if start_p < end_p then bindS (req_row end_p) (\<lambda>kv. freeS (drop start_p kv)) else retS ()) (\<lambda>_ t.
                case req_pool_free (rq_pool_idx (rs_req t)) (rs_pool t) of
                  (Inl e, p) \<Rightarrow> Some (Inl e, t)
                | (Inr idx, p) \<Rightarrow> Some (Inr (), t\<lparr>rs_pool := p, rs_req := (rs_req t)\<lparr>rq_pool_idx := idx\<rparr>\<rparr>)))) s)"

section \<open>Steps and the tree\<close>

lemma bindS_eq:
  "m s = Some (Inr x, t) \<Longrightarrow> bindS m f s = f x t"
  "m s = Some (Inl e, t) \<Longrightarrow> bindS m f s = Some (Inl e, t)"
  by (simp_all add: bindS_def)

lemma bindS_ret [simp]: "bindS (retS x) f = f x"
  by (simp add: bindS_def retS_def fun_eq_iff)

lemma treeS_eq: "f (rs_tree s) = Some (r, T) \<Longrightarrow> treeS f s = Some (r, s\<lparr>rs_tree := T\<rparr>)"
  by (simp add: treeS_def)

lemma freeS_eq: "freeS v s = Some (Inr (), s\<lparr>rs_tree := free_kv v (rs_tree s)\<rparr>)"
  by (simp add: freeS_def treeS_def)

lemma rpath_fields_cong:
  assumes "\<And>x. kids_of t x = kids_of s x" "\<And>x. keyof t x = keyof s x" "\<And>x. valof t x = valof s x"
  shows "rpath t ek a n us vs = rpath s ek a n us vs"
proof
  show "rpath s ek a n us vs" if "rpath t ek a n us vs"
    using that by (induction rule: rpath.induct) (auto simp: assms intro: rpath.nil rpath.cons)
  show "rpath t ek a n us vs" if "rpath s ek a n us vs"
    using that
  proof (induction rule: rpath.induct)
    case (cons a ck c v n us vs)
    then show ?case using rpath.cons [of t a ck c ek v n us vs] by (simp add: assms)
  qed (rule rpath.nil)
qed

text \<open>Locking and unlocking move no slots and change no contents.\<close>

lemma lock_effect_keeps:
  assumes "lock_path_effect s n d t"
  shows "cached t ek us vs = cached s ek us vs" "slots N t = slots N s" "rc_alloc t = rc_alloc s" "same_globals s t"
    "linked t x = linked s x" "rpath t ek a m us vs = rpath s ek a m us vs"
proof -
  have f: "kids_of t x = kids_of s x" "keyof t x = keyof s x" "valof t x = valof s x" "rc_root t = rc_root s" for x
    using assms by (auto simp: lock_path_effect_def same_globals_def)
  show p: "rpath t ek a m us vs = rpath s ek a m us vs" for a m us vs by (rule rpath_fields_cong) (simp_all add: f)
  show "cached t ek us vs = cached s ek us vs" by (simp add: cached_def p f)
  show "slots N t = slots N s" by (simp add: slots_def f)
  show "rc_alloc t = rc_alloc s" "same_globals s t" using assms by (auto simp: lock_path_effect_def)
  show "linked t x = linked s x"
  proof
    show "linked s x" if "linked t x" using that
    proof (induction rule: linked.induct)
      case root
      then show ?case using linked.root [of s] by (simp add: f)
    next
      case (child n ck c)
      then show ?case using linked.child [of s n ck c] by (simp add: f)
    qed
    show "linked t x" if "linked s x" using that
    proof (induction rule: linked.induct)
      case root
      then show ?case using linked.root [of t] by (simp add: f)
    next
      case (child n ck c)
      then show ?case using linked.child [of t n ck c] by (simp add: f)
    qed
  qed
qed

lemma free_kv_run: "radix_run L s \<Longrightarrow> radix_run L (free_kv v s)"
  unfolding free_kv_def by (rule radix_run.alloc)

lemma free_kv_linked [simp]: "linked (free_kv v s) x = linked s x"
proof
  show "linked s x" if "linked (free_kv v s) x"
    using that by (induction rule: linked.induct) (use linked.root [of s] linked.child in auto)
  show "linked (free_kv v s) x" if "linked s x"
    using that
  proof (induction rule: linked.induct)
    case root
    then show ?case using linked.root [of "free_kv v s"] by simp
  next
    case (child n ck c)
    then show ?case using linked.child [of "free_kv v s" n ck c] by simp
  qed
qed

text \<open>Releasing a lock that a request holds.\<close>

definition release_lock :: "(nat \<Rightarrow> nat) \<Rightarrow> radix \<Rightarrow> nat \<Rightarrow> nat \<Rightarrow> nat" where
  "release_lock L T n = (if n = rc_root T then L else L(n := L n - 1))"

definition take_lock :: "(nat \<Rightarrow> nat) \<Rightarrow> radix \<Rightarrow> nat \<Rightarrow> nat \<Rightarrow> nat" where
  "take_lock L T n = (if n = rc_root T then L else L(n := Suc (L n)))"

lemma unlock_run:
  assumes run: "radix_run L T" and on: "\<not> rc_disable T" and held: "n = rc_root T \<or> 0 < L n"
  shows "\<exists>d U. dec_lock_ref n T = Some (Inr d, U) \<and> radix_run (release_lock L T n) U \<and> lock_path_effect T n (- 1) U"
proof -
  have inv: "tree_inv {x. linked T x} L T" by (rule run_linked [OF run])
  have "n \<in> {x. linked T x}"
    using held inv linked.root unfolding tree_inv_def locks_ok_def by (metis less_irrefl mem_Collect_eq)
  from dec_lock_ref_live [OF inv this on held] obtain U where
    U: "dec_lock_ref n T = Some (Inr (rc_evictable_size U - rc_evictable_size T), U)" "lock_path_effect T n (- 1) U" by blast
  then show ?thesis using radix_run.unlock [OF run held on U(1)] unfolding release_lock_def by blast
qed

lemma lock_run:
  assumes run: "radix_run L T" and on: "\<not> rc_disable T" and n: "linked T n"
  shows "\<exists>d U. inc_lock_ref n T = Some (Inr d, U) \<and> radix_run (take_lock L T n) U \<and> lock_path_effect T n 1 U"
proof -
  have inv: "tree_inv {x. linked T x} L T" by (rule run_linked [OF run])
  have "n \<in> {x. linked T x}" using n by simp
  from inc_lock_ref_live [OF inv this on] obtain U where
    U: "inc_lock_ref n T = Some (Inr (rc_evictable_size U - rc_evictable_size T), U)" "lock_path_effect T n 1 U" by blast
  then show ?thesis using radix_run.lock [OF run n on U(1)] unfolding take_lock_def by blast
qed

lemma view_key_same:
  assumes "key_ok T k" and "0 < rc_page_size T"
  shows "rk_units (view_key T k) = rk_units k" "rk_len (view_key T k) = rk_len k" "extra_key (view_key T k) = extra_key k"
    "key_for T k"
proof -
  have v: "view_key T k = page_aligned (rc_page_size T) k"
    using assms(1) by (simp add: view_key_def maybe_to_bigram_view_def key_ok_def)
  have "rk_len k div rc_page_size T * rc_page_size T = rk_len k" using assms(1) by (simp add: key_ok_def)
  then show "rk_units (view_key T k) = rk_units k" "rk_len (view_key T k) = rk_len k" "extra_key (view_key T k) = extra_key k"
    unfolding v by simp_all
  show "key_for T k" using assms(1) by (simp add: key_for_def key_ok_def)
qed

lemma run_page_size: "radix_run L T \<Longrightarrow> 0 < rc_page_size T"
  using run_linked struct_okD(3) unfolding tree_inv_def by blast

text \<open>Inserting and matching, for keys in whole pages and along a run.\<close>

lemma insert_run:
  assumes run: "radix_run L T" and on: "\<not> rc_disable T" and quiet: "\<not> rc_events T"
    and k: "key_ok T k" and v: "length v = rk_len k"
  shows "\<exists>j U V. radix_insert k (Some v) prio chunked T = Some (Inr j, U) \<and> radix_run L U \<and> same_globals T U \<and>
    rc_alloc U = rc_alloc T \<and> j \<le> rk_len k \<and>
    slots {x. linked U x} U = slots {x. linked T x} T + mset (drop j v) \<and>
    (\<forall>x. linked T x \<longrightarrow> linked U x) \<and>
    length V = j \<and> cached T (extra_key k) (take j (rk_units k)) V \<and> cached U (extra_key k) (rk_units k) (V @ drop j v) \<and>
    (\<forall>l ws. rc_page_size T dvd l \<and> l \<le> rk_len k \<and> cached T (extra_key k) (take l (rk_units k)) ws \<longrightarrow> l \<le> j)"
proof -
  note vk = view_key_same [OF k run_page_size [OF run]]
  have iv: "insert_values T k (Some v) = v" using v by (simp add: insert_values_def vk)
  have vf: "values_for T k (Some v)" using v by (simp add: values_for_def vk iv)
  from radix_insert_effect [OF run_linked [OF run] on vf, of prio chunked] quiet obtain U N' j where
    U: "radix_insert k (Some v) prio chunked T = Some (Inr j, U)" "tree_inv N' L U"
      "inserted {x. linked T x} T (view_key T k) v j N' U" unfolding iv by blast
  have N': "{x. linked U x} = N'" by (rule linked_set [OF U(2)])
  obtain V where V: "length V = j" "cached T (extra_key k) (take j (rk_units k)) V"
    "\<forall>ek us vs. cached U ek us vs \<longleftrightarrow> cached T ek us vs \<or>
       (ek = extra_key k \<and> prefix us (rk_units k) \<and> vs = take (length us) (V @ drop j v))"
    and j: "j \<le> rk_len k" and glob: "same_globals T U" "rc_alloc U = rc_alloc T"
    and sl: "slots N' U = slots {x. linked T x} T + mset (drop j v)" and sub: "{x. linked T x} \<subseteq> N'"
    and mx: "\<forall>l ws. rc_page_size T dvd l \<and> l \<le> rk_len k \<and> cached T (extra_key k) (take l (rk_units k)) ws \<longrightarrow> l \<le> j"
    by (rule insertedE [OF U(3)]) (simp add: vk)
  have "cached U (extra_key k) (rk_units k) (V @ drop j v)" using V j v by simp
  moreover have "radix_run L U" by (rule radix_run.insert [OF run vf U(1)])
  ultimately show ?thesis
    using U(1) V(1,2) j glob sl sub mx unfolding N' [symmetric]
    by (intro exI [of _ j] exI [of _ U] exI [of _ V] conjI) auto
qed

lemma match_whole_run:
  assumes run: "radix_run L T" and on: "\<not> rc_disable T" and k: "key_ok T k"
    and whole: "cached T (extra_key k) (rk_units k) ws"
  shows "\<exists>n U. match_prefix k T = Some (Inr (ws, n), U) \<and> radix_run L U \<and> linked U n \<and>
    refines {x. linked T x} T {x. linked U x} U \<and> rpath U (extra_key k) (rc_root U) n (rk_units k) ws"
proof -
  note vk = view_key_same [OF k run_page_size [OF run]]
  have inv: "tree_inv {x. linked T x} L T" by (rule run_linked [OF run])
  from match_prefix_walk [OF inv on vk(4)] obtain vs n U N' j where
    U: "match_prefix k T = Some (Inr (vs, n), U)" "tree_inv N' L U" "refines {x. linked T x} T N' U"
      "walk_end U (view_key T k) [] j n vs" by blast
  have st: "struct_ok N' U" using U(2) by (simp add: tree_inv_def)
  have N': "{x. linked U x} = N'" by (rule linked_set [OF U(2)])
  note c = walk_end_cached [OF st U(4), unfolded vk] and r = refinesD [OF U(3)]
  have ps: "rc_page_size U = rc_page_size T" using r(2) by (simp add: same_globals_def)
  have kd: "rc_page_size T dvd rk_len k" using k by (simp add: key_ok_def)
  have "rk_len k \<le> j" using c(4) [of "rk_len k" ws] whole r(7) kd ps by simp
  moreover have "j \<le> rk_len k" using U(4) by (simp add: walk_end_def vk)
  ultimately have j: "j = rk_len k" by simp
  then have "cached T (extra_key k) (rk_units k) vs" using c(3) r(7) by simp
  then have vs: "vs = ws" using cached_unique [OF _ _ whole] inv kd unfolding tree_inv_def by (metis length_rk_units)
  have "rpath U (extra_key k) (rc_root U) n (rk_units k) ws" using U(4) j vs by (simp add: walk_end_def vk)
  moreover have "radix_run L U" by (rule radix_run.match [OF run vk(4) U(1)])
  moreover have "linked U n" using c(1) N' by blast
  ultimately show ?thesis using U(1,3) vs N' by auto
qed

section \<open>Every slot of a request is accounted for\<close>

text \<open>
  A request that is ready to be cached: it has a row, holds a lock on its last node, and the first
  \<open>rq_cache_protected_len\<close> slots of its row are the tree's slots for its tokens.
\<close>

definition req_ready :: "(nat \<Rightarrow> nat) \<Rightarrow> rstate \<Rightarrow> int list \<Rightarrow> nat \<Rightarrow> nat \<Rightarrow> bool" where
  "req_ready L s ids i n \<longleftrightarrow>
     rq_pool_idx (rs_req s) = Some i \<and> rq_last_node (rs_req s) = Some n \<and>
     (n = rc_root (rs_tree s) \<or> 0 < L n) \<and> int (length ids) \<le> rp_width (rs_pool s) \<and>
     rc_page_size (rs_tree s) dvd rq_cache_protected_len (rs_req s) \<and>
     rq_cache_protected_len (rs_req s) \<le> rk_len (request_key s ids) \<and>
     cached (rs_tree s) (rq_extra_key (rs_req s))
       (take (rq_cache_protected_len (rs_req s)) (rk_units (request_key s ids)))
       (row_slice (rs_pool s) i 0 (int (rq_cache_protected_len (rs_req s))))"

definition tree_slots :: "radix \<Rightarrow> kv_index multiset" where
  "tree_slots T = slots {x. linked T x} T"

lemma request_key_ok: "key_ok (rs_tree s) (request_key s ids)" "extra_key (request_key s ids) = rq_extra_key (rs_req s)"
  "rk_len (request_key s ids) \<le> length ids"
proof -
  show "key_ok (rs_tree s) (request_key s ids)" "extra_key (request_key s ids) = rq_extra_key (rs_req s)"
    by (simp_all add: request_key_def key_ok_def)
  have "rk_len (request_key s ids) \<le>
      rk_len \<lparr>token_ids = ids, extra_key = rq_extra_key (rs_req s), is_bigram = rc_is_eagle (rs_tree s)\<rparr>"
    unfolding request_key_def rk_len_page_aligned by simp
  also have "\<dots> \<le> length ids" by (simp add: rk_len_def)
  finally show "rk_len (request_key s ids) \<le> length ids" .
qed

lemma length_row_slice: "0 \<le> b \<Longrightarrow> b \<le> rp_width p \<Longrightarrow> length (row_slice p i 0 b) = nat b"
  by (simp add: row_slice_def)

lemma drop_split:
  assumes "a \<le> b"
  shows "drop a xs = drop a (take b xs) @ drop b xs"
proof (cases "b \<le> length xs")
  case True
  have "drop a (take b xs @ drop b xs) = drop a (take b xs) @ drop b xs"
    by (subst drop_append) (use assms True in simp)
  then show ?thesis by simp
qed simp

lemma mset_three_parts:
  assumes "a \<le> b" and "b \<le> c"
  shows "mset (drop a (take b xs)) + mset (drop b (take c xs)) + mset (drop c xs) = mset (drop a xs)"
proof -
  have "take b (take c xs) = take b xs" using assms(2) by (simp add: min_def)
  then have "drop a (take c xs) = drop a (take b xs) @ drop b (take c xs)" using drop_split [OF assms(1), of "take c xs"] by simp
  moreover have "drop a xs = drop a (take c xs) @ drop c xs" using assms by (intro drop_split) simp
  ultimately show ?thesis by simp
qed

text \<open>The end of a finished request: the tail is freed and the lock is released.\<close>

lemma free_and_unlock:
  assumes run: "radix_run L (rs_tree s)" and on: "\<not> rc_disable (rs_tree s)"
    and held: "n = rc_root (rs_tree s) \<or> 0 < L n"
  shows "\<exists>U. bindS (freeS w) (\<lambda>_. bindS (treeS (dec_lock_ref n)) (\<lambda>_. retS ())) s = Some (Inr (), s\<lparr>rs_tree := U\<rparr>) \<and>
    radix_run (release_lock L (rs_tree s) n) U \<and> tree_slots U = tree_slots (rs_tree s) \<and>
    rc_alloc U = kv_free (rc_class (rs_tree s)) w (rc_alloc (rs_tree s)) \<and> same_globals (rs_tree s) U \<and>
    (\<forall>ek us vs. cached U ek us vs = cached (rs_tree s) ek us vs)"
proof -
  let ?T = "free_kv w (rs_tree s)"
  have run': "radix_run L ?T" by (rule free_kv_run [OF run])
  have g: "same_globals (rs_tree s) ?T" by (rule free_kv_globals)
  have "\<not> rc_disable ?T" "n = rc_root ?T \<or> 0 < L n" using on held g by (simp_all add: same_globals_def)
  from unlock_run [OF run' this] obtain d U where
    U: "dec_lock_ref n ?T = Some (Inr d, U)" "radix_run (release_lock L ?T n) U" "lock_path_effect ?T n (- 1) U" by blast
  note k = lock_effect_keeps [OF U(3)]
  have "bindS (freeS w) (\<lambda>_. bindS (treeS (dec_lock_ref n)) (\<lambda>_. retS ())) s = Some (Inr (), s\<lparr>rs_tree := U\<rparr>)"
    using U(1) by (simp add: bindS_def freeS_eq treeS_def retS_def)
  moreover have "release_lock L ?T n = release_lock L (rs_tree s) n" by (simp add: release_lock_def)
  ultimately show ?thesis
    using U(2) k same_globals_trans [OF g k(4)] by (intro exI [of _ U]) (simp add: tree_slots_def)
qed

definition committed_ids :: "bool \<Rightarrow> req \<Rightarrow> int list" where
  "committed_ids thk r = take (cache_commit_len thk r) (rq_origin_input_ids r @ rq_output_ids r)"

text \<open>
  C5: when a request finishes, each slot of its row beyond the part the tree already owns goes
  either to the tree or back to the allocator, exactly once. If the request is inserted, its tokens
  are cached afterwards. Its lock is released.
\<close>

theorem finished_req_slots:
  assumes run: "radix_run L (rs_tree s)" and on: "\<not> rc_disable (rs_tree s)" and quiet: "\<not> rc_events (rs_tree s)"
    and first: "\<not> rq_kv_committed_freed (rs_req s)"
    and ready: "req_ready L s (committed_ids thk (rs_req s)) i n"
  shows "\<exists>t freed. cache_finished_req thk is_insert s = Some (Inr (), t) \<and> rs_pool t = rs_pool s \<and>
    rs_req t = (rs_req s)\<lparr>rq_kv_committed_freed := True\<rparr> \<and>
    radix_run (release_lock L (rs_tree s) n) (rs_tree t) \<and>
    rc_alloc (rs_tree t) = fold (kv_free (rc_class (rs_tree s))) freed (rc_alloc (rs_tree s)) \<and>
    tree_slots (rs_tree t) + mset (concat freed) = tree_slots (rs_tree s) +
      mset (drop (rq_cache_protected_len (rs_req s)) (row_slice (rs_pool s) i 0
        (int (length (committed_ids thk (rs_req s)))))) \<and>
    (is_insert \<and> \<not> rc_disable_finished_insert (rs_tree s) \<longrightarrow>
      (\<exists>vs. cached (rs_tree t) (rq_extra_key (rs_req s)) (rk_units (request_key s
        (committed_ids thk (rs_req s)))) vs))"
proof -
  define ids where "ids = committed_ids thk (rs_req s)"
  define p where "p = rq_cache_protected_len (rs_req s)"
  let ?r = "rs_req s" and ?T = "rs_tree s" and ?c = "kv_free (rc_class (rs_tree s))"
  note ready = ready [folded ids_def]
  define k where "k = request_key s ids"
  define kv where "kv = row_slice (rs_pool s) i 0 (int (length ids))"
  define s1 where "s1 = s\<lparr>rs_req := ?r\<lparr>rq_kv_committed_freed := True\<rparr>\<rparr>"
  have rd: "rq_pool_idx ?r = Some i" "rq_last_node ?r = Some n" "n = rc_root ?T \<or> 0 < L n"
    "int (length ids) \<le> rp_width (rs_pool s)" "rc_page_size ?T dvd p" "p \<le> rk_len k"
    "cached ?T (rq_extra_key ?r) (take p (rk_units k)) (row_slice (rs_pool s) i 0 (int p))"
    using ready by (simp_all add: req_ready_def k_def p_def)
  have len: "length kv = length ids" using rd(4) by (simp add: kv_def length_row_slice)
  note ko = request_key_ok [of s ids, folded k_def]
  have key1: "request_key s1 ids = k" by (simp add: request_key_def s1_def k_def)
  define mid where "mid = (if is_insert \<and> \<not> rc_disable_finished_insert ?T
      then bindS (treeS (radix_insert k (Some (take (rk_len k) kv)) (request_priority ?r) False))
             (\<lambda>prefix_len. freeS (drop p (take prefix_len kv)))
      else freeS (drop p (take (rk_len k) kv)))"
  have f: "rs_tree s1 = ?T" "rs_pool s1 = rs_pool s" "rq_last_node (rs_req s1) = Some n" "rq_pool_idx (rs_req s1) = Some i"
    "request_priority (rs_req s1) = request_priority ?r" "rq_cache_protected_len (rs_req s1) = p"
    "take (cache_commit_len thk ?r) (rq_origin_input_ids (rs_req s1) @ rq_output_ids (rs_req s1)) = ids"
    using rd(1,2) by (simp_all add: s1_def request_priority_def p_def ids_def committed_ids_def)
  have pop: "pop_committed_kv_cache thk s = Some (Inr (cache_commit_len thk ?r), s1)"
    using first by (simp add: pop_committed_kv_cache_def bindS_def reqS_def retS_def s1_def)
  have row: "req_row (length ids) s1 = Some (Inr kv, s1)" by (simp add: req_row_def f retS_def kv_def)
  have unfold: "cache_finished_req thk is_insert s =
      bindS mid (\<lambda>_. bindS (freeS (drop (rk_len k) kv)) (\<lambda>_. bindS (treeS (dec_lock_ref n)) (\<lambda>_. retS ()))) s1"
    unfolding cache_finished_req_def bindS_eq(1) [of "pop_committed_kv_cache thk", OF pop] Let_def f key1 mid_def
    using on by (simp only: if_False bindS_eq(1) [of "req_row (length ids)", OF row] option.case)
  have "\<exists>U j. mid s1 = Some (Inr (), s1\<lparr>rs_tree := U\<rparr>) \<and> radix_run L U \<and> same_globals ?T U \<and> p \<le> j \<and> j \<le> rk_len k \<and>
      rc_alloc U = ?c (drop p (take j kv)) (rc_alloc ?T) \<and> tree_slots U = tree_slots ?T + mset (drop j (take (rk_len k) kv)) \<and>
      (is_insert \<and> \<not> rc_disable_finished_insert ?T \<longrightarrow> (\<exists>vs. cached U (rq_extra_key ?r) (rk_units k) vs))"
  proof (cases "is_insert \<and> \<not> rc_disable_finished_insert ?T")
    case True
    have "length (take (rk_len k) kv) = rk_len k" using ko(3) len by simp
    from insert_run [OF run on quiet ko(1) this, of "request_priority ?r" False] obtain j U V where
      U: "radix_insert k (Some (take (rk_len k) kv)) (request_priority ?r) False ?T = Some (Inr j, U)" "radix_run L U"
        "same_globals ?T U" "rc_alloc U = rc_alloc ?T" "j \<le> rk_len k"
        "tree_slots U = tree_slots ?T + mset (drop j (take (rk_len k) kv))"
        "cached U (extra_key k) (rk_units k) (V @ drop j (take (rk_len k) kv))"
        "\<forall>l ws. rc_page_size ?T dvd l \<and> l \<le> rk_len k \<and> cached ?T (extra_key k) (take l (rk_units k)) ws \<longrightarrow> l \<le> j"
      unfolding tree_slots_def by blast
    have "p \<le> j" using U(8) rd(5-7) ko(2) by auto
    moreover have "mid s1 = Some (Inr (), s1\<lparr>rs_tree := free_kv (drop p (take j kv)) U\<rparr>)"
      using True U(1) by (simp add: mid_def bindS_def treeS_def freeS_eq s1_def)
    moreover have "rc_class U = rc_class ?T" using U(3) by (simp add: same_globals_def)
    ultimately show ?thesis
      using U(2-7) ko(2) free_kv_run [OF U(2)] same_globals_trans [OF U(3) free_kv_globals]
      by (intro exI [of _ "free_kv (drop p (take j kv)) U"] exI [of _ j]) (auto simp: tree_slots_def)
  next
    case False
    then have "mid s1 = Some (Inr (), s1\<lparr>rs_tree := free_kv (drop p (take (rk_len k) kv)) ?T\<rparr>)"
      unfolding mid_def by (simp only: if_False freeS_eq f)
    then show ?thesis
      using False rd(6) free_kv_run [OF run] free_kv_globals
      by (intro exI [of _ "free_kv (drop p (take (rk_len k) kv)) ?T"] exI [of _ "rk_len k"]) (auto simp: tree_slots_def)
  qed
  then obtain U j where U: "mid s1 = Some (Inr (), s1\<lparr>rs_tree := U\<rparr>)" "radix_run L U" "same_globals ?T U" "p \<le> j" "j \<le> rk_len k"
    "rc_alloc U = ?c (drop p (take j kv)) (rc_alloc ?T)" "tree_slots U = tree_slots ?T + mset (drop j (take (rk_len k) kv))"
    "is_insert \<and> \<not> rc_disable_finished_insert ?T \<longrightarrow> (\<exists>vs. cached U (rq_extra_key ?r) (rk_units k) vs)" by blast
  let ?s2 = "s1\<lparr>rs_tree := U\<rparr>"
  have "radix_run L (rs_tree ?s2)" "\<not> rc_disable (rs_tree ?s2)" "n = rc_root (rs_tree ?s2) \<or> 0 < L n"
    using U(2,3) on rd(3) by (simp_all add: same_globals_def)
  from free_and_unlock [OF this, of "drop (rk_len k) kv"] obtain W where
    W: "bindS (freeS (drop (rk_len k) kv)) (\<lambda>_. bindS (treeS (dec_lock_ref n)) (\<lambda>_. retS ())) ?s2 = Some (Inr (), s1\<lparr>rs_tree := W\<rparr>)"
      "radix_run (release_lock L U n) W" "tree_slots W = tree_slots U"
      "rc_alloc W = kv_free (rc_class U) (drop (rk_len k) kv) (rc_alloc U)"
      "\<forall>ek us vs. cached W ek us vs = cached U ek us vs" by auto
  have eq: "release_lock L U n = release_lock L ?T n" "rc_class U = rc_class ?T"
    using U(3) by (simp_all add: release_lock_def same_globals_def)
  have run_eq: "cache_finished_req thk is_insert s = Some (Inr (), s1\<lparr>rs_tree := W\<rparr>)"
    unfolding unfold using U(1) W(1) by (simp add: bindS_eq(1))
  have "tree_slots W + mset (concat [drop p (take j kv), drop (rk_len k) kv]) = tree_slots ?T +
      (mset (drop p (take j kv)) + mset (drop j (take (rk_len k) kv)) + mset (drop (rk_len k) kv))"
    by (simp add: W(3) U(7) add_ac)
  then have sl: "tree_slots W + mset (concat [drop p (take j kv), drop (rk_len k) kv]) = tree_slots ?T + mset (drop p kv)"
    unfolding mset_three_parts [OF U(4,5)] .
  have al: "rc_alloc W = fold ?c [drop p (take j kv), drop (rk_len k) kv] (rc_alloc ?T)"
    using W(4) U(6) eq(2) by simp
  have ca: "is_insert \<and> \<not> rc_disable_finished_insert ?T \<longrightarrow> (\<exists>vs. cached W (rq_extra_key ?r) (rk_units k) vs)"
    using U(8) W(5) by simp
  have rq: "rs_pool (s1\<lparr>rs_tree := W\<rparr>) = rs_pool s" "rs_tree (s1\<lparr>rs_tree := W\<rparr>) = W"
    "rs_req (s1\<lparr>rs_tree := W\<rparr>) = ?r\<lparr>rq_kv_committed_freed := True\<rparr>" by (simp_all add: s1_def)
  show ?thesis
    unfolding ids_def [symmetric] k_def [symmetric] kv_def [symmetric] p_def [symmetric]
    by (intro exI [of _ "s1\<lparr>rs_tree := W\<rparr>"] exI [of _ "[drop p (take j kv), drop (rk_len k) kv]"] conjI)
      (use run_eq W(2) eq(1) sl al ca in \<open>simp_all only: rq\<close>)
qed

text \<open>Writing part of a row.\<close>

lemma write_row_effect:
  assumes "0 \<le> a" and "a \<le> b" and "b \<le> c" and "c \<le> rp_width p" and "int (length vals) = b - a"
  shows "\<exists>q. write_row i a b vals p = Inr q \<and> rp_width q = rp_width p \<and>
    row_slice q i 0 c = take (nat a) (row_slice p i 0 c) @ vals @ drop (nat b) (row_slice p i 0 c)"
proof -
  let ?m = "vstore (rp_mem p) (int i * rp_width p + a) (b - a) (\<lambda>_. True) (\<lambda>off. vals ! nat off)"
  have w: "write_row i a b vals p = Inr (p\<lparr>rp_mem := ?m\<rparr>)"
    using assms by (simp add: write_row_def slice_assign_def)
  have "row_slice (p\<lparr>rp_mem := ?m\<rparr>) i 0 c = take (nat a) (row_slice p i 0 c) @ vals @ drop (nat b) (row_slice p i 0 c)"
    (is "?l = ?r")
  proof (rule nth_equalityI)
    show "length ?l = length ?r" using assms by (simp add: row_slice_def nat_diff_distrib')
    fix x assume "x < length ?l"
    then have x: "int x < c" using assms by (simp add: row_slice_def)
    have l: "?l ! x = ?m (int i * rp_width p + int x)" using x assms by (simp add: row_slice_def)
    show "?l ! x = ?r ! x"
    proof (cases "int x < a")
      case True
      then show ?thesis using x assms l by (simp add: vstore_def row_slice_def nth_append zless_nat_eq_int_zless)
    next
      case False
      then have nx: "\<not> x < nat a" by linarith
      show ?thesis
      proof (cases "int x < b")
        case True
        have "x - nat a < length vals" using True False assms by linarith
        moreover have "nat (int x - a) = x - nat a" using False assms(1) by linarith
        ultimately show ?thesis
          using x assms l True False nx by (simp add: vstore_def row_slice_def nth_append zless_nat_eq_int_zless)
      next
        case right: False
        have "\<not> x - nat a < length vals" "nat b + (x - nat a - length vals) = x" using right False assms by linarith+
        then show ?thesis
          using x assms l right False nx
          by (simp add: vstore_def row_slice_def nth_append zless_nat_eq_int_zless)
      qed
    qed
  qed
  then show ?thesis using w by (intro exI [of _ "p\<lparr>rp_mem := ?m\<rparr>"]) simp
qed

lemma row_slice_take: "0 \<le> b \<Longrightarrow> b \<le> c \<Longrightarrow> c \<le> rp_width p \<Longrightarrow> row_slice p i 0 b = take (nat b) (row_slice p i 0 c)"
  by (intro nth_equalityI) (auto simp: row_slice_def)

text \<open>Inserting the row of a request and matching it again, the core of an unfinished request.\<close>

lemma insert_and_match:
  assumes run: "radix_run L T" and on: "\<not> rc_disable T" and quiet: "\<not> rc_events T" and k: "key_ok T k"
    and kv: "rk_len k \<le> length kv"
    and p: "rc_page_size T dvd p" "p \<le> rk_len k" "cached T (extra_key k) (take p (rk_units k)) (take p kv)"
  shows "\<exists>j U ws n W. radix_insert k (Some (take (rk_len k) kv)) prio chunked T = Some (Inr j, U) \<and>
    match_prefix k (free_kv (drop p (take j kv)) U) = Some (Inr (ws, n), W) \<and>
    radix_run L W \<and> linked W n \<and> same_globals T W \<and> length ws = rk_len k \<and> take p ws = take p kv \<and>
    cached W (extra_key k) (rk_units k) ws \<and>
    rc_alloc W = kv_free (rc_class T) (drop p (take j kv)) (rc_alloc T) \<and>
    tree_slots W + mset (drop p (take j kv)) = tree_slots T + mset (drop p (take (rk_len k) kv))"
proof -
  let ?v = "take (rk_len k) kv"
  have "length ?v = rk_len k" using kv by simp
  from insert_run [OF run on quiet k this, of prio chunked] obtain j U V where
    U: "radix_insert k (Some ?v) prio chunked T = Some (Inr j, U)" "radix_run L U" "same_globals T U" "rc_alloc U = rc_alloc T"
      "j \<le> rk_len k" "tree_slots U = tree_slots T + mset (drop j ?v)" "length V = j"
      "cached T (extra_key k) (take j (rk_units k)) V" "cached U (extra_key k) (rk_units k) (V @ drop j ?v)"
      "\<forall>l ws. rc_page_size T dvd l \<and> l \<le> rk_len k \<and> cached T (extra_key k) (take l (rk_units k)) ws \<longrightarrow> l \<le> j"
    unfolding tree_slots_def by blast
  have pj: "p \<le> j" using U(10) p by blast
  define A where "A = drop p (take j kv)"
  let ?U = "free_kv A U" and ?ws = "V @ drop j ?v"
  have g: "same_globals T ?U" by (rule same_globals_trans [OF U(3) free_kv_globals])
  have "\<not> rc_disable ?U" "key_ok ?U k" using on k g key_ok_globals [OF g] by (simp_all add: same_globals_def)
  moreover have "cached ?U (extra_key k) (rk_units k) ?ws" using U(9) by simp
  ultimately obtain n W where W: "match_prefix k ?U = Some (Inr (?ws, n), W)" "radix_run L W" "linked W n"
    "refines {x. linked ?U x} ?U {x. linked W x} W"
    using match_whole_run [OF free_kv_run [OF U(2)]] by blast
  note r = refinesD [OF W(4)]
  have "take p (take j (rk_units k)) = take p (rk_units k)" using pj by (simp add: min_def)
  then have "prefix (take p (rk_units k)) (take j (rk_units k))" by (metis take_is_prefix)
  from cached_prefix [OF U(8) this] have "cached T (extra_key k) (take p (rk_units k)) (take p V)" using p(2) by simp
  moreover have "struct_ok {x. linked T x} T" using run_linked [OF run] by (simp add: tree_inv_def)
  moreover have "rc_page_size T dvd length (take p (rk_units k))" using p(1,2) by simp
  ultimately have pre: "take p V = take p kv" using cached_unique p(3) by blast
  have sl: "tree_slots W = tree_slots T + mset (drop j ?v)" using r(9) U(6) by (simp add: tree_slots_def)
  have "drop p ?v = A @ drop j ?v"
    using drop_split [OF pj, of ?v] U(5) by (simp add: A_def min_def)
  then have "tree_slots W + mset A = tree_slots T + mset (drop p ?v)" unfolding sl by (simp add: add_ac)
  moreover have "rc_alloc W = kv_free (rc_class T) A (rc_alloc T)"
    using r(3) U(3,4) by (simp add: same_globals_def)
  moreover have "length ?ws = rk_len k" using U(5,7) kv by simp
  moreover have "take p ?ws = take p kv" using pre pj U(7) by simp
  moreover have "cached W (extra_key k) (rk_units k) ?ws" using r(7) U(9) by simp
  moreover have "same_globals T W" by (rule same_globals_trans [OF g r(2)])
  ultimately show ?thesis
    using U(1) W(1-3) unfolding A_def
    by (intro exI [of _ j] exI [of _ U] exI [of _ ?ws] exI [of _ n] exI [of _ W] conjI) 
qed

text \<open>The lock of a request moves from its old last node to the new one.\<close>

lemma move_lock:
  assumes run: "radix_run L T" and on: "\<not> rc_disable T" and held: "n = rc_root T \<or> 0 < L n" and m: "linked T m"
  shows "\<exists>d e U W. dec_lock_ref n T = Some (Inr d, U) \<and> inc_lock_ref m U = Some (Inr e, W) \<and>
    radix_run (take_lock (release_lock L T n) T m) W \<and> tree_slots W = tree_slots T \<and> rc_alloc W = rc_alloc T \<and>
    same_globals T W \<and> (\<forall>ek us vs. cached W ek us vs = cached T ek us vs)"
proof -
  from unlock_run [OF run on held] obtain d U where
    U: "dec_lock_ref n T = Some (Inr d, U)" "radix_run (release_lock L T n) U" "lock_path_effect T n (- 1) U" by blast
  note u = lock_effect_keeps [OF U(3)]
  have "\<not> rc_disable U" "linked U m" using on m u(4,5) by (simp_all add: same_globals_def)
  from lock_run [OF U(2) this] obtain e W where
    W: "inc_lock_ref m U = Some (Inr e, W)" "radix_run (take_lock (release_lock L T n) U m) W" "lock_path_effect U m 1 W" by blast
  note w = lock_effect_keeps [OF W(3)]
  have "take_lock (release_lock L T n) U m = take_lock (release_lock L T n) T m"
    using u(4) by (simp add: take_lock_def same_globals_def)
  then show ?thesis
    using U(1) W(1,2) u(1-3,5) w(1-3,5) same_globals_trans [OF u(4) w(4)]
    by (intro exI [of _ d] exI [of _ e] exI [of _ U] exI [of _ W]) (simp add: tree_slots_def)
qed

text \<open>
  C6: caching an unfinished request never fails its length check. Afterwards the request is ready
  again with its whole pages protected: its row begins with the tree's slots for its tokens, which
  replace duplicates it had computed itself, and the rest of the row is unchanged. Every slot is
  accounted for: what was freed and what the tree and the request hold is what they held before.
\<close>

theorem unfinished_req_slots:
  assumes run: "radix_run L (rs_tree s)" and on: "\<not> rc_disable (rs_tree s)" and quiet: "\<not> rc_events (rs_tree s)"
    and ready: "req_ready L s (rq_fill_ids (rs_req s)) i n"
  shows "\<exists>t m freed. cache_unfinished_req chunked s = Some (Inr (), t) \<and>
    req_ready (take_lock (release_lock L (rs_tree s) n) (rs_tree s) m) t (rq_fill_ids (rs_req s)) i m \<and>
    radix_run (take_lock (release_lock L (rs_tree s) n) (rs_tree s) m) (rs_tree t) \<and>
    rq_cache_protected_len (rs_req t) = rk_len (request_key s (rq_fill_ids (rs_req s))) \<and>
    rq_prefix_indices (rs_req t) = row_slice (rs_pool t) i 0 (int (length (rq_fill_ids (rs_req s)))) \<and>
    drop (rq_cache_protected_len (rs_req t)) (rq_prefix_indices (rs_req t)) =
      drop (rq_cache_protected_len (rs_req t)) (row_slice (rs_pool s) i 0 (int (length (rq_fill_ids (rs_req s))))) \<and>
    rc_alloc (rs_tree t) = kv_free (rc_class (rs_tree s)) freed (rc_alloc (rs_tree s)) \<and>
    tree_slots (rs_tree t) + mset freed + mset (drop (rq_cache_protected_len (rs_req t)) (rq_prefix_indices (rs_req t))) =
      tree_slots (rs_tree s) + mset (drop (rq_cache_protected_len (rs_req s))
        (row_slice (rs_pool s) i 0 (int (length (rq_fill_ids (rs_req s))))))"
proof -
  let ?r = "rs_req s" and ?T = "rs_tree s"
  define ids where "ids = rq_fill_ids ?r"
  define p where "p = rq_cache_protected_len ?r"
  define k where "k = request_key s ids"
  define kv where "kv = row_slice (rs_pool s) i 0 (int (length ids))"
  have rd: "rq_pool_idx ?r = Some i" "rq_last_node ?r = Some n" "n = rc_root ?T \<or> 0 < L n"
    "int (length ids) \<le> rp_width (rs_pool s)" "rc_page_size ?T dvd p" "p \<le> rk_len k"
    "cached ?T (rq_extra_key ?r) (take p (rk_units k)) (row_slice (rs_pool s) i 0 (int p))"
    using ready by (simp_all add: req_ready_def k_def p_def ids_def)
  note ko = request_key_ok [of s ids, folded k_def]
  have len: "length kv = length ids" using rd(4) by (simp add: kv_def length_row_slice)
  have kl: "rk_len k \<le> length kv" using ko(3) len by simp
  have "row_slice (rs_pool s) i 0 (int p) = take p kv"
    using row_slice_take [of "int p" "int (length ids)" "rs_pool s" i] rd(4,6) ko(3) by (simp add: kv_def)
  then have ca: "cached ?T (extra_key k) (take p (rk_units k)) (take p kv)" using rd(7) ko(2) by simp
  from insert_and_match [OF run on quiet ko(1) kl rd(5,6) ca, of "request_priority ?r" chunked] obtain j U ws m W where
    W: "radix_insert k (Some (take (rk_len k) kv)) (request_priority ?r) chunked ?T = Some (Inr j, U)"
      "match_prefix k (free_kv (drop p (take j kv)) U) = Some (Inr (ws, m), W)" "radix_run L W" "linked W m"
      "same_globals ?T W" "length ws = rk_len k" "take p ws = take p kv" "cached W (extra_key k) (rk_units k) ws"
      "rc_alloc W = kv_free (rc_class ?T) (drop p (take j kv)) (rc_alloc ?T)"
      "tree_slots W + mset (drop p (take j kv)) = tree_slots ?T + mset (drop p (take (rk_len k) kv))" by blast
  have "int (length (drop p ws)) = int (rk_len k) - int p" using W(6) rd(6) by simp
  from write_row_effect [OF _ _ _ rd(4) this, of i] rd(6) ko(3) obtain q where
    q: "write_row i (int p) (int (length ws)) (drop p ws) (rs_pool s) = Inr q" "rp_width q = rp_width (rs_pool s)"
      "row_slice q i 0 (int (length ids)) = take p kv @ drop p ws @ drop (rk_len k) kv"
    by (auto simp: kv_def W(6))
  have row: "row_slice q i 0 (int (length ids)) = ws @ drop (rk_len k) kv"
    unfolding q(3) using W(7) by (metis append.assoc append_take_drop_id)
  have "\<not> rc_disable W" "n = rc_root W \<or> 0 < L n" using on rd(3) W(5) by (simp_all add: same_globals_def)
  from move_lock [OF W(3) this W(4)] obtain d e X Y where
    Y: "dec_lock_ref n W = Some (Inr d, X)" "inc_lock_ref m X = Some (Inr e, Y)"
      "radix_run (take_lock (release_lock L W n) W m) Y" "tree_slots Y = tree_slots W" "rc_alloc Y = rc_alloc W"
      "same_globals W Y" "\<forall>ek us vs. cached Y ek us vs = cached W ek us vs" by blast
  have L': "take_lock (release_lock L W n) W m = take_lock (release_lock L ?T n) ?T m"
    using W(5) by (simp add: take_lock_def release_lock_def same_globals_def)
  have gY: "same_globals ?T Y" by (rule same_globals_trans [OF W(5) Y(6)])
  define t where "t = s\<lparr>rs_tree := Y, rs_pool := q, rs_req := ?r\<lparr>rq_cache_protected_len := rk_len k,
      rq_prefix_indices := ws @ drop (rk_len k) kv, rq_last_node := Some m\<rparr>\<rparr>"
  have pre: "(if length ws < length kv then ws @ drop (length ws) kv else ws) = ws @ drop (rk_len k) kv"
    using W(6) kl by simp
  have r0: "req_row (length ids) s = Some (Inr kv, s)" by (simp add: req_row_def rd retS_def kv_def)
  have "cache_unfinished_req chunked s = Some (Inr (), t)"
    unfolding cache_unfinished_req_def Let_def ids_def [symmetric] k_def [symmetric] p_def [symmetric]
    using on
    by (simp only: if_False bindS_eq(1) [of "req_row (length ids)", OF r0] rd(1,2) option.case)
      (simp add: bindS_def treeS_def freeS_eq W(1,2,6) poolS_def q(1) [unfolded W(6)] reqS_def Y(1,2) retS_def t_def pre [unfolded W(6)])
  moreover have kt: "request_key t ids = k"
    using gY by (simp add: request_key_def k_def t_def same_globals_def)
  have "row_slice q i 0 (int (rk_len k)) = ws"
    using row_slice_take [of "int (rk_len k)" "int (length ids)" q i] q(2) rd(4) ko(3) row W(6) by simp
  then have "req_ready (take_lock (release_lock L ?T n) ?T m) t ids i m"
    unfolding req_ready_def kt
    using rd(1,4) q(2) W(8) Y(7) gY ko(1,2)
    by (auto simp: t_def take_lock_def key_ok_def same_globals_def)
  moreover have "radix_run (take_lock (release_lock L ?T n) ?T m) (rs_tree t)" using Y(3) L' by (simp add: t_def)
  moreover have "tree_slots Y + mset (drop p (take j kv)) + mset (drop (rk_len k) kv) = tree_slots ?T + mset (drop p kv)"
  proof -
    have "drop p kv = drop p (take (rk_len k) kv) @ drop (rk_len k) kv" by (rule drop_split [OF rd(6)])
    then show ?thesis using W(10) Y(4) by (simp add: add.assoc [symmetric])
  qed
  ultimately show ?thesis
    unfolding ids_def [symmetric] k_def [symmetric] kv_def [symmetric] p_def [symmetric]
    using row W(6,9) Y(5)
    by (intro exI [of _ t] exI [of _ m] exI [of _ "drop p (take j kv)"]) (simp add: t_def)
qed

text \<open>A request at the start of its life, in the sample cache.\<close>

definition sample_request :: rstate where
  "sample_request = \<lparr>rs_tree = sample_cache, rs_pool = req_pool_init 4 8,
     rs_req = \<lparr>rq_pool_idx = Some 1, rq_origin_input_ids = [11, 12, 13, 14], rq_output_ids = [15],
       rq_fill_ids = [11, 12, 13, 14, 15], rq_extra_key = None, rq_priority = None, rq_kv_committed_len = 5,
       rq_kv_allocated_len = 5, rq_kv_committed_freed = False, rq_kv_overallocated_freed = False,
       rq_cache_protected_len = 0, rq_last_node = Some (rc_root sample_cache), rq_prefix_indices = [],
       rq_reasoning_tokens = 0, rq_skip_radix_cache_insert = False\<rparr>\<rparr>"

lemma cached_nil: "cached T ek [] []"
  unfolding cached_def by (intro exI [of _ "rc_root T"] exI [of _ "[]"]) (simp add: rpath.nil)

lemma sample_ready:
  "req_ready (\<lambda>_. 0) sample_request (rq_fill_ids (rs_req sample_request)) 1 (rc_root sample_cache)"
  "req_ready (\<lambda>_. 0) sample_request (committed_ids False (rs_req sample_request)) 1 (rc_root sample_cache)"
  by (simp_all add: req_ready_def sample_request_def cached_nil row_slice_def req_pool_init_def committed_ids_def
      cache_commit_len_def)

theorem finished_req_slots_witness:
  "\<exists>t freed. cache_finished_req False True sample_request = Some (Inr (), t) \<and>
    tree_slots (rs_tree t) + mset (concat freed) = tree_slots sample_cache + mset (replicate 5 0)"
proof -
  have "row_slice (rs_pool sample_request) 1 0 5 = replicate 5 0"
    by (intro nth_equalityI) (auto simp: row_slice_def sample_request_def req_pool_init_def)
  moreover have "length (committed_ids False (rs_req sample_request)) = 5"
    by (simp add: committed_ids_def sample_request_def cache_commit_len_def)
  ultimately show ?thesis
    using finished_req_slots [of "\<lambda>_. 0" sample_request False 1 "rc_root sample_cache" True] sample_run sample_fields sample_ready(2)
    by (auto simp: sample_request_def)
qed

theorem unfinished_req_slots_witness:
  "\<exists>t. cache_unfinished_req True sample_request = Some (Inr (), t) \<and> rq_cache_protected_len (rs_req t) = 4"
proof -
  have "rk_len (request_key sample_request [11, 12, 13, 14, 15]) = 4"
    by (simp add: request_key_def sample_request_def sample_fields rk_len_def [of "\<lparr>token_ids = _, extra_key = _, is_bigram = _\<rparr>"])
  then show ?thesis
    using unfinished_req_slots [of "\<lambda>_. 0" sample_request 1 "rc_root sample_cache" True] sample_run sample_fields sample_ready(1)
    by (auto simp: sample_request_def)
qed

section \<open>Slot pools\<close>

text \<open>
  What the cache relies on in an allocator: freeing slots adds them to the pool and to the
  available size. \<open>fits a v\<close> says when the slots \<open>v\<close> can be given back.
\<close>

locale slot_pool =
  fixes free :: "kv_index list \<Rightarrow> allocator \<Rightarrow> allocator"
    and fits :: "allocator \<Rightarrow> kv_index list \<Rightarrow> bool"
    and pool :: "allocator \<Rightarrow> kv_index multiset"
    and avail :: "allocator \<Rightarrow> int"
  assumes pool_free: "fits a v \<Longrightarrow> pool (free v a) = pool a + mset v"
    and avail_free: "fits a v \<Longrightarrow> avail (free v a) = avail a + int (length v)"
    and fits_free: "fits a v \<Longrightarrow> fits (free v a) w = fits a w"
begin

lemma fold_free:
  assumes "\<forall>v \<in> set vs. fits a v"
  shows "pool (fold free vs a) = pool a + mset (concat vs)" "avail (fold free vs a) = avail a + int (length (concat vs))"
proof -
  have "pool (fold free vs a) = pool a + mset (concat vs) \<and> avail (fold free vs a) = avail a + int (length (concat vs))"
    using assms
  proof (induction vs arbitrary: a)
    case (Cons v vs)
    then have "\<forall>w \<in> set vs. fits (free v a) w" using fits_free by simp
    from Cons.IH [OF this] Cons.prems show ?case by (simp add: pool_free avail_free add_ac)
  qed simp
  then show "pool (fold free vs a) = pool a + mset (concat vs)" "avail (fold free vs a) = avail a + int (length (concat vs))"
    by auto
qed

end

definition token_pool :: "allocator \<Rightarrow> kv_index multiset" where
  "token_pool a = mset (free_pages a) + mset (release_pages a)"

interpretation token: slot_pool token_free "\<lambda>a v. is_not_in_free_group a" token_pool token_available_size
  by unfold_locales (auto simp: token_free_def token_pool_def token_available_size_def)

text \<open>The paged allocator takes back whole pages.\<close>

definition whole_pages :: "int \<Rightarrow> kv_index list \<Rightarrow> bool" where
  "whole_pages ps v \<longleftrightarrow> (\<exists>pages. distinct pages \<and> mset v = mset (page_slots ps pages))"

definition page_pool :: "allocator \<Rightarrow> kv_index multiset" where
  "page_pool a = mset (page_slots (page_size a) (free_pages a)) + mset (page_slots (page_size a) (release_pages a))"

lemma page_slots_append: "page_slots ps (xs @ ys) = page_slots ps xs @ page_slots ps ys"
  by (simp add: page_slots_def)

lemma mset_concat_map: "mset (concat (map f xs)) = (\<Sum>x \<in># mset xs. mset (f x))"
  by (induction xs) auto

lemma mset_page_slots: "mset xs = mset ys \<Longrightarrow> mset (page_slots ps xs) = mset (page_slots ps ys)"
  unfolding page_slots_def mset_concat_map by simp

lemma unique_pages:
  assumes "0 < ps" and "whole_pages ps v"
  shows "mset (page_slots ps (torch_unique (map (\<lambda>i. i div ps) v))) = mset v"
    "int (length (torch_unique (map (\<lambda>i. i div ps) v))) * ps = int (length v)"
proof -
  from assms(2) obtain pages where p: "distinct pages" "mset v = mset (page_slots ps pages)" by (auto simp: whole_pages_def)
  have "set v = set (page_slots ps pages)" using p(2) by (metis mset_eq_setD)
  then have "set (map (\<lambda>i. i div ps) v) = set pages"
    using page_slots_pages [OF assms(1), of pages] by (simp add: pages_in_def)
  then have "mset (torch_unique (map (\<lambda>i. i div ps) v)) = mset pages"
    using p(1) by (intro set_eq_iff_mset_eq_distinct [THEN iffD1]) simp_all
  then show "mset (page_slots ps (torch_unique (map (\<lambda>i. i div ps) v))) = mset v"
    and "int (length (torch_unique (map (\<lambda>i. i div ps) v))) * ps = int (length v)"
    using mset_page_slots p(2) length_page_slots [OF assms(1), of pages] by (metis size_mset)+
qed

interpretation paged: slot_pool paged_free
  "\<lambda>a v. is_not_in_free_group a \<and> 0 < page_size a \<and> whole_pages (page_size a) v" page_pool base_available_size
proof unfold_locales
  fix a :: allocator and v
  assume f: "is_not_in_free_group a \<and> 0 < page_size a \<and> whole_pages (page_size a) v"
  note u = unique_pages [of "page_size a" v]
  show "page_pool (paged_free v a) = page_pool a + mset v"
    using f u by (auto simp: paged_free_def page_pool_def Let_def page_slots_append)
  show "base_available_size (paged_free v a) = base_available_size a + int (length v)"
    using f u by (auto simp: paged_free_def base_available_size_def Let_def algebra_simps)
  show "(is_not_in_free_group (paged_free v a) \<and> 0 < page_size (paged_free v a) \<and> whole_pages (page_size (paged_free v a)) w) =
      (is_not_in_free_group a \<and> 0 < page_size a \<and> whole_pages (page_size a) w)" for w
    using f by (auto simp: paged_free_def Let_def)
qed

section \<open>Allocation with eviction\<close>

lemma token_alloc_enough:
  assumes "int need \<le> token_available_size a" and "need_sort a \<or> release_pages a = []"
  shows "\<exists>loc b. token_alloc need a = (Some loc, b) \<and> length loc = need \<and> token_pool b + mset loc = token_pool a"
proof -
  define a1 where "a1 = (if need_sort a \<and> length (free_pages a) < need then merge_and_sort_free a else a)"
  have p: "token_pool a1 = token_pool a" by (auto simp: a1_def merge_and_sort_free_def token_pool_def)
  have l: "need \<le> length (free_pages a1)"
    using assms by (auto simp: a1_def merge_and_sort_free_def token_available_size_def)
  have "mset (drop need (free_pages a1)) + mset (take need (free_pages a1)) = mset (free_pages a1)"
    by (metis add.commute append_take_drop_id mset_append)
  then have "token_pool (a1\<lparr>free_pages := drop need (free_pages a1)\<rparr>) + mset (take need (free_pages a1)) = token_pool a"
    using p by (simp add: token_pool_def add_ac)
  moreover have "token_alloc need a =
      (Some (take need (free_pages a1)), a1\<lparr>free_pages := drop need (free_pages a1)\<rparr>)"
    using l by (simp add: token_alloc_def a1_def [symmetric] Let_def)
  ultimately show ?thesis using l by simp
qed

lemma token_free_keeps:
  "need_sort (fold token_free vs a) = need_sort a"
  "need_sort a \<or> release_pages a = [] \<Longrightarrow> need_sort a \<or> release_pages (fold token_free vs a) = []"
proof -
  have "need_sort (fold token_free vs a) = need_sort a \<and>
      (need_sort a \<or> release_pages a = [] \<longrightarrow> need_sort a \<or> release_pages (fold token_free vs a) = [])"
  proof (induction vs arbitrary: a)
    case (Cons v vs)
    have "need_sort (token_free v a) = need_sort a"
      "need_sort a \<or> release_pages a = [] \<longrightarrow> need_sort a \<or> release_pages (token_free v a) = []"
      by (auto simp: token_free_def)
    with Cons.IH [of "token_free v a"] show ?case by auto
  qed simp
  then show "need_sort (fold token_free vs a) = need_sort a"
    "need_sort a \<or> release_pages a = [] \<Longrightarrow> need_sort a \<or> release_pages (fold token_free vs a) = []" by auto
qed

text \<open>
  C7: an allocation of token slots succeeds whenever the free slots and the slots that eviction
  may free are enough. It evicts only when the free slots are not enough, and the slots it hands
  out come from the pool: pool, tree and caller together hold what pool and tree held before.
\<close>

theorem alloc_token_slots_succeeds:
  assumes run: "radix_run L T" and on: "\<not> rc_disable T" and quiet: "\<not> rc_events T"
    and cls: "rc_class T = TokenPool" and grp: "is_not_in_free_group (rc_alloc T)"
    and srt: "need_sort (rc_alloc T) \<or> release_pages (rc_alloc T) = []"
    and pick: "picks_element pick" and leaves: "distinct leaves" "set leaves = set (rc_evictable_leaves T)"
    and enough: "int num \<le> token_available_size (rc_alloc T) + rc_evictable_size T"
  shows "\<exists>loc state U. alloc_token_slots pick leaves num backup T = Some (Inr (loc, state), U) \<and> length loc = num \<and>
    radix_run L U \<and> (int num \<le> token_available_size (rc_alloc T) \<longrightarrow> tree_slots U = tree_slots T) \<and>
    token_pool (rc_alloc U) + tree_slots U + mset loc = token_pool (rc_alloc T) + tree_slots T"
proof -
  have "\<exists>freed U. evict_from_tree_cache pick leaves (int num) T = Some (Inr (), U) \<and> radix_run L U \<and> rc_class U = TokenPool \<and>
      rc_alloc U = fold token_free freed (rc_alloc T) \<and> tree_slots T = tree_slots U + mset (concat freed) \<and>
      int num \<le> token_available_size (rc_alloc T) + int (length (concat freed)) \<and>
      (int num \<le> token_available_size (rc_alloc T) \<longrightarrow> U = T)"
  proof (cases "token_available_size (rc_alloc T) < int num")
    case True
    have out: "evict_outcome False (int num) 0 {n. linked T n} L T (radix_evict pick leaves (int num) T)"
      by (rule radix_evict_outcome [OF run_linked [OF run] on pick leaves]) simp
    show ?thesis
    proof (rule evict_outcomeE [OF out quiet])
      fix U N' freed
      assume o: "radix_evict pick leaves (int num) T = Some (Inr (0 + int (length (concat freed))), U)" "tree_inv N' L U"
        "shrinks {n. linked T n} T freed N' U" "int num \<le> 0 + int (length (concat freed)) \<or> rc_evictable_size U = 0"
      note sh = shrinksD [OF o(3)]
      have "rc_class U = TokenPool" "rc_alloc U = fold token_free freed (rc_alloc T)"
        using sh(2,3) cls by (simp_all add: same_globals_def kv_free_def)
      moreover have "tree_slots T = tree_slots U + mset (concat freed)"
        using sh(11) linked_set [OF o(2)] by (simp add: tree_slots_def)
      moreover have "int num \<le> token_available_size (rc_alloc T) + int (length (concat freed))"
        using o(4) sh(4) enough by (auto simp: token_available_size_def)
      moreover have "radix_run L U" by (rule radix_run.evict [OF run pick leaves o(1)])
      ultimately show ?thesis
        using o(1) True cls by (intro exI [of _ freed] exI [of _ U]) (simp add: evict_from_tree_cache_def kv_available_size_def)
    qed
  next
    case False
    then show ?thesis
      using run cls by (intro exI [of _ "[]"] exI [of _ T]) (simp add: evict_from_tree_cache_def kv_available_size_def)
  qed
  then obtain freed U where U: "evict_from_tree_cache pick leaves (int num) T = Some (Inr (), U)" "radix_run L U"
    "rc_class U = TokenPool" "rc_alloc U = fold token_free freed (rc_alloc T)" "tree_slots T = tree_slots U + mset (concat freed)"
    "int num \<le> token_available_size (rc_alloc T) + int (length (concat freed))"
    "int num \<le> token_available_size (rc_alloc T) \<longrightarrow> U = T" by blast
  have pool: "token_pool (rc_alloc U) = token_pool (rc_alloc T) + mset (concat freed)"
    "token_available_size (rc_alloc U) = token_available_size (rc_alloc T) + int (length (concat freed))"
    unfolding U(4) using token.fold_free [of freed "rc_alloc T"] grp by simp_all
  have "need_sort (rc_alloc U) \<or> release_pages (rc_alloc U) = []"
    using token_free_keeps [where vs = freed and a = "rc_alloc T"] srt unfolding U(4) by simp
  with token_alloc_enough [of num "rc_alloc U"] U(6) pool(2) obtain loc b where
    b: "token_alloc num (rc_alloc U) = (Some loc, b)" "length loc = num" "token_pool b + mset loc = token_pool (rc_alloc U)" by auto
  define st where "st = (if backup then Some (backup_state (rc_alloc U)) else None)"
  define W where "W = U\<lparr>rc_alloc := b\<rparr>"
  have W: "rc_alloc W = b" "tree_slots W = tree_slots U" "radix_run L W"
  proof -
    show "rc_alloc W = b" by (simp add: W_def)
    show rw: "radix_run L W" unfolding W_def by (rule radix_run.alloc [OF U(2)])
    have "tree_inv {n. linked U n} L W" using run_linked [OF U(2)] by (simp add: W_def alloc_inv)
    then have "{n. linked W n} = {n. linked U n}" by (rule linked_set)
    then show "tree_slots W = tree_slots U" by (simp add: tree_slots_def slots_def W_def)
  qed
  have "alloc_token_slots pick leaves num backup T = Some (Inr (loc, st), W)"
    using U(1,3) b(1) by (simp add: alloc_token_slots_def st_def W_def)
  moreover have "token_pool b + tree_slots U + mset loc = token_pool (rc_alloc T) + tree_slots T"
    using b(3) pool(1) U(5) by (simp add: add_ac)
  ultimately show ?thesis using W b(2) U(7) by (intro exI [of _ loc] exI [of _ st] exI [of _ W]) auto
qed

theorem alloc_token_slots_succeeds_witness:
  "\<exists>loc state U. alloc_token_slots (\<lambda>_. 0) [] 5 True sample_cache = Some (Inr (loc, state), U) \<and> length loc = 5"
proof -
  have a: "rc_class sample_cache = TokenPool" "rc_alloc sample_cache = token_init 16 False" "rc_evictable_size sample_cache = 0"
    by (simp_all add: sample_cache_def radix_init_def sample_policy Let_def radix_reset_def
        new_tree_node_eq upd_node_def record_all_cleared_event_def)
  have "picks_element (\<lambda>_. 0)" by (simp add: picks_element_def)
  from alloc_token_slots_succeeds [OF sample_run sample_fields(1,2) a(1) _ _ this, of "[]" 5 True] show ?thesis
    by (auto simp: a sample_fields token_init_def token_clear_def token_available_size_def)
qed

end
