(* ===== verification/Gateway.thy ===== *)
theory Gateway
  imports Json
begin

text \<open>
  The agent gateway (\<^verbatim>\<open>gateway/lna_agent_gateway\<close>): settings and model aliases, and the
  translations between the Anthropic Messages, the OpenAI Responses and the OpenAI Chat Completions
  formats, with the endpoints that apply them. A request body is a JSON value; the upstream server
  is a function from payloads to replies; each endpoint returns its reply or the exception it
  raises. Lines and chunks of an upstream stream are those the HTTP client hands over.
\<close>

section \<open>Settings and models\<close>

record settings =
  st_upstream :: ustr
  st_host :: ustr
  st_port :: int
  st_served :: ustr
  st_context :: int
  st_aliases_raw :: ustr

text \<open>\<^verbatim>\<open>int(s)\<close> on the digits of ASCII.\<close>

definition uint_of :: "ustr \<Rightarrow> int res" where
  "uint_of s = (if \<forall>c \<in> set s. c < 128 then py_int (map char_of s) else Inl ValueError)"

definition env_or :: "(string \<Rightarrow> ustr option) \<Rightarrow> string \<Rightarrow> string \<Rightarrow> ustr" where
  "env_or env k d = (case env k of None \<Rightarrow> lit d | Some v \<Rightarrow> v)"

definition read_settings :: "(string \<Rightarrow> ustr option) \<Rightarrow> settings res" where
  "read_settings env =
     bindE (uint_of (env_or env ''LNA_GATEWAY_PORT'' ''9010'')) (\<lambda>port.
     bindE (uint_of (env_or env ''LNA_CONTEXT_LENGTH'' ''1048576'')) (\<lambda>ctx.
       Inr \<lparr>st_upstream = env_or env ''UPSTREAM_OPENAI_BASE_URL'' ''http://127.0.0.1:9000/v1'',
            st_host = env_or env ''LNA_GATEWAY_HOST'' ''0.0.0.0'', st_port = port,
            st_served = env_or env ''LNA_SERVED_MODEL'' ''deepseek-v4-flash'', st_context = ctx,
            st_aliases_raw = env_or env ''LNA_MODEL_ALIASES'' ''''\<rparr>))"

definition alias_step :: "(ustr, ustr) dict \<Rightarrow> ustr \<Rightarrow> (ustr, ustr) dict" where
  "alias_step aliases pair =
     (if 61 \<in> set pair then let (k, v) = split_once 61 pair in dict_set (ustrip k) (ustrip v) aliases else aliases)"

definition model_aliases :: "settings \<Rightarrow> (ustr, ustr) dict" where
  "model_aliases st = foldl alias_step [] (split_on 44 (st_aliases_raw st))"

text \<open>Only hashable values can be looked up in the alias table.\<close>

definition resolve_model :: "settings \<Rightarrow> json \<Rightarrow> json res" where
  "resolve_model st model =
     (if \<not> truthy model then Inr (JStr (st_served st))
      else (case model of
              JStr m \<Rightarrow> Inr (JStr (case dict_get (model_aliases st) m of None \<Rightarrow> m | Some v \<Rightarrow> v))
            | JArr _ \<Rightarrow> Inl TypeError | JObj _ \<Rightarrow> Inl TypeError | _ \<Rightarrow> Inr model))"

definition model_entry :: "settings \<Rightarrow> ustr \<Rightarrow> json" where
  "model_entry st name = JObj [(lit ''id'', JStr name), (lit ''object'', JStr (lit ''model'')),
     (lit ''created'', JInt 1767225600), (lit ''owned_by'', JStr (lit ''lnalang4u'')), (lit ''max_model_len'', JInt (st_context st))]"

definition get_models :: "settings \<Rightarrow> json" where
  "get_models st = JArr (model_entry st (st_served st) # map (model_entry st) (dict_keys (model_aliases st)))"

definition anthropic_entry :: "ustr \<Rightarrow> ustr \<Rightarrow> json" where
  "anthropic_entry name display = JObj [(lit ''type'', JStr (lit ''model'')), (lit ''id'', JStr name),
     (lit ''display_name'', JStr display), (lit ''created_at'', JStr (lit ''2026-05-15T00:00:00Z''))]"

definition get_anthropic_models :: "settings \<Rightarrow> json" where
  "get_anthropic_models st = JObj [(lit ''data'', JArr
     (anthropic_entry (st_served st) (lit ''DeepSeek V4 Flash (via LnaLang4U)'')
      # map (\<lambda>a. anthropic_entry a (a @ lit '' (alias for '' @ st_served st @ lit '')''))
          (dict_keys (model_aliases st))))]"

section \<open>Upstream\<close>

record upstream_reply =
  ur_status :: int
  ur_json :: "json res"
  ur_lines :: "ustr list"
  ur_chunks :: "nat list list"

datatype http_reply =
    JsonReply json
  | EventReply "ustr list \<times> unit res"
  | ByteReply "nat list list"

definition py_setitem :: "json \<Rightarrow> ustr \<Rightarrow> json \<Rightarrow> json res" where
  "py_setitem j k v = (case j of JObj m \<Rightarrow> Inr (JObj (dict_set k v m)) | _ \<Rightarrow> Inl TypeError)"

definition proxy_to_upstream :: "(json \<Rightarrow> upstream_reply res) \<Rightarrow> json \<Rightarrow> bool \<Rightarrow> upstream_reply res" where
  "proxy_to_upstream post payload stream =
     bindE (if stream then py_setitem payload (lit ''stream'') (JBool True) else Inr payload) post"

definition health :: "settings \<Rightarrow> int res \<Rightarrow> json" where
  "health st reply = (let ok = (reply = Inr 200)
     in JObj [(lit ''status'', JStr (if ok then lit ''ok'' else lit ''degraded'')), (lit ''upstream'', JStr (st_upstream st)),
              (lit ''model'', JStr (st_served st)), (lit ''upstream_connected'', JBool ok)])"

definition list_models :: "settings \<Rightarrow> json" where
  "list_models st = JObj [(lit ''object'', JStr (lit ''list'')), (lit ''data'', get_models st)]"

definition chat_completions :: "settings \<Rightarrow> (json \<Rightarrow> upstream_reply res) \<Rightarrow> json \<Rightarrow> http_reply res" where
  "chat_completions st post body =
     bindE (py_get body (lit ''model'') JNull) (\<lambda>m.
     bindE (resolve_model st m) (\<lambda>model.
     bindE (py_setitem body (lit ''model'') model) (\<lambda>body.
     bindE (py_get body (lit ''stream'') (JBool False)) (\<lambda>stream.
     bindE (proxy_to_upstream post body (truthy stream)) (\<lambda>resp.
       if truthy stream then Inr (ByteReply (ur_chunks resp))
       else bindE (ur_json resp) (\<lambda>j. Inr (JsonReply j)))))))"

section \<open>Anthropic Messages\<close>

text \<open>The system prompt is taken from a first message with the role \<^verbatim>\<open>system\<close>.\<close>

definition split_system :: "json list \<Rightarrow> (json \<times> json list) res" where
  "split_system remaining = (case remaining of [] \<Rightarrow> Inr (JNull, [])
     | m # ms \<Rightarrow> bindE (py_get m (lit ''role'') JNull) (\<lambda>role.
         if role = JStr (lit ''system'') then bindE (py_get m (lit ''content'') (JStr [])) (\<lambda>sys. Inr (sys, ms))
         else Inr (JNull, m # ms)))"

definition text_of_block :: "json \<Rightarrow> json list res" where
  "text_of_block b = bindE (py_get b (lit ''type'') JNull) (\<lambda>t.
     if t = JStr (lit ''text'') then bindE (py_get b (lit ''text'') (JStr [])) (\<lambda>x. Inr [x]) else Inr [])"

definition join_blocks :: "ustr \<Rightarrow> json \<Rightarrow> json res" where
  "join_blocks sep content = (case content of
     JArr bs \<Rightarrow> bindE (mapE text_of_block bs) (\<lambda>ts. bindE (py_join sep (concat ts)) (\<lambda>t. Inr (JStr t)))
   | _ \<Rightarrow> Inr content)"

definition chat_message :: "json \<Rightarrow> json \<Rightarrow> json" where
  "chat_message role content = JObj [(lit ''role'', role), (lit ''content'', content)]"

definition openai_message :: "ustr \<Rightarrow> json \<Rightarrow> json res" where
  "openai_message sep msg =
     bindE (py_get msg (lit ''role'') (JStr (lit ''user''))) (\<lambda>role.
     bindE (py_get msg (lit ''content'') (JStr [])) (\<lambda>content0.
     bindE (join_blocks sep content0) (\<lambda>content.
       Inr (chat_message (JStr (if role = JStr (lit ''assistant'') then lit ''assistant'' else lit ''user'')) content))))"

definition add_system :: "json \<Rightarrow> json list \<Rightarrow> json list" where
  "add_system system ms = (if truthy system then chat_message (JStr (lit ''system'')) system # ms else ms)"

definition translate_anthropic_to_openai :: "settings \<Rightarrow> json \<Rightarrow> json res" where
  "translate_anthropic_to_openai st body =
     bindE (py_get body (lit ''messages'') (JArr [])) (\<lambda>messages.
     bindE (py_list messages) (\<lambda>remaining.
     bindE (split_system remaining) (\<lambda>(system, rest).
     bindE (mapE (openai_message (lit '' '')) rest) (\<lambda>ms.
     bindE (py_get body (lit ''model'') JNull) (\<lambda>m.
     bindE (resolve_model st m) (\<lambda>model.
     bindE (py_get body (lit ''max_tokens'') (JInt 1024)) (\<lambda>max_tokens.
     bindE (py_get body (lit ''temperature'') (JFloat 10 (- 1))) (\<lambda>temperature.
     bindE (py_get body (lit ''top_p'') (JFloat 10 (- 1))) (\<lambda>top_p.
     bindE (py_get body (lit ''stream'') (JBool False)) (\<lambda>stream.
     bindE (py_get body (lit ''stop_sequences'') JNull) (\<lambda>stop.
       Inr (JObj [(lit ''model'', model), (lit ''messages'', JArr (add_system system ms)), (lit ''max_tokens'', max_tokens),
         (lit ''temperature'', temperature), (lit ''top_p'', top_p), (lit ''stream'', stream), (lit ''stop'', stop)]))))))))))))"

definition stop_reason :: "json \<Rightarrow> json" where
  "stop_reason finish = (if finish = JStr (lit ''stop'') then JStr (lit ''end_turn'')
     else if finish = JStr (lit ''length'') then JStr (lit ''max_tokens'') else finish)"

definition text_content :: "ustr \<Rightarrow> json \<Rightarrow> json" where
  "text_content kind text = JArr [JObj [(lit ''type'', JStr kind), (lit ''text'', text)]]"

definition usage_counts :: "json \<Rightarrow> json res" where
  "usage_counts usage =
     bindE (py_get usage (lit ''prompt_tokens'') (JInt 0)) (\<lambda>i.
     bindE (py_get usage (lit ''completion_tokens'') (JInt 0)) (\<lambda>out.
       Inr (JObj [(lit ''input_tokens'', i), (lit ''output_tokens'', out)])))"

definition translate_openai_to_anthropic :: "json \<Rightarrow> json \<Rightarrow> json res" where
  "translate_openai_to_anthropic data model =
     bindE (py_get data (lit ''choices'') (JArr [JObj []])) (\<lambda>choices.
     bindE (py_first choices) (\<lambda>choice.
     bindE (py_get choice (lit ''message'') (JObj [])) (\<lambda>msg.
     bindE (py_get data (lit ''usage'') (JObj [])) (\<lambda>usage.
     bindE (py_get choice (lit ''finish_reason'') JNull) (\<lambda>finish.
     bindE (py_get data (lit ''id'') (JStr [])) (\<lambda>i.
     bindE (py_get msg (lit ''content'') (JStr [])) (\<lambda>text.
     bindE (usage_counts usage) (\<lambda>counts.
       Inr (JObj [(lit ''id'', i), (lit ''type'', JStr (lit ''message'')), (lit ''role'', JStr (lit ''assistant'')),
         (lit ''model'', model), (lit ''content'', text_content (lit ''text'') text), (lit ''stop_reason'', stop_reason finish),
         (lit ''stop_sequence'', JNull), (lit ''usage'', counts)])))))))))"

subsection \<open>Streaming\<close>

text \<open>
  \<^verbatim>\<open>f"{model}"\<close>; \<open>shw\<close> is Python's text of a float or of a container.
\<close>

definition py_str :: "(json \<Rightarrow> ustr) \<Rightarrow> json \<Rightarrow> ustr" where
  "py_str shw j = (case j of JStr s \<Rightarrow> s | JNull \<Rightarrow> lit ''None'' | JBool b \<Rightarrow> (if b then lit ''True'' else lit ''False'')
     | JInt i \<Rightarrow> (if i < 0 then 45 # lit (show_nat (nat (- i))) else lit (show_nat (nat i))) | _ \<Rightarrow> shw j)"

definition event_end :: ustr where "event_end = [10, 10]"

definition message_start :: "string \<Rightarrow> ustr \<Rightarrow> ustr" where
  \<open>message_start msg_id model =
     lit ''data: {"type":"message_start","message":{"id":"'' @ lit msg_id @ lit ''","type":"message","role":"assistant","model":"''
     @ model @ lit ''","content":[]}}'' @ event_end\<close>

definition content_delta :: "ustr \<Rightarrow> ustr" where
  \<open>content_delta text =
     lit ''data: {"type":"content_block_delta","delta":{"type":"text_delta","text":'' @ dumps_str text @ lit ''}}'' @ event_end\<close>

definition message_delta :: ustr where
  \<open>message_delta =
     lit ''data: {"type":"message_delta","delta":{"stop_reason":"end_turn","stop_sequence":null},"usage":{"output_tokens":0}}'' @ event_end\<close>

definition stream_done :: ustr where
  "stream_done = lit ''data: [DONE]'' @ event_end"

definition delta_content :: "json \<Rightarrow> json res" where
  "delta_content d =
     bindE (py_get d (lit ''choices'') (JArr [JObj []])) (\<lambda>choices.
     bindE (py_first choices) (\<lambda>choice.
     bindE (py_get choice (lit ''delta'') (JObj [])) (\<lambda>delta.
       py_get delta (lit ''content'') (JStr []))))"

text \<open>
  One line of the upstream stream: the events to send, or the end of the stream. Text that does
  not parse is skipped; content that is not a string fails at \<^verbatim>\<open>full += content\<close>.
\<close>

definition stream_line :: "ustr \<Rightarrow> ustr list option res" where
  "stream_line line =
     (if startswith line (lit ''data: '') then
        let data = drop 6 line in
        if data = lit ''[DONE]'' then Inr None
        else (case loads data of None \<Rightarrow> Inr (Some [])
              | Some d \<Rightarrow> bindE (delta_content d) (\<lambda>content.
                  if truthy content then bindE (as_str content) (\<lambda>text. Inr (Some [content_delta text]))
                  else Inr (Some [])))
      else Inr (Some []))"

fun stream_loop :: "ustr list \<Rightarrow> ustr list \<times> unit res" where
  "stream_loop [] = ([], Inr ())"
| "stream_loop (line # rest) = (case stream_line line of
      Inl e \<Rightarrow> ([], Inl e)
    | Inr None \<Rightarrow> ([], Inr ())
    | Inr (Some evs) \<Rightarrow> (let (more, r) = stream_loop rest in (evs @ more, r)))"

definition stream_events :: "string \<Rightarrow> ustr \<Rightarrow> ustr list \<times> unit res \<Rightarrow> ustr list \<times> unit res" where
  "stream_events msg_id model body = (case body of (evs, r) \<Rightarrow>
     (case r of Inl e \<Rightarrow> (message_start msg_id model # evs, Inl e)
      | Inr _ \<Rightarrow> (message_start msg_id model # evs @ [message_delta, stream_done], Inr ())))"

definition anthropic_messages ::
  "settings \<Rightarrow> (json \<Rightarrow> ustr) \<Rightarrow> (json \<Rightarrow> upstream_reply res) \<Rightarrow> json \<Rightarrow> http_reply res" where
  "anthropic_messages st shw post body =
     bindE (py_get body (lit ''stream'') (JBool False)) (\<lambda>stream.
     bindE (py_get body (lit ''model'') (JStr (st_served st))) (\<lambda>model.
     bindE (translate_anthropic_to_openai st body) (\<lambda>payload.
     bindE (proxy_to_upstream post payload (truthy stream)) (\<lambda>resp.
       if truthy stream then Inr (EventReply (stream_events ''msg_1'' (py_str shw model) (stream_loop (ur_lines resp))))
       else bindE (ur_json resp) (\<lambda>data.
            bindE (translate_openai_to_anthropic data model) (\<lambda>j. Inr (JsonReply j)))))))"

definition count_tokens :: "json \<Rightarrow> json res" where
  "count_tokens body =
     bindE (py_get body (lit ''messages'') (JArr [])) (\<lambda>messages.
     bindE (py_list messages) (\<lambda>ms.
     bindE (mapE (\<lambda>m. bindE (py_get m (lit ''content'') (JStr [])) (\<lambda>c. bindE (py_size c) (\<lambda>n. Inr (n div 4)))) ms) (\<lambda>ns.
       Inr (JObj [(lit ''input_tokens'', JInt (max 1 (int (sum_list ns))))]))))"

section \<open>OpenAI Responses\<close>

definition is_dict :: "json \<Rightarrow> bool" where
  "is_dict j = (case j of JObj _ \<Rightarrow> True | _ \<Rightarrow> False)"

definition input_text :: "json \<Rightarrow> json res" where
  "input_text inp = (case inp of
     JArr ms \<Rightarrow> bindE (mapE (\<lambda>m. py_get m (lit ''content'') (JStr [])) (filter is_dict ms)) (\<lambda>cs.
                  bindE (py_join (lit '' '') cs) (\<lambda>t. Inr (JStr t)))
   | _ \<Rightarrow> Inr inp)"

definition translate_responses_to_chat :: "settings \<Rightarrow> json \<Rightarrow> json res" where
  "translate_responses_to_chat st body =
     bindE (py_get body (lit ''input'') (JStr [])) (\<lambda>inp0.
     bindE (input_text inp0) (\<lambda>inp.
     bindE (py_get body (lit ''instructions'') JNull) (\<lambda>instructions.
     bindE (py_get body (lit ''model'') JNull) (\<lambda>m.
     bindE (resolve_model st m) (\<lambda>model.
     bindE (py_get body (lit ''max_output_tokens'') (JInt 1024)) (\<lambda>max_tokens.
     bindE (py_get body (lit ''temperature'') (JFloat 10 (- 1))) (\<lambda>temperature.
     bindE (py_get body (lit ''stream'') (JBool False)) (\<lambda>stream.
       Inr (JObj [(lit ''model'', model),
         (lit ''messages'', JArr (add_system instructions [chat_message (JStr (lit ''user'')) inp])),
         (lit ''max_tokens'', max_tokens), (lit ''temperature'', temperature), (lit ''stream'', stream)])))))))))"

definition translate_chat_to_responses :: "int \<Rightarrow> json \<Rightarrow> json \<Rightarrow> json res" where
  "translate_chat_to_responses now data model =
     bindE (py_get data (lit ''choices'') (JArr [JObj []])) (\<lambda>choices.
     bindE (py_first choices) (\<lambda>choice.
     bindE (py_get choice (lit ''message'') (JObj [])) (\<lambda>msg.
     bindE (py_get data (lit ''usage'') (JObj [])) (\<lambda>usage.
     bindE (py_get data (lit ''id'') (JStr [])) (\<lambda>i.
     bindE (py_get msg (lit ''content'') (JStr [])) (\<lambda>text.
     bindE (usage_counts usage) (\<lambda>counts.
       Inr (JObj [(lit ''id'', i), (lit ''object'', JStr (lit ''response'')), (lit ''model'', model), (lit ''created'', JInt now),
         (lit ''status'', JStr (lit ''completed'')),
         (lit ''output'', JArr [JObj [(lit ''type'', JStr (lit ''message'')), (lit ''role'', JStr (lit ''assistant'')),
            (lit ''content'', text_content (lit ''output_text'') text)]]),
         (lit ''usage'', counts)]))))))))"

definition openai_responses ::
  "settings \<Rightarrow> int \<Rightarrow> (json \<Rightarrow> upstream_reply res) \<Rightarrow> json \<Rightarrow> http_reply res" where
  "openai_responses st now post body =
     bindE (py_get body (lit ''stream'') (JBool False)) (\<lambda>stream.
     bindE (py_get body (lit ''model'') (JStr (st_served st))) (\<lambda>model.
     bindE (translate_responses_to_chat st body) (\<lambda>payload.
     bindE (proxy_to_upstream post payload (truthy stream)) (\<lambda>resp.
       if truthy stream then Inr (EventReply (map (\<lambda>line. line @ [10]) (ur_lines resp), Inr ()))
       else bindE (ur_json resp) (\<lambda>data.
            bindE (translate_chat_to_responses now data model) (\<lambda>j. Inr (JsonReply j)))))))"

section \<open>Requests\<close>

text \<open>
  A reading of an Anthropic request as a list of turns, a role and a text each, and the same reading
  of a list of chat messages.
\<close>

definition field :: "json \<Rightarrow> string \<Rightarrow> json option" where
  "field j k = (case j of JObj d \<Rightarrow> dict_get d (lit k) | _ \<Rightarrow> None)"

definition block_ok :: "json \<Rightarrow> bool" where
  "block_ok b \<longleftrightarrow> is_dict b \<and> (field b ''type'' \<noteq> Some (JStr (lit ''text'')) \<or>
     (case field b ''text'' of None \<Rightarrow> True | Some (JStr _) \<Rightarrow> True | _ \<Rightarrow> False))"

definition block_text :: "json \<Rightarrow> ustr list" where
  "block_text b = (if field b ''type'' = Some (JStr (lit ''text''))
     then [case field b ''text'' of Some (JStr t) \<Rightarrow> t | _ \<Rightarrow> []] else [])"

definition message_ok :: "json \<Rightarrow> bool" where
  "message_ok m \<longleftrightarrow> is_dict m \<and>
     (case field m ''content'' of None \<Rightarrow> True | Some (JStr _) \<Rightarrow> True | Some (JArr bs) \<Rightarrow> list_all block_ok bs | _ \<Rightarrow> False)"

definition message_text :: "ustr \<Rightarrow> json \<Rightarrow> ustr" where
  "message_text sep m = (case field m ''content'' of Some (JStr t) \<Rightarrow> t
     | Some (JArr bs) \<Rightarrow> join sep (concat (map block_text bs)) | _ \<Rightarrow> [])"

definition is_system :: "json \<Rightarrow> bool" where
  "is_system m \<longleftrightarrow> field m ''role'' = Some (JStr (lit ''system''))"

definition turn_of :: "ustr \<Rightarrow> json \<Rightarrow> ustr \<times> ustr" where
  "turn_of sep m = (if field m ''role'' = Some (JStr (lit ''assistant'')) then lit ''assistant'' else lit ''user'', message_text sep m)"

definition turns_of :: "ustr \<Rightarrow> json list \<Rightarrow> (ustr \<times> ustr) list" where
  "turns_of sep ms = (case ms of [] \<Rightarrow> []
     | m # rest \<Rightarrow> if is_system m
         then (if message_text sep m = [] then [] else [(lit ''system'', message_text sep m)]) @ map (turn_of sep) rest
         else map (turn_of sep) (m # rest))"

definition messages_of :: "json \<Rightarrow> json list" where
  "messages_of body = (case field body ''messages'' of Some (JArr ms) \<Rightarrow> ms | _ \<Rightarrow> [])"

definition request_ok :: "json \<Rightarrow> bool" where
  "request_ok body \<longleftrightarrow> is_dict body \<and>
     (case field body ''messages'' of None \<Rightarrow> True | Some (JArr ms) \<Rightarrow> list_all message_ok ms \<and>
        (case ms of [] \<Rightarrow> True | m # _ \<Rightarrow> is_system m \<longrightarrow> (case field m ''content'' of Some (JArr _) \<Rightarrow> False | _ \<Rightarrow> True))
      | _ \<Rightarrow> False) \<and>
     (case field body ''model'' of None \<Rightarrow> True | Some (JStr _) \<Rightarrow> True | _ \<Rightarrow> False)"

definition served_name :: "settings \<Rightarrow> json \<Rightarrow> ustr" where
  "served_name st body = (case field body ''model'' of
     Some (JStr m) \<Rightarrow> (if m = [] then st_served st else case dict_get (model_aliases st) m of None \<Rightarrow> m | Some v \<Rightarrow> v)
   | _ \<Rightarrow> st_served st)"

definition chat_turn :: "ustr \<times> ustr \<Rightarrow> json" where
  "chat_turn p = chat_message (JStr (fst p)) (JStr (snd p))"

lemma py_get_field: "is_dict j \<Longrightarrow> py_get j (lit k) d = Inr (case field j k of None \<Rightarrow> d | Some v \<Rightarrow> v)"
  by (cases j) (simp_all add: is_dict_def field_def)

lemma text_of_block_ok:
  assumes "block_ok b"
  shows "text_of_block b = Inr (map JStr (block_text b))"
proof -
  have d: "is_dict b" using assms by (simp add: block_ok_def)
  show ?thesis
  proof (cases "field b ''type'' = Some (JStr (lit ''text''))")
    case True
    with assms have "field b ''text'' = None \<or> (\<exists>t. field b ''text'' = Some (JStr t))"
      unfolding block_ok_def by (auto split: option.splits json.splits)
    with True show ?thesis unfolding text_of_block_def py_get_field [OF d] block_text_def by auto
  next
    case False
    then show ?thesis unfolding text_of_block_def py_get_field [OF d] block_text_def by (auto split: option.splits)
  qed
qed

lemma mapE_as_str [simp]: "mapE as_str (map JStr ss) = Inr ss"
  by (induction ss) auto

lemma concat_JStr: "concat (map (\<lambda>b. map JStr (f b)) bs) = map JStr (concat (map f bs))"
  by (induction bs) auto

lemma openai_message_ok:
  assumes "message_ok m"
  shows "openai_message sep m = Inr (chat_turn (turn_of sep m))"
proof -
  have d: "is_dict m" using assms by (simp add: message_ok_def)
  have "join_blocks sep (case field m ''content'' of None \<Rightarrow> JStr [] | Some v \<Rightarrow> v) = Inr (JStr (message_text sep m))"
  proof (cases "field m ''content''")
    case (Some c)
    with assms consider t where "c = JStr t" | bs where "c = JArr bs" "list_all block_ok bs"
      unfolding message_ok_def by (cases c) auto
    then show ?thesis
    proof cases
      case (2 bs)
      have "mapE text_of_block bs = Inr (map (\<lambda>b. map JStr (block_text b)) bs)"
        using 2(2) by (intro mapE_Inr) (simp add: text_of_block_ok list_all_iff)
      then show ?thesis using Some 2(1) by (simp add: join_blocks_def message_text_def py_join_def concat_JStr)
    qed (simp add: Some join_blocks_def message_text_def)
  qed (simp add: join_blocks_def message_text_def)
  then show ?thesis
    unfolding openai_message_def py_get_field [OF d]
    by (auto simp: chat_turn_def turn_of_def split: option.splits)
qed

lemma translated_messages:
  assumes "request_ok body"
  shows "\<exists>system rest ms. bindE (py_get body (lit ''messages'') (JArr [])) py_list = Inr (messages_of body) \<and>
    split_system (messages_of body) = Inr (system, rest) \<and> mapE (openai_message sep) rest = Inr ms \<and>
    add_system system ms = map chat_turn (turns_of sep (messages_of body))"
proof -
  have d: "is_dict body" using assms by (simp add: request_ok_def)
  have ok: "list_all message_ok (messages_of body)" and g: "bindE (py_get body (lit ''messages'') (JArr [])) py_list = Inr (messages_of body)"
    using assms unfolding request_ok_def messages_of_def py_get_field [OF d] by (auto split: option.splits json.splits)
  have tr: "mapE (openai_message sep) xs = Inr (map (\<lambda>m. chat_turn (turn_of sep m)) xs)" if "list_all message_ok xs" for xs
    using that by (intro mapE_Inr) (simp add: openai_message_ok list_all_iff)
  show ?thesis
  proof (cases "messages_of body")
    case Nil
    then show ?thesis using g by (auto simp: split_system_def add_system_def turns_of_def)
  next
    case (Cons m rest)
    with ok have m: "is_dict m" "list_all message_ok rest" "list_all message_ok (m # rest)" by (auto simp: message_ok_def)
    show ?thesis
    proof (cases "is_system m")
      case False
      then have "split_system (messages_of body) = Inr (JNull, m # rest)"
        unfolding Cons split_system_def is_system_def list.case py_get_field [OF m(1)] by (auto split: option.splits)
      then show ?thesis using g tr [OF m(3)] False
        by (intro exI [of _ JNull] exI [of _ "m # rest"] exI [of _ "map (\<lambda>m. chat_turn (turn_of sep m)) (m # rest)"] conjI)
          (simp_all add: Cons add_system_def turns_of_def)
    next
      case True
      have "field m ''content'' = None \<or> (\<exists>t. field m ''content'' = Some (JStr t))"
        using assms Cons True ok unfolding request_ok_def messages_of_def message_ok_def
        by (cases "field m ''content''") (auto split: option.splits json.splits)
      then have c: "(case field m ''content'' of None \<Rightarrow> JStr [] | Some v \<Rightarrow> v) = JStr (message_text sep m)"
        by (auto simp: message_text_def)
      have "split_system (messages_of body) = Inr (JStr (message_text sep m), rest)"
        using True c unfolding Cons split_system_def list.case py_get_field [OF m(1)] is_system_def by simp
      then show ?thesis using g tr [OF m(2)] True
        by (intro exI [of _ "JStr (message_text sep m)"] exI [of _ rest] exI [of _ "map (\<lambda>m. chat_turn (turn_of sep m)) rest"] conjI)
          (simp_all add: Cons add_system_def turns_of_def chat_turn_def)
    qed
  qed
qed

definition field_or :: "json \<Rightarrow> string \<Rightarrow> json \<Rightarrow> json" where
  "field_or j k d = (case field j k of None \<Rightarrow> d | Some v \<Rightarrow> v)"

text \<open>The chat request that says what the Anthropic request says.\<close>

definition chat_request :: "settings \<Rightarrow> json \<Rightarrow> json" where
  "chat_request st body = JObj [(lit ''model'', JStr (served_name st body)),
     (lit ''messages'', JArr (map chat_turn (turns_of (lit '' '') (messages_of body)))),
     (lit ''max_tokens'', field_or body ''max_tokens'' (JInt 1024)), (lit ''temperature'', field_or body ''temperature'' (JFloat 10 (- 1))),
     (lit ''top_p'', field_or body ''top_p'' (JFloat 10 (- 1))), (lit ''stream'', field_or body ''stream'' (JBool False)),
     (lit ''stop'', field_or body ''stop_sequences'' JNull)]"

lemma resolve_served:
  assumes "request_ok body"
  shows "resolve_model st (field_or body ''model'' JNull) = Inr (JStr (served_name st body))"
  using assms unfolding request_ok_def
  by (auto simp: field_or_def resolve_model_def served_name_def split: option.splits json.splits)

lemma translate_request:
  assumes "request_ok body"
  shows "translate_anthropic_to_openai st body = Inr (chat_request st body)"
proof -
  have d: "is_dict body" using assms by (simp add: request_ok_def)
  from translated_messages [OF assms, of "lit '' ''"] obtain system rest ms where
    t: "bindE (py_get body (lit ''messages'') (JArr [])) py_list = Inr (messages_of body)"
    "split_system (messages_of body) = Inr (system, rest)" "mapE (openai_message (lit '' '')) rest = Inr ms"
    "add_system system ms = map chat_turn (turns_of (lit '' '') (messages_of body))" by blast
  have m: "py_list (field_or body ''messages'' (JArr [])) = Inr (messages_of body)"
    using t(1) unfolding py_get_field [OF d] field_or_def [symmetric] by simp
  show ?thesis
    unfolding translate_anthropic_to_openai_def py_get_field [OF d] field_or_def [symmetric] bindE_simps m t(2) prod.case t(3)
      resolve_served [OF assms] chat_request_def t(4) ..
qed

section \<open>Replies\<close>

text \<open>The text and the finish reason of a chat completion, and of an Anthropic message.\<close>

definition completion_of :: "json \<Rightarrow> (ustr \<times> json) option" where
  "completion_of data = (case field data ''choices'' of
     Some (JArr (c # _)) \<Rightarrow> (case field c ''message'' of
        Some m \<Rightarrow> (case field m ''content'' of
           Some (JStr t) \<Rightarrow> (if is_dict (field_or data ''usage'' (JObj [])) then Some (t, field_or c ''finish_reason'' JNull) else None)
         | _ \<Rightarrow> None)
      | None \<Rightarrow> None)
   | _ \<Rightarrow> None)"

definition answer_of :: "json \<Rightarrow> (ustr \<times> json) option" where
  "answer_of r = (case field r ''content'' of
     Some (JArr [c]) \<Rightarrow> (case field c ''text'' of Some (JStr t) \<Rightarrow> Some (t, field_or r ''stop_reason'' JNull) | _ \<Rightarrow> None)
   | _ \<Rightarrow> None)"

lemma field_is_dict: "field j k = Some v \<Longrightarrow> is_dict j"
  by (simp add: field_def is_dict_def split: json.splits)

lemma translate_reply:
  assumes "completion_of data = Some (t, finish)"
  shows "\<exists>r. translate_openai_to_anthropic data model = Inr r \<and> answer_of r = Some (t, stop_reason finish) \<and>
    field r ''model'' = Some model \<and> field r ''role'' = Some (JStr (lit ''assistant'')) \<and>
    field r ''usage'' = Some (JObj [
      (lit ''input_tokens'', field_or (field_or data ''usage'' (JObj [])) ''prompt_tokens'' (JInt 0)),
      (lit ''output_tokens'', field_or (field_or data ''usage'' (JObj [])) ''completion_tokens'' (JInt 0))])"
proof -
  from assms obtain c cs m where
    f: "field data ''choices'' = Some (JArr (c # cs))" "field c ''message'' = Some m" "field m ''content'' = Some (JStr t)"
    "is_dict (field_or data ''usage'' (JObj []))" "finish = field_or c ''finish_reason'' JNull"
    unfolding completion_of_def by (auto split: option.splits json.splits list.splits if_splits)
  note d = field_is_dict [OF f(1)] field_is_dict [OF f(2)] field_is_dict [OF f(3)]
  show ?thesis
    unfolding translate_openai_to_anthropic_def usage_counts_def py_get_field [OF d(1)] f(1) option.case bindE_simps py_first_arr
      py_get_field [OF d(2)] f(2) py_get_field [OF d(3)] f(3) field_or_def [symmetric] py_get_field [OF f(4)]
    by (simp add: f(5) answer_of_def field_def field_or_def text_content_def)
qed

definition sample_settings :: settings where
  "sample_settings = \<lparr>st_upstream = lit ''http://127.0.0.1:9000/v1'', st_host = lit ''0.0.0.0'', st_port = 9010,
     st_served = lit ''deepseek-v4-flash'', st_context = 1048576, st_aliases_raw = lit ''claude-lnalang4u = deepseek-v4-flash,x''\<rparr>"

definition sample_body :: json where
  "sample_body = JObj [(lit ''model'', JStr (lit ''claude-lnalang4u'')), (lit ''messages'', JArr
     [JObj [(lit ''role'', JStr (lit ''system'')), (lit ''content'', JStr (lit ''Be brief.''))],
      JObj [(lit ''role'', JStr (lit ''user'')), (lit ''content'', JArr
        [JObj [(lit ''type'', JStr (lit ''text'')), (lit ''text'', JStr (lit ''Hello''))], JObj [(lit ''type'', JStr (lit ''image''))],
         JObj [(lit ''type'', JStr (lit ''text'')), (lit ''text'', JStr (lit ''there''))]])]])]"

definition sample_reply :: upstream_reply where
  "sample_reply = \<lparr>ur_status = 200, ur_json = Inr (JObj [(lit ''choices'', JArr [JObj
       [(lit ''message'', JObj [(lit ''content'', JStr (lit ''Hi''))]), (lit ''finish_reason'', JStr (lit ''length''))]])]),
     ur_lines = [], ur_chunks = []\<rparr>"



section \<open>Streams\<close>

text \<open>
  What a client reads out of an event, and what the lines of the upstream stream say before the end
  mark. A line is well-formed if it is no data, or unparsable data, or a chunk with a delta.
\<close>

definition event_data :: "ustr \<Rightarrow> json option" where
  "event_data ev = (if startswith ev (lit ''data: '') then loads (take (length ev - 8) (drop 6 ev)) else None)"

definition event_text :: "ustr \<Rightarrow> ustr" where
  "event_text ev = (case event_data ev of None \<Rightarrow> []
     | Some j \<Rightarrow> if field j ''type'' = Some (JStr (lit ''content_block_delta''))
         then (case field_or (field_or j ''delta'' JNull) ''text'' JNull of JStr t \<Rightarrow> t | _ \<Rightarrow> []) else [])"

definition chunk_delta :: "json \<Rightarrow> json" where
  "chunk_delta d = (case field d ''choices'' of Some (JArr (c # _)) \<Rightarrow> field_or c ''delta'' (JObj []) | _ \<Rightarrow> JObj [])"

definition chunk_ok :: "json \<Rightarrow> bool" where
  "chunk_ok d \<longleftrightarrow> is_dict d \<and> (case field d ''choices'' of None \<Rightarrow> True | Some (JArr (c # _)) \<Rightarrow> is_dict c | _ \<Rightarrow> False) \<and>
     is_dict (chunk_delta d) \<and> (case field (chunk_delta d) ''content'' of None \<Rightarrow> True | Some JNull \<Rightarrow> True | Some (JStr _) \<Rightarrow> True | _ \<Rightarrow> False)"

definition chunk_text :: "json \<Rightarrow> ustr" where
  "chunk_text d = (case field (chunk_delta d) ''content'' of Some (JStr t) \<Rightarrow> t | _ \<Rightarrow> [])"

definition line_chunk :: "ustr \<Rightarrow> json option" where
  "line_chunk line = (if startswith line (lit ''data: '') then loads (drop 6 line) else None)"

fun before_done :: "ustr list \<Rightarrow> ustr list" where
  "before_done [] = []"
| "before_done (line # rest) = (if line = lit ''data: [DONE]'' then [] else line # before_done rest)"

definition upstream_text :: "ustr list \<Rightarrow> ustr" where
  "upstream_text ls = concat (map (\<lambda>l. case line_chunk l of None \<Rightarrow> [] | Some d \<Rightarrow> chunk_text d) (before_done ls))"

definition lines_ok :: "ustr list \<Rightarrow> bool" where
  "lines_ok ls \<longleftrightarrow> list_all (\<lambda>l. case line_chunk l of None \<Rightarrow> True | Some d \<Rightarrow> chunk_ok d) (before_done ls)"

definition plain :: "ustr \<Rightarrow> bool" where
  "plain s \<longleftrightarrow> (\<forall>c \<in> set s. 32 \<le> c \<and> c \<noteq> 34 \<and> c \<noteq> 92)"

lemma scanstring_plain: "plain s \<Longrightarrow> scanstring (s @ 34 # r) = Some (s, r)"
  by (induction s) (auto simp: plain_def)

lemma loads_fuel:
  assumes "2 * length s + 1 \<le> k" and "\<not> startswith s [65279]"
  shows "loads s = (case scan_once k (skip_ws s) of None \<Rightarrow> None | Some (v, r) \<Rightarrow> if skip_ws r = [] then Some v else None)"
proof -
  have "2 * length (skip_ws s) + 1 \<le> k" "2 * length (skip_ws s) + 1 \<le> 2 * length s + 2"
    using skip_ws_length [of s] assms(1) by linarith+
  then have "scan_once (2 * length s + 2) (skip_ws s) = scan_once k (skip_ws s)" by (intro scan_fuel) simp_all
  with assms(2) show ?thesis unfolding loads_def by (simp only: if_False)
qed

lemma event_data_wrap: "event_data (lit ''data: '' @ s @ event_end) = loads s"
  by (simp add: event_data_def startswith_def event_end_def)

lemma loads_run:
  assumes "\<not> startswith s [65279]"
  obtains n where "loads s = (case scan_once (Suc (Suc (Suc (Suc (Suc (Suc (Suc (Suc (Suc (Suc (Suc (Suc n)))))))))))) (skip_ws s) of
    None \<Rightarrow> None | Some (v, r) \<Rightarrow> if skip_ws r = [] then Some v else None)"
  by (rule that [OF loads_fuel [OF _ assms, of "Suc (Suc (Suc (Suc (Suc (Suc (Suc (Suc (Suc (Suc (Suc (Suc (2 * length s))))))))))))"]]) simp

lemma event_run:
  assumes "ev = lit ''data: '' @ s @ event_end" and "\<not> startswith s [65279]"
  obtains n where "event_data ev = (case scan_once (Suc (Suc (Suc (Suc (Suc (Suc (Suc (Suc (Suc (Suc (Suc (Suc n)))))))))))) (skip_ws s) of
    None \<Rightarrow> None | Some (v, r) \<Rightarrow> if skip_ws r = [] then Some v else None)"
  using loads_run [OF assms(2)] that unfolding assms(1) event_data_wrap by metis

lemmas scan_run = scanstring_dumps scanstring_plain json_space_def literals_def startswith_def scan_number_def
  is_digit_def digits_val_def scan_fraction_def scan_exponent_def

lemma content_delta_data:
  assumes "scalars t"
  shows "event_data (content_delta t) = Some (JObj [(lit ''type'', JStr (lit ''content_block_delta'')),
     (lit ''delta'', JObj [(lit ''type'', JStr (lit ''text_delta'')), (lit ''text'', JStr t)])])"
proof -
  have \<open>content_delta t = lit ''data: '' @
      (lit ''{"type":"content_block_delta","delta":{"type":"text_delta","text":'' @ dumps_str t @ lit ''}}'') @ event_end\<close>
    by (simp add: content_delta_def)
  then show ?thesis by (rule event_run) (use assms in \<open>simp_all add: dumps_str_def scan_run\<close>)
qed

lemma message_start_data:
  assumes "plain m" and "plain (lit i)"
  shows "event_data (message_start i m) = Some (JObj [(lit ''type'', JStr (lit ''message_start'')),
     (lit ''message'', JObj [(lit ''id'', JStr (lit i)), (lit ''type'', JStr (lit ''message'')), (lit ''role'', JStr (lit ''assistant'')),
        (lit ''model'', JStr m), (lit ''content'', JArr [])])])"
proof -
  have \<open>message_start i m = lit ''data: '' @
      (lit ''{"type":"message_start","message":{"id":"'' @ lit i @ lit ''","type":"message","role":"assistant","model":"''
       @ m @ lit ''","content":[]}}'') @ event_end\<close>
    by (simp add: message_start_def)
  then show ?thesis by (rule event_run) (use assms in \<open>simp_all add: scan_run\<close>)
qed

lemma message_delta_data:
  "event_data message_delta = Some (JObj [(lit ''type'', JStr (lit ''message_delta'')),
     (lit ''delta'', JObj [(lit ''stop_reason'', JStr (lit ''end_turn'')), (lit ''stop_sequence'', JNull)]),
     (lit ''usage'', JObj [(lit ''output_tokens'', JInt 0)])])"
proof -
  have \<open>message_delta = lit ''data: '' @
      lit ''{"type":"message_delta","delta":{"stop_reason":"end_turn","stop_sequence":null},"usage":{"output_tokens":0}}'' @ event_end\<close>
    by (simp add: message_delta_def)
  then show ?thesis by (rule event_run) (simp_all add: scan_run)
qed

lemma event_texts:
  "scalars t \<Longrightarrow> event_text (content_delta t) = t"
  "plain m \<Longrightarrow> event_text (message_start ''msg_1'' m) = []"
  "event_text message_delta = []" "event_text stream_done = []"
proof -
  have "plain (lit ''msg_1'')" by (simp add: plain_def)
  then show "plain m \<Longrightarrow> event_text (message_start ''msg_1'' m) = []"
    by (simp add: event_text_def message_start_data field_def)
  show "scalars t \<Longrightarrow> event_text (content_delta t) = t"
    by (simp add: event_text_def content_delta_data field_def field_or_def)
  show "event_text message_delta = []" by (simp add: event_text_def message_delta_data field_def)
  have "event_data stream_done = None"
    by (rule event_run [of stream_done "lit ''[DONE]''"]) (simp_all add: scan_run stream_done_def)
  then show "event_text stream_done = []" by (simp add: event_text_def)
qed

lemma delta_content_ok:
  assumes "chunk_ok d"
  shows "delta_content d = Inr (field_or (chunk_delta d) ''content'' (JStr []))"
proof -
  have d: "is_dict d" "is_dict (chunk_delta d)" using assms by (simp_all add: chunk_ok_def)
  show ?thesis
  proof (cases "field d ''choices''")
    case None
    then show ?thesis
      using d(2) unfolding delta_content_def py_get_field [OF d(1)] chunk_delta_def by (simp add: field_or_def field_def)
  next
    case (Some j)
    with assms obtain c cs where c: "j = JArr (c # cs)" "is_dict c"
      unfolding chunk_ok_def by (auto split: json.splits list.splits)
    then have k: "chunk_delta d = field_or c ''delta'' (JObj [])" using Some by (simp add: chunk_delta_def)
    show ?thesis
      unfolding delta_content_def py_get_field [OF d(1)] Some option.case bindE_simps c(1) py_first_arr py_get_field [OF c(2)]
        field_or_def [symmetric] k [symmetric] unfolding field_or_def by (rule py_get_field [OF d(2)])
  qed
qed

lemma startswith_drop: "startswith l p \<Longrightarrow> l = p @ drop (length p) l"
  by (metis append_take_drop_id startswith_def)

lemma stream_line_ok:
  assumes "case line_chunk l of None \<Rightarrow> True | Some d \<Rightarrow> chunk_ok d" and "l \<noteq> lit ''data: [DONE]''"
  shows "stream_line l = Inr (Some (case line_chunk l of None \<Rightarrow> []
    | Some d \<Rightarrow> if chunk_text d = [] then [] else [content_delta (chunk_text d)]))"
proof (cases "startswith l (lit ''data: '')")
  case True
  have "l = lit ''data: '' @ drop 6 l" using startswith_drop [OF True] by (simp add: eval_nat_numeral)
  moreover have "lit ''data: [DONE]'' = lit ''data: '' @ lit ''[DONE]''" by simp
  ultimately have "drop 6 l \<noteq> lit ''[DONE]''" using assms(2) by metis
  moreover have "truthy (field_or (chunk_delta d) ''content'' (JStr [])) = (chunk_text d \<noteq> [])"
    "chunk_text d \<noteq> [] \<Longrightarrow> field_or (chunk_delta d) ''content'' (JStr []) = JStr (chunk_text d)" if "chunk_ok d" for d
    using that unfolding chunk_ok_def by (auto simp: field_or_def chunk_text_def split: option.splits json.splits)
  ultimately show ?thesis
    using assms(1) True by (auto simp: stream_line_def line_chunk_def Let_def delta_content_ok split: option.splits)
qed (simp add: stream_line_def line_chunk_def)

lemma stream_loop_ok:
  assumes "lines_ok ls" and "scalars (upstream_text ls)"
  shows "\<exists>evs. stream_loop ls = (evs, Inr ()) \<and> concat (map event_text evs) = upstream_text ls \<and> (\<forall>ev \<in> set evs. event_data ev \<noteq> None)"
  using assms
proof (induction ls)
  case (Cons l ls)
  show ?case
  proof (cases "l = lit ''data: [DONE]''")
    case True
    then have "stream_line l = Inr None" by (simp add: stream_line_def startswith_def)
    then show ?thesis by (simp add: True upstream_text_def)
  next
    case False
    define t where "t = (case line_chunk l of None \<Rightarrow> [] | Some d \<Rightarrow> chunk_text d)"
    from False have u: "upstream_text (l # ls) = t @ upstream_text ls" by (simp add: upstream_text_def t_def)
    from Cons.prems(2) have sc: "scalars t" "scalars (upstream_text ls)" unfolding u by (auto simp: scalars_def)
    from Cons.prems(1) False have ok: "case line_chunk l of None \<Rightarrow> True | Some d \<Rightarrow> chunk_ok d" "lines_ok ls"
      by (auto simp: lines_ok_def)
    have "stream_line l = Inr (Some (if t = [] then [] else [content_delta t]))"
      unfolding stream_line_ok [OF ok(1) False] t_def by (simp split: option.splits)
    moreover from Cons.IH [OF ok(2) sc(2)] obtain evs where "stream_loop ls = (evs, Inr ())"
      "concat (map event_text evs) = upstream_text ls" "\<forall>ev \<in> set evs. event_data ev \<noteq> None" by blast
    ultimately show ?thesis
      using u sc(1) by (intro exI [of _ "(if t = [] then [] else [content_delta t]) @ evs"])
        (simp add: event_texts(1) content_delta_data)
  qed
qed (simp add: upstream_text_def)


definition sample_stream :: upstream_reply where
  \<open>sample_stream = \<lparr>ur_status = 200, ur_json = Inl ValueError,
     ur_lines = [lit ''data: {"choices":[{"delta":{"content":"Hi"}}]}'', [], lit ''data: {'', lit ''data: [DONE]'', lit ''data: x''],
     ur_chunks = []\<rparr>\<close>

lemma sample_stream_lines:
  "lines_ok (ur_lines sample_stream)" "upstream_text (ur_lines sample_stream) = lit ''Hi''"
proof -
  have \<open>loads (lit ''{"choices":[{"delta":{"content":"Hi"}}]}'') =
      Some (JObj [(lit ''choices'', JArr [JObj [(lit ''delta'', JObj [(lit ''content'', JStr (lit ''Hi''))])]])])\<close>
    by (rule loads_run [of \<open>lit ''{"choices":[{"delta":{"content":"Hi"}}]}''\<close>]) (simp_all add: scan_run)
  then have a: \<open>line_chunk (lit ''data: {"choices":[{"delta":{"content":"Hi"}}]}'') =
      Some (JObj [(lit ''choices'', JArr [JObj [(lit ''delta'', JObj [(lit ''content'', JStr (lit ''Hi''))])]])])\<close>
    by (simp add: line_chunk_def startswith_def)
  have b: "line_chunk [] = None" by (simp add: line_chunk_def startswith_def)
  have "loads (lit ''{'') = None" by (rule loads_run [of "lit ''{''"]) (simp_all add: scan_run)
  then have c: "line_chunk (lit ''data: {'') = None" by (simp add: line_chunk_def startswith_def)
  have d: \<open>before_done (ur_lines sample_stream) = [lit ''data: {"choices":[{"delta":{"content":"Hi"}}]}'', [], lit ''data: {'']\<close>
    by (simp add: sample_stream_def)
  show "lines_ok (ur_lines sample_stream)" unfolding lines_ok_def d list.pred_inject a b c
    by (simp add: chunk_ok_def chunk_delta_def field_def field_or_def is_dict_def)
  show "upstream_text (ur_lines sample_stream) = lit ''Hi''" unfolding upstream_text_def d list.map a b c
    by (simp add: chunk_text_def chunk_delta_def field_def field_or_def)
qed

definition sample_stream_body :: json where
  "sample_stream_body = JObj [(lit ''stream'', JBool True), (lit ''messages'', JArr
     [JObj [(lit ''role'', JStr (lit ''user'')), (lit ''content'', JStr (lit ''Hello''))]])]"


section \<open>Aliases\<close>

text \<open>An alias table as the operator writes it into the environment.\<close>

definition alias_text :: "(ustr, ustr) dict \<Rightarrow> ustr" where
  "alias_text table = join [44] (map (\<lambda>(k, v). k @ 61 # v) table)"

definition alias_table_ok :: "(ustr, ustr) dict \<Rightarrow> bool" where
  "alias_table_ok table \<longleftrightarrow> dict_ok table \<and> list_all (\<lambda>(k, v). 44 \<notin> set k \<and> 61 \<notin> set k \<and> 44 \<notin> set v \<and> ustrip k = k \<and> ustrip v = v) table"

lemma alias_steps:
  assumes "alias_table_ok table" and "set (dict_keys acc) \<inter> set (dict_keys table) = {}"
  shows "foldl alias_step acc (map (\<lambda>(k, v). k @ 61 # v) table) = acc @ table"
  using assms
proof (induction table arbitrary: acc)
  case (Cons p table)
  obtain k v where p: "p = (k, v)" by fastforce
  from Cons.prems have kv: "61 \<notin> set k" "ustrip k = k" "ustrip v = v" "k \<notin> set (dict_keys acc)" "k \<notin> set (dict_keys table)"
    "alias_table_ok table" by (auto simp: alias_table_ok_def p)
  have "alias_step acc (k @ 61 # v) = acc @ [(k, v)]"
    using kv by (simp add: alias_step_def split_once_append dict_set_fresh)
  with Cons.IH [OF kv(6), of "acc @ [(k, v)]"] Cons.prems(2) kv(5) show ?case by (auto simp: p)
qed simp

text \<open>
  C32: an alias table survives the trip through the environment: writing it as comma-separated
  pairs and reading it back gives the table, in order, so the gateway lists the served model and
  then each alias once and sends every request for an alias to its target.
\<close>

theorem alias_roundtrip:
  assumes "alias_table_ok table" and "st_aliases_raw st = alias_text table"
  shows "model_aliases st = table \<and> get_models st = JArr (map (model_entry st) (st_served st # dict_keys table)) \<and>
    (\<forall>(k, v) \<in> set table. k \<noteq> [] \<longrightarrow> resolve_model st (JStr k) = Inr (JStr v))"
proof -
  have c: "\<forall>x \<in> set (map (\<lambda>(k, v). k @ 61 # v) table). 44 \<notin> set x"
    using assms(1) by (auto simp: alias_table_ok_def list_all_iff)
  have a: "model_aliases st = table"
  proof (cases "table = []")
    case False
    then have "split_on 44 (st_aliases_raw st) = map (\<lambda>(k, v). k @ 61 # v) table"
      unfolding assms(2) alias_text_def by (intro split_on_join c) simp
    then show ?thesis using alias_steps [OF assms(1), of "[]"] by (simp add: model_aliases_def)
  qed (simp add: model_aliases_def assms(2) alias_text_def alias_step_def)
  have "dict_ok table" using assms(1) by (simp add: alias_table_ok_def)
  then have "dict_get table k = Some v" if "(k, v) \<in> set table" for k v using that by (simp add: dict_get_iff_in)
  then show ?thesis by (auto simp: a get_models_def resolve_model_def)
qed

theorem alias_roundtrip_witness:
  "resolve_model (sample_settings\<lparr>st_aliases_raw := alias_text [(lit ''a'', lit ''m''), (lit ''b c'', lit ''n'')]\<rparr>) (JStr (lit ''b c'')) =
    Inr (JStr (lit ''n''))"
proof -
  have "alias_table_ok [(lit ''a'', lit ''m''), (lit ''b c'', lit ''n'')]"
    by (simp add: alias_table_ok_def ustrip_def uspace_def)
  from alias_roundtrip [OF this, of "sample_settings\<lparr>st_aliases_raw := alias_text [(lit ''a'', lit ''m''), (lit ''b c'', lit ''n'')]\<rparr>"]
  show ?thesis by simp
qed

section \<open>What the translations leave out\<close>

text \<open>
  The Messages format puts the system prompt into a field of its own. The translation does not read
  it: changing the field changes nothing upstream.
\<close>

lemma system_field_ignored:
  "translate_anthropic_to_openai st (JObj (dict_set (lit ''system'') v d)) = translate_anthropic_to_openai st (JObj d)"
  by (simp add: translate_anthropic_to_openai_def)

text \<open>A model name with a quotation mark makes the first event of a stream invalid.\<close>

lemma model_name_not_escaped: "event_data (message_start ''msg_1'' (lit ''a'' @ [34] @ lit ''b'')) = None"
proof -
  have \<open>message_start ''msg_1'' (lit ''a'' @ [34] @ lit ''b'') = lit ''data: '' @
      (lit ''{"type":"message_start","message":{"id":"msg_1","type":"message","role":"assistant","model":"''
       @ (lit ''a'' @ [34] @ lit ''b'') @ lit ''","content":[]}}'') @ event_end\<close>
    by (simp add: message_start_def)
  then show ?thesis by (rule event_run) (simp_all add: scan_run)
qed

text \<open>A finish reason for tool calls is passed on under its OpenAI name.\<close>

lemma tool_calls_not_translated: "stop_reason (JStr (lit ''tool_calls'')) = JStr (lit ''tool_calls'')"
  by (simp add: stop_reason_def)

text \<open>A message whose content is a list of blocks counts its blocks, not its characters.\<close>

lemma count_tokens_counts_blocks:
  "count_tokens (JObj [(lit ''messages'', JArr [JObj [(lit ''content'', JArr [block])]])]) =
     Inr (JObj [(lit ''input_tokens'', JInt 1)])"
  by (simp add: count_tokens_def py_size_def)

end
