(* ===== verification/Anthropic_Proxy.thy ===== *)
theory Anthropic_Proxy
  imports Gateway
begin

text \<open>
  The stand-alone translation proxy (\<^verbatim>\<open>scripts/anthropic_proxy.py\<close>). It shares the shape of
  the gateway's Anthropic endpoint and differs in details: text blocks are joined by line breaks,
  \<^verbatim>\<open>top_k\<close> and stop sequences are sent only if present, tool calls have a stop reason, upstream
  failures become HTTP errors, and the stream arrives as lines of bytes.
\<close>

section \<open>Translation\<close>

definition extract_system :: "json \<Rightarrow> (json \<times> json list) res" where
  "extract_system messages = bindE (py_list messages) split_system"

definition translate_messages :: "json list \<Rightarrow> json list res" where
  "translate_messages ms = mapE (openai_message [10]) ms"

definition copy_if_present :: "string \<Rightarrow> string \<Rightarrow> json \<Rightarrow> (ustr, json) dict \<Rightarrow> (ustr, json) dict" where
  "copy_if_present k k' body d = (case field body k of None \<Rightarrow> d | Some v \<Rightarrow> dict_set (lit k') v d)"

definition build_openai_payload :: "json \<Rightarrow> json res" where
  "build_openai_payload body =
     bindE (py_get body (lit ''messages'') (JArr [])) (\<lambda>messages.
     bindE (extract_system messages) (\<lambda>(system, remaining).
     bindE (translate_messages remaining) (\<lambda>ms.
     bindE (py_get body (lit ''model'') (JStr (lit ''deepseek-v4-flash''))) (\<lambda>model.
     bindE (py_get body (lit ''max_tokens'') (JInt 1024)) (\<lambda>max_tokens.
     bindE (py_get body (lit ''temperature'') (JFloat 10 (- 1))) (\<lambda>temperature.
     bindE (py_get body (lit ''top_p'') (JFloat 10 (- 1))) (\<lambda>top_p.
     bindE (py_get body (lit ''stream'') (JBool False)) (\<lambda>stream.
       Inr (JObj (copy_if_present ''stop_sequences'' ''stop'' body (copy_if_present ''top_k'' ''top_k'' body
         [(lit ''model'', model), (lit ''messages'', JArr (add_system system ms)), (lit ''max_tokens'', max_tokens),
          (lit ''temperature'', temperature), (lit ''top_p'', top_p), (lit ''stream'', stream)])))))))))))"

definition proxy_stop_reason :: "json option \<Rightarrow> json" where
  "proxy_stop_reason finish = (case finish of
     None \<Rightarrow> JStr (lit ''end_turn'')
   | Some f \<Rightarrow> if f = JStr (lit ''stop'') then JStr (lit ''end_turn'')
       else if f = JStr (lit ''length'') then JStr (lit ''max_tokens'')
       else if f = JStr (lit ''tool_calls'') then JStr (lit ''tool_use'') else f)"

definition translate_response :: "json \<Rightarrow> json \<Rightarrow> json res" where
  "translate_response data model =
     bindE (py_get data (lit ''choices'') (JArr [JObj []])) (\<lambda>choices.
     bindE (py_first choices) (\<lambda>choice.
     bindE (py_get choice (lit ''message'') (JObj [])) (\<lambda>message.
     bindE (py_get data (lit ''usage'') (JObj [])) (\<lambda>usage.
     bindE (py_get data (lit ''id'') (JStr [])) (\<lambda>i.
     bindE (py_get message (lit ''content'') (JStr [])) (\<lambda>text.
     bindE (usage_counts usage) (\<lambda>counts.
       Inr (JObj [(lit ''id'', i), (lit ''type'', JStr (lit ''message'')), (lit ''role'', JStr (lit ''assistant'')),
         (lit ''model'', model), (lit ''content'', text_content (lit ''text'') text),
         (lit ''stop_reason'', proxy_stop_reason (field choice ''finish_reason'')),
         (lit ''stop_sequence'', JNull), (lit ''usage'', counts)]))))))))"

section \<open>Endpoints\<close>

text \<open>Outcomes of a request to the upstream server, and of the handler.\<close>

datatype request_exc = ReqTimeout | ReqConnectionError | ReqOther

record proxy_reply =
  pr_status :: int
  pr_json :: "json option"
  pr_lines :: "nat list list"

datatype proxy_result =
    ProxyJson json
  | ProxyEvents "ustr list \<times> unit res"
  | HttpError int
  | Raises py_exc
  | RaisesRequest request_exc

text \<open>Lines are bytes: empty ones are skipped, the others decoded, which may fail.\<close>

fun proxy_stream_loop :: "nat list list \<Rightarrow> ustr list \<times> unit res" where
  "proxy_stream_loop [] = ([], Inr ())"
| "proxy_stream_loop (b # rest) =
     (if b = [] then proxy_stream_loop rest
      else (case utf8_decode b of
          None \<Rightarrow> ([], Inl ValueError)
        | Some line \<Rightarrow> (case stream_line line of
              Inl e \<Rightarrow> ([], Inl e)
            | Inr None \<Rightarrow> ([], Inr ())
            | Inr (Some evs) \<Rightarrow> (let (more, r) = proxy_stream_loop rest in (evs @ more, r)))))"

definition handle_messages ::
  "(json \<Rightarrow> ustr) \<Rightarrow> (json \<Rightarrow> request_exc + proxy_reply) \<Rightarrow> json \<Rightarrow> proxy_result" where
  "handle_messages shw post body =
     (case bindE (py_get body (lit ''model'') (JStr (lit ''deepseek-v4-flash''))) (\<lambda>model.
           bindE (py_get body (lit ''stream'') (JBool False)) (\<lambda>stream.
           bindE (build_openai_payload body) (\<lambda>payload. Inr (model, stream, payload)))) of
        Inl e \<Rightarrow> Raises e
      | Inr (model, stream, payload) \<Rightarrow>
          if truthy stream then
            (case py_setitem payload (lit ''stream'') (JBool True) of Inl e \<Rightarrow> Raises e
             | Inr payload \<Rightarrow> (case post payload of Inl x \<Rightarrow> RaisesRequest x
                 | Inr resp \<Rightarrow> ProxyEvents (stream_events ''msg_placeholder'' (py_str shw model) (proxy_stream_loop (pr_lines resp)))))
          else
            (case post payload of
               Inl ReqTimeout \<Rightarrow> HttpError 504
             | Inl ReqConnectionError \<Rightarrow> HttpError 502
             | Inl ReqOther \<Rightarrow> RaisesRequest ReqOther
             | Inr resp \<Rightarrow>
                 if 400 \<le> pr_status resp \<and> pr_status resp < 600 then HttpError 502
                 else (case pr_json resp of None \<Rightarrow> RaisesRequest ReqOther
                       | Some data \<Rightarrow> (case translate_response data model of Inl e \<Rightarrow> Raises e | Inr j \<Rightarrow> ProxyJson j))))"

definition proxy_health :: "ustr + int \<Rightarrow> json" where
  "proxy_health reply = (case reply of
     Inr status \<Rightarrow> JObj [(lit ''status'', JStr (lit ''ok'')), (lit ''upstream'', JBool (status = 200))]
   | Inl detail \<Rightarrow> JObj [(lit ''status'', JStr (lit ''error'')), (lit ''detail'', JStr detail)])"

definition proxy_list_models :: "json option \<Rightarrow> proxy_result" where
  "proxy_list_models reply = (case reply of Some j \<Rightarrow> ProxyJson j | None \<Rightarrow> HttpError 502)"

section \<open>Proxy and gateway\<close>

text \<open>
  The stream of the proxy is that of the gateway on the decoded lines: the empty lines that the
  proxy skips carry no data for the gateway either.
\<close>

lemma proxy_stream_is_gateway_stream:
  "mapE (\<lambda>b. case utf8_decode b of None \<Rightarrow> Inl ValueError | Some l \<Rightarrow> Inr l) bs = Inr ls \<Longrightarrow>
     proxy_stream_loop bs = stream_loop ls"
proof (induction bs arbitrary: ls)
  case (Cons b bs)
  then obtain l ls' where l: "utf8_decode b = Some l" "ls = l # ls'"
    "mapE (\<lambda>b. case utf8_decode b of None \<Rightarrow> Inl ValueError | Some l \<Rightarrow> Inr l) bs = Inr ls'"
    by (auto simp: bindE_Inr_iff split: option.splits)
  show ?case
  proof (cases "b = []")
    case True
    with l have "l = []" by simp
    then have "stream_line l = Inr (Some [])" by (simp add: stream_line_def startswith_def)
    with Cons.IH [OF l(3)] True l(2) show ?thesis by (auto split: prod.splits)
  next
    case False
    then show ?thesis
      unfolding l(2) proxy_stream_loop.simps stream_loop.simps Cons.IH [OF l(3)] using l(1) by simp
  qed
qed simp

lemma build_payload:
  assumes "request_ok body"
  shows "\<exists>d. build_openai_payload body = Inr (JObj d) \<and> dict_get d (lit ''messages'') = Some (JArr (map chat_turn (turns_of [10] (messages_of body))))"
proof -
  have d: "is_dict body" using assms by (simp add: request_ok_def)
  from translated_messages [OF assms, of "[10]"] obtain system rest ms where
    t: "bindE (py_get body (lit ''messages'') (JArr [])) py_list = Inr (messages_of body)"
    "split_system (messages_of body) = Inr (system, rest)" "mapE (openai_message [10]) rest = Inr ms"
    "add_system system ms = map chat_turn (turns_of [10] (messages_of body))" by blast
  have m: "py_list (field_or body ''messages'' (JArr [])) = Inr (messages_of body)"
    using t(1) unfolding py_get_field [OF d] field_or_def [symmetric] by simp
  show ?thesis
    unfolding build_openai_payload_def extract_system_def translate_messages_def py_get_field [OF d] field_or_def [symmetric]
      bindE_simps m t(2) prod.case t(3) t(4) by (simp add: copy_if_present_def split: option.splits)
qed

lemma translate_response_ok:
  assumes "completion_of data = Some (t, finish)"
  shows "\<exists>r. translate_response data model = Inr r \<and> (\<exists>f. answer_of r = Some (t, proxy_stop_reason f) \<and> (f = None \<or> f = Some finish)) \<and>
    field r ''model'' = Some model"
proof -
  from assms obtain c cs m where
    f: "field data ''choices'' = Some (JArr (c # cs))" "field c ''message'' = Some m" "field m ''content'' = Some (JStr t)"
    "is_dict (field_or data ''usage'' (JObj []))" "finish = field_or c ''finish_reason'' JNull"
    unfolding completion_of_def by (auto split: option.splits json.splits list.splits if_splits)
  note d = field_is_dict [OF f(1)] field_is_dict [OF f(2)] field_is_dict [OF f(3)]
  have "field c ''finish_reason'' = None \<or> field c ''finish_reason'' = Some finish"
    using f(5) by (cases "field c ''finish_reason''") (simp_all add: field_or_def)
  then show ?thesis
    unfolding translate_response_def usage_counts_def py_get_field [OF d(1)] f(1) option.case bindE_simps py_first_arr
      py_get_field [OF d(2)] f(2) py_get_field [OF d(3)] f(3) field_or_def [symmetric] py_get_field [OF f(4)]
    by (intro exI conjI) (auto simp: answer_of_def field_def field_or_def text_content_def)
qed



end
