(* ===== verification/Swa_Allocator.thy ===== *)
theory Swa_Allocator
  imports Kv_Allocator Tensors
begin

text \<open>
  The allocator of models with sliding-window layers, \<^verbatim>\<open>SWATokenToKVPoolAllocator\<close> of
  \<^verbatim>\<open>sglang/srt/mem_cache/swa_memory_pool.py\<close>. It keeps a slot allocator for the layers with full
  attention, one for the window layers, and a tensor that maps the slots of the first to those of
  the second. The tensor is shared with the device pool, which translates slots through it.
\<close>

section \<open>State\<close>

record swa_allocator =
  sw_page_size :: int
  sw_full :: allocator
  sw_swa :: allocator
  sw_map :: "int list"
  sw_not_in_free_group :: bool
  sw_free_group :: "kv_index list list"

text \<open>
  The inner allocators are token allocators when the page size is one and paged ones otherwise.
  They are never in a free group of their own.
\<close>

definition attn_init :: "int \<Rightarrow> int \<Rightarrow> bool \<Rightarrow> allocator" where
  "attn_init sz ps srt = (if ps = 1 then token_init sz srt else paged_init sz ps srt)"

definition attn_clear :: "allocator \<Rightarrow> allocator" where
  "attn_clear a = (if page_size a = 1 then token_clear a else paged_clear a)"

definition attn_available_size :: "allocator \<Rightarrow> int" where
  "attn_available_size a = (if page_size a = 1 then token_available_size a else base_available_size a)"

definition attn_free :: "kv_index list \<Rightarrow> allocator \<Rightarrow> allocator" where
  "attn_free v a = (if page_size a = 1 then token_free v a else paged_free v a)"

definition swa_clear :: "swa_allocator \<Rightarrow> swa_allocator" where
  "swa_clear s = s\<lparr>sw_swa := attn_clear (sw_swa s), sw_full := attn_clear (sw_full s),
     sw_map := replicate (length (sw_map s) - 1) 0 @ drop (length (sw_map s) - 1) (sw_map s),
     sw_not_in_free_group := True, sw_free_group := []\<rparr>"

definition swa_init :: "int \<Rightarrow> int \<Rightarrow> int \<Rightarrow> bool \<Rightarrow> swa_allocator" where
  "swa_init sz size_swa ps srt = swa_clear
     \<lparr>sw_page_size = ps, sw_full = attn_init sz ps srt, sw_swa = attn_init size_swa ps srt,
      sw_map = replicate (nat (sz + ps)) 0 @ [-1], sw_not_in_free_group = True, sw_free_group = []\<rparr>"

definition swa_available_size :: "swa_allocator \<Rightarrow> int" where
  "swa_available_size s = min (attn_available_size (sw_full s)) (attn_available_size (sw_swa s))"

definition swa_size :: "swa_allocator \<Rightarrow> int" where
  "swa_size s = min (pool_size (sw_full s)) (pool_size (sw_swa s))"

definition swa_translate_loc :: "swa_allocator \<Rightarrow> kv_index list \<Rightarrow> kv_index list res" where
  "swa_translate_loc s kv_indices = gather (sw_map s) kv_indices"

section \<open>Allocation\<close>

text \<open>\<^verbatim>\<open>full_to_swa_index_mapping[full] = swa\<close>, and the value that the allocation returns.\<close>

definition record_mapping ::
  "kv_index list \<Rightarrow> kv_index list \<Rightarrow> kv_index list \<Rightarrow> swa_allocator \<Rightarrow> kv_index list option res \<times> swa_allocator" where
  "record_mapping out full_idx swa_idx s = (case scatter (sw_map s) full_idx swa_idx of
      Inl e \<Rightarrow> (Inl e, s) | Inr m \<Rightarrow> (Inr (Some out), s\<lparr>sw_map := m\<rparr>))"

definition both_allocated ::
  "kv_index list option \<Rightarrow> kv_index list option \<Rightarrow> swa_allocator \<Rightarrow> kv_index list option res \<times> swa_allocator" where
  "both_allocated f w s = (case (f, w) of
      (Some full_idx, Some swa_idx) \<Rightarrow> record_mapping full_idx full_idx swa_idx s
    | _ \<Rightarrow> (Inl AssertionError, s))"

definition swa_alloc :: "nat \<Rightarrow> swa_allocator \<Rightarrow> kv_index list option res \<times> swa_allocator" where
  "swa_alloc need_size s =
     (if sw_page_size s \<noteq> 1 then (Inl AssertionError, s)
      else if attn_available_size (sw_full s) < int need_size then (Inr None, s)
      else if attn_available_size (sw_swa s) < int need_size then (Inr None, s)
      else let (f, full) = token_alloc need_size (sw_full s); (w, swa) = token_alloc need_size (sw_swa s)
           in both_allocated f w (s\<lparr>sw_full := full, sw_swa := swa\<rparr>))"

text \<open>
  What a kernel launch leaves open: the order of the program instances, the old content of the
  output and what a load outside the list of pages yields.
\<close>

type_synonym kernel_env = "nat list \<times> mem \<times> (int \<Rightarrow> int)"

definition extend_in :: "kernel_env \<Rightarrow> int list \<Rightarrow> int list \<Rightarrow> int list \<Rightarrow> nat \<Rightarrow> int option \<Rightarrow> allocator
    \<Rightarrow> kv_index list option res \<times> allocator" where
  "extend_in env = (case env of (order, uninit, oob) \<Rightarrow> paged_alloc_extend order uninit oob)"

definition decode_in :: "kernel_env \<Rightarrow> int list \<Rightarrow> int list \<Rightarrow> allocator \<Rightarrow> kv_index list option res \<times> allocator" where
  "decode_in env = (case env of (order, uninit, oob) \<Rightarrow> paged_alloc_decode order uninit oob)"

definition swa_alloc_extend ::
  "kernel_env \<Rightarrow> kernel_env \<Rightarrow> int list \<Rightarrow> int list \<Rightarrow> int list \<Rightarrow> nat \<Rightarrow> swa_allocator
     \<Rightarrow> kv_index list option res \<times> swa_allocator" where
  "swa_alloc_extend env_full env_swa prefix_lens seq_lens last_loc extend_num_tokens s =
     (let ps = sw_page_size s in
      if \<not> 1 < ps then (Inl AssertionError, s)
      else case get_num_new_pages ps seq_lens (Some prefix_lens) False of
        Inl e \<Rightarrow> (Inl e, s)
      | Inr num_new_pages \<Rightarrow>
          if attn_available_size (sw_full s) div ps < num_new_pages then (Inr None, s)
          else if attn_available_size (sw_swa s) div ps < num_new_pages then (Inr None, s)
          else case swa_translate_loc s last_loc of
            Inl e \<Rightarrow> (Inl e, s)
          | Inr swa_last_loc \<Rightarrow>
              (case extend_in env_full prefix_lens seq_lens last_loc extend_num_tokens (Some num_new_pages) (sw_full s) of
                 (Inl e, full) \<Rightarrow> (Inl e, s\<lparr>sw_full := full\<rparr>)
               | (Inr f, full) \<Rightarrow>
                   (case extend_in env_swa prefix_lens seq_lens swa_last_loc extend_num_tokens (Some num_new_pages) (sw_swa s) of
                      (Inl e, swa) \<Rightarrow> (Inl e, s\<lparr>sw_full := full, sw_swa := swa\<rparr>)
                    | (Inr w, swa) \<Rightarrow> both_allocated f w (s\<lparr>sw_full := full, sw_swa := swa\<rparr>))))"

definition swa_alloc_extend_tail ::
  "kernel_env \<Rightarrow> kernel_env \<Rightarrow> int list \<Rightarrow> int list \<Rightarrow> int list \<Rightarrow> nat \<Rightarrow> int \<Rightarrow> swa_allocator
     \<Rightarrow> kv_index list option res \<times> swa_allocator" where
  "swa_alloc_extend_tail env_full env_swa prefix_lens seq_lens last_loc extend_num_tokens swa_tail_len s =
     (let ps = sw_page_size s in
      if \<not> 1 < ps then (Inl AssertionError, s)
      else if length seq_lens \<noteq> 1 then (Inl AssertionError, s)
      else if length prefix_lens \<noteq> 1 then (Inl AssertionError, s)
      else if \<not> (0 \<le> swa_tail_len \<and> swa_tail_len \<le> int extend_num_tokens) then (Inl AssertionError, s)
      else case get_num_new_pages ps seq_lens (Some prefix_lens) False of
        Inl e \<Rightarrow> (Inl e, s)
      | Inr num_full_pages \<Rightarrow>
          let num_swa_pages = (swa_tail_len + ps - 1) div ps in
          if attn_available_size (sw_full s) div ps < num_full_pages then (Inr None, s)
          else if attn_available_size (sw_swa s) div ps < num_swa_pages then (Inr None, s)
          else case extend_in env_full prefix_lens seq_lens last_loc extend_num_tokens None (sw_full s) of
            (Inl e, full) \<Rightarrow> (Inl e, s\<lparr>sw_full := full\<rparr>)
          | (Inr None, full) \<Rightarrow> (Inl AssertionError, s\<lparr>sw_full := full\<rparr>)
          | (Inr (Some f), full) \<Rightarrow>
              if swa_tail_len = 0 then (Inr (Some f), s\<lparr>sw_full := full\<rparr>)
              else (case extend_in env_swa [0] [swa_tail_len] [-1] (nat swa_tail_len) None (sw_swa s) of
                  (Inl e, swa) \<Rightarrow> (Inl e, s\<lparr>sw_full := full, sw_swa := swa\<rparr>)
                | (Inr None, swa) \<Rightarrow> (Inl AssertionError, s\<lparr>sw_full := full, sw_swa := swa\<rparr>)
                | (Inr (Some w), swa) \<Rightarrow>
                    record_mapping f (drop (length f - nat swa_tail_len) f) w (s\<lparr>sw_full := full, sw_swa := swa\<rparr>)))"

definition swa_alloc_decode ::
  "kernel_env \<Rightarrow> kernel_env \<Rightarrow> int list \<Rightarrow> int list \<Rightarrow> swa_allocator \<Rightarrow> kv_index list option res \<times> swa_allocator" where
  "swa_alloc_decode env_full env_swa seq_lens last_loc s =
     (if \<not> 1 < sw_page_size s then (Inl AssertionError, s)
      else case swa_translate_loc s last_loc of
        Inl e \<Rightarrow> (Inl e, s)
      | Inr swa_last_loc \<Rightarrow>
          (case decode_in env_full seq_lens last_loc (sw_full s) of
             (Inl e, full) \<Rightarrow> (Inl e, s\<lparr>sw_full := full\<rparr>)
           | (Inr f, full) \<Rightarrow>
               (case decode_in env_swa seq_lens swa_last_loc (sw_swa s) of
                  (Inl e, swa) \<Rightarrow> (Inl e, s\<lparr>sw_full := full, sw_swa := swa\<rparr>)
                | (Inr w, swa) \<Rightarrow>
                    let s1 = s\<lparr>sw_full := full, sw_swa := swa\<rparr>
                    in if f = None \<or> w = None then (Inr None, s1) else both_allocated f w s1)))"

text \<open>
  The length of the tail that a preallocation for decoding asks for (\<^verbatim>\<open>_swa_tail_len\<close> of
  \<^verbatim>\<open>disaggregation/decode.py\<close>); \<open>prealloc\<close> is \<^verbatim>\<open>_uses_swa_tail_prealloc\<close>.
\<close>

definition swa_tail_len :: "bool \<Rightarrow> int option \<Rightarrow> int \<Rightarrow> int \<Rightarrow> int" where
  "swa_tail_len prealloc window ps seq_len =
     (if \<not> prealloc \<or> seq_len \<le> 0 then max seq_len 0
      else case window of None \<Rightarrow> seq_len
      | Some window_size \<Rightarrow>
          if window_size \<le> 0 then seq_len
          else let window_start = max 0 (seq_len - window_size) div ps * ps in seq_len - window_start)"

section \<open>Release\<close>

definition free_swa :: "kv_index list \<Rightarrow> swa_allocator \<Rightarrow> unit res \<times> swa_allocator" where
  "free_swa free_index s = (case gather (sw_map s) free_index of
      Inl e \<Rightarrow> (Inl e, s)
    | Inr idx \<Rightarrow>
        (let swa_indices = filter (\<lambda>i. 0 < i) idx;
             s1 = s\<lparr>sw_swa := attn_free swa_indices (sw_swa s)\<rparr>
         in case scatter (sw_map s1) free_index (replicate (length free_index) 0) of
              Inl e \<Rightarrow> (Inl e, s1) | Inr m \<Rightarrow> (Inr (), s1\<lparr>sw_map := m\<rparr>)))"

definition check_sizes :: "swa_allocator \<Rightarrow> unit res" where
  "check_sizes s =
     (if \<not> attn_available_size (sw_full s) \<le> pool_size (sw_full s) then Inl AssertionError
      else if \<not> attn_available_size (sw_swa s) \<le> pool_size (sw_swa s) then Inl AssertionError
      else Inr ())"

definition swa_free :: "kv_index list \<Rightarrow> swa_allocator \<Rightarrow> unit res \<times> swa_allocator" where
  "swa_free free_index s =
     (if free_index = [] then (Inr (), s)
      else let (r, s1) = (if sw_not_in_free_group s
             then free_swa free_index (s\<lparr>sw_full := attn_free free_index (sw_full s)\<rparr>)
             else (Inr (), s\<lparr>sw_free_group := sw_free_group s @ [free_index]\<rparr>))
           in case r of Inl e \<Rightarrow> (Inl e, s1) | Inr _ \<Rightarrow> (check_sizes s1, s1))"

definition swa_free_group_begin :: "swa_allocator \<Rightarrow> swa_allocator" where
  "swa_free_group_begin s = s\<lparr>sw_not_in_free_group := False, sw_free_group := []\<rparr>"

definition swa_free_group_end :: "swa_allocator \<Rightarrow> unit res \<times> swa_allocator" where
  "swa_free_group_end s =
     (let s1 = s\<lparr>sw_not_in_free_group := True\<rparr>
      in if sw_free_group s1 \<noteq> [] then swa_free (concat (sw_free_group s1)) s1 else (Inr (), s1))"

definition set_full_to_swa_mapping :: "kv_index list \<Rightarrow> kv_index list \<Rightarrow> swa_allocator \<Rightarrow> unit res \<times> swa_allocator" where
  "set_full_to_swa_mapping full_indices swa_indices s =
     (if full_indices = [] then (Inr (), s)
      else if length full_indices \<noteq> length swa_indices then (Inl AssertionError, s)
      else case scatter (sw_map s) full_indices swa_indices of
        Inl e \<Rightarrow> (Inl e, s) | Inr m \<Rightarrow> (Inr (), s\<lparr>sw_map := m\<rparr>))"

definition swa_backup_state :: "swa_allocator \<Rightarrow> (int list \<times> int list) list" where
  "swa_backup_state s = [backup_state (sw_full s), backup_state (sw_swa s)]"

definition swa_restore_state :: "(int list \<times> int list) list \<Rightarrow> swa_allocator \<Rightarrow> unit res \<times> swa_allocator" where
  "swa_restore_state st s =
     (if length st \<noteq> 2 then (Inl AssertionError, s)
      else (Inr (), s\<lparr>sw_full := restore_state (st ! 0) (sw_full s), sw_swa := restore_state (st ! 1) (sw_swa s)\<rparr>))"

section \<open>The pages of a launch\<close>

text \<open>
  A position of a batch lies on the partly filled last page of a request, or on one of the new
  pages. Which one depends on the lengths alone, not on the pool the pages come from.
\<close>

type_synonym page_tag = "nat + int"

definition tag_ok :: "int \<Rightarrow> int list \<Rightarrow> int list \<Rightarrow> page_tag \<Rightarrow> bool" where
  "tag_ok ps pre_lens seq_lens t = (case t of
      Inl i \<Rightarrow> i < length seq_lens \<and> pre_lens ! i mod ps \<noteq> 0
    | Inr q \<Rightarrow> 0 \<le> q \<and> q < page_start ps seq_lens pre_lens (length seq_lens))"

definition tag_page :: "int \<Rightarrow> int list \<Rightarrow> int list \<Rightarrow> page_tag \<Rightarrow> int" where
  "tag_page ps last_loc pages t = (case t of Inl i \<Rightarrow> last_loc ! i div ps | Inr q \<Rightarrow> pages ! nat q)"

lemma launch_tag:
  assumes ps: "0 < ps" and lens: "lens_ok pre_lens seq_lens"
    and a: "0 \<le> a" "a < ext_start seq_lens pre_lens (length seq_lens)"
  shows "\<exists>t off. tag_ok ps pre_lens seq_lens t \<and>
    (\<forall>order uninit oob pages last_loc. set order = {..<length seq_lens} \<longrightarrow> batch_ok ps pre_lens seq_lens last_loc \<longrightarrow>
       page_start ps seq_lens pre_lens (length seq_lens) \<le> int (length pages) \<longrightarrow>
       launch order uninit oob ps pages pre_lens seq_lens last_loc a div ps = tag_page ps last_loc pages t \<and>
       launch order uninit oob ps pages pre_lens seq_lens last_loc a mod ps = off)"
proof -
  obtain i where i: "i < length seq_lens" "in_request pre_lens seq_lens i a"
    using in_request_exists [OF lens a] by auto
  define x where "x = a - ext_start seq_lens pre_lens i"
  have x: "0 \<le> x" "x < seq_lens ! i - pre_lens ! i" and e: "ext_start seq_lens pre_lens i + x = a"
    using i(2) by (auto simp: x_def)
  have le: "pre_lens ! i \<le> seq_lens ! i" using lens i(1) by (simp add: lens_ok_def)
  let ?f = "fill_at ps pre_lens seq_lens i"
  let ?q = "page_start ps seq_lens pre_lens i + (x - ?f) div ps"
  define t :: page_tag where "t = (if x < ?f then Inl i else Inr ?q)"
  have part: "pre_lens ! i mod ps \<noteq> 0" if "x < ?f" using that x(1) fill_len_zero [OF ps _ le] by force
  have new: "0 \<le> (x - ?f) div ps" "(x - ?f) div ps < pages_upto ps (seq_lens ! i) - pages_upto ps (pre_lens ! i)"
    if "\<not> x < ?f" using new_page_index [OF ps le _ x(2)] that by auto
  have "tag_ok ps pre_lens seq_lens t"
  proof (cases "x < ?f")
    case True
    then show ?thesis using i(1) part by (simp add: t_def tag_ok_def)
  next
    case False
    from new_page_loaded(2,3) [OF ps lens i(1) new [OF False], of "replicate (nat (page_start ps seq_lens pre_lens (length seq_lens))) 0"]
    show ?thesis using False by (simp add: t_def tag_ok_def)
  qed
  moreover have "launch order uninit oob ps pages pre_lens seq_lens last_loc a div ps = tag_page ps last_loc pages t \<and>
      launch order uninit oob ps pages pre_lens seq_lens last_loc a mod ps = (pre_lens ! i + x) mod ps"
    if "set order = {..<length seq_lens}" "batch_ok ps pre_lens seq_lens last_loc"
      "page_start ps seq_lens pre_lens (length seq_lens) \<le> int (length pages)" for order uninit oob pages last_loc
  proof -
    note sl = launch_slot [where uninit = uninit and oob = oob and pages = pages, OF ps that(2,1) i(1) x refl, unfolded e]
    show ?thesis
    proof (cases "x < ?f")
      case True
      then have "tag_page ps last_loc pages t = last_loc ! i div ps" by (simp add: t_def tag_page_def)
      then show ?thesis using sl(1) conjunct2 [OF sl(2) [OF True]] by (simp only: simp_thms)
    next
      case False
      with sl(1,3) new_page_loaded(1) [OF ps lens i(1) new [OF False] that(3)]
      show ?thesis by (simp add: t_def tag_page_def)
    qed
  qed
  ultimately show ?thesis by blast
qed

lemma tag_page_eq_iff:
  assumes "own_last_pages ps pre_lens last_loc pages" and "distinct pages" and "length pre_lens = length seq_lens"
    and room: "page_start ps seq_lens pre_lens (length seq_lens) \<le> int (length pages)"
    and "tag_ok ps pre_lens seq_lens t" and "tag_ok ps pre_lens seq_lens u"
  shows "tag_page ps last_loc pages t = tag_page ps last_loc pages u \<longleftrightarrow> t = u"
proof -
  have new: "pages ! nat q \<in> set pages" if "tag_ok ps pre_lens seq_lens (Inr q)" for q
    using that room by (intro nth_mem) (simp add: tag_ok_def nat_less_iff)
  have "q = r" if "tag_ok ps pre_lens seq_lens (Inr q)" "tag_ok ps pre_lens seq_lens (Inr r)" "pages ! nat q = pages ! nat r" for q r
    using that room assms(2) by (auto simp: tag_ok_def nth_eq_iff_index_eq nat_less_iff)
  note inr = this
  have old: "last_loc ! i div ps \<notin> set pages" if "tag_ok ps pre_lens seq_lens (Inl i)" for i
    using that assms(1,3) by (simp add: tag_ok_def own_last_pages_def)
  have inl: "i = j" if "tag_ok ps pre_lens seq_lens (Inl i)" "tag_ok ps pre_lens seq_lens (Inl j)"
      "last_loc ! i div ps = last_loc ! j div ps" for i j
    using that assms(1,3) by (auto simp: tag_ok_def own_last_pages_def)
  have mixed: "last_loc ! i div ps \<noteq> pages ! nat q"
    if "tag_ok ps pre_lens seq_lens (Inl i)" "tag_ok ps pre_lens seq_lens (Inr q)" for i q
    using old [OF that(1)] new [OF that(2)] by metis
  have "t = u" if "tag_page ps last_loc pages t = tag_page ps last_loc pages u"
  proof (cases t; cases u)
    fix i j assume "t = Inl i" "u = Inl j"
    then show ?thesis using that inl [of i j] assms(5,6) by (simp add: tag_page_def)
  next
    fix i q assume "t = Inl i" "u = Inr q"
    then show ?thesis using that mixed [of i q] assms(5,6) by (simp add: tag_page_def)
  next
    fix q i assume "t = Inr q" "u = Inl i"
    then show ?thesis using that mixed [of i q] assms(5,6) by (simp add: tag_page_def)
  next
    fix q r assume "t = Inr q" "u = Inr r"
    then show ?thesis using that inr [of q r] assms(5,6) by (simp add: tag_page_def)
  qed
  then show ?thesis by blast
qed

text \<open>The slot before a prefix that ends at a page boundary does not matter.\<close>

definition norm_last :: "int \<Rightarrow> int list \<Rightarrow> int list \<Rightarrow> int list" where
  "norm_last ps pre_lens last_loc =
     map (\<lambda>i. if pre_lens ! i mod ps = 0 then -1 else last_loc ! i) [0..<length pre_lens]"

lemma launch_norm_last:
  assumes ps: "0 < ps" and lens: "lens_ok pre_lens seq_lens" and order: "set order = {..<length seq_lens}"
    and a: "0 \<le> a" "a < ext_start seq_lens pre_lens (length seq_lens)"
  shows "launch order uninit oob ps pages pre_lens seq_lens last_loc a =
    launch order uninit oob ps pages pre_lens seq_lens (norm_last ps pre_lens last_loc) a"
proof -
  obtain i where i: "i < length seq_lens" "in_request pre_lens seq_lens i a"
    using in_request_exists [OF lens a] by auto
  have le: "pre_lens ! i \<le> seq_lens ! i" and len: "i < length pre_lens" using lens i(1) by (auto simp: lens_ok_def)
  show ?thesis
  proof (cases "pre_lens ! i mod ps = 0")
    case True
    then have "fill_at ps pre_lens seq_lens i = 0" by (rule fill_len_zero [OF ps _ le])
    with i(2) show ?thesis unfolding launch_at [OF ps lens order i] by (simp add: extend_loc_def)
  next
    case False
    then have "norm_last ps pre_lens last_loc ! i = last_loc ! i" using len by (simp add: norm_last_def)
    then show ?thesis unfolding launch_at [OF ps lens order i] by simp
  qed
qed

lemma batch_ok_norm_last:
  assumes "0 < ps" and "lens_ok pre_lens seq_lens"
    and "\<forall>i < length seq_lens. pre_lens ! i mod ps \<noteq> 0 \<longrightarrow> (last_loc ! i + 1) mod ps = pre_lens ! i mod ps"
  shows "batch_ok ps pre_lens seq_lens (norm_last ps pre_lens last_loc)"
  using assms by (simp add: batch_ok_def norm_last_def lens_ok_def)

section \<open>Slots in lockstep\<close>

text \<open>The window slot of a full slot, where it has one.\<close>

definition swa_slot :: "swa_allocator \<Rightarrow> kv_index \<rightharpoonup> kv_index" where
  "swa_slot s i = (if 0 \<le> i \<and> i < int (length (sw_map s)) \<and> 0 < sw_map s ! nat i then Some (sw_map s ! nat i) else None)"

definition swa_pages :: "swa_allocator \<Rightarrow> int set" where
  "swa_pages s = (\<lambda>a. a div sw_page_size s) ` ran (swa_slot s)"

text \<open>Related slots stand at the same place of their pages, and pages correspond one to one.\<close>

definition lockstep :: "int \<Rightarrow> (kv_index \<times> kv_index) set \<Rightarrow> bool" where
  "lockstep ps R \<longleftrightarrow> (\<forall>(i, a) \<in> R. a mod ps = i mod ps) \<and>
     (\<forall>(i, a) \<in> R. \<forall>(j, b) \<in> R. a div ps = b div ps \<longleftrightarrow> i div ps = j div ps)"

lemma lockstep_subset: "lockstep ps R \<Longrightarrow> S \<subseteq> R \<Longrightarrow> lockstep ps S"
  unfolding lockstep_def by blast

lemma lockstepD:
  "lockstep ps R \<Longrightarrow> (i, a) \<in> R \<Longrightarrow> a mod ps = i mod ps"
  "lockstep ps R \<Longrightarrow> (i, a) \<in> R \<Longrightarrow> (j, b) \<in> R \<Longrightarrow> a div ps = b div ps \<longleftrightarrow> i div ps = j div ps"
  unfolding lockstep_def by blast+

lemma lockstep_Un:
  assumes "lockstep ps R" and "lockstep ps S"
    and "\<And>i a j b. (i, a) \<in> R \<Longrightarrow> (j, b) \<in> S \<Longrightarrow> a div ps = b div ps \<longleftrightarrow> i div ps = j div ps"
  shows "lockstep ps (R \<union> S)"
proof -
  have "a div ps = b div ps \<longleftrightarrow> i div ps = j div ps" if "(i, a) \<in> R \<union> S" "(j, b) \<in> R \<union> S" for i a j b
    using that assms(3) [of i a j b] assms(3) [of j b i a] lockstepD(2) [OF assms(1), of i a j b]
      lockstepD(2) [OF assms(2), of i a j b] by auto
  moreover have "a mod ps = i mod ps" if "(i, a) \<in> R \<union> S" for i a
    using that lockstepD(1) assms(1,2) by blast
  ultimately show ?thesis unfolding lockstep_def by blast
qed

lemma set_zip_maps: "set (zip (map f xs) (map g xs)) = (\<lambda>k. (f k, g k)) ` set xs"
  by (induction xs) auto

lemma launch_lockstep:
  assumes ps: "0 < ps" and lens: "lens_ok pre_lens seq_lens"
    and n: "int n = ext_start seq_lens pre_lens (length seq_lens)"
    and full: "set order = {..<length seq_lens}" "batch_ok ps pre_lens seq_lens lf"
      "page_start ps seq_lens pre_lens (length seq_lens) \<le> int (length pf)" "own_last_pages ps pre_lens lf pf" "distinct pf"
    and swa: "set order' = {..<length seq_lens}" "batch_ok ps pre_lens seq_lens lw"
      "page_start ps seq_lens pre_lens (length seq_lens) \<le> int (length pw)" "own_last_pages ps pre_lens lw pw" "distinct pw"
    and R: "lockstep ps R" "\<And>i a. (i, a) \<in> R \<Longrightarrow> i div ps \<notin> set pf" "\<And>i a. (i, a) \<in> R \<Longrightarrow> a div ps \<notin> set pw"
    and last: "\<And>i. i < length seq_lens \<Longrightarrow> pre_lens ! i mod ps \<noteq> 0 \<Longrightarrow> (lf ! i, lw ! i) \<in> R"
  shows "lockstep ps (R \<union> set (zip (map (\<lambda>k. launch order uninit oob ps pf pre_lens seq_lens lf (int k)) [0..<n])
      (map (\<lambda>k. launch order' uninit' oob' ps pw pre_lens seq_lens lw (int k)) [0..<n])))"
proof -
  let ?F = "\<lambda>k. launch order uninit oob ps pf pre_lens seq_lens lf (int k)"
  let ?W = "\<lambda>k. launch order' uninit' oob' ps pw pre_lens seq_lens lw (int k)"
  have len: "length pre_lens = length seq_lens" using lens by (simp add: lens_ok_def)
  have "\<exists>t. tag_ok ps pre_lens seq_lens t \<and> ?F k div ps = tag_page ps lf pf t \<and> ?W k div ps = tag_page ps lw pw t \<and>
      ?W k mod ps = ?F k mod ps" if "k < n" for k
  proof -
    have "int k < ext_start seq_lens pre_lens (length seq_lens)" using that n by linarith
    from launch_tag [OF ps lens of_nat_0_le_iff this] obtain t off where t: "tag_ok ps pre_lens seq_lens t"
      and eq: "\<And>order uninit oob pages last_loc. set order = {..<length seq_lens} \<Longrightarrow> batch_ok ps pre_lens seq_lens last_loc \<Longrightarrow>
        page_start ps seq_lens pre_lens (length seq_lens) \<le> int (length pages) \<Longrightarrow>
        launch order uninit oob ps pages pre_lens seq_lens last_loc (int k) div ps = tag_page ps last_loc pages t \<and>
        launch order uninit oob ps pages pre_lens seq_lens last_loc (int k) mod ps = off"
      by blast
    from t eq [OF full(1,2,3)] eq [OF swa(1,2,3)] show ?thesis by (intro exI [of _ t]) simp
  qed
  then obtain t where t: "\<And>k. k < n \<Longrightarrow> tag_ok ps pre_lens seq_lens (t k)"
    and F: "\<And>k. k < n \<Longrightarrow> ?F k div ps = tag_page ps lf pf (t k)"
    and W: "\<And>k. k < n \<Longrightarrow> ?W k div ps = tag_page ps lw pw (t k)"
    and M: "\<And>k. k < n \<Longrightarrow> ?W k mod ps = ?F k mod ps" by metis
  define Z where "Z = {(?F k, ?W k) | k. k < n}"
  have Z: "set (zip (map ?F [0..<n]) (map ?W [0..<n])) = Z" by (auto simp: Z_def set_zip_maps)
  have "lockstep ps Z"
  proof -
    have "?W k div ps = ?W l div ps \<longleftrightarrow> ?F k div ps = ?F l div ps" if "k < n" "l < n" for k l
      using F [OF that(1)] F [OF that(2)] W [OF that(1)] W [OF that(2)]
        tag_page_eq_iff [OF full(4,5) len full(3) t [OF that(1)] t [OF that(2)]]
        tag_page_eq_iff [OF swa(4,5) len swa(3) t [OF that(1)] t [OF that(2)]] by metis
    then show ?thesis unfolding lockstep_def Z_def using M by blast
  qed
  moreover have "a div ps = ?W k div ps \<longleftrightarrow> i div ps = ?F k div ps" if "(i, a) \<in> R" "k < n" for i a k
  proof (cases "t k")
    case (Inl j)
    then have "j < length seq_lens" "pre_lens ! j mod ps \<noteq> 0" using t [OF that(2)] by (auto simp: tag_ok_def)
    from lockstepD(2) [OF R(1) that(1) last [OF this]] F [OF that(2)] W [OF that(2)] Inl
    show ?thesis by (simp add: tag_page_def)
  next
    case (Inr q)
    then have q: "nat q < length pf" "nat q < length pw"
      using t [OF that(2)] full(3) swa(3) by (auto simp: tag_ok_def nat_less_iff)
    then have "pf ! nat q \<in> set pf" "pw ! nat q \<in> set pw" by simp_all
    with R(2,3) [OF that(1)] have "i div ps \<noteq> pf ! nat q" "a div ps \<noteq> pw ! nat q" by metis+
    then show ?thesis using F [OF that(2)] W [OF that(2)] Inr by (simp add: tag_page_def)
  qed
  ultimately have "lockstep ps (R \<union> Z)" by (intro lockstep_Un [OF R(1)]) (auto simp: Z_def)
  then show ?thesis by (simp only: Z)
qed

section \<open>The invariant\<close>

definition inner_ok :: "int \<Rightarrow> allocator \<Rightarrow> bool" where
  "inner_ok ps a \<longleftrightarrow> page_size a = ps \<and> 0 \<le> pool_size a \<and> is_not_in_free_group a \<and> (\<not> need_sort a \<longrightarrow> release_pages a = [])"

text \<open>
  \<open>H\<close> is the set of full pages that are not in the pool. The pages that the window pool has handed
  out are those of the slots in the mapping; the last entry of the mapping stays \<open>-1\<close>.
\<close>

definition swa_ok :: "swa_allocator \<Rightarrow> int set \<Rightarrow> bool" where
  "swa_ok s H \<longleftrightarrow> 0 < sw_page_size s \<and> inner_ok (sw_page_size s) (sw_full s) \<and> inner_ok (sw_page_size s) (sw_swa s) \<and>
     int (length (sw_map s)) = pool_size (sw_full s) + sw_page_size s + 1 \<and> sw_map s \<noteq> [] \<and> last (sw_map s) = -1 \<and>
     paged_partition (sw_full s) H \<and> paged_partition (sw_swa s) (swa_pages s) \<and>
     lockstep (sw_page_size s) (Map.graph (swa_slot s)) \<and> (\<lambda>i. i div sw_page_size s) ` dom (swa_slot s) \<subseteq> H"

lemma swa_okI:
  assumes "0 < sw_page_size s" "inner_ok (sw_page_size s) (sw_full s)" "inner_ok (sw_page_size s) (sw_swa s)"
    "int (length (sw_map s)) = pool_size (sw_full s) + sw_page_size s + 1" "sw_map s \<noteq> []" "last (sw_map s) = -1"
    "paged_partition (sw_full s) H" "paged_partition (sw_swa s) (swa_pages s)"
    "lockstep (sw_page_size s) (Map.graph (swa_slot s))"
    "\<And>i. i \<in> dom (swa_slot s) \<Longrightarrow> i div sw_page_size s \<in> H"
  shows "swa_ok s H"
  using assms unfolding swa_ok_def by (simp add: image_subset_iff)

lemma swa_okD:
  assumes "swa_ok s H"
  shows "0 < sw_page_size s" "inner_ok (sw_page_size s) (sw_full s)" "inner_ok (sw_page_size s) (sw_swa s)"
    "int (length (sw_map s)) = pool_size (sw_full s) + sw_page_size s + 1" "sw_map s \<noteq> []" "last (sw_map s) = -1"
    "paged_partition (sw_full s) H" "paged_partition (sw_swa s) (swa_pages s)"
    "lockstep (sw_page_size s) (Map.graph (swa_slot s))"
    "i \<in> dom (swa_slot s) \<Longrightarrow> i div sw_page_size s \<in> H"
  using assms unfolding swa_ok_def by auto

lemma swa_slot_cong: "sw_map s = sw_map t \<Longrightarrow> swa_slot s = swa_slot t"
  by (simp add: fun_eq_iff swa_slot_def)

lemma swa_pages_cong: "sw_map s = sw_map t \<Longrightarrow> sw_page_size s = sw_page_size t \<Longrightarrow> swa_pages s = swa_pages t"
  using swa_slot_cong [of s t] by (simp add: swa_pages_def)

lemma held_slot_range:
  assumes "paged_partition a H" and "i div page_size a \<in> H"
  shows "page_size a \<le> i" and "i < pool_size a + page_size a"
proof -
  let ?ps = "page_size a"
  have ps: "0 < ?ps" and "i div ?ps \<in> {1..num_pages a}" using assms by (auto simp: paged_partition_def)
  then have p: "1 \<le> i div ?ps" "i div ?ps \<le> num_pages a" by auto
  have m: "i = i div ?ps * ?ps + i mod ?ps" "0 \<le> i mod ?ps" "i mod ?ps < ?ps" using ps by simp_all
  have "1 * ?ps \<le> i div ?ps * ?ps" using p(1) ps by (intro mult_right_mono) simp_all
  then show "?ps \<le> i" using m by linarith
  have "i div ?ps * ?ps \<le> num_pages a * ?ps" using p(2) ps by (intro mult_right_mono) simp_all
  moreover have "num_pages a * ?ps \<le> pool_size a"
    using div_mult_mod_eq [of "pool_size a" ?ps] pos_mod_sign [OF ps, of "pool_size a"] unfolding num_pages_def by linarith
  ultimately show "i < pool_size a + ?ps" using m by linarith
qed

text \<open>Writing the mapping, as an update of the map of slots.\<close>

lemma swa_slot_put:
  assumes "distinct f" and "length w = length f" and "in_range (sw_map s) f" and "\<forall>a \<in> set w. 0 < a"
  shows "swa_slot (s\<lparr>sw_map := put f w (sw_map s)\<rparr>) = swa_slot s ++ map_of (zip f w)"
proof
  fix i
  show "swa_slot (s\<lparr>sw_map := put f w (sw_map s)\<rparr>) i = (swa_slot s ++ map_of (zip f w)) i"
  proof (cases "i \<in> set f")
    case True
    then obtain k where k: "k < length f" "i = f ! k" by (auto simp: in_set_conv_nth)
    have "0 \<le> i" "i < int (length (sw_map s))" using assms(3) True by (auto simp: in_range_def)
    moreover have "put f w (sw_map s) ! nat i = w ! k" using put_at [OF assms(3,2,1)] k by simp
    moreover have "map_of (zip f w) i = Some (w ! k)" using assms(1,2) k by (simp add: map_of_zip_nth)
    moreover have "0 < w ! k" using assms(2,4) k(1) by simp
    ultimately show ?thesis by (simp add: swa_slot_def map_add_Some_iff)
  next
    case False
    then have "map_of (zip f w) i = None" using assms(2) by (simp add: map_of_zip_is_None)
    moreover have "put f w (sw_map s) ! nat i = sw_map s ! nat i" if "0 \<le> i"
      by (rule put_other) (use assms(3) False that in \<open>auto simp: in_range_def\<close>)
    ultimately show ?thesis by (auto simp: swa_slot_def map_add_def)
  qed
qed

lemma put_zeros:
  assumes "in_range buf idx" and "j < length buf"
  shows "put idx (replicate (length idx) c) buf ! j = (if int j \<in> set idx then c else buf ! j)"
  using assms
proof (induction idx arbitrary: buf)
  case (Cons i idx)
  have p: "put (i # idx) (replicate (length (i # idx)) c) buf = put idx (replicate (length idx) c) (buf[nat i := c])"
    by (simp add: put_def)
  have "in_range (buf[nat i := c]) idx" using Cons.prems(1) by (simp add: in_range_def)
  from Cons.IH [OF this] Cons.prems show ?case unfolding p by (auto simp: in_range_def nth_list_update)
qed (simp add: put_def)

lemma swa_slot_zeros:
  assumes "in_range (sw_map s) v"
  shows "swa_slot (s\<lparr>sw_map := put v (replicate (length v) 0) (sw_map s)\<rparr>) = swa_slot s |` (- set v)"
  using put_zeros [OF assms, of _ 0] by (auto simp: fun_eq_iff swa_slot_def restrict_map_def nat_less_iff)

lemma put_Nil_iff [simp]: "put idx src buf = [] \<longleftrightarrow> buf = []"
  by (metis length_put length_0_conv)

lemma last_put:
  assumes "\<forall>i \<in> set idx. 0 \<le> i \<and> i + 1 < int (length buf)" and "buf \<noteq> []"
  shows "last (put idx src buf) = last buf"
proof -
  have "int (length buf - 1) \<notin> set idx" using assms by force
  then have "put idx src buf ! (length buf - 1) = buf ! (length buf - 1)" using assms(1) by (intro put_other) auto
  then show ?thesis using assms(2) by (simp add: last_conv_nth)
qed

lemma graph_map_add_zip: "Map.graph (m ++ map_of (zip f w)) \<subseteq> Map.graph m \<union> set (zip f w)"
  by (auto simp: Map.graph_def map_add_Some_iff dest: map_of_SomeD)

lemma swa_grow:
  fixes s defines "ps \<equiv> sw_page_size s"
  assumes ok: "swa_ok s H" and f: "distinct f" "length w = length f" "\<forall>a \<in> set w. 0 < a"
    and full: "inner_ok ps full" "paged_partition full H'" "pool_size full = pool_size (sw_full s)"
    and swa: "inner_ok ps swa" "paged_partition swa (swa_pages s \<union> pages_in ps w)"
    and sub: "H \<union> pages_in ps f \<subseteq> H'"
    and lock: "lockstep ps (Map.graph (swa_slot s) \<union> set (zip f w))"
  shows "\<exists>m. scatter (sw_map s) f w = Inr m \<and> swa_ok (s\<lparr>sw_full := full, sw_swa := swa, sw_map := m\<rparr>) H' \<and>
    swa_slot (s\<lparr>sw_full := full, sw_swa := swa, sw_map := m\<rparr>) = swa_slot s ++ map_of (zip f w)"
proof -
  note okD = swa_okD [OF ok, folded ps_def]
  have pf: "page_size full = ps" using full(1) by (simp add: inner_ok_def)
  have range: "0 \<le> i \<and> i + 1 < int (length (sw_map s))" if "i \<in> set f" for i
  proof -
    have "i div page_size full \<in> H'" using that sub pf by (auto simp: pages_in_def)
    from held_slot_range [OF full(2) this] okD(1,4) full(3) pf show ?thesis by linarith
  qed
  then have inr: "in_range (sw_map s) f" by (force simp: in_range_def)
  let ?m = "put f w (sw_map s)"
  let ?t = "s\<lparr>sw_full := full, sw_swa := swa, sw_map := ?m\<rparr>"
  have slot: "swa_slot ?t = swa_slot s ++ map_of (zip f w)"
    using swa_slot_put [OF f(1,2) inr f(3)] swa_slot_cong [of ?t "s\<lparr>sw_map := ?m\<rparr>"] by simp
  have lock': "lockstep ps (Map.graph (swa_slot ?t))"
    unfolding slot by (rule lockstep_subset [OF lock graph_map_add_zip])
  have pages: "swa_pages ?t = swa_pages s \<union> pages_in ps w"
  proof (intro set_eqI iffI)
    fix p assume "p \<in> swa_pages ?t"
    then obtain i a where "swa_slot ?t i = Some a" "p = a div ps" by (auto simp: swa_pages_def ran_def ps_def)
    then show "p \<in> swa_pages s \<union> pages_in ps w"
      unfolding slot by (auto simp: map_add_Some_iff swa_pages_def pages_in_def ran_def ps_def dest!: map_of_SomeD set_zip_rightD)
  next
    fix p assume "p \<in> swa_pages s \<union> pages_in ps w"
    then obtain i a where ia: "(i, a) \<in> Map.graph (swa_slot s) \<union> set (zip f w)" "p = a div ps"
    proof
      assume "p \<in> swa_pages s"
      then show thesis using that by (auto simp: swa_pages_def ran_def Map.graph_def ps_def)
    next
      assume "p \<in> pages_in ps w"
      then obtain k where "k < length w" "p = w ! k div ps" by (auto simp: pages_in_def in_set_conv_nth)
      then show thesis using that [of "f ! k" "w ! k"] f(2) by (auto simp: in_set_zip)
    qed
    have "i \<in> dom (swa_slot s) \<union> set f"
      using ia(1) by (auto simp: Map.graph_def dest: set_zip_leftD)
    then have "i \<in> dom (swa_slot ?t)" unfolding slot using dom_map_of_zip [OF f(2) [symmetric]] by auto
    then obtain b where b: "swa_slot ?t i = Some b" by blast
    then have "(i, b) \<in> Map.graph (swa_slot s ++ map_of (zip f w))" unfolding slot by (simp add: Map.graph_def)
    then have "(i, b) \<in> Map.graph (swa_slot s) \<union> set (zip f w)" using graph_map_add_zip by blast
    from lockstepD(2) [OF lock this ia(1)] ia(2) have "p = b div ps" by simp
    then show "p \<in> swa_pages ?t" using b by (auto simp: swa_pages_def ran_def ps_def)
  qed
  have "swa_ok ?t H'"
  proof (rule swa_okI)
    show "0 < sw_page_size ?t" "inner_ok (sw_page_size ?t) (sw_full ?t)" "inner_ok (sw_page_size ?t) (sw_swa ?t)"
      "int (length (sw_map ?t)) = pool_size (sw_full ?t) + sw_page_size ?t + 1" "paged_partition (sw_full ?t) H'"
      using okD(1,4) full swa(1) by (simp_all add: ps_def)
    show "sw_map ?t \<noteq> []" using okD(5) by simp
    show "last (sw_map ?t) = -1" using okD(6) last_put [of f "sw_map s" w] range okD(5) by simp
    show "paged_partition (sw_swa ?t) (swa_pages ?t)" unfolding pages using swa(2) by simp
    show "lockstep (sw_page_size ?t) (Map.graph (swa_slot ?t))" using lock' by (simp add: ps_def)
    show "i div sw_page_size ?t \<in> H'" if "i \<in> dom (swa_slot ?t)" for i
    proof -
      have "i \<in> dom (swa_slot s) \<union> set f"
        using that unfolding slot using dom_map_of_zip [OF f(2) [symmetric]] by auto
      then show ?thesis using okD(10) [of i] sub by (auto simp: ps_def pages_in_def)
    qed
  qed
  then show ?thesis using copy_ok(2) [OF inr f(2)] slot by blast
qed

section \<open>Extending requests\<close>

lemma available_pages:
  assumes "inner_ok ps a" and "1 < ps"
  shows "attn_available_size a div ps = int (length (pool_pages a))"
  using assms by (simp add: attn_available_size_def base_available_size_def inner_ok_def)

definition orders :: "kernel_env \<Rightarrow> nat \<Rightarrow> bool" where
  "orders env n \<longleftrightarrow> set (fst env) = {..<n}"

text \<open>The slots that a launch over the pages of a pool hands out, and the pool without its pages.\<close>

definition launch_in :: "kernel_env \<Rightarrow> int \<Rightarrow> int list \<Rightarrow> int list \<Rightarrow> int list \<Rightarrow> int list \<Rightarrow> nat \<Rightarrow> kv_index list" where
  "launch_in env ps pages pre_lens seq_lens last_loc n =
     map (\<lambda>i. launch (fst env) (fst (snd env)) (snd (snd env)) ps pages pre_lens seq_lens last_loc (int i)) [0..<n]"

lemma length_launch_in [simp]: "length (launch_in env ps pages pre_lens seq_lens last_loc n) = n"
  by (simp add: launch_in_def)

definition take_pages :: "int \<Rightarrow> allocator \<Rightarrow> allocator" where
  "take_pages k a = a\<lparr>free_pages := drop (nat k) (free_pages a)\<rparr>"

lemma inner_launch:
  assumes a: "inner_ok ps a" "paged_partition a G" and lens: "lens_ok pre_lens seq_lens" and env: "orders env (length seq_lens)"
    and n: "int n = ext_start seq_lens pre_lens (length seq_lens)"
    and k: "k = page_start ps seq_lens pre_lens (length seq_lens)" "k \<le> int (length (free_pages (premerge b a)))"
    and last: "\<forall>i < length seq_lens. pre_lens ! i mod ps \<noteq> 0 \<longrightarrow>
      (last_loc ! i + 1) mod ps = pre_lens ! i mod ps \<and> last_loc ! i div ps \<in> G"
  defines "pages \<equiv> free_pages (premerge b a)"
  defines "L \<equiv> launch_in env ps pages pre_lens seq_lens last_loc n"
  shows "L = launch_in env ps pages pre_lens seq_lens (norm_last ps pre_lens last_loc) n"
    and "inner_ok ps (take_pages k (premerge b a))" and "pool_size (take_pages k (premerge b a)) = pool_size a"
    and "paged_partition (take_pages k (premerge b a)) (G \<union> pages_in ps L)" and "distinct pages" and "set pages \<inter> G = {}"
proof -
  obtain order uninit oob where e: "env = (order, uninit, oob)" by (cases env)
  have ps: "0 < page_size a" and pa: "page_size a = ps" using a by (auto simp: paged_partition_def inner_ok_def)
  have ord: "set order = {..<length seq_lens}" using env by (simp add: orders_def e)
  have len: "length pre_lens = length seq_lens" using lens by (simp add: lens_ok_def)
  have batch: "batch_ok ps pre_lens seq_lens (norm_last ps pre_lens last_loc)"
    using batch_ok_norm_last [of ps pre_lens seq_lens last_loc] ps pa lens last by simp
  have "launch order uninit oob ps pages pre_lens seq_lens last_loc (int i) =
      launch order uninit oob ps pages pre_lens seq_lens (norm_last ps pre_lens last_loc) (int i)" if "i < n" for i
    by (rule launch_norm_last [OF ps [unfolded pa] lens ord]) (use that n in linarith)+
  then show L: "L = launch_in env ps pages pre_lens seq_lens (norm_last ps pre_lens last_loc) n"
    by (simp add: L_def launch_in_def e)
  have part: "paged_partition (premerge b a) G" using a(2) by simp
  show "paged_partition (take_pages k (premerge b a)) (G \<union> pages_in ps L)"
    using partition_launch [OF part, of pre_lens seq_lens "norm_last ps pre_lens last_loc" order n oob uninit]
      batch ord n k last len unfolding L launch_in_def e take_pages_def pages_def by (simp add: pa norm_last_def)
  show "inner_ok ps (take_pages k (premerge b a))" "pool_size (take_pages k (premerge b a)) = pool_size a"
    using a(1) by (auto simp: inner_ok_def premerge_def take_pages_def)
  show "distinct pages" "set pages \<inter> G = {}" using part by (auto simp: paged_partition_def pages_def)
qed

text \<open>Each of the two batch allocations of a pool is such a launch when the pool has the pages.\<close>

lemma extend_in_launch:
  assumes a: "inner_ok ps a" "0 < ps" and lens: "lens_ok pre_lens seq_lens"
    and n: "int n = ext_start seq_lens pre_lens (length seq_lens)"
    and k: "k = page_start ps seq_lens pre_lens (length seq_lens)" "k \<le> int (length (pool_pages a))"
    and num: "num = None \<or> num = Some k"
  shows "\<exists>b. k \<le> int (length (free_pages (premerge b a))) \<and> extend_in env pre_lens seq_lens last_loc n num a =
    (Inr (Some (launch_in env ps (free_pages (premerge b a)) pre_lens seq_lens last_loc n)), take_pages k (premerge b a))"
proof -
  obtain order uninit oob where e: "env = (order, uninit, oob)" by (cases env)
  have pa: "page_size a = ps" and ps: "0 < page_size a" using a by (auto simp: inner_ok_def)
  have len: "length pre_lens = length seq_lens" using lens by (simp add: lens_ok_def)
  have "extend_in env pre_lens seq_lens last_loc n num a = paged_alloc_extend order uninit oob pre_lens seq_lens last_loc n None a"
    using num alloc_extend_given_count [OF len, of k a] k(1) pa by (auto simp: extend_in_def e)
  moreover have "k \<le> int (length (free_pages a)) + (if need_sort a then int (length (release_pages a)) else 0)"
    using k(2) a(1) by (auto simp: inner_ok_def)
  moreover obtain b where "paged_alloc_extend order uninit oob pre_lens seq_lens last_loc n None a =
      (if int (length (free_pages a)) + (if need_sort a then int (length (release_pages a)) else 0) < k then (Inr None, premerge b a)
       else (Inr (Some (launch_in env ps (free_pages (premerge b a)) pre_lens seq_lens last_loc n)), take_pages k (premerge b a)))"
    "k \<le> int (length (free_pages (premerge b a))) \<longleftrightarrow>
      k \<le> int (length (free_pages a)) + (if need_sort a then int (length (release_pages a)) else 0)"
    using alloc_extend_room [OF ps lens n, of order uninit oob last_loc]
    unfolding Let_def pa k(1) [symmetric] launch_in_def take_pages_def e fst_conv snd_conv by blast
  ultimately show ?thesis by (intro exI [of _ b]) simp
qed

abbreviation before :: "int list \<Rightarrow> int list" where
  "before seq_lens \<equiv> map (\<lambda>s. s - 1) seq_lens"

lemma decode_in_launch:
  assumes a: "inner_ok ps a" "1 < ps" and env: "orders env (length seq_lens)"
    and k: "k = page_start ps seq_lens (before seq_lens) (length seq_lens)"
  shows "\<exists>b. decode_in env seq_lens last_loc a = (if int (length (pool_pages a)) < k then (Inr None, premerge b a)
      else (Inr (Some (launch_in env ps (free_pages (premerge b a)) (before seq_lens) seq_lens last_loc (length seq_lens))),
        take_pages k (premerge b a))) \<and>
    (k \<le> int (length (pool_pages a)) \<longrightarrow> k \<le> int (length (free_pages (premerge b a))))"
proof -
  obtain order uninit oob where e: "env = (order, uninit, oob)" by (cases env)
  have pa: "page_size a = ps" using a by (simp add: inner_ok_def)
  let ?b = "length (free_pages a) < length seq_lens"
  have count: "get_num_new_pages ps seq_lens None True = Inr k"
    using decode_count [OF a(2)] by (simp add: get_num_new_pages_def page_start_def k)
  have "k = int (length (filter (\<lambda>n. n mod ps = 1) seq_lens))" using count by (simp add: get_num_new_pages_def)
  then have few: "k \<le> int (length seq_lens)" by simp
  have room: "k \<le> int (length (free_pages (premerge ?b a))) \<longleftrightarrow> k \<le> int (length (pool_pages a))"
    using few a(1) by (auto simp: premerge_def inner_ok_def)
  have "set order \<subseteq> {..<length seq_lens}" using env by (simp add: orders_def e)
  then have "decode_in env seq_lens last_loc a = (if int (length (free_pages (premerge ?b a))) < k then (Inr None, premerge ?b a)
      else (Inr (Some (launch_in env ps (free_pages (premerge ?b a)) (before seq_lens) seq_lens last_loc (length seq_lens))),
        take_pages k (premerge ?b a)))"
    unfolding decode_in_def e paged_alloc_decode_def Let_def premerge_def [symmetric] premerge_fields count prod.case pa
    using a(2) by (simp add: decode_launch launch_in_def take_pages_def pa)
  then show ?thesis using room by (intro exI [of _ ?b]) (simp add: not_le [symmetric])
qed

definition extend_contract :: "swa_allocator \<Rightarrow> int list \<Rightarrow> int list \<Rightarrow> int list \<Rightarrow> nat \<Rightarrow> bool" where
  "extend_contract s pre_lens seq_lens last_loc n \<longleftrightarrow>
     batch_ok (sw_page_size s) pre_lens seq_lens last_loc \<and> length last_loc = length seq_lens \<and>
     int n = ext_start seq_lens pre_lens (length seq_lens) \<and>
     (\<forall>i \<in> set last_loc. -1 \<le> i \<and> i < int (length (sw_map s))) \<and>
     (\<forall>i < length seq_lens. pre_lens ! i mod sw_page_size s \<noteq> 0 \<longrightarrow> last_loc ! i \<in> dom (swa_slot s)) \<and>
     (\<forall>i < length seq_lens. \<forall>j < length seq_lens. i \<noteq> j \<longrightarrow> pre_lens ! i mod sw_page_size s \<noteq> 0 \<longrightarrow>
        pre_lens ! j mod sw_page_size s \<noteq> 0 \<longrightarrow> last_loc ! i div sw_page_size s \<noteq> last_loc ! j div sw_page_size s)"

lemma translate_last:
  assumes "extend_contract s pre_lens seq_lens last_loc n" and "sw_map s \<noteq> []"
  shows "\<exists>lw. swa_translate_loc s last_loc = Inr lw \<and>
    (\<forall>i < length seq_lens. pre_lens ! i mod sw_page_size s \<noteq> 0 \<longrightarrow> (last_loc ! i, lw ! i) \<in> Map.graph (swa_slot s))"
proof -
  let ?wr = "wrap_index (length (sw_map s))"
  have len: "0 < int (length (sw_map s))" using assms(2) by simp
  have "0 \<le> ?wr i \<and> ?wr i < int (length (sw_map s))" if "i \<in> set last_loc" for i
  proof -
    have "-1 \<le> i \<and> i < int (length (sw_map s))" using assms(1) that by (simp add: extend_contract_def)
    then show ?thesis using len unfolding wrap_index_def by (cases "i < 0") (simp_all only: if_True if_False simp_thms, linarith+)
  qed
  then have "in_range (sw_map s) (map ?wr last_loc)" by (simp add: in_range_def)
  then have "swa_translate_loc s last_loc = Inr (map (\<lambda>i. sw_map s ! nat (?wr i)) last_loc)"
    by (simp add: swa_translate_loc_def gather_def index_select_def)
  moreover have "(last_loc ! i, sw_map s ! nat (?wr (last_loc ! i))) \<in> Map.graph (swa_slot s)"
    if "i < length seq_lens" "pre_lens ! i mod sw_page_size s \<noteq> 0" for i
  proof -
    have "last_loc ! i \<in> dom (swa_slot s)" using assms(1) that by (simp add: extend_contract_def)
    then show ?thesis by (auto simp: swa_slot_def Map.graph_def wrap_index_def split: if_splits)
  qed
  ultimately show ?thesis using assms(1) by (simp add: extend_contract_def)
qed

text \<open>What a batch receives from the two pools is in lockstep with what was there before.\<close>

lemma batch_lockstep:
  fixes s uninit oob uninit' oob' defines "ps \<equiv> sw_page_size s"
  assumes ok: "swa_ok s H" and lens: "lens_ok pre_lens seq_lens"
    and n: "int n = ext_start seq_lens pre_lens (length seq_lens)"
    and last0: "\<forall>i < length seq_lens. pre_lens ! i mod ps \<noteq> 0 \<longrightarrow> (lf ! i, lw ! i) \<in> Map.graph (swa_slot s)"
    and lastp0: "\<forall>i < length seq_lens. pre_lens ! i mod ps \<noteq> 0 \<longrightarrow> (lf ! i + 1) mod ps = pre_lens ! i mod ps"
    and apart0: "\<forall>i < length seq_lens. \<forall>j < length seq_lens. i \<noteq> j \<longrightarrow> pre_lens ! i mod ps \<noteq> 0 \<longrightarrow>
      pre_lens ! j mod ps \<noteq> 0 \<longrightarrow> lf ! i div ps \<noteq> lf ! j div ps"
    and full: "set order = {..<length seq_lens}" "page_start ps seq_lens pre_lens (length seq_lens) \<le> int (length pf)"
      "distinct pf" "set pf \<inter> H = {}"
    and swa: "set order' = {..<length seq_lens}" "page_start ps seq_lens pre_lens (length seq_lens) \<le> int (length pw)"
      "distinct pw" "set pw \<inter> swa_pages s = {}"
  defines "F \<equiv> map (\<lambda>i. launch order uninit oob ps pf pre_lens seq_lens (norm_last ps pre_lens lf) (int i)) [0..<n]"
    and "W \<equiv> map (\<lambda>i. launch order' uninit' oob' ps pw pre_lens seq_lens (norm_last ps pre_lens lw) (int i)) [0..<n]"
  shows "lockstep ps (Map.graph (swa_slot s) \<union> set (zip F W))" and "distinct F"
proof -
  note okD = swa_okD [OF ok, folded ps_def]
  have ps: "0 < ps" and len: "length pre_lens = length seq_lens" using okD(1) lens by (auto simp: lens_ok_def)
  note last = last0 [rule_format] and lastp = lastp0 [rule_format] and apart = apart0 [rule_format]
  have heldF: "i div ps \<in> H" and heldW: "a div ps \<in> swa_pages s" if "(i, a) \<in> Map.graph (swa_slot s)" for i a
    using that okD(10) [of i] by (auto simp: Map.graph_def swa_pages_def ps_def ran_def)
  have mod: "(lw ! i + 1) mod ps = pre_lens ! i mod ps" if "i < length seq_lens" "pre_lens ! i mod ps \<noteq> 0" for i
  proof -
    have "lw ! i mod ps = lf ! i mod ps" by (rule lockstepD(1) [OF okD(9) last [OF that]])
    then have "(lw ! i + 1) mod ps = (lf ! i + 1) mod ps" by (metis mod_add_left_eq)
    then show ?thesis using lastp [OF that] by simp
  qed
  have bf: "batch_ok ps pre_lens seq_lens (norm_last ps pre_lens lf)" and bw: "batch_ok ps pre_lens seq_lens (norm_last ps pre_lens lw)"
    using batch_ok_norm_last [OF ps lens] lastp mod by blast+
  have nth: "norm_last ps pre_lens ll ! i = ll ! i" if "i < length seq_lens" "pre_lens ! i mod ps \<noteq> 0" for ll i
    using that len by (simp add: norm_last_def)
  have ownF: "own_last_pages ps pre_lens (norm_last ps pre_lens lf) pf"
    unfolding own_last_pages_def len using apart full(4) heldF [OF last] by (simp add: nth) blast
  have apartW: "lw ! i div ps \<noteq> lw ! j div ps" if "i < length seq_lens" "j < length seq_lens" "i \<noteq> j"
      "pre_lens ! i mod ps \<noteq> 0" "pre_lens ! j mod ps \<noteq> 0" for i j
    using lockstepD(2) [OF okD(9) last [OF that(1,4)] last [OF that(2,5)]] apart [OF that] by simp
  have ownW: "own_last_pages ps pre_lens (norm_last ps pre_lens lw) pw"
    unfolding own_last_pages_def len using apartW swa(4) heldW [OF last] by (simp add: nth) blast
  show "lockstep ps (Map.graph (swa_slot s) \<union> set (zip F W))"
    unfolding F_def W_def
    by (rule launch_lockstep [OF ps lens n full(1) bf full(2) ownF full(3) swa(1) bw swa(2) ownW swa(3) okD(9)])
      (use heldF heldW full(4) swa(4) last nth in auto)
  show "distinct F"
    unfolding F_def distinct_map using launch_inj_on [OF ps bf full(1) ownF full(3,2) n] by simp
qed

lemma partition_positive:
  assumes "paged_partition a (G \<union> pages_in (page_size a) w)" and "x \<in> set w"
  shows "0 < x"
proof -
  have "x div page_size a \<in> G \<union> pages_in (page_size a) w" using assms(2) by (auto simp: pages_in_def)
  from held_slot_range(1) [OF assms(1) this] assms(1) show ?thesis by (auto simp: paged_partition_def)
qed

lemma both_allocated_ok:
  assumes "scatter (sw_map s) f w = Inr m"
  shows "both_allocated (Some f) (Some w) (s\<lparr>sw_full := full, sw_swa := swa\<rparr>) =
    (Inr (Some f), s\<lparr>sw_full := full, sw_swa := swa, sw_map := m\<rparr>)"
  using assms by (simp add: both_allocated_def record_mapping_def)

text \<open>Two launches in step, recorded in the mapping.\<close>

lemma swa_pair_step:
  fixes s defines "ps \<equiv> sw_page_size s"
  assumes ok: "swa_ok s H" and contract: "extend_contract s pre_lens seq_lens last_loc n"
    and env: "orders env_full (length seq_lens)" "orders env_swa (length seq_lens)"
    and k: "k = page_start ps seq_lens pre_lens (length seq_lens)"
      "k \<le> int (length (free_pages (premerge bf (sw_full s))))" "k \<le> int (length (free_pages (premerge bw (sw_swa s))))"
    and lw: "swa_translate_loc s last_loc = Inr lw"
  defines "f \<equiv> launch_in env_full ps (free_pages (premerge bf (sw_full s))) pre_lens seq_lens last_loc n"
    and "w \<equiv> launch_in env_swa ps (free_pages (premerge bw (sw_swa s))) pre_lens seq_lens lw n"
    and "full \<equiv> take_pages k (premerge bf (sw_full s))" and "swa \<equiv> take_pages k (premerge bw (sw_swa s))"
  shows "\<exists>m. both_allocated (Some f) (Some w) (s\<lparr>sw_full := full, sw_swa := swa\<rparr>) =
      (Inr (Some f), s\<lparr>sw_full := full, sw_swa := swa, sw_map := m\<rparr>) \<and>
    length f = n \<and> distinct f \<and> swa_ok (s\<lparr>sw_full := full, sw_swa := swa, sw_map := m\<rparr>) (H \<union> pages_in ps f) \<and>
    set f \<subseteq> dom (swa_slot (s\<lparr>sw_full := full, sw_swa := swa, sw_map := m\<rparr>))"
proof -
  note okD = swa_okD [OF ok, folded ps_def]
  have lens: "lens_ok pre_lens seq_lens" and len: "length pre_lens = length seq_lens"
    and n: "int n = ext_start seq_lens pre_lens (length seq_lens)"
    using contract by (auto simp: extend_contract_def batch_ok_def lens_ok_def)
  have last: "\<forall>i < length seq_lens. pre_lens ! i mod ps \<noteq> 0 \<longrightarrow> (last_loc ! i, lw ! i) \<in> Map.graph (swa_slot s)"
    using translate_last [OF contract okD(5), folded ps_def] lw by auto
  have lastp: "\<forall>i < length seq_lens. pre_lens ! i mod ps \<noteq> 0 \<longrightarrow> (last_loc ! i + 1) mod ps = pre_lens ! i mod ps"
    using contract by (simp add: extend_contract_def batch_ok_def ps_def)
  have apart: "\<forall>i < length seq_lens. \<forall>j < length seq_lens. i \<noteq> j \<longrightarrow> pre_lens ! i mod ps \<noteq> 0 \<longrightarrow>
      pre_lens ! j mod ps \<noteq> 0 \<longrightarrow> last_loc ! i div ps \<noteq> last_loc ! j div ps"
    using contract unfolding extend_contract_def ps_def by blast
  have lastF: "last_loc ! i div ps \<in> H" if "i < length seq_lens" "pre_lens ! i mod ps \<noteq> 0" for i
    using last [rule_format, OF that] okD(10) by (auto simp: Map.graph_def)
  have lastW: "(lw ! i + 1) mod ps = pre_lens ! i mod ps \<and> lw ! i div ps \<in> swa_pages s"
    if "i < length seq_lens" "pre_lens ! i mod ps \<noteq> 0" for i
  proof -
    note l = last [rule_format, OF that]
    have "lw ! i mod ps = last_loc ! i mod ps" by (rule lockstepD(1) [OF okD(9) l])
    then have "(lw ! i + 1) mod ps = (last_loc ! i + 1) mod ps" by (metis mod_add_left_eq)
    then show ?thesis using lastp that l by (auto simp: swa_pages_def Map.graph_def ran_def ps_def)
  qed
  have lF: "\<forall>i < length seq_lens. pre_lens ! i mod ps \<noteq> 0 \<longrightarrow>
      (last_loc ! i + 1) mod ps = pre_lens ! i mod ps \<and> last_loc ! i div ps \<in> H" using lastp lastF by blast
  have lW: "\<forall>i < length seq_lens. pre_lens ! i mod ps \<noteq> 0 \<longrightarrow>
      (lw ! i + 1) mod ps = pre_lens ! i mod ps \<and> lw ! i div ps \<in> swa_pages s" using lastW by blast
  note F = inner_launch [OF okD(2,7) lens env(1) n k(1,2) lF, folded f_def full_def]
  note W = inner_launch [OF okD(3,8) lens env(2) n k(1,3) lW, folded w_def swa_def]
  note ls = batch_lockstep [OF ok lens n, folded ps_def, OF last lastp apart env(1) [unfolded orders_def]
      k(2) [unfolded k(1)] F(5,6) env(2) [unfolded orders_def] k(3) [unfolded k(1)] W(5,6)]
  have fw: "length w = length f" "length f = n" by (simp_all add: f_def w_def launch_in_def)
  have lock: "lockstep ps (Map.graph (swa_slot s) \<union> set (zip f w))" and dist: "distinct f"
    unfolding F(1) W(1) unfolding launch_in_def by (rule ls(1), rule ls(2))
  have pos: "\<forall>a \<in> set w. 0 < a"
    using partition_positive [of swa "swa_pages s" w] W(2,4) by (simp only: inner_ok_def) blast
  from swa_grow [OF ok dist fw(1) pos, folded ps_def, OF F(2,4,3) W(2,4) order_refl lock]
  obtain m where m: "scatter (sw_map s) f w = Inr m"
    and t: "swa_ok (s\<lparr>sw_full := full, sw_swa := swa, sw_map := m\<rparr>) (H \<union> pages_in ps f)"
    and slot: "swa_slot (s\<lparr>sw_full := full, sw_swa := swa, sw_map := m\<rparr>) = swa_slot s ++ map_of (zip f w)" by blast
  have "set f \<subseteq> dom (swa_slot (s\<lparr>sw_full := full, sw_swa := swa, sw_map := m\<rparr>))"
    unfolding slot using dom_map_of_zip [OF fw(1) [symmetric]] by auto
  then show ?thesis using both_allocated_ok [OF m] t dist fw(2) by blast
qed

lemma swa_extend_step:
  fixes s defines "ps \<equiv> sw_page_size s"
  assumes ok: "swa_ok s H" and "1 < ps" and contract: "extend_contract s pre_lens seq_lens last_loc n"
    and env: "orders env_full (length seq_lens)" "orders env_swa (length seq_lens)"
    and k: "k = page_start ps seq_lens pre_lens (length seq_lens)"
  shows "if int (length (pool_pages (sw_full s))) < k \<or> int (length (pool_pages (sw_swa s))) < k
    then swa_alloc_extend env_full env_swa pre_lens seq_lens last_loc n s = (Inr None, s)
    else \<exists>f t. swa_alloc_extend env_full env_swa pre_lens seq_lens last_loc n s = (Inr (Some f), t) \<and>
      length f = n \<and> distinct f \<and> swa_ok t (H \<union> pages_in ps f) \<and> set f \<subseteq> dom (swa_slot t)"
proof -
  note okD = swa_okD [OF ok, folded ps_def]
  have lens: "lens_ok pre_lens seq_lens" and len: "length pre_lens = length seq_lens"
    and n: "int n = ext_start seq_lens pre_lens (length seq_lens)"
    using contract by (auto simp: extend_contract_def batch_ok_def lens_ok_def)
  have count: "get_num_new_pages ps seq_lens (Some pre_lens) False = Inr k"
    using len by (simp add: get_num_new_pages_def k page_start_def)
  note avail = available_pages [OF okD(2) assms(3)] available_pages [OF okD(3) assms(3)]
  show ?thesis
  proof (cases "int (length (pool_pages (sw_full s))) < k \<or> int (length (pool_pages (sw_swa s))) < k")
    case True
    then show ?thesis using avail count assms(3) by (auto simp: swa_alloc_extend_def ps_def [symmetric])
  next
    case False
    then have kf: "k \<le> int (length (pool_pages (sw_full s)))" and kw: "k \<le> int (length (pool_pages (sw_swa s)))" by auto
    obtain lw where lw: "swa_translate_loc s last_loc = Inr lw" using translate_last [OF contract okD(5)] by blast
    obtain bf where F: "k \<le> int (length (free_pages (premerge bf (sw_full s))))"
      "extend_in env_full pre_lens seq_lens last_loc n (Some k) (sw_full s) =
        (Inr (Some (launch_in env_full ps (free_pages (premerge bf (sw_full s))) pre_lens seq_lens last_loc n)),
         take_pages k (premerge bf (sw_full s)))"
      using extend_in_launch [OF okD(2,1) lens n k kf] by blast
    obtain bw where W: "k \<le> int (length (free_pages (premerge bw (sw_swa s))))"
      "extend_in env_swa pre_lens seq_lens lw n (Some k) (sw_swa s) =
        (Inr (Some (launch_in env_swa ps (free_pages (premerge bw (sw_swa s))) pre_lens seq_lens lw n)),
         take_pages k (premerge bw (sw_swa s)))"
      using extend_in_launch [OF okD(3,1) lens n k kw] by blast
    from swa_pair_step [OF ok contract env, folded ps_def, OF k F(1) W(1) lw] False avail assms(3)
    show ?thesis unfolding swa_alloc_extend_def Let_def ps_def [symmetric] count by (auto simp: lw F(2) W(2))
  qed
qed

text \<open>
  A decode step asks the pools one after the other: when only the window pool is short, the pages
  that the other one gave are lost.
\<close>

lemma swa_decode_step:
  fixes s defines "ps \<equiv> sw_page_size s"
  assumes ok: "swa_ok s H" and "1 < ps" and contract: "extend_contract s (before seq_lens) seq_lens last_loc (length seq_lens)"
    and env: "orders env_full (length seq_lens)" "orders env_swa (length seq_lens)"
    and run: "swa_alloc_decode env_full env_swa seq_lens last_loc s = (r, t)"
  shows "r = Inr None \<or> (\<exists>f. r = Inr (Some f) \<and> length f = length seq_lens \<and> distinct f \<and>
    swa_ok t (H \<union> pages_in ps f) \<and> set f \<subseteq> dom (swa_slot t))"
proof -
  note okD = swa_okD [OF ok, folded ps_def]
  define k where "k = page_start ps seq_lens (before seq_lens) (length seq_lens)"
  obtain lw where lw: "swa_translate_loc s last_loc = Inr lw" using translate_last [OF contract okD(5)] by blast
  obtain bf where F: "decode_in env_full seq_lens last_loc (sw_full s) = (if int (length (pool_pages (sw_full s))) < k
      then (Inr None, premerge bf (sw_full s))
      else (Inr (Some (launch_in env_full ps (free_pages (premerge bf (sw_full s))) (before seq_lens) seq_lens last_loc (length seq_lens))),
        take_pages k (premerge bf (sw_full s))))"
    and rF: "k \<le> int (length (pool_pages (sw_full s))) \<Longrightarrow> k \<le> int (length (free_pages (premerge bf (sw_full s))))"
    using decode_in_launch [OF okD(2) assms(3) env(1) k_def] by blast
  obtain bw where W: "decode_in env_swa seq_lens lw (sw_swa s) = (if int (length (pool_pages (sw_swa s))) < k
      then (Inr None, premerge bw (sw_swa s))
      else (Inr (Some (launch_in env_swa ps (free_pages (premerge bw (sw_swa s))) (before seq_lens) seq_lens lw (length seq_lens))),
        take_pages k (premerge bw (sw_swa s))))"
    and rW: "k \<le> int (length (pool_pages (sw_swa s))) \<Longrightarrow> k \<le> int (length (free_pages (premerge bw (sw_swa s))))"
    using decode_in_launch [OF okD(3) assms(3) env(2) k_def] by blast
  show ?thesis
  proof (cases "int (length (pool_pages (sw_full s))) < k \<or> int (length (pool_pages (sw_swa s))) < k")
    case True
    then show ?thesis using run assms(3)
      unfolding swa_alloc_decode_def ps_def [symmetric] by (auto simp: lw F W split: if_splits)
  next
    case False
    then have "k \<le> int (length (free_pages (premerge bf (sw_full s))))" "k \<le> int (length (free_pages (premerge bw (sw_swa s))))"
      using rF rW by auto
    from swa_pair_step [OF ok contract env, folded ps_def, OF k_def this lw] False run assms(3)
    show ?thesis unfolding swa_alloc_decode_def ps_def [symmetric] by (auto simp: lw F W)
  qed
qed

section \<open>The tail of a prompt\<close>

lemma launch_prompt:
  assumes "0 < ps" and "orders env 1" and "k = pages_upto ps m" and "k \<le> int (length pages)" and "int i < m"
  shows "launch (fst env) (fst (snd env)) (snd (snd env)) ps pages [0] [m] [-1] (int i) =
    pages ! nat (int i div ps) * ps + int i mod ps" and "int i div ps < k"
proof -
  have lens: "lens_ok [0] [m]" using assms(5) by (simp add: lens_ok_def)
  have req: "in_request [0] [m] 0 (int i)" using assms(5) by simp
  have f: "fill_len ps 0 m = 0" using assms by (intro fill_len_zero) auto
  have z: "pages_upto ps 0 = 0" using assms(1) by (simp add: pages_upto_def)
  show i: "int i div ps < k"
    using new_page_index(2) [OF assms(1), of 0 m "int i"] assms(3,5) f z by simp
  have "0 \<le> int i div ps" using assms(1) by (simp add: pos_imp_zdiv_nonneg_iff)
  then show "launch (fst env) (fst (snd env)) (snd (snd env)) ps pages [0] [m] [-1] (int i) =
    pages ! nat (int i div ps) * ps + int i mod ps"
    using launch_at [OF assms(1) lens _ _ req, of "fst env" "[-1]" pages "snd (snd env)" "fst (snd env)"] assms(2,4) i f
    by (simp add: orders_def extend_loc_def load_page_def)
qed

text \<open>The tail starts at a page boundary, so its slots stand at the places the window slots have.\<close>

lemma tail_len_aligned:
  assumes "0 < ps" and "0 < seq_len"
  shows "0 \<le> swa_tail_len prealloc window ps seq_len" and "swa_tail_len prealloc window ps seq_len \<le> seq_len"
    and "(seq_len - swa_tail_len prealloc window ps seq_len) mod ps = 0"
proof -
  have w: "0 \<le> max 0 (seq_len - x) div ps * ps \<and> max 0 (seq_len - x) div ps * ps \<le> max 0 (seq_len - x)" for x
  proof
    show "0 \<le> max 0 (seq_len - x) div ps * ps" using assms(1) by (simp add: pos_imp_zdiv_nonneg_iff)
    show "max 0 (seq_len - x) div ps * ps \<le> max 0 (seq_len - x)"
      using div_mult_mod_eq [of "max 0 (seq_len - x)" ps] pos_mod_sign [OF assms(1), of "max 0 (seq_len - x)"] by linarith
  qed
  show "0 \<le> swa_tail_len prealloc window ps seq_len" "swa_tail_len prealloc window ps seq_len \<le> seq_len"
    using assms(2) w by (auto simp: swa_tail_len_def Let_def split: option.splits) (smt (verit) w)+
  show "(seq_len - swa_tail_len prealloc window ps seq_len) mod ps = 0"
    using assms(2) by (simp add: swa_tail_len_def Let_def split: option.splits)
qed

lemma prompt_lockstep:
  assumes ps: "0 < ps" and env: "orders ef 1" "orders ew 1"
    and full: "pages_upto ps (int n) \<le> int (length pf)" "distinct pf"
    and swa: "pages_upto ps (int m) \<le> int (length pw)" "distinct pw"
    and m: "m \<le> n" "int (n - m) mod ps = 0"
    and R: "lockstep ps R" "\<forall>(i, a) \<in> R. i div ps \<notin> set pf \<and> a div ps \<notin> set pw"
  shows "lockstep ps (R \<union> set (zip (drop (n - m) (launch_in ef ps pf [0] [int n] [-1] n)) (launch_in ew ps pw [0] [int m] [-1] m)))"
proof -
  define c where "c = int (n - m) div ps"
  have c: "int (n - m) = c * ps" using m(2) div_mult_mod_eq [of "int (n - m)" ps] by (simp add: c_def)
  define F where "F x = pf ! nat (c + int x div ps) * ps + int x mod ps" for x
  define W where "W x = pw ! nat (int x div ps) * ps + int x mod ps" for x
  have split: "(c * ps + y) div ps = c + y div ps" "(c * ps + y) mod ps = y mod ps" for y using ps by simp_all
  have pos: "0 \<le> c" "0 \<le> int x div ps" for x using ps by (simp_all add: c_def pos_imp_zdiv_nonneg_iff)
  have Fx: "launch_in ef ps pf [0] [int n] [-1] n ! (n - m + x) = F x" "c + int x div ps < int (length pf)" if "x < m" for x
  proof -
    have e: "int (n - m + x) = c * ps + int x" using c by simp
    have "int (n - m + x) < int n" using that m(1) by linarith
    note lp = launch_prompt [OF ps env(1) refl full(1) this, unfolded e split]
    show "c + int x div ps < int (length pf)" using lp(2) full(1) by linarith
    have "n - m + x < n" using that m(1) by linarith
    then have "launch_in ef ps pf [0] [int n] [-1] n ! (n - m + x) =
        launch (fst ef) (fst (snd ef)) (snd (snd ef)) ps pf [0] [int n] [-1] (int (n - m + x))"
      unfolding launch_in_def by (subst nth_map) (simp_all only: length_upt nth_upt minus_nat.diff_0 add_0)
    then show "launch_in ef ps pf [0] [int n] [-1] n ! (n - m + x) = F x" unfolding e lp(1) F_def .
  qed
  have Wx: "launch_in ew ps pw [0] [int m] [-1] m ! x = W x" "int x div ps < int (length pw)" if "x < m" for x
    using launch_prompt [OF ps env(2) refl swa(1), of x] that swa(1) by (auto simp: launch_in_def W_def)
  have "drop (n - m) (launch_in ef ps pf [0] [int n] [-1] n) = map F [0..<m]"
    using Fx(1) m(1) by (intro nth_equalityI) simp_all
  moreover have "launch_in ew ps pw [0] [int m] [-1] m = map W [0..<m]"
    using Wx by (intro nth_equalityI) (simp_all add: launch_in_def)
  moreover have Fd: "F x div ps = pf ! nat (c + int x div ps)" "F x mod ps = int x mod ps"
    and Wd: "W x div ps = pw ! nat (int x div ps)" "W x mod ps = int x mod ps" for x
    using ps by (simp_all add: F_def W_def)
  have "lockstep ps ((\<lambda>x. (F x, W x)) ` {..<m})"
  proof -
    have "W x div ps = W y div ps \<longleftrightarrow> F x div ps = F y div ps" if "x < m" "y < m" for x y
      using Fx(2) [OF that(1)] Fx(2) [OF that(2)] Wx(2) [OF that(1)] Wx(2) [OF that(2)] pos full(2) swa(2)
      by (simp add: Fd Wd nth_eq_iff_index_eq nat_less_iff eq_nat_nat_iff)
    then show ?thesis by (auto simp: lockstep_def Fd Wd)
  qed
  moreover have "a div ps = W x div ps \<longleftrightarrow> i div ps = F x div ps" if "(i, a) \<in> R" "x < m" for i a x
  proof -
    have "pf ! nat (c + int x div ps) \<in> set pf" "pw ! nat (int x div ps) \<in> set pw"
      using Fx(2) [OF that(2)] Wx(2) [OF that(2)] pos by (intro nth_mem; simp add: nat_less_iff)+
    then have "F x div ps \<noteq> i div ps" "W x div ps \<noteq> a div ps" using R(2) that(1) by (auto simp: Fd Wd)
    then show ?thesis by metis
  qed
  then have "lockstep ps (R \<union> (\<lambda>x. (F x, W x)) ` {..<m})"
    using calculation by (intro lockstep_Un [OF R(1)]) auto
  ultimately show ?thesis by (simp add: set_zip_maps lessThan_atLeast0)
qed

lemma swa_tail_step:
  fixes s defines "ps \<equiv> sw_page_size s"
  assumes ok: "swa_ok s H" and "1 < ps" and env: "orders ef 1" "orders ew 1"
    and tail: "0 \<le> tail" "tail \<le> int n" "(int n - tail) mod ps = 0"
    and run: "swa_alloc_extend_tail ef ew [0] [int n] [-1] n tail s = (r, t)"
  shows "r = Inr None \<and> t = s \<or> (\<exists>f. r = Inr (Some f) \<and> length f = n \<and> distinct f \<and> swa_ok t (H \<union> pages_in ps f) \<and>
    set (drop (n - nat tail) f) \<subseteq> dom (swa_slot t))"
proof -
  note okD = swa_okD [OF ok, folded ps_def]
  have ps: "0 < ps" using assms(3) by simp
  have lens: "lens_ok [0] [int n]" "lens_ok [0] [tail]" using tail(1) by (simp_all add: lens_ok_def)
  have ext: "int n = ext_start [int n] [0] (length [int n])" "int (nat tail) = ext_start [tail] [0] (length [tail])"
    using tail(1) by (simp_all add: ext_start_def)
  have z: "pages_upto ps 0 = 0" using ps by (simp add: pages_upto_def)
  have pst: "pages_upto ps m = page_start ps [m] [0] (length [m])" for m by (simp add: page_start_def z)
  have count: "get_num_new_pages ps [int n] (Some [0]) False = Inr (pages_upto ps (int n))"
    by (simp add: get_num_new_pages_def z)
  have norm: "norm_last ps [0] [-1] = [-1]" by (simp add: norm_last_def)
  have env': "orders ef (length [int n])" "orders ew (length [tail])" using env by simp_all
  note avail = available_pages [OF okD(2) assms(3)] available_pages [OF okD(3) assms(3)]
  show ?thesis
  proof (cases "int (length (pool_pages (sw_full s))) < pages_upto ps (int n) \<or> int (length (pool_pages (sw_swa s))) < pages_upto ps tail")
    case True
    then have "swa_alloc_extend_tail ef ew [0] [int n] [-1] n tail s = (Inr None, s)"
      using assms(3) tail unfolding swa_alloc_extend_tail_def ps_def [symmetric] Let_def count avail
      by (auto simp: pages_upto_def)
    then show ?thesis using run by simp
  next
    case False
    then have kf: "pages_upto ps (int n) \<le> int (length (pool_pages (sw_full s)))"
      and kw: "pages_upto ps tail \<le> int (length (pool_pages (sw_swa s)))" by auto
    obtain bf where F: "pages_upto ps (int n) \<le> int (length (free_pages (premerge bf (sw_full s))))"
      "extend_in ef [0] [int n] [-1] n None (sw_full s) =
        (Inr (Some (launch_in ef ps (free_pages (premerge bf (sw_full s))) [0] [int n] [-1] n)),
         take_pages (pages_upto ps (int n)) (premerge bf (sw_full s)))"
      using extend_in_launch [OF okD(2) ps lens(1) ext(1) pst kf] by blast
    obtain bw where W: "pages_upto ps tail \<le> int (length (free_pages (premerge bw (sw_swa s))))"
      "extend_in ew [0] [tail] [-1] (nat tail) None (sw_swa s) =
        (Inr (Some (launch_in ew ps (free_pages (premerge bw (sw_swa s))) [0] [tail] [-1] (nat tail))),
         take_pages (pages_upto ps tail) (premerge bw (sw_swa s)))"
      using extend_in_launch [OF okD(3) ps lens(2) ext(2) pst kw] by blast
    let ?f = "launch_in ef ps (free_pages (premerge bf (sw_full s))) [0] [int n] [-1] n"
    let ?w = "launch_in ew ps (free_pages (premerge bw (sw_swa s))) [0] [tail] [-1] (nat tail)"
    let ?full = "take_pages (pages_upto ps (int n)) (premerge bf (sw_full s))"
    let ?swa = "take_pages (pages_upto ps tail) (premerge bw (sw_swa s))"
    have triv: "\<forall>i < length [m]. [0] ! i mod ps \<noteq> 0 \<longrightarrow> ([-1] ! i + 1) mod ps = [0] ! i mod ps \<and> [-1] ! i div ps \<in> G"
      for m :: int and G by simp
    note iF = inner_launch [OF okD(2,7) lens(1) env'(1) ext(1) pst F(1) triv]
    note iW = inner_launch [OF okD(3,8) lens(2) env'(2) ext(2) pst W(1) triv]
    have batch: "batch_ok ps [0] [int n] [-1]" by (simp add: batch_ok_def lens_ok_def)
    have "inj_on (\<lambda>i. launch (fst ef) (fst (snd ef)) (snd (snd ef)) ps (free_pages (premerge bf (sw_full s))) [0] [int n] [-1] (int i)) {0..<n}"
      by (rule launch_inj_on [OF ps batch _ _ iF(5) F(1) [unfolded pst] ext(1)])
        (use env'(1) in \<open>simp_all add: orders_def own_last_pages_def\<close>)
    then have dist: "distinct ?f" by (simp add: launch_in_def distinct_map)
    show ?thesis
    proof (cases "tail = 0")
      case True
      then have z: "pages_upto ps tail = 0" using z by simp
      have "swa_ok (s\<lparr>sw_full := ?full\<rparr>) (H \<union> pages_in ps ?f)"
        using okD iF(2,3,4) swa_slot_cong [of "s\<lparr>sw_full := ?full\<rparr>" s] swa_pages_cong [of "s\<lparr>sw_full := ?full\<rparr>" s]
        by (intro swa_okI) (simp_all add: ps_def)
      moreover have "swa_alloc_extend_tail ef ew [0] [int n] [-1] n tail s = (Inr (Some ?f), s\<lparr>sw_full := ?full\<rparr>)"
        using False assms(3) avail True tail z unfolding swa_alloc_extend_tail_def ps_def [symmetric] Let_def
        by (simp add: count F(2))
      ultimately show ?thesis using run dist True by (intro disjI2 exI [of _ ?f]) simp
    next
      case nz: False
      have fresh: "\<forall>(i, a) \<in> Map.graph (swa_slot s). i div ps \<notin> set (free_pages (premerge bf (sw_full s))) \<and>
          a div ps \<notin> set (free_pages (premerge bw (sw_swa s)))"
      proof clarify
        fix i a assume "(i, a) \<in> Map.graph (swa_slot s)"
        then have "i div ps \<in> H" "a div ps \<in> swa_pages s"
          using okD(10) [of i] by (auto simp: Map.graph_def swa_pages_def ran_def ps_def)
        then show "i div ps \<notin> set (free_pages (premerge bf (sw_full s))) \<and> a div ps \<notin> set (free_pages (premerge bw (sw_swa s)))"
          using iF(6) iW(6) by blast
      qed
      have al: "int (n - nat tail) mod ps = 0" "nat tail \<le> n" using tail by auto
      have tl: "int (nat tail) = tail" using tail(1) by simp
      let ?d = "drop (n - nat tail) ?f"
      have lock: "lockstep ps (Map.graph (swa_slot s) \<union> set (zip ?d ?w))"
      proof -
        have W': "pages_upto ps (int (nat tail)) \<le> int (length (free_pages (premerge bw (sw_swa s))))" using W(1) by (simp only: tl)
        from prompt_lockstep [OF ps env F(1) iF(5) W' iW(5) al(2,1) okD(9) fresh] show ?thesis by (simp only: tl)
      qed
      have dw: "length ?w = length ?d" using al(2) by simp
      have pos: "\<forall>a \<in> set ?w. 0 < a"
        using partition_positive [of ?swa "swa_pages s" ?w] iW(2,4) by (simp only: inner_ok_def) blast
      have sub: "H \<union> pages_in ps ?d \<subseteq> H \<union> pages_in ps ?f"
        using set_drop_subset [of "n - nat tail" ?f] by (auto simp: pages_in_def)
      from swa_grow [OF ok _ dw pos, folded ps_def, OF _ iF(2,4,3) iW(2,4) sub lock] dist
      obtain m where m: "scatter (sw_map s) ?d ?w = Inr m"
        and t: "swa_ok (s\<lparr>sw_full := ?full, sw_swa := ?swa, sw_map := m\<rparr>) (H \<union> pages_in ps ?f)"
        and slot: "swa_slot (s\<lparr>sw_full := ?full, sw_swa := ?swa, sw_map := m\<rparr>) = swa_slot s ++ map_of (zip ?d ?w)"
        by (auto simp only: distinct_drop)
      have "set ?d \<subseteq> dom (swa_slot (s\<lparr>sw_full := ?full, sw_swa := ?swa, sw_map := m\<rparr>))"
        unfolding slot using dom_map_of_zip [OF dw [symmetric]] by auto
      moreover have "swa_alloc_extend_tail ef ew [0] [int n] [-1] n tail s =
          (Inr (Some ?f), s\<lparr>sw_full := ?full, sw_swa := ?swa, sw_map := m\<rparr>)"
        using False assms(3) avail nz tail m unfolding swa_alloc_extend_tail_def ps_def [symmetric] Let_def
        by (simp add: count F(2) W(2) pages_upto_def [symmetric] record_mapping_def)
      ultimately show ?thesis using run dist t by (intro disjI2 exI [of _ ?f]) simp
    qed
  qed
qed

section \<open>Single slots\<close>

lemma swa_alloc_step:
  assumes ok: "swa_ok s H" and one: "sw_page_size s = 1"
  shows "if int (length (pool_pages (sw_full s))) < int n \<or> int (length (pool_pages (sw_swa s))) < int n
    then swa_alloc n s = (Inr None, s)
    else \<exists>f t. swa_alloc n s = (Inr (Some f), t) \<and> length f = n \<and> distinct f \<and> swa_ok t (H \<union> pages_in 1 f) \<and>
      set f \<subseteq> dom (swa_slot t)"
proof -
  note okD = swa_okD [OF ok, unfolded one]
  have avail: "attn_available_size a = int (length (pool_pages a))" if "inner_ok 1 a" for a
    using that by (simp add: attn_available_size_def token_available_size_def inner_ok_def)
  have alloc: "\<exists>v a'. token_alloc n a = (Some v, a') \<and> length v = n \<and> distinct v \<and> set v \<inter> G = {} \<and> inner_ok 1 a' \<and>
      pool_size a' = pool_size a \<and> paged_partition a' (G \<union> pages_in 1 v)"
    if "inner_ok 1 a" "paged_partition a G" "n \<le> length (pool_pages a)" for a G
  proof -
    let ?a1 = "premerge (length (free_pages a) < n) a"
    have room: "n \<le> length (free_pages ?a1)" using that(1,3) by (auto simp: premerge_def inner_ok_def)
    have e: "token_alloc n a = (Some (take n (free_pages ?a1)), ?a1\<lparr>free_pages := drop n (free_pages ?a1)\<rparr>)"
      using room unfolding token_alloc_def Let_def premerge_def [symmetric] by simp
    have p: "paged_partition ?a1 G" using that(2) by simp
    then have "distinct (take n (free_pages ?a1))" "set (take n (free_pages ?a1)) \<inter> G = {}"
      using set_take_subset [of n "free_pages ?a1"] by (auto simp: paged_partition_def)
    moreover have "paged_partition (?a1\<lparr>free_pages := drop n (free_pages ?a1)\<rparr>) (G \<union> pages_in 1 (take n (free_pages ?a1)))"
      by (rule partition_take [OF p]) (simp add: pages_in_def)
    moreover have "inner_ok 1 (?a1\<lparr>free_pages := drop n (free_pages ?a1)\<rparr>)" using that(1) by (auto simp: inner_ok_def premerge_def)
    ultimately show ?thesis using e room by simp
  qed
  show ?thesis
  proof (cases "int (length (pool_pages (sw_full s))) < int n \<or> int (length (pool_pages (sw_swa s))) < int n")
    case True
    then show ?thesis unfolding swa_alloc_def avail [OF okD(2)] avail [OF okD(3)] by (auto simp: one)
  next
    case False
    then have nn: "n \<le> length (pool_pages (sw_full s))" "n \<le> length (pool_pages (sw_swa s))" by auto
    from alloc [OF okD(2,7) nn(1)] obtain f full where f: "token_alloc n (sw_full s) = (Some f, full)" "length f = n" "distinct f"
      "set f \<inter> H = {}" "inner_ok 1 full" "pool_size full = pool_size (sw_full s)" "paged_partition full (H \<union> pages_in 1 f)" by blast
    from alloc [OF okD(3,8) nn(2)] obtain w swa where w: "token_alloc n (sw_swa s) = (Some w, swa)" "length w = n" "distinct w"
      "set w \<inter> swa_pages s = {}" "inner_ok 1 swa" "paged_partition swa (swa_pages s \<union> pages_in 1 w)" by blast
    have lock: "lockstep 1 (Map.graph (swa_slot s) \<union> set (zip f w))"
    proof (rule lockstep_Un [OF okD(9)])
      show "lockstep 1 (set (zip f w))" using f(2,3) w(2,3) by (auto simp: lockstep_def in_set_zip nth_eq_iff_index_eq)
      fix i a j b assume "(i, a) \<in> Map.graph (swa_slot s)" "(j, b) \<in> set (zip f w)"
      then have "i \<in> H" "a \<in> swa_pages s" "j \<in> set f" "b \<in> set w"
        using okD(10) [of i] by (auto simp: Map.graph_def swa_pages_def ran_def one dest: set_zip_leftD set_zip_rightD)
      then show "a div 1 = b div 1 \<longleftrightarrow> i div 1 = j div 1" using f(4) w(4) by auto
    qed
    have pos: "\<forall>a \<in> set w. 0 < a"
      using partition_positive [of swa "swa_pages s" w] w(5,6) by (simp only: inner_ok_def) blast
    have fw: "length w = length f" using f(2) w(2) by simp
    from swa_grow [OF ok f(3) fw pos, unfolded one, OF f(5,7,6) w(5,6) order_refl lock]
    obtain m where m: "scatter (sw_map s) f w = Inr m"
      and t: "swa_ok (s\<lparr>sw_full := full, sw_swa := swa, sw_map := m\<rparr>) (H \<union> pages_in 1 f)"
      and slot: "swa_slot (s\<lparr>sw_full := full, sw_swa := swa, sw_map := m\<rparr>) = swa_slot s ++ map_of (zip f w)" by blast
    have "set f \<subseteq> dom (swa_slot (s\<lparr>sw_full := full, sw_swa := swa, sw_map := m\<rparr>))"
      unfolding slot using dom_map_of_zip [OF fw [symmetric]] by auto
    moreover have "swa_alloc n s = (Inr (Some f), s\<lparr>sw_full := full, sw_swa := swa, sw_map := m\<rparr>)"
      using False unfolding swa_alloc_def avail [OF okD(2)] avail [OF okD(3)] by (auto simp: one f(1) w(1) both_allocated_ok [OF m])
    ultimately show ?thesis using False t f(2,3) by (simp only: if_False) blast
  qed
qed

section \<open>Release\<close>

text \<open>
  What a client may free: slots of pages that are not in the pool, together with every other
  slot of these pages that has a window slot; with pages of one slot, no slot twice.
\<close>

definition frees_whole :: "swa_allocator \<Rightarrow> int set \<Rightarrow> kv_index list \<Rightarrow> bool" where
  "frees_whole s H v \<longleftrightarrow> pages_in (sw_page_size s) v \<subseteq> H \<and>
     (\<forall>i \<in> dom (swa_slot s). i div sw_page_size s \<in> pages_in (sw_page_size s) v \<longrightarrow> i \<in> set v) \<and>
     (sw_page_size s = 1 \<longrightarrow> distinct v)"

lemma attn_free_ok:
  assumes "inner_ok ps a" and "paged_partition a G" and "pages_in ps v \<subseteq> G" and "ps = 1 \<Longrightarrow> distinct v"
  shows "paged_partition (attn_free v a) (G - pages_in ps v)" and "inner_ok ps (attn_free v a)"
    and "pool_size (attn_free v a) = pool_size a"
proof -
  have pa: "page_size a = ps" and open_: "is_not_in_free_group a" using assms(1) by (auto simp: inner_ok_def)
  show "inner_ok ps (attn_free v a)" "pool_size (attn_free v a) = pool_size a"
    using assms(1) by (auto simp: inner_ok_def attn_free_def token_free_def paged_free_def Let_def)
  show "paged_partition (attn_free v a) (G - pages_in ps v)"
  proof (cases "ps = 1")
    case True
    then have v: "set v = pages_in ps v" by (simp add: pages_in_def)
    have "paged_partition (token_free v a) (G - set v)"
      by (rule partition_give [OF assms(2) assms(4) [OF True]])
        (use assms(3) open_ v in \<open>auto simp: token_free_def grouped_pages_def num_pages_def\<close>)
    then show ?thesis using True pa v by (simp add: attn_free_def)
  next
    case False
    then show ?thesis using partition_free_now [OF assms(2) open_, of v] assms(3) pa by (simp add: attn_free_def)
  qed
qed

lemma free_swa_step:
  assumes ok: "swa_ok s H" and v: "frees_whole s H v"
  shows "\<exists>t. free_swa v s = (Inr (), t) \<and> swa_ok t H \<and> swa_slot t = swa_slot s |` (- set v) \<and>
    sw_full t = sw_full s \<and> (\<forall>x. free_swa v (s\<lparr>sw_full := x\<rparr>) = (Inr (), t\<lparr>sw_full := x\<rparr>))"
proof -
  define ps where "ps = sw_page_size s"
  note okD = swa_okD [OF ok, folded ps_def]
  have pa: "page_size (sw_full s) = ps" using okD(2) by (simp add: inner_ok_def)
  have range: "0 \<le> i \<and> i + 1 < int (length (sw_map s))" if "i \<in> set v" for i
  proof -
    have "i div page_size (sw_full s) \<in> H" using that v pa by (auto simp: frees_whole_def pages_in_def ps_def)
    from held_slot_range [OF okD(7) this] okD(1,4) pa show ?thesis by linarith
  qed
  then have inr: "in_range (sw_map s) v" by (force simp: in_range_def)
  let ?idx = "map (\<lambda>i. sw_map s ! nat i) v"
  let ?w = "filter (\<lambda>i. 0 < i) ?idx"
  let ?m = "put v (replicate (length v) 0) (sw_map s)"
  let ?t = "s\<lparr>sw_swa := attn_free ?w (sw_swa s), sw_map := ?m\<rparr>"
  have slot: "swa_slot ?t = swa_slot s |` (- set v)"
    using swa_slot_zeros [OF inr] swa_slot_cong [of ?t "s\<lparr>sw_map := ?m\<rparr>"] by simp
  have at: "swa_slot s i = (if 0 < sw_map s ! nat i then Some (sw_map s ! nat i) else None)" if "i \<in> set v" for i
    using range [OF that] by (simp add: swa_slot_def)
  have w: "set ?w = {a. \<exists>i \<in> set v. swa_slot s i = Some a}" by (auto simp: at)
  have sub: "pages_in ps ?w \<subseteq> swa_pages s" unfolding pages_in_def w swa_pages_def ran_def ps_def by blast
  have apart: "a div ps \<notin> pages_in ps ?w" if "swa_slot s i = Some a" "i \<notin> set v" for i a
  proof
    assume "a div ps \<in> pages_in ps ?w"
    then obtain j b where j: "j \<in> set v" "swa_slot s j = Some b" "a div ps = b div ps" unfolding pages_in_def w by auto
    have "i div ps = j div ps" using lockstepD(2) [OF okD(9), of i a j b] that(1) j by (simp add: Map.graph_def)
    then have "i div ps \<in> pages_in ps v" using j(1) by (auto simp: pages_in_def)
    then show False using v that by (auto simp: frees_whole_def ps_def)
  qed
  have pages: "swa_pages ?t = swa_pages s - pages_in ps ?w"
  proof (intro set_eqI iffI)
    fix p assume "p \<in> swa_pages ?t"
    then obtain i a where "swa_slot s i = Some a" "i \<notin> set v" "p = a div ps"
      unfolding swa_pages_def slot by (auto simp: ran_def restrict_map_def ps_def split: if_splits)
    then show "p \<in> swa_pages s - pages_in ps ?w" using apart by (auto simp: swa_pages_def ran_def ps_def)
  next
    fix p assume p: "p \<in> swa_pages s - pages_in ps ?w"
    then obtain i a where a: "swa_slot s i = Some a" "p = a div ps" by (auto simp: swa_pages_def ran_def ps_def)
    then have "i \<notin> set v" using p unfolding pages_in_def w by blast
    then show "p \<in> swa_pages ?t" unfolding swa_pages_def slot using a by (auto simp: ran_def restrict_map_def ps_def)
  qed
  have dist: "distinct ?w" if "ps = 1"
  proof -
    have "distinct v" using v that by (simp add: frees_whole_def ps_def)
    moreover have "i = j" if "i \<in> set v" "j \<in> set v" "0 < sw_map s ! nat i" "sw_map s ! nat i = sw_map s ! nat j" for i j
      using lockstepD(2) [OF okD(9), of i "sw_map s ! nat i" j "sw_map s ! nat j"] that at \<open>ps = 1\<close> by (simp add: Map.graph_def)
    ultimately show ?thesis by (auto simp: filter_map distinct_map inj_on_def)
  qed
  note freed = attn_free_ok [OF okD(3,8) sub dist]
  have "swa_ok ?t H"
  proof (rule swa_okI)
    show "0 < sw_page_size ?t" "inner_ok (sw_page_size ?t) (sw_full ?t)" "inner_ok (sw_page_size ?t) (sw_swa ?t)"
      "int (length (sw_map ?t)) = pool_size (sw_full ?t) + sw_page_size ?t + 1" "sw_map ?t \<noteq> []" "paged_partition (sw_full ?t) H"
      using okD freed(2) by (simp_all add: ps_def)
    show "last (sw_map ?t) = -1" using okD(5,6) last_put [of v "sw_map s"] range by simp
    show "paged_partition (sw_swa ?t) (swa_pages ?t)" unfolding pages using freed(1) by simp
    show "lockstep (sw_page_size ?t) (Map.graph (swa_slot ?t))"
      unfolding slot by (rule lockstep_subset [of _ "Map.graph (swa_slot s)"])
        (use okD(9) in \<open>auto simp: ps_def Map.graph_def restrict_map_def split: if_splits\<close>)
    show "i div sw_page_size ?t \<in> H" if "i \<in> dom (swa_slot ?t)" for i
      using that okD(10) [of i] unfolding slot by (auto simp: ps_def)
  qed
  moreover have "free_swa v (s\<lparr>sw_full := x\<rparr>) = (Inr (), ?t\<lparr>sw_full := x\<rparr>)" for x
    unfolding free_swa_def by (simp add: copy_ok(4) [OF inr] copy_ok(2) [OF inr] Let_def)
  moreover from this [of "sw_full s"] have "free_swa v s = (Inr (), ?t)" by simp
  ultimately show ?thesis using slot by (intro exI [of _ ?t]) simp
qed

lemma available_within_size:
  assumes "inner_ok ps a" and "paged_partition a G"
  shows "attn_available_size a \<le> pool_size a"
proof -
  have pa: "page_size a = ps" "0 < ps" "0 \<le> pool_size a" using assms by (auto simp: inner_ok_def paged_partition_def)
  have "card (set (pool_pages a)) \<le> card {1..num_pages a}"
    using assms(2) by (intro card_mono) (auto simp: paged_partition_def)
  moreover have "distinct (pool_pages a)" using assms(2) by (simp add: paged_partition_def)
  ultimately have "length (pool_pages a) \<le> nat (num_pages a)" by (simp only: distinct_card card_atLeastAtMost_int diff_add_cancel)
  moreover have "0 \<le> num_pages a" using pa by (simp add: num_pages_def pos_imp_zdiv_nonneg_iff)
  ultimately have "int (length (pool_pages a)) * ps \<le> num_pages a * ps" using pa(2) by (intro mult_right_mono) auto
  also have "\<dots> \<le> pool_size a"
    using div_mult_mod_eq [of "pool_size a" ps] pos_mod_sign [OF pa(2), of "pool_size a"] unfolding num_pages_def pa(1) by linarith
  finally show ?thesis using pa
    by (auto simp: attn_available_size_def token_available_size_def base_available_size_def algebra_simps)
qed

lemma check_sizes_ok:
  assumes "swa_ok s H" shows "check_sizes s = Inr ()"
  using available_within_size [OF swa_okD(2,7) [OF assms]] available_within_size [OF swa_okD(3,8) [OF assms]]
  by (simp add: check_sizes_def)

lemma swa_slot_group [simp]:
  "swa_slot (s\<lparr>sw_not_in_free_group := b\<rparr>) = swa_slot s" "swa_slot (s\<lparr>sw_free_group := g\<rparr>) = swa_slot s"
  by (rule swa_slot_cong, simp)+

lemma swa_ok_group [simp]:
  "swa_ok (s\<lparr>sw_not_in_free_group := b\<rparr>) H \<longleftrightarrow> swa_ok s H" "swa_ok (s\<lparr>sw_free_group := g\<rparr>) H \<longleftrightarrow> swa_ok s H"
  by (simp_all add: swa_ok_def swa_pages_def)

lemma frees_whole_group [simp]:
  "frees_whole (s\<lparr>sw_not_in_free_group := b\<rparr>) H v \<longleftrightarrow> frees_whole s H v"
  by (simp add: frees_whole_def)

lemma swa_free_now:
  assumes ok: "swa_ok s H" and v: "frees_whole s H v" and open_: "sw_not_in_free_group s"
  shows "\<exists>t. swa_free v s = (Inr (), t) \<and> swa_ok t (H - pages_in (sw_page_size s) v) \<and> swa_slot t = swa_slot s |` (- set v)"
proof (cases "v = []")
  case True
  then show ?thesis using ok by (simp add: swa_free_def restrict_map_def)
next
  case False
  define ps where "ps = sw_page_size s"
  let ?full = "attn_free v (sw_full s)"
  note okD = swa_okD [OF ok, folded ps_def]
  have sub: "pages_in ps v \<subseteq> H" and dist: "ps = 1 \<Longrightarrow> distinct v"
    and whole: "\<And>i. i \<in> dom (swa_slot s) \<Longrightarrow> i div ps \<in> pages_in ps v \<Longrightarrow> i \<in> set v"
    using v by (auto simp: frees_whole_def ps_def)
  note freed = attn_free_ok [OF okD(2,7) sub dist]
  obtain t where t: "swa_ok t H" "swa_slot t = swa_slot s |` (- set v)" "sw_full t = sw_full s"
    and run: "free_swa v (s\<lparr>sw_full := ?full\<rparr>) = (Inr (), t\<lparr>sw_full := ?full\<rparr>)" and run0: "free_swa v s = (Inr (), t)"
    using free_swa_step [OF ok v] by blast
  have ps_t: "sw_page_size t = ps"
    using run0 by (auto simp: free_swa_def ps_def Let_def split: sum.splits)
  note tD = swa_okD [OF t(1), unfolded ps_t]
  let ?t = "t\<lparr>sw_full := ?full\<rparr>"
  have slot: "swa_slot ?t = swa_slot t" "swa_pages ?t = swa_pages t" by (rule swa_slot_cong, simp) (rule swa_pages_cong, simp_all)
  have "swa_ok ?t (H - pages_in ps v)"
  proof (rule swa_okI)
    show "i div sw_page_size ?t \<in> H - pages_in ps v" if "i \<in> dom (swa_slot ?t)" for i
      using that tD(10) [of i] whole [of i] ps_t unfolding slot t(2) by auto
  qed (use tD freed ps_t t(3) slot in simp_all)
  moreover from this have "swa_free v s = (Inr (), ?t)"
    using False open_ run check_sizes_ok by (simp add: swa_free_def Let_def)
  ultimately show ?thesis using slot t(2) by (simp add: ps_def)
qed

lemma swa_free_later:
  assumes "swa_ok s H" and "\<not> sw_not_in_free_group s"
  shows "\<exists>g. swa_free v s = (Inr (), s\<lparr>sw_free_group := g\<rparr>)"
proof (cases "v = []")
  case True
  then show ?thesis by (intro exI [of _ "sw_free_group s"]) (simp add: swa_free_def)
next
  case False
  have "check_sizes (s\<lparr>sw_free_group := sw_free_group s @ [v]\<rparr>) = Inr ()"
    by (rule check_sizes_ok [of _ H]) (simp add: assms(1))
  then show ?thesis using assms(2) False
    by (intro exI [of _ "sw_free_group s @ [v]"]) (simp add: swa_free_def)
qed

lemma swa_empty_slots: "swa_slot (s\<lparr>sw_map := replicate n 0 @ [-1]\<rparr>) = Map.empty"
  by (auto simp: fun_eq_iff swa_slot_def nth_append)

lemma attn_clear_ok:
  assumes "page_size a = ps" and "0 < ps" and "0 \<le> pool_size a"
  shows "inner_ok ps (attn_clear a)" and "paged_partition (attn_clear a) {}" and "pool_size (attn_clear a) = pool_size a"
  using assms by (simp_all add: attn_clear_def token_clear_def paged_clear_def inner_ok_def paged_partition_def
      grouped_pages_def num_pages_def)

lemma swa_cleared:
  assumes "0 < ps" and "page_size full = ps" and "0 \<le> pool_size full" and "page_size swa = ps" and "0 \<le> pool_size swa"
    and "int n = pool_size full + ps"
  shows "swa_ok \<lparr>sw_page_size = ps, sw_full = attn_clear full, sw_swa = attn_clear swa, sw_map = replicate n 0 @ [-1],
    sw_not_in_free_group = b, sw_free_group = g\<rparr> {}" (is "swa_ok ?s _")
proof -
  have "swa_slot ?s = Map.empty" using swa_empty_slots [of n ?s] by simp
  moreover from this have "swa_pages ?s = {}" by (simp add: swa_pages_def)
  ultimately show ?thesis
    using attn_clear_ok [OF assms(2,1,3)] attn_clear_ok [OF assms(4,1,5)] assms(1,6)
    by (intro swa_okI) (simp_all add: lockstep_def)
qed

lemma swa_clear_ok:
  assumes "swa_ok s H" shows "swa_ok (swa_clear s) {}"
proof -
  note okD = swa_okD [OF assms]
  have "drop (length (sw_map s) - 1) (sw_map s) = [-1]"
    using okD(5,6) by (metis append_butlast_last_id append_eq_conv_conj length_butlast)
  then have "swa_clear s = \<lparr>sw_page_size = sw_page_size s, sw_full = attn_clear (sw_full s), sw_swa = attn_clear (sw_swa s),
      sw_map = replicate (length (sw_map s) - 1) 0 @ [-1], sw_not_in_free_group = True, sw_free_group = []\<rparr>"
    by (simp add: swa_clear_def)
  moreover have "int (length (sw_map s) - 1) = pool_size (sw_full s) + sw_page_size s" using okD(4,5) by (cases "sw_map s") auto
  ultimately show ?thesis using okD(1,2,3) by (auto simp: inner_ok_def intro!: swa_cleared)
qed

lemma swa_init_ok:
  assumes "0 < ps" and "0 \<le> sz" and "0 \<le> size_swa"
  shows "swa_ok (swa_init sz size_swa ps srt) {}"
proof -
  have f: "page_size (attn_init n ps srt) = ps" "pool_size (attn_init n ps srt) = n" for n
    by (simp_all add: attn_init_def token_init_def token_clear_def paged_init_def paged_clear_def)
  have "swa_init sz size_swa ps srt = \<lparr>sw_page_size = ps, sw_full = attn_clear (attn_init sz ps srt),
      sw_swa = attn_clear (attn_init size_swa ps srt), sw_map = replicate (nat (sz + ps)) 0 @ [-1],
      sw_not_in_free_group = True, sw_free_group = []\<rparr>"
    by (simp add: swa_init_def swa_clear_def)
  then show ?thesis using assms f swa_cleared [of ps "attn_init sz ps srt" "attn_init size_swa ps srt" "nat (sz + ps)"] by simp
qed

section \<open>Runs\<close>

text \<open>
  The states that clients reach, with the full pages outside the pool. Clients extend requests
  whose last slot has a window slot, ask for a tail as \<^verbatim>\<open>_swa_tail_len\<close> computes it, and free whole
  pages. Within a free group nothing returns to the pools until the group ends. A decode step that
  fails ends the run: the caller raises.
\<close>

inductive swa_run :: "swa_allocator \<Rightarrow> int set \<Rightarrow> bool" where
  start: "0 < ps \<Longrightarrow> 0 \<le> sz \<Longrightarrow> 0 \<le> size_swa \<Longrightarrow> swa_run (swa_init sz size_swa ps srt) {}"
| alloc: "swa_run s H \<Longrightarrow> sw_page_size s = 1 \<Longrightarrow> swa_alloc n s = (Inr r, t) \<Longrightarrow> swa_run t (H \<union> pages_in 1 (slots_of r))"
| extend: "swa_run s H \<Longrightarrow> 1 < sw_page_size s \<Longrightarrow> extend_contract s pre_lens seq_lens last_loc n \<Longrightarrow>
    orders ef (length seq_lens) \<Longrightarrow> orders ew (length seq_lens) \<Longrightarrow>
    swa_alloc_extend ef ew pre_lens seq_lens last_loc n s = (Inr r, t) \<Longrightarrow>
    swa_run t (H \<union> pages_in (sw_page_size s) (slots_of r))"
| tail: "swa_run s H \<Longrightarrow> 1 < sw_page_size s \<Longrightarrow> 0 < n \<Longrightarrow> orders ef 1 \<Longrightarrow> orders ew 1 \<Longrightarrow>
    swa_alloc_extend_tail ef ew [0] [int n] [-1] n (swa_tail_len prealloc window (sw_page_size s) (int n)) s = (Inr r, t) \<Longrightarrow>
    swa_run t (H \<union> pages_in (sw_page_size s) (slots_of r))"
| decode: "swa_run s H \<Longrightarrow> 1 < sw_page_size s \<Longrightarrow>
    extend_contract s (before seq_lens) seq_lens last_loc (length seq_lens) \<Longrightarrow>
    orders ef (length seq_lens) \<Longrightarrow> orders ew (length seq_lens) \<Longrightarrow>
    swa_alloc_decode ef ew seq_lens last_loc s = (Inr (Some f), t) \<Longrightarrow>
    swa_run t (H \<union> pages_in (sw_page_size s) f)"
| free: "swa_run s H \<Longrightarrow> sw_not_in_free_group s \<Longrightarrow> frees_whole s H v \<Longrightarrow> swa_free v s = (r, t) \<Longrightarrow>
    swa_run t (H - pages_in (sw_page_size s) v)"
| free_window: "swa_run s H \<Longrightarrow> frees_whole s H v \<Longrightarrow> free_swa v s = (r, t) \<Longrightarrow> swa_run t H"
| free_later: "swa_run s H \<Longrightarrow> \<not> sw_not_in_free_group s \<Longrightarrow> swa_free v s = (r, t) \<Longrightarrow> swa_run t H"
| group_begin: "swa_run s H \<Longrightarrow> swa_run (swa_free_group_begin s) H"
| group_end: "swa_run s H \<Longrightarrow> frees_whole s H (concat (sw_free_group s)) \<Longrightarrow> swa_free_group_end s = (r, t) \<Longrightarrow>
    swa_run t (H - pages_in (sw_page_size s) (concat (sw_free_group s)))"
| clear: "swa_run s H \<Longrightarrow> swa_run (swa_clear s) {}"

lemma swa_group_end_step:
  assumes "swa_ok s H" and "frees_whole s H (concat (sw_free_group s))"
  shows "\<exists>t. swa_free_group_end s = (Inr (), t) \<and> swa_ok t (H - pages_in (sw_page_size s) (concat (sw_free_group s)))"
proof (cases "sw_free_group s = []")
  case True
  then show ?thesis using assms(1) by (simp add: swa_free_group_end_def)
next
  case False
  have "swa_ok (s\<lparr>sw_not_in_free_group := True\<rparr>) H" "frees_whole (s\<lparr>sw_not_in_free_group := True\<rparr>) H (concat (sw_free_group s))"
    using assms by simp_all
  from swa_free_now [OF this] False show ?thesis by (simp add: swa_free_group_end_def Let_def) blast
qed

lemma swa_run_ok: "swa_run s H \<Longrightarrow> swa_ok s H"
proof (induction rule: swa_run.induct)
  case (start ps sz size_swa srt)
  then show ?case by (rule swa_init_ok)
next
  case (alloc s H n r t)
  then show ?case using swa_alloc_step [of s H n] by (auto simp: slots_of_def split: if_splits)
next
  case (extend s H pre_lens seq_lens last_loc n ef ew r t)
  from swa_extend_step [OF extend.IH extend.hyps(2-5) refl] extend.IH extend.hyps(6)
  show ?case by (auto simp: slots_of_def split: if_splits)
next
  case (tail s H n ef ew prealloc window r t)
  have "0 < sw_page_size s" "0 < int n" using tail.hyps(2,3) by simp_all
  from swa_tail_step [OF tail.IH tail.hyps(2,4,5) tail_len_aligned [OF this] tail.hyps(6)] tail.IH
  show ?case by (auto simp: slots_of_def)
next
  case (decode s H seq_lens last_loc ef ew f t)
  from swa_decode_step [OF decode.IH decode.hyps(2-6)] show ?case by simp
next
  case (free s H v r t)
  then show ?case using swa_free_now [of s H v] by auto
next
  case (free_window s H v r t)
  then show ?case using free_swa_step [of s H v] by auto
next
  case (free_later s H v r t)
  then show ?case using swa_free_later [of s H v] by auto
next
  case (group_end s H r t)
  then show ?case using swa_group_end_step [of s H] by auto
qed (simp_all add: swa_free_group_begin_def swa_clear_ok)

text \<open>
  C37: in every state that clients reach, window slots follow full slots page by page. A slot with a
  window slot lies on a page that is outside the pool; its window slot stands at the same place of
  its page; two slots share a window page exactly when they share a page. The window pages that are
  not in the window pool are the pages of the window slots in the mapping, so none is lost, and none
  is handed out while it is in use.
\<close>

theorem window_slots_follow:
  assumes "swa_run s H"
  shows "(\<forall>i a. swa_slot s i = Some a \<longrightarrow> i div sw_page_size s \<in> H \<and> a mod sw_page_size s = i mod sw_page_size s) \<and>
    (\<forall>i a j b. swa_slot s i = Some a \<longrightarrow> swa_slot s j = Some b \<longrightarrow>
       (a div sw_page_size s = b div sw_page_size s \<longleftrightarrow> i div sw_page_size s = j div sw_page_size s)) \<and>
    distinct (free_pages (sw_swa s) @ release_pages (sw_swa s)) \<and>
    {1..num_pages (sw_swa s)} - set (free_pages (sw_swa s) @ release_pages (sw_swa s)) =
      {a div sw_page_size s | a. a \<in> ran (swa_slot s)} \<and>
    {1..num_pages (sw_full s)} - set (free_pages (sw_full s) @ release_pages (sw_full s)) = H"
proof -
  note okD = swa_okD [OF swa_run_ok [OF assms]]
  have "{1..num_pages a} - set (pool_pages a) = G" if "inner_ok ps a" "paged_partition a G" for a G ps
    using that by (auto simp: paged_partition_def inner_ok_def grouped_pages_def)
  from this [OF okD(2,7)] this [OF okD(3,8)] okD(8,9,10) show ?thesis
    by (auto simp: swa_pages_def lockstep_def Map.graph_def paged_partition_def)
qed


definition one_instance :: kernel_env where
  "one_instance = ([0], \<lambda>_. 0, \<lambda>_. 0)"

definition sample_swa :: swa_allocator where
  "sample_swa = \<lparr>sw_page_size = 4, sw_full = (paged_init 12 4 False)\<lparr>free_pages := [3]\<rparr>,
     sw_swa = (paged_init 8 4 False)\<lparr>free_pages := []\<rparr>,
     sw_map = [0, 0, 0, 0, 4, 5, 6, 7, 8, 0, 0, 0, 0, 0, 0, 0, -1], sw_not_in_free_group = True, sw_free_group = []\<rparr>"

lemma orders_one [simp]: "orders one_instance (Suc 0)"
  by (auto simp: orders_def one_instance_def)

lemma first_extend: "extend_contract (swa_init 12 8 4 False) [0] [int n] [-1] n"
  by (simp add: extend_contract_def batch_ok_def lens_ok_def ext_start_def swa_init_def swa_clear_def)

lemma sample_swa_run: "swa_run sample_swa {1, 2}"
proof -
  have "swa_alloc_extend one_instance one_instance [0] [5] [-1] 5 (swa_init 12 8 4 False) = (Inr (Some [4, 5, 6, 7, 8]), sample_swa)"
    by code_simp
  from swa_run.extend [OF swa_run.start _ first_extend [of 5, simplified] _ _ this]
  show ?thesis by (simp add: swa_init_def swa_clear_def slots_of_def pages_in_def insert_commute)
qed

theorem window_slots_follow_witness:
  "swa_slot sample_swa 7 = Some 7 \<and> swa_slot sample_swa 8 = Some 8 \<and> (7 :: int) div 4 \<noteq> 8 div 4 \<and>
   {1..num_pages (sw_swa sample_swa)} = {a div 4 | a. a \<in> ran (swa_slot sample_swa)}"
proof -
  have "sw_page_size sample_swa = 4" "free_pages (sw_swa sample_swa) @ release_pages (sw_swa sample_swa) = []" by code_simp+
  moreover have "swa_slot sample_swa 7 = Some 7" "swa_slot sample_swa 8 = Some 8" by code_simp+
  ultimately show ?thesis using window_slots_follow [OF sample_swa_run] by simp
qed

lemma sample_slots: "dom (swa_slot sample_swa) = {4, 5, 6, 7, 8}"
proof -
  have "i \<in> {0..16}" if "i \<in> dom (swa_slot sample_swa)" for i
    using that by (auto simp: swa_slot_def sample_swa_def split: if_splits)
  then have "dom (swa_slot sample_swa) = set (filter (\<lambda>i. swa_slot sample_swa i \<noteq> None) [0..16])" by auto
  moreover have "filter (\<lambda>i. swa_slot sample_swa i \<noteq> None) [0..16] = [4, 5, 6, 7, 8]" by code_simp
  ultimately show ?thesis by (simp only: list.set)
qed


text \<open>A decode step that finds the window pool empty has already taken a page of the other pool.\<close>

lemma decode_failure_loses_pages:
  "\<exists>s t. swa_run s {1, 2} \<and> swa_alloc_decode one_instance one_instance [9] [11] s = (Inr None, t) \<and>
     free_pages (sw_full s) = [3] \<and> free_pages (sw_full t) = []"
proof -
  let ?s = "sample_swa\<lparr>sw_map := [0, 0, 0, 0, 4, 5, 6, 7, 8, 9, 10, 11, 0, 0, 0, 0, -1]\<rparr>"
  have "swa_alloc_extend one_instance one_instance [0] [8] [-1] 8 (swa_init 12 8 4 False) = (Inr (Some [4, 5, 6, 7, 8, 9, 10, 11]), ?s)"
    by code_simp
  from swa_run.extend [OF swa_run.start _ first_extend [of 8, simplified] _ _ this]
  have "swa_run ?s {1, 2}"
    by (simp add: swa_init_def swa_clear_def slots_of_def pages_in_def insert_commute)
  moreover have "swa_alloc_decode one_instance one_instance [9] [11] ?s = (Inr None, ?s\<lparr>sw_full := (sw_full ?s)\<lparr>free_pages := []\<rparr>\<rparr>)"
    "free_pages (sw_full ?s) = [3]" by code_simp+
  ultimately show ?thesis by (intro exI [of _ ?s] exI [of _ "?s\<lparr>sw_full := (sw_full ?s)\<lparr>free_pages := []\<rparr>\<rparr>"]) simp
qed

end
