(* ===== verification/Multimodal_Cache.thy ===== *)
theory Multimodal_Cache
  imports Prelude
begin

text \<open>
  The cache of multimodal embeddings, \<^verbatim>\<open>MultiModalStaticCache\<close> of
  \<^verbatim>\<open>sglang/srt/mem_cache/multimodal_cache.py\<close>: an ordered dictionary, the least recently used
  entry first, whose entries together stay within a number of bytes. Python's \<^verbatim>\<open>hash\<close> of a tuple
  is an argument.
\<close>

section \<open>The cache\<close>

record embedding =
  em_element_size :: nat
  em_numel :: nat
  em_data :: "int list"

definition get_tensor_size :: "embedding \<Rightarrow> int" where
  "get_tensor_size e = int (em_element_size e) * int (em_numel e)"

record mm_cache =
  mm_max_size :: int
  mm_cache :: "(int, embedding) dict"
  mm_current_size :: int

definition mm_init :: "int \<Rightarrow> mm_cache" where
  "mm_init max_size = \<lparr>mm_max_size = max_size, mm_cache = [], mm_current_size = 0\<rparr>"

definition combine_hashes :: "(int list \<Rightarrow> int) \<Rightarrow> int list \<Rightarrow> int option" where
  "combine_hashes hsh mm_hashes = (if mm_hashes = [] then None else Some (hsh mm_hashes))"

definition move_to_end :: "int \<Rightarrow> (int, embedding) dict \<Rightarrow> (int, embedding) dict" where
  "move_to_end k d = (case dict_get d k of None \<Rightarrow> d | Some e \<Rightarrow> dict_pop k d @ [(k, e)])"

definition mm_get_single :: "int \<Rightarrow> mm_cache \<Rightarrow> embedding option \<times> mm_cache" where
  "mm_get_single mm_hash c = (case dict_get (mm_cache c) mm_hash of
      None \<Rightarrow> (None, c)
    | Some e \<Rightarrow> (Some e, c\<lparr>mm_cache := move_to_end mm_hash (mm_cache c)\<rparr>))"

definition mm_get :: "(int list \<Rightarrow> int) \<Rightarrow> int list \<Rightarrow> mm_cache \<Rightarrow> embedding option \<times> mm_cache" where
  "mm_get hsh mm_hashes c = (case combine_hashes hsh mm_hashes of
      None \<Rightarrow> (None, c) | Some k \<Rightarrow> mm_get_single k c)"

text \<open>The loop that makes room; the flag tells whether there is enough.\<close>

fun make_room :: "int \<Rightarrow> int \<Rightarrow> (int, embedding) dict \<Rightarrow> int \<Rightarrow> bool \<times> (int, embedding) dict \<times> int" where
  "make_room max_size data_size [] current =
     (if max_size < current + data_size then (False, [], current) else (True, [], current))"
| "make_room max_size data_size ((k, e) # d) current =
     (if max_size < current + data_size then make_room max_size data_size d (current - get_tensor_size e)
      else (True, (k, e) # d, current))"

definition mm_set :: "int \<Rightarrow> embedding \<Rightarrow> mm_cache \<Rightarrow> bool \<times> mm_cache" where
  "mm_set mm_hash e c =
     (if dict_has (mm_cache c) mm_hash then (True, c\<lparr>mm_cache := move_to_end mm_hash (mm_cache c)\<rparr>)
      else let data_size = get_tensor_size e;
               (enough, d, current) = make_room (mm_max_size c) data_size (mm_cache c) (mm_current_size c)
           in if enough then (True, c\<lparr>mm_cache := dict_set mm_hash e d, mm_current_size := current + data_size\<rparr>)
              else (False, c\<lparr>mm_cache := d, mm_current_size := current\<rparr>))"

definition mm_has :: "int \<Rightarrow> mm_cache \<Rightarrow> bool" where
  "mm_has mm_hash c = dict_has (mm_cache c) mm_hash"

definition mm_free :: "int \<Rightarrow> mm_cache \<Rightarrow> bool \<times> mm_cache" where
  "mm_free mm_hash c = (case dict_get (mm_cache c) mm_hash of
      None \<Rightarrow> (False, c)
    | Some e \<Rightarrow> (True, c\<lparr>mm_cache := dict_pop mm_hash (mm_cache c), mm_current_size := mm_current_size c - get_tensor_size e\<rparr>))"

definition mm_clear :: "mm_cache \<Rightarrow> mm_cache" where
  "mm_clear c = c\<lparr>mm_cache := [], mm_current_size := 0\<rparr>"

definition mm_available_size :: "mm_cache \<Rightarrow> nat" where
  "mm_available_size c = length (mm_cache c)"

section \<open>The bytes in use\<close>

definition bytes_of :: "(int, embedding) dict \<Rightarrow> int" where
  "bytes_of d = sum_list (map get_tensor_size (dict_values d))"

definition mm_ok :: "mm_cache \<Rightarrow> bool" where
  "mm_ok c \<longleftrightarrow> distinct (dict_keys (mm_cache c)) \<and> mm_current_size c = bytes_of (mm_cache c) \<and>
     mm_current_size c \<le> mm_max_size c"

lemma bytes_of_simps [simp]:
  "bytes_of [] = 0" "bytes_of ((k, e) # d) = get_tensor_size e + bytes_of d" "bytes_of (d @ d') = bytes_of d + bytes_of d'"
  by (simp_all add: bytes_of_def)

lemma tensor_size_nonneg [simp]: "0 \<le> get_tensor_size e"
  by (simp add: get_tensor_size_def)

lemma bytes_of_nonneg [simp]: "0 \<le> bytes_of d"
  by (induction d) auto

lemma bytes_of_pop:
  "distinct (dict_keys d) \<Longrightarrow> dict_get d k = Some e \<Longrightarrow> bytes_of (dict_pop k d) = bytes_of d - get_tensor_size e"
proof (induction d)
  case (Cons x d)
  obtain a b where x: "x = (a, b)" by (cases x)
  show ?case
  proof (cases "a = k")
    case True
    then have "dict_pop k d = d" using Cons.prems(1) by (auto simp: x dict_pop_def filter_id_conv)
    then show ?thesis using Cons.prems True by (simp add: x dict_pop_def dict_get_def)
  next
    case False
    then have "bytes_of (dict_pop k d) = bytes_of d - get_tensor_size e" using Cons by (simp add: x dict_get_def)
    then show ?thesis using False by (simp add: x dict_pop_def)
  qed
qed (simp add: dict_get_def)

text \<open>Making room drops entries from the front, no more than needed.\<close>

lemma make_room_drops:
  "make_room max_size ds d (bytes_of d) = (enough, d', current) \<Longrightarrow>
     current = bytes_of d' \<and> (\<exists>n. d' = drop n d \<and> (\<forall>m < n. max_size < bytes_of (drop m d) + ds)) \<and>
     (enough \<longleftrightarrow> bytes_of d' + ds \<le> max_size) \<and> (\<not> enough \<longrightarrow> d' = [])"
proof (induction d)
  case (Cons x d)
  obtain k e where x: "x = (k, e)" by (cases x)
  show ?case
  proof (cases "max_size < bytes_of (x # d) + ds")
    case True
    then have "make_room max_size ds d (bytes_of d) = (enough, d', current)" using Cons.prems by (simp add: x)
    from Cons.IH [OF this] obtain n where n: "d' = drop n d" "\<forall>m < n. max_size < bytes_of (drop m d) + ds"
      and rest: "current = bytes_of d'" "enough \<longleftrightarrow> bytes_of d' + ds \<le> max_size" "\<not> enough \<longrightarrow> d' = []" by blast
    have "\<forall>m < Suc n. max_size < bytes_of (drop m (x # d)) + ds" using n(2) True by (auto simp: less_Suc_eq_0_disj)
    then show ?thesis using n(1) rest by (intro conjI exI [of _ "Suc n"]) simp_all
  next
    case False
    then show ?thesis using Cons.prems by (auto simp: x intro!: exI [of _ 0])
  qed
qed (auto intro!: exI [of _ 0] split: if_splits)

section \<open>Operations keep the bound\<close>

lemma move_to_end_ok:
  assumes "distinct (dict_keys d)"
  shows "distinct (dict_keys (move_to_end k d))" and "bytes_of (move_to_end k d) = bytes_of d"
    and "dict_get (move_to_end k d) = dict_get d"
proof -
  have "dict_get (d @ d') i = (case dict_get d i of None \<Rightarrow> dict_get d' i | Some e \<Rightarrow> Some e)" for d d' :: "(int, embedding) dict" and i
    by (simp add: dict_get_def map_add_def split: option.splits)
  then show "dict_get (move_to_end k d) = dict_get d"
    by (auto simp: move_to_end_def fun_eq_iff split: option.splits)
  show "distinct (dict_keys (move_to_end k d))" "bytes_of (move_to_end k d) = bytes_of d"
    using assms bytes_of_pop [OF assms] by (auto simp: move_to_end_def dict_keys_pop split: option.splits)
qed

lemma mm_set_new:
  assumes ok: "mm_ok c" and new: "\<not> mm_has h c"
  shows "\<exists>n. mm_cache (snd (mm_set h e c)) = drop n (mm_cache c) @ (if fst (mm_set h e c) then [(h, e)] else []) \<and>
    (\<forall>m < n. mm_max_size c < bytes_of (drop m (mm_cache c)) + get_tensor_size e) \<and>
    (fst (mm_set h e c) \<longleftrightarrow> get_tensor_size e \<le> mm_max_size c) \<and> mm_ok (snd (mm_set h e c))"
proof -
  obtain enough d current where r: "make_room (mm_max_size c) (get_tensor_size e) (mm_cache c) (bytes_of (mm_cache c)) = (enough, d, current)"
    by (metis prod_cases3)
  from make_room_drops [OF r] obtain n where n: "d = drop n (mm_cache c)"
      "\<forall>m < n. mm_max_size c < bytes_of (drop m (mm_cache c)) + get_tensor_size e"
    and rest: "current = bytes_of d" "enough \<longleftrightarrow> bytes_of d + get_tensor_size e \<le> mm_max_size c" "\<not> enough \<longrightarrow> d = []" by blast
  have okc: "distinct (dict_keys (mm_cache c))" "mm_current_size c = bytes_of (mm_cache c)" "mm_current_size c \<le> mm_max_size c"
    using ok by (auto simp: mm_ok_def)
  have fresh: "h \<notin> set (dict_keys d)" using new set_drop_subset [of n "mm_cache c"] by (auto simp: n(1) mm_has_def dict_has_def)
  have keys: "distinct (dict_keys d)" using okc(1) by (simp add: n(1) drop_map [symmetric] distinct_drop)
  have "0 \<le> mm_max_size c" using okc(2,3) bytes_of_nonneg [of "mm_cache c"] by linarith
  moreover have "enough \<longleftrightarrow> get_tensor_size e \<le> mm_max_size c"
  proof
    assume "enough"
    then show "get_tensor_size e \<le> mm_max_size c" using rest(2) bytes_of_nonneg [of d] by linarith
  next
    assume "get_tensor_size e \<le> mm_max_size c"
    then show "enough" using rest(2,3) by (cases enough) auto
  qed
  moreover have "mm_set h e c = (if enough then (True, c\<lparr>mm_cache := d @ [(h, e)], mm_current_size := current + get_tensor_size e\<rparr>)
      else (False, c\<lparr>mm_cache := d, mm_current_size := current\<rparr>))"
    using new r okc(2) dict_set_fresh [OF fresh] by (simp add: mm_set_def mm_has_def)
  ultimately show ?thesis
    using n rest keys fresh by (intro exI [of _ n]) (auto simp: mm_ok_def)
qed

lemma mm_set_old: "mm_ok c \<Longrightarrow> mm_has h c \<Longrightarrow> fst (mm_set h e c) \<and> mm_ok (snd (mm_set h e c))"
  by (simp add: mm_set_def mm_has_def mm_ok_def move_to_end_ok)

text \<open>The states the operations reach.\<close>

inductive mm_run :: "mm_cache \<Rightarrow> bool" where
  start: "0 \<le> max_size \<Longrightarrow> mm_run (mm_init max_size)"
| set: "mm_run c \<Longrightarrow> mm_run (snd (mm_set h e c))"
| get: "mm_run c \<Longrightarrow> mm_run (snd (mm_get hsh hs c))"
| get_single: "mm_run c \<Longrightarrow> mm_run (snd (mm_get_single h c))"
| free: "mm_run c \<Longrightarrow> mm_run (snd (mm_free h c))"
| clear: "mm_run c \<Longrightarrow> mm_run (mm_clear c)"

lemma mm_get_single_ok: "mm_ok c \<Longrightarrow> mm_ok (snd (mm_get_single h c))"
  by (auto simp: mm_get_single_def mm_ok_def move_to_end_ok split: option.splits)

lemma mm_run_ok: "mm_run c \<Longrightarrow> mm_ok c"
proof (induction rule: mm_run.induct)
  case (set c h e)
  then show ?case using mm_set_new [of c h e] mm_set_old [of c h e] by blast
next
  case (get c hsh hs)
  then show ?case by (auto simp: mm_get_def mm_get_single_ok split: option.splits)
next
  case (free c h)
  then show ?case
    by (auto simp: mm_free_def mm_ok_def bytes_of_pop split: option.splits) (smt (verit) tensor_size_nonneg)
next
  case (clear c)
  then show ?case using bytes_of_nonneg [of "mm_cache c"] by (auto simp: mm_ok_def mm_clear_def simp del: bytes_of_nonneg)
next
  case (start max_size)
  then show ?case by (simp add: mm_ok_def mm_init_def)
qed (simp add: mm_get_single_ok)

text \<open>
  C39: the cache never holds more bytes than it may, and its counter is exact. An embedding that fits
  into the cache is stored and found again; to store it, the least recently used entries are dropped,
  and no more of them than needed. An embedding larger than the cache is refused.
\<close>

theorem mm_cache_bounded:
  assumes "mm_run c"
  shows "mm_current_size c = (\<Sum>e\<leftarrow>dict_values (mm_cache c). get_tensor_size e) \<and> mm_current_size c \<le> mm_max_size c \<and>
    (\<not> mm_has h c \<longrightarrow> (fst (mm_set h e c) \<longleftrightarrow> get_tensor_size e \<le> mm_max_size c) \<and>
      (fst (mm_set h e c) \<longrightarrow> fst (mm_get_single h (snd (mm_set h e c))) = Some e) \<and>
      (\<exists>n. mm_cache (snd (mm_set h e c)) = drop n (mm_cache c) @ (if fst (mm_set h e c) then [(h, e)] else []) \<and>
        (\<forall>m < n. mm_max_size c < (\<Sum>x\<leftarrow>dict_values (drop m (mm_cache c)). get_tensor_size x) + get_tensor_size e)))"
proof -
  note ok = mm_run_ok [OF assms]
  have "fst (mm_get_single h (snd (mm_set h e c))) = Some e" if new: "\<not> mm_has h c" and stored: "fst (mm_set h e c)"
  proof -
    obtain n where n: "mm_cache (snd (mm_set h e c)) = drop n (mm_cache c) @ [(h, e)]"
      using mm_set_new [OF ok new, of e] stored by auto
    have "mm_ok (snd (mm_set h e c))" using mm_set_new [OF ok new, of e] by blast
    then have "dict_get (mm_cache (snd (mm_set h e c))) h = Some e" 
      unfolding mm_ok_def using dict_get_iff_in [of "mm_cache (snd (mm_set h e c))" h e] n by simp
    then show ?thesis by (simp add: mm_get_single_def)
  qed
  then show ?thesis using ok mm_set_new [OF ok, of h e] by (auto simp: mm_ok_def bytes_of_def)
qed

theorem mm_cache_bounded_witness:
  "\<exists>c. mm_run c \<and> dict_keys (mm_cache c) = [2, 3] \<and> mm_current_size c \<le> 10"
proof -
  let ?e = "\<lambda>n. \<lparr>em_element_size = 2, em_numel = n, em_data = []\<rparr>"
  let ?c = "snd (mm_set 2 (?e 2) (snd (mm_set 1 (?e 2) (mm_init 10))))"
  define c where "c = snd (mm_set 3 (?e 3) ?c)"
  have "mm_run ?c" by (intro mm_run.set mm_run.start) simp
  then have run: "mm_run c" unfolding c_def by (rule mm_run.set)
  have "dict_keys (mm_cache c) = [2, 3]" "mm_max_size c = 10" unfolding c_def by code_simp+
  with run mm_cache_bounded [OF run, of 0 "?e 0"] show ?thesis by (intro exI [of _ c]) simp
qed

text \<open>An embedding that is refused empties the cache first.\<close>

lemma refused_embedding_clears:
  assumes "mm_run c" and "\<not> mm_has h c" and "mm_max_size c < get_tensor_size e"
  shows "mm_set h e c = (False, mm_clear c)"
proof -
  note ok = mm_run_ok [OF assms(1)]
  obtain enough d current where r: "make_room (mm_max_size c) (get_tensor_size e) (mm_cache c) (bytes_of (mm_cache c)) = (enough, d, current)"
    by (metis prod_cases3)
  from make_room_drops [OF r] assms(3) bytes_of_nonneg [of d] have "\<not> enough" "d = []" "current = 0" by auto
  then show ?thesis using r ok assms(2) by (simp add: mm_set_def mm_has_def mm_ok_def mm_clear_def)
qed

end
