(* ===== verification/Reasoning_Parser.thy ===== *)
theory Reasoning_Parser
  imports Json
begin

text \<open>
  Separation of the reasoning from the answer in a model's output, from
  \<^verbatim>\<open>sglang/srt/parser/reasoning_parser.py\<close>: the detectors, their one-shot and their
  incremental parser, and the facade that picks the detector. Text is a list of code points. The
  parser behind \<^verbatim>\<open>GptOssDetector\<close> is not represented: parsing with it is \<^term>\<open>None\<close>.
\<close>

section \<open>String operations\<close>

text \<open>\<^verbatim>\<open>s.find(p)\<close>, with \<^term>\<open>None\<close> for \<open>-1\<close>.\<close>

fun find_sub :: "'a list \<Rightarrow> 'a list \<Rightarrow> nat option" where
  "find_sub p [] = (if p = [] then Some 0 else None)"
| "find_sub p (x # xs) = (if startswith (x # xs) p then Some 0 else map_option Suc (find_sub p xs))"

definition contains :: "'a list \<Rightarrow> 'a list \<Rightarrow> bool" where
  "contains p s \<longleftrightarrow> find_sub p s \<noteq> None"

lemma find_sub_Some:
  "find_sub p s = Some k \<longleftrightarrow> k \<le> length s \<and> startswith (drop k s) p \<and> (\<forall>j < k. \<not> startswith (drop j s) p)"
proof (induction s arbitrary: k)
  case Nil
  then show ?case by (auto simp: startswith_def)
next
  case (Cons x xs)
  show ?case
  proof (cases k)
    case 0
    then show ?thesis by (auto simp: Cons.IH)
  next
    case (Suc m)
    have "(\<forall>j < Suc m. \<not> startswith (drop j (x # xs)) p) \<longleftrightarrow> \<not> startswith (x # xs) p \<and> (\<forall>j < m. \<not> startswith (drop j xs) p)"
      by (auto simp: less_Suc_eq_0_disj)
    then show ?thesis by (auto simp: Suc Cons.IH)
  qed
qed

lemma find_sub_None: "find_sub p s = None \<longleftrightarrow> (\<forall>j \<le> length s. \<not> startswith (drop j s) p)"
proof (induction s)
  case (Cons x xs)
  have le_Suc: "(\<forall>j \<le> Suc n. P j) \<longleftrightarrow> P 0 \<and> (\<forall>j \<le> n. P (Suc j))" for P :: "nat \<Rightarrow> bool" and n
    by (metis Suc_le_mono not0_implies_Suc le0)
  have "(\<forall>j \<le> Suc (length xs). \<not> startswith (drop j (x # xs)) p) \<longleftrightarrow>
      \<not> startswith (x # xs) p \<and> (\<forall>j \<le> length xs. \<not> startswith (drop j xs) p)"
    by (simp add: le_Suc)
  then show ?case by (simp add: Cons.IH)
qed (auto simp: startswith_def)

text \<open>\<^verbatim>\<open>s.replace(p, "")\<close> and \<^verbatim>\<open>s.replace(p, "", 1)\<close>, for a non-empty \<open>p\<close>.\<close>

function remove_all :: "'a list \<Rightarrow> 'a list \<Rightarrow> 'a list" where
  "remove_all p s = (case find_sub p s of None \<Rightarrow> s
     | Some i \<Rightarrow> if p = [] then s else take i s @ remove_all p (drop (i + length p) s))"
  by pat_completeness auto
termination
proof (relation "measure (\<lambda>(p, s). length s)")
  fix p s :: "'a list" and i
  assume "find_sub p s = Some i" "p \<noteq> []"
  then have "startswith (drop i s) p" by (simp add: find_sub_Some)
  with \<open>p \<noteq> []\<close> have "i < length s" by (cases "i < length s") (auto simp: startswith_def)
  with \<open>p \<noteq> []\<close> show "((p, drop (i + length p) s), (p, s)) \<in> measure (\<lambda>(p, s). length s)" by (cases p) auto
qed simp

declare remove_all.simps [simp del]

definition remove_first :: "'a list \<Rightarrow> 'a list \<Rightarrow> 'a list" where
  "remove_first p s = (case find_sub p s of None \<Rightarrow> s | Some i \<Rightarrow> take i s @ drop (i + length p) s)"

definition ulstrip :: "ustr \<Rightarrow> ustr" where
  "ulstrip s = dropWhile uspace s"

definition urstrip :: "ustr \<Rightarrow> ustr" where
  "urstrip s = rev (dropWhile uspace (rev s))"

lemma ustrip_parts: "ustrip s = urstrip (ulstrip s)"
  by (simp add: ustrip_def ulstrip_def urstrip_def)

section \<open>Detectors\<close>

text \<open>How a class changes the methods of the base class; \<^verbatim>\<open>is_first_chunk\<close> is kept here.\<close>

datatype detector_kind = Plain | AppendThink bool | Nemotron bool | Harmony

record detector =
  dt_kind :: detector_kind
  think_start_token :: ustr
  think_end_token :: ustr
  think_excluded_tokens :: "ustr list option"
  tool_start_token :: "ustr option"
  force_reasoning :: bool
  in_reasoning :: bool
  stream_reasoning :: bool
  thinks_internally :: bool
  reasoning_default :: string
  dt_buffer :: ustr
  stripped_think_start :: bool
  think_start_self_label :: ustr
  continue_final_message :: bool
  previous_content :: ustr
  previous_count :: nat

definition base_init :: "ustr \<Rightarrow> ustr \<Rightarrow> ustr list option \<Rightarrow> bool \<Rightarrow> bool \<Rightarrow> ustr option \<Rightarrow> ustr option \<Rightarrow> bool \<Rightarrow> string \<Rightarrow> detector" where
  "base_init start_tok end_tok excluded force stream tool previous internally dflt =
     (let prev = (case previous of None \<Rightarrow> [] | Some p \<Rightarrow> p);
          r1 = (if contains start_tok prev then True else force);
          r2 = (if contains end_tok prev then False else r1)
      in \<lparr>dt_kind = Plain, think_start_token = start_tok, think_end_token = end_tok, think_excluded_tokens = excluded,
          tool_start_token = tool, force_reasoning = force, in_reasoning = r2, stream_reasoning = stream,
          thinks_internally = internally, reasoning_default = dflt, dt_buffer = [], stripped_think_start = False,
          think_start_self_label = [], continue_final_message = (previous \<noteq> None), previous_content = prev,
          previous_count = length prev\<rparr>)"

text \<open>The result of a parser: the normal text and the reasoning text.\<close>

type_synonym parse_result = "ustr \<times> ustr"

definition base_detect_and_parse :: "detector \<Rightarrow> ustr \<Rightarrow> parse_result" where
  "base_detect_and_parse d txt =
     (if \<not> (in_reasoning d \<or> contains (think_start_token d) txt) then (txt, [])
      else let processed = ustrip (remove_all (think_start_token d @ think_start_self_label d) txt)
      in case find_sub (think_end_token d) processed of
           None \<Rightarrow>
             if \<not> contains (think_end_token d) (previous_content d) then
               (case tool_start_token d of
                  None \<Rightarrow> ([], processed)
                | Some tool \<Rightarrow> (case find_sub tool processed of
                      None \<Rightarrow> ([], processed)
                    | Some tool_idx \<Rightarrow> (drop tool_idx processed, ustrip (take tool_idx processed))))
             else (processed, [])
         | Some i \<Rightarrow> (ustrip (drop (i + length (think_end_token d)) processed), take i processed))"

definition base_parse_streaming_increment :: "ustr \<Rightarrow> detector \<Rightarrow> parse_result \<times> detector" where
  "base_parse_streaming_increment new_text d0 =
     (let d = d0\<lparr>dt_buffer := dt_buffer d0 @ new_text\<rparr>;
          txt = dt_buffer d;
          start_text = think_start_token d @ think_start_self_label d;
          tool = (case tool_start_token d of None \<Rightarrow> [] | Some t \<Rightarrow> t);
          tokens = [start_text, think_end_token d] @ (if tool \<noteq> [] then [tool] else [])
      in if list_ex (\<lambda>tok. startswith tok txt \<and> tok \<noteq> txt) tokens then (([], []), d)
         else
           let (txt, d) = (if \<not> stripped_think_start d \<and> contains start_text txt
                 then (remove_first start_text txt, d\<lparr>stripped_think_start := True, in_reasoning := True\<rparr>) else (txt, d))
           in if in_reasoning d then
                (case find_sub (think_end_token d) txt of
                   Some end_idx \<Rightarrow> ((drop (end_idx + length (think_end_token d)) txt, urstrip (take end_idx txt)),
                     d\<lparr>dt_buffer := [], in_reasoning := False\<rparr>)
                 | None \<Rightarrow>
                     (case (if tool \<noteq> [] then find_sub tool txt else None) of
                        Some tool_idx \<Rightarrow> ((drop tool_idx txt, take tool_idx txt), d\<lparr>dt_buffer := [], in_reasoning := False\<rparr>)
                      | None \<Rightarrow> if stream_reasoning d then (([], txt), d\<lparr>dt_buffer := []\<rparr>) else (([], []), d)))
              else ((txt, []), d\<lparr>dt_buffer := []\<rparr>))"

definition detect_and_parse :: "detector \<Rightarrow> ustr \<Rightarrow> parse_result option" where
  "detect_and_parse d txt = (case dt_kind d of
      Plain \<Rightarrow> Some (base_detect_and_parse d txt)
    | AppendThink _ \<Rightarrow> Some (think_start_token d @ txt, [])
    | Nemotron force_nonempty \<Rightarrow>
        (let (normal, reasoning) = base_detect_and_parse d txt
         in if force_nonempty \<and> normal = [] then Some (reasoning, normal) else Some (normal, reasoning))
    | Harmony \<Rightarrow> None)"

definition parse_streaming_increment :: "ustr \<Rightarrow> detector \<Rightarrow> (parse_result \<times> detector) option" where
  "parse_streaming_increment new_text d = (case dt_kind d of
      AppendThink first \<Rightarrow>
        if \<not> first then Some ((think_start_token d @ new_text, []), d\<lparr>dt_kind := AppendThink True\<rparr>) else Some ((new_text, []), d)
    | Harmony \<Rightarrow> None
    | _ \<Rightarrow> Some (base_parse_streaming_increment new_text d))"

section \<open>The classes\<close>

datatype detector_class =
    DeepSeekR1Detector | DeepSeekV3Detector | Glm45Detector | HunyuanDetector | GptOssDetector | KimiDetector
  | KimiK2Detector | MimoDetector | PoolsideV1Detector | Qwen3Detector | MiniMaxAppendThinkDetector | MistralDetector
  | Nemotron3Detector | Gemma4Detector

text \<open>The keyword arguments; \<^term>\<open>None\<close> stands for an argument that is not passed.\<close>

record detector_kwargs =
  kw_stream_reasoning :: bool
  kw_force_reasoning :: "bool option"
  kw_previous_content :: "ustr option"
  kw_force_nonempty :: bool

definition think :: ustr where "think = lit ''<think>''"
definition think_end :: ustr where "think_end = lit ''</think>''"

definition qwen3_init :: "bool \<Rightarrow> bool \<Rightarrow> ustr option \<Rightarrow> detector" where
  "qwen3_init stream force previous = base_init think think_end
     (Some [lit ''<tool_call>'', lit ''</tool_call>'', lit ''<|im_end|>'', lit ''<|endoftext|>''])
     force stream None previous True ''enable_thinking''"

definition kimi_k2_init :: "bool \<Rightarrow> bool \<Rightarrow> ustr option \<Rightarrow> detector" where
  "kimi_k2_init stream force previous = base_init think think_end
     (Some [think, lit ''<|tool_calls_section_begin|>'', lit ''<|tool_call_begin|>'', lit ''<|tool_call_argument_begin|>'',
        lit ''<|tool_call_section_end|>'', lit ''<|tool_call_end|>'', lit ''[EOS]'', lit ''<|im_end|>'',
        lit ''<|end_header_id|>'', lit ''[EOT]''])
     force stream (Some (lit ''<|tool_calls_section_begin|>'')) previous False ''thinking''"

definition glm45_init :: "bool \<Rightarrow> bool \<Rightarrow> detector" where
  "glm45_init stream force = base_init think think_end
     (Some [lit ''<tool_call>'', lit ''</tool_call>'', lit ''<eop>'', lit ''<|user|>'', lit ''<|endoftext|>''])
     force stream (Some (lit ''<tool_call>'')) None True ''enable_thinking''"

definition deepseek_r1_init :: "bool \<Rightarrow> ustr option \<Rightarrow> detector" where
  "deepseek_r1_init stream previous = base_init think think_end None True stream None previous False ''always''"

definition kimi_init :: "bool \<Rightarrow> ustr option \<Rightarrow> detector" where
  "kimi_init stream previous = base_init (9665 # lit ''think'' @ [9655]) (9665 # lit ''/think'' @ [9655]) None False stream None
     previous False ''always''"

definition gpt_oss_init :: "bool \<Rightarrow> bool \<Rightarrow> ustr option \<Rightarrow> detector" where
  "gpt_oss_init stream force previous =
     (base_init (lit ''<|channel|>analysis<|message|>'') (lit ''<|end|>'') None force stream None previous False ''always'')
       \<lparr>dt_kind := Harmony\<rparr>"

definition minimax_append_init :: "bool \<Rightarrow> bool \<Rightarrow> ustr option \<Rightarrow> detector" where
  "minimax_append_init stream force previous =
     (base_init think think_end None force stream None previous False ''always'')\<lparr>dt_kind := AppendThink False\<rparr>"

definition nemotron3_init :: "bool \<Rightarrow> bool \<Rightarrow> ustr option \<Rightarrow> bool \<Rightarrow> detector" where
  "nemotron3_init stream force previous force_nonempty_content =
     (base_init think think_end None force stream None previous False ''enable_thinking'')
       \<lparr>dt_kind := Nemotron force_nonempty_content\<rparr>"

definition mistral_init :: "bool \<Rightarrow> bool \<Rightarrow> ustr option \<Rightarrow> detector" where
  "mistral_init stream force previous = base_init (lit ''[THINK]'') (lit ''[/THINK]'') None force stream None previous False ''mistral''"

definition hunyuan_init :: "bool \<Rightarrow> bool \<Rightarrow> ustr option \<Rightarrow> detector" where
  "hunyuan_init stream force previous =
     base_init think think_end None force stream (Some (lit ''<tool_calls>'')) previous False ''always''"

definition gemma4_init :: "bool \<Rightarrow> bool \<Rightarrow> ustr option \<Rightarrow> detector" where
  "gemma4_init stream force previous =
     (base_init (lit ''<|channel>'') (lit ''<channel|>'') None force stream None previous False ''explicit_enable_thinking'')
       \<lparr>think_start_self_label := lit ''thought'' @ [10]\<rparr>"

definition deepseek_v3_init :: "bool \<Rightarrow> bool \<Rightarrow> ustr option \<Rightarrow> detector" where
  "deepseek_v3_init stream force previous = (qwen3_init stream force previous)\<lparr>reasoning_default := ''explicit_thinking''\<rparr>"

definition mimo_init :: "bool \<Rightarrow> bool \<Rightarrow> ustr option \<Rightarrow> detector" where
  "mimo_init stream force previous = (qwen3_init stream force previous)\<lparr>reasoning_default := ''explicit_enable_thinking''\<rparr>"

definition poolside_v1_init :: "bool \<Rightarrow> bool \<Rightarrow> ustr option \<Rightarrow> detector" where
  "poolside_v1_init stream force previous = (qwen3_init stream force previous)\<lparr>reasoning_default := ''explicit_enable_thinking''\<rparr>"

lemmas class_inits = qwen3_init_def kimi_k2_init_def glm45_init_def deepseek_r1_init_def kimi_init_def gpt_oss_init_def
  minimax_append_init_def nemotron3_init_def mistral_init_def hunyuan_init_def gemma4_init_def deepseek_v3_init_def mimo_init_def
  poolside_v1_init_def

text \<open>
  Calling a class with the keyword arguments. Only \<^verbatim>\<open>Nemotron3Detector\<close> takes
  \<^verbatim>\<open>force_nonempty_content\<close>, and \<^verbatim>\<open>Glm45Detector\<close> takes no previous content: passing them
  to another class is a \<^verbatim>\<open>TypeError\<close>. A force argument that is not passed has the default of the class.
\<close>

definition new_detector :: "detector_class \<Rightarrow> detector_kwargs \<Rightarrow> detector res" where
  "new_detector cls kw =
     (let stream = kw_stream_reasoning kw; prev = kw_previous_content kw;
          force = (case kw_force_reasoning kw of Some b \<Rightarrow> b | None \<Rightarrow> cls \<in> {DeepSeekR1Detector, GptOssDetector})
      in if kw_force_nonempty kw \<and> cls \<noteq> Nemotron3Detector then Inl TypeError
         else if cls = Glm45Detector \<and> prev \<noteq> None then Inl TypeError
         else Inr (case cls of
             DeepSeekR1Detector \<Rightarrow> deepseek_r1_init stream prev
           | DeepSeekV3Detector \<Rightarrow> deepseek_v3_init stream force prev
           | Glm45Detector \<Rightarrow> glm45_init stream force
           | HunyuanDetector \<Rightarrow> hunyuan_init stream force prev
           | GptOssDetector \<Rightarrow> gpt_oss_init stream force prev
           | KimiDetector \<Rightarrow> kimi_init stream prev
           | KimiK2Detector \<Rightarrow> kimi_k2_init stream force prev
           | MimoDetector \<Rightarrow> mimo_init stream force prev
           | PoolsideV1Detector \<Rightarrow> poolside_v1_init stream force prev
           | Qwen3Detector \<Rightarrow> qwen3_init stream force prev
           | MiniMaxAppendThinkDetector \<Rightarrow> minimax_append_init stream force prev
           | MistralDetector \<Rightarrow> mistral_init stream force prev
           | Nemotron3Detector \<Rightarrow> nemotron3_init stream force prev (kw_force_nonempty kw)
           | Gemma4Detector \<Rightarrow> gemma4_init stream force prev))"

definition DetectorMap :: "(string, detector_class) dict" where
  "DetectorMap =
     [(''deepseek-r1'', DeepSeekR1Detector), (''deepseek-v3'', DeepSeekV3Detector), (''deepseek-v4'', DeepSeekV3Detector),
      (''glm45'', Glm45Detector), (''hunyuan'', HunyuanDetector), (''gpt-oss'', GptOssDetector), (''kimi'', KimiDetector),
      (''kimi_k2'', KimiK2Detector), (''mimo'', MimoDetector), (''poolside_v1'', PoolsideV1Detector), (''qwen3'', Qwen3Detector),
      (''qwen3-thinking'', Qwen3Detector), (''minimax'', Qwen3Detector), (''minimax-append-think'', MiniMaxAppendThinkDetector),
      (''step3'', DeepSeekR1Detector), (''step3p5'', DeepSeekR1Detector), (''mistral'', MistralDetector),
      (''nemotron_3'', Nemotron3Detector), (''interns1'', Qwen3Detector), (''gemma4'', Gemma4Detector)]"

section \<open>The facade\<close>

text \<open>What the constructor reads of a chat request: messages are pairs of a role and a content.\<close>

record chat_request =
  cr_continue_final_message :: bool
  cr_messages :: "(string \<times> ustr) list"
  cr_force_nonempty_content :: bool

definition request_previous :: "chat_request option \<Rightarrow> ustr option res" where
  "request_previous request = (case request of None \<Rightarrow> Inr None
     | Some r \<Rightarrow> if \<not> cr_continue_final_message r then Inr None
        else if cr_messages r = [] then Inl IndexError
        else if fst (last (cr_messages r)) = ''assistant'' then Inr (Some (snd (last (cr_messages r)))) else Inr None)"

definition reasoning_parser_init :: "string option \<Rightarrow> bool \<Rightarrow> bool option \<Rightarrow> chat_request option \<Rightarrow> detector res" where
  "reasoning_parser_init model_type stream force0 request =
     (case model_type of None \<Rightarrow> Inl ValueError
      | Some m \<Rightarrow>
          if m = [] then Inl ValueError
          else (case dict_get DetectorMap (py_lower m) of
             None \<Rightarrow> Inl ValueError
           | Some cls \<Rightarrow>
               let force = (if py_lower m \<in> {''qwen3-thinking'', ''gpt-oss'', ''minimax''} then Some True else force0)
               in bindE (request_previous request) (\<lambda>prev.
                    new_detector cls \<lparr>kw_stream_reasoning = stream, kw_force_reasoning = force, kw_previous_content = prev,
                      kw_force_nonempty = (case request of None \<Rightarrow> False | Some r \<Rightarrow> cr_force_nonempty_content r)\<rparr>)))"

definition parse_non_stream :: "detector \<Rightarrow> ustr \<Rightarrow> (ustr \<times> ustr) option" where
  "parse_non_stream d full_text = map_option (\<lambda>(normal, reasoning). (reasoning, normal)) (detect_and_parse d full_text)"

definition parse_stream_chunk :: "ustr \<Rightarrow> detector \<Rightarrow> ((ustr \<times> ustr) \<times> detector) option" where
  "parse_stream_chunk chunk d =
     map_option (\<lambda>((normal, reasoning), d1). ((reasoning, normal), d1)) (parse_streaming_increment chunk d)"

text \<open>A whole stream: the reasoning and the normal text of its chunks put together.\<close>

fun parse_stream :: "ustr list \<Rightarrow> detector \<Rightarrow> ((ustr \<times> ustr) \<times> detector) option" where
  "parse_stream [] d = Some (([], []), d)"
| "parse_stream (c # cs) d = Option.bind (parse_stream_chunk c d) (\<lambda>((r, n), d1).
     map_option (\<lambda>((rs, ns), d2). ((r @ rs, n @ ns), d2)) (parse_stream cs d1))"

section \<open>Substrings\<close>

lemma startswith_append: "startswith s p \<longleftrightarrow> (\<exists>t. s = p @ t)"
  by (auto simp: startswith_def) (metis append_take_drop_id)

lemma contains_iff: "contains p s \<longleftrightarrow> (\<exists>a b. s = a @ p @ b)"
proof
  assume "contains p s"
  then obtain k where "find_sub p s = Some k" by (auto simp: contains_def)
  then obtain t where "drop k s = p @ t" by (auto simp: find_sub_Some startswith_append)
  then show "\<exists>a b. s = a @ p @ b" by (metis append_take_drop_id)
next
  assume "\<exists>a b. s = a @ p @ b"
  then obtain a b where s: "s = a @ p @ b" by blast
  have "startswith (drop (length a) s) p" by (simp add: s startswith_append)
  moreover have "length a \<le> length s" by (simp add: s)
  ultimately show "contains p s" unfolding contains_def find_sub_None by blast
qed

lemma contains_append: "contains p s \<Longrightarrow> contains p (a @ s @ b)"
  by (simp add: contains_iff) (metis append.assoc)

lemma contains_part: "\<not> contains p (a @ s @ b) \<Longrightarrow> \<not> contains p s"
  using contains_append by blast

lemma find_sub_at:
  assumes "find_sub p (a @ b @ p @ c @ d) = Some (length (a @ b))"
  shows "find_sub p (b @ p @ c) = Some (length b)"
proof -
  have "\<not> startswith (drop j (b @ p @ c)) p" if "j < length b" for j
  proof
    assume "startswith (drop j (b @ p @ c)) p"
    then obtain t where "drop j (b @ p @ c) = p @ t" by (auto simp: startswith_append)
    then have "drop (length a + j) (a @ (b @ p @ c) @ d) = p @ t @ d" using that by simp
    then have "startswith (drop (length a + j) (a @ b @ p @ c @ d)) p" by (simp add: startswith_append)
    moreover have "length a + j < length (a @ b)" using that by simp
    ultimately show False using assms unfolding find_sub_Some by blast
  qed
  then show ?thesis by (simp add: find_sub_Some startswith_append)
qed

lemma find_sub_before:
  assumes "find_sub p (r @ p @ c) = Some (length r)" and "r = a @ b @ d" and "p \<noteq> []"
  shows "\<not> contains p b"
proof
  assume "contains p b"
  then obtain x y where b: "b = x @ p @ y" by (auto simp: contains_iff)
  have "startswith (drop (length (a @ x)) (r @ p @ c)) p" by (simp add: assms(2) b startswith_append)
  moreover have "length (a @ x) < length r" using assms(3) by (simp add: assms(2) b)
  ultimately show False using assms(1) unfolding find_sub_Some by blast
qed

lemma remove_all_absent: "\<not> contains p s \<Longrightarrow> remove_all p s = s"
  by (subst remove_all.simps) (simp add: contains_def split: option.splits)

lemma remove_prefix: "p \<noteq> [] \<Longrightarrow> \<not> contains p s \<Longrightarrow> remove_all p (p @ s) = s"
proof -
  assume "p \<noteq> []" "\<not> contains p s"
  have "find_sub p (p @ s) = Some 0" by (simp add: find_sub_Some startswith_append)
  then show ?thesis using \<open>p \<noteq> []\<close> remove_all_absent [OF \<open>\<not> contains p s\<close>] by (subst remove_all.simps) simp
qed

section \<open>Stripping\<close>

lemma ulstrip_append: "ulstrip (a @ b) = (if ulstrip a = [] then ulstrip b else ulstrip a @ b)"
  by (induction a) (auto simp: ulstrip_def)

lemma urstrip_append: "urstrip (a @ b) = (if urstrip b = [] then urstrip a else a @ urstrip b)"
  using ulstrip_append [of "rev b" "rev a"] by (auto simp: urstrip_def ulstrip_def)

lemma urstrip_idem [simp]: "urstrip (urstrip a) = urstrip a"
  by (simp add: urstrip_def dropWhile_idem)

lemma ulstrip_idem [simp]: "ulstrip (ulstrip a) = ulstrip a"
  by (simp add: ulstrip_def dropWhile_idem)

lemma strip_sides_Nil: "ulstrip a = [] \<longleftrightarrow> urstrip a = []"
  by (simp add: ulstrip_def urstrip_def dropWhile_eq_Nil_conv)

lemma ustrip_urstrip [simp]: "ustrip (a @ urstrip b) = ustrip (a @ b)"
proof (cases "urstrip b = []")
  case True
  then have "ulstrip b = []" by (simp add: strip_sides_Nil)
  then show ?thesis using True urstrip_append [of "ulstrip a" b] by (auto simp: ustrip_parts ulstrip_append)
next
  case False
  have tail: "urstrip b \<noteq> []" by (rule False)
  then have nb: "ulstrip b \<noteq> []" by (simp add: strip_sides_Nil)
  show ?thesis
  proof (cases "ulstrip a = []")
    case True
    have "b = urstrip b @ drop (length (urstrip b)) b"
      by (metis append_eq_conv_conj rev_append rev_rev_ident takeWhile_dropWhile_id urstrip_def)
    then have b: "ulstrip b = ulstrip (urstrip b) @ drop (length (urstrip b)) b"
      using ulstrip_append [of "urstrip b" "drop (length (urstrip b)) b"] tail strip_sides_Nil [of "urstrip b"] by auto
    have sp: "urstrip (drop (length (urstrip b)) b) = []"
    proof -
      have "rev b = takeWhile uspace (rev b) @ rev (urstrip b)" by (simp add: urstrip_def)
      then have "b = urstrip b @ rev (takeWhile uspace (rev b))" by (metis rev_append rev_rev_ident)
      then have "drop (length (urstrip b)) b = rev (takeWhile uspace (rev b))" by (metis append_eq_conv_conj)
      then show ?thesis by (simp add: urstrip_def dropWhile_eq_Nil_conv) (meson set_takeWhileD)
    qed
    show ?thesis using True b sp urstrip_append by (simp add: ustrip_parts ulstrip_append)
  next
    case nz: False
    then show ?thesis by (simp add: ustrip_parts ulstrip_append urstrip_append)
  qed
qed

lemma ustrip_ulstrip [simp]: "ustrip (ulstrip a) = ustrip a"
  by (simp add: ustrip_parts)

text \<open>Text around a tag that does not start or end with white space.\<close>

definition solid :: "ustr \<Rightarrow> bool" where
  "solid e \<longleftrightarrow> e \<noteq> [] \<and> \<not> uspace (hd e) \<and> \<not> uspace (last e)"

lemma ustrip_around: "solid e \<Longrightarrow> ustrip (r @ e @ n) = ulstrip r @ e @ urstrip n"
proof -
  assume e: "solid e"
  have l: "ulstrip (e @ x) = e @ x" for x using e by (cases e) (auto simp: solid_def ulstrip_def)
  moreover have "urstrip e = e" using e by (cases e rule: rev_cases) (auto simp: solid_def urstrip_def)
  moreover have "e \<noteq> []" using e by (simp add: solid_def)
  ultimately show ?thesis by (auto simp: ustrip_parts ulstrip_append urstrip_append)
qed

section \<open>Chunks\<close>

abbreviation start_text :: "detector \<Rightarrow> ustr" where
  "start_text d \<equiv> think_start_token d @ think_start_self_label d"

text \<open>What the parser relies on of a pair of tags.\<close>

definition tags_ok :: "detector \<Rightarrow> bool" where
  "tags_ok d \<longleftrightarrow> start_text d \<noteq> [] \<and> solid (think_end_token d) \<and> \<not> contains (think_end_token d) (start_text d) \<and>
     \<not> startswith (think_end_token d) (start_text d)"

definition streams_plain :: "detector \<Rightarrow> bool" where
  "streams_plain d \<longleftrightarrow> dt_kind d = Plain \<and> tool_start_token d = None \<and> stream_reasoning d"

lemma chunk_base:
  assumes "streams_plain d"
  shows "parse_stream_chunk c d = (let txt = dt_buffer d @ c in
    if (startswith (start_text d) txt \<and> start_text d \<noteq> txt) \<or> (startswith (think_end_token d) txt \<and> think_end_token d \<noteq> txt)
    then Some (([], []), d\<lparr>dt_buffer := txt\<rparr>)
    else let (t, d') = (if \<not> stripped_think_start d \<and> contains (start_text d) txt
            then (remove_first (start_text d) txt, d\<lparr>stripped_think_start := True, in_reasoning := True\<rparr>) else (txt, d))
      in if in_reasoning d' then (case find_sub (think_end_token d) t of
            Some i \<Rightarrow> Some ((urstrip (take i t), drop (i + length (think_end_token d)) t), d'\<lparr>dt_buffer := [], in_reasoning := False\<rparr>)
          | None \<Rightarrow> Some ((t, []), d'\<lparr>dt_buffer := []\<rparr>))
         else Some (([], t), d'\<lparr>dt_buffer := []\<rparr>))"
  using assms unfolding streams_plain_def parse_stream_chunk_def parse_streaming_increment_def base_parse_streaming_increment_def Let_def
  by (auto split: option.splits)

lemma chunk_reasoning:
  assumes "streams_plain d" and "in_reasoning d" and "\<not> contains (think_end_token d) (dt_buffer d @ c)"
    and "stripped_think_start d \<or> \<not> contains (start_text d) (dt_buffer d @ c)"
  shows "\<exists>r b. parse_stream_chunk c d = Some ((r, []), d\<lparr>dt_buffer := b\<rparr>) \<and> r @ b = dt_buffer d @ c"
proof -
  have "find_sub (think_end_token d) (dt_buffer d @ c) = None" using assms(3) by (simp add: contains_def)
  then show ?thesis using assms(2,4) unfolding chunk_base [OF assms(1)] Let_def by auto
qed

lemma chunk_normal:
  assumes "streams_plain d" and "\<not> in_reasoning d"
    and "stripped_think_start d \<or> \<not> contains (start_text d) (dt_buffer d @ c)"
  shows "\<exists>n b. parse_stream_chunk c d = Some (([], n), d\<lparr>dt_buffer := b\<rparr>) \<and> n @ b = dt_buffer d @ c"
  using assms(2,3) unfolding chunk_base [OF assms(1)] Let_def by auto

lemma not_proper_prefix:
  assumes "tags_ok d" and "contains (think_end_token d) txt"
  shows "\<not> (startswith (start_text d) txt \<and> start_text d \<noteq> txt)" and "\<not> (startswith (think_end_token d) txt \<and> think_end_token d \<noteq> txt)"
proof -
  obtain a b where t: "txt = a @ think_end_token d @ b" using assms(2) by (auto simp: contains_iff)
  show "\<not> (startswith (start_text d) txt \<and> start_text d \<noteq> txt)"
  proof
    assume "startswith (start_text d) txt \<and> start_text d \<noteq> txt"
    then obtain x where "start_text d = txt @ x" by (auto simp: startswith_append)
    then have "contains (think_end_token d) (start_text d)" unfolding contains_iff t by (metis append.assoc)
    then show False using assms(1) by (simp add: tags_ok_def)
  qed
  have "length (think_end_token d) \<le> length txt" by (simp add: t)
  then show "\<not> (startswith (think_end_token d) txt \<and> think_end_token d \<noteq> txt)"
    by (auto simp: startswith_def)
qed

lemma chunk_close:
  assumes "streams_plain d" and "tags_ok d" and "in_reasoning d" and "find_sub (think_end_token d) (dt_buffer d @ c) = Some i"
    and "stripped_think_start d \<or> \<not> contains (start_text d) (dt_buffer d @ c)"
  shows "parse_stream_chunk c d = Some ((urstrip (take i (dt_buffer d @ c)), drop (i + length (think_end_token d)) (dt_buffer d @ c)),
    d\<lparr>dt_buffer := [], in_reasoning := False\<rparr>)"
proof -
  have "contains (think_end_token d) (dt_buffer d @ c)" using assms(4) by (simp add: contains_def)
  note np = not_proper_prefix [OF assms(2) this]
  show ?thesis using assms(3-5) np unfolding chunk_base [OF assms(1)] Let_def by auto
qed

lemma chunk_start:
  assumes "streams_plain d" and "tags_ok d" and "dt_buffer d = []" and "\<not> stripped_think_start d"
  shows "parse_stream_chunk (start_text d @ x) d = (case find_sub (think_end_token d) x of
      Some i \<Rightarrow> Some ((urstrip (take i x), drop (i + length (think_end_token d)) x),
        d\<lparr>stripped_think_start := True, in_reasoning := False\<rparr>)
    | None \<Rightarrow> Some ((x, []), d\<lparr>stripped_think_start := True, in_reasoning := True\<rparr>))"
proof -
  let ?s = "start_text d"
  have ne: "?s \<noteq> []" using assms(2) by (simp add: tags_ok_def)
  have "\<not> (startswith ?s (?s @ x) \<and> ?s \<noteq> ?s @ x)" by (auto simp: startswith_def)
  moreover have "\<not> startswith (think_end_token d) (?s @ x)"
  proof
    assume "startswith (think_end_token d) (?s @ x)"
    then obtain y where "think_end_token d = ?s @ x @ y" by (auto simp: startswith_append)
    then show False using assms(2) by (auto simp: tags_ok_def startswith_append)
  qed
  moreover have f: "find_sub ?s (?s @ x) = Some 0" by (simp add: find_sub_Some startswith_append)
  then have "contains ?s (?s @ x)" "remove_first ?s (?s @ x) = x" by (simp_all add: contains_def remove_first_def)
  moreover have "d\<lparr>stripped_think_start := True, in_reasoning := b, dt_buffer := []\<rparr> = d\<lparr>stripped_think_start := True, in_reasoning := b\<rparr>" for b
    using assms(3) by simp
  ultimately show ?thesis using assms(3,4) unfolding chunk_base [OF assms(1)] Let_def by (auto split: option.splits)
qed

section \<open>Streams\<close>

lemma stream_append:
  "parse_stream (A @ B) d = Option.bind (parse_stream A d) (\<lambda>((r, n), d1).
     map_option (\<lambda>((rs, ns), d2). ((r @ rs, n @ ns), d2)) (parse_stream B d1))"
proof (induction A arbitrary: d)
  case Nil
  then show ?case by (cases "parse_stream B d") auto
next
  case (Cons c A)
  show ?case
  proof (cases "parse_stream_chunk c d")
    case (Some x)
    obtain r n d1 where x: "x = ((r, n), d1)" by (metis prod.collapse)
    show ?thesis
    proof (cases "parse_stream A d1")
      case None
      then show ?thesis using Some x Cons.IH [of d1] by simp
    next
      case (Some y)
      obtain r' n' d2 where y: "y = ((r', n'), d2)" by (metis prod.collapse)
      show ?thesis using \<open>parse_stream_chunk c d = Some x\<close> Some x y Cons.IH [of d1]
        by (cases "parse_stream B d2") auto
    qed
  qed simp
qed

lemma stream_reasoning:
  assumes "streams_plain d" and "in_reasoning d" and "\<not> contains (think_end_token d) (dt_buffer d @ concat A)"
    and "stripped_think_start d \<or> \<not> contains (start_text d) (dt_buffer d @ concat A)"
  shows "\<exists>r b. parse_stream A d = Some ((r, []), d\<lparr>dt_buffer := b\<rparr>) \<and> r @ b = dt_buffer d @ concat A"
  using assms
proof (induction A arbitrary: d)
  case Nil
  then show ?case by (intro exI [of _ "[]"] exI [of _ "dt_buffer d"]) simp
next
  case (Cons c A)
  have part: "\<not> contains t (dt_buffer d @ c)" if "\<not> contains t (dt_buffer d @ concat (c # A))" for t
    using contains_part [of t "[]" "dt_buffer d @ c" "concat A"] that by simp
  obtain r b where rb: "parse_stream_chunk c d = Some ((r, []), d\<lparr>dt_buffer := b\<rparr>)" "r @ b = dt_buffer d @ c"
    using chunk_reasoning [OF Cons.prems(1,2) part] Cons.prems(3,4) part by blast
  let ?d = "d\<lparr>dt_buffer := b\<rparr>"
  have whole: "dt_buffer d @ concat (c # A) = r @ (b @ concat A) @ []" using rb(2) by simp
  have rest: "\<not> contains t (dt_buffer ?d @ concat A)" if "\<not> contains t (dt_buffer d @ concat (c # A))" for t
    using contains_part [of t r "b @ concat A" "[]"] that unfolding whole by simp
  have "streams_plain ?d" "in_reasoning ?d" "\<not> contains (think_end_token ?d) (dt_buffer ?d @ concat A)"
    "stripped_think_start ?d \<or> \<not> contains (start_text ?d) (dt_buffer ?d @ concat A)"
    using Cons.prems(1,2) rest [OF Cons.prems(3)] Cons.prems(4) rest by (auto simp: streams_plain_def)
  from Cons.IH [OF this] obtain r' b' where "parse_stream A ?d = Some ((r', []), ?d\<lparr>dt_buffer := b'\<rparr>)" "r' @ b' = b @ concat A"
    by auto
  then show ?case using rb whole by (intro exI [of _ "r @ r'"] exI [of _ b']) simp
qed

lemma stream_normal:
  assumes "streams_plain d" and "\<not> in_reasoning d"
    and "stripped_think_start d \<or> \<not> contains (start_text d) (dt_buffer d @ concat A)"
  shows "\<exists>n b. parse_stream A d = Some (([], n), d\<lparr>dt_buffer := b\<rparr>) \<and> n @ b = dt_buffer d @ concat A"
  using assms
proof (induction A arbitrary: d)
  case Nil
  then show ?case by (intro exI [of _ "[]"] exI [of _ "dt_buffer d"]) simp
next
  case (Cons c A)
  have part: "\<not> contains t (dt_buffer d @ c)" if "\<not> contains t (dt_buffer d @ concat (c # A))" for t
    using contains_part [of t "[]" "dt_buffer d @ c" "concat A"] that by simp
  obtain r b where rb: "parse_stream_chunk c d = Some (([], r), d\<lparr>dt_buffer := b\<rparr>)" "r @ b = dt_buffer d @ c"
    using chunk_normal [OF Cons.prems(1,2)] Cons.prems(3) part by blast
  let ?d = "d\<lparr>dt_buffer := b\<rparr>"
  have whole: "dt_buffer d @ concat (c # A) = r @ (b @ concat A) @ []" using rb(2) by simp
  have rest: "\<not> contains t (dt_buffer ?d @ concat A)" if "\<not> contains t (dt_buffer d @ concat (c # A))" for t
    using contains_part [of t r "b @ concat A" "[]"] that unfolding whole by simp
  have "streams_plain ?d" "\<not> in_reasoning ?d" "stripped_think_start ?d \<or> \<not> contains (start_text ?d) (dt_buffer ?d @ concat A)"
    using Cons.prems(1,2,3) rest by (auto simp: streams_plain_def)
  from Cons.IH [OF this] obtain r' b' where "parse_stream A ?d = Some (([], r'), ?d\<lparr>dt_buffer := b'\<rparr>)" "r' @ b' = b @ concat A"
    by auto
  then show ?case using rb whole by (intro exI [of _ "r @ r'"] exI [of _ b']) simp
qed

text \<open>Reasoning up to the closing tag, then the answer.\<close>

lemma stream_close:
  fixes d defines "E \<equiv> think_end_token d"
  assumes "streams_plain d" and "tags_ok d" and "in_reasoning d"
    and X: "X = dt_buffer d @ concat A @ p" and found: "find_sub E (X @ E @ n @ concat B) = Some (length X)"
    and S: "stripped_think_start d \<or> \<not> contains (start_text d) (X @ E @ n @ concat B)"
  shows "\<exists>r y ns d'. parse_stream (A @ [p @ E @ n] @ B) d = Some ((r @ urstrip y, ns), d') \<and> X = r @ y \<and> ns @ dt_buffer d' = n @ concat B"
proof -
  have E: "E \<noteq> []" using assms(3) by (simp add: tags_ok_def solid_def E_def)
  have noE: "\<not> contains E (dt_buffer d @ concat A)"
    by (rule find_sub_before [OF found _ E, where a = "[]" and d = p]) (simp add: X)
  have noS: "stripped_think_start d \<or> \<not> contains (start_text d) (dt_buffer d @ concat A)"
    using S contains_part [of "start_text d" "[]" "dt_buffer d @ concat A" "p @ E @ n @ concat B"] by (auto simp: X)
  obtain r b where rb: "parse_stream A d = Some ((r, []), d\<lparr>dt_buffer := b\<rparr>)" "r @ b = dt_buffer d @ concat A"
    using stream_reasoning [OF assms(2,4) noE [unfolded E_def] noS] by blast
  have Xr: "X = r @ b @ p" using X rb(2) by (metis append.assoc)
  let ?d = "d\<lparr>dt_buffer := b\<rparr>" and ?d1 = "d\<lparr>dt_buffer := [], in_reasoning := False\<rparr>"
  have f: "find_sub E ((b @ p) @ E @ n) = Some (length (b @ p))"
    by (rule find_sub_at [where a = r and d = "concat B"]) (use found Xr in simp)
  have noS1: "stripped_think_start d \<or> \<not> contains (start_text d) (b @ p @ E @ n)"
    using S contains_part [of "start_text d" r "b @ p @ E @ n" "concat B"] by (auto simp: Xr)
  have "parse_stream_chunk (p @ E @ n) ?d = Some ((urstrip (b @ p), n), ?d1)"
    using chunk_close [of ?d "p @ E @ n" "length (b @ p)"] assms(2-4) f noS1 by (simp add: streams_plain_def tags_ok_def E_def)
  moreover have "stripped_think_start ?d1 \<or> \<not> contains (start_text ?d1) (dt_buffer ?d1 @ concat B)"
    using S contains_part [of "start_text d" "X @ E @ n" "concat B" "[]"] by auto
  with stream_normal [of ?d1 B] assms(2) obtain ns b' where
    "parse_stream B ?d1 = Some (([], ns), ?d1\<lparr>dt_buffer := b'\<rparr>)" "ns @ b' = concat B"
    by (auto simp: streams_plain_def)
  ultimately have "parse_stream (A @ [p @ E @ n] @ B) d = Some ((r @ urstrip (b @ p), n @ ns), ?d1\<lparr>dt_buffer := b'\<rparr>)"
    "(n @ ns) @ dt_buffer (?d1\<lparr>dt_buffer := b'\<rparr>) = n @ concat B"
    using rb(1) by (simp_all add: stream_append)
  then show ?thesis using Xr by blast
qed

section \<open>Streaming and one-shot parsing agree\<close>

definition fresh_detector :: "detector \<Rightarrow> bool" where
  "fresh_detector d \<longleftrightarrow> streams_plain d \<and> dt_buffer d = [] \<and> \<not> stripped_think_start d"

lemma strip_split: "\<exists>w. s = w @ ulstrip s" "\<exists>w. s = urstrip s @ w"
proof -
  show "\<exists>w. s = w @ ulstrip s" unfolding ulstrip_def by (metis takeWhile_dropWhile_id)
  have "rev s = takeWhile uspace (rev s) @ rev (urstrip s)" by (simp add: urstrip_def)
  then show "\<exists>w. s = urstrip s @ w" by (metis rev_append rev_rev_ident)
qed

lemma one_shot:
  fixes d defines "E \<equiv> think_end_token d" and "S \<equiv> start_text d"
  assumes "dt_kind d = Plain" and tags: "tags_ok d" and lead: "lead = [] \<and> in_reasoning d \<or> lead = S"
    and found: "find_sub E (R @ E @ N) = Some (length R)" and absent: "\<not> contains S (R @ E @ N)"
  shows "parse_non_stream d (lead @ R @ E @ N) = Some (ulstrip R, ustrip N)"
proof -
  have S: "S \<noteq> []" and E: "solid E" using tags by (auto simp: tags_ok_def S_def E_def)
  have inside: "in_reasoning d \<or> contains (think_start_token d) (lead @ R @ E @ N)"
    using lead by (auto simp: contains_iff S_def) (metis append_Nil)
  have "remove_all S (lead @ R @ E @ N) = R @ E @ N"
    using lead remove_all_absent [OF absent] remove_prefix [OF S absent] by auto
  then have processed: "ustrip (remove_all S (lead @ R @ E @ N)) = ulstrip R @ E @ urstrip N"
    by (simp add: ustrip_around [OF E])
  obtain w v where w: "R = w @ ulstrip R" and v: "N = urstrip N @ v" using strip_split by metis
  have "R @ E @ N = w @ ulstrip R @ E @ urstrip N @ v" using w v by (metis append.assoc)
  moreover have "length R = length (w @ ulstrip R)" using w by simp
  ultimately have "find_sub E (w @ ulstrip R @ E @ urstrip N @ v) = Some (length (w @ ulstrip R))" using found by simp
  then have at: "find_sub E (ulstrip R @ E @ urstrip N) = Some (length (ulstrip R))" by (rule find_sub_at)
  have "ustrip (urstrip N) = ustrip N" using ustrip_urstrip [of "[]" N] by simp
  then show ?thesis
    using inside assms(3) at unfolding parse_non_stream_def detect_and_parse_def base_detect_and_parse_def Let_def
      S_def [symmetric] E_def [symmetric] processed by (simp add: S_def E_def)
qed

lemma stream_whole:
  assumes "fresh_detector d" and "tags_ok d"
    and "lead = [] \<and> in_reasoning d \<or> lead = start_text d \<and> startswith (hd (A @ [p @ think_end_token d @ n] @ B)) (start_text d)"
    and "concat A @ p = lead @ R" and "n @ concat B = N"
    and "find_sub (think_end_token d) (R @ think_end_token d @ N) = Some (length R)"
    and "\<not> contains (start_text d) (R @ think_end_token d @ N)"
  shows "\<exists>r y ns d'. parse_stream (A @ [p @ think_end_token d @ n] @ B) d = Some ((r @ urstrip y, ns), d') \<and> R = r @ y \<and> ns @ dt_buffer d' = N"
proof -
  let ?E = "think_end_token d" and ?S = "start_text d"
  have plain: "streams_plain d" "dt_buffer d = []" "\<not> stripped_think_start d"
    using assms(1) by (auto simp: fresh_detector_def)
  show ?thesis
  proof (cases "lead = []")
    case True
    then have R: "R = dt_buffer d @ concat A @ p" and inr: "in_reasoning d"
      using assms(3,4) plain(2) assms(2) by (auto simp: tags_ok_def)
    from stream_close [OF plain(1) assms(2) inr R, of n B] assms(5,6,7) show ?thesis by simp
  next
    case False
    then have S: "lead = ?S" "startswith (hd (A @ [p @ ?E @ n] @ B)) ?S" using assms(3) by auto
    show ?thesis
    proof (cases A)
      case Nil
      then have p: "p = ?S @ R" using assms(4) S(1) by simp
      have "find_sub ?E (R @ ?E @ n) = Some (length R)"
        by (rule find_sub_at [where a = "[]" and d = "concat B"]) (use assms(5,6) in simp)
      then have c: "parse_stream_chunk (?S @ R @ ?E @ n) d = Some ((urstrip R, n), d\<lparr>stripped_think_start := True, in_reasoning := False\<rparr>)"
        using chunk_start [OF plain(1) assms(2) plain(2,3), of "R @ ?E @ n"] by simp
      obtain ns b where nb: "parse_stream B (d\<lparr>stripped_think_start := True, in_reasoning := False\<rparr>) =
          Some (([], ns), d\<lparr>stripped_think_start := True, in_reasoning := False, dt_buffer := b\<rparr>)" "ns @ b = concat B"
        using stream_normal [of "d\<lparr>stripped_think_start := True, in_reasoning := False\<rparr>" B] plain(1,2) by (auto simp: streams_plain_def)
      have "parse_stream (A @ [p @ ?E @ n] @ B) d =
          Some (([] @ urstrip R, n @ ns), d\<lparr>stripped_think_start := True, in_reasoning := False, dt_buffer := b\<rparr>)"
        using c nb(1) by (simp add: Nil p)
      then show ?thesis using nb(2) assms(5) by (intro exI conjI) (assumption, simp, simp)
    next
      case (Cons c A')
      then obtain x where c: "c = ?S @ x" using S(2) by (auto simp: startswith_append)
      then have R: "R = x @ concat A' @ p" using assms(4) S(1) Cons by simp
      have "?E \<noteq> []" using assms(2) by (simp add: tags_ok_def solid_def)
      then have "\<not> contains ?E x" using find_sub_before [OF assms(6), of "[]" x "concat A' @ p"] by (simp add: R)
      then have c1: "parse_stream_chunk c d = Some ((x, []), d\<lparr>stripped_think_start := True, in_reasoning := True\<rparr>)"
        using chunk_start [OF plain(1) assms(2) plain(2,3), of x] by (simp add: c contains_def)
      let ?d = "d\<lparr>stripped_think_start := True, in_reasoning := True\<rparr>"
      have "find_sub ?E ((concat A' @ p) @ ?E @ n @ concat B) = Some (length (concat A' @ p))"
        by (rule find_sub_at [where a = x and d = "[]"]) (use assms(5,6) R in simp)
      with stream_close [of ?d "concat A' @ p" A' p n B] plain(1,2) assms(2)
      obtain r y ns d' where "parse_stream (A' @ [p @ ?E @ n] @ B) ?d = Some ((r @ urstrip y, ns), d')"
        "concat A' @ p = r @ y" "ns @ dt_buffer d' = n @ concat B"
        by (auto simp: streams_plain_def tags_ok_def)
      then have "parse_stream (A @ [p @ ?E @ n] @ B) d = Some (((x @ r) @ urstrip y, ns), d')" "R = (x @ r) @ y" "ns @ dt_buffer d' = N"
        using c1 assms(5) by (simp_all add: Cons R)
      then show ?thesis by blast
    qed
  qed
qed

text \<open>Every class has tags the theorem below applies to.\<close>

definition good_tags :: "ustr \<Rightarrow> ustr \<Rightarrow> bool" where
  "good_tags s e \<longleftrightarrow> s \<noteq> [] \<and> solid e \<and> \<not> contains e s \<and> \<not> startswith e s"

lemma tags_ok_good: "tags_ok d \<longleftrightarrow> good_tags (start_text d) (think_end_token d)"
  by (simp add: tags_ok_def good_tags_def)

lemma good_literals:
  "good_tags think think_end" "good_tags (lit ''<|channel|>analysis<|message|>'') (lit ''<|end|>'')"
  "good_tags (9665 # lit ''think'' @ [9655]) (9665 # lit ''/think'' @ [9655])"
  "good_tags (lit ''[THINK]'') (lit ''[/THINK]'')"
  "good_tags (lit ''<|channel>'' @ lit ''thought'' @ [10]) (lit ''<channel|>'')"
  by (simp_all add: good_tags_def think_def think_end_def solid_def contains_def startswith_def uspace_def)

lemma base_init_tags:
  "think_start_token (base_init s e x f st t p i r) = s" "think_end_token (base_init s e x f st t p i r) = e"
  "think_start_self_label (base_init s e x f st t p i r) = []"
  by (simp_all add: base_init_def Let_def)

lemma new_detector_tags: "new_detector cls kw = Inr d \<Longrightarrow> tags_ok d"
  unfolding new_detector_def Let_def
  by (cases cls) (auto simp: tags_ok_good good_literals [simplified] base_init_tags class_inits split: if_splits)


definition v4_detector :: detector where
  "v4_detector = deepseek_v3_init True False None"

lemma lowered: "py_lower ''DeepSeek-V4'' = ''deepseek-v4''" "py_lower ''deepseek-v4'' = ''deepseek-v4''" "py_lower ''glm45'' = ''glm45''"
  by code_simp+

lemmas make_detector = reasoning_parser_init_def DetectorMap_def lowered request_previous_def new_detector_def

lemmas run_stream = v4_detector_def deepseek_v3_init_def qwen3_init_def base_init_def think_def think_end_def parse_stream_chunk_def
  parse_streaming_increment_def base_parse_streaming_increment_def startswith_def contains_def remove_first_def urstrip_def uspace_def

lemma v4_detector_made: "reasoning_parser_init (Some ''DeepSeek-V4'') True None None = Inr v4_detector"
  by (simp add: make_detector v4_detector_def)

lemma v4_detector_facts: "fresh_detector v4_detector" "tags_ok v4_detector" "start_text v4_detector = lit ''<think>''"
  "think_end_token v4_detector = lit ''</think>''"
  by (simp_all add: run_stream fresh_detector_def streams_plain_def tags_ok_def solid_def)


section \<open>Behaviours worth knowing\<close>

text \<open>
  With \<^verbatim>\<open>stream_reasoning\<close> off, the opening tag is removed from the local text only: it stays in the
  buffer and comes out as reasoning text once the closing tag arrives in a later chunk.
\<close>

lemma buffered_reasoning_keeps_tag:
  "map_option fst (parse_stream [lit ''<think>a'', lit ''b</think>c''] (v4_detector\<lparr>stream_reasoning := False\<rparr>)) =
     Some (lit ''<think>ab'', lit ''c'')"
  by (simp add: run_stream)

text \<open>A closing tag that is cut by a chunk boundary after other text is not recognised.\<close>

lemma cut_end_tag_missed:
  "map_option fst (parse_stream [lit ''<think>a</thi'', lit ''nk>c''] v4_detector) = Some (lit ''a</think>c'', [])"
  by (simp add: run_stream)

text \<open>What may be the beginning of a tag is held back, and there is no call that hands it out at the end.\<close>

lemma held_back_at_end:
  "map_option (\<lambda>(out, d). (out, dt_buffer d)) (parse_stream [lit ''<think>a</think>b'', lit ''<''] v4_detector) =
     Some ((lit ''a'', lit ''b''), lit ''<'')"
  by (simp add: run_stream)

text \<open>A request may carry arguments that the chosen class does not take.\<close>

lemma request_arguments_refused:
  "reasoning_parser_init (Some ''glm45'') True None
     (Some \<lparr>cr_continue_final_message = True, cr_messages = [(''assistant'', lit ''x'')], cr_force_nonempty_content = False\<rparr>) = Inl TypeError"
  "reasoning_parser_init (Some ''deepseek-v4'') True None
     (Some \<lparr>cr_continue_final_message = False, cr_messages = [], cr_force_nonempty_content = True\<rparr>) = Inl TypeError"
  by (simp_all add: make_detector)

end
