(* ===== verification/Hi_Radix.thy ===== *)
theory Hi_Radix
  imports Radix_Cache Cache_Controller
begin

text \<open>
  The hierarchical prefix cache, \<^verbatim>\<open>HiRadixCache\<close> of \<^verbatim>\<open>sglang/srt/mem_cache/hiradix_cache.py\<close>, with the
  device side of its controller (\<^verbatim>\<open>write\<close>, \<^verbatim>\<open>load\<close> and their starts in \<^verbatim>\<open>managers/cache_controller.py\<close>)
  and the slots of the host pool (\<^verbatim>\<open>memory_pool_host.py\<close>). The class extends \<^verbatim>\<open>RadixCache\<close>: the
  inherited state is the field \<open>hi_tree\<close>, and a node may keep its slots on the device, on the host or
  on both. What the environment decides is part of the state or an argument: the choice of \<^verbatim>\<open>heappop\<close>
  among equal priorities, how many transfers have finished, and what the other ranks report. The
  contents of device and host memory are functions from slots; a transfer copies when it is started,
  in the order of its stream. Metrics and logging are not represented, nor is the controller for
  several pools that models with a sparse-attention indexer use.
\<close>

section \<open>State\<close>

record 'v hi =
  hi_tree :: radix
  hi_pick :: "eviction_heap \<Rightarrow> nat"
  hi_id_base :: nat
  hi_host_size :: nat
  hi_host_free :: "kv_index list"
  hi_host_leaves :: "nat list"
  hi_dev_kv :: "kv_index \<Rightarrow> 'v"
  hi_host_kv :: "kv_index \<Rightarrow> 'v"
  hi_io_backend :: string
  hi_layout :: string
  hi_ctl :: controller
  hi_ack_write :: "nat list list"
  hi_load_queue :: "(kv_index list \<times> kv_index list \<times> nat) list"
  hi_ack_load :: "nat list list"
  hi_write_policy :: string
  hi_write_through_threshold :: int
  hi_load_back_threshold :: nat
  hi_enable_storage :: bool
  hi_prefetch_threshold :: nat
  hi_pass_prefix_keys :: bool
  hi_stop_policy :: string
  hi_ongoing_write_through :: "(nat, nat) dict"
  hi_ongoing_load_back :: "(nat, nat) dict"
  hi_ongoing_prefetch :: "(string, nat \<times> radix_key \<times> kv_index list) dict"
  hi_ongoing_backup :: "(nat, nat) dict"
  hi_loaded_tokens :: "(string, nat) dict"

type_synonym ('a, 's) outcome = "('a res \<times> 's) option"

text \<open>Running two operations in sequence: an exception ends the sequence, a loop that does not end has no outcome.\<close>

definition andThen :: "('a, 's) outcome \<Rightarrow> ('a \<Rightarrow> 's \<Rightarrow> ('b, 's) outcome) \<Rightarrow> ('b, 's) outcome" where
  "andThen m k = (case m of None \<Rightarrow> None | Some (Inl e, s) \<Rightarrow> Some (Inl e, s) | Some (Inr x, s) \<Rightarrow> k x s)"

lemma andThen_mono [partial_function_mono]:
  assumes "\<And>x s. mono_option (\<lambda>f. k f x s)"
  shows "mono_option (\<lambda>f. andThen m (k f))"
  using assms unfolding andThen_def by (auto simp: monotone_def flat_ord_def fun_ord_def split: option.split prod.split sum.split)

lemma andThen_simps [simp]:
  "andThen (Some (Inr x, s)) k = k x s" "andThen (Some (Inl e, s)) k = Some (Inl e, s)" "andThen None k = None"
  by (simp_all add: andThen_def)

text \<open>Operations of the superclass act on the inherited state.\<close>

definition upd_tree :: "(radix \<Rightarrow> radix) \<Rightarrow> 'v hi \<Rightarrow> 'v hi" where
  "upd_tree f s = s\<lparr>hi_tree := f (hi_tree s)\<rparr>"

definition on_tree :: "(radix \<Rightarrow> 'a \<times> radix) \<Rightarrow> 'v hi \<Rightarrow> 'a \<times> 'v hi" where
  "on_tree f s = (case f (hi_tree s) of (r, t) \<Rightarrow> (r, s\<lparr>hi_tree := t\<rparr>))"

abbreviation hi_node :: "'v hi \<Rightarrow> nat \<Rightarrow> tree_node" where
  "hi_node s n \<equiv> rc_store (hi_tree s) n"

abbreviation hi_root :: "'v hi \<Rightarrow> nat" where
  "hi_root s \<equiv> rc_root (hi_tree s)"

abbreviation hi_upd :: "nat \<Rightarrow> (tree_node \<Rightarrow> tree_node) \<Rightarrow> 'v hi \<Rightarrow> 'v hi" where
  "hi_upd n f \<equiv> upd_tree (upd_node n f)"

abbreviation medium_CPU :: string where "medium_CPU \<equiv> ''CPU''"

text \<open>The identifier of a node counts from the last reset of the class counter; addresses are never reused.\<close>

definition node_id :: "'v hi \<Rightarrow> nat \<Rightarrow> nat" where
  "node_id s n = n - hi_id_base s"

section \<open>Slots of the host pool\<close>

definition hi_host_alloc :: "nat \<Rightarrow> 'v hi \<Rightarrow> kv_index list option res \<times> 'v hi" where
  "hi_host_alloc need s =
     (if need mod rc_page_size (hi_tree s) \<noteq> 0 then (Inl AssertionError, s)
      else if length (hi_host_free s) < need then (Inr None, s)
      else (Inr (Some (take need (hi_host_free s))), s\<lparr>hi_host_free := drop need (hi_host_free s)\<rparr>))"

definition hi_host_release :: "kv_index list \<Rightarrow> 'v hi \<Rightarrow> 'v hi" where
  "hi_host_release indices s = s\<lparr>hi_host_free := hi_host_free s @ indices\<rparr>"

definition hi_host_clear :: "'v hi \<Rightarrow> 'v hi" where
  "hi_host_clear s = s\<lparr>hi_host_free := map int [0..<hi_host_size s]\<rparr>"

section \<open>Transfers between device and host\<close>

text \<open>The slots of a transfer, in the order in which the chosen copy routine takes them.\<close>

definition move_indices :: "string \<Rightarrow> string \<Rightarrow> kv_index list \<Rightarrow> kv_index list \<Rightarrow> (kv_index list \<times> kv_index list) res" where
  "move_indices io layout host dev =
     (if io = ''kernel'' then Inr (host, dev)
      else if io = ''direct'' then
        (if layout = ''layer_first''
         then (let ps = sort_key fst (zip host dev) in Inr (map fst ps, map snd ps))
         else if layout = ''page_first_direct'' then Inr (host, dev)
         else Inl ValueError)
      else if io = ''kernel_ascend'' then Inr (host, dev)
      else Inl ValueError)"

definition copy_slots :: "(kv_index \<Rightarrow> 'v) \<Rightarrow> kv_index list \<Rightarrow> kv_index list \<Rightarrow> (kv_index \<Rightarrow> 'v) \<Rightarrow> (kv_index \<Rightarrow> 'v)" where
  "copy_slots src xs ys dst = fold (\<lambda>(x, y) m. m(y := src x)) (zip xs ys) dst"

text \<open>\<^verbatim>\<open>write\<close> puts one operation into its empty queue and starts it.\<close>

definition cc_write :: "kv_index list \<Rightarrow> nat \<Rightarrow> 'v hi \<Rightarrow> kv_index list option res \<times> 'v hi" where
  "cc_write dev i s =
     (case hi_host_alloc (length dev) s of
        (Inl e, s1) \<Rightarrow> (Inl e, s1)
      | (Inr None, s1) \<Rightarrow> (Inr None, s1)
      | (Inr (Some host), s1) \<Rightarrow>
          (case move_indices (hi_io_backend s1) (hi_layout s1) host dev of
             Inl e \<Rightarrow> (Inl e, s1)
           | Inr (h, d) \<Rightarrow>
               (Inr (Some host), s1\<lparr>hi_host_kv := copy_slots (hi_dev_kv s1) d h (hi_host_kv s1),
                                   hi_ack_write := hi_ack_write s1 @ [[i]]\<rparr>)))"

definition kv_alloc :: "kv_class \<Rightarrow> nat \<Rightarrow> allocator \<Rightarrow> kv_index list option \<times> allocator" where
  "kv_alloc c need = (case c of TokenPool \<Rightarrow> token_alloc need | PagedPool \<Rightarrow> paged_alloc (int need))"

definition cc_load :: "kv_index list \<Rightarrow> nat \<Rightarrow> 'v hi \<Rightarrow> kv_index list option \<times> 'v hi" where
  "cc_load host i s =
     (case kv_alloc (rc_class (hi_tree s)) (length host) (rc_alloc (hi_tree s)) of
        (None, a) \<Rightarrow> (None, upd_tree (\<lambda>t. t\<lparr>rc_alloc := a\<rparr>) s)
      | (Some dev, a) \<Rightarrow>
          (Some dev, (upd_tree (\<lambda>t. t\<lparr>rc_alloc := a\<rparr>) s)\<lparr>hi_load_queue := hi_load_queue s @ [(host, dev, i)]\<rparr>))"

text \<open>\<^verbatim>\<open>start_loading\<close> merges the queued operations and copies their slots, layer by layer.\<close>

definition start_loading :: "'v hi \<Rightarrow> unit res \<times> 'v hi" where
  "start_loading s =
     (if hi_load_queue s = [] then (Inr (), s)
      else case move_indices (hi_io_backend s) (hi_layout s)
             (concat (map fst (hi_load_queue s))) (concat (map (fst \<circ> snd) (hi_load_queue s))) of
        Inl e \<Rightarrow> (Inl e, s)
      | Inr (h, d) \<Rightarrow>
          (Inr (), s\<lparr>hi_load_queue := [], hi_dev_kv := copy_slots (hi_host_kv s) h d (hi_dev_kv s),
                    hi_ack_load := hi_ack_load s @ [map (snd \<circ> snd) (hi_load_queue s)]\<rparr>))"

section \<open>Leaves and locks\<close>

definition discard_host_leaf :: "nat \<Rightarrow> 'v hi \<Rightarrow> 'v hi" where
  "discard_host_leaf n s = s\<lparr>hi_host_leaves := removeAll n (hi_host_leaves s)\<rparr>"

definition update_host_leaf_status :: "nat \<Rightarrow> 'v hi \<Rightarrow> 'v hi" where
  "update_host_leaf_status n s =
     (let nd = hi_node s n
      in if \<not> evicted nd \<or> 0 < nd_lock_ref nd then discard_host_leaf n s
         else if list_ex (\<lambda>c. backuped (hi_node s c)) (dict_values (nd_children nd)) then discard_host_leaf n s
         else if n \<in> set (hi_host_leaves s) then s
         else s\<lparr>hi_host_leaves := n # hi_host_leaves s\<rparr>)"

definition hi_update_leaf :: "nat \<Rightarrow> 'v hi \<Rightarrow> 'v hi" where
  "hi_update_leaf n s = upd_tree (update_leaf_status n) s"

partial_function (option) hi_inc_lock_loop :: "nat option \<Rightarrow> int \<Rightarrow> 'v hi \<Rightarrow> (int, 'v hi) outcome" where
  "hi_inc_lock_loop node delta s =
     (if node = Some (hi_root s) then Some (Inr delta, s)
      else case node of
             None \<Rightarrow> Some (Inl AttributeError, s)
           | Some n \<Rightarrow>
               let nd = hi_node s n; l = int (rk_len (nd_key nd));
                   (delta1, s1) = (if nd_lock_ref nd = 0
                     then (delta - l, upd_tree (\<lambda>t. t\<lparr>rc_evictable_size := rc_evictable_size t - l,
                                                      rc_protected_size := rc_protected_size t + l\<rparr>) s)
                     else (delta, s));
                   s2 = hi_update_leaf n (hi_upd n (\<lambda>nd. nd\<lparr>nd_lock_ref := nd_lock_ref nd + 1\<rparr>) s1)
               in hi_inc_lock_loop (nd_parent nd) delta1 (update_host_leaf_status n s2))"

definition hi_inc_lock_ref :: "nat \<Rightarrow> 'v hi \<Rightarrow> (int, 'v hi) outcome" where
  "hi_inc_lock_ref n s = (if rc_disable (hi_tree s) then Some (Inr 0, s) else hi_inc_lock_loop (Some n) 0 s)"

partial_function (option) hi_dec_lock_loop :: "nat \<Rightarrow> int \<Rightarrow> 'v hi \<Rightarrow> (int, 'v hi) outcome" where
  "hi_dec_lock_loop n delta s =
     (if n = hi_root s then Some (Inr delta, s)
      else let nd = hi_node s n; l = int (rk_len (nd_key nd));
               (delta1, s1) = (if nd_lock_ref nd = 1
                 then (delta + l, upd_tree (\<lambda>t. t\<lparr>rc_evictable_size := rc_evictable_size t + l,
                                                  rc_protected_size := rc_protected_size t - l\<rparr>) s)
                 else (delta, s));
               s2 = hi_update_leaf n (hi_upd n (\<lambda>nd. nd\<lparr>nd_lock_ref := nd_lock_ref nd - 1\<rparr>) s1);
               s3 = update_host_leaf_status n s2
           in case nd_parent nd of
                None \<Rightarrow> Some (Inl AssertionError, s3)
              | Some p \<Rightarrow> hi_dec_lock_loop p delta1 s3)"

definition hi_dec_lock_ref :: "nat \<Rightarrow> 'v hi \<Rightarrow> (int, 'v hi) outcome" where
  "hi_dec_lock_ref n s = (if rc_disable (hi_tree s) then Some (Inr 0, s) else hi_dec_lock_loop n 0 s)"

section \<open>Evicting host pages\<close>

definition hi_remove_event :: "nat \<Rightarrow> string option \<Rightarrow> 'v hi \<Rightarrow> (unit, 'v hi) outcome" where
  "hi_remove_event n medium s = Some (on_tree (record_remove_event n medium) s)"

definition hi_store_event :: "nat \<Rightarrow> string option \<Rightarrow> 'v hi \<Rightarrow> (unit, 'v hi) outcome" where
  "hi_store_event n medium s = Some (on_tree (record_store_event n medium) s)"

text \<open>The removal of one host leaf: its event, its slots, its entry in the parent.\<close>

definition evict_host_one :: "nat \<Rightarrow> 'v hi \<Rightarrow> (nat \<times> nat, 'v hi) outcome" where
  "evict_host_one x s =
     andThen (hi_remove_event x (Some medium_CPU) s) (\<lambda>_ s1.
       case nd_host_value (hi_node s1 x) of
         None \<Rightarrow> Some (Inl AttributeError, s1)
       | Some h \<Rightarrow>
           let s2 = hi_host_release h s1
           in case child_key (rc_page_size (hi_tree s2)) (nd_key (hi_node s2 x)) of
                Inl e \<Rightarrow> Some (Inl e, s2)
              | Inr ck \<Rightarrow>
                  (case nd_parent (hi_node s2 x) of
                     None \<Rightarrow> Some (Inl AttributeError, s2)
                   | Some p \<Rightarrow>
                       let v = dict_get (nd_children (hi_node s2 p)) ck;
                           s3 = hi_upd p (\<lambda>pn. pn\<lparr>nd_children := dict_pop ck (nd_children pn)\<rparr>) s2
                       in if v \<noteq> Some x then Some (Inl AssertionError, s3)
                          else Some (Inr (length h, p), update_host_leaf_status p (discard_host_leaf x s3))))"

partial_function (option) evict_host_loop ::
  "nat \<Rightarrow> eviction_heap \<Rightarrow> nat \<Rightarrow> 'v hi \<Rightarrow> (unit, 'v hi) outcome" where
  "evict_host_loop num_tokens hp num_evicted s =
     (if num_evicted < num_tokens \<and> hp \<noteq> []
      then let (x, hp1) = heap_pop (hi_pick s) hp
           in if x = hi_root s then Some (Inr (), s)
              else if \<not> evicted (hi_node s x) \<or> 0 < nd_host_ref (hi_node s x)
              then evict_host_loop num_tokens hp1 num_evicted s
              else andThen (evict_host_one x s) (\<lambda>(l, p) s1.
                let pn = hi_node s1 p;
                    hp2 = (if nd_children pn = [] \<and> evicted pn
                           then hp1 @ [(get_priority (rc_strategy (hi_tree s1)) pn, p)] else hp1)
                in evict_host_loop num_tokens hp2 (num_evicted + l) s1)
      else Some (Inr (), s))"

definition heap_of :: "nat list \<Rightarrow> 'v hi \<Rightarrow> eviction_heap" where
  "heap_of leaves s = map (\<lambda>n. (get_priority (rc_strategy (hi_tree s)) (hi_node s n), n)) leaves"

definition hi_evict_host :: "nat \<Rightarrow> 'v hi \<Rightarrow> (unit, 'v hi) outcome" where
  "hi_evict_host num_tokens s = evict_host_loop num_tokens (heap_of (hi_host_leaves s) s) 0 s"

section \<open>Backing up nodes\<close>

text \<open>The node is in flight until its transfer is acknowledged; in write-through mode it is locked meanwhile.\<close>

definition finish_write_backup :: "nat \<Rightarrow> bool \<Rightarrow> kv_index list option \<Rightarrow> 'v hi \<Rightarrow> (nat, 'v hi) outcome" where
  "finish_write_backup n write_back host s =
     (case host of
        None \<Rightarrow> Some (Inr 0, s)
      | Some h \<Rightarrow>
          let s1 = hi_upd n (\<lambda>nd. nd\<lparr>nd_host_value := Some h\<rparr>) s
          in if h = [] then Some (Inl AssertionError, s1)
             else let s2 = s1\<lparr>hi_ongoing_write_through := dict_set (node_id s1 n) n (hi_ongoing_write_through s1)\<rparr>
                  in if write_back then Some (Inr (length h), s2)
                     else andThen (hi_inc_lock_ref n s2) (\<lambda>_ s3. Some (Inr (length h), s3)))"

definition write_backup :: "nat \<Rightarrow> bool \<Rightarrow> 'v hi \<Rightarrow> (nat, 'v hi) outcome" where
  "write_backup n write_back s =
     (let nd = hi_node s n;
          skip = (if write_back \<or> nd_parent nd = Some (hi_root s) then Inr False
                  else case nd_parent nd of None \<Rightarrow> Inl AttributeError | Some p \<Rightarrow> Inr (\<not> backuped (hi_node s p)))
      in case skip of
           Inl e \<Rightarrow> Some (Inl e, s)
         | Inr True \<Rightarrow> Some (Inr 0, s)
         | Inr False \<Rightarrow>
             (case nd_value nd of
                None \<Rightarrow> Some (Inl TypeError, s)
              | Some v \<Rightarrow>
                  andThen (Some (cc_write v (node_id s n) s)) (\<lambda>host s1.
                    if host = None
                    then andThen (hi_evict_host (length v) s1) (\<lambda>_ s2.
                           andThen (Some (cc_write v (node_id s2 n) s2)) (finish_write_backup n write_back))
                    else finish_write_backup n write_back host s1)))"

definition hi_inc_hit_count :: "nat \<Rightarrow> bool \<Rightarrow> 'v hi \<Rightarrow> (unit, 'v hi) outcome" where
  "hi_inc_hit_count n chunked s =
     (if hi_write_policy s = ''write_back'' \<or> chunked then Some (Inr (), s)
      else let s1 = hi_upd n (\<lambda>nd. nd\<lparr>nd_hit_count := nd_hit_count nd + 1\<rparr>) s
           in if \<not> backuped (hi_node s1 n) \<and> hi_write_through_threshold s1 \<le> nd_hit_count (hi_node s1 n)
              then andThen (write_backup n False s1) (\<lambda>_ s2. Some (Inr (), s2))
              else Some (Inr (), s1))"

text \<open>\<^verbatim>\<open>get_prefix_hash_values\<close>: the hashes of the ancestors, without the cache of its last result.\<close>

partial_function (option) prefix_hash_values :: "nat option \<Rightarrow> radix \<Rightarrow> string list option" where
  "prefix_hash_values node t =
     (case node of
        None \<Rightarrow> Some []
      | Some n \<Rightarrow>
          (case nd_hash (rc_store t n) of
             None \<Rightarrow> Some []
           | Some hs \<Rightarrow> Option.bind (prefix_hash_values (nd_parent (rc_store t n)) t) (\<lambda>ks. Some (ks @ hs))))"

definition write_backup_storage :: "nat \<Rightarrow> 'v hi \<Rightarrow> (unit, 'v hi) outcome" where
  "write_backup_storage n s =
     (let nd = hi_node s n
      in Option.bind (if hi_pass_prefix_keys s then map_option Some (prefix_hash_values (nd_parent nd) (hi_tree s)) else Some None)
        (\<lambda>prefix_keys.
          case nd_host_value nd of
            None \<Rightarrow> Some (Inl TypeError, s)
          | Some h \<Rightarrow>
              let (i, c) = write_storage h (nd_key nd) (nd_hash nd) prefix_keys (hi_ctl s)
              in Some (Inr (), hi_upd n protect_host
                   (s\<lparr>hi_ctl := c, hi_ongoing_backup := dict_set i n (hi_ongoing_backup s)\<rparr>))))"

fun ack_writes :: "bool \<Rightarrow> nat list \<Rightarrow> 'v hi \<Rightarrow> (unit, 'v hi) outcome" where
  "ack_writes unlock [] s = Some (Inr (), s)"
| "ack_writes unlock (i # ids) s =
     (case dict_get (hi_ongoing_write_through s) i of
        None \<Rightarrow> Some (Inl KeyError, s)
      | Some n \<Rightarrow>
          andThen (hi_store_event n (Some medium_CPU)
                     (s\<lparr>hi_ongoing_write_through := dict_pop i (hi_ongoing_write_through s)\<rparr>)) (\<lambda>_ s1.
            andThen (if unlock then hi_dec_lock_ref n s1 else Some (Inr 0, s1)) (\<lambda>_ s2.
              andThen (if hi_enable_storage s2 then write_backup_storage n s2 else Some (Inr (), s2)) (\<lambda>_ s3.
                ack_writes unlock ids s3))))"

text \<open>With \<^verbatim>\<open>write_back\<close> the loop waits for all transfers; its assertion lets it run once.\<close>

definition writing_check_all :: "'v hi \<Rightarrow> (unit, 'v hi) outcome" where
  "writing_check_all s =
     (if hi_ongoing_write_through s = [] then Some (Inr (), s)
      else andThen (ack_writes False (concat (hi_ack_write s)) s) (\<lambda>_ s1.
        let s2 = s1\<lparr>hi_ack_write := []\<rparr>
        in if hi_ongoing_write_through s2 \<noteq> [] then Some (Inl AssertionError, s2) else Some (Inr (), s2)))"

text \<open>\<open>finish_count\<close> is the number of transfers that have finished on every rank.\<close>

fun finish_writes :: "nat \<Rightarrow> 'v hi \<Rightarrow> (unit, 'v hi) outcome" where
  "finish_writes 0 s = Some (Inr (), s)"
| "finish_writes (Suc k) s =
     (case hi_ack_write s of
        [] \<Rightarrow> Some (Inl IndexError, s)
      | ids # acks \<Rightarrow> andThen (ack_writes True ids (s\<lparr>hi_ack_write := acks\<rparr>)) (\<lambda>_ s1. finish_writes k s1))"

definition writing_check :: "nat \<Rightarrow> 'v hi \<Rightarrow> (unit, 'v hi) outcome" where
  "writing_check finish_count s =
     (if hi_ongoing_write_through s = [] then Some (Inr (), s) else finish_writes finish_count s)"

fun ack_loads :: "nat list \<Rightarrow> 'v hi \<Rightarrow> (unit, 'v hi) outcome" where
  "ack_loads [] s = Some (Inr (), s)"
| "ack_loads (i # ids) s =
     (case dict_get (hi_ongoing_load_back s) i of
        None \<Rightarrow> Some (Inl KeyError, s)
      | Some n \<Rightarrow>
          andThen (hi_dec_lock_ref n (s\<lparr>hi_ongoing_load_back := dict_pop i (hi_ongoing_load_back s)\<rparr>)) (\<lambda>_ s1.
            ack_loads ids s1))"

definition loading_check :: "nat \<Rightarrow> 'v hi \<Rightarrow> (unit, 'v hi) outcome" where
  "loading_check finish_count s =
     andThen (ack_loads (concat (take finish_count (hi_ack_load s))) s) (\<lambda>_ s1.
       Some (Inr (), s1\<lparr>hi_ack_load := drop finish_count (hi_ack_load s1)\<rparr>))"

section \<open>Evicting device slots\<close>

definition evict_backuped :: "nat \<Rightarrow> 'v hi \<Rightarrow> (nat, 'v hi) outcome" where
  "evict_backuped n s =
     andThen (hi_remove_event n (Some medium_GPU) s) (\<lambda>_ s1.
       case nd_value (hi_node s1 n) of
         None \<Rightarrow> Some (Inl AttributeError, s1)
       | Some v \<Rightarrow>
           let s2 = upd_tree (free_kv v) s1
           in if v = [] then Some (Inl AssertionError, s2)
              else let s3 = hi_upd n (\<lambda>nd. nd\<lparr>nd_value := None\<rparr>)
                         (upd_tree (\<lambda>t. t\<lparr>rc_evictable_size := rc_evictable_size t - int (length v)\<rparr>) s2);
                       s4 = update_host_leaf_status n (hi_update_leaf n s3)
                   in case nd_parent (hi_node s4 n) of
                        None \<Rightarrow> Some (Inl AttributeError, s4)
                      | Some p \<Rightarrow> Some (Inr (length v), hi_update_leaf p s4))"

definition evict_regular :: "nat \<Rightarrow> 'v hi \<Rightarrow> (nat, 'v hi) outcome" where
  "evict_regular n s =
     (if nd_children (hi_node s n) \<noteq> [] then Some (Inl AssertionError, s)
      else andThen (hi_remove_event n None s) (\<lambda>_ s1.
        case nd_value (hi_node s1 n) of
          None \<Rightarrow> Some (Inl AttributeError, s1)
        | Some v \<Rightarrow>
            andThen (Some (on_tree (delete_leaf n) (upd_tree (free_kv v) s1))) (\<lambda>_ s2. Some (Inr (length v), s2))))"

text \<open>What the loop does with the node it popped; the second result lists the nodes being written back.\<close>

definition evict_node :: "nat \<Rightarrow> nat list \<Rightarrow> 'v hi \<Rightarrow> (nat \<times> nat list, 'v hi) outcome" where
  "evict_node x write_back_nodes s =
     (if \<not> backuped (hi_node s x) then
        if hi_write_policy s = ''write_back''
        then andThen (write_backup x True s) (\<lambda>written s1.
               Some (Inr (written, if 0 < written then write_back_nodes @ [x] else write_back_nodes), s1))
        else andThen (evict_regular x s) (\<lambda>l s1. Some (Inr (l, write_back_nodes), s1))
      else andThen (evict_backuped x s) (\<lambda>l s1. Some (Inr (l, write_back_nodes), s1)))"

partial_function (option) hi_evict_loop ::
  "nat \<Rightarrow> eviction_heap \<Rightarrow> nat \<Rightarrow> nat list \<Rightarrow> 'v hi \<Rightarrow> (nat \<times> nat list, 'v hi) outcome" where
  "hi_evict_loop num_tokens hp num_evicted write_back_nodes s =
     (if num_evicted < num_tokens \<and> hp \<noteq> []
      then let (x, hp1) = heap_pop (hi_pick s) hp
           in if 0 < nd_lock_ref (hi_node s x) then hi_evict_loop num_tokens hp1 num_evicted write_back_nodes s
              else andThen (evict_node x write_back_nodes s) (\<lambda>(l, wb) s1.
                case nd_parent (hi_node s1 x) of
                  None \<Rightarrow> Some (Inl AttributeError, s1)
                | Some p \<Rightarrow>
                    let pn = hi_node s1 p;
                        hp2 = (if list_ex (\<lambda>c. c \<notin> set wb \<and> \<not> evicted (hi_node s1 c)) (dict_values (nd_children pn)) then hp1
                               else hp1 @ [(get_priority (rc_strategy (hi_tree s1)) pn, p)])
                    in hi_evict_loop num_tokens hp2 (num_evicted + l) wb s1)
      else Some (Inr (num_evicted, write_back_nodes), s))"

fun evict_written :: "nat list \<Rightarrow> 'v hi \<Rightarrow> (unit, 'v hi) outcome" where
  "evict_written [] s = Some (Inr (), s)"
| "evict_written (n # ns) s =
     (if \<not> backuped (hi_node s n) then Some (Inl AssertionError, s)
      else andThen (evict_backuped n s) (\<lambda>_ s1. evict_written ns s1))"

definition hi_evict :: "nat \<Rightarrow> 'v hi \<Rightarrow> (nat, 'v hi) outcome" where
  "hi_evict num_tokens s =
     andThen (hi_evict_loop num_tokens (heap_of (rc_evictable_leaves (hi_tree s)) s) 0 [] s) (\<lambda>(num_evicted, wb) s1.
       andThen (if hi_write_policy s1 = ''write_back''
                then andThen (writing_check_all s1) (\<lambda>_ s2. evict_written wb s2) else Some (Inr (), s1))
         (\<lambda>_ s2. Some (Inr num_evicted, s2)))"

section \<open>Splitting and matching\<close>

definition hi_split_node :: "radix_key \<Rightarrow> nat \<Rightarrow> nat \<Rightarrow> radix \<Rightarrow> nat res \<times> radix" where
  "hi_split_node key child split_len s =
     (let ps = rc_page_size s;
          cd = rc_store s child;
          (m, s1) = new_tree_node (nd_priority cd) s
      in case child_key ps (rk_drop key split_len) of
           Inl e \<Rightarrow> (Inl e, s1)
         | Inr ck_rest \<Rightarrow>
             (let (h1, h2) = split_node_hash_value (nd_hash cd) split_len ps;
                  s2 = upd_node m (\<lambda>nd. nd\<lparr>nd_children := [(ck_rest, child)], nd_parent := nd_parent cd,
                         nd_lock_ref := nd_lock_ref cd, nd_key := rk_take (nd_key cd) split_len,
                         nd_hit_count := nd_hit_count cd,
                         nd_value := map_option (take split_len) (nd_value cd),
                         nd_host_value := map_option (take split_len) (nd_host_value cd),
                         nd_hash := h1\<rparr>) s1;
                  s3 = upd_node child (\<lambda>nd. nd\<lparr>nd_value := map_option (drop split_len) (nd_value cd),
                         nd_host_value := map_option (drop split_len) (nd_host_value cd),
                         nd_hash := h2, nd_parent := Some m, nd_key := rk_drop (nd_key cd) split_len\<rparr>) s2
              in case child_key ps key of
                   Inl e \<Rightarrow> (Inl e, s3)
                 | Inr ck \<Rightarrow>
                     (case nd_parent cd of
                        None \<Rightarrow> (Inl AttributeError, s3)
                      | Some p \<Rightarrow> (Inr m, upd_node p (\<lambda>nd. nd\<lparr>nd_children := dict_set ck m (nd_children nd)\<rparr>) s3))))"

text \<open>The loop of \<^verbatim>\<open>_match_prefix_helper\<close>; it collects the values of the nodes that are on the device.\<close>

definition device_value :: "radix \<Rightarrow> nat \<Rightarrow> kv_index list list" where
  "device_value s n = (case nd_value (rc_store s n) of None \<Rightarrow> [] | Some v \<Rightarrow> [v])"

definition touch_node :: "nat \<Rightarrow> radix \<Rightarrow> radix" where
  "touch_node n s = (let (t, s1) = read_clock s in upd_node n (\<lambda>nd. nd\<lparr>nd_last_access := t\<rparr>) s1)"

partial_function (option) hi_match_loop ::
  "nat \<Rightarrow> radix_key \<Rightarrow> child_key \<Rightarrow> kv_index list list \<Rightarrow> radix \<Rightarrow> (kv_index list list \<times> nat, radix) outcome" where
  "hi_match_loop n key ck acc s =
     (if 0 < rk_len key \<and> dict_has (nd_children (rc_store s n)) ck
      then case dict_get (nd_children (rc_store s n)) ck of
             None \<Rightarrow> Some (Inl KeyError, s)
           | Some c \<Rightarrow>
               let s1 = touch_node c s
               in case rk_match (rc_page_size s1) (nd_key (rc_store s1 c)) key of
                    Inl e \<Rightarrow> Some (Inl e, s1)
                  | Inr prefix_len \<Rightarrow>
                      if prefix_len < rk_len (nd_key (rc_store s1 c))
                      then case hi_split_node (nd_key (rc_store s1 c)) c prefix_len s1 of
                             (Inl e, s2) \<Rightarrow> Some (Inl e, s2)
                           | (Inr m, s2) \<Rightarrow> Some (Inr (acc @ device_value s2 m, m), s2)
                      else let key' = rk_drop key prefix_len; acc' = acc @ device_value s1 c
                           in if rk_len key' \<noteq> 0
                              then case child_key (rc_page_size s1) key' of
                                     Inl e \<Rightarrow> Some (Inl e, s1)
                                   | Inr ck' \<Rightarrow> hi_match_loop c key' ck' acc' s1
                              else hi_match_loop c key' ck acc' s1
      else Some (Inr (acc, n), s))"

definition hi_match_helper :: "nat \<Rightarrow> radix_key \<Rightarrow> radix \<Rightarrow> (kv_index list list \<times> nat, radix) outcome" where
  "hi_match_helper n key s =
     (let s1 = touch_node n s
      in case child_key (rc_page_size s1) key of
           Inl e \<Rightarrow> Some (Inl e, s1)
         | Inr ck \<Rightarrow> hi_match_loop n key ck [] s1)"

text \<open>The walk from the last node to its first ancestor on the device, counting host slots, and the one to the first with a backup.\<close>

partial_function (option) device_walk :: "nat \<Rightarrow> nat \<Rightarrow> radix \<Rightarrow> (nat \<times> nat) res option" where
  "device_walk n hit s =
     (if evicted (rc_store s n)
      then case nd_host_value (rc_store s n) of
             None \<Rightarrow> Some (Inl TypeError)
           | Some h \<Rightarrow> (case nd_parent (rc_store s n) of
                None \<Rightarrow> Some (Inl AttributeError)
              | Some p \<Rightarrow> device_walk p (hit + length h) s)
      else Some (Inr (n, hit)))"

partial_function (option) host_walk :: "nat \<Rightarrow> radix \<Rightarrow> nat res option" where
  "host_walk n s =
     (if \<not> backuped (rc_store s n)
      then case nd_parent (rc_store s n) of None \<Rightarrow> Some (Inl AttributeError) | Some p \<Rightarrow> host_walk p s
      else Some (Inr n))"

record match_result =
  mr_device_indices :: "kv_index list"
  mr_last_device_node :: nat
  mr_last_host_node :: nat
  mr_host_hit_length :: nat

definition empty_match_result :: "radix \<Rightarrow> match_result" where
  "empty_match_result s = \<lparr>mr_device_indices = [], mr_last_device_node = rc_root s, mr_last_host_node = rc_root s, mr_host_hit_length = 0\<rparr>"

definition hi_match_prefix :: "radix_key \<Rightarrow> 'v hi \<Rightarrow> (match_result, 'v hi) outcome" where
  "hi_match_prefix k s =
     (let T = hi_tree s;
          key = page_aligned (rc_page_size T) (fst (maybe_to_bigram_view (rc_is_eagle T) k None))
      in if rc_disable T \<or> rk_len key = 0 then Some (Inr (empty_match_result T), s)
         else case hi_match_helper (rc_root T) key T of
           None \<Rightarrow> None
         | Some (Inl e, T1) \<Rightarrow> Some (Inl e, s\<lparr>hi_tree := T1\<rparr>)
         | Some (Inr (vs, n), T1) \<Rightarrow>
             Option.bind (device_walk n 0 T1) (\<lambda>dw.
               case dw of
                 Inl e \<Rightarrow> Some (Inl e, s\<lparr>hi_tree := T1\<rparr>)
               | Inr (dn, hit) \<Rightarrow>
                   Option.bind (host_walk n T1) (\<lambda>hw.
                     case hw of
                       Inl e \<Rightarrow> Some (Inl e, s\<lparr>hi_tree := T1\<rparr>)
                     | Inr hn \<Rightarrow>
                         Some (Inr \<lparr>mr_device_indices = concat vs, mr_last_device_node = dn,
                                    mr_last_host_node = hn, mr_host_hit_length = hit\<rparr>, s\<lparr>hi_tree := T1\<rparr>))))"

section \<open>Inserting\<close>

text \<open>
  The step of \<^verbatim>\<open>insert\<close> at a matched node: a node that is not on the device takes over the slots of
  the request, a node that is there counts a hit and adds to the prefix length.
\<close>

definition insert_visit :: "nat \<Rightarrow> kv_index list option \<Rightarrow> nat \<Rightarrow> bool \<Rightarrow> nat \<Rightarrow> 'v hi \<Rightarrow> (nat, 'v hi) outcome" where
  "insert_visit n v prefix_len chunked tot s =
     (if evicted (hi_node s n) then
        (case v of
           None \<Rightarrow> Some (Inl TypeError, s)
         | Some xs \<Rightarrow>
             let w = take prefix_len xs;
                 s1 = upd_tree (\<lambda>t. t\<lparr>rc_evictable_size := rc_evictable_size t + int (length w)\<rparr>)
                        (hi_upd n (\<lambda>nd. nd\<lparr>nd_value := Some w\<rparr>) s);
                 s2 = update_host_leaf_status n (hi_update_leaf n s1)
             in case nd_parent (hi_node s2 n) of
                  None \<Rightarrow> Some (Inl AttributeError, s2)
                | Some p \<Rightarrow> Some (Inr tot, hi_update_leaf p s2))
      else andThen (hi_inc_hit_count n chunked s) (\<lambda>_ s1. Some (Inr (tot + prefix_len), s1)))"

partial_function (option) hi_insert_loop ::
  "nat \<Rightarrow> radix_key \<Rightarrow> kv_index list option \<Rightarrow> child_key \<Rightarrow> int \<Rightarrow> bool \<Rightarrow> nat \<Rightarrow> 'v hi
     \<Rightarrow> (nat \<times> radix_key \<times> kv_index list option \<times> child_key \<times> nat, 'v hi) outcome" where
  "hi_insert_loop n key v ck prio chunked tot s =
     (if 0 < rk_len key \<and> dict_has (nd_children (hi_node s n)) ck
      then case dict_get (nd_children (hi_node s n)) ck of
             None \<Rightarrow> Some (Inl KeyError, s)
           | Some c \<Rightarrow>
               let s1 = upd_tree (\<lambda>t. raise_priority prio c (touch_node c t)) s
               in case rk_match (rc_page_size (hi_tree s1)) (nd_key (hi_node s1 c)) key of
                    Inl e \<Rightarrow> Some (Inl e, s1)
                  | Inr prefix_len \<Rightarrow>
                      andThen (if prefix_len = rk_len (nd_key (hi_node s1 c)) then Some (Inr c, s1)
                               else andThen (Some (on_tree (hi_split_node (nd_key (hi_node s1 c)) c prefix_len) s1)) (\<lambda>m s2.
                                 Some (Inr m, upd_tree (raise_priority prio m) s2))) (\<lambda>m s2.
                        andThen (insert_visit m v prefix_len chunked tot s2) (\<lambda>tot' s3.
                          case v of
                            None \<Rightarrow> Some (Inl TypeError, s3)
                          | Some xs \<Rightarrow>
                              let key' = rk_drop key prefix_len; v' = Some (drop prefix_len xs)
                              in if rk_len key' \<noteq> 0
                                 then case child_key (rc_page_size (hi_tree s3)) key' of
                                        Inl e \<Rightarrow> Some (Inl e, s3)
                                      | Inr ck' \<Rightarrow> hi_insert_loop m key' v' ck' prio chunked tot' s3
                                 else hi_insert_loop m key' v' ck prio chunked tot' s3))
      else Some (Inr (n, key, v, ck, tot), s))"

definition hi_add_leaf ::
  "nat \<Rightarrow> radix_key \<Rightarrow> kv_index list option \<Rightarrow> child_key \<Rightarrow> int \<Rightarrow> bool \<Rightarrow> 'v hi \<Rightarrow> (unit, 'v hi) outcome" where
  "hi_add_leaf n key v ck prio chunked s =
     (let (m, s1) = on_tree (new_tree_node prio) s
      in case v of
           None \<Rightarrow> Some (Inl AttributeError, s1)
         | Some xs \<Rightarrow>
             let s2 = hi_upd m (\<lambda>nd. nd\<lparr>nd_parent := Some n, nd_key := key, nd_value := Some xs\<rparr>) s1;
                 s3 = hi_upd n (\<lambda>nd. nd\<lparr>nd_children := dict_set ck m (nd_children nd)\<rparr>) s2;
                 s4 = upd_tree (\<lambda>t. t\<lparr>rc_evictable_size := rc_evictable_size t + int (length xs)\<rparr>) s3;
                 s5 = hi_update_leaf m (hi_update_leaf n s4)
             in andThen (if hi_enable_storage s5 \<or> rc_events (hi_tree s5)
                         then case compute_node_hash_values m (hi_tree s5) of
                                Inl e \<Rightarrow> Some (Inl e, s5)
                              | Inr hs \<Rightarrow> Some (Inr (), hi_upd m (\<lambda>nd. nd\<lparr>nd_hash := Some hs\<rparr>) s5)
                         else Some (Inr (), s5)) (\<lambda>_ s6.
                  andThen (hi_store_event m None s6) (\<lambda>_ s7.
                    if hi_write_policy s7 \<noteq> ''write_back'' then hi_inc_hit_count m chunked s7 else Some (Inr (), s7))))"

definition hi_insert ::
  "radix_key \<Rightarrow> kv_index list option \<Rightarrow> int option \<Rightarrow> bool \<Rightarrow> 'v hi \<Rightarrow> (nat, 'v hi) outcome" where
  "hi_insert k v0 priority chunked s =
     (let prio = (case priority of None \<Rightarrow> 0 | Some p \<Rightarrow> p);
          T = hi_tree s;
          (key0, v1) = maybe_to_bigram_view (rc_is_eagle T) k v0;
          key = page_aligned (rc_page_size T) key0;
          v = map_option (take (rk_len key)) v1
      in if rk_len key = 0 then Some (Inr 0, s)
         else case child_key (rc_page_size T) key of
                Inl e \<Rightarrow> Some (Inl e, s)
              | Inr ck \<Rightarrow>
                  andThen (hi_insert_loop (rc_root T) key v ck prio chunked 0 s) (\<lambda>(n, key', v', ck', tot) s1.
                    andThen (if rk_len key' \<noteq> 0 then hi_add_leaf n key' v' ck' prio chunked s1 else Some (Inr (), s1)) (\<lambda>_ s2.
                      Some (Inr tot, s2))))"

section \<open>Loading back\<close>

partial_function (option) gather_evicted :: "nat \<Rightarrow> nat list \<Rightarrow> radix \<Rightarrow> (nat \<times> nat list) res option" where
  "gather_evicted n ns s =
     (if evicted (rc_store s n)
      then if \<not> backuped (rc_store s n) then Some (Inl AssertionError)
           else case nd_parent (rc_store s n) of
                  None \<Rightarrow> Some (Inl AttributeError)
                | Some p \<Rightarrow> gather_evicted p (n # ns) s
      else Some (Inr (n, ns)))"

text \<open>Handing out the device slots to the nodes, in order from the ancestor down.\<close>

fun assign_loaded :: "nat list \<Rightarrow> kv_index list \<Rightarrow> 'v hi \<Rightarrow> (unit, 'v hi) outcome" where
  "assign_loaded [] dev s = Some (Inr (), s)"
| "assign_loaded (n # ns) dev s =
     (case nd_host_value (hi_node s n) of
        None \<Rightarrow> Some (Inl TypeError, s)
      | Some h \<Rightarrow>
          andThen (hi_store_event n (Some medium_GPU) (hi_upd n (\<lambda>nd. nd\<lparr>nd_value := Some (take (length h) dev)\<rparr>) s)) (\<lambda>_ s1.
            assign_loaded ns (drop (length h) dev) s1))"

definition load_back :: "nat \<Rightarrow> int option \<Rightarrow> 'v hi \<Rightarrow> (kv_index list option, 'v hi) outcome" where
  "load_back last_hit mem_quota s =
     Option.bind (gather_evicted last_hit [] (hi_tree s)) (\<lambda>g.
       case g of
         Inl e \<Rightarrow> Some (Inl e, s)
       | Inr (ancestor, ns) \<Rightarrow>
           andThen (hi_inc_lock_ref ancestor s) (\<lambda>delta s1.
             case torch_cat (map (\<lambda>n. nd_host_value (hi_node s1 n)) ns) of
               Inl e \<Rightarrow> Some (Inl e, s1)
             | Inr host \<Rightarrow>
                 if length host < hi_load_back_threshold s1 \<or>
                    (case mem_quota of None \<Rightarrow> False | Some q \<Rightarrow> q + delta < int (length host))
                 then andThen (hi_dec_lock_ref ancestor s1) (\<lambda>_ s2. Some (Inr None, s2))
                 else let (dev1, s2) = cc_load host (node_id s1 last_hit) s1
                 in andThen (if dev1 = None
                             then andThen (hi_evict (length host) s2) (\<lambda>_ s3.
                                    let (dev2, s4) = cc_load host (node_id s3 last_hit) s3 in Some (Inr dev2, s4))
                             else Some (Inr dev1, s2)) (\<lambda>dev s3.
                    andThen (hi_dec_lock_ref ancestor s3) (\<lambda>_ s4.
                      case dev of
                        None \<Rightarrow> Some (Inr None, s4)
                      | Some d \<Rightarrow>
                          andThen (assign_loaded ns d
                              (s4\<lparr>hi_ongoing_load_back := dict_set (node_id s4 last_hit) last_hit (hi_ongoing_load_back s4)\<rparr>)) (\<lambda>_ s5.
                            andThen (hi_inc_lock_ref last_hit
                                (upd_tree (\<lambda>t. t\<lparr>rc_evictable_size := rc_evictable_size t + int (length d)\<rparr>) s5)) (\<lambda>_ s6.
                              Some (Inr (Some d), s6)))))))"

partial_function (option) first_device :: "nat \<Rightarrow> radix \<Rightarrow> nat res option" where
  "first_device n s =
     (if evicted (rc_store s n)
      then case nd_parent (rc_store s n) of None \<Rightarrow> Some (Inl AttributeError) | Some p \<Rightarrow> first_device p s
      else Some (Inr n))"

definition init_load_back :: "nat \<Rightarrow> int option \<Rightarrow> 'v hi \<Rightarrow> (kv_index list \<times> nat, 'v hi) outcome" where
  "init_load_back best_match mem_quota s =
     (if evicted (hi_node s best_match)
      then andThen (load_back best_match mem_quota s) (\<lambda>loading s1.
             case loading of
               Some d \<Rightarrow> Some (Inr (d, best_match), s1)
             | None \<Rightarrow> Option.bind (first_device best_match (hi_tree s1)) (\<lambda>r.
                 case r of Inl e \<Rightarrow> Some (Inl e, s1) | Inr n \<Rightarrow> Some (Inr ([], n), s1)))
      else Some (Inr ([], best_match), s))"

section \<open>Prefetching from storage\<close>

definition hi_protect :: "nat \<Rightarrow> 'v hi \<Rightarrow> 'v hi" where
  "hi_protect n s = hi_upd n protect_host s"

definition hi_release :: "nat \<Rightarrow> 'v hi \<Rightarrow> (unit, 'v hi) outcome" where
  "hi_release n s = (case release_host (hi_node s n) of
      Inl e \<Rightarrow> Some (Inl e, s) | Inr nd \<Rightarrow> Some (Inr (), hi_upd n (\<lambda>_. nd) s))"

text \<open>
  When the slots do not suffice even after an eviction, the request takes the whole pages that are
  left: that last allocation asks for no more than is free.
\<close>

definition prefetch_from_storage ::
  "string \<Rightarrow> nat \<Rightarrow> int list \<Rightarrow> string option \<Rightarrow> string list option \<Rightarrow> 'v hi \<Rightarrow> (unit, 'v hi) outcome" where
  "prefetch_from_storage req_id n new_input_tokens prior_hash prefix_keys s =
     (let T = hi_tree s;
          key = page_aligned (rc_page_size T) \<lparr>token_ids = new_input_tokens, extra_key = extra_key (nd_key (hi_node s n)),
                  is_bigram = rc_is_eagle T\<rparr>;
          len = rk_len key;
          start = (\<lambda>host s1. let (op, c) = cc_prefetch req_id host key prior_hash prefix_keys (hi_ctl s1)
                    in Some (Inr (), s1\<lparr>hi_ctl := c\<lparr>cc_occupied := cc_occupied c + int len\<rparr>,
                         hi_ongoing_prefetch := dict_set req_id (n, key, host) (hi_ongoing_prefetch s1)\<rparr>))
      in if \<not> hi_enable_storage s \<or> len < hi_prefetch_threshold s \<or> prefetch_rate_limited (hi_ctl s) then Some (Inr (), s)
         else andThen (Some (hi_host_alloc len (hi_protect n s))) (\<lambda>host1 s1.
           andThen (if host1 = None
                    then andThen (hi_evict_host len s1) (\<lambda>_ s2. Some (hi_host_alloc len s2))
                    else Some (Inr host1, s1)) (\<lambda>host2 s2.
             case host2 of
               Some host \<Rightarrow> start host s2
             | None \<Rightarrow>
                 let avail = length (hi_host_free s2); short = avail - avail mod rc_page_size (hi_tree s2)
                 in if hi_prefetch_threshold s2 \<le> short
                    then andThen (Some (hi_host_alloc short s2)) (\<lambda>host3 s3.
                      case host3 of Some host \<Rightarrow> start host s3 | None \<Rightarrow> Some (Inl TypeError, s3))
                    else hi_release n s2)))"

partial_function (option) insert_host_loop ::
  "nat \<Rightarrow> radix_key \<Rightarrow> kv_index list \<Rightarrow> string list \<Rightarrow> child_key \<Rightarrow> nat \<Rightarrow> radix
     \<Rightarrow> (nat \<times> radix_key \<times> kv_index list \<times> string list \<times> child_key \<times> nat, radix) outcome" where
  "insert_host_loop n key h hs ck matched s =
     (if 0 < rk_len key \<and> dict_has (nd_children (rc_store s n)) ck
      then case dict_get (nd_children (rc_store s n)) ck of
             None \<Rightarrow> Some (Inl KeyError, s)
           | Some c \<Rightarrow>
               let s1 = touch_node c s
               in case rk_match (rc_page_size s1) (nd_key (rc_store s1 c)) key of
                    Inl e \<Rightarrow> Some (Inl e, s1)
                  | Inr prefix_len \<Rightarrow>
                      let key' = rk_drop key prefix_len; h' = drop prefix_len h;
                          hs' = drop (prefix_len div rc_page_size s1) hs
                      in andThen (if prefix_len < rk_len (nd_key (rc_store s1 c))
                                  then Some (hi_split_node (nd_key (rc_store s1 c)) c prefix_len s1)
                                  else Some (Inr c, s1)) (\<lambda>m s2.
                           if rk_len key' \<noteq> 0
                           then case child_key (rc_page_size s2) key' of
                                  Inl e \<Rightarrow> Some (Inl e, s2)
                                | Inr ck' \<Rightarrow> insert_host_loop m key' h' hs' ck' (matched + prefix_len) s2
                           else insert_host_loop m key' h' hs' ck (matched + prefix_len) s2)
      else Some (Inr (n, key, h, hs, ck, matched), s))"

definition add_host_leaf ::
  "nat \<Rightarrow> radix_key \<Rightarrow> kv_index list \<Rightarrow> string list \<Rightarrow> child_key \<Rightarrow> 'v hi \<Rightarrow> (unit, 'v hi) outcome" where
  "add_host_leaf n key h hs ck s =
     (let (m, s1) = on_tree (new_tree_node (nd_priority (hi_node s n))) s;
          s2 = hi_upd m (\<lambda>nd. nd\<lparr>nd_parent := Some n, nd_key := key, nd_value := None, nd_host_value := Some h,
                 nd_hash := Some hs\<rparr>) s1;
          s3 = hi_upd n (\<lambda>nd. nd\<lparr>nd_children := dict_set ck m (nd_children nd)\<rparr>) s2;
          s4 = update_host_leaf_status n (hi_update_leaf n (update_host_leaf_status m s3))
      in hi_store_event m (Some medium_CPU) s4)"

definition insert_helper_host ::
  "nat \<Rightarrow> radix_key \<Rightarrow> kv_index list \<Rightarrow> string list \<Rightarrow> 'v hi \<Rightarrow> (nat, 'v hi) outcome" where
  "insert_helper_host n key h hs s =
     (let s1 = upd_tree (touch_node n) s
      in if rk_len key = 0 then Some (Inr 0, s1)
         else case child_key (rc_page_size (hi_tree s1)) key of
                Inl e \<Rightarrow> Some (Inl e, s1)
              | Inr ck \<Rightarrow>
                  (case insert_host_loop n key h hs ck 0 (hi_tree s1) of
                     None \<Rightarrow> None
                   | Some (Inl e, T) \<Rightarrow> Some (Inl e, s1\<lparr>hi_tree := T\<rparr>)
                   | Some (Inr (m, key', h', hs', ck', matched), T) \<Rightarrow>
                       andThen (if rk_len key' \<noteq> 0 then add_host_leaf m key' h' hs' ck' (s1\<lparr>hi_tree := T\<rparr>)
                                else Some (Inr (), s1\<lparr>hi_tree := T\<rparr>)) (\<lambda>_ s2.
                         Some (Inr matched, s2))))"

text \<open>
  Whether a prefetch may end: \<open>timed_out\<close> is the outcome of the timeout check, \<open>ranks\<close> what the
  other ranks put into the reduction (whether they can end it, whether it is terminated there).
\<close>

definition can_terminate_prefetch :: "string \<Rightarrow> nat \<Rightarrow> bool \<Rightarrow> (bool \<times> bool) list \<Rightarrow> prefetch_op \<Rightarrow> bool" where
  "can_terminate_prefetch policy ps timed_out ranks op =
     (let completed = so_hash_value op \<noteq> [] \<and> so_completed op = length (so_hash_value op) * ps;
          decide = (\<lambda>can. list_all fst ((can, po_terminated op) # ranks) \<or> list_ex snd ((can, po_terminated op) # ranks))
      in if policy = ''best_effort'' then True
         else if policy = ''wait_complete'' then decide completed
         else if policy = ''timeout'' then decide (completed \<or> timed_out)
         else True)"

text \<open>
  \<open>op\<close> is the operation of the request as the transfer threads have left it, \<open>others\<close> the numbers of
  tokens that the other ranks completed.
\<close>

definition check_prefetch_progress ::
  "string \<Rightarrow> prefetch_op \<Rightarrow> bool \<Rightarrow> (bool \<times> bool) list \<Rightarrow> nat list \<Rightarrow> 'v hi \<Rightarrow> (bool, 'v hi) outcome" where
  "check_prefetch_progress req_id op timed_out ranks others s =
     (case dict_get (hi_ongoing_prefetch s) req_id of
        None \<Rightarrow> Some (Inr True, s)
      | Some (n, key, host) \<Rightarrow>
          if \<not> can_terminate_prefetch (hi_stop_policy s) (rc_page_size (hi_tree s)) timed_out ranks op
          then Some (Inr False, s)
          else let ((completed, hash_value), _) = terminate_prefetch op;
                   min_completed = fold min others completed
          in andThen (insert_helper_host n (rk_take key min_completed) (take min_completed host)
                        (take (min_completed div rc_page_size (hi_tree s)) hash_value) s) (\<lambda>matched s1.
               let s2 = hi_host_release (take matched host) s1;
                   s3 = s2\<lparr>hi_ctl := append_host_mem_release (take (completed - min_completed) (drop min_completed host)) (hi_ctl s2)\<rparr>
               in andThen (hi_release n s3) (\<lambda>_ s4.
                    Some (Inr True, s4\<lparr>hi_ongoing_prefetch := dict_pop req_id (hi_ongoing_prefetch s4),
                            hi_ctl := (hi_ctl s4)\<lparr>cc_occupied := cc_occupied (hi_ctl s4) - int (rk_len key)\<rparr>,
                            hi_loaded_tokens := dict_set req_id (min_completed - matched) (hi_loaded_tokens s4)\<rparr>))))"

definition pop_prefetch_loaded_tokens :: "string \<Rightarrow> 'v hi \<Rightarrow> nat \<times> 'v hi" where
  "pop_prefetch_loaded_tokens req_id s =
     (case dict_get (hi_loaded_tokens s) req_id of None \<Rightarrow> 0 | Some l \<Rightarrow> l,
      s\<lparr>hi_loaded_tokens := dict_pop req_id (hi_loaded_tokens s)\<rparr>)"

definition release_aborted_request :: "string \<Rightarrow> prefetch_op \<Rightarrow> 'v hi \<Rightarrow> (unit, 'v hi) outcome" where
  "release_aborted_request rid op s =
     (let s0 = s\<lparr>hi_loaded_tokens := dict_pop rid (hi_loaded_tokens s)\<rparr>
      in case dict_get (hi_ongoing_prefetch s0) rid of
           None \<Rightarrow> Some (Inr (), s0)
         | Some (n, key, host) \<Rightarrow>
             let ((completed, _), _) = terminate_prefetch op
             in andThen (hi_release n s0) (\<lambda>_ s1.
                  let c = append_host_mem_release (take completed host) (hi_ctl s1)
                  in Some (Inr (), s1\<lparr>hi_ongoing_prefetch := dict_pop rid (hi_ongoing_prefetch s1),
                             hi_ctl := c\<lparr>cc_occupied := cc_occupied c - int (rk_len key)\<rparr>\<rparr>)))"

section \<open>Queues of the storage threads\<close>

text \<open>A limit of \<^verbatim>\<open>None\<close> drains the whole queue.\<close>

definition drained :: "nat option \<Rightarrow> 'a list \<Rightarrow> 'a list \<times> 'a list" where
  "drained limit q = (case limit of None \<Rightarrow> (q, []) | Some n \<Rightarrow> (take n q, drop n q))"

fun drain_revoke :: "string list \<Rightarrow> 'v hi \<Rightarrow> (unit, 'v hi) outcome" where
  "drain_revoke [] s = Some (Inr (), s)"
| "drain_revoke (req_id # ids) s =
     (let s0 = s\<lparr>hi_ctl := (hi_ctl s)\<lparr>cc_revoke_queue := tl (cc_revoke_queue (hi_ctl s))\<rparr>\<rparr>
      in case dict_get (hi_ongoing_prefetch s0) req_id of
           None \<Rightarrow> drain_revoke ids s0
         | Some (n, key, host) \<Rightarrow>
             andThen (hi_release n (s0\<lparr>hi_ongoing_prefetch := dict_pop req_id (hi_ongoing_prefetch s0)\<rparr>)) (\<lambda>_ s1.
               drain_revoke ids (s1\<lparr>hi_ctl := (hi_ctl s1)\<lparr>cc_occupied := max 0 (cc_occupied (hi_ctl s1) - int (rk_len key))\<rparr>\<rparr>)))"

fun drain_backup :: "storage_op list \<Rightarrow> 'v hi \<Rightarrow> (unit, 'v hi) outcome" where
  "drain_backup [] s = Some (Inr (), s)"
| "drain_backup (op # ops) s =
     (let s0 = s\<lparr>hi_ctl := (hi_ctl s)\<lparr>cc_ack_backup := tl (cc_ack_backup (hi_ctl s))\<rparr>\<rparr>
      in case dict_get (hi_ongoing_backup s0) (so_id op) of
           None \<Rightarrow> drain_backup ops s0
         | Some n \<Rightarrow>
             andThen (hi_release n (s0\<lparr>hi_ongoing_backup := dict_pop (so_id op) (hi_ongoing_backup s0)\<rparr>)) (\<lambda>_ s1.
               drain_backup ops s1))"

definition drain_storage_control_queues ::
  "nat option \<Rightarrow> nat option \<Rightarrow> nat option \<Rightarrow> 'v hi \<Rightarrow> (unit, 'v hi) outcome" where
  "drain_storage_control_queues n_revoke n_backup n_release s =
     andThen (drain_revoke (fst (drained n_revoke (cc_revoke_queue (hi_ctl s)))) s) (\<lambda>_ s1.
       andThen (drain_backup (fst (drained n_backup (cc_ack_backup (hi_ctl s1)))) s1) (\<lambda>_ s2.
         let (released, rest) = drained n_release (cc_release_queue (hi_ctl s2))
         in Some (Inr (), hi_host_release (concat released) (s2\<lparr>hi_ctl := (hi_ctl s2)\<lparr>cc_release_queue := rest\<rparr>\<rparr>))))"

text \<open>\<open>sizes\<close> are the least sizes of the three queues over all ranks.\<close>

definition check_hicache_events ::
  "nat \<Rightarrow> nat \<Rightarrow> nat \<times> nat \<times> nat \<Rightarrow> 'v hi \<Rightarrow> (unit, 'v hi) outcome" where
  "check_hicache_events writes loads sizes s =
     andThen (writing_check writes s) (\<lambda>_ s1.
       andThen (loading_check loads s1) (\<lambda>_ s2.
         if hi_enable_storage s2
         then drain_storage_control_queues (Some (fst sizes)) (Some (fst (snd sizes))) (Some (snd (snd sizes))) s2
         else Some (Inr (), s2)))"

text \<open>Giving up what is pending: exceptions of a release are logged and passed over.\<close>

fun force_release_prefetch :: "(string \<times> nat \<times> radix_key \<times> kv_index list) list \<Rightarrow> 'v hi \<Rightarrow> 'v hi" where
  "force_release_prefetch [] s = s"
| "force_release_prefetch ((req_id, n, key, host) # es) s =
     (let s1 = hi_host_release host s;
          s2 = (case release_host (hi_node s1 n) of Inl e \<Rightarrow> s1 | Inr nd \<Rightarrow> hi_upd n (\<lambda>_. nd) s1)
      in force_release_prefetch es
           (s2\<lparr>hi_ctl := (hi_ctl s2)\<lparr>cc_occupied := max 0 (cc_occupied (hi_ctl s2) - int (rk_len key))\<rparr>,
               hi_ongoing_prefetch := dict_pop req_id (hi_ongoing_prefetch s2)\<rparr>))"

fun force_release_backup :: "(nat \<times> nat) list \<Rightarrow> 'v hi \<Rightarrow> 'v hi" where
  "force_release_backup [] s = s"
| "force_release_backup ((i, n) # es) s =
     (let s1 = (case release_host (hi_node s n) of Inl e \<Rightarrow> s | Inr nd \<Rightarrow> hi_upd n (\<lambda>_. nd) s)
      in force_release_backup es (s1\<lparr>hi_ongoing_backup := dict_pop i (hi_ongoing_backup s1)\<rparr>))"

definition force_release_pending_storage_ops :: "'v hi \<Rightarrow> 'v hi" where
  "force_release_pending_storage_ops s =
     (let s1 = force_release_prefetch (hi_ongoing_prefetch s) s in force_release_backup (hi_ongoing_backup s1) s1)"

text \<open>Detaching; \<open>stopped\<close> tells whether the controller could stop its threads.\<close>

definition detach_storage_backend :: "bool \<Rightarrow> 'v hi \<Rightarrow> (bool, 'v hi) outcome" where
  "detach_storage_backend stopped s =
     (case drain_storage_control_queues None None None s of
        None \<Rightarrow> None
      | Some (Inl e, s1) \<Rightarrow> Some (Inr False, s1)
      | Some (Inr _, s1) \<Rightarrow>
          if \<not> stopped then Some (Inr False, s1)
          else andThen (drain_storage_control_queues None None None s1) (\<lambda>_ s2.
            Some (Inr True, (force_release_pending_storage_ops s2)\<lparr>hi_enable_storage := False\<rparr>)))"

section \<open>Reset and construction\<close>

text \<open>
  \<^verbatim>\<open>HiCacheController.reset\<close>: the transfer queues are cleared, and with a storage backend the queues
  of its threads; the queue of host slots to release is not. A restarted prefetch thread makes a new
  buffer.
\<close>

definition cc_reset :: "bool \<Rightarrow> controller \<Rightarrow> controller" where
  "cc_reset storage c =
     (if storage then c\<lparr>cc_prefetch_queue := [], cc_prefetch_buffer := [], cc_backup_queue := [], cc_revoke_queue := [],
                         cc_ack_backup := []\<rparr> else c)"

definition hi_reset :: "'v hi \<Rightarrow> 'v hi" where
  "hi_reset s =
     (let s1 = s\<lparr>hi_id_base := rc_counter (hi_tree s), hi_load_queue := [], hi_ack_write := [], hi_ack_load := [],
                  hi_ctl := cc_reset (hi_enable_storage s) (hi_ctl s)\<rparr>;
          s2 = (hi_host_clear s1)\<lparr>hi_loaded_tokens := [], hi_host_leaves := []\<rparr>
      in upd_tree radix_reset s2)"

definition hi_init ::
  "radix \<Rightarrow> (eviction_heap \<Rightarrow> nat) \<Rightarrow> nat \<Rightarrow> (kv_index \<Rightarrow> 'v) \<Rightarrow> (kv_index \<Rightarrow> 'v) \<Rightarrow> string \<Rightarrow> string \<Rightarrow> controller
     \<Rightarrow> string \<Rightarrow> bool \<Rightarrow> nat \<Rightarrow> bool \<Rightarrow> string \<Rightarrow> 'v hi" where
  "hi_init tree pick host_size dev host io layout ctl write_policy storage threshold pass_prefix_keys stop_policy =
     \<lparr>hi_tree = tree, hi_pick = pick, hi_id_base = 0, hi_host_size = host_size,
      hi_host_free = map int [0..<host_size], hi_host_leaves = [], hi_dev_kv = dev, hi_host_kv = host,
      hi_io_backend = io, hi_layout = layout, hi_ctl = ctl, hi_ack_write = [], hi_load_queue = [], hi_ack_load = [],
      hi_write_policy = write_policy, hi_write_through_threshold = (if write_policy = ''write_through'' then 1 else 2),
      hi_load_back_threshold = 10, hi_enable_storage = storage, hi_prefetch_threshold = threshold,
      hi_pass_prefix_keys = pass_prefix_keys, hi_stop_policy = stop_policy, hi_ongoing_write_through = [],
      hi_ongoing_load_back = [], hi_ongoing_prefetch = [], hi_ongoing_backup = [], hi_loaded_tokens = []\<rparr>"

end
