(* ===== verification/Hi_Tiers.thy ===== *)
theory Hi_Tiers
  imports Hi_Radix
begin

text \<open>
  The two tiers of the hierarchical cache as views of its tree. The device view keeps the nodes that
  have device slots and is a radix tree in the sense of the plain cache: its invariant and the lemmas
  about splitting, attaching and detaching apply to it. The skeleton forgets the slots and keeps
  every node; it tells which sequences the cache knows, on either tier.
\<close>

section \<open>States that agree on the live nodes\<close>

definition live_eq :: "nat set \<Rightarrow> radix \<Rightarrow> radix \<Rightarrow> bool" where
  "live_eq N s t \<longleftrightarrow>
     (\<forall>n \<in> N. kids_of t n = kids_of s n \<and> par t n = par s n \<and> keyof t n = keyof s n \<and>
        valof t n = valof s n \<and> lockof t n = lockof s n) \<and>
     rc_root t = rc_root s \<and> rc_page_size t = rc_page_size s \<and> rc_is_eagle t = rc_is_eagle s \<and>
     rc_counter s \<le> rc_counter t"

lemma live_eqD:
  assumes "live_eq N s t"
  shows "n \<in> N \<Longrightarrow> kids_of t n = kids_of s n" "n \<in> N \<Longrightarrow> par t n = par s n" "n \<in> N \<Longrightarrow> keyof t n = keyof s n"
    "n \<in> N \<Longrightarrow> valof t n = valof s n" "n \<in> N \<Longrightarrow> lockof t n = lockof s n"
    "rc_root t = rc_root s" "rc_page_size t = rc_page_size s" "rc_is_eagle t = rc_is_eagle s" "rc_counter s \<le> rc_counter t"
  using assms unfolding live_eq_def by blast+

lemma live_eq_refl [simp]: "live_eq N s s"
  by (simp add: live_eq_def)

lemma live_eq_shape: "same_shape s t \<Longrightarrow> live_eq N s t"
  by (simp add: live_eq_def same_shape_def)

lemma live_eq_mono: "live_eq N s t \<Longrightarrow> M \<subseteq> N \<Longrightarrow> live_eq M s t"
  by (auto simp: live_eq_def)

lemma struct_ok_cong:
  assumes st: "struct_ok N s"
    and e: "\<And>n. n \<in> N \<Longrightarrow> kids_of t n = kids_of s n" "\<And>n. n \<in> N \<Longrightarrow> par t n = par s n" "\<And>n. n \<in> N \<Longrightarrow> keyof t n = keyof s n"
      "\<And>n. n \<in> N \<Longrightarrow> valof t n = valof s n"
    and g: "rc_root t = rc_root s" "rc_page_size t = rc_page_size s" "rc_is_eagle t = rc_is_eagle s" "rc_counter s \<le> rc_counter t"
  shows "struct_ok N t"
proof -
  have r: "rc_root s \<in> N" by (rule struct_okD(2) [OF st])
  show ?thesis unfolding struct_ok_def g(1-3)
  proof (intro conjI ballI allI)
    show "n < rc_counter t" if "n \<in> N" for n using struct_okD(6) [OF st that] g(4) by simp
    show "dict_ok (kids_of t n)" if "n \<in> N" for n using struct_okD(7) [OF st that] e(1) [OF that] by simp
    show "(dict_get (kids_of t n) ck = Some c) = (c \<in> N - {rc_root s} \<and> par t c = Some n \<and> ck = ckey (rc_page_size s) (keyof t c))"
      if "n \<in> N" for n ck c
      using struct_okD(9) [OF st that, of ck c] e(1) [OF that] e(2,3) [of c] by auto
    show "\<exists>rk :: nat \<Rightarrow> nat. \<forall>n \<in> N - {rc_root s}. \<forall>p. par t n = Some p \<longrightarrow> rk p < rk n"
    proof -
      from st obtain rk :: "nat \<Rightarrow> nat" where rk: "\<forall>n \<in> N - {rc_root s}. \<forall>p. par s n = Some p \<longrightarrow> rk p < rk n"
        unfolding struct_ok_def by blast
      have "rk p < rk n" if "n \<in> N - {rc_root s}" "par t n = Some p" for n p using rk that e(2) [of n] by auto
      then show ?thesis by blast
    qed
    fix n assume n: "n \<in> N - {rc_root s}"
    then have n1: "n \<in> N" "n \<noteq> rc_root s" by auto
    show "node_ok t n" using struct_okD(8) [OF st n1] e(3,4) [OF n1(1)] g(2,3) by (simp add: node_ok_def)
    from parent_exists [OF st n1] obtain p where "p \<in> N" "par s n = Some p"
      "p \<noteq> rc_root s \<Longrightarrow> extra_key (keyof s n) = extra_key (keyof s p)" by metis
    then show "\<exists>p \<in> N. par t n = Some p \<and> (p \<noteq> rc_root s \<longrightarrow> extra_key (keyof t n) = extra_key (keyof t p))"
      using e(2,3) n1(1) by (intro bexI [of _ p]) auto
  qed (use struct_okD(1,3,4,5) [OF st] r e(2,4) [OF r] in simp_all)
qed

lemma struct_ok_live:
  assumes "struct_ok N s" and "live_eq N s t"
  shows "struct_ok N t"
  by (rule struct_ok_cong [OF assms(1)]) (use assms(2) in \<open>auto simp: live_eq_def\<close>)

lemma tree_inv_live:
  assumes inv: "tree_inv N L s" and eq: "live_eq N s t"
    and "rc_evictable_size t = rc_evictable_size s" "rc_protected_size t = rc_protected_size s"
    "rc_evictable_leaves t = rc_evictable_leaves s"
  shows "tree_inv N L t"
proof -
  note e = live_eqD [OF eq]
  have st: "struct_ok N s" using inv by (simp add: tree_inv_def)
  have r: "rc_root s \<in> N" by (rule struct_okD(2) [OF st])
  have sum: "(\<Sum>c | c \<in> N - {rc_root s} \<and> par t c = Some n. lockof t c) =
      (\<Sum>c | c \<in> N - {rc_root s} \<and> par s c = Some n. lockof s c)" for n
    using e(2,5) by (intro sum.cong) auto
  have lk: "locks_ok N L s" using inv by (simp add: tree_inv_def)
  have "locks_ok N L t" unfolding locks_ok_def e(6) sum
  proof (intro conjI allI impI ballI)
    show "0 < lockof t (rc_root s)" using locks_okD(1) [OF lk] e(5) [OF r] by simp
    show "L n = 0" if "n \<notin> N" for n using locks_okD(2) [OF lk that] .
    fix n assume "n \<in> N - {rc_root s}"
    then have n: "n \<in> N" "n \<noteq> rc_root s" by auto
    show "0 \<le> lockof t n" using locks_okD(3) [OF lk n] e(5) [OF n(1)] by simp
    show "lockof t n = int (L n) + (\<Sum>c | c \<in> N - {rc_root s} \<and> par s c = Some n. lockof s c)"
      unfolding e(5) [OF n(1)] by (rule locks_okD(4) [OF lk n])
  qed
  moreover have "sizes_ok N t"
  proof -
    have "(\<Sum>n \<in> N - {rc_root s}. if lockof t n = 0 then int (rk_len (keyof t n)) else 0) =
        (\<Sum>n \<in> N - {rc_root s}. if lockof s n = 0 then int (rk_len (keyof s n)) else 0)"
      "(\<Sum>n \<in> N - {rc_root s}. if lockof t n = 0 then 0 else int (rk_len (keyof t n))) =
        (\<Sum>n \<in> N - {rc_root s}. if lockof s n = 0 then 0 else int (rk_len (keyof s n)))"
      by (intro sum.cong refl, simp only: e(3,5) Diff_iff)+
    then show ?thesis using inv assms(3,4) by (simp add: tree_inv_def sizes_ok_def e(6))
  qed
  moreover have "leaves_ok N t"
  proof -
    have "{n \<in> N - {rc_root s}. lockof t n = 0 \<and> kids_of t n = []} = {n \<in> N - {rc_root s}. lockof s n = 0 \<and> kids_of s n = []}"
      using e(1,5) by auto
    then show ?thesis using inv assms(5) by (simp add: tree_inv_def leaves_ok_def e(6))
  qed
  ultimately show ?thesis using struct_ok_live [OF st eq] by (simp add: tree_inv_def)
qed

lemma rpath_live_imp:
  assumes "rpath s ek a n us vs" and "struct_ok N s" and "a \<in> N" and eq: "live_eq N s t"
  shows "rpath t ek a n us vs"
  using assms(1-3)
proof (induction rule: rpath.induct)
  case (cons a ck c v n us vs)
  have c: "c \<in> N" using struct_okD(9) [OF cons.prems(1,2)] cons.hyps(1) by blast
  note e = live_eqD [OF eq]
  show ?case
    using rpath.cons [of t a ck c ek v n us vs] cons.hyps cons.IH [OF cons.prems(1) c] e(1) [OF cons.prems(2)] e(3,4) [OF c] by simp
qed (rule rpath.nil)

lemma live_eq_sym:
  assumes "live_eq N s t"
  shows "live_eq N t (s\<lparr>rc_counter := rc_counter t\<rparr>)"
  using assms by (auto simp: live_eq_def)

lemma rpath_counter [simp]: "rpath (s\<lparr>rc_counter := k\<rparr>) ek a n us vs = rpath s ek a n us vs"
proof
  show "rpath s ek a n us vs" if "rpath (s\<lparr>rc_counter := k\<rparr>) ek a n us vs"
    using that
  proof (induction rule: rpath.induct)
    case (cons a ck c v n us vs)
    then show ?case using rpath.cons [of s a ck c ek v n us vs] by simp
  qed (rule rpath.nil)
  show "rpath (s\<lparr>rc_counter := k\<rparr>) ek a n us vs" if "rpath s ek a n us vs"
    using that
  proof (induction rule: rpath.induct)
    case (cons a ck c v n us vs)
    then show ?case using rpath.cons [of "s\<lparr>rc_counter := k\<rparr>" a ck c ek v n us vs] by simp
  qed (rule rpath.nil)
qed

lemma rpath_live_eq:
  assumes st: "struct_ok N s" and eq: "live_eq N s t" and a: "a \<in> N"
  shows "rpath t ek a n us vs = rpath s ek a n us vs"
  using rpath_live_imp [OF _ st a eq] rpath_live_imp [OF _ struct_ok_live [OF st eq] a live_eq_sym [OF eq]] by auto

lemma cached_live_eq:
  assumes st: "struct_ok N s" and eq: "live_eq N s t"
  shows "cached t ek us vs = cached s ek us vs"
  unfolding cached_def live_eqD(6) [OF eq] rpath_live_eq [OF st eq struct_okD(2) [OF st]] ..

lemma slots_live_eq:
  assumes "live_eq N s t"
  shows "slots N t = slots N s"
  unfolding slots_def live_eqD(6) [OF assms] using live_eqD(4) [OF assms] by (intro sum.cong) auto

section \<open>The two views\<close>

abbreviation hostof :: "radix \<Rightarrow> nat \<Rightarrow> kv_index list option" where
  "hostof s n \<equiv> nd_host_value (rc_store s n)"

definition devs :: "nat set \<Rightarrow> radix \<Rightarrow> nat set" where
  "devs N T = {n \<in> N. valof T n \<noteq> None}"

definition dview :: "nat set \<Rightarrow> radix \<Rightarrow> radix" where
  "dview N T = T\<lparr>rc_store := (\<lambda>n. (rc_store T n)\<lparr>nd_children :=
     if n \<in> devs N T then filter (\<lambda>p. snd p \<in> devs N T) (kids_of T n) else []\<rparr>)\<rparr>"

definition skel :: "radix \<Rightarrow> radix" where
  "skel T = T\<lparr>rc_store := (\<lambda>n. (rc_store T n)\<lparr>nd_value := Some (replicate (rk_len (keyof T n)) 0)\<rparr>)\<rparr>"

lemma dview_simps [simp]:
  "par (dview N T) n = par T n" "keyof (dview N T) n = keyof T n" "valof (dview N T) n = valof T n"
  "lockof (dview N T) n = lockof T n"
  "kids_of (dview N T) n = (if n \<in> devs N T then filter (\<lambda>p. snd p \<in> devs N T) (kids_of T n) else [])"
  "rc_root (dview N T) = rc_root T" "rc_page_size (dview N T) = rc_page_size T" "rc_is_eagle (dview N T) = rc_is_eagle T"
  "rc_counter (dview N T) = rc_counter T" "rc_evictable_size (dview N T) = rc_evictable_size T"
  "rc_protected_size (dview N T) = rc_protected_size T" "rc_evictable_leaves (dview N T) = rc_evictable_leaves T"
  "rc_alloc (dview N T) = rc_alloc T" "rc_class (dview N T) = rc_class T" "rc_disable (dview N T) = rc_disable T"
  "rc_strategy (dview N T) = rc_strategy T" "rc_events (dview N T) = rc_events T" "rc_sha (dview N T) = rc_sha T"
  "rc_disable_finished_insert (dview N T) = rc_disable_finished_insert T"
  by (simp_all add: dview_def)

lemma skel_simps [simp]:
  "par (skel T) n = par T n" "keyof (skel T) n = keyof T n" "valof (skel T) n = Some (replicate (rk_len (keyof T n)) 0)"
  "lockof (skel T) n = lockof T n" "kids_of (skel T) n = kids_of T n"
  "rc_root (skel T) = rc_root T" "rc_page_size (skel T) = rc_page_size T" "rc_is_eagle (skel T) = rc_is_eagle T"
  "rc_counter (skel T) = rc_counter T" "rc_evictable_size (skel T) = rc_evictable_size T"
  "rc_protected_size (skel T) = rc_protected_size T" "rc_evictable_leaves (skel T) = rc_evictable_leaves T"
  "rc_alloc (skel T) = rc_alloc T" "rc_class (skel T) = rc_class T" "rc_disable (skel T) = rc_disable T"
  "rc_strategy (skel T) = rc_strategy T" "rc_events (skel T) = rc_events T" "rc_sha (skel T) = rc_sha T"
  "rc_disable_finished_insert (skel T) = rc_disable_finished_insert T"
  by (simp_all add: skel_def)

lemma same_globals_views [simp]:
  "same_globals (dview N T) (dview M T') = same_globals T T'" "same_globals (skel T) (skel T') = same_globals T T'"
  by (simp_all add: same_globals_def)

lemma devs_sub: "devs N T \<subseteq> N" "n \<in> devs N T \<Longrightarrow> n \<in> N"
  by (auto simp: devs_def)

lemma devs_iff: "n \<in> devs N T \<longleftrightarrow> n \<in> N \<and> \<not> evicted (rc_store T n)"
  by (simp add: devs_def evicted_def)

section \<open>The invariant of the two tiers\<close>

text \<open>Every node has slots on one of the tiers, as many as its key is long; nodes that are only on the host are not locked.\<close>

definition host_node_ok :: "radix \<Rightarrow> nat \<Rightarrow> bool" where
  "host_node_ok T n \<longleftrightarrow> (valof T n = None \<longrightarrow> hostof T n \<noteq> None) \<and> (\<forall>h. hostof T n = Some h \<longrightarrow> length h = rk_len (keyof T n))"

definition host_leaves_ok :: "nat set \<Rightarrow> radix \<Rightarrow> nat list \<Rightarrow> bool" where
  "host_leaves_ok N T hl \<longleftrightarrow> distinct hl \<and> set hl = {n \<in> N - {rc_root T}. valof T n = None \<and> kids_of T n = []}"

definition tiers_ok :: "nat set \<Rightarrow> (nat \<Rightarrow> nat) \<Rightarrow> radix \<Rightarrow> nat list \<Rightarrow> bool" where
  "tiers_ok N L T hl \<longleftrightarrow> struct_ok N (skel T) \<and> tree_inv (devs N T) L (dview N T) \<and>
     (\<forall>n \<in> N. valof T n = None \<longrightarrow> lockof T n = 0) \<and> (\<forall>n \<in> N - {rc_root T}. host_node_ok T n) \<and>
     rk_len (keyof T (rc_root T)) = 0 \<and> hostof T (rc_root T) = Some [] \<and> host_leaves_ok N T hl \<and>
     \<not> rc_disable T \<and> \<not> rc_events T"

lemma tiers_okD:
  assumes "tiers_ok N L T hl"
  shows "struct_ok N (skel T)" "tree_inv (devs N T) L (dview N T)" "n \<in> N \<Longrightarrow> valof T n = None \<Longrightarrow> lockof T n = 0"
    "n \<in> N \<Longrightarrow> n \<noteq> rc_root T \<Longrightarrow> host_node_ok T n" "rk_len (keyof T (rc_root T)) = 0" "hostof T (rc_root T) = Some []"
    "host_leaves_ok N T hl" "\<not> rc_disable T" "\<not> rc_events T" "struct_ok (devs N T) (dview N T)"
  using assms unfolding tiers_ok_def tree_inv_def by blast+

lemma tiers_basics:
  assumes "tiers_ok N L T hl"
  shows "rc_root T \<in> N" "finite N" "0 < rc_page_size T" "rc_root T \<in> devs N T" "n \<in> N \<Longrightarrow> n < rc_counter T"
    "valof T (rc_root T) = Some []" "par T (rc_root T) = None"
  using struct_okD(1-3) [OF tiers_okD(1) [OF assms]] struct_okD(6) [OF tiers_okD(1) [OF assms], of n]
    struct_okD(2,4,5) [OF tiers_okD(10) [OF assms]] by simp_all

lemma tiers_parentD:
  assumes t: "tiers_ok N L T hl" and n: "n \<in> N" "n \<noteq> rc_root T" and p: "par T n = Some p"
  shows "p \<in> N" "p \<noteq> n" "p \<noteq> rc_root T \<Longrightarrow> extra_key (keyof T n) = extra_key (keyof T p)"
    "dict_get (kids_of T p) (ckey (rc_page_size T) (keyof T n)) = Some n" "n \<in> devs N T \<Longrightarrow> p \<in> devs N T"
    "kids_of T p \<noteq> []"
proof -
  note st = tiers_okD(1) [OF t]
  show p1: "p \<in> N" "p \<noteq> n" using parent_live [OF st n(1)] n(2) p by simp_all
  show "extra_key (keyof T n) = extra_key (keyof T p)" if "p \<noteq> rc_root T" using parent_extra [OF st n(1)] n(2) p that by simp
  show g: "dict_get (kids_of T p) (ckey (rc_page_size T) (keyof T n)) = Some n" using struct_okD(9) [OF st p1(1)] n p by simp
  show "p \<in> devs N T" if "n \<in> devs N T" using parent_live [OF tiers_okD(10) [OF t] that] n(2) p by simp
  show "kids_of T p \<noteq> []" using g by auto
qed

lemma tiers_parent:
  assumes "tiers_ok N L T hl" and "n \<in> N" and "n \<noteq> rc_root T"
  obtains p where "p \<in> N" "par T n = Some p"
  using parent_exists [OF tiers_okD(1) [OF assms(1)] assms(2)] assms(3) by auto

text \<open>Induction along the parents, from the root down.\<close>

lemma tiers_induct:
  assumes t: "tiers_ok N L T hl" and "n \<in> N"
    and step: "\<And>n. n \<in> N \<Longrightarrow> (\<And>p. n \<noteq> rc_root T \<Longrightarrow> par T n = Some p \<Longrightarrow> p \<in> N \<Longrightarrow> P p) \<Longrightarrow> P n"
  shows "P n"
proof -
  have "\<exists>rk :: nat \<Rightarrow> nat. \<forall>n \<in> N - {rc_root T}. \<forall>p. par T n = Some p \<longrightarrow> rk p < rk n"
    using tiers_okD(1) [OF t] unfolding struct_ok_def skel_simps by blast
  then obtain rk :: "nat \<Rightarrow> nat" where rk: "\<forall>n \<in> N - {rc_root T}. \<forall>p. par T n = Some p \<longrightarrow> rk p < rk n" ..
  show ?thesis
    using assms(2)
  proof (induction "rk n" arbitrary: n rule: less_induct)
    case less
    show ?case by (rule step [OF less.prems]) (rule less.hyps, use rk less.prems in blast)
  qed
qed

lemma tiers_kids:
  assumes "tiers_ok N L T hl" and "n \<in> N"
  shows "dict_ok (kids_of T n)" "dict_get (kids_of T n) ck = Some c \<longleftrightarrow>
      c \<in> N - {rc_root T} \<and> par T c = Some n \<and> ck = ckey (rc_page_size T) (keyof T c)"
    "c \<in> set (dict_values (kids_of T n)) \<longleftrightarrow> c \<in> N - {rc_root T} \<and> par T c = Some n"
proof -
  note st = tiers_okD(1) [OF assms(1)]
  show 1: "dict_ok (kids_of T n)" using struct_okD(7) [OF st assms(2)] by simp
  show 2: "dict_get (kids_of T n) ck = Some c \<longleftrightarrow>
      c \<in> N - {rc_root T} \<and> par T c = Some n \<and> ck = ckey (rc_page_size T) (keyof T c)" for ck c
    using struct_okD(9) [OF st assms(2), of ck c] by simp
  show "c \<in> set (dict_values (kids_of T n)) \<longleftrightarrow> c \<in> N - {rc_root T} \<and> par T c = Some n"
  proof -
    have "c \<in> set (dict_values (kids_of T n)) \<longleftrightarrow> (\<exists>ck. dict_get (kids_of T n) ck = Some c)"
      unfolding dict_get_iff_in [OF 1] by force
    then show ?thesis using 2 by blast
  qed
qed

text \<open>Children of a node that is not on the device are not there either.\<close>

lemma tiers_evicted_child:
  assumes "tiers_ok N L T hl" and "c \<in> N" "c \<noteq> rc_root T" and "par T c = Some n" and "valof T n = None"
  shows "valof T c = None"
  using tiers_parentD(5) [OF assms(1-4)] assms(2,5) unfolding devs_def by blast

subsection \<open>Changes that the invariant does not see\<close>

definition same_tiers :: "radix \<Rightarrow> radix \<Rightarrow> bool" where
  "same_tiers T U \<longleftrightarrow> same_shape T U \<and>
     (\<forall>n. hostof U n = hostof T n \<and> nd_host_ref (rc_store U n) = nd_host_ref (rc_store T n))"

lemma same_tiers_refl [simp]: "same_tiers T T"
  by (simp add: same_tiers_def)

lemma same_tiers_trans: "same_tiers T U \<Longrightarrow> same_tiers U V \<Longrightarrow> same_tiers T V"
  unfolding same_tiers_def using same_shape_trans by metis

lemma same_shape_views:
  assumes "same_shape T U"
  shows "devs N U = devs N T" "same_shape (dview N T) (dview N U)" "same_shape (skel T) (skel U)"
proof -
  note f = same_shape_fields [OF assms]
  show d: "devs N U = devs N T" by (simp add: devs_def f)
  show "same_shape (dview N T) (dview N U)" unfolding same_shape_def dview_simps d f by simp
  show "same_shape (skel T) (skel U)" unfolding same_shape_def skel_simps f by simp
qed

lemma tiers_shape:
  assumes "tiers_ok N L T hl" and "same_tiers T U"
  shows "tiers_ok N L U hl"
proof -
  have sh: "same_shape T U" and h: "hostof U n = hostof T n" for n using assms(2) by (simp_all add: same_tiers_def)
  note f = same_shape_fields [OF sh] and v = same_shape_views [OF sh]
  have "struct_ok N (skel U)" "tree_inv (devs N T) L (dview N U)"
    using struct_ok_shape [OF tiers_okD(1) [OF assms(1)] v(3)] tree_inv_shape [OF tiers_okD(2) [OF assms(1)] v(2)] by auto
  then show ?thesis
    using assms(1) unfolding tiers_ok_def v(1) host_node_ok_def host_leaves_ok_def f h by simp
qed

lemma same_tiers_fields:
  assumes "same_tiers T U"
  shows "valof U n = valof T n" "par U n = par T n" "keyof U n = keyof T n" "kids_of U n = kids_of T n" "lockof U n = lockof T n"
    "hostof U n = hostof T n" "nd_host_ref (rc_store U n) = nd_host_ref (rc_store T n)"
    "rc_root U = rc_root T" "rc_page_size U = rc_page_size T" "same_shape T U" "same_globals T U"
  using assms same_shape_fields same_shape_globals by (auto simp: same_tiers_def)

lemma same_tiers_upd:
  assumes "\<And>nd. nd_children (f nd) = nd_children nd" "\<And>nd. nd_parent (f nd) = nd_parent nd"
    "\<And>nd. nd_key (f nd) = nd_key nd" "\<And>nd. nd_value (f nd) = nd_value nd" "\<And>nd. nd_lock_ref (f nd) = nd_lock_ref nd"
    "\<And>nd. nd_host_value (f nd) = nd_host_value nd" "\<And>nd. nd_host_ref (f nd) = nd_host_ref nd"
  shows "same_tiers T (upd_node n f T)"
  using same_shape_upd [of f T n] assms by (simp add: same_tiers_def upd_node_def)

lemma same_tiers_touch [simp]: "same_tiers T (touch_node n T)"
proof -
  have "same_tiers T (snd (read_clock T))" by (simp add: same_tiers_def same_shape_def read_clock_def)
  then show ?thesis
    unfolding touch_node_def Let_def split_beta by (rule same_tiers_trans) (rule same_tiers_upd, simp_all)
qed

lemma same_tiers_priority [simp]: "same_tiers T (raise_priority p n T)"
  unfolding raise_priority_def by (rule same_tiers_upd) simp_all

section \<open>Splitting a node\<close>

definition host_split :: "radix \<Rightarrow> nat \<Rightarrow> nat \<Rightarrow> nat \<Rightarrow> radix \<Rightarrow> bool" where
  "host_split T c j m U \<longleftrightarrow>
     (\<forall>n. hostof U n = (if n = m then map_option (take j) (hostof T c)
        else if n = c then map_option (drop j) (hostof T c) else hostof T n)) \<and>
     (\<forall>n. nd_host_ref (rc_store U n) = (if n = m then 0 else nd_host_ref (rc_store T n)))"

lemma hi_split_node_effect:
  assumes st: "struct_ok N (skel T)" and c: "c \<in> N" "c \<noteq> rc_root T" and p: "par T c = Some p"
    and j: "0 < j" "j < rk_len (keyof T c)" "rc_page_size T dvd j"
  shows "\<exists>U. hi_split_node (keyof T c) c j T = (Inr (rc_counter T), U) \<and> split_effect T c j p (rc_counter T) U \<and>
    host_split T c j (rc_counter T) U"
proof -
  let ?ps = "rc_page_size T" and ?m = "rc_counter T"
  have c': "c \<noteq> rc_root (skel T)" using c(2) by simp
  have fresh: "c \<noteq> ?m" "p \<noteq> ?m" "p \<noteq> c"
    using struct_okD(6) [OF st c(1)] parent_live [OF st c(1) c', of p] p struct_okD(6) [OF st, of p] by auto
  have ps: "0 < ?ps" using struct_okD(3) [OF st] by simp
  have "?ps dvd rk_len (keyof T c) - j" using node_okD(2) [OF st c(1) c'] j(3) by simp
  then have "?ps \<le> rk_len (rk_drop (keyof T c) j)" using j by (simp add: dvd_imp_le)
  then have ck1: "child_key ?ps (rk_drop (keyof T c) j) = Inr (ckey ?ps (rk_drop (keyof T c) j))"
    using ps by (simp add: child_key_units ckey_def)
  have ck2: "child_key ?ps (keyof T c) = Inr (ckey ?ps (keyof T c))" using child_key_node [OF st c(1) c'] by simp
  obtain h1 h2 where h: "split_node_hash_value (nd_hash (rc_store T c)) j ?ps = (h1, h2)" by fastforce
  show ?thesis
    unfolding hi_split_node_def Let_def new_tree_node_eq prod.case ck1 ck2 sum.case option.case p h
    using fresh by (simp add: split_effect_def host_split_def upd_node_def same_globals_def)
qed

lemma filter_dict_set_swap:
  assumes "dict_ok d" and "dict_get d k = Some c" and "\<And>x. x \<in> set (dict_values d) \<Longrightarrow> x \<noteq> m" and "c \<in> A"
  shows "filter (\<lambda>p. snd p \<in> insert m A) (dict_set k m d) = dict_set k m (filter (\<lambda>p. snd p \<in> A) d)"
  using assms
proof (induction d)
  case (Cons x d)
  obtain a b where x: "x = (a, b)" by fastforce
  show ?case
  proof (cases "a = k")
    case True
    have "filter (\<lambda>p. snd p \<in> insert m A) d = filter (\<lambda>p. snd p \<in> A) d"
      using Cons.prems(3) by (intro filter_cong) auto
    then show ?thesis using True x Cons.prems(2,4) by simp
  next
    case False
    then show ?thesis using x Cons by auto
  qed
qed simp

lemma filter_dict_set_gone:
  assumes "dict_ok d" and "dict_get d k = Some c" and "c \<notin> A" and "m \<notin> A"
  shows "filter (\<lambda>p. snd p \<in> A) (dict_set k m d) = filter (\<lambda>p. snd p \<in> A) d"
  using assms by (induction d) auto

lemma split_views:
  assumes t: "tiers_ok N L T hl" and c: "c \<in> N" "c \<noteq> rc_root T" and p: "par T c = Some p"
    and j: "0 < j" "j < rk_len (keyof T c)" and m: "m = rc_counter T" and eff: "split_effect T c j p m U"
  shows "split_effect (skel T) c j p m (skel U)"
    and "valof T c \<noteq> None \<Longrightarrow> devs (insert m N) U = insert m (devs N T) \<and> split_effect (dview N T) c j p m (dview (insert m N) U)"
    and "valof T c = None \<Longrightarrow> devs (insert m N) U = devs N T \<and> live_eq (devs N T) (dview N T) (dview (insert m N) U)"
proof -
  have kids: "kids_of U n = (if n = m then [(ckey (rc_page_size T) (rk_drop (keyof T c) j), c)]
        else if n = p then dict_set (ckey (rc_page_size T) (keyof T c)) m (kids_of T p) else kids_of T n)"
    and par: "par U n = (if n = m then Some p else if n = c then Some m else par T n)"
    and key: "keyof U n = (if n = m then rk_take (keyof T c) j else if n = c then rk_drop (keyof T c) j else keyof T n)"
    and val: "valof U n = (if n = m then map_option (take j) (valof T c)
        else if n = c then map_option (drop j) (valof T c) else valof T n)"
    and lock: "lockof U n = (if n = m then lockof T c else lockof T n)" for n
    using eff unfolding split_effect_def by blast+
  have glob: "same_globals T U" "rc_counter U = Suc (rc_counter T)" "rc_alloc U = rc_alloc T"
     "rc_evictable_leaves U = rc_evictable_leaves T"
     "rc_evictable_size U = rc_evictable_size T" "rc_protected_size U = rc_protected_size T"
    using eff unfolding split_effect_def by blast+
  have mN: "m \<notin> N" using tiers_basics(5) [OF t, of m] m by blast
  note p' = tiers_parentD(1,2,4,5) [OF t c p]
  have no_m: "x \<noteq> m" if "x \<in> set (dict_values (kids_of T n))" "n \<in> N" for x n
    using tiers_kids(3) [OF t that(2)] that(1) mN by blast
  show "split_effect (skel T) c j p m (skel U)"
    using j unfolding split_effect_def skel_simps kids par key lock same_globals_views glob
    by (auto simp: glob min_def)
  show "devs (insert m N) U = insert m (devs N T) \<and> split_effect (dview N T) c j p m (dview (insert m N) U)"
    if v: "valof T c \<noteq> None"
  proof -
    have d: "devs (insert m N) U = insert m (devs N T)" using v c mN by (auto simp: devs_def val)
    have cD: "c \<in> devs N T" using v c(1) by (simp add: devs_def)
    then have pD: "p \<in> devs N T" by (rule p'(4))
    have mD: "m \<notin> devs N T" using mN devs_sub by blast
    have other: "filter (\<lambda>q. snd q \<in> insert m (devs N T)) (kids_of T n) = filter (\<lambda>q. snd q \<in> devs N T) (kids_of T n)" if "n \<in> N" for n
      using no_m [OF _ that] by (intro filter_cong) auto
    have swap: "filter (\<lambda>q. snd q \<in> insert m (devs N T)) (dict_set (ckey (rc_page_size T) (keyof T c)) m (kids_of T p)) =
        dict_set (ckey (rc_page_size T) (keyof T c)) m (filter (\<lambda>q. snd q \<in> devs N T) (kids_of T p))"
      using no_m [OF _ p'(1)] by (intro filter_dict_set_swap [OF tiers_kids(1) [OF t p'(1)] p'(3) _ cD]) auto
    have ds: "n \<in> devs N T \<Longrightarrow> n \<in> N" for n using devs_sub by blast
    have "kids_of (dview (insert m N) U) n =
        (if n = m then [(ckey (rc_page_size T) (rk_drop (keyof T c) j), c)]
        else if n = p then dict_set (ckey (rc_page_size T) (keyof T c)) m (kids_of (dview N T) p) else kids_of (dview N T) n)" for n
      unfolding dview_simps d kids using cD pD mD other swap ds by auto
    then show ?thesis
      using d unfolding split_effect_def dview_simps par key val lock same_globals_views glob by (simp add: glob)
  qed
  show "devs (insert m N) U = devs N T \<and> live_eq (devs N T) (dview N T) (dview (insert m N) U)"
    if v: "valof T c = None"
  proof -
    have d: "devs (insert m N) U = devs N T" using v c mN by (auto simp: devs_def val)
    have cD: "c \<notin> devs N T" and mD: "m \<notin> devs N T" using v mN by (simp_all add: devs_def)
    have "kids_of (dview (insert m N) U) n = kids_of (dview N T) n" if n: "n \<in> devs N T" for n
      using n mD filter_dict_set_gone [OF tiers_kids(1) [OF t p'(1)] p'(3) cD mD] unfolding dview_simps d kids by auto
    moreover have "n \<noteq> m \<and> n \<noteq> c" if "n \<in> devs N T" for n using that cD mD by blast
    ultimately show ?thesis
      using d glob unfolding live_eq_def by (simp add: par key val lock same_globals_def)
  qed
qed

lemma tiers_split:
  assumes t: "tiers_ok N L T hl" and c: "c \<in> N" "c \<noteq> rc_root T" and p: "par T c = Some p"
    and j: "0 < j" "j < rk_len (keyof T c)" "rc_page_size T dvd j" and m: "m = rc_counter T"
    and eff: "split_effect T c j p m U" and host: "host_split T c j m U"
  shows "tiers_ok (insert m N) L U hl"
proof -
  note v = split_views [OF t c p j(1,2) m eff]
  have mN: "m \<notin> N" using tiers_basics(5) [OF t, of m] m by blast
  have mr: "m \<noteq> rc_root T" "m \<noteq> c" using mN tiers_basics(1) [OF t] c(1) by auto
  have kids: "kids_of U n = (if n = m then [(ckey (rc_page_size T) (rk_drop (keyof T c) j), c)]
        else if n = p then dict_set (ckey (rc_page_size T) (keyof T c)) m (kids_of T p) else kids_of T n)"
    and key: "keyof U n = (if n = m then rk_take (keyof T c) j else if n = c then rk_drop (keyof T c) j else keyof T n)"
    and val: "valof U n = (if n = m then map_option (take j) (valof T c)
        else if n = c then map_option (drop j) (valof T c) else valof T n)"
    and lock: "lockof U n = (if n = m then lockof T c else lockof T n)" for n
    using eff unfolding split_effect_def by blast+
  have h: "hostof U n = (if n = m then map_option (take j) (hostof T c)
     else if n = c then map_option (drop j) (hostof T c) else hostof T n)" for n
    using host unfolding host_split_def by blast
  have glob: "rc_root U = rc_root T" "rc_disable U = rc_disable T" "rc_events U = rc_events T"
    "rc_evictable_leaves U = rc_evictable_leaves T" "rc_evictable_size U = rc_evictable_size T"
    "rc_protected_size U = rc_protected_size T"
    using eff by (simp_all add: split_effect_def same_globals_def)
  have "struct_ok (insert m N) (skel U)"
    by (rule split_struct [OF tiers_okD(1) [OF t] c(1) _ _ _ _ _ _ v(1)]) (use c p j m in simp_all)
  moreover have "tree_inv (devs (insert m N) U) L (dview (insert m N) U)"
  proof (cases "valof T c = None")
    case True
    then show ?thesis using v(3) tree_inv_live [OF tiers_okD(2) [OF t]] glob by simp
  next
    case False
    then have cD: "c \<in> devs N T" using c(1) by (auto simp: devs_def)
    show ?thesis using v(2) [OF False] split_inv [OF tiers_okD(2) [OF t] cD] c(2) p j m by auto
  qed
  moreover have "lockof U n = 0" if "n \<in> insert m N" "valof U n = None" for n
    using tiers_okD(3) [OF t] that c(1) by (auto simp: val lock split: if_splits)
  moreover have "host_node_ok U n" if "n \<in> insert m N - {rc_root U}" for n
    using tiers_okD(4) [OF t c] tiers_okD(4) [OF t, of n] that j(2) mr glob
    by (cases "n = m"; cases "n = c") (auto simp: host_node_ok_def val h key)
  moreover have "host_leaves_ok (insert m N) U hl"
  proof -
    have k: "kids_of U n = [] \<longleftrightarrow> n \<noteq> m \<and> kids_of T n = []" for n
      using tiers_parentD(6) [OF t c p] by (auto simp: kids)
    have vn: "valof U n = None \<longleftrightarrow> valof T n = None" if "n \<noteq> m" for n using that by (simp add: val)
    have "{n \<in> insert m N - {rc_root U}. valof U n = None \<and> kids_of U n = []} = {n \<in> N - {rc_root T}. valof T n = None \<and> kids_of T n = []}"
      using mN unfolding k glob by (intro Collect_cong) (metis Diff_iff insertE insertCI vn)
    then show ?thesis using tiers_okD(7) [OF t] by (simp add: host_leaves_ok_def)
  qed
  ultimately show ?thesis
    using tiers_okD(5,6,8,9) [OF t] c mr unfolding tiers_ok_def by (auto simp: glob key h)
qed

section \<open>Walks that only split nodes\<close>

inductive splits :: "nat set \<Rightarrow> radix \<Rightarrow> nat set \<Rightarrow> radix \<Rightarrow> bool" for N :: "nat set" and T :: radix where
  same: "splits N T N T"
| touch: "splits N T M U \<Longrightarrow> same_tiers U V \<Longrightarrow> splits N T M V"
| cut: "splits N T M U \<Longrightarrow> c \<in> M \<Longrightarrow> c \<noteq> rc_root U \<Longrightarrow> par U c = Some p \<Longrightarrow> 0 < j \<Longrightarrow> j < rk_len (keyof U c) \<Longrightarrow>
    rc_page_size U dvd j \<Longrightarrow> m = rc_counter U \<Longrightarrow> split_effect U c j p m V \<Longrightarrow> host_split U c j m V \<Longrightarrow>
    splits N T (insert m M) V"

lemma splits_trans:
  assumes "splits M U O' V" and "splits N T M U"
  shows "splits N T O' V"
  using assms(1)
proof (induction rule: splits.induct)
  case same
  show ?case by (rule assms(2))
next
  case (touch M' U' V')
  show ?case by (rule splits.touch [OF touch.IH touch.hyps(2)])
next
  case (cut M' U' c p j m V')
  show ?case by (rule splits.cut [OF cut.IH cut.hyps(2-)])
qed

definition host_slots :: "nat set \<Rightarrow> radix \<Rightarrow> kv_index multiset" where
  "host_slots N T = (\<Sum>n \<in> N - {rc_root T}. mset (case hostof T n of None \<Rightarrow> [] | Some h \<Rightarrow> h))"

text \<open>What such a walk keeps: contents and slots of both tiers, locks, and for each old node on which tiers it is.\<close>

definition trefines :: "nat set \<Rightarrow> radix \<Rightarrow> nat set \<Rightarrow> radix \<Rightarrow> bool" where
  "trefines N T M U \<longleftrightarrow> N \<subseteq> M \<and> refines N (skel T) M (skel U) \<and> refines (devs N T) (dview N T) (devs M U) (dview M U) \<and>
     host_slots M U = host_slots N T \<and>
     (\<forall>n \<in> N. (valof U n = None) = (valof T n = None) \<and> (hostof U n = None) = (hostof T n = None) \<and>
        nd_host_ref (rc_store U n) = nd_host_ref (rc_store T n)) \<and> rc_counter T \<le> rc_counter U \<and> M \<subseteq> N \<union> {rc_counter T..<rc_counter U}"

lemma trefines_refl [simp]: "trefines N T N T"
  by (simp add: trefines_def refines_shape)

lemma trefines_trans:
  assumes "trefines N T M U" and "trefines M U O' V"
  shows "trefines N T O' V"
proof -
  note a = assms(1) [unfolded trefines_def] and b = assms(2) [unfolded trefines_def]
  have "N \<subseteq> M" using a by blast
  then have "(valof V n = None) = (valof T n = None) \<and> (hostof V n = None) = (hostof T n = None) \<and>
        nd_host_ref (rc_store V n) = nd_host_ref (rc_store T n)" if "n \<in> N" for n
    using a b that by (metis subsetD)
  moreover have "refines N (skel T) O' (skel V)" "refines (devs N T) (dview N T) (devs O' V) (dview O' V)"
    using refines_trans a b by blast+
  moreover have "rc_counter T \<le> rc_counter V" using a b by linarith
  moreover have "O' \<subseteq> N \<union> {rc_counter T..<rc_counter V}"
  proof
    fix x assume "x \<in> O'"
    then have "x \<in> M \<or> x \<in> {rc_counter U..<rc_counter V}" using b by blast
    then show "x \<in> N \<union> {rc_counter T..<rc_counter V}" using a b by fastforce
  qed
  moreover have "N \<subseteq> O'" using a b by blast
  moreover have "host_slots O' V = host_slots N T" using a b by simp
  ultimately show ?thesis unfolding trefines_def by blast
qed

lemma trefines_shape:
  assumes "same_tiers T U"
  shows "trefines N T N U"
proof -
  have sh: "same_shape T U" and h: "hostof U n = hostof T n" "nd_host_ref (rc_store U n) = nd_host_ref (rc_store T n)" for n
    using assms by (simp_all add: same_tiers_def)
  note v = same_shape_views [OF sh] and f = same_shape_fields [OF sh]
  show ?thesis
    unfolding trefines_def host_slots_def v(1) f h using refines_shape [OF v(2)] refines_shape [OF v(3)] by simp
qed

lemma trefines_split:
  assumes t: "tiers_ok N L T hl" and c: "c \<in> N" "c \<noteq> rc_root T" and p: "par T c = Some p"
    and j: "0 < j" "j < rk_len (keyof T c)" "rc_page_size T dvd j" and m: "m = rc_counter T"
    and eff: "split_effect T c j p m U" and host: "host_split T c j m U"
  shows "trefines N T (insert m N) U"
proof -
  note v = split_views [OF t c p j(1,2) m eff]
  have mN: "m \<notin> N" using tiers_basics(5) [OF t, of m] m by blast
  have mr: "m \<noteq> rc_root T" "m \<noteq> c" using mN tiers_basics(1) [OF t] c(1) by auto
  have val: "valof U n = (if n = m then map_option (take j) (valof T c)
        else if n = c then map_option (drop j) (valof T c) else valof T n)" for n
    using eff unfolding split_effect_def by blast
  have h: "hostof U n = (if n = m then map_option (take j) (hostof T c)
     else if n = c then map_option (drop j) (hostof T c) else hostof T n)"
    "nd_host_ref (rc_store U n) = (if n = m then 0 else nd_host_ref (rc_store T n))" for n
    using host unfolding host_split_def by blast+
  have root: "rc_root U = rc_root T" "rc_counter U = Suc m" using eff m by (simp_all add: split_effect_def same_globals_def)
  have sk: "refines N (skel T) (insert m N) (skel U)"
    by (rule refines_split [OF tiers_okD(1) [OF t] c(1) _ _ _ _ _ _ v(1)]) (use c p j m in simp_all)
  have dv: "refines (devs N T) (dview N T) (devs (insert m N) U) (dview (insert m N) U)"
  proof (cases "valof T c = None")
    case True
    note e = v(3) [OF True, THEN conjunct1] v(3) [OF True, THEN conjunct2]
    note st = tiers_okD(10) [OF t]
    show ?thesis
      unfolding refines_def e(1)
      using eff cached_live_eq [OF st e(2)] rpath_live_eq [OF st e(2)] slots_live_eq [OF e(2)] live_eqD(5) [OF e(2)]
      by (simp add: split_effect_def)
  next
    case False
    note e = v(2) [OF False, THEN conjunct1] v(2) [OF False, THEN conjunct2]
    have cD: "c \<in> devs N T" using False c(1) by (simp add: devs_def)
    show ?thesis unfolding e(1)
      by (rule refines_split [OF tiers_okD(10) [OF t] cD _ _ _ _ _ _ e(2)]) (use c p j m in simp_all)
  qed
  have hs: "host_slots (insert m N) U = host_slots N T"
  proof -
    define A where "A = N - {rc_root T} - {c}"
    have fin: "finite A" "c \<notin> A" "m \<notin> A" "m \<notin> insert c A" using tiers_basics(2) [OF t] mN mr by (auto simp: A_def)
    have N: "N - {rc_root T} = insert c A" "insert m N - {rc_root T} = insert m (insert c A)"
      using c mr by (auto simp: A_def)
    let ?h = "\<lambda>V n. mset (case hostof V n of None \<Rightarrow> [] | Some h \<Rightarrow> h)"
    have "(\<Sum>n \<in> A. ?h U n) = (\<Sum>n \<in> A. ?h T n)" using fin by (intro sum.cong) (auto simp: h)
    moreover have "?h U m + ?h U c = ?h T c"
      using mr by (cases "hostof T c") (simp_all add: h flip: mset_append)
    ultimately show ?thesis using fin unfolding host_slots_def root N by (simp add: add.assoc [symmetric])
  qed
  show ?thesis
    unfolding trefines_def using sk dv hs mN root m by (auto simp: val h)
qed

lemma splits_tiers:
  assumes "splits N T M U" and "tiers_ok N L T hl"
  shows "tiers_ok M L U hl \<and> trefines N T M U"
  using assms
proof (induction rule: splits.induct)
  case (touch M U V)
  then show ?case using tiers_shape [of M L U hl V] trefines_trans [OF _ trefines_shape] by blast
next
  case (cut M U c p j m V)
  then have u: "tiers_ok M L U hl" "trefines N T M U" by auto
  show ?case
    using tiers_split [OF u(1) cut.hyps(2-)] trefines_trans [OF u(2) trefines_split [OF u(1) cut.hyps(2-)]] by blast
qed simp

end
