(* ===== verification/Hi_Match.thy ===== *)
theory Hi_Match
  imports Hi_Tiers
begin

text \<open>
  Matching a prefix over both tiers: the walk ends at the longest sequence that either tier knows,
  and its upper part, down to the last node with device slots, is the longest sequence on the device.
\<close>

section \<open>The device part of a path\<close>

lemma dict_get_filter_values:
  "dict_ok d \<Longrightarrow> dict_get (filter (\<lambda>p. snd p \<in> A) d) k = (case dict_get d k of None \<Rightarrow> None | Some v \<Rightarrow> if v \<in> A then Some v else None)"
proof (induction d)
  case (Cons x d)
  obtain a b where x: "x = (a, b)" by fastforce
  have "dict_get d a = None" using Cons.prems x by (simp add: dict_get_def map_of_eq_None_iff)
  then show ?case using Cons x by auto
qed simp

lemma dview_get:
  assumes "tiers_ok N L T hl" and "n \<in> devs N T"
  shows "dict_get (kids_of (dview N T) n) ck = Some c \<longleftrightarrow> dict_get (kids_of T n) ck = Some c \<and> c \<in> devs N T"
  using assms(2) dict_get_filter_values [OF tiers_kids(1) [OF assms(1)], of n "devs N T" ck] devs_sub(2) [OF assms(2)]
  by (auto split: option.splits)

text \<open>
  Climbing from a node to its first ancestor on the device: the nodes passed, from the ancestor down.
  The loops that follow parents compute it.
\<close>

inductive climb :: "radix \<Rightarrow> nat \<Rightarrow> nat list \<Rightarrow> nat \<Rightarrow> bool" for T :: radix where
  device: "valof T n \<noteq> None \<Longrightarrow> climb T n [] n"
| up: "valof T n = None \<Longrightarrow> hostof T n = Some h \<Longrightarrow> par T n = Some p \<Longrightarrow> climb T p ns d \<Longrightarrow> climb T n (ns @ [n]) d"

definition host_len :: "radix \<Rightarrow> nat list \<Rightarrow> nat" where
  "host_len T ns = (\<Sum>n \<leftarrow> ns. length (the (hostof T n)))"

lemma host_len_simps [simp]:
  "host_len T [] = 0" "host_len T (ns @ ms) = host_len T ns + host_len T ms" "host_len T (n # ns) = length (the (hostof T n)) + host_len T ns"
  by (simp_all add: host_len_def)

lemma climb_device_walk: "climb T n ns d \<Longrightarrow> device_walk n hit T = Some (Inr (d, hit + host_len T ns))"
proof (induction arbitrary: hit rule: climb.induct)
  case (device n)
  then show ?case by (subst device_walk.simps) (auto simp: evicted_def)
next
  case (up n h p ns d)
  then show ?case by (subst device_walk.simps) (simp add: evicted_def add.assoc add.commute)
qed

lemma climb_gather: "climb T n ns d \<Longrightarrow> gather_evicted n ms T = Some (Inr (d, ns @ ms))"
proof (induction arbitrary: ms rule: climb.induct)
  case (device n)
  then show ?case by (subst gather_evicted.simps) (auto simp: evicted_def)
next
  case (up n h p ns d)
  then show ?case by (subst gather_evicted.simps) (simp add: evicted_def backuped_def)
qed

lemma climb_first_device: "climb T n ns d \<Longrightarrow> first_device n T = Some (Inr d)"
proof (induction rule: climb.induct)
  case (device n)
  then show ?case by (subst first_device.simps) (auto simp: evicted_def)
next
  case (up n h p ns d)
  then show ?case by (subst first_device.simps) (simp add: evicted_def)
qed

lemma climb_shape:
  assumes "climb T n ns d" and "same_tiers T U"
  shows "climb U n ns d"
  using assms(1)
proof (induction rule: climb.induct)
  case (device n)
  then show ?case using same_tiers_fields(1) [OF assms(2), of n] by (intro climb.device) metis
next
  case (up n h p ns d)
  then show ?case using same_tiers_fields(1,2,6) [OF assms(2), of n] by (intro climb.up) simp_all
qed

definition dpart :: "nat set \<Rightarrow> radix \<Rightarrow> string option \<Rightarrow> nat \<Rightarrow> key_unit list \<Rightarrow> kv_index list \<Rightarrow> bool" where
  "dpart N T ek n W V \<longleftrightarrow> n \<in> N \<and> (\<exists>d W1 W2. W = W1 @ W2 \<and> d \<in> devs N T \<and> rpath (dview N T) ek (rc_root T) d W1 V \<and>
     (\<exists>ns. climb T n ns d \<and> host_len T ns = length W2) \<and>
     (if n \<in> devs N T then n = d \<and> W2 = []
      else rc_page_size T \<le> length W2 \<and> (\<exists>e. e \<notin> devs N T \<and> dict_get (kids_of T d) (ek, take (rc_page_size T) W2) = Some e)))"

lemma dpartI:
  assumes "n \<in> N" "W = W1 @ W2" "d \<in> devs N T" "rpath (dview N T) ek (rc_root T) d W1 V"
    "climb T n ns d" "host_len T ns = length W2" "n \<in> devs N T \<Longrightarrow> n = d \<and> W2 = []"
    "n \<notin> devs N T \<Longrightarrow> rc_page_size T \<le> length W2 \<and> (\<exists>e. e \<notin> devs N T \<and> dict_get (kids_of T d) (ek, take (rc_page_size T) W2) = Some e)"
  shows "dpart N T ek n W V"
  unfolding dpart_def using assms by (intro conjI exI) auto

lemma dpartE:
  assumes "dpart N T ek n W V"
  obtains d W1 W2 ns where "n \<in> N" "W = W1 @ W2" "d \<in> devs N T" "rpath (dview N T) ek (rc_root T) d W1 V"
    "climb T n ns d" "host_len T ns = length W2" "n \<in> devs N T \<longrightarrow> n = d \<and> W2 = []"
    "n \<notin> devs N T \<longrightarrow> rc_page_size T \<le> length W2 \<and> (\<exists>e. e \<notin> devs N T \<and> dict_get (kids_of T d) (ek, take (rc_page_size T) W2) = Some e)"
  using assms unfolding dpart_def by (elim conjE exE) (rule that, auto)

lemma dpart_root:
  assumes "tiers_ok N L T hl"
  shows "dpart N T ek (rc_root T) [] []"
  using tiers_basics(1,4,6) [OF assms] rpath.nil [of "dview N T" ek "rc_root T"] climb.device [of T "rc_root T"]
  by (intro dpartI [where d = "rc_root T" and ns = "[]" and ?W1.0 = "[]" and ?W2.0 = "[]"]) auto

lemma dpart_step:
  assumes t: "tiers_ok N L T hl" and d: "dpart N T ek n W V" and c: "dict_get (kids_of T n) ck = Some c"
    and ek: "extra_key (keyof T c) = ek"
  shows "dpart N T ek c (W @ rk_units (keyof T c)) (V @ concat (device_value T c))"
proof -
  let ?ps = "rc_page_size T"
  have n: "n \<in> N" using d by (simp add: dpart_def)
  from d obtain a W1 W2 ns where a: "W = W1 @ W2" "a \<in> devs N T" "rpath (dview N T) ek (rc_root T) a W1 V"
     "climb T n ns a" "host_len T ns = length W2" "n \<in> devs N T \<longrightarrow> n = a \<and> W2 = []"
     "n \<notin> devs N T \<longrightarrow> ?ps \<le> length W2 \<and> (\<exists>e. e \<notin> devs N T \<and> dict_get (kids_of T a) (ek, take ?ps W2) = Some e)"
    by (rule dpartE)
  have c': "c \<in> N" "c \<noteq> rc_root T" "par T c = Some n" "ck = ckey ?ps (keyof T c)" using tiers_kids(2) [OF t n] c by auto
  have cs: "c \<noteq> rc_root (skel T)" using c'(2) by simp
  show ?thesis
  proof (cases "c \<in> devs N T")
    case True
    then have nD: "n \<in> devs N T" using tiers_parentD(5) [OF t c'(1-3)] by blast
    then have na: "n = a" "W2 = []" using a(6) by auto
    obtain v where v: "valof T c = Some v" using True by (auto simp: devs_def)
    have "rpath (dview N T) ek (rc_root T) c (W1 @ rk_units (keyof T c)) (V @ v)"
      using rpath_snoc [OF a(3), of ck c v] dview_get [OF t a(2)] c na True ek v by simp
    then show ?thesis
      using True c'(1) na a(1) v climb.device [of T c]
      by (intro dpartI [where d = c and ns = "[]" and ?W1.0 = "W1 @ rk_units (keyof T c)" and ?W2.0 = "[]"])
        (auto simp: device_value_def)
  next
    case False
    then have ev: "valof T c = None" using c'(1) by (simp add: devs_def)
    obtain h where h: "hostof T c = Some h" "length h = rk_len (keyof T c)"
      using tiers_okD(4) [OF t c'(1,2)] ev by (auto simp: host_node_ok_def)
    have walk: "climb T c (ns @ [c]) a \<and> host_len T (ns @ [c]) = length (W2 @ rk_units (keyof T c))"
      using climb.up [OF ev h(1) c'(3)] a(4,5) h by simp
    have ps: "?ps \<le> rk_len (keyof T c)" using node_okD(4) [OF tiers_okD(1) [OF t] c'(1) cs] by simp
    have "?ps \<le> length (W2 @ rk_units (keyof T c)) \<and>
        (\<exists>e. e \<notin> devs N T \<and> dict_get (kids_of T a) (ek, take ?ps (W2 @ rk_units (keyof T c))) = Some e)"
    proof (cases "n \<in> devs N T")
      case True
      then have "n = a" "W2 = []" using a(6) by auto
      then show ?thesis using False c c'(4) ek ps by (auto simp: ckey_def)
    next
      case False
      then show ?thesis using a(7) by auto
    qed
    then show ?thesis
      using False ev c'(1) a(1-3) walk
      by (intro dpartI [where d = a and ns = "ns @ [c]" and ?W1.0 = W1 and ?W2.0 = "W2 @ rk_units (keyof T c)"])
        (simp_all add: device_value_def)
  qed
qed

text \<open>The device part survives changes of the bookkeeping and splits.\<close>

lemma climb_split:
  assumes t: "tiers_ok N L T hl" and c: "c \<in> N" "c \<noteq> rc_root T" and p: "par T c = Some p"
    and m: "m = rc_counter T" and eff: "split_effect T c j p m U" and host: "host_split T c j m U"
    and w: "climb T n ns d" and n: "n \<in> N"
  shows "\<exists>ms. climb U n ms d \<and> host_len U ms = host_len T ns"
  using w n
proof (induction rule: climb.induct)
  have mN: "m \<notin> N" using tiers_basics(5) [OF t, of m] m by blast
  have par: "par U x = (if x = m then Some p else if x = c then Some m else par T x)"
    and val: "valof U x = (if x = m then map_option (take j) (valof T c)
        else if x = c then map_option (drop j) (valof T c) else valof T x)"
    and h: "hostof U x = (if x = m then map_option (take j) (hostof T c)
     else if x = c then map_option (drop j) (hostof T c) else hostof T x)" for x
    using eff host unfolding split_effect_def host_split_def by blast+
  {
    case (device n)
    then have "n \<noteq> m" using mN by blast
    then have "climb U n [] n" using device by (intro climb.device) (auto simp: val)
    then show ?case by fastforce
  next
    case (up n g q ns d)
    have nr: "n \<noteq> rc_root T" using up.hyps(1) tiers_basics(6) [OF t] by auto
    have nm: "n \<noteq> m" using up.prems mN by blast
    have "q \<in> N" using tiers_parentD(1) [OF t up.prems nr up.hyps(3)] .
    then obtain ms where ms: "climb U q ms d" "host_len U ms = host_len T ns" using up.IH by blast
    show ?case
    proof (cases "n = c")
      case True
      have "climb U m (ms @ [m]) d"
        using True up.hyps p ms(1) by (intro climb.up [where n = m and h = "take j g" and p = p]) (auto simp: val h par)
      then have "climb U c ((ms @ [m]) @ [c]) d"
        using True up.hyps nm by (intro climb.up [where n = c and h = "drop j g" and p = m]) (auto simp: val h par)
      moreover have "host_len U ((ms @ [m]) @ [c]) = host_len T (ns @ [n])" using True up.hyps(2) ms(2) nm by (simp add: h)
      ultimately show ?thesis using True by blast
    next
      case False
      then have "climb U n (ms @ [n]) d"
        using up.hyps nm ms(1) by (intro climb.up [where h = g and p = q]) (auto simp: val h par)
      moreover have "host_len U (ms @ [n]) = host_len T (ns @ [n])" using False nm ms(2) by (simp add: h)
      ultimately show ?thesis by blast
    qed
  }
qed

lemma dpart_splits:
  assumes "splits N T M U" and "tiers_ok N L T hl" and "dpart N T ek n W V"
  shows "dpart M U ek n W V"
  using assms
proof (induction rule: splits.induct)
  case (touch M U X)
  have u: "dpart M U ek n W V" "tiers_ok M L U hl" using touch splits_tiers [OF touch.hyps(1)] by blast+
  have sh: "same_shape U X" using touch.hyps(2) by (simp add: same_tiers_def)
  note f = same_shape_fields [OF sh] and v = same_shape_views [OF sh]
  have "host_len X ns = host_len U ns" for ns using touch.hyps(2) by (simp add: host_len_def same_tiers_def)
  then show ?case using u(1) climb_shape [OF _ touch.hyps(2)] unfolding dpart_def v(1) f rpath_shape [OF v(2)]
    by metis
next
  case (cut M U c p j m X)
  have u: "dpart M U ek n W V" "tiers_ok M L U hl" using cut splits_tiers [OF cut.hyps(1)] by blast+
  have r: "refines (devs M U) (dview M U) (devs (insert m M) X) (dview (insert m M) X)" "N \<subseteq> M"
    using trefines_split [OF u(2) cut.hyps(2-)] splits_tiers [OF cut.hyps(1) cut.prems(1)] by (auto simp: trefines_def)
  have mM: "m \<notin> M" using tiers_basics(5) [OF u(2), of m] cut.hyps(8) by blast
  have val: "valof X x = (if x = m then map_option (take j) (valof U c)
        else if x = c then map_option (drop j) (valof U c) else valof U x)"
    and kids: "kids_of X x = (if x = m then [(ckey (rc_page_size U) (rk_drop (keyof U c) j), c)]
        else if x = p then dict_set (ckey (rc_page_size U) (keyof U c)) m (kids_of U p) else kids_of U x)" for x
    using cut.hyps(9) unfolding split_effect_def by blast+
  have g: "rc_root X = rc_root U" "rc_page_size X = rc_page_size U"
    using cut.hyps(9) by (simp_all add: split_effect_def same_globals_def)
  have dev: "x \<in> devs (insert m M) X \<longleftrightarrow> x \<in> devs M U" if "x \<in> M" for x
    using that mM by (auto simp: devs_def val)
  from u(1) obtain d W1 W2 ns where d: "n \<in> M" "W = W1 @ W2" "d \<in> devs M U" "rpath (dview M U) ek (rc_root U) d W1 V"
     "climb U n ns d" "host_len U ns = length W2" "n \<in> devs M U \<longrightarrow> n = d \<and> W2 = []"
     "n \<notin> devs M U \<longrightarrow> rc_page_size U \<le> length W2 \<and> (\<exists>e. e \<notin> devs M U \<and> dict_get (kids_of U d) (ek, take (rc_page_size U) W2) = Some e)"
    by (rule dpartE)
  have dM: "d \<in> M" using d(3) by (rule devs_sub(2))
  have path: "rpath (dview (insert m M) X) ek (rc_root X) d W1 V"
    using refinesD(8) [OF r(1) tiers_basics(4) [OF u(2)] d(3)] d(4) g by simp
  have kid: "\<exists>e. e \<notin> devs (insert m M) X \<and> dict_get (kids_of X d) ck = Some e"
    if e: "e \<notin> devs M U" "dict_get (kids_of U d) ck = Some e" for e ck
  proof -
    have eM: "e \<in> M" "ck = ckey (rc_page_size U) (keyof U e)" using tiers_kids(2) [OF u(2) dM] e(2) by auto
    show ?thesis
    proof (cases "d = p \<and> ck = ckey (rc_page_size U) (keyof U c)")
      case True
      then have "e = c" using e(2) tiers_parentD(4) [OF u(2) cut.hyps(2-4)] by simp
      then have "valof U c = None" using e(1) eM by (simp add: devs_def)
      moreover have "d \<noteq> m" using dM mM by blast
      ultimately show ?thesis using True by (intro exI [of _ m]) (auto simp: kids devs_def val)
    next
      case False
      have "d \<noteq> m" using dM mM by blast
      then show ?thesis using False e eM dev by (intro exI [of _ e]) (auto simp: kids)
    qed
  qed
  obtain ms where ms: "climb X n ms d" "host_len X ms = length W2"
    using climb_split [OF u(2) cut.hyps(2-4,8-10) d(5,1)] d(6) by auto
  show ?case
  proof (rule dpartI [OF _ d(2) _ path ms])
    show "rc_page_size X \<le> length W2 \<and> (\<exists>e. e \<notin> devs (insert m M) X \<and> dict_get (kids_of X d) (ek, take (rc_page_size X) W2) = Some e)"
      if "n \<notin> devs (insert m M) X"
      using d(8) kid that unfolding dev [OF d(1)] g(2) by blast
  qed (use d(1,3,7) dev [OF dM] dev [OF d(1)] in auto)
qed

section \<open>One step down\<close>

lemma key_ok_skel [simp]: "key_ok (skel T) k = key_ok T k"
  by (simp add: key_ok_def)

lemma skel_path_live:
  assumes "tiers_ok N L T hl" and "rpath (skel T) ek (rc_root T) n U Z"
  shows "n \<in> N"
  using rpath_live(1) [OF assms(2) tiers_okD(1) [OF assms(1)] tiers_basics(1) [OF assms(1)]] .

lemma skel_path_splits:
  assumes "splits N T M U" and "tiers_ok N L T hl" and "rpath (skel T) ek (rc_root T) n W Z"
  shows "rpath (skel U) ek (rc_root U) n W Z"
proof -
  have r: "refines N (skel T) M (skel U)" using splits_tiers [OF assms(1,2)] by (simp add: trefines_def)
  have "rc_root U = rc_root T" using refinesD(2) [OF r] by (simp add: same_globals_def)
  then show ?thesis using refinesD(8) [OF r tiers_basics(1) [OF assms(2)] skel_path_live [OF assms(2,3)]] assms(3) by simp
qed

lemma splits_globals:
  assumes "splits N T M U" and "tiers_ok N L T hl"
  shows "same_globals T U" "rc_root U = rc_root T" "rc_page_size U = rc_page_size T"
  using splits_tiers [OF assms] refinesD(2) [of N "skel T" M "skel U"] by (auto simp: trefines_def same_globals_def)

text \<open>The child that the walk meets, with the matched length; when it is longer it is split there.\<close>

lemma hi_descend:
  assumes t: "tiers_ok N L T hl" and n: "n \<in> N" and k: "key_ok T k" "0 < rk_len k"
    and c: "dict_get (kids_of T n) (ckey (rc_page_size T) k) = Some c"
  shows "\<exists>j. c \<in> N \<and> c \<noteq> rc_root T \<and> par T c = Some n \<and> extra_key (keyof T c) = extra_key k \<and>
    rk_match (rc_page_size T) (keyof T c) k = Inr j \<and> 0 < j \<and> rc_page_size T dvd j \<and> j \<le> rk_len (keyof T c) \<and> j \<le> rk_len k \<and>
    take j (rk_units (keyof T c)) = take j (rk_units k) \<and>
    (j < rk_len (keyof T c) \<and> j < rk_len k \<longrightarrow>
       ckey (rc_page_size T) (rk_drop (keyof T c) j) \<noteq> ckey (rc_page_size T) (rk_drop k j))"
proof -
  define j where "j = common_len (rk_units (keyof T c)) (rk_units k) div rc_page_size T * rc_page_size T"
  have k': "key_ok (skel T) k" and c': "dict_get (kids_of (skel T) n) (ckey (rc_page_size (skel T)) k) = Some c" using k c by simp_all
  note d = descend_match [OF tiers_okD(1) [OF t] n k' k(2) c', unfolded skel_simps, folded j_def]
  have "0 < j" using d(6) tiers_basics(3) [OF t] by simp
  then show ?thesis using d by blast
qed

lemma hi_descend_split:
  assumes t: "tiers_ok N L T hl" and c: "c \<in> N" "c \<noteq> rc_root T" "par T c = Some n" "extra_key (keyof T c) = extra_key k"
    and j: "0 < j" "rc_page_size T dvd j" "j < rk_len (keyof T c)" "j \<le> rk_len k" "take j (rk_units (keyof T c)) = take j (rk_units k)"
    and new: "j < rk_len k \<Longrightarrow> ckey (rc_page_size T) (rk_drop (keyof T c) j) \<noteq> ckey (rc_page_size T) (rk_drop k j)"
    and ck: "ckey (rc_page_size T) (keyof T c) = ckey (rc_page_size T) k"
  obtains U where "hi_split_node (keyof T c) c j T = (Inr (rc_counter T), U)" "splits N T (insert (rc_counter T) N) U"
    "dict_get (kids_of U n) (ckey (rc_page_size U) k) = Some (rc_counter T)" "extra_key (keyof U (rc_counter T)) = extra_key k"
    "rk_units (keyof U (rc_counter T)) = take j (rk_units k)"
    "j < rk_len k \<Longrightarrow> dict_get (kids_of U (rc_counter T)) (ckey (rc_page_size U) (rk_drop k j)) = None"
    "valof U (rc_counter T) = map_option (take j) (valof T c)" "hostof U (rc_counter T) = map_option (take j) (hostof T c)"
    "par U (rc_counter T) = Some n"
proof -
  let ?m = "rc_counter T"
  obtain U where U: "hi_split_node (keyof T c) c j T = (Inr ?m, U)" "split_effect T c j n ?m U" "host_split T c j ?m U"
    using hi_split_node_effect [OF tiers_okD(1) [OF t] c(1-3) j(1,3,2)] by blast
  have sp: "splits N T (insert ?m N) U" by (rule splits.cut [OF splits.same c(1-3) j(1,3,2) refl U(2,3)])
  have mN: "?m \<notin> N" using tiers_basics(5) [OF t] by blast
  have nm: "n \<noteq> ?m" using tiers_parentD(1) [OF t c(1-3)] mN by blast
  have g: "rc_page_size U = rc_page_size T" using U(2) by (simp add: split_effect_def same_globals_def)
  have "dict_get (kids_of U n) (ckey (rc_page_size U) k) = Some ?m" "extra_key (keyof U ?m) = extra_key k"
    "rk_units (keyof U ?m) = take j (rk_units k)" "valof U ?m = map_option (take j) (valof T c)"
    "kids_of U ?m = [(ckey (rc_page_size T) (rk_drop (keyof T c) j), c)]" "hostof U ?m = map_option (take j) (hostof T c)"
    "par U ?m = Some n"
    using U(2,3) nm ck c(4) j(5) by (auto simp: split_effect_def host_split_def g)
  then show thesis using that [OF U(1) sp] new g by simp
qed

section \<open>Matching\<close>

lemma hi_match_loop_walk:
  assumes "tiers_ok N L T hl" and "rpath (skel T) (extra_key k) (rc_root T) n U Z" and "key_ok T k"
    and "0 < rk_len k \<Longrightarrow> ck = ckey (rc_page_size T) k" and "dpart N T (extra_key k) n U (concat acc)"
  shows "\<exists>vs m T' N' j Y. hi_match_loop n k ck acc T = Some (Inr (vs, m), T') \<and> splits N T N' T' \<and>
    walk_end (skel T') k U j m Y \<and> dpart N' T' (extra_key k) m (U @ take j (rk_units k)) (concat vs)"
  using assms
proof (induction "rk_len k" arbitrary: k T n U Z ck acc N rule: less_induct)
  case less
  note t = less.prems(1)
  let ?ps = "rc_page_size T"
  show ?case
  proof (cases "0 < rk_len k \<and> dict_has (kids_of T n) ck")
    case False
    then have "hi_match_loop n k ck acc T = Some (Inr (acc, n), T)" by (subst hi_match_loop.simps) (simp only: False if_False)
    moreover have "walk_end (skel T) k U 0 n Z" using walk_end_stop [of "skel T" k n U Z ck] less.prems(2,4) False by simp
    ultimately show ?thesis
      using splits.same [of N T] less.prems(5) by (intro exI [of _ acc] exI [of _ n] exI [of _ T] exI [of _ N] exI [of _ 0] exI [of _ Z]) simp
  next
    case True
    then have ck: "ck = ckey ?ps k" and k0: "0 < rk_len k" using less.prems(4) by auto
    from True obtain c where c: "dict_get (kids_of T n) (ckey ?ps k) = Some c" unfolding ck dict_has_iff by blast
    define T1 where "T1 = touch_node c T"
    have sh: "same_tiers T T1" by (simp add: T1_def)
    note f = same_tiers_fields [OF sh]
    have sp1: "splits N T N T1" by (rule splits.touch [OF splits.same sh])
    have t1: "tiers_ok N L T1 hl" using splits_tiers [OF sp1 t] by blast
    have path1: "rpath (skel T1) (extra_key k) (rc_root T1) n U Z" by (rule skel_path_splits [OF sp1 t less.prems(2)])
    have d1: "dpart N T1 (extra_key k) n U (concat acc)" by (rule dpart_splits [OF sp1 t less.prems(5)])
    have k1: "key_ok T1 k" using less.prems(3) by (simp add: key_ok_globals [OF f(11)])
    have c1: "dict_get (kids_of T1 n) (ckey (rc_page_size T1) k) = Some c" using c by (simp add: f)
    have nN: "n \<in> N" by (rule skel_path_live [OF t less.prems(2)])
    obtain j where d: "c \<in> N" "c \<noteq> rc_root T1" "par T1 c = Some n" "extra_key (keyof T1 c) = extra_key k"
      "rk_match (rc_page_size T1) (keyof T1 c) k = Inr j" "0 < j" "rc_page_size T1 dvd j" "j \<le> rk_len (keyof T1 c)" "j \<le> rk_len k"
      "take j (rk_units (keyof T1 c)) = take j (rk_units k)"
      "j < rk_len (keyof T1 c) \<and> j < rk_len k \<longrightarrow>
       ckey (rc_page_size T1) (rk_drop (keyof T1 c) j) \<noteq> ckey (rc_page_size T1) (rk_drop k j)"
      using hi_descend [OF t1 nN k1 k0 c1] by blast
    have ckc: "ckey (rc_page_size T1) (keyof T1 c) = ckey (rc_page_size T1) k" using tiers_kids(2) [OF t1 nN] c1 by auto
    show ?thesis
    proof (cases "j < rk_len (keyof T1 c)")
      case split: True
      let ?m = "rc_counter T1"
      obtain T2 where s2: "hi_split_node (keyof T1 c) c j T1 = (Inr ?m, T2)" "splits N T1 (insert ?m N) T2"
        "dict_get (kids_of T2 n) (ckey (rc_page_size T2) k) = Some ?m" "extra_key (keyof T2 ?m) = extra_key k"
        "rk_units (keyof T2 ?m) = take j (rk_units k)"
        "j < rk_len k \<Longrightarrow> dict_get (kids_of T2 ?m) (ckey (rc_page_size T2) (rk_drop k j)) = None"
        using hi_descend_split [OF t1 d(1-4,6,7) split d(9,10) _ ckc] d(11) split by metis
      have t2: "tiers_ok (insert ?m N) L T2 hl" using splits_tiers [OF s2(2) t1] by blast
      have "hi_match_loop n k ck acc T = Some (Inr (acc @ device_value T2 ?m, ?m), T2)"
        using True c d(5) split s2(1) ck by (subst hi_match_loop.simps) (simp add: T1_def [symmetric] f)
      moreover have "splits N T (insert ?m N) T2" by (rule splits_trans [OF s2(2) sp1])
      moreover have "\<exists>Y. walk_end (skel T2) k U j ?m Y"
      proof -
        have p2: "rpath (skel T2) (extra_key k) (rc_root T2) n U Z" by (rule skel_path_splits [OF s2(2) t1 path1])
        have "rpath (skel T2) (extra_key k) (rc_root T2) ?m (U @ take j (rk_units k)) (Z @ replicate (rk_len (keyof T2 ?m)) 0)"
          using rpath_snoc [OF p2, of "ckey (rc_page_size T2) k" ?m] s2(3-5) by simp
        moreover have "rc_page_size T2 dvd j" using d(7) splits_globals(3) [OF s2(2) t1] by simp
        ultimately show ?thesis using d(9) s2(6) by (auto simp: walk_end_def)
      qed
      moreover have "dpart (insert ?m N) T2 (extra_key k) ?m (U @ take j (rk_units k)) (concat (acc @ device_value T2 ?m))"
        using dpart_step [OF t2 dpart_splits [OF s2(2) t1 d1] s2(3,4)] s2(5) by simp
      ultimately show ?thesis by blast
    next
      case full: False
      let ?k = "rk_drop k j"
      have uc: "rk_units (keyof T1 c) = take j (rk_units k)" using d(8,10) full by simp
      have p1: "rpath (skel T1) (extra_key k) (rc_root T1) c (U @ take j (rk_units k)) (Z @ replicate (rk_len (keyof T1 c)) 0)"
        using rpath_snoc [OF path1, of "ckey (rc_page_size T1) k" c] c1 d(4) uc by simp
      have dp: "dpart N T1 (extra_key k) c (U @ take j (rk_units k)) (concat (acc @ device_value T1 c))"
        using dpart_step [OF t1 d1 c1 d(4)] uc by simp
      have small: "rk_len ?k < rk_len k" using d(6) k0 by simp
      have k': "key_ok T1 ?k" using key_ok_drop [OF k1 d(7,9)] .
      define ck' where "ck' = (if rk_len ?k \<noteq> 0 then ckey (rc_page_size T1) ?k else ck)"
      have "hi_match_loop n k ck acc T = hi_match_loop c ?k ck' (acc @ device_value T1 c) T1"
        using True c d(5) full ck child_key_ckey [OF k' tiers_basics(3) [OF t1]] f
        by (subst hi_match_loop.simps) (simp add: T1_def [symmetric] ck'_def Let_def)
      moreover have "\<exists>vs m T' N' i Y. hi_match_loop c ?k ck' (acc @ device_value T1 c) T1 = Some (Inr (vs, m), T') \<and>
          splits N T1 N' T' \<and> walk_end (skel T') ?k (U @ take j (rk_units k)) i m Y \<and>
          dpart N' T' (extra_key ?k) m ((U @ take j (rk_units k)) @ take i (rk_units ?k)) (concat vs)"
        by (rule less.hyps [OF small t1 _ k']) (use p1 dp in \<open>simp_all add: ck'_def\<close>)
      then obtain vs m T' N' i Y where
        r: "hi_match_loop c ?k ck' (acc @ device_value T1 c) T1 = Some (Inr (vs, m), T')" "splits N T1 N' T'"
          "walk_end (skel T') ?k (U @ take j (rk_units k)) i m Y"
          "dpart N' T' (extra_key ?k) m ((U @ take j (rk_units k)) @ take i (rk_units ?k)) (concat vs)" by blast
      moreover have "walk_end (skel T') k U (j + i) m Y"
        using walk_end_later [OF r(3) d(9)] d(7) splits_globals(3) [OF r(2) t1] by simp
      moreover have "(U @ take j (rk_units k)) @ take i (rk_units ?k) = U @ take (j + i) (rk_units k)" by (simp add: take_add)
      moreover have "splits N T N' T'" by (rule splits_trans [OF r(2) sp1])
      ultimately show ?thesis by auto
    qed
  qed
qed

text \<open>What the device holds can be read off the tree itself: a path through it needs slots at every node.\<close>

lemma rpath_dview:
  assumes t: "tiers_ok N L T hl" and a: "a \<in> devs N T"
  shows "rpath (dview N T) ek a n us vs = rpath T ek a n us vs"
proof
  show "rpath T ek a n us vs" if "rpath (dview N T) ek a n us vs"
    using that a
  proof (induction rule: rpath.induct)
    case (cons a ck c v n us vs)
    then have c: "dict_get (kids_of T a) ck = Some c" "c \<in> devs N T" using dview_get [OF t] by blast+
    show ?case using rpath.cons [of T a ck c ek v n us vs] cons c by simp
  qed (rule rpath.nil)
  show "rpath (dview N T) ek a n us vs" if "rpath T ek a n us vs"
    using that a
  proof (induction rule: rpath.induct)
    case (cons a ck c v n us vs)
    have "c \<in> N" using tiers_kids(2) [OF t devs_sub(2) [OF cons.prems]] cons.hyps(1) by blast
    then have cD: "c \<in> devs N T" using cons.hyps(3) by (simp add: devs_def)
    then have "dict_get (kids_of (dview N T) a) ck = Some c" using cons dview_get [OF t] by blast
    then show ?case using rpath.cons [of "dview N T" a ck c ek v n us vs] cons cD by simp
  qed (rule rpath.nil)
qed

lemma cached_dview: "tiers_ok N L T hl \<Longrightarrow> cached (dview N T) ek us vs = cached T ek us vs"
  using rpath_dview [OF _ tiers_basics(4)] by (simp add: cached_def)

lemma rpath_skel:
  assumes "rpath T ek a n us vs"
  shows "\<exists>zs. rpath (skel T) ek a n us zs"
  using assms
proof (induction rule: rpath.induct)
  case (cons a ck c v n us vs)
  then obtain zs where "rpath (skel T) ek c n us zs" by blast
  then show ?case using rpath.cons [of "skel T" a ck c ek "replicate (rk_len (keyof T c)) 0" n us zs] cons by auto
qed (auto intro: rpath.nil)

lemma cached_skel: "cached T ek us vs \<Longrightarrow> \<exists>zs. cached (skel T) ek us zs"
  unfolding cached_def skel_simps using rpath_skel by blast

text \<open>Where the walk over both tiers ends, and its upper part on the device.\<close>

lemma walk_device_part:
  assumes t: "tiers_ok N L T hl" and w: "walk_end (skel T) k [] j m Y" and d: "dpart N T (extra_key k) m (take j (rk_units k)) V"
  obtains a ns where "climb T m ns a" "length V + host_len T ns = j" "a \<in> devs N T" "rc_page_size T dvd length V"
    "rpath T (extra_key k) (rc_root T) a (take (length V) (rk_units k)) V"
    "\<And>l ws. rc_page_size T dvd l \<Longrightarrow> l \<le> rk_len k \<Longrightarrow> cached T (extra_key k) (take l (rk_units k)) ws \<Longrightarrow> l \<le> length V"
proof -
  let ?ps = "rc_page_size T" and ?ek = "extra_key k" and ?us = "rk_units k"
  have j: "j \<le> rk_len k" "?ps dvd j" using w by (auto simp: walk_end_def)
  from d obtain a W1 W2 ns where a: "m \<in> N" "take j ?us = W1 @ W2" "a \<in> devs N T" "rpath (dview N T) ?ek (rc_root T) a W1 V"
    "climb T m ns a" "host_len T ns = length W2" "m \<in> devs N T \<longrightarrow> m = a \<and> W2 = []"
    "m \<notin> devs N T \<longrightarrow> ?ps \<le> length W2 \<and> (\<exists>e. e \<notin> devs N T \<and> dict_get (kids_of T a) (?ek, take ?ps W2) = Some e)"
    by (rule dpartE)
  note st = tiers_okD(10) [OF t]
  have V: "length V = length W1" "?ps dvd length W1"
    using rpath_live(2,3) [OF a(4) st] tiers_basics(4) [OF t] by simp_all
  have lj: "length V + length W2 = j" using arg_cong [OF a(2), of length] j(1) V(1) by simp
  have W1: "W1 = take (length V) ?us"
  proof -
    have "W1 = take (length W1) (take j ?us)" unfolding a(2) by simp
    also have "\<dots> = take (length W1) ?us" using lj V(1) by (simp add: min_def)
    finally show ?thesis using V(1) by simp
  qed
  have mx: "l \<le> length V" if l: "?ps dvd l" "l \<le> rk_len k" "cached T ?ek (take l ?us) ws" for l ws
  proof (rule ccontr)
    assume n: "\<not> l \<le> length V"
    have "l \<le> j"
      using walk_end_cached(4) [OF tiers_okD(1) [OF t] w, of l] cached_skel [OF l(3)] l(1,2) by auto
    then have mD: "m \<notin> devs N T" using n lj a(7) by auto
    then obtain e where e: "?ps \<le> length W2" "e \<notin> devs N T" "dict_get (kids_of T a) (?ek, take ?ps W2) = Some e" using a(8) by blast
    have none: "dict_get (kids_of (dview N T) a) (?ek, take ?ps W2) = None"
      using dview_get [OF t a(3)] e(2,3) by (metis not_None_eq option.inject)
    have "?ps \<le> l - length V" using n l(1) V by (intro dvd_imp_le) auto
    then have "length V + ?ps \<le> l" using n by simp
    moreover have "take l ?us = take l (take j ?us)" using \<open>l \<le> j\<close> by (simp add: min_def)
    then have "take l ?us = W1 @ take (l - length V) W2" unfolding a(2) using n V(1) by simp
    moreover have "take (l - length V) W2 = take ?ps W2 @ drop ?ps (take (l - length V) W2)"
      using \<open>?ps \<le> l - length V\<close> by (metis append_take_drop_id min.absorb1 take_take)
    ultimately have "cached (dview N T) ?ek (W1 @ take ?ps W2 @ drop ?ps (take (l - length V) W2)) ws"
      using l(3) cached_dview [OF t] by metis
    then show False using cached_maximal [OF st, of ?ek a W1 V "take ?ps W2"] a(4) none e(1) by simp
  qed
  have p: "rpath T ?ek (rc_root T) a (take (length V) ?us) V"
    using a(4) unfolding rpath_dview [OF t tiers_basics(4) [OF t]] W1 [symmetric] .
  show thesis
  proof (rule that [OF a(5) _ a(3) _ p])
    show "length V + host_len T ns = j" using lj a(6) by simp
    show "?ps dvd length V" using V by simp
    show "l \<le> length V" if "?ps dvd l" "l \<le> rk_len k" "cached T ?ek (take l ?us) ws" for l ws by (rule mx [OF that])
  qed
qed

text \<open>The climb to the first node with a backup.\<close>

lemma host_walk_ends:
  assumes t: "tiers_ok N L T hl" and "n \<in> N"
  shows "\<exists>b. host_walk n T = Some (Inr b) \<and> b \<in> N \<and> hostof T b \<noteq> None \<and> anc T n b"
proof (rule tiers_induct [OF assms])
  fix n assume n: "n \<in> N" and IH: "\<And>p. n \<noteq> rc_root T \<Longrightarrow> par T n = Some p \<Longrightarrow> p \<in> N \<Longrightarrow>
    \<exists>b. host_walk p T = Some (Inr b) \<and> b \<in> N \<and> hostof T b \<noteq> None \<and> anc T p b"
  show "\<exists>b. host_walk n T = Some (Inr b) \<and> b \<in> N \<and> hostof T b \<noteq> None \<and> anc T n b"
  proof (cases "hostof T n")
    case (Some h)
    then have "host_walk n T = Some (Inr n)" by (subst host_walk.simps) (simp add: backuped_def)
    then show ?thesis using Some n by auto
  next
    case None
    then have r: "n \<noteq> rc_root T" using tiers_okD(6) [OF t] by auto
    obtain p where p: "p \<in> N" "par T n = Some p" using tiers_parent [OF t n r] .
    obtain b where b: "host_walk p T = Some (Inr b)" "b \<in> N" "hostof T b \<noteq> None" "anc T p b" using IH [OF r p(2,1)] by blast
    have "host_walk n T = host_walk p T" by (subst host_walk.simps) (simp add: backuped_def None p(2))
    then show ?thesis using b anc_step [OF p(2)] by auto
  qed
qed

lemma climb_exists:
  assumes t: "tiers_ok N L T hl" and "n \<in> N"
  shows "\<exists>ns d. climb T n ns d \<and> d \<in> devs N T"
proof (rule tiers_induct [OF assms])
  fix n assume n: "n \<in> N" and IH: "\<And>p. n \<noteq> rc_root T \<Longrightarrow> par T n = Some p \<Longrightarrow> p \<in> N \<Longrightarrow> \<exists>ns d. climb T p ns d \<and> d \<in> devs N T"
  show "\<exists>ns d. climb T n ns d \<and> d \<in> devs N T"
  proof (cases "valof T n")
    case (Some v)
    then show ?thesis using climb.device [of T n] n by (auto simp: devs_def)
  next
    case None
    then have r: "n \<noteq> rc_root T" using tiers_basics(6) [OF t] by auto
    obtain p where p: "p \<in> N" "par T n = Some p" using tiers_parent [OF t n r] .
    obtain h where h: "hostof T n = Some h" using tiers_okD(4) [OF t n r] None by (auto simp: host_node_ok_def)
    show ?thesis using IH [OF r p(2,1)] climb.up [OF None h p(2)] by blast
  qed
qed

lemma host_walk_evicted:
  assumes "tiers_ok N L T hl" and "n \<in> N" and "valof T n = None"
  shows "host_walk n T = Some (Inr n)"
proof -
  have "n \<noteq> rc_root T" using assms(3) tiers_basics(6) [OF assms(1)] by auto
  then have "hostof T n \<noteq> None" using tiers_okD(4) [OF assms(1,2)] assms(3) by (simp add: host_node_ok_def)
  then show ?thesis by (subst host_walk.simps) (auto simp: backuped_def)
qed

lemma anc_same_tiers: "same_tiers T U \<Longrightarrow> anc U = anc T"
  using same_tiers_fields(2) by (intro anc_cong)

text \<open>
  A match result is right for a key: the device indices are the slots of the longest prefix on the
  device, the host hit length reaches to the longest prefix on either tier, and the two nodes end
  the one and, when there is a host part, the other.
\<close>

definition match_right :: "nat set \<Rightarrow> radix \<Rightarrow> radix_key \<Rightarrow> match_result \<Rightarrow> bool" where
  "match_right N T k r \<longleftrightarrow>
     (let us = rk_units k; ek = extra_key k; i = length (mr_device_indices r); j = i + mr_host_hit_length r
      in j \<le> rk_len k \<and> rc_page_size T dvd i \<and> rc_page_size T dvd j \<and>
         mr_last_device_node r \<in> devs N T \<and> rpath T ek (rc_root T) (mr_last_device_node r) (take i us) (mr_device_indices r) \<and>
         (\<forall>l ws. rc_page_size T dvd l \<and> l \<le> rk_len k \<and> cached T ek (take l us) ws \<longrightarrow> l \<le> i) \<and>
         (\<forall>l ws. rc_page_size T dvd l \<and> l \<le> rk_len k \<and> cached (skel T) ek (take l us) ws \<longrightarrow> l \<le> j) \<and>
         mr_last_host_node r \<in> N \<and> hostof T (mr_last_host_node r) \<noteq> None \<and>
         (0 < mr_host_hit_length r \<longrightarrow> (\<exists>ns Y. climb T (mr_last_host_node r) ns (mr_last_device_node r) \<and>
            host_len T ns = mr_host_hit_length r \<and> rpath (skel T) ek (rc_root T) (mr_last_host_node r) (take j us) Y)))"

lemma match_right_walk:
  assumes t: "tiers_ok N L T hl" and w: "walk_end (skel T) k [] j m Y" and d: "dpart N T (extra_key k) m (take j (rk_units k)) V"
  obtains a hit b where "device_walk m 0 T = Some (Inr (a, hit))" "host_walk m T = Some (Inr b)"
    "match_right N T k \<lparr>mr_device_indices = V, mr_last_device_node = a, mr_last_host_node = b, mr_host_hit_length = hit\<rparr>"
proof -
  obtain a ns where a: "climb T m ns a" "length V + host_len T ns = j" "a \<in> devs N T" "rc_page_size T dvd length V"
    "rpath T (extra_key k) (rc_root T) a (take (length V) (rk_units k)) V"
    "\<And>l ws. rc_page_size T dvd l \<Longrightarrow> l \<le> rk_len k \<Longrightarrow> cached T (extra_key k) (take l (rk_units k)) ws \<Longrightarrow> l \<le> length V"
    using walk_device_part [OF t w d] by blast
  note c = walk_end_cached [OF tiers_okD(1) [OF t] w]
  have j: "j \<le> rk_len k" "rc_page_size T dvd j" "rpath (skel T) (extra_key k) (rc_root T) m (take j (rk_units k)) Y"
    using w by (auto simp: walk_end_def)
  obtain b where b: "host_walk m T = Some (Inr b)" "b \<in> N" "hostof T b \<noteq> None" using host_walk_ends [OF t c(1)] by blast
  have "b = m" if "0 < host_len T ns"
  proof -
    have "valof T m = None" using a(1) that by (cases rule: climb.cases) auto
    then show ?thesis using host_walk_evicted [OF t c(1)] b(1) by simp
  qed
  then have host: "0 < host_len T ns \<longrightarrow> (\<exists>ns' Y. climb T b ns' a \<and> host_len T ns' = host_len T ns \<and>
      rpath (skel T) (extra_key k) (rc_root T) b (take j (rk_units k)) Y)"
    using a(1) j(3) by blast
  have "match_right N T k \<lparr>mr_device_indices = V, mr_last_device_node = a, mr_last_host_node = b, mr_host_hit_length = host_len T ns\<rparr>"
    unfolding match_right_def Let_def match_result.simps a(2)
    using j a b c(4) host by (intro conjI allI impI) (simp_all, blast+)
  then show thesis using that climb_device_walk [OF a(1), of 0] b(1) by simp
qed

lemma hi_match_prefix_walk:
  assumes t: "tiers_ok N L (hi_tree s) (hi_host_leaves s)" and k: "key_for (hi_tree s) k"
  shows "\<exists>r T N'. hi_match_prefix k s = Some (Inr r, s\<lparr>hi_tree := T\<rparr>) \<and> splits N (hi_tree s) N' T \<and>
    match_right N' T (view_key (hi_tree s) k) r"
proof -
  let ?T = "hi_tree s"
  let ?k = "view_key ?T k"
  have on: "\<not> rc_disable ?T" by (rule tiers_okD(8) [OF t])
  show ?thesis
  proof (cases "rk_len ?k = 0")
    case True
    have w: "walk_end (skel ?T) ?k [] 0 (rc_root ?T) []" using True rpath.nil [of "skel ?T"] by (simp add: walk_end_def)
    obtain a hit b where r: "device_walk (rc_root ?T) 0 ?T = Some (Inr (a, hit))" "host_walk (rc_root ?T) ?T = Some (Inr b)"
      "match_right N ?T ?k \<lparr>mr_device_indices = [], mr_last_device_node = a, mr_last_host_node = b, mr_host_hit_length = hit\<rparr>"
      using match_right_walk [OF t w, of "[]"] dpart_root [OF t, of "extra_key ?k"] by auto
    have "a = rc_root ?T" "hit = 0" using climb_device_walk [OF climb.device [of ?T "rc_root ?T"], of 0] tiers_basics(6) [OF t] r(1) by auto
    moreover have "b = rc_root ?T"
    proof -
      have "host_walk (rc_root ?T) ?T = Some (Inr (rc_root ?T))" using tiers_okD(6) [OF t] by (subst host_walk.simps) (simp add: backuped_def)
      then show ?thesis using r(2) by simp
    qed
    moreover have "hi_match_prefix k s = Some (Inr (empty_match_result ?T), s\<lparr>hi_tree := ?T\<rparr>)"
      using True by (simp add: hi_match_prefix_def Let_def view_key_def)
    ultimately show ?thesis using r(3) splits.same [of N ?T]
      by (intro exI [of _ "empty_match_result ?T"] exI [of _ ?T] exI [of _ N]) (simp add: empty_match_result_def)
  next
    case False
    define T1 where "T1 = touch_node (rc_root ?T) ?T"
    have sh: "same_tiers ?T T1" by (simp add: T1_def)
    note f = same_tiers_fields [OF sh]
    have sp1: "splits N ?T N T1" by (rule splits.touch [OF splits.same sh])
    have t1: "tiers_ok N L T1 (hi_host_leaves s)" using splits_tiers [OF sp1 t] by blast
    have ko: "key_ok T1 ?k" using view_key_ok [OF k] by (simp add: key_ok_globals [OF f(11)])
    have ck: "child_key (rc_page_size T1) ?k = Inr (ckey (rc_page_size T1) ?k)"
      using child_key_ckey [OF ko tiers_basics(3) [OF t1]] False by simp
    have "\<exists>vs m T' N' j Y. hi_match_loop (rc_root ?T) ?k (ckey (rc_page_size T1) ?k) [] T1 = Some (Inr (vs, m), T') \<and> splits N T1 N' T' \<and>
        walk_end (skel T') ?k [] j m Y \<and> dpart N' T' (extra_key ?k) m ([] @ take j (rk_units ?k)) (concat vs)"
      by (rule hi_match_loop_walk [OF t1 _ ko]) (use rpath.nil [of "skel T1"] dpart_root [OF t1] f(8) in auto)
    then obtain vs m T' N' j Y where
      w: "hi_match_loop (rc_root ?T) ?k (ckey (rc_page_size T1) ?k) [] T1 = Some (Inr (vs, m), T')" "splits N T1 N' T'"
        "walk_end (skel T') ?k [] j m Y" "dpart N' T' (extra_key ?k) m (take j (rk_units ?k)) (concat vs)" by auto
    have t': "tiers_ok N' L T' (hi_host_leaves s)" using splits_tiers [OF w(2) t1] by blast
    obtain a hit b where r: "device_walk m 0 T' = Some (Inr (a, hit))" "host_walk m T' = Some (Inr b)"
      "match_right N' T' ?k \<lparr>mr_device_indices = concat vs, mr_last_device_node = a, mr_last_host_node = b, mr_host_hit_length = hit\<rparr>"
      using match_right_walk [OF t' w(3,4)] by blast
    have "hi_match_prefix k s = Some (Inr \<lparr>mr_device_indices = concat vs, mr_last_device_node = a, mr_last_host_node = b,
        mr_host_hit_length = hit\<rparr>, s\<lparr>hi_tree := T'\<rparr>)"
      using on False w(1) ck r(1,2)
      by (simp add: hi_match_prefix_def hi_match_helper_def Let_def view_key_def T1_def)
    then show ?thesis using r(3) splits_trans [OF w(2) sp1] by blast
  qed
qed

end
