(* ===== verification/Hi_Locks.thy ===== *)
theory Hi_Locks
  imports Hi_Match
begin

text \<open>
  Locks and the two sets of leaves. The loops that lock and unlock a path act on the device view as
  the loops of the plain cache do; an update of the host leaves puts one node where it belongs.
\<close>

section \<open>Updates seen through the device view\<close>

lemma dview_upd:
  assumes "\<And>nd. nd_value (f nd) = nd_value nd" "\<And>nd. nd_children (f nd) = nd_children nd"
    "\<And>nd ks. f (nd\<lparr>nd_children := ks\<rparr>) = (f nd)\<lparr>nd_children := ks\<rparr>"
  shows "dview N (upd_node n f T) = upd_node n f (dview N T)"
proof -
  have "devs N (upd_node n f T) = devs N T" using assms(1) by (auto simp: devs_def upd_node_def)
  then show ?thesis using assms(2,3) by (simp add: dview_def upd_node_def fun_eq_iff)
qed

lemma dview_global:
  assumes "rc_store (g T) = rc_store T" and "\<And>f. g (T\<lparr>rc_store := f\<rparr>) = (g T)\<lparr>rc_store := f\<rparr>"
  shows "dview N (g T) = g (dview N T)"
proof -
  have "devs N (g T) = devs N T" by (simp only: devs_def assms(1))
  then show ?thesis unfolding dview_def assms by (simp only:)
qed

lemma dview_sizes: "dview N (T\<lparr>rc_evictable_size := a, rc_protected_size := b\<rparr>) = (dview N T)\<lparr>rc_evictable_size := a, rc_protected_size := b\<rparr>"
  by (rule dview_global [of "\<lambda>T. T\<lparr>rc_evictable_size := a, rc_protected_size := b\<rparr>"]) simp_all

lemma dview_leaves: "dview N (T\<lparr>rc_evictable_leaves := xs\<rparr>) = (dview N T)\<lparr>rc_evictable_leaves := xs\<rparr>"
  by (rule dview_global [of "\<lambda>T. T\<lparr>rc_evictable_leaves := xs\<rparr>"]) simp_all

lemma list_ex_values: "list_ex P (dict_values d) = (\<exists>p \<in> set d. P (snd p))"
  by (induction d) auto

lemma bex_set_filter: "(\<exists>p \<in> set (filter Q d). R p) = (\<exists>p \<in> set d. Q p \<and> R p)"
  by auto

lemma dview_update_leaf:
  assumes "n \<in> devs N T" and "\<And>c. c \<in> set (dict_values (kids_of T n)) \<Longrightarrow> c \<in> N"
  shows "dview N (update_leaf_status n T) = update_leaf_status n (dview N T)"
proof -
  have ev: "evicted (rc_store (dview N T) x) = evicted (rc_store T x)" for x by (simp add: evicted_def)
  have "c \<in> devs N T" if "c \<in> set (dict_values (kids_of T n))" "\<not> evicted (rc_store T c)" for c
    using assms(2) [OF that(1)] that(2) by (simp add: devs_iff)
  then have "(\<exists>p \<in> set (kids_of T n). \<not> evicted (rc_store T (snd p))) =
      (\<exists>p \<in> set (kids_of T n). snd p \<in> devs N T \<and> \<not> evicted (rc_store T (snd p)))" by auto
  then have "list_ex (\<lambda>c. \<not> evicted (rc_store T c)) (dict_values (kids_of T n)) =
      list_ex (\<lambda>c. \<not> evicted (rc_store T c)) (dict_values (kids_of (dview N T) n))"
    using assms(1) unfolding list_ex_values dview_simps(5) by (simp only: if_True bex_set_filter)
  then show ?thesis
    unfolding update_leaf_status_def Let_def discard_leaf_def dview_simps(12) ev
    by (simp add: dview_leaves)
qed

section \<open>Locking\<close>

text \<open>The fields that locking does not touch.\<close>

definition same_nodes :: "radix \<Rightarrow> radix \<Rightarrow> bool" where
  "same_nodes T U \<longleftrightarrow>
     (\<forall>n. kids_of U n = kids_of T n \<and> par U n = par T n \<and> keyof U n = keyof T n \<and> valof U n = valof T n \<and>
        hostof U n = hostof T n \<and> nd_host_ref (rc_store U n) = nd_host_ref (rc_store T n)) \<and>
     same_globals T U \<and> rc_counter U = rc_counter T \<and> rc_alloc U = rc_alloc T"

lemma same_nodesD:
  assumes "same_nodes T U"
  shows "kids_of U n = kids_of T n" "par U n = par T n" "keyof U n = keyof T n" "valof U n = valof T n" "hostof U n = hostof T n"
    "nd_host_ref (rc_store U n) = nd_host_ref (rc_store T n)" "rc_root U = rc_root T" "rc_page_size U = rc_page_size T"
    "rc_counter U = rc_counter T" "devs N U = devs N T" "same_globals T U" "rc_alloc U = rc_alloc T"
  using assms by (auto simp: same_nodes_def same_globals_def devs_def)

lemma same_nodes_refl [simp]: "same_nodes T T"
  by (simp add: same_nodes_def)

lemma same_nodes_trans: "same_nodes T U \<Longrightarrow> same_nodes U V \<Longrightarrow> same_nodes T V"
  unfolding same_nodes_def using same_globals_trans by metis

lemma update_leaf_nodes [simp]: "same_nodes T (update_leaf_status n T)"
  by (simp add: update_leaf_status_def Let_def discard_leaf_def same_nodes_def same_globals_def)

text \<open>One round of a locking loop, in the tree alone.\<close>

definition bump :: "int \<Rightarrow> nat \<Rightarrow> radix \<Rightarrow> radix" where
  "bump d n T =
     (let l = int (rk_len (keyof T n));
          T1 = (if lockof T n = 0 \<and> d = 1 then T\<lparr>rc_evictable_size := rc_evictable_size T - l, rc_protected_size := rc_protected_size T + l\<rparr>
                else if lockof T n = 1 \<and> d = -1 then T\<lparr>rc_evictable_size := rc_evictable_size T + l, rc_protected_size := rc_protected_size T - l\<rparr>
                else T)
      in update_leaf_status n (upd_node n (\<lambda>nd. nd\<lparr>nd_lock_ref := nd_lock_ref nd + d\<rparr>) T1))"

lemma same_nodes_lock:
  assumes "rc_store T1 = rc_store T" "same_globals T T1" "rc_counter T1 = rc_counter T" "rc_alloc T1 = rc_alloc T"
  shows "same_nodes T (upd_node n (\<lambda>nd. nd\<lparr>nd_lock_ref := nd_lock_ref nd + d\<rparr>) T1)"
  using assms by (simp add: same_nodes_def same_globals_def upd_node_def)

lemma bump_nodes: "same_nodes T (bump d n T)"
  unfolding bump_def Let_def
  by (rule same_nodes_trans [OF same_nodes_lock update_leaf_nodes]) (simp_all add: same_globals_def)

lemma dview_bump:
  assumes "n \<in> devs N T" and "\<And>c. c \<in> set (dict_values (kids_of T n)) \<Longrightarrow> c \<in> N"
  shows "dview N (bump d n T) = bump d n (dview N T)"
proof -
  have 1: "dview N (update_leaf_status n U) = update_leaf_status n (dview N U)" if "same_nodes T U" for U
    using assms same_nodesD(1,10) [OF that] by (intro dview_update_leaf) auto
  have 2: "dview N (upd_node n (\<lambda>nd. nd\<lparr>nd_lock_ref := nd_lock_ref nd + d\<rparr>) U) = upd_node n (\<lambda>nd. nd\<lparr>nd_lock_ref := nd_lock_ref nd + d\<rparr>) (dview N U)" for U
    by (rule dview_upd) simp_all
  show ?thesis
    unfolding bump_def Let_def dview_simps(2,4,10,11)
    by (subst 1, rule same_nodes_lock) (simp_all add: 2 dview_sizes same_globals_def)
qed

lemma inc_lock_loop_bump:
  assumes "n \<noteq> rc_root T"
  shows "inc_lock_loop (Some n) delta T = inc_lock_loop (par T n)
    (if lockof T n = 0 then delta - int (rk_len (keyof T n)) else delta) (bump 1 n T)"
  using assms by (subst inc_lock_loop.simps) (simp add: bump_def Let_def)

lemma dec_lock_loop_bump:
  assumes "n \<noteq> rc_root T" and "par T n = Some p"
  shows "dec_lock_loop n delta T = dec_lock_loop p
    (if lockof T n = 1 then delta + int (rk_len (keyof T n)) else delta) (bump (-1) n T)"
  using assms by (subst dec_lock_loop.simps) (simp add: bump_def Let_def)

lemma update_host_leaf_device:
  assumes "valof (hi_tree s) n \<noteq> None" and "n \<notin> set (hi_host_leaves s)"
  shows "update_host_leaf_status n s = s"
  using assms by (auto simp: update_host_leaf_status_def Let_def evicted_def discard_host_leaf_def)

lemma hi_inc_lock_loop_bump:
  assumes "n \<noteq> hi_root s" and "valof (hi_tree s) n \<noteq> None" and "n \<notin> set (hi_host_leaves s)"
  shows "hi_inc_lock_loop (Some n) delta s = hi_inc_lock_loop (par (hi_tree s) n)
    (if lockof (hi_tree s) n = 0 then delta - int (rk_len (keyof (hi_tree s) n)) else delta) (s\<lparr>hi_tree := bump 1 n (hi_tree s)\<rparr>)"
proof -
  let ?s = "s\<lparr>hi_tree := bump 1 n (hi_tree s)\<rparr>"
  have "update_host_leaf_status n ?s = ?s"
    using assms(2,3) same_nodesD(4) [OF bump_nodes [of "hi_tree s" 1 n], of n] by (intro update_host_leaf_device) auto
  then show ?thesis
    using assms(1) by (subst hi_inc_lock_loop.simps, cases "lockof (hi_tree s) n = 0")
      (simp_all add: bump_def Let_def upd_tree_def hi_update_leaf_def)
qed

lemma hi_dec_lock_loop_bump:
  assumes "n \<noteq> hi_root s" and "valof (hi_tree s) n \<noteq> None" and "n \<notin> set (hi_host_leaves s)" and "par (hi_tree s) n = Some p"
  shows "hi_dec_lock_loop n delta s = hi_dec_lock_loop p
    (if lockof (hi_tree s) n = 1 then delta + int (rk_len (keyof (hi_tree s) n)) else delta) (s\<lparr>hi_tree := bump (-1) n (hi_tree s)\<rparr>)"
proof -
  let ?s = "s\<lparr>hi_tree := bump (-1) n (hi_tree s)\<rparr>"
  have "update_host_leaf_status n ?s = ?s"
    using assms(2,3) same_nodesD(4) [OF bump_nodes [of "hi_tree s" "-1" n], of n] by (intro update_host_leaf_device) auto
  then show ?thesis
    using assms(1,4) by (subst hi_dec_lock_loop.simps, cases "lockof (hi_tree s) n = 1")
      (simp_all add: bump_def Let_def upd_tree_def hi_update_leaf_def)
qed

text \<open>The loops of the two caches run in step.\<close>

lemma hi_inc_lock_sim:
  assumes t: "tiers_ok N L T0 hl" and n: "n \<in> N"
  shows "\<forall>s delta d u. n \<in> devs N T0 \<and> same_nodes T0 (hi_tree s) \<and> set (hi_host_leaves s) \<inter> devs N T0 = {} \<and>
     inc_lock_loop (Some n) delta (dview N (hi_tree s)) = Some (Inr d, u) \<longrightarrow>
     (\<exists>T. hi_inc_lock_loop (Some n) delta s = Some (Inr d, s\<lparr>hi_tree := T\<rparr>) \<and> dview N T = u \<and> same_nodes T0 T)"
proof (rule tiers_induct [OF t n], intro allI impI)
  fix n :: nat and s :: "'v hi" and delta d u
  assume nN: "n \<in> N"
    and IH: "\<And>p. n \<noteq> rc_root T0 \<Longrightarrow> par T0 n = Some p \<Longrightarrow> p \<in> N \<Longrightarrow> \<forall>(s :: 'v hi) delta d u. p \<in> devs N T0 \<and> same_nodes T0 (hi_tree s) \<and>
       set (hi_host_leaves s) \<inter> devs N T0 = {} \<and> inc_lock_loop (Some p) delta (dview N (hi_tree s)) = Some (Inr d, u) \<longrightarrow>
     (\<exists>T. hi_inc_lock_loop (Some p) delta s = Some (Inr d, s\<lparr>hi_tree := T\<rparr>) \<and> dview N T = u \<and> same_nodes T0 T)"
    and a: "n \<in> devs N T0 \<and> same_nodes T0 (hi_tree s) \<and> set (hi_host_leaves s) \<inter> devs N T0 = {} \<and>
     inc_lock_loop (Some n) delta (dview N (hi_tree s)) = Some (Inr d, u)"
  let ?T = "hi_tree s"
  have sn: "same_nodes T0 ?T" using a by blast
  note f = same_nodesD [OF sn]
  show "\<exists>T. hi_inc_lock_loop (Some n) delta s = Some (Inr d, s\<lparr>hi_tree := T\<rparr>) \<and> dview N T = u \<and> same_nodes T0 T"
  proof (cases "n = rc_root T0")
    case True
    then have "inc_lock_loop (Some n) delta (dview N ?T) = Some (Inr delta, dview N ?T)" "hi_inc_lock_loop (Some n) delta s = Some (Inr delta, s)"
      using f(7) by (subst inc_lock_loop.simps hi_inc_lock_loop.simps; simp)+
    then show ?thesis using a by (intro exI [of _ ?T]) simp
  next
    case False
    then have r: "n \<noteq> rc_root ?T" "n \<noteq> rc_root (dview N ?T)" using f(7) by simp_all
    obtain p where p: "p \<in> N" "par T0 n = Some p" using tiers_parent [OF t nN False] .
    have pD: "p \<in> devs N T0" using tiers_parentD(5) [OF t nN False p(2)] a by blast
    have v: "valof ?T n \<noteq> None" using a f(4) [of n] by (simp add: devs_def)
    have h: "n \<notin> set (hi_host_leaves s)" using a by blast
    let ?d = "if lockof ?T n = 0 then delta - int (rk_len (keyof ?T n)) else delta"
    have kids: "c \<in> N" if "c \<in> set (dict_values (kids_of ?T n))" for c
      using tiers_kids(3) [OF t nN] that f(1) by auto
    have b: "dview N (bump 1 n ?T) = bump 1 n (dview N ?T)"
      using a f(10) kids by (intro dview_bump) auto
    have "inc_lock_loop (Some p) ?d (dview N (bump 1 n ?T)) = Some (Inr d, u)"
      using a inc_lock_loop_bump [OF r(2), of delta, unfolded dview_simps] p(2) f(2) [of n] unfolding b by metis
    moreover have "same_nodes T0 (bump 1 n ?T)" by (rule same_nodes_trans [OF sn bump_nodes])
    ultimately have "\<exists>T. hi_inc_lock_loop (Some p) ?d (s\<lparr>hi_tree := bump 1 n ?T\<rparr>) = Some (Inr d, s\<lparr>hi_tree := bump 1 n ?T, hi_tree := T\<rparr>) \<and>
        dview N T = u \<and> same_nodes T0 T"
      using IH [OF False p(2,1), rule_format, of "s\<lparr>hi_tree := bump 1 n ?T\<rparr>" ?d d u] pD a by simp
    then show ?thesis using hi_inc_lock_loop_bump [OF r(1) v h, of delta] p(2) f(2) by simp
  qed
qed

lemma hi_dec_lock_sim:
  assumes t: "tiers_ok N L T0 hl" and n: "n \<in> N"
  shows "\<forall>s delta d u. n \<in> devs N T0 \<and> same_nodes T0 (hi_tree s) \<and> set (hi_host_leaves s) \<inter> devs N T0 = {} \<and>
     dec_lock_loop n delta (dview N (hi_tree s)) = Some (Inr d, u) \<longrightarrow>
     (\<exists>T. hi_dec_lock_loop n delta s = Some (Inr d, s\<lparr>hi_tree := T\<rparr>) \<and> dview N T = u \<and> same_nodes T0 T)"
proof (rule tiers_induct [OF t n], intro allI impI)
  fix n :: nat and s :: "'v hi" and delta d u
  assume nN: "n \<in> N"
    and IH: "\<And>p. n \<noteq> rc_root T0 \<Longrightarrow> par T0 n = Some p \<Longrightarrow> p \<in> N \<Longrightarrow> \<forall>(s :: 'v hi) delta d u. p \<in> devs N T0 \<and> same_nodes T0 (hi_tree s) \<and>
       set (hi_host_leaves s) \<inter> devs N T0 = {} \<and> dec_lock_loop p delta (dview N (hi_tree s)) = Some (Inr d, u) \<longrightarrow>
     (\<exists>T. hi_dec_lock_loop p delta s = Some (Inr d, s\<lparr>hi_tree := T\<rparr>) \<and> dview N T = u \<and> same_nodes T0 T)"
    and a: "n \<in> devs N T0 \<and> same_nodes T0 (hi_tree s) \<and> set (hi_host_leaves s) \<inter> devs N T0 = {} \<and>
     dec_lock_loop n delta (dview N (hi_tree s)) = Some (Inr d, u)"
  let ?T = "hi_tree s"
  have sn: "same_nodes T0 ?T" using a by blast
  note f = same_nodesD [OF sn]
  show "\<exists>T. hi_dec_lock_loop n delta s = Some (Inr d, s\<lparr>hi_tree := T\<rparr>) \<and> dview N T = u \<and> same_nodes T0 T"
  proof (cases "n = rc_root T0")
    case True
    then have "dec_lock_loop n delta (dview N ?T) = Some (Inr delta, dview N ?T)" "hi_dec_lock_loop n delta s = Some (Inr delta, s)"
      using f(7) by (subst dec_lock_loop.simps hi_dec_lock_loop.simps; simp)+
    then show ?thesis using a by (intro exI [of _ ?T]) simp
  next
    case False
    then have r: "n \<noteq> rc_root ?T" "n \<noteq> rc_root (dview N ?T)" using f(7) by simp_all
    obtain p where p: "p \<in> N" "par T0 n = Some p" using tiers_parent [OF t nN False] .
    then have p': "par ?T n = Some p" "par (dview N ?T) n = Some p" using f(2) by simp_all
    have pD: "p \<in> devs N T0" using tiers_parentD(5) [OF t nN False p(2)] a by blast
    have v: "valof ?T n \<noteq> None" using a f(4) [of n] by (simp add: devs_def)
    have h: "n \<notin> set (hi_host_leaves s)" using a by blast
    let ?d = "if lockof ?T n = 1 then delta + int (rk_len (keyof ?T n)) else delta"
    have kids: "c \<in> N" if "c \<in> set (dict_values (kids_of ?T n))" for c
      using tiers_kids(3) [OF t nN] that f(1) by auto
    have b: "dview N (bump (-1) n ?T) = bump (-1) n (dview N ?T)"
      using a f(10) kids by (intro dview_bump) auto
    have "dec_lock_loop p ?d (dview N (bump (-1) n ?T)) = Some (Inr d, u)"
      using a dec_lock_loop_bump [OF r(2) p'(2), of delta, unfolded dview_simps] unfolding b by metis
    moreover have "same_nodes T0 (bump (-1) n ?T)" by (rule same_nodes_trans [OF sn bump_nodes])
    ultimately have "\<exists>T. hi_dec_lock_loop p ?d (s\<lparr>hi_tree := bump (-1) n ?T\<rparr>) = Some (Inr d, s\<lparr>hi_tree := bump (-1) n ?T, hi_tree := T\<rparr>) \<and>
        dview N T = u \<and> same_nodes T0 T"
      using IH [OF False p(2,1), rule_format, of "s\<lparr>hi_tree := bump (-1) n ?T\<rparr>" ?d d u] pD a by simp
    then show ?thesis using hi_dec_lock_loop_bump [OF r(1) v h p'(1), of delta] by simp
  qed
qed

text \<open>Paths from a node on the device stay there.\<close>

lemma anc_devs:
  assumes t: "tiers_ok N L T hl" and "n \<in> devs N T" and "anc T n x"
  shows "x \<in> devs N T"
  using assms(3,2) unfolding anc_def
proof (induction rule: converse_rtranclp_induct)
  case (step y z)
  have "y \<noteq> rc_root T" using step.hyps(1) tiers_basics(7) [OF t] by auto
  then have "z \<in> devs N T" using tiers_parentD(5) [OF t devs_sub(2) [OF step.prems]] step by blast
  then show ?case by (rule step.IH)
qed

definition lock_path :: "radix \<Rightarrow> nat \<Rightarrow> int \<Rightarrow> radix \<Rightarrow> bool" where
  "lock_path T n d U \<longleftrightarrow> same_nodes T U \<and> (\<forall>x. lockof U x = lockof T x + (if x \<noteq> rc_root T \<and> anc T n x then d else 0))"

lemma tiers_relock:
  assumes t: "tiers_ok N L T hl" and n: "n \<in> devs N T" and sn: "same_nodes T U"
    and inv: "tree_inv (devs N T) L' (dview N U)" and eff: "lock_path_effect (dview N T) n d (dview N U)"
  shows "tiers_ok N L' U hl" "lock_path T n d U"
proof -
  note f = same_nodesD [OF sn]
  have an: "anc (dview N T) = anc T" by (rule anc_cong) simp
  have lock: "lockof U x = lockof T x + (if x \<noteq> rc_root T \<and> anc T n x then d else 0)" for x
    using eff unfolding lock_path_effect_def an by simp
  show "lock_path T n d U" using sn lock by (simp add: lock_path_def)
  have st: "struct_ok N (skel U)"
    by (rule struct_ok_cong [OF tiers_okD(1) [OF t]]) (use f in \<open>auto simp: same_globals_def\<close>)
  have lk: "lockof U x = 0" if "x \<in> N" "valof U x = None" for x
  proof -
    have v: "valof T x = None" using that(2) f(4) by simp
    then have "\<not> anc T n x" using anc_devs [OF t n, of x] by (auto simp: devs_def)
    then show ?thesis using lock tiers_okD(3) [OF t that(1) v] by simp
  qed
  have g: "rc_disable U = rc_disable T" "rc_events U = rc_events T" using f(11) by (simp_all add: same_globals_def)
  show "tiers_ok N L' U hl"
    using st inv lk tiers_okD(4-9) [OF t] unfolding tiers_ok_def host_node_ok_def host_leaves_ok_def f g by simp
qed

lemma host_leaves_evicted: "tiers_ok N L T hl \<Longrightarrow> set hl \<inter> devs N T = {}"
  using tiers_okD(7) by (auto simp: host_leaves_ok_def devs_def)

lemma hi_inc_lock_ref_live:
  assumes t: "tiers_ok N L (hi_tree s) (hi_host_leaves s)" and n: "n \<in> devs N (hi_tree s)"
  defines "L' \<equiv> if n = hi_root s then L else L(n := Suc (L n))"
  shows "\<exists>T. hi_inc_lock_ref n s = Some (Inr (rc_evictable_size T - rc_evictable_size (hi_tree s)), s\<lparr>hi_tree := T\<rparr>) \<and>
    tiers_ok N L' T (hi_host_leaves s) \<and> lock_path (hi_tree s) n 1 T"
proof -
  let ?T = "hi_tree s"
  obtain u where u: "inc_lock_ref n (dview N ?T) = Some (Inr (rc_evictable_size u - rc_evictable_size ?T), u)"
    "tree_inv (devs N ?T) L' u" "lock_path_effect (dview N ?T) n 1 u"
    using inc_lock_ref_live [OF tiers_okD(2) [OF t] n] tiers_okD(8) [OF t] unfolding L'_def by auto
  have on: "\<not> rc_disable ?T" by (rule tiers_okD(8) [OF t])
  have loop: "inc_lock_loop (Some n) 0 (dview N ?T) = Some (Inr (rc_evictable_size u - rc_evictable_size ?T), u)"
    using u(1) on by (simp add: inc_lock_ref_def)
  obtain T where T: "hi_inc_lock_loop (Some n) 0 s = Some (Inr (rc_evictable_size u - rc_evictable_size ?T), s\<lparr>hi_tree := T\<rparr>)"
    "dview N T = u" "same_nodes ?T T"
    using hi_inc_lock_sim [OF t devs_sub(2) [OF n], rule_format, of s 0 _ u] n loop host_leaves_evicted [OF t] same_nodes_refl by blast
  have es: "rc_evictable_size u = rc_evictable_size T" using T(2) by auto
  show ?thesis
    using tiers_relock [OF t n T(3)] u(2,3) T(1) on unfolding T(2) [symmetric] es by (auto simp: hi_inc_lock_ref_def)
qed

lemma hi_dec_lock_ref_live:
  assumes t: "tiers_ok N L (hi_tree s) (hi_host_leaves s)" and n: "n \<in> devs N (hi_tree s)" and held: "n = hi_root s \<or> 0 < L n"
  defines "L' \<equiv> if n = hi_root s then L else L(n := L n - 1)"
  shows "\<exists>T. hi_dec_lock_ref n s = Some (Inr (rc_evictable_size T - rc_evictable_size (hi_tree s)), s\<lparr>hi_tree := T\<rparr>) \<and>
    tiers_ok N L' T (hi_host_leaves s) \<and> lock_path (hi_tree s) n (-1) T"
proof -
  let ?T = "hi_tree s"
  obtain u where u: "dec_lock_ref n (dview N ?T) = Some (Inr (rc_evictable_size u - rc_evictable_size ?T), u)"
    "tree_inv (devs N ?T) L' u" "lock_path_effect (dview N ?T) n (-1) u"
    using dec_lock_ref_live [OF tiers_okD(2) [OF t] n] tiers_okD(8) [OF t] held unfolding L'_def by auto
  have on: "\<not> rc_disable ?T" by (rule tiers_okD(8) [OF t])
  have loop: "dec_lock_loop n 0 (dview N ?T) = Some (Inr (rc_evictable_size u - rc_evictable_size ?T), u)"
    using u(1) on by (simp add: dec_lock_ref_def)
  obtain T where T: "hi_dec_lock_loop n 0 s = Some (Inr (rc_evictable_size u - rc_evictable_size ?T), s\<lparr>hi_tree := T\<rparr>)"
    "dview N T = u" "same_nodes ?T T"
    using hi_dec_lock_sim [OF t devs_sub(2) [OF n], rule_format, of s 0 _ u] n loop host_leaves_evicted [OF t] same_nodes_refl by blast
  have es: "rc_evictable_size u = rc_evictable_size T" using T(2) by auto
  show ?thesis
    using tiers_relock [OF t n T(3)] u(2,3) T(1) on unfolding T(2) [symmetric] es by (auto simp: hi_dec_lock_ref_def)
qed

end
