(* ===== verification/Hi_Host.thy ===== *)
theory Hi_Host
  imports Hi_Locks
begin

text \<open>
  Host pages of the hierarchical prefix cache: the set of host leaves, the eviction of host pages
  (\<^verbatim>\<open>evict_host\<close>) and the backup of a node (\<^verbatim>\<open>write_backup\<close>, \<^verbatim>\<open>_inc_hit_count\<close>).
\<close>

section \<open>The set of host leaves\<close>

definition host_leaf :: "nat set \<Rightarrow> radix \<Rightarrow> nat \<Rightarrow> bool" where
  "host_leaf N T n \<longleftrightarrow> n \<in> N \<and> n \<noteq> rc_root T \<and> valof T n = None \<and> kids_of T n = []"

definition put_leaf :: "bool \<Rightarrow> nat \<Rightarrow> nat list \<Rightarrow> nat list" where
  "put_leaf b n xs = (if b then if n \<in> set xs then xs else n # xs else removeAll n xs)"

lemma put_leaf_simps [simp]:
  "set (put_leaf b n xs) = set xs - {n} \<union> (if b then {n} else {})" "distinct xs \<Longrightarrow> distinct (put_leaf b n xs)"
  by (auto simp: put_leaf_def distinct_removeAll)

lemma host_leaves_ok_iff: "host_leaves_ok N T hl \<longleftrightarrow> distinct hl \<and> set hl = {n. host_leaf N T n}"
  by (auto simp: host_leaves_ok_def host_leaf_def)

lemma tiers_ok_leaves:
  assumes "tiers_ok N L T hl" and "host_leaves_ok N T hl'"
  shows "tiers_ok N L T hl'"
  using assms by (simp add: tiers_ok_def)

lemma evicted_kids_backuped:
  assumes t: "tiers_ok N L T hl" and n: "n \<in> N" "valof T n = None" and c: "c \<in> set (dict_values (kids_of T n))"
  shows "valof T c = None" "hostof T c \<noteq> None"
proof -
  have c': "c \<in> N" "c \<noteq> rc_root T" "par T c = Some n" using tiers_kids(3) [OF t n(1)] c by auto
  show v: "valof T c = None" by (rule tiers_evicted_child [OF t c' n(2)])
  show "hostof T c \<noteq> None" using tiers_okD(4) [OF t c'(1,2)] v by (simp add: host_node_ok_def)
qed

lemma update_host_leaf_status_eq:
  assumes t: "tiers_ok N L (hi_tree s) hl" and n: "n \<in> N"
  shows "update_host_leaf_status n s = s\<lparr>hi_host_leaves := put_leaf (host_leaf N (hi_tree s) n) n (hi_host_leaves s)\<rparr>"
proof (cases "valof (hi_tree s) n = None")
  case False
  then have "\<not> host_leaf N (hi_tree s) n" "\<not> evicted (hi_node s n)" by (simp_all add: host_leaf_def evicted_def)
  then show ?thesis by (simp add: update_host_leaf_status_def put_leaf_def discard_host_leaf_def)
next
  case True
  have r: "n \<noteq> hi_root s" using True tiers_basics(6) [OF t] by auto
  have l: "lockof (hi_tree s) n = 0" by (rule tiers_okD(3) [OF t n True])
  show ?thesis
  proof (cases "kids_of (hi_tree s) n = []")
    case True
    then have "host_leaf N (hi_tree s) n" using n r \<open>valof _ n = None\<close> by (simp add: host_leaf_def)
    then show ?thesis using l True \<open>valof _ n = None\<close>
      by (simp add: update_host_leaf_status_def put_leaf_def evicted_def)
  next
    case False
    then obtain c where c: "c \<in> set (dict_values (kids_of (hi_tree s) n))"
      by (cases "kids_of (hi_tree s) n") auto
    then have "list_ex (\<lambda>c. backuped (hi_node s c)) (dict_values (kids_of (hi_tree s) n))"
      using evicted_kids_backuped(2) [OF t n True c] unfolding list_ex_iff backuped_def by blast
    moreover have "\<not> host_leaf N (hi_tree s) n" using False by (simp add: host_leaf_def)
    ultimately show ?thesis using l True
      by (simp add: update_host_leaf_status_def put_leaf_def evicted_def discard_host_leaf_def)
  qed
qed

lemma put_leaf_fix:
  assumes "tiers_ok N L T hl0" and "distinct hl" and "set hl - {n} = {x. host_leaf N T x} - {n}"
  shows "tiers_ok N L T (put_leaf (host_leaf N T n) n hl)"
proof -
  have "set (put_leaf (host_leaf N T n) n hl) = {x. host_leaf N T x}"
    using assms(3) by auto
  then have "host_leaves_ok N T (put_leaf (host_leaf N T n) n hl)"
    unfolding host_leaves_ok_iff using put_leaf_simps(2) [OF assms(2)] by blast
  then show ?thesis by (rule tiers_ok_leaves [OF assms(1)])
qed

section \<open>Evicting host pages\<close>

text \<open>Host pages go: the part of the tree on the device is as before, and a node keeps all its fields but the children.\<close>

definition host_gone :: "nat set \<Rightarrow> radix \<Rightarrow> kv_index list list \<Rightarrow> nat set \<Rightarrow> radix \<Rightarrow> bool" where
  "host_gone N T freed M U \<longleftrightarrow> M \<subseteq> N \<and> (\<exists>f. U = T\<lparr>rc_store := f\<rparr>) \<and>
     (\<forall>n. (rc_store U n)\<lparr>nd_children := []\<rparr> = (rc_store T n)\<lparr>nd_children := []\<rparr>) \<and>
     dview M U = dview N T \<and> devs M U = devs N T \<and>
     host_slots N T = host_slots M U + mset (concat freed) \<and>
     (\<forall>n \<in> N - M. valof T n = None \<and> nd_host_ref (rc_store T n) \<le> 0) \<and>
     (\<forall>ek n us vs. n \<in> M \<longrightarrow> rpath (skel U) ek (rc_root T) n us vs = rpath (skel T) ek (rc_root T) n us vs) \<and>
     (\<forall>ek us vs. cached (skel U) ek us vs \<longrightarrow> cached (skel T) ek us vs)"

lemma host_goneD:
  assumes "host_gone N T freed M U"
  shows "M \<subseteq> N" "par U n = par T n" "keyof U n = keyof T n" "valof U n = valof T n" "lockof U n = lockof T n"
    "hostof U n = hostof T n" "nd_host_ref (rc_store U n) = nd_host_ref (rc_store T n)"
    "get_priority st (rc_store U n) = get_priority st (rc_store T n)"
    "dview M U = dview N T" "devs M U = devs N T" "host_slots N T = host_slots M U + mset (concat freed)"
    "n \<in> N \<Longrightarrow> n \<notin> M \<Longrightarrow> valof T n = None" "n \<in> N \<Longrightarrow> n \<notin> M \<Longrightarrow> nd_host_ref (rc_store T n) \<le> 0"
    "rc_root U = rc_root T" "rc_page_size U = rc_page_size T" "same_globals T U" "rc_counter U = rc_counter T" "rc_alloc U = rc_alloc T"
    "n \<in> M \<Longrightarrow> rpath (skel U) ek (rc_root T) n us vs = rpath (skel T) ek (rc_root T) n us vs"
    "cached (skel U) ek us vs \<Longrightarrow> cached (skel T) ek us vs"
proof -
  have e: "(rc_store U n)\<lparr>nd_children := []\<rparr> = (rc_store T n)\<lparr>nd_children := []\<rparr>" for n
    using assms unfolding host_gone_def by blast
  have f: "f (rc_store U n) = f (rc_store T n)" if "\<And>nd ks. f (nd\<lparr>nd_children := ks\<rparr>) = f nd" for n and f :: "tree_node \<Rightarrow> 'b"
  proof -
    have "f (rc_store U n) = f ((rc_store U n)\<lparr>nd_children := []\<rparr>)" by (simp only: that)
    also have "\<dots> = f (rc_store T n)" by (simp only: e that)
    finally show ?thesis .
  qed
  show "par U n = par T n" "keyof U n = keyof T n" "valof U n = valof T n" "lockof U n = lockof T n"
    "hostof U n = hostof T n" "nd_host_ref (rc_store U n) = nd_host_ref (rc_store T n)"
    "get_priority st (rc_store U n) = get_priority st (rc_store T n)"
    by (rule f, cases st, simp_all add: get_priority_def)+
  obtain g where u: "U = T\<lparr>rc_store := g\<rparr>" using assms unfolding host_gone_def by blast
  show "rc_root U = rc_root T" "rc_page_size U = rc_page_size T" "rc_counter U = rc_counter T" "rc_alloc U = rc_alloc T"
    "same_globals T U"
    by (simp_all add: u same_globals_def)
  show "M \<subseteq> N" "dview M U = dview N T" "devs M U = devs N T" "host_slots N T = host_slots M U + mset (concat freed)"
    using assms unfolding host_gone_def by blast+
  show "valof T n = None" "nd_host_ref (rc_store T n) \<le> 0" if "n \<in> N" "n \<notin> M"
    using assms that unfolding host_gone_def by blast+
  show "rpath (skel U) ek (rc_root T) n us vs = rpath (skel T) ek (rc_root T) n us vs" if "n \<in> M"
    using assms that unfolding host_gone_def by blast
  show "cached (skel T) ek us vs" if "cached (skel U) ek us vs"
    using assms that unfolding host_gone_def by blast
qed

lemma host_gone_refl: "host_gone N T [] N T"
  unfolding host_gone_def by (auto intro: exI [of _ "rc_store T"])

lemma host_gone_trans:
  assumes a: "host_gone N T f1 M U" and b: "host_gone M U f2 O' V"
  shows "host_gone N T (f1 @ f2) O' V"
  unfolding host_gone_def
proof (intro conjI allI ballI impI)
  obtain f g where "U = T\<lparr>rc_store := f\<rparr>" "V = U\<lparr>rc_store := g\<rparr>" using a b unfolding host_gone_def by blast
  then have "V = T\<lparr>rc_store := g\<rparr>" by simp
  then show "\<exists>f. V = T\<lparr>rc_store := f\<rparr>" by blast
  show "(rc_store V n)\<lparr>nd_children := []\<rparr> = (rc_store T n)\<lparr>nd_children := []\<rparr>" for n
    using a b unfolding host_gone_def by metis
  show "O' \<subseteq> N" "dview O' V = dview N T" "devs O' V = devs N T"
    using host_goneD(1,9,10) [OF a] host_goneD(1,9,10) [OF b] by auto
  show "host_slots N T = host_slots O' V + mset (concat (f1 @ f2))"
    using host_goneD(11) [OF a] host_goneD(11) [OF b] by (simp add: ac_simps)
  show "valof T n = None" "nd_host_ref (rc_store T n) \<le> 0" if "n \<in> N - O'" for n
    using host_goneD(12,13) [OF a, of n] host_goneD(12,13) [OF b, of n] that host_goneD(4,7) [OF a, of n] by auto
  show "rpath (skel V) ek (rc_root T) n us vs = rpath (skel T) ek (rc_root T) n us vs" if "n \<in> O'" for ek n us vs
    using host_goneD(19) [OF a, of n] host_goneD(19) [OF b that] host_goneD(1) [OF b] that host_goneD(14) [OF a] by auto
  show "cached (skel T) ek us vs" if "cached (skel V) ek us vs" for ek us vs
    using host_goneD(20) [OF a host_goneD(20) [OF b that]] .
qed

lemma filter_dict_pop_gone:
  assumes "dict_ok d" and "dict_get d k = Some x" and "x \<notin> A"
  shows "filter (\<lambda>p. snd p \<in> A) (dict_pop k d) = filter (\<lambda>p. snd p \<in> A) d"
proof -
  have "snd p \<notin> A" if "p \<in> set d" "fst p = k" for p
    using that assms dict_get_iff_in [OF assms(1), of k "snd p"] by (cases p) auto
  then have "filter (\<lambda>p. snd p \<in> A \<and> fst p \<noteq> k) d = filter (\<lambda>p. snd p \<in> A) d" by (intro filter_cong) auto
  then show ?thesis by (simp add: dict_pop_def conj_commute)
qed

lemma finite_host_leaves:
  assumes "finite N"
  obtains hl where "host_leaves_ok N T hl"
proof -
  have "finite {n. host_leaf N T n}" by (rule finite_subset [OF _ assms]) (auto simp: host_leaf_def)
  then show ?thesis using that finite_distinct_list unfolding host_leaves_ok_iff by blast
qed

definition drop_child :: "nat \<Rightarrow> nat \<Rightarrow> radix \<Rightarrow> radix" where
  "drop_child x p T = upd_node p (\<lambda>pn. pn\<lparr>nd_children := dict_pop (ckey (rc_page_size T) (keyof T x)) (nd_children pn)\<rparr>) T"

lemma drop_child_simps [simp]:
  "par (drop_child x p T) n = par T n" "keyof (drop_child x p T) n = keyof T n" "valof (drop_child x p T) n = valof T n"
  "lockof (drop_child x p T) n = lockof T n" "hostof (drop_child x p T) n = hostof T n"
  "nd_host_ref (rc_store (drop_child x p T) n) = nd_host_ref (rc_store T n)"
  "kids_of (drop_child x p T) n = (if n = p then dict_pop (ckey (rc_page_size T) (keyof T x)) (kids_of T p) else kids_of T n)"
  "rc_root (drop_child x p T) = rc_root T" "rc_page_size (drop_child x p T) = rc_page_size T"
  "rc_is_eagle (drop_child x p T) = rc_is_eagle T" "rc_counter (drop_child x p T) = rc_counter T"
  "rc_disable (drop_child x p T) = rc_disable T" "rc_events (drop_child x p T) = rc_events T" "rc_alloc (drop_child x p T) = rc_alloc T"
  "same_globals T (drop_child x p T)"
  by (auto simp: drop_child_def upd_node_def same_globals_def)

lemma detach_skel:
  assumes "kids_of U = (kids_of T)(p := dict_pop (ckey (rc_page_size T) (keyof T x)) (kids_of T p))"
    "par U = par T" "keyof U = keyof T" "lockof U = lockof T" "same_globals T U" "rc_counter U = rc_counter T"
  shows "detach_effect (skel T) x p ((skel U)\<lparr>rc_evictable_size := rc_evictable_size T - int (rk_len (keyof T x)),
    rc_protected_size := rc_protected_size T\<rparr>)"
  using assms by (simp add: detach_effect_def fun_eq_iff same_globals_def)

lemma skel_detach:
  assumes st: "struct_ok N (skel T)" and x: "x \<in> N" "x \<noteq> rc_root T" "kids_of T x = []" and p: "par T x = Some p"
    and U: "kids_of U = (kids_of T)(p := dict_pop (ckey (rc_page_size T) (keyof T x)) (kids_of T p))"
    "par U = par T" "keyof U = keyof T" "lockof U = lockof T" "same_globals T U" "rc_counter U = rc_counter T"
  shows "struct_ok (N - {x}) (skel U)"
    "a \<in> N - {x} \<Longrightarrow> n \<in> N - {x} \<Longrightarrow> rpath (skel U) ek a n us vs = rpath (skel T) ek a n us vs"
    "cached (skel U) ek us vs \<Longrightarrow> cached (skel T) ek us vs"
proof -
  let ?V = "(skel U)\<lparr>rc_evictable_size := rc_evictable_size T - int (rk_len (keyof T x)), rc_protected_size := rc_protected_size T\<rparr>"
  note eff = detach_skel [OF U]
  have x': "x \<noteq> rc_root (skel T)" "kids_of (skel T) x = []" "par (skel T) x = Some p" using x p by simp_all
  have sv: "struct_ok (N - {x}) ?V" by (rule detach_struct [OF st x(1) x' eff])
  have eq: "live_eq (N - {x}) ?V (skel U)" by (simp add: live_eq_def)
  show "struct_ok (N - {x}) (skel U)" by (rule struct_ok_live [OF sv eq])
  show "rpath (skel U) ek a n us vs = rpath (skel T) ek a n us vs" if "a \<in> N - {x}" "n \<in> N - {x}"
    using detach_rpath [OF st x(1) x' eff, of a n] that rpath_live_eq [OF sv eq that(1)] by blast
  show "cached (skel T) ek us vs" if "cached (skel U) ek us vs"
    using detach_cached [OF st x(1) x' eff] that cached_live_eq [OF sv eq] by blast
qed

lemma drop_child_devs:
  assumes t: "tiers_ok N L T hl" and x: "x \<in> N" "valof T x = None" and p: "par T x = Some p"
  shows "devs (N - {x}) (drop_child x p T) = devs N T" "dview (N - {x}) (drop_child x p T) = dview N T"
proof -
  show d: "devs (N - {x}) (drop_child x p T) = devs N T" using x(2) by (auto simp: devs_def)
  have r: "x \<noteq> rc_root T" using x(2) tiers_basics(6) [OF t] by auto
  have ok: "dict_ok (kids_of T p)" by (rule tiers_kids(1) [OF t tiers_parentD(1) [OF t x(1) r p]])
  have "x \<notin> devs N T" using x(2) by (simp add: devs_def)
  note gone = filter_dict_pop_gone [OF ok tiers_parentD(4) [OF t x(1) r p] this]
  have "dview (N - {x}) (drop_child x p T) = T\<lparr>rc_store := \<lambda>n. (rc_store (drop_child x p T) n)\<lparr>nd_children :=
      if n \<in> devs N T then filter (\<lambda>q. snd q \<in> devs N T) (kids_of (drop_child x p T) n) else []\<rparr>\<rparr>"
    unfolding dview_def d by (simp add: drop_child_def upd_node_def)
  also have "\<dots> = dview N T"
    unfolding dview_def by (intro arg_cong [where f = "\<lambda>g. T\<lparr>rc_store := g\<rparr>"] ext) (simp add: drop_child_def upd_node_def gone)
  finally show "dview (N - {x}) (drop_child x p T) = dview N T" .
qed

lemma host_slots_minus:
  assumes "finite N" and "x \<in> N" "x \<noteq> rc_root T" and "hostof T x = Some h"
    and "\<And>n. hostof U n = hostof T n" "rc_root U = rc_root T"
  shows "host_slots N T = host_slots (N - {x}) U + mset (concat [h])"
proof -
  have "N - {rc_root T} = insert x (N - {x} - {rc_root T})" using assms(2,3) by blast
  then show ?thesis using assms(1,4) by (simp add: host_slots_def assms(5,6))
qed

lemma drop_child_tiers:
  assumes t: "tiers_ok N L T hl" and x: "host_leaf N T x" and p: "par T x = Some p"
  obtains hl' where "tiers_ok (N - {x}) L (drop_child x p T) hl'"
proof -
  have x': "x \<in> N" "x \<noteq> rc_root T" "valof T x = None" "kids_of T x = []" using x by (auto simp: host_leaf_def)
  have st: "struct_ok (N - {x}) (skel (drop_child x p T))"
    by (rule skel_detach(1) [OF tiers_okD(1) [OF t] x'(1,2,4) p]) (simp_all add: fun_eq_iff)
  obtain hl' where "host_leaves_ok (N - {x}) (drop_child x p T) hl'"
    by (rule finite_host_leaves [of "N - {x}"]) (use tiers_basics(2) [OF t] in blast)
  then have "tiers_ok (N - {x}) L (drop_child x p T) hl'"
    unfolding tiers_ok_def using st drop_child_devs [OF t x'(1,3) p] tiers_okD(2-9) [OF t]
    by (simp add: host_node_ok_def)
  then show ?thesis by (rule that)
qed

lemma drop_child_gone:
  assumes t: "tiers_ok N L T hl" and x: "host_leaf N T x" and p: "par T x = Some p" and h: "hostof T x = Some h"
    and ref: "nd_host_ref (rc_store T x) \<le> 0"
  shows "host_gone N T [h] (N - {x}) (drop_child x p T)"
  unfolding host_gone_def
proof (intro conjI allI ballI impI)
  have x': "x \<in> N" "x \<noteq> rc_root T" "valof T x = None" "kids_of T x = []" using x by (auto simp: host_leaf_def)
  show "\<exists>f. drop_child x p T = T\<lparr>rc_store := f\<rparr>" by (auto simp: drop_child_def upd_node_def)
  show "(rc_store (drop_child x p T) n)\<lparr>nd_children := []\<rparr> = (rc_store T n)\<lparr>nd_children := []\<rparr>" for n
    by (simp add: drop_child_def upd_node_def)
  show "devs (N - {x}) (drop_child x p T) = devs N T" "dview (N - {x}) (drop_child x p T) = dview N T"
    by (rule drop_child_devs [OF t x'(1,3) p])+
  show "host_slots N T = host_slots (N - {x}) (drop_child x p T) + mset (concat [h])"
    by (rule host_slots_minus [OF tiers_basics(2) [OF t] x'(1,2) h]) simp_all
  have r: "rc_root T \<in> N - {x}" using tiers_basics(1) [OF t] x'(2) by blast
  show "rpath (skel (drop_child x p T)) ek (rc_root T) n us vs = rpath (skel T) ek (rc_root T) n us vs"
    if "n \<in> N - {x}" for ek n us vs
    by (rule skel_detach(2) [OF tiers_okD(1) [OF t] x'(1,2,4) p _ _ _ _ _ _ r that]) (simp_all add: fun_eq_iff)
  show "cached (skel T) ek us vs" if "cached (skel (drop_child x p T)) ek us vs" for ek us vs
    by (rule skel_detach(3) [OF tiers_okD(1) [OF t] x'(1,2,4) p _ _ _ _ _ _ that]) (simp_all add: fun_eq_iff)
qed (use x ref in \<open>auto simp: host_leaf_def\<close>)

lemma hi_events_silent [simp]:
  "\<not> rc_events (hi_tree s) \<Longrightarrow> hi_remove_event n md s = Some (Inr (), s)"
  "\<not> rc_events (hi_tree s) \<Longrightarrow> hi_store_event n md s = Some (Inr (), s)"
  by (simp_all add: hi_remove_event_def hi_store_event_def on_tree_def remove_event_silent record_store_event_def)

lemma tiers_child_key:
  assumes "tiers_ok N L T hl" and "x \<in> N" "x \<noteq> rc_root T"
  shows "child_key (rc_page_size T) (keyof T x) = Inr (ckey (rc_page_size T) (keyof T x))"
  using child_key_node [OF tiers_okD(1) [OF assms(1)]] assms(2,3) by simp

lemma evict_host_one_live:
  assumes t: "tiers_ok N L (hi_tree s) (hi_host_leaves s)" and x: "x \<in> set (hi_host_leaves s)"
  obtains h p hl' where "hostof (hi_tree s) x = Some h" "par (hi_tree s) x = Some p" "p \<in> N - {x}"
    "evict_host_one x s = Some (Inr (length h, p),
       s\<lparr>hi_tree := drop_child x p (hi_tree s), hi_host_free := hi_host_free s @ h, hi_host_leaves := hl'\<rparr>)"
    "tiers_ok (N - {x}) L (drop_child x p (hi_tree s)) hl'"
    "set hl' = set (hi_host_leaves s) - {x} \<union> (if host_leaf (N - {x}) (drop_child x p (hi_tree s)) p then {p} else {})"
proof -
  let ?T = "hi_tree s"
  have leaves: "set (hi_host_leaves s) = {n. host_leaf N ?T n}" "distinct (hi_host_leaves s)"
    using tiers_okD(7) [OF t] by (simp_all add: host_leaves_ok_iff)
  have hx: "host_leaf N ?T x" using x leaves(1) by blast
  then have x': "x \<in> N" "x \<noteq> rc_root ?T" "valof ?T x = None" "kids_of ?T x = []" by (auto simp: host_leaf_def)
  obtain p where p: "p \<in> N" "par ?T x = Some p" by (rule tiers_parent [OF t x'(1,2)])
  note pd = tiers_parentD [OF t x'(1,2) p(2)]
  obtain h where h: "hostof ?T x = Some h" using tiers_okD(4) [OF t x'(1,2)] x'(3) by (auto simp: host_node_ok_def)
  obtain hl0 where t0: "tiers_ok (N - {x}) L (drop_child x p ?T) hl0" by (rule drop_child_tiers [OF t hx p(2)])
  have pN: "p \<in> N - {x}" using p(1) pd(2) by blast
  let ?b = "host_leaf (N - {x}) (drop_child x p ?T) p"
  let ?hl = "put_leaf ?b p (removeAll x (hi_host_leaves s))"
  let ?s1 = "s\<lparr>hi_tree := drop_child x p ?T, hi_host_free := hi_host_free s @ h, hi_host_leaves := removeAll x (hi_host_leaves s)\<rparr>"
  have u: "update_host_leaf_status p ?s1 = ?s1\<lparr>hi_host_leaves := ?hl\<rparr>"
    using update_host_leaf_status_eq [of "N - {x}" L ?s1 hl0 p] t0 pN by simp
  have "evict_host_one x s = Some (Inr (length h, p), update_host_leaf_status p
      (s\<lparr>hi_host_free := hi_host_free s @ h, hi_tree := drop_child x p ?T, hi_host_leaves := removeAll x (hi_host_leaves s)\<rparr>))"
    using tiers_okD(9) [OF t] h p(2) tiers_child_key [OF t x'(1,2)] pd(4)
    by (simp add: evict_host_one_def Let_def hi_host_release_def discard_host_leaf_def upd_tree_def drop_child_def)
  also have "s\<lparr>hi_host_free := hi_host_free s @ h, hi_tree := drop_child x p ?T, hi_host_leaves := removeAll x (hi_host_leaves s)\<rparr> = ?s1"
    by simp
  finally have run: "evict_host_one x s = Some (Inr (length h, p),
       s\<lparr>hi_tree := drop_child x p ?T, hi_host_free := hi_host_free s @ h, hi_host_leaves := ?hl\<rparr>)"
    unfolding u by simp
  have other: "host_leaf (N - {x}) (drop_child x p ?T) n \<longleftrightarrow> n \<noteq> x \<and> host_leaf N ?T n" if "n \<noteq> p" for n
    using that by (auto simp: host_leaf_def)
  have "\<not> host_leaf N ?T p" using pd(6) by (simp add: host_leaf_def)
  then have "set ?hl = set (hi_host_leaves s) - {x} \<union> (if ?b then {p} else {})" using leaves(1) by auto
  moreover have "tiers_ok (N - {x}) L (drop_child x p ?T) ?hl"
    by (rule put_leaf_fix [OF t0]) (use leaves other in \<open>auto simp: distinct_removeAll\<close>)
  ultimately show ?thesis using that h p(2) pN run by blast
qed

definition hheap_ok :: "'v hi \<Rightarrow> eviction_heap \<Rightarrow> bool" where
  "hheap_ok s hp \<longleftrightarrow> distinct (map snd hp) \<and> set (map snd hp) \<subseteq> set (hi_host_leaves s) \<and>
     (\<forall>x \<in> set (hi_host_leaves s). nd_host_ref (hi_node s x) \<le> 0 \<longrightarrow> x \<in> set (map snd hp))"

definition host_evicted :: "nat \<Rightarrow> nat \<Rightarrow> nat set \<Rightarrow> (nat \<Rightarrow> nat) \<Rightarrow> 'v hi \<Rightarrow> (unit, 'v hi) outcome \<Rightarrow> bool" where
  "host_evicted num_tokens num_evicted N L s out \<longleftrightarrow>
     (\<exists>M U hl freed. out = Some (Inr (), s\<lparr>hi_tree := U, hi_host_free := hi_host_free s @ concat freed, hi_host_leaves := hl\<rparr>) \<and>
        tiers_ok M L U hl \<and> host_gone N (hi_tree s) freed M U \<and>
        (num_tokens \<le> num_evicted + length (concat freed) \<or> (\<forall>x \<in> set hl. 0 < nd_host_ref (rc_store U x))))"

lemma host_evictedI:
  assumes "out = Some (Inr (), s\<lparr>hi_tree := U, hi_host_free := hi_host_free s @ concat freed, hi_host_leaves := hl\<rparr>)"
    "tiers_ok M L U hl" "host_gone N (hi_tree s) freed M U"
    "num_tokens \<le> num_evicted + length (concat freed) \<or> (\<forall>x \<in> set hl. 0 < nd_host_ref (rc_store U x))"
  shows "host_evicted num_tokens num_evicted N L s out"
  using assms unfolding host_evicted_def by blast

lemma host_evicted_step:
  assumes "host_gone N (hi_tree s) [h] M U"
    and "host_evicted k (e + length h) M L (s\<lparr>hi_tree := U, hi_host_free := hi_host_free s @ h, hi_host_leaves := hl\<rparr>) out"
  shows "host_evicted k e N L s out"
proof -
  obtain M' U' hl' f where r: "out = Some (Inr (), s\<lparr>hi_tree := U', hi_host_free := hi_host_free s @ concat (h # f), hi_host_leaves := hl'\<rparr>)"
    "tiers_ok M' L U' hl'" "host_gone M U f M' U'"
    "k \<le> e + length (concat (h # f)) \<or> (\<forall>x \<in> set hl'. 0 < nd_host_ref (rc_store U' x))"
    using assms(2) unfolding host_evicted_def by (auto simp: ac_simps)
  show ?thesis by (rule host_evictedI [OF r(1,2) _ r(4)]) (use host_gone_trans [OF assms(1) r(3)] in simp)
qed

lemma evict_host_loop_live:
  assumes "tiers_ok N L (hi_tree s) (hi_host_leaves s)" and "hheap_ok s hp" and "picks_element (hi_pick s)"
  shows "host_evicted num_tokens num_evicted N L s (evict_host_loop num_tokens hp num_evicted s)"
  using assms
proof (induction "card N + length hp" arbitrary: N hp num_evicted s rule: less_induct)
  case less
  note t = less.prems(1)
  let ?T = "hi_tree s"
  have heap: "distinct (map snd hp)" "snd ` set hp \<subseteq> set (hi_host_leaves s)"
    "\<And>x. x \<in> set (hi_host_leaves s) \<Longrightarrow> nd_host_ref (hi_node s x) \<le> 0 \<Longrightarrow> x \<in> snd ` set hp"
    using less.prems(2) by (auto simp: hheap_ok_def)
  show ?case
  proof (cases "num_evicted < num_tokens \<and> hp \<noteq> []")
    case False
    have "num_tokens \<le> num_evicted \<or> (\<forall>x \<in> set (hi_host_leaves s). 0 < nd_host_ref (hi_node s x))"
      using False heap(3) by force
    moreover have "evict_host_loop num_tokens hp num_evicted s = Some (Inr (), s)"
      by (subst evict_host_loop.simps) (simp only: False if_False)
    ultimately show ?thesis by (intro host_evictedI [OF _ t host_gone_refl]) simp_all
  next
    case True
    define i where "i = hi_pick s hp"
    define x where "x = snd (hp ! i)"
    define hp1 where "hp1 = take i hp @ drop (Suc i) hp"
    have i: "i < length hp" using less.prems(3) True by (simp add: picks_element_def i_def)
    note pop = heap_pop_split [OF i heap(1), folded x_def hp1_def]
    have len: "length hp1 < length hp" using i by (simp add: hp1_def)
    have xl: "x \<in> set (hi_host_leaves s)" using heap(2) i by (auto simp: x_def)
    have hx: "host_leaf N ?T x" using xl tiers_okD(7) [OF t] by (auto simp: host_leaves_ok_iff)
    have step: "evict_host_loop num_tokens hp num_evicted s =
      (if 0 < nd_host_ref (hi_node s x) then evict_host_loop num_tokens hp1 num_evicted s
       else andThen (evict_host_one x s) (\<lambda>(l, p) s1.
         let pn = hi_node s1 p;
             hp2 = (if nd_children pn = [] \<and> evicted pn
                    then hp1 @ [(get_priority (rc_strategy (hi_tree s1)) pn, p)] else hp1)
         in evict_host_loop num_tokens hp2 (num_evicted + l) s1))"
      using True hx by (subst evict_host_loop.simps)
        (simp add: heap_pop_def x_def [symmetric] hp1_def [symmetric] i_def [symmetric] host_leaf_def evicted_def)
    show ?thesis
    proof (cases "0 < nd_host_ref (hi_node s x)")
      case True
      then have "hheap_ok s hp1" using pop heap by (auto simp: hheap_ok_def)
      then show ?thesis unfolding step using True less.hyps [of N hp1 s num_evicted] t less.prems(3) len by simp
    next
      case False
      obtain h p hl' where e: "hostof ?T x = Some h" "par ?T x = Some p" "p \<in> N - {x}"
        "evict_host_one x s = Some (Inr (length h, p),
           s\<lparr>hi_tree := drop_child x p ?T, hi_host_free := hi_host_free s @ h, hi_host_leaves := hl'\<rparr>)"
        "tiers_ok (N - {x}) L (drop_child x p ?T) hl'"
        "set hl' = set (hi_host_leaves s) - {x} \<union> (if host_leaf (N - {x}) (drop_child x p ?T) p then {p} else {})"
        by (rule evict_host_one_live [OF t xl])
      let ?s1 = "s\<lparr>hi_tree := drop_child x p ?T, hi_host_free := hi_host_free s @ h, hi_host_leaves := hl'\<rparr>"
      let ?pn = "hi_node ?s1 p"
      define hp2 where "hp2 = (if kids_of (drop_child x p ?T) p = [] \<and> valof ?T p = None
        then hp1 @ [(get_priority (rc_strategy (hi_tree ?s1)) ?pn, p)] else hp1)"
      have gone: "host_gone N ?T [h] (N - {x}) (drop_child x p ?T)"
        by (rule drop_child_gone [OF t hx e(2,1)]) (use False in simp)
      have p0: "p \<notin> set (hi_host_leaves s)"
        using tiers_okD(7) [OF t] tiers_parentD(6) [OF t _ _ e(2)] hx by (auto simp: host_leaves_ok_iff host_leaf_def)
      have leaf: "host_leaf (N - {x}) (drop_child x p ?T) p \<longleftrightarrow> kids_of (drop_child x p ?T) p = [] \<and> valof ?T p = None"
        using e(3) tiers_basics(6) [OF t] by (auto simp: host_leaf_def)
      have "hheap_ok ?s1 hp2"
        using pop heap p0 e(6) unfolding hheap_ok_def hp2_def leaf by auto
      moreover have "card (N - {x}) + length hp2 < card N + length hp"
        using len card_Diff1_less [OF tiers_basics(2) [OF t], of x] hx by (auto simp: hp2_def host_leaf_def)
      ultimately have "host_evicted num_tokens (num_evicted + length h) (N - {x}) L ?s1
        (evict_host_loop num_tokens hp2 (num_evicted + length h) ?s1)"
        using less.hyps [of "N - {x}" hp2 ?s1] e(5) less.prems(3) by simp
      then have "host_evicted num_tokens num_evicted N L s (evict_host_loop num_tokens hp2 (num_evicted + length h) ?s1)"
        by (rule host_evicted_step [OF gone])
      then show ?thesis unfolding step using False e(4) by (simp add: hp2_def evicted_def Let_def)
    qed
  qed
qed

lemma hi_evict_host_live:
  assumes "tiers_ok N L (hi_tree s) (hi_host_leaves s)" and "picks_element (hi_pick s)"
  shows "host_evicted num_tokens 0 N L s (hi_evict_host num_tokens s)"
proof -
  have m: "map snd (heap_of (hi_host_leaves s) s) = hi_host_leaves s" by (simp add: heap_of_def comp_def)
  have "hheap_ok s (heap_of (hi_host_leaves s) s)"
    using tiers_okD(7) [OF assms(1)] unfolding hheap_ok_def m by (simp add: host_leaves_ok_def)
  then show ?thesis unfolding hi_evict_host_def by (rule evict_host_loop_live [OF assms(1) _ assms(2)])
qed

end
