(* ===== verification/Hi_State.thy ===== *)
theory Hi_State
  imports Hi_Host
begin

text \<open>
  The invariant of the hierarchical prefix cache: the tree with its two tiers, the transfers in
  flight, the protection of host pages and the slots of the host pool. \<open>E\<close> counts the locks that
  requests hold, \<open>H\<close> the host slots that prefetches hold.
\<close>

section \<open>Configuration and transfers\<close>

definition io_ok :: "string \<Rightarrow> string \<Rightarrow> bool" where
  "io_ok io layout \<longleftrightarrow> io = ''kernel'' \<or> io = ''kernel_ascend'' \<or>
     (io = ''direct'' \<and> (layout = ''layer_first'' \<or> layout = ''page_first_direct''))"

definition hi_cfg :: "'v hi \<Rightarrow> bool" where
  "hi_cfg s \<longleftrightarrow> hi_write_policy s \<noteq> ''write_back'' \<and> io_ok (hi_io_backend s) (hi_layout s) \<and> picks_element (hi_pick s)"

lemma move_indices_ok:
  assumes "io_ok io layout" and "length host = length dev"
  obtains h d where "move_indices io layout host dev = Inr (h, d)" "mset (zip h d) = mset (zip host dev)" "length h = length d"
proof (cases "io = ''direct'' \<and> layout = ''layer_first''")
  case True
  let ?ps = "sort_key fst (zip host dev)"
  have "move_indices io layout host dev = Inr (map fst ?ps, map snd ?ps)" using True by (simp add: move_indices_def Let_def)
  then show ?thesis by (rule that) (simp_all add: zip_map_fst_snd)
next
  case False
  then have "move_indices io layout host dev = Inr (host, dev)" using assms(1) by (auto simp: move_indices_def io_ok_def)
  then show ?thesis using that assms(2) by blast
qed

text \<open>Transfers in flight are known by the identifier of their node, and each is acknowledged once.\<close>

definition transfers_ok :: "nat set \<Rightarrow> radix \<Rightarrow> nat \<Rightarrow> (nat, nat) dict \<Rightarrow> nat list \<Rightarrow> bool" where
  "transfers_ok N T base d ids \<longleftrightarrow> dict_ok d \<and> mset ids = mset (dict_keys d) \<and>
     (\<forall>(i, n) \<in> set d. n \<in> devs N T \<and> n \<noteq> rc_root T \<and> hostof T n \<noteq> None \<and> i = n - base)"

definition inflight :: "'v hi \<Rightarrow> nat \<Rightarrow> nat" where
  "inflight s n = count_list (dict_values (hi_ongoing_write_through s)) n + count_list (dict_values (hi_ongoing_load_back s)) n"

definition host_refs :: "'v hi \<Rightarrow> nat \<Rightarrow> nat" where
  "host_refs s n = count_list (map fst (dict_values (hi_ongoing_prefetch s))) n + count_list (dict_values (hi_ongoing_backup s)) n"

definition refs_ok :: "nat set \<Rightarrow> 'v hi \<Rightarrow> bool" where
  "refs_ok N s \<longleftrightarrow> dict_ok (hi_ongoing_prefetch s) \<and> dict_ok (hi_ongoing_backup s) \<and>
     (\<forall>i \<in> set (dict_keys (hi_ongoing_backup s)). i < cc_next_id (hi_ctl s)) \<and>
     (\<forall>n. 0 < host_refs s n \<longrightarrow> n \<in> N \<and> hostof (hi_tree s) n \<noteq> None) \<and>
     (\<forall>n \<in> N. nd_host_ref (hi_node s n) = host_refs s n)"

text \<open>The backup invariant of \<^verbatim>\<open>write_backup\<close>: backed-up nodes form a contiguous prefix from the root.\<close>

definition contig :: "nat set \<Rightarrow> radix \<Rightarrow> bool" where
  "contig N T \<longleftrightarrow> (\<forall>n \<in> N. \<forall>p. par T n = Some p \<longrightarrow> hostof T n \<noteq> None \<longrightarrow> hostof T p \<noteq> None)"

definition hi_ok :: "nat set \<Rightarrow> (nat \<Rightarrow> nat) \<Rightarrow> kv_index multiset \<Rightarrow> 'v hi \<Rightarrow> bool" where
  "hi_ok N E H s \<longleftrightarrow>
     tiers_ok N (\<lambda>n. E n + inflight s n) (hi_tree s) (hi_host_leaves s) \<and>
     transfers_ok N (hi_tree s) (hi_id_base s) (hi_ongoing_write_through s) (concat (hi_ack_write s)) \<and>
     transfers_ok N (hi_tree s) (hi_id_base s) (hi_ongoing_load_back s) (map (snd \<circ> snd) (hi_load_queue s) @ concat (hi_ack_load s)) \<and>
     (\<forall>n \<in> N. hi_id_base s \<le> n) \<and> refs_ok N s \<and>
     mset (hi_host_free s) + host_slots N (hi_tree s) + H = mset (map int [0..<hi_host_size s]) \<and>
     hi_cfg s \<and> (\<not> hi_enable_storage s \<longrightarrow> contig N (hi_tree s))"

lemma hi_okD:
  assumes "hi_ok N E H s"
  shows "tiers_ok N (\<lambda>n. E n + inflight s n) (hi_tree s) (hi_host_leaves s)"
    "transfers_ok N (hi_tree s) (hi_id_base s) (hi_ongoing_write_through s) (concat (hi_ack_write s))"
    "transfers_ok N (hi_tree s) (hi_id_base s) (hi_ongoing_load_back s) (map (snd \<circ> snd) (hi_load_queue s) @ concat (hi_ack_load s))"
    "n \<in> N \<Longrightarrow> hi_id_base s \<le> n" "refs_ok N s"
    "mset (hi_host_free s) + host_slots N (hi_tree s) + H = mset (map int [0..<hi_host_size s])"
    "hi_cfg s" "\<not> hi_enable_storage s \<Longrightarrow> contig N (hi_tree s)"
  using assms unfolding hi_ok_def by blast+

lemma hi_cfgD:
  assumes "hi_ok N E H s"
  shows "hi_write_policy s \<noteq> ''write_back''" "io_ok (hi_io_backend s) (hi_layout s)" "picks_element (hi_pick s)"
  using hi_okD(7) [OF assms] by (simp_all add: hi_cfg_def)

section \<open>The part on the device\<close>

text \<open>The device part of the tree stays: nodes, edges, keys and slots; locks may change.\<close>

definition dsame :: "nat set \<Rightarrow> radix \<Rightarrow> nat set \<Rightarrow> radix \<Rightarrow> bool" where
  "dsame N T M U \<longleftrightarrow> devs M U = devs N T \<and> same_globals T U \<and> rc_alloc U = rc_alloc T \<and> rc_counter T \<le> rc_counter U \<and>
     (\<forall>n \<in> devs N T. kids_of (dview M U) n = kids_of (dview N T) n \<and> par U n = par T n \<and> keyof U n = keyof T n \<and> valof U n = valof T n)"

lemma dsameD:
  assumes "dsame N T M U"
  shows "devs M U = devs N T" "same_globals T U" "rc_alloc U = rc_alloc T" "rc_counter T \<le> rc_counter U"
    "n \<in> devs N T \<Longrightarrow> kids_of (dview M U) n = kids_of (dview N T) n" "n \<in> devs N T \<Longrightarrow> par U n = par T n"
    "n \<in> devs N T \<Longrightarrow> keyof U n = keyof T n" "n \<in> devs N T \<Longrightarrow> valof U n = valof T n"
    "rc_root U = rc_root T" "rc_page_size U = rc_page_size T"
  using assms unfolding dsame_def same_globals_def by blast+

lemma dsame_refl [simp]: "dsame N T N T"
  by (simp add: dsame_def)

lemma dsame_trans:
  assumes a: "dsame N T M U" and b: "dsame M U O' V"
  shows "dsame N T O' V"
  unfolding dsame_def
proof (intro conjI ballI)
  show "same_globals T V" by (rule same_globals_trans [OF dsameD(2) [OF a] dsameD(2) [OF b]])
  show "rc_counter T \<le> rc_counter V" using dsameD(4) [OF a] dsameD(4) [OF b] by linarith
  show "devs O' V = devs N T" "rc_alloc V = rc_alloc T"
    using dsameD(1,3) [OF a] dsameD(1,3) [OF b] by simp_all
  fix n assume n: "n \<in> devs N T"
  then have m: "n \<in> devs M U" by (simp only: dsameD(1) [OF a])
  show "kids_of (dview O' V) n = kids_of (dview N T) n" using dsameD(5) [OF a n] dsameD(5) [OF b m] by (rule trans [rotated])
  show "par V n = par T n" "keyof V n = keyof T n" "valof V n = valof T n"
    using dsameD(6-8) [OF a n] dsameD(6-8) [OF b m] by simp_all
qed

lemma dsame_gone:
  assumes g: "host_gone N T f M U"
  shows "dsame N T M U"
  unfolding dsame_def using host_goneD(2-4,9,10,16-18) [OF g] by simp

lemma dsame_nodes:
  assumes "same_nodes T U"
  shows "dsame N T N U"
  using same_nodesD [OF assms] unfolding dsame_def by simp

lemma dsame_shape:
  assumes "same_shape T U"
  shows "dsame N T N U"
  unfolding dsame_def same_shape_views(1) [OF assms] same_shape_fields(1) [OF same_shape_views(2) [OF assms]]
  using same_shape_fields(2-4,9,10) [OF assms] same_shape_globals [OF assms] by simp

lemma same_globals_dview: "same_globals T U \<Longrightarrow> rc_root U = rc_root T \<and> rc_page_size U = rc_page_size T \<and> rc_is_eagle U = rc_is_eagle T"
  by (simp add: same_globals_def)

lemma rpath_fields_imp:
  assumes "rpath s ek a n us vs"
    and e: "\<And>n. kids_of t n = kids_of s n" "\<And>n. keyof t n = keyof s n" "\<And>n. valof t n = valof s n"
  shows "rpath t ek a n us vs"
  using assms(1)
proof (induction rule: rpath.induct)
  case (cons a ck c v n us vs)
  then show ?case using rpath.cons [of t a ck c ek v n us vs] e by simp
qed (rule rpath.nil)

lemma rpath_fields:
  assumes "\<And>n. kids_of t n = kids_of s n" "\<And>n. keyof t n = keyof s n" "\<And>n. valof t n = valof s n"
  shows "rpath t ek a n us vs = rpath s ek a n us vs"
  using rpath_fields_imp [of s ek a n us vs t] rpath_fields_imp [of t ek a n us vs s] assms by auto

text \<open>What such a step keeps: paths and contents of the device part.\<close>

lemma dsame_keeps:
  assumes t: "tiers_ok N L T hl" and u: "tiers_ok M L' U hl'" and d: "dsame N T M U"
  shows "a \<in> devs N T \<Longrightarrow> rpath U ek a n us vs = rpath T ek a n us vs" "cached U ek us vs = cached T ek us vs"
    "slots (devs M U) U = slots (devs N T) T"
proof -
  let ?D = "dview N T" and ?C = "(dview M U)"
  have sd: "struct_ok (devs N T) ?D" by (rule tiers_okD(10) [OF t])
  have g: "rc_root U = rc_root T" "rc_page_size U = rc_page_size T" "rc_is_eagle U = rc_is_eagle T"
    using same_globals_dview [OF dsameD(2) [OF d]] by simp_all
  define C where "C = ?C\<lparr>rc_store := (\<lambda>n. (rc_store ?C n)\<lparr>nd_lock_ref := lockof T n\<rparr>)\<rparr>"
  have eq: "live_eq (devs N T) ?D C"
    unfolding live_eq_def using dsameD(4) [OF d] dsameD(5-8) [OF d] g by (simp add: C_def)
  have rp: "rpath C ek a n us vs = rpath ?C ek a n us vs" for ek a n us vs
    by (rule rpath_fields) (simp_all add: C_def)
  show r: "rpath U ek a n us vs = rpath T ek a n us vs" if a: "a \<in> devs N T" for a ek n us vs
    using rpath_live_eq [OF sd eq a] rp rpath_dview [OF t a] rpath_dview [OF u, of a] a dsameD(1) [OF d] by simp
  show "cached U ek us vs = cached T ek us vs"
    unfolding cached_def g using r tiers_basics(4) [OF t] by simp
  show "slots (devs M U) U = slots (devs N T) T"
    unfolding slots_def g dsameD(1) [OF d] by (rule sum.cong) (use dsameD(8) [OF d] in auto)
qed

section \<open>Steps on host pages\<close>

lemma transfers_ok_mono:
  assumes "transfers_ok N T base d ids" and "devs N T \<subseteq> devs M U" and "rc_root U = rc_root T"
    and "\<And>n. n \<in> devs N T \<Longrightarrow> hostof T n \<noteq> None \<Longrightarrow> hostof U n \<noteq> None"
  shows "transfers_ok M U base d ids"
  unfolding transfers_ok_def
proof (intro conjI ballI, goal_cases)
  case (3 x)
  obtain i n where x: "x = (i, n)" by (rule prod.exhaust)
  with 3 have "(i, n) \<in> set d" by simp
  then have "n \<in> devs N T" "n \<noteq> rc_root T" "hostof T n \<noteq> None" "i = n - base"
    using assms(1) unfolding transfers_ok_def by blast+
  then show ?case using assms(2-4) x by auto
qed (use assms(1) in \<open>simp_all add: transfers_ok_def\<close>)

lemma contig_sub:
  assumes "contig N T" and "M \<subseteq> N" and "\<And>n. par U n = par T n" and "\<And>n. hostof U n = hostof T n"
  shows "contig M U"
  using assms unfolding contig_def by (metis subsetD)

lemma hi_ok_gone:
  assumes ok: "hi_ok N E H s" and t: "tiers_ok M (\<lambda>n. E n + inflight s n) U hl" and g: "host_gone N (hi_tree s) freed M U"
  shows "hi_ok M E H (s\<lparr>hi_tree := U, hi_host_free := hi_host_free s @ concat freed, hi_host_leaves := hl\<rparr>)"
    (is "hi_ok M E H ?s")
proof -
  have i: "inflight ?s = inflight s" "host_refs ?s = host_refs s" by (simp_all add: fun_eq_iff inflight_def host_refs_def)
  have tr: "transfers_ok M U b d ids" if "transfers_ok N (hi_tree s) b d ids" for b d ids
    by (rule transfers_ok_mono [OF that]) (use host_goneD(6,10,14) [OF g] in simp_all)
  have refs: "refs_ok M ?s"
  proof -
    have "n \<in> M" if "0 < host_refs s n" for n
    proof (rule ccontr)
      assume "n \<notin> M"
      moreover have "n \<in> N" "nd_host_ref (hi_node s n) = host_refs s n" using hi_okD(5) [OF ok] that by (auto simp: refs_ok_def)
      ultimately show False using host_goneD(13) [OF g, of n] that by simp
    qed
    then show ?thesis using hi_okD(5) [OF ok] host_goneD(1,6,7) [OF g] unfolding refs_ok_def i by auto
  qed
  show ?thesis
    unfolding hi_ok_def
  proof (intro conjI)
    show "mset (hi_host_free ?s) + host_slots M (hi_tree ?s) + H = mset (map int [0..<hi_host_size ?s])"
      using hi_okD(6) [OF ok] host_goneD(11) [OF g] by (simp add: ac_simps)
    show "\<not> hi_enable_storage ?s \<longrightarrow> contig M (hi_tree ?s)"
      using contig_sub [OF hi_okD(8) [OF ok] host_goneD(1) [OF g] host_goneD(2,6) [OF g]] by simp
    show "tiers_ok M (\<lambda>n. E n + inflight ?s n) (hi_tree ?s) (hi_host_leaves ?s)" using t by (simp add: i)
    show "\<forall>n \<in> M. hi_id_base ?s \<le> n" using hi_okD(4) [OF ok] host_goneD(1) [OF g] by auto
    show "transfers_ok M (hi_tree ?s) (hi_id_base ?s) (hi_ongoing_write_through ?s) (concat (hi_ack_write ?s))"
      using tr [OF hi_okD(2) [OF ok]] by simp
    show "transfers_ok M (hi_tree ?s) (hi_id_base ?s) (hi_ongoing_load_back ?s) (map (snd \<circ> snd) (hi_load_queue ?s) @ concat (hi_ack_load ?s))"
      using tr [OF hi_okD(3) [OF ok]] by simp
    show "hi_cfg ?s" using hi_okD(7) [OF ok] by (simp add: hi_cfg_def)
    show "refs_ok M ?s" by (rule refs)
  qed
qed

text \<open>Access times, priorities and hit counts do not matter.\<close>

lemma hi_ok_tiers:
  assumes ok: "hi_ok N E H s" and st: "same_tiers (hi_tree s) U"
  shows "hi_ok N E H (s\<lparr>hi_tree := U\<rparr>)"
proof -
  note f = same_tiers_fields [OF st]
  have i: "inflight (s\<lparr>hi_tree := U\<rparr>) = inflight s" "host_refs (s\<lparr>hi_tree := U\<rparr>) = host_refs s"
    by (simp_all add: fun_eq_iff inflight_def host_refs_def)
  have d: "devs N U = devs N (hi_tree s)" by (rule same_shape_views(1) [OF f(10)])
  have tr: "transfers_ok N U b d ids" if "transfers_ok N (hi_tree s) b d ids" for b d ids
    using that unfolding transfers_ok_def d f by blast
  have h: "host_slots N U = host_slots N (hi_tree s)" by (simp add: host_slots_def f)
  show ?thesis
    using tiers_shape [OF hi_okD(1) [OF ok] st] tr [OF hi_okD(2) [OF ok]] tr [OF hi_okD(3) [OF ok]] hi_okD(4-8) [OF ok]
    unfolding hi_ok_def refs_ok_def contig_def hi_cfg_def i by (simp add: f h)
qed

lemma hi_evict_host_ok:
  assumes ok: "hi_ok N E H s"
  obtains M U hl freed where
    "hi_evict_host k s = Some (Inr (), s\<lparr>hi_tree := U, hi_host_free := hi_host_free s @ concat freed, hi_host_leaves := hl\<rparr>)"
    "hi_ok M E H (s\<lparr>hi_tree := U, hi_host_free := hi_host_free s @ concat freed, hi_host_leaves := hl\<rparr>)"
    "host_gone N (hi_tree s) freed M U"
    "k \<le> length (concat freed) \<or> (\<forall>x \<in> set hl. 0 < nd_host_ref (rc_store U x))"
proof -
  obtain M U hl freed where r:
    "hi_evict_host k s = Some (Inr (), s\<lparr>hi_tree := U, hi_host_free := hi_host_free s @ concat freed, hi_host_leaves := hl\<rparr>)"
    "tiers_ok M (\<lambda>n. E n + inflight s n) U hl" "host_gone N (hi_tree s) freed M U"
    "k \<le> 0 + length (concat freed) \<or> (\<forall>x \<in> set hl. 0 < nd_host_ref (rc_store U x))"
    using hi_evict_host_live [OF hi_okD(1) [OF ok] hi_cfgD(3) [OF ok], of k] unfolding host_evicted_def by blast
  show ?thesis by (rule that [OF r(1) hi_ok_gone [OF ok r(2,3)] r(3)]) (use r(4) in simp)
qed

lemma hi_host_alloc_ok:
  assumes ok: "hi_ok N E H s" and k: "k mod rc_page_size (hi_tree s) = 0"
  shows "hi_host_alloc k s = (if length (hi_host_free s) < k then (Inr None, s)
      else (Inr (Some (take k (hi_host_free s))), s\<lparr>hi_host_free := drop k (hi_host_free s)\<rparr>))"
    "hi_ok N E (H + mset (take k (hi_host_free s))) (s\<lparr>hi_host_free := drop k (hi_host_free s)\<rparr>)" (is ?ok)
proof -
  show "hi_host_alloc k s = (if length (hi_host_free s) < k then (Inr None, s)
      else (Inr (Some (take k (hi_host_free s))), s\<lparr>hi_host_free := drop k (hi_host_free s)\<rparr>))"
    using k by (simp add: hi_host_alloc_def)
  have "mset (drop k (hi_host_free s)) + mset (take k (hi_host_free s)) = mset (hi_host_free s)"
    by (metis append_take_drop_id mset_append add.commute)
  then have "mset (drop k (hi_host_free s)) + host_slots N (hi_tree s) + (H + mset (take k (hi_host_free s))) = mset (map int [0..<hi_host_size s])"
    using hi_okD(6) [OF ok] by (metis (no_types, lifting) add.assoc add.commute)
  then show ?ok using ok unfolding hi_ok_def by (simp add: inflight_def host_refs_def refs_ok_def hi_cfg_def)
qed

section \<open>Backups\<close>

lemma tiers_rehost:
  assumes t: "tiers_ok N L T hl" and sh: "same_shape T U" and h: "\<And>n. n \<in> N \<Longrightarrow> n \<noteq> rc_root T \<Longrightarrow> host_node_ok U n"
    and r: "hostof U (rc_root T) = Some []"
  shows "tiers_ok N L U hl"
  unfolding tiers_ok_def
proof (intro conjI ballI impI)
  note v = same_shape_views [OF sh] and f = same_shape_fields [OF sh]
  show "struct_ok N (skel U)" by (rule struct_ok_shape [OF tiers_okD(1) [OF t] v(3)])
  show "tree_inv (devs N U) L (dview N U)" unfolding v(1) by (rule tree_inv_shape [OF tiers_okD(2) [OF t] v(2)])
  show "lockof U n = 0" if "n \<in> N" "valof U n = None" for n using tiers_okD(3) [OF t that(1)] that(2) by (simp add: f)
  show "host_node_ok U n" if "n \<in> N - {rc_root U}" for n using h that by (simp add: f)
  show "host_leaves_ok N U hl" using tiers_okD(7) [OF t] by (simp add: host_leaves_ok_def f)
  show "rk_len (keyof U (rc_root U)) = 0" "hostof U (rc_root U) = Some []" "\<not> rc_disable U" "\<not> rc_events U"
    using tiers_okD(5,8,9) [OF t] r by (simp_all add: f)
qed

abbreviation set_host :: "nat \<Rightarrow> kv_index list \<Rightarrow> radix \<Rightarrow> radix" where
  "set_host n h \<equiv> upd_node n (\<lambda>nd. nd\<lparr>nd_host_value := Some h\<rparr>)"

lemma set_host_simps [simp]:
  "hostof (set_host n h T) m = (if m = n then Some h else hostof T m)" "par (set_host n h T) m = par T m"
  "keyof (set_host n h T) m = keyof T m" "valof (set_host n h T) m = valof T m" "kids_of (set_host n h T) m = kids_of T m"
  "lockof (set_host n h T) m = lockof T m" "nd_host_ref (rc_store (set_host n h T) m) = nd_host_ref (rc_store T m)"
  "rc_root (set_host n h T) = rc_root T" "devs N (set_host n h T) = devs N T" "rc_page_size (set_host n h T) = rc_page_size T"
  "rc_evictable_size (set_host n h T) = rc_evictable_size T"
  by (auto simp: upd_node_def devs_def)

lemma set_host_shape: "same_shape T (set_host n h T)"
  by (rule same_shape_upd) simp_all

lemma tiers_set_host:
  assumes t: "tiers_ok N L T hl" and n: "n \<in> N" "n \<noteq> rc_root T" "valof T n \<noteq> None" and h: "length h = rk_len (keyof T n)"
  shows "tiers_ok N L (set_host n h T) hl"
proof (rule tiers_rehost [OF t set_host_shape])
  show "host_node_ok (set_host n h T) m" if "m \<in> N" "m \<noteq> rc_root T" for m
    using tiers_okD(4) [OF t that] n h by (auto simp: host_node_ok_def)
  show "hostof (set_host n h T) (rc_root T) = Some []" using n(2) tiers_okD(6) [OF t] by simp
qed

lemma host_slots_set_host:
  assumes "finite N" and "n \<in> N" "n \<noteq> rc_root T" and "hostof T n = None"
    and "\<And>m. hostof U m = (if m = n then Some h else hostof T m)" and "rc_root U = rc_root T"
  shows "host_slots N U = host_slots N T + mset h"
proof -
  let ?f = "\<lambda>V m. mset (case hostof V m of None \<Rightarrow> [] | Some h \<Rightarrow> h)"
  have i: "N - {rc_root T} = insert n (N - {rc_root T} - {n})" using assms(2,3) by blast
  have "(\<Sum>m \<in> N - {rc_root T} - {n}. ?f U m) = (\<Sum>m \<in> N - {rc_root T} - {n}. ?f T m)"
    by (rule sum.cong) (simp_all add: assms(5))
  moreover have "host_slots N V = ?f V n + (\<Sum>m \<in> N - {rc_root T} - {n}. ?f V m)" if "rc_root V = rc_root T" for V
    unfolding host_slots_def that by (subst i, subst sum.insert) (use assms(1) in auto)
  ultimately show ?thesis using assms(4-6) by (simp add: ac_simps)
qed

text \<open>What inserting and backing up leave alone.\<close>

definition hi_frame :: "'v hi \<Rightarrow> 'v hi \<Rightarrow> bool" where
  "hi_frame s t \<longleftrightarrow> t\<lparr>hi_tree := hi_tree s, hi_host_free := hi_host_free s, hi_host_leaves := hi_host_leaves s,
     hi_host_kv := hi_host_kv s, hi_ack_write := hi_ack_write s, hi_ongoing_write_through := hi_ongoing_write_through s\<rparr> = s"

lemma hi_frame_intros [simp]:
  "hi_frame s s" "hi_frame s (s\<lparr>hi_tree := T\<rparr>)" "hi_frame s (s\<lparr>hi_tree := T, hi_host_leaves := hl\<rparr>)"
  "hi_frame s (s\<lparr>hi_tree := T, hi_host_free := f, hi_host_leaves := hl\<rparr>)"
  by (simp_all add: hi_frame_def)

lemma hi_frame_trans:
  assumes "hi_frame s t" and "hi_frame t u"
  shows "hi_frame s u"
proof -
  let ?put = "\<lambda>a (b :: 'a hi). b\<lparr>hi_tree := hi_tree a, hi_host_free := hi_host_free a, hi_host_leaves := hi_host_leaves a,
     hi_host_kv := hi_host_kv a, hi_ack_write := hi_ack_write a, hi_ongoing_write_through := hi_ongoing_write_through a\<rparr>"
  have "?put s u = ?put s (?put t u)" by simp
  also have "\<dots> = ?put s t" using assms(2) by (simp only: hi_frame_def)
  also have "\<dots> = s" using assms(1) by (simp only: hi_frame_def)
  finally show ?thesis by (simp only: hi_frame_def)
qed

lemma hi_frameD:
  assumes "hi_frame s t"
  shows "hi_enable_storage t = hi_enable_storage s" "hi_id_base t = hi_id_base s" "hi_write_policy t = hi_write_policy s"
    "hi_ongoing_load_back t = hi_ongoing_load_back s" "hi_load_queue t = hi_load_queue s" "hi_ack_load t = hi_ack_load s"
    "hi_dev_kv t = hi_dev_kv s" "hi_ctl t = hi_ctl s" "hi_ongoing_prefetch t = hi_ongoing_prefetch s"
    "hi_ongoing_backup t = hi_ongoing_backup s" "hi_host_size t = hi_host_size s"
proof -
  have f: "f t = f s" if "f (t\<lparr>hi_tree := hi_tree s, hi_host_free := hi_host_free s, hi_host_leaves := hi_host_leaves s,
     hi_host_kv := hi_host_kv s, hi_ack_write := hi_ack_write s, hi_ongoing_write_through := hi_ongoing_write_through s\<rparr>) = f t"
    for f :: "'a hi \<Rightarrow> 'b"
    using assms that by (simp only: hi_frame_def)
  show "hi_enable_storage t = hi_enable_storage s" "hi_id_base t = hi_id_base s" "hi_write_policy t = hi_write_policy s"
    "hi_ongoing_load_back t = hi_ongoing_load_back s" "hi_load_queue t = hi_load_queue s" "hi_ack_load t = hi_ack_load s"
    "hi_dev_kv t = hi_dev_kv s" "hi_ctl t = hi_ctl s" "hi_ongoing_prefetch t = hi_ongoing_prefetch s"
    "hi_ongoing_backup t = hi_ongoing_backup s" "hi_host_size t = hi_host_size s"
    by (rule f, simp)+
qed

lemma dict_fresh_id:
  assumes "transfers_ok N T base d ids" and "base \<le> n" and "\<And>m. m \<in> N \<Longrightarrow> base \<le> m"
    and "\<And>m. m \<in> devs N T \<Longrightarrow> hostof T m \<noteq> None \<Longrightarrow> m \<noteq> n"
  shows "n - base \<notin> set (dict_keys d)"
proof
  assume "n - base \<in> set (dict_keys d)"
  then obtain m where "(n - base, m) \<in> set d" by auto
  then have m: "m \<in> devs N T" "hostof T m \<noteq> None" "n - base = m - base" using assms(1) unfolding transfers_ok_def by blast+
  then have "m = n" using assms(2) assms(3) [OF devs_sub(2) [OF m(1)]] by linarith
  then show False using assms(4) m(1,2) by blast
qed

lemma transfers_ok_add:
  assumes tr: "transfers_ok N T base d ids" and fresh: "n - base \<notin> set (dict_keys d)"
    and n: "n \<in> devs N T" "n \<noteq> rc_root T" "hostof T n \<noteq> None" and ids: "mset ids' = add_mset (n - base) (mset ids)"
  shows "transfers_ok N T base (dict_set (n - base) n d) ids'"
  using tr n ids unfolding dict_set_fresh [OF fresh] transfers_ok_def
  using fresh by (auto simp: add_mset_commute)

lemma finish_write_backup_ok:
  assumes ok: "hi_ok N E (H + mset h) s" and n: "n \<in> devs N (hi_tree s)" "n \<noteq> hi_root s" "hostof (hi_tree s) n = None"
    and h: "length h = rk_len (keyof (hi_tree s) n)" and p: "par (hi_tree s) n = Some p" "hostof (hi_tree s) p \<noteq> None"
    and s1_def: "s1 = s\<lparr>hi_host_kv := kv, hi_ack_write := hi_ack_write s @ [[node_id s n]]\<rparr>"
  shows "\<exists>s'. finish_write_backup n False (Some h) s1 = Some (Inr (length h), s') \<and> hi_ok N E H s' \<and> hi_frame s s' \<and>
    dsame N (hi_tree s) N (hi_tree s')"
proof -
  let ?T = "hi_tree s" and ?L = "\<lambda>n. E n + inflight s n" and ?i = "node_id s n"
  note t = hi_okD(1) [OF ok]
  have nN: "n \<in> N" "valof ?T n \<noteq> None" using n(1) unfolding devs_def by blast+
  have t1: "tiers_ok N ?L (set_host n h ?T) (hi_host_leaves s)" by (rule tiers_set_host [OF t nN(1) n(2) nN(2) h])
  define s2 where "s2 = s1\<lparr>hi_tree := set_host n h ?T, hi_ongoing_write_through := dict_set ?i n (hi_ongoing_write_through s)\<rparr>"
  obtain U where U: "hi_inc_lock_ref n s2 = Some (Inr (rc_evictable_size U - rc_evictable_size (hi_tree s2)), s2\<lparr>hi_tree := U\<rparr>)"
    "tiers_ok N (?L(n := Suc (?L n))) U (hi_host_leaves s)" "lock_path (set_host n h ?T) n 1 U"
    using hi_inc_lock_ref_live [of N ?L s2 n] t1 n by (auto simp: s2_def s1_def)
  have "0 < rk_len (keyof ?T n)" using node_okD(1) [OF tiers_okD(1) [OF t]] nN(1) n(2) by simp
  then have "h \<noteq> []" using h by auto
  moreover have "hi_upd n (\<lambda>nd. nd\<lparr>nd_host_value := Some h\<rparr>) s1
      \<lparr>hi_ongoing_write_through := dict_set (node_id (hi_upd n (\<lambda>nd. nd\<lparr>nd_host_value := Some h\<rparr>) s1) n)
         n (hi_ongoing_write_through (hi_upd n (\<lambda>nd. nd\<lparr>nd_host_value := Some h\<rparr>) s1))\<rparr> = s2"
    by (simp add: s1_def s2_def upd_tree_def node_id_def)
  ultimately have run: "finish_write_backup n False (Some h) s1 = Some (Inr (length h), s2\<lparr>hi_tree := U\<rparr>)"
    using U(1) by (simp add: finish_write_backup_def Let_def)
  let ?s = "s2\<lparr>hi_tree := U\<rparr>"
  note f = same_nodesD [OF conjunct1 [OF U(3) [unfolded lock_path_def]]]
  have fresh: "?i \<notin> set (dict_keys (hi_ongoing_write_through s))"
    unfolding node_id_def by (rule dict_fresh_id [OF hi_okD(2) [OF ok] hi_okD(4) [OF ok nN(1)]]) (use hi_okD(4) [OF ok] n(3) in auto)
  have infl: "inflight ?s m = inflight s m + (if m = n then 1 else 0)" for m
    unfolding inflight_def s2_def s1_def using fresh by (simp add: dict_set_fresh)
  have refs: "host_refs ?s = host_refs s" by (simp add: fun_eq_iff host_refs_def s2_def s1_def)
  have host: "hostof U m = (if m = n then Some h else hostof ?T m)" for m using f(5) by simp
  have tr: "transfers_ok N U b d ids" if "transfers_ok N ?T b d ids" for b d ids
    by (rule transfers_ok_mono [OF that]) (use f host in auto)
  have "hi_ok N E H ?s"
    unfolding hi_ok_def
  proof (intro conjI)
    show "tiers_ok N (\<lambda>n. E n + inflight ?s n) (hi_tree ?s) (hi_host_leaves ?s)"
    proof -
      have "?L(n := Suc (?L n)) = (\<lambda>n. E n + inflight ?s n)" using infl by (auto simp: fun_eq_iff)
      then show ?thesis using U(2) by (simp add: s2_def s1_def)
    qed
    show "transfers_ok N (hi_tree ?s) (hi_id_base ?s) (hi_ongoing_write_through ?s) (concat (hi_ack_write ?s))"
      using transfers_ok_add [OF tr [OF hi_okD(2) [OF ok]] fresh [unfolded node_id_def], of "concat (hi_ack_write ?s)"] n f(7,10) host
      by (simp add: s2_def s1_def node_id_def)
    show "transfers_ok N (hi_tree ?s) (hi_id_base ?s) (hi_ongoing_load_back ?s) (map (snd \<circ> snd) (hi_load_queue ?s) @ concat (hi_ack_load ?s))"
      using tr [OF hi_okD(3) [OF ok]] by (simp add: s2_def s1_def)
    show "\<forall>n \<in> N. hi_id_base ?s \<le> n" using hi_okD(4) [OF ok] by (simp add: s2_def s1_def)
    show "refs_ok N ?s" using hi_okD(5) [OF ok] f(6) host unfolding refs_ok_def refs by (simp add: s2_def s1_def)
    have "host_slots N U = host_slots N ?T + mset h"
      by (rule host_slots_set_host [OF tiers_basics(2) [OF t] nN(1) n(2,3) host]) (use f in simp)
    then show "mset (hi_host_free ?s) + host_slots N (hi_tree ?s) + H = mset (map int [0..<hi_host_size ?s])"
      using hi_okD(6) [OF ok] by (simp add: s2_def s1_def ac_simps)
    show "hi_cfg ?s" using hi_okD(7) [OF ok] by (simp add: hi_cfg_def s2_def s1_def)
    show "\<not> hi_enable_storage ?s \<longrightarrow> contig N (hi_tree ?s)"
      using hi_okD(8) [OF ok] p f(2) host unfolding contig_def by (auto simp: s2_def s1_def)
  qed
  moreover have "dsame N ?T N U"
    by (rule dsame_trans [OF dsame_shape [OF set_host_shape] dsame_nodes [OF conjunct1 [OF U(3) [unfolded lock_path_def]]]])
  moreover have "hi_frame s ?s" by (simp add: hi_frame_def s2_def s1_def)
  ultimately show ?thesis using run by (auto simp: s2_def)
qed

lemma cc_write_ok:
  assumes ok: "hi_ok N E H s" and n: "n \<in> devs N (hi_tree s)" "n \<noteq> hi_root s" and v: "valof (hi_tree s) n = Some v"
  shows "length v = rk_len (keyof (hi_tree s) n)"
    "length (hi_host_free s) < length v \<Longrightarrow> cc_write v i s = (Inr None, s)"
    "\<not> length (hi_host_free s) < length v \<Longrightarrow> \<exists>kv. cc_write v i s = (Inr (Some (take (length v) (hi_host_free s))),
       s\<lparr>hi_host_free := drop (length v) (hi_host_free s), hi_host_kv := kv, hi_ack_write := hi_ack_write s @ [[i]]\<rparr>)"
proof -
  let ?T = "hi_tree s"
  have "node_ok (dview N ?T) n" using struct_okD(8) [OF tiers_okD(10) [OF hi_okD(1) [OF ok]] n(1)] n(2) by simp
  then have l: "length v = rk_len (keyof ?T n)" "rc_page_size ?T dvd length v" using v by (auto simp: node_ok_def)
  show "length v = rk_len (keyof ?T n)" by (rule l(1))
  have a: "hi_host_alloc (length v) s = (if length (hi_host_free s) < length v then (Inr None, s)
      else (Inr (Some (take (length v) (hi_host_free s))), s\<lparr>hi_host_free := drop (length v) (hi_host_free s)\<rparr>))"
    by (rule hi_host_alloc_ok(1) [OF ok]) (use l(2) in simp)
  show "cc_write v i s = (Inr None, s)" if "length (hi_host_free s) < length v"
    unfolding cc_write_def a using that by simp
  show "\<exists>kv. cc_write v i s = (Inr (Some (take (length v) (hi_host_free s))),
       s\<lparr>hi_host_free := drop (length v) (hi_host_free s), hi_host_kv := kv, hi_ack_write := hi_ack_write s @ [[i]]\<rparr>)"
    if "\<not> length (hi_host_free s) < length v"
  proof -
    have "length (take (length v) (hi_host_free s)) = length v" using that by simp
    then obtain h d where "move_indices (hi_io_backend s) (hi_layout s) (take (length v) (hi_host_free s)) v = Inr (h, d)"
      by (rule move_indices_ok [OF hi_cfgD(2) [OF ok]])
    then show ?thesis unfolding cc_write_def a using that by auto
  qed
qed

text \<open>A write that finds enough slots completes the backup.\<close>

lemma write_then_finish:
  assumes ok: "hi_ok N E H s" and n: "n \<in> devs N (hi_tree s)" "n \<noteq> hi_root s" "hostof (hi_tree s) n = None"
    and v: "valof (hi_tree s) n = Some v" and p: "par (hi_tree s) n = Some p" "hostof (hi_tree s) p \<noteq> None"
  shows "\<exists>l s'. andThen (Some (cc_write v (node_id s n) s)) (finish_write_backup n False) = Some (Inr l, s') \<and> hi_ok N E H s' \<and>
    hi_frame s s' \<and> dsame N (hi_tree s) N (hi_tree s')"
proof (cases "length (hi_host_free s) < length v")
  case True
  then show ?thesis using cc_write_ok(2) [OF ok n(1,2) v] ok by (simp add: finish_write_backup_def)
next
  case False
  let ?h = "take (length v) (hi_host_free s)"
  define s1 where "s1 = s\<lparr>hi_host_free := drop (length v) (hi_host_free s)\<rparr>"
  have l: "length v = rk_len (keyof (hi_tree s) n)" by (rule cc_write_ok(1) [OF ok n(1,2) v])
  obtain kv where w: "cc_write v (node_id s n) s = (Inr (Some ?h),
      s1\<lparr>hi_host_kv := kv, hi_ack_write := hi_ack_write s1 @ [[node_id s1 n]]\<rparr>)"
    using cc_write_ok(3) [OF ok n(1,2) v False, of "node_id s n"] by (auto simp: s1_def node_id_def)
  have ps: "length v mod rc_page_size (hi_tree s) = 0"
    using node_okD(2) [OF tiers_okD(1) [OF hi_okD(1) [OF ok]] devs_sub(2) [OF n(1)]] n(2) l by simp
  have ok1: "hi_ok N E (H + mset ?h) s1" unfolding s1_def by (rule hi_host_alloc_ok(2) [OF ok ps])
  have len: "length ?h = rk_len (keyof (hi_tree s1) n)" using False l by (simp add: s1_def)
  obtain s' where "finish_write_backup n False (Some ?h) (s1\<lparr>hi_host_kv := kv, hi_ack_write := hi_ack_write s1 @ [[node_id s1 n]]\<rparr>) =
      Some (Inr (length ?h), s')" "hi_ok N E H s'" "hi_frame s1 s'" "dsame N (hi_tree s1) N (hi_tree s')"
    using finish_write_backup_ok [OF ok1 _ _ _ len _ _ refl] n p by (auto simp: s1_def)
  moreover have "hi_frame s s1" by (simp add: hi_frame_def s1_def)
  ultimately show ?thesis unfolding w using hi_frame_trans by (fastforce simp: s1_def)
qed

lemma write_backup_ok:
  assumes ok: "hi_ok N E H s" and n: "n \<in> devs N (hi_tree s)" "n \<noteq> hi_root s" "hostof (hi_tree s) n = None"
  shows "\<exists>l s' M. write_backup n False s = Some (Inr l, s') \<and> hi_ok M E H s' \<and> hi_frame s s' \<and> dsame N (hi_tree s) M (hi_tree s')"
proof -
  let ?T = "hi_tree s"
  note t = hi_okD(1) [OF ok]
  have nN: "n \<in> N" by (rule devs_sub(2) [OF n(1)])
  obtain v where v: "valof ?T n = Some v" using n(1) unfolding devs_def by blast
  obtain p where p: "p \<in> N" "par ?T n = Some p" by (rule tiers_parent [OF t nN n(2)])
  show ?thesis
  proof (cases "hostof ?T p = None")
    case True
    then have "p \<noteq> hi_root s" using tiers_okD(6) [OF t] by auto
    then show ?thesis using True p(2) ok by (auto simp: write_backup_def backuped_def)
  next
    case False
    have w: "write_backup n False s = andThen (Some (cc_write v (node_id s n) s)) (\<lambda>host s1.
        if host = None
        then andThen (hi_evict_host (length v) s1) (\<lambda>_ s2.
               andThen (Some (cc_write v (node_id s2 n) s2)) (finish_write_backup n False))
        else finish_write_backup n False host s1)"
      using False p(2) v by (auto simp: write_backup_def backuped_def Let_def)
    show ?thesis
    proof (cases "length (hi_host_free s) < length v")
      case True
      obtain M U hl f where e: "hi_evict_host (length v) s = Some (Inr (), s\<lparr>hi_tree := U, hi_host_free := hi_host_free s @ concat f, hi_host_leaves := hl\<rparr>)"
        "hi_ok M E H (s\<lparr>hi_tree := U, hi_host_free := hi_host_free s @ concat f, hi_host_leaves := hl\<rparr>)" (is "hi_ok M E H ?s2")
        "host_gone N ?T f M U"
        by (rule hi_evict_host_ok [OF ok])
      note g = host_goneD [OF e(3)]
      obtain l s' where r: "andThen (Some (cc_write v (node_id ?s2 n) ?s2)) (finish_write_backup n False) = Some (Inr l, s')"
        "hi_ok M E H s'" "hi_frame ?s2 s'" "dsame M U M (hi_tree s')"
        using write_then_finish [OF e(2), of n v p] n v p(2) False g(2,4,6,10,14) by auto
      have "write_backup n False s = Some (Inr l, s')"
        unfolding w using cc_write_ok(2) [OF ok n(1,2) v True] e(1) r(1) by simp
      moreover have "hi_frame s s'" by (rule hi_frame_trans [OF _ r(3)]) simp
      ultimately show ?thesis using r(2) dsame_trans [OF dsame_gone [OF e(3)] r(4)] by blast
    next
      case False
      then have "write_backup n False s = andThen (Some (cc_write v (node_id s n) s)) (finish_write_backup n False)"
        unfolding w using cc_write_ok(3) [OF ok n(1,2) v False, of "node_id s n"] by auto
      then show ?thesis using write_then_finish [OF ok n v p(2)] \<open>hostof ?T p \<noteq> None\<close> by fastforce
    qed
  qed
qed

lemma hi_inc_hit_count_ok:
  assumes ok: "hi_ok N E H s" and n: "n \<in> devs N (hi_tree s)" "n \<noteq> hi_root s"
  shows "\<exists>s' M. hi_inc_hit_count n chunked s = Some (Inr (), s') \<and> hi_ok M E H s' \<and> hi_frame s s' \<and> dsame N (hi_tree s) M (hi_tree s')"
proof (cases "hi_write_policy s = ''write_back'' \<or> chunked")
  case True
  then show ?thesis using ok by (auto simp: hi_inc_hit_count_def)
next
  case False
  let ?s1 = "hi_upd n (\<lambda>nd. nd\<lparr>nd_hit_count := nd_hit_count nd + 1\<rparr>) s"
  have st: "same_tiers (hi_tree s) (hi_tree ?s1)" unfolding upd_tree_def by (simp, rule same_tiers_upd) simp_all
  have ok1: "hi_ok N E H ?s1" using hi_ok_tiers [OF ok st] by (simp add: upd_tree_def)
  have d1: "dsame N (hi_tree s) N (hi_tree ?s1)" by (rule dsame_shape [OF same_tiers_fields(10) [OF st]])
  have f1: "hi_frame s ?s1" by (simp add: upd_tree_def)
  have n1: "n \<in> devs N (hi_tree ?s1)" "n \<noteq> hi_root ?s1" using n same_tiers_fields(8) [OF st] dsameD(1) [OF d1] by simp_all
  show ?thesis
  proof (cases "\<not> backuped (hi_node ?s1 n) \<and> hi_write_through_threshold ?s1 \<le> nd_hit_count (hi_node ?s1 n)")
    case True
    then obtain l s' M where w: "write_backup n False ?s1 = Some (Inr l, s')" "hi_ok M E H s'" "hi_frame ?s1 s'"
        "dsame N (hi_tree ?s1) M (hi_tree s')"
      using write_backup_ok [OF ok1 n1] by (auto simp: backuped_def)
    have "hi_inc_hit_count n chunked s = Some (Inr (), s')" using False True w(1) by (simp add: hi_inc_hit_count_def)
    then show ?thesis using w(2) hi_frame_trans [OF f1 w(3)] dsame_trans [OF d1 w(4)] by blast
  next
    case False': False
    have "hi_inc_hit_count n chunked s = Some (Inr (), ?s1)" using False False' by (auto simp: hi_inc_hit_count_def)
    then show ?thesis using ok1 f1 d1 by blast
  qed
qed

end
