(* ===== verification/Hi_Grow.thy ===== *)
theory Hi_Grow
  imports Hi_State
begin

text \<open>
  Steps of an insertion into the hierarchical prefix cache: splits keep the invariant, a key leads
  to a child or to the upper part of a split child, and a node that was only on the host takes over
  device slots, which attaches it to the part of the tree on the device.
\<close>

section \<open>Splits keep the invariant\<close>

lemma contig_split:
  assumes c: "contig N T" and e: "split_effect T c j p m U" and h: "host_split T c j m U" and cN: "c \<in> N" "par T c = Some p"
    and m: "m \<notin> N" and live: "\<And>n q. n \<in> N \<Longrightarrow> par T n = Some q \<Longrightarrow> q \<noteq> m"
  shows "contig (insert m N) U"
  unfolding contig_def
proof (intro ballI allI impI)
  fix n q assume n: "n \<in> insert m N" "par U n = Some q" "hostof U n \<noteq> None"
  have par: "par U n = (if n = m then Some p else if n = c then Some m else par T n)" using e by (simp add: split_effect_def)
  have host: "hostof U x = (if x = m then map_option (take j) (hostof T c)
        else if x = c then map_option (drop j) (hostof T c) else hostof T x)" for x using h by (simp add: host_split_def)
  have pm: "p \<noteq> m" using live [OF cN] .
  have cp: "hostof T c \<noteq> None \<Longrightarrow> hostof T p \<noteq> None" using c cN unfolding contig_def by blast
  consider "n = m" | "n = c" "n \<noteq> m" | "n \<noteq> m" "n \<noteq> c" by blast
  then show "hostof U q \<noteq> None"
  proof cases
    case 1
    then show ?thesis using n par host [of p] host [of m] pm cp by auto
  next
    case 2
    then show ?thesis using n par host by auto
  next
    case 3
    then have q: "n \<in> N" "par T n = Some q" "hostof T n \<noteq> None" using n par host [of n] by auto
    then have "hostof T q \<noteq> None" using c unfolding contig_def by blast
    then show ?thesis using host [of q] live [OF q(1,2)] by auto
  qed
qed

lemma hi_ok_cut:
  assumes ok: "hi_ok N E H s" and sp: "c \<in> N" "c \<noteq> hi_root s" "par (hi_tree s) c = Some p" "0 < j" "j < rk_len (keyof (hi_tree s) c)"
    "rc_page_size (hi_tree s) dvd j" "m = rc_counter (hi_tree s)" "split_effect (hi_tree s) c j p m U" "host_split (hi_tree s) c j m U"
  shows "hi_ok (insert m N) E H (s\<lparr>hi_tree := U\<rparr>)"
proof -
  let ?T = "hi_tree s" and ?s = "s\<lparr>hi_tree := U\<rparr>"
  note t = hi_okD(1) [OF ok]
  have tu: "tiers_ok (insert m N) (\<lambda>n. E n + inflight s n) U (hi_host_leaves s)" by (rule tiers_split [OF t sp])
  have tr: "trefines N ?T (insert m N) U" by (rule trefines_split [OF t sp])
  have i: "inflight ?s = inflight s" "host_refs ?s = host_refs s" by (simp_all add: fun_eq_iff inflight_def host_refs_def)
  have mN: "m \<notin> N" using tiers_basics(5) [OF t] sp(7) by blast
  have val: "(valof U n = None) = (valof ?T n = None)" "(hostof U n = None) = (hostof ?T n = None)"
    "nd_host_ref (rc_store U n) = nd_host_ref (rc_store ?T n)" if "n \<in> N" for n
    using tr that unfolding trefines_def by blast+
  have root: "rc_root U = hi_root s" using sp(8) by (simp add: split_effect_def same_globals_def)
  have tf: "transfers_ok (insert m N) U b d ids" if "transfers_ok N ?T b d ids" for b d ids
  proof (rule transfers_ok_mono [OF that _ root])
    show "devs N ?T \<subseteq> devs (insert m N) U"
    proof
      fix x assume "x \<in> devs N ?T"
      then have "x \<in> N" "valof ?T x \<noteq> None" unfolding devs_def by blast+
      then have "x \<in> N" "valof U x \<noteq> None" using val(1) by metis+
      then show "x \<in> devs (insert m N) U" by (simp add: devs_def)
    qed
    show "hostof U n \<noteq> None" if "n \<in> devs N ?T" "hostof ?T n \<noteq> None" for n using val(2) [OF devs_sub(2) [OF that(1)]] that(2) by blast
  qed
  have "refs_ok (insert m N) ?s"
  proof -
    have "host_refs s m = 0" using hi_okD(5) [OF ok] mN unfolding refs_ok_def by (metis gr0I)
    moreover have "nd_host_ref (rc_store U m) = 0" using sp(9) by (simp add: host_split_def)
    ultimately show ?thesis using hi_okD(5) [OF ok] val unfolding refs_ok_def i by auto
  qed
  moreover have "host_slots (insert m N) U = host_slots N ?T" using tr by (simp add: trefines_def)
  moreover have "\<not> hi_enable_storage s \<longrightarrow> contig (insert m N) U"
    using contig_split [OF hi_okD(8) [OF ok] sp(8,9,1,3) mN] tiers_parentD(1) [OF t] tiers_basics(7) [OF t] mN
    by (metis option.distinct(1))
  moreover have "\<forall>n \<in> insert m N. hi_id_base s \<le> n"
  proof -
    have "hi_id_base s \<le> hi_root s" "hi_root s < m" using hi_okD(4) [OF ok] tiers_basics(1,5) [OF t] sp(7) by blast+
    then show ?thesis using hi_okD(4) [OF ok] by auto
  qed
  ultimately show ?thesis
    using tu tf [OF hi_okD(2) [OF ok]] tf [OF hi_okD(3) [OF ok]] hi_okD(6,7) [OF ok]
    unfolding hi_ok_def i by (simp add: hi_cfg_def)
qed

lemma hi_ok_splits:
  assumes "splits N T M U" and "T = hi_tree s" and "hi_ok N E H s"
  shows "hi_ok M E H (s\<lparr>hi_tree := U\<rparr>)"
  using assms
proof (induction rule: splits.induct)
  case (touch M U V)
  then show ?case using hi_ok_tiers [of M E H "s\<lparr>hi_tree := U\<rparr>" V] by simp
next
  case (cut M U c p j m V)
  then show ?case using hi_ok_cut [of M E H "s\<lparr>hi_tree := U\<rparr>" c p j m V] by simp
qed simp

section \<open>One step down the tree\<close>

text \<open>Following a key from a node: the child matches as a whole, or it is split and its upper part matches.\<close>

lemma hi_goto:
  assumes t: "tiers_ok N L T hl" and n: "n \<in> N" and k: "key_ok T k" "0 < rk_len k"
    and c: "dict_get (kids_of T n) (ckey (rc_page_size T) k) = Some c"
  obtains j m U M where "rk_match (rc_page_size T) (keyof T c) k = Inr j"
    "(if j = rk_len (keyof T c) then (Inr c, T) else hi_split_node (keyof T c) c j T) = (Inr m, U)" "j \<le> rk_len (keyof T c)"
    "splits N T M U" "m \<in> M" "m \<noteq> rc_root U" "par U m = Some n" "dict_get (kids_of U n) (ckey (rc_page_size U) k) = Some m"
    "extra_key (keyof U m) = extra_key k" "rk_units (keyof U m) = take j (rk_units k)"
    "0 < j" "rc_page_size T dvd j" "j \<le> rk_len k"
proof -
  obtain j where d: "c \<in> N" "c \<noteq> rc_root T" "par T c = Some n" "extra_key (keyof T c) = extra_key k"
      "rk_match (rc_page_size T) (keyof T c) k = Inr j" "0 < j" "rc_page_size T dvd j" "j \<le> rk_len (keyof T c)" "j \<le> rk_len k"
      "take j (rk_units (keyof T c)) = take j (rk_units k)"
      "j < rk_len (keyof T c) \<and> j < rk_len k \<longrightarrow>
       ckey (rc_page_size T) (rk_drop (keyof T c) j) \<noteq> ckey (rc_page_size T) (rk_drop k j)"
    using hi_descend [OF t n k c] by blast
  show ?thesis
  proof (cases "j < rk_len (keyof T c)")
    case False
    then have "rk_units (keyof T c) = take j (rk_units k)" using d(8,10) by simp
    then show ?thesis using that [OF d(5) _ d(8) splits.same d(1-3) c d(4)] d(6-9) False by simp
  next
    case True
    have ckc: "ckey (rc_page_size T) (keyof T c) = ckey (rc_page_size T) k" using tiers_kids(2) [OF t n] c by auto
    have new: "j < rk_len k \<Longrightarrow> ckey (rc_page_size T) (rk_drop (keyof T c) j) \<noteq> ckey (rc_page_size T) (rk_drop k j)"
      using d(11) True by blast
    let ?m = "rc_counter T"
    obtain U where s2: "hi_split_node (keyof T c) c j T = (Inr ?m, U)" "splits N T (insert ?m N) U"
        "dict_get (kids_of U n) (ckey (rc_page_size U) k) = Some ?m" "extra_key (keyof U ?m) = extra_key k"
        "rk_units (keyof U ?m) = take j (rk_units k)" "par U ?m = Some n"
      by (rule hi_descend_split [OF t d(1-4,6,7) True d(9,10) new ckc]) blast+
    have "?m \<noteq> rc_root U" using splits_globals(2) [OF s2(2) t] tiers_basics(1,5) [OF t] by force
    then show ?thesis using that [OF d(5) _ d(8) s2(2) _ _ s2(6,3-5) d(6,7,9)] s2(1) True by simp
  qed
qed

section \<open>The order of the children does not matter\<close>

definition dict_same :: "('k, 'v) dict \<Rightarrow> ('k, 'v) dict \<Rightarrow> bool" where
  "dict_same d e \<longleftrightarrow> dict_ok d \<and> dict_ok e \<and> (\<forall>k. dict_get e k = dict_get d k)"

lemma dict_same_Nil: "dict_same d e \<Longrightarrow> e = [] \<longleftrightarrow> d = []"
proof -
  have none: "f = [] \<longleftrightarrow> (\<forall>k. dict_get f k = None)" for f :: "('a, 'b) dict" by (cases f) (auto split: if_splits)
  assume "dict_same d e"
  then show ?thesis unfolding none [of d] none [of e] dict_same_def by simp
qed

definition live_perm :: "nat set \<Rightarrow> radix \<Rightarrow> radix \<Rightarrow> bool" where
  "live_perm N s t \<longleftrightarrow>
     (\<forall>n \<in> N. dict_same (kids_of s n) (kids_of t n) \<and> par t n = par s n \<and> keyof t n = keyof s n \<and>
        valof t n = valof s n \<and> lockof t n = lockof s n) \<and>
     rc_root t = rc_root s \<and> rc_page_size t = rc_page_size s \<and> rc_is_eagle t = rc_is_eagle s \<and> rc_counter s \<le> rc_counter t"

lemma live_permD:
  assumes "live_perm N s t"
  shows "n \<in> N \<Longrightarrow> dict_same (kids_of s n) (kids_of t n)" "n \<in> N \<Longrightarrow> par t n = par s n" "n \<in> N \<Longrightarrow> keyof t n = keyof s n"
    "n \<in> N \<Longrightarrow> valof t n = valof s n" "n \<in> N \<Longrightarrow> lockof t n = lockof s n"
    "rc_root t = rc_root s" "rc_page_size t = rc_page_size s" "rc_is_eagle t = rc_is_eagle s" "rc_counter s \<le> rc_counter t"
  using assms unfolding live_perm_def by blast+

text \<open>The same store with the children of the first tree: equal to both in its way.\<close>

definition with_kids :: "radix \<Rightarrow> radix \<Rightarrow> radix" where
  "with_kids s t = t\<lparr>rc_store := (\<lambda>n. (rc_store t n)\<lparr>nd_children := kids_of s n\<rparr>)\<rparr>"

lemma with_kids_simps [simp]:
  "kids_of (with_kids s t) n = kids_of s n" "par (with_kids s t) n = par t n" "keyof (with_kids s t) n = keyof t n"
  "valof (with_kids s t) n = valof t n" "lockof (with_kids s t) n = lockof t n"
  "rc_root (with_kids s t) = rc_root t" "rc_page_size (with_kids s t) = rc_page_size t" "rc_is_eagle (with_kids s t) = rc_is_eagle t"
  "rc_counter (with_kids s t) = rc_counter t" "rc_evictable_size (with_kids s t) = rc_evictable_size t"
  "rc_protected_size (with_kids s t) = rc_protected_size t" "rc_evictable_leaves (with_kids s t) = rc_evictable_leaves t"
  by (simp_all add: with_kids_def)

lemma live_perm_with_kids: "live_perm N s t \<Longrightarrow> live_eq N s (with_kids s t)"
  unfolding live_eq_def using live_permD [of N s t] by simp

lemma struct_ok_perm:
  assumes st: "struct_ok N s" and lp: "live_perm N s t"
  shows "struct_ok N t"
proof -
  note p = live_permD [OF lp]
  have w: "struct_ok N (with_kids s t)" by (rule struct_ok_live [OF st live_perm_with_kids [OF lp]])
  have d: "dict_ok (kids_of t n) \<and> (\<forall>ck c. (dict_get (kids_of t n) ck = Some c) = (dict_get (kids_of s n) ck = Some c))" if "n \<in> N" for n
    using p(1) [OF that] by (simp add: dict_same_def)
  show ?thesis
    using w d unfolding struct_ok_def node_ok_def by simp
qed

lemma tree_inv_perm:
  assumes inv: "tree_inv N L s" and lp: "live_perm N s t"
    and "rc_evictable_size t = rc_evictable_size s" "rc_protected_size t = rc_protected_size s"
    "rc_evictable_leaves t = rc_evictable_leaves s"
  shows "tree_inv N L t"
proof -
  have w: "tree_inv N L (with_kids s t)" by (rule tree_inv_live [OF inv live_perm_with_kids [OF lp]]) (simp_all add: assms)
  have e: "kids_of t n = [] \<longleftrightarrow> kids_of s n = []" if "n \<in> N" for n by (rule dict_same_Nil [OF live_permD(1) [OF lp that]])
  have "struct_ok N t" by (rule struct_ok_perm [OF _ lp]) (use inv in \<open>simp add: tree_inv_def\<close>)
  moreover have "locks_ok N L t" "sizes_ok N t"
    using w unfolding tree_inv_def locks_ok_def sizes_ok_def with_kids_simps by blast+
  moreover have "leaves_ok N t"
  proof -
    have "{n \<in> N - {rc_root t}. lockof t n = 0 \<and> kids_of t n = []} = {n \<in> N - {rc_root t}. lockof t n = 0 \<and> kids_of s n = []}"
      using e by blast
    then show ?thesis using w by (simp add: tree_inv_def leaves_ok_def)
  qed
  ultimately show ?thesis by (simp add: tree_inv_def)
qed

lemma rpath_perm_imp:
  assumes "rpath s ek a n us vs" and "struct_ok N s" and "a \<in> N" and lp: "live_perm N s t"
  shows "rpath t ek a n us vs"
  using assms(1,2,3)
proof (induction rule: rpath.induct)
  case (cons a ck c v n us vs)
  have c: "c \<in> N" using struct_okD(9) [OF cons.prems(1,2), of ck c] cons.hyps(1) by blast
  have "dict_get (kids_of t a) ck = Some c" using live_permD(1) [OF lp cons.prems(2)] cons.hyps(1) unfolding dict_same_def by metis
  then show ?case using rpath.cons [of t a ck c ek v n us vs] cons live_permD(3,4) [OF lp c] c by simp
qed (rule rpath.nil)

lemma live_perm_sym:
  assumes "live_perm N s t"
  shows "live_perm N t (s\<lparr>rc_counter := rc_counter t\<rparr>)"
  unfolding live_perm_def using live_permD [OF assms] by (simp add: dict_same_def)

lemma rpath_perm:
  assumes st: "struct_ok N s" and lp: "live_perm N s t" and a: "a \<in> N"
  shows "rpath t ek a n us vs = rpath s ek a n us vs"
  using rpath_perm_imp [OF _ st a lp] rpath_perm_imp [OF _ struct_ok_perm [OF st lp] a live_perm_sym [OF lp]] by auto

lemma cached_perm:
  assumes st: "struct_ok N s" and lp: "live_perm N s t"
  shows "cached t ek us vs = cached s ek us vs"
  unfolding cached_def live_permD(6) [OF lp] using rpath_perm [OF st lp struct_okD(2) [OF st]] by simp

section \<open>A host node takes over device slots\<close>

definition set_value :: "nat \<Rightarrow> kv_index list \<Rightarrow> radix \<Rightarrow> radix" where
  "set_value m w T = (upd_node m (\<lambda>nd. nd\<lparr>nd_value := Some w\<rparr>) T)\<lparr>rc_evictable_size := rc_evictable_size T + int (length w)\<rparr>"

lemma set_value_simps [simp]:
  "kids_of (set_value m w T) n = kids_of T n" "par (set_value m w T) n = par T n" "keyof (set_value m w T) n = keyof T n"
  "valof (set_value m w T) n = (if n = m then Some w else valof T n)" "lockof (set_value m w T) n = lockof T n"
  "hostof (set_value m w T) n = hostof T n" "nd_host_ref (rc_store (set_value m w T) n) = nd_host_ref (rc_store T n)"
  "rc_root (set_value m w T) = rc_root T" "rc_page_size (set_value m w T) = rc_page_size T" "rc_is_eagle (set_value m w T) = rc_is_eagle T"
  "rc_counter (set_value m w T) = rc_counter T" "rc_disable (set_value m w T) = rc_disable T" "rc_events (set_value m w T) = rc_events T"
  "rc_alloc (set_value m w T) = rc_alloc T" "same_globals T (set_value m w T)"
  "rc_evictable_size (set_value m w T) = rc_evictable_size T + int (length w)"
  "rc_protected_size (set_value m w T) = rc_protected_size T" "rc_evictable_leaves (set_value m w T) = rc_evictable_leaves T"
  "rc_disable_finished_insert (set_value m w T) = rc_disable_finished_insert T" "rc_strategy (set_value m w T) = rc_strategy T"
  "rc_class (set_value m w T) = rc_class T" "rc_sha (set_value m w T) = rc_sha T"
  by (auto simp: set_value_def upd_node_def same_globals_def)

lemma set_value_devs: "m \<in> N \<Longrightarrow> devs N (set_value m w T) = insert m (devs N T)"
  by (auto simp: devs_def)

lemma filter_insert_same:
  assumes "dict_ok d" and "\<And>j. dict_get d j = Some m \<longleftrightarrow> j = k"
  shows "dict_same (dict_set k m (filter (\<lambda>p. snd p \<in> A) d)) (filter (\<lambda>p. snd p \<in> insert m A) d)"
proof -
  have ok: "dict_ok (filter P d)" for P using assms(1) by (rule distinct_map_filter)
  have "dict_get (filter (\<lambda>p. snd p \<in> insert m A) d) j = dict_get (dict_set k m (filter (\<lambda>p. snd p \<in> A) d)) j" for j
    using assms(2) [of j] unfolding dict_get_set dict_get_filter_values [OF assms(1)]
    by (auto split: option.split)
  then show ?thesis using ok by (simp add: dict_same_def)
qed

text \<open>With the leaf sets put right, this attaches the node to the part of the tree on the device.\<close>

definition promoted :: "nat \<Rightarrow> nat \<Rightarrow> kv_index list \<Rightarrow> radix \<Rightarrow> radix" where
  "promoted m n w T = (set_value m w T)\<lparr>rc_evictable_leaves := m # removeAll n (rc_evictable_leaves T)\<rparr>"

lemma promoted_simps [simp]:
  "kids_of (promoted m n w T) x = kids_of T x" "par (promoted m n w T) x = par T x" "keyof (promoted m n w T) x = keyof T x"
  "valof (promoted m n w T) x = (if x = m then Some w else valof T x)" "lockof (promoted m n w T) x = lockof T x"
  "hostof (promoted m n w T) x = hostof T x" "nd_host_ref (rc_store (promoted m n w T) x) = nd_host_ref (rc_store T x)"
  "rc_root (promoted m n w T) = rc_root T" "rc_page_size (promoted m n w T) = rc_page_size T" "rc_is_eagle (promoted m n w T) = rc_is_eagle T"
  "rc_counter (promoted m n w T) = rc_counter T" "rc_disable (promoted m n w T) = rc_disable T" "rc_events (promoted m n w T) = rc_events T"
  "rc_alloc (promoted m n w T) = rc_alloc T" "same_globals T (promoted m n w T)"
  "rc_evictable_size (promoted m n w T) = rc_evictable_size T + int (length w)"
  "rc_protected_size (promoted m n w T) = rc_protected_size T" "rc_evictable_leaves (promoted m n w T) = m # removeAll n (rc_evictable_leaves T)"
  by (simp_all add: promoted_def) (simp add: same_globals_def)

text \<open>The device view of the result, with the children in the order in which an attachment puts them.\<close>

definition attached :: "nat set \<Rightarrow> nat \<Rightarrow> nat \<Rightarrow> kv_index list \<Rightarrow> radix \<Rightarrow> radix" where
  "attached N m n w T = (promoted m n w T)\<lparr>rc_store := (\<lambda>x. (rc_store (promoted m n w T) x)\<lparr>nd_children :=
     if x = m then [] else if x = n then dict_set (ckey (rc_page_size T) (keyof T m)) m (kids_of (dview N T) n)
     else kids_of (dview N T) x\<rparr>)\<rparr>"

lemma attached_effect:
  assumes t: "tiers_ok N L T hl" and m: "m \<in> N" "valof T m = None" and n: "par T m = Some n" and w: "length w = rk_len (keyof T m)"
  shows "attach_effect (dview N T) n (keyof T m) w m (attached N m n w T)"
  unfolding attach_effect_def
  using tiers_basics(5) [OF t m(1)] tiers_okD(3) [OF t m] n w by (simp add: attached_def promoted_def same_globals_def)

lemma attached_perm:
  assumes t: "tiers_ok N L T hl" and m: "m \<in> N" "m \<noteq> rc_root T" "valof T m = None" and n: "par T m = Some n" "n \<in> devs N T"
  shows "live_perm (insert m (devs N T)) (attached N m n w T) (dview N (promoted m n w T))"
proof -
  have dv: "devs N (promoted m n w T) = insert m (devs N T)" using m(1) by (auto simp: devs_def)
  have mD: "m \<notin> devs N T" using m(3) by (simp add: devs_def)
  have nm: "n \<noteq> m" using n(2) mD by blast
  have kids: "dict_same (kids_of (attached N m n w T) x) (kids_of (dview N (promoted m n w T)) x)" if "x \<in> insert m (devs N T)" for x
  proof -
    have xN: "x \<in> N" using that m(1) devs_sub(2) by blast
    note ok = tiers_kids [OF t xN]
    have c: "c \<noteq> m" if "dict_get (kids_of T x) k = Some c" "x \<noteq> n" for k c using that ok(2) n(1) by auto
    consider "x = m" | "x = n" | "x \<in> devs N T" "x \<noteq> n" "x \<noteq> m" using \<open>x \<in> insert m _\<close> by blast
    then show ?thesis
    proof cases
      case 1
      have "snd q \<notin> insert m (devs N T)" if "q \<in> set (kids_of T m)" for q
      proof -
        have "snd q \<in> set (dict_values (kids_of T m))" using that by simp
        then have q: "snd q \<in> N" "snd q \<noteq> rc_root T" "par T (snd q) = Some m" using tiers_kids(3) [OF t m(1)] by auto
        have "valof T (snd q) = None" by (rule tiers_evicted_child [OF t q m(3)])
        then show ?thesis using q(3) n(1) nm by (auto simp: devs_def)
      qed
      then have "filter (\<lambda>q. snd q \<in> insert m (devs N T)) (kids_of T m) = []" by (simp add: filter_empty_conv)
      then show ?thesis using 1 by (simp add: attached_def dv dict_same_def)
    next
      case 2
      have "dict_get (kids_of T n) j = Some m \<longleftrightarrow> j = ckey (rc_page_size T) (keyof T m)" for j
        using tiers_kids(2) [OF t devs_sub(2) [OF n(2)], of j m] m(1,2) n(1) by auto
      from filter_insert_same [OF ok(1) [unfolded 2] this, of "devs N T"] show ?thesis
        using 2 nm n(2) by (simp add: attached_def dv)
    next
      case 3
      have "m \<notin> snd ` set (kids_of T x)"
      proof
        assume "m \<in> snd ` set (kids_of T x)"
        then have "m \<in> set (dict_values (kids_of T x))" by simp
        then show False using ok(3) n(1) 3(2) by simp
      qed
      then have "filter (\<lambda>q. snd q \<in> insert m (devs N T)) (kids_of T x) = filter (\<lambda>q. snd q \<in> devs N T) (kids_of T x)"
        by (intro filter_cong) auto
      moreover have "dict_ok (filter (\<lambda>q. snd q \<in> devs N T) (kids_of T x))" using ok(1) by (rule distinct_map_filter)
      ultimately show ?thesis using 3 by (simp add: attached_def dv dict_same_def)
    qed
  qed
  show ?thesis unfolding live_perm_def using kids by (simp add: attached_def)
qed

section \<open>Growth of the part on the device\<close>

text \<open>The sequence \<open>Us\<close> is cached with slots \<open>Vs\<close>, of which the last \<open>d\<close> are new; nothing else changes on the device.\<close>

definition grow :: "nat set \<Rightarrow> radix \<Rightarrow> string option \<Rightarrow> key_unit list \<Rightarrow> kv_index list \<Rightarrow> nat \<Rightarrow> nat set \<Rightarrow> radix \<Rightarrow> bool" where
  "grow N T ek Us Vs d M U \<longleftrightarrow>
     devs N T \<subseteq> devs M U \<and> same_globals T U \<and> rc_alloc U = rc_alloc T \<and> d \<le> length Us \<and> length Vs = length Us \<and>
     slots (devs M U) U = slots (devs N T) T + mset (drop (length Us - d) Vs) \<and>
     cached T ek (take (length Us - d) Us) (take (length Us - d) Vs) \<and>
     (\<forall>ek' us vs. cached U ek' us vs \<longleftrightarrow> cached T ek' us vs \<or> (ek' = ek \<and> prefix us Us \<and> vs = take (length us) Vs)) \<and>
     (\<forall>ek' a n us vs. a \<in> devs N T \<longrightarrow> n \<in> devs N T \<longrightarrow> rpath U ek' a n us vs = rpath T ek' a n us vs)"

lemma growD:
  assumes "grow N T ek Us Vs d M U"
  shows "devs N T \<subseteq> devs M U" "same_globals T U" "rc_alloc U = rc_alloc T" "d \<le> length Us" "length Vs = length Us"
    "slots (devs M U) U = slots (devs N T) T + mset (drop (length Us - d) Vs)"
    "cached T ek (take (length Us - d) Us) (take (length Us - d) Vs)"
    "cached U ek' us vs \<longleftrightarrow> cached T ek' us vs \<or> (ek' = ek \<and> prefix us Us \<and> vs = take (length us) Vs)"
    "a \<in> devs N T \<Longrightarrow> n \<in> devs N T \<Longrightarrow> rpath U ek' a n us vs = rpath T ek' a n us vs"
  using assms unfolding grow_def by blast+

lemma cached_rpath: "rpath T ek (rc_root T) n W V \<Longrightarrow> length V = length W \<Longrightarrow> cached T ek W V"
  unfolding cached_def by (intro exI [of _ n] exI [of _ W] exI [of _ V]) simp

lemma attach_grows:
  assumes t: "tiers_ok N L T hl" and u: "tiers_ok M L' U hl'" and n: "n \<in> devs N T" and mD: "m \<notin> devs N T"
    and new: "dict_get (kids_of (dview N T) n) (ckey (rc_page_size T) k) = None" and w: "length w = rk_len k"
    and eff: "attach_effect (dview N T) n k w m A" and st: "struct_ok (insert m (devs N T)) A"
    and dv: "devs M U = insert m (devs N T)" and perm: "live_perm (insert m (devs N T)) A (dview M U)"
    and g: "same_globals T U" "rc_alloc U = rc_alloc T" and path: "rpath T (extra_key k) (rc_root T) n W V"
  shows "grow N T (extra_key k) (W @ rk_units k) (V @ w) (length w) M U"
    and "rpath U (extra_key k) (rc_root T) m (W @ rk_units k) (V @ w)"
proof -
  let ?D = "dview N T"
  have sD: "struct_ok (devs N T) ?D" by (rule tiers_okD(10) [OF t])
  have r: "rc_root T \<in> devs N T" by (rule tiers_basics(4) [OF t])
  have new': "dict_get (kids_of ?D n) (ckey (rc_page_size ?D) k) = None" using new by simp
  have rp: "rpath U ek a x us vs = rpath A ek a x us vs" if "a \<in> insert m (devs N T)" for ek a x us vs
    using rpath_dview [OF u, of a] rpath_perm [OF st perm that] that dv by blast
  have cp: "cached U ek us vs = cached A ek us vs" for ek us vs
    using cached_dview [OF u] cached_perm [OF st perm] by blast
  have root: "rc_root U = rc_root T" "rc_root A = rc_root T" using g(1) eff by (simp_all add: same_globals_def attach_effect_def)
  have sl: "slots (devs M U) U = slots (devs N T) T + mset w"
  proof -
    have "slots (devs M U) U = slots (insert m (devs N T)) A"
      unfolding dv slots_def root using live_permD(4) [OF perm] by (intro sum.cong) auto
    also have "\<dots> = slots (devs N T) ?D + mset w" by (rule attach_slots [OF sD mD eff])
    finally show ?thesis by (simp add: slots_def)
  qed
  have pathD: "rpath ?D (extra_key k) (rc_root ?D) n W V" using path rpath_dview [OF t r] by simp
  have len: "length V = length W" using rpath_live(2) [OF pathD sD] r by simp
  show "rpath U (extra_key k) (rc_root T) m (W @ rk_units k) (V @ w)"
    using rp [of "rc_root T"] r attach_rpath(2) [OF sD n st new' mD eff r] pathD by auto
  show "grow N T (extra_key k) (W @ rk_units k) (V @ w) (length w) M U"
    unfolding grow_def
  proof (intro conjI allI impI)
    show "devs N T \<subseteq> devs M U" unfolding dv by blast
    show "slots (devs M U) U = slots (devs N T) T + mset (drop (length (W @ rk_units k) - length w) (V @ w))"
      using sl len w by simp
    show "cached T (extra_key k) (take (length (W @ rk_units k) - length w) (W @ rk_units k))
        (take (length (W @ rk_units k) - length w) (V @ w))"
      using cached_rpath [OF path len] len w by simp
    show "cached U ek' us vs \<longleftrightarrow> cached T ek' us vs \<or> (ek' = extra_key k \<and> prefix us (W @ rk_units k) \<and> vs = take (length us) (V @ w))" for ek' us vs
      unfolding cp attach_cached [OF sD n st new' mD eff pathD] cached_dview [OF t] ..
    show "rpath U ek' a x us vs = rpath T ek' a x us vs" if "a \<in> devs N T" "x \<in> devs N T" for ek' a x us vs
      using rp [of a] that attach_rpath(1) [OF sD n st new' mD eff that] rpath_dview [OF t that(1)] by blast
  qed (use len w g in simp_all)
qed

lemma promoted_grows:
  assumes t: "tiers_ok N L T hl" and m: "m \<in> N" "m \<noteq> rc_root T" "valof T m = None" and n: "par T m = Some n" "n \<in> devs N T"
    and w: "length w = rk_len (keyof T m)"
  shows "tiers_ok N L (promoted m n w T) (removeAll m hl)"
    and "rpath T (extra_key (keyof T m)) (rc_root T) n W V \<Longrightarrow> grow N T (extra_key (keyof T m)) (W @ rk_units (keyof T m)) (V @ w) (length w) N (promoted m n w T)"
    and "rpath T (extra_key (keyof T m)) (rc_root T) n W V \<Longrightarrow> rpath (promoted m n w T) (extra_key (keyof T m)) (rc_root T) m (W @ rk_units (keyof T m)) (V @ w)"
proof -
  let ?D = "dview N T" and ?A = "attached N m n w T" and ?U = "promoted m n w T" and ?k = "keyof T m"
  have mD: "m \<notin> devs N T" using m(3) by (simp add: devs_def)
  have dv: "devs N ?U = insert m (devs N T)" using m(1) by (auto simp: devs_def)
  have sD: "struct_ok (devs N T) ?D" by (rule tiers_okD(10) [OF t])
  note eff = attached_effect [OF t m(1,3) n(1) w] and perm = attached_perm [OF t m n, of w]
  have k: "0 < rk_len ?k" "rc_page_size ?D dvd rk_len ?k" "is_bigram ?k = rc_is_eagle ?D"
    using node_okD(1-3) [OF tiers_okD(1) [OF t] m(1)] m(2) by simp_all
  have ex: "n \<noteq> rc_root ?D \<Longrightarrow> extra_key ?k = extra_key (keyof ?D n)" using tiers_parentD(3) [OF t m(1,2) n(1)] by simp
  have new: "dict_get (kids_of ?D n) (ckey (rc_page_size T) ?k) = None"
    using dview_get [OF t n(2)] tiers_parentD(4) [OF t m(1,2) n(1)] mD by (metis option.exhaust option.inject)
  then have new': "dict_get (kids_of ?D n) (ckey (rc_page_size ?D) ?k) = None" by simp
  have stA: "struct_ok (insert m (devs N T)) ?A" by (rule attach_struct [OF sD n(2) k w ex new' mD eff])
  have invA: "tree_inv (insert m (devs N T)) L ?A"
    by (rule attach_inv [OF tiers_okD(2) [OF t] n(2) k w ex new' mD eff]) (simp_all add: attached_def)
  have inv: "tree_inv (devs N ?U) L (dview N ?U)"
    unfolding dv by (rule tree_inv_perm [OF invA perm]) (simp_all add: attached_def)
  have sk: "struct_ok N (skel ?U)" by (rule struct_ok_cong [OF tiers_okD(1) [OF t]]) simp_all
  have hl: "host_leaves_ok N ?U (removeAll m hl)"
    using tiers_okD(7) [OF t] by (auto simp: host_leaves_ok_def distinct_removeAll)
  show tU: "tiers_ok N L ?U (removeAll m hl)"
    unfolding tiers_ok_def using sk inv hl tiers_okD(3-6,8,9) [OF t] m by (auto simp: host_node_ok_def)
  assume path: "rpath T (extra_key ?k) (rc_root T) n W V"
  note ag = attach_grows [OF t tU n(2) mD new w eff stA dv perm _ _ path]
  show "grow N T (extra_key ?k) (W @ rk_units ?k) (V @ w) (length w) N ?U" by (rule ag(1)) simp_all
  show "rpath ?U (extra_key ?k) (rc_root T) m (W @ rk_units ?k) (V @ w)" by (rule ag(2)) simp_all
qed

lemma hi_ok_promoted:
  assumes ok: "hi_ok N E H s" and m: "m \<in> N" "m \<noteq> hi_root s" "valof (hi_tree s) m = None"
    and n: "par (hi_tree s) m = Some n" "n \<in> devs N (hi_tree s)" and w: "length w = rk_len (keyof (hi_tree s) m)"
  shows "hi_ok N E H (s\<lparr>hi_tree := promoted m n w (hi_tree s), hi_host_leaves := removeAll m (hi_host_leaves s)\<rparr>)" (is "hi_ok N E H ?s")
proof -
  let ?T = "hi_tree s" and ?U = "promoted m n w (hi_tree s)"
  have i: "inflight ?s = inflight s" "host_refs ?s = host_refs s" by (simp_all add: fun_eq_iff inflight_def host_refs_def)
  have tr: "transfers_ok N ?U b d ids" if "transfers_ok N ?T b d ids" for b d ids
    by (rule transfers_ok_mono [OF that]) (auto simp: devs_def)
  have h: "host_slots N ?U = host_slots N ?T" by (simp add: host_slots_def)
  show ?thesis
    using promoted_grows(1) [OF hi_okD(1) [OF ok] m n w] tr [OF hi_okD(2) [OF ok]] tr [OF hi_okD(3) [OF ok]] hi_okD(4-8) [OF ok]
    unfolding hi_ok_def refs_ok_def contig_def hi_cfg_def i by (simp add: h)
qed

lemma insert_visit_evicted:
  assumes t: "tiers_ok N L (hi_tree s) (hi_host_leaves s)" and m: "m \<in> N" "m \<noteq> hi_root s" "valof (hi_tree s) m = None"
    and n: "par (hi_tree s) m = Some n" "n \<in> devs N (hi_tree s)"
  shows "insert_visit m (Some xs) j chunked tot s = Some (Inr tot,
    s\<lparr>hi_tree := promoted m n (take j xs) (hi_tree s), hi_host_leaves := removeAll m (hi_host_leaves s)\<rparr>)"
proof -
  let ?T = "hi_tree s" and ?w = "take j xs"
  let ?V = "set_value m ?w ?T"
  have leaves: "set (rc_evictable_leaves ?T) \<subseteq> devs N ?T" using tiers_okD(2) [OF t] by (auto simp: tree_inv_def leaves_ok_def)
  have mD: "m \<notin> devs N ?T" using m(3) by (simp add: devs_def)
  have nm: "n \<noteq> m" using n(2) mD by blast
  have ev: "valof ?T c = None \<and> c \<noteq> m" if "c \<in> set (dict_values (kids_of ?T m))" for c
  proof -
    have c: "c \<in> N" "c \<noteq> rc_root ?T" "par ?T c = Some m" using tiers_kids(3) [OF t m(1)] that by auto
    then show ?thesis using tiers_evicted_child [OF t c m(3)] n(1) nm by auto
  qed
  have "\<not> list_ex (\<lambda>c. \<not> evicted (rc_store ?V c)) (dict_values (kids_of ?T m))"
    using ev unfolding list_ex_iff by (auto simp: evicted_def)
  then have 1: "update_leaf_status m ?V = ?V\<lparr>rc_evictable_leaves := m # rc_evictable_leaves ?T\<rparr>"
    using tiers_okD(3) [OF t m(1,3)] leaves mD unfolding update_leaf_status_def by (auto simp: evicted_def Let_def)
  let ?V1 = "?V\<lparr>rc_evictable_leaves := m # rc_evictable_leaves ?T\<rparr>"
  have "m \<in> set (dict_values (kids_of ?T n))" using tiers_kids(3) [OF t devs_sub(2) [OF n(2)]] m n(1) by simp
  then have "list_ex (\<lambda>c. \<not> evicted (rc_store ?V c)) (dict_values (kids_of ?T n))"
    unfolding list_ex_iff by (intro bexI [of _ m]) (simp_all add: evicted_def)
  then have 2: "update_leaf_status n ?V1 = promoted m n ?w ?T"
    using nm by (simp add: update_leaf_status_def discard_leaf_def promoted_def Let_def)
  have 3: "update_host_leaf_status m (s\<lparr>hi_tree := ?V1\<rparr>) = s\<lparr>hi_tree := ?V1, hi_host_leaves := removeAll m (hi_host_leaves s)\<rparr>"
    by (simp add: update_host_leaf_status_def discard_host_leaf_def evicted_def Let_def)
  have 4: "upd_tree (\<lambda>t. t\<lparr>rc_evictable_size := rc_evictable_size t + int (length ?w)\<rparr>) (hi_upd m (\<lambda>nd. nd\<lparr>nd_value := Some ?w\<rparr>) s) = s\<lparr>hi_tree := ?V\<rparr>"
    by (simp add: upd_tree_def set_value_def upd_node_def)
  have 5: "hi_update_leaf m (s\<lparr>hi_tree := ?V\<rparr>) = s\<lparr>hi_tree := ?V1\<rparr>" by (simp add: hi_update_leaf_def upd_tree_def 1)
  have 6: "hi_update_leaf n (s\<lparr>hi_tree := ?V1, hi_host_leaves := removeAll m (hi_host_leaves s)\<rparr>) =
      s\<lparr>hi_tree := promoted m n ?w ?T, hi_host_leaves := removeAll m (hi_host_leaves s)\<rparr>"
    by (simp add: hi_update_leaf_def upd_tree_def 2)
  have p: "par (hi_tree (s\<lparr>hi_tree := ?V1, hi_host_leaves := removeAll m (hi_host_leaves s)\<rparr>)) m = Some n" using n(1) by simp
  have "evicted (hi_node s m)" using m(3) by (simp add: evicted_def)
  then show ?thesis unfolding insert_visit_def Let_def option.case 4 5 3 p 6 by simp
qed

lemma insert_visit_device:
  assumes ok: "hi_ok N E H s" and m: "m \<in> devs N (hi_tree s)" "m \<noteq> hi_root s"
  shows "\<exists>s' M. insert_visit m v j chunked tot s = Some (Inr (tot + j), s') \<and> hi_ok M E H s' \<and> hi_frame s s' \<and> dsame N (hi_tree s) M (hi_tree s')"
proof -
  obtain s' M where r: "hi_inc_hit_count m chunked s = Some (Inr (), s')" "hi_ok M E H s'" "hi_frame s s'" "dsame N (hi_tree s) M (hi_tree s')"
    using hi_inc_hit_count_ok [OF ok m] by blast
  have "\<not> evicted (hi_node s m)" using m(1) by (simp add: devs_iff)
  then have "insert_visit m v j chunked tot s = Some (Inr (tot + j), s')" using r(1) by (simp add: insert_visit_def)
  then show ?thesis using r(2-4) by blast
qed

text \<open>Composing growth.\<close>

lemma grow_refl:
  assumes "cached T ek Us Vs" and "length Vs = length Us"
  shows "grow N T ek Us Vs 0 N T"
  unfolding grow_def using assms cached_prefix [OF assms(1)] by auto

lemma grow_trans:
  assumes a: "grow N T ek Us Vs d M U" and b: "grow M U ek (Us @ Us') (Vs @ Vs') (length Us') O' V" and l: "length Vs' = length Us'"
  shows "grow N T ek (Us @ Us') (Vs @ Vs') (d + length Us') O' V"
  unfolding grow_def
proof (intro conjI allI impI)
  note A = growD [OF a] and B = growD [OF b]
  show "devs N T \<subseteq> devs O' V" "rc_alloc V = rc_alloc T" "d + length Us' \<le> length (Us @ Us')" "length (Vs @ Vs') = length (Us @ Us')"
    using A(1,3-5) B(1,3) l by auto
  show "same_globals T V" by (rule same_globals_trans [OF A(2) B(2)])
  have e: "length (Us @ Us') - (d + length Us') = length Us - d" by simp
  show "slots (devs O' V) V = slots (devs N T) T + mset (drop (length (Us @ Us') - (d + length Us')) (Vs @ Vs'))"
    unfolding e using A(5,6) B(6) by (simp add: ac_simps)
  show "cached T ek (take (length (Us @ Us') - (d + length Us')) (Us @ Us')) (take (length (Us @ Us') - (d + length Us')) (Vs @ Vs'))"
    unfolding e using A(5,7) by simp
  show "rpath V ek' a n us vs = rpath T ek' a n us vs" if "a \<in> devs N T" "n \<in> devs N T" for ek' a n us vs
    using A(9) [OF that] B(9) [of a n] that A(1) by (metis subsetD)
  have p: "prefix us Us \<Longrightarrow> prefix us (Us @ Us') \<and> take (length us) (Vs @ Vs') = take (length us) Vs" for us
    using A(5) prefix_length_le [of us Us] by simp
  show "cached V ek' us vs \<longleftrightarrow> cached T ek' us vs \<or> (ek' = ek \<and> prefix us (Us @ Us') \<and> vs = take (length us) (Vs @ Vs'))" for ek' us vs
    unfolding B(8) A(8) using p by metis
qed

text \<open>What a step keeps that does not touch the contents of the device.\<close>

definition dkeep :: "nat set \<Rightarrow> radix \<Rightarrow> nat set \<Rightarrow> radix \<Rightarrow> bool" where
  "dkeep N T M U \<longleftrightarrow> devs N T \<subseteq> devs M U \<and> same_globals T U \<and> rc_alloc U = rc_alloc T \<and>
     slots (devs M U) U = slots (devs N T) T \<and> (\<forall>ek us vs. cached U ek us vs = cached T ek us vs) \<and>
     (\<forall>ek a n us vs. a \<in> devs N T \<longrightarrow> n \<in> devs N T \<longrightarrow> rpath U ek a n us vs = rpath T ek a n us vs)"

lemma dkeepD:
  assumes "dkeep N T M U"
  shows "devs N T \<subseteq> devs M U" "same_globals T U" "rc_alloc U = rc_alloc T" "slots (devs M U) U = slots (devs N T) T"
    "cached U ek us vs = cached T ek us vs" "a \<in> devs N T \<Longrightarrow> n \<in> devs N T \<Longrightarrow> rpath U ek a n us vs = rpath T ek a n us vs"
    "rc_root U = rc_root T" "rc_page_size U = rc_page_size T"
  using assms unfolding dkeep_def same_globals_def by blast+

lemma dkeep_refl [simp]: "dkeep N T N T"
  by (simp add: dkeep_def)

lemma dkeep_trans:
  assumes a: "dkeep N T M U" and b: "dkeep M U O' V"
  shows "dkeep N T O' V"
  unfolding dkeep_def
proof (intro conjI allI impI)
  note A = dkeepD [OF a] and B = dkeepD [OF b]
  show "devs N T \<subseteq> devs O' V" using A(1) B(1) by blast
  show "same_globals T V" by (rule same_globals_trans [OF A(2) B(2)])
  show "rpath V ek c n us vs = rpath T ek c n us vs" if "c \<in> devs N T" "n \<in> devs N T" for ek c n us vs
    unfolding A(6) [OF that, symmetric] by (rule B(6)) (use that A(1) in blast)+
  show "cached V ek us vs = cached T ek us vs" for ek us vs by (simp only: A(5) B(5))
  show "slots (devs O' V) V = slots (devs N T) T" "rc_alloc V = rc_alloc T" by (simp_all only: A(3,4) B(3,4))
qed

lemma dkeep_dsame:
  assumes "tiers_ok N L T hl" and "tiers_ok M L' U hl'" and "dsame N T M U"
  shows "dkeep N T M U"
  unfolding dkeep_def using dsame_keeps [OF assms] dsameD(1-3) [OF assms(3)] by simp

lemma dkeep_splits:
  assumes sp: "splits N T M U" and t: "tiers_ok N L T hl"
  shows "dkeep N T M U"
proof -
  have u: "tiers_ok M L U hl" and r: "refines (devs N T) (dview N T) (devs M U) (dview M U)"
    using splits_tiers [OF sp t] by (auto simp: trefines_def)
  note R = refinesD [OF r]
  have sl: "slots A (dview B V) = slots A V" for A B V by (simp add: slots_def)
  show ?thesis
    unfolding dkeep_def
  proof (intro conjI allI impI)
    show "same_globals T U" "rc_alloc U = rc_alloc T" "devs N T \<subseteq> devs M U" using R(1-3) by simp_all
    show "slots (devs M U) U = slots (devs N T) T" using R(9) by (simp add: sl)
    show "cached U ek us vs = cached T ek us vs" for ek us vs using R(7) cached_dview [OF t] cached_dview [OF u] by blast
    show "rpath U ek a n us vs = rpath T ek a n us vs" if "a \<in> devs N T" "n \<in> devs N T" for ek a n us vs
      using R(1) R(8) [OF that] rpath_dview [OF t that(1)] rpath_dview [OF u, of a] that by blast
  qed
qed

lemma dkeep_grow:
  assumes a: "dkeep N T M U" and b: "grow M U ek Us Vs k O' V"
  shows "grow N T ek Us Vs k O' V"
  unfolding grow_def
proof (intro conjI allI impI)
  note A = dkeepD [OF a] and B = growD [OF b]
  show "devs N T \<subseteq> devs O' V" using A(1) B(1) by blast
  show "same_globals T V" by (rule same_globals_trans [OF A(2) B(2)])
  show "rpath V ek' c n us vs = rpath T ek' c n us vs" if "c \<in> devs N T" "n \<in> devs N T" for ek' c n us vs
    unfolding A(6) [OF that, symmetric] by (rule B(9)) (use that A(1) in blast)+
  show "cached V ek' us vs \<longleftrightarrow> cached T ek' us vs \<or> (ek' = ek \<and> prefix us Us \<and> vs = take (length us) Vs)" for ek' us vs
    by (simp only: A(5) B(8))
  show "cached T ek (take (length Us - k) Us) (take (length Us - k) Vs)" using B(7) by (simp only: A(5))
  show "slots (devs O' V) V = slots (devs N T) T + mset (drop (length Us - k) Vs)" "rc_alloc V = rc_alloc T"
    "k \<le> length Us" "length Vs = length Us" by (simp_all only: A(3,4) B(3-6))
qed

lemma grow_dkeep:
  assumes a: "grow N T ek Us Vs k M U" and b: "dkeep M U O' V"
  shows "grow N T ek Us Vs k O' V"
  unfolding grow_def
proof (intro conjI allI impI)
  note A = growD [OF a] and B = dkeepD [OF b]
  show "devs N T \<subseteq> devs O' V" using A(1) B(1) by blast
  show "same_globals T V" by (rule same_globals_trans [OF A(2) B(2)])
  show "rpath V ek' c n us vs = rpath T ek' c n us vs" if "c \<in> devs N T" "n \<in> devs N T" for ek' c n us vs
    unfolding A(9) [OF that, symmetric] by (rule B(6)) (use that A(1) in blast)+
  show "cached V ek' us vs \<longleftrightarrow> cached T ek' us vs \<or> (ek' = ek \<and> prefix us Us \<and> vs = take (length us) Vs)" for ek' us vs
    by (simp only: A(8) B(5))
  show "cached T ek (take (length Us - k) Us) (take (length Us - k) Vs)" by (rule A(7))
  show "slots (devs O' V) V = slots (devs N T) T + mset (drop (length Us - k) Vs)" "rc_alloc V = rc_alloc T"
    "k \<le> length Us" "length Vs = length Us" by (simp_all only: A(3-6) B(3,4))
qed

end
