(* ===== verification/Hi_Insert.thy ===== *)
theory Hi_Insert
  imports Hi_Grow
begin

text \<open>
  \<^verbatim>\<open>insert\<close> of the hierarchical prefix cache: the loop along the key, the new leaf, and the effect of
  the whole operation. While the loop counts hits it may back nodes up, which may evict host pages;
  neither changes the contents of the device.
\<close>

section \<open>The loop\<close>

definition insert_rest ::
  "nat \<Rightarrow> radix_key \<Rightarrow> kv_index list \<Rightarrow> child_key \<Rightarrow> int \<Rightarrow> bool \<Rightarrow> nat \<Rightarrow> nat \<Rightarrow> 'v hi
     \<Rightarrow> (nat \<times> radix_key \<times> kv_index list option \<times> child_key \<times> nat, 'v hi) outcome" where
  "insert_rest m key xs ck prio chunked j tot s =
     (if rk_len (rk_drop key j) \<noteq> 0
      then case child_key (rc_page_size (hi_tree s)) (rk_drop key j) of
             Inl e \<Rightarrow> Some (Inl e, s)
           | Inr ck' \<Rightarrow> hi_insert_loop m (rk_drop key j) (Some (drop j xs)) ck' prio chunked tot s
      else hi_insert_loop m (rk_drop key j) (Some (drop j xs)) ck prio chunked tot s)"

lemma insert_step:
  assumes t: "tiers_ok N L (hi_tree s) hl" and n: "n \<in> N" and k: "key_ok (hi_tree s) k" "0 < rk_len k"
    and c: "dict_get (kids_of (hi_tree s) n) (ckey (rc_page_size (hi_tree s)) k) = Some c"
  obtains j m U M where
    "hi_insert_loop n k (Some xs) (ckey (rc_page_size (hi_tree s)) k) prio chunked tot s =
       andThen (insert_visit m (Some xs) j chunked tot (s\<lparr>hi_tree := U\<rparr>)) (insert_rest m k xs (ckey (rc_page_size (hi_tree s)) k) prio chunked j)"
    "splits N (hi_tree s) M U" "m \<in> M" "m \<noteq> rc_root U" "par U m = Some n" "dict_get (kids_of U n) (ckey (rc_page_size U) k) = Some m"
    "extra_key (keyof U m) = extra_key k" "rk_units (keyof U m) = take j (rk_units k)"
    "0 < j" "rc_page_size (hi_tree s) dvd j" "j \<le> rk_len k"
proof -
  let ?T = "hi_tree s"
  define T1 where "T1 = raise_priority prio c (touch_node c ?T)"
  have st1: "same_tiers ?T T1" unfolding T1_def by (rule same_tiers_trans [OF same_tiers_touch same_tiers_priority])
  note f = same_tiers_fields [OF st1]
  have sp1: "splits N ?T N T1" by (rule splits.touch [OF splits.same st1])
  have t1: "tiers_ok N L T1 hl" by (rule tiers_shape [OF t st1])
  have k1: "key_ok T1 k" using k(1) by (simp add: key_ok_globals [OF f(11)])
  have c1: "dict_get (kids_of T1 n) (ckey (rc_page_size T1) k) = Some c" using c by (simp add: f)
  obtain j m U M where g: "rk_match (rc_page_size T1) (keyof T1 c) k = Inr j"
    "(if j = rk_len (keyof T1 c) then (Inr c, T1) else hi_split_node (keyof T1 c) c j T1) = (Inr m, U)" "j \<le> rk_len (keyof T1 c)"
    "splits N T1 M U" "m \<in> M" "m \<noteq> rc_root U" "par U m = Some n" "dict_get (kids_of U n) (ckey (rc_page_size U) k) = Some m"
    "extra_key (keyof U m) = extra_key k" "rk_units (keyof U m) = take j (rk_units k)"
    "0 < j" "rc_page_size T1 dvd j" "j \<le> rk_len k"
    by (rule hi_goto [OF t1 n k1 k(2) c1])
  define U' where "U' = (if j = rk_len (keyof T1 c) then U else raise_priority prio m U)"
  have su: "same_tiers U U'" by (simp add: U'_def)
  note fu = same_tiers_fields [OF su]
  have has: "dict_has (kids_of ?T n) (ckey (rc_page_size ?T) k)" using c by (simp add: dict_has_iff)
  have up: "upd_tree (\<lambda>t. raise_priority prio c (touch_node c t)) s = s\<lparr>hi_tree := T1\<rparr>" by (simp add: upd_tree_def T1_def)
  have run: "hi_insert_loop n k (Some xs) (ckey (rc_page_size ?T) k) prio chunked tot s =
      andThen (insert_visit m (Some xs) j chunked tot (s\<lparr>hi_tree := U'\<rparr>)) (insert_rest m k xs (ckey (rc_page_size ?T) k) prio chunked j)"
  proof (cases "j = rk_len (keyof T1 c)")
    case True
    then have "m = c" "U' = T1" using g(2) by (auto simp: U'_def)
    then show ?thesis using has k(2) c g(1) True
      by (subst hi_insert_loop.simps) (simp add: up insert_rest_def [abs_def] Let_def not_le)
  next
    case False
    then have "hi_split_node (keyof T1 c) c j T1 = (Inr m, U)" "U' = raise_priority prio m U" using g(2) by (auto simp: U'_def)
    then show ?thesis using has k(2) c g(1) False
      by (subst hi_insert_loop.simps) (simp add: up insert_rest_def [abs_def] Let_def not_le on_tree_def, simp add: upd_tree_def)
  qed
  show ?thesis
    by (rule that [OF run splits.touch [OF splits_trans [OF g(4) sp1] su]]) (use g(5-13) f(9) in \<open>simp_all add: fu\<close>)
qed

text \<open>The outcome of the loop: \<open>a\<close> units were cached on the device, \<open>i\<close> are when it ends.\<close>

definition walked ::
  "nat set \<Rightarrow> radix \<Rightarrow> radix_key \<Rightarrow> kv_index list \<Rightarrow> key_unit list \<Rightarrow> kv_index list \<Rightarrow> nat \<Rightarrow> nat \<Rightarrow> kv_index list \<Rightarrow>
   nat \<Rightarrow> radix_key \<Rightarrow> child_key \<Rightarrow> nat set \<Rightarrow> radix \<Rightarrow> bool" where
  "walked N T k xs W V a i X n' k' ck' M U \<longleftrightarrow>
     n' \<in> devs M U \<and> a \<le> i \<and> i \<le> rk_len k \<and> rc_page_size T dvd a \<and> rc_page_size T dvd i \<and> length X = a \<and>
     rk_units k' = drop i (rk_units k) \<and> extra_key k' = extra_key k \<and> is_bigram k' = is_bigram k \<and>
     (i < rk_len k \<longrightarrow> ck' = ckey (rc_page_size T) k' \<and> dict_get (kids_of U n') ck' = None) \<and>
     rpath U (extra_key k) (rc_root T) n' (W @ take i (rk_units k)) (V @ X @ drop a (take i xs)) \<and>
     grow N T (extra_key k) (W @ take i (rk_units k)) (V @ X @ drop a (take i xs)) (i - a) M U \<and>
     (\<forall>l ws. l \<le> rk_len k \<and> rc_page_size T dvd l \<and> cached T (extra_key k) (W @ take l (rk_units k)) ws \<longrightarrow> l \<le> a)"

lemma walkedD:
  assumes "walked N T k xs W V a i X n' k' ck' M U"
  shows "n' \<in> devs M U" "a \<le> i" "i \<le> rk_len k" "rc_page_size T dvd a" "rc_page_size T dvd i" "length X = a"
    "rk_units k' = drop i (rk_units k)" "extra_key k' = extra_key k" "is_bigram k' = is_bigram k"
    "i < rk_len k \<Longrightarrow> ck' = ckey (rc_page_size T) k'" "i < rk_len k \<Longrightarrow> dict_get (kids_of U n') ck' = None"
    "rpath U (extra_key k) (rc_root T) n' (W @ take i (rk_units k)) (V @ X @ drop a (take i xs))"
    "grow N T (extra_key k) (W @ take i (rk_units k)) (V @ X @ drop a (take i xs)) (i - a) M U"
    "l \<le> rk_len k \<Longrightarrow> rc_page_size T dvd l \<Longrightarrow> cached T (extra_key k) (W @ take l (rk_units k)) ws \<Longrightarrow> l \<le> a"
  using assms unfolding walked_def by blast+

lemma walkedI:
  assumes "n' \<in> devs M U" "a \<le> i" "i \<le> rk_len k" "rc_page_size T dvd a" "rc_page_size T dvd i" "length X = a"
    "rk_units k' = drop i (rk_units k)" "extra_key k' = extra_key k" "is_bigram k' = is_bigram k"
    "i < rk_len k \<Longrightarrow> ck' = ckey (rc_page_size T) k'" "i < rk_len k \<Longrightarrow> dict_get (kids_of U n') ck' = None"
    "rpath U (extra_key k) (rc_root T) n' (W @ take i (rk_units k)) (V @ X @ drop a (take i xs))"
    "grow N T (extra_key k) (W @ take i (rk_units k)) (V @ X @ drop a (take i xs)) (i - a) M U"
    "\<And>l ws. l \<le> rk_len k \<Longrightarrow> rc_page_size T dvd l \<Longrightarrow> cached T (extra_key k) (W @ take l (rk_units k)) ws \<Longrightarrow> l \<le> a"
  shows "walked N T k xs W V a i X n' k' ck' M U"
  unfolding walked_def
proof (intro conjI allI impI)
  show "l \<le> a" if "l \<le> rk_len k \<and> rc_page_size T dvd l \<and> cached T (extra_key k) (W @ take l (rk_units k)) ws" for l ws
    using assms(14) that by (elim conjE)
qed (fact assms)+

lemma device_end:
  assumes t: "tiers_ok N L T hl" and n: "n \<in> devs N T" and path: "rpath T (extra_key k) (rc_root T) n W V"
    and none: "\<And>c. dict_get (kids_of T n) (ckey (rc_page_size T) k) = Some c \<Longrightarrow> c \<notin> devs N T"
    and l: "l \<le> rk_len k" "rc_page_size T dvd l" and c: "cached T (extra_key k) (W @ take l (rk_units k)) ws"
  shows "l = 0"
proof (rule ccontr)
  assume "l \<noteq> 0"
  then have ps: "rc_page_size T \<le> l" using l(2) by (simp add: dvd_imp_le)
  let ?D = "dview N T" and ?us = "rk_units k" and ?p = "rc_page_size T"
  have st: "struct_ok (devs N T) ?D" by (rule tiers_okD(10) [OF t])
  have "rpath ?D (extra_key k) (rc_root ?D) n W V" using path rpath_dview [OF t tiers_basics(4) [OF t]] by simp
  moreover have "dict_get (kids_of ?D n) (extra_key k, take ?p ?us) = None"
    using dview_get [OF t n, of "ckey ?p k"] none unfolding ckey_def by (metis option.exhaust)
  moreover have "length (take ?p ?us) = rc_page_size ?D" using ps l(1) by simp
  moreover have "cached ?D (extra_key k) (W @ take ?p ?us @ drop ?p (take l ?us)) ws"
  proof -
    have "take ?p ?us @ drop ?p (take l ?us) = take l ?us"
      using append_take_drop_id [of ?p "take l ?us"] ps by (simp add: min_absorb1)
    then show ?thesis using c cached_dview [OF t] by simp
  qed
  ultimately show False by (rule cached_maximal [OF st])
qed

lemma path_len: "tiers_ok N L T hl \<Longrightarrow> rpath T ek (rc_root T) n W V \<Longrightarrow> length V = length W"
  using rpath_live(2) [of "dview N T" ek "rc_root T" n W V] tiers_okD(10) tiers_basics(4) rpath_dview by blast

lemma walked_stop:
  assumes t: "tiers_ok N L T hl" and n: "n \<in> devs N T" and path: "rpath T (extra_key k) (rc_root T) n W V"
    and stop: "\<not> (0 < rk_len k \<and> dict_has (kids_of T n) ck)" and ck: "0 < rk_len k \<Longrightarrow> ck = ckey (rc_page_size T) k"
  shows "walked N T k xs W V 0 0 [] n k ck N T"
proof -
  have len: "length V = length W" by (rule path_len [OF t path])
  have none: "dict_get (kids_of T n) ck = None" if "0 < rk_len k" using stop that by (simp add: dict_has_iff)
  have "l = 0" if "l \<le> rk_len k" "rc_page_size T dvd l" "cached T (extra_key k) (W @ take l (rk_units k)) ws" for l ws
  proof (cases "rk_len k = 0")
    case False
    then show ?thesis using device_end [OF t n path _ that] none ck by simp
  qed (use that in simp)
  then show ?thesis
    unfolding walked_def using n path none ck grow_refl [OF cached_rpath [OF path len] len] by auto
qed

lemma take_split: "take (j + i) us = take j us @ take i (drop j us)"
  by (rule take_add)

lemma walked_device:
  assumes d: "dkeep N T M' T'" and j: "rc_page_size T dvd j" "j \<le> rk_len k" "length v = j"
    and w: "walked M' T' (rk_drop k j) (drop j xs) (W @ take j (rk_units k)) (V @ v) a i X n' k' ck' M U"
  shows "walked N T k xs W V (j + a) (j + i) (v @ X) n' k' ck' M U"
proof (rule walkedI)
  note D = dkeepD [OF d] and w' = walkedD [OF w, unfolded D(7,8)]
  have e: "(V @ v) @ X @ drop a (take i (drop j xs)) = V @ (v @ X) @ drop (j + a) (take (j + i) xs)"
    by (simp add: take_drop add.commute)
  have u: "(W @ take j (rk_units k)) @ take i (rk_units (rk_drop k j)) = W @ take (j + i) (rk_units k)" by (simp add: take_split)
  show "n' \<in> devs M U" "j + a \<le> j + i" "j + i \<le> rk_len k" "rc_page_size T dvd j + a" "rc_page_size T dvd j + i"
    "length (v @ X) = j + a" "rk_units k' = drop (j + i) (rk_units k)" "extra_key k' = extra_key k" "is_bigram k' = is_bigram k"
    using w'(1-9) j by (simp_all add: add.commute)
  show "ck' = ckey (rc_page_size T) k'" "dict_get (kids_of U n') ck' = None" if "j + i < rk_len k"
    using w'(10,11) that by simp_all
  show "rpath U (extra_key k) (rc_root T) n' (W @ take (j + i) (rk_units k)) (V @ (v @ X) @ drop (j + a) (take (j + i) xs))"
    using w'(12) unfolding e u by simp
  show "grow N T (extra_key k) (W @ take (j + i) (rk_units k)) (V @ (v @ X) @ drop (j + a) (take (j + i) xs)) (j + i - (j + a)) M U"
    using dkeep_grow [OF d w'(13)] unfolding e u by simp
  show "l \<le> j + a" if l: "l \<le> rk_len k" "rc_page_size T dvd l" "cached T (extra_key k) (W @ take l (rk_units k)) ws" for l ws
  proof (cases "l \<le> j")
    case False
    then obtain q where q: "l = j + q" by (metis le_add_diff_inverse nat_le_linear)
    have "rc_page_size T dvd q" using l(2) j(1) q by (simp add: dvd_add_right_iff)
    moreover have "cached T' (extra_key (rk_drop k j)) ((W @ take j (rk_units k)) @ take q (rk_units (rk_drop k j))) ws"
      using l(3) by (simp add: D(5) q take_split)
    ultimately show ?thesis using w'(14) [of q ws] l(1) q by simp
  qed simp
qed

lemma walked_host:
  assumes d: "dkeep N T M' T1" and g: "grow M' T1 (extra_key k) (W @ take j (rk_units k)) (V @ take j xs) j M' T'"
    and j: "rc_page_size T dvd j" "j \<le> rk_len k" and xs: "length xs = rk_len k"
    and none: "\<And>l ws. l \<le> rk_len k \<Longrightarrow> rc_page_size T dvd l \<Longrightarrow> cached T (extra_key k) (W @ take l (rk_units k)) ws \<Longrightarrow> l = 0"
    and w: "walked M' T' (rk_drop k j) (drop j xs) (W @ take j (rk_units k)) (V @ take j xs) 0 i [] n' k' ck' M U"
  shows "walked N T k xs W V 0 (j + i) [] n' k' ck' M U"
proof (rule walkedI)
  have ps: "rc_page_size T' = rc_page_size T" "rc_root T' = rc_root T"
    using dkeepD(2) [OF d] growD(2) [OF g] by (simp_all add: same_globals_def)
  note w' = walkedD [OF w, unfolded ps]
  have u: "(W @ take j (rk_units k)) @ take i (rk_units (rk_drop k j)) = W @ take (j + i) (rk_units k)"
    "(V @ take j xs) @ [] @ drop 0 (take i (drop j xs)) = V @ [] @ drop 0 (take (j + i) xs)" by (simp_all add: take_split)
  have l: "length (take i (rk_units (rk_drop k j))) = i" "length (take i (drop j xs)) = i" using w'(3) xs by simp_all
  show "n' \<in> devs M U" "0 \<le> j + i" "j + i \<le> rk_len k" "rc_page_size T dvd 0" "rc_page_size T dvd j + i"
    "length [] = 0" "rk_units k' = drop (j + i) (rk_units k)" "extra_key k' = extra_key k" "is_bigram k' = is_bigram k"
    using w'(1-9) j by (simp_all add: add.commute)
  show "ck' = ckey (rc_page_size T) k'" "dict_get (kids_of U n') ck' = None" if "j + i < rk_len k"
    using w'(10,11) that by simp_all
  show "rpath U (extra_key k) (rc_root T) n' (W @ take (j + i) (rk_units k)) (V @ [] @ drop 0 (take (j + i) xs))"
    using w'(12) unfolding u by simp
  have "grow M' T1 (extra_key k) ((W @ take j (rk_units k)) @ take i (rk_units (rk_drop k j))) ((V @ take j xs) @ take i (drop j xs))
      (j + length (take i (rk_units (rk_drop k j)))) M U"
    by (rule grow_trans [OF g]) (use w'(13) l in simp_all)
  from dkeep_grow [OF d this]
  show "grow N T (extra_key k) (W @ take (j + i) (rk_units k)) (V @ [] @ drop 0 (take (j + i) xs)) (j + i - 0) M U"
    unfolding u l(1) by (simp add: take_split)
  show "l \<le> 0" if "l \<le> rk_len k" "rc_page_size T dvd l" "cached T (extra_key k) (W @ take l (rk_units k)) ws" for l ws
    using none [OF that] by simp
qed

lemma insert_rest_loop:
  assumes t: "tiers_ok N L (hi_tree s) hl" and k: "key_ok (hi_tree s) (rk_drop k j)"
  shows "insert_rest m k xs ck prio chunked j tot s = hi_insert_loop m (rk_drop k j) (Some (drop j xs))
    (if 0 < rk_len (rk_drop k j) then ckey (rc_page_size (hi_tree s)) (rk_drop k j) else ck) prio chunked tot s"
  using child_key_ckey [OF k tiers_basics(3) [OF t]] by (simp add: insert_rest_def)

text \<open>A step at a node below which nothing of the key is on the device: the child takes over slots.\<close>

lemma insert_host_step:
  assumes ok: "hi_ok N E H s" and n: "n \<in> devs N (hi_tree s)" and path: "rpath (hi_tree s) (extra_key k) (hi_root s) n W V"
    and k: "key_ok (hi_tree s) k" "0 < rk_len k" and xs: "length xs = rk_len k"
    and c: "dict_get (kids_of (hi_tree s) n) (ckey (rc_page_size (hi_tree s)) k) = Some c"
    and none: "\<And>l ws. l \<le> rk_len k \<Longrightarrow> rc_page_size (hi_tree s) dvd l \<Longrightarrow> cached (hi_tree s) (extra_key k) (W @ take l (rk_units k)) ws \<Longrightarrow> l = 0"
  obtains j m U M s' ck' where
    "hi_insert_loop n k (Some xs) (ckey (rc_page_size (hi_tree s)) k) prio chunked tot s =
       hi_insert_loop m (rk_drop k j) (Some (drop j xs)) ck' prio chunked tot s'"
    "0 < rk_len (rk_drop k j) \<longrightarrow> ck' = ckey (rc_page_size (hi_tree s')) (rk_drop k j)"
    "hi_ok M E H s'" "hi_frame s s'" "m \<in> devs M (hi_tree s')" "0 < j" "rc_page_size (hi_tree s) dvd j" "j \<le> rk_len k"
    "rpath (hi_tree s') (extra_key k) (hi_root s') m (W @ take j (rk_units k)) (V @ take j xs)"
    "dkeep N (hi_tree s) M U" "grow M U (extra_key k) (W @ take j (rk_units k)) (V @ take j xs) j M (hi_tree s')"
    "key_ok (hi_tree s') (rk_drop k j)"
proof -
  let ?T = "hi_tree s"
  note t = hi_okD(1) [OF ok]
  obtain j m U M where st:
      "hi_insert_loop n k (Some xs) (ckey (rc_page_size ?T) k) prio chunked tot s =
         andThen (insert_visit m (Some xs) j chunked tot (s\<lparr>hi_tree := U\<rparr>)) (insert_rest m k xs (ckey (rc_page_size ?T) k) prio chunked j)"
      "splits N ?T M U" "m \<in> M" "m \<noteq> rc_root U" "par U m = Some n" "dict_get (kids_of U n) (ckey (rc_page_size U) k) = Some m"
      "extra_key (keyof U m) = extra_key k" "rk_units (keyof U m) = take j (rk_units k)" "0 < j" "rc_page_size ?T dvd j" "j \<le> rk_len k"
    by (rule insert_step [OF t devs_sub(2) [OF n] k c])
  let ?s2 = "s\<lparr>hi_tree := U\<rparr>" and ?k = "rk_drop k j" and ?w = "take j xs"
  have ok2: "hi_ok M E H ?s2" by (rule hi_ok_splits [OF st(2) refl ok])
  have t2: "tiers_ok M (\<lambda>n. E n + inflight ?s2 n) U (hi_host_leaves s)" using hi_okD(1) [OF ok2] by simp
  have dk: "dkeep N ?T M U" by (rule dkeep_splits [OF st(2) t])
  note D = dkeepD [OF dk]
  have nU: "n \<in> devs M U" using n D(1) by blast
  have path2: "rpath U (extra_key k) (rc_root U) n W V" using path D(6) [OF tiers_basics(4) [OF t] n] by (simp add: D(7))
  have lm: "rk_len (keyof U m) = j" using arg_cong [OF st(8), of length] st(11) by simp
  have ev: "valof U m = None"
  proof (rule ccontr)
    assume "valof U m \<noteq> None"
    then obtain v where v: "valof U m = Some v" by blast
    have "rpath U (extra_key k) (rc_root U) m (W @ take j (rk_units k)) (V @ v)" using rpath_snoc [OF path2 st(6,7) v] st(8) by simp
    then have "cached U (extra_key k) (W @ take j (rk_units k)) (take (length (W @ take j (rk_units k))) (V @ v))"
      unfolding cached_def by blast
    then show False using none [OF st(11,10)] D(5) st(9) by blast
  qed
  have w: "length ?w = rk_len (keyof U m)" using xs st(11) lm by simp
  let ?s3 = "s\<lparr>hi_tree := promoted m n ?w U, hi_host_leaves := removeAll m (hi_host_leaves s)\<rparr>"
  have visit: "insert_visit m (Some xs) j chunked tot ?s2 = Some (Inr tot, ?s3)"
    using insert_visit_evicted [of M _ ?s2 m n xs j chunked tot] t2 st(3-5) ev nU by simp
  have ok3: "hi_ok M E H ?s3" using hi_ok_promoted [OF ok2, of m n ?w] st(3-5) ev nU w by simp
  have g3: "grow M U (extra_key k) (W @ take j (rk_units k)) (V @ ?w) j M (hi_tree ?s3)"
    using promoted_grows(2) [OF t2 st(3,4) ev st(5) nU w] path2 st(7,8) w lm by simp
  have p3: "rpath (hi_tree ?s3) (extra_key k) (hi_root ?s3) m (W @ take j (rk_units k)) (V @ ?w)"
    using promoted_grows(3) [OF t2 st(3,4) ev st(5) nU w] path2 st(7,8) by simp
  have k': "key_ok (hi_tree ?s3) ?k"
    using key_ok_drop [OF k(1) st(10,11)] key_ok_globals [OF D(2)] key_ok_globals [OF growD(2) [OF g3]] by simp
  show ?thesis
  proof (rule that [OF _ _ ok3 _ _ st(9-11) p3 dk g3 k'])
    show "hi_insert_loop n k (Some xs) (ckey (rc_page_size ?T) k) prio chunked tot s = hi_insert_loop m ?k (Some (drop j xs))
        (if 0 < rk_len ?k then ckey (rc_page_size (hi_tree ?s3)) ?k else ckey (rc_page_size ?T) k) prio chunked tot ?s3"
      unfolding st(1) visit using insert_rest_loop [OF hi_okD(1) [OF ok3] k'] by simp
    show "m \<in> devs M (hi_tree ?s3)" using st(3) by (simp add: devs_def)
  qed simp_all
qed

lemma grow_none:
  assumes g: "grow N T ek Us Vs d M U" and c: "cached U ek (Us @ take l us) ws" and l: "l \<le> length us"
    and none: "\<And>ws. \<not> cached T ek Us ws"
  shows "l = 0"
proof (rule ccontr)
  assume "l \<noteq> 0"
  then have "\<not> prefix (Us @ take l us) Us" using l by (auto dest: prefix_length_le)
  then have "cached T ek (Us @ take l us) ws" using c growD(8) [OF g] by blast
  from cached_prefix [OF this, of Us] show False using none by simp
qed

lemma insert_loop_host:
  assumes "hi_ok N E H s" and "n \<in> devs N (hi_tree s)" and "rpath (hi_tree s) (extra_key k) (hi_root s) n W V"
    and "key_ok (hi_tree s) k" and "0 < rk_len k \<Longrightarrow> ck = ckey (rc_page_size (hi_tree s)) k" and "length xs = rk_len k"
    and "\<And>l ws. l \<le> rk_len k \<Longrightarrow> rc_page_size (hi_tree s) dvd l \<Longrightarrow> cached (hi_tree s) (extra_key k) (W @ take l (rk_units k)) ws \<Longrightarrow> l = 0"
  shows "\<exists>n' k' ck' s' M i. hi_insert_loop n k (Some xs) ck prio chunked tot s = Some (Inr (n', k', Some (drop i xs), ck', tot), s') \<and>
    hi_ok M E H s' \<and> hi_frame s s' \<and> walked N (hi_tree s) k xs W V 0 i [] n' k' ck' M (hi_tree s')"
  using assms
proof (induction "rk_len k" arbitrary: k n W V ck xs s N rule: less_induct)
  case less
  note ok = less.prems(1) and path = less.prems(3) and none = less.prems(7)
  let ?T = "hi_tree s"
  note t = hi_okD(1) [OF ok]
  show ?case
  proof (cases "0 < rk_len k \<and> dict_has (kids_of ?T n) ck")
    case False
    have "hi_insert_loop n k (Some xs) ck prio chunked tot s = Some (Inr (n, k, Some (drop 0 xs), ck, tot), s)"
      by (subst hi_insert_loop.simps) (simp only: False if_False drop_0)
    then show ?thesis using ok walked_stop [OF t less.prems(2) path False less.prems(5)] hi_frame_intros(1) by blast
  next
    case True
    then have ck: "ck = ckey (rc_page_size ?T) k" and k0: "0 < rk_len k" using less.prems(5) by auto
    from True obtain c where c: "dict_get (kids_of ?T n) (ckey (rc_page_size ?T) k) = Some c" unfolding ck dict_has_iff by blast
    obtain j m U M s3 ck3 where st:
      "hi_insert_loop n k (Some xs) (ckey (rc_page_size ?T) k) prio chunked tot s =
         hi_insert_loop m (rk_drop k j) (Some (drop j xs)) ck3 prio chunked tot s3"
      "0 < rk_len (rk_drop k j) \<longrightarrow> ck3 = ckey (rc_page_size (hi_tree s3)) (rk_drop k j)"
      "hi_ok M E H s3" "hi_frame s s3" "m \<in> devs M (hi_tree s3)" "0 < j" "rc_page_size ?T dvd j" "j \<le> rk_len k"
      "rpath (hi_tree s3) (extra_key k) (hi_root s3) m (W @ take j (rk_units k)) (V @ take j xs)"
      "dkeep N ?T M U" "grow M U (extra_key k) (W @ take j (rk_units k)) (V @ take j xs) j M (hi_tree s3)"
      "key_ok (hi_tree s3) (rk_drop k j)"
      by (rule insert_host_step [OF ok less.prems(2) path less.prems(4) k0 less.prems(6) c none])
    let ?k = "rk_drop k j"
    have no: "\<not> cached U (extra_key k) (W @ take j (rk_units k)) ws" for ws
      using none [OF st(8,7), of ws] dkeepD(5) [OF st(10)] st(6) by auto
    obtain n' k' ck' s' M' i where r: "hi_insert_loop m ?k (Some (drop j xs)) ck3 prio chunked tot s3 =
        Some (Inr (n', k', Some (drop i (drop j xs)), ck', tot), s')" "hi_ok M' E H s'" "hi_frame s3 s'"
        "walked M (hi_tree s3) ?k (drop j xs) (W @ take j (rk_units k)) (V @ take j xs) 0 i [] n' k' ck' M' (hi_tree s')"
      using less.hyps [of ?k M s3 m "W @ take j (rk_units k)" "V @ take j xs" ck3 "drop j xs"] st(3,5,9,12) st(2) st(6) k0
        less.prems(6) grow_none [OF st(11) _ _ no, where us = "rk_units ?k"] by auto
    have "walked N ?T k xs W V 0 (j + i) [] n' k' ck' M' (hi_tree s')"
      by (rule walked_host [OF st(10,11,7,8) less.prems(6) none r(4)])
    moreover have "drop i (drop j xs) = drop (j + i) xs" by (simp add: add.commute)
    ultimately show ?thesis using st(1) r(1,2) hi_frame_trans [OF st(4) r(3)] unfolding ck by metis
  qed
qed

text \<open>A step to a child on the device: it counts a hit, which may back it up and evict host pages.\<close>

lemma insert_device_step:
  assumes ok: "hi_ok N E H s" and n: "n \<in> devs N (hi_tree s)" and path: "rpath (hi_tree s) (extra_key k) (hi_root s) n W V"
    and k: "key_ok (hi_tree s) k" "0 < rk_len k"
    and c: "dict_get (kids_of (hi_tree s) n) (ckey (rc_page_size (hi_tree s)) k) = Some c"
  obtains (host) "\<And>l ws. l \<le> rk_len k \<Longrightarrow> rc_page_size (hi_tree s) dvd l \<Longrightarrow> cached (hi_tree s) (extra_key k) (W @ take l (rk_units k)) ws \<Longrightarrow> l = 0"
  | (device) j m v M s' ck' where
    "hi_insert_loop n k (Some xs) (ckey (rc_page_size (hi_tree s)) k) prio chunked tot s =
       hi_insert_loop m (rk_drop k j) (Some (drop j xs)) ck' prio chunked (tot + j) s'"
    "0 < rk_len (rk_drop k j) \<longrightarrow> ck' = ckey (rc_page_size (hi_tree s')) (rk_drop k j)"
    "hi_ok M E H s'" "hi_frame s s'" "m \<in> devs M (hi_tree s')" "0 < j" "rc_page_size (hi_tree s) dvd j" "j \<le> rk_len k"
    "rpath (hi_tree s') (extra_key k) (hi_root s') m (W @ take j (rk_units k)) (V @ v)" "length v = j"
    "dkeep N (hi_tree s) M (hi_tree s')" "key_ok (hi_tree s') (rk_drop k j)"
proof -
  let ?T = "hi_tree s"
  note t = hi_okD(1) [OF ok]
  obtain j m U M where st:
      "hi_insert_loop n k (Some xs) (ckey (rc_page_size ?T) k) prio chunked tot s =
         andThen (insert_visit m (Some xs) j chunked tot (s\<lparr>hi_tree := U\<rparr>)) (insert_rest m k xs (ckey (rc_page_size ?T) k) prio chunked j)"
      "splits N ?T M U" "m \<in> M" "m \<noteq> rc_root U" "par U m = Some n" "dict_get (kids_of U n) (ckey (rc_page_size U) k) = Some m"
      "extra_key (keyof U m) = extra_key k" "rk_units (keyof U m) = take j (rk_units k)" "0 < j" "rc_page_size ?T dvd j" "j \<le> rk_len k"
    by (rule insert_step [OF t devs_sub(2) [OF n] k c])
  let ?s2 = "s\<lparr>hi_tree := U\<rparr>" and ?k = "rk_drop k j"
  have ok2: "hi_ok M E H ?s2" by (rule hi_ok_splits [OF st(2) refl ok])
  have t2: "tiers_ok M (\<lambda>n. E n + inflight ?s2 n) U (hi_host_leaves s)" using hi_okD(1) [OF ok2] by simp
  have dk: "dkeep N ?T M U" by (rule dkeep_splits [OF st(2) t])
  note D = dkeepD [OF dk]
  have nU: "n \<in> devs M U" using n D(1) by blast
  have path2: "rpath U (extra_key k) (rc_root U) n W V" using path D(6) [OF tiers_basics(4) [OF t] n] by (simp add: D(7))
  show ?thesis
  proof (cases "m \<in> devs M U")
    case False
    have "l = 0" if "l \<le> rk_len k" "rc_page_size ?T dvd l" "cached ?T (extra_key k) (W @ take l (rk_units k)) ws" for l ws
      by (rule device_end [OF t2 nU path2, of l ws]) (use that False st(6) D(5,8) in auto)
    then show ?thesis by (rule host)
  next
    case True
    then obtain v where v: "valof U m = Some v" unfolding devs_def by blast
    have pm: "rpath U (extra_key k) (rc_root U) m (W @ take j (rk_units k)) (V @ v)" using rpath_snoc [OF path2 st(6,7) v] st(8) by simp
    have len: "length v = j" using path_len [OF t2 pm] path_len [OF t2 path2] st(11) by simp
    obtain s3 M3 where r: "insert_visit m (Some xs) j chunked tot ?s2 = Some (Inr (tot + j), s3)" "hi_ok M3 E H s3" "hi_frame ?s2 s3"
      "dsame M U M3 (hi_tree s3)"
      using insert_visit_device [OF ok2, of m "Some xs" j chunked tot] True st(4) by auto
    have dk3: "dkeep M U M3 (hi_tree s3)" by (rule dkeep_dsame [OF t2 hi_okD(1) [OF r(2)] r(4)])
    note D3 = dkeepD [OF dk3]
    have k': "key_ok (hi_tree s3) ?k"
      using key_ok_drop [OF k(1) st(10,11)] key_ok_globals [OF D(2)] key_ok_globals [OF D3(2)] by simp
    show ?thesis
    proof (rule device [OF _ _ r(2) _ _ st(9-11) _ len dkeep_trans [OF dk dk3] k'])
      show "hi_insert_loop n k (Some xs) (ckey (rc_page_size ?T) k) prio chunked tot s = hi_insert_loop m ?k (Some (drop j xs))
        (if 0 < rk_len ?k then ckey (rc_page_size (hi_tree s3)) ?k else ckey (rc_page_size ?T) k) prio chunked (tot + j) s3"
        unfolding st(1) r(1) using insert_rest_loop [OF hi_okD(1) [OF r(2)] k'] by simp
      show "hi_frame s s3" by (rule hi_frame_trans [OF _ r(3)]) simp
      show "m \<in> devs M3 (hi_tree s3)" using True D3(1) by blast
      show "rpath (hi_tree s3) (extra_key k) (hi_root s3) m (W @ take j (rk_units k)) (V @ v)"
        using pm D3(6) [OF tiers_basics(4) [OF t2] True] by (simp add: D3(7))
    qed simp_all
  qed
qed

lemma insert_loop_walked:
  assumes "hi_ok N E H s" and "n \<in> devs N (hi_tree s)" and "rpath (hi_tree s) (extra_key k) (hi_root s) n W V"
    and "key_ok (hi_tree s) k" and "0 < rk_len k \<Longrightarrow> ck = ckey (rc_page_size (hi_tree s)) k" and "length xs = rk_len k"
  shows "\<exists>n' k' ck' s' M i a X. hi_insert_loop n k (Some xs) ck prio chunked tot s = Some (Inr (n', k', Some (drop i xs), ck', tot + a), s') \<and>
    hi_ok M E H s' \<and> hi_frame s s' \<and> walked N (hi_tree s) k xs W V a i X n' k' ck' M (hi_tree s')"
  using assms
proof (induction "rk_len k" arbitrary: k n W V ck xs s N tot rule: less_induct)
  case less
  note ok = less.prems(1) and path = less.prems(3)
  let ?T = "hi_tree s"
  note t = hi_okD(1) [OF ok]
  show ?case
  proof (cases "0 < rk_len k \<and> dict_has (kids_of ?T n) ck")
    case False
    have "hi_insert_loop n k (Some xs) ck prio chunked tot s = Some (Inr (n, k, Some (drop 0 xs), ck, tot + 0), s)"
      by (subst hi_insert_loop.simps) (simp only: False if_False drop_0 add_0_right)
    then show ?thesis using ok walked_stop [OF t less.prems(2) path False less.prems(5)] hi_frame_intros(1) by blast
  next
    case True
    then have ck: "ck = ckey (rc_page_size ?T) k" and k0: "0 < rk_len k" using less.prems(5) by auto
    from True obtain c where c: "dict_get (kids_of ?T n) (ckey (rc_page_size ?T) k) = Some c" unfolding ck dict_has_iff by blast
    show ?thesis
    proof (rule insert_device_step [OF ok less.prems(2) path less.prems(4) k0 c, where xs = xs and prio = prio and chunked = chunked and tot = tot], goal_cases host device)
      case host
      have "\<exists>n' k' ck' s' M i. hi_insert_loop n k (Some xs) ck prio chunked tot s = Some (Inr (n', k', Some (drop i xs), ck', tot + 0), s') \<and>
          hi_ok M E H s' \<and> hi_frame s s' \<and> walked N ?T k xs W V 0 i [] n' k' ck' M (hi_tree s')"
        unfolding add_0_right by (rule insert_loop_host [OF less.prems(1-6) host])
      then show ?case by blast
    next
      case st: (device j m v M s3 ck3)
      let ?k = "rk_drop k j"
      obtain n' k' ck' s' M' i a X where r: "hi_insert_loop m ?k (Some (drop j xs)) ck3 prio chunked (tot + j) s3 =
          Some (Inr (n', k', Some (drop i (drop j xs)), ck', tot + j + a), s')" "hi_ok M' E H s'" "hi_frame s3 s'"
          "walked M (hi_tree s3) ?k (drop j xs) (W @ take j (rk_units k)) (V @ v) a i X n' k' ck' M' (hi_tree s')"
        using less.hyps [of ?k M s3 m "W @ take j (rk_units k)" "V @ v" ck3 "drop j xs" "tot + j"] st(2,3,5,6,9,12) k0 less.prems(6) by auto
      have "walked N ?T k xs W V (j + a) (j + i) (v @ X) n' k' ck' M' (hi_tree s')"
        by (rule walked_device [OF st(11,7,8,10) r(4)])
      moreover have "drop i (drop j xs) = drop (j + i) xs" "tot + j + a = tot + (j + a)" by (simp_all add: add.commute)
      ultimately show ?case using st(1) r(1,2) hi_frame_trans [OF st(4) r(3)] unfolding ck by metis
    qed
  qed
qed

section \<open>A new leaf\<close>

definition leafed :: "radix \<Rightarrow> nat \<Rightarrow> radix_key \<Rightarrow> kv_index list \<Rightarrow> nat \<Rightarrow> radix \<Rightarrow> bool" where
  "leafed T n k v m U \<longleftrightarrow> attach_effect T n k v m U \<and>
     (\<forall>x. hostof U x = (if x = m then None else hostof T x)) \<and>
     (\<forall>x. nd_host_ref (rc_store U x) = (if x = m then 0 else nd_host_ref (rc_store T x))) \<and>
     rc_evictable_leaves U = m # removeAll n (rc_evictable_leaves T)"

lemma leafed_views:
  assumes t: "tiers_ok N L T hl" and n: "n \<in> devs N T" and new: "dict_get (kids_of T n) (ckey (rc_page_size T) k) = None"
    and m: "m \<notin> N" and l: "leafed T n k v m U" and v: "length v = rk_len k"
  shows "attach_effect (skel T) n k (replicate (rk_len k) 0) m (skel U)"
    "devs (insert m N) U = insert m (devs N T)" "attach_effect (dview N T) n k v m (dview (insert m N) U)"
proof -
  have e: "attach_effect T n k v m U" using l by (simp add: leafed_def)
  note f = e [unfolded attach_effect_def]
  show "attach_effect (skel T) n k (replicate (rk_len k) 0) m (skel U)" using f by (simp add: attach_effect_def)
  show dv: "devs (insert m N) U = insert m (devs N T)" using f m by (auto simp: devs_def)
  have nm: "n \<noteq> m" using n m devs_sub(2) by blast
  have kids: "kids_of (dview (insert m N) U) x = (if x = m then []
      else if x = n then dict_set (ckey (rc_page_size (dview N T)) k) m (kids_of (dview N T) n) else kids_of (dview N T) x)" for x
  proof -
    have live: "snd q \<noteq> m" if "x \<in> devs N T" "q \<in> set (kids_of T x)" for q
    proof -
      have "snd q \<in> set (dict_values (kids_of T x))" using that(2) by simp
      then show ?thesis using tiers_kids(3) [OF t devs_sub(2) [OF that(1)]] m by blast
    qed
    have fresh: "ckey (rc_page_size T) k \<notin> set (dict_keys d)" if "d = kids_of T n" for d
      using new that dict_has_iff [of d] by (simp add: dict_has_def)
    consider "x = m" | "x = n" | "x \<noteq> m" "x \<noteq> n" by blast
    then show ?thesis
    proof cases
      case 2
      have "filter (\<lambda>q. snd q \<in> insert m (devs N T)) (kids_of T n) = filter (\<lambda>q. snd q \<in> devs N T) (kids_of T n)"
        using live 2 n by (intro filter_cong) auto
      moreover have "ckey (rc_page_size T) k \<notin> set (dict_keys (filter (\<lambda>q. snd q \<in> devs N T) (kids_of T n)))"
        using fresh [OF refl] by auto
      ultimately show ?thesis using 2 n nm f fresh [OF refl] by (simp add: dv dict_set_fresh)
    next
      case 3
      have "filter (\<lambda>q. snd q \<in> insert m (devs N T)) (kids_of T x) = filter (\<lambda>q. snd q \<in> devs N T) (kids_of T x)" if "x \<in> devs N T"
        using live [OF that] by (intro filter_cong) auto
      then show ?thesis using 3 f by (simp add: dv)
    qed (use f in simp)
  qed
  show "attach_effect (dview N T) n k v m (dview (insert m N) U)"
    unfolding attach_effect_def kids using f by simp
qed

lemma leafed_grows:
  assumes t: "tiers_ok N L T hl" and n: "n \<in> devs N T" and new: "dict_get (kids_of T n) (ckey (rc_page_size T) k) = None"
    and m: "m \<notin> N" and l: "leafed T n k v m U" and v: "length v = rk_len k" and k: "key_ok T k" "0 < rk_len k"
    and path: "rpath T (extra_key k) (rc_root T) n W V"
  shows "tiers_ok (insert m N) L U hl" "grow N T (extra_key k) (W @ rk_units k) (V @ v) (length v) (insert m N) U"
    "rpath U (extra_key k) (rc_root T) m (W @ rk_units k) (V @ v)"
proof -
  note views = leafed_views [OF t n new m l v]
  have e: "attach_effect T n k v m U" using l by (simp add: leafed_def)
  note f = e [unfolded attach_effect_def]
  have nN: "n \<in> N" by (rule devs_sub(2) [OF n])
  have mD: "m \<notin> devs N T" using m devs_sub(2) by blast
  have kk: "rc_page_size T dvd rk_len k" "is_bigram k = rc_is_eagle T" using k(1) by (simp_all add: key_ok_def)
  have ex: "n \<noteq> rc_root T \<Longrightarrow> extra_key k = extra_key (keyof T n)" using rpath_extra [OF path] by auto
  have newD: "dict_get (kids_of (dview N T) n) (ckey (rc_page_size T) k) = None"
    using dview_get [OF t n] new by (metis option.distinct(1) option.exhaust)
  have inv: "tree_inv (devs (insert m N) U) L (dview (insert m N) U)"
    unfolding views(2)
    by (rule attach_inv [OF tiers_okD(2) [OF t] n k(2) _ _ v _ _ mD views(3)]) (use kk ex newD l in \<open>simp_all add: leafed_def\<close>)
  have sk: "struct_ok (insert m N) (skel U)"
    by (rule attach_struct [OF tiers_okD(1) [OF t] nN k(2) _ _ _ _ _ m views(1)]) (use kk ex new in simp_all)
  have root: "rc_root U = rc_root T" using f by (simp add: same_globals_def)
  have rm: "rc_root T \<noteq> m" using tiers_basics(1) [OF t] m by blast
  have host: "hostof U x = (if x = m then None else hostof T x)" for x using l by (simp add: leafed_def)
  have hl: "host_leaves_ok (insert m N) U hl"
  proof -
    have "n' \<in> insert m N - {rc_root U} \<and> valof U n' = None \<and> kids_of U n' = [] \<longleftrightarrow> n' \<in> N - {rc_root T} \<and> valof T n' = None \<and> kids_of T n' = []" for n'
      using f n m root by (auto simp: devs_def)
    then show ?thesis using tiers_okD(7) [OF t] unfolding host_leaves_ok_def by simp
  qed
  show tU: "tiers_ok (insert m N) L U hl"
    unfolding tiers_ok_def
  proof (intro conjI ballI impI)
    show "lockof U x = 0" if "x \<in> insert m N" "valof U x = None" for x
      using tiers_okD(3) [OF t, of x] that f by (auto split: if_splits)
    show "host_node_ok U x" if "x \<in> insert m N - {rc_root U}" for x
      using tiers_okD(4) [OF t, of x] that f root host by (auto simp: host_node_ok_def)
    show "rk_len (keyof U (rc_root U)) = 0" "hostof U (rc_root U) = Some []" "\<not> rc_disable U" "\<not> rc_events U"
      using tiers_okD(5,6,8,9) [OF t] f host rm by (simp_all add: same_globals_def)
  qed (fact sk inv hl)+
  have st: "struct_ok (insert m (devs N T)) (dview (insert m N) U)" using inv by (simp add: tree_inv_def views(2))
  have perm: "live_perm (insert m (devs N T)) (dview (insert m N) U) (dview (insert m N) U)"
    unfolding live_perm_def dict_same_def using struct_okD(7) [OF st] by blast
  note ag = attach_grows [OF t tU n mD newD v views(3) st views(2) perm _ _ path]
  show "grow N T (extra_key k) (W @ rk_units k) (V @ v) (length v) (insert m N) U" by (rule ag(1)) (use f in simp_all)
  show "rpath U (extra_key k) (rc_root T) m (W @ rk_units k) (V @ v)" by (rule ag(2)) (use f in simp_all)
qed

lemma hi_ok_leafed:
  assumes ok: "hi_ok N E H s" and n: "n \<in> devs N (hi_tree s)" and new: "dict_get (kids_of (hi_tree s) n) (ckey (rc_page_size (hi_tree s)) k) = None"
    and l: "leafed (hi_tree s) n k v (rc_counter (hi_tree s)) U" and v: "length v = rk_len k" and k: "key_ok (hi_tree s) k" "0 < rk_len k"
    and path: "rpath (hi_tree s) (extra_key k) (hi_root s) n W V"
  shows "hi_ok (insert (rc_counter (hi_tree s)) N) E H (s\<lparr>hi_tree := U\<rparr>)" (is "hi_ok (insert ?m N) E H ?s")
proof -
  let ?T = "hi_tree s"
  note t = hi_okD(1) [OF ok]
  have m: "?m \<notin> N" using tiers_basics(5) [OF t] by blast
  note g = leafed_grows [OF t n new m l v k path]
  have f: "par U x = (if x = ?m then Some n else par ?T x)" "hostof U x = (if x = ?m then None else hostof ?T x)"
    "nd_host_ref (rc_store U x) = (if x = ?m then 0 else nd_host_ref (rc_store ?T x))" "valof U x = (if x = ?m then Some v else valof ?T x)"
    "rc_root U = rc_root ?T" for x
    using l by (simp_all add: leafed_def attach_effect_def same_globals_def)
  have i: "inflight ?s = inflight s" "host_refs ?s = host_refs s" by (simp_all add: fun_eq_iff inflight_def host_refs_def)
  have tr: "transfers_ok (insert ?m N) U b d ids" if "transfers_ok N ?T b d ids" for b d ids
    by (rule transfers_ok_mono [OF that growD(1) [OF g(2)]]) (use m devs_sub(2) f in auto)
  have r0: "host_refs s ?m = 0" using hi_okD(5) [OF ok] m unfolding refs_ok_def by (metis gr0I)
  have hs: "host_slots (insert ?m N) U = host_slots N ?T"
  proof -
    have "insert ?m N - {rc_root U} = insert ?m (N - {rc_root ?T})" using m tiers_basics(1) [OF t] f(5) by auto
    moreover have "(\<Sum>x \<in> N - {rc_root ?T}. mset (case hostof U x of None \<Rightarrow> [] | Some h \<Rightarrow> h)) =
        (\<Sum>x \<in> N - {rc_root ?T}. mset (case hostof ?T x of None \<Rightarrow> [] | Some h \<Rightarrow> h))"
      by (rule sum.cong) (use m f(2) in auto)
    ultimately show ?thesis unfolding host_slots_def using m tiers_basics(2) [OF t] f(2) [of ?m] by simp
  qed
  have base: "hi_id_base s \<le> ?m"
    using hi_okD(4) [OF ok tiers_basics(1) [OF t]] tiers_basics(5) [OF t tiers_basics(1) [OF t]] by linarith
  have live: "q \<noteq> ?m" if "x \<in> N" "par ?T x = Some q" for x q
  proof -
    have "x \<noteq> hi_root s" using that(2) tiers_basics(7) [OF t] by auto
    then show ?thesis using tiers_parentD(1) [OF t that(1) _ that(2)] m by blast
  qed
  show ?thesis
    unfolding hi_ok_def
  proof (intro conjI)
    show "refs_ok (insert ?m N) ?s" using hi_okD(5) [OF ok] m r0 f(2,3) unfolding refs_ok_def i by auto
    show "\<not> hi_enable_storage ?s \<longrightarrow> contig (insert ?m N) (hi_tree ?s)"
      using hi_okD(8) [OF ok] m live f(1,2) unfolding contig_def by auto
  qed (use g(1) tr [OF hi_okD(2) [OF ok]] tr [OF hi_okD(3) [OF ok]] hi_okD(4,6,7) [OF ok] hs base in \<open>simp_all add: i hi_cfg_def\<close>)
qed

lemma add_leaf_tree:
  assumes t: "tiers_ok N L (hi_tree s) hl" and n: "n \<in> devs N (hi_tree s)" and v: "length v = rk_len k"
  obtains U where
    "hi_update_leaf (rc_counter (hi_tree s)) (hi_update_leaf n (upd_tree (\<lambda>t. t\<lparr>rc_evictable_size := rc_evictable_size t + int (length v)\<rparr>)
       (hi_upd n (\<lambda>nd. nd\<lparr>nd_children := dict_set (ckey (rc_page_size (hi_tree s)) k) (rc_counter (hi_tree s)) (nd_children nd)\<rparr>)
         (hi_upd (rc_counter (hi_tree s)) (\<lambda>nd. nd\<lparr>nd_parent := Some n, nd_key := k, nd_value := Some v\<rparr>)
           (snd (on_tree (new_tree_node prio) s)))))) = s\<lparr>hi_tree := U\<rparr>"
    "leafed (hi_tree s) n k v (rc_counter (hi_tree s)) U"
proof -
  let ?T = "hi_tree s"
  let ?m = "rc_counter ?T"
  have mN: "?m \<notin> N" using tiers_basics(5) [OF t] by blast
  have nm: "n \<noteq> ?m" using n mN devs_sub(2) by blast
  have leaves: "set (rc_evictable_leaves ?T) \<subseteq> devs N ?T" using tiers_okD(2) [OF t] by (auto simp: tree_inv_def leaves_ok_def)
  define A where "A = (upd_node n (\<lambda>nd. nd\<lparr>nd_children := dict_set (ckey (rc_page_size ?T) k) ?m (nd_children nd)\<rparr>)
      (upd_node ?m (\<lambda>nd. nd\<lparr>nd_parent := Some n, nd_key := k, nd_value := Some v\<rparr>) (snd (new_tree_node prio ?T))))
      \<lparr>rc_evictable_size := rc_evictable_size ?T + int (length v)\<rparr>"
  have a: "attach_effect ?T n k v ?m A" "\<And>x. hostof A x = (if x = ?m then None else hostof ?T x)"
    "\<And>x. nd_host_ref (rc_store A x) = (if x = ?m then 0 else nd_host_ref (rc_store ?T x))" "rc_evictable_leaves A = rc_evictable_leaves ?T"
    using nm v by (auto simp: A_def new_tree_node_eq upd_node_def attach_effect_def same_globals_def)
  note f = a(1) [unfolded attach_effect_def]
  have "list_ex (\<lambda>c. \<not> evicted (rc_store A c)) (dict_values (kids_of A n))"
  proof -
    have "dict_get (kids_of A n) (ckey (rc_page_size ?T) k) = Some ?m" using f nm by simp
    then have "?m \<in> set (dict_values (kids_of A n))" by (force dest: dict_get_Some_in)
    then show ?thesis using f unfolding list_ex_iff by (intro bexI [of _ ?m]) (simp_all add: evicted_def)
  qed
  then have 1: "update_leaf_status n A = A\<lparr>rc_evictable_leaves := removeAll n (rc_evictable_leaves ?T)\<rparr>"
    by (simp add: update_leaf_status_def discard_leaf_def a(4) Let_def)
  define U where "U = A\<lparr>rc_evictable_leaves := ?m # removeAll n (rc_evictable_leaves ?T)\<rparr>"
  have "?m \<notin> set (rc_evictable_leaves ?T)" using leaves mN devs_sub(2) by blast
  then have 2: "update_leaf_status ?m (A\<lparr>rc_evictable_leaves := removeAll n (rc_evictable_leaves ?T)\<rparr>) = U"
    using f by (simp add: update_leaf_status_def evicted_def Let_def U_def)
  have "leafed ?T n k v ?m U" unfolding leafed_def U_def using a by (simp add: attach_effect_def same_globals_def)
  moreover have "hi_update_leaf ?m (hi_update_leaf n (s\<lparr>hi_tree := A\<rparr>)) = s\<lparr>hi_tree := U\<rparr>"
    by (simp add: hi_update_leaf_def upd_tree_def 1 2)
  moreover have "upd_tree (\<lambda>t. t\<lparr>rc_evictable_size := rc_evictable_size t + int (length v)\<rparr>)
       (hi_upd n (\<lambda>nd. nd\<lparr>nd_children := dict_set (ckey (rc_page_size ?T) k) ?m (nd_children nd)\<rparr>)
         (hi_upd ?m (\<lambda>nd. nd\<lparr>nd_parent := Some n, nd_key := k, nd_value := Some v\<rparr>)
           (snd (on_tree (new_tree_node prio) s)))) = s\<lparr>hi_tree := A\<rparr>"
    by (simp add: upd_tree_def on_tree_def A_def upd_node_def new_tree_node_eq)
  ultimately show ?thesis using that by metis
qed

lemma hi_add_leaf_ok:
  assumes ok: "hi_ok N E H s" and n: "n \<in> devs N (hi_tree s)" and new: "dict_get (kids_of (hi_tree s) n) (ckey (rc_page_size (hi_tree s)) k) = None"
    and v: "length v = rk_len k" and k: "key_ok (hi_tree s) k" "0 < rk_len k" and path: "rpath (hi_tree s) (extra_key k) (hi_root s) n W V"
  shows "\<exists>r s' M. hi_add_leaf n k (Some v) (ckey (rc_page_size (hi_tree s)) k) prio chunked s = Some (r, s') \<and>
    (r = Inr () \<or> hi_enable_storage s \<and> (\<exists>e. r = Inl e)) \<and> hi_ok M E H s' \<and> hi_frame s s' \<and>
    grow N (hi_tree s) (extra_key k) (W @ rk_units k) (V @ v) (length v) M (hi_tree s')"
proof -
  let ?T = "hi_tree s"
  let ?m = "rc_counter ?T"
  let ?M = "insert ?m N"
  note t = hi_okD(1) [OF ok]
  have mN: "?m \<notin> N" using tiers_basics(5) [OF t] by blast
  obtain U where U: "hi_update_leaf ?m (hi_update_leaf n (upd_tree (\<lambda>t. t\<lparr>rc_evictable_size := rc_evictable_size t + int (length v)\<rparr>)
       (hi_upd n (\<lambda>nd. nd\<lparr>nd_children := dict_set (ckey (rc_page_size ?T) k) ?m (nd_children nd)\<rparr>)
         (hi_upd ?m (\<lambda>nd. nd\<lparr>nd_parent := Some n, nd_key := k, nd_value := Some v\<rparr>)
           (snd (on_tree (new_tree_node prio) s)))))) = s\<lparr>hi_tree := U\<rparr>" "leafed ?T n k v ?m U"
    by (rule add_leaf_tree [OF t n v])
  note g = leafed_grows [OF t n new mN U(2) v k path]
  have okU: "hi_ok ?M E H (s\<lparr>hi_tree := U\<rparr>)" by (rule hi_ok_leafed [OF ok n new U(2) v k path])
  have ev: "\<not> rc_events U" by (rule tiers_okD(9) [OF g(1)])
  have mU: "?m \<in> devs ?M U" using U(2) by (auto simp: leafed_def attach_effect_def devs_def)
  have mr: "?m \<noteq> rc_root U" using tiers_basics(1) [OF t] mN U(2) by (auto simp: leafed_def attach_effect_def same_globals_def)
  have fst: "on_tree (new_tree_node prio) s = (?m, snd (on_tree (new_tree_node prio) s))"
    by (simp add: on_tree_def new_tree_node_eq)
  have run: "hi_add_leaf n k (Some v) (ckey (rc_page_size ?T) k) prio chunked s =
     andThen (if hi_enable_storage s
              then case compute_node_hash_values ?m U of Inl e \<Rightarrow> Some (Inl e, s\<lparr>hi_tree := U\<rparr>)
                   | Inr hs \<Rightarrow> Some (Inr (), hi_upd ?m (\<lambda>nd. nd\<lparr>nd_hash := Some hs\<rparr>) (s\<lparr>hi_tree := U\<rparr>))
              else Some (Inr (), s\<lparr>hi_tree := U\<rparr>)) (\<lambda>_ s6. andThen (hi_store_event ?m None s6) (\<lambda>_ s7.
        if hi_write_policy s7 \<noteq> ''write_back'' then hi_inc_hit_count ?m chunked s7 else Some (Inr (), s7)))"
    unfolding hi_add_leaf_def Let_def option.case by (subst fst) (simp only: prod.case U(1) hi.select_convs hi.surjective hi.update_convs ev simp_thms if_cancel; simp add: ev)
  have fin: "\<exists>s' M. andThen (hi_store_event ?m None (s\<lparr>hi_tree := V'\<rparr>)) (\<lambda>_ s7.
        if hi_write_policy s7 \<noteq> ''write_back'' then hi_inc_hit_count ?m chunked s7 else Some (Inr (), s7)) = Some (Inr (), s') \<and>
      hi_ok M E H s' \<and> hi_frame s s' \<and> grow N ?T (extra_key k) (W @ rk_units k) (V @ v) (length v) M (hi_tree s')"
    if st: "same_tiers U V'" for V'
  proof -
    have okV: "hi_ok ?M E H (s\<lparr>hi_tree := V'\<rparr>)" using hi_ok_tiers [OF okU, of V'] st by simp
    note f = same_tiers_fields [OF st]
    have mV: "?m \<in> devs ?M V'" "?m \<noteq> rc_root V'" using mU mr by (simp_all add: devs_def f)
    obtain s' M where r: "hi_inc_hit_count ?m chunked (s\<lparr>hi_tree := V'\<rparr>) = Some (Inr (), s')" "hi_ok M E H s'" "hi_frame (s\<lparr>hi_tree := V'\<rparr>) s'"
        "dsame ?M V' M (hi_tree s')"
      using hi_inc_hit_count_ok [OF okV, of ?m chunked] mV by auto
    have tV: "tiers_ok ?M (\<lambda>n. E n + inflight (s\<lparr>hi_tree := V'\<rparr>) n) V' (hi_host_leaves s)" using hi_okD(1) [OF okV] by simp
    have "dkeep ?M U M (hi_tree s')"
      by (rule dkeep_trans [OF dkeep_dsame [OF g(1) tV dsame_shape [OF f(10)]] dkeep_dsame [OF tV hi_okD(1) [OF r(2)] r(4)]])
    from grow_dkeep [OF g(2) this] have "grow N ?T (extra_key k) (W @ rk_units k) (V @ v) (length v) M (hi_tree s')" .
    moreover have "\<not> rc_events V'" using ev same_shape_fields(16) [OF f(10)] by simp
    moreover have "hi_frame s s'" by (rule hi_frame_trans [OF _ r(3)]) simp
    ultimately show ?thesis using r(1,2) hi_cfgD(1) [OF ok] by auto
  qed
  show ?thesis
  proof (cases "hi_enable_storage s")
    case False
    then show ?thesis unfolding run using fin [OF same_tiers_refl] by auto
  next
    case True
    show ?thesis
    proof (cases "compute_node_hash_values ?m U")
      case (Inl e)
      have "hi_frame s (s\<lparr>hi_tree := U\<rparr>)" by simp
      then show ?thesis unfolding run using True Inl okU g(2) by auto
    next
      case (Inr hs)
      have "same_tiers U (upd_node ?m (\<lambda>nd. nd\<lparr>nd_hash := Some hs\<rparr>) U)" by (rule same_tiers_upd) simp_all
      from fin [OF this] show ?thesis unfolding run using True Inr by (auto simp: upd_tree_def)
    qed
  qed
qed

section \<open>The insertion\<close>

text \<open>
  The whole key is cached with the slots it had on the device for its longest prefix there, \<open>X\<close>, and
  the slots of the caller for the rest.
\<close>

definition hi_inserted :: "nat set \<Rightarrow> radix \<Rightarrow> radix_key \<Rightarrow> kv_index list \<Rightarrow> nat \<Rightarrow> nat set \<Rightarrow> radix \<Rightarrow> bool" where
  "hi_inserted N T k xs j M U \<longleftrightarrow> j \<le> rk_len k \<and> rc_page_size T dvd j \<and>
     (\<exists>X. length X = j \<and> grow N T (extra_key k) (rk_units k) (X @ drop j xs) (rk_len k - j) M U) \<and>
     (\<forall>l ws. l \<le> rk_len k \<and> rc_page_size T dvd l \<and> cached T (extra_key k) (take l (rk_units k)) ws \<longrightarrow> l \<le> j)"

lemma hi_insert_body:
  assumes ok: "hi_ok N E H s" and k: "key_ok (hi_tree s) k" "0 < rk_len k" and xs: "length xs = rk_len k"
  shows "\<exists>r j s' M. andThen (hi_insert_loop (hi_root s) k (Some xs) (ckey (rc_page_size (hi_tree s)) k) prio chunked 0 s)
      (\<lambda>(n, key', v', ck', tot) s1.
         andThen (if rk_len key' \<noteq> 0 then hi_add_leaf n key' v' ck' prio chunked s1 else Some (Inr (), s1)) (\<lambda>_ s2. Some (Inr tot, s2))) =
      Some (r, s') \<and> (r = Inr j \<or> hi_enable_storage s \<and> (\<exists>e. r = Inl e)) \<and> hi_ok M E H s' \<and> hi_frame s s' \<and>
    hi_inserted N (hi_tree s) k xs j M (hi_tree s')"
proof -
  let ?T = "hi_tree s" and ?us = "rk_units k" and ?ek = "extra_key k"
  note t = hi_okD(1) [OF ok]
  obtain n k' ck' s1 M i a X where l: "hi_insert_loop (hi_root s) k (Some xs) (ckey (rc_page_size ?T) k) prio chunked 0 s =
      Some (Inr (n, k', Some (drop i xs), ck', 0 + a), s1)" "hi_ok M E H s1" "hi_frame s s1"
      "walked N ?T k xs [] [] a i X n k' ck' M (hi_tree s1)"
    using insert_loop_walked [OF ok tiers_basics(4) [OF t] rpath.nil k(1) refl xs, where prio = prio and chunked = chunked and tot = 0] by blast
  note w = walkedD [OF l(4), simplified]
  have len: "rk_len k' = rk_len k - i" using arg_cong [OF w(7), of length] by simp
  have cut: "drop a (take i xs) @ drop i xs = drop a xs"
  proof -
    have "drop a (take i xs @ drop i xs) = drop a (take i xs) @ drop (a - length (take i xs)) (drop i xs)" by (rule drop_append)
    then show ?thesis using w(2,3) xs by simp
  qed
  show ?thesis
  proof (cases "i = rk_len k")
    case True
    have "hi_inserted N ?T k xs a M (hi_tree s1)"
      unfolding hi_inserted_def using w(2-6,13,14) True xs by auto
    then show ?thesis using l(1-3) len True by auto
  next
    case False
    then have i: "i < rk_len k" using w(3) by simp
    have g1: "same_globals ?T (hi_tree s1)" by (rule growD(2) [OF w(13)])
    then have ps: "rc_page_size (hi_tree s1) = rc_page_size ?T" "hi_root s1 = hi_root s" by (simp_all add: same_globals_def)
    have ck: "ck' = ckey (rc_page_size (hi_tree s1)) k'" using w(10) i ps by simp
    have k': "key_ok (hi_tree s1) k'" "0 < rk_len k'"
      using k(1) w(5,9) len i unfolding key_ok_globals [OF g1] by (simp_all add: key_ok_def)
    have path: "rpath (hi_tree s1) (extra_key k') (hi_root s1) n (take i ?us) (X @ drop a (take i xs))" using w(8,12) ps by simp
    obtain r s' M' where r: "hi_add_leaf n k' (Some (drop i xs)) ck' prio chunked s1 = Some (r, s')"
        "r = Inr () \<or> hi_enable_storage s1 \<and> (\<exists>e. r = Inl e)" "hi_ok M' E H s'" "hi_frame s1 s'"
        "grow M (hi_tree s1) (extra_key k') (take i ?us @ rk_units k') ((X @ drop a (take i xs)) @ drop i xs) (length (drop i xs)) M' (hi_tree s')"
      using hi_add_leaf_ok [OF l(2) w(1) _ _ k' path, of "drop i xs" prio chunked] w(11) i xs len unfolding ck by auto
    have "grow N ?T ?ek (take i ?us @ rk_units k') ((X @ drop a (take i xs)) @ drop i xs) (i - a + length (rk_units k')) M' (hi_tree s')"
      by (rule grow_trans [OF w(13)]) (use r(5) w(8) len xs in simp_all)
    moreover have "i - a + length (rk_units k') = rk_len k - a" using len w(2) i by simp
    ultimately have "grow N ?T ?ek ?us (X @ drop a xs) (rk_len k - a) M' (hi_tree s')" using w(7) cut by simp
    then have "hi_inserted N ?T k xs a M' (hi_tree s')"
      unfolding hi_inserted_def using w(2-4,6,14) i by auto
    moreover have "hi_frame s s'" by (rule hi_frame_trans [OF l(3) r(4)])
    moreover have "hi_enable_storage s1 = hi_enable_storage s" by (rule hi_frameD(1) [OF l(3)])
    ultimately show ?thesis using l(1) r(1-3) k'(2) by (cases r) auto
  qed
qed

lemma hi_insert_effect:
  assumes ok: "hi_ok N E H s" and v: "values_for (hi_tree s) k (Some xs)"
  shows "\<exists>r j s' M. hi_insert k (Some xs) priority chunked s = Some (r, s') \<and> (r = Inr j \<or> hi_enable_storage s \<and> (\<exists>e. r = Inl e)) \<and>
    hi_ok M E H s' \<and> hi_frame s s' \<and>
    hi_inserted N (hi_tree s) (view_key (hi_tree s) k) (insert_values (hi_tree s) k (Some xs)) j M (hi_tree s')"
proof -
  let ?T = "hi_tree s" and ?k = "view_key (hi_tree s) k" and ?v = "insert_values (hi_tree s) k (Some xs)"
  note t = hi_okD(1) [OF ok]
  have kf: "key_for ?T k" and len: "length ?v = rk_len ?k" using v by (auto simp: values_for_def)
  have ko: "key_ok ?T ?k" by (rule view_key_ok [OF kf])
  have un: "hi_insert k (Some xs) priority chunked s =
    (if rk_len ?k = 0 then Some (Inr 0, s)
     else case child_key (rc_page_size ?T) ?k of Inl e \<Rightarrow> Some (Inl e, s)
      | Inr ck \<Rightarrow> andThen (hi_insert_loop (rc_root ?T) ?k (Some ?v) ck (case priority of None \<Rightarrow> 0 | Some p \<Rightarrow> p) chunked 0 s) (\<lambda>(n, key', v', ck', tot) s1.
          andThen (if rk_len key' \<noteq> 0 then hi_add_leaf n key' v' ck' (case priority of None \<Rightarrow> 0 | Some p \<Rightarrow> p) chunked s1 else Some (Inr (), s1)) (\<lambda>_ s2.
            Some (Inr tot, s2))))"
  proof -
    obtain key0 v1 where mv: "maybe_to_bigram_view (rc_is_eagle ?T) k (Some xs) = (key0, v1)" by (rule prod.exhaust)
    have K: "page_aligned (rc_page_size ?T) key0 = ?k"
      using mv by (auto simp: view_key_def maybe_to_bigram_view_def Let_def split: if_splits)
    have le: "rk_len ?k \<le> rk_len key0" unfolding K [symmetric] by simp
    have "map_option (take (rk_len ?k)) v1 = Some ?v"
      using mv le by (auto simp: insert_values_def maybe_to_bigram_view_def Let_def min_def split: if_splits)
    then show ?thesis unfolding hi_insert_def Let_def mv prod.case K by (rule ssubst) simp
  qed
  show ?thesis
  proof (cases "rk_len ?k = 0")
    case True
    have u: "rk_units ?k = []" "?v = []" using True len length_0_conv [of "rk_units ?k"] by simp_all
    have "cached ?T (extra_key ?k) [] []" by (rule cached_rpath [OF rpath.nil]) simp
    then have "hi_inserted N ?T ?k ?v 0 N ?T"
      unfolding hi_inserted_def using True u grow_refl [of ?T "extra_key ?k" "[]" "[]" N] by simp
    then show ?thesis using un True ok hi_frame_intros(1) by auto
  next
    case False
    then have k0: "0 < rk_len ?k" by simp
    show ?thesis
      unfolding un child_key_ckey [OF ko tiers_basics(3) [OF t] k0]
      using hi_insert_body [OF ok ko k0 len] False by simp
  qed
qed

end
