(* ===== verification/Spec2Isabelle.thy ===== *)
theory Spec2Isabelle
  imports Disk_Tier Radix_Requests Anthropic_Proxy Swa_Allocator Multimodal_Cache Reasoning_Parser Hi_Insert
begin

text \<open>
  \<^bold>\<open>What this development verifies.\<close> The repository serves DeepSeek-V4 class models with a patched
  SGLang (\<^verbatim>\<open>src/sglang-diskkv/sglang-source/python/sglang\<close>, below \<^verbatim>\<open>srt/\<close>) whose prefix cache has
  three tiers: KV slots on the device, pages in pinned host memory, and page files on an SSD. In
  front of it stand an agent gateway (\<^verbatim>\<open>src/gateway\<close>) and a translation proxy
  (\<^verbatim>\<open>src/scripts/anthropic_proxy.py\<close>) that speak the OpenAI and the Anthropic protocol. The theories
  model the state that these parts keep and the operations that change it, and prove that slots,
  pages, bytes and messages are neither lost nor invented on the way.

  \<^bold>\<open>Conventions.\<close> A Python exception is a value: a fallible operation returns
  \<^typ>\<open>py_exc + 'a\<close> with the exception on the left (\<^verbatim>\<open>Prelude\<close>). Objects are records, mutable objects that
  are shared are entries of a store indexed by identifiers, dictionaries are association lists in
  insertion order. Bytes are lists, text of the protocols is a list of code points. A loop that
  follows pointers is a \<^theory_text>\<open>partial_function (option)\<close>, and that it returns is part of the theorems
  about it. What the environment decides (whether a write fails, the clock, the order in which the
  instances of a kernel run, the answers of the upstream server) is an argument. Code outside the
  repository (SHA-256, the tuple hash) is a parameter.

  \<^bold>\<open>The device tier.\<close>
  \<^item> \<^verbatim>\<open>Kv_Allocator\<close>: \<^verbatim>\<open>mem_cache/allocator.py\<close>, the token and the paged allocator with the Triton kernels
    \<^verbatim>\<open>alloc_extend_kernel\<close> and \<^verbatim>\<open>alloc_decode_kernel\<close> as writes to device memory, one per instance. The
    free pages and the pages handed out partition the pool; a kernel launch agrees with the Python
    reference whatever the order of its instances; slots are distinct; an allocation fails only when
    the pool is short.
  \<^item> \<^verbatim>\<open>Swa_Allocator\<close>: \<^verbatim>\<open>SWATokenToKVPoolAllocator\<close> of \<^verbatim>\<open>mem_cache/swa_memory_pool.py\<close>, two inner allocators and
    the mapping from full to window slots. The mapping follows every operation.
  \<^item> \<^verbatim>\<open>Req_Pool\<close>: \<^verbatim>\<open>ReqToTokenPool\<close> of \<^verbatim>\<open>mem_cache/memory_pool.py\<close> and the table writes of \<^verbatim>\<open>mem_cache/common.py\<close>.
  \<^item> \<^verbatim>\<open>Multimodal_Cache\<close>: \<^verbatim>\<open>mem_cache/multimodal_cache.py\<close>.

  \<^bold>\<open>The prefix cache.\<close>
  \<^item> \<^verbatim>\<open>Radix_Key\<close>, \<^verbatim>\<open>Block_Hash\<close>, \<^verbatim>\<open>Radix_Tree\<close>: the definitions, from \<^verbatim>\<open>mem_cache/radix_cache.py\<close>,
    \<^verbatim>\<open>evict_policy.py\<close>, \<^verbatim>\<open>events.py\<close> and \<^verbatim>\<open>utils.py\<close>. Nodes live in a store; the tree carries the allocator
    it returns slots to.
  \<^item> \<^verbatim>\<open>Radix_Inv\<close>, \<^verbatim>\<open>Radix_Locks\<close>, \<^verbatim>\<open>Radix_Paths\<close>, \<^verbatim>\<open>Radix_Match\<close>, \<^verbatim>\<open>Radix_Evict\<close>: the invariant (shape, lock
    counts, sizes, leaf set, ownership of slots), what the tree stores as a set of sequences, and what
    each walk does to both. \<^verbatim>\<open>Radix_Cache\<close>: every reachable state is well formed, a match returns the
    longest stored prefix, an insertion adds exactly its suffix, an eviction frees what is unlocked.
  \<^item> \<^verbatim>\<open>Radix_Requests\<close>: \<^verbatim>\<open>cache_finished_req\<close>, \<^verbatim>\<open>cache_unfinished_req\<close>, \<^verbatim>\<open>evict_from_tree_cache\<close> and the
    allocation and release of a request's slots (\<^verbatim>\<open>radix_cache.py\<close>, \<^verbatim>\<open>common.py\<close>, \<^verbatim>\<open>chunk_cache.py\<close>). Every slot of
    a request ends up in the tree or back in the pool, exactly once.

  \<^bold>\<open>The host and the disk tier.\<close>
  \<^item> \<^verbatim>\<open>Dsv4_Host\<close>, \<^verbatim>\<open>Dsv4_Transfer\<close>: \<^verbatim>\<open>mem_cache/deepseek_v4_memory_pool_host.py\<close>. A page that is backed up and
    loaded again is the same page.
  \<^item> \<^verbatim>\<open>HiCache_Storage\<close>, \<^verbatim>\<open>Disk_Offload\<close>: \<^verbatim>\<open>mem_cache/hicache_storage.py\<close> and
    \<^verbatim>\<open>storage/disk_offload/disk_offload_backend.py\<close>. The byte counter is the sum of the index, the budget
    holds after every write, eviction is least recently used, a page that was set can be read back,
    also after the directory is opened again.
  \<^item> \<^verbatim>\<open>Cache_Controller\<close>, \<^verbatim>\<open>Disk_Tier\<close>: the storage threads of \<^verbatim>\<open>managers/cache_controller.py\<close> between the host
    pool and the backend. The controller is proved against three interfaces, the locales
    \<open>page_backend\<close>, \<open>host_pages\<close> and \<open>tiers\<close>, which \<^verbatim>\<open>Disk_Tier\<close> interprets on the disk backend and on the
    DeepSeek-V4 host pool: a backup that is prefetched brings back the pages it wrote.

  \<^bold>\<open>The protocols.\<close>
  \<^item> \<^verbatim>\<open>Json\<close>, \<^verbatim>\<open>Gateway\<close>, \<^verbatim>\<open>Anthropic_Proxy\<close>: \<^verbatim>\<open>gateway/lna_agent_gateway\<close> and \<^verbatim>\<open>scripts/anthropic_proxy.py\<close>. The
    scanner of JSON takes as fuel twice the length of its input and two, which the lemma \<open>scan_fuel\<close>
    shows to be enough.
  \<^item> \<^verbatim>\<open>Reasoning_Parser\<close>: \<^verbatim>\<open>parser/reasoning_parser.py\<close>, with the agreement of the incremental and the one-shot
    parser.

  \<^bold>\<open>Not modelled.\<close> Kernels and layers that compute on tensors (\<^verbatim>\<open>srt/layers\<close>, \<^verbatim>\<open>srt/models\<close>, the compressor that
    fills the DeepSeek-V4 pool, \<^verbatim>\<open>Lang4-sm120\<close>): their meaning is floating-point arithmetic on the device.
    The scheduler and the model runner (\<^verbatim>\<open>srt/managers/scheduler.py\<close>, \<^verbatim>\<open>srt/model_executor\<close>): event loops over
    these components, CUDA graphs and process groups. The caches for Mamba states and the unified
    cache (\<^verbatim>\<open>mamba_radix_cache.py\<close>, \<^verbatim>\<open>swa_radix_cache.py\<close>, \<^verbatim>\<open>unified_radix_cache.py\<close>) are not used by the configurations
    of this repository. The other storage backends (Mooncake, HF3FS, NIXL, EIC) are clients of
    external services. The token-level parser of \<^verbatim>\<open>harmony_parser.py\<close>, the command line
    (\<^verbatim>\<open>server_args.py\<close>), launch scripts, benchmarks and packaging are left out.
\<close>

end
